(* ===== verification/Cat_Prelude.thy ===== *)
theory Cat_Prelude
  imports Main "HOL-Library.Word"
begin

unbundle bit_operations_syntax

text \<open>
  Shared vocabulary of the development: the C integer types as words, the outcome of running a
  piece of C code, the error codes of \<^verbatim>\<open>cat_error.h\<close> that the modelled functions set, byte
  blocks with bounds-checked reads and writes, and the generic lemmas on lists and words the
  component theories rely on.

  The platform is the LP64 little-endian one (\<^verbatim>\<open>CAT_L64\<close>): \<^verbatim>\<open>size_t\<close>, \<^verbatim>\<open>unsigned long\<close> and
  pointers have 64 bits, the low byte of an integer comes first in memory.
\<close>

subsection \<open>Machine types\<close>

type_synonym byte = "8 word"
type_synonym u8 = "8 word"
type_synonym u16 = "16 word"
type_synonym u32 = "32 word"
type_synonym u64 = "64 word"
type_synonym size_t = "64 word"
type_synonym addr = nat \<comment> \<open>the address of an object\<close>
type_synonym cat_msec_t = "64 word"
type_synonym cat_timeout_t = int \<comment> \<open>an \<open>int64_t\<close>; only its sign and value are read\<close>

named_theorems c_simps \<open>unfolding the outcome combinators and the block accessors\<close>
named_theorems byte_simps \<open>bit-level facts on bytes and the integers built from them\<close>

subsection \<open>Outcomes of C code\<close>

text \<open>
  \<open>Done x\<close>: the code returns \<open>x\<close>. \<open>Diverges\<close>: a loop never ends. \<open>Undefined\<close>: undefined
  behaviour (an access outside an object, or a violated \<^verbatim>\<open>CAT_ASSERT\<close>, which release builds turn
  into \<^verbatim>\<open>CAT_ASSUME\<close>).
\<close>

datatype 'a c_run = Done 'a | Diverges | Undefined

fun c_bind :: "'a c_run \<Rightarrow> ('a \<Rightarrow> 'b c_run) \<Rightarrow> 'b c_run" where
  "c_bind (Done x) f = f x"
| "c_bind Diverges f = Diverges"
| "c_bind Undefined f = Undefined"

definition c_assert :: "bool \<Rightarrow> 'a c_run \<Rightarrow> 'a c_run" where
  "c_assert P r = (if P then r else Undefined)"

lemma run_kept: "\<exists>w'. f = Done w' \<and> P w' \<Longrightarrow> f = Done w \<Longrightarrow> P w"
  by auto

lemma c_bind_Done_iff: "c_bind r f = Done y \<longleftrightarrow> (\<exists>x. r = Done x \<and> f x = Done y)"
  by (cases r) auto

lemma c_bind_assoc: "c_bind (c_bind r f) g = c_bind r (\<lambda>x. c_bind (f x) g)"
  by (cases r) auto

lemma c_assert_True [simp]: "P \<Longrightarrow> c_assert P r = r"
  by (simp add: c_assert_def)

lemma c_assert_Done_iff: "c_assert P r = Done y \<longleftrightarrow> P \<and> r = Done y"
  by (simp add: c_assert_def)

text \<open>The usual shape of a call: run, then look at the error and the new state.\<close>

lemma c_bind_call_Done:
  "c_bind m (\<lambda>(r, w). case r of Inl e \<Rightarrow> f e w | Inr d \<Rightarrow> g d w) = Done y \<longleftrightarrow>
     (\<exists>e w. m = Done (Inl e, w) \<and> f e w = Done y) \<or> (\<exists>d w. m = Done (Inr d, w) \<and> g d w = Done y)"
proof (cases m)
  case (Done p)
  then show ?thesis by (cases p; cases "fst p") auto
qed auto

lemmas c_run_iffs = c_bind_Done_iff c_assert_Done_iff

subsection \<open>Error codes\<close>

text \<open>The codes of \<^verbatim>\<open>CAT_ERRNO_MAP\<close> that the modelled operations hand to
  \<^verbatim>\<open>cat_update_last_error\<close>. An operation that returns \<^verbatim>\<open>cat_false\<close> or \<^verbatim>\<open>NULL\<close> is modelled by
  \<open>Inl\<close> of the code it sets.\<close>

datatype cat_errno =
    CAT_EINVAL | CAT_EMISUSE | CAT_ECLOSED | CAT_ECANCELED | CAT_ETIMEDOUT
  | CAT_EBADF | CAT_EBUSY | CAT_ESRCH | CAT_ENOMEM | CAT_EDEADLK
  | CAT_ENOSPC | CAT_EAFNOSUPPORT | CAT_ENAMETOOLONG | CAT_ENOBUFS | CAT_ECONNRESET | CAT_ELOCKED
  | CAT_ENOTCONN | CAT_EISCONN | CAT_EAGAIN | CAT_EMSGSIZE | CAT_ECHILD | CAT_ENOTSUP

subsection \<open>Blocks of bytes\<close>

text \<open>An object of the heap is the list of its bytes; \<open>mem_write\<close> is \<^verbatim>\<open>memcpy\<close>/\<^verbatim>\<open>memmove\<close> into it
  at an offset, \<open>mem_read\<close> the bytes such a copy reads. Leaving the object is undefined.\<close>

definition mem_write :: "'a list \<Rightarrow> nat \<Rightarrow> 'a list \<Rightarrow> 'a list c_run" where
  "mem_write blk off xs =
     (if off + length xs \<le> length blk
      then Done (take off blk @ xs @ drop (off + length xs) blk) else Undefined)"

definition mem_read :: "'a list \<Rightarrow> nat \<Rightarrow> nat \<Rightarrow> 'a list c_run" where
  "mem_read blk off n = (if off + n \<le> length blk then Done (take n (drop off blk)) else Undefined)"

lemma mem_write_Done [simp]:
  "off + length xs \<le> length blk \<Longrightarrow>
   mem_write blk off xs = Done (take off blk @ xs @ drop (off + length xs) blk)"
  by (simp add: mem_write_def)

lemma mem_write_Done_iff:
  "mem_write blk off xs = Done blk' \<longleftrightarrow>
   off + length xs \<le> length blk \<and> blk' = take off blk @ xs @ drop (off + length xs) blk"
  by (auto simp: mem_write_def)

lemma mem_write_length: "mem_write blk off xs = Done blk' \<Longrightarrow> length blk' = length blk"
  by (auto simp: mem_write_def split: if_splits)

lemma mem_write_take:
  "mem_write blk off xs = Done blk' \<Longrightarrow> take (off + length xs) blk' = take off blk @ xs"
  by (auto simp: mem_write_def split: if_splits)

lemma mem_read_Done [simp]:
  "off + n \<le> length blk \<Longrightarrow> mem_read blk off n = Done (take n (drop off blk))"
  by (simp add: mem_read_def)

declare c_bind_Done_iff [c_simps] c_assert_def [c_simps] mem_write_def [c_simps] mem_read_def [c_simps]

subsection \<open>State machines\<close>

text \<open>The states a component can be in: from a start state by any sequence of its operations. What the
  operations owe is an invariant that holds at the start and is kept by every step.\<close>

inductive reach :: "('s \<Rightarrow> bool) \<Rightarrow> ('s \<Rightarrow> 's \<Rightarrow> bool) \<Rightarrow> 's \<Rightarrow> bool" for start step where
  reach_start: "start w \<Longrightarrow> reach start step w"
| reach_step: "reach start step w \<Longrightarrow> step w w' \<Longrightarrow> reach start step w'"

locale machine =
  fixes start :: "'s \<Rightarrow> bool" and step :: "'s \<Rightarrow> 's \<Rightarrow> bool" and inv :: "'s \<Rightarrow> bool"
  assumes inv_start: "start w \<Longrightarrow> inv w"
    and inv_step: "step w w' \<Longrightarrow> inv w \<Longrightarrow> inv w'"
begin

lemma reach_inv: "reach start step w \<Longrightarrow> inv w"
  by (induction rule: reach.induct) (auto intro: inv_start inv_step)

lemma steps_inv: "step\<^sup>*\<^sup>* w w' \<Longrightarrow> inv w \<Longrightarrow> inv w'"
  by (induction rule: rtranclp_induct) (auto intro: inv_step)

end

subsection \<open>Words and naturals\<close>

lemma unat_add_lt:
  fixes a b :: "'a::len word"
  assumes "unat a + unat b < 2 ^ LENGTH('a)"
  shows "unat (a + b) = unat a + unat b"
  using assms by (simp add: unat_add_lem)

lemma unat_of_nat_lt:
  "n < 2 ^ LENGTH('a::len) \<Longrightarrow> unat (of_nat n :: 'a word) = n"
  by (simp add: unsigned_of_nat take_bit_nat_eq_self)

lemma take_bit_unat [simp]: "take_bit LENGTH('a) (unat (w :: 'a::len word)) = unat w"
  by (simp add: take_bit_nat_eq_self)

lemma unat_drop_bit: "unat (drop_bit n (w :: 'a::len word)) = unat w div 2 ^ n"
  by (simp only: unsigned_drop_bit_eq take_bit_unat) (simp add: drop_bit_eq_div)

lemma unat_push_bit:
  "unat w * 2 ^ n < 2 ^ LENGTH('a) \<Longrightarrow> unat (push_bit n (w :: 'a::len word)) = unat w * 2 ^ n"
  by (simp only: unsigned_push_bit_eq) (simp add: push_bit_eq_mult take_bit_nat_eq_self)

lemma unat_mask: "n < LENGTH('a) \<Longrightarrow> unat (mask n :: 'a::len word) = 2 ^ n - 1"
  by (simp flip: nat_uint_eq add: uint_mask_eq)
    (simp add: mask_eq_exp_minus_1 nat_diff_distrib nat_power_eq)

lemma unat_and_low_bits: "unat ((i :: 'a::len word) AND mask n) = unat i mod 2 ^ n"
  by (simp flip: take_bit_eq_mask add: unsigned_take_bit_eq) (simp add: take_bit_eq_mod)

lemma unat_pow2: "n < LENGTH('a) \<Longrightarrow> unat (2 ^ n :: 'a::len word) = 2 ^ n"
  using unat_of_nat_lt [of "2 ^ n", where 'a = 'a] by simp

lemma size_t_bound: "unat (x :: size_t) < 2 ^ 64"
  using unsigned_less [of x] by simp

lemma sint_small: "unat (w :: 64 word) < 2 ^ 63 \<Longrightarrow> sint w = int (unat w)"
proof -
  assume "unat w < 2 ^ 63"
  then have "int (unat w) < int (2 ^ 63)" by (simp only: of_nat_less_iff)
  then have "uint w < 2 ^ 63" by simp
  then have "signed_take_bit 63 (uint w) = uint w"
    by (intro signed_take_bit_int_eq_self) (auto intro: order_trans [OF _ uint_ge_0])
  then show ?thesis by (simp add: sint_uint)
qed

lemma of_nat_unat_size_t [simp]: "of_nat (unat (x :: 'a::len word)) = x"
  by simp

subsection \<open>Numbers as text\<close>

text \<open>\<^verbatim>\<open>%x\<close> of an unsigned number.\<close>

fun hex_text :: "nat \<Rightarrow> byte list" where
  "hex_text n =
     (if n < 16 then [if n < 10 then of_nat (48 + n) else of_nat (87 + n)]
      else hex_text (n div 16) @ [if n mod 16 < 10 then of_nat (48 + n mod 16) else of_nat (87 + n mod 16)])"

declare hex_text.simps [simp del]

lemma hex_text_length: "n < 16 ^ k \<Longrightarrow> 0 < k \<Longrightarrow> length (hex_text n) \<le> k"
proof (induction n arbitrary: k rule: hex_text.induct)
  case (1 n)
  show ?case
  proof (cases "n < 16")
    case False
    obtain k' where k: "k = Suc k'" using "1.prems"(2) by (cases k) auto
    moreover from this False "1.prems"(1) have "0 < k'" by (cases k') auto
    moreover from k "1.prems" have "n div 16 < 16 ^ k'" by (simp add: div_less_iff_less_mult mult.commute)
    ultimately show ?thesis using "1.IH" [OF False] False by (simp add: hex_text.simps [of n])
  qed (use "1.prems" in \<open>simp add: hex_text.simps [of n]\<close>)
qed

end
