(* ===== verification/Cat_Queue.thy ===== *)
theory Cat_Queue
  imports Cat_Prelude
begin

text \<open>
  The intrusive circular doubly linked queue of \<^verbatim>\<open>include/cat_queue.h\<close>, at pointer level. A
  \<^verbatim>\<open>cat_queue_t\<close> and a \<^verbatim>\<open>cat_queue_node_t\<close> are both a pair of pointers, so one heap maps the
  address of a node (or of the queue head) to its \<open>next\<close> and \<open>prev\<close> fields. Every macro is one
  definition, its assignments in the source's order.

  \<open>queue_of h q ns\<close> says that the heap holds, at head \<open>q\<close>, exactly the nodes \<open>ns\<close> in order. The
  lemmas show that the macros implement the list operations under this abstraction, and the
  locale \<open>fifo_queue\<close> states that interface for the components that keep waiters, buckets and
  tasks in such queues.
\<close>

record qheap =
  qnext :: "addr \<Rightarrow> addr"
  qprev :: "addr \<Rightarrow> addr"

definition set_next :: "addr \<Rightarrow> addr \<Rightarrow> qheap \<Rightarrow> qheap" where
  "set_next a b h = h\<lparr>qnext := (qnext h)(a := b)\<rparr>"

definition set_prev :: "addr \<Rightarrow> addr \<Rightarrow> qheap \<Rightarrow> qheap" where
  "set_prev a b h = h\<lparr>qprev := (qprev h)(a := b)\<rparr>"

definition cat_queue_init :: "addr \<Rightarrow> qheap \<Rightarrow> qheap" where
  "cat_queue_init q h = set_prev q q (set_next q q h)"

definition cat_queue_empty :: "addr \<Rightarrow> qheap \<Rightarrow> bool" where
  "cat_queue_empty q h \<longleftrightarrow> q = qnext h q"

definition cat_queue_front :: "addr \<Rightarrow> qheap \<Rightarrow> addr option" where
  "cat_queue_front q h = (if \<not> cat_queue_empty q h then Some (qnext h q) else None)"

definition cat_queue_back :: "addr \<Rightarrow> qheap \<Rightarrow> addr option" where
  "cat_queue_back q h = (if \<not> cat_queue_empty q h then Some (qprev h q) else None)"

definition cat_queue_push_front :: "addr \<Rightarrow> addr \<Rightarrow> qheap \<Rightarrow> qheap" where
  "cat_queue_push_front q n h =
     (let h1 = set_next n (qnext h q) h;
          h2 = set_prev n q h1;
          h3 = set_prev (qnext h2 n) n h2
      in set_next q n h3)"

definition cat_queue_push_back :: "addr \<Rightarrow> addr \<Rightarrow> qheap \<Rightarrow> qheap" where
  "cat_queue_push_back q n h =
     (let h1 = set_next n q h;
          h2 = set_prev n (qprev h1 q) h1;
          h3 = set_next (qprev h2 n) n h2
      in set_prev q n h3)"

definition cat_queue_remove :: "addr \<Rightarrow> qheap \<Rightarrow> qheap" where
  "cat_queue_remove n h =
     (let h1 = set_next (qprev h n) (qnext h n) h
      in set_prev (qnext h1 n) (qprev h1 n) h1)"

text \<open>\<^verbatim>\<open>CAT_QUEUE_FOREACH_START\<close> and its reverse form visit the nodes from a start node until the
  head comes back; the fuel bounds the walk on a corrupted heap.\<close>

fun cat_queue_foreach_from :: "nat \<Rightarrow> addr \<Rightarrow> addr \<Rightarrow> qheap \<Rightarrow> addr list option" where
  "cat_queue_foreach_from 0 q n h = (if n = q then Some [] else None)"
| "cat_queue_foreach_from (Suc k) q n h =
     (if n = q then Some [] else map_option ((#) n) (cat_queue_foreach_from k q (qnext h n) h))"

definition cat_queue_foreach :: "nat \<Rightarrow> addr \<Rightarrow> qheap \<Rightarrow> addr list option" where
  "cat_queue_foreach k q h = cat_queue_foreach_from k q (qnext h q) h"

fun cat_queue_reverse_foreach_from :: "nat \<Rightarrow> addr \<Rightarrow> addr \<Rightarrow> qheap \<Rightarrow> addr list option" where
  "cat_queue_reverse_foreach_from 0 q n h = (if n = q then Some [] else None)"
| "cat_queue_reverse_foreach_from (Suc k) q n h =
     (if n = q then Some []
      else map_option ((#) n) (cat_queue_reverse_foreach_from k q (qprev h n) h))"

definition cat_queue_reverse_foreach :: "nat \<Rightarrow> addr \<Rightarrow> qheap \<Rightarrow> addr list option" where
  "cat_queue_reverse_foreach k q h = cat_queue_reverse_foreach_from k q (qprev h q) h"

subsection \<open>The abstraction\<close>

text \<open>A doubly linked segment from \<open>a\<close> through \<open>ns\<close> to \<open>b\<close>.\<close>

fun dseg :: "qheap \<Rightarrow> addr \<Rightarrow> addr list \<Rightarrow> addr \<Rightarrow> bool" where
  "dseg h a [] b \<longleftrightarrow> qnext h a = b \<and> qprev h b = a"
| "dseg h a (n # ns) b \<longleftrightarrow> qnext h a = n \<and> qprev h n = a \<and> dseg h n ns b"

definition queue_of :: "qheap \<Rightarrow> addr \<Rightarrow> addr list \<Rightarrow> bool" where
  "queue_of h q ns \<longleftrightarrow> distinct (q # ns) \<and> dseg h q ns q"

lemmas queue_op_defs =
  set_next_def set_prev_def cat_queue_init_def cat_queue_push_front_def
  cat_queue_push_back_def cat_queue_remove_def Let_def

lemma dseg_append: "dseg h a (xs @ n # ys) b \<longleftrightarrow> dseg h a xs n \<and> dseg h n ys b"
  by (induction xs arbitrary: a) auto

lemma dseg_frame:
  "\<lbrakk>\<And>x. x \<in> set (a # ns) \<Longrightarrow> qnext h' x = qnext h x;
    \<And>x. x \<in> set (ns @ [b]) \<Longrightarrow> qprev h' x = qprev h x\<rbrakk> \<Longrightarrow> dseg h' a ns b \<longleftrightarrow> dseg h a ns b"
  by (induction ns arbitrary: a) auto

lemma dseg_first: "dseg h a ns b \<Longrightarrow> qnext h a = hd (ns @ [b])"
  by (cases ns) auto

lemma dseg_last: "dseg h a ns b \<Longrightarrow> qprev h b = last (a # ns)"
  by (induction ns arbitrary: a) auto

text \<open>Linking the neighbours of a node to each other takes the node out of the segment.\<close>

lemma dseg_relink:
  assumes "dseg h n ys b" and "distinct (l # ys)" and "b \<notin> set ys"
    and "qnext h' = (qnext h)(l := hd (ys @ [b]))" and "qprev h' = (qprev h)(hd (ys @ [b]) := l)"
  shows "dseg h' l ys b"
proof (cases ys)
  case (Cons y ys')
  then have "dseg h' y ys' b \<longleftrightarrow> dseg h y ys' b"
    using assms by (intro dseg_frame) auto
  with assms Cons show ?thesis by auto
qed (use assms in auto)

lemma dseg_unlink:
  assumes "dseg h q xs n" and "dseg h n ys q" and dist: "distinct (q # xs @ n # ys)"
    and upd: "qnext h' = (qnext h)(last (q # xs) := hd (ys @ [q]))"
      "qprev h' = (qprev h)(hd (ys @ [q]) := last (q # xs))"
  shows "dseg h' q (xs @ ys) q"
proof (cases xs rule: rev_cases)
  case Nil
  with assms show ?thesis using dseg_relink [of h n ys q q h'] by auto
next
  case (snoc xs' l)
  have hd: "hd (ys @ [q]) \<notin> set xs' \<union> {l}"
    using dist snoc by (cases ys) auto
  have nx: "qnext h' x = qnext h x" if "x \<noteq> l" for x
    using that by (simp add: upd(1) snoc)
  have pr: "qprev h' x = qprev h x" if "x \<noteq> hd (ys @ [q])" for x
    using that by (simp add: upd(2))
  have "dseg h' q xs' l \<longleftrightarrow> dseg h q xs' l"
  proof (rule dseg_frame)
    show "qnext h' x = qnext h x" if "x \<in> set (q # xs')" for x
      using that dist snoc by (intro nx) auto
    show "qprev h' x = qprev h x" if "x \<in> set (xs' @ [l])" for x
      using that hd by (intro pr) auto
  qed
  moreover have "dseg h' l ys q"
  proof (rule dseg_relink)
    show "dseg h n ys q" by fact
    show "distinct (l # ys)" "q \<notin> set ys" using dist snoc by auto
    show "qnext h' = (qnext h)(l := hd (ys @ [q]))" "qprev h' = (qprev h)(hd (ys @ [q]) := l)"
      by (simp_all add: upd snoc)
  qed
  ultimately show ?thesis using assms(1) snoc by (simp add: dseg_append)
qed

lemma queue_of_frame:
  "\<lbrakk>\<And>x. x \<in> set (q # ns) \<Longrightarrow> qnext h' x = qnext h x \<and> qprev h' x = qprev h x\<rbrakk> \<Longrightarrow>
   queue_of h' q ns \<longleftrightarrow> queue_of h q ns"
  unfolding queue_of_def by (subst dseg_frame [of q ns h' h q]) auto

lemma queue_of_init: "queue_of (cat_queue_init q h) q []"
  by (simp add: queue_of_def queue_op_defs)

lemma queue_of_empty: "queue_of h q ns \<Longrightarrow> cat_queue_empty q h \<longleftrightarrow> ns = []"
  by (cases ns) (auto simp: queue_of_def cat_queue_empty_def)

lemma queue_of_front:
  "queue_of h q ns \<Longrightarrow> cat_queue_front q h = (case ns of [] \<Rightarrow> None | n # _ \<Rightarrow> Some n)"
  by (cases ns) (auto simp: cat_queue_empty_def cat_queue_front_def queue_of_def)

lemma queue_of_back:
  assumes "queue_of h q ns"
  shows "cat_queue_back q h = (if ns = [] then None else Some (last ns))"
  using assms queue_of_empty [OF assms] dseg_last [of h q ns q]
  by (simp add: cat_queue_back_def queue_of_def)

text \<open>Pushing a node that is in no queue; removing a node from where it stands.\<close>

lemma queue_of_push_front:
  assumes q: "queue_of h q ns" and n: "n \<notin> set (q # ns)"
  shows "queue_of (cat_queue_push_front q n h) q (n # ns)"
proof (cases ns)
  case Nil
  with q n show ?thesis by (simp add: queue_of_def queue_op_defs)
next
  case (Cons m ms)
  let ?h = "cat_queue_push_front q n h"
  have "dseg ?h m ms q \<longleftrightarrow> dseg h m ms q"
    using q n Cons by (intro dseg_frame) (auto simp: queue_of_def queue_op_defs)
  with q n Cons show ?thesis by (auto simp: queue_of_def queue_op_defs)
qed

lemma queue_of_push_back:
  assumes q: "queue_of h q ns" and n: "n \<notin> set (q # ns)"
  shows "queue_of (cat_queue_push_back q n h) q (ns @ [n])"
proof (cases ns rule: rev_cases)
  case Nil
  with q n show ?thesis by (simp add: queue_of_def queue_op_defs)
next
  case (snoc ms m)
  let ?h = "cat_queue_push_back q n h"
  from q snoc have d: "dseg h q ms m" "qprev h q = m"
    by (auto simp: queue_of_def dseg_append)
  have "dseg ?h q ms m \<longleftrightarrow> dseg h q ms m"
    using q n snoc d(2) by (intro dseg_frame) (auto simp: queue_of_def queue_op_defs)
  with q n snoc d show ?thesis
    by (auto simp: queue_of_def dseg_append) (auto simp: queue_op_defs)
qed

lemma queue_of_remove:
  assumes q: "queue_of h q (xs @ n # ys)"
  shows "queue_of (cat_queue_remove n h) q (xs @ ys)"
proof -
  let ?h = "cat_queue_remove n h"
  define a b where "a = last (q # xs)" and "b = hd (ys @ [q])"
  from q have d1: "dseg h q xs n" and d2: "dseg h n ys q" and dist: "distinct (q # xs @ n # ys)"
    by (auto simp: queue_of_def dseg_append)
  have links: "qprev h n = a" "qnext h n = b"
    using dseg_last [OF d1] dseg_first [OF d2] by (simp_all add: a_def b_def)
  have ab: "a \<noteq> n" "b \<noteq> n"
    using dist by (auto simp: a_def b_def hd_append hd_conv_nth last_conv_nth nth_eq_iff_index_eq)
  have eqs: "qnext ?h = (qnext h)(a := b)" "qprev ?h = (qprev h)(b := a)"
    using links ab by (auto simp: queue_op_defs)
  have "dseg ?h q (xs @ ys) q"
    using d1 d2 dist eqs unfolding a_def b_def
    by (rule dseg_unlink)
  with dist show ?thesis by (auto simp: queue_of_def)
qed

subsection \<open>Iteration and frames\<close>

lemma foreach_from_dseg:
  "\<lbrakk>dseg h a ns q; q \<notin> set ns; length ns \<le> k\<rbrakk> \<Longrightarrow>
   cat_queue_foreach_from k q (qnext h a) h = Some ns"
proof (induction ns arbitrary: a k)
  case Nil
  then show ?case by (cases k) auto
next
  case (Cons n ns)
  then show ?case by (cases k) auto
qed

lemma reverse_foreach_from_dseg:
  "\<lbrakk>dseg h q ns b; q \<notin> set ns; length ns \<le> k\<rbrakk> \<Longrightarrow>
   cat_queue_reverse_foreach_from k q (qprev h b) h = Some (rev ns)"
proof (induction ns arbitrary: b k rule: rev_induct)
  case Nil
  then show ?case by (cases k) auto
next
  case (snoc n ns)
  then show ?case by (cases k) (auto simp: dseg_append)
qed

lemma queue_of_foreach:
  assumes "queue_of h q ns" and "length ns \<le> k"
  shows "cat_queue_foreach k q h = Some ns" and "cat_queue_reverse_foreach k q h = Some (rev ns)"
  using assms foreach_from_dseg [of h q ns q k] reverse_foreach_from_dseg [of h q ns q k]
  by (auto simp: queue_of_def cat_queue_foreach_def cat_queue_reverse_foreach_def)

lemma push_back_frame:
  assumes "queue_of h q ns" and "x \<notin> set (n # q # ns)"
  shows "qnext (cat_queue_push_back q n h) x = qnext h x"
    and "qprev (cat_queue_push_back q n h) x = qprev h x"
  using assms dseg_last [of h q ns q] by (auto simp: queue_of_def queue_op_defs split: if_splits)

lemma remove_frame:
  assumes "queue_of h q ns" and n: "n \<in> set ns" and "x \<notin> set (q # ns)"
  shows "qnext (cat_queue_remove n h) x = qnext h x"
    and "qprev (cat_queue_remove n h) x = qprev h x"
proof -
  from n obtain xs ys where ns: "ns = xs @ n # ys" by (auto simp: in_set_conv_decomp)
  with assms have d1: "dseg h q xs n" and d2: "dseg h n ys q"
    by (auto simp: queue_of_def dseg_append)
  have "qprev h n \<in> set (q # ns)" "qnext h n \<in> set (q # ns)"
    using dseg_last [OF d1] dseg_first [OF d2] ns last_in_set [of "q # xs"] by (cases ys; auto)+
  with assms(3) show "qnext (cat_queue_remove n h) x = qnext h x"
      "qprev (cat_queue_remove n h) x = qprev h x"
    by (auto simp: queue_op_defs)
qed

subsection \<open>The interface of a waiter queue\<close>

text \<open>
  What the clients of a queue rely on: a queue is a list of distinct nodes, a pushed node comes
  last, a removed node is gone and leaves the others in order, the front is the oldest node. The
  patterns of the clients follow: queueing several nodes, popping the front, and the
  \<^verbatim>\<open>push_back\<close> / wait / \<^verbatim>\<open>remove\<close> sequence of a waiter that leaves as it came.
\<close>

locale fifo_queue =
  fixes repr :: "'h \<Rightarrow> 'n \<Rightarrow> 'n list \<Rightarrow> bool"
    and push_back :: "'n \<Rightarrow> 'n \<Rightarrow> 'h \<Rightarrow> 'h"
    and remove :: "'n \<Rightarrow> 'h \<Rightarrow> 'h"
    and front :: "'n \<Rightarrow> 'h \<Rightarrow> 'n option"
  assumes repr_distinct: "repr h q ns \<Longrightarrow> distinct (q # ns)"
    and repr_push_back: "repr h q ns \<Longrightarrow> n \<notin> set (q # ns) \<Longrightarrow> repr (push_back q n h) q (ns @ [n])"
    and repr_remove: "repr h q (xs @ n # ys) \<Longrightarrow> repr (remove n h) q (xs @ ys)"
    and repr_front: "repr h q ns \<Longrightarrow> front q h = (case ns of [] \<Rightarrow> None | n # _ \<Rightarrow> Some n)"
begin

lemma push_all:
  "\<lbrakk>repr h q ns; distinct ms; set ms \<inter> set (q # ns) = {}\<rbrakk> \<Longrightarrow>
   repr (fold (push_back q) ms h) q (ns @ ms)"
proof (induction ms arbitrary: h ns)
  case (Cons m ms)
  then have "repr (push_back q m h) q (ns @ [m])"
    by (intro repr_push_back) auto
  with Cons.IH [of "push_back q m h" "ns @ [m]"] Cons.prems show ?case by auto
qed simp

lemma pop_front:
  "repr h q (n # ns) \<Longrightarrow> front q h = Some n \<and> repr (remove n h) q ns"
  using repr_front [of h q "n # ns"] repr_remove [of h q "[]" n ns] by simp

lemma remove1_repr:
  assumes "repr h q ns" and "n \<in> set ns"
  shows "repr (remove n h) q (remove1 n ns)"
proof -
  from assms(2) obtain xs ys where ns: "ns = xs @ n # ys" "n \<notin> set xs"
    by (auto dest: split_list_first)
  then have "remove1 n ns = xs @ ys" by (simp add: remove1_append)
  with ns repr_remove [of h q xs n ys] assms(1) show ?thesis by simp
qed

lemma wait_round_trip:
  assumes "repr h q ns" and "n \<notin> set (q # ns)"
  shows "repr (remove n (push_back q n h)) q ns"
  using repr_remove [of "push_back q n h" q ns n "[]"] repr_push_back [OF assms] by simp

end

interpretation cq: fifo_queue queue_of cat_queue_push_back cat_queue_remove cat_queue_front
  by unfold_locales
    (auto simp: queue_of_def [of _ _ "_ # _"] queue_of_front
      intro: queue_of_push_back queue_of_remove dest: queue_of_def [THEN iffD1])

subsection \<open>Sequences of queue operations\<close>

text \<open>A client's calls on one queue, with the list each call stands for and the condition under
  which the client may make it: a node is pushed only while it is in no queue and removed only
  while it is in this one.\<close>

datatype queue_call = Push_Front addr | Push_Back addr | Remove addr

fun run_call :: "addr \<Rightarrow> queue_call \<Rightarrow> qheap \<Rightarrow> qheap" where
  "run_call q (Push_Front n) h = cat_queue_push_front q n h"
| "run_call q (Push_Back n) h = cat_queue_push_back q n h"
| "run_call q (Remove n) h = cat_queue_remove n h"

fun list_call :: "queue_call \<Rightarrow> addr list \<Rightarrow> addr list" where
  "list_call (Push_Front n) ns = n # ns"
| "list_call (Push_Back n) ns = ns @ [n]"
| "list_call (Remove n) ns = remove1 n ns"

fun call_ok :: "addr \<Rightarrow> queue_call \<Rightarrow> addr list \<Rightarrow> bool" where
  "call_ok q (Push_Front n) ns \<longleftrightarrow> n \<noteq> q \<and> n \<notin> set ns"
| "call_ok q (Push_Back n) ns \<longleftrightarrow> n \<noteq> q \<and> n \<notin> set ns"
| "call_ok q (Remove n) ns \<longleftrightarrow> n \<in> set ns"

fun calls_ok :: "addr \<Rightarrow> queue_call list \<Rightarrow> addr list \<Rightarrow> bool" where
  "calls_ok q [] ns \<longleftrightarrow> True"
| "calls_ok q (c # cs) ns \<longleftrightarrow> call_ok q c ns \<and> calls_ok q cs (list_call c ns)"

lemma run_call_repr:
  "\<lbrakk>queue_of h q ns; call_ok q c ns\<rbrakk> \<Longrightarrow> queue_of (run_call q c h) q (list_call c ns)"
  by (cases c) (auto intro: queue_of_push_front queue_of_push_back cq.remove1_repr)

lemma run_calls_repr:
  "\<lbrakk>queue_of h q ns; calls_ok q cs ns\<rbrakk> \<Longrightarrow>
   queue_of (fold (run_call q) cs h) q (fold list_call cs ns)"
  by (induction cs arbitrary: h ns) (auto intro: run_call_repr)

text \<open>C8: a heap queue initialised with \<^verbatim>\<open>cat_queue_init\<close> and driven by any sequence of legal
  \<^verbatim>\<open>push_front\<close>, \<^verbatim>\<open>push_back\<close> and \<^verbatim>\<open>remove\<close> calls behaves as the list those calls describe: it is
  empty exactly when the list is, front and back are its first and last element, and the forward
  and backward iterations visit exactly its elements in order and in reverse and stop.\<close>

theorem cat_queue_refines_list:
  assumes "calls_ok q cs []"
  shows "let h' = fold (run_call q) cs (cat_queue_init q h); ns = fold list_call cs [] in
    distinct (q # ns) \<and>
    (cat_queue_empty q h' \<longleftrightarrow> ns = []) \<and>
    cat_queue_front q h' = (if ns = [] then None else Some (hd ns)) \<and>
    cat_queue_back q h' = (if ns = [] then None else Some (last ns)) \<and>
    cat_queue_foreach (length ns) q h' = Some ns \<and>
    cat_queue_reverse_foreach (length ns) q h' = Some (rev ns)"
proof -
  define h' ns where "h' = fold (run_call q) cs (cat_queue_init q h)" and "ns = fold list_call cs []"
  have r: "queue_of h' q ns" unfolding h'_def ns_def using queue_of_init assms by (rule run_calls_repr)
  have "cat_queue_front q h' = (if ns = [] then None else Some (hd ns))"
    using queue_of_front [OF r] by (cases ns) auto
  then show ?thesis
    unfolding Let_def h'_def [symmetric] ns_def [symmetric]
    using cq.repr_distinct [OF r] queue_of_empty [OF r] queue_of_back [OF r] queue_of_foreach [OF r]
    by blast
qed

theorem cat_queue_refines_list_witness:
  "calls_ok 0 [Push_Back 1, Push_Back 2, Push_Front 3, Remove 1] [] \<and>
   cat_queue_foreach 2 0 (fold (run_call 0) [Push_Back 1, Push_Back 2, Push_Front 3, Remove 1]
     (cat_queue_init 0 \<lparr>qnext = \<lambda>_. 0, qprev = \<lambda>_. 0\<rparr>)) = Some [3, 2]"
  using cat_queue_refines_list
    [of 0 "[Push_Back 1, Push_Back 2, Push_Front 3, Remove 1]" "\<lparr>qnext = \<lambda>_. 0, qprev = \<lambda>_. 0\<rparr>"]
  by (simp add: numeral_2_eq_2 Let_def)

text \<open>Moving a node from one queue to the end of another (the pattern of a waiter handed from
  a waiting queue to a run queue) takes it out of the first, appends it to the second and leaves
  the order of all other nodes of both queues unchanged.\<close>

theorem cat_queue_move:
  assumes p: "queue_of h p (xs @ n # ys)" and q: "queue_of h q ms"
    and disj: "set (p # xs @ n # ys) \<inter> set (q # ms) = {}"
  shows "queue_of (cat_queue_push_back q n (cat_queue_remove n h)) p (xs @ ys) \<and>
    queue_of (cat_queue_push_back q n (cat_queue_remove n h)) q (ms @ [n])"
proof -
  let ?h = "cat_queue_remove n h"
  have nq: "n \<notin> set (p # xs @ ys)" using cq.repr_distinct [OF p] by auto
  have p1: "queue_of ?h p (xs @ ys)" using p by (rule queue_of_remove)
  have "queue_of ?h q ms \<longleftrightarrow> queue_of h q ms"
  proof (rule queue_of_frame)
    fix x assume "x \<in> set (q # ms)"
    then have "x \<notin> set (p # xs @ n # ys)" using disj by blast
    then show "qnext ?h x = qnext h x \<and> qprev ?h x = qprev h x" using remove_frame [OF p, of n x] by simp
  qed
  with q have q1: "queue_of ?h q ms" by simp
  have "n \<notin> set (q # ms)" using disj by auto
  then have q2: "queue_of (cat_queue_push_back q n ?h) q (ms @ [n])" by (rule queue_of_push_back [OF q1])
  have "queue_of (cat_queue_push_back q n ?h) p (xs @ ys) \<longleftrightarrow> queue_of ?h p (xs @ ys)"
  proof (rule queue_of_frame)
    fix x assume x: "x \<in> set (p # xs @ ys)"
    then have "x \<noteq> n" using nq by blast
    with x have "x \<notin> set (n # q # ms)" using disj by auto
    then show "qnext (cat_queue_push_back q n ?h) x = qnext ?h x \<and> qprev (cat_queue_push_back q n ?h) x = qprev ?h x"
      using push_back_frame [OF q1] by blast
  qed
  with p1 q2 show ?thesis by simp
qed

theorem cat_queue_move_witness:
  "queue_of (cat_queue_push_back 1 2 (cat_queue_remove 2
     (cat_queue_init 1 (cat_queue_push_back 0 2 (cat_queue_init 0 \<lparr>qnext = \<lambda>_. 0, qprev = \<lambda>_. 0\<rparr>))))) 1 [2]"
  using cat_queue_move
    [of "cat_queue_init 1 (cat_queue_push_back 0 2 (cat_queue_init 0 \<lparr>qnext = \<lambda>_. 0, qprev = \<lambda>_. 0\<rparr>))"
      0 "[]" 2 "[]" 1 "[]"]
  by (simp add: queue_of_def queue_op_defs)

end
