(* ===== verification/Cat_Memory.thy ===== *)
theory Cat_Memory
  imports Cat_Prelude
begin

unbundle bit_operations_syntax

text \<open>
  The arithmetic of \<^verbatim>\<open>include/cat_memory.h\<close> and \<^verbatim>\<open>src/cat_memory.c\<close>: the size alignment macro, the
  page helpers, the bit counting loops and the 64-bit byte-order conversions, together with the
  little-endian view of an integer as its bytes that the websocket code uses through casts.
\<close>

subsection \<open>Alignment and pages\<close>

definition CAT_MEMORY_DEFAULT_ALIGNED_SIZE :: size_t where
  "CAT_MEMORY_DEFAULT_ALIGNED_SIZE = 8"

definition CAT_MEMORY_ALIGNED_SIZE_EX :: "size_t \<Rightarrow> size_t \<Rightarrow> size_t" where
  "CAT_MEMORY_ALIGNED_SIZE_EX sz alignment = (sz + (alignment - 1)) AND NOT (alignment - 1)"

text \<open>The page size is what \<^verbatim>\<open>getpagesize()\<close> returned, an \<open>int\<close>; a value that is not positive is
  replaced by 4096.\<close>

definition cat_getpagesize_slow :: "int \<Rightarrow> size_t" where
  "cat_getpagesize_slow sys = (if sys \<le> 0 then 4096 else word_of_int sys)"

definition cat_getpageof :: "size_t \<Rightarrow> u64 \<Rightarrow> u64" where
  "cat_getpageof pagesize p = p AND NOT (pagesize - 1)"

definition cat_getpageafter :: "size_t \<Rightarrow> u64 \<Rightarrow> u64" where
  "cat_getpageafter pagesize p =
     (let page = cat_getpageof pagesize p
      in if page < p then page + pagesize else page)"

subsection \<open>Bit counting\<close>

function cat_bit_count_loop :: "u64 \<Rightarrow> u8 \<Rightarrow> u8" where
  "cat_bit_count_loop num count =
     (if num \<noteq> 0 then cat_bit_count_loop (num AND (num - 1)) (count + 1) else count)"
  by pat_completeness auto
termination
proof (relation "measure (\<lambda>(num, count). unat num)")
  fix num :: u64 and count :: u8
  assume "num \<noteq> 0"
  then have "num - 1 < num" by (simp add: word_less_nat_alt unat_minus_one unat_gt_0)
  then have "num AND (num - 1) < num" using word_and_le1 [of num "num - 1"] by (rule order_le_less_trans [rotated])
  then show "((num AND (num - 1), count + 1), (num, count)) \<in> measure (\<lambda>(num, count). unat num)"
    by (simp add: word_less_nat_alt)
qed simp

declare cat_bit_count_loop.simps [simp del]

definition cat_bit_count :: "u64 \<Rightarrow> u8" where
  "cat_bit_count num = cat_bit_count_loop num 0"

function cat_bit_pos_loop :: "u64 \<Rightarrow> int \<Rightarrow> int" where
  "cat_bit_pos_loop num pos =
     (if num \<noteq> 0 then cat_bit_pos_loop (drop_bit 1 num) (pos + 1) else pos)"
  by pat_completeness auto
termination
proof (relation "measure (\<lambda>(num, pos). unat num)")
  fix num :: u64 and pos :: int
  assume "num \<noteq> 0"
  then show "((drop_bit 1 num, pos + 1), (num, pos)) \<in> measure (\<lambda>(num, pos). unat num)"
    using unat_gt_0 [of num] unat_drop_bit [of 1 num] by (simp del: drop_bit_eq_div)
qed simp

declare cat_bit_pos_loop.simps [simp del]

definition cat_bit_pos :: "u64 \<Rightarrow> int" where
  "cat_bit_pos num = cat_bit_pos_loop num (-1)"

subsection \<open>Bytes of an integer, byte order\<close>

text \<open>\<open>load_le\<close> reads the integer stored at a byte address on a little-endian machine (a cast such
  as \<^verbatim>\<open>*((uint64_t *) p)\<close>), \<open>store_le\<close> gives the \<open>n\<close> bytes a store of it writes.\<close>

definition load_le :: "byte list \<Rightarrow> 'a::len word" where
  "load_le bs = foldr (\<lambda>b acc. ucast b OR push_bit 8 acc) bs 0"

definition store_le :: "nat \<Rightarrow> 'a::len word \<Rightarrow> byte list" where
  "store_le n w = map (\<lambda>i. ucast (drop_bit (8 * i) w)) [0..<n]"

text \<open>\<^verbatim>\<open>htons\<close>, \<^verbatim>\<open>htonl\<close> and their inverses reverse the bytes of the value on this platform.\<close>

definition htons :: "u16 \<Rightarrow> u16" where
  "htons x = load_le (rev (store_le 2 x))"

definition htonl :: "u32 \<Rightarrow> u32" where
  "htonl x = load_le (rev (store_le 4 x))"

definition cat_hton64 :: "u64 \<Rightarrow> u64" where
  "cat_hton64 host =
     (let low = ucast (host AND 0xFFFFFFFF) :: u32;
          high = ucast (drop_bit 32 host AND 0xFFFFFFFF) :: u32;
          low = htonl low; high = htonl high;
          ret = ucast low :: u64;
          ret = push_bit 32 ret
      in ret OR ucast high)"

definition cat_ntoh64 :: "u64 \<Rightarrow> u64" where
  "cat_ntoh64 network =
     (let low = ucast (network AND 0xFFFFFFFF) :: u32;
          high = ucast (drop_bit 32 network) :: u32;
          low = htonl low; high = htonl high;
          ret = ucast low :: u64;
          ret = push_bit 32 ret
      in ret OR ucast high)"

subsection \<open>Lemmas\<close>

lemma and_not_mask_word:
  "(x :: 'a::len word) AND NOT (mask n) = push_bit n (drop_bit n x)"
  by (rule bit_word_eqI) (auto simp: bit_simps)

lemma unat_push_drop: "unat (push_bit n (drop_bit n (x :: 'a::len word))) = unat x div 2 ^ n * 2 ^ n"
proof -
  have "unat x div 2 ^ n * 2 ^ n \<le> unat x" by simp
  then have "unat x div 2 ^ n * 2 ^ n < 2 ^ LENGTH('a)"
    using unsigned_less [of x] by (rule le_less_trans)
  then show ?thesis by (simp only: unat_push_bit unat_drop_bit)
qed

lemma aligned_size_unat:
  assumes "n < 64" and "unat sz + (2 ^ n - 1) < 2 ^ 64"
  shows "unat (CAT_MEMORY_ALIGNED_SIZE_EX sz (2 ^ n)) = (unat sz + (2 ^ n - 1)) div 2 ^ n * 2 ^ n"
proof -
  have m: "(2 ^ n :: size_t) - 1 = mask n" by (simp add: mask_eq_exp_minus_1)
  have "unat (mask n :: size_t) = 2 ^ n - 1"
    using assms(1) by (simp add: unat_mask)
  then have "unat (sz + mask n) = unat sz + (2 ^ n - 1)"
    using assms(2) by (subst unat_add_lt) auto
  then show ?thesis
    by (simp add: CAT_MEMORY_ALIGNED_SIZE_EX_def m and_not_mask_word unat_push_drop)
qed

lemma bit_load_le [byte_simps]:
  "bit (load_le bs :: 'a::len word) n \<longleftrightarrow>
     n < LENGTH('a) \<and> n div 8 < length bs \<and> bit (bs ! (n div 8)) (n mod 8)"
proof (induction bs arbitrary: n)
  case Nil
  then show ?case by (simp add: load_le_def)
next
  case (Cons b bs)
  have rec: "load_le (b # bs) = (ucast b :: 'a word) OR push_bit 8 (load_le bs)"
    by (simp add: load_le_def)
  show ?case
  proof (cases "n < 8")
    case True
    then show ?thesis by (auto simp: rec bit_simps)
  next
    case False
    then have "\<not> bit b n" using bit_imp_le_length [of b n] by auto
    moreover have "n div 8 = Suc ((n - 8) div 8)" "n mod 8 = (n - 8) mod 8"
      using False by (simp_all add: le_div_geq le_mod_geq)
    ultimately show ?thesis using False Cons.IH [of "n - 8"]
      by (auto simp: rec bit_simps)
  qed
qed

lemma length_store_le [simp]: "length (store_le n w) = n"
  by (simp add: store_le_def)

lemma bit_store_le [byte_simps]:
  "i < n \<Longrightarrow> bit (store_le n (w :: 'a::len word) ! i) j \<longleftrightarrow> j < 8 \<and> bit w (8 * i + j)"
  by (auto simp: store_le_def bit_simps dest: bit_imp_le_length)

lemma byte_list_eqI:
  assumes "length xs = length ys"
    and "\<And>i j. i < length xs \<Longrightarrow> j < 8 \<Longrightarrow> bit (xs ! i) j = bit (ys ! i :: byte) j"
  shows "xs = ys"
  using assms by (intro nth_equalityI) (auto intro!: bit_word_eqI)

lemma store_load_le:
  "8 * length bs \<le> LENGTH('a::len) \<Longrightarrow> store_le (length bs) (load_le bs :: 'a word) = bs"
  by (rule byte_list_eqI) (auto simp: byte_simps)

lemma load_store_le:
  assumes "LENGTH('a::len) \<le> 8 * n"
  shows "load_le (store_le n (w :: 'a word)) = w"
proof (rule bit_word_eqI)
  fix k assume k: "k < LENGTH('a)"
  with assms have "k div 8 < n" by auto
  with k show "bit (load_le (store_le n w) :: 'a word) k = bit w k"
    by (simp add: byte_simps)
qed

lemma bit_htons [byte_simps]: "bit (htons x) n \<longleftrightarrow> n < 16 \<and> bit x (8 * (1 - n div 8) + n mod 8)"
proof (cases "n < 16")
  case True
  then have "n div 8 < 2" by auto
  with True show ?thesis by (simp add: htons_def byte_simps rev_nth)
qed (simp add: htons_def byte_simps)

lemma bit_htonl [byte_simps]: "bit (htonl x) n \<longleftrightarrow> n < 32 \<and> bit x (8 * (3 - n div 8) + n mod 8)"
proof (cases "n < 32")
  case True
  then have "n div 8 < 4" by auto
  with True show ?thesis by (simp add: htonl_def byte_simps rev_nth)
qed (simp add: htonl_def byte_simps)

lemma htons_htons [simp]: "htons (htons x) = x"
proof (rule bit_word_eqI)
  fix n assume n: "n < LENGTH(16)"
  define a b where "a = n div 8" and "b = n mod 8"
  then have "n = 8 * a + b" "a < 2" "b < 8" using n by auto
  then show "bit (htons (htons x)) n = bit x n" by (auto simp: byte_simps)
qed

lemma low32_mask: "(0xFFFFFFFF :: u64) = mask 32"
  by (simp add: mask_eq_exp_minus_1)

lemma high32_ucast: "(ucast (drop_bit 32 (x :: u64) AND mask 32) :: u32) = ucast (drop_bit 32 x)"
  by (rule bit_word_eqI) (auto simp: bit_simps)

lemma ntoh64_eq_hton64: "cat_ntoh64 x = cat_hton64 x"
  by (simp add: cat_ntoh64_def cat_hton64_def low32_mask high32_ucast Let_def)

lemma div8_add: "b < 8 \<Longrightarrow> 8 dvd k \<Longrightarrow> (k + b) div 8 = k div (8 :: nat)"
  and mod8_add: "b < 8 \<Longrightarrow> 8 dvd k \<Longrightarrow> (k + b) mod 8 = (b :: nat)"
  by (auto elim!: dvdE)

lemma bit_hton64 [byte_simps]:
  "bit (cat_hton64 x) n \<longleftrightarrow> n < 64 \<and> bit x (8 * (7 - n div 8) + n mod 8)"
proof (cases "n < 64")
  case True
  define a b where "a = n div 8" and "b = n mod 8"
  then have n: "n = 8 * a + b" "b < 8" and "a < 8" using True by auto
  from \<open>a < 8\<close> have "a = 0 \<or> a = 1 \<or> a = 2 \<or> a = 3 \<or> a = 4 \<or> a = 5 \<or> a = 6 \<or> a = 7" by arith
  then show ?thesis using n
    by (elim disjE)
      (simp_all add: cat_hton64_def Let_def low32_mask high32_ucast byte_simps bit_simps div8_add mod8_add)
qed (auto dest: bit_imp_le_length)

text \<open>The conversion stores the most significant byte first, and it is its own inverse.\<close>

lemma store_hton64: "store_le 8 (cat_hton64 x) = rev (store_le 8 x)"
  by (rule byte_list_eqI) (auto simp: byte_simps rev_nth)

lemma store_htons: "store_le 2 (htons x) = rev (store_le 2 x)"
  by (rule byte_list_eqI) (auto simp: byte_simps rev_nth)

lemma hton64_hton64 [simp]: "cat_hton64 (cat_hton64 x) = x"
proof -
  have "store_le 8 (cat_hton64 (cat_hton64 x)) = store_le 8 x"
    by (simp add: store_hton64)
  then have "load_le (store_le 8 (cat_hton64 (cat_hton64 x))) = (load_le (store_le 8 x) :: u64)"
    by simp
  then show ?thesis by (simp add: load_store_le)
qed

subsection \<open>Properties\<close>

lemma bit_pos_loop_bounds:
  "num \<noteq> 0 \<Longrightarrow> \<exists>k. cat_bit_pos_loop num pos = pos + 1 + int k \<and> 2 ^ k \<le> unat num \<and> unat num < 2 ^ Suc k"
proof (induction num pos rule: cat_bit_pos_loop.induct)
  case (1 num pos)
  show ?case
  proof (cases "drop_bit 1 num = 0")
    case True
    then have "unat num div 2 = 0" using unat_drop_bit [of 1 num] by simp
    with "1.prems" have "unat num = 1" using unat_gt_0 [of num] by auto
    then show ?thesis
      using True "1.prems" by (intro exI [of _ 0]) (simp add: cat_bit_pos_loop.simps [of num pos] cat_bit_pos_loop.simps [of 0])
  next
    case False
    from "1.IH" [OF "1.prems" False] obtain k where
      "cat_bit_pos_loop (drop_bit 1 num) (pos + 1) = pos + 1 + 1 + int k"
      "2 ^ k \<le> unat num div 2" "unat num div 2 < 2 ^ Suc k"
      using unat_drop_bit [of 1 num] by auto
    moreover from this(2,3) have "2 ^ Suc k \<le> unat num" "unat num < 2 ^ Suc (Suc k)"
      by (simp_all add: less_eq_div_iff_mult_less_eq div_less_iff_less_mult mult.commute)
    ultimately show ?thesis
      using "1.prems" by (intro exI [of _ "Suc k"]) (simp add: cat_bit_pos_loop.simps [of num pos])
  qed
qed

text \<open>Clearing the lowest set bit: the step of the counting loop.\<close>

lemma bit_and_pred_nat:
  "0 < n \<Longrightarrow> \<exists>k. bit n k \<and> (\<forall>i. bit (n - 1 :: nat) i \<and> bit n i \<longleftrightarrow> bit n i \<and> i \<noteq> k)"
proof (induction n rule: less_induct)
  case (less n)
  show ?case
  proof (cases "even n")
    case False
    then obtain m where m: "n = 2 * m + 1" by (elim oddE)
    have "bit (n - 1) i \<and> bit n i \<longleftrightarrow> bit n i \<and> i \<noteq> 0" for i
      by (cases i) (simp_all add: m bit_0 bit_Suc)
    then show ?thesis using m by (intro exI [of _ 0]) (simp add: bit_0)
  next
    case True
    then obtain m where m: "n = 2 * m" "m < n" "0 < m" using less.prems by (elim evenE) auto
    from less.IH [OF m(2,3)] obtain k where
      k: "bit m k" "\<And>i. bit (m - 1) i \<and> bit m i \<longleftrightarrow> bit m i \<and> i \<noteq> k" by blast
    have pred: "n - 1 = 2 * (m - 1) + 1" using m by simp
    have "bit (n - 1) i \<and> bit n i \<longleftrightarrow> bit n i \<and> i \<noteq> Suc k" for i
      using k(2) unfolding pred by (cases i) (simp_all add: m(1) bit_0 bit_Suc)
    then show ?thesis using m(1) k(1) by (intro exI [of _ "Suc k"]) (simp add: bit_Suc)
  qed
qed

lemma bit_and_pred:
  assumes "(x :: 'a::len word) \<noteq> 0"
  shows "\<exists>k. bit x k \<and> {i. bit (x AND (x - 1)) i} = {i. bit x i} - {k}"
proof -
  have u: "bit (unat w) i = bit w i" for w :: "'a word" and i
    by (auto simp: bit_unsigned_iff dest: bit_imp_le_length)
  have "0 < unat x" using assms by (simp add: unat_gt_0)
  from bit_and_pred_nat [OF this] obtain k where
    "bit (unat x) k" "\<And>i. bit (unat (x - 1)) i \<and> bit (unat x) i \<longleftrightarrow> bit (unat x) i \<and> i \<noteq> k"
    unfolding unat_minus_one [OF assms] by blast
  then have "bit x k" "\<And>i. bit (x - 1) i \<and> bit x i \<longleftrightarrow> bit x i \<and> i \<noteq> k" by (simp_all only: u)
  then show ?thesis by (intro exI [of _ k]) (auto simp: bit_and_iff)
qed

lemma finite_bits: "finite {i. bit (x :: u64) i}" "card {i. bit (x :: u64) i} \<le> 64"
proof -
  have sub: "{i. bit x i} \<subseteq> {..<64}" by (auto dest: bit_imp_le_length)
  then show "finite {i. bit x i}" by (rule finite_subset) simp
  from card_mono [OF _ sub] show "card {i. bit x i} \<le> 64" by simp
qed

lemma bit_count_loop:
  "unat count + card {i. bit num i} \<le> 64 \<Longrightarrow>
   unat (cat_bit_count_loop num count) = unat count + card {i. bit num i}"
proof (induction num count rule: cat_bit_count_loop.induct)
  case (1 num count)
  show ?case
  proof (cases "num = 0")
    case False
    then obtain k where k: "bit num k" "{i. bit (num AND (num - 1)) i} = {i. bit num i} - {k}"
      using bit_and_pred by blast
    then have c: "card {i. bit num i} = Suc (card {i. bit (num AND (num - 1)) i})"
      using card_Suc_Diff1 [OF finite_bits(1), of k num] by simp
    then have "unat (count + 1) = unat count + 1"
      using "1.prems" by (subst unat_add_lt) auto
    with "1.IH" [OF False] "1.prems" c False show ?thesis
      by (simp add: cat_bit_count_loop.simps [of num count])
  qed (simp add: cat_bit_count_loop.simps)
qed

subsection \<open>Correctness of the memory helpers\<close>

text \<open>Rounding a size up to an alignment of \<open>2 ^ n\<close> gives the least multiple of the alignment
  that is not below the size, provided the addition of the alignment does not wrap.\<close>

theorem aligned_size_least:
  assumes "n < 64" and "unat sz + (2 ^ n - 1) < 2 ^ 64"
  shows "2 ^ n dvd unat (CAT_MEMORY_ALIGNED_SIZE_EX sz (2 ^ n)) \<and>
    unat sz \<le> unat (CAT_MEMORY_ALIGNED_SIZE_EX sz (2 ^ n)) \<and>
    (\<forall>m. 2 ^ n dvd m \<longrightarrow> unat sz \<le> m \<longrightarrow> unat (CAT_MEMORY_ALIGNED_SIZE_EX sz (2 ^ n)) \<le> m)"
proof -
  define a :: nat where "a = 2 ^ n"
  have a: "0 < a" by (simp add: a_def)
  define r where "r = (unat sz + (a - 1)) div a"
  have u: "unat (CAT_MEMORY_ALIGNED_SIZE_EX sz (2 ^ n)) = r * a"
    using aligned_size_unat [OF assms] by (simp add: a_def r_def)
  have s: "r * a + (unat sz + (a - 1)) mod a = unat sz + (a - 1)" by (simp add: r_def)
  have "(unat sz + (a - 1)) mod a < a" using a by simp
  then have ge: "unat sz \<le> r * a" using s by linarith
  have "r * a \<le> m" if "a dvd m" "unat sz \<le> m" for m
  proof -
    from that(1) obtain k where k: "m = k * a" by (auto simp: dvd_def mult.commute)
    have "r \<le> (k * a + (a - 1)) div a" unfolding r_def using that(2) k by (intro div_le_mono) simp
    also have "\<dots> = k" using a by (intro div_nat_eqI) (auto simp: algebra_simps)
    finally show ?thesis by (simp add: k)
  qed
  with ge show ?thesis unfolding u a_def [symmetric] by simp
qed

theorem aligned_size_least_witness:
  "unat (CAT_MEMORY_ALIGNED_SIZE_EX 13 (2 ^ 3)) \<le> 16 \<and> 8 dvd unat (CAT_MEMORY_ALIGNED_SIZE_EX 13 (2 ^ 3)) \<and>
   13 \<le> unat (CAT_MEMORY_ALIGNED_SIZE_EX 13 (2 ^ 3))"
proof -
  have "2 ^ 3 dvd unat (CAT_MEMORY_ALIGNED_SIZE_EX 13 (2 ^ 3)) \<and>
    unat (13 :: size_t) \<le> unat (CAT_MEMORY_ALIGNED_SIZE_EX 13 (2 ^ 3)) \<and>
    (\<forall>m. 2 ^ 3 dvd m \<longrightarrow> unat (13 :: size_t) \<le> m \<longrightarrow> unat (CAT_MEMORY_ALIGNED_SIZE_EX 13 (2 ^ 3)) \<le> m)"
    by (rule aligned_size_least) simp_all
  then show ?thesis by (auto dest: spec [where x = 16])
qed

text \<open>\<^verbatim>\<open>cat_hton64\<close> lays an integer out in memory most significant byte first, \<^verbatim>\<open>cat_ntoh64\<close>
  undoes it, and so does a second \<^verbatim>\<open>cat_hton64\<close>.\<close>

theorem hton64_big_endian:
  "store_le 8 (cat_hton64 x) = rev (store_le 8 x) \<and> cat_ntoh64 (cat_hton64 x) = x \<and>
   cat_hton64 (cat_hton64 x) = x"
  by (simp add: store_hton64 ntoh64_eq_hton64)

text \<open>\<^verbatim>\<open>cat_bit_count\<close>, which clears the lowest set bit until none is left, returns the number of
  set bits; \<^verbatim>\<open>cat_bit_pos\<close> returns \<open>-1\<close> for zero and otherwise the index of the highest set bit.\<close>

theorem bit_count_and_pos:
  "unat (cat_bit_count num) = card {i. bit num i} \<and>
   (if num = 0 then cat_bit_pos num = -1
    else \<exists>k. cat_bit_pos num = int k \<and> 2 ^ k \<le> unat num \<and> unat num < 2 ^ Suc k)"
  using bit_count_loop [of 0 num] finite_bits [of num] bit_pos_loop_bounds [of num "-1"]
  by (auto simp: cat_bit_count_def cat_bit_pos_def cat_bit_pos_loop.simps [of 0])

end
