(* ===== verification/Cat_Buffer.thy ===== *)
theory Cat_Buffer
  imports Cat_Memory
begin

text \<open>
  The growable byte buffer of \<^verbatim>\<open>src/cat_buffer.c\<close>. A buffer is a record of the block \<^verbatim>\<open>value\<close>
  points to (\<open>None\<close> for \<^verbatim>\<open>NULL\<close>), its \<^verbatim>\<open>size\<close> and its \<^verbatim>\<open>length\<close>. The allocator is the table of
  function pointers the program registers; every operation takes the table as an argument, so a
  failing or reallocating allocator is covered. Bytes handed in by a caller are the list of their
  values at the time of the call.

  \<open>buffer_ok\<close> is the invariant, \<open>contents\<close> the abstract value (the bytes in use). The locales
  \<open>buffer_allocator\<close> and \<open>c_heap\<close> state what an allocator promises; the lemmas show that every
  operation keeps the invariant and acts on \<open>contents\<close> as the list operation it stands for, that
  the growth loop ends for every request up to \<open>2 ^ 63 - 8\<close> bytes, and where it does not.
\<close>

record cat_buffer_t =
  buf_value :: "byte list option"
  buf_size :: size_t
  buf_length :: size_t

record cat_buffer_allocator_t =
  alloc_function :: "(size_t \<Rightarrow> byte list option) option"
  realloc_function :: "(byte list option \<Rightarrow> size_t \<Rightarrow> byte list option) option"
  update_function :: "(byte list \<Rightarrow> size_t \<Rightarrow> byte list) option"
  free_function :: "(byte list \<Rightarrow> unit) option"

type_synonym buf_result = "((cat_errno + unit) \<times> cat_buffer_t) c_run"

subsection \<open>The allocator table\<close>

definition cat_buffer_alloc_standard :: "(size_t \<Rightarrow> byte list option) \<Rightarrow> size_t \<Rightarrow> byte list option" where
  "cat_buffer_alloc_standard cat_malloc sz = cat_malloc sz"

definition cat_buffer_realloc_standard ::
  "(byte list option \<Rightarrow> size_t \<Rightarrow> byte list option) \<Rightarrow> byte list option \<Rightarrow> size_t \<Rightarrow> byte list option" where
  "cat_buffer_realloc_standard cat_realloc old_value new_size = cat_realloc old_value new_size"

definition cat_buffer_free_standard :: "byte list \<Rightarrow> unit" where
  "cat_buffer_free_standard v = ()"

definition cat_buffer_module_init ::
  "(size_t \<Rightarrow> byte list option) \<Rightarrow> (byte list option \<Rightarrow> size_t \<Rightarrow> byte list option) \<Rightarrow>
   cat_buffer_allocator_t" where
  "cat_buffer_module_init cat_malloc cat_realloc =
     \<lparr>alloc_function = Some (cat_buffer_alloc_standard cat_malloc),
      realloc_function = Some (cat_buffer_realloc_standard cat_realloc),
      update_function = None,
      free_function = Some cat_buffer_free_standard\<rparr>"

text \<open>Registering replaces the global table; the first argument is the table in force before.\<close>

definition cat_buffer_register_allocator ::
  "cat_buffer_allocator_t \<Rightarrow> cat_buffer_allocator_t \<Rightarrow> (cat_errno + unit) \<times> cat_buffer_allocator_t" where
  "cat_buffer_register_allocator global allocator =
     (if alloc_function allocator = None \<or> realloc_function allocator = None \<or>
         free_function allocator = None
      then (Inl CAT_EINVAL, global) else (Inr (), allocator))"

text \<open>A call through a null function pointer is undefined.\<close>

definition call_alloc :: "cat_buffer_allocator_t \<Rightarrow> size_t \<Rightarrow> byte list option c_run" where
  "call_alloc A sz = (case alloc_function A of None \<Rightarrow> Undefined | Some f \<Rightarrow> Done (f sz))"

definition call_realloc :: "cat_buffer_allocator_t \<Rightarrow> byte list option \<Rightarrow> size_t \<Rightarrow> byte list option c_run" where
  "call_realloc A v sz = (case realloc_function A of None \<Rightarrow> Undefined | Some f \<Rightarrow> Done (f v sz))"

definition call_free :: "cat_buffer_allocator_t \<Rightarrow> byte list \<Rightarrow> unit c_run" where
  "call_free A v = (case free_function A of None \<Rightarrow> Undefined | Some f \<Rightarrow> Done (f v))"

subsection \<open>Operations\<close>

definition cat_buffer__init :: cat_buffer_t where
  "cat_buffer__init = \<lparr>buf_value = None, buf_size = 0, buf_length = 0\<rparr>"

definition cat_buffer__alloc :: "cat_buffer_allocator_t \<Rightarrow> cat_buffer_t \<Rightarrow> size_t \<Rightarrow> buf_result" where
  "cat_buffer__alloc A b sz =
     (if sz = 0 then Done (Inr (), b)
      else c_bind (call_alloc A sz) (\<lambda>value.
        case value of None \<Rightarrow> Done (Inl CAT_ENOMEM, b)
        | Some blk \<Rightarrow> Done (Inr (), b\<lparr>buf_value := Some blk, buf_size := sz\<rparr>)))"

definition cat_buffer__update :: "cat_buffer_allocator_t \<Rightarrow> cat_buffer_t \<Rightarrow> size_t \<Rightarrow> cat_buffer_t" where
  "cat_buffer__update A b new_length =
     (let b = b\<lparr>buf_length := new_length\<rparr>
      in case update_function A of None \<Rightarrow> b
         | Some f \<Rightarrow> b\<lparr>buf_value := map_option (\<lambda>blk. f blk new_length) (buf_value b)\<rparr>)"

definition cat_buffer_align_size :: "size_t \<Rightarrow> size_t \<Rightarrow> size_t" where
  "cat_buffer_align_size sz alignment =
     (let sz = (if sz = 0 then 1 else sz);
          alignment = (if alignment = 0 then CAT_MEMORY_DEFAULT_ALIGNED_SIZE else alignment)
      in CAT_MEMORY_ALIGNED_SIZE_EX sz alignment)"

definition cat_buffer_init :: cat_buffer_t where
  "cat_buffer_init = cat_buffer__init"

definition cat_buffer_alloc :: "cat_buffer_allocator_t \<Rightarrow> cat_buffer_t \<Rightarrow> size_t \<Rightarrow> buf_result" where
  "cat_buffer_alloc A b sz =
     (if buf_value b \<noteq> None then Done (Inl CAT_EMISUSE, b) else cat_buffer__alloc A b sz)"

definition cat_buffer_create :: "cat_buffer_allocator_t \<Rightarrow> size_t \<Rightarrow> buf_result" where
  "cat_buffer_create A sz = cat_buffer__alloc A cat_buffer__init sz"

definition cat_buffer_close :: "cat_buffer_allocator_t \<Rightarrow> cat_buffer_t \<Rightarrow> cat_buffer_t c_run" where
  "cat_buffer_close A b =
     (case buf_value b of None \<Rightarrow> Done b
      | Some blk \<Rightarrow> c_bind (call_free A blk) (\<lambda>_. Done cat_buffer__init))"

definition cat_buffer_realloc :: "cat_buffer_allocator_t \<Rightarrow> cat_buffer_t \<Rightarrow> size_t \<Rightarrow> buf_result" where
  "cat_buffer_realloc A b new_size =
     (if new_size = buf_size b then Done (Inr (), b)
      else if new_size = 0 then c_bind (cat_buffer_close A b) (\<lambda>b'. Done (Inr (), b'))
      else c_bind (call_realloc A (buf_value b) new_size) (\<lambda>new_value.
        case new_value of None \<Rightarrow> Done (Inl CAT_ENOMEM, b)
        | Some blk \<Rightarrow>
            Done (Inr (), b\<lparr>buf_value := Some blk, buf_size := new_size,
              buf_length := (if new_size < buf_length b then new_size else buf_length b)\<rparr>)))"

text \<open>The \<^verbatim>\<open>do { new_size += new_size; } while (new_size < recommend_size)\<close> loop; \<open>None\<close> stands for
  a loop that never ends.\<close>

partial_function (option) extend_loop :: "size_t \<Rightarrow> size_t \<Rightarrow> size_t option" where
  "extend_loop new_size recommend_size =
     (let new_size = new_size + new_size
      in if new_size < recommend_size then extend_loop new_size recommend_size else Some new_size)"

definition cat_buffer_extend :: "cat_buffer_allocator_t \<Rightarrow> cat_buffer_t \<Rightarrow> size_t \<Rightarrow> buf_result" where
  "cat_buffer_extend A b recommend_size =
     c_bind
       (if buf_size b = 0 then Done (cat_buffer_align_size recommend_size 0)
        else case extend_loop (cat_buffer_align_size (buf_size b) 0) recommend_size of
               None \<Rightarrow> Diverges | Some n \<Rightarrow> Done n)
       (\<lambda>new_size. c_assert (buf_size b < new_size) (cat_buffer_realloc A b new_size))"

definition cat_buffer_prepare :: "cat_buffer_allocator_t \<Rightarrow> cat_buffer_t \<Rightarrow> size_t \<Rightarrow> buf_result" where
  "cat_buffer_prepare A b append_length =
     (let expected_size = buf_length b + append_length
      in if buf_size b < expected_size then cat_buffer_extend A b expected_size else Done (Inr (), b))"

definition cat_buffer_malloc_trim :: "cat_buffer_allocator_t \<Rightarrow> cat_buffer_t \<Rightarrow> buf_result" where
  "cat_buffer_malloc_trim A b =
     (if buf_length b = buf_size b then Done (Inr (), b) else cat_buffer_realloc A b (buf_length b))"

text \<open>\<^verbatim>\<open>memmove(buffer->value + offset, ptr, length)\<close> into the block.\<close>

definition buf_copy_in :: "cat_buffer_t \<Rightarrow> nat \<Rightarrow> byte list \<Rightarrow> cat_buffer_t c_run" where
  "buf_copy_in b off ds =
     (case buf_value b of None \<Rightarrow> Undefined
      | Some blk \<Rightarrow> c_bind (mem_write blk off ds) (\<lambda>blk'. Done (b\<lparr>buf_value := Some blk'\<rparr>)))"

text \<open>The guard that opens \<^verbatim>\<open>cat_buffer_write\<close> and \<^verbatim>\<open>cat_buffer_append\<close>.\<close>

definition buf_reserve :: "cat_buffer_allocator_t \<Rightarrow> cat_buffer_t \<Rightarrow> size_t \<Rightarrow> buf_result" where
  "buf_reserve A b new_length =
     (if buf_size b < new_length then cat_buffer_extend A b new_length else Done (Inr (), b))"

definition cat_buffer_write ::
  "cat_buffer_allocator_t \<Rightarrow> cat_buffer_t \<Rightarrow> size_t \<Rightarrow> byte list \<Rightarrow> buf_result" where
  "cat_buffer_write A b offset ds =
     (let new_length = offset + of_nat (length ds)
      in c_bind (buf_reserve A b new_length)
        (\<lambda>(r, b). case r of Inl e \<Rightarrow> Done (Inl e, b)
          | Inr _ \<Rightarrow>
              if 0 < length ds then
                c_bind (buf_copy_in b (unat offset) ds) (\<lambda>b.
                  Done (Inr (), if buf_length b < new_length then cat_buffer__update A b new_length else b))
              else Done (Inr (), b)))"

definition cat_buffer_append ::
  "cat_buffer_allocator_t \<Rightarrow> cat_buffer_t \<Rightarrow> byte list \<Rightarrow> buf_result" where
  "cat_buffer_append A b ds =
     (let new_length = buf_length b + of_nat (length ds)
      in c_bind (buf_reserve A b new_length)
        (\<lambda>(r, b). case r of Inl e \<Rightarrow> Done (Inl e, b)
          | Inr _ \<Rightarrow>
              if 0 < length ds then
                c_bind (buf_copy_in b (unat (buf_length b)) ds) (\<lambda>b.
                  Done (Inr (), cat_buffer__update A b new_length))
              else Done (Inr (), b)))"

definition cat_buffer_clear :: "cat_buffer_allocator_t \<Rightarrow> cat_buffer_t \<Rightarrow> cat_buffer_t" where
  "cat_buffer_clear A b = (if buf_value b = None then b else cat_buffer__update A b 0)"

definition cat_buffer_truncate_from ::
  "cat_buffer_allocator_t \<Rightarrow> cat_buffer_t \<Rightarrow> size_t \<Rightarrow> size_t \<Rightarrow> cat_buffer_t c_run" where
  "cat_buffer_truncate_from A b offset len =
     (case buf_value b of None \<Rightarrow> Done b
      | Some blk \<Rightarrow>
          if len = 0 \<or> buf_length b \<le> offset then Done (cat_buffer_clear A b)
          else
            let readable_size = buf_length b - offset;
                len = (if readable_size < len then readable_size else len)
            in if offset \<noteq> 0 then
                 c_bind (mem_read blk (unat offset) (unat len)) (\<lambda>ds.
                 c_bind (buf_copy_in b 0 ds) (\<lambda>b. Done (cat_buffer__update A b len)))
               else if len = buf_length b then Done b
               else Done (cat_buffer__update A b len))"

definition cat_buffer_truncate :: "cat_buffer_allocator_t \<Rightarrow> cat_buffer_t \<Rightarrow> size_t \<Rightarrow> cat_buffer_t c_run" where
  "cat_buffer_truncate A b len = cat_buffer_truncate_from A b 0 len"

definition cat_buffer_fetch :: "cat_buffer_t \<Rightarrow> byte list option \<times> cat_buffer_t" where
  "cat_buffer_fetch b = (buf_value b, cat_buffer__init)"

text \<open>The bytes \<^verbatim>\<open>(buffer->value, buffer->length)\<close> that a caller passes on.\<close>

definition contents :: "cat_buffer_t \<Rightarrow> byte list" where
  "contents b = (case buf_value b of None \<Rightarrow> [] | Some blk \<Rightarrow> take (unat (buf_length b)) blk)"

definition cat_buffer_dup :: "cat_buffer_allocator_t \<Rightarrow> cat_buffer_t \<Rightarrow> buf_result" where
  "cat_buffer_dup A b =
     c_bind (cat_buffer_create A (buf_size b)) (\<lambda>(r, nb).
       case r of Inl e \<Rightarrow> Done (Inl e, nb)
       | Inr _ \<Rightarrow> c_bind (cat_buffer_write A nb 0 (contents b)) (\<lambda>(r, nb).
           case r of Inl e \<Rightarrow> c_bind (cat_buffer_close A nb) (\<lambda>nb. Done (Inl e, nb))
           | Inr _ \<Rightarrow> Done (Inr (), nb)))"

definition cat_buffer_make_pair ::
  "cat_buffer_allocator_t \<Rightarrow> size_t \<Rightarrow> cat_buffer_t \<Rightarrow> size_t \<Rightarrow>
   ((cat_errno + unit) \<times> cat_buffer_t \<times> cat_buffer_t) c_run" where
  "cat_buffer_make_pair A rsize write_buffer wsize =
     c_bind (cat_buffer_create A rsize) (\<lambda>(r, rb).
       case r of Inl e \<Rightarrow> Done (Inl e, rb, write_buffer)
       | Inr _ \<Rightarrow> c_bind (cat_buffer_create A wsize) (\<lambda>(r, wb).
           case r of Inl e \<Rightarrow> c_bind (cat_buffer_close A rb) (\<lambda>rb. Done (Inl e, rb, wb))
           | Inr _ \<Rightarrow> Done (Inr (), rb, wb)))"

subsection \<open>Formatted appends\<close>

text \<open>
  \<^verbatim>\<open>snprintf\<close> into the local array \<^verbatim>\<open>tmp\<close> of 32 bytes stores at most 31 characters and a terminating
  zero, and returns the length of the whole text; the rest of the array keeps what it held. The
  number returned is then the length the caller appends from \<^verbatim>\<open>tmp\<close>.
\<close>

definition snprintf_tmp :: "byte list \<Rightarrow> byte list \<Rightarrow> byte list" where
  "snprintf_tmp tmp out = take 31 out @ [0] @ drop (min 31 (length out) + 1) tmp"

definition append_tmp :: "cat_buffer_allocator_t \<Rightarrow> cat_buffer_t \<Rightarrow> byte list \<Rightarrow> byte list \<Rightarrow> buf_result" where
  "append_tmp A b tmp out =
     c_bind (mem_read (snprintf_tmp tmp out) 0 (length out)) (\<lambda>ds. cat_buffer_append A b ds)"

text \<open>The texts of the conversions \<^verbatim>\<open>%zu\<close> and \<^verbatim>\<open>%jd\<close>.\<close>

fun decimal :: "nat \<Rightarrow> byte list" where
  "decimal n = (if n < 10 then [of_nat (48 + n)] else decimal (n div 10) @ [of_nat (48 + n mod 10)])"

declare decimal.simps [simp del]

definition decimal_signed :: "int \<Rightarrow> byte list" where
  "decimal_signed i = (if i < 0 then 45 # decimal (nat (- i)) else decimal (nat i))"

definition cat_buffer_append_unsigned ::
  "cat_buffer_allocator_t \<Rightarrow> cat_buffer_t \<Rightarrow> byte list \<Rightarrow> size_t \<Rightarrow> buf_result" where
  "cat_buffer_append_unsigned A b tmp v = append_tmp A b tmp (decimal (unat v))"

definition cat_buffer_append_signed ::
  "cat_buffer_allocator_t \<Rightarrow> cat_buffer_t \<Rightarrow> byte list \<Rightarrow> 64 word \<Rightarrow> buf_result" where
  "cat_buffer_append_signed A b tmp v = append_tmp A b tmp (decimal_signed (sint v))"

text \<open>The text of \<^verbatim>\<open>%f\<close> is a parameter: \<open>fmt_f x\<close> is what the C library prints for \<open>x\<close>.\<close>

definition cat_buffer_append_double ::
  "('d \<Rightarrow> byte list) \<Rightarrow> cat_buffer_allocator_t \<Rightarrow> cat_buffer_t \<Rightarrow> byte list \<Rightarrow> 'd \<Rightarrow> buf_result" where
  "cat_buffer_append_double fmt_f A b tmp x = append_tmp A b tmp (fmt_f x)"

definition cat_buffer_append_char :: "cat_buffer_allocator_t \<Rightarrow> cat_buffer_t \<Rightarrow> byte \<Rightarrow> buf_result" where
  "cat_buffer_append_char A b c = cat_buffer_append A b [c]"

text \<open>A zero-terminated string is its characters, \<^verbatim>\<open>strlen\<close> their number.\<close>

definition cat_buffer_append_str :: "cat_buffer_allocator_t \<Rightarrow> cat_buffer_t \<Rightarrow> byte list \<Rightarrow> buf_result" where
  "cat_buffer_append_str A b str = cat_buffer_append A b str"

text \<open>\<open>out\<close> is the text the format and its arguments stand for; the second \<^verbatim>\<open>vsnprintf\<close> writes as
  much of it as the room allows, with a terminating zero.\<close>

definition cat_buffer_append_vprintf :: "cat_buffer_allocator_t \<Rightarrow> cat_buffer_t \<Rightarrow> byte list \<Rightarrow> buf_result" where
  "cat_buffer_append_vprintf A b out =
     (let len = of_nat (length out) :: size_t
      in c_bind (cat_buffer_prepare A b (len + 1)) (\<lambda>(r, b).
        case r of Inl e \<Rightarrow> Done (Inl e, b)
        | Inr _ \<Rightarrow>
            let room = unat (buf_size b - buf_length b);
                text = (if room = 0 then [] else take (room - 1) out @ [0])
            in c_bind (buf_copy_in b (unat (buf_length b)) text) (\<lambda>b.
                 Done (Inr (), b\<lparr>buf_length := buf_length b + len\<rparr>))))"

definition cat_buffer_append_printf :: "cat_buffer_allocator_t \<Rightarrow> cat_buffer_t \<Rightarrow> byte list \<Rightarrow> buf_result" where
  "cat_buffer_append_printf A b out = cat_buffer_append_vprintf A b out"

definition cat_buffer_zero_terminate :: "cat_buffer_allocator_t \<Rightarrow> cat_buffer_t \<Rightarrow> buf_result" where
  "cat_buffer_zero_terminate A b =
     c_bind (cat_buffer_append_char A b 0) (\<lambda>(r, b).
       case r of Inl e \<Rightarrow> Done (Inl e, b)
       | Inr _ \<Rightarrow> Done (Inr (), b\<lparr>buf_length := buf_length b - 1\<rparr>))"

text \<open>The \<^verbatim>\<open>for\<close> loops that append one padding character at a time and ignore failures.\<close>

fun append_padding :: "cat_buffer_allocator_t \<Rightarrow> nat \<Rightarrow> byte \<Rightarrow> cat_buffer_t \<Rightarrow> cat_buffer_t c_run" where
  "append_padding A 0 c b = Done b"
| "append_padding A (Suc n) c b =
     c_bind (cat_buffer_append_char A b c) (\<lambda>(_, b). append_padding A n c b)"

text \<open>\<^verbatim>\<open>padding_length\<close> is an \<^verbatim>\<open>ssize_t\<close>; the division truncates towards zero and the results are stored
  in a \<^verbatim>\<open>size_t\<close>.\<close>

definition padding_counts :: "size_t \<Rightarrow> size_t \<Rightarrow> size_t \<times> size_t" where
  "padding_counts width len =
     (let padding_length = sint (width - len);
          padding_left = word_of_int (sgn padding_length * (\<bar>padding_length\<bar> div 2)) :: size_t
      in (padding_left, word_of_int padding_length - padding_left))"

definition cat_buffer_append_with_padding ::
  "cat_buffer_allocator_t \<Rightarrow> cat_buffer_t \<Rightarrow> byte list \<Rightarrow> byte \<Rightarrow> size_t \<Rightarrow> buf_result" where
  "cat_buffer_append_with_padding A b ds c width =
     (let len = of_nat (length ds); (padding_left, padding_right) = padding_counts width len
      in c_bind (cat_buffer_prepare A b (len + (width - len))) (\<lambda>(r, b).
        case r of Inl e \<Rightarrow> Done (Inl e, b)
        | Inr _ \<Rightarrow>
            c_bind (append_padding A (unat padding_left) c b) (\<lambda>b.
            c_bind (cat_buffer_append A b ds) (\<lambda>(_, b).
            c_bind (append_padding A (unat padding_right) c b) (\<lambda>b. Done (Inr (), b))))))"

definition cat_buffer_append_str_with_padding ::
  "cat_buffer_allocator_t \<Rightarrow> cat_buffer_t \<Rightarrow> byte list \<Rightarrow> byte \<Rightarrow> size_t \<Rightarrow> buf_result" where
  "cat_buffer_append_str_with_padding A b str c width = cat_buffer_append_with_padding A b str c width"

definition cat_buffer_export_str ::
  "cat_buffer_allocator_t \<Rightarrow> cat_buffer_t \<Rightarrow> (byte list option \<times> cat_buffer_t) c_run" where
  "cat_buffer_export_str A b =
     c_bind (cat_buffer_zero_terminate A b) (\<lambda>(_, b). Done (buf_value b, b))"

definition cat_buffer_str_free :: "cat_buffer_allocator_t \<Rightarrow> byte list \<Rightarrow> unit c_run" where
  "cat_buffer_str_free A str = call_free A str"

subsection \<open>Invariant and contracts\<close>

definition block :: "cat_buffer_t \<Rightarrow> byte list" where
  "block b = (case buf_value b of None \<Rightarrow> [] | Some blk \<Rightarrow> blk)"

definition buffer_ok :: "cat_buffer_t \<Rightarrow> bool" where
  "buffer_ok b \<longleftrightarrow>
     (buf_value b = None \<longleftrightarrow> buf_size b = 0) \<and>
     length (block b) = unat (buf_size b) \<and> buf_length b \<le> buf_size b"

text \<open>The relation between a buffer and the one a successful extension gives.\<close>

definition grown :: "cat_buffer_t \<Rightarrow> size_t \<Rightarrow> cat_buffer_t \<Rightarrow> bool" where
  "grown b r b' \<longleftrightarrow> buffer_ok b' \<and> buf_length b' = buf_length b \<and> r \<le> buf_size b' \<and>
     take (length (block b)) (block b') = block b \<and> unat (buf_size b') < 2 * unat r + 16"

locale buffer_allocator =
  fixes A :: cat_buffer_allocator_t
  assumes call_alloc: "call_alloc A sz = Done None \<or>
      (\<exists>blk. call_alloc A sz = Done (Some blk) \<and> length blk = unat sz)"
    and call_realloc: "call_realloc A v sz = Done None \<or>
      (\<exists>blk. call_realloc A v sz = Done (Some blk) \<and> length blk = unat sz \<and>
        (\<forall>old. v = Some old \<longrightarrow> take (length old) blk = take (unat sz) old))"
    and call_free: "call_free A blk = Done ()"
    and update_frame: "update_function A = Some f \<Longrightarrow>
      length (f blk n) = length blk \<and> take (unat n) (f blk n) = take (unat n) blk"

text \<open>The C library's \<^verbatim>\<open>malloc\<close> and \<^verbatim>\<open>realloc\<close>, and the table the module installs over them.\<close>

locale c_heap =
  fixes cat_malloc :: "size_t \<Rightarrow> byte list option"
    and cat_realloc :: "byte list option \<Rightarrow> size_t \<Rightarrow> byte list option"
  assumes malloc_size: "cat_malloc sz = Some blk \<Longrightarrow> length blk = unat sz"
    and realloc_size: "cat_realloc v sz = Some blk \<Longrightarrow> length blk = unat sz"
    and realloc_keeps: "cat_realloc (Some old) sz = Some blk \<Longrightarrow> take (length old) blk = take (unat sz) old"

sublocale c_heap \<subseteq> std: buffer_allocator "cat_buffer_module_init cat_malloc cat_realloc"
proof unfold_locales
  fix sz
  show "call_alloc (cat_buffer_module_init cat_malloc cat_realloc) sz = Done None \<or>
      (\<exists>blk. call_alloc (cat_buffer_module_init cat_malloc cat_realloc) sz = Done (Some blk) \<and>
        length blk = unat sz)"
    using malloc_size by (cases "cat_malloc sz")
      (auto simp: call_alloc_def cat_buffer_module_init_def cat_buffer_alloc_standard_def)
next
  fix v sz
  show "call_realloc (cat_buffer_module_init cat_malloc cat_realloc) v sz = Done None \<or>
      (\<exists>blk. call_realloc (cat_buffer_module_init cat_malloc cat_realloc) v sz = Done (Some blk) \<and>
        length blk = unat sz \<and> (\<forall>old. v = Some old \<longrightarrow> take (length old) blk = take (unat sz) old))"
    using realloc_size [of v sz] realloc_keeps [of _ sz] by (cases "cat_realloc v sz")
      (auto simp: call_realloc_def cat_buffer_module_init_def cat_buffer_realloc_standard_def)
qed (auto simp: call_free_def cat_buffer_module_init_def)

text \<open>A heap that never runs out and hands out zeroed blocks satisfies the contract.\<close>

definition zero_malloc :: "size_t \<Rightarrow> byte list option" where
  "zero_malloc sz = Some (replicate (unat sz) 0)"

definition zero_realloc :: "byte list option \<Rightarrow> size_t \<Rightarrow> byte list option" where
  "zero_realloc v sz =
     (let old = (case v of None \<Rightarrow> [] | Some blk \<Rightarrow> blk)
      in Some (take (unat sz) (old @ replicate (unat sz) 0)))"

interpretation zero_heap: c_heap zero_malloc zero_realloc
  by unfold_locales (auto simp: zero_malloc_def zero_realloc_def Let_def min_def)

subsection \<open>The growth loop\<close>

lemma extend_loop_ends:
  assumes "0 < unat n" and "unat n < 2 ^ 63" and "unat r \<le> 2 ^ 63"
  shows "\<exists>m. extend_loop n r = Some m \<and> unat r \<le> unat m \<and> 2 * unat n \<le> unat m \<and>
           (unat m = 2 * unat n \<or> unat m < 2 * unat r)"
  using assms
proof (induction "unat r - unat n" arbitrary: n rule: less_induct)
  case less
  have dbl: "unat (n + n) = 2 * unat n"
    using less.prems(2) by (subst unat_add_lt) auto
  show ?case
  proof (cases "n + n < r")
    case False
    then show ?thesis using dbl
      by (intro exI [of _ "n + n"]) (simp add: extend_loop.simps [of n r] word_less_nat_alt)
  next
    case True
    then have lt: "2 * unat n < unat r" using dbl by (simp add: word_less_nat_alt)
    have "\<exists>m. extend_loop (n + n) r = Some m \<and> unat r \<le> unat m \<and> 2 * unat (n + n) \<le> unat m \<and>
           (unat m = 2 * unat (n + n) \<or> unat m < 2 * unat r)"
      using less.prems lt dbl by (intro less.hyps) auto
    with True lt dbl show ?thesis by (auto simp: extend_loop.simps [of n r])
  qed
qed

lemma extend_loop_power:
  assumes "extend_loop n r = Some m"
  shows "\<exists>j. m = n * 2 ^ Suc j \<and> \<not> m < r"
proof (rule extend_loop.raw_induct [where P = "\<lambda>n r m. \<exists>j. m = n * 2 ^ Suc j \<and> \<not> m < r", OF _ assms])
  fix f and n r m :: size_t
  assume IH: "\<And>n r m. f n r = Some m \<Longrightarrow> \<exists>j. m = n * 2 ^ Suc j \<and> \<not> m < r"
    and eq: "(let new_size = n + n in if new_size < r then f new_size r else Some new_size) = Some m"
  show "\<exists>j. m = n * 2 ^ Suc j \<and> \<not> m < r"
  proof (cases "n + n < r")
    case True
    with eq IH [of "n + n" r m] obtain j where "m = (n + n) * 2 ^ Suc j" "\<not> m < r" by auto
    then show ?thesis by (intro exI [of _ "Suc j"]) (simp add: algebra_simps)
  next
    case False
    with eq show ?thesis by (intro exI [of _ 0]) auto
  qed
qed

text \<open>From a power of two the loop only meets powers of two up to \<open>2 ^ 63\<close>, and then zero.\<close>

lemma extend_loop_diverges:
  assumes "2 ^ 63 < unat r"
  shows "extend_loop (2 ^ k) r = None"
proof (rule ccontr)
  assume "extend_loop (2 ^ k) r \<noteq> None"
  then obtain m j where m: "m = (2 ^ k :: size_t) * 2 ^ Suc j" "\<not> m < r"
    using extend_loop_power by (metis not_None_eq)
  then have "m = 2 ^ (k + Suc j)" by (simp add: power_add)
  then have "unat m \<le> 2 ^ 63"
  proof (cases "k + Suc j < 64")
    case True
    then have "unat (2 ^ (k + Suc j) :: size_t) = 2 ^ (k + Suc j)"
      by (subst unat_pow2) auto
    moreover have "(2 :: nat) ^ (k + Suc j) \<le> 2 ^ 63" by (rule power_increasing) (use True in auto)
    ultimately show ?thesis unfolding \<open>m = 2 ^ (k + Suc j)\<close> by simp
  next
    case False
    then obtain d where d: "k + Suc j = 64 + d" using le_Suc_ex [of 64 "k + Suc j"] by auto
    have "(2 :: size_t) ^ 64 = 0" using word_exp_length_eq_0 [where 'a = 64] by simp
    then have "(2 ^ (k + Suc j) :: size_t) = 0" unfolding d power_add by (simp only: mult_zero_left)
    with \<open>m = 2 ^ (k + Suc j)\<close> show ?thesis by simp
  qed
  with m(2) assms show False by (simp add: word_less_nat_alt)
qed

subsection \<open>Sizes\<close>

lemma align_size_bounds:
  assumes "unat sz + 8 < 2 ^ 64"
  shows "unat sz \<le> unat (cat_buffer_align_size sz 0)" and "0 < unat (cat_buffer_align_size sz 0)"
    and "unat (cat_buffer_align_size sz 0) \<le> unat sz + 8"
    and "unat (cat_buffer_align_size sz 0) mod 8 = 0"
proof -
  define s where "s = (if sz = 0 then 1 else sz)"
  have s: "unat s = (if sz = 0 then 1 else unat sz)" by (simp add: s_def)
  have "unat (cat_buffer_align_size sz 0) = (unat s + 7) div 8 * 8"
    using aligned_size_unat [of 3 s] assms s
    by (simp add: cat_buffer_align_size_def CAT_MEMORY_DEFAULT_ALIGNED_SIZE_def s_def)
  moreover have "0 < unat s" "unat sz \<le> unat s" "unat s \<le> unat sz + 1"
    using s by (auto simp: unat_gt_0)
  ultimately show "unat sz \<le> unat (cat_buffer_align_size sz 0)" "0 < unat (cat_buffer_align_size sz 0)"
    "unat (cat_buffer_align_size sz 0) \<le> unat sz + 8" "unat (cat_buffer_align_size sz 0) mod 8 = 0"
    by auto
qed

lemma buffer_ok_init [simp]: "buffer_ok cat_buffer__init" "contents cat_buffer__init = []"
  by (simp_all add: buffer_ok_def cat_buffer__init_def contents_def block_def)

lemma length_init [simp]: "buf_length cat_buffer__init = 0"
  by (simp add: cat_buffer__init_def)

lemma contents_block: "contents b = take (unat (buf_length b)) (block b)"
  by (simp add: contents_def block_def split: option.split)

lemma buffer_ok_length: "buffer_ok b \<Longrightarrow> length (contents b) = unat (buf_length b)"
  by (simp add: buffer_ok_def contents_block word_le_nat_alt)

text \<open>\<open>written xs off ds ys\<close>: \<open>ys\<close> is \<open>xs\<close> with \<open>ds\<close> laid over it from \<open>off\<close> on. When \<open>off\<close> is beyond
  the end of \<open>xs\<close>, the bytes in between are what the block holds there.\<close>

definition written :: "byte list \<Rightarrow> nat \<Rightarrow> byte list \<Rightarrow> byte list \<Rightarrow> bool" where
  "written xs off ds ys \<longleftrightarrow>
     length ys = max (length xs) (off + length ds) \<and>
     (\<forall>i < length ds. ys ! (off + i) = ds ! i) \<and>
     (\<forall>i < length xs. i < off \<or> off + length ds \<le> i \<longrightarrow> ys ! i = xs ! i)"

lemma written_overwrite:
  assumes "off + length ds \<le> length blk" and "n \<le> length blk"
  shows "written (take n blk) off ds
    (take (max n (off + length ds)) (take off blk @ ds @ drop (off + length ds) blk))"
  using assms unfolding written_def
  by (auto simp: nth_append min_def max_def)

lemma written_inside:
  assumes "written xs off ds ys" and "off \<le> length xs"
  shows "ys = take off xs @ ds @ drop (off + length ds) xs"
proof (rule nth_equalityI)
  show "length ys = length (take off xs @ ds @ drop (off + length ds) xs)"
    using assms by (auto simp: written_def)
  fix i assume i: "i < length ys"
  show "ys ! i = (take off xs @ ds @ drop (off + length ds) xs) ! i"
  proof (cases "off \<le> i \<and> i < off + length ds")
    case True
    then obtain j where "i = off + j" "j < length ds" by (metis le_iff_add nat_add_left_cancel_less)
    with assms show ?thesis by (simp add: written_def nth_append)
  next
    case False
    with assms i show ?thesis by (auto simp: written_def nth_append not_le not_less)
  qed
qed

lemma keep_contents:
  assumes "buffer_ok b" and "buf_length b' = buf_length b" and "take (length (block b)) (block b') = block b"
  shows "contents b' = contents b"
proof -
  have "unat (buf_length b) \<le> length (block b)"
    using assms(1) by (simp add: buffer_ok_def word_le_nat_alt)
  then have "take (unat (buf_length b)) (block b') = take (unat (buf_length b)) (take (length (block b)) (block b'))"
    by (simp add: min_def)
  with assms(2,3) show ?thesis by (simp add: contents_block)
qed

context buffer_allocator
begin

lemma create_spec:
  "cat_buffer_create A sz = Done (Inl CAT_ENOMEM, cat_buffer__init) \<or>
   (\<exists>b. cat_buffer_create A sz = Done (Inr (), b) \<and> buffer_ok b \<and> buf_size b = sz \<and> contents b = [])"
  using call_alloc [of sz]
  by (auto simp: cat_buffer_create_def cat_buffer__alloc_def buffer_ok_def cat_buffer__init_def
      contents_def block_def unat_eq_0)

lemma close_spec: "cat_buffer_close A b = Done (if buf_value b = None then b else cat_buffer__init)"
  by (simp add: cat_buffer_close_def call_free split: option.split)

lemma realloc_spec:
  assumes ok: "buffer_ok b"
  shows "(new_size \<noteq> 0 \<and> cat_buffer_realloc A b new_size = Done (Inl CAT_ENOMEM, b)) \<or>
    (\<exists>b'. cat_buffer_realloc A b new_size = Done (Inr (), b') \<and> buffer_ok b' \<and> buf_size b' = new_size \<and>
       buf_length b' = min new_size (buf_length b) \<and>
       take (length (block b)) (block b') = take (unat new_size) (block b))"
proof (cases "new_size = buf_size b")
  case True
  with ok show ?thesis by (auto simp: cat_buffer_realloc_def buffer_ok_def min_def)
next
  case False
  show ?thesis
  proof (cases "new_size = 0")
    case True
    with False ok show ?thesis
      by (auto simp: cat_buffer_realloc_def close_spec buffer_ok_def cat_buffer__init_def block_def)
  next
    case nz: False
    from call_realloc [of "buf_value b" new_size] show ?thesis
    proof
      assume "call_realloc A (buf_value b) new_size = Done None"
      then show ?thesis using False nz by (simp add: cat_buffer_realloc_def)
    next
      assume "\<exists>blk. call_realloc A (buf_value b) new_size = Done (Some blk) \<and> length blk = unat new_size \<and>
        (\<forall>old. buf_value b = Some old \<longrightarrow> take (length old) blk = take (unat new_size) old)"
      then obtain blk where blk: "call_realloc A (buf_value b) new_size = Done (Some blk)"
        "length blk = unat new_size" "take (length (block b)) blk = take (unat new_size) (block b)"
        by (auto simp: block_def split: option.splits)
      then show ?thesis using False nz ok
        by (auto simp: cat_buffer_realloc_def buffer_ok_def block_def min_def not_less)
    qed
  qed
qed

lemma extend_spec:
  assumes ok: "buffer_ok b" and r: "buf_size b < r" "unat r \<le> 2 ^ 63 - 8"
  shows "cat_buffer_extend A b r = Done (Inl CAT_ENOMEM, b) \<or>
    (\<exists>b'. cat_buffer_extend A b r = Done (Inr (), b') \<and> grown b r b')"
proof -
  let ?n = "if buf_size b = 0 then Done (cat_buffer_align_size r 0)
        else case extend_loop (cat_buffer_align_size (buf_size b) 0) r of None \<Rightarrow> Diverges | Some n \<Rightarrow> Done n"
  have "\<exists>m. ?n = Done m \<and> unat r \<le> unat m \<and> unat m < 2 * unat r + 16"
  proof (cases "buf_size b = 0")
    case True
    then show ?thesis using align_size_bounds [of r] r by (auto simp: word_less_nat_alt)
  next
    case False
    let ?a = "cat_buffer_align_size (buf_size b) 0"
    have sz: "unat (buf_size b) < unat r" using r by (simp add: word_less_nat_alt)
    then have a: "0 < unat ?a" "unat ?a \<le> unat (buf_size b) + 8" "unat ?a mod 8 = 0"
      using r align_size_bounds [of "buf_size b"] by auto
    have "unat ?a < 2 ^ 63" using sz r a(2) by simp
    with a r obtain m where "extend_loop ?a r = Some m" "unat r \<le> unat m"
      "unat m = 2 * unat ?a \<or> unat m < 2 * unat r"
      using extend_loop_ends [of ?a r] by auto
    with False sz a show ?thesis by auto
  qed
  then obtain m where m: "?n = Done m" "unat r \<le> unat m" "unat m < 2 * unat r + 16" by blast
  then have lt: "buf_size b < m" "m \<noteq> 0" using r by (auto simp: word_less_nat_alt)
  with m have ext: "cat_buffer_extend A b r = cat_buffer_realloc A b m"
    by (simp add: cat_buffer_extend_def)
  have "min m (buf_length b) = buf_length b" "take (unat m) (block b) = block b"
    using ok lt by (auto simp: buffer_ok_def min_def word_less_nat_alt word_le_nat_alt)
  with realloc_spec [OF ok, of m] lt m show ?thesis
    by (auto simp: ext grown_def word_le_nat_alt)
qed

lemma update_spec:
  assumes ok: "buffer_ok b" and n: "n \<le> buf_size b"
  shows "buffer_ok (cat_buffer__update A b n)"
    and "contents (cat_buffer__update A b n) = take (unat n) (block b)"
    and "buf_size (cat_buffer__update A b n) = buf_size b"
    and "buf_length (cat_buffer__update A b n) = n"
proof -
  let ?b = "cat_buffer__update A b n"
  have b: "length (block ?b) = length (block b) \<and> take (unat n) (block ?b) = take (unat n) (block b)"
    using update_frame
    by (auto simp: cat_buffer__update_def block_def Let_def split: option.split)
  have f: "buf_size ?b = buf_size b" "buf_length ?b = n" "buf_value ?b = None \<longleftrightarrow> buf_value b = None"
    by (auto simp: cat_buffer__update_def Let_def split: option.split)
  from b f ok n show "buffer_ok ?b" by (simp add: buffer_ok_def)
  from b f show "contents ?b = take (unat n) (block b)" by (simp add: contents_block)
  from f show "buf_size ?b = buf_size b" "buf_length ?b = n" by simp_all
qed

lemma copy_in_spec:
  assumes ok: "buffer_ok b" and fit: "off + length ds \<le> unat (buf_size b)" and "ds \<noteq> []"
  shows "\<exists>b'. buf_copy_in b off ds = Done b' \<and> buffer_ok b' \<and>
    block b' = take off (block b) @ ds @ drop (off + length ds) (block b) \<and>
    buf_size b' = buf_size b \<and> buf_length b' = buf_length b"
proof -
  from assms have "buf_size b \<noteq> 0" by auto
  with ok obtain blk where "buf_value b = Some blk" by (auto simp: buffer_ok_def)
  with ok fit show ?thesis by (auto simp: buf_copy_in_def buffer_ok_def block_def)
qed

lemma of_nat_length: "unat off + length ds \<le> 2 ^ 63 - 8 \<Longrightarrow> unat (off + of_nat (length ds) :: size_t) = unat off + length (ds :: byte list)"
  by (subst unat_add_lt) (auto simp: unat_of_nat_lt)

text \<open>What \<^verbatim>\<open>cat_buffer_write\<close> and \<^verbatim>\<open>cat_buffer_append\<close> have in common: make room, then copy.\<close>

lemma reserve_spec:
  assumes ok: "buffer_ok b" and r: "unat r \<le> 2 ^ 63 - 8"
  shows "buf_reserve A b r = Done (Inl CAT_ENOMEM, b) \<or>
    (\<exists>b'. buf_reserve A b r = Done (Inr (), b') \<and>
       buffer_ok b' \<and> buf_length b' = buf_length b \<and> r \<le> buf_size b' \<and>
       take (length (block b)) (block b') = block b)"
  using extend_spec [OF ok _ r] ok
  by (cases "buf_size b < r") (auto simp: buf_reserve_def grown_def not_less)

lemma append_spec:
  assumes ok: "buffer_ok b" and r: "unat (buf_length b) + length ds \<le> 2 ^ 63 - 8"
  shows "cat_buffer_append A b ds = Done (Inl CAT_ENOMEM, b) \<or>
    (\<exists>b'. cat_buffer_append A b ds = Done (Inr (), b') \<and> buffer_ok b' \<and> contents b' = contents b @ ds)"
proof -
  let ?r = "buf_length b + of_nat (length ds)"
  have ur: "unat ?r = unat (buf_length b) + length ds" using r by (rule of_nat_length)
  then have "unat ?r \<le> 2 ^ 63 - 8" using r by simp
  from reserve_spec [OF ok this] show ?thesis
  proof (elim disjE exE conjE)
    assume "buf_reserve A b ?r = Done (Inl CAT_ENOMEM, b)"
    then show ?thesis by (simp add: cat_buffer_append_def Let_def)
  next
    fix b1 assume b1: "buf_reserve A b ?r = Done (Inr (), b1)"
      "buffer_ok b1" "buf_length b1 = buf_length b" "?r \<le> buf_size b1"
      "take (length (block b)) (block b1) = block b"
    have c1: "contents b1 = contents b" by (rule keep_contents [OF ok b1(3,5)])
    show ?thesis
    proof (cases "ds = []")
      case True
      with b1 c1 show ?thesis by (simp add: cat_buffer_append_def Let_def)
    next
      case False
      have "unat (buf_length b) + length ds \<le> unat (buf_size b1)"
        using b1(4) ur by (simp add: word_le_nat_alt)
      from copy_in_spec [OF b1(2) this False] obtain b2 where b2: "buf_copy_in b1 (unat (buf_length b)) ds = Done b2"
        "buffer_ok b2" "block b2 = take (unat (buf_length b)) (block b1) @ ds @ drop (unat (buf_length b) + length ds) (block b1)"
        "buf_size b2 = buf_size b1" by blast
      have "take (unat ?r) (block b2) = contents b @ ds"
        using b1(2,3) unfolding c1 [symmetric]
        by (simp add: ur b2(3) contents_block buffer_ok_def word_le_nat_alt)
      with b1 b2 False update_spec [OF b2(2), of ?r] show ?thesis
        by (simp add: cat_buffer_append_def Let_def)
    qed
  qed
qed

lemma write_spec:
  assumes ok: "buffer_ok b" and r: "unat off + length ds \<le> 2 ^ 63 - 8" and ne: "ds \<noteq> []"
  shows "cat_buffer_write A b off ds = Done (Inl CAT_ENOMEM, b) \<or>
    (\<exists>b'. cat_buffer_write A b off ds = Done (Inr (), b') \<and> buffer_ok b' \<and>
       written (contents b) (unat off) ds (contents b'))"
proof -
  let ?r = "off + of_nat (length ds)"
  have ur: "unat ?r = unat off + length ds" using r by (rule of_nat_length)
  then have "unat ?r \<le> 2 ^ 63 - 8" using r by simp
  from reserve_spec [OF ok this] show ?thesis
  proof (elim disjE exE conjE)
    assume "buf_reserve A b ?r = Done (Inl CAT_ENOMEM, b)"
    then show ?thesis by (simp add: cat_buffer_write_def Let_def)
  next
    fix b1 assume b1: "buf_reserve A b ?r = Done (Inr (), b1)" "buffer_ok b1" "buf_length b1 = buf_length b"
      "?r \<le> buf_size b1" "take (length (block b)) (block b1) = block b"
    have c1: "contents b1 = contents b" by (rule keep_contents [OF ok b1(3,5)])
    have fit: "unat off + length ds \<le> unat (buf_size b1)"
      using b1(4) ur by (simp add: word_le_nat_alt)
    from copy_in_spec [OF b1(2) fit ne] obtain b2 where b2: "buf_copy_in b1 (unat off) ds = Done b2"
      "buffer_ok b2" "block b2 = take (unat off) (block b1) @ ds @ drop (unat off + length ds) (block b1)"
      "buf_size b2 = buf_size b1" "buf_length b2 = buf_length b1" by blast
    define b3 where "b3 = (if buf_length b2 < ?r then cat_buffer__update A b2 ?r else b2)"
    have w: "cat_buffer_write A b off ds = Done (Inr (), b3)"
      using ne b1(1) b2(1) by (simp add: cat_buffer_write_def Let_def b3_def)
    have "buffer_ok b3" "contents b3 = take (max (unat (buf_length b)) (unat off + length ds)) (block b2)"
      using update_spec [OF b2(2), of ?r] b1(3,4) b2 ur
      by (auto simp: b3_def contents_block word_less_nat_alt max_def)
    moreover have "written (contents b1) (unat off) ds (take (max (unat (buf_length b)) (unat off + length ds)) (block b2))"
      unfolding contents_block b1(3) b2(3)
      using fit b1(2) by (intro written_overwrite) (auto simp: buffer_ok_def b1(3) word_le_nat_alt)
    ultimately show ?thesis using w c1 by auto
  qed
qed

lemma truncate_from_spec:
  assumes ok: "buffer_ok b"
  shows "\<exists>b'. cat_buffer_truncate_from A b off len = Done b' \<and> buffer_ok b' \<and> buf_size b' = buf_size b \<and>
    contents b' = take (unat len) (drop (unat off) (contents b))"
proof (cases "buf_value b")
  case None
  with ok show ?thesis by (simp add: cat_buffer_truncate_from_def contents_def)
next
  case (Some blk)
  then have blk: "block b = blk" by (simp add: block_def)
  have len: "length blk = unat (buf_size b)" "unat (buf_length b) \<le> unat (buf_size b)"
    using ok by (auto simp: buffer_ok_def blk word_le_nat_alt)
  show ?thesis
  proof (cases "len = 0 \<or> buf_length b \<le> off")
    case True
    then have "take (unat len) (drop (unat off) (contents b)) = []"
      using len by (auto simp: contents_block blk word_le_nat_alt)
    with True Some update_spec [OF ok, of 0] show ?thesis
      by (simp add: cat_buffer_truncate_from_def cat_buffer_clear_def)
  next
    case False
    define l where "l = (if buf_length b - off < len then buf_length b - off else len)"
    have "off \<le> buf_length b" using False by auto
    then have "unat (buf_length b - off) = unat (buf_length b) - unat off" by (rule unat_sub)
    then have l: "unat l = min (unat (buf_length b) - unat off) (unat len)"
      by (auto simp: l_def word_less_nat_alt)
    have off: "unat off < unat (buf_length b)" using False by (simp add: word_le_nat_alt not_le)
    have goal: "take (unat l) (drop (unat off) blk) = take (unat len) (drop (unat off) (contents b))"
      using len off by (simp add: contents_block blk l drop_take min.commute)
    have le: "l \<le> buf_size b" using l off len by (simp add: word_le_nat_alt)
    have lpos: "0 < unat l" using False off l by (simp add: unat_gt_0)
    show ?thesis
    proof (cases "off = 0")
      case True
      then show ?thesis
        using False Some goal update_spec [OF ok le] ok blk
        by (auto simp: cat_buffer_truncate_from_def Let_def l_def contents_block)
    next
      case nz: False
      let ?ds = "take (unat l) (drop (unat off) blk)"
      have dl: "length ?ds = unat l" using l len off by auto
      have rd: "mem_read blk (unat off) (unat l) = Done ?ds" using l len off by (intro mem_read_Done) auto
      have "0 + length ?ds \<le> unat (buf_size b)" "?ds \<noteq> []" using dl lpos le by (auto simp: word_le_nat_alt)
      from copy_in_spec [OF ok this] obtain b2 where b2: "buf_copy_in b 0 ?ds = Done b2" "buffer_ok b2"
        "block b2 = ?ds @ drop (unat l) blk" "buf_size b2 = buf_size b"
        using dl blk by auto
      have "take (unat l) (block b2) = ?ds" using b2(3) dl by simp
      with b2 le goal update_spec [OF b2(2), of l] nz False Some rd show ?thesis
        by (simp add: cat_buffer_truncate_from_def Let_def flip: l_def)
    qed
  qed
qed

lemma malloc_trim_spec:
  assumes ok: "buffer_ok b"
  shows "cat_buffer_malloc_trim A b = Done (Inl CAT_ENOMEM, b) \<or>
    (\<exists>b'. cat_buffer_malloc_trim A b = Done (Inr (), b') \<and> buffer_ok b' \<and>
       buf_size b' = buf_length b \<and> contents b' = contents b)"
proof (cases "buf_length b = buf_size b")
  case True
  with ok show ?thesis by (simp add: cat_buffer_malloc_trim_def)
next
  case False
  from realloc_spec [OF ok, of "buf_length b"] show ?thesis
  proof (elim disjE exE conjE)
    fix b' assume b': "cat_buffer_realloc A b (buf_length b) = Done (Inr (), b')" "buffer_ok b'"
      "buf_size b' = buf_length b" "buf_length b' = min (buf_length b) (buf_length b)"
      "take (length (block b)) (block b') = take (unat (buf_length b)) (block b)"
    have "length (block b') \<le> length (block b)"
      using ok b'(2,3) by (simp add: buffer_ok_def word_le_nat_alt)
    then have "contents b' = contents b" using b'(2-5) by (simp add: contents_block buffer_ok_def)
    with b' False show ?thesis by (simp add: cat_buffer_malloc_trim_def)
  qed (use False in \<open>simp add: cat_buffer_malloc_trim_def\<close>)
qed

lemma dup_spec:
  assumes ok: "buffer_ok b" and r: "unat (buf_size b) \<le> 2 ^ 63 - 8"
  shows "cat_buffer_dup A b = Done (Inl CAT_ENOMEM, cat_buffer__init) \<or>
    (\<exists>b'. cat_buffer_dup A b = Done (Inr (), b') \<and> buffer_ok b' \<and> contents b' = contents b)"
  using create_spec [of "buf_size b"]
proof (elim disjE exE conjE)
  assume "cat_buffer_create A (buf_size b) = Done (Inl CAT_ENOMEM, cat_buffer__init)"
  then show ?thesis by (simp add: cat_buffer_dup_def)
next
  fix nb assume nb: "cat_buffer_create A (buf_size b) = Done (Inr (), nb)" "buffer_ok nb"
    "buf_size nb = buf_size b" "contents nb = []"
  have fit: "length (contents b) \<le> unat (buf_size b)"
    using ok by (simp add: buffer_ok_length [OF ok]) (simp add: buffer_ok_def word_le_nat_alt)
  show ?thesis
  proof (cases "contents b = []")
    case True
    then have "cat_buffer_write A nb 0 (contents b) = Done (Inr (), nb)"
      by (simp add: cat_buffer_write_def buf_reserve_def)
    with True nb show ?thesis by (simp add: cat_buffer_dup_def)
  next
    case False
    with fit have "buf_size nb \<noteq> 0" using nb(3) by auto
    then have "buf_value nb \<noteq> None" using nb(2) by (simp add: buffer_ok_def)
    moreover have "cat_buffer_write A nb 0 (contents b) = Done (Inl CAT_ENOMEM, nb) \<or>
      (\<exists>b'. cat_buffer_write A nb 0 (contents b) = Done (Inr (), b') \<and> buffer_ok b' \<and>
       written [] 0 (contents b) (contents b'))"
      using write_spec [OF nb(2) _ False, of 0] fit r nb(4) by simp
    ultimately show ?thesis
      using nb(1) by (auto simp: cat_buffer_dup_def close_spec dest!: written_inside)
  qed
qed

lemma prepare_spec:
  assumes ok: "buffer_ok b" and r: "unat (buf_length b) + unat n \<le> 2 ^ 63 - 8"
  shows "cat_buffer_prepare A b n = Done (Inl CAT_ENOMEM, b) \<or>
    (\<exists>b'. cat_buffer_prepare A b n = Done (Inr (), b') \<and> buffer_ok b' \<and> contents b' = contents b \<and>
       buf_length b' = buf_length b \<and> unat (buf_length b) + unat n \<le> unat (buf_size b'))"
proof -
  have eq: "cat_buffer_prepare A b n = buf_reserve A b (buf_length b + n)"
    by (simp add: cat_buffer_prepare_def buf_reserve_def)
  have "unat (buf_length b + n) = unat (buf_length b) + unat n"
    using r by (subst unat_add_lt) auto
  then have u: "unat (buf_length b + n) \<le> 2 ^ 63 - 8"
    "\<And>m. buf_length b + n \<le> m \<longleftrightarrow> unat (buf_length b) + unat n \<le> unat m"
    using r by (simp_all add: word_le_nat_alt)
  show ?thesis unfolding eq using reserve_spec [OF ok u(1)] u(2) keep_contents [OF ok] by blast
qed

text \<open>With room in the block no allocation happens and an append cannot fail.\<close>

lemma append_room:
  assumes ok: "buffer_ok b" and room: "unat (buf_length b) + length ds \<le> unat (buf_size b)"
  shows "\<exists>b'. cat_buffer_append A b ds = Done (Inr (), b') \<and> buffer_ok b' \<and>
    contents b' = contents b @ ds \<and> buf_size b' = buf_size b \<and>
    unat (buf_length b') = unat (buf_length b) + length ds"
proof -
  let ?r = "buf_length b + of_nat (length ds)"
  have "unat (buf_length b) + length ds < 2 ^ 64" using room size_t_bound [of "buf_size b"] by simp
  then have ur: "unat ?r = unat (buf_length b) + length ds"
    by (subst unat_add_lt) (auto simp: unat_of_nat_lt)
  with room have res: "buf_reserve A b ?r = Done (Inr (), b)" "?r \<le> buf_size b"
    by (auto simp: buf_reserve_def word_less_nat_alt word_le_nat_alt)
  show ?thesis
  proof (cases "ds = []")
    case True
    with ok res show ?thesis by (simp add: cat_buffer_append_def)
  next
    case False
    from copy_in_spec [OF ok room False] obtain b2 where b2: "buf_copy_in b (unat (buf_length b)) ds = Done b2"
      "buffer_ok b2" "block b2 = take (unat (buf_length b)) (block b) @ ds @ drop (unat (buf_length b) + length ds) (block b)"
      "buf_size b2 = buf_size b" by blast
    have "take (unat ?r) (block b2) = contents b @ ds"
      using ok by (simp add: ur b2(3) contents_block buffer_ok_def word_le_nat_alt)
    with res b2 False update_spec [OF b2(2), of ?r] ur show ?thesis
      by (simp add: cat_buffer_append_def Let_def)
  qed
qed

lemma append_padding_room:
  "\<lbrakk>buffer_ok b; unat (buf_length b) + n \<le> unat (buf_size b)\<rbrakk> \<Longrightarrow>
   \<exists>b'. append_padding A n c b = Done b' \<and> buffer_ok b' \<and> contents b' = contents b @ replicate n c \<and>
     buf_size b' = buf_size b \<and> unat (buf_length b') = unat (buf_length b) + n"
proof (induction n arbitrary: b)
  case (Suc n)
  from append_room [of b "[c]"] Suc.prems obtain b1 where b1: "cat_buffer_append A b [c] = Done (Inr (), b1)"
    "buffer_ok b1" "contents b1 = contents b @ [c]" "buf_size b1 = buf_size b"
    "unat (buf_length b1) = unat (buf_length b) + 1" by auto
  then show ?case using Suc.IH [of b1] Suc.prems by (auto simp: cat_buffer_append_char_def)
qed simp

lemma zero_terminate_spec:
  assumes ok: "buffer_ok b" and r: "unat (buf_length b) + 1 \<le> 2 ^ 63 - 8"
  shows "cat_buffer_zero_terminate A b = Done (Inl CAT_ENOMEM, b) \<or>
    (\<exists>b'. cat_buffer_zero_terminate A b = Done (Inr (), b') \<and> buffer_ok b' \<and> contents b' = contents b \<and>
       take (Suc (unat (buf_length b'))) (block b') = contents b @ [0])"
proof -
  have "unat (buf_length b) + length [0::byte] \<le> 2 ^ 63 - 8" using r by simp
  from append_spec [OF ok this] show ?thesis
proof (elim disjE exE conjE)
  fix b1 assume b1: "cat_buffer_append A b [0] = Done (Inr (), b1)" "buffer_ok b1" "contents b1 = contents b @ [0]"
  let ?b' = "b1\<lparr>buf_length := buf_length b1 - 1\<rparr>"
  have "length (contents b1) = Suc (unat (buf_length b))" using b1(3) buffer_ok_length [OF ok] by simp
  then have l: "unat (buf_length b1) = Suc (unat (buf_length b))" using buffer_ok_length [OF b1(2)] by simp
  then have "buf_length b1 \<noteq> 0" by auto
  then have l': "unat (buf_length ?b') = unat (buf_length b)" using l unat_minus_one by fastforce
  have blk: "block ?b' = block b1" by (simp add: block_def)
  have c: "take (Suc (unat (buf_length b))) (block b1) = contents b @ [0]"
    using b1(3) l by (simp add: contents_block)
  then have "take (unat (buf_length b)) (block b1) = contents b"
    using buffer_ok_length [OF ok] by (metis append_eq_conv_conj min.absorb1 n_not_Suc_n nat_le_linear not_less_eq_eq take_take)
  moreover have "buffer_ok ?b'" using b1(2) l l' by (auto simp: buffer_ok_def blk word_le_nat_alt)
  ultimately show ?thesis using b1(1) c l'
    by (simp add: cat_buffer_zero_terminate_def cat_buffer_append_char_def contents_block blk)
qed (auto simp: cat_buffer_zero_terminate_def cat_buffer_append_char_def)
qed

end

subsection \<open>Texts\<close>

lemma append_tmp_short:
  assumes "length out \<le> 31" and "length tmp = 32"
  shows "append_tmp A b tmp out = cat_buffer_append A b out"
  using assms by (simp add: append_tmp_def snprintf_tmp_def)

lemma append_tmp_long:
  assumes "32 < length out" and "length tmp = 32"
  shows "append_tmp A b tmp out = Undefined"
  using assms by (simp add: append_tmp_def snprintf_tmp_def mem_read_def)

lemma decimal_length: "n < 10 ^ k \<Longrightarrow> 0 < k \<Longrightarrow> length (decimal n) \<le> k"
proof (induction n arbitrary: k rule: decimal.induct)
  case (1 n)
  show ?case
  proof (cases "n < 10")
    case False
    obtain k' where "k = Suc k'" using "1.prems"(2) by (cases k) auto
    moreover from this False "1.prems"(1) have "0 < k'" by (cases k') auto
    ultimately have k: "k = Suc k'" "0 < k'" by simp_all
    with "1.prems" have "n div 10 < 10 ^ k'" by (simp add: div_less_iff_less_mult mult.commute)
    with "1.IH" [OF False] k False show ?thesis by (simp add: decimal.simps [of n])
  qed (use "1.prems" in \<open>simp add: decimal.simps [of n]\<close>)
qed

definition undecimal :: "byte list \<Rightarrow> nat" where
  "undecimal bs = foldl (\<lambda>a c. 10 * a + (unat c - 48)) 0 bs"

lemma undecimal_decimal: "undecimal (decimal n) = n"
proof (induction n rule: decimal.induct)
  case (1 n)
  have d: "unat (of_nat (48 + k) :: byte) - 48 = k" if "k < 10" for k
    using that by (subst unat_of_nat_lt) auto
  show ?case
  proof (cases "n < 10")
    case True
    with d [of n] show ?thesis by (simp add: decimal.simps [of n] undecimal_def del: of_nat_add)
  next
    case False
    with "1.IH" d [of "n mod 10"] show ?thesis
      by (simp add: decimal.simps [of n] undecimal_def del: of_nat_add)
  qed
qed

lemma half_toward_zero: "sgn (int n) * (\<bar>int n\<bar> div 2) = int (n div 2)"
  by (cases "n = 0") (simp_all add: zdiv_int)

lemma padding_counts_wide:
  assumes "len \<le> width" and "unat width < 2 ^ 63"
  shows "padding_counts width len =
    (of_nat ((unat width - unat len) div 2), of_nat (unat width - unat len - (unat width - unat len) div 2))"
proof -
  let ?n = "unat width - unat len"
  have n: "unat (width - len) = ?n" using assms(1) by (simp add: unat_sub)
  then have s: "sint (width - len) = int ?n" using sint_small [of "width - len"] assms(2) by simp
  have "(of_nat ?n :: size_t) - of_nat (?n div 2) = of_nat (?n - ?n div 2)" by (subst of_nat_diff) auto
  then show ?thesis unfolding padding_counts_def Let_def s half_toward_zero by simp
qed

context buffer_allocator
begin

lemma with_padding_spec:
  assumes ok: "buffer_ok b" and fit: "length ds \<le> unat width" "unat (buf_length b) + unat width \<le> 2 ^ 63 - 8"
  shows "cat_buffer_append_with_padding A b ds c width = Done (Inl CAT_ENOMEM, b) \<or>
    (\<exists>b'. cat_buffer_append_with_padding A b ds c width = Done (Inr (), b') \<and> buffer_ok b' \<and>
       contents b' = contents b @ replicate ((unat width - length ds) div 2) c @ ds @
         replicate (unat width - length ds - (unat width - length ds) div 2) c)"
proof -
  define n l r where "n = unat width - length ds" and "l = n div 2" and "r = n - l"
  have len: "unat (of_nat (length ds) :: size_t) = length ds" using fit by (intro unat_of_nat_lt) simp
  have le: "(of_nat (length ds) :: size_t) \<le> width" using fit(1) len by (simp add: word_le_nat_alt)
  have pc: "padding_counts width (of_nat (length ds)) = (of_nat l, of_nat r)"
    using padding_counts_wide [OF le] fit(2) by (simp add: len n_def l_def r_def)
  have lr: "unat (of_nat l :: size_t) = l" "unat (of_nat r :: size_t) = r"
    using fit(2) by (auto simp: n_def l_def r_def intro!: unat_of_nat_lt)
  have w: "l + length ds + r = unat width" using fit(1) by (simp add: n_def l_def r_def)
  have eq: "cat_buffer_append_with_padding A b ds c width =
      c_bind (cat_buffer_prepare A b width) (\<lambda>(r', b).
        case r' of Inl e \<Rightarrow> Done (Inl e, b)
        | Inr _ \<Rightarrow> c_bind (append_padding A l c b) (\<lambda>b.
            c_bind (cat_buffer_append A b ds) (\<lambda>(_, b).
            c_bind (append_padding A r c b) (\<lambda>b. Done (Inr (), b)))))"
    unfolding cat_buffer_append_with_padding_def Let_def pc prod.case lr by simp
  from prepare_spec [OF ok fit(2)] show ?thesis
  proof (elim disjE exE conjE)
    fix b0 assume b0: "cat_buffer_prepare A b width = Done (Inr (), b0)" "buffer_ok b0" "contents b0 = contents b"
      "buf_length b0 = buf_length b" "unat (buf_length b) + unat width \<le> unat (buf_size b0)"
    from append_padding_room [OF b0(2), of l c] b0(4,5) w obtain b1 where
      b1: "append_padding A l c b0 = Done b1" "buffer_ok b1" "contents b1 = contents b0 @ replicate l c"
      "buf_size b1 = buf_size b0" "unat (buf_length b1) = unat (buf_length b0) + l" by auto
    from append_room [OF b1(2), of ds] b1(4,5) b0(4,5) w obtain b2 where
      b2: "cat_buffer_append A b1 ds = Done (Inr (), b2)" "buffer_ok b2" "contents b2 = contents b1 @ ds"
      "buf_size b2 = buf_size b1" "unat (buf_length b2) = unat (buf_length b1) + length ds" by auto
    from append_padding_room [OF b2(2), of r c] b2(4,5) b1(4,5) b0(4,5) w obtain b3 where
      b3: "append_padding A r c b2 = Done b3" "buffer_ok b3" "contents b3 = contents b2 @ replicate r c" by auto
    from b0(1,3) b1(1,3) b2(1,3) b3 show ?thesis unfolding eq by (simp add: n_def l_def r_def)
  qed (simp add: eq)
qed

lemma append_unsigned_spec:
  assumes ok: "buffer_ok b" and r: "unat (buf_length b) + 20 \<le> 2 ^ 63 - 8" and tmp: "length tmp = 32"
  shows "cat_buffer_append_unsigned A b tmp v = Done (Inl CAT_ENOMEM, b) \<or>
    (\<exists>b'. cat_buffer_append_unsigned A b tmp v = Done (Inr (), b') \<and> buffer_ok b' \<and>
       contents b' = contents b @ decimal (unat v))"
proof -
  have "unat v < 10 ^ 20" using size_t_bound [of v] by simp
  then have l: "length (decimal (unat v)) \<le> 20" by (rule decimal_length) simp
  then have "cat_buffer_append_unsigned A b tmp v = cat_buffer_append A b (decimal (unat v))"
    using tmp by (simp add: cat_buffer_append_unsigned_def append_tmp_short)
  moreover have "unat (buf_length b) + length (decimal (unat v)) \<le> 2 ^ 63 - 8" using r l by simp
  ultimately show ?thesis using append_spec [OF ok] by simp
qed

end

subsection \<open>Correctness of the buffer\<close>

abbreviation libc_table :: cat_buffer_allocator_t where
  "libc_table \<equiv> cat_buffer_module_init zero_malloc zero_realloc"

lemmas libc_table_ok = zero_heap.std.buffer_allocator_axioms

text \<open>C7: over any allocator that keeps its contract, appending to a well-formed buffer either
  reports out of memory and leaves the buffer as it was, or gives a well-formed buffer whose
  contents are the old contents followed by the data, growing the block when it must; it neither
  touches memory outside the block nor fails to return.\<close>

theorem cat_buffer_append_correct:
  assumes "buffer_allocator A" and "buffer_ok b" and "unat (buf_length b) + length ds \<le> 2 ^ 63 - 8"
  shows "cat_buffer_append A b ds = Done (Inl CAT_ENOMEM, b) \<or>
    (\<exists>b'. cat_buffer_append A b ds = Done (Inr (), b') \<and> buffer_ok b' \<and> contents b' = contents b @ ds)"
  using assms by (rule buffer_allocator.append_spec)

theorem cat_buffer_append_correct_witness:
  "buffer_allocator libc_table \<and>
   (cat_buffer_append libc_table cat_buffer__init [104, 105] = Done (Inl CAT_ENOMEM, cat_buffer__init) \<or>
    (\<exists>b'. cat_buffer_append libc_table cat_buffer__init [104, 105] = Done (Inr (), b') \<and> buffer_ok b' \<and>
      contents b' = [104, 105]))"
  using cat_buffer_append_correct [OF libc_table_ok, of cat_buffer__init "[104, 105]"] libc_table_ok
  by auto

text \<open>Writing at an offset lays the data over the old contents: the bytes of the range are the
  data, every other byte of the old contents is kept, and the length grows to the end of the range
  when that is beyond the old end.\<close>

theorem cat_buffer_write_correct:
  assumes "buffer_allocator A" and "buffer_ok b" and "unat off + length ds \<le> 2 ^ 63 - 8" and "ds \<noteq> []"
  shows "cat_buffer_write A b off ds = Done (Inl CAT_ENOMEM, b) \<or>
    (\<exists>b'. cat_buffer_write A b off ds = Done (Inr (), b') \<and> buffer_ok b' \<and>
       written (contents b) (unat off) ds (contents b') \<and>
       (unat off \<le> length (contents b) \<longrightarrow>
          contents b' = take (unat off) (contents b) @ ds @ drop (unat off + length ds) (contents b)))"
  using buffer_allocator.write_spec [OF assms] written_inside by blast

theorem cat_buffer_write_correct_witness:
  "let b = \<lparr>buf_value = Some [1, 2, 3, 4], buf_size = 4, buf_length = 3\<rparr> in
   \<exists>b'. cat_buffer_write libc_table b 1 [9] = Done (Inr (), b') \<and> contents b' = [1, 9, 3]"
proof -
  let ?b = "\<lparr>buf_value = Some [1, 2, 3, 4], buf_size = 4, buf_length = 3\<rparr> :: cat_buffer_t"
  have "buffer_ok ?b" by (simp add: buffer_ok_def block_def)
  moreover have "contents ?b = [1, 2, 3]" by (simp add: contents_def)
  moreover have "cat_buffer_write libc_table ?b 1 [9] \<noteq> Done (Inl CAT_ENOMEM, ?b)"
    by (simp add: cat_buffer_write_def buf_reserve_def buf_copy_in_def Let_def)
  ultimately show ?thesis
    using cat_buffer_write_correct [OF libc_table_ok, of ?b 1 "[9]"] by auto
qed

text \<open>Truncating from an offset keeps exactly the requested slice of the contents and the size
  of the block, for every offset and length (values beyond the end give the empty or the shorter
  slice), and never leaves the block.\<close>

theorem cat_buffer_truncate_from_correct:
  assumes "buffer_allocator A" and "buffer_ok b"
  shows "\<exists>b'. cat_buffer_truncate_from A b off len = Done b' \<and> buffer_ok b' \<and> buf_size b' = buf_size b \<and>
    contents b' = take (unat len) (drop (unat off) (contents b))"
  using assms by (rule buffer_allocator.truncate_from_spec)

theorem cat_buffer_truncate_from_correct_witness:
  "let b = \<lparr>buf_value = Some [1, 2, 3, 4], buf_size = 4, buf_length = 3\<rparr> in
   buffer_ok b \<and> (\<exists>b'. cat_buffer_truncate_from libc_table b 1 7 = Done b' \<and> contents b' = [2, 3])"
proof -
  let ?b = "\<lparr>buf_value = Some [1, 2, 3, 4], buf_size = 4, buf_length = 3\<rparr> :: cat_buffer_t"
  have "buffer_ok ?b" by (simp add: buffer_ok_def block_def)
  moreover have "contents ?b = [1, 2, 3]" by (simp add: contents_def)
  ultimately show ?thesis
    using cat_buffer_truncate_from_correct [OF libc_table_ok, of ?b 1 7] by auto
qed

text \<open>Duplicating a buffer gives a buffer with the same contents or reports out of memory with
  nothing allocated; trimming gives a block of exactly the length in use with the same contents.\<close>

theorem cat_buffer_dup_and_trim_correct:
  assumes "buffer_allocator A" and "buffer_ok b" and "unat (buf_size b) \<le> 2 ^ 63 - 8"
  shows "(cat_buffer_dup A b = Done (Inl CAT_ENOMEM, cat_buffer__init) \<or>
      (\<exists>b'. cat_buffer_dup A b = Done (Inr (), b') \<and> buffer_ok b' \<and> contents b' = contents b)) \<and>
    (cat_buffer_malloc_trim A b = Done (Inl CAT_ENOMEM, b) \<or>
      (\<exists>b'. cat_buffer_malloc_trim A b = Done (Inr (), b') \<and> buffer_ok b' \<and>
         buf_size b' = buf_length b \<and> contents b' = contents b))"
  using buffer_allocator.dup_spec [OF assms] buffer_allocator.malloc_trim_spec [OF assms(1,2)] by blast

theorem cat_buffer_dup_and_trim_correct_witness:
  "let b = \<lparr>buf_value = Some [1, 2, 3, 4], buf_size = 4, buf_length = 3\<rparr> in
   \<exists>b'. cat_buffer_malloc_trim libc_table b = Done (Inr (), b') \<and> buf_size b' = 3 \<and> contents b' = [1, 2, 3]"
proof -
  let ?b = "\<lparr>buf_value = Some [1, 2, 3, 4], buf_size = 4, buf_length = 3\<rparr> :: cat_buffer_t"
  have "buffer_ok ?b" by (simp add: buffer_ok_def block_def)
  moreover have "contents ?b = [1, 2, 3]" by (simp add: contents_def)
  moreover have "cat_buffer_malloc_trim libc_table ?b \<noteq> Done (Inl CAT_ENOMEM, ?b)"
    by (simp add: cat_buffer_malloc_trim_def cat_buffer_realloc_def call_realloc_def cat_buffer_module_init_def
        cat_buffer_realloc_standard_def zero_realloc_def)
  ultimately show ?thesis
    using cat_buffer_dup_and_trim_correct [OF libc_table_ok, of ?b] by auto
qed

text \<open>Appending with padding to a width at least the length of the data centres the data: half
  of the padding, rounded down, goes to the left, the rest to the right, and once the room is
  reserved the ignored results of the single appends are all successes.\<close>

theorem cat_buffer_append_with_padding_correct:
  assumes "buffer_allocator A" and "buffer_ok b" and "length ds \<le> unat width"
    and "unat (buf_length b) + unat width \<le> 2 ^ 63 - 8"
  shows "cat_buffer_append_with_padding A b ds c width = Done (Inl CAT_ENOMEM, b) \<or>
    (\<exists>b'. cat_buffer_append_with_padding A b ds c width = Done (Inr (), b') \<and> buffer_ok b' \<and>
       contents b' = contents b @ replicate ((unat width - length ds) div 2) c @ ds @
         replicate (unat width - length ds - (unat width - length ds) div 2) c)"
  using assms by (rule buffer_allocator.with_padding_spec)

theorem cat_buffer_append_with_padding_correct_witness:
  "cat_buffer_append_with_padding libc_table cat_buffer__init [65] 32 3 =
     Done (Inl CAT_ENOMEM, cat_buffer__init) \<or>
   (\<exists>b'. cat_buffer_append_with_padding libc_table cat_buffer__init [65] 32 3 = Done (Inr (), b') \<and>
      contents b' = [32, 65, 32])"
  using cat_buffer_append_with_padding_correct [OF libc_table_ok, of cat_buffer__init "[65]" 3 32]
  by auto

text \<open>\<^verbatim>\<open>cat_buffer_append_unsigned\<close> fits its 32-byte temporary for every 64-bit value, and the
  digits it appends read back as the value.\<close>

theorem cat_buffer_append_unsigned_round_trip:
  assumes "buffer_allocator A" and "buffer_ok b" and "unat (buf_length b) + 20 \<le> 2 ^ 63 - 8"
    and "length tmp = 32"
  shows "cat_buffer_append_unsigned A b tmp v = Done (Inl CAT_ENOMEM, b) \<or>
    (\<exists>b'. cat_buffer_append_unsigned A b tmp v = Done (Inr (), b') \<and> buffer_ok b' \<and>
       take (length (contents b)) (contents b') = contents b \<and>
       undecimal (drop (length (contents b)) (contents b')) = unat v)"
  using buffer_allocator.append_unsigned_spec [OF assms, of v] by (auto simp: undecimal_decimal)

theorem cat_buffer_append_unsigned_round_trip_witness:
  "cat_buffer_append_unsigned libc_table cat_buffer__init (replicate 32 0) 407 =
     Done (Inl CAT_ENOMEM, cat_buffer__init) \<or>
   (\<exists>b'. cat_buffer_append_unsigned libc_table cat_buffer__init (replicate 32 0) 407 = Done (Inr (), b') \<and>
      undecimal (contents b') = 407)"
  using cat_buffer_append_unsigned_round_trip
    [OF libc_table_ok, of cat_buffer__init "replicate 32 0" 407]
  by auto

text \<open>A request beyond \<open>2 ^ 63\<close> bytes made of a buffer whose aligned size is a power of two
  never returns: the doubling loop of \<^verbatim>\<open>cat_buffer_extend\<close> wraps to zero and stays there.\<close>

theorem cat_buffer_extend_diverges:
  assumes "buf_size b \<noteq> 0" and "cat_buffer_align_size (buf_size b) 0 = 2 ^ k" and "2 ^ 63 < unat r"
  shows "cat_buffer_extend A b r = Diverges"
  using assms extend_loop_diverges by (simp add: cat_buffer_extend_def)

theorem cat_buffer_extend_diverges_witness:
  "cat_buffer_extend libc_table \<lparr>buf_value = Some [1, 2, 3, 4], buf_size = 4, buf_length = 4\<rparr> (2 ^ 63 + 1) = Diverges"
  by (rule cat_buffer_extend_diverges [where k = 3])
    (simp_all add: cat_buffer_align_size_def CAT_MEMORY_ALIGNED_SIZE_EX_def CAT_MEMORY_DEFAULT_ALIGNED_SIZE_def)

text \<open>When the text of \<^verbatim>\<open>%f\<close> has more than 32 characters (which a double of 1e26 has)
  \<^verbatim>\<open>cat_buffer_append_double\<close> reads past its temporary; with at most 31 characters it appends the
  text.\<close>

theorem cat_buffer_append_double_bounds:
  assumes "length tmp = 32"
  shows "(length (fmt_f x) \<le> 31 \<longrightarrow> cat_buffer_append_double fmt_f A b tmp x = cat_buffer_append A b (fmt_f x)) \<and>
    (32 < length (fmt_f x) \<longrightarrow> cat_buffer_append_double fmt_f A b tmp x = Undefined)"
  using assms by (simp add: cat_buffer_append_double_def append_tmp_short append_tmp_long)

theorem cat_buffer_append_double_bounds_witness:
  "cat_buffer_append_double (\<lambda>_ :: unit. replicate 34 49) libc_table cat_buffer__init (replicate 32 0) () = Undefined"
  using cat_buffer_append_double_bounds
    [of "replicate 32 0" "\<lambda>_. replicate 34 49" "()" libc_table cat_buffer__init] by simp

end
