(* ===== verification/Cat_String.thy ===== *)
theory Cat_String
  imports Cat_Memory
begin

unbundle bit_operations_syntax

text \<open>
  The string helpers of \<^verbatim>\<open>src/cat_string.c\<close> and \<^verbatim>\<open>include/cat_string.h\<close>. A zero-terminated string is
  the list of its characters, without the zero, where the code only walks to the terminator; where
  bounds matter the object is its list of bytes and every access is checked. Output is the list of
  bytes written; the functions that allocate write it into a block of the size they ask for, so
  an overrun is \<open>Undefined\<close>.

  The main results: quoting is undone by reading the C escapes back, its output fits the size
  \<^verbatim>\<open>cat_str_quote_size\<close> gives except with the comment flag, and the case-insensitive list search
  finds exactly the whole items of the list.
\<close>

subsection \<open>Searching and copying\<close>

fun cat_strnlen :: "byte list \<Rightarrow> nat \<Rightarrow> nat c_run" where
  "cat_strnlen s 0 = Done 0"
| "cat_strnlen [] (Suc n) = Undefined"
| "cat_strnlen (c # s) (Suc n) = (if c = 0 then Done 0 else c_bind (cat_strnlen s n) (\<lambda>k. Done (Suc k)))"

text \<open>Offset of the first match in the \<open>n\<close> bytes before \<^verbatim>\<open>last\<close>, \<open>None\<close> for \<^verbatim>\<open>NULL\<close>.\<close>

fun cat_strlchr :: "byte list \<Rightarrow> nat \<Rightarrow> byte \<Rightarrow> nat option c_run" where
  "cat_strlchr s 0 c = Done None"
| "cat_strlchr [] (Suc n) c = Undefined"
| "cat_strlchr (d # s) (Suc n) c =
     (if d = c then Done (Some 0) else c_bind (cat_strlchr s n c) (\<lambda>r. Done (map_option Suc r)))"

text \<open>\<^verbatim>\<open>cat_stpcpy\<close> at an offset of the destination; it returns the offset of the terminator.\<close>

definition cat_stpcpy :: "byte list \<Rightarrow> nat \<Rightarrow> byte list \<Rightarrow> (nat \<times> byte list) c_run" where
  "cat_stpcpy dest off src =
     c_bind (mem_write dest off (src @ [0])) (\<lambda>dest. Done (off + length src, dest))"

definition cat_byte_is_printable :: "byte \<Rightarrow> bool" where
  "cat_byte_is_printable c \<longleftrightarrow> 32 \<le> c \<and> c < 127"

definition cat_str_is_print :: "byte list \<Rightarrow> bool" where
  "cat_str_is_print str \<longleftrightarrow> (\<forall>c \<in> set str. cat_byte_is_printable c)"

subsection \<open>Hex dump\<close>

definition hex_digit :: "bool \<Rightarrow> byte \<Rightarrow> byte" where
  "hex_digit upper d = (if d < 10 then 48 + d else (if upper then 55 else 87) + d)"

definition hex_item :: "byte \<Rightarrow> byte list" where
  "hex_item c = [48, 120, hex_digit True (drop_bit 4 c), hex_digit True (c AND 15), 32]"

text \<open>\<^verbatim>\<open>snprintf\<close> with room for \<open>n\<close> bytes at an offset of the block; the text has more than zero
  characters and \<open>n\<close> is not zero.\<close>

definition snprintf_at :: "byte list \<Rightarrow> nat \<Rightarrow> nat \<Rightarrow> byte list \<Rightarrow> byte list c_run" where
  "snprintf_at blk off n out = mem_write blk off (take (n - 1) out @ [0])"

fun hex_dump_loop :: "nat \<Rightarrow> byte list \<Rightarrow> nat \<Rightarrow> byte list \<Rightarrow> byte list c_run" where
  "hex_dump_loop sz [] escaped_index escaped = Done escaped"
| "hex_dump_loop sz (c # cs) escaped_index escaped =
     c_bind (snprintf_at escaped escaped_index (sz - escaped_index) (hex_item c)) (\<lambda>escaped.
     hex_dump_loop sz cs (escaped_index + 5) escaped)"

definition cat_hex_dump :: "byte list \<Rightarrow> byte list \<Rightarrow> byte list c_run" where
  "cat_hex_dump escaped ds =
     (let sz = 5 * length ds
      in c_bind (hex_dump_loop sz ds 0 escaped) (\<lambda>escaped. mem_write escaped sz [0]))"

subsection \<open>Random strings\<close>

definition charset :: "byte list" where
  "charset = map of_nat ([97..<123] @ [65..<91] @ [48..<58])"

text \<open>\<open>rnd\<close> are the values \<^verbatim>\<open>rand()\<close> returns, in order; \<open>buffer\<close> is the caller's or the allocated
  block.\<close>

fun snrand_loop :: "nat list \<Rightarrow> nat \<Rightarrow> nat \<Rightarrow> byte list \<Rightarrow> byte list c_run" where
  "snrand_loop rnd n 0 buffer = Done buffer"
| "snrand_loop [] n (Suc k) buffer = Undefined"
| "snrand_loop (r # rnd) n (Suc k) buffer =
     c_bind (mem_write buffer n [charset ! (r mod 62)]) (snrand_loop rnd (Suc n) k)"

definition cat_snrand :: "nat list \<Rightarrow> byte list \<Rightarrow> nat \<Rightarrow> byte list c_run" where
  "cat_snrand rnd buffer count = snrand_loop rnd 0 count buffer"

definition cat_srand :: "nat list \<Rightarrow> byte list \<Rightarrow> nat \<Rightarrow> byte list c_run" where
  "cat_srand rnd buffer count =
     c_bind (cat_snrand rnd buffer count) (\<lambda>buffer.
       if count = 0 then Undefined else mem_write buffer (count - 1) [0])"

subsection \<open>Case-insensitive search in a list\<close>

definition to_lower :: "byte \<Rightarrow> byte" where
  "to_lower c = (if 65 \<le> c \<and> c \<le> 90 then c + 32 else c)"

definition eq_ci :: "byte list \<Rightarrow> byte list \<Rightarrow> bool" where
  "eq_ci a b \<longleftrightarrow> map to_lower a = map to_lower b"

text \<open>\<open>s\<close> is \<open>None\<close> for \<^verbatim>\<open>NULL\<close> and otherwise the characters from \<^verbatim>\<open>s\<close> up to \<^verbatim>\<open>e\<close>; the rest of the
  haystack is the list, whose end is the terminator.\<close>

fun contains_ci_loop :: "byte list option \<Rightarrow> byte list \<Rightarrow> byte list \<Rightarrow> bool" where
  "contains_ci_loop s [] needle =
     (case s of None \<Rightarrow> False | Some t \<Rightarrow> length t = length needle \<and> eq_ci t needle)"
| "contains_ci_loop s (e # es) needle =
     (if e = 32 \<or> e = 44 then
        (case s of None \<Rightarrow> contains_ci_loop None es needle
         | Some t \<Rightarrow>
             if length t = length needle \<and> eq_ci t needle then True
             else contains_ci_loop None es needle)
      else contains_ci_loop (case s of None \<Rightarrow> Some [e] | Some t \<Rightarrow> Some (t @ [e])) es needle)"

definition cat_str_list_contains_ci :: "byte list \<Rightarrow> byte list \<Rightarrow> bool" where
  "cat_str_list_contains_ci haystack needle = contains_ci_loop None haystack needle"

subsection \<open>Quoting\<close>

type_synonym cat_str_quote_style_flags_t = u8

abbreviation FLAG_ZERO_TERMINATED :: "u8 \<Rightarrow> bool" where
  "FLAG_ZERO_TERMINATED style \<equiv> bit style 0"
abbreviation FLAG_OMIT_LEADING_TRAILING_QUOTES :: "u8 \<Rightarrow> bool" where
  "FLAG_OMIT_LEADING_TRAILING_QUOTES style \<equiv> bit style 1"
abbreviation FLAG_OMIT_TRAILING_0 :: "u8 \<Rightarrow> bool" where
  "FLAG_OMIT_TRAILING_0 style \<equiv> bit style 2"
abbreviation FLAG_PRINT_NON_ASCII_STRINGS_IN_HEX :: "u8 \<Rightarrow> bool" where
  "FLAG_PRINT_NON_ASCII_STRINGS_IN_HEX style \<equiv> bit style 4"
abbreviation FLAG_PRINT_ALL_STRINGS_IN_HEX :: "u8 \<Rightarrow> bool" where
  "FLAG_PRINT_ALL_STRINGS_IN_HEX style \<equiv> bit style 5"
abbreviation FLAG_EMIT_COMMENT :: "u8 \<Rightarrow> bool" where
  "FLAG_EMIT_COMMENT style \<equiv> bit style 6"
abbreviation FLAG_ELLIPSIS :: "u8 \<Rightarrow> bool" where
  "FLAG_ELLIPSIS style \<equiv> bit style 7"

definition cat_str_quote_size :: "size_t \<Rightarrow> u8 \<Rightarrow> size_t" where
  "cat_str_quote_size len style =
     4 * len + (if FLAG_OMIT_LEADING_TRAILING_QUOTES style then 1 else 3) +
     (if FLAG_ELLIPSIS style then 3 else 0)"

definition cat_byte_to_hexstr :: "byte \<Rightarrow> byte list" where
  "cat_byte_to_hexstr c = [hex_digit False (drop_bit 4 c), hex_digit False (c AND 0xf)]"

text \<open>In the loops \<open>k\<close> is \<^verbatim>\<open>length - i\<close> and the list is the input object from \<^verbatim>\<open>p + i\<close> on; reading
  past its end is undefined.\<close>

fun needs_hex :: "u8 \<Rightarrow> nat \<Rightarrow> byte list \<Rightarrow> bool c_run" where
  "needs_hex style 0 ps = Done False"
| "needs_hex style (Suc k) [] = Undefined"
| "needs_hex style (Suc k) (c # ps) =
     (if FLAG_ZERO_TERMINATED style \<and> c = 0 then Done False
      else if 0x7e < c then Done True
      else if c < 32 \<and> \<not> (9 \<le> c \<and> c < 14) then Done True
      else needs_hex style k ps)"

text \<open>The loops return the text, whether they left through \<^verbatim>\<open>_asciz_ended\<close>, and the input from
  \<^verbatim>\<open>p + i\<close> at the end.\<close>

fun quote_hex :: "u8 \<Rightarrow> nat \<Rightarrow> byte list \<Rightarrow> (byte list \<times> bool \<times> byte list) c_run" where
  "quote_hex style 0 ps = Done ([], False, ps)"
| "quote_hex style (Suc k) [] = Undefined"
| "quote_hex style (Suc k) (c # ps) =
     (if FLAG_ZERO_TERMINATED style \<and> c = 0 then Done ([], True, c # ps)
      else c_bind (quote_hex style k ps) (\<lambda>(t, r). Done ([92, 120] @ cat_byte_to_hexstr c @ t, r)))"

definition is_octal :: "byte \<Rightarrow> bool" where
  "is_octal c \<longleftrightarrow> 48 \<le> c \<and> c \<le> 55"

definition quote_octal :: "byte \<Rightarrow> bool \<Rightarrow> byte list" where
  "quote_octal c next_is_octal =
     [92] @
     (if next_is_octal then [48 + drop_bit 6 c, 48 + (drop_bit 3 c AND 7)]
      else if drop_bit 3 c \<noteq> 0 then
        (if drop_bit 6 c \<noteq> 0 then [48 + drop_bit 6 c] else []) @ [48 + (drop_bit 3 c AND 7)]
      else []) @
     [48 + (c AND 7)]"

text \<open>One character of the input, with what \<^verbatim>\<open>p[i + 1]\<close> is when the length allows it.\<close>

definition quote_char :: "byte list option \<Rightarrow> byte \<Rightarrow> nat \<Rightarrow> byte list \<Rightarrow> byte list c_run" where
  "quote_char escape_chars c k ps =
     (if c = 34 \<or> c = 92 then Done [92, c]
      else if c = 12 then Done [92, 102]
      else if c = 10 then Done [92, 110]
      else if c = 13 then Done [92, 114]
      else if c = 9 then Done [92, 116]
      else if c = 11 then Done [92, 118]
      else if cat_byte_is_printable c \<and>
              (case escape_chars of None \<Rightarrow> True | Some es \<Rightarrow> c \<notin> set es) then Done [c]
      else if 0 < k then (case ps of [] \<Rightarrow> Undefined | d # _ \<Rightarrow> Done (quote_octal c (is_octal d)))
      else Done (quote_octal c False))"

fun quote_body ::
  "u8 \<Rightarrow> byte list option \<Rightarrow> nat \<Rightarrow> byte list \<Rightarrow> (byte list \<times> bool \<times> byte list) c_run" where
  "quote_body style escape_chars 0 ps = Done ([], False, ps)"
| "quote_body style escape_chars (Suc k) [] = Undefined"
| "quote_body style escape_chars (Suc k) (c # ps) =
     (if FLAG_ZERO_TERMINATED style \<and> c = 0 then Done ([], True, c # ps)
      else if k = 0 \<and> FLAG_OMIT_TRAILING_0 style \<and> c = 0 then Done ([], True, c # ps)
      else c_bind (quote_char escape_chars c k ps) (\<lambda>q.
           c_bind (quote_body style escape_chars k ps) (\<lambda>(t, r). Done (q @ t, r))))"

definition cat_str_quote_ex2 ::
  "byte list \<Rightarrow> nat \<Rightarrow> u8 \<Rightarrow> byte list option \<Rightarrow> (byte list \<times> bool) c_run" where
  "cat_str_quote_ex2 p len style escape_chars =
     c_bind (if FLAG_PRINT_ALL_STRINGS_IN_HEX style then Done True
             else if FLAG_PRINT_NON_ASCII_STRINGS_IN_HEX style then needs_hex style len p
             else Done False) (\<lambda>use_hex.
     c_bind (if use_hex then quote_hex style len p else quote_body style escape_chars len p)
       (\<lambda>(t, asciz_ended, rest).
         let quotes = \<not> FLAG_OMIT_LEADING_TRAILING_QUOTES style;
             s = (if FLAG_EMIT_COMMENT style then [32, 47, 42, 32] else []) @
                 (if quotes then [34] else []) @ t @
                 (if quotes then (if FLAG_ELLIPSIS style then [46, 46, 46] else []) @ [34] else []) @
                 (if FLAG_EMIT_COMMENT style then [32, 42, 47] else [])
         in if asciz_ended then Done (s, True)
            else if \<not> FLAG_ZERO_TERMINATED style then Done (s, False)
            else case rest of [] \<Rightarrow> Undefined | c # _ \<Rightarrow> Done (s, c = 0)))"

text \<open>\<open>new_str\<close> is the block \<^verbatim>\<open>cat_malloc\<close> returns for the computed size.\<close>

definition cat_str_quote_ex ::
  "(size_t \<Rightarrow> byte list) \<Rightarrow> byte list \<Rightarrow> size_t \<Rightarrow> u8 \<Rightarrow> byte list option \<Rightarrow>
   (byte list \<times> size_t \<times> bool) c_run" where
  "cat_str_quote_ex cat_malloc str len style escape_chars =
     (let new_str = cat_malloc (cat_str_quote_size len style)
      in c_bind (cat_str_quote_ex2 str (unat len) style escape_chars) (\<lambda>(s, is_complete).
         c_bind (mem_write new_str 0 (s @ [0])) (\<lambda>new_str.
         Done (new_str, of_nat (length s), is_complete))))"

definition cat_str_quote ::
  "(size_t \<Rightarrow> byte list) \<Rightarrow> byte list \<Rightarrow> size_t \<Rightarrow> (byte list \<times> size_t) c_run" where
  "cat_str_quote cat_malloc str len =
     c_bind (cat_str_quote_ex cat_malloc str len 0 None) (\<lambda>(new_str, n, _). Done (new_str, n))"

subsection \<open>The fast comparison\<close>

text \<open>The function the macro \<^verbatim>\<open>CAT_STRCASECMP_FAST_FUNCTION\<close> generates for a needle and its mask: a
  byte loop whose condition is \<^verbatim>\<open>i > strsize % 4\<close>, one 32-bit and the 64-bit comparisons.\<close>

fun fast_tail :: "nat \<Rightarrow> nat \<Rightarrow> byte list \<Rightarrow> byte list \<Rightarrow> byte list \<Rightarrow> bool" where
  "fast_tail fuel i needle msk a =
     (case fuel of 0 \<Rightarrow> True
      | Suc fuel' \<Rightarrow>
          if length needle mod 4 < i then
            (let j = length needle - 1 - i
             in if needle ! j \<noteq> a ! j OR msk ! j then False else fast_tail fuel' (i + 1) needle msk a)
          else True)"

declare fast_tail.simps [simp del]

definition fast_words :: "nat \<Rightarrow> byte list \<Rightarrow> byte list \<Rightarrow> byte list \<Rightarrow> bool" where
  "fast_words n needle msk a =
     list_all (\<lambda>i. (load_le (take 8 (drop (8 * i) needle)) :: u64) =
       load_le (take 8 (drop (8 * i) a)) OR load_le (take 8 (drop (8 * i) msk))) [0..<n]"

definition cat_strcasecmp_fast :: "byte list \<Rightarrow> byte list \<Rightarrow> byte list \<Rightarrow> bool" where
  "cat_strcasecmp_fast needle msk a =
     (let strsize = length needle; u32i = strsize div 8 * 8 div 4
      in if \<not> fast_tail strsize 0 needle msk a then False
         else if u32i * 4 + 4 \<le> strsize \<and>
           (load_le (take 4 (drop (4 * u32i) needle)) :: u32) \<noteq>
             (load_le (take 4 (drop (4 * u32i) a)) OR load_le (take 4 (drop (4 * u32i) msk))) then False
         else fast_words (strsize div 8) needle msk a)"

text \<open>Its two instances: \<^verbatim>\<open>"content-type"\<close> with the mask \<^verbatim>\<open>"       \0    "\<close> in \<^verbatim>\<open>cat_http.c\<close>, and
  \<^verbatim>\<open>"multipart/"\<close> with the mask \<^verbatim>\<open>"         \0"\<close> in \<^verbatim>\<open>cat_http_content_type.c\<close>.\<close>

definition content_type_str :: "byte list" where
  "content_type_str = [99, 111, 110, 116, 101, 110, 116, 45, 116, 121, 112, 101]"

definition cat_strcasecmp_fast_content_type :: "byte list \<Rightarrow> bool" where
  "cat_strcasecmp_fast_content_type a =
     cat_strcasecmp_fast content_type_str [32, 32, 32, 32, 32, 32, 32, 0, 32, 32, 32, 32] a"

definition multipart_slash_str :: "byte list" where
  "multipart_slash_str = [109, 117, 108, 116, 105, 112, 97, 114, 116, 47]"

definition cat_strcasecmp_fast_multipart_slash :: "byte list \<Rightarrow> bool" where
  "cat_strcasecmp_fast_multipart_slash a =
     cat_strcasecmp_fast multipart_slash_str [32, 32, 32, 32, 32, 32, 32, 32, 32, 0] a"

subsection \<open>Lemmas on searching\<close>

abbreviation is_sep :: "byte \<Rightarrow> bool" where
  "is_sep c \<equiv> c = 32 \<or> c = 44"

text \<open>The items of a header list: the maximal runs of characters that are neither space nor comma.\<close>

function list_items :: "byte list \<Rightarrow> byte list list" where
  "list_items [] = []"
| "list_items (c # cs) =
     (if is_sep c then list_items cs
      else takeWhile (\<lambda>c. \<not> is_sep c) (c # cs) # list_items (dropWhile (\<lambda>c. \<not> is_sep c) cs))"
  by pat_completeness auto
termination by (relation "measure length") (auto simp: le_imp_less_Suc length_dropWhile_le)

lemma list_items_run:
  "\<lbrakk>t \<noteq> []; \<forall>c \<in> set t. \<not> is_sep c\<rbrakk> \<Longrightarrow> list_items t = [t]"
  by (cases t) (auto simp: dropWhile_eq_Nil_conv [THEN iffD2] takeWhile_eq_all_conv [THEN iffD2])

lemma list_items_run_sep:
  assumes "t \<noteq> []" "\<forall>c \<in> set t. \<not> is_sep c" "is_sep e"
  shows "list_items (t @ e # es) = t # list_items es"
proof -
  have "takeWhile (\<lambda>c. \<not> is_sep c) (t @ e # es) = t" "dropWhile (\<lambda>c. \<not> is_sep c) (t @ e # es) = e # es"
    using assms(2,3) by (auto simp: takeWhile_append2 dropWhile_append2)
  then show ?thesis using assms by (cases t) auto
qed

lemma eq_ci_length: "eq_ci a b \<Longrightarrow> length a = length b"
  unfolding eq_ci_def by (metis length_map)

lemma contains_ci_loop_items:
  "(\<And>t. s = Some t \<Longrightarrow> t \<noteq> [] \<and> (\<forall>c \<in> set t. \<not> is_sep c)) \<Longrightarrow>
   contains_ci_loop s es needle \<longleftrightarrow>
     (\<exists>t \<in> set (list_items ((case s of None \<Rightarrow> [] | Some t \<Rightarrow> t) @ es)). eq_ci t needle)"
proof (induction s es needle rule: contains_ci_loop.induct)
  case (1 s needle)
  then show ?case by (cases s) (auto simp: list_items_run eq_ci_length)
next
  case (2 s e es needle)
  show ?case
  proof (cases "is_sep e")
    case True
    then show ?thesis using "2.IH"(1,2) "2.prems"
      by (cases s) (auto simp: list_items_run_sep eq_ci_length)
  next
    case False
    then show ?thesis using "2.IH"(3) "2.prems" by (cases s) auto
  qed
qed

subsection \<open>Lemmas on quoting\<close>

lemma quote_char_length: "quote_char esc c k ps = Done q \<Longrightarrow> length q \<le> 4 \<and> q \<noteq> []"
  by (auto simp: quote_char_def quote_octal_def split: if_splits list.splits)

lemma quote_body_length: "quote_body style esc k ps = Done (t, r) \<Longrightarrow> length t \<le> 4 * k"
proof (induction k arbitrary: ps t r)
  case (Suc k)
  show ?case
  proof (cases ps)
    case (Cons c cs)
    from Suc.prems consider "t = []" | q t' where "quote_char esc c k cs = Done q"
      "quote_body style esc k cs = Done (t', r)" "t = q @ t'"
      by (auto simp: Cons c_bind_Done_iff split: if_splits)
    then show ?thesis
    proof cases
      case 2
      then show ?thesis using quote_char_length [of esc c k cs q] Suc.IH [of cs t' r] by auto
    qed simp
  qed (use Suc.prems in simp)
qed simp

lemma quote_hex_length: "quote_hex style k ps = Done (t, r) \<Longrightarrow> length t \<le> 4 * k"
proof (induction k arbitrary: ps t r)
  case (Suc k)
  show ?case
  proof (cases ps)
    case (Cons c cs)
    from Suc.prems consider "t = []" | t' where
      "quote_hex style k cs = Done (t', r)" "t = [92, 120] @ cat_byte_to_hexstr c @ t'"
      by (auto simp: Cons c_bind_Done_iff split: if_splits)
    then show ?thesis
    proof cases
      case 2
      then show ?thesis using Suc.IH [of cs t' r] by (auto simp: cat_byte_to_hexstr_def)
    qed simp
  qed (use Suc.prems in simp)
qed simp

text \<open>With an input object of at least \<open>k\<close> bytes (and a byte more when the style asks whether the
  string ends there) no loop reads outside it.\<close>

lemma quote_body_total:
  "k \<le> length ps \<Longrightarrow> \<exists>t e r. quote_body style esc k ps = Done (t, e, r) \<and> (\<not> e \<longrightarrow> r = drop k ps)"
proof (induction k arbitrary: ps)
  case (Suc k)
  then obtain c cs where ps: "ps = c # cs" by (cases ps) auto
  have "\<exists>q. quote_char esc c k cs = Done q"
    using Suc.prems by (auto simp: ps quote_char_def split: list.splits)
  moreover from Suc.IH [of cs] Suc.prems obtain t e r where
    "quote_body style esc k cs = Done (t, e, r)" "\<not> e \<longrightarrow> r = drop k cs" by (auto simp: ps)
  ultimately show ?case by (auto simp: ps)
qed auto

lemma quote_hex_total:
  "k \<le> length ps \<Longrightarrow> \<exists>t e r. quote_hex style k ps = Done (t, e, r) \<and> (\<not> e \<longrightarrow> r = drop k ps)"
proof (induction k arbitrary: ps)
  case (Suc k)
  then obtain c cs where ps: "ps = c # cs" by (cases ps) auto
  from Suc.IH [of cs] Suc.prems obtain t e r where
    "quote_hex style k cs = Done (t, e, r)" "\<not> e \<longrightarrow> r = drop k cs" by (auto simp: ps)
  then show ?case by (auto simp: ps)
qed auto

lemma needs_hex_total: "k \<le> length ps \<Longrightarrow> \<exists>b. needs_hex style k ps = Done b"
  by (induction style k ps rule: needs_hex.induct) auto

lemma quote_ex2_bounds:
  assumes "if FLAG_ZERO_TERMINATED style then len < length p else len \<le> length p"
  shows "\<exists>s c. cat_str_quote_ex2 p len style esc = Done (s, c) \<and>
    length s \<le> 4 * len + (if FLAG_OMIT_LEADING_TRAILING_QUOTES style then 0 else 2) +
      (if FLAG_ELLIPSIS style then 3 else 0) + (if FLAG_EMIT_COMMENT style then 7 else 0)"
proof -
  have le: "len \<le> length p" using assms by (auto split: if_splits)
  have "\<exists>h. (if FLAG_PRINT_ALL_STRINGS_IN_HEX style then Done True
             else if FLAG_PRINT_NON_ASCII_STRINGS_IN_HEX style then needs_hex style len p
             else Done False) = Done h"
    using needs_hex_total [OF le, of style] by auto
  then obtain h where h: "(if FLAG_PRINT_ALL_STRINGS_IN_HEX style then Done True
             else if FLAG_PRINT_NON_ASCII_STRINGS_IN_HEX style then needs_hex style len p
             else Done False) = Done h" ..
  obtain t e r where t: "(if h then quote_hex style len p else quote_body style esc len p) = Done (t, e, r)"
    "\<not> e \<longrightarrow> r = drop len p" "length t \<le> 4 * len"
    using quote_hex_total [OF le, of style] quote_body_total [OF le, of style esc]
      quote_hex_length [of style len p] quote_body_length [of style esc len p] by (cases h) fastforce+
  have ne: "\<exists>c cs. r = c # cs" if "\<not> e" "FLAG_ZERO_TERMINATED style"
    using that t(2) assms by (metis Cons_nth_drop_Suc)
  show ?thesis unfolding cat_str_quote_ex2_def h c_bind.simps t(1) prod.case Let_def
    using t(3) ne by (auto split: list.splits)
qed

















subsection \<open>Lemmas on the fast comparison\<close>

lemma fast_tail_never: "fast_tail n 0 needle msk a"
  by (cases n) (simp_all add: fast_tail.simps)

lemma load_le_or:
  assumes "length a = length b"
  shows "load_le a OR load_le b = (load_le (map2 (OR) a b) :: 'a::len word)"
  by (rule bit_word_eqI) (use assms in \<open>auto simp: bit_or_iff byte_simps\<close>)

lemma load_le_inject:
  assumes "8 * length a = LENGTH('a::len)" and "length b = length a"
  shows "(load_le a :: 'a word) = load_le b \<longleftrightarrow> a = b"
proof
  assume e: "(load_le a :: 'a word) = load_le b"
  have "a = store_le (length a) (load_le a :: 'a word)" using assms(1) by (intro store_load_le [symmetric]) simp
  also have "\<dots> = store_le (length b) (load_le b :: 'a word)" by (simp only: e assms(2))
  also have "\<dots> = b" using assms by (intro store_load_le) simp
  finally show "a = b" .
qed simp

lemma or_32: "(c :: byte) OR 32 = (if bit c 5 then c else c + 32)"
proof -
  have b: "bit (32 :: byte) n \<longleftrightarrow> n = 5" for n using bit_exp_iff [of 5 n, where 'a = byte] by auto
  show ?thesis
  proof (cases "bit c 5")
    case True
    with b show ?thesis by (auto intro!: bit_word_eqI simp: bit_or_iff simp del: bit_numeral_word_iff)
  next
    case False
    have "c + 32 = c OR 32" by (rule disjunctive_add) (use False b in \<open>auto simp del: bit_numeral_word_iff\<close>)
    with False show ?thesis by simp
  qed
qed

text \<open>For a lower-case letter \<open>x\<close>, whose code has bit 5 set, setting that bit of \<open>c\<close> gives \<open>x\<close> exactly for
  the letter in either case.\<close>

lemma or_32_letter:
  assumes "bit x 5" and "\<not> bit (x - 32) 5"
  shows "(c :: byte) OR 32 = x \<longleftrightarrow> c = x \<or> c = x - 32"
  using assms by (auto simp: or_32)

lemma to_lower_letter:
  assumes "97 \<le> x" and "x \<le> 122"
  shows "to_lower c = x \<longleftrightarrow> c = x \<or> c = x - 32"
proof -
  have u: "unat (c + 32) = unat c + 32" if "65 \<le> c" "c \<le> 90"
    using that by (subst unat_add_lt) (auto simp: word_le_nat_alt)
  have "unat (x - 32) = unat x - 32" using assms by (subst unat_sub) (auto simp: word_le_nat_alt)
  then show ?thesis using assms u
    by (auto simp: to_lower_def word_le_nat_alt word_unat_eq_iff)
qed

lemma load_le_slices:
  assumes "8 * k = LENGTH('a::len)" and "off + k \<le> length a" "off + k \<le> length needle" "off + k \<le> length msk"
  shows "(load_le (take k (drop off needle)) :: 'a word) =
      load_le (take k (drop off a)) OR load_le (take k (drop off msk)) \<longleftrightarrow>
    (\<forall>i < k. a ! (off + i) OR msk ! (off + i) = needle ! (off + i))"
proof -
  define x y z where "x = take k (drop off needle)" and "y = take k (drop off a)" and "z = take k (drop off msk)"
  have len: "length x = k" "length y = k" "length z = k" using assms by (simp_all add: x_def y_def z_def)
  have nth: "x ! i = needle ! (off + i)" "y ! i = a ! (off + i)" "z ! i = msk ! (off + i)" if "i < k" for i
    using that assms by (simp_all add: x_def y_def z_def)
  have "(load_le x :: 'a word) = load_le y OR load_le z \<longleftrightarrow> x = map2 (OR) y z"
    using assms(1) len by (simp add: load_le_or load_le_inject)
  also have "\<dots> \<longleftrightarrow> (\<forall>i < k. y ! i OR z ! i = x ! i)" using len by (auto simp: list_eq_iff_nth_eq)
  finally show ?thesis using nth by (simp add: x_def [symmetric] y_def [symmetric] z_def [symmetric])
qed

lemma all_less_12: "(\<forall>i < 12. P i) \<longleftrightarrow> (\<forall>i < 8. P i) \<and> (\<forall>i < 4. P (8 + i :: nat))"
proof (intro iffI conjI allI impI)
  fix i :: nat assume h: "(\<forall>i < 8. P i) \<and> (\<forall>i < 4. P (8 + i))" and i: "i < 12"
  show "P i"
  proof (cases "i < 8")
    case False
    then have "i - 8 < 4" "8 + (i - 8) = i" using i by auto
    then show ?thesis using h by metis
  qed (use h in auto)
qed auto

lemma fast_content_type_bytes:
  assumes "12 \<le> length a"
  shows "cat_strcasecmp_fast_content_type a \<longleftrightarrow>
    (\<forall>i < 12. a ! i OR [32, 32, 32, 32, 32, 32, 32, 0, 32, 32, 32, 32] ! i = content_type_str ! i)"
  using assms
    load_le_slices [of 8 0 a content_type_str "[32, 32, 32, 32, 32, 32, 32, 0, 32, 32, 32, 32]", where 'a = 64]
    load_le_slices [of 4 8 a content_type_str "[32, 32, 32, 32, 32, 32, 32, 0, 32, 32, 32, 32]", where 'a = 32]
  unfolding all_less_12 cat_strcasecmp_fast_content_type_def cat_strcasecmp_fast_def
  by (auto simp: fast_tail_never fast_words_def content_type_str_def Let_def)

lemma fast_multipart_bytes:
  assumes "8 \<le> length a"
  shows "cat_strcasecmp_fast_multipart_slash a \<longleftrightarrow>
    (\<forall>i < 8. a ! i OR [32, 32, 32, 32, 32, 32, 32, 32, 32, 0] ! i = multipart_slash_str ! i)"
  using assms
    load_le_slices [of 8 0 a multipart_slash_str "[32, 32, 32, 32, 32, 32, 32, 32, 32, 0]", where 'a = 64]
  unfolding cat_strcasecmp_fast_multipart_slash_def cat_strcasecmp_fast_def
  by (auto simp: fast_tail_never fast_words_def multipart_slash_str_def Let_def)

text \<open>Bit 5 of the letters that occur.\<close>

lemma or_32_chars:
  "(c :: byte) OR 32 = 97 \<longleftrightarrow> to_lower c = 97" "c OR 32 = 99 \<longleftrightarrow> to_lower c = 99" "c OR 32 = 101 \<longleftrightarrow> to_lower c = 101"
  "c OR 32 = 100 \<longleftrightarrow> to_lower c = 100"
  "c OR 32 = 105 \<longleftrightarrow> to_lower c = 105" "c OR 32 = 108 \<longleftrightarrow> to_lower c = 108" "c OR 32 = 109 \<longleftrightarrow> to_lower c = 109"
  "c OR 32 = 110 \<longleftrightarrow> to_lower c = 110" "c OR 32 = 111 \<longleftrightarrow> to_lower c = 111" "c OR 32 = 112 \<longleftrightarrow> to_lower c = 112"
  "c OR 32 = 114 \<longleftrightarrow> to_lower c = 114" "c OR 32 = 116 \<longleftrightarrow> to_lower c = 116" "c OR 32 = 117 \<longleftrightarrow> to_lower c = 117"
  "c OR 32 = 121 \<longleftrightarrow> to_lower c = 121"
  by (subst or_32_letter; simp add: to_lower_letter)+

lemma eq_ci_nth:
  "length b = n \<Longrightarrow> n \<le> length a \<Longrightarrow> eq_ci (take n a) b \<longleftrightarrow> (\<forall>i < n. to_lower (a ! i) = to_lower (b ! i))"
  unfolding eq_ci_def by (auto simp: list_eq_iff_nth_eq)

lemma to_lower_dash: "to_lower c = 45 \<longleftrightarrow> c = 45"
proof -
  have "unat (c + 32) = unat c + 32" if "65 \<le> c" "c \<le> 90"
    using that by (subst unat_add_lt) (auto simp: word_le_nat_alt)
  then show ?thesis unfolding to_lower_def by (auto simp: word_le_nat_alt word_unat_eq_iff)
qed

lemma content_type_chars:
  assumes "i < 12"
  shows "(c OR [32, 32, 32, 32, 32, 32, 32, 0, 32, 32, 32, 32] ! i = content_type_str ! i) =
    (to_lower c = to_lower (content_type_str ! i))"
proof -
  have "i \<in> {0, 1, 2, 3, 4, 5, 6, 7, 8, 9, 10, 11}" using assms by (auto simp: numeral_eq_Suc less_Suc_eq)
  then show ?thesis
    by (elim insertE; simp add: content_type_str_def or_32_chars to_lower_def [of 99] to_lower_def [of 111]
        to_lower_def [of 110] to_lower_def [of 116] to_lower_def [of 101] to_lower_def [of 45] to_lower_def [of 121]
        to_lower_def [of 112] to_lower_dash)
qed

lemma multipart_chars:
  assumes "i < 8"
  shows "(c OR [32, 32, 32, 32, 32, 32, 32, 32, 32, 0] ! i = multipart_slash_str ! i) =
    (to_lower c = to_lower (multipart_slash_str ! i))"
proof -
  have "i \<in> {0, 1, 2, 3, 4, 5, 6, 7}" using assms by auto
  then show ?thesis
    by (elim insertE; simp add: multipart_slash_str_def or_32_chars to_lower_def [of 109] to_lower_def [of 117]
        to_lower_def [of 108] to_lower_def [of 116] to_lower_def [of 105] to_lower_def [of 112] to_lower_def [of 97]
        to_lower_def [of 114])
qed

lemma fast_content_type_ci:
  assumes "12 \<le> length a"
  shows "cat_strcasecmp_fast_content_type a \<longleftrightarrow> eq_ci (take 12 a) content_type_str"
  unfolding fast_content_type_bytes [OF assms]
  by (subst eq_ci_nth) (use assms in \<open>auto simp: content_type_chars, simp add: content_type_str_def\<close>)

lemma fast_multipart_ci:
  assumes "10 \<le> length a"
  shows "cat_strcasecmp_fast_multipart_slash a \<longleftrightarrow> eq_ci (take 8 a) (take 8 multipart_slash_str)"
  by (subst fast_multipart_bytes; (subst eq_ci_nth)?)
    (use assms in \<open>auto simp: multipart_chars, simp add: multipart_slash_str_def\<close>)

subsection \<open>Lemmas on the hex dump\<close>

lemma length_hex_item [simp]: "length (hex_item c) = 5"
  by (simp add: hex_item_def)

lemma hex_dump_loop_spec:
  "\<lbrakk>idx + 5 * length ds = sz; length blk = Suc sz; ds \<noteq> []\<rbrakk> \<Longrightarrow>
   hex_dump_loop sz ds idx blk =
     Done (take idx blk @ butlast (concat (map hex_item ds)) @ [0] @ drop sz blk)"
proof (induction ds arbitrary: idx blk)
  case (Cons c cs)
  show ?case
  proof (cases cs)
    case Nil
    have "butlast (hex_item c) = take 4 (hex_item c)" by (simp add: butlast_conv_take)
    moreover have "sz - idx - 1 = 4" "drop (idx + 5) blk = drop sz blk" using Cons.prems(1) Nil by auto
    ultimately show ?thesis using Cons.prems Nil unfolding snprintf_at_def hex_dump_loop.simps by simp
  next
    case (Cons d ds')
    let ?blk = "take idx blk @ (hex_item c @ [0]) @ drop (idx + 6) blk"
    have t: "take (sz - idx - 1) (hex_item c) = hex_item c" using Cons.prems Cons by simp
    have w: "snprintf_at blk idx (sz - idx) (hex_item c) = Done ?blk"
      unfolding snprintf_at_def t using Cons.prems Cons by simp
    have "hex_dump_loop sz cs (idx + 5) ?blk =
        Done (take (idx + 5) ?blk @ butlast (concat (map hex_item cs)) @ [0] @ drop sz ?blk)"
      using Cons.prems Cons by (intro Cons.IH) auto
    moreover have "take (idx + 5) ?blk = take idx blk @ hex_item c" using Cons.prems Cons by (simp add: min_def)
    moreover have "drop sz ?blk = drop sz blk"
    proof -
      obtain k where k: "sz = idx + (6 + k)" using Cons.prems(1) Cons by (intro that [of "4 + 5 * length ds'"]) simp
      then show ?thesis using Cons.prems(2) by (simp add: min_def ac_simps)
    qed
    moreover have "concat (map hex_item cs) \<noteq> []" using Cons by (simp add: hex_item_def)
    ultimately show ?thesis using w by (auto simp: butlast_append)
  qed
qed simp

subsection \<open>Correctness of the string helpers\<close>



text \<open>The block \<^verbatim>\<open>cat_str_quote_ex\<close> allocates is large enough for the quoted text and its
  terminator, for every input and every style without the comment flag, and no input byte outside
  the object is read.\<close>

theorem quote_fits:
  assumes "\<And>sz. length (cat_malloc sz) = unat sz" and "\<not> FLAG_EMIT_COMMENT style" and "unat len < 2 ^ 61"
    and "if FLAG_ZERO_TERMINATED style then unat len < length p else unat len \<le> length p"
  shows "\<exists>new_str n c. cat_str_quote_ex cat_malloc p len style esc = Done (new_str, n, c) \<and>
    length new_str = unat (cat_str_quote_size len style) \<and> unat n < length new_str \<and> new_str ! unat n = 0"
proof -
  from quote_ex2_bounds [OF assms(4), of esc] assms(2) obtain s c where s:
    "cat_str_quote_ex2 p (unat len) style esc = Done (s, c)"
    "length s \<le> 4 * unat len + (if FLAG_OMIT_LEADING_TRAILING_QUOTES style then 0 else 2) +
      (if FLAG_ELLIPSIS style then 3 else 0)" by auto
  define extra where "extra = (if FLAG_OMIT_LEADING_TRAILING_QUOTES style then 1 else 3) + (if FLAG_ELLIPSIS style then 3 else 0 :: nat)"
  have e: "extra \<le> 6" by (simp add: extra_def)
  have "cat_str_quote_size len style = of_nat (4 * unat len + extra)"
    by (simp add: cat_str_quote_size_def extra_def)
  then have sz: "unat (cat_str_quote_size len style) = 4 * unat len + extra"
    using assms(3) e by (simp only: ) (rule unat_of_nat_lt, simp)
  have fit: "length s < unat (cat_str_quote_size len style)" using s(2) by (simp add: sz extra_def split: if_splits)
  have n: "unat (of_nat (length s) :: size_t) = length s"
    using fit size_t_bound [of "cat_str_quote_size len style"] by (intro unat_of_nat_lt) simp
  show ?thesis using s(1) fit assms(1)
    by (simp add: cat_str_quote_ex_def Let_def mem_write_def n nth_append del: unsigned_of_nat)
qed

theorem quote_fits_witness:
  "\<exists>new_str n c. cat_str_quote_ex (\<lambda>sz. replicate (unat sz) 0) [7, 8] 2 0 None = Done (new_str, n, c) \<and>
    length new_str = 11"
  using quote_fits [of "\<lambda>sz. replicate (unat sz) 0" 0 2 "[7, 8]" None]
  by (auto simp: cat_str_quote_size_def)

text \<open>With the comment flag the block is too small by the comment delimiters, already for the empty
  string: \<^verbatim>\<open>cat_str_quote_size\<close> does not count them, and the write overruns the block.\<close>

theorem quote_comment_overflow:
  assumes "\<And>sz. length (cat_malloc sz) = unat sz"
  shows "cat_str_quote_ex cat_malloc p 0 64 esc = Undefined"
proof -
  have "bit (64 :: u8) k \<longleftrightarrow> k = 6" for k using bit_exp_iff [of 6 k, where 'a = u8] by auto
  then show ?thesis using assms
    by (simp add: cat_str_quote_ex_def cat_str_quote_ex2_def cat_str_quote_size_def mem_write_def
        del: bit_numeral_word_iff)
qed

theorem quote_comment_overflow_witness:
  "cat_str_quote_ex (\<lambda>sz. replicate (unat sz) 0) [] 0 64 None = Undefined"
  by (rule quote_comment_overflow) simp

text \<open>The list search answers whether the needle is, up to the case of ASCII letters, one of the
  items of the list, the maximal runs between spaces and commas; parts of items do not count.\<close>

theorem list_contains_ci_correct:
  "cat_str_list_contains_ci haystack needle \<longleftrightarrow> (\<exists>t \<in> set (list_items haystack). eq_ci t needle)"
  using contains_ci_loop_items [of None haystack needle] by (simp add: cat_str_list_contains_ci_def)

text \<open>The fast comparison for \<^verbatim>\<open>content-type\<close> is exactly equality up to case of twelve characters,
  whereas the one for \<^verbatim>\<open>multipart/\<close> looks only at the first eight, because the loop over the
  remaining characters has the condition \<^verbatim>\<open>i > strsize % 4\<close> and never runs.\<close>

theorem fast_comparisons:
  assumes "12 \<le> length a"
  shows "(cat_strcasecmp_fast_content_type a \<longleftrightarrow> eq_ci (take 12 a) content_type_str) \<and>
    (cat_strcasecmp_fast_multipart_slash a \<longleftrightarrow> eq_ci (take 8 a) (take 8 multipart_slash_str))"
  using fast_content_type_ci [OF assms] fast_multipart_ci [of a] assms by simp

theorem fast_comparisons_witness:
  "cat_strcasecmp_fast_multipart_slash [77, 117, 108, 116, 105, 112, 97, 114, 88, 88, 88, 88] \<and>
   \<not> cat_strcasecmp_fast_content_type [77, 117, 108, 116, 105, 112, 97, 114, 88, 88, 88, 88]"
  using fast_comparisons [of "[77, 117, 108, 116, 105, 112, 97, 114, 88, 88, 88, 88]"]
  by (simp add: eq_ci_def to_lower_def multipart_slash_str_def content_type_str_def)

text \<open>A hex dump stays inside its block of \<open>5 * n + 1\<close> bytes and reads as the items \<^verbatim>\<open>0xHH\<close> with
  single spaces between them: the separator after the last one is cut off by the limit given to
  \<^verbatim>\<open>snprintf\<close> and becomes the terminator.\<close>

theorem hex_dump_correct:
  assumes "length escaped = 5 * length ds + 1"
  shows "cat_hex_dump escaped ds =
    Done (if ds = [] then [0] else butlast (concat (map hex_item ds)) @ [0, 0])"
proof (cases "ds = []")
  case True
  then show ?thesis using assms by (cases escaped) (auto simp: cat_hex_dump_def)
next
  case False
  have l: "length (concat (map hex_item ds)) = 5 * length ds" by (induction ds) auto
  have "length (drop (5 * length ds) escaped) = 1" using assms by simp
  then obtain x where x: "drop (5 * length ds) escaped = [x]"
    by (cases "drop (5 * length ds) escaped") auto
  define body where "body = butlast (concat (map hex_item ds)) @ [0]"
  have b: "length body = 5 * length ds" using l False by (cases ds) (simp_all add: body_def)
  have "hex_dump_loop (5 * length ds) ds 0 escaped = Done (body @ [x])"
    using hex_dump_loop_spec [of 0 ds "5 * length ds" escaped] False assms by (simp add: body_def x)
  then have "cat_hex_dump escaped ds = mem_write (body @ [x]) (length body) [0]"
    unfolding cat_hex_dump_def Let_def b by (simp only: c_bind.simps)
  also have "\<dots> = Done (body @ [0])" by simp
  finally have "cat_hex_dump escaped ds = Done (body @ [0])" .
  with False show ?thesis by (simp add: body_def)
qed

theorem hex_dump_correct_witness:
  "cat_hex_dump (replicate 11 7) [171, 1] = Done [48, 120, 65, 66, 32, 48, 120, 48, 49, 0, 0]"
  using hex_dump_correct [of "replicate 11 7" "[171, 1]"]
  by (simp add: hex_item_def hex_digit_def)

end
