(* ===== verification/Cat_Websocket.thy ===== *)
theory Cat_Websocket
  imports Cat_Memory
begin

unbundle bit_operations_syntax

text \<open>
  The websocket framing of \<^verbatim>\<open>src/cat_websocket.c\<close>. The packed struct \<^verbatim>\<open>cat_websocket_header_t\<close> is the
  list of its 14 bytes, which is also what goes over the wire: the bit fields live in the first two
  bytes (low bits first, as the supported compilers lay them out), the extended length in the next
  eight, and the masking key where the length says. Masking works on one memory with a source and a
  destination offset, so masking in place and copying are the same code on different offsets.

  The lemmas show that the header is the one of RFC 6455, byte by byte, and reads back for every 64-bit length, and
  that the masking loops with their eight-byte fast path compute the byte-wise exclusive or of
  RFC 6455, in place, into another buffer, and chunk by chunk.
\<close>

type_synonym cat_websocket_header_t = "byte list"

subsection \<open>Names\<close>

definition cat_websocket_opcode_get_name :: "u8 \<Rightarrow> string" where
  "cat_websocket_opcode_get_name opcode =
     (if opcode = 0x0 then ''CONTINUATION'' else if opcode = 0x1 then ''TEXT''
      else if opcode = 0x2 then ''BINARY'' else if opcode = 0x8 then ''CLOSE''
      else if opcode = 0x9 then ''PING'' else if opcode = 0xa then ''PONG''
      else ''UNKNOWN'')"

definition cat_websocket_status_get_description :: "u16 \<Rightarrow> string" where
  "cat_websocket_status_get_description code =
     (if code = 1000 then ''Normal closure; the connection successfully completed whatever purpose for which it was created''
      else if code = 1001 then ''The endpoint is going away, either because of a server failure or because the browser is navigating away from the page that opened the connection''
      else if code = 1002 then ''The endpoint is terminating the connection due to a protocol error''
      else if code = 1003 then ''The connection is being terminated because the endpoint received data of a type it cannot accept (for example, a text-only endpoint received binary data)''
      else if code = 1005 then ''Indicates that no status code was provided even though one was expected''
      else if code = 1006 then ''Reserved. Used to indicate that a connection was closed abnormally (that is, with no close frame being sent) when a status code is expected''
      else if code = 1007 then ''The endpoint is terminating the connection because a message was received that contained inconsistent data (e.g., non-UTF-8 data within a text message)''
      else if code = 1008 then ''The endpoint is terminating the connection because it received a message that violates its policy. This is a generic status code, used when codes 1003 and 1009 are not suitable''
      else if code = 1009 then ''Message too big The endpoint is terminating the connection because a data frame was received that is too large''
      else if code = 1010 then ''The client is terminating the connection because it expected the server to negotiate one or more extension, but the server didn't''
      else if code = 1011 then ''The server is terminating the connection because it encountered an unexpected condition that prevented it from fulfilling the request''
      else if code = 1012 then ''The server is terminating the connection because it is restarting''
      else if code = 1013 then ''The server is terminating the connection due to a temporary condition, e.g. it is overloaded and is casting off some of its clients''
      else if code = 1014 then ''The server was acting as a gateway or proxy and received an invalid response from the upstream server. This is similar to 502 HTTP Status Code''
      else if code = 1015 then ''Reserved. Indicates that the connection was closed due to a failure to perform a TLS handshake (e.g., the server certificate can't be verified)''
      else ''Unknown websocket status code'')"

subsection \<open>Header fields\<close>

definition hdr_opcode :: "cat_websocket_header_t \<Rightarrow> u8" where
  "hdr_opcode h = h ! 0 AND 0x0F"

definition hdr_fin :: "cat_websocket_header_t \<Rightarrow> bool" where
  "hdr_fin h = bit (h ! 0) 7"

definition hdr_payload_length :: "cat_websocket_header_t \<Rightarrow> u8" where
  "hdr_payload_length h = h ! 1 AND 0x7F"

definition hdr_mask :: "cat_websocket_header_t \<Rightarrow> bool" where
  "hdr_mask h = bit (h ! 1) 7"

definition set_hdr_payload_length :: "u8 \<Rightarrow> cat_websocket_header_t \<Rightarrow> cat_websocket_header_t" where
  "set_hdr_payload_length v h = h[1 := (h ! 1 AND 0x80) OR (v AND 0x7F)]"

definition set_hdr_mask :: "bool \<Rightarrow> cat_websocket_header_t \<Rightarrow> cat_websocket_header_t" where
  "set_hdr_mask b h = h[1 := (h ! 1 AND 0x7F) OR (if b then 0x80 else 0)]"

subsection \<open>Header operations\<close>

definition cat_websocket_calculate_masking_key_offset :: "u64 \<Rightarrow> u8" where
  "cat_websocket_calculate_masking_key_offset payload_length =
     (if payload_length \<le> 125 then 2 else if payload_length \<le> 65535 then 2 + 2 else 2 + 8)"

definition cat_websocket_calculate_header_size :: "u64 \<Rightarrow> bool \<Rightarrow> u8" where
  "cat_websocket_calculate_header_size payload_length masked =
     (let header_size = cat_websocket_calculate_masking_key_offset payload_length
      in if masked then header_size + 4 else header_size)"

definition cat_websocket_header_init :: "cat_websocket_header_t \<Rightarrow> cat_websocket_header_t c_run" where
  "cat_websocket_header_init h = mem_write h 0 [0, 0]"

definition cat_websocket_header_get_masking_key_offset :: "cat_websocket_header_t \<Rightarrow> u8 c_run" where
  "cat_websocket_header_get_masking_key_offset h =
     (if hdr_payload_length h < 126 then Done 2
      else if hdr_payload_length h = 126 then Done (2 + 2)
      else c_assert (hdr_payload_length h = 127) (Done (2 + 8)))"

definition cat_websocket_header_get_size :: "cat_websocket_header_t \<Rightarrow> u64 c_run" where
  "cat_websocket_header_get_size h =
     c_bind (cat_websocket_header_get_masking_key_offset h) (\<lambda>header_size.
       Done (ucast (if hdr_mask h then header_size + 4 else header_size)))"

definition cat_websocket_header_get_payload_length :: "cat_websocket_header_t \<Rightarrow> u64 c_run" where
  "cat_websocket_header_get_payload_length h =
     (if hdr_payload_length h < 126 then Done (ucast (hdr_payload_length h))
      else if hdr_payload_length h = 126
      then c_bind (mem_read h 2 2) (\<lambda>bs. Done (ucast (htons (load_le bs))))
      else c_assert (hdr_payload_length h = 127)
        (c_bind (mem_read h 2 8) (\<lambda>bs. Done (cat_ntoh64 (load_le bs)))))"

text \<open>The C function returns a pointer into the header or \<^verbatim>\<open>NULL\<close>; here it is the four bytes a
  caller reads there.\<close>

definition cat_websocket_header_get_masking_key :: "cat_websocket_header_t \<Rightarrow> byte list option c_run" where
  "cat_websocket_header_get_masking_key h =
     (if hdr_mask h then
        c_bind (cat_websocket_header_get_masking_key_offset h) (\<lambda>off.
        c_bind (mem_read h (unat off) 4) (\<lambda>key. Done (Some key)))
      else Done None)"

definition cat_websocket_header_set_payload_length ::
  "cat_websocket_header_t \<Rightarrow> u64 \<Rightarrow> cat_websocket_header_t c_run" where
  "cat_websocket_header_set_payload_length h payload_length =
     c_bind
       (if hdr_mask h then
          c_bind (cat_websocket_header_get_masking_key_offset h) (\<lambda>p.
          c_bind (mem_read h (unat p) 4) (\<lambda>key.
          mem_write h (unat (cat_websocket_calculate_masking_key_offset payload_length)) key))
        else Done h)
       (\<lambda>h.
         if payload_length \<le> 125 then Done (set_hdr_payload_length (ucast payload_length) h)
         else if payload_length \<le> 65535 then
           mem_write (set_hdr_payload_length 126 h) 2 (store_le 2 (htons (ucast payload_length)))
         else mem_write (set_hdr_payload_length 127 h) 2 (store_le 8 (cat_hton64 payload_length)))"

definition cat_websocket_header_set_masking_key ::
  "cat_websocket_header_t \<Rightarrow> byte list option \<Rightarrow> cat_websocket_header_t c_run" where
  "cat_websocket_header_set_masking_key h masking_key =
     (case masking_key of None \<Rightarrow> Done (set_hdr_mask False h)
      | Some key \<Rightarrow>
          c_bind (cat_websocket_header_get_masking_key_offset h) (\<lambda>p.
          c_bind (mem_write h (unat p) (take 4 key)) (\<lambda>h. Done (set_hdr_mask True h))))"

definition cat_websocket_header_set_payload_info ::
  "cat_websocket_header_t \<Rightarrow> u64 \<Rightarrow> byte list option \<Rightarrow> cat_websocket_header_t c_run" where
  "cat_websocket_header_set_payload_info h payload_length masking_key =
     c_bind (cat_websocket_header_set_payload_length (set_hdr_mask False h) payload_length)
       (\<lambda>h. cat_websocket_header_set_masking_key h masking_key)"

subsection \<open>Masking\<close>

text \<open>One memory \<open>m\<close>; \<open>f\<close> and \<open>t\<close> are the offsets \<^verbatim>\<open>from\<close> and \<^verbatim>\<open>to\<close>, \<open>n\<close> the bytes left. The byte
  loops, with the stop condition of the first one as a flag, return where they stopped.\<close>

fun mask_bytes :: "bool \<Rightarrow> byte list \<Rightarrow> nat \<Rightarrow> nat \<Rightarrow> nat \<Rightarrow> u64 \<Rightarrow> byte list \<Rightarrow> (nat \<times> u64 \<times> byte list) c_run" where
  "mask_bytes align key f t 0 index m = Done (0, index, m)"
| "mask_bytes align key f t (Suc n) index m =
     (if align \<and> index AND 7 = 0 then Done (Suc n, index, m)
      else c_bind (mem_read m f 1) (\<lambda>b.
           c_bind (mem_read key (unat (index AND 3)) 1) (\<lambda>k.
           c_bind (mem_write m t [hd b XOR hd k]) (\<lambda>m.
           mask_bytes align key (Suc f) (Suc t) n (index + 1) m))))"

fun mask_words :: "u64 \<Rightarrow> nat \<Rightarrow> nat \<Rightarrow> nat \<Rightarrow> byte list \<Rightarrow> byte list c_run" where
  "mask_words key_u64 f t 0 m = Done m"
| "mask_words key_u64 f t (Suc q) m =
     c_bind (mem_read m f 8) (\<lambda>bs.
     c_bind (mem_write m t (store_le 8 (load_le bs XOR key_u64))) (\<lambda>m.
     mask_words key_u64 (f + 8) (t + 8) q m))"

definition masking_key_u64 :: "byte list \<Rightarrow> u64 c_run" where
  "masking_key_u64 key =
     c_bind (mem_read key 0 4) (\<lambda>bs.
       let k = load_le bs :: u32 in Done (push_bit 32 (ucast k) OR ucast k))"

definition cat_websocket_mask2 :: "nat \<Rightarrow> nat \<Rightarrow> nat \<Rightarrow> byte list \<Rightarrow> u64 \<Rightarrow> byte list \<Rightarrow> byte list c_run" where
  "cat_websocket_mask2 f t len key index m =
     c_bind
       (if 8 \<le> len then
          c_bind (mask_bytes True key f t len index m) (\<lambda>(rest, index, m).
          c_bind (masking_key_u64 key) (\<lambda>key_u64.
            let unmasked_length_of_u64 = rest - rest mod 8
            in c_bind (mask_words key_u64 (f + (len - rest)) (t + (len - rest)) (unmasked_length_of_u64 div 8) m)
                 (\<lambda>m. Done (rest - unmasked_length_of_u64, index + of_nat unmasked_length_of_u64, m))))
        else Done (len, index, m))
       (\<lambda>(rest, index, m).
         c_bind (mask_bytes False key (f + (len - rest)) (t + (len - rest)) rest index m) (\<lambda>(_, _, m). Done m))"

definition cat_websocket_mask1 :: "nat \<Rightarrow> nat \<Rightarrow> byte list \<Rightarrow> u64 \<Rightarrow> byte list \<Rightarrow> byte list c_run" where
  "cat_websocket_mask1 p len key index m =
     c_bind
       (if 8 \<le> len then
          c_bind (mask_bytes True key p p len index m) (\<lambda>(rest, index, m).
          c_bind (masking_key_u64 key) (\<lambda>key_u64.
            let unmasked_length_of_u64 = rest - rest mod 8
            in c_bind (mask_words key_u64 (p + (len - rest)) (p + (len - rest)) (unmasked_length_of_u64 div 8) m)
                 (\<lambda>m. Done (rest - unmasked_length_of_u64, index + of_nat unmasked_length_of_u64, m))))
        else Done (len, index, m))
       (\<lambda>(rest, index, m).
         c_bind (mask_bytes False key (p + (len - rest)) (p + (len - rest)) rest index m) (\<lambda>(_, _, m). Done m))"

definition cat_websocket_mask_ex ::
  "nat \<Rightarrow> nat \<Rightarrow> nat \<Rightarrow> byte list option \<Rightarrow> u64 \<Rightarrow> byte list \<Rightarrow> byte list c_run" where
  "cat_websocket_mask_ex f t len masking_key index m =
     c_bind (case masking_key of None \<Rightarrow> Done None
             | Some key \<Rightarrow> c_bind (mem_read key 0 4) (\<lambda>bs.
                 Done (if bs = [0, 0, 0, 0] then None else Some key)))
       (\<lambda>non_empty_key. case non_empty_key of
          None \<Rightarrow> if f = t then Done m else c_bind (mem_read m f len) (\<lambda>bs. mem_write m t bs)
        | Some key \<Rightarrow>
            if f = t then cat_websocket_mask1 t len key index m
            else cat_websocket_mask2 f t len key index m)"

definition cat_websocket_unmask_ex :: "nat \<Rightarrow> nat \<Rightarrow> byte list option \<Rightarrow> u64 \<Rightarrow> byte list \<Rightarrow> byte list c_run" where
  "cat_websocket_unmask_ex p len masking_key index m = cat_websocket_mask_ex p p len masking_key index m"

definition cat_websocket_mask :: "nat \<Rightarrow> nat \<Rightarrow> nat \<Rightarrow> byte list option \<Rightarrow> byte list \<Rightarrow> byte list c_run" where
  "cat_websocket_mask f t len masking_key m = cat_websocket_mask_ex f t len masking_key 0 m"

definition cat_websocket_unmask :: "nat \<Rightarrow> nat \<Rightarrow> byte list option \<Rightarrow> byte list \<Rightarrow> byte list c_run" where
  "cat_websocket_unmask p len masking_key m = cat_websocket_unmask_ex p len masking_key 0 m"

subsection \<open>Header lemmas\<close>

lemma bit_0x7F: "bit (0x7F :: byte) n \<longleftrightarrow> n < 7"
  using bit_mask_iff [of 7 n, where 'a = byte] by (auto simp: mask_eq_exp_minus_1)

lemma bit_0x80: "bit (0x80 :: byte) n \<longleftrightarrow> n = 7"
  using bit_exp_iff [of 7 n, where 'a = byte] by auto

lemma hdr_length_field:
  assumes "1 < length h"
  shows "hdr_payload_length (set_hdr_payload_length v h) = v AND 0x7F"
    and "hdr_mask (set_hdr_payload_length v h) = hdr_mask h"
    and "hdr_payload_length (set_hdr_mask b h) = hdr_payload_length h"
    and "hdr_mask (set_hdr_mask b h) = b"
  using assms unfolding hdr_payload_length_def hdr_mask_def set_hdr_payload_length_def set_hdr_mask_def
  by (auto intro!: bit_word_eqI simp: bit_and_iff bit_or_iff bit_0x7F bit_0x80 simp del: bit_numeral_word_iff)

lemma hdr_length [simp]:
  "length (set_hdr_payload_length v h) = length h" "length (set_hdr_mask b h) = length h"
  by (simp_all add: set_hdr_payload_length_def set_hdr_mask_def)

lemma hdr_nth_other:
  "i \<noteq> 1 \<Longrightarrow> set_hdr_payload_length v h ! i = h ! i"
  "i \<noteq> 1 \<Longrightarrow> set_hdr_mask b h ! i = h ! i"
  by (simp_all add: set_hdr_payload_length_def set_hdr_mask_def)

lemma hdr_drop:
  "2 \<le> k \<Longrightarrow> drop k (set_hdr_payload_length v h) = drop k h"
  "2 \<le> k \<Longrightarrow> drop k (set_hdr_mask b h) = drop k h"
  by (simp_all add: set_hdr_payload_length_def set_hdr_mask_def)

text \<open>The two fields of the second byte decide where everything else is.\<close>

lemma masking_key_offset_cases:
  "cat_websocket_header_get_masking_key_offset h =
     Done (if hdr_payload_length h < 126 then 2 else if hdr_payload_length h = 126 then 4 else 10)"
proof -
  have "hdr_payload_length h \<le> 127" by (simp add: hdr_payload_length_def word_and_le1)
  then have "hdr_payload_length h = 127" if "\<not> hdr_payload_length h < 126" "hdr_payload_length h \<noteq> 126"
    using that by (auto simp: word_less_nat_alt word_le_nat_alt word_unat_eq_iff)
  then show ?thesis by (auto simp: cat_websocket_header_get_masking_key_offset_def)
qed

lemma payload_length_cases:
  "cat_websocket_header_get_payload_length h =
     (if hdr_payload_length h < 126 then Done (ucast (hdr_payload_length h))
      else if hdr_payload_length h = 126
      then c_bind (mem_read h 2 2) (\<lambda>bs. Done (ucast (htons (load_le bs))))
      else c_bind (mem_read h 2 8) (\<lambda>bs. Done (cat_ntoh64 (load_le bs))))"
  using masking_key_offset_cases [of h]
  by (auto simp: cat_websocket_header_get_payload_length_def cat_websocket_header_get_masking_key_offset_def
      c_assert_def split: if_splits)

text \<open>\<open>wire_length h v\<close>: the length fields of the header encode \<open>v\<close> the shortest way.\<close>

definition wire_length :: "cat_websocket_header_t \<Rightarrow> u64 \<Rightarrow> bool" where
  "wire_length h v \<longleftrightarrow>
     (if v \<le> 125 then hdr_payload_length h = ucast v
      else if v \<le> 65535 then hdr_payload_length h = 126 \<and> take 2 (drop 2 h) = rev (store_le 2 (ucast v :: u16))
      else hdr_payload_length h = 127 \<and> take 8 (drop 2 h) = rev (store_le 8 v))"

lemma ucast_small_length: "v \<le> 125 \<Longrightarrow> unat (ucast (v :: u64) :: u8) = unat v"
  by (simp add: word_le_nat_alt unsigned_ucast_eq take_bit_nat_eq_self)

lemma take_bit_word_small: "unat (v :: 'a::len word) < 2 ^ n \<Longrightarrow> take_bit n v = v"
  by (simp add: word_unat_eq_iff unsigned_take_bit_eq take_bit_nat_eq_self)

lemma wire_length_read:
  assumes "length h = 14" and w: "wire_length h v"
  shows "cat_websocket_header_get_payload_length h = Done v"
    and "cat_websocket_header_get_masking_key_offset h = Done (cat_websocket_calculate_masking_key_offset v)"
proof -
  consider (s) "v \<le> 125" | (m) "\<not> v \<le> 125" "v \<le> 65535" | (l) "\<not> v \<le> 125" "\<not> v \<le> 65535" by blast
  then have "cat_websocket_header_get_payload_length h = Done v \<and>
    cat_websocket_header_get_masking_key_offset h = Done (cat_websocket_calculate_masking_key_offset v)"
  proof cases
    case s
    have "unat (ucast v :: u8) = unat v" by (rule ucast_small_length [OF s])
    moreover from this s have "(ucast v :: u8) < 126" by (simp add: word_less_nat_alt word_le_nat_alt)
    moreover have "(ucast (ucast v :: u8) :: u64) = v"
      using s by (simp add: take_bit_word_small word_le_nat_alt unsigned_ucast_eq)
    ultimately show ?thesis using w s
      by (simp add: wire_length_def payload_length_cases masking_key_offset_cases
          cat_websocket_calculate_masking_key_offset_def)
  next
    case m
    have "htons (load_le (rev (store_le 2 (ucast v :: u16)))) = ucast v"
      by (simp add: htons_def [symmetric])
    moreover have "(ucast (ucast v :: u16) :: u64) = v" using m(2)
      by (simp add: take_bit_word_small word_le_nat_alt unsigned_ucast_eq)
    ultimately show ?thesis using w m assms(1)
      by (simp add: wire_length_def payload_length_cases masking_key_offset_cases
          cat_websocket_calculate_masking_key_offset_def)
  next
    case l
    have "load_le (rev (store_le 8 v)) = cat_hton64 v" using load_store_le [of 8 "cat_hton64 v"]
      by (simp add: store_hton64)
    then show ?thesis using w l assms(1)
      by (simp add: wire_length_def payload_length_cases masking_key_offset_cases
          cat_websocket_calculate_masking_key_offset_def ntoh64_eq_hton64)
  qed
  then show "cat_websocket_header_get_payload_length h = Done v"
    "cat_websocket_header_get_masking_key_offset h = Done (cat_websocket_calculate_masking_key_offset v)" by auto
qed

text \<open>A write behind the first two bytes leaves the fields alone.\<close>

lemma hdr_overwrite:
  assumes "2 \<le> k" and "k + length xs \<le> length h"
  shows "hdr_payload_length (take k h @ xs @ drop (k + length xs) h) = hdr_payload_length h"
    and "hdr_mask (take k h @ xs @ drop (k + length xs) h) = hdr_mask h"
    and "(take k h @ xs @ drop (k + length xs) h) ! 0 = h ! 0"
  using assms by (auto simp: hdr_payload_length_def hdr_mask_def nth_append)

definition key_at :: "cat_websocket_header_t \<Rightarrow> u8 \<Rightarrow> byte list" where
  "key_at h off = take 4 (drop (unat off) h)"

lemma key_offset_values:
  "cat_websocket_calculate_masking_key_offset v = 2 \<or> cat_websocket_calculate_masking_key_offset v = 4 \<or>
   cat_websocket_calculate_masking_key_offset v = 10"
  by (simp add: cat_websocket_calculate_masking_key_offset_def)

lemma unat_key_offset:
  "unat (cat_websocket_calculate_masking_key_offset v) \<in> {2, 4, 10}"
  using key_offset_values [of v] by auto

lemma and_0x7F_small: "(x :: u8) \<le> 127 \<Longrightarrow> x AND 127 = x"
proof -
  assume "x \<le> 127"
  then have "unat x < 2 ^ 7" by (simp add: word_le_nat_alt)
  then have "take_bit 7 x = x" by (rule take_bit_word_small)
  then show ?thesis by (simp add: take_bit_eq_mask mask_eq_exp_minus_1)
qed

lemma set_length_fields:
  assumes "length h = 14"
  shows "\<exists>h'. (if v \<le> 125 then Done (set_hdr_payload_length (ucast v) h)
         else if v \<le> 65535 then mem_write (set_hdr_payload_length 126 h) 2 (store_le 2 (htons (ucast v)))
         else mem_write (set_hdr_payload_length 127 h) 2 (store_le 8 (cat_hton64 v))) = Done h' \<and>
    length h' = 14 \<and> wire_length h' v \<and> hdr_mask h' = hdr_mask h \<and> h' ! 0 = h ! 0 \<and>
    drop (unat (cat_websocket_calculate_masking_key_offset v)) h' =
    drop (unat (cat_websocket_calculate_masking_key_offset v)) h"
proof -
  have f: "hdr_payload_length (set_hdr_payload_length w h) = w AND 0x7F"
    "hdr_mask (set_hdr_payload_length w h) = hdr_mask h" for w
    using hdr_length_field assms by simp_all
  consider (s) "v \<le> 125" | (m) "\<not> v \<le> 125" "v \<le> 65535" | (l) "\<not> v \<le> 125" "\<not> v \<le> 65535" by blast
  then show ?thesis
  proof cases
    case s
    have "(ucast v :: u8) \<le> 127" using s ucast_small_length [OF s] by (simp add: word_le_nat_alt)
    then show ?thesis using s f assms
      by (simp add: wire_length_def and_0x7F_small hdr_nth_other cat_websocket_calculate_masking_key_offset_def hdr_drop)
  next
    case m
    then show ?thesis using f assms hdr_overwrite [of 2 "store_le 2 (htons (ucast v :: u16))" "set_hdr_payload_length 126 h"]
      by (simp add: wire_length_def and_0x7F_small hdr_nth_other cat_websocket_calculate_masking_key_offset_def hdr_drop
          store_htons min_def)
  next
    case l
    then show ?thesis using f assms hdr_overwrite [of 2 "store_le 8 (cat_hton64 v)" "set_hdr_payload_length 127 h"]
      by (simp add: wire_length_def and_0x7F_small hdr_nth_other cat_websocket_calculate_masking_key_offset_def hdr_drop
          store_hton64 min_def)
  qed
qed

lemma set_payload_length_spec:
  assumes "length h = 14"
    and off: "cat_websocket_header_get_masking_key_offset h = Done off"
  shows "\<exists>h'. cat_websocket_header_set_payload_length h v = Done h' \<and> length h' = 14 \<and> wire_length h' v \<and>
    hdr_mask h' = hdr_mask h \<and> h' ! 0 = h ! 0 \<and>
    (hdr_mask h \<longrightarrow> key_at h' (cat_websocket_calculate_masking_key_offset v) = key_at h off)"
proof (cases "hdr_mask h")
  case False
  with set_length_fields [OF assms(1), of v] show ?thesis
    by (auto simp: cat_websocket_header_set_payload_length_def)
next
  case True
  let ?n = "unat (cat_websocket_calculate_masking_key_offset v)"
  define h1 where "h1 = take ?n h @ key_at h off @ drop (?n + 4) h"
  have o: "unat off \<in> {2, 4, 10}" using off by (auto simp: masking_key_offset_cases split: if_splits)
  have n: "?n \<in> {2, 4, 10}" by (rule unat_key_offset)
  have k: "length (key_at h off) = 4" using o assms(1) by (auto simp: key_at_def)
  have rd: "mem_read h (unat off) 4 = Done (key_at h off)" using o assms(1) by (auto simp: key_at_def)
  have wr: "mem_write h ?n (key_at h off) = Done h1" using n assms(1) k by (auto simp: h1_def)
  have l1: "length h1 = 14" using n assms(1) k by (auto simp: h1_def)
  have h1: "hdr_mask h1 = hdr_mask h" "h1 ! 0 = h ! 0"
    using hdr_overwrite(2,3) [of ?n "key_at h off" h] n assms(1) k by (auto simp: h1_def)
  have k1: "take 4 (drop ?n h1) = key_at h off" using n assms(1) k by (auto simp: h1_def)
  from set_length_fields [OF l1, of v] show ?thesis
    by (simp add: cat_websocket_header_set_payload_length_def True off rd wr) (auto simp: h1 True key_at_def k1)
qed

lemma set_masking_key_spec:
  assumes "length h = 14" and "wire_length h v" and "\<forall>k. masking_key = Some k \<longrightarrow> length k = 4"
  shows "\<exists>h'. cat_websocket_header_set_masking_key h masking_key = Done h' \<and> length h' = 14 \<and>
    wire_length h' v \<and> h' ! 0 = h ! 0 \<and> hdr_mask h' = (masking_key \<noteq> None) \<and>
    (\<forall>k. masking_key = Some k \<longrightarrow> key_at h' (cat_websocket_calculate_masking_key_offset v) = k)"
proof (cases masking_key)
  case None
  then show ?thesis using assms hdr_length_field [of h]
    by (auto simp: cat_websocket_header_set_masking_key_def hdr_nth_other wire_length_def hdr_drop)
next
  case (Some k)
  let ?n = "unat (cat_websocket_calculate_masking_key_offset v)"
  define h1 where "h1 = take ?n h @ k @ drop (?n + 4) h"
  have k: "length k = 4" using assms(3) Some by simp
  have n: "?n \<in> {2, 4, 10}" by (rule unat_key_offset)
  have wr: "mem_write h ?n k = Done h1" using n assms(1) k by (auto simp: h1_def)
  have l1: "length h1 = 14" "take 4 (drop ?n h1) = k" using n assms(1) k by (auto simp: h1_def)
  have f: "hdr_payload_length h1 = hdr_payload_length h" "h1 ! 0 = h ! 0"
    using hdr_overwrite(1,3) [of ?n k h] n assms(1) k by (auto simp: h1_def)
  have d: "take (?n - 2) (drop 2 h1) = take (?n - 2) (drop 2 h)"
    using n assms(1) by (auto simp: h1_def min_def drop_take)
  have "wire_length h1 v" using assms(2) f d
    by (auto simp: wire_length_def cat_websocket_calculate_masking_key_offset_def split: if_splits)
  then have "wire_length (set_hdr_mask True h1) v"
    using hdr_length_field(3) [of h1 True] l1 by (simp add: wire_length_def hdr_drop)
  moreover have "drop ?n (set_hdr_mask True h1) = drop ?n h1" using n by (auto intro: hdr_drop)
  moreover have "hdr_mask (set_hdr_mask True h1)" using hdr_length_field(4) l1(1) by simp
  ultimately show ?thesis using wr l1 f k Some wire_length_read(2) [OF assms(1,2)]
    by (simp add: cat_websocket_header_set_masking_key_def hdr_nth_other key_at_def)
qed

lemma set_payload_info_spec:
  assumes "length h = 14" and "\<forall>k. masking_key = Some k \<longrightarrow> length k = 4"
  shows "\<exists>h'. cat_websocket_header_set_payload_info h v masking_key = Done h' \<and> length h' = 14 \<and>
    wire_length h' v \<and> h' ! 0 = h ! 0 \<and> hdr_mask h' = (masking_key \<noteq> None) \<and>
    (\<forall>k. masking_key = Some k \<longrightarrow> key_at h' (cat_websocket_calculate_masking_key_offset v) = k)"
proof -
  let ?h = "set_hdr_mask False h"
  have l: "length ?h = 14" and z: "?h ! 0 = h ! 0" using assms(1) by (simp_all add: hdr_nth_other)
  from set_payload_length_spec [OF l masking_key_offset_cases, of v] obtain h1 where
    h1: "cat_websocket_header_set_payload_length ?h v = Done h1" "length h1 = 14" "wire_length h1 v" "h1 ! 0 = h ! 0"
    using z by auto
  from set_masking_key_spec [OF h1(2,3) assms(2)] h1(1,4) show ?thesis
    by (simp add: cat_websocket_header_set_payload_info_def)
qed

lemma wire_read:
  assumes "length h = 14" and "wire_length h v" and "hdr_mask h = (masking_key \<noteq> None)"
    and "\<forall>k. masking_key = Some k \<longrightarrow> key_at h (cat_websocket_calculate_masking_key_offset v) = k"
  shows "cat_websocket_header_get_payload_length h = Done v \<and>
    cat_websocket_header_get_masking_key h = Done masking_key \<and>
    cat_websocket_header_get_size h = Done (ucast (cat_websocket_calculate_header_size v (masking_key \<noteq> None)))"
proof -
  note r = wire_length_read [OF assms(1,2)]
  have "mem_read h (unat (cat_websocket_calculate_masking_key_offset v)) 4 =
      Done (key_at h (cat_websocket_calculate_masking_key_offset v))"
    using unat_key_offset [of v] assms(1) by (auto simp: key_at_def)
  then have "cat_websocket_header_get_masking_key h = Done masking_key"
    using assms(3,4) r(2) by (cases masking_key) (simp_all add: cat_websocket_header_get_masking_key_def)
  then show ?thesis using r assms(3)
    by (simp add: cat_websocket_header_get_size_def cat_websocket_calculate_header_size_def Let_def)
qed

text \<open>Only the bytes up to the header size count: a receiver that has read just those, with
  anything behind them, decodes the same values.\<close>

lemma wire_prefix:
  assumes "length h = 14" and "length g = 14" and sz: "unat (cat_websocket_calculate_header_size v (masking_key \<noteq> None)) = n"
    and pre: "take n g = take n h"
    and h: "wire_length h v" "hdr_mask h = (masking_key \<noteq> None)"
      "\<forall>k. masking_key = Some k \<longrightarrow> key_at h (cat_websocket_calculate_masking_key_offset v) = k"
  shows "wire_length g v" "hdr_mask g = (masking_key \<noteq> None)"
    "\<forall>k. masking_key = Some k \<longrightarrow> key_at g (cat_websocket_calculate_masking_key_offset v) = k"
proof -
  let ?o = "cat_websocket_calculate_masking_key_offset v"
  have n: "n = unat ?o + (if masking_key = None then 0 else 4)"
    using sz key_offset_values [of v] by (auto simp: cat_websocket_calculate_header_size_def Let_def)
  have nth: "g ! i = h ! i" if "i < n" for i using that pre by (metis nth_take)
  have slice: "take k (drop j g) = take k (drop j h)" if "j + k \<le> n" for j k
  proof -
    have "take k (drop j g) = drop j (take (j + k) (take n g))" using that by (simp add: take_drop min_def add.commute)
    also have "\<dots> = take k (drop j h)" using that by (simp add: pre take_drop min_def add.commute)
    finally show ?thesis .
  qed
  have b1: "g ! 1 = h ! 1" using nth [of 1] n unat_key_offset [of v] by auto
  then have f: "hdr_payload_length g = hdr_payload_length h" "hdr_mask g = hdr_mask h"
    by (simp_all add: hdr_payload_length_def hdr_mask_def)
  show "hdr_mask g = (masking_key \<noteq> None)" using f h by simp
  have "take (unat ?o - 2) (drop 2 g) = take (unat ?o - 2) (drop 2 h)"
    using n unat_key_offset [of v] by (intro slice) auto
  then show "wire_length g v" using h(1) f
    by (auto simp: wire_length_def cat_websocket_calculate_masking_key_offset_def split: if_splits)
  show "\<forall>k. masking_key = Some k \<longrightarrow> key_at g ?o = k"
    using h(3) slice [of "unat ?o" 4] n by (auto simp: key_at_def)
qed

subsection \<open>Masking lemmas\<close>

text \<open>The algorithm of RFC 6455, octet by octet.\<close>

definition xor_key :: "byte list \<Rightarrow> nat \<Rightarrow> byte list \<Rightarrow> byte list" where
  "xor_key key i bs = map (\<lambda>j. bs ! j XOR key ! ((i + j) mod 4)) [0..<length bs]"

lemma length_xor_key [simp]: "length (xor_key key i bs) = length bs"
  by (simp add: xor_key_def)

lemma xor_key_nth [simp]: "j < length bs \<Longrightarrow> xor_key key i bs ! j = bs ! j XOR key ! ((i + j) mod 4)"
  by (simp add: xor_key_def)

lemma xor_key_append: "xor_key key i (xs @ ys) = xor_key key i xs @ xor_key key (i + length xs) ys"
  by (rule nth_equalityI) (auto simp: nth_append add.assoc)

lemma xor_key_mod: "i mod 4 = i' mod 4 \<Longrightarrow> xor_key key i bs = xor_key key i' bs"
  by (simp add: xor_key_def) (metis mod_add_left_eq)

lemma xor_key_twice [simp]: "xor_key key i (xor_key key i bs) = bs"
  by (rule nth_equalityI) (auto simp: xor.assoc)

lemma xor_key_zero: "xor_key [0, 0, 0, 0] i bs = bs"
proof (rule nth_equalityI)
  fix j assume j: "j < length (xor_key [0, 0, 0, 0] i bs)"
  have "(i + j) mod 4 < 4" by simp
  then consider "(i + j) mod 4 = 0" | "(i + j) mod 4 = 1" | "(i + j) mod 4 = 2" | "(i + j) mod 4 = 3" by linarith
  then have "[0, 0, 0, 0 :: byte] ! ((i + j) mod 4) = 0" by cases simp_all
  with j show "xor_key [0, 0, 0, 0] i bs ! j = bs ! j" by simp
qed simp

text \<open>\<open>masked\<close> is the memory after masking \<open>n\<close> bytes from \<open>f\<close> to \<open>t\<close>; \<open>may_mask\<close> says that the
  ranges lie in the memory and that the destination does not run over source bytes still to come.\<close>

definition masked :: "byte list \<Rightarrow> nat \<Rightarrow> nat \<Rightarrow> nat \<Rightarrow> nat \<Rightarrow> byte list \<Rightarrow> byte list" where
  "masked key i f t n m = take t m @ xor_key key i (take n (drop f m)) @ drop (t + n) m"

definition may_mask :: "nat \<Rightarrow> nat \<Rightarrow> nat \<Rightarrow> byte list \<Rightarrow> bool" where
  "may_mask f t n m \<longleftrightarrow> f + n \<le> length m \<and> t + n \<le> length m \<and> (t \<le> f \<or> f + n \<le> t)"

lemma masked_length: "may_mask f t n m \<Longrightarrow> length (masked key i f t n m) = length m"
  by (auto simp: masked_def may_mask_def min_def)

lemma masked_nth:
  assumes "may_mask f t n m" and "j < length m"
  shows "masked key i f t n m ! j =
    (if t \<le> j \<and> j < t + n then m ! (f + (j - t)) XOR key ! ((i + (j - t)) mod 4) else m ! j)"
  using assms by (auto simp: masked_def may_mask_def nth_append)

lemma masked_add:
  assumes "may_mask f t (a + b) m"
  shows "masked key (i + a) (f + a) (t + a) b (masked key i f t a m) = masked key i f t (a + b) m"
    and "may_mask f t a m" and "may_mask (f + a) (t + a) b (masked key i f t a m)"
proof -
  show a: "may_mask f t a m" using assms by (auto simp: may_mask_def)
  show b: "may_mask (f + a) (t + a) b (masked key i f t a m)"
    using assms masked_length [OF a] by (auto simp: may_mask_def)
  show "masked key (i + a) (f + a) (t + a) b (masked key i f t a m) = masked key i f t (a + b) m"
  proof (rule nth_equalityI)
    fix j assume "j < length (masked key (i + a) (f + a) (t + a) b (masked key i f t a m))"
    then have j: "j < length m" using masked_length [OF a] masked_length [OF b] by simp
    have j': "j < length (masked key i f t a m)" using j masked_length [OF a] by simp
    have fr: "f + a + (j - (t + a)) < length m" if "t + a \<le> j" "j < t + (a + b)"
      using that assms by (auto simp: may_mask_def)
    have nov: "\<not> (t \<le> f + a + (j - (t + a)) \<and> f + a + (j - (t + a)) < t + a)" if "t + a \<le> j" "j < t + (a + b)"
      using that assms by (auto simp: may_mask_def)
    show "masked key (i + a) (f + a) (t + a) b (masked key i f t a m) ! j = masked key i f t (a + b) m ! j"
      using fr nov
      by (auto simp: masked_nth [OF b j'] masked_nth [OF a j] masked_nth [OF a] masked_nth [OF assms j])
  qed (use masked_length [OF a] masked_length [OF b] masked_length [OF assms] in simp)
qed

lemma masked_mod: "i mod 4 = i' mod 4 \<Longrightarrow> masked key i f t n m = masked key i' f t n m"
  using xor_key_mod [of i i'] by (simp add: masked_def)

lemma masked_in_place:
  "length a = t \<Longrightarrow> length b = n \<Longrightarrow> masked key i t t n (a @ b @ c) = a @ xor_key key i b @ c"
  by (simp add: masked_def)

lemma masked_0 [simp]: "masked key i f t 0 m = m"
  by (simp add: masked_def xor_key_def)

lemma unat_and_3: "unat ((i :: u64) AND 3) = unat i mod 4"
  using unat_and_low_bits [of i 2] by (simp add: mask_eq_exp_minus_1)

lemma and_7_eq_0: "(i :: u64) AND 7 = 0 \<Longrightarrow> unat i mod 4 = 0"
proof -
  assume "i AND 7 = 0"
  then have "unat i mod 8 = 0" using unat_and_low_bits [of i 3] by (simp add: mask_eq_exp_minus_1)
  then show ?thesis by presburger
qed

lemma unat_add_mod4: "unat ((i :: u64) + of_nat c) mod 4 = (unat i + c) mod 4"
proof -
  have "unat (i + of_nat c) = (unat i + c) mod 2 ^ 64"
    by (simp add: unat_word_ariths(1) unsigned_of_nat take_bit_eq_mod mod_simps)
  also have "\<dots> mod 4 = (unat i + c) mod 4" by (rule mod_mod_cancel) simp
  finally show ?thesis .
qed

lemma mask_byte_step:
  assumes "may_mask f t (Suc n) m" and "length key = 4"
  shows "mask_bytes align key f t (Suc n) index m =
    (if align \<and> index AND 7 = 0 then Done (Suc n, index, m)
     else mask_bytes align key (Suc f) (Suc t) n (index + 1) (masked key (unat index) f t 1 m))"
proof -
  have "take 1 (drop f m) = [m ! f]" using assms(1) by (simp add: may_mask_def take_Suc_conv_app_nth)
  moreover from this have "masked key (unat index) f t 1 m = take t m @ [m ! f XOR key ! (unat index mod 4)] @ drop (t + 1) m"
    by (simp add: masked_def xor_key_def)
  moreover have "take 1 (drop (unat index mod 4) key) = [key ! (unat index mod 4)]"
    using assms(2) by (simp add: take_Suc_conv_app_nth)
  ultimately show ?thesis using assms by (simp add: may_mask_def unat_and_3 Suc_le_eq)
qed

lemma mask_bytes_spec:
  assumes "may_mask f t n m" and "length key = 4"
  shows "\<exists>c\<le>n. mask_bytes align key f t n index m =
      Done (n - c, index + of_nat c, masked key (unat index) f t c m) \<and>
    (c = n \<or> align \<and> (index + of_nat c) AND 7 = 0)"
  using assms
proof (induction n arbitrary: f t index m)
  case (Suc n)
  show ?case
  proof (cases "align \<and> index AND 7 = 0")
    case True
    then show ?thesis using mask_byte_step [OF Suc.prems] by (intro exI [of _ 0]) simp
  next
    case False
    have may: "may_mask f t (1 + n) m" using Suc.prems by simp
    let ?m = "masked key (unat index) f t 1 m"
    from Suc.IH [of "f + 1" "t + 1" ?m "index + 1"] masked_add(3) [OF may] Suc.prems(2) obtain c where
      c: "c \<le> n" "mask_bytes align key (f + 1) (t + 1) n (index + 1) ?m =
        Done (n - c, index + 1 + of_nat c, masked key (unat (index + 1)) (f + 1) (t + 1) c ?m)"
      "c = n \<or> align \<and> (index + 1 + of_nat c) AND 7 = 0" by auto
    have may': "may_mask f t (1 + c) m" using may c(1) by (auto simp: may_mask_def)
    have "masked key (unat (index + 1)) (f + 1) (t + 1) c ?m = masked key (unat index + 1) (f + 1) (t + 1) c ?m"
      using unat_add_mod4 [of index 1] by (intro masked_mod) simp
    also have "\<dots> = masked key (unat index) f t (1 + c) m" by (rule masked_add(1) [OF may'])
    finally show ?thesis using c False mask_byte_step [OF Suc.prems, of align index]
      by (intro exI [of _ "Suc c"]) (auto simp: add.assoc)
  qed
qed simp

lemma bit_key_u64:
  assumes "length key = 4" and "masking_key_u64 key = Done w"
  shows "bit w n \<longleftrightarrow> n < 64 \<and> bit (key ! (n div 8 mod 4)) (n mod 8)"
proof -
  have w: "w = push_bit 32 (ucast (load_le key :: u32)) OR ucast (load_le key :: u32)"
    using assms by (simp add: masking_key_u64_def Let_def)
  show ?thesis
  proof (cases "n < 32")
    case True
    then have "n div 8 < 4" by auto
    with True assms(1) show ?thesis by (auto simp: w bit_simps byte_simps)
  next
    case False
    then obtain k where k: "n = 32 + k" using le_Suc_ex [of 32 n] by auto
    have "n div 8 mod 4 = k div 8 mod 4" "n mod 8 = k mod 8"
      using div_mult_self2 [of 8 k 4] mod_mult_self2 [of k 8 4] by (simp_all add: k add.commute)
    with assms(1) show ?thesis by (auto simp: w k bit_simps byte_simps)
  qed
qed

lemma xor_u64:
  assumes "length key = 4" and "masking_key_u64 key = Done w" and "length bs = 8" and "i mod 4 = 0"
  shows "store_le 8 (load_le bs XOR w) = xor_key key i bs"
proof (rule byte_list_eqI)
  fix a b assume "a < length (store_le 8 (load_le bs XOR w))" and b: "b < (8 :: nat)"
  then have a: "a < 8" by simp
  have "(i + a) mod 4 = a mod 4" using assms(4) by (metis add_0 mod_add_left_eq)
  with a b assms(3) bit_key_u64 [OF assms(1,2), of "8 * a + b"]
  show "bit (store_le 8 (load_le bs XOR w) ! a) b = bit (xor_key key i bs ! a) b"
    by (simp add: byte_simps bit_xor_iff)
qed (use assms(3) in simp)

lemma mask_words_spec:
  assumes "may_mask f t (8 * q) m" and "length key = 4" and "masking_key_u64 key = Done w" and "i mod 4 = 0"
  shows "mask_words w f t q m = Done (masked key i f t (8 * q) m)"
  using assms(1)
proof (induction q arbitrary: f t m)
  case (Suc q)
  have may: "may_mask f t (8 + 8 * q) m" using Suc.prems by simp
  let ?m = "masked key i f t 8 m"
  have "store_le 8 (load_le (take 8 (drop f m)) XOR w) = xor_key key i (take 8 (drop f m))"
    using may by (intro xor_u64 assms) (auto simp: may_mask_def)
  moreover have "masked key i (f + 8) (t + 8) (8 * q) ?m = masked key (i + 8) (f + 8) (t + 8) (8 * q) ?m"
    by (rule masked_mod) (metis add.commute assms(4) mod_add_self2 mod_mod_trivial mod_add_left_eq mult_2 numeral_Bit0)
  ultimately show ?case using Suc.IH [OF masked_add(3) [OF may]] masked_add(1) [OF may] may
    by (simp add: may_mask_def masked_def [of _ _ _ _ 8])
qed simp

lemma mask1_is_mask2: "cat_websocket_mask1 p len key index m = cat_websocket_mask2 p p len key index m"
  by (simp add: cat_websocket_mask1_def cat_websocket_mask2_def)

lemma masked_add_mod:
  assumes "may_mask f t (a + b) m" and "j mod 4 = (i + a) mod 4"
  shows "masked key j (f + a) (t + a) b (masked key i f t a m) = masked key i f t (a + b) m"
  using masked_add(1) [OF assms(1)] masked_mod [OF assms(2)] by simp

text \<open>The fast path: the head loop, the words, and what is left for the tail loop.\<close>

lemma mask_fast_path:
  assumes may: "may_mask f t n m" and key: "length key = 4" "masking_key_u64 key = Done w"
    and head: "mask_bytes True key f t n index m = Done (rest, index', m')"
  shows "\<exists>c\<le>n. mask_words w (f + (n - rest)) (t + (n - rest)) ((rest - rest mod 8) div 8) m' =
      Done (masked key (unat index) f t c m) \<and>
    rest - (rest - rest mod 8) = n - c \<and> index' + of_nat (rest - rest mod 8) = index + of_nat c"
proof -
  from mask_bytes_spec [OF may key(1), of True index] head obtain c where
    c: "c \<le> n" "rest = n - c" "index' = index + of_nat c" "m' = masked key (unat index) f t c m"
    "c = n \<or> index' AND 7 = 0" by auto
  define q where "q = rest div 8"
  have q: "rest - rest mod 8 = 8 * q" "c + 8 * q \<le> n" using c(1,2) by (simp_all add: q_def minus_mod_eq_mult_div) 
  have may1: "may_mask f t (c + 8 * q) m" using may q(2) by (auto simp: may_mask_def)
  have "mask_words w (f + c) (t + c) q m' = Done (masked key (unat index) f t (c + 8 * q) m)"
  proof (cases "c = n")
    case True
    then show ?thesis using c by (simp add: q_def)
  next
    case False
    then have i: "unat index' mod 4 = 0" using c(5) and_7_eq_0 by blast
    have "mask_words w (f + c) (t + c) q m' = Done (masked key (unat index') (f + c) (t + c) (8 * q) m')"
      using masked_add(3) [OF may1] key i unfolding c(4) by (intro mask_words_spec) auto
    also have "masked key (unat index') (f + c) (t + c) (8 * q) m' = masked key (unat index) f t (c + 8 * q) m"
      unfolding c(4) by (rule masked_add_mod [OF may1]) (simp add: c(3) unat_add_mod4)
    finally show ?thesis .
  qed
  then show ?thesis using c q by (intro exI [of _ "c + 8 * q"]) (auto simp: add.assoc)
qed

lemma mask2_spec:
  assumes may: "may_mask f t n m" and key: "length key = 4"
  shows "cat_websocket_mask2 f t n key index m = Done (masked key (unat index) f t n m)"
proof -
  obtain w where w: "masking_key_u64 key = Done w" using key by (simp add: masking_key_u64_def Let_def)
  have tail: "c_bind (mask_bytes False key (f + c) (t + c) (n - c) (index + of_nat c) (masked key (unat index) f t c m))
      (\<lambda>(_, _, m). Done m) = Done (masked key (unat index) f t n m)" if "c \<le> n" for c
  proof -
    have may1: "may_mask f t (c + (n - c)) m" using may that by simp
    from mask_bytes_spec [OF masked_add(3) [OF may1] key, of False "index + of_nat c"]
      masked_add_mod [OF may1 unat_add_mod4] that show ?thesis by auto
  qed
  show ?thesis
  proof (cases "8 \<le> n")
    case False
    then show ?thesis using tail [of 0] by (simp add: cat_websocket_mask2_def)
  next
    case True
    from mask_bytes_spec [OF may key, of True index] obtain rest index' m' where
      head: "mask_bytes True key f t n index m = Done (rest, index', m')" by blast
    from mask_fast_path [OF may key w head] obtain c where
      c: "c \<le> n" "mask_words w (f + (n - rest)) (t + (n - rest)) ((rest - rest mod 8) div 8) m' =
        Done (masked key (unat index) f t c m)"
      "rest - (rest - rest mod 8) = n - c" "index' + of_nat (rest - rest mod 8) = index + of_nat c" by blast
    have nc: "n - (n - c) = c" using c(1) by simp
    show ?thesis unfolding cat_websocket_mask2_def Let_def
      by (simp only: True if_True c_bind.simps prod.case head w c(2-4) nc tail [OF c(1)])
  qed
qed

definition key_bytes :: "byte list option \<Rightarrow> byte list" where
  "key_bytes masking_key = (case masking_key of None \<Rightarrow> [0, 0, 0, 0] | Some key \<Rightarrow> key)"

lemma mask_ex_spec:
  assumes may: "may_mask f t n m" and key: "length (key_bytes masking_key) = 4"
  shows "cat_websocket_mask_ex f t n masking_key index m =
    Done (masked (key_bytes masking_key) (unat index) f t n m)"
proof (cases "key_bytes masking_key = [0, 0, 0, 0]")
  case True
  have copy: "masked (key_bytes masking_key) (unat index) f t n m = take t m @ take n (drop f m) @ drop (t + n) m"
    by (simp add: masked_def True xor_key_zero)
  have "cat_websocket_mask_ex f t n masking_key index m =
      (if f = t then Done m else c_bind (mem_read m f n) (mem_write m t))"
    using True by (cases masking_key) (auto simp: key_bytes_def cat_websocket_mask_ex_def)
  moreover have "m = take t m @ take n (drop t m) @ drop (t + n) m"
    by (metis append_take_drop_id drop_drop add.commute)
  moreover have "min (length m - f) n = n" using may by (auto simp: may_mask_def)
  ultimately show ?thesis using may unfolding copy by (auto simp: may_mask_def)
next
  case False
  then obtain k where k: "masking_key = Some k" "k \<noteq> [0, 0, 0, 0]" by (cases masking_key) (auto simp: key_bytes_def)
  with key mask2_spec [OF may, of k index] show ?thesis
    by (auto simp: key_bytes_def cat_websocket_mask_ex_def mask1_is_mask2)
qed

subsection \<open>Correctness of the websocket codec\<close>

text \<open>The header of a frame as RFC 6455 has it: a byte with the opcode and the flags; a byte whose highest bit says whether there is a masking
  key and whose other bits are the length, or 126 or 127 in front of the length as 2 or 8 bytes in network order; the key.\<close>

definition network_order :: "nat \<Rightarrow> nat \<Rightarrow> byte list" where
  "network_order n v = map (\<lambda>i. of_nat (v div 256 ^ (n - 1 - i))) [0..<n]"

definition rfc6455_header :: "byte \<Rightarrow> nat \<Rightarrow> byte list option \<Rightarrow> byte list" where
  "rfc6455_header first v masking_key =
     (let masked = (case masking_key of None \<Rightarrow> 0 | Some _ \<Rightarrow> 128);
          lengths = (if v \<le> 125 then [of_nat (masked + v)]
            else if v < 2 ^ 16 then of_nat (masked + 126) # network_order 2 v else of_nat (masked + 127) # network_order 8 v)
      in [first] @ lengths @ (case masking_key of None \<Rightarrow> [] | Some key \<Rightarrow> key))"

lemma store_network_order: "rev (store_le n (w :: 'a::len word)) = network_order n (unat w)"
proof (rule nth_equalityI)
  fix i assume "i < length (rev (store_le n w))"
  then have i: "i < n" by simp
  have "256 ^ (n - 1 - i) = (2 :: nat) ^ (8 * (n - 1 - i))" by (simp add: power_mult)
  then have "(ucast (drop_bit (8 * (n - 1 - i)) w) :: byte) = of_nat (unat w div 256 ^ (n - 1 - i))"
    by (simp only: word_unat_eq_iff unsigned_ucast_eq unat_drop_bit unsigned_of_nat of_nat_id)
  then show "rev (store_le n w) ! i = network_order n (unat w) ! i" using i by (simp add: rev_nth store_le_def network_order_def)
qed (simp add: network_order_def)

lemma second_byte: "h ! 1 = of_nat ((if hdr_mask h then 128 else 0) + unat (hdr_payload_length h))"
proof -
  have "h ! 1 = (h ! 1 AND 0x80) OR (h ! 1 AND 0x7F)" by (rule bit_word_eqI) (auto simp: bit_simps bit_0x7F bit_0x80 simp del: bit_numeral_word_iff)
  also have "h ! 1 AND 0x80 = (if hdr_mask h then 0x80 else 0)"
    by (rule bit_word_eqI) (auto simp: hdr_mask_def bit_simps bit_0x80 simp del: bit_numeral_word_iff)
  also have "(if hdr_mask h then 0x80 else 0) OR (h ! 1 AND 0x7F) = (if hdr_mask h then 0x80 else 0) + (h ! 1 AND 0x7F)"
    by (rule disjunctive_add [symmetric]) (auto simp: bit_simps bit_0x7F bit_0x80 simp del: bit_numeral_word_iff)
  finally show ?thesis by (cases "hdr_mask h") (simp_all add: hdr_payload_length_def)
qed

lemma wire_is_rfc6455:
  assumes "length h = 14" and w: "wire_length h v" and m: "hdr_mask h = (masking_key \<noteq> None)"
    and key: "\<forall>k. masking_key = Some k \<longrightarrow> key_at h (cat_websocket_calculate_masking_key_offset v) = k"
  shows "take (unat (cat_websocket_calculate_header_size v (masking_key \<noteq> None))) h = rfc6455_header (h ! 0) (unat v) masking_key"
proof -
  let ?off = "unat (cat_websocket_calculate_masking_key_offset v)"
  have off: "?off \<in> {2, 4, 10}" by (rule unat_key_offset)
  have two: "h = [h ! 0, h ! 1] @ drop 2 h" using assms(1) by (simp add: Cons_nth_drop_Suc numeral_2_eq_2)
  have size: "unat (cat_websocket_calculate_header_size v (masking_key \<noteq> None)) = ?off + (if masking_key = None then 0 else 4)"
    using key_offset_values [of v] by (auto simp: cat_websocket_calculate_header_size_def Let_def)
  have "take (?off + (if masking_key = None then 0 else 4)) h = take ?off h @ (case masking_key of None \<Rightarrow> [] | Some k \<Rightarrow> k)"
    using key by (cases masking_key) (simp_all add: take_add key_at_def)
  moreover have "take ?off h = [h ! 0, h ! 1] @ take (?off - 2) (drop 2 h)" using off by (subst two) auto
  moreover have "h ! 1 = of_nat ((case masking_key of None \<Rightarrow> 0 | Some _ \<Rightarrow> 128) + unat (hdr_payload_length h))"
    using second_byte [of h] m by (cases masking_key) simp_all
  ultimately have bytes: "take (unat (cat_websocket_calculate_header_size v (masking_key \<noteq> None))) h =
      [h ! 0, of_nat ((case masking_key of None \<Rightarrow> 0 | Some _ \<Rightarrow> 128) + unat (hdr_payload_length h))] @ take (?off - 2) (drop 2 h) @
      (case masking_key of None \<Rightarrow> [] | Some k \<Rightarrow> k)" unfolding size by simp
  consider (s) "v \<le> 125" | (m) "\<not> v \<le> 125" "v \<le> 65535" | (l) "\<not> v \<le> 125" "\<not> v \<le> 65535" by blast
  then show ?thesis unfolding bytes
  proof cases
    case s
    then have "unat v \<le> 125" by (simp add: word_le_nat_alt)
    then show "[h ! 0, of_nat ((case masking_key of None \<Rightarrow> 0 | Some _ \<Rightarrow> 128) + unat (hdr_payload_length h))] @ take (?off - 2) (drop 2 h) @
        (case masking_key of None \<Rightarrow> [] | Some k \<Rightarrow> k) = rfc6455_header (h ! 0) (unat v) masking_key"
      using w s ucast_small_length [OF s]
      by (simp add: rfc6455_header_def wire_length_def cat_websocket_calculate_masking_key_offset_def Let_def)
  next
    case m
    then have "\<not> unat v \<le> 125" "unat v < 2 ^ 16" by (auto simp: word_le_nat_alt)
    moreover have "unat (ucast v :: u16) = unat v" using m(2) by (simp add: word_le_nat_alt unsigned_ucast_eq take_bit_nat_eq_self)
    ultimately show "[h ! 0, of_nat ((case masking_key of None \<Rightarrow> 0 | Some _ \<Rightarrow> 128) + unat (hdr_payload_length h))] @ take (?off - 2) (drop 2 h) @
        (case masking_key of None \<Rightarrow> [] | Some k \<Rightarrow> k) = rfc6455_header (h ! 0) (unat v) masking_key"
      using w m store_network_order [of 2 "ucast v :: u16"]
      by (simp add: rfc6455_header_def wire_length_def cat_websocket_calculate_masking_key_offset_def Let_def)
  next
    case l
    then have "\<not> unat v \<le> 125" "\<not> unat v < 2 ^ 16" by (auto simp: word_le_nat_alt)
    then show "[h ! 0, of_nat ((case masking_key of None \<Rightarrow> 0 | Some _ \<Rightarrow> 128) + unat (hdr_payload_length h))] @ take (?off - 2) (drop 2 h) @
        (case masking_key of None \<Rightarrow> [] | Some k \<Rightarrow> k) = rfc6455_header (h ! 0) (unat v) masking_key"
      using w l store_network_order [of 8 v]
      by (simp add: rfc6455_header_def wire_length_def cat_websocket_calculate_masking_key_offset_def Let_def)
  qed
qed

text \<open>C32: the header that \<^verbatim>\<open>cat_websocket_header_set_payload_info\<close> builds for any 64-bit length and any
  masking key (or none) is, up to its computed size, byte by byte the one of RFC 6455, with the length in network order and the key
  behind it, and the byte with the opcode and the flags is untouched. It reads back: a receiver that has these bytes,
  whatever follows them, gets the length, the key and the header size that were put in.\<close>

theorem websocket_header_round_trip:
  assumes "length h = 14" and "masking_key = None \<or> length (key_bytes masking_key) = 4"
  shows "\<exists>h'. cat_websocket_header_set_payload_info h v masking_key = Done h' \<and>
    (let n = cat_websocket_calculate_header_size v (masking_key \<noteq> None) in
     n \<le> 14 \<and> take (unat n) h' = rfc6455_header (h ! 0) (unat v) masking_key \<and>
     (\<forall>g. length g = 14 \<and> take (unat n) g = rfc6455_header (h ! 0) (unat v) masking_key \<longrightarrow>
        cat_websocket_header_get_payload_length g = Done v \<and>
        cat_websocket_header_get_masking_key g = Done masking_key \<and>
        cat_websocket_header_get_size g = Done (ucast n)))"
proof -
  have k: "\<forall>k. masking_key = Some k \<longrightarrow> length k = 4" using assms(2) by (auto simp: key_bytes_def)
  from set_payload_info_spec [OF assms(1) k, of v] obtain h' where h':
    "cat_websocket_header_set_payload_info h v masking_key = Done h'" "length h' = 14" "h' ! 0 = h ! 0"
    "wire_length h' v" "hdr_mask h' = (masking_key \<noteq> None)"
    "\<forall>k. masking_key = Some k \<longrightarrow> key_at h' (cat_websocket_calculate_masking_key_offset v) = k" by blast
  have n: "cat_websocket_calculate_header_size v (masking_key \<noteq> None) \<le> 14"
    by (simp add: cat_websocket_calculate_header_size_def cat_websocket_calculate_masking_key_offset_def Let_def)
  have rfc: "take (unat (cat_websocket_calculate_header_size v (masking_key \<noteq> None))) h' = rfc6455_header (h ! 0) (unat v) masking_key"
    using wire_is_rfc6455 [OF h'(2,4,5,6)] h'(3) by simp
  have "cat_websocket_header_get_payload_length g = Done v \<and>
        cat_websocket_header_get_masking_key g = Done masking_key \<and>
        cat_websocket_header_get_size g = Done (ucast (cat_websocket_calculate_header_size v (masking_key \<noteq> None)))"
    if g: "length g = 14" "take (unat (cat_websocket_calculate_header_size v (masking_key \<noteq> None))) g =
      take (unat (cat_websocket_calculate_header_size v (masking_key \<noteq> None))) h'" for g
    by (rule wire_read [OF g(1) wire_prefix [OF h'(2) g(1) refl g(2) h'(4-6)]])
  then show ?thesis using h'(1) n rfc unfolding Let_def by (intro exI [of _ h']) simp
qed

theorem websocket_header_round_trip_witness:
  "\<exists>h'. cat_websocket_header_set_payload_info (0x82 # replicate 13 0) 70000 (Some [1, 2, 3, 4]) = Done h' \<and>
     take 14 h' = [0x82, 0xFF, 0, 0, 0, 0, 0, 1, 0x11, 0x70, 1, 2, 3, 4]"
proof -
  have n: "cat_websocket_calculate_header_size 70000 True = 14"
    by (simp add: cat_websocket_calculate_header_size_def cat_websocket_calculate_masking_key_offset_def)
  have "rfc6455_header 0x82 70000 (Some [1, 2, 3, 4]) = [0x82, 0xFF, 0, 0, 0, 0, 0, 1, 0x11, 0x70, 1, 2, 3, 4]"
    by (simp add: rfc6455_header_def network_order_def upt_rec)
  then show ?thesis using websocket_header_round_trip [of "0x82 # replicate 13 0" "Some [1, 2, 3, 4]" 70000]
    by (auto simp: key_bytes_def n Let_def)
qed

text \<open>Changing the payload length of a masked header keeps its masking key, wherever the new
  length moves it, and the other fields, and the new length reads back.\<close>

theorem websocket_set_payload_length_keeps_key:
  assumes "length h = 14"
  shows "\<exists>h'. cat_websocket_header_set_payload_length h v = Done h' \<and> length h' = 14 \<and> h' ! 0 = h ! 0 \<and>
    cat_websocket_header_get_payload_length h' = Done v \<and>
    cat_websocket_header_get_masking_key h' = cat_websocket_header_get_masking_key h"
proof -
  obtain off where off: "cat_websocket_header_get_masking_key_offset h = Done off" "unat off \<in> {2, 4, 10}"
    by (simp add: masking_key_offset_cases)
  from set_payload_length_spec [OF assms off(1), of v] obtain h' where h':
    "cat_websocket_header_set_payload_length h v = Done h'" "length h' = 14" "wire_length h' v"
    "hdr_mask h' = hdr_mask h" "h' ! 0 = h ! 0"
    "hdr_mask h \<longrightarrow> key_at h' (cat_websocket_calculate_masking_key_offset v) = key_at h off" by blast
  have "mem_read h (unat off) 4 = Done (key_at h off)" using off(2) assms by (auto simp: key_at_def)
  then have "cat_websocket_header_get_masking_key h = Done (if hdr_mask h then Some (key_at h off) else None)"
    using off(1) by (simp add: cat_websocket_header_get_masking_key_def)
  with h' wire_read [of h' v "if hdr_mask h then Some (key_at h off) else None"] show ?thesis by auto
qed

theorem websocket_set_payload_length_keeps_key_witness:
  "let h = [0x82, 0x83, 9, 8, 7, 6, 0, 0, 0, 0, 0, 0, 0, 0] in
   \<exists>h'. cat_websocket_header_set_payload_length h 300 = Done h' \<and>
     cat_websocket_header_get_payload_length h' = Done 300 \<and>
     cat_websocket_header_get_masking_key h' = Done (Some [9, 8, 7, 6])"
  using websocket_set_payload_length_keeps_key [of "[0x82, 0x83, 9, 8, 7, 6, 0, 0, 0, 0, 0, 0, 0, 0]" 300]
  by (auto simp: cat_websocket_header_get_masking_key_def [of "_ # _"] hdr_mask_def
      masking_key_offset_cases hdr_payload_length_def)

text \<open>C33: masking \<open>n\<close> bytes from one place of memory to another, in place or to a destination that
  does not run over unread source bytes, writes exactly the octet-wise exclusive or with the key
  that RFC 6455 prescribes, starting at the given payload index, and nothing outside the
  destination; the eight-byte fast path and the copy for an empty key give the same result. No
  access leaves the memory.\<close>

theorem websocket_mask_correct:
  assumes "may_mask f t n m" and "length (key_bytes masking_key) = 4"
  shows "\<exists>m'. cat_websocket_mask_ex f t n masking_key index m = Done m' \<and> length m' = length m \<and>
    (\<forall>j < length m. m' ! j =
       (if t \<le> j \<and> j < t + n
        then m ! (f + (j - t)) XOR key_bytes masking_key ! ((unat index + (j - t)) mod 4) else m ! j))"
  using mask_ex_spec [OF assms] masked_nth [OF assms(1)] masked_length [OF assms(1)] by simp

theorem websocket_mask_correct_witness:
  "\<exists>m'. cat_websocket_mask_ex 0 2 2 (Some [1, 2, 3, 4]) 1 [16, 32, 0, 0] = Done m' \<and> m' ! 2 = 18 \<and> m' ! 3 = 35"
  using websocket_mask_correct [of 0 2 2 "[16, 32, 0, 0]" "Some [1, 2, 3, 4]" 1]
  by (auto simp: may_mask_def key_bytes_def dest: spec [where x = 2] spec [where x = 3])

text \<open>Unmasking undoes masking: after a payload is masked into a buffer and unmasked there with the
  same key and index, the buffer holds the payload.\<close>

theorem websocket_unmask_mask:
  assumes may: "may_mask f t n m" and key: "length (key_bytes masking_key) = 4"
  shows "\<exists>m1 m2. cat_websocket_mask_ex f t n masking_key index m = Done m1 \<and>
    cat_websocket_unmask_ex t n masking_key index m1 = Done m2 \<and> take n (drop t m2) = take n (drop f m)"
proof -
  let ?k = "key_bytes masking_key"
  let ?m1 = "masked ?k (unat index) f t n m"
  have l: "length ?m1 = length m" by (rule masked_length [OF may])
  then have may1: "may_mask t t n ?m1" using may by (auto simp: may_mask_def)
  have len: "length (take t m) = t" "length (take n (drop f m)) = n" using may by (auto simp: may_mask_def)
  have "masked ?k (unat index) t t n ?m1 = take t m @ take n (drop f m) @ drop (t + n) m"
    unfolding masked_def [of _ _ f t] by (subst masked_in_place) (simp_all only: len length_xor_key xor_key_twice)
  moreover have "take n (drop t (take t m @ take n (drop f m) @ drop (t + n) m)) = take n (drop f m)"
    using len by simp
  ultimately show ?thesis using mask_ex_spec [OF may key, of index] mask_ex_spec [OF may1 key, of index]
    by (simp add: cat_websocket_unmask_ex_def)
qed

theorem websocket_unmask_mask_witness:
  "\<exists>m1 m2. cat_websocket_mask_ex 0 2 2 (Some [1, 2, 3, 4]) 1 [16, 32, 0, 0] = Done m1 \<and>
    cat_websocket_unmask_ex 2 2 (Some [1, 2, 3, 4]) 1 m1 = Done m2 \<and> take 2 (drop 2 m2) = [16, 32]"
  using websocket_unmask_mask [of 0 2 2 "[16, 32, 0, 0]" "Some [1, 2, 3, 4]" 1]
  by (simp add: may_mask_def key_bytes_def)

text \<open>Masking a payload in two chunks, the second with the index advanced by the length of the
  first, gives the same memory as masking it at once, whatever the alignment of the split.\<close>

theorem websocket_mask_chunks:
  assumes may: "may_mask f t (a + b) m" and key: "length (key_bytes masking_key) = 4"
  shows "c_bind (cat_websocket_mask_ex f t a masking_key index m)
      (cat_websocket_mask_ex (f + a) (t + a) b masking_key (index + of_nat a)) =
    cat_websocket_mask_ex f t (a + b) masking_key index m"
  using mask_ex_spec [OF masked_add(2) [OF may] key] mask_ex_spec [OF masked_add(3) [OF may] key]
    mask_ex_spec [OF may key] masked_add_mod [OF may unat_add_mod4]
  by simp

theorem websocket_mask_chunks_witness:
  "c_bind (cat_websocket_mask_ex 0 0 3 (Some [1, 2, 3, 4]) 0 (replicate 20 7))
      (cat_websocket_mask_ex 3 3 17 (Some [1, 2, 3, 4]) 3) =
    cat_websocket_mask_ex 0 0 20 (Some [1, 2, 3, 4]) 0 (replicate 20 7)"
  using websocket_mask_chunks [of 0 0 3 17 "replicate 20 7" "Some [1, 2, 3, 4]" 0]
  by (simp add: may_mask_def key_bytes_def)

end
