(* ===== verification/Cat_Coroutine.thy ===== *)
theory Cat_Coroutine
  imports Cat_Memory Cat_Queue
begin

unbundle bit_operations_syntax

text \<open>
  Coroutines and their switching, \<^verbatim>\<open>src/cat_coroutine.c\<close>. The state is the record of the module's
  globals extended by a store of coroutine objects (address to record, with the list of the
  addresses that hold an object), the heap of queue links of the waiters, and, for each coroutine,
  where its C stack is suspended: \<open>Fresh\<close> before it first runs, \<open>In_Jump r\<close> inside
  \<^verbatim>\<open>cat_coroutine_jump_standard\<close>, called with a non-null \<^verbatim>\<open>retval\<close> iff \<open>r\<close>. A machine context switch
  itself (assembly, \<^verbatim>\<open>ucontext\<close>) only continues the target where it was suspended.

  A switching function is modelled by the state in which the target runs, after it has executed the
  rest of the code it was suspended in: the second half of \<^verbatim>\<open>cat_coroutine_jump_standard\<close> or the start
  of \<^verbatim>\<open>cat_coroutine_context_function\<close>. The call returns to its own caller by the same rule when
  something switches back. \<open>Undefined\<close> stands for a failed \<^verbatim>\<open>CAT_ASSERT\<close> and for the use of an object
  that does not exist.

  The chain of a state is the list of coroutines linked by \<open>previous\<close>, ending in the current one.
  The lemmas show that resuming and yielding keep the links, states and objects consistent and act
  on the chain as the comments in the source draw it.
\<close>

datatype cat_coroutine_state_t = STATE_NONE | STATE_WAITING | STATE_RUNNING | STATE_DEAD

datatype co_frame = Fresh | In_Jump bool

type_synonym cat_data_t = "nat option"

record cat_coroutine_t =
  co_id :: u64
  co_start_time :: cat_msec_t
  co_end_time :: cat_msec_t
  co_flags :: u32
  co_state :: cat_coroutine_state_t
  co_switches :: u64
  co_from :: "addr option"
  co_previous :: "addr option"
  co_next :: "addr option"
  co_stack_size :: u32

record cat_coroutine_globals =
  g_default_stack_size :: u32
  g_current :: addr
  g_main :: addr
  g_scheduler :: "addr option"
  g_waiters :: addr
  g_waiter_count :: u32
  g_switch_denied :: bool
  g_deadlocked :: bool
  g_last_id :: u64
  g_count :: u32
  g_peak_count :: u32
  g_switches :: u64

record co_world = cat_coroutine_globals +
  objs :: "addr list"
  heap :: "addr \<Rightarrow> cat_coroutine_t"
  frames :: "addr \<Rightarrow> co_frame"
  links :: qheap

type_synonym co_result = "((cat_errno + cat_data_t) \<times> co_world) c_run"

definition upd :: "addr \<Rightarrow> (cat_coroutine_t \<Rightarrow> cat_coroutine_t) \<Rightarrow> co_world \<Rightarrow> co_world" where
  "upd a f w = w\<lparr>heap := (heap w)(a := f (heap w a))\<rparr>"

abbreviation FLAG_SCHEDULING :: u32 where "FLAG_SCHEDULING \<equiv> 0x100"
abbreviation FLAG_ACCEPT_DATA :: u32 where "FLAG_ACCEPT_DATA \<equiv> 0x200"
abbreviation FLAG_ALLOCATED :: u32 where "FLAG_ALLOCATED \<equiv> 1"

definition CAT_COROUTINE_SCHEDULER_ID :: u64 where "CAT_COROUTINE_SCHEDULER_ID = 0"
definition CAT_COROUTINE_MAIN_ID :: u64 where "CAT_COROUTINE_MAIN_ID = 1"

subsection \<open>Options and status\<close>

definition cat_coroutine_align_stack_size :: "size_t \<Rightarrow> u32 \<Rightarrow> size_t \<Rightarrow> u32" where
  "cat_coroutine_align_stack_size pagesize default_size sz =
     ucast (if sz = 0 then ucast default_size
            else if sz < 131072 then 131072
            else if 16777216 < sz then 16777216
            else CAT_MEMORY_ALIGNED_SIZE_EX sz pagesize)"

definition cat_coroutine_set_default_stack_size :: "size_t \<Rightarrow> size_t \<Rightarrow> co_world \<Rightarrow> u32 \<times> co_world" where
  "cat_coroutine_set_default_stack_size pagesize sz w =
     (g_default_stack_size w,
      w\<lparr>g_default_stack_size := cat_coroutine_align_stack_size pagesize (g_default_stack_size w) sz\<rparr>)"

definition cat_coroutine_switch_deny :: "co_world \<Rightarrow> co_world" where
  "cat_coroutine_switch_deny w = w\<lparr>g_switch_denied := True\<rparr>"

definition cat_coroutine_switch_allow :: "co_world \<Rightarrow> co_world" where
  "cat_coroutine_switch_allow w = w\<lparr>g_switch_denied := False\<rparr>"

definition cat_coroutine_get_real_count :: "co_world \<Rightarrow> u32" where
  "cat_coroutine_get_real_count w = (if g_scheduler w \<noteq> None then g_count w + 1 else g_count w)"

definition cat_coroutine_is_available :: "cat_coroutine_t \<Rightarrow> bool" where
  "cat_coroutine_is_available c \<longleftrightarrow> co_state c = STATE_WAITING \<or> co_state c = STATE_RUNNING"

definition cat_coroutine_is_alive :: "cat_coroutine_t \<Rightarrow> bool" where
  "cat_coroutine_is_alive c \<longleftrightarrow> co_end_time c = 0 \<and> 0 < co_start_time c"

definition cat_coroutine_is_over :: "cat_coroutine_t \<Rightarrow> bool" where
  "cat_coroutine_is_over c \<longleftrightarrow> co_state c = STATE_DEAD"

definition cat_coroutine_get_elapsed :: "cat_msec_t \<Rightarrow> cat_coroutine_t \<Rightarrow> cat_msec_t" where
  "cat_coroutine_get_elapsed now c =
     (if co_start_time c = 0 then 0
      else if co_end_time c \<noteq> 0 then co_end_time c - co_start_time c
      else now - co_start_time c)"

definition cat_coroutine_set_flags :: "addr \<Rightarrow> u32 \<Rightarrow> co_world \<Rightarrow> co_world" where
  "cat_coroutine_set_flags a flags w = upd a (\<lambda>c. c\<lparr>co_flags := flags\<rparr>) w"

definition cat_coroutine_get_role_name :: "cat_coroutine_t \<Rightarrow> string option" where
  "cat_coroutine_get_role_name c =
     (if co_id c = CAT_COROUTINE_MAIN_ID then Some ''main''
      else if co_id c = CAT_COROUTINE_SCHEDULER_ID then Some ''scheduler'' else None)"

subsection \<open>Initialisation and creation\<close>

text \<open>\<open>m\<close> is the address of the embedded object \<^verbatim>\<open>_main\<close>, \<open>wq\<close> that of the queue of waiters.\<close>

definition main_coroutine :: "cat_msec_t \<Rightarrow> cat_coroutine_t" where
  "main_coroutine now =
     \<lparr>co_id = CAT_COROUTINE_MAIN_ID, co_start_time = now, co_end_time = 0, co_flags = 0,
      co_state = STATE_RUNNING, co_switches = 0, co_from = None, co_previous = None, co_next = None,
      co_stack_size = 0\<rparr>"

definition cat_coroutine_runtime_init ::
  "size_t \<Rightarrow> cat_msec_t \<Rightarrow> addr \<Rightarrow> addr \<Rightarrow> co_world \<Rightarrow> co_world" where
  "cat_coroutine_runtime_init pagesize now m wq w =
     (let w = snd (cat_coroutine_set_default_stack_size pagesize 262144 (w\<lparr>g_switch_denied := False\<rparr>));
          w = w\<lparr>g_last_id := 0, g_count := 0, g_peak_count := 0, g_switches := 0\<rparr>;
          w = w\<lparr>heap := (heap w)(m := main_coroutine now), objs := [m]\<rparr>;
          w = w\<lparr>g_main := m, g_current := m, g_last_id := CAT_COROUTINE_MAIN_ID + 1,
                g_count := g_count w + 1, g_peak_count := g_peak_count w + 1\<rparr>
      in w\<lparr>g_scheduler := None, g_waiters := wq, links := cat_queue_init wq (links w),
           g_waiter_count := 0\<rparr>)"

text \<open>\<open>c\<close> is the address of the object, \<open>own\<close> says that \<^verbatim>\<open>cat_coroutine_create_ex\<close> allocated it itself
  (it was called with \<^verbatim>\<open>NULL\<close>), \<open>mapped\<close> that the memory for the stack was granted.\<close>

definition cat_coroutine_create_ex ::
  "size_t \<Rightarrow> addr \<Rightarrow> bool \<Rightarrow> size_t \<Rightarrow> bool \<Rightarrow> co_world \<Rightarrow> (cat_errno + addr) \<times> co_world" where
  "cat_coroutine_create_ex pagesize c own sz mapped w =
     (let flags = (if own then FLAG_ALLOCATED else 0);
          sz = cat_coroutine_align_stack_size pagesize (g_default_stack_size w) sz
      in if \<not> mapped then (Inl CAT_ENOMEM, w)
         else (Inr c,
           w\<lparr>g_last_id := g_last_id w + 1,
             heap := (heap w)(c := \<lparr>co_id = g_last_id w, co_start_time = 0, co_end_time = 0,
               co_flags = flags OR FLAG_ACCEPT_DATA, co_state = STATE_WAITING, co_switches = 0,
               co_from = None, co_previous = None, co_next = None, co_stack_size = sz\<rparr>),
             frames := (frames w)(c := Fresh), objs := c # objs w\<rparr>))"

definition cat_coroutine_create :: "size_t \<Rightarrow> addr \<Rightarrow> bool \<Rightarrow> bool \<Rightarrow> co_world \<Rightarrow> (cat_errno + addr) \<times> co_world" where
  "cat_coroutine_create pagesize c own mapped w = cat_coroutine_create_ex pagesize c own 0 mapped w"

text \<open>After \<^verbatim>\<open>cat_coroutine_free\<close> the object is gone, whether it was allocated or the caller's.\<close>

definition cat_coroutine_free :: "addr \<Rightarrow> co_world \<Rightarrow> co_world c_run" where
  "cat_coroutine_free c w =
     c_assert (c \<in> set (objs w) \<and> \<not> cat_coroutine_is_alive (heap w c))
       (Done (w\<lparr>objs := remove1 c (objs w)\<rparr>))"

definition cat_coroutine_close :: "addr \<Rightarrow> co_world \<Rightarrow> ((cat_errno + unit) \<times> co_world) c_run" where
  "cat_coroutine_close c w =
     c_assert (c \<in> set (objs w))
       (if \<not> cat_coroutine_is_available (heap w c) then Done (Inl CAT_EBADF, w)
        else if cat_coroutine_is_alive (heap w c) then Done (Inl CAT_EBUSY, w)
        else c_bind (cat_coroutine_free c w) (\<lambda>w. Done (Inr (), w)))"

text \<open>Registering another object as main copies the old one into it.\<close>

definition cat_coroutine_register_main :: "addr \<Rightarrow> co_world \<Rightarrow> addr \<times> co_world" where
  "cat_coroutine_register_main c w =
     (let original_main = g_main w
      in if original_main \<noteq> c then
           let w = w\<lparr>heap := (heap w)(c := heap w original_main),
                     frames := (frames w)(c := frames w original_main), objs := c # objs w, g_main := c\<rparr>
           in (original_main, if original_main = g_current w then w\<lparr>g_current := c\<rparr> else w)
         else (original_main, w))"

subsection \<open>Switching\<close>

text \<open>The start of \<^verbatim>\<open>cat_coroutine_context_function\<close>, up to the call of the coroutine's function.\<close>

definition context_start :: "cat_msec_t \<Rightarrow> cat_data_t \<Rightarrow> co_world \<Rightarrow> co_result" where
  "context_start now data w =
     (let w = w\<lparr>g_count := g_count w + 1\<rparr>;
          w = (if g_peak_count w < g_count w then w\<lparr>g_peak_count := g_count w\<rparr> else w)
      in Done (Inr data, upd (g_current w) (\<lambda>c. c\<lparr>co_start_time := now\<rparr>) w))"

text \<open>The second half of \<^verbatim>\<open>cat_coroutine_jump_standard\<close>, run by the coroutine that is switched to.\<close>

definition jump_return :: "bool \<Rightarrow> cat_data_t \<Rightarrow> co_world \<Rightarrow> co_result" where
  "jump_return want data w =
     (let cur = g_current w;
          w = upd cur (\<lambda>c. c\<lparr>co_flags := co_flags c AND NOT FLAG_ACCEPT_DATA\<rparr>) w
      in case co_from (heap w cur) of None \<Rightarrow> Undefined
         | Some c \<Rightarrow>
             c_bind (if co_state (heap w c) = STATE_DEAD then cat_coroutine_free c w else Done w)
               (\<lambda>w. c_assert (want \<or> data = None) (Done (Inr data, w))))"

definition cat_coroutine_jump_standard ::
  "cat_msec_t \<Rightarrow> addr \<Rightarrow> cat_data_t \<Rightarrow> bool \<Rightarrow> co_world \<Rightarrow> co_result" where
  "cat_coroutine_jump_standard now c data want w =
     (let cur = g_current w
      in c_assert (data = None \<or> co_flags (heap w c) AND FLAG_ACCEPT_DATA \<noteq> 0)
       (let w = w\<lparr>g_switches := g_switches w + 1\<rparr>;
            w = upd cur (\<lambda>x. x\<lparr>co_switches := co_switches x + 1\<rparr>) w;
            w = w\<lparr>g_current := c\<rparr>;
            w = upd c (\<lambda>x. x\<lparr>co_from := Some cur\<rparr>) w;
            w = upd cur (\<lambda>x. if co_state x = STATE_RUNNING then x\<lparr>co_state := STATE_WAITING\<rparr> else x) w;
            w = upd c (\<lambda>x. x\<lparr>co_state := STATE_RUNNING\<rparr>) w;
            w = (if want then upd cur (\<lambda>x. x\<lparr>co_flags := co_flags x OR FLAG_ACCEPT_DATA\<rparr>) w else w);
            w = w\<lparr>frames := (frames w)(cur := In_Jump want)\<rparr>
        in case frames w c of Fresh \<Rightarrow> context_start now data w
           | In_Jump r \<Rightarrow> jump_return r data w))"

definition cat_coroutine_check_resumability :: "cat_coroutine_t \<Rightarrow> cat_errno + unit" where
  "cat_coroutine_check_resumability c =
     (case co_state c of STATE_WAITING \<Rightarrow> Inr ()
      | STATE_RUNNING \<Rightarrow> Inl CAT_EBUSY
      | STATE_DEAD \<Rightarrow> Inl CAT_ESRCH
      | STATE_NONE \<Rightarrow> Inl CAT_EMISUSE)"

text \<open>The relinking in \<^verbatim>\<open>cat_coroutine_resume\<close>, in the source's order.\<close>

definition resume_relink :: "addr \<Rightarrow> co_world \<Rightarrow> co_world" where
  "resume_relink c w =
     (let cur = g_current w;
          w = (case co_previous (heap w c) of None \<Rightarrow> w
               | Some p \<Rightarrow> upd p (\<lambda>x. x\<lparr>co_next := co_next (heap w c)\<rparr>) w);
          w = (case co_next (heap w c) of None \<Rightarrow> w
               | Some n \<Rightarrow> upd n (\<lambda>x. x\<lparr>co_previous := co_previous (heap w c)\<rparr>) w);
          w = upd c (\<lambda>x. x\<lparr>co_previous := Some cur\<rparr>) w;
          w = upd c (\<lambda>x. x\<lparr>co_next := None\<rparr>) w
      in upd cur (\<lambda>x. x\<lparr>co_next := Some c\<rparr>) w)"

definition cat_coroutine_resume ::
  "cat_msec_t \<Rightarrow> addr \<Rightarrow> cat_data_t \<Rightarrow> bool \<Rightarrow> co_world \<Rightarrow> co_result" where
  "cat_coroutine_resume now c data want w =
     (if g_switch_denied w then Done (Inl CAT_EMISUSE, w)
      else c_assert (c \<in> set (objs w))
        (case cat_coroutine_check_resumability (heap w c) of
           Inl e \<Rightarrow> Done (Inl e, w)
         | Inr _ \<Rightarrow> cat_coroutine_jump_standard now c data want (resume_relink c w)))"

definition cat_coroutine_yield :: "cat_msec_t \<Rightarrow> cat_data_t \<Rightarrow> bool \<Rightarrow> co_world \<Rightarrow> co_result" where
  "cat_coroutine_yield now data want w =
     (if g_switch_denied w then Done (Inl CAT_EMISUSE, w)
      else
        let cur = g_current w
        in case (case co_previous (heap w cur) of
                   None \<Rightarrow> (case g_scheduler w of None \<Rightarrow> None
                            | Some s \<Rightarrow> if s = cur then None else Some s)
                 | Some p \<Rightarrow> Some p) of
             None \<Rightarrow> Done (Inl CAT_EMISUSE, w)
           | Some c \<Rightarrow>
               let w = upd cur (\<lambda>x. x\<lparr>co_previous := None\<rparr>) w;
                   w = upd c (\<lambda>x. x\<lparr>co_next := None\<rparr>) w
               in cat_coroutine_jump_standard now c data want w)"

text \<open>The end of \<^verbatim>\<open>cat_coroutine_context_function\<close>, once the coroutine's function has returned \<open>data\<close>.\<close>

definition context_finish :: "cat_msec_t \<Rightarrow> cat_data_t \<Rightarrow> co_world \<Rightarrow> co_result" where
  "context_finish now data w =
     (let cur = g_current w;
          w = upd cur (\<lambda>c. c\<lparr>co_end_time := now\<rparr>) w;
          w = w\<lparr>g_count := g_count w - 1\<rparr>;
          w = upd cur (\<lambda>c. c\<lparr>co_state := STATE_DEAD\<rparr>) w
      in c_bind (cat_coroutine_yield now data False w)
           (\<lambda>(r, w). case r of Inl e \<Rightarrow> Undefined | Inr d \<Rightarrow> Done (Inr d, w)))"

definition cat_coroutine_run ::
  "size_t \<Rightarrow> cat_msec_t \<Rightarrow> addr \<Rightarrow> bool \<Rightarrow> cat_data_t \<Rightarrow> co_world \<Rightarrow> co_result" where
  "cat_coroutine_run pagesize now c mapped data w =
     (case cat_coroutine_create pagesize c True mapped w of
        (Inl e, w) \<Rightarrow> Done (Inl e, w)
      | (Inr c, w) \<Rightarrow>
          c_bind (cat_coroutine_resume now c data False w) (\<lambda>(r, w).
            case r of Inl e \<Rightarrow> c_bind (cat_coroutine_free c w) (\<lambda>w. Done (Inl e, w))
            | Inr d \<Rightarrow> Done (Inr d, w)))"

subsection \<open>Scheduler and waiters\<close>

definition toggle_scheduling :: "addr \<Rightarrow> co_world \<Rightarrow> co_world" where
  "toggle_scheduling a w = upd a (\<lambda>c. c\<lparr>co_flags := co_flags c XOR FLAG_SCHEDULING\<rparr>) w"

text \<open>\<^verbatim>\<open>cat_coroutine__schedule\<close> up to the switch; when the switch is refused the flag is reset at
  once, otherwise by \<open>toggle_scheduling\<close> when control is back.\<close>

definition cat_coroutine__schedule :: "cat_msec_t \<Rightarrow> addr \<Rightarrow> co_world \<Rightarrow> co_result" where
  "cat_coroutine__schedule now c w =
     (let cur = g_current w;
          w = upd cur (\<lambda>x. x\<lparr>co_flags := co_flags x OR FLAG_SCHEDULING\<rparr>) w
      in c_bind (cat_coroutine_resume now c None False w) (\<lambda>(r, w).
           case r of Inl e \<Rightarrow> Done (Inl e, toggle_scheduling cur w) | Inr d \<Rightarrow> Done (Inr d, w)))"

definition cat_coroutine_is_unfinished :: "co_world \<Rightarrow> bool" where
  "cat_coroutine_is_unfinished w \<longleftrightarrow> 0 < g_count w - g_waiter_count w"

text \<open>The rest of \<^verbatim>\<open>cat_coroutine_wait_all_ex\<close> once \<^verbatim>\<open>cat_time_wait\<close> has returned \<open>ret\<close>.\<close>

definition wait_all_return :: "bool \<Rightarrow> cat_errno \<Rightarrow> co_world \<Rightarrow> ((cat_errno + unit) \<times> co_world) c_run" where
  "wait_all_return ret last_error w =
     (let cur = g_current w
      in case co_from (heap w cur) of None \<Rightarrow> Undefined
         | Some f \<Rightarrow>
             let completed = (co_flags (heap w f) AND FLAG_SCHEDULING \<noteq> 0);
                 w = w\<lparr>g_waiter_count := g_waiter_count w - 1, links := cat_queue_remove cur (links w)\<rparr>
             in if \<not> ret then Done (Inl last_error, w)
                else if \<not> completed then Done (Inl CAT_ECANCELED, w)
                else Done (Inr (), w))"

text \<open>Waiting without a timeout: \<^verbatim>\<open>cat_time_wait\<close> is a yield.\<close>

definition cat_coroutine_wait_all :: "cat_msec_t \<Rightarrow> co_world \<Rightarrow> co_result" where
  "cat_coroutine_wait_all now w =
     (let w = w\<lparr>links := cat_queue_push_back (g_waiters w) (g_current w) (links w),
                g_waiter_count := g_waiter_count w + 1\<rparr>
      in c_bind (cat_coroutine_yield now None False w) (\<lambda>(r, w).
           case r of Inl e \<Rightarrow> c_bind (wait_all_return False e w) (\<lambda>(_, w). Done (Inl e, w))
           | Inr d \<Rightarrow> Done (Inr d, w)))"

text \<open>The loop of \<^verbatim>\<open>cat_coroutine_notify_all\<close>; \<open>env\<close> is what runs from the moment a waiter is switched to
  until control is back in the loop.\<close>

fun notify_loop :: "nat \<Rightarrow> (co_world \<Rightarrow> co_world c_run) \<Rightarrow> cat_msec_t \<Rightarrow> co_world \<Rightarrow> co_world c_run" where
  "notify_loop 0 env now w = Done w"
| "notify_loop (Suc count) env now w =
     (let cur = g_current w
      in case cat_queue_front (g_waiters w) (links w) of None \<Rightarrow> Undefined
         | Some c \<Rightarrow>
             c_bind (cat_coroutine__schedule now c w) (\<lambda>(r, w).
               case r of Inl e \<Rightarrow> Undefined
               | Inr _ \<Rightarrow> c_bind (env w) (\<lambda>w. notify_loop count env now (toggle_scheduling cur w))))"

definition cat_coroutine_notify_all :: "(co_world \<Rightarrow> co_world c_run) \<Rightarrow> cat_msec_t \<Rightarrow> co_world \<Rightarrow> co_world c_run" where
  "cat_coroutine_notify_all env now w = notify_loop (unat (g_waiter_count w)) env now w"

text \<open>\<^verbatim>\<open>cat_coroutine_scheduler_function\<close> up to its first yield, and its end; \<^verbatim>\<open>scheduler_exits\<close> is the
  condition of its loop.\<close>

definition scheduler_start :: "cat_msec_t \<Rightarrow> co_world \<Rightarrow> co_result" where
  "scheduler_start now w =
     cat_coroutine_yield now None False
       (w\<lparr>g_scheduler := Some (g_current w), g_count := g_count w - 1\<rparr>)"

definition scheduler_exits :: "co_world \<Rightarrow> bool" where
  "scheduler_exits w =
     (case co_from (heap w (g_current w)) of None \<Rightarrow> False
      | Some f \<Rightarrow> co_flags (heap w f) AND FLAG_SCHEDULING \<noteq> 0)"

definition scheduler_finish :: "cat_msec_t \<Rightarrow> co_world \<Rightarrow> co_result" where
  "scheduler_finish now w =
     context_finish now None (w\<lparr>g_count := g_count w + 1, g_scheduler := None\<rparr>)"

text \<open>The data handed to the scheduler coroutine is a pointer to its two functions.\<close>

definition cat_coroutine_scheduler_run ::
  "size_t \<Rightarrow> cat_msec_t \<Rightarrow> addr \<Rightarrow> bool \<Rightarrow> bool \<Rightarrow> nat \<Rightarrow> co_world \<Rightarrow> ((cat_errno + addr) \<times> co_world) c_run" where
  "cat_coroutine_scheduler_run pagesize now c own mapped scheduler w =
     (if g_scheduler w \<noteq> None then Done (Inl CAT_EMISUSE, w)
      else
        let last_id = g_last_id w;
            (r, w) = cat_coroutine_create pagesize c own mapped (w\<lparr>g_last_id := CAT_COROUTINE_SCHEDULER_ID\<rparr>);
            w = w\<lparr>g_last_id := last_id\<rparr>
        in case r of Inl e \<Rightarrow> Done (Inl e, w)
           | Inr c \<Rightarrow>
               c_bind (cat_coroutine_resume now c (Some scheduler) False w) (\<lambda>(r, w).
                 c_bind (case r of Inl e \<Rightarrow> Done w
                         | Inr _ \<Rightarrow> c_bind (scheduler_start now w) (\<lambda>(_, w). Done w))
                   (\<lambda>w. c_assert (g_scheduler w \<noteq> None) (Done (Inr c, w)))))"

subsection \<open>What a switch does\<close>

text \<open>The relation between the state before \<^verbatim>\<open>cat_coroutine_jump_standard\<close> and the state in which the
  target runs.\<close>

definition switched :: "cat_msec_t \<Rightarrow> addr \<Rightarrow> bool \<Rightarrow> co_world \<Rightarrow> co_world \<Rightarrow> bool" where
  "switched now c want w w' \<longleftrightarrow>
     g_current w' = c \<and> g_main w' = g_main w \<and> g_scheduler w' = g_scheduler w \<and> g_waiters w' = g_waiters w \<and>
     g_waiter_count w' = g_waiter_count w \<and> g_switch_denied w' = g_switch_denied w \<and>
     g_last_id w' = g_last_id w \<and> links w' = links w \<and> g_switches w' = g_switches w + 1 \<and>
     g_count w' = (if frames w c = Fresh then g_count w + 1 else g_count w) \<and>
     objs w' = (if co_state (heap w (g_current w)) = STATE_DEAD then remove1 (g_current w) (objs w) else objs w) \<and>
     frames w' = (frames w)(g_current w := In_Jump want) \<and>
     (\<forall>x. co_previous (heap w' x) = co_previous (heap w x) \<and> co_next (heap w' x) = co_next (heap w x) \<and>
        co_id (heap w' x) = co_id (heap w x) \<and> co_end_time (heap w' x) = co_end_time (heap w x) \<and>
        co_start_time (heap w' x) = (if x = c \<and> frames w c = Fresh then now else co_start_time (heap w x)) \<and>
        co_from (heap w' x) = (if x = c then Some (g_current w) else co_from (heap w x)) \<and>
        co_state (heap w' x) = (if x = c then STATE_RUNNING
          else if x = g_current w \<and> co_state (heap w x) = STATE_RUNNING then STATE_WAITING
          else co_state (heap w x)) \<and>
        co_flags (heap w' x) = (if x = c \<and> frames w c \<noteq> Fresh then co_flags (heap w x) AND NOT FLAG_ACCEPT_DATA
          else if x = g_current w \<and> want then co_flags (heap w x) OR FLAG_ACCEPT_DATA
          else co_flags (heap w x)))"

lemma upd_simps [simp]:
  "g_current (upd a f w) = g_current w" "g_main (upd a f w) = g_main w" "g_scheduler (upd a f w) = g_scheduler w"
  "g_waiters (upd a f w) = g_waiters w" "g_waiter_count (upd a f w) = g_waiter_count w"
  "g_switch_denied (upd a f w) = g_switch_denied w" "g_last_id (upd a f w) = g_last_id w"
  "links (upd a f w) = links w" "g_switches (upd a f w) = g_switches w" "g_count (upd a f w) = g_count w"
  "g_peak_count (upd a f w) = g_peak_count w" "objs (upd a f w) = objs w" "frames (upd a f w) = frames w"
  "g_default_stack_size (upd a f w) = g_default_stack_size w"
  "heap (upd a f w) x = (if x = a then f (heap w a) else heap w x)"
  by (simp_all add: upd_def)

lemma jump_standard_switched:
  assumes ne: "c \<noteq> g_current w"
    and acc: "data = None \<or> co_flags (heap w c) AND FLAG_ACCEPT_DATA \<noteq> 0"
    and ret: "\<And>r. frames w c = In_Jump r \<Longrightarrow> r \<or> data = None"
    and dead: "co_state (heap w (g_current w)) = STATE_DEAD \<Longrightarrow>
      frames w c \<noteq> Fresh \<and> g_current w \<in> set (objs w) \<and> \<not> cat_coroutine_is_alive (heap w (g_current w))"
  shows "\<exists>w'. cat_coroutine_jump_standard now c data want w = Done (Inr data, w') \<and> switched now c want w w'"
proof (cases "frames w c")
  case Fresh
  with ne acc dead show ?thesis
    by (auto simp: cat_coroutine_jump_standard_def context_start_def Let_def switched_def)
next
  case (In_Jump r)
  with ne acc dead ret [OF In_Jump] show ?thesis
    by (auto simp: cat_coroutine_jump_standard_def jump_return_def Let_def switched_def
        cat_coroutine_free_def cat_coroutine_is_alive_def)
qed

subsection \<open>The chain\<close>

text \<open>A segment of the chain: \<open>p\<close> is the predecessor of its first and \<open>e\<close> the successor of its last
  element.\<close>

fun lseg :: "(addr \<Rightarrow> cat_coroutine_t) \<Rightarrow> addr option \<Rightarrow> addr list \<Rightarrow> addr option \<Rightarrow> bool" where
  "lseg h p [] e \<longleftrightarrow> True"
| "lseg h p (c # cs) e \<longleftrightarrow>
     co_previous (h c) = p \<and> co_next (h c) = (if cs = [] then e else Some (hd cs)) \<and> lseg h (Some c) cs e"

lemma lseg_append:
  "lseg h p (xs @ ys) e \<longleftrightarrow>
     lseg h p xs (if ys = [] then e else Some (hd ys)) \<and>
     lseg h (if xs = [] then p else Some (last xs)) ys e"
  by (induction xs arbitrary: p) auto

text \<open>Changing the links at both ends of a segment.\<close>

lemma lseg_change:
  "\<lbrakk>lseg h p xs e; \<And>x. x \<in> set (tl xs) \<Longrightarrow> co_previous (h' x) = co_previous (h x);
    \<And>x. x \<in> set (butlast xs) \<Longrightarrow> co_next (h' x) = co_next (h x);
    xs \<noteq> [] \<Longrightarrow> co_previous (h' (hd xs)) = p'; xs \<noteq> [] \<Longrightarrow> co_next (h' (last xs)) = e'\<rbrakk> \<Longrightarrow>
   lseg h' p' xs e'"
proof (induction xs arbitrary: p p')
  case (Cons c cs)
  show ?case
  proof (cases cs)
    case Nil
    then show ?thesis using Cons.prems by simp
  next
    case (Cons d ds)
    have "lseg h' (Some c) cs e'"
      using Cons.prems Cons by (intro Cons.IH [of "Some c"]) auto
    then show ?thesis using Cons.prems Cons by simp
  qed
qed simp

lemma lseg_cong:
  "(\<And>x. x \<in> set xs \<Longrightarrow> co_previous (h' x) = co_previous (h x) \<and> co_next (h' x) = co_next (h x)) \<Longrightarrow>
   lseg h' p xs e \<longleftrightarrow> lseg h p xs e"
  by (induction xs arbitrary: p) auto

lemma lseg_last: "lseg h p xs e \<Longrightarrow> xs \<noteq> [] \<Longrightarrow>
    co_next (h (last xs)) = e \<and> co_previous (h (last xs)) = (if butlast xs = [] then p else Some (last (butlast xs)))"
  by (induction xs arbitrary: p) auto

text \<open>The invariant, parametrised by the chain. The state of the current coroutine is left open: it is
  running, or dead while it leaves.\<close>

definition co_chain :: "co_world \<Rightarrow> addr list \<Rightarrow> bool" where
  "co_chain w ch \<longleftrightarrow>
     ch \<noteq> [] \<and> distinct ch \<and> last ch = g_current w \<and> set ch \<subseteq> set (objs w) \<and> distinct (objs w) \<and>
     lseg (heap w) None ch None \<and>
     (\<forall>x \<in> set (objs w) - set ch. co_previous (heap w x) = None \<and> co_next (heap w x) = None) \<and>
     (\<forall>x \<in> set (objs w). x \<noteq> g_current w \<longrightarrow> co_state (heap w x) = STATE_WAITING) \<and>
     (\<forall>x \<in> set ch. x \<noteq> g_current w \<longrightarrow> frames w x \<noteq> Fresh) \<and>
     (\<forall>s. g_scheduler w = Some s \<longrightarrow> s \<in> set (objs w) \<and> (s = g_current w \<or> frames w s \<noteq> Fresh))"

definition co_ok :: "co_world \<Rightarrow> addr list \<Rightarrow> bool" where
  "co_ok w ch \<longleftrightarrow> co_chain w ch \<and> co_state (heap w (g_current w)) = STATE_RUNNING"

lemma relink_fields:
  assumes "c \<noteq> g_current w" and "co_previous (heap w c) \<noteq> Some c" and "co_next (heap w c) \<noteq> Some c"
  shows "co_previous (heap (resume_relink c w) x) =
      (if x = c then Some (g_current w)
       else if co_next (heap w c) = Some x then co_previous (heap w c) else co_previous (heap w x))"
    and "co_next (heap (resume_relink c w) x) =
      (if x = g_current w then Some c else if x = c then None
       else if co_previous (heap w c) = Some x then co_next (heap w c) else co_next (heap w x))"
    and "co_state (heap (resume_relink c w) x) = co_state (heap w x)"
    and "co_flags (heap (resume_relink c w) x) = co_flags (heap w x)"
    and "co_id (heap (resume_relink c w) x) = co_id (heap w x)"
    and "co_start_time (heap (resume_relink c w) x) = co_start_time (heap w x)"
    and "co_end_time (heap (resume_relink c w) x) = co_end_time (heap w x)"
    and "co_from (heap (resume_relink c w) x) = co_from (heap w x)"
  using assms by (auto simp: resume_relink_def Let_def split: option.splits)

lemma relink_globals [simp]:
  "g_current (resume_relink c w) = g_current w" "objs (resume_relink c w) = objs w"
  "frames (resume_relink c w) = frames w" "g_scheduler (resume_relink c w) = g_scheduler w"
  "g_switch_denied (resume_relink c w) = g_switch_denied w" "links (resume_relink c w) = links w"
  "g_waiters (resume_relink c w) = g_waiters w" "g_waiter_count (resume_relink c w) = g_waiter_count w"
  "g_main (resume_relink c w) = g_main w" "g_last_id (resume_relink c w) = g_last_id w"
  "g_count (resume_relink c w) = g_count w" "g_switches (resume_relink c w) = g_switches w"
  by (auto simp: resume_relink_def Let_def split: option.splits)

text \<open>Relinking moves the target to the end of the chain: from outside it, or from inside.\<close>

lemma distinct_ends:
  "distinct xs \<Longrightarrow> xs \<noteq> [] \<Longrightarrow> last xs \<notin> set (butlast xs)" "distinct xs \<Longrightarrow> xs \<noteq> [] \<Longrightarrow> hd xs \<notin> set (tl xs)"
  by (cases xs rule: rev_cases; simp) (cases xs; simp)

lemma relink_from_outside:
  assumes seg: "lseg (heap w) None ch None" and dist: "distinct ch" "ch \<noteq> []" and cur: "last ch = g_current w"
    and c: "c \<notin> set ch" "co_previous (heap w c) = None" "co_next (heap w c) = None"
  shows "lseg (heap (resume_relink c w)) None (ch @ [c]) None"
proof -
  have ne: "c \<noteq> g_current w" using c(1) cur dist(2) last_in_set by metis
  have f: "co_previous (heap (resume_relink c w) x) = (if x = c then Some (g_current w) else co_previous (heap w x))"
    "co_next (heap (resume_relink c w) x) = (if x = g_current w then Some c else if x = c then None else co_next (heap w x))" for x
    using relink_fields(1,2) [OF ne, of x] c by auto
  have "lseg (heap (resume_relink c w)) None ch (Some c)"
  proof (rule lseg_change [OF seg])
    fix x assume "x \<in> set (tl ch)"
    then have "x \<noteq> c" using c(1) by (auto dest: list.set_sel(2) [OF dist(2)])
    then show "co_previous (heap (resume_relink c w) x) = co_previous (heap w x)" by (simp add: f)
  next
    fix x assume x: "x \<in> set (butlast ch)"
    then have "x \<noteq> g_current w" "x \<noteq> c" using distinct_ends(1) [OF dist] cur c(1) by (auto dest: in_set_butlastD)
    then show "co_next (heap (resume_relink c w) x) = co_next (heap w x)" by (simp add: f)
  next
    have "hd ch \<noteq> c" using c(1) dist(2) hd_in_set by metis
    then show "co_previous (heap (resume_relink c w) (hd ch)) = None" using seg dist(2) by (cases ch) (auto simp: f)
  qed (simp add: f cur)
  then show ?thesis using dist(2) cur ne by (simp add: lseg_append f)
qed

lemma relink_from_inside:
  assumes seg: "lseg (heap w) None (xs @ c # ys) None" and dist: "distinct (xs @ c # ys)" "ys \<noteq> []"
    and cur: "last ys = g_current w"
  shows "lseg (heap (resume_relink c w)) None (xs @ ys @ [c]) None"
proof -
  let ?h = "heap (resume_relink c w)"
  have ne: "c \<noteq> g_current w" using dist cur last_in_set [OF dist(2)] by auto
  have l: "lseg (heap w) None xs (Some c)" "lseg (heap w) (Some c) ys None"
    and lc: "co_previous (heap w c) = (if xs = [] then None else Some (last xs))" "co_next (heap w c) = Some (hd ys)"
    using seg dist(2) by (auto simp: lseg_append)
  have hy: "hd ys \<in> set ys" using dist(2) by simp
  have lx: "xs \<noteq> [] \<Longrightarrow> last xs \<in> set xs" by simp
  have "co_previous (heap w c) \<noteq> Some c" "co_next (heap w c) \<noteq> Some c" using dist hy lx by (auto simp: lc)
  note f0 = relink_fields(1,2) [OF ne this]
  have f: "co_previous (?h x) = (if x = c then Some (g_current w) else if x = hd ys then co_previous (heap w c) else co_previous (heap w x))"
    "co_next (?h x) = (if x = g_current w then Some c else if x = c then None
       else if xs \<noteq> [] \<and> x = last xs then Some (hd ys) else co_next (heap w x))" for x
    using f0 [of x] by (auto simp: lc)
  have disj: "set xs \<inter> set ys = {}" "c \<notin> set xs" "c \<notin> set ys" "distinct xs" "distinct ys" using dist by auto
  have lxy: "xs \<noteq> [] \<Longrightarrow> last xs \<notin> set ys" using lx disj(1) by blast
  have cy: "g_current w \<in> set ys" using cur last_in_set [OF dist(2)] by simp
  have "lseg ?h None xs (Some (hd ys))"
  proof (rule lseg_change [OF l(1)])
    fix x assume "x \<in> set (tl xs)"
    then have "x \<in> set xs" by (cases xs) auto
    then show "co_previous (?h x) = co_previous (heap w x)" using disj hy by (auto simp: f)
  next
    fix x assume x: "x \<in> set (butlast xs)"
    then have "xs \<noteq> []" by auto
    with x have "x \<in> set xs" "x \<noteq> last xs" using distinct_ends(1) [OF disj(4)] by (auto dest: in_set_butlastD)
    then show "co_next (?h x) = co_next (heap w x)" using disj cy by (auto simp: f)
  next
    assume "xs \<noteq> []"
    then show "co_previous (?h (hd xs)) = None" using l(1) disj hy by (cases xs) (auto simp: f)
    have "last xs \<noteq> g_current w" "last xs \<noteq> c" using \<open>xs \<noteq> []\<close> lx lxy cy disj(2) by auto
    then show "co_next (?h (last xs)) = Some (hd ys)" using \<open>xs \<noteq> []\<close> by (simp add: f)
  qed
  moreover have "lseg ?h (if xs = [] then None else Some (last xs)) ys (Some c)"
  proof (rule lseg_change [OF l(2)])
    fix x assume x: "x \<in> set (tl ys)"
    then have "x \<in> set ys" "x \<noteq> hd ys" using distinct_ends(2) [OF disj(5) dist(2)] by (auto dest: list.set_sel(2) [OF dist(2)])
    then show "co_previous (?h x) = co_previous (heap w x)" using disj by (auto simp: f)
  next
    fix x assume x: "x \<in> set (butlast ys)"
    then have "x \<in> set ys" "x \<noteq> g_current w" using distinct_ends(1) [OF disj(5) dist(2)] cur by (auto dest: in_set_butlastD)
    then show "co_next (?h x) = co_next (heap w x)" using disj lxy by (auto simp: f)
  next
    show "co_previous (?h (hd ys)) = (if xs = [] then None else Some (last xs))" using hy disj by (auto simp: f lc)
  qed (simp add: f cur)
  ultimately show ?thesis using dist(2) cur ne by (simp add: lseg_append f)
qed

lemma relink_chain:
  assumes ok: "co_chain w ch" and c: "c \<in> set (objs w)" "c \<noteq> g_current w"
  shows "lseg (heap (resume_relink c w)) None (remove1 c ch @ [c]) None"
    and "\<And>x. x \<in> set (objs w) - set ch \<Longrightarrow> x \<noteq> c \<Longrightarrow>
      co_previous (heap (resume_relink c w) x) = None \<and> co_next (heap (resume_relink c w) x) = None"
proof -
  let ?h = "heap (resume_relink c w)"
  have seg: "lseg (heap w) None ch None" and dist: "distinct ch" "ch \<noteq> []" and cur: "last ch = g_current w"
    and off: "\<And>x. x \<in> set (objs w) - set ch \<Longrightarrow> co_previous (heap w x) = None \<and> co_next (heap w x) = None"
    using ok by (auto simp: co_chain_def)
  have curin: "g_current w \<in> set ch" using cur last_in_set [OF dist(2)] by simp
  have "lseg ?h None (remove1 c ch @ [c]) None \<and> (\<forall>x \<in> set (objs w) - set ch. x \<noteq> c \<longrightarrow>
     co_previous (?h x) = None \<and> co_next (?h x) = None)"
  proof (cases "c \<in> set ch")
    case False
    with off c(1) have o: "co_previous (heap w c) = None" "co_next (heap w c) = None" by auto
    then show ?thesis using relink_from_outside [OF seg dist cur False o] False off curin relink_fields(1,2) [OF c(2)]
      by (auto simp: remove1_idem)
  next
    case True
    then obtain xs ys where ch: "ch = xs @ c # ys" by (auto simp: in_set_conv_decomp)
    then have ys: "ys \<noteq> []" using cur c(2) by (cases ys) auto
    have r: "remove1 c ch = xs @ ys" using dist(1) by (simp add: ch remove1_append)
    have l: "co_previous (heap w c) = (if xs = [] then None else Some (last xs))" "co_next (heap w c) = Some (hd ys)"
      using seg ys by (auto simp: ch lseg_append)
    have in_ch: "hd ys \<in> set ch" "xs \<noteq> [] \<Longrightarrow> last xs \<in> set ch" using ys by (auto simp: ch)
    have "co_previous (heap w c) \<noteq> Some c" "co_next (heap w c) \<noteq> Some c"
      using dist(1) ys hd_in_set [OF ys] last_in_set [of xs] by (auto simp: ch l)
    note f = relink_fields(1,2) [OF c(2) this]
    have "co_previous (?h x) = None \<and> co_next (?h x) = None" if "x \<in> set (objs w) - set ch" for x
      using that off [OF that] in_ch True curin by (auto simp: f l)
    then show ?thesis using relink_from_inside [of w xs c ys] seg dist ys cur by (simp add: r) (simp add: ch)
  qed
  then show "lseg ?h None (remove1 c ch @ [c]) None"
    "\<And>x. x \<in> set (objs w) - set ch \<Longrightarrow> x \<noteq> c \<Longrightarrow> co_previous (?h x) = None \<and> co_next (?h x) = None" by auto
qed

text \<open>After a switch from a state whose links already describe the new chain, the invariant holds for
  that chain.\<close>

lemma switched_ok:
  assumes sw: "switched now c want w w'" and cur: "g_current w \<in> set (objs w)" "c \<noteq> g_current w"
    and ch: "ch \<noteq> []" "distinct ch" "last ch = c" "set ch \<subseteq> set (objs w)" "distinct (objs w)"
    and seg: "lseg (heap w) None ch None"
    and off: "\<And>x. x \<in> set (objs w) - set ch \<Longrightarrow> co_previous (heap w x) = None \<and> co_next (heap w x) = None"
    and wait: "\<And>x. x \<in> set (objs w) \<Longrightarrow> x \<noteq> g_current w \<Longrightarrow> co_state (heap w x) = STATE_WAITING"
    and fr: "\<And>x. x \<in> set ch \<Longrightarrow> x \<noteq> c \<Longrightarrow> x \<noteq> g_current w \<Longrightarrow> frames w x \<noteq> Fresh"
    and sch: "\<And>s. g_scheduler w = Some s \<Longrightarrow> s \<in> set (objs w) \<and> (s = g_current w \<or> frames w s \<noteq> Fresh)"
    and live: "co_state (heap w (g_current w)) = STATE_RUNNING \<or>
      co_state (heap w (g_current w)) = STATE_DEAD \<and> g_current w \<notin> set ch \<and> g_scheduler w \<noteq> Some (g_current w)"
  shows "co_ok w' ch"
proof -
  have g: "g_current w' = c" "g_scheduler w' = g_scheduler w" "frames w' = (frames w)(g_current w := In_Jump want)"
    and o: "objs w' = (if co_state (heap w (g_current w)) = STATE_DEAD then remove1 (g_current w) (objs w) else objs w)"
    and h: "\<And>x. co_previous (heap w' x) = co_previous (heap w x) \<and> co_next (heap w' x) = co_next (heap w x)"
    and st: "\<And>x. co_state (heap w' x) = (if x = c then STATE_RUNNING
          else if x = g_current w \<and> co_state (heap w x) = STATE_RUNNING then STATE_WAITING
          else co_state (heap w x))"
    using sw unfolding switched_def by blast+
  have os: "set (objs w') = (if co_state (heap w (g_current w)) = STATE_DEAD then set (objs w) - {g_current w} else set (objs w))"
    "distinct (objs w')" using ch(5) by (auto simp: o)
  have sub: "set ch \<subseteq> set (objs w')" using os(1) live ch(4) by auto
  have "lseg (heap w') None ch None" using seg h lseg_cong [of ch "heap w'" "heap w"] by simp
  moreover have "\<forall>x \<in> set (objs w') - set ch. co_previous (heap w' x) = None \<and> co_next (heap w' x) = None"
    using off h os(1) by (auto split: if_splits)
  moreover have "\<forall>x \<in> set (objs w'). x \<noteq> c \<longrightarrow> co_state (heap w' x) = STATE_WAITING"
    using wait os(1) live by (auto simp: st split: if_splits)
  moreover have "\<forall>x \<in> set ch. x \<noteq> c \<longrightarrow> frames w' x \<noteq> Fresh" using fr by (auto simp: g)
  moreover have "\<forall>s. g_scheduler w' = Some s \<longrightarrow> s \<in> set (objs w') \<and> (s = c \<or> frames w' s \<noteq> Fresh)"
    using sch live os(1) by (auto simp: g)
  ultimately show ?thesis
    using ch(1-3) os(2) sub unfolding co_ok_def co_chain_def by (simp add: g st)
qed

lemma resume_ok:
  assumes ok: "co_ok w ch" and c: "c \<in> set (objs w)" "c \<noteq> g_current w" and allowed: "\<not> g_switch_denied w"
    and data: "data = None \<or> co_flags (heap w c) AND FLAG_ACCEPT_DATA \<noteq> 0"
      "\<And>r. frames w c = In_Jump r \<Longrightarrow> r \<or> data = None"
  shows "\<exists>w'. cat_coroutine_resume now c data want w = Done (Inr data, w') \<and> co_ok w' (remove1 c ch @ [c]) \<and>
    switched now c want (resume_relink c w) w'"
proof -
  let ?w = "resume_relink c w"
  have chain: "co_chain w ch" and run: "co_state (heap w (g_current w)) = STATE_RUNNING"
    using ok by (auto simp: co_ok_def)
  from chain have inv: "ch \<noteq> []" "distinct ch" "last ch = g_current w" "set ch \<subseteq> set (objs w)" "distinct (objs w)"
    "\<And>x. x \<in> set (objs w) \<Longrightarrow> x \<noteq> g_current w \<Longrightarrow> co_state (heap w x) = STATE_WAITING"
    "\<And>x. x \<in> set ch \<Longrightarrow> x \<noteq> g_current w \<Longrightarrow> frames w x \<noteq> Fresh"
    "\<And>s. g_scheduler w = Some s \<Longrightarrow> s \<in> set (objs w) \<and> (s = g_current w \<or> frames w s \<noteq> Fresh)"
    unfolding co_chain_def by blast+
  have same: "co_state (heap ?w x) = co_state (heap w x)" "co_flags (heap ?w x) = co_flags (heap w x)" for x
    by (auto simp: resume_relink_def Let_def split: option.splits)
  have "\<exists>w'. cat_coroutine_jump_standard now c data want ?w = Done (Inr data, w') \<and> switched now c want ?w w'"
    using c(2) data run by (intro jump_standard_switched) (auto simp: same)
  then obtain w' where w': "cat_coroutine_jump_standard now c data want ?w = Done (Inr data, w')"
    "switched now c want ?w w'" by blast
  have "cat_coroutine_resume now c data want w = Done (Inr data, w')"
    using c allowed inv(6) w'(1) by (simp add: cat_coroutine_resume_def cat_coroutine_check_resumability_def)
  moreover have "co_ok w' (remove1 c ch @ [c])"
  proof (rule switched_ok [OF w'(2)])
    show "g_current ?w \<in> set (objs ?w)" using inv(1,3,4) last_in_set [OF inv(1)] by auto
    show "set (remove1 c ch @ [c]) \<subseteq> set (objs ?w)" using inv(2,4) c(1) by auto
    show "lseg (heap ?w) None (remove1 c ch @ [c]) None" by (rule relink_chain(1) [OF chain c])
    show "co_previous (heap ?w x) = None \<and> co_next (heap ?w x) = None"
      if "x \<in> set (objs ?w) - set (remove1 c ch @ [c])" for x
      using that inv(2) by (intro relink_chain(2) [OF chain c]) auto
  qed (use inv c run in \<open>auto simp: same\<close>)
  ultimately show ?thesis using w'(2) by blast
qed

text \<open>Where a yield goes: to the coroutine before the current one in the chain, or, from a chain of
  one, to the scheduler.\<close>

definition yield_target :: "co_world \<Rightarrow> addr list \<Rightarrow> addr option" where
  "yield_target w ch =
     (if 1 < length ch then Some (last (butlast ch))
      else case g_scheduler w of None \<Rightarrow> None | Some s \<Rightarrow> if s = g_current w then None else Some s)"

definition yield_chain :: "addr list \<Rightarrow> addr \<Rightarrow> addr list" where
  "yield_chain ch c = (if 1 < length ch then butlast ch else [c])"

definition yield_unlink :: "addr \<Rightarrow> co_world \<Rightarrow> co_world" where
  "yield_unlink c w = upd c (\<lambda>x. x\<lparr>co_next := None\<rparr>) (upd (g_current w) (\<lambda>x. x\<lparr>co_previous := None\<rparr>) w)"

lemma yield_eq:
  assumes ok: "co_chain w ch" and "\<not> g_switch_denied w"
  shows "cat_coroutine_yield now data want w =
    (case yield_target w ch of None \<Rightarrow> Done (Inl CAT_EMISUSE, w)
     | Some c \<Rightarrow> cat_coroutine_jump_standard now c data want (yield_unlink c w))"
proof -
  have "lseg (heap w) None ch None" "ch \<noteq> []" "last ch = g_current w" using ok by (auto simp: co_chain_def)
  then have "co_previous (heap w (g_current w)) = (if 1 < length ch then Some (last (butlast ch)) else None)"
    using lseg_last [of "heap w" None ch None] by (cases ch) (auto split: if_splits)
  then show ?thesis using assms(2)
    by (auto simp: cat_coroutine_yield_def yield_target_def yield_unlink_def Let_def split: option.splits)
qed

lemma yield_links:
  assumes ok: "co_chain w ch" and t: "yield_target w ch = Some c"
  shows "c \<noteq> g_current w" "c \<in> set (objs w)" "frames w c \<noteq> Fresh"
    and "lseg (heap (yield_unlink c w)) None (yield_chain ch c) None"
    and "distinct (yield_chain ch c)" "last (yield_chain ch c) = c" "yield_chain ch c \<noteq> []"
    and "set (yield_chain ch c) \<subseteq> set (objs w)" "g_current w \<notin> set (yield_chain ch c)"
    and "\<And>x. x \<in> set (objs w) - set (yield_chain ch c) \<Longrightarrow>
      co_previous (heap (yield_unlink c w) x) = None \<and> co_next (heap (yield_unlink c w) x) = None"
    and "\<And>x. x \<in> set (yield_chain ch c) \<Longrightarrow> x \<noteq> c \<Longrightarrow> frames w x \<noteq> Fresh"
proof -
  from ok have inv: "ch \<noteq> []" "distinct ch" "last ch = g_current w" "set ch \<subseteq> set (objs w)"
    "lseg (heap w) None ch None"
    "\<And>x. x \<in> set (objs w) - set ch \<Longrightarrow> co_previous (heap w x) = None \<and> co_next (heap w x) = None"
    "\<And>x. x \<in> set ch \<Longrightarrow> x \<noteq> g_current w \<Longrightarrow> frames w x \<noteq> Fresh"
    "\<And>s. g_scheduler w = Some s \<Longrightarrow> s \<in> set (objs w) \<and> (s = g_current w \<or> frames w s \<noteq> Fresh)"
    unfolding co_chain_def by blast+
  let ?h = "heap (yield_unlink c w)" and ?cur = "g_current w" and ?ch = "yield_chain ch c"
  have "c \<noteq> ?cur \<and> c \<in> set (objs w) \<and> frames w c \<noteq> Fresh \<and> lseg ?h None ?ch None \<and> distinct ?ch \<and> last ?ch = c \<and>
    ?ch \<noteq> [] \<and> set ?ch \<subseteq> set (objs w) \<and> ?cur \<notin> set ?ch \<and>
    (\<forall>x \<in> set (objs w) - set ?ch. co_previous (?h x) = None \<and> co_next (?h x) = None) \<and>
    (\<forall>x \<in> set ?ch. x \<noteq> c \<longrightarrow> frames w x \<noteq> Fresh)"
  proof (cases "1 < length ch")
    case True
    then obtain xs where ch: "ch = xs @ [c, ?cur]"
    proof -
      from inv(1,3) obtain zs where zs: "ch = zs @ [?cur]" by (metis append_butlast_last_id)
      with True obtain ys y where ys: "zs = ys @ [y]" by (cases zs rule: rev_cases) auto
      then have "y = c" using t True zs by (simp add: yield_target_def butlast_append)
      with zs ys that show thesis by simp
    qed
    have l: "lseg (heap w) None (xs @ [c]) (Some ?cur)" "co_next (heap w ?cur) = None"
      using inv(5) by (auto simp: ch lseg_append)
    have d: "?cur \<notin> set xs" "c \<notin> set xs" "c \<noteq> ?cur" "distinct xs" using inv(2) by (auto simp: ch)
    have f: "co_previous (?h x) = (if x = ?cur then None else co_previous (heap w x))"
      "co_next (?h x) = (if x = c then None else co_next (heap w x))" for x
      by (auto simp: yield_unlink_def)
    have "lseg ?h None (xs @ [c]) None"
    proof (rule lseg_change [OF l(1)])
      fix x assume "x \<in> set (tl (xs @ [c]))"
      then have "x \<noteq> ?cur" using d by (cases xs) auto
      then show "co_previous (?h x) = co_previous (heap w x)" by (simp add: f)
    next
      fix x assume "x \<in> set (butlast (xs @ [c]))"
      then show "co_next (?h x) = co_next (heap w x)" using d by (auto simp: f)
    next
      have "hd (xs @ [c]) \<noteq> ?cur" using d by (cases xs) auto
      then show "co_previous (?h (hd (xs @ [c]))) = None" using l(1) by (cases xs) (auto simp: f)
    qed (simp add: f)
    moreover have "?ch = xs @ [c]" using True by (simp add: yield_chain_def ch butlast_append)
    ultimately show ?thesis using d inv(4,6,7) l(2) by (auto simp: ch f)
  next
    case False
    then have ch: "ch = [?cur]" using inv(1,3) by (cases ch) auto
    from t False have s: "g_scheduler w = Some c" "c \<noteq> ?cur" by (auto simp: yield_target_def split: option.splits if_splits)
    with inv(8) have "c \<in> set (objs w)" "frames w c \<noteq> Fresh" by auto
    with inv(4,5,6) s(2) show ?thesis by (auto simp: ch yield_chain_def yield_unlink_def)
  qed
  then show "c \<noteq> ?cur" "c \<in> set (objs w)" "frames w c \<noteq> Fresh"
    "lseg ?h None ?ch None" "distinct ?ch" "last ?ch = c" "?ch \<noteq> []" "set ?ch \<subseteq> set (objs w)" "?cur \<notin> set ?ch"
    "\<And>x. x \<in> set (objs w) - set ?ch \<Longrightarrow> co_previous (?h x) = None \<and> co_next (?h x) = None"
    "\<And>x. x \<in> set ?ch \<Longrightarrow> x \<noteq> c \<Longrightarrow> frames w x \<noteq> Fresh" by auto
qed

lemma yield_ok:
  assumes ok: "co_chain w ch" and t: "yield_target w ch = Some c" and allowed: "\<not> g_switch_denied w"
    and live: "co_state (heap w (g_current w)) = STATE_RUNNING \<or>
      co_state (heap w (g_current w)) = STATE_DEAD \<and> \<not> cat_coroutine_is_alive (heap w (g_current w)) \<and>
      g_scheduler w \<noteq> Some (g_current w)"
    and data: "data = None \<or> co_flags (heap w c) AND FLAG_ACCEPT_DATA \<noteq> 0"
      "\<And>r. frames w c = In_Jump r \<Longrightarrow> r \<or> data = None"
  shows "\<exists>w'. cat_coroutine_yield now data want w = Done (Inr data, w') \<and> co_ok w' (yield_chain ch c) \<and>
    switched now c want (yield_unlink c w) w'"
proof -
  let ?w = "yield_unlink c w"
  note y = yield_links [OF ok t]
  have cur: "g_current w \<in> set (objs w)" "distinct (objs w)"
    using ok last_in_set [of ch] by (auto simp: co_chain_def)
  have wait: "\<And>x. x \<in> set (objs w) \<Longrightarrow> x \<noteq> g_current w \<Longrightarrow> co_state (heap w x) = STATE_WAITING"
    and sch: "\<And>s. g_scheduler w = Some s \<Longrightarrow> s \<in> set (objs w) \<and> (s = g_current w \<or> frames w s \<noteq> Fresh)"
    using ok unfolding co_chain_def by blast+
  have same: "co_state (heap ?w x) = co_state (heap w x)" "co_flags (heap ?w x) = co_flags (heap w x)"
    "cat_coroutine_is_alive (heap ?w x) = cat_coroutine_is_alive (heap w x)" for x
    by (auto simp: yield_unlink_def cat_coroutine_is_alive_def)
  have g: "g_current ?w = g_current w" "objs ?w = objs w" "frames ?w = frames w" "g_scheduler ?w = g_scheduler w"
    by (simp_all add: yield_unlink_def)
  have "\<exists>w'. cat_coroutine_jump_standard now c data want ?w = Done (Inr data, w') \<and> switched now c want ?w w'"
    using y(1,3) data live cur(1) by (intro jump_standard_switched) (auto simp: same g)
  then obtain w' where w': "cat_coroutine_jump_standard now c data want ?w = Done (Inr data, w')"
    "switched now c want ?w w'" by blast
  have "co_ok w' (yield_chain ch c)"
    using y cur wait sch live by (intro switched_ok [OF w'(2)]) (auto simp: same g)
  then show ?thesis using w' yield_eq [OF ok allowed] t by simp
qed

text \<open>A finishing coroutine leaves the chain like one that yields, and its object is freed.\<close>

lemma finish_ok:
  assumes ok: "co_ok w ch" and t: "yield_target w ch = Some c" and allowed: "\<not> g_switch_denied w"
    and now: "now \<noteq> 0" and notsch: "g_scheduler w \<noteq> Some (g_current w)"
    and data: "data = None \<or> co_flags (heap w c) AND FLAG_ACCEPT_DATA \<noteq> 0"
      "\<And>r. frames w c = In_Jump r \<Longrightarrow> r \<or> data = None"
  shows "\<exists>w'. context_finish now data w = Done (Inr data, w') \<and> co_ok w' (yield_chain ch c) \<and>
    objs w' = remove1 (g_current w) (objs w) \<and> g_current w' = c \<and> g_count w' = g_count w - 1"
proof -
  let ?cur = "g_current w"
  define w1 where "w1 = upd ?cur (\<lambda>c. c\<lparr>co_state := STATE_DEAD\<rparr>)
    ((upd ?cur (\<lambda>c. c\<lparr>co_end_time := now\<rparr>) w)\<lparr>g_count := g_count w - 1\<rparr>)"
  have g: "g_current w1 = ?cur" "objs w1 = objs w" "frames w1 = frames w" "g_scheduler w1 = g_scheduler w"
    "g_switch_denied w1 = g_switch_denied w" "g_count w1 = g_count w - 1"
    by (simp_all add: w1_def)
  have h: "co_previous (heap w1 x) = co_previous (heap w x)" "co_next (heap w1 x) = co_next (heap w x)"
    "co_flags (heap w1 x) = co_flags (heap w x)"
    "co_state (heap w1 x) = (if x = ?cur then STATE_DEAD else co_state (heap w x))"
    "co_end_time (heap w1 x) = (if x = ?cur then now else co_end_time (heap w x))" for x
    by (simp_all add: w1_def)
  have "lseg (heap w1) None ch None \<longleftrightarrow> lseg (heap w) None ch None" by (rule lseg_cong) (simp add: h)
  then have chain: "co_chain w1 ch" using ok unfolding co_ok_def co_chain_def by (simp add: g h)
  have t1: "yield_target w1 ch = Some c" using t unfolding yield_target_def g .
  have "\<exists>w'. cat_coroutine_yield now data False w1 = Done (Inr data, w') \<and> co_ok w' (yield_chain ch c) \<and>
    switched now c False (yield_unlink c w1) w'"
    using allowed data notsch now
    by (intro yield_ok [OF chain t1]) (auto simp: g h cat_coroutine_is_alive_def)
  then obtain w' where w': "cat_coroutine_yield now data False w1 = Done (Inr data, w')" "co_ok w' (yield_chain ch c)"
    "switched now c False (yield_unlink c w1) w'" by blast
  have "frames w c \<noteq> Fresh" using yield_links(3) [OF chain t1] by (simp add: g)
  then have "objs w' = remove1 ?cur (objs w) \<and> g_current w' = c \<and> g_count w' = g_count w - 1"
    using w'(3) by (simp add: switched_def yield_unlink_def g h)
  moreover have "context_finish now data w = Done (Inr data, w')"
    using w'(1) by (simp add: context_finish_def Let_def w1_def)
  ultimately show ?thesis using w'(2) by blast
qed

subsection \<open>Reachable states\<close>

text \<open>Times: every object is unfinished, and it has a start time exactly when it has been switched to.\<close>

definition co_times :: "co_world \<Rightarrow> bool" where
  "co_times w \<longleftrightarrow> (\<forall>x \<in> set (objs w). co_end_time (heap w x) = 0 \<and>
     (if x = g_current w \<or> frames w x \<noteq> Fresh then 0 < co_start_time (heap w x)
      else co_start_time (heap w x) = 0))"

definition co_inv :: "co_world \<Rightarrow> bool" where
  "co_inv w \<longleftrightarrow> (\<exists>ch. co_ok w ch) \<and> co_times w"

text \<open>Only these fields matter.\<close>

lemma co_inv_cong:
  assumes "g_current w' = g_current w" "objs w' = objs w" "g_scheduler w' = g_scheduler w" "frames w' = frames w"
    and h: "\<And>x. co_previous (heap w' x) = co_previous (heap w x) \<and> co_next (heap w' x) = co_next (heap w x) \<and>
      co_state (heap w' x) = co_state (heap w x) \<and> co_start_time (heap w' x) = co_start_time (heap w x) \<and>
      co_end_time (heap w' x) = co_end_time (heap w x)"
  shows "co_ok w' ch \<longleftrightarrow> co_ok w ch" "co_times w' \<longleftrightarrow> co_times w" "co_inv w' \<longleftrightarrow> co_inv w"
proof -
  have "lseg (heap w') None ch None \<longleftrightarrow> lseg (heap w) None ch None" for ch by (rule lseg_cong) (simp add: h)
  then have ok: "co_ok w' ch \<longleftrightarrow> co_ok w ch" for ch
    unfolding co_ok_def co_chain_def by (simp add: assms)
  then show "co_ok w' ch \<longleftrightarrow> co_ok w ch" .
  show t: "co_times w' \<longleftrightarrow> co_times w" unfolding co_times_def by (simp add: assms)
  have "co_ok w' = co_ok w" using ok by (intro ext)
  then show "co_inv w' \<longleftrightarrow> co_inv w" unfolding co_inv_def t by simp
qed

lemma co_times_switched:
  assumes sw: "switched now c want w w'" and t: "\<And>x. x \<in> set (objs w) \<Longrightarrow> x \<noteq> g_current w \<or> co_state (heap w x) \<noteq> STATE_DEAD \<Longrightarrow>
      co_end_time (heap w x) = 0 \<and> (if x = g_current w \<or> frames w x \<noteq> Fresh then 0 < co_start_time (heap w x)
      else co_start_time (heap w x) = 0)"
    and "now \<noteq> 0" "c \<noteq> g_current w" "distinct (objs w)"
  shows "co_times w'"
  unfolding co_times_def
proof
  fix x assume x: "x \<in> set (objs w')"
  have f: "objs w' = (if co_state (heap w (g_current w)) = STATE_DEAD then remove1 (g_current w) (objs w) else objs w)"
    "g_current w' = c" "frames w' = (frames w)(g_current w := In_Jump want)"
    "co_end_time (heap w' x) = co_end_time (heap w x)"
    "co_start_time (heap w' x) = (if x = c \<and> frames w c = Fresh then now else co_start_time (heap w x))"
    using sw unfolding switched_def by blast+
  have "x \<in> set (objs w)" "x \<noteq> g_current w \<or> co_state (heap w x) \<noteq> STATE_DEAD"
    using x assms(5) by (auto simp: f(1) split: if_splits)
  from t [OF this] show "co_end_time (heap w' x) = 0 \<and>
     (if x = g_current w' \<or> frames w' x \<noteq> Fresh then 0 < co_start_time (heap w' x) else co_start_time (heap w' x) = 0)"
    using assms(3,4) by (auto simp: f word_gt_0 split: if_splits)
qed

text \<open>A switch that returns has passed its assertions.\<close>

lemma jump_Done:
  assumes "cat_coroutine_jump_standard now c data want w = Done (r, w')" and "c \<noteq> g_current w"
  shows "data = None \<or> co_flags (heap w c) AND FLAG_ACCEPT_DATA \<noteq> 0"
    and "\<And>q. frames w c = In_Jump q \<Longrightarrow> q \<or> data = None"
proof -
  show "data = None \<or> co_flags (heap w c) AND FLAG_ACCEPT_DATA \<noteq> 0"
    using assms(1) by (auto simp: cat_coroutine_jump_standard_def Let_def c_assert_def split: if_splits)
  fix q assume "frames w c = In_Jump q"
  with assms show "q \<or> data = None"
    by (cases want) (auto simp: cat_coroutine_jump_standard_def jump_return_def Let_def c_assert_Done_iff c_bind_Done_iff)
qed

lemma resume_inv:
  assumes inv: "co_inv w" and now: "now \<noteq> 0" and r: "cat_coroutine_resume now c data want w = Done (r, w')"
  shows "co_inv w'"
proof (cases r)
  case (Inl e)
  then have "w' = w" using r
    by (auto simp: cat_coroutine_resume_def c_assert_Done_iff cat_coroutine_jump_standard_def jump_return_def
        context_start_def c_bind_Done_iff Let_def split: if_splits sum.splits co_frame.splits option.splits)
  with inv show ?thesis by simp
next
  case (Inr d)
  from inv obtain ch where ok: "co_ok w ch" and t: "co_times w" by (auto simp: co_inv_def)
  have nd: "\<not> g_switch_denied w" and c: "c \<in> set (objs w)"
    and wait: "co_state (heap w c) = STATE_WAITING"
    and j: "cat_coroutine_jump_standard now c data want (resume_relink c w) = Done (r, w')"
    using r Inr by (auto simp: cat_coroutine_resume_def c_assert_Done_iff cat_coroutine_check_resumability_def
        split: if_splits cat_coroutine_state_t.splits)
  have ne: "c \<noteq> g_current w" using ok wait by (auto simp: co_ok_def)
  have same: "co_flags (heap (resume_relink c w) x) = co_flags (heap w x)"
    "co_state (heap (resume_relink c w) x) = co_state (heap w x)"
    "co_start_time (heap (resume_relink c w) x) = co_start_time (heap w x)"
    "co_end_time (heap (resume_relink c w) x) = co_end_time (heap w x)" for x
    by (auto simp: resume_relink_def Let_def split: option.splits)
  from jump_Done [OF j] ne same have data: "data = None \<or> co_flags (heap w c) AND FLAG_ACCEPT_DATA \<noteq> 0"
    "\<And>q. frames w c = In_Jump q \<Longrightarrow> q \<or> data = None" by auto
  from resume_ok [OF ok c ne nd data, of now want] r obtain ch' where ok': "co_ok w' ch'" and sw: "switched now c want (resume_relink c w) w'"
    by auto
  have "co_times w'"
    using t now ne ok by (intro co_times_switched [OF sw]) (auto simp: co_times_def same co_ok_def co_chain_def)
  then show ?thesis using ok' by (auto simp: co_inv_def)
qed

lemma yield_inv:
  assumes chain: "co_chain w ch"
    and live: "co_state (heap w (g_current w)) = STATE_RUNNING \<or>
      co_state (heap w (g_current w)) = STATE_DEAD \<and> \<not> cat_coroutine_is_alive (heap w (g_current w)) \<and>
      g_scheduler w \<noteq> Some (g_current w)"
    and t: "\<And>x. x \<in> set (objs w) \<Longrightarrow> x \<noteq> g_current w \<or> co_state (heap w x) \<noteq> STATE_DEAD \<Longrightarrow>
      co_end_time (heap w x) = 0 \<and> (if x = g_current w \<or> frames w x \<noteq> Fresh then 0 < co_start_time (heap w x)
      else co_start_time (heap w x) = 0)"
    and now: "now \<noteq> 0" and r: "cat_coroutine_yield now data want w = Done (Inr d, w')"
  shows "co_inv w'"
proof -
  have nd: "\<not> g_switch_denied w" using r by (auto simp: cat_coroutine_yield_def split: if_splits)
  from r yield_eq [OF chain nd] obtain c where t1: "yield_target w ch = Some c"
    and j: "cat_coroutine_jump_standard now c data want (yield_unlink c w) = Done (Inr d, w')"
    by (auto split: option.splits)
  note y = yield_links [OF chain t1]
  have g: "g_current (yield_unlink c w) = g_current w" "frames (yield_unlink c w) = frames w"
    "objs (yield_unlink c w) = objs w" by (simp_all add: yield_unlink_def)
  have same: "co_flags (heap (yield_unlink c w) x) = co_flags (heap w x)"
    "co_state (heap (yield_unlink c w) x) = co_state (heap w x)"
    "co_start_time (heap (yield_unlink c w) x) = co_start_time (heap w x)"
    "co_end_time (heap (yield_unlink c w) x) = co_end_time (heap w x)" for x
    by (auto simp: yield_unlink_def)
  from jump_Done [OF j] y(1) g same have data: "data = None \<or> co_flags (heap w c) AND FLAG_ACCEPT_DATA \<noteq> 0"
    "\<And>q. frames w c = In_Jump q \<Longrightarrow> q \<or> data = None" by auto
  from yield_ok [OF chain t1 nd live data, of now want] r obtain ch' where ok': "co_ok w' ch'" and sw: "switched now c want (yield_unlink c w) w'"
    by auto
  have "co_times w'"
    using t now y(1) chain by (intro co_times_switched [OF sw]) (auto simp: g same co_chain_def)
  then show ?thesis using ok' by (auto simp: co_inv_def)
qed

lemma yield_refused: "cat_coroutine_yield now data want w = Done (Inl e, w') \<Longrightarrow> w' = w"
  by (auto simp: cat_coroutine_yield_def cat_coroutine_jump_standard_def jump_return_def context_start_def
      c_bind_Done_iff c_assert_Done_iff Let_def split: if_splits option.splits co_frame.splits)

text \<open>What coroutines do to the shared state between two program points: the calls of the module, each
  by the coroutine that is current.\<close>

inductive co_step :: "co_world \<Rightarrow> co_world \<Rightarrow> bool" where
  create: "c \<notin> set (objs w) \<Longrightarrow> cat_coroutine_create_ex pagesize c own sz mapped w = (r, w') \<Longrightarrow> co_step w w'"
| close: "cat_coroutine_close c w = Done (r, w') \<Longrightarrow> co_step w w'"
| resume: "now \<noteq> 0 \<Longrightarrow> cat_coroutine_resume now c data want w = Done (r, w') \<Longrightarrow> co_step w w'"
| yield: "now \<noteq> 0 \<Longrightarrow> cat_coroutine_yield now data want w = Done (r, w') \<Longrightarrow> co_step w w'"
| finish: "now \<noteq> 0 \<Longrightarrow> g_scheduler w \<noteq> Some (g_current w) \<Longrightarrow> g_current w \<noteq> g_main w \<Longrightarrow>
    context_finish now data w = Done (r, w') \<Longrightarrow> co_step w w'"
| scheduler_start: "now \<noteq> 0 \<Longrightarrow> g_scheduler w = None \<Longrightarrow> scheduler_start now w = Done (r, w') \<Longrightarrow> co_step w w'"
| scheduler_finish: "now \<noteq> 0 \<Longrightarrow> g_scheduler w = Some (g_current w) \<Longrightarrow> scheduler_finish now w = Done (r, w') \<Longrightarrow> co_step w w'"
| schedule: "now \<noteq> 0 \<Longrightarrow> cat_coroutine__schedule now c w = Done (r, w') \<Longrightarrow> co_step w w'"
| schedule_back: "co_step w (toggle_scheduling (g_current w) w)"
| wait_all: "now \<noteq> 0 \<Longrightarrow> cat_coroutine_wait_all now w = Done (r, w') \<Longrightarrow> co_step w w'"
| wait_all_return: "wait_all_return ret e w = Done (q, w') \<Longrightarrow> co_step w w'"
| deny: "co_step w (cat_coroutine_switch_deny w)"
| allow: "co_step w (cat_coroutine_switch_allow w)"
| set_flags: "co_step w (cat_coroutine_set_flags a flags w)"

definition co_start :: "co_world \<Rightarrow> bool" where
  "co_start w' \<longleftrightarrow> (\<exists>pagesize now m wq w. now \<noteq> 0 \<and> w' = cat_coroutine_runtime_init pagesize now m wq w)"

lemma co_startI: "now \<noteq> 0 \<Longrightarrow> co_start (cat_coroutine_runtime_init pagesize now m wq w)"
  unfolding co_start_def by blast

abbreviation co_reachable :: "co_world \<Rightarrow> bool" where
  "co_reachable \<equiv> reach co_start co_step"

lemma init_inv: "now \<noteq> 0 \<Longrightarrow> co_inv (cat_coroutine_runtime_init pagesize now m wq w)"
  unfolding co_inv_def co_ok_def co_chain_def co_times_def
  by (intro conjI exI [of _ "[m]"])
    (simp_all add: cat_coroutine_runtime_init_def cat_coroutine_set_default_stack_size_def Let_def main_coroutine_def word_gt_0)

lemma yield_step_inv:
  assumes "co_inv w" and "now \<noteq> 0" and "cat_coroutine_yield now data want w = Done (r, w')"
  shows "co_inv w'"
proof (cases r)
  case (Inl e)
  then show ?thesis using assms yield_refused by blast
next
  case (Inr d)
  from assms(1) obtain ch where "co_ok w ch" "co_times w" by (auto simp: co_inv_def)
  with Inr assms(2,3) show ?thesis
    by (intro yield_inv [of w ch now data want d]) (auto simp: co_ok_def co_times_def)
qed

lemma create_ok:
  assumes ok: "co_ok w ch" and c: "c \<notin> set (objs w)"
    and r: "cat_coroutine_create_ex pagesize c own sz True w = (r, w')"
  shows "co_ok w' ch" and "co_times w \<Longrightarrow> co_times w'"
proof -
  have cur: "g_current w \<in> set (objs w)" using ok last_in_set [of ch] by (auto simp: co_ok_def co_chain_def)
  have g: "g_current w' = g_current w" "objs w' = c # objs w" "g_scheduler w' = g_scheduler w"
    "frames w' = (frames w)(c := Fresh)" and h: "\<And>x. x \<noteq> c \<Longrightarrow> heap w' x = heap w x"
    and hc: "co_previous (heap w' c) = None" "co_next (heap w' c) = None" "co_state (heap w' c) = STATE_WAITING"
      "co_start_time (heap w' c) = 0" "co_end_time (heap w' c) = 0"
    using r by (auto simp: cat_coroutine_create_ex_def Let_def)
  have nin: "c \<notin> set ch" "c \<noteq> g_current w" using ok c cur by (auto simp: co_ok_def co_chain_def)
  then have seg: "lseg (heap w') None ch None \<longleftrightarrow> lseg (heap w) None ch None" by (intro lseg_cong) (metis h)
  have ho: "\<And>x. x \<in> set (objs w) \<Longrightarrow> heap w' x = heap w x" using h c by metis
  show "co_ok w' ch" using ok c nin cur seg ho unfolding co_ok_def co_chain_def by (auto simp: g hc)
  show "co_times w'" if "co_times w" using that c nin unfolding co_times_def by (auto simp: g hc ho)
qed

lemma create_inv:
  assumes inv: "co_inv w" and c: "c \<notin> set (objs w)"
    and r: "cat_coroutine_create_ex pagesize c own sz mapped w = (r, w')"
  shows "co_inv w'"
proof (cases mapped)
  case False
  then show ?thesis using inv r by (simp add: cat_coroutine_create_ex_def Let_def)
next
  case True
  then have r': "cat_coroutine_create_ex pagesize c own sz True w = (r, w')" using r by simp
  from inv obtain ch where ch: "co_ok w ch" "co_times w" by (auto simp: co_inv_def)
  show ?thesis unfolding co_inv_def using create_ok [OF ch(1) c r'] ch(2) by auto
qed

lemma close_inv:
  assumes inv: "co_inv w" and r: "cat_coroutine_close c w = Done (r, w')"
  shows "co_inv w'"
proof (cases "r = Inr ()")
  case False
  then have "w' = w" using r
    by (auto simp: cat_coroutine_close_def c_assert_Done_iff c_bind_Done_iff split: if_splits)
  then show ?thesis using inv by simp
next
  case True
  from inv obtain ch where ok: "co_ok w ch" and t: "co_times w" by (auto simp: co_inv_def)
  have c: "c \<in> set (objs w)" "\<not> cat_coroutine_is_alive (heap w c)" and w': "w' = w\<lparr>objs := remove1 c (objs w)\<rparr>"
    using r True by (auto simp: cat_coroutine_close_def cat_coroutine_free_def c_assert_Done_iff c_bind_Done_iff split: if_splits)
  from t c have f: "c \<noteq> g_current w" "frames w c = Fresh"
    by (auto simp: co_times_def cat_coroutine_is_alive_def split: if_splits)
  then have nin: "c \<notin> set ch" "g_scheduler w \<noteq> Some c" using ok by (auto simp: co_ok_def co_chain_def)
  have "set (remove1 c (objs w)) = set (objs w) - {c}" "distinct (objs w)" using ok by (auto simp: co_ok_def co_chain_def)
  then have "co_ok w' ch \<and> co_times w'"
    using ok t nin unfolding co_ok_def co_chain_def co_times_def by (auto simp: w')
  then show ?thesis by (auto simp: co_inv_def)
qed

lemma finish_step_inv:
  assumes inv: "co_inv w" and now: "now \<noteq> 0" and ns: "g_scheduler w \<noteq> Some (g_current w)"
    and r: "context_finish now data w = Done (r, w')"
  shows "co_inv w'"
proof -
  let ?cur = "g_current w"
  define w1 where "w1 = upd ?cur (\<lambda>c. c\<lparr>co_state := STATE_DEAD\<rparr>)
    ((upd ?cur (\<lambda>c. c\<lparr>co_end_time := now\<rparr>) w)\<lparr>g_count := g_count w - 1\<rparr>)"
  from inv obtain ch where ok: "co_ok w ch" and t: "co_times w" by (auto simp: co_inv_def)
  have g: "g_current w1 = ?cur" "objs w1 = objs w" "frames w1 = frames w" "g_scheduler w1 = g_scheduler w"
    by (simp_all add: w1_def)
  have h: "co_previous (heap w1 x) = co_previous (heap w x)" "co_next (heap w1 x) = co_next (heap w x)"
    "co_state (heap w1 x) = (if x = ?cur then STATE_DEAD else co_state (heap w x))"
    "co_start_time (heap w1 x) = co_start_time (heap w x)"
    "co_end_time (heap w1 x) = (if x = ?cur then now else co_end_time (heap w x))" for x
    by (simp_all add: w1_def)
  have "lseg (heap w1) None ch None \<longleftrightarrow> lseg (heap w) None ch None" by (rule lseg_cong) (simp add: h)
  then have chain: "co_chain w1 ch" using ok unfolding co_ok_def co_chain_def by (simp add: g h)
  from r obtain d where d: "cat_coroutine_yield now data False w1 = Done (Inr d, w')"
    unfolding context_finish_def Let_def c_bind_call_Done w1_def by auto
  show ?thesis
    using t ns now by (intro yield_inv [OF chain _ _ now d]) (auto simp: g h co_times_def cat_coroutine_is_alive_def)
qed

text \<open>The steps that are made of several: registering the scheduler, scheduling, waiting for all.\<close>

lemma scheduler_start_inv:
  assumes inv: "co_inv w" and "now \<noteq> 0" and s: "scheduler_start now w = Done (r, w')"
  shows "co_inv w'"
proof -
  let ?w = "w\<lparr>g_scheduler := Some (g_current w), g_count := g_count w - 1\<rparr>"
  from inv obtain ch where ok: "co_ok w ch" and t: "co_times w" by (auto simp: co_inv_def)
  have "g_current w \<in> set (objs w)" using ok last_in_set [of ch] by (auto simp: co_ok_def co_chain_def)
  then have "co_ok ?w ch \<and> co_times ?w" using ok t by (auto simp: co_ok_def co_chain_def co_times_def)
  then have "co_inv ?w" by (auto simp: co_inv_def)
  then show ?thesis using assms yield_step_inv [of ?w] by (auto simp: scheduler_start_def)
qed

lemma scheduler_finish_inv:
  assumes inv: "co_inv w" and "now \<noteq> 0" "g_scheduler w = Some (g_current w)" and s: "scheduler_finish now w = Done (r, w')"
  shows "co_inv w'"
proof -
  let ?w = "w\<lparr>g_count := g_count w + 1, g_scheduler := None\<rparr>"
  from inv obtain ch where "co_ok w ch" "co_times w" by (auto simp: co_inv_def)
  then have "co_ok ?w ch \<and> co_times ?w" by (auto simp: co_ok_def co_chain_def co_times_def)
  then have "co_inv ?w" by (auto simp: co_inv_def)
  then show ?thesis using assms finish_step_inv [of ?w] by (auto simp: scheduler_finish_def)
qed

lemma toggle_inv: "co_inv (toggle_scheduling a w) \<longleftrightarrow> co_inv w"
  by (rule co_inv_cong(3)) (simp_all add: toggle_scheduling_def)

lemma schedule_inv:
  assumes inv: "co_inv w" and now: "now \<noteq> 0" and s: "cat_coroutine__schedule now c w = Done (r, w')"
  shows "co_inv w'"
proof -
  let ?w = "upd (g_current w) (\<lambda>x. x\<lparr>co_flags := co_flags x OR FLAG_SCHEDULING\<rparr>) w"
  have "co_inv ?w" using inv co_inv_cong(3) [of ?w w] by simp
  from s obtain q w1 where q: "cat_coroutine_resume now c None False ?w = Done (q, w1)"
    and w': "w' = w1 \<or> w' = toggle_scheduling (g_current w) w1"
    unfolding cat_coroutine__schedule_def Let_def c_bind_call_Done by auto
  have "co_inv w1" using resume_inv [OF \<open>co_inv ?w\<close> now q] .
  then show ?thesis using w' toggle_inv by auto
qed

lemma wait_all_return_inv: "wait_all_return ret e w = Done (q, w') \<Longrightarrow> co_inv w \<Longrightarrow> co_inv w'"
proof -
  assume r: "wait_all_return ret e w = Done (q, w')" and inv: "co_inv w"
  have "w' = w\<lparr>g_waiter_count := g_waiter_count w - 1, links := cat_queue_remove (g_current w) (links w)\<rparr>"
    using r by (auto simp: wait_all_return_def Let_def split: option.splits if_splits)
  then show ?thesis using inv co_inv_cong(3) [of w' w] by simp
qed

lemma wait_all_inv:
  assumes inv: "co_inv w" and now: "now \<noteq> 0" and s: "cat_coroutine_wait_all now w = Done (r, w')"
  shows "co_inv w'"
proof -
  let ?w = "w\<lparr>links := cat_queue_push_back (g_waiters w) (g_current w) (links w), g_waiter_count := g_waiter_count w + 1\<rparr>"
  have i: "co_inv ?w" using inv co_inv_cong(3) [of ?w w] by simp
  from s obtain q w1 where q: "cat_coroutine_yield now None False ?w = Done (q, w1)"
    and w': "w' = w1 \<or> (\<exists>e q'. wait_all_return False e w1 = Done (q', w'))"
    unfolding cat_coroutine_wait_all_def Let_def c_bind_call_Done by (auto simp: c_bind_Done_iff)
  then show ?thesis using yield_step_inv [OF i now q] wait_all_return_inv by blast
qed

lemma co_flags_inv:
  "co_inv (cat_coroutine_switch_deny w) \<longleftrightarrow> co_inv w" "co_inv (cat_coroutine_switch_allow w) \<longleftrightarrow> co_inv w"
  "co_inv (cat_coroutine_set_flags a flags w) \<longleftrightarrow> co_inv w"
  by (rule co_inv_cong(3);
      simp add: cat_coroutine_switch_deny_def cat_coroutine_switch_allow_def cat_coroutine_set_flags_def)+

lemma co_step_inv: "co_step w w' \<Longrightarrow> co_inv w \<Longrightarrow> co_inv w'"
  by (induction rule: co_step.induct)
    (auto simp: co_flags_inv toggle_inv
      intro: create_inv close_inv resume_inv yield_step_inv finish_step_inv scheduler_start_inv
        scheduler_finish_inv schedule_inv wait_all_inv wait_all_return_inv)

interpretation co: machine co_start co_step co_inv
  by unfold_locales (auto simp: co_start_def intro: init_inv co_step_inv)

subsection \<open>Notification\<close>

lemma or_and_self: "((x :: 'a::len word) OR m) AND m = m"
  by (rule bit_word_eqI) (auto simp: bit_simps)

text \<open>What a notified waiter does: it returns from \<^verbatim>\<open>cat_coroutine_wait_all\<close>, then waits again or not, and
  gives control back.\<close>

definition waiter_runs :: "(addr \<Rightarrow> bool) \<Rightarrow> cat_msec_t \<Rightarrow> co_world \<Rightarrow> co_world c_run" where
  "waiter_runs again now w =
     c_bind (wait_all_return True CAT_ECANCELED w) (\<lambda>(q, w).
       case q of Inl e \<Rightarrow> Undefined
       | Inr _ \<Rightarrow>
           c_bind (if again (g_current w) then cat_coroutine_wait_all now w else cat_coroutine_yield now None False w)
             (\<lambda>(r, w). Done w))"

definition notify_ok :: "addr \<Rightarrow> addr \<Rightarrow> addr list \<Rightarrow> co_world \<Rightarrow> bool" where
  "notify_ok s q ws w \<longleftrightarrow>
     co_ok w [s] \<and> \<not> g_switch_denied w \<and> g_waiters w = q \<and> queue_of (links w) q ws \<and>
     (\<forall>c \<in> set ws. c \<in> set (objs w) \<and> c \<noteq> s \<and> frames w c = In_Jump False)"

lemma notify_step:
  assumes ok: "notify_ok s q (c # ws) w"
  shows "\<exists>w1 w2. cat_coroutine__schedule now c w = Done (Inr None, w1) \<and>
    waiter_runs again now w1 = Done w2 \<and>
    notify_ok s q (ws @ (if again c then [c] else [])) w2 \<and>
    g_waiter_count w2 = g_waiter_count w - 1 + (if again c then 1 else 0)"
proof -
  let ?w0 = "upd s (\<lambda>x. x\<lparr>co_flags := co_flags x OR FLAG_SCHEDULING\<rparr>) w"
  have ok1: "co_ok w [s]" and nd: "\<not> g_switch_denied w" and q: "g_waiters w = q" "queue_of (links w) q (c # ws)"
    and c: "c \<in> set (objs w)" "c \<noteq> s" "frames w c = In_Jump False"
    and ws: "\<forall>x \<in> set ws. x \<in> set (objs w) \<and> x \<noteq> s \<and> frames w x = In_Jump False"
    using ok by (auto simp: notify_ok_def)
  have cur: "g_current w = s" using ok1 by (simp add: co_ok_def co_chain_def)
  have dist: "c \<notin> set ws" "c \<noteq> q" "q \<notin> set ws" using cq.repr_distinct [OF q(2)] by auto
  have ok0: "co_ok ?w0 [s]" using ok1 co_inv_cong(1) [of ?w0 w "[s]"] by simp
  from resume_ok [OF ok0, of c None now False] c nd cur obtain w1 where w1:
    "cat_coroutine_resume now c None False ?w0 = Done (Inr None, w1)" "co_ok w1 [s, c]"
    and sw: "switched now c False (resume_relink c ?w0) w1" by auto
  have f1: "g_current w1 = c" "g_switch_denied w1 = g_switch_denied w" "links w1 = links w" "g_waiters w1 = q"
    "g_waiter_count w1 = g_waiter_count w" "objs w1 = objs w" "frames w1 = (frames w)(s := In_Jump False)"
    using sw c cur q ok1 by (auto simp: switched_def relink_fields co_ok_def co_chain_def)
  have from_c: "co_from (heap w1 c) = Some s" using sw cur by (auto simp: switched_def)
  have "co_flags (heap w1 s) = co_flags (heap w s) OR FLAG_SCHEDULING"
    using sw cur c by (auto simp: switched_def resume_relink_def Let_def split: option.splits)
  then have sched: "co_flags (heap w1 s) AND FLAG_SCHEDULING \<noteq> 0" by (simp add: or_and_self)
  define w2 where "w2 = w1\<lparr>g_waiter_count := g_waiter_count w - 1, links := cat_queue_remove c (links w)\<rparr>"
  have ret: "wait_all_return True CAT_ECANCELED w1 = Done (Inr (), w2)"
    using from_c sched by (simp add: wait_all_return_def f1 w2_def)
  have q2: "queue_of (links w2) q ws" using cq.pop_front [OF q(2)] by (simp add: w2_def)
  define w3 where "w3 = (if again c then w2\<lparr>links := cat_queue_push_back q c (links w2), g_waiter_count := g_waiter_count w2 + 1\<rparr> else w2)"
  have q3: "queue_of (links w3) q (ws @ (if again c then [c] else []))"
    using cq.repr_push_back [OF q2, of c] q2 dist by (auto simp: w3_def)
  have g3: "g_current w3 = c" "g_switch_denied w3 = g_switch_denied w" "objs w3 = objs w" "frames w3 = frames w1"
    "heap w3 = heap w1" "g_scheduler w3 = g_scheduler w1" "g_waiters w3 = q"
    "g_waiter_count w3 = g_waiter_count w - 1 + (if again c then 1 else 0)"
    by (simp_all add: w3_def w2_def f1)
  have ok3: "co_ok w3 [s, c]" using w1(2) co_inv_cong(1) [of w3 w1 "[s, c]"] g3 f1 by simp
  have t3: "yield_target w3 [s, c] = Some s" by (simp add: yield_target_def)
  have ch3: "co_chain w3 [s, c]" and run3: "co_state (heap w3 (g_current w3)) = STATE_RUNNING" using ok3 by (auto simp: co_ok_def)
  have fs: "frames w3 s = In_Jump False" by (simp add: g3(4) f1(7))
  from yield_ok [OF ch3 t3, of None now False] run3 nd g3 fs obtain w4 where w4:
    "cat_coroutine_yield now None False w3 = Done (Inr None, w4)" "co_ok w4 [s]"
    and sw4: "switched now s False (yield_unlink s w3) w4" by (auto simp: yield_chain_def)
  have f4: "g_switch_denied w4 = g_switch_denied w" "links w4 = links w3" "g_waiters w4 = q" "objs w4 = objs w"
    "g_waiter_count w4 = g_waiter_count w3" "frames w4 = (frames w3)(c := In_Jump False)"
    using sw4 g3 run3 by (auto simp: switched_def yield_unlink_def)
  have "waiter_runs again now w1 = Done w4"
    using ret w4(1) by (auto simp: waiter_runs_def cat_coroutine_wait_all_def w3_def w2_def f1)
  moreover have "notify_ok s q (ws @ (if again c then [c] else [])) w4"
    using w4(2) f4 q3 nd ws c(1,2) by (auto simp: notify_ok_def g3 f1)
  moreover have "cat_coroutine__schedule now c w = Done (Inr None, w1)"
    using w1(1) by (simp add: cat_coroutine__schedule_def cur)
  ultimately show ?thesis using f4(5) g3(8) by auto
qed

lemma notify_loop_spec:
  "notify_ok s q (xs @ rs) w \<Longrightarrow>
   \<exists>w'. notify_loop (length xs) (waiter_runs again now) now w = Done w' \<and>
     notify_ok s q (rs @ filter again xs) w' \<and>
     g_waiter_count w' = g_waiter_count w - of_nat (length xs) + of_nat (length (filter again xs))"
proof (induction xs arbitrary: rs w)
  case (Cons c xs)
  from notify_step [of s q c "xs @ rs" w now again] Cons.prems obtain w1 w2 where
    w1: "cat_coroutine__schedule now c w = Done (Inr None, w1)" "waiter_runs again now w1 = Done w2"
    "notify_ok s q (xs @ rs @ (if again c then [c] else [])) w2"
    "g_waiter_count w2 = g_waiter_count w - 1 + (if again c then 1 else 0)" by auto
  have cur: "g_current w = s" using Cons.prems by (simp add: notify_ok_def co_ok_def co_chain_def)
  let ?w2 = "toggle_scheduling s w2"
  have g: "g_switch_denied ?w2 = g_switch_denied w2" "g_waiters ?w2 = g_waiters w2" "links ?w2 = links w2"
    "objs ?w2 = objs w2" "frames ?w2 = frames w2" "g_waiter_count ?w2 = g_waiter_count w2"
    by (simp_all add: toggle_scheduling_def)
  have "co_ok ?w2 [s] \<longleftrightarrow> co_ok w2 [s]" by (rule co_inv_cong(1)) (simp_all add: toggle_scheduling_def)
  then have "notify_ok s q (xs @ rs @ (if again c then [c] else [])) ?w2"
    using w1(3) unfolding notify_ok_def g by simp
  from Cons.IH [OF this] obtain w' where w': "notify_loop (length xs) (waiter_runs again now) now ?w2 = Done w'"
    "notify_ok s q ((rs @ (if again c then [c] else [])) @ filter again xs) w'"
    "g_waiter_count w' = g_waiter_count ?w2 - of_nat (length xs) + of_nat (length (filter again xs))" by blast
  have fr: "cat_queue_front (g_waiters w) (links w) = Some c"
    using Cons.prems cq.pop_front [of "links w" q c "xs @ rs"] by (simp add: notify_ok_def)
  have "notify_loop (length (c # xs)) (waiter_runs again now) now w = Done w'"
    using fr w1(1,2) w'(1) by (simp add: cur)
  moreover have "g_waiter_count w' = g_waiter_count w - of_nat (length (c # xs)) + of_nat (length (filter again (c # xs)))"
    using w'(3) w1(4) by (simp add: g)
  ultimately show ?case using w'(2) by (cases "again c") auto
qed simp

subsection \<open>Sizes\<close>

lemma align_stack_size_bounds:
  assumes "n \<le> 17" and "sz \<noteq> 0"
  shows "131072 \<le> unat (cat_coroutine_align_stack_size (2 ^ n) d sz) \<and>
    unat (cat_coroutine_align_stack_size (2 ^ n) d sz) \<le> 16777216 \<and>
    2 ^ n dvd unat (cat_coroutine_align_stack_size (2 ^ n) d sz)"
proof -
  have dv: "(2 :: nat) ^ n dvd 131072" "(2 :: nat) ^ n dvd 16777216"
    using le_imp_power_dvd [of n 17 "2 :: nat"] le_imp_power_dvd [of n 24 "2 :: nat"] assms(1) by simp_all
  have cast: "unat (ucast (x :: size_t) :: u32) = unat x" if "unat x \<le> 16777216" for x
    using that by (simp add: unsigned_ucast_eq take_bit_nat_eq_self)
  show ?thesis
  proof (cases "sz < 131072 \<or> 16777216 < sz")
    case True
    then show ?thesis using assms(2) dv by (auto simp: cat_coroutine_align_stack_size_def)
  next
    case False
    let ?a = "CAT_MEMORY_ALIGNED_SIZE_EX sz (2 ^ n)"
    define a :: nat where "a = 2 ^ n"
    have a: "0 < a" "a \<le> 131072" using dv(1) dvd_imp_le [of a 131072] by (auto simp: a_def)
    have b: "131072 \<le> unat sz" "unat sz \<le> 16777216" using False by (auto simp: word_less_nat_alt)
    have "unat ?a = (unat sz + (2 ^ n - 1)) div 2 ^ n * 2 ^ n"
      using assms(1) a b by (intro aligned_size_unat) (auto simp: a_def)
    then have u: "unat ?a = (unat sz + (a - 1)) div a * a" by (simp add: a_def)
    have "unat sz + (a - 1) < 16777216 + a" using a b by linarith
    moreover obtain k where k: "16777216 = k * a" using dv(2) by (auto simp: a_def dvd_def mult.commute)
    ultimately have "unat sz + (a - 1) < Suc k * a" by simp
    then have "(unat sz + (a - 1)) div a < Suc k" using a(1) by (simp add: div_less_iff_less_mult)
    then have hi: "unat ?a \<le> 16777216" unfolding u k by (intro mult_le_mono1) simp
    have "(unat sz + (a - 1)) div a * a + (unat sz + (a - 1)) mod a = unat sz + (a - 1)" by simp
    moreover have "(unat sz + (a - 1)) mod a < a" using a(1) by simp
    ultimately have lo: "unat sz \<le> unat ?a" unfolding u by linarith
    have "2 ^ n dvd unat ?a" unfolding u a_def by simp
    then show ?thesis using False assms(2) hi lo b cast [OF hi] by (simp add: cat_coroutine_align_stack_size_def)
  qed
qed

subsection \<open>Starting the scheduler\<close>

lemma scheduler_run_ok:
  assumes ok: "co_ok w ch" and none: "g_scheduler w = None" and c: "c \<notin> set (objs w)" and nd: "\<not> g_switch_denied w"
  shows "\<exists>w'. cat_coroutine_scheduler_run pagesize now c own True d w = Done (Inr c, w') \<and>
    g_scheduler w' = Some c \<and> co_id (heap w' c) = CAT_COROUTINE_SCHEDULER_ID \<and> g_last_id w' = g_last_id w \<and>
    g_current w' = g_current w \<and> co_ok w' ch \<and> g_count w' = g_count w"
proof -
  let ?w0 = "w\<lparr>g_last_id := CAT_COROUTINE_SCHEDULER_ID\<rparr>"
  obtain w1 where w1: "cat_coroutine_create_ex pagesize c own 0 True ?w0 = (Inr c, w1)"
    by (simp add: cat_coroutine_create_ex_def Let_def)
  have f1: "g_current w1 = g_current w" "objs w1 = c # objs w" "g_scheduler w1 = None" "frames w1 c = Fresh"
    "g_switch_denied w1 = g_switch_denied w" "g_count w1 = g_count w" "co_id (heap w1 c) = CAT_COROUTINE_SCHEDULER_ID"
    "co_flags (heap w1 c) = (if own then FLAG_ALLOCATED else 0) OR FLAG_ACCEPT_DATA"
    using w1 none by (auto simp: cat_coroutine_create_ex_def Let_def)
  define w2 where "w2 = w1\<lparr>g_last_id := g_last_id w\<rparr>"
  have "co_ok ?w0 ch" using ok co_inv_cong(1) [of ?w0 w ch] by simp
  from create_ok(1) [OF this _ w1] c have "co_ok w1 ch" by simp
  then have ok2: "co_ok w2 ch" using co_inv_cong(1) [of w2 w1 ch] by (simp add: w2_def)
  have inv: "ch \<noteq> []" "last ch = g_current w" "set ch \<subseteq> set (objs w)" using ok by (auto simp: co_ok_def co_chain_def)
  then have nin: "c \<notin> set ch" "c \<noteq> g_current w" using c last_in_set [of ch] by auto
  have "co_flags (heap w2 c) AND FLAG_ACCEPT_DATA = FLAG_ACCEPT_DATA" using f1 by (simp only: w2_def) (simp add: or_and_self)
  then have acc: "co_flags (heap w2 c) AND FLAG_ACCEPT_DATA \<noteq> 0" by simp
  have "\<exists>w'. cat_coroutine_resume now c (Some d) False w2 = Done (Inr (Some d), w') \<and>
    co_ok w' (remove1 c ch @ [c]) \<and> switched now c False (resume_relink c w2) w'"
    using acc f1 nin nd by (intro resume_ok [OF ok2]) (auto simp: w2_def)
  then obtain w3 where w3: "cat_coroutine_resume now c (Some d) False w2 = Done (Inr (Some d), w3)"
    "co_ok w3 (ch @ [c])" and sw3: "switched now c False (resume_relink c w2) w3"
    using nin(1) by (auto simp: remove1_idem)
  have id2: "co_id (heap (resume_relink c w2) c) = co_id (heap w2 c)"
    by (auto simp: resume_relink_def Let_def split: option.splits)
  have f3: "g_current w3 = c" "g_last_id w3 = g_last_id w" "g_count w3 = g_count w + 1" "g_switch_denied w3 = g_switch_denied w"
    "frames w3 (g_current w) = In_Jump False" "co_id (heap w3 c) = CAT_COROUTINE_SCHEDULER_ID"
    using sw3 f1 id2 by (auto simp: switched_def w2_def)
  define w4 where "w4 = w3\<lparr>g_scheduler := Some c, g_count := g_count w\<rparr>"
  have ch4: "co_chain w4 (ch @ [c])" and run4: "co_state (heap w4 (g_current w4)) = STATE_RUNNING"
    using w3(2) f3 by (auto simp: co_ok_def co_chain_def w4_def)
  have t4: "yield_target w4 (ch @ [c]) = Some (g_current w)" using inv by (cases ch rule: rev_cases) (auto simp: yield_target_def butlast_append)
  have "\<exists>w'. cat_coroutine_yield now None False w4 = Done (Inr None, w') \<and>
    co_ok w' (yield_chain (ch @ [c]) (g_current w)) \<and> switched now (g_current w) False (yield_unlink (g_current w) w4) w'"
    using run4 nd f3 by (intro yield_ok [OF ch4 t4]) (auto simp: w4_def)
  then obtain w5 where w5: "cat_coroutine_yield now None False w4 = Done (Inr None, w5)"
    "co_ok w5 ch" and sw5: "switched now (g_current w) False (yield_unlink (g_current w) w4) w5"
    using inv(1) by (auto simp: yield_chain_def)
  have f5: "g_scheduler w5 = Some c" "g_last_id w5 = g_last_id w" "g_current w5 = g_current w" "g_count w5 = g_count w"
    "co_id (heap w5 c) = CAT_COROUTINE_SCHEDULER_ID"
    using sw5 f3 by (auto simp: switched_def w4_def yield_unlink_def)
  have st: "scheduler_start now w3 = Done (Inr None, w5)" using w5(1) f3 by (simp add: scheduler_start_def w4_def)
  have "cat_coroutine_scheduler_run pagesize now c own True d w = Done (Inr c, w5)"
    using none w1 w3(1) st f5(1) by (simp add: cat_coroutine_scheduler_run_def cat_coroutine_create_def Let_def w2_def)
  with f5 w5(2) show ?thesis by blast
qed

subsection \<open>Correctness of the coroutines\<close>

text \<open>C6: in every state the module can reach from its initialisation, by any interleaving of creating,
  resuming, yielding, finishing, closing, scheduling and waiting, the coroutines form one chain that
  ends in the current one: it alone is running, every other object is waiting, the \<open>previous\<close> and \<open>next\<close>
  pointers link exactly the chain in order, objects outside it have none, and every object that has
  run is alive.\<close>

theorem coroutine_invariant:
  assumes "co_reachable w"
  shows "(\<exists>ch. ch \<noteq> [] \<and> distinct ch \<and> last ch = g_current w \<and> set ch \<subseteq> set (objs w) \<and>
      lseg (heap w) None ch None \<and>
      (\<forall>x \<in> set (objs w) - set ch. co_previous (heap w x) = None \<and> co_next (heap w x) = None)) \<and>
    (\<forall>x \<in> set (objs w). co_state (heap w x) = (if x = g_current w then STATE_RUNNING else STATE_WAITING)) \<and>
    (\<forall>x \<in> set (objs w). x = g_current w \<or> frames w x \<noteq> Fresh \<longrightarrow> cat_coroutine_is_alive (heap w x))"
proof -
  from co.reach_inv [OF assms] obtain ch where ok: "co_ok w ch" and t: "co_times w" by (auto simp: co_inv_def)
  show ?thesis
  proof (intro conjI)
    show "\<exists>ch. ch \<noteq> [] \<and> distinct ch \<and> last ch = g_current w \<and> set ch \<subseteq> set (objs w) \<and>
      lseg (heap w) None ch None \<and>
      (\<forall>x \<in> set (objs w) - set ch. co_previous (heap w x) = None \<and> co_next (heap w x) = None)"
      using ok unfolding co_ok_def co_chain_def by blast
  qed (use ok t in \<open>auto simp: co_ok_def co_chain_def co_times_def cat_coroutine_is_alive_def split: if_splits\<close>)
qed

definition idle_world :: co_world where
  "idle_world = \<lparr>g_default_stack_size = 0, g_current = 0, g_main = 0, g_scheduler = None, g_waiters = 0,
     g_waiter_count = 0, g_switch_denied = False, g_deadlocked = False, g_last_id = 0, g_count = 0,
     g_peak_count = 0, g_switches = 0, objs = [], heap = \<lambda>_. main_coroutine 0, frames = \<lambda>_. Fresh,
     links = \<lparr>qnext = \<lambda>_. 0, qprev = \<lambda>_. 0\<rparr>\<rparr>"

definition started_world :: co_world where
  "started_world = cat_coroutine_runtime_init 4096 5 1 9 idle_world"

definition two_world :: co_world where
  "two_world = snd (cat_coroutine_create 4096 2 True True started_world)"

lemmas example_worlds = two_world_def started_world_def idle_world_def cat_coroutine_create_def
  cat_coroutine_create_ex_def cat_coroutine_runtime_init_def cat_coroutine_set_default_stack_size_def
  main_coroutine_def Let_def

lemma two_world_ok: "co_ok two_world [1]"
  by (simp add: example_worlds co_ok_def co_chain_def)

theorem coroutine_invariant_witness:
  "\<exists>ch. last ch = g_current two_world \<and> lseg (heap two_world) None ch None"
proof -
  have "co_reachable started_world" unfolding started_world_def
    by (rule reach.reach_start) (rule co_startI, simp)
  moreover have "co_step started_world two_world"
    unfolding two_world_def cat_coroutine_create_def
    by (rule co_step.create [OF _ prod.collapse [symmetric]]) (simp add: example_worlds)
  ultimately have "co_reachable two_world" by (rule reach.reach_step)
  from coroutine_invariant [OF this] show ?thesis by blast
qed

text \<open>Resuming a waiting coroutine, wherever it is, makes it current, moves it to the end of the
  chain behind the resuming coroutine (out of the middle of the chain, if it was there) and keeps
  the order of all others.\<close>

theorem resume_moves_to_end:
  assumes "co_ok w ch" and "c \<in> set (objs w)" and "c \<noteq> g_current w" and "\<not> g_switch_denied w"
  shows "\<exists>w'. cat_coroutine_resume now c None want w = Done (Inr None, w') \<and> g_current w' = c \<and>
    co_ok w' (remove1 c ch @ [c]) \<and> objs w' = objs w \<and> co_from (heap w' c) = Some (g_current w)"
proof -
  from resume_ok [OF assms, of None now want] obtain w' where w':
    "cat_coroutine_resume now c None want w = Done (Inr None, w')" "co_ok w' (remove1 c ch @ [c])"
    "switched now c want (resume_relink c w) w'" by auto
  have "co_state (heap (resume_relink c w) (g_current w)) = STATE_RUNNING"
    using assms(1) by (auto simp: resume_relink_def Let_def co_ok_def split: option.splits)
  with w' show ?thesis by (auto simp: switched_def)
qed

theorem resume_moves_to_end_witness:
  "\<exists>w'. cat_coroutine_resume 7 2 None False two_world = Done (Inr None, w') \<and> g_current w' = 2 \<and> co_ok w' [1, 2]"
  using resume_moves_to_end [OF two_world_ok, of 2 7 False] by (auto simp: example_worlds)

text \<open>A coroutine that is resumed and yields gives control back to the coroutine that resumed it,
  which receives the data of the yield when it asked for it; the resumed one is out of the chain.\<close>

theorem resume_yield_round_trip:
  assumes "co_ok w ch" and "c \<in> set (objs w)" and "c \<noteq> g_current w" and "\<not> g_switch_denied w"
  shows "\<exists>w1 w2. cat_coroutine_resume now c None True w = Done (Inr None, w1) \<and> g_current w1 = c \<and>
    cat_coroutine_yield now' (Some d) want w1 = Done (Inr (Some d), w2) \<and>
    g_current w2 = g_current w \<and> co_ok w2 (remove1 c ch)"
proof -
  from resume_ok [OF assms, of None now True] obtain w1 where w1:
    "cat_coroutine_resume now c None True w = Done (Inr None, w1)" "co_ok w1 (remove1 c ch @ [c])"
    and sw: "switched now c True (resume_relink c w) w1" by auto
  have inv: "ch \<noteq> []" "last ch = g_current w" "distinct ch" using assms(1) by (auto simp: co_ok_def co_chain_def)
  then obtain xs where ch: "ch = xs @ [g_current w]" by (metis append_butlast_last_id)
  have r: "remove1 c ch = remove1 c xs @ [g_current w]" using assms(3) by (simp add: ch remove1_append remove1_idem)
  have t: "yield_target w1 (remove1 c ch @ [c]) = Some (g_current w)" by (simp add: yield_target_def r butlast_append)
  have f: "g_current w1 = c" "g_switch_denied w1 = g_switch_denied w" "frames w1 (g_current w) = In_Jump True"
    using sw by (auto simp: switched_def)
  have "co_flags (heap w1 (g_current w)) AND FLAG_ACCEPT_DATA = FLAG_ACCEPT_DATA"
    using sw assms(3) by (simp add: switched_def or_and_self)
  then have acc: "co_flags (heap w1 (g_current w)) AND FLAG_ACCEPT_DATA \<noteq> 0" by simp
  have "co_chain w1 (remove1 c ch @ [c])" "co_state (heap w1 (g_current w1)) = STATE_RUNNING"
    using w1(2) by (auto simp: co_ok_def)
  from yield_ok [OF this(1) t, of "Some d" now' want] this(2) f acc assms(4) obtain w2 where w2:
    "cat_coroutine_yield now' (Some d) want w1 = Done (Inr (Some d), w2)"
    "co_ok w2 (yield_chain (remove1 c ch @ [c]) (g_current w))" "switched now' (g_current w) want (yield_unlink (g_current w) w1) w2"
    by auto
  have "yield_chain (remove1 c ch @ [c]) (g_current w) = remove1 c ch" by (simp add: yield_chain_def r butlast_append)
  with w1 w2 f show ?thesis by (auto simp: switched_def)
qed

theorem resume_yield_round_trip_witness:
  "\<exists>w1 w2. cat_coroutine_resume 7 2 None True two_world = Done (Inr None, w1) \<and>
    cat_coroutine_yield 8 (Some 33) False w1 = Done (Inr (Some 33), w2) \<and> g_current w2 = 1"
  using resume_yield_round_trip [OF two_world_ok, of 2 7 8 33 False] by (auto simp: example_worlds)

text \<open>A coroutine whose function returns goes back to the coroutine before it in the chain (or to the
  scheduler), and its object is freed there, once and only then, with the count taken down.\<close>

theorem finish_frees_object:
  assumes "co_ok w ch" and "yield_target w ch = Some c" and "\<not> g_switch_denied w" and "now \<noteq> 0"
    and "g_scheduler w \<noteq> Some (g_current w)"
  shows "\<exists>w'. context_finish now None w = Done (Inr None, w') \<and> co_ok w' (yield_chain ch c) \<and> g_current w' = c \<and>
    objs w' = remove1 (g_current w) (objs w) \<and> g_current w \<notin> set (objs w') \<and> g_count w' = g_count w - 1"
proof -
  have "distinct (objs w)" using assms(1) by (auto simp: co_ok_def co_chain_def)
  with finish_ok [OF assms, of None] show ?thesis by auto
qed

definition run_world :: co_world where
  "run_world = (case cat_coroutine_resume 7 2 None False two_world of Done (_, w) \<Rightarrow> w | _ \<Rightarrow> two_world)"

lemma run_world_ok: "co_ok run_world [1, 2]" "g_current run_world = 2" "\<not> g_switch_denied run_world" "g_scheduler run_world = None"
proof -
  from resume_ok [OF two_world_ok, of 2 None 7 False] obtain w' where w':
    "cat_coroutine_resume 7 2 None False two_world = Done (Inr None, w')" "co_ok w' [1, 2]"
    "switched 7 2 False (resume_relink 2 two_world) w'" by (auto simp: example_worlds)
  then show "co_ok run_world [1, 2]" "g_current run_world = 2" "\<not> g_switch_denied run_world" "g_scheduler run_world = None"
    by (auto simp: run_world_def switched_def) (auto simp: example_worlds)
qed

theorem finish_frees_object_witness:
  "\<exists>w'. context_finish 9 None run_world = Done (Inr None, w') \<and> g_current w' = 1 \<and> 2 \<notin> set (objs w')"
  using finish_frees_object [OF run_world_ok(1), of 1 9] run_world_ok(2-4) by (auto simp: yield_target_def)

text \<open>A refused switch changes nothing and reports why: switching denied or nowhere to go as misuse, a
  running coroutine as busy, a dead one as not found.\<close>

theorem refused_switches:
  "(g_switch_denied w \<longrightarrow> cat_coroutine_resume now c data want w = Done (Inl CAT_EMISUSE, w) \<and>
      cat_coroutine_yield now data want w = Done (Inl CAT_EMISUSE, w)) \<and>
   (\<not> g_switch_denied w \<and> c \<in> set (objs w) \<longrightarrow>
      (co_state (heap w c) = STATE_RUNNING \<longrightarrow> cat_coroutine_resume now c data want w = Done (Inl CAT_EBUSY, w)) \<and>
      (co_state (heap w c) = STATE_DEAD \<longrightarrow> cat_coroutine_resume now c data want w = Done (Inl CAT_ESRCH, w))) \<and>
   (\<not> g_switch_denied w \<and> co_ok w [g_current w] \<and> (g_scheduler w = None \<or> g_scheduler w = Some (g_current w)) \<longrightarrow>
      cat_coroutine_yield now data want w = Done (Inl CAT_EMISUSE, w))"
  by (auto simp: cat_coroutine_resume_def cat_coroutine_yield_def cat_coroutine_check_resumability_def co_ok_def co_chain_def)

theorem refused_switches_witness:
  "cat_coroutine_resume 7 1 None False two_world = Done (Inl CAT_EBUSY, two_world) \<and>
   cat_coroutine_yield 7 None False two_world = Done (Inl CAT_EMISUSE, two_world)"
  using refused_switches [of two_world 7 1 None False] two_world_ok by (auto simp: example_worlds)

text \<open>\<^verbatim>\<open>cat_coroutine_notify_all\<close> resumes every coroutine that waits for all, each exactly once and in
  the order they came, also when some of them wait again at once: those are left in the queue, in
  the same order, for the next time, and the count of waiters agrees.\<close>

theorem notify_all_once_each:
  assumes "notify_ok s q ws w" and "unat (g_waiter_count w) = length ws"
  shows "\<exists>w'. cat_coroutine_notify_all (waiter_runs again now) now w = Done w' \<and>
    queue_of (links w') q (filter again ws) \<and> unat (g_waiter_count w') = length (filter again ws) \<and>
    co_ok w' [s]"
proof -
  from notify_loop_spec [of s q ws "[]" w again now] assms(1) obtain w' where w':
    "notify_loop (length ws) (waiter_runs again now) now w = Done w'" "notify_ok s q (filter again ws) w'"
    "g_waiter_count w' = g_waiter_count w - of_nat (length ws) + of_nat (length (filter again ws))" by auto
  have "g_waiter_count w = of_nat (length ws)" using assms(2) of_nat_unat_size_t [of "g_waiter_count w"] by simp
  then have "g_waiter_count w' = of_nat (length (filter again ws))" using w'(3) by simp
  moreover have "unat (g_waiter_count w) < 2 ^ 32" using unsigned_less [of "g_waiter_count w"] by simp
  then have "length (filter again ws) < 2 ^ 32" using assms(2) length_filter_le [of again ws] by linarith
  ultimately have "unat (g_waiter_count w') = length (filter again ws)" by (simp add: unat_of_nat_lt)
  then show ?thesis using w' assms(2) by (auto simp: cat_coroutine_notify_all_def notify_ok_def)
qed

theorem notify_all_once_each_witness:
  "\<exists>w'. cat_coroutine_notify_all (waiter_runs (\<lambda>_. True) 7) 7 two_world = Done w' \<and>
    queue_of (links w') 9 [] \<and> unat (g_waiter_count w') = 0"
proof -
  have "notify_ok 1 9 [] two_world" unfolding notify_ok_def using two_world_ok
    by (simp add: example_worlds queue_of_def cat_queue_init_def set_next_def set_prev_def)
  from notify_all_once_each [OF this, of "\<lambda>_. True" 7] show ?thesis by (auto simp: example_worlds)
qed

text \<open>Waiting for all coroutines in the main coroutine before anything has switched to it, with no
  scheduler running, dereferences the null \<open>from\<close> pointer: the refused yield is followed by reading
  \<^verbatim>\<open>coroutine->from->flags\<close>.\<close>

theorem wait_all_null_from:
  assumes "\<not> g_switch_denied w" and "co_ok w [g_current w]" and "g_scheduler w = None"
    and "co_from (heap w (g_current w)) = None"
  shows "cat_coroutine_wait_all now w = Undefined"
  using assms by (simp add: cat_coroutine_wait_all_def cat_coroutine_yield_def wait_all_return_def co_ok_def co_chain_def)

theorem wait_all_null_from_witness: "cat_coroutine_wait_all 7 two_world = Undefined"
  by (rule wait_all_null_from) (use two_world_ok in \<open>simp_all add: example_worlds\<close>)

text \<open>A requested stack size is brought into the range from 128 KiB to 16 MiB and rounded up to whole
  pages.\<close>

theorem stack_size_bounds:
  assumes "n \<le> 17" and "sz \<noteq> 0"
  shows "131072 \<le> unat (cat_coroutine_align_stack_size (2 ^ n) d sz) \<and>
    unat (cat_coroutine_align_stack_size (2 ^ n) d sz) \<le> 16777216 \<and>
    2 ^ n dvd unat (cat_coroutine_align_stack_size (2 ^ n) d sz)"
  using assms by (rule align_stack_size_bounds)

theorem stack_size_bounds_witness:
  "131072 \<le> unat (cat_coroutine_align_stack_size (2 ^ 12) 0 200000) \<and>
   4096 dvd unat (cat_coroutine_align_stack_size (2 ^ 12) 0 200000)"
  using stack_size_bounds [of 12 200000 0] by simp

text \<open>Starting the scheduler registers a coroutine with the identifier \<open>0\<close> (the least one, although the
  source comments that it is to be the greatest), leaves the next identifier, the number of
  coroutines and the chain as they were, and returns to the caller; a second scheduler is refused.\<close>

theorem scheduler_run_registers:
  assumes "co_ok w ch" and "c \<notin> set (objs w)" and "\<not> g_switch_denied w"
  shows "if g_scheduler w \<noteq> None
    then cat_coroutine_scheduler_run pagesize now c own True d w = Done (Inl CAT_EMISUSE, w)
    else \<exists>w'. cat_coroutine_scheduler_run pagesize now c own True d w = Done (Inr c, w') \<and>
      g_scheduler w' = Some c \<and> co_id (heap w' c) = 0 \<and> g_last_id w' = g_last_id w \<and>
      g_current w' = g_current w \<and> co_ok w' ch \<and> g_count w' = g_count w"
  using scheduler_run_ok [OF assms(1) _ assms(2,3)]
  by (auto simp: cat_coroutine_scheduler_run_def CAT_COROUTINE_SCHEDULER_ID_def)

theorem scheduler_run_registers_witness:
  "\<exists>w'. cat_coroutine_scheduler_run 4096 7 3 True True 50 two_world = Done (Inr 3, w') \<and>
    g_scheduler w' = Some 3 \<and> co_id (heap w' 3) = 0 \<and> g_current w' = 1"
  using scheduler_run_registers [OF two_world_ok, of 3 4096 7 True 50] by (auto simp: example_worlds)

end
