(* ===== verification/Cat_Channel.thy ===== *)
theory Cat_Channel
  imports Cat_Prelude
begin

unbundle bit_operations_syntax

text \<open>
  Channels between coroutines, \<^verbatim>\<open>src/cat_channel.c\<close>: buffered and unbuffered ones, closing, cleaning
  and selecting over several. The state holds all channels; the queues of waiters and of buckets are
  the lists that the pointer queues of \<open>Cat_Queue\<close> represent. Every coroutine that is inside a
  channel operation and waits has a frame, the locals that operation needs when it continues.

  A function runs up to the point where the calling coroutine either is done or waits; when it
  notifies a waiter, the waiter runs its operation to the end before the notifier goes on, which is
  what \<^verbatim>\<open>cat_coroutine_schedule\<close> does. The continuation of a waiting operation after \<^verbatim>\<open>cat_time_wait\<close> has
  returned is a function of its own; \<open>failed\<close> is the error of that wait. A notification is the last thing a
  push or pop does, so what the notified coroutine does after its operation has returned is another step.
  The loops of close resume one waiter per turn and the closing coroutine has a frame too, so whatever the
  resumed coroutines do before the loop goes on, with this channel or another, are steps in between. Buckets and dummies
  are always allocated (the configuration \<^verbatim>\<open>CAT_ALLOC_HANDLE_ERRORS = 0\<close>). The lists \<open>ch_pushed\<close> and \<open>ch_taken\<close> record, in order, the
  data that entered and left a channel, and \<open>results\<close> what the operations returned.

  The lemmas show, for programs in which no select has to wait, that the assertions of the code hold, that a
  channel never holds more than its capacity, that producers wait only at a full and consumers only at an empty
  channel as long as it is open, that the data come out in the order they went in, and that a close ends with
  nobody waiting. The last two theorems show what a select that waits can do.
\<close>

subsection \<open>State\<close>

text \<open>A waiter in a queue: a coroutine, or the dummy a select puts there for its \<open>i\<close>-th request.\<close>

datatype waiter = Waiter nat | Dummy nat nat

text \<open>\<^verbatim>\<open>u.unbuffered.data\<close>: a union of a pointer to the producer's datum and to the consumer's buffer.\<close>

datatype data_ptr = Null | In_Ptr nat | Out_Ptr nat

record cat_channel_t =
  ch_flags :: u8
  ch_dtor :: bool
  ch_capacity :: u32
  ch_length :: u32
  ch_producers :: "waiter list"
  ch_consumers :: "waiter list"
  ch_data :: data_ptr
  ch_able :: bool
  ch_storage :: "nat list"
  ch_pushed :: "nat list"
  ch_taken :: "nat list"
  ch_destroyed :: "nat list"

record cat_channel_select_message_t =
  sel_channel :: nat
  sel_push :: bool
  sel_in :: nat
  sel_out :: bool

text \<open>The frames of the two loops of close also tell whether a cleanup called it.\<close>

datatype chan_frame = Idle | Pushing nat nat | Popping nat bool | Selecting "cat_channel_select_message_t list"
  | Closing_producers nat bool | Closing_consumers nat bool

datatype chan_result = Pushed | Popped | Failed cat_errno | Selected nat bool | Closed | Cleaned

record chan_world =
  chans :: "nat \<Rightarrow> cat_channel_t"
  cframes :: "nat \<Rightarrow> chan_frame"
  outbox :: "nat \<Rightarrow> nat option"
  results :: "(nat \<times> chan_result) list"

definition upd_ch :: "nat \<Rightarrow> (cat_channel_t \<Rightarrow> cat_channel_t) \<Rightarrow> chan_world \<Rightarrow> chan_world" where
  "upd_ch k f w = w\<lparr>chans := (chans w)(k := f (chans w k))\<rparr>"

definition set_frame :: "nat \<Rightarrow> chan_frame \<Rightarrow> chan_world \<Rightarrow> chan_world" where
  "set_frame co fr w = w\<lparr>cframes := (cframes w)(co := fr)\<rparr>"

text \<open>A coroutine's operation returns.\<close>

definition returns :: "nat \<Rightarrow> chan_result \<Rightarrow> chan_world \<Rightarrow> chan_world" where
  "returns co r w = (set_frame co Idle w)\<lparr>results := results w @ [(co, r)]\<rparr>"

subsection \<open>Status\<close>

abbreviation FLAG_CLOSED :: u8 where "FLAG_CLOSED \<equiv> 2"

definition cat_channel__is_available :: "cat_channel_t \<Rightarrow> bool" where
  "cat_channel__is_available ch \<longleftrightarrow> ch_flags ch AND FLAG_CLOSED = 0"

definition cat_channel__is_unbuffered :: "cat_channel_t \<Rightarrow> bool" where
  "cat_channel__is_unbuffered ch \<longleftrightarrow> ch_capacity ch = 0"

definition cat_channel__has_producers :: "cat_channel_t \<Rightarrow> bool" where
  "cat_channel__has_producers ch \<longleftrightarrow> ch_producers ch \<noteq> []"

definition cat_channel__has_consumers :: "cat_channel_t \<Rightarrow> bool" where
  "cat_channel__has_consumers ch \<longleftrightarrow> ch_consumers ch \<noteq> []"

definition cat_channel__is_empty :: "cat_channel_t \<Rightarrow> bool" where
  "cat_channel__is_empty ch \<longleftrightarrow> ch_length ch = 0"

definition cat_channel__is_full :: "cat_channel_t \<Rightarrow> bool" where
  "cat_channel__is_full ch \<longleftrightarrow> ch_length ch = ch_capacity ch"

definition cat_channel__is_readable :: "cat_channel_t \<Rightarrow> bool" where
  "cat_channel__is_readable ch \<longleftrightarrow>
     \<not> cat_channel__is_empty ch \<or> (cat_channel__is_available ch \<and> cat_channel__has_producers ch)"

definition cat_channel__is_writable :: "cat_channel_t \<Rightarrow> bool" where
  "cat_channel__is_writable ch \<longleftrightarrow>
     cat_channel__is_available ch \<and> (\<not> cat_channel__is_full ch \<or> cat_channel__has_consumers ch)"

subsection \<open>Moving data\<close>

text \<open>The datum reaches the buffer of coroutine \<open>co\<close> when it gave one (\<open>out\<close>), else the destructor.\<close>

definition deliver :: "nat \<Rightarrow> nat \<Rightarrow> bool \<Rightarrow> nat \<Rightarrow> chan_world \<Rightarrow> chan_world" where
  "deliver k co out d w =
     (if out then w\<lparr>outbox := (outbox w)(co := Some d)\<rparr>
      else if ch_dtor (chans w k) then upd_ch k (\<lambda>ch. ch\<lparr>ch_destroyed := ch_destroyed ch @ [d]\<rparr>) w else w)"

definition cat_channel_unbuffered_push_data :: "nat \<Rightarrow> nat \<Rightarrow> chan_world \<Rightarrow> chan_world c_run" where
  "cat_channel_unbuffered_push_data k d w =
     c_assert (ch_able (chans w k))
       (c_bind (case ch_data (chans w k) of
                  Null \<Rightarrow> Done (deliver k 0 False d w)
                | Out_Ptr co \<Rightarrow> Done (deliver k co True d w)
                | In_Ptr _ \<Rightarrow> Undefined)
         (\<lambda>w. Done (upd_ch k (\<lambda>ch. ch\<lparr>ch_data := Null, ch_able := False,
                ch_pushed := ch_pushed ch @ [d], ch_taken := ch_taken ch @ [d]\<rparr>) w)))"

definition cat_channel_unbuffered_pop_data :: "nat \<Rightarrow> nat \<Rightarrow> bool \<Rightarrow> chan_world \<Rightarrow> chan_world c_run" where
  "cat_channel_unbuffered_pop_data k co out w =
     c_assert (ch_able (chans w k))
       (case ch_data (chans w k) of
          In_Ptr d \<Rightarrow>
            Done (upd_ch k (\<lambda>ch. ch\<lparr>ch_data := Null, ch_able := False,
              ch_pushed := ch_pushed ch @ [d], ch_taken := ch_taken ch @ [d]\<rparr>) (deliver k co out d w))
        | _ \<Rightarrow> Undefined)"

definition cat_channel_buffered_push_data :: "nat \<Rightarrow> nat \<Rightarrow> chan_world \<Rightarrow> chan_world" where
  "cat_channel_buffered_push_data k d w =
     upd_ch k (\<lambda>ch. ch\<lparr>ch_storage := ch_storage ch @ [d], ch_length := ch_length ch + 1,
       ch_pushed := ch_pushed ch @ [d]\<rparr>) w"

definition cat_channel_buffered_pop_data :: "nat \<Rightarrow> nat \<Rightarrow> bool \<Rightarrow> chan_world \<Rightarrow> chan_world c_run" where
  "cat_channel_buffered_pop_data k co out w =
     (case ch_storage (chans w k) of [] \<Rightarrow> Undefined
      | d # ds \<Rightarrow>
          Done (upd_ch k (\<lambda>ch. ch\<lparr>ch_storage := ds, ch_length := ch_length ch - 1, ch_taken := ch_taken ch @ [d]\<rparr>)
            (deliver k co out d w)))"

subsection \<open>Continuing after a wait\<close>

text \<open>The operations from where \<^verbatim>\<open>cat_channel_wait_on\<close> takes the waiter out of the queue.\<close>

definition push_return :: "nat \<Rightarrow> cat_errno option \<Rightarrow> chan_world \<Rightarrow> chan_world c_run" where
  "push_return co failed w =
     (case cframes w co of
        Pushing k d \<Rightarrow>
          let w = upd_ch k (\<lambda>ch. ch\<lparr>ch_producers := remove1 (Waiter co) (ch_producers ch)\<rparr>) w;
              ch = chans w k
          in if failed \<noteq> None then Done (returns co (Failed (the failed)) w)
             else if cat_channel__is_unbuffered ch then
               (if \<not> ch_able ch then Done (returns co (Failed CAT_ECANCELED) w)
                else c_assert (\<not> cat_channel__has_consumers ch)
                  (c_bind (cat_channel_unbuffered_push_data k d w) (\<lambda>w. Done (returns co Pushed w))))
             else
               (if cat_channel__is_full ch then Done (returns co (Failed CAT_ECANCELED) w)
                else c_assert (\<not> cat_channel__has_consumers ch)
                  (Done (returns co Pushed (cat_channel_buffered_push_data k d w))))
      | _ \<Rightarrow> Undefined)"

definition pop_return :: "nat \<Rightarrow> cat_errno option \<Rightarrow> chan_world \<Rightarrow> chan_world c_run" where
  "pop_return co failed w =
     (case cframes w co of
        Popping k out \<Rightarrow>
          let w = upd_ch k (\<lambda>ch. ch\<lparr>ch_consumers := remove1 (Waiter co) (ch_consumers ch)\<rparr>) w;
              ch = chans w k
          in if failed \<noteq> None then Done (returns co (Failed (the failed)) w)
             else if cat_channel__is_unbuffered ch then
               (if \<not> ch_able ch then Done (returns co (Failed CAT_ECANCELED) w)
                else c_assert (\<not> cat_channel__has_producers ch)
                  (c_bind (cat_channel_unbuffered_pop_data k co out w) (\<lambda>w. Done (returns co Popped w))))
             else
               (if cat_channel__is_empty ch then Done (returns co (Failed CAT_ECANCELED) w)
                else c_assert (\<not> cat_channel__has_producers ch)
                  (c_bind (cat_channel_buffered_pop_data k co out w) (\<lambda>w. Done (returns co Popped w))))
      | _ \<Rightarrow> Undefined)"

text \<open>The loop of \<^verbatim>\<open>cat_channel_select\<close> over its dummies: \<open>fired\<close> is the request whose dummy was resumed.
  It returns the response and its error flag; leaving it with \<^verbatim>\<open>break\<close> keeps the later dummies where
  they are.\<close>

definition remove_dummy :: "nat \<Rightarrow> nat \<Rightarrow> cat_channel_select_message_t \<Rightarrow> chan_world \<Rightarrow> chan_world" where
  "remove_dummy co i rq w =
     upd_ch (sel_channel rq)
       (\<lambda>ch. if sel_push rq then ch\<lparr>ch_producers := remove1 (Dummy co i) (ch_producers ch)\<rparr>
             else ch\<lparr>ch_consumers := remove1 (Dummy co i) (ch_consumers ch)\<rparr>) w"

definition select_transfer :: "nat \<Rightarrow> cat_channel_select_message_t \<Rightarrow> chan_world \<Rightarrow> chan_world c_run" where
  "select_transfer co rq w =
     (let k = sel_channel rq
      in if sel_push rq then
           (if cat_channel__is_unbuffered (chans w k) then cat_channel_unbuffered_push_data k (sel_in rq) w
            else Done (cat_channel_buffered_push_data k (sel_in rq) w))
         else
           (if cat_channel__is_unbuffered (chans w k) then cat_channel_unbuffered_pop_data k co (sel_out rq) w
            else cat_channel_buffered_pop_data k co (sel_out rq) w))"

fun select_collect ::
  "nat \<Rightarrow> nat option \<Rightarrow> nat \<Rightarrow> cat_channel_select_message_t list \<Rightarrow> chan_world \<Rightarrow>
   ((nat \<times> bool) option \<times> chan_world) c_run" where
  "select_collect co fired i [] w = Done (None, w)"
| "select_collect co fired i (rq # rqs) w =
     (let w = remove_dummy co i rq w
      in if fired = Some i then
           (if \<not> cat_channel__is_available (chans w (sel_channel rq)) then Done (Some (i, True), w)
            else c_bind (select_transfer co rq w) (\<lambda>w.
                 c_bind (select_collect co fired (Suc i) rqs w) (\<lambda>(_, w). Done (Some (i, False), w))))
         else select_collect co fired (Suc i) rqs w)"

definition select_return :: "nat \<Rightarrow> nat option \<Rightarrow> cat_errno option \<Rightarrow> chan_world \<Rightarrow> chan_world c_run" where
  "select_return co fired failed w =
     (case cframes w co of
        Selecting rqs \<Rightarrow>
          c_bind (select_collect co fired 0 rqs w) (\<lambda>(response, w).
            if failed \<noteq> None then Done (returns co (Failed (the failed)) w)
            else case response of None \<Rightarrow> Done (returns co (Failed CAT_ECANCELED) w)
                 | Some (i, err) \<Rightarrow> Done (returns co (Selected i err) w))
      | _ \<Rightarrow> Undefined)"

text \<open>Resuming a waiter runs its operation to the end; a dummy whose select is over is freed memory.\<close>

definition cat_channel_resume_waiter :: "waiter \<Rightarrow> chan_world \<Rightarrow> chan_world c_run" where
  "cat_channel_resume_waiter wt w =
     (case wt of
        Dummy co i \<Rightarrow> select_return co (Some i) None w
      | Waiter co \<Rightarrow>
          (case cframes w co of Pushing _ _ \<Rightarrow> push_return co None w
           | Popping _ _ \<Rightarrow> pop_return co None w
           | _ \<Rightarrow> Undefined))"

subsection \<open>Push and pop\<close>

definition cat_channel_unbuffered_notify_consumer :: "nat \<Rightarrow> nat \<Rightarrow> chan_world \<Rightarrow> chan_world c_run" where
  "cat_channel_unbuffered_notify_consumer k d w =
     (case ch_consumers (chans w k) of [] \<Rightarrow> Undefined
      | consumer # _ \<Rightarrow>
          c_assert (\<not> ch_able (chans w k))
            (cat_channel_resume_waiter consumer (upd_ch k (\<lambda>ch. ch\<lparr>ch_data := In_Ptr d, ch_able := True\<rparr>) w)))"

definition cat_channel_unbuffered_notify_producer :: "nat \<Rightarrow> nat \<Rightarrow> bool \<Rightarrow> chan_world \<Rightarrow> chan_world c_run" where
  "cat_channel_unbuffered_notify_producer k co out w =
     (case ch_producers (chans w k) of [] \<Rightarrow> Undefined
      | producer # _ \<Rightarrow>
          c_assert (\<not> ch_able (chans w k))
            (cat_channel_resume_waiter producer
              (upd_ch k (\<lambda>ch. ch\<lparr>ch_data := (if out then Out_Ptr co else Null), ch_able := True\<rparr>) w)))"

definition cat_channel_notify_possible_consumer :: "nat \<Rightarrow> chan_world \<Rightarrow> chan_world c_run" where
  "cat_channel_notify_possible_consumer k w =
     (case ch_consumers (chans w k) of [] \<Rightarrow> Done w | consumer # _ \<Rightarrow> cat_channel_resume_waiter consumer w)"

definition cat_channel_notify_possible_producer :: "nat \<Rightarrow> chan_world \<Rightarrow> chan_world c_run" where
  "cat_channel_notify_possible_producer k w =
     (case ch_producers (chans w k) of [] \<Rightarrow> Done w | producer # _ \<Rightarrow> cat_channel_resume_waiter producer w)"

text \<open>The start of \<^verbatim>\<open>cat_channel_wait_on\<close>.\<close>

definition wait_on_producers :: "nat \<Rightarrow> nat \<Rightarrow> nat \<Rightarrow> chan_world \<Rightarrow> chan_world" where
  "wait_on_producers co k d w =
     set_frame co (Pushing k d) (upd_ch k (\<lambda>ch. ch\<lparr>ch_producers := ch_producers ch @ [Waiter co]\<rparr>) w)"

definition wait_on_consumers :: "nat \<Rightarrow> nat \<Rightarrow> bool \<Rightarrow> chan_world \<Rightarrow> chan_world" where
  "wait_on_consumers co k out w =
     set_frame co (Popping k out) (upd_ch k (\<lambda>ch. ch\<lparr>ch_consumers := ch_consumers ch @ [Waiter co]\<rparr>) w)"

definition cat_channel_unbuffered_push :: "nat \<Rightarrow> nat \<Rightarrow> nat \<Rightarrow> chan_world \<Rightarrow> chan_world c_run" where
  "cat_channel_unbuffered_push co k d w =
     (if \<not> cat_channel__has_consumers (chans w k) then Done (wait_on_producers co k d w)
      else c_assert (\<not> cat_channel__has_producers (chans w k))
        (c_bind (cat_channel_unbuffered_notify_consumer k d w) (\<lambda>w. Done (returns co Pushed w))))"

definition cat_channel_unbuffered_pop :: "nat \<Rightarrow> nat \<Rightarrow> bool \<Rightarrow> chan_world \<Rightarrow> chan_world c_run" where
  "cat_channel_unbuffered_pop co k out w =
     (if \<not> cat_channel__has_producers (chans w k) then Done (wait_on_consumers co k out w)
      else c_assert (\<not> cat_channel__has_consumers (chans w k))
        (c_bind (cat_channel_unbuffered_notify_producer k co out w) (\<lambda>w. Done (returns co Popped w))))"

definition cat_channel_buffered_push :: "nat \<Rightarrow> nat \<Rightarrow> nat \<Rightarrow> chan_world \<Rightarrow> chan_world c_run" where
  "cat_channel_buffered_push co k d w =
     (if cat_channel__is_full (chans w k) then Done (wait_on_producers co k d w)
      else c_assert (\<not> cat_channel__has_producers (chans w k))
        (c_bind (cat_channel_notify_possible_consumer k (cat_channel_buffered_push_data k d w))
          (\<lambda>w. Done (returns co Pushed w))))"

definition cat_channel_buffered_pop :: "nat \<Rightarrow> nat \<Rightarrow> bool \<Rightarrow> chan_world \<Rightarrow> chan_world c_run" where
  "cat_channel_buffered_pop co k out w =
     (if cat_channel__is_empty (chans w k) then Done (wait_on_consumers co k out w)
      else c_assert (\<not> cat_channel__has_consumers (chans w k))
        (c_bind (cat_channel_buffered_pop_data k co out w) (\<lambda>w.
         c_bind (cat_channel_notify_possible_producer k w) (\<lambda>w. Done (returns co Popped w)))))"

definition cat_channel_create :: "u32 \<Rightarrow> bool \<Rightarrow> cat_channel_t" where
  "cat_channel_create capacity dtor =
     \<lparr>ch_flags = 0, ch_dtor = dtor, ch_capacity = capacity, ch_length = 0, ch_producers = [], ch_consumers = [],
      ch_data = Null, ch_able = False, ch_storage = [], ch_pushed = [], ch_taken = [], ch_destroyed = []\<rparr>"

definition cat_channel_push :: "nat \<Rightarrow> nat \<Rightarrow> nat \<Rightarrow> chan_world \<Rightarrow> chan_world c_run" where
  "cat_channel_push co k d w =
     (if \<not> cat_channel__is_available (chans w k) then Done (returns co (Failed CAT_ECLOSED) w)
      else if cat_channel__is_unbuffered (chans w k) then cat_channel_unbuffered_push co k d w
      else cat_channel_buffered_push co k d w)"

definition cat_channel_pop :: "nat \<Rightarrow> nat \<Rightarrow> bool \<Rightarrow> chan_world \<Rightarrow> chan_world c_run" where
  "cat_channel_pop co k out w =
     (if \<not> cat_channel__is_available (chans w k) \<and> cat_channel__is_empty (chans w k)
      then Done (returns co (Failed CAT_ECLOSED) w)
      else if cat_channel__is_unbuffered (chans w k) then cat_channel_unbuffered_pop co k out w
      else cat_channel_buffered_pop co k out w)"

subsection \<open>Close and cleanup\<close>

text \<open>\<^verbatim>\<open>cat_channel_close\<close> up to its first loop; \<open>clean\<close> tells that \<^verbatim>\<open>cat_channel_cleanup\<close> called it.\<close>

definition cat_channel_close :: "nat \<Rightarrow> nat \<Rightarrow> bool \<Rightarrow> chan_world \<Rightarrow> chan_world" where
  "cat_channel_close co k clean w =
     (if \<not> cat_channel__is_available (chans w k) then returns co (Failed CAT_ECLOSED) w
      else set_frame co (Closing_producers k clean) (upd_ch k (\<lambda>ch. ch\<lparr>ch_flags := ch_flags ch OR FLAG_CLOSED\<rparr>) w))"

text \<open>The loop that empties the storage.\<close>

fun cleanup_storage :: "nat list \<Rightarrow> cat_channel_t \<Rightarrow> cat_channel_t" where
  "cleanup_storage [] ch = ch"
| "cleanup_storage (d # ds) ch =
     cleanup_storage ds
       (ch\<lparr>ch_storage := ds, ch_destroyed := (if ch_dtor ch then ch_destroyed ch @ [d] else ch_destroyed ch),
           ch_length := ch_length ch - 1, ch_taken := ch_taken ch @ [d]\<rparr>)"

text \<open>\<^verbatim>\<open>cat_channel_cleanup\<close> behind the close.\<close>

definition cleanup_end :: "nat \<Rightarrow> nat \<Rightarrow> chan_world \<Rightarrow> chan_world c_run" where
  "cleanup_end co k w =
     (let w = (if \<not> cat_channel__is_unbuffered (chans w k) then upd_ch k (\<lambda>ch. cleanup_storage (ch_storage ch) ch) w else w)
      in c_assert (cat_channel__is_empty (chans w k)) (Done (returns co Cleaned w)))"

definition cat_channel_cleanup :: "nat \<Rightarrow> nat \<Rightarrow> chan_world \<Rightarrow> chan_world c_run" where
  "cat_channel_cleanup co k w =
     (if cat_channel__is_available (chans w k) then Done (cat_channel_close co k True w) else cleanup_end co k w)"

text \<open>A turn of the loops of \<^verbatim>\<open>cat_channel_close\<close>: the front waiter is resumed and runs its operation to the end; when a queue is
  empty its loop is left, and behind the second one close returns.\<close>

definition close_turn :: "nat \<Rightarrow> chan_world \<Rightarrow> chan_world c_run" where
  "close_turn co w =
     (case cframes w co of
        Closing_producers k clean \<Rightarrow>
          (case ch_producers (chans w k) of
             wt # _ \<Rightarrow> cat_channel_resume_waiter wt w
           | [] \<Rightarrow> Done (set_frame co (Closing_consumers k clean) w))
      | Closing_consumers k clean \<Rightarrow>
          (case ch_consumers (chans w k) of
             wt # _ \<Rightarrow> cat_channel_resume_waiter wt w
           | [] \<Rightarrow>
               c_assert (\<not> cat_channel__has_producers (chans w k) \<and> \<not> cat_channel__has_consumers (chans w k))
                 (if clean then cleanup_end co k w else Done (returns co Closed w)))
      | _ \<Rightarrow> Undefined)"

subsection \<open>Select\<close>

text \<open>The first loop of \<^verbatim>\<open>cat_channel_select\<close>: the first request that cannot wait is served (\<open>None\<close> when all
  of them have to wait).\<close>

fun select_try :: "nat \<Rightarrow> nat \<Rightarrow> cat_channel_select_message_t list \<Rightarrow> chan_world \<Rightarrow> (nat \<times> chan_world c_run) option" where
  "select_try co i [] w = None"
| "select_try co i (rq # rqs) w =
     (let ch = chans w (sel_channel rq)
      in if sel_push rq then
           (if \<not> cat_channel__is_available ch then Some (i, Done (returns co (Selected i True) w))
            else if cat_channel__is_writable ch then Some (i,
              c_bind (cat_channel_push co (sel_channel rq) (sel_in rq) w) (\<lambda>w. Done (returns co (Selected i False) w)))
            else select_try co (Suc i) rqs w)
         else
           (if \<not> cat_channel__is_available ch \<and> cat_channel__is_empty ch
            then Some (i, Done (returns co (Selected i True) w))
            else if cat_channel__is_readable ch then Some (i,
              c_bind (cat_channel_pop co (sel_channel rq) (sel_out rq) w) (\<lambda>w. Done (returns co (Selected i False) w)))
            else select_try co (Suc i) rqs w))"

definition cat_channel_queue_dummy_coroutine :: "nat \<Rightarrow> nat \<Rightarrow> cat_channel_select_message_t \<Rightarrow> chan_world \<Rightarrow> chan_world" where
  "cat_channel_queue_dummy_coroutine co i rq w =
     upd_ch (sel_channel rq)
       (\<lambda>ch. if sel_push rq then ch\<lparr>ch_producers := ch_producers ch @ [Dummy co i]\<rparr>
             else ch\<lparr>ch_consumers := ch_consumers ch @ [Dummy co i]\<rparr>) w"

fun queue_dummies :: "nat \<Rightarrow> nat \<Rightarrow> cat_channel_select_message_t list \<Rightarrow> chan_world \<Rightarrow> chan_world" where
  "queue_dummies co i [] w = w"
| "queue_dummies co i (rq # rqs) w = queue_dummies co (Suc i) rqs (cat_channel_queue_dummy_coroutine co i rq w)"

definition cat_channel_select :: "nat \<Rightarrow> cat_channel_select_message_t list \<Rightarrow> chan_world \<Rightarrow> chan_world c_run" where
  "cat_channel_select co rqs w =
     (case select_try co 0 rqs w of
        Some (i, r) \<Rightarrow> r
      | None \<Rightarrow> Done (set_frame co (Selecting rqs) (queue_dummies co 0 rqs w)))"

subsection \<open>Settings\<close>

definition cat_channel_set_dtor :: "nat \<Rightarrow> bool \<Rightarrow> chan_world \<Rightarrow> bool \<times> chan_world" where
  "cat_channel_set_dtor k dtor w = (ch_dtor (chans w k), upd_ch k (\<lambda>ch. ch\<lparr>ch_dtor := dtor\<rparr>) w)"

definition cat_channel_get_storage :: "cat_channel_t \<Rightarrow> nat list option" where
  "cat_channel_get_storage ch = (if cat_channel__is_unbuffered ch then None else Some (ch_storage ch))"

subsection \<open>The invariant\<close>

text \<open>Of a channel \<open>k\<close>, given the frames of all coroutines. An unbuffered channel is the one of capacity
  zero: it is always full and always empty.\<close>

definition chan_ok :: "nat \<Rightarrow> cat_channel_t \<Rightarrow> (nat \<Rightarrow> chan_frame) \<Rightarrow> bool" where
  "chan_ok k ch fr \<longleftrightarrow>
     unat (ch_length ch) = length (ch_storage ch) \<and> length (ch_storage ch) \<le> unat (ch_capacity ch) \<and>
     ch_pushed ch = ch_taken ch @ ch_storage ch \<and>
     (ch_producers ch \<noteq> [] \<and> cat_channel__is_available ch \<longrightarrow> length (ch_storage ch) = unat (ch_capacity ch)) \<and>
     (ch_consumers ch \<noteq> [] \<longrightarrow> ch_storage ch = []) \<and>
     (ch_producers ch = [] \<or> ch_consumers ch = []) \<and>
     distinct (ch_producers ch) \<and> distinct (ch_consumers ch) \<and>
     (\<forall>co i. Dummy co i \<notin> set (ch_producers ch) \<and> Dummy co i \<notin> set (ch_consumers ch)) \<and>
     (\<forall>co. Waiter co \<in> set (ch_producers ch) \<longleftrightarrow> (\<exists>d. fr co = Pushing k d)) \<and>
     (\<forall>co. Waiter co \<in> set (ch_consumers ch) \<longleftrightarrow> (\<exists>out. fr co = Popping k out))"

text \<open>Between two steps no handshake is under way, and who waits at a closed channel is still to be resumed by its close.\<close>

definition chan_rests :: "nat \<Rightarrow> cat_channel_t \<Rightarrow> (nat \<Rightarrow> chan_frame) \<Rightarrow> bool" where
  "chan_rests k ch fr \<longleftrightarrow>
     \<not> ch_able ch \<and>
     (\<not> cat_channel__is_available ch \<and> ch_producers ch \<noteq> [] \<longrightarrow> (\<exists>co c. fr co = Closing_producers k c)) \<and>
     (\<not> cat_channel__is_available ch \<and> ch_consumers ch \<noteq> [] \<longrightarrow> (\<exists>co c. fr co = Closing_producers k c \<or> fr co = Closing_consumers k c)) \<and>
     (\<forall>co c. fr co = Closing_producers k c \<longrightarrow> \<not> cat_channel__is_available ch) \<and>
     (\<forall>co c. fr co = Closing_consumers k c \<longrightarrow> \<not> cat_channel__is_available ch \<and> ch_producers ch = [])"

definition chan_inv :: "chan_world \<Rightarrow> bool" where
  "chan_inv w \<longleftrightarrow> (\<forall>k. chan_ok k (chans w k) (cframes w) \<and> chan_rests k (chans w k) (cframes w))"

lemma upd_ch_simps [simp]:
  "chans (upd_ch k f w) x = (if x = k then f (chans w k) else chans w x)"
  "cframes (upd_ch k f w) = cframes w" "outbox (upd_ch k f w) = outbox w" "results (upd_ch k f w) = results w"
  by (simp_all add: upd_ch_def)

lemma set_frame_simps [simp]:
  "chans (set_frame co fr w) = chans w" "cframes (set_frame co fr w) = (cframes w)(co := fr)"
  "chans (returns co r w) = chans w" "cframes (returns co r w) = (cframes w)(co := Idle)"
  "results (returns co r w) = results w @ [(co, r)]" "results (set_frame co fr w) = results w"
  "outbox (returns co r w) = outbox w" "outbox (set_frame co fr w) = outbox w"
  by (simp_all add: set_frame_def returns_def)

lemma deliver_simps [simp]:
  "cframes (deliver k co out d w) = cframes w"
  "ch_flags (chans (deliver k co out d w) x) = ch_flags (chans w x)"
  "ch_capacity (chans (deliver k co out d w) x) = ch_capacity (chans w x)"
  "ch_length (chans (deliver k co out d w) x) = ch_length (chans w x)"
  "ch_producers (chans (deliver k co out d w) x) = ch_producers (chans w x)"
  "ch_consumers (chans (deliver k co out d w) x) = ch_consumers (chans w x)"
  "ch_able (chans (deliver k co out d w) x) = ch_able (chans w x)"
  "ch_storage (chans (deliver k co out d w) x) = ch_storage (chans w x)"
  "ch_pushed (chans (deliver k co out d w) x) = ch_pushed (chans w x)"
  "ch_taken (chans (deliver k co out d w) x) = ch_taken (chans w x)"
  "results (deliver k co out d w) = results w"
  "outbox (deliver k co out d w) = (if out then (outbox w)(co := Some d) else outbox w)"
  by (simp_all add: deliver_def)

lemma deliver_other: "x \<noteq> k \<Longrightarrow> chans (deliver k co out d w) x = chans w x"
  by (simp add: deliver_def)

lemmas chan_status = cat_channel__is_available_def cat_channel__is_unbuffered_def cat_channel__has_producers_def
  cat_channel__has_consumers_def cat_channel__is_empty_def cat_channel__is_full_def

text \<open>What an operation has to show: the invariant of the channel it works on, and that the frames
  it changes belong to no waiter of another channel.\<close>

definition others_inv :: "nat \<Rightarrow> chan_world \<Rightarrow> bool" where
  "others_inv k w \<longleftrightarrow> (\<forall>x. x \<noteq> k \<longrightarrow> chan_ok x (chans w x) (cframes w) \<and> chan_rests x (chans w x) (cframes w))"

lemma chan_inv_iff:
  "chan_inv w \<longleftrightarrow> others_inv k w \<and> chan_ok k (chans w k) (cframes w) \<and> chan_rests k (chans w k) (cframes w)"
  unfolding chan_inv_def others_inv_def by metis

text \<open>The frames of coroutines that have to do with channel \<open>k\<close> only.\<close>

fun on_channel :: "nat \<Rightarrow> chan_frame \<Rightarrow> bool" where
  "on_channel k Idle \<longleftrightarrow> True"
| "on_channel k (Pushing x d) \<longleftrightarrow> x = k"
| "on_channel k (Popping x out) \<longleftrightarrow> x = k"
| "on_channel k (Selecting rqs) \<longleftrightarrow> False"
| "on_channel k (Closing_producers x c) \<longleftrightarrow> x = k"
| "on_channel k (Closing_consumers x c) \<longleftrightarrow> x = k"

lemma others_inv_single:
  assumes inv: "others_inv k w"
    and ch: "\<And>x. x \<noteq> k \<Longrightarrow> chans w' x = chans w x"
    and fr: "\<And>co. cframes w' co = cframes w co \<or> on_channel k (cframes w co) \<and> on_channel k (cframes w' co)"
  shows "others_inv k w'"
proof -
  have same: "cframes w' co = f \<longleftrightarrow> cframes w co = f" if "\<not> on_channel k f" for co f using fr [of co] that by auto
  have eqs: "(cframes w' co = Pushing x d) = (cframes w co = Pushing x d)" "(cframes w' co = Popping x out) = (cframes w co = Popping x out)"
    "(cframes w' co = Closing_producers x c) = (cframes w co = Closing_producers x c)"
    "(cframes w' co = Closing_consumers x c) = (cframes w co = Closing_consumers x c)" if "x \<noteq> k" for co x d out c
    by (rule same, use that in simp)+
  show ?thesis using inv ch by (simp add: others_inv_def chan_ok_def chan_rests_def eqs)
qed

lemma others_inv_upd_ch [simp]: "others_inv k (upd_ch k f w) = others_inv k w"
  by (simp add: others_inv_def)

lemma others_inv_deliver [simp]: "others_inv k (deliver k co out d w) = others_inv k w"
  by (simp add: others_inv_def deliver_other)

lemma others_inv_frame:
  assumes "others_inv k w" and "on_channel k (cframes w co)" and "on_channel k fr"
  shows "others_inv k (set_frame co fr w)"
  using assms by (intro others_inv_single [OF assms(1)]) auto

lemma others_inv_returns:
  "others_inv k w \<Longrightarrow> on_channel k (cframes w co) \<Longrightarrow> others_inv k (returns co r w)"
  by (rule others_inv_single) auto

lemma len_succ: "unat (l :: u32) < unat (c :: u32) \<Longrightarrow> unat (l + 1) = Suc (unat l)"
  using unsigned_less [of c, where 'a = nat] by (subst unat_add_lt) auto

lemma len_pred: "unat (l :: u32) = Suc n \<Longrightarrow> unat (l - 1) = n"
  by (cases "l = 0") (simp_all add: unat_minus_one)

lemma chan_inv_returns: "chan_inv w \<Longrightarrow> cframes w co = Idle \<Longrightarrow> chan_inv (returns co r w)"
  by (simp add: chan_inv_def chan_ok_def fun_upd_idem)

lemmas chan_ok_unfold = chan_ok_def chan_rests_def chan_status

lemma rests_keep:
  assumes "chan_rests k ch fr" and "ch_flags ch' = ch_flags ch" and "\<not> ch_able ch'"
    and "\<not> cat_channel__is_available ch \<Longrightarrow> ch_producers ch = [] \<Longrightarrow> ch_producers ch' = []"
    and "\<not> cat_channel__is_available ch \<Longrightarrow> ch_consumers ch = [] \<Longrightarrow> ch_consumers ch' = []"
    and "\<And>co c. fr' co = Closing_producers k c \<longleftrightarrow> fr co = Closing_producers k c"
    and "\<And>co c. fr' co = Closing_consumers k c \<longleftrightarrow> fr co = Closing_consumers k c"
  shows "chan_rests k ch' fr'"
  using assms by (simp add: chan_rests_def cat_channel__is_available_def) blast

lemma chan_inv_split:
  assumes "chan_inv w"
  shows "others_inv k w" "chan_ok k (chans w k) (cframes w)" "chan_rests k (chans w k) (cframes w)" "\<not> ch_able (chans w k)"
  using assms by (simp_all add: chan_inv_iff [of _ k] chan_rests_def)

lemma wait_on_producers_inv:
  assumes "chan_inv w" "cframes w co = Idle" "cat_channel__is_available (chans w k)" "ch_consumers (chans w k) = []"
    and "cat_channel__is_full (chans w k)"
  shows "chan_inv (wait_on_producers co k d w)"
proof -
  note ok = chan_inv_split [OF assms(1), of k]
  let ?w = "wait_on_producers co k d w"
  have "others_inv k ?w" using ok(1) assms(2) unfolding wait_on_producers_def by (intro others_inv_frame) auto
  moreover have "chan_ok k (chans ?w k) (cframes ?w)" using ok(2) assms(2-) by (auto simp: wait_on_producers_def chan_ok_def chan_status)
  moreover have "chan_rests k (chans ?w k) (cframes ?w)"
    by (rule rests_keep [OF ok(3)]) (use ok(4) assms(2,3) in \<open>auto simp: wait_on_producers_def\<close>)
  ultimately show ?thesis by (simp add: chan_inv_iff [of _ k])
qed

lemma wait_on_consumers_inv:
  assumes "chan_inv w" "cframes w co = Idle" "cat_channel__is_available (chans w k)" "ch_producers (chans w k) = []"
    and "cat_channel__is_empty (chans w k)"
  shows "chan_inv (wait_on_consumers co k out w)"
proof -
  note ok = chan_inv_split [OF assms(1), of k]
  let ?w = "wait_on_consumers co k out w"
  have "others_inv k ?w" using ok(1) assms(2) unfolding wait_on_consumers_def by (intro others_inv_frame) auto
  moreover have "chan_ok k (chans ?w k) (cframes ?w)" using ok(2) assms(2-) by (auto simp: wait_on_consumers_def chan_ok_def chan_status)
  moreover have "chan_rests k (chans ?w k) (cframes ?w)"
    by (rule rests_keep [OF ok(3)]) (use ok(4) assms(2,3) in \<open>auto simp: wait_on_consumers_def\<close>)
  ultimately show ?thesis by (simp add: chan_inv_iff [of _ k])
qed

text \<open>The front waiter is a coroutine whose frame belongs to the channel.\<close>

lemma front_producer:
  assumes "chan_ok k ch fr" "ch_producers ch = wt # ps"
  obtains p d where "wt = Waiter p" "fr p = Pushing k d" "Waiter p \<notin> set ps"
proof -
  from assms obtain p where p: "wt = Waiter p" by (cases wt) (auto simp: chan_ok_def)
  then have "Waiter p \<in> set (ch_producers ch)" "Waiter p \<notin> set ps" using assms by (auto simp: chan_ok_def)
  then show ?thesis using that p assms(1) unfolding chan_ok_def by blast
qed

lemma front_consumer:
  assumes "chan_ok k ch fr" "ch_consumers ch = wt # cs"
  obtains c out where "wt = Waiter c" "fr c = Popping k out" "Waiter c \<notin> set cs"
proof -
  from assms obtain c where c: "wt = Waiter c" by (cases wt) (auto simp: chan_ok_def)
  then have "Waiter c \<in> set (ch_consumers ch)" "Waiter c \<notin> set cs" using assms by (auto simp: chan_ok_def)
  then show ?thesis using that c assms(1) unfolding chan_ok_def by blast
qed

text \<open>An operation that meets a waiter completes both: the datum goes from the producer to the consumer.\<close>

lemma unbuffered_push_meets:
  assumes inv: "chan_inv w" and co: "cframes w co = Idle" and cap: "ch_capacity (chans w k) = 0"
    and cs: "ch_consumers (chans w k) = Waiter c # cs" "cframes w c = Popping k out"
  shows "\<exists>w'. cat_channel_unbuffered_push co k d w = Done w' \<and> chan_inv w' \<and> cframes w' co = Idle \<and>
    results w' = results w @ [(c, Popped), (co, Pushed)] \<and>
    outbox w' = (if out then (outbox w)(c := Some d) else outbox w) \<and>
    ch_pushed (chans w' k) = ch_pushed (chans w k) @ [d]"
proof -
  note ok = chan_inv_split [OF inv, of k]
  let ?w = "upd_ch k (\<lambda>ch. ch\<lparr>ch_consumers := remove1 (Waiter c) (ch_consumers ch)\<rparr>)
    (upd_ch k (\<lambda>ch. ch\<lparr>ch_data := In_Ptr d, ch_able := True\<rparr>) w)"
  let ?w' = "returns co Pushed (returns c Popped (upd_ch k (\<lambda>ch. ch\<lparr>ch_data := Null, ch_able := False,
    ch_pushed := ch_pushed ch @ [d], ch_taken := ch_taken ch @ [d]\<rparr>) (deliver k c out d ?w)))"
  have run: "cat_channel_unbuffered_push co k d w = Done ?w'"
    using ok(2,3) co cap cs unfolding chan_ok_unfold
    by (simp add: cat_channel_unbuffered_push_def cat_channel_unbuffered_notify_consumer_def chan_status
      cat_channel_resume_waiter_def pop_return_def cat_channel_unbuffered_pop_data_def Let_def)
  have others: "others_inv k ?w'" using ok(1) co cs by (auto intro!: others_inv_returns simp: cat_channel_buffered_push_data_def)
  have this_ok: "chan_ok k (chans ?w' k) (cframes ?w')" using ok(2) co cs
    by (auto simp: chan_ok_def cat_channel__is_available_def cat_channel_buffered_push_data_def split: if_splits)
  have this_rests: "chan_rests k (chans ?w' k) (cframes ?w')"
    by (rule rests_keep [OF ok(3)]) (use ok(2,4) co cs in \<open>auto simp: cat_channel_buffered_push_data_def\<close>)
  have "chan_inv ?w'" using others this_ok this_rests by (simp only: chan_inv_iff [of _ k] simp_thms)
  then show ?thesis using run cs by auto
qed

lemma unbuffered_pop_meets:
  assumes inv: "chan_inv w" and co: "cframes w co = Idle" and cap: "ch_capacity (chans w k) = 0"
    and ps: "ch_producers (chans w k) = Waiter p # ps" "cframes w p = Pushing k d"
  shows "\<exists>w'. cat_channel_unbuffered_pop co k out w = Done w' \<and> chan_inv w' \<and> cframes w' co = Idle \<and>
    results w' = results w @ [(p, Pushed), (co, Popped)] \<and>
    outbox w' = (if out then (outbox w)(co := Some d) else outbox w) \<and>
    ch_taken (chans w' k) = ch_taken (chans w k) @ [d]"
proof -
  note ok = chan_inv_split [OF inv, of k]
  let ?w = "upd_ch k (\<lambda>ch. ch\<lparr>ch_producers := remove1 (Waiter p) (ch_producers ch)\<rparr>)
    (upd_ch k (\<lambda>ch. ch\<lparr>ch_data := (if out then Out_Ptr co else Null), ch_able := True\<rparr>) w)"
  let ?w' = "returns co Popped (returns p Pushed (upd_ch k (\<lambda>ch. ch\<lparr>ch_data := Null, ch_able := False,
    ch_pushed := ch_pushed ch @ [d], ch_taken := ch_taken ch @ [d]\<rparr>) (deliver k (if out then co else 0) out d ?w)))"
  have run: "cat_channel_unbuffered_pop co k out w = Done ?w'"
    using ok(2,3) co cap ps unfolding chan_ok_unfold
    by (simp add: cat_channel_unbuffered_pop_def cat_channel_unbuffered_notify_producer_def chan_status
      cat_channel_resume_waiter_def push_return_def cat_channel_unbuffered_push_data_def Let_def)
  have others: "others_inv k ?w'" using ok(1) co ps cap by (auto intro!: others_inv_returns simp: cat_channel_buffered_push_data_def)
  have this_ok: "chan_ok k (chans ?w' k) (cframes ?w')" using ok(2) co ps cap
    by (auto simp: chan_ok_def cat_channel__is_available_def cat_channel_buffered_push_data_def split: if_splits)
  have this_rests: "chan_rests k (chans ?w' k) (cframes ?w')"
    by (rule rests_keep [OF ok(3)]) (use ok(2,4) co ps in \<open>auto simp: cat_channel_buffered_push_data_def\<close>)
  have "chan_inv ?w'" using others this_ok this_rests by (simp only: chan_inv_iff [of _ k] simp_thms)
  then show ?thesis using run ps by auto
qed

lemma buffered_push_meets:
  assumes inv: "chan_inv w" and co: "cframes w co = Idle" and cap: "ch_capacity (chans w k) \<noteq> 0"
    and cs: "ch_consumers (chans w k) = Waiter c # cs" "cframes w c = Popping k out"
  shows "\<exists>w'. cat_channel_buffered_push co k d w = Done w' \<and> chan_inv w' \<and> cframes w' co = Idle \<and>
    results w' = results w @ [(c, Popped), (co, Pushed)] \<and>
    outbox w' = (if out then (outbox w)(c := Some d) else outbox w) \<and>
    ch_pushed (chans w' k) = ch_pushed (chans w k) @ [d]"
proof -
  note ok = chan_inv_split [OF inv, of k]
  have l: "ch_length (chans w k) = 0" "ch_storage (chans w k) = []" using ok(2) cs by (auto simp: chan_ok_def unat_eq_0)
  let ?w = "upd_ch k (\<lambda>ch. ch\<lparr>ch_consumers := remove1 (Waiter c) (ch_consumers ch)\<rparr>) (cat_channel_buffered_push_data k d w)"
  let ?w' = "returns co Pushed (returns c Popped (upd_ch k (\<lambda>ch. ch\<lparr>ch_storage := [],
    ch_length := ch_length ch - 1, ch_taken := ch_taken ch @ [d]\<rparr>) (deliver k c out d ?w)))"
  have run: "cat_channel_buffered_push co k d w = Done ?w'"
    using ok(2,3) co cap cs l unfolding chan_ok_unfold
    by (simp add: cat_channel_buffered_push_def cat_channel_notify_possible_consumer_def chan_status
      cat_channel_resume_waiter_def pop_return_def cat_channel_buffered_push_data_def cat_channel_buffered_pop_data_def Let_def)
  have others: "others_inv k ?w'" using ok(1) co cs l by (auto intro!: others_inv_returns simp: cat_channel_buffered_push_data_def)
  have this_ok: "chan_ok k (chans ?w' k) (cframes ?w')" using ok(2) co cs l
    by (auto simp: chan_ok_def cat_channel__is_available_def cat_channel_buffered_push_data_def split: if_splits)
  have this_rests: "chan_rests k (chans ?w' k) (cframes ?w')"
    by (rule rests_keep [OF ok(3)]) (use ok(2,4) co cs in \<open>auto simp: cat_channel_buffered_push_data_def\<close>)
  have "chan_inv ?w'" using others this_ok this_rests by (simp only: chan_inv_iff [of _ k] simp_thms)
  then show ?thesis using run cs by (auto simp: cat_channel_buffered_push_data_def)
qed

lemma buffered_pop_meets:
  assumes inv: "chan_inv w" and co: "cframes w co = Idle" and x: "ch_storage (chans w k) = x # xs"
    and ps: "ch_producers (chans w k) = Waiter p # ps" "cframes w p = Pushing k d"
  shows "\<exists>w'. cat_channel_buffered_pop co k out w = Done w' \<and> chan_inv w' \<and> cframes w' co = Idle \<and>
    results w' = results w @ [(p, Pushed), (co, Popped)] \<and>
    outbox w' = (if out then (outbox w)(co := Some x) else outbox w) \<and>
    ch_taken (chans w' k) = ch_taken (chans w k) @ [x]"
proof -
  note ok = chan_inv_split [OF inv, of k]
  have len: "unat (ch_length (chans w k)) = Suc (length xs)" "ch_length (chans w k) \<noteq> 0" "ch_capacity (chans w k) \<noteq> 0"
    using ok(2) x by (auto simp: chan_ok_def)
  have room: "ch_length (chans w k) - 1 \<noteq> ch_capacity (chans w k)" using ok(2) x len_pred [OF len(1)] by (auto simp: chan_ok_def)
  let ?v = "upd_ch k (\<lambda>ch. ch\<lparr>ch_storage := xs, ch_length := ch_length ch - 1, ch_taken := ch_taken ch @ [x]\<rparr>)
    (deliver k co out x w)"
  let ?w' = "returns co Popped (returns p Pushed (cat_channel_buffered_push_data k d
    (upd_ch k (\<lambda>ch. ch\<lparr>ch_producers := remove1 (Waiter p) (ch_producers ch)\<rparr>) ?v)))"
  have run: "cat_channel_buffered_pop co k out w = Done ?w'"
    using ok(2,3) co ps len(2,3) room x unfolding chan_ok_unfold
    by (simp add: cat_channel_buffered_pop_def cat_channel_notify_possible_producer_def chan_status
      cat_channel_resume_waiter_def push_return_def cat_channel_buffered_pop_data_def Let_def)
  have cs: "ch_consumers (chans w k) = []" "co \<noteq> p" using ok(2) ps co by (auto simp: chan_ok_def)
  have others: "others_inv k ?w'" using ok(1) co ps(2) by (auto intro!: others_inv_returns simp: cat_channel_buffered_push_data_def)
  have this_ok: "chan_ok k (chans ?w' k) (cframes ?w')"
    using ok(2) co ps x cs unfolding chan_ok_def cat_channel_buffered_push_data_def cat_channel__is_available_def
    by simp (metis chan_frame.distinct(1))
  have this_rests: "chan_rests k (chans ?w' k) (cframes ?w')"
    by (rule rests_keep [OF ok(3)]) (use ok(4) ps cs co in \<open>auto simp: cat_channel_buffered_push_data_def\<close>)
  have "chan_inv ?w'" using others this_ok this_rests by (simp only: chan_inv_iff [of _ k] simp_thms)
  then show ?thesis using run ps x by (auto simp: cat_channel_buffered_push_data_def)
qed

lemma buffered_push_alone:
  assumes inv: "chan_inv w" and co: "cframes w co = Idle" and av: "cat_channel__is_available (chans w k)"
    and nf: "\<not> cat_channel__is_full (chans w k)" and cs: "ch_consumers (chans w k) = []"
  shows "cat_channel_buffered_push co k d w = Done (returns co Pushed (cat_channel_buffered_push_data k d w)) \<and>
    chan_inv (returns co Pushed (cat_channel_buffered_push_data k d w))"
proof -
  note ok = chan_inv_split [OF inv, of k]
  have lt: "unat (ch_length (chans w k)) < unat (ch_capacity (chans w k))"
    using ok(2) nf unfolding chan_ok_unfold
    by (metis order_le_less unsigned_word_eqI [where 'a = nat])
  have ps: "ch_producers (chans w k) = []" using ok(2) lt av by (auto simp: chan_ok_def)
  let ?w = "returns co Pushed (cat_channel_buffered_push_data k d w)"
  have others: "others_inv k ?w" using ok(1) co by (auto intro!: others_inv_returns simp: cat_channel_buffered_push_data_def)
  have this_ok: "chan_ok k (chans ?w k) (cframes ?w)"
    using ok(2) co cs ps lt len_succ [OF lt] by (auto simp: chan_ok_def cat_channel_buffered_push_data_def)
  have this_rests: "chan_rests k (chans ?w k) (cframes ?w)"
    by (rule rests_keep [OF ok(3)]) (use ok(4) co in \<open>auto simp: cat_channel_buffered_push_data_def\<close>)
  have "chan_inv ?w" using others this_ok this_rests by (simp only: chan_inv_iff [of _ k] simp_thms)
  then show ?thesis using nf cs ps
    by (simp add: cat_channel_buffered_push_def cat_channel_notify_possible_consumer_def
      cat_channel_buffered_push_data_def cat_channel__has_producers_def)
qed

lemma buffered_pop_alone:
  assumes inv: "chan_inv w" and co: "cframes w co = Idle"
    and ps: "ch_producers (chans w k) = []" and x: "ch_storage (chans w k) = x # xs"
  shows "\<exists>w'. cat_channel_buffered_pop co k out w = Done w' \<and> chan_inv w' \<and> cframes w' co = Idle \<and>
    results w' = results w @ [(co, Popped)] \<and> outbox w' = (if out then (outbox w)(co := Some x) else outbox w) \<and>
    ch_taken (chans w' k) = ch_taken (chans w k) @ [x]"
proof -
  note ok = chan_inv_split [OF inv, of k]
  have l: "ch_consumers (chans w k) = []" "unat (ch_length (chans w k)) = Suc (length xs)" "ch_length (chans w k) \<noteq> 0"
    using ok(2) x by (auto simp: chan_ok_def)
  let ?w = "upd_ch k (\<lambda>ch. ch\<lparr>ch_storage := xs, ch_length := ch_length ch - 1, ch_taken := ch_taken ch @ [x]\<rparr>)
    (deliver k co out x w)"
  have run: "cat_channel_buffered_pop co k out w = Done (returns co Popped ?w)"
    using l ps x by (simp add: cat_channel_buffered_pop_def cat_channel_notify_possible_producer_def chan_status
      cat_channel_buffered_pop_data_def)
  have others: "others_inv k (returns co Popped ?w)" using ok(1) co by (auto intro!: others_inv_returns)
  have this_ok: "chan_ok k (chans (returns co Popped ?w) k) (cframes (returns co Popped ?w))"
    using ok(2) co l ps x len_pred [OF l(2)] by (auto simp: chan_ok_def)
  have this_rests: "chan_rests k (chans (returns co Popped ?w) k) (cframes (returns co Popped ?w))"
    by (rule rests_keep [OF ok(3)]) (use ok(4) co in auto)
  have "chan_inv (returns co Popped ?w)" using others this_ok this_rests by (simp only: chan_inv_iff [of _ k] simp_thms)
  then show ?thesis using run by auto
qed

lemma closed_empty_unbuffered:
  "chan_inv w \<Longrightarrow> ch_capacity (chans w k) = 0 \<Longrightarrow> ch_length (chans w k) = 0 \<and> ch_storage (chans w k) = []"
  by (auto simp: chan_inv_def chan_ok_def unat_eq_0 dest: spec [of _ k])

subsection \<open>Every operation keeps the invariant\<close>

lemma push_keeps:
  assumes inv: "chan_inv w" and co: "cframes w co = Idle"
  shows "\<exists>w'. cat_channel_push co k d w = Done w' \<and> chan_inv w'"
proof -
  have ok: "chan_ok k (chans w k) (cframes w)" "chan_rests k (chans w k) (cframes w)"
    using inv by (simp_all add: chan_inv_iff [of _ k])
  show ?thesis
  proof (cases "cat_channel__is_available (chans w k)")
    case av: True
    consider (consumer) c out cs where "ch_consumers (chans w k) = Waiter c # cs" "cframes w c = Popping k out"
      | (none) "ch_consumers (chans w k) = []"
      by (cases "ch_consumers (chans w k)") (auto elim: front_consumer [OF ok(1)])
    then show ?thesis
    proof cases
      case consumer
      then show ?thesis using av unbuffered_push_meets [OF inv co _ consumer] buffered_push_meets [OF inv co _ consumer]
        by (fastforce simp: cat_channel_push_def cat_channel__is_unbuffered_def)
    next
      case none
      have full: "cat_channel__is_full (chans w k)" if "ch_capacity (chans w k) = 0"
        using closed_empty_unbuffered [OF inv that] that by (simp add: cat_channel__is_full_def)
      show ?thesis
        using av none full wait_on_producers_inv [OF inv co av none] buffered_push_alone [OF inv co av _ none]
        by (auto simp: cat_channel_push_def cat_channel__is_unbuffered_def cat_channel_unbuffered_push_def
          cat_channel_buffered_push_def cat_channel__has_consumers_def)
    qed
  qed (use inv co chan_inv_returns in \<open>auto simp: cat_channel_push_def\<close>)
qed

text \<open>What a pop finds.\<close>

lemma pop_cases:
  assumes ok: "chan_ok k ch fr"
  obtains (closed) "\<not> cat_channel__is_available ch" "cat_channel__is_empty ch"
    | (producer) p d ps where "cat_channel__is_available ch" "ch_capacity ch = 0" "ch_producers ch = Waiter p # ps" "fr p = Pushing k d"
    | (full) p d ps x xs where "ch_producers ch = Waiter p # ps" "fr p = Pushing k d" "ch_storage ch = x # xs"
    | (empty) "cat_channel__is_available ch" "ch_producers ch = []" "cat_channel__is_empty ch"
    | (stored) x xs where "ch_producers ch = []" "ch_storage ch = x # xs"
proof (cases "ch_producers ch")
  case Nil
  then show ?thesis using ok that(1,4,5) by (cases "ch_storage ch") (auto simp: chan_ok_def cat_channel__is_empty_def unat_eq_0)
next
  case (Cons wt ps)
  then obtain p d where p: "ch_producers ch = Waiter p # ps" "fr p = Pushing k d" using front_producer [OF ok Cons] by metis
  show ?thesis
  proof (cases "ch_storage ch")
    case Nil
    then have e: "cat_channel__is_empty ch" using ok by (auto simp: chan_ok_def cat_channel__is_empty_def unat_eq_0)
    have "cat_channel__is_available ch \<Longrightarrow> ch_capacity ch = 0" using ok p Nil by (auto simp: chan_ok_def unat_eq_0)
    then show ?thesis using that(1,2) e p by blast
  next
    case (Cons x xs)
    then show ?thesis using that(3) p by blast
  qed
qed

lemma pop_keeps:
  assumes inv: "chan_inv w" and co: "cframes w co = Idle"
  shows "\<exists>w'. cat_channel_pop co k out w = Done w' \<and> chan_inv w'"
proof -
  have ok: "chan_ok k (chans w k) (cframes w)" using inv by (simp add: chan_inv_iff [of _ k])
  have buffered: "ch_capacity (chans w k) \<noteq> 0" "\<not> cat_channel__is_empty (chans w k)" if "ch_storage (chans w k) = x # xs" for x xs
    using ok that by (auto simp: chan_ok_def cat_channel__is_empty_def)
  show ?thesis using ok
  proof (cases rule: pop_cases)
    case closed
    then show ?thesis using inv co chan_inv_returns by (auto simp: cat_channel_pop_def)
  next
    case (producer p d ps)
    then show ?thesis using unbuffered_pop_meets [OF inv co producer(2-4), of out]
      by (fastforce simp: cat_channel_pop_def cat_channel__is_unbuffered_def)
  next
    case (full p d ps x xs)
    then show ?thesis using buffered [OF full(3)] buffered_pop_meets [OF inv co full(3,1,2), of out]
      by (auto simp: cat_channel_pop_def cat_channel__is_unbuffered_def)
  next
    case empty
    then show ?thesis using wait_on_consumers_inv [OF inv co empty]
      by (auto simp: cat_channel_pop_def cat_channel__is_unbuffered_def cat_channel_unbuffered_pop_def
        cat_channel_buffered_pop_def cat_channel__has_producers_def)
  next
    case (stored x xs)
    then show ?thesis using buffered [OF stored(2)] buffered_pop_alone [OF inv co stored, of out]
      by (auto simp: cat_channel_pop_def cat_channel__is_unbuffered_def)
  qed
qed

text \<open>A wait that ends without a partner, by an error of the wait or because somebody resumed the coroutine: a pop fails; a push fails
  too, but for one at a closed channel in which a pop or a cleanup has made room.\<close>

fun waiter_co :: "waiter \<Rightarrow> nat" where
  "waiter_co (Waiter co) = co"
| "waiter_co (Dummy co i) = co"

definition push_outcome :: "cat_errno option \<Rightarrow> cat_channel_t \<Rightarrow> chan_result" where
  "push_outcome failed ch =
     (case failed of Some e \<Rightarrow> Failed e | None \<Rightarrow> if cat_channel__is_full ch then Failed CAT_ECANCELED else Pushed)"

lemma push_return_outcome:
  assumes inv: "chan_inv w" and co: "cframes w co = Pushing k d"
  shows "\<exists>w'. push_return co failed w = Done w' \<and> chan_inv w' \<and> cframes w' = (cframes w)(co := Idle) \<and>
    results w' = results w @ [(co, push_outcome failed (chans w k))] \<and> (\<forall>x. x \<noteq> k \<longrightarrow> chans w' x = chans w x) \<and>
    ch_producers (chans w' k) = remove1 (Waiter co) (ch_producers (chans w k)) \<and> ch_consumers (chans w' k) = [] \<and>
    ch_flags (chans w' k) = ch_flags (chans w k)"
proof -
  note ok = chan_inv_split [OF inv, of k]
  have w: "Waiter co \<in> set (ch_producers (chans w k))" using ok(2) co by (auto simp: chan_ok_def)
  then have cs: "ch_consumers (chans w k) = []" using ok(2) by (auto simp: chan_ok_def)
  let ?v = "upd_ch k (\<lambda>ch. ch\<lparr>ch_producers := remove1 (Waiter co) (ch_producers ch)\<rparr>) w"
  show ?thesis
  proof (cases "failed \<noteq> None \<or> cat_channel__is_full (chans w k)")
    case True
    let ?w = "returns co (push_outcome failed (chans w k)) ?v"
    have "push_return co failed w = Done ?w"
      using True co ok(3) by (auto simp: push_return_def push_outcome_def Let_def chan_rests_def chan_status)
    moreover have "others_inv k ?w" using ok(1) co by (intro others_inv_returns) auto
    moreover have "chan_ok k (chans ?w k) (cframes ?w)" using ok(2) co w by (auto simp: chan_ok_def cat_channel__is_available_def)
    moreover have "chan_rests k (chans ?w k) (cframes ?w)" by (rule rests_keep [OF ok(3)]) (use ok(4) co cs in auto)
    ultimately show ?thesis using cs by (simp add: chan_inv_iff [of _ k])
  next
    case False
    then have lt: "unat (ch_length (chans w k)) < unat (ch_capacity (chans w k))"
      using ok(2) unfolding chan_ok_unfold by (metis order_le_less unsigned_word_eqI [where 'a = nat])
    then have cap: "ch_capacity (chans w k) \<noteq> 0" by auto
    have closed: "\<not> cat_channel__is_available (chans w k)" using ok(2) w lt by (auto simp: chan_ok_def)
    let ?w = "returns co Pushed (cat_channel_buffered_push_data k d ?v)"
    have "push_return co failed w = Done ?w"
      using False co cap cs by (simp add: push_return_def Let_def chan_status)
    moreover have "push_outcome failed (chans w k) = Pushed" using False by (simp add: push_outcome_def)
    moreover have "others_inv k ?w" using ok(1) co by (intro others_inv_returns) (auto simp: cat_channel_buffered_push_data_def)
    moreover have "chan_ok k (chans ?w k) (cframes ?w)"
      using ok(2) co w cs lt len_succ [OF lt] closed by (auto simp: chan_ok_def cat_channel_buffered_push_data_def cat_channel__is_available_def)
    moreover have "chan_rests k (chans ?w k) (cframes ?w)"
      by (rule rests_keep [OF ok(3)]) (use ok(4) co cs in \<open>auto simp: cat_channel_buffered_push_data_def\<close>)
    ultimately show ?thesis using cs by (simp add: chan_inv_iff [of _ k] cat_channel_buffered_push_data_def)
  qed
qed

lemma pop_return_outcome:
  assumes inv: "chan_inv w" and co: "cframes w co = Popping k out"
  shows "\<exists>w'. pop_return co failed w = Done w' \<and> chan_inv w' \<and> cframes w' = (cframes w)(co := Idle) \<and>
    results w' = results w @ [(co, Failed (case failed of Some e \<Rightarrow> e | None \<Rightarrow> CAT_ECANCELED))] \<and>
    chans w' = (chans w)(k := (chans w k)\<lparr>ch_consumers := remove1 (Waiter co) (ch_consumers (chans w k))\<rparr>)"
proof -
  note ok = chan_inv_split [OF inv, of k]
  have w: "Waiter co \<in> set (ch_consumers (chans w k))" using ok(2) co by (auto simp: chan_ok_def)
  then have e: "ch_length (chans w k) = 0" "ch_producers (chans w k) = []" using ok(2) by (auto simp: chan_ok_def unat_eq_0)
  let ?w = "returns co (Failed (case failed of Some e \<Rightarrow> e | None \<Rightarrow> CAT_ECANCELED))
    (upd_ch k (\<lambda>ch. ch\<lparr>ch_consumers := remove1 (Waiter co) (ch_consumers ch)\<rparr>) w)"
  have "pop_return co failed w = Done ?w"
    using co ok(3) e by (auto simp: pop_return_def Let_def chan_rests_def chan_status split: option.splits)
  moreover have "others_inv k ?w" using ok(1) co by (intro others_inv_returns) auto
  moreover have "chan_ok k (chans ?w k) (cframes ?w)" using ok(2) co w by (auto simp: chan_ok_def cat_channel__is_available_def)
  moreover have "chan_rests k (chans ?w k) (cframes ?w)" by (rule rests_keep [OF ok(3)]) (use ok(4) co e in auto)
  ultimately show ?thesis by (auto simp: chan_inv_iff [of _ k] upd_ch_def)
qed

subsection \<open>Close and cleanup keep the invariant\<close>

lemma closed_flag: "(f OR FLAG_CLOSED) AND FLAG_CLOSED \<noteq> 0"
  by (simp add: bit.conj_disj_distrib2)

lemma cleanup_storage_result:
  "unat (ch_length ch) = length ds \<Longrightarrow> ch_storage ch = ds \<Longrightarrow>
   cleanup_storage ds ch = ch\<lparr>ch_storage := [], ch_length := 0, ch_taken := ch_taken ch @ ds,
     ch_destroyed := (if ch_dtor ch then ch_destroyed ch @ ds else ch_destroyed ch)\<rparr>"
proof (induction ds arbitrary: ch)
  case Nil
  then have "ch_length ch = 0" by (simp add: unat_eq_0)
  then show ?case using Nil by simp
next
  case (Cons d ds)
  then show ?case by (subst cleanup_storage.simps(2), subst Cons.IH) (simp_all add: len_pred)
qed

lemma close_keeps:
  assumes inv: "chan_inv w" and co: "cframes w co = Idle"
  shows "chan_inv (cat_channel_close co k clean w)"
proof (cases "cat_channel__is_available (chans w k)")
  case True
  let ?w = "set_frame co (Closing_producers k clean) (upd_ch k (\<lambda>ch. ch\<lparr>ch_flags := ch_flags ch OR FLAG_CLOSED\<rparr>) w)"
  note ok = chan_inv_split [OF inv, of k]
  have "\<not> cat_channel__is_available (chans ?w k)" using closed_flag by (simp add: cat_channel__is_available_def)
  moreover have "others_inv k ?w" using ok(1) co by (intro others_inv_frame) auto
  moreover have "chan_ok k (chans ?w k) (cframes ?w)"
    using ok(2) co closed_flag by (auto simp: chan_ok_def cat_channel__is_available_def)
  moreover have "chan_rests k (chans ?w k) (cframes ?w)" if "\<not> cat_channel__is_available (chans ?w k)"
    using ok(3) co that True by (auto simp: chan_rests_def)
  ultimately show ?thesis using True by (simp add: cat_channel_close_def chan_inv_iff [of _ k])
qed (use inv co chan_inv_returns in \<open>simp add: cat_channel_close_def\<close>)

lemma returns_closer:
  assumes inv: "chan_inv w" and co: "cframes w co = Idle \<or> (\<exists>clean. cframes w co = Closing_consumers k clean) \<and> ch_consumers (chans w k) = []"
  shows "chan_inv (returns co r w)"
proof -
  note ok = chan_inv_split [OF inv, of k]
  have "others_inv k (returns co r w)" using ok(1) co by (intro others_inv_returns) auto
  moreover have "chan_ok k (chans (returns co r w) k) (cframes (returns co r w))" using ok(2) co by (auto simp: chan_ok_def)
  moreover have "chan_rests k (chans (returns co r w) k) (cframes (returns co r w))"
  proof (cases "cframes w co = Idle")
    case True
    then show ?thesis by (intro rests_keep [OF ok(3)]) (use ok(4) in auto)
  next
    case False
    then have "ch_producers (chans w k) = []" "ch_consumers (chans w k) = []" using co ok(3) by (auto simp: chan_rests_def)
    then show ?thesis using ok(3) by (auto simp: chan_rests_def)
  qed
  ultimately show ?thesis by (simp add: chan_inv_iff [of _ k])
qed

lemma cleanup_end_keeps:
  assumes inv: "chan_inv w" and closed: "\<not> cat_channel__is_available (chans w k)"
    and co: "cframes w co = Idle \<or> (\<exists>clean. cframes w co = Closing_consumers k clean) \<and> ch_consumers (chans w k) = []"
  shows "\<exists>w'. cleanup_end co k w = Done w' \<and> chan_inv w' \<and> ch_storage (chans w' k) = [] \<and> results w' = results w @ [(co, Cleaned)] \<and>
    cframes w' = (cframes w)(co := Idle) \<and> ch_flags (chans w' k) = ch_flags (chans w k) \<and> ch_producers (chans w' k) = ch_producers (chans w k) \<and>
    ch_consumers (chans w' k) = ch_consumers (chans w k) \<and> (\<forall>x. x \<noteq> k \<longrightarrow> chans w' x = chans w x) \<and>
    ch_destroyed (chans w' k) = ch_destroyed (chans w k) @ (if ch_dtor (chans w k) then ch_storage (chans w k) else [])"
proof -
  note ok = chan_inv_split [OF inv, of k]
  have len: "unat (ch_length (chans w k)) = length (ch_storage (chans w k))" using ok(2) by (simp add: chan_ok_def)
  show ?thesis
  proof (cases "ch_capacity (chans w k) = 0")
    case True
    then show ?thesis using closed_empty_unbuffered [OF inv True] returns_closer [OF inv co, of Cleaned]
      by (auto simp: cleanup_end_def chan_status)
  next
    case False
    let ?v = "upd_ch k (\<lambda>ch. cleanup_storage (ch_storage ch) ch) w"
    have c: "chans ?v k = (chans w k)\<lparr>ch_storage := [], ch_length := 0, ch_taken := ch_taken (chans w k) @ ch_storage (chans w k),
       ch_destroyed := (if ch_dtor (chans w k) then ch_destroyed (chans w k) @ ch_storage (chans w k) else ch_destroyed (chans w k))\<rparr>"
      using cleanup_storage_result [OF len refl] by simp
    have "chan_ok k (chans ?v k) (cframes ?v)" unfolding c using ok(2) closed by (auto simp: chan_ok_def cat_channel__is_available_def)
    moreover have "chan_rests k (chans ?v k) (cframes ?v)" by (rule rests_keep [OF ok(3)]) (use ok(4) c in auto)
    ultimately have "chan_inv ?v" using ok(1) by (simp only: chan_inv_iff [of _ k] others_inv_upd_ch simp_thms)
    then have "chan_inv (returns co Cleaned ?v)" using co c by (intro returns_closer [where k = k]) auto
    moreover have "cleanup_end co k w = Done (returns co Cleaned ?v)"
      using False c by (simp add: cleanup_end_def Let_def chan_status)
    ultimately show ?thesis using c by auto
  qed
qed

lemma cleanup_keeps:
  assumes "chan_inv w" "cframes w co = Idle"
  shows "\<exists>w'. cat_channel_cleanup co k w = Done w' \<and> chan_inv w'"
  using close_keeps [OF assms, of k True] cleanup_end_keeps [OF assms(1), of k co] assms(2)
  by (cases "cat_channel__is_available (chans w k)") (auto simp: cat_channel_cleanup_def)

text \<open>A turn of close resumes the front waiter, or leaves a loop whose queue is empty.\<close>

lemma close_turn_producer:
  assumes inv: "chan_inv w" and co: "cframes w co = Closing_producers k clean" and ps: "ch_producers (chans w k) = wt # ps"
  shows "\<exists>p w'. wt = Waiter p \<and> close_turn co w = Done w' \<and> chan_inv w' \<and> cframes w' = (cframes w)(p := Idle) \<and> p \<noteq> co \<and>
    ch_producers (chans w' k) = ps \<and> ch_consumers (chans w' k) = ch_consumers (chans w k) \<and> ch_flags (chans w' k) = ch_flags (chans w k) \<and>
    results w' = results w @ [(p, push_outcome None (chans w k))]"
proof -
  have ok: "chan_ok k (chans w k) (cframes w)" using inv by (simp add: chan_inv_def)
  obtain p d where p: "wt = Waiter p" "cframes w p = Pushing k d" "Waiter p \<notin> set ps" by (rule front_producer [OF ok ps])
  have "ch_consumers (chans w k) = []" using ok ps by (auto simp: chan_ok_def)
  moreover obtain w' where w': "push_return p None w = Done w'" "chan_inv w'" "cframes w' = (cframes w)(p := Idle)"
      "results w' = results w @ [(p, push_outcome None (chans w k))]" "ch_producers (chans w' k) = remove1 (Waiter p) (ch_producers (chans w k))"
      "ch_consumers (chans w' k) = []" "ch_flags (chans w' k) = ch_flags (chans w k)"
    using push_return_outcome [OF inv p(2), of None] by blast
  moreover have "close_turn co w = Done w'" using w'(1) co ps p by (simp add: close_turn_def cat_channel_resume_waiter_def)
  moreover have "p \<noteq> co" using p(2) co by auto
  ultimately show ?thesis using p(1) ps by (intro exI [of _ p] exI [of _ w']) simp
qed

lemma close_turn_consumer:
  assumes inv: "chan_inv w" and co: "cframes w co = Closing_consumers k clean" and cs: "ch_consumers (chans w k) = wt # cs"
  shows "\<exists>c w'. wt = Waiter c \<and> close_turn co w = Done w' \<and> chan_inv w' \<and> cframes w' = (cframes w)(c := Idle) \<and> c \<noteq> co \<and>
    ch_producers (chans w' k) = ch_producers (chans w k) \<and> ch_consumers (chans w' k) = cs \<and> ch_flags (chans w' k) = ch_flags (chans w k) \<and>
    results w' = results w @ [(c, Failed CAT_ECANCELED)]"
proof -
  have ok: "chan_ok k (chans w k) (cframes w)" using inv by (simp add: chan_inv_def)
  obtain c out where c: "wt = Waiter c" "cframes w c = Popping k out" "Waiter c \<notin> set cs" by (rule front_consumer [OF ok cs])
  obtain w' where w': "pop_return c None w = Done w'" "chan_inv w'" "cframes w' = (cframes w)(c := Idle)"
      "results w' = results w @ [(c, Failed CAT_ECANCELED)]"
      "chans w' = (chans w)(k := (chans w k)\<lparr>ch_consumers := remove1 (Waiter c) (ch_consumers (chans w k))\<rparr>)"
    using pop_return_outcome [OF inv c(2), of None] by auto
  moreover have "close_turn co w = Done w'" using w'(1) co cs c by (simp add: close_turn_def cat_channel_resume_waiter_def)
  moreover have "c \<noteq> co" using c(2) co by auto
  ultimately show ?thesis using c(1) cs by (intro exI [of _ c] exI [of _ w']) simp
qed

lemma close_turn_next:
  assumes inv: "chan_inv w" and co: "cframes w co = Closing_producers k clean" and ps: "ch_producers (chans w k) = []"
  shows "close_turn co w = Done (set_frame co (Closing_consumers k clean) w) \<and> chan_inv (set_frame co (Closing_consumers k clean) w)"
proof -
  note ok = chan_inv_split [OF inv, of k]
  let ?w = "set_frame co (Closing_consumers k clean) w"
  have "others_inv k ?w" using ok(1) co by (intro others_inv_frame) auto
  moreover have "chan_ok k (chans ?w k) (cframes ?w)" using ok(2) co by (auto simp: chan_ok_def)
  moreover have "chan_rests k (chans ?w k) (cframes ?w)" using ok(3) co ps by (auto simp: chan_rests_def)
  ultimately show ?thesis using co ps by (simp add: close_turn_def chan_inv_iff [of _ k])
qed

lemma close_turn_end:
  assumes inv: "chan_inv w" and co: "cframes w co = Closing_consumers k clean" and cs: "ch_consumers (chans w k) = []"
  shows "\<exists>w'. close_turn co w = Done w' \<and> chan_inv w' \<and> cframes w' = (cframes w)(co := Idle) \<and> ch_producers (chans w' k) = [] \<and>
    ch_consumers (chans w' k) = [] \<and> ch_flags (chans w' k) = ch_flags (chans w k) \<and>
    results w' = results w @ [(co, if clean then Cleaned else Closed)]"
proof -
  have r: "\<not> cat_channel__is_available (chans w k)" "ch_producers (chans w k) = []"
    using inv co by (auto simp: chan_inv_def chan_rests_def)
  show ?thesis
  proof (cases clean)
    case True
    then show ?thesis using cleanup_end_keeps [OF inv r(1), of co] co cs r(2)
      by (auto simp: close_turn_def cat_channel__has_producers_def cat_channel__has_consumers_def)
  next
    case False
    then show ?thesis using returns_closer [OF inv, of co k Closed] co cs r(2)
      by (auto simp: close_turn_def cat_channel__has_producers_def cat_channel__has_consumers_def)
  qed
qed

fun closing :: "nat \<Rightarrow> chan_frame \<Rightarrow> bool" where
  "closing k (Closing_producers x c) \<longleftrightarrow> x = k"
| "closing k (Closing_consumers x c) \<longleftrightarrow> x = k"
| "closing k _ \<longleftrightarrow> False"

lemma close_turn_keeps:
  assumes inv: "chan_inv w" and co: "closing k (cframes w co)"
  shows "\<exists>w'. close_turn co w = Done w' \<and> chan_inv w'"
proof (cases "cframes w co")
  case (Closing_producers x clean)
  then show ?thesis using close_turn_producer [OF inv Closing_producers] close_turn_next [OF inv Closing_producers]
    by (cases "ch_producers (chans w x)") blast+
next
  case (Closing_consumers x clean)
  then show ?thesis using close_turn_consumer [OF inv Closing_consumers] close_turn_end [OF inv Closing_consumers]
    by (cases "ch_consumers (chans w x)") blast+
qed (use co in auto)

subsection \<open>Select without waiting\<close>

text \<open>A push that finds the channel writable, or a pop that finds it readable, does not wait.\<close>

lemma push_writable:
  assumes inv: "chan_inv w" and co: "cframes w co = Idle" and wr: "cat_channel__is_writable (chans w k)"
  shows "\<exists>w'. cat_channel_push co k d w = Done w' \<and> chan_inv w' \<and> cframes w' co = Idle \<and>
    ch_pushed (chans w' k) = ch_pushed (chans w k) @ [d]"
proof -
  have ok: "chan_ok k (chans w k) (cframes w)" using inv by (simp add: chan_inv_iff [of _ k])
  have av: "cat_channel__is_available (chans w k)" using wr by (simp add: cat_channel__is_writable_def)
  consider (consumer) c out cs where "ch_consumers (chans w k) = Waiter c # cs" "cframes w c = Popping k out"
    | (none) "ch_consumers (chans w k) = []" "\<not> cat_channel__is_full (chans w k)"
    using wr by (cases "ch_consumers (chans w k)")
      (auto simp: cat_channel__is_writable_def cat_channel__has_consumers_def elim: front_consumer [OF ok])
  then show ?thesis
  proof cases
    case consumer
    then show ?thesis using av unbuffered_push_meets [OF inv co _ consumer, of d] buffered_push_meets [OF inv co _ consumer, of d]
      by (fastforce simp: cat_channel_push_def cat_channel__is_unbuffered_def)
  next
    case none
    then have "ch_capacity (chans w k) \<noteq> 0" using closed_empty_unbuffered [OF inv, of k] by (auto simp: cat_channel__is_full_def)
    then show ?thesis using av none buffered_push_alone [OF inv co av none(2,1), of d]
      by (auto simp: cat_channel_push_def cat_channel__is_unbuffered_def cat_channel_buffered_push_data_def)
  qed
qed

lemma pop_readable:
  assumes inv: "chan_inv w" and co: "cframes w co = Idle" and rd: "cat_channel__is_readable (chans w k)"
  shows "\<exists>w' x. cat_channel_pop co k out w = Done w' \<and> chan_inv w' \<and> cframes w' co = Idle \<and>
    ch_taken (chans w' k) = ch_taken (chans w k) @ [x]"
proof -
  have ok: "chan_ok k (chans w k) (cframes w)" using inv by (simp add: chan_inv_iff [of _ k])
  show ?thesis using ok
  proof (cases rule: pop_cases)
    case (producer p d ps)
    then show ?thesis using unbuffered_pop_meets [OF inv co producer(2-4), of out]
      by (fastforce simp: cat_channel_pop_def cat_channel__is_unbuffered_def)
  next
    case (full p d ps x xs)
    then have "ch_capacity (chans w k) \<noteq> 0" "\<not> cat_channel__is_empty (chans w k)"
      using ok by (auto simp: chan_ok_def cat_channel__is_empty_def)
    then show ?thesis using buffered_pop_meets [OF inv co full(3,1,2), of out]
      by (auto simp: cat_channel_pop_def cat_channel__is_unbuffered_def)
  next
    case (stored x xs)
    then have "ch_capacity (chans w k) \<noteq> 0" "\<not> cat_channel__is_empty (chans w k)"
      using ok by (auto simp: chan_ok_def cat_channel__is_empty_def)
    then show ?thesis using buffered_pop_alone [OF inv co stored, of out]
      by (auto simp: cat_channel_pop_def cat_channel__is_unbuffered_def)
  qed (use rd in \<open>auto simp: cat_channel__is_readable_def cat_channel__has_producers_def\<close>)
qed

lemma select_try_keeps:
  "select_try co i rqs w = Some (j, r) \<Longrightarrow> chan_inv w \<Longrightarrow> cframes w co = Idle \<Longrightarrow>
   \<exists>w' err. r = Done w' \<and> chan_inv w' \<and> cframes w' co = Idle \<and> (co, Selected j err) \<in> set (results w')"
proof (induction rqs arbitrary: i)
  case (Cons rq rqs)
  have push: "\<exists>w'. c_bind (cat_channel_push co k d w) (\<lambda>w. Done (returns co (Selected i False) w)) = Done w' \<and>
      chan_inv w' \<and> cframes w' co = Idle \<and> (co, Selected i False) \<in> set (results w')"
    if "cat_channel__is_writable (chans w k)" for k d
    using push_writable [OF Cons.prems(2,3) that, of d] chan_inv_returns by fastforce
  have pop: "\<exists>w'. c_bind (cat_channel_pop co k out w) (\<lambda>w. Done (returns co (Selected i False) w)) = Done w' \<and>
      chan_inv w' \<and> cframes w' co = Idle \<and> (co, Selected i False) \<in> set (results w')"
    if "cat_channel__is_readable (chans w k)" for k out
    using pop_readable [OF Cons.prems(2,3) that, of out] chan_inv_returns by fastforce
  have closed: "chan_inv (returns co (Selected i True) w)" using Cons.prems(2,3) by (rule chan_inv_returns)
  have rest: ?case if "select_try co (Suc i) rqs w = Some (j, r)" using Cons.IH [OF that Cons.prems(2,3)] .
  have here: ?case if "select_try co i (rq # rqs) w = Some (i, Done (returns co (Selected i True) w))"
    using that closed Cons.prems(1) by auto
  show ?case
  proof (cases "sel_push rq")
    case True
    consider "\<not> cat_channel__is_available (chans w (sel_channel rq))"
      | "cat_channel__is_available (chans w (sel_channel rq))" "cat_channel__is_writable (chans w (sel_channel rq))"
      | "cat_channel__is_available (chans w (sel_channel rq))" "\<not> cat_channel__is_writable (chans w (sel_channel rq))" by blast
    then show ?thesis
    proof cases
      case 2
      then show ?thesis using True Cons.prems(1) push [OF 2(2), of "sel_in rq"] by auto
    qed (use True Cons.prems(1) here rest in simp_all)
  next
    case False
    consider "\<not> cat_channel__is_available (chans w (sel_channel rq)) \<and> cat_channel__is_empty (chans w (sel_channel rq))"
      | "\<not> (\<not> cat_channel__is_available (chans w (sel_channel rq)) \<and> cat_channel__is_empty (chans w (sel_channel rq)))"
        "cat_channel__is_readable (chans w (sel_channel rq))"
      | "\<not> (\<not> cat_channel__is_available (chans w (sel_channel rq)) \<and> cat_channel__is_empty (chans w (sel_channel rq)))"
        "\<not> cat_channel__is_readable (chans w (sel_channel rq))" by blast
    then show ?thesis
    proof cases
      case 2
      then have "r = c_bind (cat_channel_pop co (sel_channel rq) (sel_out rq) w) (\<lambda>w. Done (returns co (Selected i False) w))"
        "j = i" using False Cons.prems(1) by (auto simp: Let_def)
      then show ?thesis using pop [OF 2(2), of "sel_out rq"] by blast
    qed (use False Cons.prems(1) here rest in \<open>auto simp: Let_def\<close>)
  qed
qed simp

subsection \<open>Reachable states\<close>

text \<open>The moves of a program whose selects find a request that need not wait: an idle coroutine calls
  an operation, the wait of a coroutine ends by itself with or without an error, or a close goes on. The order is
  arbitrary: whatever a resumed coroutine does before the coroutine that resumed it goes on is among the runs.\<close>

inductive chan_step :: "chan_world \<Rightarrow> chan_world \<Rightarrow> bool" where
  push: "cframes w co = Idle \<Longrightarrow> cat_channel_push co k d w = Done w' \<Longrightarrow> chan_step w w'"
| pop: "cframes w co = Idle \<Longrightarrow> cat_channel_pop co k out w = Done w' \<Longrightarrow> chan_step w w'"
| push_ends: "cframes w co = Pushing k d \<Longrightarrow> push_return co failed w = Done w' \<Longrightarrow> chan_step w w'"
| pop_ends: "cframes w co = Popping k out \<Longrightarrow> pop_return co failed w = Done w' \<Longrightarrow> chan_step w w'"
| close: "cframes w co = Idle \<Longrightarrow> chan_step w (cat_channel_close co k False w)"
| cleanup: "cframes w co = Idle \<Longrightarrow> cat_channel_cleanup co k w = Done w' \<Longrightarrow> chan_step w w'"
| turn: "closing k (cframes w co) \<Longrightarrow> close_turn co w = Done w' \<Longrightarrow> chan_step w w'"
| set_dtor: "chan_step w (snd (cat_channel_set_dtor k dtor w))"
| select: "cframes w co = Idle \<Longrightarrow> select_try co 0 rqs w \<noteq> None \<Longrightarrow> cat_channel_select co rqs w = Done w' \<Longrightarrow> chan_step w w'"

definition chan_start :: "chan_world \<Rightarrow> bool" where
  "chan_start w \<longleftrightarrow> (\<forall>k. \<exists>capacity dtor. chans w k = cat_channel_create capacity dtor) \<and> (\<forall>co. cframes w co = Idle)"

abbreviation chan_reachable :: "chan_world \<Rightarrow> bool" where
  "chan_reachable \<equiv> reach chan_start chan_step"

lemma chan_create_inv: "chan_start w \<Longrightarrow> chan_inv w"
  unfolding chan_start_def chan_inv_def
proof
  fix k assume a: "(\<forall>k. \<exists>capacity dtor. chans w k = cat_channel_create capacity dtor) \<and> (\<forall>co. cframes w co = Idle)"
  then obtain capacity dtor where "chans w k = cat_channel_create capacity dtor" by blast
  with a show "chan_ok k (chans w k) (cframes w) \<and> chan_rests k (chans w k) (cframes w)"
    by (simp add: chan_ok_def chan_rests_def cat_channel_create_def cat_channel__is_available_def)
qed

lemma select_keeps:
  assumes "chan_inv w" "cframes w co = Idle" "select_try co 0 rqs w \<noteq> None"
  shows "\<exists>w'. cat_channel_select co rqs w = Done w' \<and> chan_inv w'"
proof -
  obtain j r where r: "select_try co 0 rqs w = Some (j, r)" using assms(3) by auto
  show ?thesis using select_try_keeps [OF r assms(1,2)] r by (auto simp: cat_channel_select_def)
qed

lemma chan_step_keeps: "chan_step w w' \<Longrightarrow> chan_inv w \<Longrightarrow> chan_inv w'"
proof (induction rule: chan_step.induct)
  case (close w co k)
  then show ?case using close_keeps by simp
next
  case (cleanup w co k w')
  then show ?case using cleanup_keeps [of w co k] by auto
next
  case (turn k w co w')
  then show ?case using close_turn_keeps [of w k co] by auto
next
  case (select w co rqs w')
  then show ?case using select_keeps [of w co rqs] by auto
next
  case (set_dtor w k dtor)
  then show ?case by (auto simp: cat_channel_set_dtor_def chan_inv_iff [of _ k] chan_ok_unfold)
next
  case (push w co k d w')
  then show ?case using push_keeps [of w co k d] by auto
next
  case (pop w co k out w')
  then show ?case using pop_keeps [of w co k out] by auto
next
  case (push_ends w co k d failed w')
  then show ?case using push_return_outcome [of w co k d failed] by auto
next
  case (pop_ends w co k out failed w')
  then show ?case using pop_return_outcome [of w co k out failed] by auto
qed

interpretation chan: machine chan_start chan_step chan_inv
  by unfold_locales (auto intro: chan_create_inv chan_step_keeps)

subsection \<open>Correctness of the channels\<close>

text \<open>C1: in every state that any interleaving of pushes, pops, timeouts, cancellations, closes,
  cleanups and selects that need not wait can reach, every channel holds at most its capacity, its
  length field counts its buckets, what was pushed is what was taken followed by what it holds (data
  come out in the order they went in, none is lost or doubled), producers wait at an open channel only
  when it is full and consumers only at an empty one, never both, somebody waits at a closed channel only
  while its close has still to resume him, and no assertion of a push, a pop, the rest of a wait, a close or
  a cleanup can fail.\<close>

theorem channel_invariant:
  assumes "chan_reachable w"
  shows "unat (ch_length (chans w k)) = length (ch_storage (chans w k)) \<and>
    length (ch_storage (chans w k)) \<le> unat (ch_capacity (chans w k)) \<and>
    ch_pushed (chans w k) = ch_taken (chans w k) @ ch_storage (chans w k) \<and>
    (cat_channel__has_producers (chans w k) \<and> cat_channel__is_available (chans w k) \<longrightarrow> cat_channel__is_full (chans w k)) \<and>
    (cat_channel__has_consumers (chans w k) \<longrightarrow> cat_channel__is_empty (chans w k)) \<and>
    \<not> (cat_channel__has_producers (chans w k) \<and> cat_channel__has_consumers (chans w k)) \<and>
    (cat_channel__has_producers (chans w k) \<or> cat_channel__has_consumers (chans w k) \<longrightarrow>
      cat_channel__is_available (chans w k) \<or> (\<exists>c. closing k (cframes w c))) \<and>
    (cframes w co = Idle \<longrightarrow> (\<exists>w'. cat_channel_push co k d w = Done w') \<and> (\<exists>w'. cat_channel_pop co k out w = Done w') \<and>
      (\<exists>w'. cat_channel_cleanup co k w = Done w')) \<and>
    (cframes w co = Pushing k d \<longrightarrow> (\<exists>w'. push_return co failed w = Done w')) \<and>
    (cframes w co = Popping k out \<longrightarrow> (\<exists>w'. pop_return co failed w = Done w')) \<and>
    (closing k (cframes w co) \<longrightarrow> (\<exists>w'. close_turn co w = Done w'))"
proof -
  have inv: "chan_inv w" using assms by (rule chan.reach_inv)
  then have ok: "chan_ok k (chans w k) (cframes w)" "chan_rests k (chans w k) (cframes w)" by (simp_all add: chan_inv_def)
  have full: "cat_channel__is_full (chans w k)" if "ch_producers (chans w k) \<noteq> []" "cat_channel__is_available (chans w k)"
    unfolding cat_channel__is_full_def using ok(1) that by (intro unsigned_word_eqI [where 'a = nat]) (simp add: chan_ok_def)
  have empty: "cat_channel__is_empty (chans w k)" if "ch_consumers (chans w k) \<noteq> []"
    using ok(1) that by (auto simp: chan_ok_def cat_channel__is_empty_def unat_eq_0)
  have runs: "cframes w co = Idle \<longrightarrow> (\<exists>w'. cat_channel_push co k d w = Done w') \<and> (\<exists>w'. cat_channel_pop co k out w = Done w') \<and>
      (\<exists>w'. cat_channel_cleanup co k w = Done w')"
    "cframes w co = Pushing k d \<longrightarrow> (\<exists>w'. push_return co failed w = Done w')"
    "cframes w co = Popping k out \<longrightarrow> (\<exists>w'. pop_return co failed w = Done w')"
    "closing k (cframes w co) \<longrightarrow> (\<exists>w'. close_turn co w = Done w')"
    using push_keeps [OF inv, of co k d] pop_keeps [OF inv, of co k out] cleanup_keeps [OF inv, of co k]
      push_return_outcome [OF inv, of co k d failed] pop_return_outcome [OF inv, of co k out failed] close_turn_keeps [OF inv, of k co]
    by blast+
  have order: "unat (ch_length (chans w k)) = length (ch_storage (chans w k))"
    "length (ch_storage (chans w k)) \<le> unat (ch_capacity (chans w k))"
    "ch_pushed (chans w k) = ch_taken (chans w k) @ ch_storage (chans w k)"
    "\<not> (ch_producers (chans w k) \<noteq> [] \<and> ch_consumers (chans w k) \<noteq> [])"
    using ok(1) by (auto simp: chan_ok_def)
  have "\<exists>c. closing k (cframes w c)" if "ch_producers (chans w k) \<noteq> [] \<or> ch_consumers (chans w k) \<noteq> []" "\<not> cat_channel__is_available (chans w k)"
    using ok(2) that unfolding chan_rests_def by (metis closing.simps(1,2))
  then show ?thesis unfolding cat_channel__has_producers_def cat_channel__has_consumers_def
    by (intro conjI runs order) (use full empty in blast)+
qed

definition example_chans :: "u32 \<Rightarrow> chan_world" where
  "example_chans n = \<lparr>chans = \<lambda>_. cat_channel_create n True, cframes = \<lambda>_. Idle, outbox = \<lambda>_. None, results = []\<rparr>"

definition one_waits :: "u32 \<Rightarrow> chan_world" where
  "one_waits n = wait_on_consumers 7 0 True (example_chans n)"

definition one_stored :: chan_world where
  "one_stored = returns 3 Pushed (cat_channel_buffered_push_data 0 42 (example_chans 2))"

lemma example_reachable: "chan_reachable (example_chans n)"
  by (rule reach.reach_start) (auto simp: chan_start_def example_chans_def)

lemma one_waits_reachable: "chan_reachable (one_waits n)"
proof (rule reach.reach_step [OF example_reachable [of n]])
  show "chan_step (example_chans n) (one_waits n)"
    by (rule chan_step.pop [of _ 7 0 True]) (simp_all add: example_chans_def one_waits_def cat_channel_create_def cat_channel_pop_def
      cat_channel_unbuffered_pop_def cat_channel_buffered_pop_def chan_status)
qed

lemma one_stored_reachable: "chan_reachable one_stored"
proof (rule reach.reach_step [OF example_reachable [of 2]])
  show "chan_step (example_chans 2) one_stored"
    by (rule chan_step.push [of _ 3 0 42]) (simp_all add: example_chans_def one_stored_def cat_channel_create_def cat_channel_push_def
      cat_channel_buffered_push_def cat_channel_buffered_push_data_def cat_channel_notify_possible_consumer_def chan_status)
qed

lemma one_stored_fields:
  "ch_storage (chans one_stored 0) = [42]" "ch_destroyed (chans one_stored 0) = []" "ch_dtor (chans one_stored 0)"
  "cframes one_stored 5 = Idle"
  by (simp_all add: one_stored_def example_chans_def cat_channel_create_def cat_channel_buffered_push_data_def)

lemma one_waits_fields:
  "cframes (one_waits n) 3 = Idle" "ch_consumers (chans (one_waits n) 0) = [Waiter 7]" "ch_producers (chans (one_waits n) 0) = []"
  "cframes (one_waits n) 7 = Popping 0 True" "cat_channel__is_available (chans (one_waits n) 0)" "results (one_waits n) = []"
  by (simp_all add: one_waits_def example_chans_def wait_on_consumers_def cat_channel_create_def cat_channel__is_available_def)

theorem channel_invariant_witness:
  "ch_pushed (chans one_stored 0) = ch_taken (chans one_stored 0) @ ch_storage (chans one_stored 0) \<and>
   ch_storage (chans one_stored 0) = [42] \<and> (\<exists>w'. cat_channel_cleanup 5 0 one_stored = Done w')"
  using channel_invariant [OF one_stored_reachable, of 0 5] by (auto simp: one_stored_fields)

text \<open>A push to an open channel with a waiting consumer, buffered or not, hands the datum to the consumer
  that has waited longest: it lands in that consumer's buffer, first the consumer's pop and then the
  push succeed, and the channel is as empty as before.\<close>

theorem push_serves_first_consumer:
  assumes "chan_reachable w" and "cframes w co = Idle"
    and "ch_consumers (chans w k) = Waiter c # cs" and "cframes w c = Popping k True" and "cat_channel__is_available (chans w k)"
  shows "\<exists>w'. cat_channel_push co k d w = Done w' \<and> outbox w' c = Some d \<and>
    results w' = results w @ [(c, Popped), (co, Pushed)] \<and> cframes w' co = Idle \<and> chan_inv w'"
proof -
  have inv: "chan_inv w" using assms(1) by (rule chan.reach_inv)
  then show ?thesis using assms(5)
    using unbuffered_push_meets [OF inv assms(2) _ assms(3,4), of d] buffered_push_meets [OF inv assms(2) _ assms(3,4), of d]
    by (fastforce simp: cat_channel_push_def cat_channel__is_unbuffered_def)
qed

theorem push_serves_first_consumer_witness:
  "(\<exists>w'. cat_channel_push 3 0 42 (one_waits 0) = Done w' \<and> outbox w' 7 = Some 42) \<and>
   (\<exists>w'. cat_channel_push 3 0 42 (one_waits 4) = Done w' \<and> outbox w' 7 = Some 42)"
  using push_serves_first_consumer [OF one_waits_reachable one_waits_fields(1,2,4,5), of 42 0]
    push_serves_first_consumer [OF one_waits_reachable one_waits_fields(1,2,4,5), of 42 4] by blast

text \<open>A pop from a channel that holds data, open or closed, takes the oldest datum; when a producer
  waits, its datum takes the free place at the end in the same step and its push succeeds.\<close>

theorem pop_takes_oldest:
  assumes "chan_reachable w" and "cframes w co = Idle" and "ch_storage (chans w k) = x # xs"
  shows "\<exists>w'. cat_channel_pop co k True w = Done w' \<and> outbox w' co = Some x \<and>
    ch_taken (chans w' k) = ch_taken (chans w k) @ [x] \<and> cframes w' co = Idle \<and>
    (\<forall>p ps d. ch_producers (chans w k) = Waiter p # ps \<and> cframes w p = Pushing k d \<longrightarrow>
      results w' = results w @ [(p, Pushed), (co, Popped)])"
proof -
  have inv: "chan_inv w" using assms(1) by (rule chan.reach_inv)
  then have ok: "chan_ok k (chans w k) (cframes w)" by (simp add: chan_inv_def)
  have c: "ch_capacity (chans w k) \<noteq> 0" "\<not> cat_channel__is_empty (chans w k)"
    using ok assms(3) by (auto simp: chan_ok_def cat_channel__is_empty_def)
  then have pop: "cat_channel_pop co k True w = cat_channel_buffered_pop co k True w"
    by (simp add: cat_channel_pop_def cat_channel__is_unbuffered_def)
  show ?thesis
  proof (cases "ch_producers (chans w k)")
    case Nil
    then show ?thesis using pop buffered_pop_alone [OF inv assms(2) Nil assms(3), of True] by auto
  next
    case (Cons wt ps)
    obtain p d where p: "wt = Waiter p" "cframes w p = Pushing k d" by (rule front_producer [OF ok Cons])
    then have "ch_producers (chans w k) = Waiter p # ps" using Cons by simp
    from buffered_pop_meets [OF inv assms(2,3) this p(2), of True] show ?thesis using pop Cons p by auto
  qed
qed

theorem pop_takes_oldest_witness: "\<exists>w'. cat_channel_pop 5 0 True one_stored = Done w' \<and> outbox w' 5 = Some 42"
  using pop_takes_oldest [OF one_stored_reachable, of 5 0 42 "[]"] by (auto simp: one_stored_fields)

subsection \<open>Closing ends\<close>

text \<open>What is left to do for a close: its waiters and the ends of its loops.\<close>

fun loops_left :: "chan_frame \<Rightarrow> nat" where
  "loops_left (Closing_producers k c) = 2"
| "loops_left (Closing_consumers k c) = 1"
| "loops_left _ = 0"

definition close_load :: "nat \<Rightarrow> nat \<Rightarrow> chan_world \<Rightarrow> nat" where
  "close_load k co w = length (ch_producers (chans w k)) + length (ch_consumers (chans w k)) + loops_left (cframes w co)"

text \<open>What a step of somebody else leaves to the closing coroutine \<open>co\<close>.\<close>

definition shrinks :: "nat \<Rightarrow> chan_world \<Rightarrow> chan_world \<Rightarrow> bool" where
  "shrinks co w w' \<longleftrightarrow>
     (\<forall>k. \<not> cat_channel__is_available (chans w k) \<longrightarrow> \<not> cat_channel__is_available (chans w' k) \<and>
       length (ch_producers (chans w' k)) \<le> length (ch_producers (chans w k)) \<and>
       length (ch_consumers (chans w' k)) \<le> length (ch_consumers (chans w k))) \<and>
     (\<forall>k. closing k (cframes w co) \<longrightarrow> cframes w' co = cframes w co)"

lemma shrinks_refl [simp]: "shrinks co w w"
  by (simp add: shrinks_def)

lemma shrinks_trans [trans]:
  assumes "shrinks co w w1" and "shrinks co w1 w2"
  shows "shrinks co w w2"
  unfolding shrinks_def
proof (intro conjI allI impI)
  fix k assume k: "\<not> cat_channel__is_available (chans w k)"
  then have 1: "\<not> cat_channel__is_available (chans w1 k)" using assms(1) by (simp add: shrinks_def)
  show "\<not> cat_channel__is_available (chans w2 k)" using 1 assms(2) by (simp add: shrinks_def)
  show "length (ch_producers (chans w2 k)) \<le> length (ch_producers (chans w k))"
    using k 1 assms order_trans unfolding shrinks_def by blast
  show "length (ch_consumers (chans w2 k)) \<le> length (ch_consumers (chans w k))"
    using k 1 assms order_trans unfolding shrinks_def by blast
next
  fix k assume "closing k (cframes w co)"
  then show "cframes w2 co = cframes w co" using assms unfolding shrinks_def by metis
qed

lemma shrinks_load:
  assumes "shrinks co w w'" and "closing k (cframes w co)" and "\<not> cat_channel__is_available (chans w k)"
  shows "close_load k co w' \<le> close_load k co w"
proof -
  have "length (ch_producers (chans w' k)) \<le> length (ch_producers (chans w k))" "length (ch_consumers (chans w' k)) \<le> length (ch_consumers (chans w k))"
    "cframes w' co = cframes w co" using assms unfolding shrinks_def by blast+
  then show ?thesis by (simp add: close_load_def)
qed

text \<open>Moving data changes no queue.\<close>

definition same_queues :: "chan_world \<Rightarrow> chan_world \<Rightarrow> bool" where
  "same_queues w w' \<longleftrightarrow> cframes w' = cframes w \<and>
     (\<forall>k. ch_flags (chans w' k) = ch_flags (chans w k) \<and> ch_producers (chans w' k) = ch_producers (chans w k) \<and>
       ch_consumers (chans w' k) = ch_consumers (chans w k))"

lemma same_queues_shrinks: "same_queues w w' \<Longrightarrow> shrinks co w w'"
  by (simp add: same_queues_def shrinks_def cat_channel__is_available_def)

lemma data_same_queues:
  "cat_channel_unbuffered_push_data k d w = Done w' \<Longrightarrow> same_queues w w'"
  "cat_channel_unbuffered_pop_data k c out w = Done w' \<Longrightarrow> same_queues w w'"
  "cat_channel_buffered_pop_data k c out w = Done w' \<Longrightarrow> same_queues w w'"
  "same_queues w (cat_channel_buffered_push_data k d w)"
  "same_queues w (upd_ch k (\<lambda>ch. ch\<lparr>ch_data := x, ch_able := y\<rparr>) w)"
  by (auto simp: same_queues_def cat_channel_unbuffered_push_data_def cat_channel_unbuffered_pop_data_def cat_channel_buffered_pop_data_def
      cat_channel_buffered_push_data_def c_assert_def split: if_splits data_ptr.splits list.splits)

lemmas data_shrinks = data_same_queues [THEN same_queues_shrinks]

lemma shrinks_returns:
  assumes "shrinks co w v" and "\<And>k. \<not> closing k (cframes w c)"
  shows "shrinks co w (returns c r v)"
  using assms by (auto simp: shrinks_def)

lemma shrinks_returns_other: "shrinks co w v \<Longrightarrow> c \<noteq> co \<Longrightarrow> shrinks co w (returns c r v)"
  by (auto simp: shrinks_def)

lemma remove_shrinks:
  "shrinks co w (upd_ch k (\<lambda>ch. ch\<lparr>ch_producers := remove1 x (ch_producers ch)\<rparr>) w)"
  "shrinks co w (upd_ch k (\<lambda>ch. ch\<lparr>ch_consumers := remove1 x (ch_consumers ch)\<rparr>) w)"
  by (auto simp: shrinks_def cat_channel__is_available_def length_remove1)

lemma push_return_shrinks:
  assumes "push_return p failed w = Done w'"
  shows "shrinks co w w'"
proof -
  obtain k d where f: "cframes w p = Pushing k d" using assms by (auto simp: push_return_def split: chan_frame.splits)
  let ?v = "upd_ch k (\<lambda>ch. ch\<lparr>ch_producers := remove1 (Waiter p) (ch_producers ch)\<rparr>) w"
  consider (fails) r where "w' = returns p r ?v" | (handed) v where "cat_channel_unbuffered_push_data k d ?v = Done v" "w' = returns p Pushed v"
    | (stored) "w' = returns p Pushed (cat_channel_buffered_push_data k d ?v)"
    using assms f unfolding push_return_def by (simp add: Let_def c_assert_def c_bind_Done_iff split: if_splits) blast+
  then show ?thesis
  proof cases
    case fails
    then show ?thesis using shrinks_returns [OF remove_shrinks(1)] f by simp
  next
    case handed
    then show ?thesis using shrinks_returns [where c = p, OF shrinks_trans [OF remove_shrinks(1) data_shrinks(1) [OF handed(1)]]] f by simp
  next
    case stored
    then show ?thesis using shrinks_returns [where c = p, OF shrinks_trans [OF remove_shrinks(1) data_shrinks(4)]] f by simp
  qed
qed

lemma pop_return_shrinks:
  assumes "pop_return c failed w = Done w'"
  shows "shrinks co w w'"
proof -
  obtain k out where f: "cframes w c = Popping k out" using assms by (auto simp: pop_return_def split: chan_frame.splits)
  let ?v = "upd_ch k (\<lambda>ch. ch\<lparr>ch_consumers := remove1 (Waiter c) (ch_consumers ch)\<rparr>) w"
  consider (fails) r where "w' = returns c r ?v"
    | (taken) v where "cat_channel_unbuffered_pop_data k c out ?v = Done v \<or> cat_channel_buffered_pop_data k c out ?v = Done v" "w' = returns c Popped v"
    using assms f unfolding pop_return_def by (simp add: Let_def c_assert_def c_bind_Done_iff split: if_splits) blast+
  then show ?thesis
  proof cases
    case fails
    then show ?thesis using shrinks_returns [OF remove_shrinks(2)] f by simp
  next
    case taken
    then have "shrinks co ?v v" using data_shrinks(2,3) by blast
    then have "shrinks co w v" by (rule shrinks_trans [OF remove_shrinks(2)])
    then show ?thesis using shrinks_returns [where c = c] taken(2) f by simp
  qed
qed

text \<open>A waiter that is no dummy.\<close>

lemma resume_waiter_shrinks:
  assumes "cat_channel_resume_waiter (Waiter c) w = Done w'"
  shows "shrinks co w w'"
  using assms push_return_shrinks pop_return_shrinks by (auto simp: cat_channel_resume_waiter_def split: chan_frame.splits)

definition no_dummies :: "chan_world \<Rightarrow> bool" where
  "no_dummies w \<longleftrightarrow> (\<forall>k c i. Dummy c i \<notin> set (ch_producers (chans w k)) \<and> Dummy c i \<notin> set (ch_consumers (chans w k)))"

lemma chan_inv_no_dummies: "chan_inv w \<Longrightarrow> no_dummies w"
  by (simp add: chan_inv_def chan_ok_def no_dummies_def)

lemma same_queues_no_dummies: "same_queues w w' \<Longrightarrow> no_dummies w \<Longrightarrow> no_dummies w'"
  by (simp add: no_dummies_def same_queues_def)

lemma notify_shrinks:
  "no_dummies w \<Longrightarrow> cat_channel_notify_possible_consumer k w = Done w' \<Longrightarrow> shrinks co w w'"
  "no_dummies w \<Longrightarrow> cat_channel_notify_possible_producer k w = Done w' \<Longrightarrow> shrinks co w w'"
  "no_dummies w \<Longrightarrow> cat_channel_unbuffered_notify_consumer k d w = Done w' \<Longrightarrow> shrinks co w w'"
  "no_dummies w \<Longrightarrow> cat_channel_unbuffered_notify_producer k c out w = Done w' \<Longrightarrow> shrinks co w w'"
proof -
  have front: "\<exists>c. wt = Waiter c" if "no_dummies w" "wt \<in> set (ch_producers (chans w k)) \<or> wt \<in> set (ch_consumers (chans w k))" for wt
    using that by (cases wt) (auto simp: no_dummies_def)
  assume n: "no_dummies w"
  show "cat_channel_notify_possible_consumer k w = Done w' \<Longrightarrow> shrinks co w w'"
    using front [OF n] resume_waiter_shrinks by (fastforce simp: cat_channel_notify_possible_consumer_def split: list.splits)
  show "cat_channel_notify_possible_producer k w = Done w' \<Longrightarrow> shrinks co w w'"
    using front [OF n] resume_waiter_shrinks by (fastforce simp: cat_channel_notify_possible_producer_def split: list.splits)
  show "cat_channel_unbuffered_notify_consumer k d w = Done w' \<Longrightarrow> shrinks co w w'"
    using front [OF n] shrinks_trans [OF data_shrinks(5) resume_waiter_shrinks]
    by (fastforce simp: cat_channel_unbuffered_notify_consumer_def c_assert_def split: list.splits if_splits)
  show "cat_channel_unbuffered_notify_producer k c out w = Done w' \<Longrightarrow> shrinks co w w'"
    using front [OF n] shrinks_trans [OF data_shrinks(5) resume_waiter_shrinks]
    by (fastforce simp: cat_channel_unbuffered_notify_producer_def c_assert_def split: list.splits if_splits)
qed

lemma wait_on_shrinks:
  assumes "cat_channel__is_available (chans w k)" and "cframes w c = Idle"
  shows "shrinks co w (wait_on_producers c k d w)" and "shrinks co w (wait_on_consumers c k out w)"
  using assms by (auto simp: shrinks_def wait_on_producers_def wait_on_consumers_def)

lemma push_shrinks:
  assumes inv: "chan_inv w" and c: "cframes w c = Idle" and run: "cat_channel_push c k d w = Done w'"
  shows "shrinks co w w'"
proof (cases "cat_channel__is_available (chans w k)")
  case av: True
  note n = chan_inv_no_dummies [OF inv]
  note stored = same_queues_no_dummies [OF data_same_queues(4) n, of k d]
  consider (waits) "w' = wait_on_producers c k d w"
    | (meets) v where "cat_channel_unbuffered_notify_consumer k d w = Done v" "w' = returns c Pushed v"
    | (stores) v where "cat_channel_notify_possible_consumer k (cat_channel_buffered_push_data k d w) = Done v" "w' = returns c Pushed v"
    using run av by (auto simp: cat_channel_push_def cat_channel_unbuffered_push_def cat_channel_buffered_push_def c_assert_def c_bind_Done_iff
        split: if_splits)
  then show ?thesis
  proof cases
    case waits
    then show ?thesis using wait_on_shrinks(1) [OF av c] by simp
  next
    case meets
    then show ?thesis using shrinks_returns [OF notify_shrinks(3) [OF n meets(1)]] c by simp
  next
    case stores
    then show ?thesis using shrinks_returns [OF shrinks_trans [OF data_shrinks(4) notify_shrinks(1) [OF stored stores(1)]]] c by simp
  qed
qed (use run c shrinks_returns [OF shrinks_refl] in \<open>auto simp: cat_channel_push_def\<close>)

lemma pop_shrinks:
  assumes inv: "chan_inv w" and c: "cframes w c = Idle" and run: "cat_channel_pop c k out w = Done w'"
  shows "shrinks co w w'"
proof -
  note n = chan_inv_no_dummies [OF inv]
  have empty: "cat_channel__is_empty (chans w k)" if "cat_channel__is_unbuffered (chans w k)"
    using closed_empty_unbuffered [OF inv] that by (simp add: chan_status)
  consider (closed) "w' = returns c (Failed CAT_ECLOSED) w"
    | (waits) "cat_channel__is_available (chans w k)" "w' = wait_on_consumers c k out w"
    | (meets) v where "cat_channel_unbuffered_notify_producer k c out w = Done v" "w' = returns c Popped v"
    | (takes) u v where "cat_channel_buffered_pop_data k c out w = Done u" "cat_channel_notify_possible_producer k u = Done v" "w' = returns c Popped v"
    using run empty by (auto simp: cat_channel_pop_def cat_channel_unbuffered_pop_def cat_channel_buffered_pop_def c_assert_def c_bind_Done_iff
        split: if_splits)
  then show ?thesis
  proof cases
    case closed
    then show ?thesis using shrinks_returns [OF shrinks_refl] c by simp
  next
    case waits
    then show ?thesis using wait_on_shrinks(2) [OF waits(1) c] by simp
  next
    case meets
    then show ?thesis using shrinks_returns [OF notify_shrinks(4) [OF n meets(1)]] c by simp
  next
    case takes
    note data = data_same_queues(3) [OF takes(1)]
    show ?thesis using shrinks_returns [OF shrinks_trans [OF same_queues_shrinks [OF data] notify_shrinks(2) [OF same_queues_no_dummies [OF data n] takes(2)]]] c
        takes(3) by simp
  qed
qed

lemma select_shrinks:
  "select_try c i rqs w = Some (j, Done w') \<Longrightarrow> chan_inv w \<Longrightarrow> cframes w c = Idle \<Longrightarrow> shrinks co w w'"
proof (induction rqs arbitrary: i)
  case (Cons rq rqs)
  have once: "shrinks co w (returns c r v)" if "shrinks co w v" for r v using shrinks_returns [OF that] Cons.prems(3) by simp
  show ?case using Cons.prems(1) Cons.IH [OF _ Cons.prems(2,3)] once [OF shrinks_refl]
      once [OF push_shrinks [OF Cons.prems(2,3)]] once [OF pop_shrinks [OF Cons.prems(2,3)]]
    by (auto simp: Let_def c_bind_Done_iff split: if_splits)
qed simp

lemma cleanup_end_shrinks:
  assumes c: "c \<noteq> co \<or> cframes w c = Idle" and run: "cleanup_end c k w = Done w'" and inv: "chan_inv w"
  shows "shrinks co w w'"
proof -
  have "unat (ch_length (chans w k)) = length (ch_storage (chans w k))" using inv by (simp add: chan_inv_def chan_ok_def)
  note cleaned = cleanup_storage_result [OF this refl]
  have "same_queues w (upd_ch k (\<lambda>ch. cleanup_storage (ch_storage ch) ch) w)" by (simp add: same_queues_def cleaned)
  moreover have "shrinks co w (returns c r v)" if "shrinks co w v" for r v
  proof (cases "c = co")
    case True
    then show ?thesis using c shrinks_returns [OF that] by simp
  qed (use shrinks_returns_other [OF that] in simp)
  ultimately show ?thesis using run shrinks_refl same_queues_shrinks by (fastforce simp: cleanup_end_def Let_def c_assert_def split: if_splits)
qed

lemma close_shrinks: "cframes w c = Idle \<Longrightarrow> shrinks co w (cat_channel_close c k clean w)"
  using shrinks_returns [where c = c, OF shrinks_refl, of w co] by (auto simp: cat_channel_close_def shrinks_def)

lemma closing_closed:
  assumes "chan_inv w" and "closing k (cframes w co)"
  shows "\<not> cat_channel__is_available (chans w k)"
proof -
  obtain c where "cframes w co = Closing_producers k c \<or> cframes w co = Closing_consumers k c" using assms(2) by (cases "cframes w co") auto
  then show ?thesis using chan_inv_split(3) [OF assms(1), of k] unfolding chan_rests_def by blast
qed

lemma turn_shrinks:
  assumes inv: "chan_inv w" and run: "close_turn c w = Done w'" and c: "c \<noteq> co"
  shows "shrinks co w w'"
proof -
  note n = chan_inv_no_dummies [OF inv]
  have front: "shrinks co w v" if "cat_channel_resume_waiter wt w = Done v" "ch_producers (chans w k) = wt # ps \<or> ch_consumers (chans w k) = wt # ps" for wt k v ps
  proof (cases wt)
    case (Dummy x i)
    then show ?thesis using that(2) n unfolding no_dummies_def by (metis list.set_intros(1))
  qed (use that(1) resume_waiter_shrinks in simp)
  have moved: "shrinks co w (set_frame c f w)" "shrinks co w (returns c r w)" for f r using c by (auto simp: shrinks_def)
  show ?thesis using run front moved cleanup_end_shrinks [of c co w _ w'] c inv
    by (auto simp: close_turn_def c_assert_def dest: front split: chan_frame.splits list.splits if_splits)
qed

text \<open>Nobody but the closing coroutine adds to what it has to do.\<close>

lemma step_load:
  assumes "chan_step w w'" and inv: "chan_inv w" and co: "closing k (cframes w co)"
  shows "close_load k co w' \<le> close_load k co w"
proof -
  have closed: "\<not> cat_channel__is_available (chans w k)" using closing_closed [OF inv co] .
  have "shrinks co w w' \<or> close_turn co w = Done w'" using assms(1)
  proof cases
    case push
    then show ?thesis using push_shrinks inv by blast
  next
    case pop
    then show ?thesis using pop_shrinks inv by blast
  next
    case push_ends
    then show ?thesis using push_return_shrinks by blast
  next
    case pop_ends
    then show ?thesis using pop_return_shrinks by blast
  next
    case close
    then show ?thesis using close_shrinks by simp
  next
    case (cleanup c x)
    then show ?thesis using close_shrinks [of w c co x True] cleanup_end_shrinks [of c co w x w'] inv
      by (auto simp: cat_channel_cleanup_def split: if_splits)
  next
    case (turn x c)
    then show ?thesis using turn_shrinks [OF inv turn(2), of co] by (cases "c = co") auto
  next
    case (set_dtor x dtor)
    then show ?thesis by (simp add: cat_channel_set_dtor_def shrinks_def cat_channel__is_available_def)
  next
    case (select c rqs)
    then show ?thesis using select_shrinks [of c 0 rqs w _ w' co] inv by (auto simp: cat_channel_select_def split: option.splits)
  qed
  moreover have "close_load k co w' \<le> close_load k co w" if t: "close_turn co w = Done w'"
  proof (cases "cframes w co")
    case (Closing_producers x clean)
    then have x: "cframes w co = Closing_producers k clean" using co by simp
    show ?thesis
    proof (cases "ch_producers (chans w k)")
      case Nil
      then show ?thesis using close_turn_next [OF inv x Nil] t x by (auto simp: close_load_def)
    next
      case (Cons wt ps)
      then show ?thesis using close_turn_producer [OF inv x Cons] t x by (auto simp: close_load_def)
    qed
  next
    case (Closing_consumers x clean)
    then have x: "cframes w co = Closing_consumers k clean" using co by simp
    show ?thesis
    proof (cases "ch_consumers (chans w k)")
      case Nil
      then show ?thesis using close_turn_end [OF inv x Nil] t x by (auto simp: close_load_def)
    next
      case (Cons wt cs)
      then show ?thesis using close_turn_consumer [OF inv x Cons] t x by (auto simp: close_load_def)
    qed
  qed (use co in auto)
  ultimately show ?thesis using shrinks_load [OF _ co closed] by blast
qed

text \<open>C26: A close ends, whatever the coroutines it resumes do before it goes on. Each turn of its loops returns and takes one from what is left to
  do, the waiters and the ends of the two loops, and no step of anybody adds to it. A turn resumes the waiter that has waited longest; a consumer then fails with
  \<^verbatim>\<open>CAT_ECANCELED\<close>, and so does a producer unless somebody has taken data from the closed channel and made room for it. When close returns
  nobody waits.\<close>

theorem close_ends:
  assumes "chan_reachable w" and "closing k (cframes w co)"
  shows "\<not> cat_channel__is_available (chans w k) \<and> (\<forall>w'. chan_step w w' \<longrightarrow> close_load k co w' \<le> close_load k co w) \<and>
    (\<exists>w'. close_turn co w = Done w' \<and> close_load k co w' < close_load k co w \<and>
      (\<forall>clean wt ps. cframes w co = Closing_producers k clean \<and> ch_producers (chans w k) = wt # ps \<longrightarrow> ch_producers (chans w' k) = ps \<and>
        results w' = results w @ [(waiter_co wt, if cat_channel__is_full (chans w k) then Failed CAT_ECANCELED else Pushed)]) \<and>
      (\<forall>clean wt cs. cframes w co = Closing_consumers k clean \<and> ch_consumers (chans w k) = wt # cs \<longrightarrow> ch_consumers (chans w' k) = cs \<and>
        results w' = results w @ [(waiter_co wt, Failed CAT_ECANCELED)]) \<and>
      (cframes w' co = Idle \<longrightarrow> \<not> cat_channel__has_producers (chans w' k) \<and> \<not> cat_channel__has_consumers (chans w' k)))"
proof -
  have inv: "chan_inv w" using assms(1) by (rule chan.reach_inv)
  have closed: "\<not> cat_channel__is_available (chans w k)" using closing_closed [OF inv assms(2)] .
  have turn: "\<exists>w'. close_turn co w = Done w' \<and> close_load k co w' < close_load k co w \<and>
      (\<forall>clean wt ps. cframes w co = Closing_producers k clean \<and> ch_producers (chans w k) = wt # ps \<longrightarrow> ch_producers (chans w' k) = ps \<and>
        results w' = results w @ [(waiter_co wt, if cat_channel__is_full (chans w k) then Failed CAT_ECANCELED else Pushed)]) \<and>
      (\<forall>clean wt cs. cframes w co = Closing_consumers k clean \<and> ch_consumers (chans w k) = wt # cs \<longrightarrow> ch_consumers (chans w' k) = cs \<and>
        results w' = results w @ [(waiter_co wt, Failed CAT_ECANCELED)]) \<and>
      (cframes w' co = Idle \<longrightarrow> \<not> cat_channel__has_producers (chans w' k) \<and> \<not> cat_channel__has_consumers (chans w' k))"
  proof (cases "cframes w co")
    case (Closing_producers x clean)
    then have x: "cframes w co = Closing_producers k clean" using assms(2) by simp
    show ?thesis
    proof (cases "ch_producers (chans w k)")
      case Nil
      then show ?thesis using close_turn_next [OF inv x Nil] x by (auto simp: close_load_def)
    next
      case (Cons wt ps)
      then show ?thesis using close_turn_producer [OF inv x Cons] x by (auto simp: close_load_def push_outcome_def)
    qed
  next
    case (Closing_consumers x clean)
    then have x: "cframes w co = Closing_consumers k clean" using assms(2) by simp
    show ?thesis
    proof (cases "ch_consumers (chans w k)")
      case Nil
      then show ?thesis using close_turn_end [OF inv x Nil] x
        by (auto simp: close_load_def cat_channel__has_producers_def cat_channel__has_consumers_def)
    next
      case (Cons wt cs)
      then show ?thesis using close_turn_consumer [OF inv x Cons] x by (auto simp: close_load_def)
    qed
  qed (use assms(2) in auto)
  then show ?thesis using closed step_load [OF _ inv assms(2)] by blast
qed

definition one_closing :: chan_world where
  "one_closing = set_frame 9 (Closing_consumers 0 False) (cat_channel_close 9 0 False (one_waits 0))"

lemma one_closing_fields: "cframes one_closing 9 = Closing_consumers 0 False" "ch_consumers (chans one_closing 0) = [Waiter 7]"
    "results one_closing = []"
  by (simp_all add: one_closing_def one_waits_def example_chans_def wait_on_consumers_def cat_channel_create_def cat_channel_close_def
      cat_channel__is_available_def)

lemma one_closing_reachable: "chan_reachable one_closing"
proof -
  have 1: "chan_reachable (cat_channel_close 9 0 False (one_waits 0))"
    by (rule reach.reach_step [OF one_waits_reachable chan_step.close]) (simp add: one_waits_def example_chans_def wait_on_consumers_def)
  have "chan_step (cat_channel_close 9 0 False (one_waits 0)) one_closing"
    by (rule chan_step.turn [of 0 _ 9]) (simp_all add: one_closing_def one_waits_def example_chans_def wait_on_consumers_def cat_channel_create_def
        cat_channel_close_def close_turn_def cat_channel__is_available_def)
  then show ?thesis by (rule reach.reach_step [OF 1])
qed

theorem close_ends_witness:
  "\<exists>w'. close_turn 9 one_closing = Done w' \<and> results w' = [(7, Failed CAT_ECANCELED)] \<and> ch_consumers (chans w' 0) = []"
  using close_ends [OF one_closing_reachable, of 0 9] by (auto simp: one_closing_fields)

text \<open>Cleaning a closed channel destroys exactly the data it still holds, in order, when it has a destructor, and leaves it empty.\<close>

theorem cleanup_destroys_rest:
  assumes "chan_reachable w" and "cframes w co = Idle" and "\<not> cat_channel__is_available (chans w k)"
  shows "\<exists>w'. cat_channel_cleanup co k w = Done w' \<and> \<not> cat_channel__is_available (chans w' k) \<and>
    ch_storage (chans w' k) = [] \<and> ch_length (chans w' k) = 0 \<and>
    ch_destroyed (chans w' k) = ch_destroyed (chans w k) @ (if ch_dtor (chans w k) then ch_storage (chans w k) else [])"
proof -
  obtain w' where w': "cleanup_end co k w = Done w'" "chan_inv w'" "ch_flags (chans w' k) = ch_flags (chans w k)" "ch_storage (chans w' k) = []"
    "ch_destroyed (chans w' k) = ch_destroyed (chans w k) @ (if ch_dtor (chans w k) then ch_storage (chans w k) else [])"
    using cleanup_end_keeps [OF chan.reach_inv [OF assms(1)] assms(3), of co] assms(2) by blast
  then have "ch_length (chans w' k) = 0" by (auto simp: chan_inv_iff [of _ k] chan_ok_def unat_eq_0)
  with w' assms(3) show ?thesis by (simp add: cat_channel_cleanup_def cat_channel__is_available_def)
qed

text \<open>A wait at an open channel that no partner ends fails, with the error of the wait or with \<^verbatim>\<open>CAT_ECANCELED\<close> when somebody else resumed the coroutine; either way
  its waiter has left the queue, nothing was transferred and the datum was not stored.\<close>

theorem wait_without_partner:
  assumes "chan_reachable w" and "cframes w co = Pushing k d" and "cat_channel__is_available (chans w k)"
  shows "\<exists>w'. push_return co failed w = Done w' \<and>
    results w' = results w @ [(co, Failed (case failed of Some e \<Rightarrow> e | None \<Rightarrow> CAT_ECANCELED))] \<and>
    Waiter co \<notin> set (ch_producers (chans w' k)) \<and> cframes w' co = Idle"
proof -
  have inv: "chan_inv w" using assms(1) by (rule chan.reach_inv)
  have ok: "chan_ok k (chans w k) (cframes w)" using inv by (simp add: chan_inv_def)
  have "Waiter co \<in> set (ch_producers (chans w k))" using ok assms(2) by (auto simp: chan_ok_def)
  then have "cat_channel__is_full (chans w k)" using ok assms(3) unfolding cat_channel__is_full_def
    by (intro unsigned_word_eqI [where 'a = nat]) (auto simp: chan_ok_def)
  then have "push_outcome failed (chans w k) = Failed (case failed of Some e \<Rightarrow> e | None \<Rightarrow> CAT_ECANCELED)" by (simp add: push_outcome_def split: option.splits)
  moreover have "distinct (ch_producers (chans w k))" using ok by (simp add: chan_ok_def)
  ultimately show ?thesis using push_return_outcome [OF inv assms(2), of failed] by auto
qed

text \<open>A select over two channels whose first one is closed while it waits leaves its loop early:
  the dummy waiter of the second request stays in that channel's queue although the select has
  returned and freed it, and a later push to the second channel runs into it.\<close>

theorem select_leaves_dummy:
  "\<exists>w1 w2. cat_channel_select 7
      [\<lparr>sel_channel = 0, sel_push = False, sel_in = 0, sel_out = True\<rparr>,
       \<lparr>sel_channel = 1, sel_push = False, sel_in = 0, sel_out = True\<rparr>] (example_chans 0) = Done w1 \<and>
     close_turn 9 (set_frame 9 (Closing_consumers 0 False) (cat_channel_close 9 0 False w1)) = Done w2 \<and> results w2 = [(7, Selected 0 True)] \<and>
     ch_consumers (chans w2 1) = [Dummy 7 1] \<and> cat_channel_push 3 1 42 w2 = Undefined"
  by (simp add: cat_channel_select_def example_chans_def cat_channel_create_def chan_status
    cat_channel__is_readable_def cat_channel_queue_dummy_coroutine_def cat_channel_close_def close_turn_def Let_def cat_channel_resume_waiter_def select_return_def remove_dummy_def cat_channel_push_def
    cat_channel_unbuffered_push_def cat_channel_unbuffered_notify_consumer_def)

text \<open>A select that offers both a push and a pop on one unbuffered channel and waits makes the next
  push of another coroutine violate the assertion that a channel never has both producers and
  consumers.\<close>

theorem select_both_ways:
  "\<exists>w1. cat_channel_select 7
      [\<lparr>sel_channel = 0, sel_push = True, sel_in = 5, sel_out = False\<rparr>,
       \<lparr>sel_channel = 0, sel_push = False, sel_in = 0, sel_out = True\<rparr>] (example_chans 0) = Done w1 \<and>
     cat_channel__has_producers (chans w1 0) \<and> cat_channel__has_consumers (chans w1 0) \<and>
     cat_channel_push 3 0 42 w1 = Undefined"
  by (simp add: cat_channel_select_def example_chans_def cat_channel_create_def chan_status c_assert_def
    cat_channel__is_readable_def cat_channel__is_writable_def cat_channel_queue_dummy_coroutine_def cat_channel_push_def
    cat_channel_unbuffered_push_def)

end
