(* ===== verification/Cat_Http.thy ===== *)
theory Cat_Http
  imports Cat_String
begin

unbundle bit_operations_syntax

text \<open>
  The multipart detection of the HTTP parser: the media type parser of
  \<^verbatim>\<open>src/cat_http_content_type.c\<close> and the header callbacks of \<^verbatim>\<open>src/cat_http.c\<close> that drive it. llhttp cuts
  a message into callbacks; its own state is not modelled, what a callback reads of it is an argument.

  The \<^verbatim>\<open>switch\<close> of the media type parser with its labels and \<^verbatim>\<open>goto\<close>s is one function per label; one
  call is one iteration of the loop of that label. A chunk is a prefix of length \<open>pe\<close> of the bytes
  \<open>buf\<close> that are in memory from \<open>p\<close> on, so that a read behind the chunk is seen as such, and a read
  behind \<open>buf\<close> is undefined. \<^verbatim>\<open>char\<close> is signed.

  The lemmas show that the parser ends on every chunk, never writes outside its boundary array, stores
  only characters that may occur in a boundary, and gives back the boundary of a well-formed value.
\<close>

subsection \<open>State\<close>

text \<open>\<open>mt_start i\<close> is \<^verbatim>\<open>mt_start + i\<close>, \<open>mt_boundary_eq i\<close> the states from \<^verbatim>\<open>mt_boundary_eq_o\<close> on, the last
  one being \<^verbatim>\<open>mt_boundary_eq_eq\<close>.\<close>

datatype media_type_state =
    mt_error | mt_start nat | mt_maybe_subtype | mt_subtype | mt_parameter_ows1_acceptable
  | mt_parameter_ows1 | mt_parameter_ows2 | mt_parameter_name | mt_parameter_value
  | mt_parameter_literal_value_acceptable | mt_parameter_quoted_value | mt_quoted_pair
  | mt_boundary_eq nat | mt_boundary_value | mt_boundary_literal_value_acceptable
  | mt_boundary_quoted_value | mt_boundary_quoted_value_unacceptable | mt_boundary_quoted_pair

abbreviation mt_boundary_eq_eq :: media_type_state where "mt_boundary_eq_eq \<equiv> mt_boundary_eq 7"

record cat_http_parser_t =
  hp_events :: u32
  hp_event :: u32
  hp_previous_event :: u32
  hp_multipart_state :: u8
  hp_multipart_header :: "byte list"
  hp_state :: media_type_state
  hp_boundary_length :: nat
  hp_boundary :: "byte list"

subsection \<open>Character classes\<close>

definition digit_case :: "byte \<Rightarrow> bool" where
  "digit_case c \<longleftrightarrow> 48 \<le> c \<and> c \<le> 57"

definition alpha_case :: "byte \<Rightarrow> bool" where
  "alpha_case c \<longleftrightarrow> 97 \<le> c \<and> c \<le> 122 \<or> 65 \<le> c \<and> c \<le> 90"

definition tchar_case :: "byte \<Rightarrow> bool" where
  "tchar_case c \<longleftrightarrow> c \<in> {33, 35, 36, 37, 38, 39, 42, 43, 45, 46, 94, 95, 96, 124, 126}"

definition token_case :: "byte \<Rightarrow> bool" where
  "token_case c \<longleftrightarrow> tchar_case c \<or> digit_case c \<or> alpha_case c"

definition qdtext :: "byte \<Rightarrow> bool" where
  "qdtext c \<longleftrightarrow> c = 9 \<or> c = 32 \<or> c = 33 \<or> 35 \<le> c \<and> c \<le> 91 \<or> 93 \<le> c \<and> c \<le> 126 \<or> 128 \<le> c"

definition pair_char :: "byte \<Rightarrow> bool" where
  "pair_char c \<longleftrightarrow> c = 32 \<or> c = 9 \<or> 31 \<le> c \<and> c \<le> 126 \<or> 128 \<le> c"

text \<open>The characters of a boundary that need no quotes, and those that may stand in quotes.\<close>

definition literal_bchar :: "byte \<Rightarrow> bool" where
  "literal_bchar c \<longleftrightarrow> digit_case c \<or> alpha_case c \<or> c \<in> {39, 43, 95, 45, 46}"

definition quoted_bchar :: "byte \<Rightarrow> bool" where
  "quoted_bchar c \<longleftrightarrow> digit_case c \<or> alpha_case c \<or> c \<in> {39, 40, 41, 43, 95, 44, 45, 46, 47, 58, 61, 63}"

abbreviation is_ows :: "byte \<Rightarrow> bool" where "is_ows c \<equiv> c = 32 \<or> c = 9"

subsection \<open>The labels\<close>

text \<open>Where control goes: to a label with the pointer at an index, to \<^verbatim>\<open>next\<close>, to \<^verbatim>\<open>error\<close>, or out of
  the bytes in memory and into an assertion that fails.\<close>

datatype mt_jump = Goto nat cat_http_parser_t | Next cat_http_parser_t | Error cat_http_parser_t | Outside

definition go :: "media_type_state \<Rightarrow> nat \<Rightarrow> cat_http_parser_t \<Rightarrow> mt_jump" where
  "go s p h = Goto p (h\<lparr>hp_state := s\<rparr>)"

definition peek :: "byte list \<Rightarrow> nat \<Rightarrow> (byte \<Rightarrow> mt_jump) \<Rightarrow> mt_jump" where
  "peek buf p f = (if p < length buf then f (buf ! p) else Outside)"

text \<open>Recording a boundary character and going on with the loop.\<close>

definition record_char :: "byte \<Rightarrow> nat \<Rightarrow> cat_http_parser_t \<Rightarrow> mt_jump" where
  "record_char c p h =
     (if 72 \<le> hp_boundary_length h then Error h
      else if hp_boundary_length h < length (hp_boundary h)
      then Goto (p + 1) (h\<lparr>hp_boundary := (hp_boundary h)[hp_boundary_length h := c],
             hp_boundary_length := hp_boundary_length h + 1\<rparr>)
      else Outside)"

definition parse_start :: "byte list \<Rightarrow> nat \<Rightarrow> nat \<Rightarrow> nat \<Rightarrow> cat_http_parser_t \<Rightarrow> mt_jump" where
  "parse_start buf pe i p h =
     (let read_len = (if 10 - i < pe - p then 10 - i else pe - p)
      in if length buf < p + read_len \<or> length (hp_boundary h) < 1 + i + read_len then Outside
         else
           let h = h\<lparr>hp_boundary := take (1 + i) (hp_boundary h) @ take read_len (drop p buf) @
                       drop (1 + i + read_len) (hp_boundary h),
                     hp_state := (if i + read_len < 10 then mt_start (i + read_len) else mt_maybe_subtype)\<rparr>
           in if pe = p + read_len then Next h
              else if pe < p + read_len then Outside
              else Goto (p + read_len) h)"

definition parse_maybe_subtype :: "byte list \<Rightarrow> nat \<Rightarrow> cat_http_parser_t \<Rightarrow> mt_jump" where
  "parse_maybe_subtype buf p h =
     (if \<not> cat_strcasecmp_fast_multipart_slash (drop 1 (hp_boundary h)) then Error h
      else peek buf p (\<lambda>c. if token_case c then go mt_subtype (p + 1) h else Error h))"

definition parse_subtype :: "byte list \<Rightarrow> nat \<Rightarrow> nat \<Rightarrow> cat_http_parser_t \<Rightarrow> mt_jump" where
  "parse_subtype buf pe p h =
     (if p < pe then
        peek buf p (\<lambda>c.
          if c = 59 then go mt_parameter_ows2 (p + 1) h
          else if is_ows c then go mt_parameter_ows1_acceptable p h
          else if token_case c then Goto (p + 1) h
          else Error h)
      else Next h)"

definition parse_ows1_acceptable :: "nat \<Rightarrow> nat \<Rightarrow> cat_http_parser_t \<Rightarrow> mt_jump" where
  "parse_ows1_acceptable pe p h =
     (if p + 1 = pe then Next h else if pe < p + 1 then Outside else go mt_parameter_ows1 (p + 1) h)"

definition parse_ows1 :: "byte list \<Rightarrow> nat \<Rightarrow> nat \<Rightarrow> cat_http_parser_t \<Rightarrow> mt_jump" where
  "parse_ows1 buf pe p h =
     (if p < pe then
        peek buf p (\<lambda>c.
          if is_ows c then Goto (p + 1) h
          else if c = 59 then go mt_parameter_ows2 (p + 1) h
          else Error h)
      else Next h)"

definition parse_ows2 :: "byte list \<Rightarrow> nat \<Rightarrow> nat \<Rightarrow> cat_http_parser_t \<Rightarrow> mt_jump" where
  "parse_ows2 buf pe p h =
     (if p < pe then
        peek buf p (\<lambda>c.
          if is_ows c then Goto (p + 1) h
          else if token_case c then
            (if c = 98 \<or> c = 66 then go (mt_boundary_eq 0) (p + 1) h else go mt_parameter_name p h)
          else Error h)
      else Next h)"

definition parse_name :: "byte list \<Rightarrow> nat \<Rightarrow> nat \<Rightarrow> cat_http_parser_t \<Rightarrow> mt_jump" where
  "parse_name buf pe p h =
     (if p < pe then
        peek buf p (\<lambda>c.
          if token_case c then Goto (p + 1) h
          else if c = 61 then go mt_parameter_value (p + 1) h
          else Error h)
      else Next h)"

definition parse_value :: "byte list \<Rightarrow> nat \<Rightarrow> cat_http_parser_t \<Rightarrow> mt_jump" where
  "parse_value buf p h =
     peek buf p (\<lambda>c.
       if token_case c then go mt_parameter_literal_value_acceptable p h
       else if c = 34 then go mt_parameter_quoted_value (p + 1) h
       else if is_ows c then go mt_parameter_ows1 p h
       else if c = 59 then go mt_parameter_ows2 (p + 1) h
       else Error h)"

definition parse_quoted_value :: "byte list \<Rightarrow> nat \<Rightarrow> nat \<Rightarrow> cat_http_parser_t \<Rightarrow> mt_jump" where
  "parse_quoted_value buf pe p h =
     (if p < pe then
        peek buf p (\<lambda>c.
          if qdtext c then Goto (p + 1) h
          else if c = 92 then go mt_quoted_pair (p + 1) h
          else if c = 34 then go mt_parameter_ows1_acceptable p h
          else Error h)
      else Next h)"

definition parse_quoted_pair :: "byte list \<Rightarrow> nat \<Rightarrow> cat_http_parser_t \<Rightarrow> mt_jump" where
  "parse_quoted_pair buf p h =
     peek buf p (\<lambda>c. if pair_char c then go mt_parameter_quoted_value (p + 1) h else Error h)"

definition parse_literal_value :: "byte list \<Rightarrow> nat \<Rightarrow> nat \<Rightarrow> cat_http_parser_t \<Rightarrow> mt_jump" where
  "parse_literal_value buf pe p h =
     (if p < pe then
        peek buf p (\<lambda>c.
          if token_case c then Goto (p + 1) h
          else if is_ows c then go mt_parameter_ows1 p h
          else if c = 59 then go mt_parameter_ows2 (p + 1) h
          else Error h)
      else Next h)"

definition parse_boundary_eq_eq :: "byte list \<Rightarrow> nat \<Rightarrow> cat_http_parser_t \<Rightarrow> mt_jump" where
  "parse_boundary_eq_eq buf p h =
     peek buf p (\<lambda>c.
       if c = 61 then
         (if hp_boundary_length h \<noteq> 0 then Error h
          else if length (hp_boundary h) < 2 then Outside
          else go mt_boundary_value (p + 1)
                 (h\<lparr>hp_boundary_length := 2, hp_boundary := (hp_boundary h)[0 := 45, 1 := 45]\<rparr>))
       else go mt_parameter_name p h)"

text \<open>\<^verbatim>\<open>"oundary"\<close> with its terminator.\<close>

definition oundary :: "byte list" where
  "oundary = [111, 117, 110, 100, 97, 114, 121, 0]"

definition parse_boundary_eq :: "byte list \<Rightarrow> nat \<Rightarrow> nat \<Rightarrow> nat \<Rightarrow> cat_http_parser_t \<Rightarrow> mt_jump" where
  "parse_boundary_eq buf pe i p h =
     (if p < pe then
        peek buf p (\<lambda>c.
          if digit_case c \<or> tchar_case c then go mt_parameter_name p h
          else if alpha_case c then
            (if 32 OR c = oundary ! i then go (mt_boundary_eq (i + 1)) (p + 1) h else go mt_parameter_name p h)
          else if c = 61 then
            (if i \<noteq> 7 then go mt_parameter_value (p + 1) h else parse_boundary_eq_eq buf p h)
          else Error h)
      else Next h)"

definition parse_boundary_value :: "byte list \<Rightarrow> nat \<Rightarrow> cat_http_parser_t \<Rightarrow> mt_jump" where
  "parse_boundary_value buf p h =
     peek buf p (\<lambda>c.
       if c = 34 then go mt_boundary_quoted_value (p + 1) h
       else if literal_bchar c then go mt_boundary_literal_value_acceptable p h
       else Error h)"

text \<open>In the two quoted states a character that no case lists is skipped.\<close>

definition parse_boundary_quoted_value :: "byte list \<Rightarrow> nat \<Rightarrow> nat \<Rightarrow> cat_http_parser_t \<Rightarrow> mt_jump" where
  "parse_boundary_quoted_value buf pe p h =
     (if p < pe then
        peek buf p (\<lambda>c.
          if is_ows c then go mt_boundary_quoted_value_unacceptable p h
          else if quoted_bchar c then record_char c p h
          else if c = 92 then go mt_boundary_quoted_pair (p + 1) h
          else if c = 34 then go mt_parameter_ows1_acceptable p h
          else Goto (p + 1) h)
      else Next h)"

definition parse_boundary_quoted_value_unacceptable :: "byte list \<Rightarrow> nat \<Rightarrow> nat \<Rightarrow> cat_http_parser_t \<Rightarrow> mt_jump" where
  "parse_boundary_quoted_value_unacceptable buf pe p h =
     (if p < pe then
        peek buf p (\<lambda>c.
          if quoted_bchar c then go mt_boundary_quoted_value p h
          else if is_ows c then record_char c p h
          else if c = 92 then go mt_boundary_quoted_pair (p + 1) h
          else if c = 34 then go mt_parameter_ows1 p h
          else Goto (p + 1) h)
      else Next h)"

definition parse_boundary_quoted_pair :: "byte list \<Rightarrow> nat \<Rightarrow> cat_http_parser_t \<Rightarrow> mt_jump" where
  "parse_boundary_quoted_pair buf p h =
     peek buf p (\<lambda>c. if is_ows c \<or> quoted_bchar c then go mt_boundary_quoted_value p h else Error h)"

definition parse_boundary_literal_value :: "byte list \<Rightarrow> nat \<Rightarrow> nat \<Rightarrow> cat_http_parser_t \<Rightarrow> mt_jump" where
  "parse_boundary_literal_value buf pe p h =
     (if p < pe then
        peek buf p (\<lambda>c.
          if literal_bchar c then record_char c p h
          else if is_ows c then go mt_parameter_ows1 p h
          else if c = 59 then go mt_parameter_ows2 (p + 1) h
          else Error h)
      else Next h)"

definition mt_label :: "byte list \<Rightarrow> nat \<Rightarrow> nat \<Rightarrow> cat_http_parser_t \<Rightarrow> mt_jump" where
  "mt_label buf pe p h =
     (case hp_state h of
        mt_error \<Rightarrow> Error h
      | mt_start i \<Rightarrow> parse_start buf pe i p h
      | mt_maybe_subtype \<Rightarrow> parse_maybe_subtype buf p h
      | mt_subtype \<Rightarrow> parse_subtype buf pe p h
      | mt_parameter_ows1_acceptable \<Rightarrow> parse_ows1_acceptable pe p h
      | mt_parameter_ows1 \<Rightarrow> parse_ows1 buf pe p h
      | mt_parameter_ows2 \<Rightarrow> parse_ows2 buf pe p h
      | mt_parameter_name \<Rightarrow> parse_name buf pe p h
      | mt_parameter_value \<Rightarrow> parse_value buf p h
      | mt_parameter_literal_value_acceptable \<Rightarrow> parse_literal_value buf pe p h
      | mt_parameter_quoted_value \<Rightarrow> parse_quoted_value buf pe p h
      | mt_quoted_pair \<Rightarrow> parse_quoted_pair buf p h
      | mt_boundary_eq i \<Rightarrow> parse_boundary_eq buf pe i p h
      | mt_boundary_value \<Rightarrow> parse_boundary_value buf p h
      | mt_boundary_literal_value_acceptable \<Rightarrow> parse_boundary_literal_value buf pe p h
      | mt_boundary_quoted_value \<Rightarrow> parse_boundary_quoted_value buf pe p h
      | mt_boundary_quoted_value_unacceptable \<Rightarrow> parse_boundary_quoted_value_unacceptable buf pe p h
      | mt_boundary_quoted_pair \<Rightarrow> parse_boundary_quoted_pair buf p h)"

lemmas label_defs = parse_start_def parse_maybe_subtype_def parse_subtype_def parse_ows1_acceptable_def parse_ows1_def
  parse_ows2_def parse_name_def parse_value_def parse_quoted_value_def parse_quoted_pair_def parse_literal_value_def
  parse_boundary_eq_def parse_boundary_eq_eq_def parse_boundary_value_def parse_boundary_quoted_value_def
  parse_boundary_quoted_value_unacceptable_def parse_boundary_quoted_pair_def parse_boundary_literal_value_def

subsection \<open>The parser\<close>

text \<open>A label that goes on without taking a character goes to one that stands lower here.\<close>

definition mt_rank :: "media_type_state \<Rightarrow> byte \<Rightarrow> nat" where
  "mt_rank s c =
     (case s of mt_boundary_quoted_pair \<Rightarrow> 3
      | mt_boundary_quoted_value \<Rightarrow> if is_ows c then 2 else 1
      | mt_boundary_quoted_value_unacceptable \<Rightarrow> if is_ows c then 1 else 2
      | mt_parameter_value \<Rightarrow> 2 | mt_boundary_value \<Rightarrow> 2
      | mt_parameter_ows1_acceptable \<Rightarrow> 0 | mt_parameter_ows1 \<Rightarrow> 0 | mt_parameter_name \<Rightarrow> 0
      | mt_start i \<Rightarrow> 3
      | _ \<Rightarrow> 1)"

lemma char_classes [simp]:
  "\<not> quoted_bchar 32" "\<not> quoted_bchar 9" "\<not> quoted_bchar 34" "\<not> quoted_bchar 92" "\<not> literal_bchar 34"
  "\<not> literal_bchar 32" "\<not> literal_bchar 9" "\<not> literal_bchar 59" "\<not> token_case 32" "\<not> token_case 9" "\<not> token_case 59"
  "\<not> token_case 61" "\<not> token_case 34"
  "\<not> alpha_case 61" "\<not> digit_case 61" "\<not> tchar_case 61"
  by (simp_all add: quoted_bchar_def literal_bchar_def token_case_def tchar_case_def digit_case_def alpha_case_def)

lemma peek_Goto: "peek buf p f = Goto q h \<longleftrightarrow> p < length buf \<and> f (buf ! p) = Goto q h"
  by (simp add: peek_def)

lemma go_Goto: "go s p h = Goto q h' \<longleftrightarrow> p = q \<and> h' = h\<lparr>hp_state := s\<rparr>"
  by (auto simp: go_def)

lemma record_char_Goto: "record_char c p h = Goto q h' \<Longrightarrow> q = p + 1"
  by (auto simp: record_char_def split: if_splits)

lemma parse_boundary_eq_eq_progress:
  "parse_boundary_eq_eq buf p h = Goto q h' \<Longrightarrow> p < q \<and> q \<le> length buf \<or> q = p \<and> hp_state h' = mt_parameter_name"
  by (auto simp: parse_boundary_eq_eq_def peek_Goto go_Goto split: if_splits)

lemma mt_label_progress:
  assumes "mt_label buf pe p h = Goto q h'"
  shows "p < q \<and> q \<le> max pe (length buf) \<or> q = p \<and> mt_rank (hp_state h') (buf ! p) < mt_rank (hp_state h) (buf ! p)"
proof (cases "hp_state h")
  case (mt_start i)
  then show ?thesis using assms by (auto simp: mt_label_def parse_start_def Let_def mt_rank_def split: if_splits)
next
  case (mt_boundary_eq i)
  then show ?thesis using assms parse_boundary_eq_eq_progress [of buf p h q h']
    by (auto simp: mt_label_def parse_boundary_eq_def peek_Goto go_Goto mt_rank_def split: if_splits)
qed (use assms in \<open>auto simp: mt_label_def label_defs peek_Goto go_Goto mt_rank_def literal_bchar_def
  dest!: record_char_Goto split: if_splits\<close>)

text \<open>The \<^verbatim>\<open>switch\<close> run from a label to \<^verbatim>\<open>next\<close> or \<^verbatim>\<open>error\<close>. It always gets there: \<open>mt_label_progress\<close>.\<close>

function mt_run :: "byte list \<Rightarrow> nat \<Rightarrow> nat \<Rightarrow> cat_http_parser_t \<Rightarrow> (bool \<times> cat_http_parser_t) c_run" where
  "mt_run buf pe p h =
     (case mt_label buf pe p h of
        Goto q h' \<Rightarrow> mt_run buf pe q h'
      | Next h' \<Rightarrow>
          Done (hp_state h' \<in> {mt_parameter_ows1_acceptable, mt_parameter_literal_value_acceptable,
                  mt_boundary_literal_value_acceptable}, h')
      | Error h' \<Rightarrow> Done (False, h'\<lparr>hp_state := mt_error\<rparr>)
      | Outside \<Rightarrow> Undefined)"
  by pat_completeness auto
termination
proof (relation "measure (\<lambda>(buf, pe, p, h). 4 * (max pe (length buf) + 1 - p) + mt_rank (hp_state h) (buf ! p))")
  fix buf pe p h q h' assume "mt_label buf pe p h = Goto q h'"
  from mt_label_progress [OF this] have "4 * (max pe (length buf) + 1 - q) + mt_rank (hp_state h') (buf ! q)
    < 4 * (max pe (length buf) + 1 - p) + mt_rank (hp_state h) (buf ! p)"
  proof
    assume *: "p < q \<and> q \<le> max pe (length buf)"
    have "mt_rank (hp_state h') (buf ! q) < 4" by (auto simp: mt_rank_def split: media_type_state.splits)
    with * show ?thesis by linarith
  qed simp
  then show "((buf, pe, q, h'), (buf, pe, p, h)) \<in>
    measure (\<lambda>(buf, pe, p, h). 4 * (max pe (length buf) + 1 - p) + mt_rank (hp_state h) (buf ! p))" by simp
qed simp

declare mt_run.simps [simp del]

definition cat_http_parser_multipart_parse_content_type_init :: "cat_http_parser_t \<Rightarrow> cat_http_parser_t" where
  "cat_http_parser_multipart_parse_content_type_init h =
     h\<lparr>hp_state := mt_start 0, hp_boundary_length := 0, hp_boundary := (hp_boundary h)[0 := 0]\<rparr>"

text \<open>A call with a chunk (the bytes from \<open>p\<close> on and \<open>pe - p\<close>), or with \<^verbatim>\<open>NULL\<close> at the end of the headers. A
  chunk that begins in \<^verbatim>\<open>mt_boundary_eq_eq\<close> enters at that label.\<close>

definition cat_http_parser_multipart_parse_content_type ::
  "(byte list \<times> nat) option \<Rightarrow> cat_http_parser_t \<Rightarrow> (bool \<times> cat_http_parser_t) c_run" where
  "cat_http_parser_multipart_parse_content_type chunk h =
     (case chunk of
        None \<Rightarrow>
          Done (hp_state h \<in> {mt_parameter_ows1_acceptable, mt_parameter_literal_value_acceptable,
                  mt_boundary_literal_value_acceptable}, h)
      | Some (buf, pe) \<Rightarrow>
          if hp_state h = mt_boundary_eq_eq then
            (case parse_boundary_eq_eq buf 0 h of
               Goto q h' \<Rightarrow> mt_run buf pe q h'
             | Next h' \<Rightarrow> Done (False, h')
             | Error h' \<Rightarrow> Done (False, h'\<lparr>hp_state := mt_error\<rparr>)
             | Outside \<Rightarrow> Undefined)
          else mt_run buf pe 0 h)"

subsection \<open>The header callbacks\<close>

abbreviation FLAG_MULTIPART :: u32 where "FLAG_MULTIPART \<equiv> 16"
abbreviation EVENT_HEADER_FIELD :: u32 where "EVENT_HEADER_FIELD \<equiv> 16388"
abbreviation EVENT_HEADER_VALUE :: u32 where "EVENT_HEADER_VALUE \<equiv> 32772"
abbreviation EVENT_HEADERS_COMPLETE :: u32 where "EVENT_HEADERS_COMPLETE \<equiv> 262152"
abbreviation EVENT_BODY :: u32 where "EVENT_BODY \<equiv> 524292"

abbreviation STATE_START :: u8 where "STATE_START \<equiv> 0"
abbreviation STATE_MAYBE_CONTENT_TYPE :: u8 where "STATE_MAYBE_CONTENT_TYPE \<equiv> 12"
abbreviation STATE_NOT_CONTENT_TYPE :: u8 where "STATE_NOT_CONTENT_TYPE \<equiv> 252"
abbreviation PARSING_VALUE :: u8 where "PARSING_VALUE \<equiv> 253"
abbreviation BOUNDARY_OK :: u8 where "BOUNDARY_OK \<equiv> 254"
abbreviation IN_BODY :: u8 where "IN_BODY \<equiv> 255"

text \<open>\<^verbatim>\<open>CAT_HTTP_PARSER_ON_EVENT_END\<close>: pause when the caller subscribed to the event.\<close>

definition on_event_end :: "cat_http_parser_t \<Rightarrow> bool \<times> cat_http_parser_t" where
  "on_event_end h = (hp_events h AND hp_event h = hp_event h, h)"

definition multipart_enabled :: "cat_http_parser_t \<Rightarrow> bool" where
  "multipart_enabled h \<longleftrightarrow> hp_events h AND FLAG_MULTIPART \<noteq> 0"

definition cat_http_parser_on_header_field :: "byte list \<Rightarrow> cat_http_parser_t \<Rightarrow> (bool \<times> cat_http_parser_t) c_run" where
  "cat_http_parser_on_header_field at h =
     (if hp_previous_event h = EVENT_HEADER_FIELD \<and> at = [] then Done (False, h)
      else
        let h = h\<lparr>hp_event := EVENT_HEADER_FIELD\<rparr>
        in if \<not> multipart_enabled h then Done (on_event_end h)
           else if at = [] then Done (False, h)
           else
             let index_new = unat (hp_multipart_state h) + length at
             in if index_new < 13 then
                  c_bind (mem_write (hp_multipart_header h) (unat (hp_multipart_state h)) at) (\<lambda>header.
                    Done (on_event_end (h\<lparr>hp_multipart_header := header, hp_multipart_state := of_nat index_new\<rparr>)))
                else Done (on_event_end (h\<lparr>hp_multipart_state := STATE_NOT_CONTENT_TYPE\<rparr>)))"

definition cat_http_parser_on_header_value :: "byte list \<Rightarrow> nat \<Rightarrow> cat_http_parser_t \<Rightarrow> (bool \<times> cat_http_parser_t) c_run" where
  "cat_http_parser_on_header_value buf len h =
     (if hp_previous_event h = EVENT_HEADER_VALUE \<and> len = 0 then Done (False, h)
      else
        let h = h\<lparr>hp_event := EVENT_HEADER_VALUE\<rparr>;
            s = hp_multipart_state h;
            parse = (\<lambda>h. c_bind (cat_http_parser_multipart_parse_content_type (Some (buf, len)) h)
              (\<lambda>(_, h). Done (on_event_end h)))
        in if \<not> multipart_enabled h then Done (on_event_end h)
           else if s < STATE_MAYBE_CONTENT_TYPE \<or> s = STATE_NOT_CONTENT_TYPE
           then Done (on_event_end (h\<lparr>hp_multipart_state := STATE_START\<rparr>))
           else if s = BOUNDARY_OK then Done (on_event_end (h\<lparr>hp_multipart_state := STATE_NOT_CONTENT_TYPE\<rparr>))
           else if s = STATE_MAYBE_CONTENT_TYPE then
             (if \<not> cat_strcasecmp_fast_content_type (hp_multipart_header h)
              then Done (on_event_end (h\<lparr>hp_multipart_state := STATE_NOT_CONTENT_TYPE\<rparr>))
              else parse ((cat_http_parser_multipart_parse_content_type_init h)\<lparr>hp_multipart_state := PARSING_VALUE\<rparr>))
           else if s = PARSING_VALUE then parse h
           else Undefined)"

text \<open>\<^verbatim>\<open>multipart_parser_init\<close> of the vendored parser clears the array behind the boundary.\<close>

definition cat_http_parser_on_headers_complete :: "cat_http_parser_t \<Rightarrow> (bool \<times> cat_http_parser_t) c_run" where
  "cat_http_parser_on_headers_complete h =
     (let h = h\<lparr>hp_event := EVENT_HEADERS_COMPLETE\<rparr>
      in if \<not> multipart_enabled h then Done (on_event_end h)
         else
           c_bind (cat_http_parser_multipart_parse_content_type None h) (\<lambda>(ret, h).
             if \<not> ret then Done (on_event_end (h\<lparr>hp_boundary_length := 0\<rparr>))
             else if hp_boundary_length h < 2 then Done (on_event_end h)
             else Done (on_event_end (h\<lparr>hp_boundary := take (hp_boundary_length h) (hp_boundary h) @
                    replicate (length (hp_boundary h) - hp_boundary_length h) 0\<rparr>))))"

text \<open>The body callback hands the body to the multipart parser when there is a boundary.\<close>

definition cat_http_parser_on_body :: "byte list \<Rightarrow> cat_http_parser_t \<Rightarrow> bool \<times> cat_http_parser_t" where
  "cat_http_parser_on_body at h =
     (if hp_previous_event h = EVENT_BODY \<and> at = [] then (False, h)
      else
        let h = h\<lparr>hp_event := EVENT_BODY\<rparr>
        in if 2 < hp_boundary_length h then (True, h) else on_event_end h)"

definition cat_http_parser__init :: "cat_http_parser_t \<Rightarrow> cat_http_parser_t" where
  "cat_http_parser__init h = h\<lparr>hp_event := 0, hp_multipart_state := STATE_START, hp_boundary_length := 0\<rparr>"

subsection \<open>Safety\<close>

abbreviation BOUNDARY_SIZE :: nat where "BOUNDARY_SIZE \<equiv> 153"

definition boundary_char :: "byte \<Rightarrow> bool" where
  "boundary_char c \<longleftrightarrow> quoted_bchar c \<or> is_ows c"

definition boundary_ok :: "cat_http_parser_t \<Rightarrow> bool" where
  "boundary_ok h \<longleftrightarrow>
     length (hp_boundary h) = BOUNDARY_SIZE \<and> hp_boundary_length h \<le> 72 \<and>
     (hp_boundary_length h = 0 \<or> 2 \<le> hp_boundary_length h \<and> hp_boundary h ! 0 = 45 \<and> hp_boundary h ! 1 = 45 \<and>
        (\<forall>i. 2 \<le> i \<and> i < hp_boundary_length h \<longrightarrow> boundary_char (hp_boundary h ! i)))"

definition state_ok :: "cat_http_parser_t \<Rightarrow> bool" where
  "state_ok h =
     (case hp_state h of mt_start i \<Rightarrow> i < 10 \<and> hp_boundary_length h = 0 | mt_boundary_eq i \<Rightarrow> i \<le> 7
      | mt_boundary_literal_value_acceptable \<Rightarrow> 2 \<le> hp_boundary_length h
      | mt_boundary_value \<Rightarrow> 2 \<le> hp_boundary_length h
      | mt_boundary_quoted_value \<Rightarrow> 2 \<le> hp_boundary_length h
      | mt_boundary_quoted_value_unacceptable \<Rightarrow> 2 \<le> hp_boundary_length h
      | mt_boundary_quoted_pair \<Rightarrow> 2 \<le> hp_boundary_length h
      | _ \<Rightarrow> True)"

text \<open>Where the pointer may be: behind the chunk only at a label that tests for the end first, and one
  byte behind it at most at a label that does not.\<close>

definition reads_first :: "media_type_state \<Rightarrow> bool" where
  "reads_first s \<longleftrightarrow> s \<in> {mt_parameter_value, mt_quoted_pair, mt_boundary_value, mt_boundary_quoted_pair}"

definition pos_ok :: "nat \<Rightarrow> nat \<Rightarrow> media_type_state \<Rightarrow> bool" where
  "pos_ok pe p s \<longleftrightarrow>
     p \<le> pe + 1 \<and> (reads_first s \<longrightarrow> p \<le> pe) \<and>
     ((\<exists>i. s = mt_start i) \<or> s \<in> {mt_maybe_subtype, mt_parameter_ows1_acceptable} \<longrightarrow> p < pe)"

lemma boundary_ok_state [simp]: "boundary_ok (h\<lparr>hp_state := s\<rparr>) = boundary_ok h"
  by (simp add: boundary_ok_def)

lemma literal_quoted: "literal_bchar c \<Longrightarrow> quoted_bchar c"
  by (auto simp: literal_bchar_def quoted_bchar_def)

definition jump_ok :: "nat \<Rightarrow> mt_jump \<Rightarrow> bool" where
  "jump_ok pe j =
     (case j of Goto q h \<Rightarrow> boundary_ok h \<and> state_ok h \<and> pos_ok pe q (hp_state h)
      | Next h \<Rightarrow> boundary_ok h \<and> state_ok h | Error h \<Rightarrow> boundary_ok h | Outside \<Rightarrow> False)"

lemma jump_ok_simps [simp]:
  "jump_ok pe (Next h) = (boundary_ok h \<and> state_ok h)" "jump_ok pe (Error h) = boundary_ok h"
  "jump_ok pe (Goto q h) = (boundary_ok h \<and> state_ok h \<and> pos_ok pe q (hp_state h))"
  "jump_ok pe (go s q h) = (boundary_ok h \<and> state_ok (h\<lparr>hp_state := s\<rparr>) \<and> pos_ok pe q s)"
  "\<not> jump_ok pe Outside"
  by (simp_all add: jump_ok_def go_def)

lemma record_char_ok:
  assumes "boundary_ok h" "boundary_char c" "2 \<le> hp_boundary_length h" "state_ok h" "p < pe" "\<not> reads_first (hp_state h)"
    "\<And>i. hp_state h \<noteq> mt_start i" "hp_state h \<notin> {mt_maybe_subtype, mt_parameter_ows1_acceptable}"
  shows "jump_ok pe (record_char c p h)"
  using assms by (auto simp: record_char_def boundary_ok_def pos_ok_def state_ok_def nth_list_update less_Suc_eq
    split: media_type_state.splits)

lemma peek_ok: "p < length buf \<Longrightarrow> jump_ok pe (f (buf ! p)) \<Longrightarrow> jump_ok pe (peek buf p f)"
  by (simp add: peek_def)

lemma boundary_eq_eq_ok:
  assumes "boundary_ok h" "p < pe" "p < length buf"
  shows "jump_ok pe (parse_boundary_eq_eq buf p h)"
  unfolding parse_boundary_eq_eq_def
  by (rule peek_ok) (use assms in \<open>auto simp: boundary_ok_def state_ok_def pos_ok_def reads_first_def\<close>)

lemma start_ok:
  assumes "boundary_ok h" "hp_boundary_length h = 0" "i < 10" "p < pe" "pe \<le> length buf"
  shows "jump_ok pe (parse_start buf pe i p h)"
  using assms by (auto simp: parse_start_def Let_def boundary_ok_def state_ok_def pos_ok_def reads_first_def)

lemma label_ok:
  assumes "boundary_ok h" "state_ok h" "pos_ok pe p (hp_state h)" "pe < length buf"
  shows "jump_ok pe (mt_label buf pe p h)"
proof (cases "hp_state h")
  case (mt_start i)
  then show ?thesis using assms start_ok [of h i p pe buf] by (simp add: mt_label_def state_ok_def pos_ok_def)
next
  case (mt_boundary_eq i)
  have "i < 7" if "32 OR c = oundary ! i" "alpha_case c" for c
  proof -
    have "i \<noteq> 7" using that(1) by (auto simp: oundary_def or_eq_0_iff)
    then show ?thesis using assms(2) mt_boundary_eq by (simp add: state_ok_def)
  qed
  then show ?thesis using assms mt_boundary_eq boundary_eq_eq_ok [of h p pe buf]
    by (auto simp: mt_label_def parse_boundary_eq_def pos_ok_def state_ok_def reads_first_def peek_def)
next
  case mt_boundary_literal_value_acceptable
  then show ?thesis using assms record_char_ok [of h "buf ! p" p pe] literal_quoted [of "buf ! p"]
    by (auto simp: mt_label_def parse_boundary_literal_value_def pos_ok_def state_ok_def reads_first_def peek_def boundary_char_def)
next
  case mt_boundary_quoted_value
  then show ?thesis using assms record_char_ok [of h "buf ! p" p pe]
    by (auto simp: mt_label_def parse_boundary_quoted_value_def pos_ok_def state_ok_def reads_first_def peek_def boundary_char_def)
next
  case mt_boundary_quoted_value_unacceptable
  then show ?thesis using assms record_char_ok [of h "buf ! p" p pe]
    by (auto simp: mt_label_def parse_boundary_quoted_value_unacceptable_def pos_ok_def state_ok_def reads_first_def peek_def
      boundary_char_def)
qed (use assms in \<open>auto simp: mt_label_def label_defs pos_ok_def state_ok_def reads_first_def peek_def\<close>)

lemma run_ok:
  "\<lbrakk>boundary_ok h; state_ok h; pos_ok pe p (hp_state h); pe < length buf\<rbrakk> \<Longrightarrow>
   \<exists>r h'. mt_run buf pe p h = Done (r, h') \<and> boundary_ok h' \<and> state_ok h'"
proof (induction buf pe p h rule: mt_run.induct)
  case (1 buf pe p h)
  have j: "jump_ok pe (mt_label buf pe p h)" using "1.prems" by (rule label_ok)
  show ?case
  proof (cases "mt_label buf pe p h")
    case (Goto q h')
    then show ?thesis using "1.IH" [OF Goto] j "1.prems"(4) by (subst mt_run.simps) simp
  next
    case (Error h')
    then show ?thesis using j by (subst mt_run.simps) (auto simp: state_ok_def)
  qed (use j in \<open>subst mt_run.simps, simp\<close>)+
qed

subsection \<open>Parsing a well-formed value\<close>

lemma drop_Cons:
  assumes "drop p buf = c # rest"
  shows "p < length buf" "buf ! p = c" "drop (p + 1) buf = rest"
proof -
  show l: "p < length buf" using assms by (cases "p < length buf") auto
  show "buf ! p = c" "drop (p + 1) buf = rest" using assms Cons_nth_drop_Suc [OF l] by auto
qed

text \<open>A run of characters that a label passes over.\<close>

lemma run_pass:
  assumes "drop p buf = xs @ rest" and "p + length xs \<le> pe"
    and "\<And>q. q < pe \<Longrightarrow> q < length buf \<Longrightarrow> buf ! q \<in> set xs \<Longrightarrow> mt_label buf pe q h = Goto (q + 1) h"
  shows "mt_run buf pe p h = mt_run buf pe (p + length xs) h"
  using assms
proof (induction xs arbitrary: p)
  case (Cons c xs)
  note d = drop_Cons [OF Cons.prems(1) [simplified]]
  have "mt_run buf pe p h = mt_run buf pe (p + 1) h"
    using Cons.prems(2) Cons.prems(3) [of p] d by (subst mt_run.simps) simp
  also have "\<dots> = mt_run buf pe (p + 1 + length xs) h"
    by (rule Cons.IH) (use d(3) Cons.prems in auto)
  finally show ?case by simp
qed simp

text \<open>A run of characters that a label records.\<close>

definition with_boundary :: "byte list \<Rightarrow> cat_http_parser_t \<Rightarrow> cat_http_parser_t" where
  "with_boundary b h =
     h\<lparr>hp_boundary := take (hp_boundary_length h) (hp_boundary h) @ b @ drop (hp_boundary_length h + length b) (hp_boundary h),
       hp_boundary_length := hp_boundary_length h + length b\<rparr>"

lemma run_record:
  assumes "drop p buf = xs @ rest" and "p + length xs \<le> pe"
    and "hp_boundary_length h + length xs \<le> 72" and "length (hp_boundary h) = BOUNDARY_SIZE"
    and "\<And>q h'. q < pe \<Longrightarrow> q < length buf \<Longrightarrow> buf ! q \<in> set xs \<Longrightarrow> hp_state h' = hp_state h \<Longrightarrow>
      mt_label buf pe q h' = record_char (buf ! q) q h'"
  shows "mt_run buf pe p h = mt_run buf pe (p + length xs) (with_boundary xs h)"
  using assms
proof (induction xs arbitrary: p h)
  case Nil
  then show ?case by (simp add: with_boundary_def)
next
  case (Cons c xs)
  note d = drop_Cons [OF Cons.prems(1) [simplified]]
  let ?h = "with_boundary [c] h"
  have "mt_label buf pe p h = Goto (p + 1) ?h"
    using Cons.prems(2-4) Cons.prems(5) [of p h] d
    by (simp add: record_char_def with_boundary_def upd_conv_take_nth_drop)
  then have "mt_run buf pe p h = mt_run buf pe (p + 1) ?h" by (subst mt_run.simps) simp
  also have "\<dots> = mt_run buf pe (p + 1 + length xs) (with_boundary xs ?h)"
    by (rule Cons.IH) (use d(3) Cons.prems in \<open>auto simp: with_boundary_def\<close>)
  also have "with_boundary xs ?h = with_boundary (c # xs) h"
    using Cons.prems(3,4) by (simp add: with_boundary_def add.commute)
  finally show ?case by simp
qed

definition boundary_str :: "byte list" where
  "boundary_str = [98, 111, 117, 110, 100, 97, 114, 121]"

lemma alpha_lower: "97 \<le> to_lower c \<Longrightarrow> to_lower c \<le> 122 \<Longrightarrow> alpha_case c"
  by (auto simp: to_lower_def alpha_case_def split: if_splits)

lemma alpha_only: "alpha_case c \<Longrightarrow> \<not> digit_case c \<and> \<not> tchar_case c \<and> token_case c"
  by (auto simp: alpha_case_def digit_case_def tchar_case_def token_case_def word_le_nat_alt)

lemma oundary_char:
  assumes "i < 7" "to_lower c = boundary_str ! Suc i"
  shows "alpha_case c" "32 OR c = oundary ! i"
proof -
  have "i \<in> {0, 1, 2, 3, 4, 5, 6}" using assms(1) by auto
  then show "alpha_case c" "32 OR c = oundary ! i"
    using assms(2) by (auto simp: boundary_str_def oundary_def or_32_chars or.commute [of 32] intro!: alpha_lower)
qed

lemma run_oundary:
  assumes "drop p buf = ns @ rest" and "p + length ns \<le> pe" and "map to_lower ns = drop (Suc i) boundary_str"
    and "hp_state h = mt_boundary_eq i" and "i \<le> 7"
  shows "mt_run buf pe p h = mt_run buf pe (p + length ns) (h\<lparr>hp_state := mt_boundary_eq_eq\<rparr>)"
  using assms
proof (induction ns arbitrary: p i h)
  case Nil
  then have "i = 7" by (simp add: boundary_str_def)
  then show ?case using Nil(4) by (metis add.right_neutral cat_http_parser_t.surjective cat_http_parser_t.update_convs(6) list.size(3))
next
  case (Cons c ns)
  note d = drop_Cons [OF Cons.prems(1) [simplified]]
  have i: "i < 7" using Cons.prems(3,5) by (cases "i = 7") (auto simp: boundary_str_def)
  have "drop (Suc i) boundary_str = boundary_str ! Suc i # drop (Suc (Suc i)) boundary_str"
    using i by (intro Cons_nth_drop_Suc [symmetric]) (simp add: boundary_str_def)
  then have c: "to_lower c = boundary_str ! Suc i" "map to_lower ns = drop (Suc (Suc i)) boundary_str" using Cons.prems(3) by auto
  note oc = oundary_char [OF i c(1)]
  have "mt_label buf pe p h = go (mt_boundary_eq (i + 1)) (p + 1) h"
    using Cons.prems(2,4) d oc alpha_only [OF oc(1)] by (simp add: mt_label_def parse_boundary_eq_def peek_def)
  then have "mt_run buf pe p h = mt_run buf pe (p + 1) (h\<lparr>hp_state := mt_boundary_eq (i + 1)\<rparr>)"
    by (subst mt_run.simps) (simp add: go_def)
  also have "\<dots> = mt_run buf pe (p + 1 + length ns) (h\<lparr>hp_state := mt_boundary_eq (i + 1)\<rparr>\<lparr>hp_state := mt_boundary_eq_eq\<rparr>)"
    by (rule Cons.IH [where i = "Suc i"]) (use d(3) c(2) i Cons.prems in auto)
  finally show ?case by simp
qed

text \<open>Up to the value of the parameter: type, subtype, a semicolon, blanks and the name.\<close>

text \<open>The type, its subtype and the white space before the first parameter.\<close>

lemma run_to_ows2:
  assumes d: "drop 10 buf = t @ [59] @ ws @ rest" and pe: "11 + length t + length ws \<le> pe"
    and m: "cat_strcasecmp_fast_multipart_slash (drop 1 (hp_boundary h))" "hp_state h = mt_maybe_subtype"
    and t: "t \<noteq> []" "\<forall>c \<in> set t. token_case c" and ws: "\<forall>c \<in> set ws. is_ows c"
  shows "mt_run buf pe 10 h = mt_run buf pe (11 + length t + length ws) (h\<lparr>hp_state := mt_parameter_ows2\<rparr>)"
proof -
  obtain t0 ts where ts: "t = t0 # ts" using t(1) by (cases t) auto
  have "drop 10 buf = t0 # ts @ [59] @ ws @ rest" using d ts by simp
  note d1 = drop_Cons [OF this]
  have "mt_label buf pe 10 h = go mt_subtype 11 h"
    using d1 t(2) ts m by (simp add: mt_label_def parse_maybe_subtype_def peek_def)
  then have r2: "mt_run buf pe 10 h = mt_run buf pe 11 (h\<lparr>hp_state := mt_subtype\<rparr>)" by (subst mt_run.simps) (simp add: go_def)
  have r3: "mt_run buf pe 11 (h\<lparr>hp_state := mt_subtype\<rparr>) = mt_run buf pe (11 + length ts) (h\<lparr>hp_state := mt_subtype\<rparr>)"
  proof (rule run_pass)
    show "drop 11 buf = ts @ ([59] @ ws @ rest)" using d1(3) by simp
    show "11 + length ts \<le> pe" using pe ts by simp
    fix q assume q: "q < pe" "q < length buf" "buf ! q \<in> set ts"
    then have "token_case (buf ! q)" using t(2) ts by simp
    then show "mt_label buf pe q (h\<lparr>hp_state := mt_subtype\<rparr>) = Goto (q + 1) (h\<lparr>hp_state := mt_subtype\<rparr>)"
      using q by (auto simp: mt_label_def parse_subtype_def peek_def)
  qed
  let ?p = "11 + length ts"
  have "drop (length ts) (drop 11 buf) = 59 # ws @ rest" using d1(3) by simp
  then have "drop ?p buf = 59 # ws @ rest" by (simp add: add.commute)
  note d2 = drop_Cons [OF this]
  have r4: "mt_run buf pe ?p (h\<lparr>hp_state := mt_subtype\<rparr>) = mt_run buf pe (?p + 1) (h\<lparr>hp_state := mt_parameter_ows2\<rparr>)"
    using d2 pe ts by (subst mt_run.simps) (simp add: mt_label_def parse_subtype_def peek_def go_def)
  have r5: "mt_run buf pe (?p + 1) (h\<lparr>hp_state := mt_parameter_ows2\<rparr>)
      = mt_run buf pe (?p + 1 + length ws) (h\<lparr>hp_state := mt_parameter_ows2\<rparr>)"
  proof (rule run_pass)
    show "drop (?p + 1) buf = ws @ rest" using d2(3) by simp
    show "?p + 1 + length ws \<le> pe" using pe ts by simp
    fix q assume q: "q < pe" "q < length buf" "buf ! q \<in> set ws"
    then have "is_ows (buf ! q)" using ws by simp
    then show "mt_label buf pe q (h\<lparr>hp_state := mt_parameter_ows2\<rparr>) = Goto (q + 1) (h\<lparr>hp_state := mt_parameter_ows2\<rparr>)"
      using q by (auto simp: mt_label_def parse_ows2_def peek_def)
  qed
  show ?thesis using r2 r3 r4 r5 ts by simp
qed

text \<open>The name of the parameter and the equals sign; the boundary starts with two dashes.\<close>

lemma lower_b: "to_lower n = 98 \<Longrightarrow> n = 98 \<or> n = 66"
proof -
  assume "to_lower n = 98"
  then have "unat n = 98 \<or> unat n + 32 = 98"
    by (auto simp: to_lower_def word_le_nat_alt unat_word_ariths split: if_splits)
  then show ?thesis by (auto simp: word_unat_eq_iff)
qed

lemma run_boundary_name:
  assumes d: "drop q buf = nm @ [61] @ rest" and pe: "q + 9 \<le> pe" "pe \<le> length buf" and nm: "map to_lower nm = boundary_str"
    and h: "hp_state h = mt_parameter_ows2" "length (hp_boundary h) = BOUNDARY_SIZE" "hp_boundary_length h = 0"
  shows "mt_run buf pe q h = mt_run buf pe (q + 9)
    (h\<lparr>hp_boundary_length := 2, hp_boundary := (hp_boundary h)[0 := 45, 1 := 45], hp_state := mt_boundary_value\<rparr>)"
proof -
  have len: "length nm = 8" using arg_cong [OF nm, of length] by (simp add: boundary_str_def)
  obtain n0 ns where ns: "nm = n0 # ns" using len by (cases nm) auto
  have n0: "to_lower n0 = 98" "map to_lower ns = drop (Suc 0) boundary_str" using nm ns by (auto simp: boundary_str_def)
  have "drop q buf = n0 # ns @ [61] @ rest" using d ns by simp
  note d3 = drop_Cons [OF this]
  have b0: "n0 = 98 \<or> n0 = 66" using lower_b [OF n0(1)] .
  then have "token_case n0" by (auto simp: token_case_def alpha_case_def)
  then have r6: "mt_run buf pe q h = mt_run buf pe (q + 1) (h\<lparr>hp_state := mt_boundary_eq 0\<rparr>)"
    using d3 pe b0 h(1) by (subst mt_run.simps) (auto simp: mt_label_def parse_ows2_def peek_def go_def)
  have r7: "mt_run buf pe (q + 1) (h\<lparr>hp_state := mt_boundary_eq 0\<rparr>) =
      mt_run buf pe (q + 1 + length ns) (h\<lparr>hp_state := mt_boundary_eq_eq\<rparr>)"
    using run_oundary [of "q + 1" buf ns "[61] @ rest" pe 0 "h\<lparr>hp_state := mt_boundary_eq 0\<rparr>"] d3(3) pe ns len n0(2) by simp
  let ?r = "q + 1 + length ns"
  have "drop (length ns) (drop (q + 1) buf) = 61 # rest" by (simp only: d3(3)) simp
  then have "drop ?r buf = 61 # rest" by (simp only: drop_drop add.commute [of "length ns"])
  note d4 = drop_Cons [OF this]
  have r8: "mt_run buf pe ?r (h\<lparr>hp_state := mt_boundary_eq_eq\<rparr>) = mt_run buf pe (?r + 1)
      (h\<lparr>hp_boundary_length := 2, hp_boundary := (hp_boundary h)[0 := 45, 1 := 45], hp_state := mt_boundary_value\<rparr>)"
    using d4 pe ns len h
    by (subst mt_run.simps) (simp add: mt_label_def parse_boundary_eq_def parse_boundary_eq_eq_def peek_def go_def)
  have r: "?r + 1 = q + 9" using len ns by simp
  show ?thesis unfolding r6 r7 r8 r ..
qed

lemma run_to_value:
  assumes buf: "buf = m @ t @ [59] @ ws @ nm @ [61] @ rest" and pe: "length buf - length rest < pe" "pe \<le> length buf"
    and m: "length m = 10" "eq_ci (take 8 m) (take 8 multipart_slash_str)"
    and t: "t \<noteq> []" "\<forall>c \<in> set t. token_case c" and ws: "\<forall>c \<in> set ws. is_ows c" and nm: "map to_lower nm = boundary_str"
    and h: "hp_state h = mt_start 0" "hp_boundary_length h = 0" "length (hp_boundary h) = BOUNDARY_SIZE"
  shows "\<exists>bnd. length bnd = BOUNDARY_SIZE \<and> take 2 bnd = [45, 45] \<and>
    mt_run buf pe 0 h = mt_run buf pe (length buf - length rest)
      (h\<lparr>hp_boundary_length := 2, hp_boundary := bnd, hp_state := mt_boundary_value\<rparr>)"
proof -
  define h1 where "h1 = h\<lparr>hp_boundary := take 1 (hp_boundary h) @ m @ drop 11 (hp_boundary h), hp_state := mt_maybe_subtype\<rparr>"
  have lens: "length buf = 12 + length t + length ws + length nm + length rest" "length nm = 8"
    using buf m(1) arg_cong [OF nm, of length] by (auto simp: boundary_str_def)
  have h1: "length (hp_boundary h1) = BOUNDARY_SIZE" "hp_boundary_length h1 = 0" using h(2,3) m(1) by (simp_all add: h1_def)
  have "mt_label buf pe 0 h = Goto 10 h1"
    using h m(1) pe lens buf by (simp add: mt_label_def parse_start_def Let_def h1_def)
  then have r1: "mt_run buf pe 0 h = mt_run buf pe 10 h1" by (subst mt_run.simps) simp
  have "eq_ci (take 8 (drop 1 (hp_boundary h1))) (take 8 multipart_slash_str)" using m h(3) by (simp add: h1_def)
  then have slash: "cat_strcasecmp_fast_multipart_slash (drop 1 (hp_boundary h1))"
    using h(3) m(1) by (subst fast_multipart_ci) (auto simp: h1_def)
  let ?q = "11 + length t + length ws"
  have r2: "mt_run buf pe 10 h1 = mt_run buf pe ?q (h1\<lparr>hp_state := mt_parameter_ows2\<rparr>)"
    using slash t ws pe lens buf m(1) by (intro run_to_ows2) (simp_all add: h1_def)
  let ?h2 = "h1\<lparr>hp_state := mt_parameter_ows2\<rparr>" and ?bnd = "(hp_boundary h1)[0 := 45, 1 := 45]"
  have r3: "mt_run buf pe ?q ?h2 = mt_run buf pe (?q + 9)
      (?h2\<lparr>hp_boundary_length := 2, hp_boundary := ?bnd, hp_state := mt_boundary_value\<rparr>)"
    using run_boundary_name [of ?q buf nm rest pe ?h2] nm pe lens buf m(1) h1 by simp
  have "take 2 ?bnd = [45, 45]"
    using h1 by (cases "hp_boundary h1"; cases "tl (hp_boundary h1)") (auto simp: numeral_2_eq_2)
  moreover have "?q + 9 = length buf - length rest" using lens by simp
  ultimately show ?thesis using r1 r2 r3 h1 by (intro exI [of _ ?bnd]) (simp add: h1_def)
qed

lemma run_literal:
  assumes d: "drop p buf = b @ rest" "b \<noteq> []" "\<forall>c \<in> set b. literal_bchar c" and pe: "pe = p + length b"
    and h: "hp_state h = mt_boundary_value" "hp_boundary_length h + length b \<le> 72" "length (hp_boundary h) = BOUNDARY_SIZE"
  shows "mt_run buf pe p h = Done (True, (with_boundary b h)\<lparr>hp_state := mt_boundary_literal_value_acceptable\<rparr>)"
proof -
  let ?h = "h\<lparr>hp_state := mt_boundary_literal_value_acceptable\<rparr>"
  obtain b0 bs where b: "b = b0 # bs" using d(2) by (cases b) auto
  note d0 = drop_Cons [of p buf b0 "bs @ rest"]
  have "literal_bchar b0" "b0 \<noteq> 34" using b d(3) by auto
  then have "mt_label buf pe p h = go mt_boundary_literal_value_acceptable p h"
    using d0 d(1) b h(1) by (simp add: mt_label_def parse_boundary_value_def peek_def)
  then have "mt_run buf pe p h = mt_run buf pe p ?h" by (subst mt_run.simps) (simp add: go_def)
  also have "\<dots> = mt_run buf pe (p + length b) (with_boundary b ?h)"
  proof (rule run_record [OF d(1)])
    fix q and h' :: cat_http_parser_t assume "q < pe" "q < length buf" "buf ! q \<in> set b" "hp_state h' = hp_state ?h"
    then show "mt_label buf pe q h' = record_char (buf ! q) q h'"
      using d(3) by (simp add: mt_label_def parse_boundary_literal_value_def peek_def)
  qed (use pe h in auto)
  also have "\<dots> = Done (True, with_boundary b ?h)"
    by (subst mt_run.simps) (simp add: mt_label_def parse_boundary_literal_value_def with_boundary_def pe)
  finally show ?thesis by (simp add: with_boundary_def)
qed

lemma run_quoted:
  assumes d: "drop p buf = 34 # b @ 34 # rest" "\<forall>c \<in> set b. quoted_bchar c" and pe: "pe = p + length b + 2"
    and h: "hp_state h = mt_boundary_value" "hp_boundary_length h + length b \<le> 72" "length (hp_boundary h) = BOUNDARY_SIZE"
  shows "mt_run buf pe p h = Done (True, (with_boundary b h)\<lparr>hp_state := mt_parameter_ows1_acceptable\<rparr>)"
proof -
  let ?h = "h\<lparr>hp_state := mt_boundary_quoted_value\<rparr>"
  note d0 = drop_Cons [OF d(1)]
  have "mt_label buf pe p h = go mt_boundary_quoted_value (p + 1) h"
    using d0 h(1) by (simp add: mt_label_def parse_boundary_value_def peek_def)
  then have "mt_run buf pe p h = mt_run buf pe (p + 1) ?h" by (subst mt_run.simps) (simp add: go_def)
  also have "\<dots> = mt_run buf pe (p + 1 + length b) (with_boundary b ?h)"
  proof (rule run_record [OF d0(3)])
    fix q and h' :: cat_http_parser_t assume a: "q < pe" "q < length buf" "buf ! q \<in> set b" "hp_state h' = hp_state ?h"
    then have "quoted_bchar (buf ! q)" using d(2) by simp
    then show "mt_label buf pe q h' = record_char (buf ! q) q h'"
      using a by (auto simp: mt_label_def parse_boundary_quoted_value_def peek_def)
  qed (use pe h in auto)
  also have "\<dots> = mt_run buf pe (p + 1 + length b) ((with_boundary b ?h)\<lparr>hp_state := mt_parameter_ows1_acceptable\<rparr>)"
  proof -
    have "drop (length b) (drop (p + 1) buf) = 34 # rest" by (simp only: d0(3)) simp
    then have "drop (p + 1 + length b) buf = 34 # rest" by (simp only: drop_drop add.commute [of "length b"])
    note d1 = drop_Cons [OF this]
    show ?thesis using d1 pe
      by (subst mt_run.simps) (simp add: mt_label_def parse_boundary_quoted_value_def peek_def go_def with_boundary_def)
  qed
  also have "\<dots> = Done (True, (with_boundary b ?h)\<lparr>hp_state := mt_parameter_ows1_acceptable\<rparr>)"
    by (subst mt_run.simps) (simp add: mt_label_def parse_ows1_acceptable_def pe)
  finally show ?thesis by (simp add: with_boundary_def)
qed

text \<open>A media type value with a boundary parameter: the type and the name in any case, a token as
  subtype, blanks after the semicolon, and the boundary with or without quotes.\<close>

definition media_type :: "byte list \<Rightarrow> byte list \<Rightarrow> byte list \<Rightarrow> byte list \<Rightarrow> bool \<Rightarrow> byte list \<Rightarrow> byte list" where
  "media_type m t ws nm quoted b = m @ t @ [59] @ ws @ nm @ [61] @ (if quoted then 34 # b @ [34] else b)"

definition media_type_ok :: "byte list \<Rightarrow> byte list \<Rightarrow> byte list \<Rightarrow> byte list \<Rightarrow> bool \<Rightarrow> byte list \<Rightarrow> bool" where
  "media_type_ok m t ws nm quoted b \<longleftrightarrow>
     eq_ci m multipart_slash_str \<and> t \<noteq> [] \<and> list_all token_case t \<and> list_all is_ows ws \<and> eq_ci nm boundary_str \<and>
     b \<noteq> [] \<and> length b \<le> 70 \<and> list_all (if quoted then quoted_bchar else literal_bchar) b"

lemma content_type_accepted:
  assumes ok: "media_type_ok m t ws nm quoted b"
    and h: "hp_state h = mt_start 0" "hp_boundary_length h = 0" "length (hp_boundary h) = BOUNDARY_SIZE"
  defines "v \<equiv> media_type m t ws nm quoted b"
  shows "\<exists>s bnd. mt_run (v @ tail) (length v) 0 h =
      Done (True, h\<lparr>hp_boundary_length := 2 + length b, hp_boundary := bnd, hp_state := s\<rparr>) \<and>
    take (2 + length b) bnd = 45 # 45 # b \<and> length bnd = BOUNDARY_SIZE \<and>
    s \<in> {mt_parameter_ows1_acceptable, mt_boundary_literal_value_acceptable}"
proof -
  let ?x = "if quoted then 34 # b @ [34] else b"
  define p0 where "p0 = length (v @ tail) - length (?x @ tail)"
  have m: "length m = 10" "eq_ci (take 8 m) (take 8 multipart_slash_str)"
    using ok by (auto simp: media_type_ok_def eq_ci_def take_map multipart_slash_str_def dest: arg_cong [of _ _ length])
  have nm: "map to_lower nm = boundary_str"
    using ok by (simp add: media_type_ok_def eq_ci_def boundary_str_def to_lower_def)
  have v: "v @ tail = m @ t @ [59] @ ws @ nm @ [61] @ (?x @ tail)" by (simp add: v_def media_type_def)
  have lx: "0 < length ?x" "length v = p0 + length ?x" using ok by (auto simp: media_type_ok_def v_def media_type_def p0_def)
  have p: "p0 < length v" using lx by linarith
  have "\<exists>bnd. length bnd = BOUNDARY_SIZE \<and> take 2 bnd = [45, 45] \<and> mt_run (v @ tail) (length v) 0 h =
      mt_run (v @ tail) (length v) p0 (h\<lparr>hp_boundary_length := 2, hp_boundary := bnd, hp_state := mt_boundary_value\<rparr>)"
    unfolding p0_def by (rule run_to_value [OF v p [unfolded p0_def] _ m _ _ _ nm h]) (use ok in \<open>auto simp: media_type_ok_def list_all_iff\<close>)
  then obtain bnd where bnd: "length bnd = BOUNDARY_SIZE" "take 2 bnd = [45, 45]" "mt_run (v @ tail) (length v) 0 h =
      mt_run (v @ tail) (length v) p0 (h\<lparr>hp_boundary_length := 2, hp_boundary := bnd, hp_state := mt_boundary_value\<rparr>)" by blast
  let ?h = "h\<lparr>hp_boundary_length := 2, hp_boundary := bnd, hp_state := mt_boundary_value\<rparr>"
  have d: "drop p0 (v @ tail) = ?x @ tail" unfolding p0_def v by simp
  have "mt_run (v @ tail) (length v) p0 ?h = Done (True, (with_boundary b ?h)\<lparr>hp_state :=
      (if quoted then mt_parameter_ows1_acceptable else mt_boundary_literal_value_acceptable)\<rparr>)"
  proof (cases quoted)
    case True
    have "drop p0 (v @ tail) = 34 # b @ 34 # tail" using d True by simp
    moreover have "length v = p0 + length b + 2" using lx(2) True by simp
    ultimately show ?thesis using True ok bnd(1)
      by (subst run_quoted [of p0 "v @ tail" b tail "length v" ?h]) (auto simp: media_type_ok_def list_all_iff)
  next
    case False
    have "drop p0 (v @ tail) = b @ tail" using d False by simp
    moreover have "length v = p0 + length b" using lx(2) False by simp
    ultimately show ?thesis using False ok bnd(1)
      by (subst run_literal [of p0 "v @ tail" b tail "length v" ?h]) (auto simp: media_type_ok_def list_all_iff)
  qed
  then show ?thesis unfolding bnd(3)
    by (intro exI [of _ "if quoted then mt_parameter_ows1_acceptable else mt_boundary_literal_value_acceptable"]
        exI [of _ "take 2 bnd @ b @ drop (2 + length b) bnd"])
      (use bnd ok in \<open>auto simp: with_boundary_def media_type_ok_def\<close>)
qed

subsection \<open>Correctness of the multipart detection\<close>

text \<open>C35: on every chunk, whatever its bytes, the media type parser ends and stays in bounds: it reads at
  most one byte behind the chunk, never writes outside the boundary array, and what it has recorded is
  two dashes and at most 70 characters that a boundary may contain.\<close>

theorem content_type_safe:
  assumes "boundary_ok h" and "state_ok h" and "0 < pe" and "pe < length buf"
  shows "\<exists>r h'. cat_http_parser_multipart_parse_content_type (Some (buf, pe)) h = Done (r, h') \<and>
    boundary_ok h' \<and> state_ok h'"
proof (cases "hp_state h = mt_boundary_eq_eq")
  case True
  have "jump_ok pe (parse_boundary_eq_eq buf 0 h)" using assms by (intro boundary_eq_eq_ok) auto
  then show ?thesis using True run_ok [of _ pe _ buf] assms(4)
    by (cases "parse_boundary_eq_eq buf 0 h")
      (auto simp: cat_http_parser_multipart_parse_content_type_def state_ok_def split: if_splits)
next
  case False
  have "pos_ok pe 0 (hp_state h)" using assms(3) by (simp add: pos_ok_def)
  then show ?thesis using False assms(1,2,4) run_ok [of h pe 0 buf]
    by (simp add: cat_http_parser_multipart_parse_content_type_def)
qed

definition fresh_parser :: cat_http_parser_t where
  "fresh_parser = \<lparr>hp_events = FLAG_MULTIPART, hp_event = 0, hp_previous_event = 0, hp_multipart_state = STATE_START,
     hp_multipart_header = replicate 12 0, hp_state = mt_start 0, hp_boundary_length = 0,
     hp_boundary = replicate BOUNDARY_SIZE 0\<rparr>"

lemma fresh_parser_ok: "boundary_ok fresh_parser" "state_ok fresh_parser"
  by (simp_all add: fresh_parser_def boundary_ok_def state_ok_def)

theorem content_type_safe_witness:
  "\<exists>r h'. cat_http_parser_multipart_parse_content_type (Some ([109, 117, 108, 10], 3)) fresh_parser = Done (r, h') \<and>
     boundary_ok h'"
  using content_type_safe [OF fresh_parser_ok, of 3 "[109, 117, 108, 10]"] by auto

text \<open>A chunk that holds a whole media type with a boundary parameter, the boundary with or without
  quotes, is accepted, and the recorded boundary is two dashes and exactly the characters of the
  parameter.\<close>

theorem content_type_boundary:
  assumes "media_type_ok m t ws nm quoted b" and "length (hp_boundary h) = BOUNDARY_SIZE"
  shows "\<exists>h'. cat_http_parser_multipart_parse_content_type
      (Some (media_type m t ws nm quoted b @ tail, length (media_type m t ws nm quoted b)))
      (cat_http_parser_multipart_parse_content_type_init h) = Done (True, h') \<and>
    cat_http_parser_multipart_parse_content_type None h' = Done (True, h') \<and>
    hp_boundary_length h' = 2 + length b \<and> take (hp_boundary_length h') (hp_boundary h') = 45 # 45 # b"
proof -
  let ?h = "cat_http_parser_multipart_parse_content_type_init h"
  have "hp_state ?h = mt_start 0" "hp_boundary_length ?h = 0" "length (hp_boundary ?h) = BOUNDARY_SIZE"
    using assms(2) by (simp_all add: cat_http_parser_multipart_parse_content_type_init_def)
  from content_type_accepted [OF assms(1) this, of tail] this(1) show ?thesis
    by (auto simp: cat_http_parser_multipart_parse_content_type_def)
qed

definition example_type :: "byte list" where
  "example_type = media_type multipart_slash_str [97] [32] boundary_str True [88, 58]"

lemma example_type_ok: "media_type_ok multipart_slash_str [97] [32] boundary_str True [88, 58]"
  by (simp add: media_type_ok_def eq_ci_def token_case_def alpha_case_def quoted_bchar_def)

theorem content_type_boundary_witness:
  "\<exists>h'. cat_http_parser_multipart_parse_content_type (Some (example_type, length example_type))
      (cat_http_parser_multipart_parse_content_type_init fresh_parser) = Done (True, h') \<and>
    hp_boundary_length h' = 4 \<and> take 4 (hp_boundary h') = [45, 45, 88, 58]"
  using content_type_boundary [OF example_type_ok, of fresh_parser "[]"]
  by (auto simp: example_type_def fresh_parser_def)

text \<open>One header as llhttp reports it: the whole name, then the whole value (\<open>tail\<close> is what follows in
  memory).\<close>

definition on_header :: "byte list \<Rightarrow> byte list \<Rightarrow> byte list \<Rightarrow> cat_http_parser_t \<Rightarrow> cat_http_parser_t c_run" where
  "on_header field val tail h =
     c_bind (cat_http_parser_on_header_field field h) (\<lambda>(_, h).
     c_bind (cat_http_parser_on_header_value (val @ tail) (length val) h) (\<lambda>(_, h). Done h))"

lemma multipart_enabled_upd [simp]:
  "multipart_enabled (h\<lparr>hp_event := e\<rparr>) = multipart_enabled h"
  by (simp add: multipart_enabled_def)

lemma header_field_stored:
  assumes "multipart_enabled h" "hp_multipart_state h = STATE_START" "length (hp_multipart_header h) = 12" "length field = 12"
  shows "\<exists>b. cat_http_parser_on_header_field field h =
    Done (b, h\<lparr>hp_event := EVENT_HEADER_FIELD, hp_multipart_header := field, hp_multipart_state := STATE_MAYBE_CONTENT_TYPE\<rparr>)"
proof -
  have "field \<noteq> []" using assms(4) by auto
  then show ?thesis using assms by (simp add: cat_http_parser_on_header_field_def on_event_end_def)
qed

lemma content_type_header:
  assumes ok: "media_type_ok m t ws nm quoted b" and f: "eq_ci field content_type_str"
    and h: "multipart_enabled h" "hp_multipart_state h = STATE_START" "length (hp_multipart_header h) = 12"
      "length (hp_boundary h) = BOUNDARY_SIZE"
  shows "\<exists>h'. on_header field (media_type m t ws nm quoted b) tail h = Done h' \<and>
    hp_boundary_length h' = 2 + length b \<and> take (2 + length b) (hp_boundary h') = 45 # 45 # b \<and>
    length (hp_boundary h') = BOUNDARY_SIZE \<and> hp_previous_event h' = hp_previous_event h \<and> multipart_enabled h' \<and>
    hp_state h' \<in> {mt_parameter_ows1_acceptable, mt_boundary_literal_value_acceptable}"
proof -
  let ?v = "media_type m t ws nm quoted b"
  have f12: "length field = 12" using f by (auto simp: eq_ci_def content_type_str_def dest: arg_cong [of _ _ length])
  have v: "?v \<noteq> []" by (simp add: media_type_def)
  let ?h1 = "h\<lparr>hp_event := EVENT_HEADER_FIELD, hp_multipart_header := field, hp_multipart_state := STATE_MAYBE_CONTENT_TYPE\<rparr>"
  obtain e where e: "cat_http_parser_on_header_field field h = Done (e, ?h1)"
    using header_field_stored [OF h(1-3) f12] by blast
  let ?h2 = "(cat_http_parser_multipart_parse_content_type_init (?h1\<lparr>hp_event := EVENT_HEADER_VALUE\<rparr>))
    \<lparr>hp_multipart_state := PARSING_VALUE\<rparr>"
  have h2: "hp_state ?h2 = mt_start 0" "hp_boundary_length ?h2 = 0" "length (hp_boundary ?h2) = BOUNDARY_SIZE"
    using h(4) by (simp_all add: cat_http_parser_multipart_parse_content_type_init_def)
  obtain s bnd where r: "mt_run (?v @ tail) (length ?v) 0 ?h2 =
      Done (True, ?h2\<lparr>hp_boundary_length := 2 + length b, hp_boundary := bnd, hp_state := s\<rparr>)"
    "take (2 + length b) bnd = 45 # 45 # b" "length bnd = BOUNDARY_SIZE"
    "s \<in> {mt_parameter_ows1_acceptable, mt_boundary_literal_value_acceptable}"
    using content_type_accepted [OF ok h2, of tail] by blast
  have p: "cat_http_parser_multipart_parse_content_type (Some (?v @ tail, length ?v)) ?h2 =
      Done (True, ?h2\<lparr>hp_boundary_length := 2 + length b, hp_boundary := bnd, hp_state := s\<rparr>)"
    using r(1) h2(1) by (simp add: cat_http_parser_multipart_parse_content_type_def)
  have "cat_strcasecmp_fast_content_type field" using f f12 by (subst fast_content_type_ci) auto
  then have "cat_http_parser_on_header_value (?v @ tail) (length ?v) ?h1 =
      Done (on_event_end (?h2\<lparr>hp_boundary_length := 2 + length b, hp_boundary := bnd, hp_state := s\<rparr>))"
    using h(1) v p by (simp add: cat_http_parser_on_header_value_def Let_def multipart_enabled_def)
  then show ?thesis using e r h(1)
    by (simp add: on_header_def on_event_end_def cat_http_parser_multipart_parse_content_type_init_def multipart_enabled_def)
qed

text \<open>A request whose first header is a content type (in any case) of a multipart media type makes the
  parser remember the boundary when the headers are complete, cleared behind it for the multipart
  parser, and the body callback pause so that the body goes to the multipart parser.\<close>

theorem multipart_detected:
  assumes "media_type_ok m t ws nm quoted b" and "eq_ci field content_type_str"
    and "multipart_enabled h" and "hp_multipart_state h = STATE_START" and "length (hp_multipart_header h) = 12"
    and "length (hp_boundary h) = BOUNDARY_SIZE" and "body \<noteq> []"
  shows "\<exists>h1 e h2. on_header field (media_type m t ws nm quoted b) tail h = Done h1 \<and>
    cat_http_parser_on_headers_complete h1 = Done (e, h2) \<and>
    hp_boundary h2 = (45 # 45 # b) @ replicate (BOUNDARY_SIZE - 2 - length b) 0 \<and>
    fst (cat_http_parser_on_body body h2)"
proof -
  obtain h1 where h1: "on_header field (media_type m t ws nm quoted b) tail h = Done h1"
    "hp_boundary_length h1 = 2 + length b" "take (2 + length b) (hp_boundary h1) = 45 # 45 # b"
    "length (hp_boundary h1) = BOUNDARY_SIZE" "multipart_enabled h1"
    "hp_state h1 \<in> {mt_parameter_ows1_acceptable, mt_boundary_literal_value_acceptable}"
    using content_type_header [OF assms(1-6)] by blast
  have "b \<noteq> []" using assms(1) by (simp add: media_type_ok_def)
  then show ?thesis using h1 assms(7)
    by (auto simp: cat_http_parser_on_headers_complete_def cat_http_parser_multipart_parse_content_type_def
      on_event_end_def cat_http_parser_on_body_def Let_def)
qed

theorem multipart_detected_witness:
  "\<exists>h1 e h2. on_header content_type_str example_type [] fresh_parser = Done h1 \<and>
     cat_http_parser_on_headers_complete h1 = Done (e, h2) \<and> fst (cat_http_parser_on_body [1] h2)"
proof -
  have "eq_ci content_type_str content_type_str" by (simp add: eq_ci_def)
  from multipart_detected [OF example_type_ok this, of fresh_parser "[1]" "[]"] show ?thesis
    by (auto simp: example_type_def fresh_parser_def multipart_enabled_def)
qed

text \<open>A header whose name has twelve characters but is not the content type (for example
  \<^verbatim>\<open>X-Request-Id\<close>) makes the parser ignore the header after it: a content type that follows is never
  looked at, so a multipart body is not recognised.\<close>

theorem twelve_letter_header_hides_next:
  assumes "multipart_enabled h" and "hp_multipart_state h = STATE_START" and "length (hp_multipart_header h) = 12"
    and "length field = 12" and "\<not> eq_ci field content_type_str" and "val \<noteq> []" and "v \<noteq> []"
  shows "\<exists>h1 h2. on_header field val tail h = Done h1 \<and> on_header content_type_str v tail' h1 = Done h2 \<and>
    hp_boundary_length h2 = hp_boundary_length h \<and> hp_boundary h2 = hp_boundary h \<and> hp_state h2 = hp_state h"
proof -
  let ?h1 = "h\<lparr>hp_event := EVENT_HEADER_FIELD, hp_multipart_header := field, hp_multipart_state := STATE_MAYBE_CONTENT_TYPE\<rparr>"
  obtain e where e: "cat_http_parser_on_header_field field h = Done (e, ?h1)"
    using header_field_stored [OF assms(1-4)] by blast
  have "\<not> cat_strcasecmp_fast_content_type field" using assms(4,5) by (subst fast_content_type_ci) auto
  then have "on_header field val tail h = Done (?h1\<lparr>hp_event := EVENT_HEADER_VALUE, hp_multipart_state := STATE_NOT_CONTENT_TYPE\<rparr>)"
    using e assms(1,6) by (simp add: on_header_def cat_http_parser_on_header_value_def Let_def multipart_enabled_def on_event_end_def)
  then show ?thesis using assms(1,7)
    by (simp add: on_header_def cat_http_parser_on_header_value_def cat_http_parser_on_header_field_def Let_def
      multipart_enabled_def on_event_end_def content_type_str_def)
qed

definition x_request_id :: "byte list" where
  "x_request_id = [88, 45, 82, 101, 113, 117, 101, 115, 116, 45, 73, 100]"

theorem twelve_letter_header_hides_next_witness:
  "\<exists>h1 h2. on_header x_request_id [55] [] fresh_parser = Done h1 \<and>
     on_header content_type_str example_type [] h1 = Done h2 \<and> hp_boundary_length h2 = 0"
proof -
  have "\<not> eq_ci x_request_id content_type_str" by (simp add: eq_ci_def x_request_id_def content_type_str_def to_lower_def)
  then show ?thesis
    using twelve_letter_header_hides_next [of fresh_parser x_request_id "[55]" example_type "[]" "[]"]
    by (auto simp: fresh_parser_def multipart_enabled_def x_request_id_def example_type_def media_type_def)
qed

text \<open>The result depends on how the value is cut into chunks. A chunk that ends right behind
  \<^verbatim>\<open>boundary=\<close> makes the parser read behind it; a closing quote at the end of a chunk makes it skip the
  first character of the next one, so that \<^verbatim>\<open>";b\<close> is rejected when it is cut behind the quote but not
  when it comes at once; and inside quotes a character that no boundary may contain is dropped without
  an error.\<close>

theorem content_type_chunk_defects:
  "(hp_state h = mt_boundary_eq_eq \<and> hp_boundary_length h = 0 \<longrightarrow>
      cat_http_parser_multipart_parse_content_type (Some ([61], 1)) h = Undefined) \<and>
   (hp_state h = mt_boundary_quoted_value \<longrightarrow>
      (\<exists>h'. cat_http_parser_multipart_parse_content_type (Some ([34, 59, 98], 3)) h = Done (False, h') \<and>
         hp_state h' = mt_boundary_eq 0) \<and>
      (\<exists>h'. cat_http_parser_multipart_parse_content_type (Some ([34], 1)) h = Done (True, h') \<and>
         (\<exists>h''. cat_http_parser_multipart_parse_content_type (Some ([59, 98], 2)) h' = Done (False, h'') \<and>
           hp_state h'' = mt_error)) \<and>
      (\<exists>h'. cat_http_parser_multipart_parse_content_type (Some ([59, 34], 2)) h = Done (True, h') \<and>
         hp_boundary_length h' = hp_boundary_length h))"
proof (intro conjI impI)
  assume h: "hp_state h = mt_boundary_eq_eq \<and> hp_boundary_length h = 0"
  then show "cat_http_parser_multipart_parse_content_type (Some ([61], 1)) h = Undefined"
    by (simp add: cat_http_parser_multipart_parse_content_type_def parse_boundary_eq_eq_def peek_def go_def
      mt_run.simps mt_label_def parse_boundary_value_def)
next
  assume h: "hp_state h = mt_boundary_quoted_value"
  have tok: "token_case 98" "\<not> quoted_bchar 59" by (simp_all add: token_case_def alpha_case_def quoted_bchar_def digit_case_def)
  note defs = cat_http_parser_multipart_parse_content_type_def peek_def go_def mt_run.simps mt_label_def
    parse_boundary_quoted_value_def parse_ows1_acceptable_def parse_ows1_def parse_ows2_def parse_boundary_eq_def
  show "\<exists>h'. cat_http_parser_multipart_parse_content_type (Some ([34, 59, 98], 3)) h = Done (False, h') \<and> hp_state h' = mt_boundary_eq 0"
    using h tok by (simp add: defs)
  show "\<exists>h'. cat_http_parser_multipart_parse_content_type (Some ([34], 1)) h = Done (True, h') \<and>
      (\<exists>h''. cat_http_parser_multipart_parse_content_type (Some ([59, 98], 2)) h' = Done (False, h'') \<and> hp_state h'' = mt_error)"
    using h by (simp add: defs)
  show "\<exists>h'. cat_http_parser_multipart_parse_content_type (Some ([59, 34], 2)) h = Done (True, h') \<and>
      hp_boundary_length h' = hp_boundary_length h"
    using h tok by (simp add: defs)
qed

theorem content_type_chunk_defects_witness:
  "cat_http_parser_multipart_parse_content_type (Some ([61], 1)) (fresh_parser\<lparr>hp_state := mt_boundary_eq_eq\<rparr>) = Undefined"
  using content_type_chunk_defects [of "fresh_parser\<lparr>hp_state := mt_boundary_eq_eq\<rparr>"] by (simp add: fresh_parser_def)

end
