(* ===== verification/Cat_Sync.thy ===== *)
theory Cat_Sync
  imports Cat_Prelude
begin

text \<open>
  Wait groups, \<^verbatim>\<open>src/cat_sync.c\<close>. The counter is a \<^verbatim>\<open>size_t\<close> that the code computes as \<^verbatim>\<open>ssize_t\<close>, so
  additions wrap at 64 bits and a result with the sign bit set is refused.

  A wait suspends the coroutine; what it does once \<^verbatim>\<open>cat_time_wait\<close> has returned is a function of its
  own. The \<^verbatim>\<open>done\<close> that brings the counter to zero schedules the waiting coroutine, which runs its wait to
  the end before \<^verbatim>\<open>done\<close> returns. The fields \<open>wg_added\<close> and \<open>wg_done\<close> count what the successful calls
  have added and taken, and \<open>wg_results\<close> what the waits returned.
\<close>

record cat_sync_wait_group_t =
  wg_coroutine :: "nat option"
  wg_count :: size_t
  wg_added :: int
  wg_done :: int
  wg_results :: "(nat \<times> (cat_errno + unit)) list"

type_synonym wg_result = "(cat_errno + unit) \<times> cat_sync_wait_group_t"

definition cat_sync_wait_group_create :: cat_sync_wait_group_t where
  "cat_sync_wait_group_create = \<lparr>wg_coroutine = None, wg_count = 0, wg_added = 0, wg_done = 0, wg_results = []\<rparr>"

definition cat_sync_wait_group_add :: "size_t \<Rightarrow> cat_sync_wait_group_t \<Rightarrow> wg_result" where
  "cat_sync_wait_group_add delta wg =
     (if wg_coroutine wg \<noteq> None then (Inl CAT_EMISUSE, wg)
      else
        let count = wg_count wg + delta
        in if sint count < 0 then (Inl CAT_EMISUSE, wg)
           else (Inr (), wg\<lparr>wg_count := count, wg_added := wg_added wg + sint delta\<rparr>))"

text \<open>The wait up to the suspension; \<open>None\<close> is a wait that is suspended.\<close>

definition cat_sync_wait_group_wait ::
  "nat \<Rightarrow> cat_sync_wait_group_t \<Rightarrow> (cat_errno + unit) option \<times> cat_sync_wait_group_t" where
  "cat_sync_wait_group_wait co wg =
     (if wg_coroutine wg \<noteq> None then (Some (Inl CAT_EMISUSE), wg)
      else if 0 < wg_count wg then (None, wg\<lparr>wg_coroutine := Some co\<rparr>)
      else (Some (Inr ()), wg))"

definition wait_group_return :: "nat \<Rightarrow> cat_errno + unit \<Rightarrow> cat_sync_wait_group_t \<Rightarrow> wg_result" where
  "wait_group_return co waited wg =
     (let wg = wg\<lparr>wg_coroutine := None\<rparr>;
          r = (case waited of Inl e \<Rightarrow> Inl e | Inr _ \<Rightarrow> if wg_count wg \<noteq> 0 then Inl CAT_ECANCELED else Inr ())
      in (r, wg\<lparr>wg_results := wg_results wg @ [(co, r)]\<rparr>))"

definition cat_sync_wait_group_done :: "cat_sync_wait_group_t \<Rightarrow> wg_result" where
  "cat_sync_wait_group_done wg =
     (let count = wg_count wg - 1
      in if sint count < 0 then (Inl CAT_EMISUSE, wg)
         else
           let wg = wg\<lparr>wg_count := count, wg_done := wg_done wg + 1\<rparr>
           in (Inr (), case (count = 0, wg_coroutine wg) of
                 (True, Some co) \<Rightarrow> snd (wait_group_return co (Inr ()) wg)
               | _ \<Rightarrow> wg))"

subsection \<open>Invariant\<close>

text \<open>The counter is never negative and is exactly what was added and not yet done; somebody waits only
  while it is positive.\<close>

definition wg_inv :: "cat_sync_wait_group_t \<Rightarrow> bool" where
  "wg_inv wg \<longleftrightarrow>
     0 \<le> sint (wg_count wg) \<and> sint (wg_count wg) = wg_added wg - wg_done wg \<and>
     (wg_coroutine wg \<noteq> None \<longrightarrow> wg_count wg \<noteq> 0)"

inductive wg_step :: "cat_sync_wait_group_t \<Rightarrow> cat_sync_wait_group_t \<Rightarrow> bool" where
  add: "cat_sync_wait_group_add delta wg = (r, wg') \<Longrightarrow> wg_step wg wg'"
| wait: "cat_sync_wait_group_wait co wg = (r, wg') \<Longrightarrow> wg_step wg wg'"
| wakes: "wg_coroutine wg = Some co \<Longrightarrow> wait_group_return co waited wg = (r, wg') \<Longrightarrow> wg_step wg wg'"
| finish: "cat_sync_wait_group_done wg = (r, wg') \<Longrightarrow> wg_step wg wg'"

abbreviation wg_reachable :: "cat_sync_wait_group_t \<Rightarrow> bool" where
  "wg_reachable \<equiv> reach (\<lambda>wg. wg = cat_sync_wait_group_create) wg_step"

text \<open>A sum of two signed words that is not negative, one of the two not being negative, did not wrap.\<close>

lemma sint_range: "- (2 ^ 63) \<le> sint (x :: size_t)" "sint (x :: size_t) < 2 ^ 63"
  using sint_range_size [of x] by (auto simp: word_size)

lemma sint_add_cases:
  fixes a b :: size_t
  shows "sint (a + b) = sint a + sint b \<or> sint (a + b) = sint a + sint b - 2 ^ 64 \<or> sint (a + b) = sint a + sint b + 2 ^ 64"
proof -
  have "sint (a + b) = signed_take_bit 63 (sint a + sint b)"
    by (simp add: sint_word_ariths(1))
  then obtain k where k: "sint (a + b) = sint a + sint b + k * 2 ^ 64"
  proof -
    assume a: "sint (a + b) = signed_take_bit 63 (sint a + sint b)"
    have "signed_take_bit 63 x = (x + 2 ^ 63) mod 2 ^ 64 - 2 ^ 63" for x :: int
      by (simp add: signed_take_bit_eq_take_bit_shift take_bit_eq_mod)
    moreover have "(x + 2 ^ 63) mod 2 ^ 64 = x + 2 ^ 63 - (x + 2 ^ 63) div 2 ^ 64 * 2 ^ 64" for x :: int
      by (simp add: minus_div_mult_eq_mod [symmetric])
    ultimately have "sint (a + b) = sint a + sint b + (- ((sint a + sint b + 2 ^ 63) div 2 ^ 64)) * 2 ^ 64"
      using a by simp
    then show thesis by (rule that)
  qed
  have "- 2 < k \<and> k < 2" using k sint_range [of a] sint_range [of b] sint_range [of "a + b"] by auto
  then have "k = -1 \<or> k = 0 \<or> k = 1" by auto
  then show ?thesis using k by auto
qed

lemma sint_add_ok:
  fixes a b :: size_t
  assumes "0 \<le> sint a" "0 \<le> sint (a + b)"
  shows "sint (a + b) = sint a + sint b"
  using sint_add_cases [of a b] sint_range [of a] sint_range [of b] sint_range [of "a + b"] assms by auto

lemma sint_0_iff: "sint (c :: size_t) = 0 \<longleftrightarrow> c = 0"
  using signed_word_eqI [of c 0] by auto

subsection \<open>Every operation keeps the invariant\<close>

lemma add_inv: "cat_sync_wait_group_add delta wg = (r, wg') \<Longrightarrow> wg_inv wg \<Longrightarrow> wg_inv wg'"
  using sint_add_ok [of "wg_count wg" delta]
  by (auto simp: cat_sync_wait_group_add_def wg_inv_def Let_def split: if_splits)

lemma wait_inv: "cat_sync_wait_group_wait co wg = (r, wg') \<Longrightarrow> wg_inv wg \<Longrightarrow> wg_inv wg'"
  by (auto simp: cat_sync_wait_group_wait_def wg_inv_def split: if_splits)

lemma return_inv: "wait_group_return co waited wg = (r, wg') \<Longrightarrow> 0 \<le> sint (wg_count wg) \<Longrightarrow>
    sint (wg_count wg) = wg_added wg - wg_done wg \<Longrightarrow> wg_inv wg'"
  by (auto simp: wait_group_return_def wg_inv_def Let_def)

lemma wakes_inv: "wait_group_return co waited wg = (r, wg') \<Longrightarrow> wg_inv wg \<Longrightarrow> wg_inv wg'"
  by (erule return_inv) (simp_all add: wg_inv_def)

lemma sint_pred: "0 \<le> sint (c :: size_t) \<Longrightarrow> 0 \<le> sint (c - 1) \<Longrightarrow> sint (c - 1) = sint c - 1"
  using sint_add_ok [of c "- 1"] by simp

lemma done_inv: "cat_sync_wait_group_done wg = (r, wg') \<Longrightarrow> wg_inv wg \<Longrightarrow> wg_inv wg'"
  using sint_pred [of "wg_count wg"]
  by (auto simp: cat_sync_wait_group_done_def wg_inv_def wait_group_return_def Let_def
      split: if_splits option.splits bool.splits)

interpretation wg: machine "\<lambda>wg. wg = cat_sync_wait_group_create" wg_step wg_inv
proof unfold_locales
  show "wg_inv wg" if "wg = cat_sync_wait_group_create" for wg
    using that by (simp add: cat_sync_wait_group_create_def wg_inv_def)
  show "wg_inv wg'" if "wg_step wg wg'" "wg_inv wg" for wg wg'
    using that by cases (auto intro: add_inv wait_inv done_inv wakes_inv)
qed

text \<open>C28: In every reachable state the counter is exactly what successful calls added less what they finished,
  it is not negative, and a coroutine waits only while it is positive.\<close>

theorem wait_group_invariant: "wg_reachable wg \<Longrightarrow>
    sint (wg_count wg) = wg_added wg - wg_done wg \<and> 0 \<le> wg_added wg - wg_done wg \<and>
    (wg_coroutine wg \<noteq> None \<longrightarrow> 0 < wg_added wg - wg_done wg)"
  using wg.reach_inv [of wg] by (auto simp: wg_inv_def le_less sint_0_iff)

text \<open>Finishing the work a wait is for: with a coroutine waiting, each call but the last only counts down,
  the last one resumes the waiter, whose wait returns success, and leaves the group ready for use.\<close>

fun wait_group_done_times :: "nat \<Rightarrow> cat_sync_wait_group_t \<Rightarrow> cat_sync_wait_group_t" where
  "wait_group_done_times 0 wg = wg"
| "wait_group_done_times (Suc n) wg = wait_group_done_times n (snd (cat_sync_wait_group_done wg))"

lemma sint_pos_pred: "0 < sint (c :: size_t) \<Longrightarrow> sint (c - 1) = sint c - 1"
  using sint_add_cases [of c "- 1"] sint_range [of c] sint_range [of "c - 1"] by auto

lemma done_cases:
  assumes "0 < sint (wg_count wg)"
  shows "cat_sync_wait_group_done wg =
    (let wg' = wg\<lparr>wg_count := wg_count wg - 1, wg_done := wg_done wg + 1\<rparr>
     in (Inr (), case wg_coroutine wg of
           Some co \<Rightarrow> if wg_count wg = 1
             then wg'\<lparr>wg_coroutine := None, wg_results := wg_results wg @ [(co, Inr ())]\<rparr> else wg'
         | None \<Rightarrow> wg'))"
  using assms sint_pos_pred [OF assms]
  by (auto simp: cat_sync_wait_group_done_def wait_group_return_def Let_def split: option.splits bool.splits)

lemma done_times_waiting:
  "wg_coroutine wg = Some co \<Longrightarrow> sint (wg_count wg) = int (Suc n) \<Longrightarrow>
   wait_group_done_times (Suc n) wg =
     wg\<lparr>wg_coroutine := None, wg_count := 0, wg_done := wg_done wg + int (Suc n),
        wg_results := wg_results wg @ [(co, Inr ())]\<rparr>"
proof (induction n arbitrary: wg)
  case 0
  then have "wg_count wg = 1" using signed_word_eqI [of "wg_count wg" 1] by simp
  then show ?case using 0 by (simp add: done_cases)
next
  case (Suc n)
  define wg' where "wg' = wg\<lparr>wg_count := wg_count wg - 1, wg_done := wg_done wg + 1\<rparr>"
  have "wg_count wg \<noteq> 1" using Suc.prems by auto
  then have d: "snd (cat_sync_wait_group_done wg) = wg'"
    using Suc.prems by (simp add: done_cases wg'_def)
  have "wait_group_done_times (Suc n) wg' =
     wg'\<lparr>wg_coroutine := None, wg_count := 0, wg_done := wg_done wg' + int (Suc n),
        wg_results := wg_results wg' @ [(co, Inr ())]\<rparr>"
    using Suc.prems sint_pos_pred [of "wg_count wg"] by (intro Suc.IH) (simp_all add: wg'_def)
  then show ?case by (simp add: d wg'_def)
qed

lemma done_times_before:
  "wg_coroutine wg = Some co \<Longrightarrow> int m < sint (wg_count wg) \<Longrightarrow>
   wait_group_done_times m wg = wg\<lparr>wg_count := wg_count wg - of_nat m, wg_done := wg_done wg + int m\<rparr>"
proof (induction m arbitrary: wg)
  case (Suc m)
  have "wg_count wg \<noteq> 1" using Suc.prems by auto
  then have "snd (cat_sync_wait_group_done wg) = wg\<lparr>wg_count := wg_count wg - 1, wg_done := wg_done wg + 1\<rparr>"
    using Suc.prems by (simp add: done_cases)
  then show ?case
    using Suc.prems sint_pos_pred [of "wg_count wg"] Suc.IH [of "snd (cat_sync_wait_group_done wg)"] by simp
qed simp

text \<open>C30: With a coroutine waiting on a reachable group, the calls of done before the last leave it waiting and
  make no wait return; the call that brings the work to its end makes the wait return success, once, and
  leaves the group free for the next round.\<close>

theorem wait_group_done_wakes:
  assumes "wg_reachable wg" "wg_coroutine wg = Some co" "n = nat (wg_added wg - wg_done wg)" "m < n"
  shows "wg_coroutine (wait_group_done_times m wg) = Some co \<and>
         wg_results (wait_group_done_times m wg) = wg_results wg \<and>
         wait_group_done_times n wg =
           wg\<lparr>wg_coroutine := None, wg_count := 0, wg_done := wg_added wg,
              wg_results := wg_results wg @ [(co, Inr ())]\<rparr>"
proof -
  have c: "sint (wg_count wg) = wg_added wg - wg_done wg"
    using wg.reach_inv [OF assms(1)] by (simp add: wg_inv_def)
  with assms(3,4) have n: "sint (wg_count wg) = int n" "int m < sint (wg_count wg)" by auto
  obtain k where k: "n = Suc k" using assms(4) by (cases n) auto
  have e: "wg_done wg + int (Suc k) = wg_added wg" using c n(1) unfolding k by linarith
  have "sint (wg_count wg) = int (Suc k)" using n(1) unfolding k .
  from done_times_waiting [OF assms(2) this] done_times_before [OF assms(2) n(2)] show ?thesis
    using assms(2) unfolding k e by simp
qed

text \<open>A group on which two units of work were added and a coroutine waits.\<close>

definition wg_example :: cat_sync_wait_group_t where
  "wg_example = snd (cat_sync_wait_group_wait 7 (snd (cat_sync_wait_group_add 2 cat_sync_wait_group_create)))"

lemma wg_example_eq: "wg_example =
    \<lparr>wg_coroutine = Some 7, wg_count = 2, wg_added = 2, wg_done = 0, wg_results = []\<rparr>"
  by code_simp

lemma wg_example_reachable: "wg_reachable wg_example"
proof -
  have "wg_reachable cat_sync_wait_group_create" by (simp add: reach_start)
  moreover have "wg_step wg (snd (cat_sync_wait_group_add 2 wg))" for wg
    by (rule wg_step.add) (rule prod.collapse [symmetric])
  moreover have "wg_step wg (snd (cat_sync_wait_group_wait 7 wg))" for wg
    by (rule wg_step.wait) (rule prod.collapse [symmetric])
  ultimately show ?thesis unfolding wg_example_def by (meson reach_step)
qed

theorem wait_group_done_wakes_witness:
  "wg_coroutine (wait_group_done_times 1 wg_example) = Some 7 \<and>
   wg_results (wait_group_done_times 2 wg_example) = [(7, Inr ())]"
  using wait_group_done_wakes [OF wg_example_reachable, of 7 2 1] by (simp add: wg_example_eq)

theorem wait_group_invariant_witness: "0 < wg_added wg_example - wg_done wg_example"
  using wait_group_invariant [OF wg_example_reachable] by (simp add: wg_example_eq)

text \<open>What the operations refuse, leaving the group as it is: adding or waiting while a coroutine waits,
  and every change that would make the counter negative, finishing work that was never added included. The
  sums are those of 64-bit words, so adding up to the largest signed value is allowed and one more refused.\<close>

theorem wait_group_misuse:
  assumes "wg_reachable wg"
  shows "(wg_coroutine wg \<noteq> None \<longrightarrow>
            cat_sync_wait_group_add delta wg = (Inl CAT_EMISUSE, wg) \<and>
            cat_sync_wait_group_wait co wg = (Some (Inl CAT_EMISUSE), wg)) \<and>
         (wg_coroutine wg = None \<longrightarrow>
            (let total = wg_added wg - wg_done wg + sint delta
             in if 0 \<le> total \<and> total < 2 ^ 63
                then cat_sync_wait_group_add delta wg =
                       (Inr (), wg\<lparr>wg_count := wg_count wg + delta, wg_added := wg_added wg + sint delta\<rparr>)
                else cat_sync_wait_group_add delta wg = (Inl CAT_EMISUSE, wg))) \<and>
         (wg_added wg = wg_done wg \<longrightarrow> cat_sync_wait_group_done wg = (Inl CAT_EMISUSE, wg))"
proof -
  have inv: "0 \<le> sint (wg_count wg)" "sint (wg_count wg) = wg_added wg - wg_done wg"
    using wg.reach_inv [OF assms] by (simp_all add: wg_inv_def)
  have "0 \<le> sint (wg_count wg + delta) \<longleftrightarrow>
      0 \<le> wg_added wg - wg_done wg + sint delta \<and> wg_added wg - wg_done wg + sint delta < 2 ^ 63"
    using sint_add_cases [of "wg_count wg" delta] sint_add_ok [of "wg_count wg" delta] inv
      sint_range [of "wg_count wg"] sint_range [of delta] sint_range [of "wg_count wg + delta"] by auto
  moreover have "cat_sync_wait_group_done wg = (Inl CAT_EMISUSE, wg)" if "wg_added wg = wg_done wg"
    using that inv by (simp add: cat_sync_wait_group_done_def sint_0_iff)
  ultimately show ?thesis
    by (auto simp: cat_sync_wait_group_add_def cat_sync_wait_group_wait_def Let_def not_less)
qed

theorem wait_group_misuse_witness:
  "cat_sync_wait_group_add 1 wg_example = (Inl CAT_EMISUSE, wg_example) \<and>
   cat_sync_wait_group_done cat_sync_wait_group_create = (Inl CAT_EMISUSE, cat_sync_wait_group_create)"
  using wait_group_misuse [OF wg_example_reachable, of 1]
    wait_group_misuse [of cat_sync_wait_group_create]
  by (auto simp: wg_example_eq cat_sync_wait_group_create_def intro: reach_start)

end
