(* ===== verification/Uv_Heap.thy ===== *)
theory Uv_Heap
  imports Cat_Prelude
begin

text \<open>
  The binary min heap of \<^verbatim>\<open>deps/libuv/src/heap-inl.h\<close>, which keeps the timers of the event loop. The nodes
  are linked by left, right and parent pointers; a position is found by the bits of its number, and
  nodes move by exchanging their links with those of their parent.

  The first part is the code. A \<^verbatim>\<open>struct heap_node**\<close> is a value of the type \<open>slot\<close>. The loops that move a
  node up or down end only on a well-formed heap, so they are partial functions.

  \<open>heap_of st n t\<close> says that the store holds a complete tree of \<open>n\<close> nodes with node \<open>t k\<close> at position
  \<open>k\<close>: the children of position \<open>k\<close> are at \<open>2 * k\<close> and \<open>2 * k + 1\<close>. The lemmas of the second part show
  that the code moves nodes between positions as the textbook algorithm on arrays does, those of the third
  that this algorithm keeps the order of the heap; the locale \<open>heap_order\<close> states what is assumed of the
  comparison.
\<close>

record heap_node =
  hn_left :: "addr option"
  hn_right :: "addr option"
  hn_parent :: "addr option"

record heap_store =
  hp_min :: "addr option"
  hp_nelts :: u32
  hp_node :: "addr \<Rightarrow> heap_node"

type_synonym heap_compare_fn = "addr \<Rightarrow> addr \<Rightarrow> bool"

definition set_node :: "addr \<Rightarrow> heap_node \<Rightarrow> heap_store \<Rightarrow> heap_store" where
  "set_node a n st = st\<lparr>hp_node := (hp_node st)(a := n)\<rparr>"

definition set_left :: "addr \<Rightarrow> addr option \<Rightarrow> heap_store \<Rightarrow> heap_store" where
  "set_left a v st = set_node a (hp_node st a\<lparr>hn_left := v\<rparr>) st"

definition set_right :: "addr \<Rightarrow> addr option \<Rightarrow> heap_store \<Rightarrow> heap_store" where
  "set_right a v st = set_node a (hp_node st a\<lparr>hn_right := v\<rparr>) st"

definition set_parent :: "addr \<Rightarrow> addr option \<Rightarrow> heap_store \<Rightarrow> heap_store" where
  "set_parent a v st = set_node a (hp_node st a\<lparr>hn_parent := v\<rparr>) st"

text \<open>\<^verbatim>\<open>if (p != NULL) p->parent = a;\<close>\<close>

definition adopt :: "addr option \<Rightarrow> addr \<Rightarrow> heap_store \<Rightarrow> heap_store" where
  "adopt p a st = (case p of None \<Rightarrow> st | Some c \<Rightarrow> set_parent c (Some a) st)"

text \<open>Let the parent (or the root pointer) that pointed to \<open>old\<close> point to \<open>new\<close>.\<close>

definition replace_child :: "addr option \<Rightarrow> addr \<Rightarrow> addr \<Rightarrow> heap_store \<Rightarrow> heap_store" where
  "replace_child p old new st =
     (case p of
        None \<Rightarrow> st\<lparr>hp_min := Some new\<rparr>
      | Some g \<Rightarrow> if hn_left (hp_node st g) = Some old then set_left g (Some new) st
                  else set_right g (Some new) st)"

definition heap_init :: "heap_store \<Rightarrow> heap_store" where
  "heap_init st = st\<lparr>hp_min := None, hp_nelts := 0\<rparr>"

definition heap_min :: "heap_store \<Rightarrow> addr option" where
  "heap_min st = hp_min st"

definition heap_node_swap :: "addr \<Rightarrow> addr \<Rightarrow> heap_store \<Rightarrow> heap_store" where
  "heap_node_swap parent child st =
     (let t = hp_node st parent;
          st = set_node parent (hp_node st child) st;
          st = set_node child t st;
          st = set_parent parent (Some child) st;
          (st, sibling) =
            (if hn_left (hp_node st child) = Some child
             then (set_left child (Some parent) st, hn_right (hp_node st child))
             else (set_right child (Some parent) st, hn_left (hp_node st child)));
          st = adopt sibling child st;
          st = adopt (hn_left (hp_node st parent)) parent st;
          st = adopt (hn_right (hp_node st parent)) parent st
      in replace_child (hn_parent (hp_node st child)) parent child st)"

text \<open>The walk to a position: the bits of its number below the leading one, from the top.\<close>

function path_loop :: "u32 \<Rightarrow> u32 \<Rightarrow> nat \<Rightarrow> u32 \<times> nat" where
  "path_loop n path k =
     (if 2 \<le> n then path_loop (n div 2) (push_bit 1 path OR (n AND 1)) (k + 1) else (path, k))"
  by pat_completeness auto
termination by (relation "measure (\<lambda>(n, _, _). unat n)") (auto simp: unat_div word_le_nat_alt)

datatype slot = Root | Left_of addr | Right_of addr

definition read_slot :: "slot \<Rightarrow> heap_store \<Rightarrow> addr option" where
  "read_slot s st = (case s of Root \<Rightarrow> hp_min st
     | Left_of a \<Rightarrow> hn_left (hp_node st a) | Right_of a \<Rightarrow> hn_right (hp_node st a))"

definition write_slot :: "slot \<Rightarrow> addr option \<Rightarrow> heap_store \<Rightarrow> heap_store" where
  "write_slot s v st = (case s of Root \<Rightarrow> st\<lparr>hp_min := v\<rparr>
     | Left_of a \<Rightarrow> set_left a v st | Right_of a \<Rightarrow> set_right a v st)"

fun walk :: "nat \<Rightarrow> u32 \<Rightarrow> slot \<Rightarrow> slot \<Rightarrow> heap_store \<Rightarrow> (slot \<times> slot) c_run" where
  "walk 0 path parent child st = Done (parent, child)"
| "walk (Suc k) path parent child st =
     (case read_slot child st of
        None \<Rightarrow> Undefined
      | Some a \<Rightarrow> walk k (drop_bit 1 path) child (if path AND 1 \<noteq> 0 then Right_of a else Left_of a) st)"

partial_function (option) walk_up :: "heap_compare_fn \<Rightarrow> addr \<Rightarrow> heap_store \<Rightarrow> heap_store option" where
  "walk_up lt node st =
     (case hn_parent (hp_node st node) of
        None \<Rightarrow> Some st
      | Some p \<Rightarrow> if lt node p then walk_up lt node (heap_node_swap p node st) else Some st)"

definition smallest_of :: "heap_compare_fn \<Rightarrow> addr \<Rightarrow> heap_store \<Rightarrow> addr" where
  "smallest_of lt child st =
     (let smallest = child;
          smallest = (case hn_left (hp_node st child) of
             None \<Rightarrow> smallest | Some l \<Rightarrow> if lt l smallest then l else smallest)
      in case hn_right (hp_node st child) of
             None \<Rightarrow> smallest | Some r \<Rightarrow> if lt r smallest then r else smallest)"

partial_function (option) walk_down :: "heap_compare_fn \<Rightarrow> addr \<Rightarrow> heap_store \<Rightarrow> heap_store option" where
  "walk_down lt child st =
     (let smallest = smallest_of lt child st
      in if smallest = child then Some st
         else walk_down lt child (heap_node_swap child smallest st))"

definition loop_end :: "'a option \<Rightarrow> 'a c_run" where
  "loop_end r = (case r of None \<Rightarrow> Diverges | Some x \<Rightarrow> Done x)"

definition heap_insert :: "heap_compare_fn \<Rightarrow> addr \<Rightarrow> heap_store \<Rightarrow> heap_store c_run" where
  "heap_insert lt newnode st =
     (let st = set_node newnode \<lparr>hn_left = None, hn_right = None, hn_parent = None\<rparr> st;
          (path, k) = path_loop (1 + hp_nelts st) 0 0
      in c_bind (walk k path Root Root st) (\<lambda>(parent, child).
           let st = set_parent newnode (read_slot parent st) st;
               st = write_slot child (Some newnode) st;
               st = st\<lparr>hp_nelts := hp_nelts st + 1\<rparr>
           in loop_end (walk_up lt newnode st)))"

text \<open>The node that leaves: \<^verbatim>\<open>child\<close>, the last node, takes its place.\<close>

definition take_place :: "addr \<Rightarrow> addr \<Rightarrow> heap_store \<Rightarrow> heap_store" where
  "take_place node child st =
     (let st = set_left child (hn_left (hp_node st node)) st;
          st = set_right child (hn_right (hp_node st node)) st;
          st = set_parent child (hn_parent (hp_node st node)) st;
          st = adopt (hn_left (hp_node st child)) child st;
          st = adopt (hn_right (hp_node st child)) child st
      in replace_child (hn_parent (hp_node st node)) node child st)"

definition heap_remove :: "heap_compare_fn \<Rightarrow> addr \<Rightarrow> heap_store \<Rightarrow> heap_store c_run" where
  "heap_remove lt node st =
     (if hp_nelts st = 0 then Done st
      else
        let (path, k) = path_loop (hp_nelts st) 0 0
        in c_bind (walk k path Root Root st) (\<lambda>(_, last).
             let st = st\<lparr>hp_nelts := hp_nelts st - 1\<rparr>
             in case read_slot last st of
                  None \<Rightarrow> Undefined
                | Some child \<Rightarrow>
                    let st = write_slot last None st
                    in if child = node
                       then Done (if Some child = hp_min st then st\<lparr>hp_min := None\<rparr> else st)
                       else
                         let st = take_place node child st
                         in c_bind (loop_end (walk_down lt child st)) (\<lambda>st.
                              loop_end (walk_up lt child st))))"

definition heap_dequeue :: "heap_compare_fn \<Rightarrow> heap_store \<Rightarrow> heap_store c_run" where
  "heap_dequeue lt st =
     (if hp_nelts st = 0 then Done st
      else case hp_min st of None \<Rightarrow> Undefined | Some m \<Rightarrow> heap_remove lt m st)"

subsection \<open>Positions\<close>

definition heap_of :: "heap_store \<Rightarrow> nat \<Rightarrow> (nat \<rightharpoonup> addr) \<Rightarrow> bool" where
  "heap_of st n t \<longleftrightarrow>
     (\<forall>k. t k \<noteq> None \<longleftrightarrow> 1 \<le> k \<and> k \<le> n) \<and>
     (\<forall>j k a. t j = Some a \<longrightarrow> t k = Some a \<longrightarrow> j = k) \<and>
     n < 2 ^ 32 \<and> hp_nelts st = of_nat n \<and> hp_min st = t 1 \<and>
     (\<forall>k a. t k = Some a \<longrightarrow>
        hp_node st a = \<lparr>hn_left = t (2 * k), hn_right = t (2 * k + 1), hn_parent = t (k div 2)\<rparr>)"

lemmas node_ops = set_node_def set_left_def set_right_def set_parent_def

lemma node_set_node: "hp_node (set_node a n st) b = (if b = a then n else hp_node st b)"
  by (simp add: set_node_def)

lemma node_adopt: "hp_node (adopt q x st) a =
    (if q = Some a then hp_node st a\<lparr>hn_parent := Some x\<rparr> else hp_node st a)"
  by (auto simp: adopt_def set_parent_def node_set_node split: option.splits)

lemma node_replace_child: "hp_node (replace_child q old new st) a =
    (if q = Some a then (if hn_left (hp_node st a) = Some old then hp_node st a\<lparr>hn_left := Some new\<rparr>
                         else hp_node st a\<lparr>hn_right := Some new\<rparr>)
     else hp_node st a)"
  by (auto simp: replace_child_def set_left_def set_right_def node_set_node split: option.splits)

lemma other_set_node [simp]: "hp_min (set_node a n st) = hp_min st" "hp_nelts (set_node a n st) = hp_nelts st"
  by (simp_all add: set_node_def)

lemma other_set [simp]:
  "hp_min (set_left a v st) = hp_min st" "hp_nelts (set_left a v st) = hp_nelts st"
  "hp_min (set_right a v st) = hp_min st" "hp_nelts (set_right a v st) = hp_nelts st"
  "hp_min (set_parent a v st) = hp_min st" "hp_nelts (set_parent a v st) = hp_nelts st"
  by (simp_all add: set_left_def set_right_def set_parent_def)

lemma other_adopt [simp]: "hp_min (adopt q x st) = hp_min st" "hp_nelts (adopt q x st) = hp_nelts st"
  by (simp_all add: adopt_def split: option.splits)

lemma other_replace_child [simp]:
  "hp_min (replace_child q old new st) = (if q = None then Some new else hp_min st)"
  "hp_nelts (replace_child q old new st) = hp_nelts st"
  by (auto simp: replace_child_def split: option.splits)

text \<open>The links after an exchange, when the two nodes are a parent and its child in a tree.\<close>

lemma swap_links:
  fixes p c :: addr and st :: heap_store
  defines "P \<equiv> hp_node st p" and "C \<equiv> hp_node st c"
  defines "s \<equiv> (if hn_left P = Some c then hn_right P else hn_left P)"
  assumes "p \<noteq> c" "s \<notin> {Some p, Some c}" "hn_left C \<notin> {Some p, Some c}" "hn_right C \<notin> {Some p, Some c}"
    "hn_parent P \<notin> {Some p, Some c}" "s = None \<or> s \<notin> {hn_left C, hn_right C}"
  shows "hp_node (heap_node_swap p c st) a =
         (if a = c then (if hn_left P = Some c then P\<lparr>hn_left := Some p\<rparr> else P\<lparr>hn_right := Some p\<rparr>)
         else if a = p then C\<lparr>hn_parent := Some c\<rparr>
         else let A = hp_node st a in
           \<lparr>hn_left = (if hn_parent P = Some a \<and> hn_left A = Some p then Some c else hn_left A),
            hn_right = (if hn_parent P = Some a \<and> hn_left A \<noteq> Some p then Some c else hn_right A),
            hn_parent = (if s = Some a then Some c
              else if hn_left C = Some a \<or> hn_right C = Some a then Some p else hn_parent A)\<rparr>)"
    and "hp_min (heap_node_swap p c st) = (if hn_parent P = None then Some c else hp_min st)"
    and "hp_nelts (heap_node_swap p c st) = hp_nelts st"
proof -
  define st1 where "st1 = set_parent p (Some c) (set_node c P (set_node p C st))"
  have n1: "hp_node st1 a = (if a = p then C\<lparr>hn_parent := Some c\<rparr> else if a = c then P else hp_node st a)" for a
    using assms by (simp add: st1_def set_parent_def node_set_node)
  define st2 where "st2 = (if hn_left P = Some c then set_left c (Some p) st1 else set_right c (Some p) st1)"
  have n2: "hp_node st2 a = (if a = p then C\<lparr>hn_parent := Some c\<rparr>
      else if a = c then (if hn_left P = Some c then P\<lparr>hn_left := Some p\<rparr> else P\<lparr>hn_right := Some p\<rparr>)
      else hp_node st a)" for a
    using assms by (simp add: st2_def set_left_def set_right_def node_set_node n1)
  define st3 where "st3 = adopt (hn_right C) p (adopt (hn_left C) p (adopt s c st2))"
  have n3: "hp_node st3 a = (if a = p \<or> a = c then hp_node st2 a
      else hp_node st a\<lparr>hn_parent := (if s = Some a then Some c
              else if hn_left C = Some a \<or> hn_right C = Some a then Some p else hn_parent (hp_node st a))\<rparr>)" for a
    using assms by (auto simp: st3_def node_adopt n2)
  have parent_st3: "hn_parent (hp_node st3 c) = hn_parent P" using assms by (simp add: n3 n2)
  have e: "heap_node_swap p c st = replace_child (hn_parent P) p c st3"
  proof -
    have "heap_node_swap p c st =
        (let st = adopt s c st2; st = adopt (hn_left (hp_node st p)) p st;
             st = adopt (hn_right (hp_node st p)) p st
         in replace_child (hn_parent (hp_node st c)) p c st)"
      using assms n1 by (simp add: heap_node_swap_def Let_def st2_def st1_def [symmetric] P_def [symmetric] C_def [symmetric])
    also have "\<dots> = replace_child (hn_parent (hp_node st3 c)) p c st3"
      using assms by (simp add: Let_def st3_def node_adopt n2)
    finally show ?thesis by (simp add: parent_st3)
  qed
  show "hp_min (heap_node_swap p c st) = (if hn_parent P = None then Some c else hp_min st)"
    "hp_nelts (heap_node_swap p c st) = hp_nelts st"
    by (simp_all add: e st3_def st2_def st1_def)
  show "hp_node (heap_node_swap p c st) a =
         (if a = c then (if hn_left P = Some c then P\<lparr>hn_left := Some p\<rparr> else P\<lparr>hn_right := Some p\<rparr>)
         else if a = p then C\<lparr>hn_parent := Some c\<rparr>
         else let A = hp_node st a in
           \<lparr>hn_left = (if hn_parent P = Some a \<and> hn_left A = Some p then Some c else hn_left A),
            hn_right = (if hn_parent P = Some a \<and> hn_left A \<noteq> Some p then Some c else hn_right A),
            hn_parent = (if s = Some a then Some c
              else if hn_left C = Some a \<or> hn_right C = Some a then Some p else hn_parent A)\<rparr>)"
    using assms unfolding e node_replace_child Let_def by (simp add: n3 n2) 
qed

lemma heap_ofD:
  assumes "heap_of st n t"
  shows heap_of_dom: "t k \<noteq> None \<longleftrightarrow> 1 \<le> k \<and> k \<le> n"
    and heap_of_inj: "t j = Some a \<Longrightarrow> t k = Some a \<Longrightarrow> j = k"
    and heap_of_small: "n < 2 ^ 32"
    and heap_of_nelts: "hp_nelts st = of_nat n"
    and heap_of_min: "hp_min st = t 1"
    and heap_of_node: "t k = Some a \<Longrightarrow>
      hp_node st a = \<lparr>hn_left = t (2 * k), hn_right = t (2 * k + 1), hn_parent = t (k div 2)\<rparr>"
  using assms unfolding heap_of_def by metis+

lemma heap_of_eq: "heap_of st n t \<Longrightarrow> t j = Some a \<Longrightarrow> t k = Some a \<longleftrightarrow> k = j"
  using heap_of_inj by auto

text \<open>The links after an exchange in terms of positions: \<open>i\<close> is the position of the parent, \<open>j\<close> that of the
  other child.\<close>

lemma swap_links_pos:
  assumes h: "heap_of st n t" and c: "t k = Some c" and p: "t i = Some p" and i: "i = k div 2"
    and j: "j = (if k = 2 * i then 2 * i + 1 else 2 * i)"
  shows "hp_node (heap_node_swap p c st) a =
         (if a = c then (if k = 2 * i then \<lparr>hn_left = Some p, hn_right = t (2 * i + 1), hn_parent = t (i div 2)\<rparr>
            else \<lparr>hn_left = t (2 * i), hn_right = Some p, hn_parent = t (i div 2)\<rparr>)
         else if a = p then \<lparr>hn_left = t (2 * k), hn_right = t (2 * k + 1), hn_parent = Some c\<rparr>
         else let A = hp_node st a in
           \<lparr>hn_left = (if t (i div 2) = Some a \<and> hn_left A = Some p then Some c else hn_left A),
            hn_right = (if t (i div 2) = Some a \<and> hn_left A \<noteq> Some p then Some c else hn_right A),
            hn_parent = (if t j = Some a then Some c
              else if t (2 * k) = Some a \<or> t (2 * k + 1) = Some a then Some p else hn_parent A)\<rparr>)"
    and "hp_min (heap_node_swap p c st) = (if t (i div 2) = None then Some c else hp_min st)"
    and "hp_nelts (heap_node_swap p c st) = hp_nelts st"
proof -
  have ik: "1 \<le> i" "i < k" "i div 2 < i" using p i heap_of_dom [OF h, of i] by auto
  have k: "k = 2 * i \<or> k = 2 * i + 1" by (auto simp: i)
  note eqs = heap_of_eq [OF h c] heap_of_eq [OF h p]
  have P: "hp_node st p = \<lparr>hn_left = t (2 * i), hn_right = t (2 * i + 1), hn_parent = t (i div 2)\<rparr>"
    and C: "hp_node st c = \<lparr>hn_left = t (2 * k), hn_right = t (2 * k + 1), hn_parent = t i\<rparr>"
    using heap_of_node [OF h c] heap_of_node [OF h p] by (simp_all add: i)
  have pc: "p \<noteq> c" using eqs(1) [of i] p ik by auto
  define s where "s = (if hn_left (hp_node st p) = Some c then hn_right (hp_node st p) else hn_left (hp_node st p))"
  have s: "s = t j" using k by (auto simp: s_def P eqs j)
  have j': "j div 2 = i" "j \<noteq> i" "j \<noteq> k" "j < 2 * k" using ik by (auto simp: j)
  have s_free: "s = None \<or> s \<notin> {t (2 * k), t (2 * k + 1)}"
  proof (cases "t j")
    case (Some b)
    show ?thesis using j' by (auto simp: s Some heap_of_eq [OF h Some] eq_commute [of "Some b"])
  qed (simp add: s)
  have side: "s \<notin> {Some p, Some c}" "hn_left (hp_node st c) \<notin> {Some p, Some c}"
    "hn_right (hp_node st c) \<notin> {Some p, Some c}" "hn_parent (hp_node st p) \<notin> {Some p, Some c}"
    using ik j' by (auto simp: s P C eqs)
  note sw = swap_links [where st = st, OF pc, folded s_def, OF side, unfolded P C heap_node.simps, OF s_free]
  have left: "t (2 * i) = Some c \<longleftrightarrow> k = 2 * i" by (auto simp: eqs)
  show "hp_node (heap_node_swap p c st) a =
         (if a = c then (if k = 2 * i then \<lparr>hn_left = Some p, hn_right = t (2 * i + 1), hn_parent = t (i div 2)\<rparr>
            else \<lparr>hn_left = t (2 * i), hn_right = Some p, hn_parent = t (i div 2)\<rparr>)
         else if a = p then \<lparr>hn_left = t (2 * k), hn_right = t (2 * k + 1), hn_parent = Some c\<rparr>
         else let A = hp_node st a in
           \<lparr>hn_left = (if t (i div 2) = Some a \<and> hn_left A = Some p then Some c else hn_left A),
            hn_right = (if t (i div 2) = Some a \<and> hn_left A \<noteq> Some p then Some c else hn_right A),
            hn_parent = (if t j = Some a then Some c
              else if t (2 * k) = Some a \<or> t (2 * k + 1) = Some a then Some p else hn_parent A)\<rparr>)"
    unfolding sw(1) left s by simp
  show "hp_min (heap_node_swap p c st) = (if t (i div 2) = None then Some c else hp_min st)"
    "hp_nelts (heap_node_swap p c st) = hp_nelts st"
    by (simp_all add: sw)
qed

text \<open>Exchanging a node with its parent exchanges what is at the two positions.\<close>

lemma swap_node_pos:
  assumes h: "heap_of st n t" and c: "t k = Some c" and p: "t i = Some p" and i: "i = k div 2"
    and ta: "(t(i \<mapsto> c, k \<mapsto> p)) j = Some a"
  shows "hp_node (heap_node_swap p c st) a =
      \<lparr>hn_left = (t(i \<mapsto> c, k \<mapsto> p)) (2 * j), hn_right = (t(i \<mapsto> c, k \<mapsto> p)) (2 * j + 1),
       hn_parent = (t(i \<mapsto> c, k \<mapsto> p)) (j div 2)\<rparr>"
proof -
  have ik: "1 \<le> i" "i < k" "i div 2 < i" using p i heap_of_dom [OF h, of i] by auto
  have k: "k = 2 * i \<or> k = 2 * i + 1" by (auto simp: i)
  note eqs = heap_of_eq [OF h c] heap_of_eq [OF h p]
  have pc: "p \<noteq> c" using eqs(1) [of i] p ik by auto
  note sw = swap_links_pos(1) [OF h c p i refl]
  consider "j = k" "a = p" | "j = i" "a = c" | "j \<noteq> k" "j \<noteq> i" "t j = Some a"
    using ta ik by (auto split: if_splits)
  then show ?thesis
  proof cases
    case 1
    then show ?thesis using ik pc k i unfolding sw by auto
  next
    case 2
    then show ?thesis using ik pc k unfolding sw by auto
  next
    case 3
    note A = heap_of_node [OF h 3(3)] and E = heap_of_eq [OF h 3(3)]
    have a: "a \<noteq> p" "a \<noteq> c" using 3 eqs by auto
    have gp: "t (i div 2) = Some a \<and> t (2 * j) = Some p \<longleftrightarrow> 2 * j = i"
      "t (i div 2) = Some a \<and> t (2 * j) \<noteq> Some p \<longleftrightarrow> 2 * j + 1 = i"
      using ik by (auto simp: E eqs)
    have par: "t (if k = 2 * i then 2 * i + 1 else 2 * i) = Some a \<longleftrightarrow> j div 2 = i"
      "t (2 * k) = Some a \<or> t (2 * k + 1) = Some a \<longleftrightarrow> j div 2 = k"
      using k 3 by (auto simp: E)
    have "2 * j \<noteq> k" "2 * j + 1 \<noteq> k" using 3 k by auto
    then show ?thesis using a gp par ik unfolding sw by (auto simp: A Let_def)
  qed
qed

lemma heap_of_swap_at:
  assumes h: "heap_of st n t" and c: "t k = Some c" and p: "t i = Some p" and i: "i = k div 2"
  shows "heap_of (heap_node_swap p c st) n (t(i \<mapsto> c, k \<mapsto> p))"
  unfolding heap_of_def
proof (intro conjI allI impI)
  let ?t = "t(i \<mapsto> c, k \<mapsto> p)"
  have ik: "1 \<le> i" "i < k" "i \<le> n" using p i heap_of_dom [OF h, of i] by auto
  note eqs = heap_of_eq [OF h c] heap_of_eq [OF h p] and sw = swap_links_pos [OF h c p i refl]
  have pc: "p \<noteq> c" using eqs(1) [of i] p ik by auto
  show "?t j \<noteq> None \<longleftrightarrow> 1 \<le> j \<and> j \<le> n" for j using heap_of_dom [OF h, of j] c p by auto
  show "j = l" if "?t j = Some a" "?t l = Some a" for j l a
    using that eqs [of j] eqs [of l] pc ik heap_of_inj [OF h, of j a l] by (auto split: if_splits)
  show "hp_node (heap_node_swap p c st) a =
      \<lparr>hn_left = ?t (2 * j), hn_right = ?t (2 * j + 1), hn_parent = ?t (j div 2)\<rparr>" if "?t j = Some a" for j a
    by (rule swap_node_pos [OF h c p i that])
  have "t (i div 2) = None \<longleftrightarrow> i = 1" using heap_of_dom [OF h, of "i div 2"] ik(1,3) by auto
  moreover have "k \<noteq> 1" using ik by simp
  ultimately show "hp_min (heap_node_swap p c st) = ?t 1" using heap_of_min [OF h] by (simp add: sw(2))
qed (use h in \<open>simp_all add: heap_of_def swap_links_pos(3) [OF h c p i refl]\<close>)

lemmas heap_of_swap = heap_of_swap_at [OF _ _ _ refl]

subsection \<open>Finding a position\<close>

text \<open>The pointer that leads to a position: from its parent, or the root pointer.\<close>

definition slot_of :: "(nat \<rightharpoonup> addr) \<Rightarrow> nat \<Rightarrow> slot" where
  "slot_of t k = (if k \<le> 1 then Root
     else if even k then Left_of (the (t (k div 2))) else Right_of (the (t (k div 2))))"

definition parent_slot :: "(nat \<rightharpoonup> addr) \<Rightarrow> nat \<Rightarrow> slot" where
  "parent_slot t k = (if k \<le> 1 then Root else slot_of t (k div 2))"

lemma read_slot_of:
  assumes h: "heap_of st n t" and "1 \<le> k" "k \<le> n + 1"
  shows "read_slot (slot_of t k) st = t k"
proof (cases "k = 1")
  case True
  then show ?thesis using heap_of_min [OF h] by (simp add: slot_of_def read_slot_def)
next
  case False
  with assms(2,3) have "1 \<le> k div 2" "k div 2 \<le> n" by auto
  then obtain p where "t (k div 2) = Some p" using heap_of_dom [OF h, of "k div 2"] by auto
  then show ?thesis using False assms(2) heap_of_node [OF h, of "k div 2" p]
    by (auto simp: slot_of_def read_slot_def elim!: evenE oddE)
qed

lemma push_drop:
  fixes path n :: u32
  assumes "unat path < 2 ^ 31"
  shows "drop_bit 1 (push_bit 1 path OR (n AND 1)) = path"
    and "(push_bit 1 path OR (n AND 1)) AND 1 = n AND 1"
proof -
  have top: "\<not> bit path 31"
  proof
    assume "bit path 31"
    then have "bit (unat path) 31" by (simp add: bit_unsigned_iff)
    then have "odd (unat path div 2 ^ 31)" by (rule bit_iff_odd [THEN iffD1])
    with assms show False by simp
  qed
  show "drop_bit 1 (push_bit 1 path OR (n AND 1)) = path"
  proof (rule bit_word_eqI)
    fix i assume "i < LENGTH(32)"
    then show "bit (drop_bit 1 (push_bit 1 path OR (n AND 1))) i = bit path i"
      using top
      by (simp only: bit_drop_bit_eq comp_apply bit_or_iff bit_push_bit_iff bit_and_iff bit_1_iff)
        (cases "i = 31", auto)
  qed
  show "(push_bit 1 path OR (n AND 1)) AND 1 = n AND 1"
    by (rule bit_word_eqI) (auto simp only: bit_or_iff bit_push_bit_iff bit_and_iff bit_1_iff)
qed

lemma unat_push_path:
  fixes path n :: u32
  assumes "unat path < 2 ^ k" "k < 31"
  shows "unat (push_bit 1 path OR (n AND 1)) < 2 ^ (k + 1)"
proof -
  have *: "push_bit 1 path OR (n AND 1) = push_bit 1 path + (n AND 1)"
    by (rule disjunctive_add [symmetric]) (auto simp only: bit_push_bit_iff bit_and_iff bit_1_iff)
  have "2 ^ (k + 1) \<le> (2 :: nat) ^ 31" using assms(2) by (intro power_increasing) auto
  moreover have "unat (n AND 1) < 2" by (simp add: unat_and_low_bits [of n 1, simplified mask_1])
  moreover have "unat path * 2 + 2 \<le> 2 ^ (k + 1)" using assms(1) by simp
  moreover have "unat (push_bit 1 path) = unat path * 2"
    using unat_push_bit [of path 1] calculation by simp
  ultimately show ?thesis unfolding * by (subst unat_add_lt) auto
qed

declare path_loop.simps [simp del]

text \<open>Walking along the path of a number leads to the pointer for that position.\<close>

lemma walk_path:
  assumes h: "heap_of st n t"
  shows "path_loop m path k = (path', k') \<Longrightarrow> 1 \<le> m \<Longrightarrow> unat m \<le> n + 1 \<Longrightarrow> unat path < 2 ^ k \<Longrightarrow>
    unat m * 2 ^ k < 2 ^ 32 \<Longrightarrow>
    walk k' path' Root Root st = walk k path (parent_slot t (unat m)) (slot_of t (unat m)) st"
proof (induction m path k arbitrary: path' k' rule: path_loop.induct)
  case (1 m path k)
  show ?case
  proof (cases "2 \<le> m")
    case True
    have half: "unat (m div 2) = unat m div 2" by (simp add: unat_div)
    have m2: "2 \<le> unat m" using True by (simp add: word_le_nat_alt)
    then have small: "2 * (unat m div 2) \<le> unat m" "1 \<le> unat m div 2" by auto
    have "2 * 2 ^ k < (2 :: nat) ^ 32"
      using 1(6) m2 by (meson le_less_trans mult_le_mono1)
    then have "2 ^ (k + 1) < (2 :: nat) ^ 32" by simp
    then have k: "k < 31" by (simp only: power_strict_increasing_iff)
    then have path: "unat path < 2 ^ 31" using 1(5) by (meson less_le_trans one_le_numeral order.strict_implies_order power_increasing)
    let ?path = "push_bit 1 path OR (m AND 1)"
    have "unat m div 2 * 2 ^ (k + 1) \<le> unat m * 2 ^ k" using small by simp
    with 1(6) have "unat (m div 2) * 2 ^ (k + 1) < 2 ^ 32" by (simp only: half)
    then have "walk k' path' Root Root st =
        walk (k + 1) ?path (parent_slot t (unat m div 2)) (slot_of t (unat m div 2)) st"
      using True 1(1) [of path' k'] 1(2,4) small unat_push_path [OF 1(5) k]
      by (simp add: path_loop.simps [of m] half word_le_nat_alt)
    moreover have "read_slot (slot_of t (unat m div 2)) st = t (unat m div 2)"
      using 1(4) small by (intro read_slot_of [OF h]) auto
    moreover obtain a where a: "t (unat m div 2) = Some a"
      using heap_of_dom [OF h, of "unat m div 2"] small 1(4) by auto
    moreover have "m AND 1 \<noteq> 0 \<longleftrightarrow> odd (unat m)"
      using bit_unsigned_iff [where 'a = nat and w = m and n = 0] by (simp add: and_one_eq mod_2_eq_odd bit_0)
    ultimately show ?thesis
      using m2 push_drop [OF path, of m]
      by (simp add: slot_of_def parent_slot_def)
  next
    case False
    then have "m = 1" using 1(3) by (intro unsigned_word_eqI [where 'a = nat]) (simp add: word_le_nat_alt)
    moreover have "path' = path" "k' = k" using 1(2) False by (simp_all add: path_loop.simps [of m])
    ultimately show ?thesis by (simp add: slot_of_def parent_slot_def)
  qed
qed

subsection \<open>The algorithm on positions\<close>

definition swap_pos :: "nat \<Rightarrow> nat \<Rightarrow> (nat \<rightharpoonup> addr) \<Rightarrow> (nat \<rightharpoonup> addr)" where
  "swap_pos i k t = t(i := t k, k := t i)"

function up :: "heap_compare_fn \<Rightarrow> (nat \<rightharpoonup> addr) \<Rightarrow> nat \<Rightarrow> (nat \<rightharpoonup> addr)" where
  "up lt t k = (if 2 \<le> k \<and> lt (the (t k)) (the (t (k div 2))) then up lt (swap_pos (k div 2) k t) (k div 2) else t)"
  by pat_completeness auto
termination by (relation "measure (\<lambda>(_, _, k). k)") auto

definition smallest_pos :: "heap_compare_fn \<Rightarrow> nat \<Rightarrow> (nat \<rightharpoonup> addr) \<Rightarrow> nat \<Rightarrow> nat" where
  "smallest_pos lt n t k =
     (let m = (if 2 * k \<le> n \<and> lt (the (t (2 * k))) (the (t k)) then 2 * k else k)
      in if 2 * k + 1 \<le> n \<and> lt (the (t (2 * k + 1))) (the (t m)) then 2 * k + 1 else m)"

lemma smallest_pos_cases: "smallest_pos lt n t k = k \<or>
    (smallest_pos lt n t k = 2 * k \<and> 2 * k \<le> n) \<or> (smallest_pos lt n t k = 2 * k + 1 \<and> 2 * k + 1 \<le> n)"
  by (auto simp: smallest_pos_def Let_def)

function down :: "heap_compare_fn \<Rightarrow> nat \<Rightarrow> (nat \<rightharpoonup> addr) \<Rightarrow> nat \<Rightarrow> (nat \<rightharpoonup> addr) \<times> nat" where
  "down lt n t k = (let m = smallest_pos lt n t k
     in if m = k \<or> k = 0 then (t, k) else down lt n (swap_pos k m t) m)"
  by pat_completeness auto
termination
  by (relation "measure (\<lambda>(_, n, _, k). n - k)") (use smallest_pos_cases in \<open>fastforce+\<close>)

declare up.simps [simp del] down.simps [simp del]

lemma walk_up_refines:
  "heap_of st n t \<Longrightarrow> t k = Some a \<Longrightarrow> \<exists>st'. walk_up lt a st = Some st' \<and> heap_of st' n (up lt t k)"
proof (induction lt t k arbitrary: st rule: up.induct)
  case (1 lt t k)
  show ?case
  proof (cases "2 \<le> k")
    case True
    then have "1 \<le> k div 2" "k div 2 \<le> n"
      using heap_of_dom [OF 1(2), of k] 1(3) by auto
    then obtain p where p: "t (k div 2) = Some p" using heap_of_dom [OF 1(2), of "k div 2"] by auto
    have par: "hn_parent (hp_node st a) = Some p" using heap_of_node [OF 1(2,3)] p by simp
    show ?thesis
    proof (cases "lt a p")
      case True
      have "heap_of (heap_node_swap p a st) n (swap_pos (k div 2) k t)"
        using heap_of_swap [OF 1(2,3) p] 1(3) p by (simp add: swap_pos_def)
      moreover have "swap_pos (k div 2) k t (k div 2) = Some a"
        using 1(3) \<open>2 \<le> k\<close> by (simp add: swap_pos_def)
      ultimately show ?thesis
        using 1(1) [of "heap_node_swap p a st"] \<open>2 \<le> k\<close> 1(3) p par True
        by (simp add: walk_up.simps [of lt a st] up.simps [of lt t k])
    next
      case False
      then show ?thesis using 1(2,3) p par by (simp add: walk_up.simps [of lt a st] up.simps [of lt t k])
    qed
  next
    case False
    then have "k = 1" using heap_of_dom [OF 1(2), of k] 1(3) by auto
    then have "hn_parent (hp_node st a) = None"
      using heap_of_node [OF 1(2,3)] heap_of_dom [OF 1(2), of 0] by simp
    then show ?thesis using False 1(2) by (simp add: walk_up.simps [of lt a st] up.simps [of lt t k])
  qed
qed

lemma smallest_refines:
  assumes h: "heap_of st n t" and a: "t k = Some a"
  shows "t (smallest_pos lt n t k) = Some (smallest_of lt a st)"
proof -
  have "t j \<noteq> None \<longleftrightarrow> j \<le> n" if "1 \<le> j" for j using heap_of_dom [OF h, of j] that by auto
  moreover have "1 \<le> k" using heap_of_dom [OF h, of k] a by auto
  ultimately have "t (2 * k) \<noteq> None \<longleftrightarrow> 2 * k \<le> n" "t (2 * k + 1) \<noteq> None \<longleftrightarrow> 2 * k + 1 \<le> n" by simp_all
  then show ?thesis using heap_of_node [OF h a] a
    by (cases "t (2 * k)"; cases "t (2 * k + 1)") (auto simp: smallest_pos_def smallest_of_def Let_def)
qed

lemma walk_down_refines:
  "heap_of st n t \<Longrightarrow> t k = Some a \<Longrightarrow>
   \<exists>st'. walk_down lt a st = Some st' \<and> heap_of st' n (fst (down lt n t k)) \<and>
     fst (down lt n t k) (snd (down lt n t k)) = Some a"
proof (induction lt n t k arbitrary: st rule: down.induct)
  case (1 lt n t k)
  let ?m = "smallest_pos lt n t k" and ?s = "smallest_of lt a st"
  have m: "t ?m = Some ?s" by (rule smallest_refines [OF 1(2,3)])
  have k: "1 \<le> k" using heap_of_dom [OF 1(2), of k] 1(3) by auto
  show ?case
  proof (cases "?m = k")
    case True
    then have "?s = a" using m 1(3) by simp
    then show ?thesis using True 1(2,3)
      by (simp add: walk_down.simps [of lt a st] down.simps [of lt n t k] Let_def)
  next
    case False
    then have ne: "?s \<noteq> a" using m heap_of_eq [OF 1(2,3), of ?m] by auto
    have half: "?m div 2 = k" using smallest_pos_cases [of lt n t k] False by auto
    have "heap_of (heap_node_swap a ?s st) n (swap_pos k ?m t)"
      using heap_of_swap [OF 1(2) m] 1(3) m half by (simp add: swap_pos_def)
    moreover have "swap_pos k ?m t ?m = Some a" using 1(3) by (simp add: swap_pos_def)
    ultimately show ?thesis
      using 1(1) [OF refl, of "heap_node_swap a ?s st"] False ne k
      by (simp add: walk_down.simps [of lt a st] down.simps [of lt n t k] Let_def)
  qed
qed

subsection \<open>Adding and taking out the last position\<close>

lemma heap_ofI:
  assumes "\<And>k. t k \<noteq> None \<longleftrightarrow> 1 \<le> k \<and> k \<le> n" "\<And>j k a. t j = Some a \<Longrightarrow> t k = Some a \<Longrightarrow> j = k"
    "n < 2 ^ 32" "hp_nelts st = of_nat n" "hp_min st = t 1"
    "\<And>k a. t k = Some a \<Longrightarrow>
      hp_node st a = \<lparr>hn_left = t (2 * k), hn_right = t (2 * k + 1), hn_parent = t (k div 2)\<rparr>"
  shows "heap_of st n t"
  unfolding heap_of_def using assms by auto

lemma node_write_slot: "hp_node (write_slot s v st) a =
    (if s = Left_of a then hp_node st a\<lparr>hn_left := v\<rparr>
     else if s = Right_of a then hp_node st a\<lparr>hn_right := v\<rparr> else hp_node st a)"
  by (cases s) (auto simp: write_slot_def set_left_def set_right_def node_set_node)

lemma other_write_slot [simp]:
  "hp_min (write_slot s v st) = (if s = Root then v else hp_min st)" "hp_nelts (write_slot s v st) = hp_nelts st"
  by (cases s; simp add: write_slot_def)+

lemma slot_of_iffs:
  assumes h: "heap_of st n t" and "1 \<le> m" "m \<le> n + 1" and a: "t j = Some a"
  shows "slot_of t m = Left_of a \<longleftrightarrow> m = 2 * j" "slot_of t m = Right_of a \<longleftrightarrow> m = 2 * j + 1"
    "slot_of t m = Root \<longleftrightarrow> m = 1"
proof -
  have j: "1 \<le> j" using heap_of_dom [OF h, of j] a by auto
  have t: "the (t (m div 2)) = a \<longleftrightarrow> m div 2 = j" if "2 \<le> m"
  proof -
    have "t (m div 2) \<noteq> None" using heap_of_dom [OF h, of "m div 2"] that assms(3) by auto
    then show ?thesis using heap_of_eq [OF h a, of "m div 2"] by (cases "t (m div 2)") auto
  qed
  show "slot_of t m = Left_of a \<longleftrightarrow> m = 2 * j" "slot_of t m = Right_of a \<longleftrightarrow> m = 2 * j + 1"
    "slot_of t m = Root \<longleftrightarrow> m = 1"
    using t j assms(2) by (auto simp: slot_of_def)
qed

text \<open>A new node under the next free position.\<close>

lemma heap_of_link:
  assumes h: "heap_of st n t" and new: "a \<notin> ran t" and n: "n + 1 < 2 ^ 32"
    and node: "hp_node st a = \<lparr>hn_left = None, hn_right = None, hn_parent = t ((n + 1) div 2)\<rparr>"
  shows "heap_of (write_slot (slot_of t (n + 1)) (Some a) st\<lparr>hp_nelts := hp_nelts st + 1\<rparr>) (n + 1) (t(n + 1 \<mapsto> a))"
proof (rule heap_ofI)
  let ?st = "write_slot (slot_of t (n + 1)) (Some a) st\<lparr>hp_nelts := hp_nelts st + 1\<rparr>" and ?t = "t(n + 1 \<mapsto> a)"
  have none: "t j = None" if "j = 0 \<or> n < j" for j using heap_of_dom [OF h, of j] that by auto
  show "?t k \<noteq> None \<longleftrightarrow> 1 \<le> k \<and> k \<le> n + 1" for k using heap_of_dom [OF h, of k] by auto
  show "j = k" if "?t j = Some b" "?t k = Some b" for j k b
    using that new heap_of_inj [OF h, of j b k] by (auto simp: ran_def split: if_splits)
  show "hp_nelts ?st = of_nat (n + 1)" using heap_of_nelts [OF h] by simp
  show "hp_min ?st = ?t 1"
    using heap_of_min [OF h] by (auto simp: slot_of_def)
  show "hp_node ?st b = \<lparr>hn_left = ?t (2 * k), hn_right = ?t (2 * k + 1), hn_parent = ?t (k div 2)\<rparr>"
    if "?t k = Some b" for k b
  proof (cases "k = n + 1")
    case True
    then have b: "b = a" using that by simp
    have "the (t ((n + 1) div 2)) \<noteq> a" if "0 < n"
      using new heap_of_dom [OF h, of "(n + 1) div 2"] that by (cases "t ((n + 1) div 2)") (auto simp: ran_def)
    then have "slot_of t (n + 1) \<noteq> Left_of a" "slot_of t (n + 1) \<noteq> Right_of a" by (auto simp: slot_of_def)
    then show ?thesis using node True by (auto simp: b node_write_slot none)
  next
    case False
    then have b: "t k = Some b" using that by simp
    then show ?thesis using slot_of_iffs [OF h _ _ b, of "n + 1"] heap_of_node [OF h b] heap_of_dom [OF h, of k] none
      by (auto simp: node_write_slot)
  qed
qed (fact n)

lemma heap_of_unlink:
  assumes h: "heap_of st n t" and n: "1 \<le> n"
  shows "heap_of (write_slot (slot_of t n) None (st\<lparr>hp_nelts := hp_nelts st - 1\<rparr>)) (n - 1) (t(n := None))"
proof (rule heap_ofI)
  let ?st = "write_slot (slot_of t n) None (st\<lparr>hp_nelts := hp_nelts st - 1\<rparr>)" and ?t = "t(n := None)"
  show "?t k \<noteq> None \<longleftrightarrow> 1 \<le> k \<and> k \<le> n - 1" for k using heap_of_dom [OF h, of k] by auto
  show "j = k" if "?t j = Some b" "?t k = Some b" for j k b
    using that heap_of_inj [OF h, of j b k] by (auto split: if_splits)
  show "n - 1 < 2 ^ 32" using heap_of_small [OF h] by simp
  show "hp_nelts ?st = of_nat (n - 1)" using heap_of_nelts [OF h] n by (simp add: of_nat_diff)
  show "hp_min ?st = ?t 1" using heap_of_min [OF h] n by (auto simp: slot_of_def)
  show "hp_node ?st b = \<lparr>hn_left = ?t (2 * k), hn_right = ?t (2 * k + 1), hn_parent = ?t (k div 2)\<rparr>"
    if "?t k = Some b" for k b
  proof -
    from that have b: "t k = Some b" and "k \<noteq> n" by (auto split: if_splits)
    then have "k < n" using heap_of_dom [OF h, of k] by auto
    then have "k div 2 \<noteq> n" by auto
    then show ?thesis using slot_of_iffs [OF h n _ b] heap_of_node [OF h b] by (simp add: node_write_slot)
  qed
qed

text \<open>The links after another node has taken the place of one.\<close>

lemma take_place_links:
  fixes st :: heap_store and x c :: addr
  defines "X \<equiv> hp_node st x"
  assumes "x \<noteq> c" "hn_left X \<notin> {Some x, Some c}" "hn_right X \<notin> {Some x, Some c}" "hn_parent X \<noteq> Some c"
  shows "a \<noteq> x \<Longrightarrow> hp_node (take_place x c st) a =
      (if a = c then X
       else let A = hp_node st a in
         \<lparr>hn_left = (if hn_parent X = Some a \<and> hn_left A = Some x then Some c else hn_left A),
          hn_right = (if hn_parent X = Some a \<and> hn_left A \<noteq> Some x then Some c else hn_right A),
          hn_parent = (if hn_left X = Some a \<or> hn_right X = Some a then Some c else hn_parent A)\<rparr>)"
    and "hp_min (take_place x c st) = (if hn_parent X = None then Some c else hp_min st)"
    and "hp_nelts (take_place x c st) = hp_nelts st"
proof -
  define st1 where "st1 = set_parent c (hn_parent X) (set_right c (hn_right X) (set_left c (hn_left X) st))"
  have n1: "hp_node st1 b = (if b = c then X else hp_node st b)" for b
    by (simp add: st1_def set_parent_def set_right_def set_left_def node_set_node)
  define st2 where "st2 = adopt (hn_right X) c (adopt (hn_left X) c st1)"
  have n2: "hp_node st2 b = (if b = c then X else if hn_left X = Some b \<or> hn_right X = Some b
      then hp_node st b\<lparr>hn_parent := Some c\<rparr> else hp_node st b)" for b
    using assms by (auto simp: st2_def node_adopt n1)
  have e: "take_place x c st = replace_child (hn_parent X) x c st2"
  proof -
    have keep: "hp_node (set_left c v s) x = hp_node s x" "hp_node (set_right c v s) x = hp_node s x" for v s
      using assms by (simp_all add: set_left_def set_right_def node_set_node)
    have "take_place x c st =
        (let st = adopt (hn_left (hp_node st1 c)) c st1; st = adopt (hn_right (hp_node st c)) c st
         in replace_child (hn_parent (hp_node st x)) x c st)"
      unfolding take_place_def Let_def keep X_def [symmetric] st1_def [symmetric] ..
    also have "\<dots> = replace_child (hn_parent (hp_node st2 x)) x c st2"
      using assms by (simp add: Let_def st2_def node_adopt n1)
    finally have "take_place x c st = replace_child (hn_parent (hp_node st2 x)) x c st2" .
    then show ?thesis using assms by (simp add: n2)
  qed
  show "hp_min (take_place x c st) = (if hn_parent X = None then Some c else hp_min st)"
    "hp_nelts (take_place x c st) = hp_nelts st"
    by (simp_all add: e st2_def st1_def)
  show "hp_node (take_place x c st) a =
      (if a = c then X
       else let A = hp_node st a in
         \<lparr>hn_left = (if hn_parent X = Some a \<and> hn_left A = Some x then Some c else hn_left A),
          hn_right = (if hn_parent X = Some a \<and> hn_left A \<noteq> Some x then Some c else hn_right A),
          hn_parent = (if hn_left X = Some a \<or> hn_right X = Some a then Some c else hn_parent A)\<rparr>)"
    if "a \<noteq> x"
    using assms that unfolding e node_replace_child Let_def by (simp add: n2)
qed

lemma heap_of_take_place:
  assumes h: "heap_of st n t" and x: "t k = Some x" and c: "c \<notin> ran t"
  shows "heap_of (take_place x c st) n (t(k \<mapsto> c))"
proof -
  define t' where "t' = t(k \<mapsto> c)"
  have free: "t j \<noteq> Some c" for j using c by (auto simp: ran_def)
  have k: "1 \<le> k" using heap_of_dom [OF h, of k] x by auto
  note X = heap_of_node [OF h x] and E = heap_of_eq [OF h x]
  have "x \<noteq> c" using free x by metis
  then have side: "x \<noteq> c" "hn_left (hp_node st x) \<notin> {Some x, Some c}"
    "hn_right (hp_node st x) \<notin> {Some x, Some c}" "hn_parent (hp_node st x) \<noteq> Some c"
    using k free by (auto simp: X E)
  note l = take_place_links [OF side, unfolded X heap_node.simps]
  have "heap_of (take_place x c st) n t'"
  proof (rule heap_ofI)
    show "t' j \<noteq> None \<longleftrightarrow> 1 \<le> j \<and> j \<le> n" for j using heap_of_dom [OF h, of j] x by (auto simp: t'_def)
    show "i = j" if "t' i = Some b" "t' j = Some b" for i j b
      using that free heap_of_inj [OF h, of i b j] by (auto simp: t'_def split: if_splits)
    show "hp_min (take_place x c st) = t' 1"
      using heap_of_dom [OF h, of "k div 2"] heap_of_dom [OF h, of k] x k heap_of_min [OF h]
      by (cases "k = 1") (auto simp: l t'_def)
    show "hp_node (take_place x c st) b =
        \<lparr>hn_left = t' (2 * j), hn_right = t' (2 * j + 1), hn_parent = t' (j div 2)\<rparr>" if "t' j = Some b" for j b
    proof (cases "j = k")
      case True
      then have "b = c" using that by (simp add: t'_def)
      moreover have "k div 2 < k" using k by simp
      ultimately show ?thesis using True side(1) l(1) [of c] by (simp add: t'_def)
    next
      case False
      then have b: "t j = Some b" using that by (simp add: t'_def)
      note B = heap_of_node [OF h b] and F = heap_of_eq [OF h b]
      have ne: "b \<noteq> x" "b \<noteq> c" using b False E free by auto
      have "t (k div 2) = Some b \<and> t (2 * j) = Some x \<longleftrightarrow> 2 * j = k"
        "t (k div 2) = Some b \<and> t (2 * j) \<noteq> Some x \<longleftrightarrow> 2 * j + 1 = k"
        "t (2 * k) = Some b \<or> t (2 * k + 1) = Some b \<longleftrightarrow> j div 2 = k"
        using k by (auto simp: F E)
      then show ?thesis using ne by (auto simp: l(1) B t'_def Let_def)
    qed
  qed (use heap_of_small [OF h] heap_of_nelts [OF h] in \<open>simp_all add: l\<close>)
  then show ?thesis by (simp add: t'_def)
qed

subsection \<open>The order of the heap\<close>

definition heap_ord :: "heap_compare_fn \<Rightarrow> (nat \<rightharpoonup> addr) \<Rightarrow> bool" where
  "heap_ord lt t \<longleftrightarrow> (\<forall>k a p. 2 \<le> k \<longrightarrow> t k = Some a \<longrightarrow> t (k div 2) = Some p \<longrightarrow> \<not> lt a p)"

text \<open>Ordered but for the node at \<open>k\<close> and its parent; ordered but for the node at \<open>k\<close>, its parent and its
  children. In both, the children of \<open>k\<close> are not below the parent of \<open>k\<close>.\<close>

definition over_parent :: "heap_compare_fn \<Rightarrow> (nat \<rightharpoonup> addr) \<Rightarrow> nat \<Rightarrow> bool" where
  "over_parent lt t k \<longleftrightarrow> (\<forall>j a p. j div 2 = k \<longrightarrow> 2 \<le> k \<longrightarrow> t j = Some a \<longrightarrow> t (k div 2) = Some p \<longrightarrow> \<not> lt a p)"

definition ord_but_up :: "heap_compare_fn \<Rightarrow> (nat \<rightharpoonup> addr) \<Rightarrow> nat \<Rightarrow> bool" where
  "ord_but_up lt t k \<longleftrightarrow> over_parent lt t k \<and>
     (\<forall>j a p. 2 \<le> j \<longrightarrow> j \<noteq> k \<longrightarrow> t j = Some a \<longrightarrow> t (j div 2) = Some p \<longrightarrow> \<not> lt a p)"

definition ord_but_down :: "heap_compare_fn \<Rightarrow> (nat \<rightharpoonup> addr) \<Rightarrow> nat \<Rightarrow> bool" where
  "ord_but_down lt t k \<longleftrightarrow> over_parent lt t k \<and>
     (\<forall>j a p. 2 \<le> j \<longrightarrow> j \<noteq> k \<longrightarrow> j div 2 \<noteq> k \<longrightarrow> t j = Some a \<longrightarrow> t (j div 2) = Some p \<longrightarrow> \<not> lt a p)"

locale heap_order =
  fixes lt :: "addr \<Rightarrow> addr \<Rightarrow> bool"
  assumes lt_asym: "lt a b \<Longrightarrow> \<not> lt b a"
    and lt_neg_trans: "\<not> lt a b \<Longrightarrow> \<not> lt b c \<Longrightarrow> \<not> lt a c"
begin

lemma up_step:
  assumes u: "ord_but_up lt t k" and a: "t k = Some a" and p: "t (k div 2) = Some p" and k: "2 \<le> k" and lt: "lt a p"
  shows "ord_but_up lt (swap_pos (k div 2) k t) (k div 2)"
proof -
  define i where "i = k div 2"
  define t' where "t' = swap_pos i k t"
  have i: "1 \<le> i" "i < k" "i div 2 < i" using k by (auto simp: i_def)
  have t': "t' j = (if j = k then Some p else if j = i then Some a else t j)" for j
    using i a p by (auto simp: t'_def swap_pos_def i_def)
  have ok: "\<not> lt b q" if "2 \<le> j" "j \<noteq> k" "t j = Some b" "t (j div 2) = Some q" for j b q
    using u that by (auto simp: ord_but_up_def)
  have over: "\<not> lt b p" if "j div 2 = k" "t j = Some b" for j b
    using u that k p by (auto simp: ord_but_up_def over_parent_def)
  have pa: "\<not> lt p a" by (rule lt_asym [OF lt])
  have under: "\<not> lt b p" if "2 \<le> j" "j \<noteq> k" "j div 2 = i" "t j = Some b" for j b
    using ok [OF that(1,2,4)] that(3) p by (simp add: i_def)
  have "over_parent lt t' i"
    unfolding over_parent_def
  proof (intro allI impI)
    fix j b g assume j: "j div 2 = i" "2 \<le> i" "t' j = Some b" "t' (i div 2) = Some g"
    then have g: "t (i div 2) = Some g" and "2 \<le> j" "j \<noteq> i" using i by (auto simp: t' split: if_splits)
    have pg: "\<not> lt p g" using ok [of i p g] j(2) i p g by (auto simp: i_def)
    show "\<not> lt b g"
    proof (cases "j = k")
      case True
      then show ?thesis using j(3) pg by (simp add: t')
    next
      case False
      then have "t j = Some b" using j(3) \<open>j \<noteq> i\<close> by (simp add: t')
      then show ?thesis using under [of j b] False j(1) \<open>2 \<le> j\<close> pg lt_neg_trans by blast
    qed
  qed
  moreover have "\<not> lt b q" if j: "2 \<le> j" "j \<noteq> i" "t' j = Some b" "t' (j div 2) = Some q" for j b q
  proof -
    have "j div 2 \<noteq> j" using j(1) by auto
    consider "j = k" | "j \<noteq> k" "j div 2 = i" | "j \<noteq> k" "j div 2 = k" | "j \<noteq> k" "j div 2 \<noteq> i" "j div 2 \<noteq> k" by blast
    then show ?thesis
    proof cases
      case 1
      then show ?thesis using j pa i by (simp add: t' i_def [symmetric])
    next
      case 2
      then show ?thesis using j i under [of j b] pa lt_neg_trans [of b p a] by (simp add: t')
    next
      case 3
      then show ?thesis using j over [of j b] by (simp add: t')
    next
      case 4
      then show ?thesis using j ok [of j b q] by (simp add: t')
    qed
  qed
  ultimately show ?thesis unfolding ord_but_up_def t'_def i_def by blast
qed

lemma up_ord: "ord_but_up lt t k \<Longrightarrow> (\<And>j. t j \<noteq> None \<longleftrightarrow> 1 \<le> j \<and> j \<le> n) \<Longrightarrow> t k \<noteq> None \<Longrightarrow> heap_ord lt (up lt t k)"
proof (induction k arbitrary: t rule: less_induct)
  case (less k)
  show ?case
  proof (cases "2 \<le> k \<and> lt (the (t k)) (the (t (k div 2)))")
    case True
    obtain a where a: "t k = Some a" using less.prems(3) by auto
    have "t (k div 2) \<noteq> None" using less.prems(2) [of "k div 2"] less.prems(2) [of k] True a by auto
    then obtain p where p: "t (k div 2) = Some p" by auto
    let ?t = "swap_pos (k div 2) k t"
    have "ord_but_up lt ?t (k div 2)" using up_step [OF less.prems(1) a p] True a p by simp
    moreover have "?t j \<noteq> None \<longleftrightarrow> 1 \<le> j \<and> j \<le> n" for j
      using less.prems(2) [of j] a p by (auto simp: swap_pos_def)
    moreover have "?t (k div 2) \<noteq> None" using a True by (auto simp: swap_pos_def)
    ultimately show ?thesis using less.IH [of "k div 2" ?t] True by (simp add: up.simps [of lt t k])
  next
    case False
    then have "\<not> lt a p" if "2 \<le> k" "t k = Some a" "t (k div 2) = Some p" for a p using that by auto
    then have "heap_ord lt t" using less.prems(1) unfolding heap_ord_def ord_but_up_def by blast
    moreover have "up lt t k = t" using False by (subst up.simps) auto
    ultimately show ?thesis by simp
  qed
qed

lemma smallest_least:
  assumes k: "t k = Some a" and j: "j div 2 = k" "j \<le> n" "t j = Some b"
    and m: "t (smallest_pos lt n t k) = Some c"
  shows "\<not> lt b c"
proof -
  have refl: "\<not> lt x x" for x using lt_asym by blast
  define m1 where "m1 = (if 2 * k \<le> n \<and> lt (the (t (2 * k))) (the (t k)) then 2 * k else k)"
  have sm: "smallest_pos lt n t k =
      (if 2 * k + 1 \<le> n \<and> lt (the (t (2 * k + 1))) (the (t m1)) then 2 * k + 1 else m1)"
    by (simp add: smallest_pos_def m1_def Let_def)
  have xc: "\<not> lt (the (t m1)) c" using m refl lt_asym by (auto simp: sm split: if_splits)
  consider "j = 2 * k" | "j = 2 * k + 1" using j(1) by linarith
  then show ?thesis
  proof cases
    case 1
    then have "\<not> lt b (the (t m1))" using j k refl by (auto simp: m1_def)
    then show ?thesis using xc lt_neg_trans by blast
  next
    case 2
    then show ?thesis using j m refl by (auto simp: sm split: if_splits)
  qed
qed

lemma down_step:
  assumes d: "ord_but_down lt t k" and k: "t k = Some a" "1 \<le> k"
    and m: "m = smallest_pos lt n t k" "m \<noteq> k" "t m = Some c" and dom: "\<And>j. t j \<noteq> None \<longleftrightarrow> 1 \<le> j \<and> j \<le> n"
  shows "ord_but_down lt (swap_pos k m t) m"
proof -
  have mk: "m div 2 = k" "k < m" "2 \<le> m" using smallest_pos_cases [of lt n t k] m k(2) by auto
  define t' where "t' = swap_pos k m t"
  have t': "t' j = (if j = m then Some a else if j = k then Some c else t j)" for j
    using k m mk by (auto simp: t'_def swap_pos_def)
  have ok: "\<not> lt b q" if "2 \<le> j" "j \<noteq> k" "j div 2 \<noteq> k" "t j = Some b" "t (j div 2) = Some q" for j b q
    using d that by (auto simp: ord_but_down_def)
  have over: "\<not> lt c q" if "2 \<le> k" "t (k div 2) = Some q" for q
    using d that mk m by (auto simp: ord_but_down_def over_parent_def)
  have "over_parent lt t' m"
    unfolding over_parent_def
  proof (intro allI impI)
    fix j b q assume j: "j div 2 = m" "t' j = Some b" "t' (m div 2) = Some q"
    then have "2 \<le> j" "j \<noteq> k" "j \<noteq> m" "q = c" using mk by (auto simp: t')
    then show "\<not> lt b q" using ok [of j b c] j mk m(3) by (auto simp: t')
  qed
  moreover have "\<not> lt b q" if j: "2 \<le> j" "j \<noteq> m" "j div 2 \<noteq> m" "t' j = Some b" "t' (j div 2) = Some q" for j b q
  proof -
    consider "j = k" | "j \<noteq> k" "j div 2 = k" | "j \<noteq> k" "j div 2 \<noteq> k" by blast
    then show ?thesis
    proof cases
      case 1
      moreover have "k div 2 \<noteq> k" using k(2) by auto
      ultimately show ?thesis using j over [of q] mk by (auto simp: t')
    next
      case 2
      then have b: "t j = Some b" "q = c" using j mk by (auto simp: t')
      moreover have "j \<le> n" using dom [of j] b(1) by auto
      ultimately show ?thesis using smallest_least [OF k(1) 2(2) _ b(1)] m by auto
    next
      case 3
      then show ?thesis using j ok [of j b q] by (auto simp: t')
    qed
  qed
  ultimately show ?thesis unfolding ord_but_down_def t'_def by blast
qed

lemma down_ord:
  "ord_but_down lt t k \<Longrightarrow> (\<And>j. t j \<noteq> None \<longleftrightarrow> 1 \<le> j \<and> j \<le> n) \<Longrightarrow> t k = Some a \<Longrightarrow>
   ord_but_up lt (fst (down lt n t k)) (snd (down lt n t k))"
proof (induction "n - k" arbitrary: t k rule: less_induct)
  case less
  let ?m = "smallest_pos lt n t k"
  have k: "1 \<le> k" using less.prems(2) [of k] less.prems(3) by auto
  have tm: "t ?m \<noteq> None" using less.prems(2) [of ?m] less.prems(2) [of k] less.prems(3)
      smallest_pos_cases [of lt n t k] by auto
  show ?case
  proof (cases "?m = k")
    case True
    have "\<not> lt b p" if "2 \<le> j" "j div 2 = k" "t j = Some b" "t (j div 2) = Some p" for j b p
      using smallest_least [OF less.prems(3) that(2) _ that(3)] less.prems(2) [of j] True that less.prems(3) by auto
    then have "ord_but_up lt t k" using less.prems(1) unfolding ord_but_down_def ord_but_up_def by blast
    then show ?thesis using True by (simp add: down.simps [of lt n t k] Let_def)
  next
    case False
    have "k < ?m" "?m \<le> n" using smallest_pos_cases [of lt n t k] False k by auto
    moreover obtain c where c: "t ?m = Some c" using tm by auto
    moreover have "swap_pos k ?m t ?m = Some a" using less.prems(3) by (simp add: swap_pos_def)
    moreover have "swap_pos k ?m t j \<noteq> None \<longleftrightarrow> 1 \<le> j \<and> j \<le> n" for j
      using less.prems(2) [of j] less.prems(3) c by (auto simp: swap_pos_def)
    ultimately show ?thesis
      using less.hyps [of ?m "swap_pos k ?m t"] False k
        down_step [OF less.prems(1,3) k refl False c less.prems(2)]
      by (simp add: down.simps [of lt n t k] Let_def)
  qed
qed

lemma heap_ord_least:
  assumes o: "heap_ord lt t" and dom: "\<And>j. t j \<noteq> None \<longleftrightarrow> 1 \<le> j \<and> j \<le> n" and r: "t 1 = Some r"
  shows "t k = Some a \<Longrightarrow> \<not> lt a r"
proof (induction k arbitrary: a rule: less_induct)
  case (less k)
  show ?case
  proof (cases "k = 1")
    case True
    then show ?thesis using less.prems r lt_asym [of a a] by auto
  next
    case False
    then have k: "2 \<le> k" using dom [of k] less.prems by auto
    have "t (k div 2) \<noteq> None" using k dom [of k] dom [of "k div 2"] less.prems by auto
    then obtain p where p: "t (k div 2) = Some p" by auto
    have "\<not> lt p r" using less.IH [of "k div 2" p] p k by simp
    moreover have "\<not> lt a p" using o k p less.prems by (auto simp: heap_ord_def)
    ultimately show ?thesis using lt_neg_trans by blast
  qed
qed

end

lemma ran_swap_pos [simp]: "ran (swap_pos i k t) = ran t"
  by (auto simp: swap_pos_def ran_def split: if_splits) metis+

lemma ran_up [simp]: "ran (up lt t k) = ran t"
  by (induction lt t k rule: up.induct) (subst up.simps, auto)

lemma ran_down [simp]: "ran (fst (down lt n t k)) = ran t"
  by (induction lt n t k rule: down.induct) (subst down.simps, simp add: Let_def)

text \<open>The heap as a priority queue: the store holds the nodes of a set in the order of the comparison.\<close>

definition heap_holds :: "heap_compare_fn \<Rightarrow> heap_store \<Rightarrow> addr set \<Rightarrow> bool" where
  "heap_holds lt st S \<longleftrightarrow> (\<exists>n t. heap_of st n t \<and> heap_ord lt t \<and> ran t = S)"

lemma heap_of_card: "heap_of st n t \<Longrightarrow> card (ran t) = n \<and> finite (ran t)"
proof -
  assume h: "heap_of st n t"
  have "ran t = (\<lambda>k. the (t k)) ` {1..n}"
  proof (intro equalityI subsetI)
    fix a assume "a \<in> ran t"
    then obtain k where "t k = Some a" by (auto simp: ran_def)
    then show "a \<in> (\<lambda>k. the (t k)) ` {1..n}" using heap_of_dom [OF h, of k] by (intro image_eqI [of _ _ k]) auto
  next
    fix a assume "a \<in> (\<lambda>k. the (t k)) ` {1..n}"
    then obtain k where k: "a = the (t k)" "1 \<le> k \<and> k \<le> n" by auto
    then have "t k \<noteq> None" using heap_of_dom [OF h, of k] by simp
    then show "a \<in> ran t" using k(1) by (auto intro: ranI)
  qed
  moreover have "inj_on (\<lambda>k. the (t k)) {1..n}"
    using heap_of_dom [OF h] heap_of_inj [OF h] by (intro inj_onI) (metis atLeastAtMost_iff option.collapse)
  ultimately show ?thesis by (simp add: card_image)
qed

lemma heap_of_ran_del:
  assumes "heap_of st n t" "t k = Some a"
  shows "ran (t(k := None)) = ran t - {a}" and "ran (t(k \<mapsto> c)) = insert c (ran t - {a})"
proof -
  have *: "(\<exists>j. j \<noteq> k \<and> t j = Some x) \<longleftrightarrow> x \<in> ran t - {a}" for x
    using heap_of_eq [OF assms] assms(2) by (auto simp: ran_def) (metis option.inject)
  have "ran (t(k := None)) = {x. \<exists>j. j \<noteq> k \<and> t j = Some x}"
    "ran (t(k \<mapsto> c)) = insert c {x. \<exists>j. j \<noteq> k \<and> t j = Some x}"
    by (auto simp: ran_def split: if_splits)
  then show "ran (t(k := None)) = ran t - {a}" "ran (t(k \<mapsto> c)) = insert c (ran t - {a})"
    unfolding * by auto
qed

lemma heap_of_frame: "heap_of st n t \<Longrightarrow> a \<notin> ran t \<Longrightarrow> heap_of (set_node a v st) n t"
  by (auto simp: heap_of_def node_set_node ran_def)

lemma walk_to:
  assumes h: "heap_of st n t" and m: "unat m \<le> n + 1" "1 \<le> m" and "path_loop m 0 0 = (path, k)"
  shows "walk k path Root Root st = Done (parent_slot t (unat m), slot_of t (unat m))"
  using walk_path [OF h assms(4) m(2,1)] unsigned_less [of m] by simp

lemma read_parent_slot: "heap_of st n t \<Longrightarrow> read_slot (parent_slot t (n + 1)) st = t ((n + 1) div 2)"
  using read_slot_of [of st n t "(n + 1) div 2"] heap_of_dom [of st n t 1] heap_of_dom [of st n t 0]
  by (cases "n = 0") (auto simp: parent_slot_def read_slot_def heap_of_min)

lemma heap_remove_unfold:
  assumes h: "heap_of st n t" and c: "t n = Some c"
  defines "st1 \<equiv> write_slot (slot_of t n) None (st\<lparr>hp_nelts := hp_nelts st - 1\<rparr>)"
  shows "heap_remove lt x st = (if c = x then Done (if Some c = hp_min st1 then st1\<lparr>hp_min := None\<rparr> else st1)
    else c_bind (loop_end (walk_down lt c (take_place x c st1))) (\<lambda>st. loop_end (walk_up lt c st)))"
proof -
  have n: "1 \<le> n" using heap_of_dom [OF h, of n] c by auto
  have m: "unat (hp_nelts st) = n"
    using heap_of_nelts [OF h] heap_of_small [OF h] unat_of_nat_lt [of n, where 'a = 32] by simp
  have ne: "hp_nelts st \<noteq> 0" using m n by (metis not_one_le_zero unat_0)
  obtain path j where path: "path_loop (hp_nelts st) 0 0 = (path, j)" by fastforce
  have "1 \<le> hp_nelts st" using m n by (simp add: word_le_nat_alt)
  then have w: "walk j path Root Root st = Done (parent_slot t n, slot_of t n)"
    using walk_to [OF h _ _ path] m by simp
  have read: "read_slot (slot_of t n) (st\<lparr>hp_nelts := hp_nelts st - 1\<rparr>) = Some c"
    using read_slot_of [OF h, of n] n c by (simp add: read_slot_def cong: slot.case_cong)
  show ?thesis
    unfolding heap_remove_def Let_def path prod.case w c_bind.simps read option.case st1_def [symmetric]
    using ne by simp
qed

context heap_order
begin

lemma insert_holds:
  assumes "heap_holds lt st S" and a: "a \<notin> S" and S: "card S + 1 < 2 ^ 32"
  shows "\<exists>st'. heap_insert lt a st = Done st' \<and> heap_holds lt st' (insert a S)"
proof -
  obtain n t where h: "heap_of st n t" and o: "heap_ord lt t" and r: "ran t = S"
    using assms(1) by (auto simp: heap_holds_def)
  have n: "n + 1 < 2 ^ 32" using S heap_of_card [OF h] r by simp
  define st1 where "st1 = set_node a \<lparr>hn_left = None, hn_right = None, hn_parent = None\<rparr> st"
  have h1: "heap_of st1 n t" unfolding st1_def using h a r by (auto intro: heap_of_frame)
  obtain path k where path: "path_loop (1 + hp_nelts st1) 0 0 = (path, k)" by fastforce
  have m: "unat (1 + hp_nelts st1) = n + 1"
    using heap_of_nelts [OF h1] n unat_of_nat_lt [of "n + 1", where 'a = 32] by simp
  have "1 + hp_nelts st1 \<noteq> 0" using m by (metis add_is_0 one_neq_zero unat_0)
  then have "1 \<le> 1 + hp_nelts st1" by (simp add: word_le_nat_alt m)
  then have w: "walk k path Root Root st1 = Done (parent_slot t (n + 1), slot_of t (n + 1))"
    using walk_to [OF h1 _ _ path] m by simp
  define st2 where "st2 = set_parent a (t ((n + 1) div 2)) st1"
  have h2: "heap_of st2 n t" unfolding st2_def set_parent_def using h1 a r by (auto intro: heap_of_frame)
  define st3 where "st3 = write_slot (slot_of t (n + 1)) (Some a) st2\<lparr>hp_nelts := hp_nelts st2 + 1\<rparr>"
  let ?t = "t(n + 1 \<mapsto> a)"
  have h3: "heap_of st3 (n + 1) ?t"
    unfolding st3_def using h2 a r n by (intro heap_of_link) (simp_all add: st2_def st1_def set_parent_def node_set_node)
  obtain st4 where st4: "walk_up lt a st3 = Some st4" and h4: "heap_of st4 (n + 1) (up lt ?t (n + 1))"
    using walk_up_refines [OF h3, of "n + 1" a lt] by auto
  have "t j = None" if "n < j" for j using heap_of_dom [OF h, of j] that by auto
  then have "ord_but_up lt ?t (n + 1)"
    using o by (auto simp: ord_but_up_def over_parent_def heap_ord_def split: if_splits)
  then have "heap_ord lt (up lt ?t (n + 1))"
    using heap_of_dom [OF h3] by (intro up_ord [of ?t "n + 1" "n + 1"]) auto
  moreover have "ran ?t = insert a S" using heap_of_dom [OF h, of "n + 1"] r by (simp add: ran_map_upd)
  moreover have "heap_insert lt a st = Done st4"
    unfolding heap_insert_def Let_def st1_def [symmetric] path prod.case w c_bind.simps read_parent_slot [OF h1]
      st2_def [symmetric]
    using st4 by (simp add: st3_def loop_end_def)
  ultimately show ?thesis using h4 unfolding heap_holds_def by (metis ran_up)
qed

lemma remove_ord:
  assumes o: "heap_ord lt t" and x: "t k = Some x" and dom: "\<And>j. t j \<noteq> None \<longleftrightarrow> 1 \<le> j \<and> j \<le> n"
  shows "ord_but_down lt (t(n := None, k \<mapsto> c)) k"
proof -
  have ok: "\<not> lt b q" if "2 \<le> j" "t j = Some b" "t (j div 2) = Some q" for j b q
    using o that by (auto simp: heap_ord_def)
  let ?t = "t(n := None, k \<mapsto> c)"
  have t: "t j = Some b" if "?t j = Some b" "j \<noteq> k" for j b using that by (auto split: if_splits)
  have "over_parent lt ?t k"
    unfolding over_parent_def
  proof (intro allI impI)
    fix j b p assume j: "j div 2 = k" "2 \<le> k" "?t j = Some b" "?t (k div 2) = Some p"
    then have "2 \<le> j" "j \<noteq> k" "k div 2 \<noteq> k" by auto
    then have "t j = Some b" "t (k div 2) = Some p" using j t by auto
    then have "\<not> lt b x" "\<not> lt x p" using ok [of j b x] ok [of k x p] j(1,2) x \<open>2 \<le> j\<close> by auto
    then show "\<not> lt b p" by (rule lt_neg_trans)
  qed
  moreover have "\<not> lt b q" if "2 \<le> j" "j \<noteq> k" "j div 2 \<noteq> k" "?t j = Some b" "?t (j div 2) = Some q" for j b q
    using ok [of j b q] t that by blast
  ultimately show ?thesis unfolding ord_but_down_def by blast
qed

lemma remove_holds:
  assumes "heap_holds lt st S" and x: "x \<in> S"
  shows "\<exists>st'. heap_remove lt x st = Done st' \<and> heap_holds lt st' (S - {x})"
proof -
  obtain n t where h: "heap_of st n t" and o: "heap_ord lt t" and r: "ran t = S"
    using assms(1) by (auto simp: heap_holds_def)
  obtain k where k: "t k = Some x" using x r by (auto simp: ran_def)
  have kn: "1 \<le> k" "k \<le> n" using heap_of_dom [OF h, of k] k by auto
  obtain c where c: "t n = Some c" using heap_of_dom [OF h, of n] kn by auto
  define st1 where "st1 = write_slot (slot_of t n) None (st\<lparr>hp_nelts := hp_nelts st - 1\<rparr>)"
  let ?t = "t(n := None)"
  have h1: "heap_of st1 (n - 1) ?t" unfolding st1_def using kn by (intro heap_of_unlink [OF h]) simp
  have ran1: "ran ?t = S - {c}" using heap_of_ran_del [OF h c] r by simp
  then have cfree: "c \<notin> ran ?t" by simp
  have "c \<in> S" using c r by (auto simp: ran_def)
  note e = heap_remove_unfold [OF h c, where lt = lt and x = x, folded st1_def]
  show ?thesis
  proof (cases "c = x")
    case True
    have "hp_min st1 \<noteq> Some c" using heap_of_min [OF h1] cfree by (auto simp: ran_def split: if_splits)
    moreover have "heap_ord lt ?t" using o by (auto simp: heap_ord_def split: if_splits)
    ultimately show ?thesis using e h1 ran1 True unfolding heap_holds_def by auto
  next
    case False
    have kn1: "k \<noteq> n" using False c k by auto
    then have k1: "?t k = Some x" using k by simp
    let ?t2 = "?t(k \<mapsto> c)"
    have h2: "heap_of (take_place x c st1) (n - 1) ?t2" by (rule heap_of_take_place [OF h1 k1 cfree])
    obtain st3 where st3: "walk_down lt c (take_place x c st1) = Some st3"
      and h3: "heap_of st3 (n - 1) (fst (down lt (n - 1) ?t2 k))"
      and p3: "fst (down lt (n - 1) ?t2 k) (snd (down lt (n - 1) ?t2 k)) = Some c"
      using walk_down_refines [OF h2, of k c lt] by auto
    let ?t3 = "fst (down lt (n - 1) ?t2 k)" and ?k3 = "snd (down lt (n - 1) ?t2 k)"
    obtain st4 where st4: "walk_up lt c st3 = Some st4" and h4: "heap_of st4 (n - 1) (up lt ?t3 ?k3)"
      using walk_up_refines [OF h3 p3, of lt] by blast
    have "ord_but_down lt ?t2 k" by (rule remove_ord [OF o k heap_of_dom [OF h]])
    then have "ord_but_up lt ?t3 ?k3" using heap_of_dom [OF h2] by (intro down_ord) auto
    then have "heap_ord lt (up lt ?t3 ?k3)" using heap_of_dom [OF h3] p3 by (intro up_ord [of _ _ "n - 1"]) auto
    moreover have "ran ?t2 = S - {x}"
      unfolding heap_of_ran_del(2) [OF h1 k1] ran1 using False \<open>c \<in> S\<close> by auto
    moreover have "heap_remove lt x st = Done st4" using e False st3 st4 by (simp add: loop_end_def)
    ultimately show ?thesis using h4 unfolding heap_holds_def by (metis ran_up ran_down)
  qed
qed

lemma min_holds:
  assumes "heap_holds lt st S"
  shows "heap_min st = None \<longleftrightarrow> S = {}" and "heap_min st = Some m \<Longrightarrow> m \<in> S"
    and "heap_min st = Some m \<Longrightarrow> a \<in> S \<Longrightarrow> \<not> lt a m"
proof -
  obtain n t where h: "heap_of st n t" and o: "heap_ord lt t" and r: "ran t = S"
    using assms(1) by (auto simp: heap_holds_def)
  have dom: "t k \<noteq> None \<longleftrightarrow> 1 \<le> k \<and> k \<le> n" for k by (rule heap_of_dom [OF h])
  have m: "heap_min st = t 1" using heap_of_min [OF h] by (simp add: heap_min_def)
  have "t k = None" if "t 1 = None" for k using that dom [of 1] dom [of k] by auto
  then show "heap_min st = None \<longleftrightarrow> S = {}" unfolding m r [symmetric] by (auto simp: ran_def)
  show "m \<in> S" if "heap_min st = Some m" using that r m by (auto simp: ran_def)
  show "\<not> lt a m" if "heap_min st = Some m" "a \<in> S"
    using heap_ord_least [OF o dom] that m r by (auto simp: ran_def)
qed

lemma holds_finite: "heap_holds lt st S \<Longrightarrow> finite S"
  using heap_of_card by (auto simp: heap_holds_def)

lemma dequeue_holds:
  assumes "heap_holds lt st S" "heap_min st = Some m"
  shows "\<exists>st'. heap_dequeue lt st = Done st' \<and> heap_holds lt st' (S - {m})"
proof -
  have m: "m \<in> S" using min_holds(2) [OF assms] .
  obtain n t where h: "heap_of st n t" "ran t = S" using assms(1) by (auto simp: heap_holds_def)
  then obtain k where "t k = Some m" using m by (auto simp: ran_def)
  then have "n \<noteq> 0" using heap_of_dom [OF h(1), of k] by auto
  then have "hp_nelts st \<noteq> 0"
    using heap_of_nelts [OF h(1)] heap_of_small [OF h(1)] unat_of_nat_lt [of n, where 'a = 32] by auto
  then show ?thesis using remove_holds [OF assms(1) m] assms(2) by (simp add: heap_dequeue_def heap_min_def)
qed

end

lemma init_holds: "heap_holds lt (heap_init st) {}"
proof -
  have "heap_of (heap_init st) 0 (\<lambda>_. None)" by (simp add: heap_of_def heap_init_def)
  moreover have "heap_ord lt (\<lambda>_. None)" by (simp add: heap_ord_def)
  moreover have "ran (\<lambda>_ :: nat. None) = ({} :: addr set)" by (simp add: ran_def)
  ultimately show ?thesis unfolding heap_holds_def by blast
qed

text \<open>Only the comparisons between members matter.\<close>

lemma holds_cong:
  assumes "heap_holds lt st S" "\<And>a b. a \<in> S \<Longrightarrow> b \<in> S \<Longrightarrow> lt a b = lt' a b"
  shows "heap_holds lt' st S"
proof -
  obtain n t where t: "heap_of st n t" "heap_ord lt t" "ran t = S" using assms(1) by (auto simp: heap_holds_def)
  have "\<not> lt' a p" if "2 \<le> k" "t k = Some a" "t (k div 2) = Some p" for k a p
    using assms(2) [of a p] t that by (auto simp: heap_ord_def ran_def)
  then show ?thesis using t unfolding heap_holds_def heap_ord_def by blast
qed

subsection \<open>Sequences of operations\<close>

datatype heap_op = Insert addr | Remove addr

fun heap_run :: "heap_compare_fn \<Rightarrow> heap_op list \<Rightarrow> heap_store \<Rightarrow> heap_store c_run" where
  "heap_run lt [] st = Done st"
| "heap_run lt (Insert a # ops) st = c_bind (heap_insert lt a st) (heap_run lt ops)"
| "heap_run lt (Remove a # ops) st = c_bind (heap_remove lt a st) (heap_run lt ops)"

text \<open>What the operations are on sets, and when they are legal: a node is inserted once, fewer than
  \<open>2 ^ 32\<close> at a time, and removed only while it is in the heap.\<close>

fun set_run :: "heap_op list \<Rightarrow> addr set \<Rightarrow> addr set option" where
  "set_run [] S = Some S"
| "set_run (Insert a # ops) S = (if a \<notin> S \<and> card S + 1 < 2 ^ 32 then set_run ops (insert a S) else None)"
| "set_run (Remove a # ops) S = (if a \<in> S then set_run ops (S - {a}) else None)"

text \<open>Emptying a heap from the top.\<close>

fun heap_drain :: "heap_compare_fn \<Rightarrow> nat \<Rightarrow> heap_store \<Rightarrow> addr list c_run" where
  "heap_drain lt 0 st = Done []"
| "heap_drain lt (Suc k) st =
     (case heap_min st of
        None \<Rightarrow> Done []
      | Some m \<Rightarrow> c_bind (heap_dequeue lt st) (\<lambda>st. c_bind (heap_drain lt k st) (\<lambda>ms. Done (m # ms))))"

context heap_order
begin

lemma run_holds:
  "heap_holds lt st S \<Longrightarrow> set_run ops S = Some S' \<Longrightarrow> \<exists>st'. heap_run lt ops st = Done st' \<and> heap_holds lt st' S'"
proof (induction ops arbitrary: st S)
  case (Cons op ops)
  show ?case
  proof (cases op)
    case (Insert a)
    then have "a \<notin> S" "card S + 1 < 2 ^ 32" "set_run ops (insert a S) = Some S'"
      using Cons.prems(2) by (auto split: if_splits)
    then show ?thesis using insert_holds [OF Cons.prems(1), of a] Cons.IH Insert by fastforce
  next
    case (Remove a)
    then have "a \<in> S" "set_run ops (S - {a}) = Some S'" using Cons.prems(2) by (auto split: if_splits)
    then show ?thesis using remove_holds [OF Cons.prems(1), of a] Cons.IH Remove by fastforce
  qed
qed auto

lemma drain_holds:
  "heap_holds lt st S \<Longrightarrow> card S \<le> k \<Longrightarrow>
   \<exists>ms. heap_drain lt k st = Done ms \<and> set ms = S \<and> distinct ms \<and> sorted_wrt (\<lambda>a b. \<not> lt b a) ms"
proof (induction k arbitrary: st S)
  case 0
  then show ?case using holds_finite by auto
next
  case (Suc k)
  show ?case
  proof (cases "heap_min st")
    case None
    then show ?thesis using min_holds(1) [OF Suc.prems(1)] by auto
  next
    case (Some m)
    note mn = min_holds(2,3) [OF Suc.prems(1) Some]
    obtain st' where st': "heap_dequeue lt st = Done st'" "heap_holds lt st' (S - {m})"
      using dequeue_holds [OF Suc.prems(1) Some] by auto
    have "card (S - {m}) \<le> k" using Suc.prems(2) mn(1) holds_finite [OF Suc.prems(1)] by simp
    then obtain ms where "heap_drain lt k st' = Done ms" "set ms = S - {m}" "distinct ms"
      "sorted_wrt (\<lambda>a b. \<not> lt b a) ms"
      using Suc.IH [OF st'(2)] by auto
    then show ?thesis using Some st' mn by auto
  qed
qed

end

text \<open>C5: With any strict weak order, any legal sequence of operations ends and the heap is a priority queue of
  the nodes that are then in it: emptying it from the top ends too and gives each of them once, in
  order.\<close>

theorem heap_priority_queue:
  assumes "heap_order lt" "set_run ops {} = Some S"
  shows "\<exists>st' ms. heap_run lt ops (heap_init st) = Done st' \<and> heap_drain lt (card S) st' = Done ms \<and>
    set ms = S \<and> distinct ms \<and> sorted_wrt (\<lambda>a b. \<not> lt b a) ms"
proof -
  obtain st' where st': "heap_run lt ops (heap_init st) = Done st'" "heap_holds lt st' S"
    using heap_order.run_holds [OF assms(1) init_holds assms(2)] by blast
  then show ?thesis using heap_order.drain_holds [OF assms(1) st'(2) order_refl] by blast
qed

definition heap_example :: heap_store where
  "heap_example = \<lparr>hp_min = None, hp_nelts = 0,
     hp_node = (\<lambda>_. \<lparr>hn_left = None, hn_right = None, hn_parent = None\<rparr>)\<rparr>"

theorem heap_priority_queue_witness:
  "\<exists>st' ms. heap_run (<) [Insert 5, Insert 3, Insert 8, Insert 1, Remove 3] (heap_init heap_example) = Done st' \<and>
     heap_drain (<) 3 st' = Done ms \<and> set ms = {1, 5, 8} \<and> sorted ms"
proof -
  have "heap_order ((<) :: addr \<Rightarrow> addr \<Rightarrow> bool)" by unfold_locales auto
  moreover have "set_run [Insert 5, Insert 3, Insert 8, Insert 1, Remove 3] {} = Some {1, 5, 8}"
    by (simp add: insert_commute) auto
  moreover have "card {1, 5, 8 :: addr} = 3" by simp
  moreover have "(\<lambda>a b. \<not> b < a) = ((\<le>) :: addr \<Rightarrow> addr \<Rightarrow> bool)" by (simp add: fun_eq_iff not_less)
  ultimately show ?thesis using heap_priority_queue [of "(<)" _ "{1, 5, 8}" heap_example] by metis
qed

end
