(* ===== verification/Uv_Timer.thy ===== *)
theory Uv_Timer
  imports Uv_Heap
begin

text \<open>
  The timers of the event loop, \<^verbatim>\<open>deps/libuv/src/timer.c\<close>, with what \<^verbatim>\<open>uv-common.h\<close> and \<^verbatim>\<open>unix/core.c\<close>
  do to their handles. The library was changed for libcat: a timer remembers the round of the loop in which
  it was started and does not fire in that round.

  A loop holds the timers by address and the heap of the active ones; its other handles are left out. The
  fields \<open>lp_starts\<close>, \<open>lp_fired\<close> and \<open>lp_freed\<close> record how many timers were started, which ones fired and
  which were given to their close callback. A callback is a parameter: any function whose effect on the loop
  is a sequence of the operations on timers.
\<close>

record uv_timer_t =
  tm_cb :: "nat option"
  tm_timeout :: u64
  tm_repeat :: u64
  tm_start_id :: u64
  tm_round :: u64
  tm_active :: bool
  tm_ref :: bool
  tm_closing :: bool
  tm_closed :: bool

record uv_loop_t =
  lp_time :: u64
  lp_round :: u64
  lp_timer_counter :: u64
  lp_active_handles :: u32
  lp_timer_heap :: heap_store
  lp_closing_handles :: "addr list"
  lp_timers :: "addr \<Rightarrow> uv_timer_t"
  lp_starts :: nat
  lp_fired :: "addr list"
  lp_freed :: "addr list"

datatype uv_errno = UV_EINVAL

definition timer_lt :: "(addr \<Rightarrow> uv_timer_t) \<Rightarrow> heap_compare_fn" where
  "timer_lt ts ha hb =
     (let a = ts ha; b = ts hb
      in if tm_timeout a < tm_timeout b then True
         else if tm_timeout b < tm_timeout a then False
         else tm_start_id a < tm_start_id b)"

definition upd_timer :: "addr \<Rightarrow> (uv_timer_t \<Rightarrow> uv_timer_t) \<Rightarrow> uv_loop_t \<Rightarrow> uv_loop_t" where
  "upd_timer h f l = l\<lparr>lp_timers := (lp_timers l)(h := f (lp_timers l h))\<rparr>"

abbreviation timer :: "uv_loop_t \<Rightarrow> addr \<Rightarrow> uv_timer_t" where
  "timer l h \<equiv> lp_timers l h"

definition uv__handle_start :: "addr \<Rightarrow> uv_loop_t \<Rightarrow> uv_loop_t" where
  "uv__handle_start h l =
     (if tm_active (timer l h) then l
      else
        let l = upd_timer h (\<lambda>t. t\<lparr>tm_active := True\<rparr>) l
        in if tm_ref (timer l h) then l\<lparr>lp_active_handles := lp_active_handles l + 1\<rparr> else l)"

definition uv__handle_stop :: "addr \<Rightarrow> uv_loop_t \<Rightarrow> uv_loop_t" where
  "uv__handle_stop h l =
     (if \<not> tm_active (timer l h) then l
      else
        let l = upd_timer h (\<lambda>t. t\<lparr>tm_active := False\<rparr>) l
        in if tm_ref (timer l h) then l\<lparr>lp_active_handles := lp_active_handles l - 1\<rparr> else l)"

definition uv__is_closing :: "uv_timer_t \<Rightarrow> bool" where
  "uv__is_closing t \<longleftrightarrow> tm_closing t \<or> tm_closed t"

definition uv_timer_init :: "addr \<Rightarrow> uv_loop_t \<Rightarrow> uv_loop_t" where
  "uv_timer_init h = upd_timer h (\<lambda>t. t\<lparr>tm_cb := None, tm_timeout := 0, tm_repeat := 0,
     tm_active := False, tm_ref := True, tm_closing := False, tm_closed := False\<rparr>)"

definition uv_timer_stop :: "addr \<Rightarrow> uv_loop_t \<Rightarrow> uv_loop_t c_run" where
  "uv_timer_stop h l =
     (if \<not> tm_active (timer l h) then Done l
      else c_bind (heap_remove (timer_lt (lp_timers l)) h (lp_timer_heap l)) (\<lambda>hp.
        Done (uv__handle_stop h (l\<lparr>lp_timer_heap := hp\<rparr>))))"

definition uv_timer_start ::
  "addr \<Rightarrow> nat option \<Rightarrow> u64 \<Rightarrow> u64 \<Rightarrow> uv_loop_t \<Rightarrow> ((uv_errno + unit) \<times> uv_loop_t) c_run" where
  "uv_timer_start h cb timeout repeat l =
     (if uv__is_closing (timer l h) \<or> cb = None then Done (Inl UV_EINVAL, l)
      else c_bind (if tm_active (timer l h) then uv_timer_stop h l else Done l) (\<lambda>l.
        let clamped_timeout = lp_time l + timeout;
            clamped_timeout = (if clamped_timeout < timeout then - 1 else clamped_timeout);
            l = upd_timer h (\<lambda>t. t\<lparr>tm_cb := cb, tm_timeout := clamped_timeout, tm_repeat := repeat,
                  tm_start_id := lp_timer_counter l, tm_round := lp_round l\<rparr>) l;
            l = l\<lparr>lp_timer_counter := lp_timer_counter l + 1, lp_starts := lp_starts l + 1\<rparr>
        in c_bind (heap_insert (timer_lt (lp_timers l)) h (lp_timer_heap l)) (\<lambda>hp.
             Done (Inr (), uv__handle_start h (l\<lparr>lp_timer_heap := hp\<rparr>)))))"

definition uv_timer_again :: "addr \<Rightarrow> uv_loop_t \<Rightarrow> ((uv_errno + unit) \<times> uv_loop_t) c_run" where
  "uv_timer_again h l =
     (if tm_cb (timer l h) = None then Done (Inl UV_EINVAL, l)
      else if tm_repeat (timer l h) \<noteq> 0 then
        c_bind (uv_timer_stop h l) (\<lambda>l.
        c_bind (uv_timer_start h (tm_cb (timer l h)) (tm_repeat (timer l h)) (tm_repeat (timer l h)) l) (\<lambda>(_, l).
        Done (Inr (), l)))
      else Done (Inr (), l))"

definition uv_timer_set_repeat :: "addr \<Rightarrow> u64 \<Rightarrow> uv_loop_t \<Rightarrow> uv_loop_t" where
  "uv_timer_set_repeat h repeat = upd_timer h (\<lambda>t. t\<lparr>tm_repeat := repeat\<rparr>)"

definition uv_timer_get_repeat :: "addr \<Rightarrow> uv_loop_t \<Rightarrow> u64" where
  "uv_timer_get_repeat h l = tm_repeat (timer l h)"

definition uv_timer_get_due_in :: "addr \<Rightarrow> uv_loop_t \<Rightarrow> u64" where
  "uv_timer_get_due_in h l =
     (if tm_timeout (timer l h) \<le> lp_time l then 0 else tm_timeout (timer l h) - lp_time l)"

definition INT_MAX :: u64 where
  "INT_MAX = 2 ^ 31 - 1"

definition uv__next_timeout :: "uv_loop_t \<Rightarrow> int" where
  "uv__next_timeout l =
     (case heap_min (lp_timer_heap l) of
        None \<Rightarrow> - 1
      | Some h \<Rightarrow>
          if tm_timeout (timer l h) \<le> lp_time l then 0
          else
            let diff = tm_timeout (timer l h) - lp_time l;
                diff = (if INT_MAX < diff then INT_MAX else diff)
            in uint diff)"

text \<open>The close of a timer handle and the callbacks of the closed ones, which free their memory.\<close>

definition uv__timer_close :: "addr \<Rightarrow> uv_loop_t \<Rightarrow> uv_loop_t c_run" where
  "uv__timer_close h l = uv_timer_stop h l"

definition uv__make_close_pending :: "addr \<Rightarrow> uv_loop_t \<Rightarrow> uv_loop_t" where
  "uv__make_close_pending h l = l\<lparr>lp_closing_handles := h # lp_closing_handles l\<rparr>"

definition uv_close :: "addr \<Rightarrow> uv_loop_t \<Rightarrow> uv_loop_t c_run" where
  "uv_close h l =
     c_assert (\<not> uv__is_closing (timer l h))
       (c_bind (uv__timer_close h (upd_timer h (\<lambda>t. t\<lparr>tm_closing := True\<rparr>) l)) (\<lambda>l.
        Done (uv__make_close_pending h l)))"

definition uv__finish_close :: "addr \<Rightarrow> uv_loop_t \<Rightarrow> uv_loop_t" where
  "uv__finish_close h l =
     (let l = upd_timer h (\<lambda>t. t\<lparr>tm_closed := True, tm_ref := False\<rparr>) l
      in l\<lparr>lp_freed := lp_freed l @ [h]\<rparr>)"

definition uv__run_closing_handles :: "uv_loop_t \<Rightarrow> uv_loop_t" where
  "uv__run_closing_handles l =
     fold uv__finish_close (lp_closing_handles l) (l\<lparr>lp_closing_handles := []\<rparr>)"

text \<open>One pass over the due timers.\<close>

partial_function (option) uv__run_timers ::
  "(addr \<Rightarrow> uv_loop_t \<Rightarrow> uv_loop_t c_run) \<Rightarrow> uv_loop_t \<Rightarrow> uv_loop_t c_run option" where
  "uv__run_timers timer_cb l =
     (case heap_min (lp_timer_heap l) of
        None \<Rightarrow> Some (Done l)
      | Some h \<Rightarrow>
          if lp_time l < tm_timeout (timer l h) then Some (Done l)
          else if tm_round (timer l h) = lp_round l then Some (Done l)
          else
            (case c_bind (uv_timer_stop h l) (\<lambda>l.
                  c_bind (uv_timer_again h l) (\<lambda>(_, l).
                  timer_cb h (l\<lparr>lp_fired := lp_fired l @ [h]\<rparr>))) of
               Done l \<Rightarrow> uv__run_timers timer_cb l
             | Diverges \<Rightarrow> Some Diverges
             | Undefined \<Rightarrow> Some Undefined))"

subsection \<open>The order of the timers\<close>

interpretation tl: heap_order "timer_lt ts" for ts
proof
  show "\<not> timer_lt ts b a" if "timer_lt ts a b" for a b
    using that by (auto simp: timer_lt_def Let_def split: if_splits)
  show "\<not> timer_lt ts a c" if "\<not> timer_lt ts a b" "\<not> timer_lt ts b c" for a b c
    using that by (auto simp: timer_lt_def Let_def split: if_splits)
qed

lemma holds_timers_cong:
  assumes "heap_holds (timer_lt ts) hp S"
    and "\<And>a. a \<in> S \<Longrightarrow> tm_timeout (ts' a) = tm_timeout (ts a) \<and> tm_start_id (ts' a) = tm_start_id (ts a)"
  shows "heap_holds (timer_lt ts') hp S"
  by (rule holds_cong [OF assms(1)]) (use assms(2) in \<open>auto simp: timer_lt_def\<close>)

subsection \<open>The invariant\<close>

text \<open>The heap is the priority queue of the active timers; an active timer has a callback, is not being
  closed and was started in this round or before; the loop counts the active timers that keep it alive. As long as fewer than \<open>2 ^ 64\<close> timers were
  started, the start numbers are in the order of the starts, so those of the current round are the highest.\<close>

definition active_timers :: "uv_loop_t \<Rightarrow> addr set" where
  "active_timers l = {h. tm_active (timer l h)}"

definition MAX_TIMERS :: nat where
  "MAX_TIMERS = 2 ^ 32 - 1"

definition timer_inv :: "uv_loop_t \<Rightarrow> bool" where
  "timer_inv l \<longleftrightarrow>
     heap_holds (timer_lt (lp_timers l)) (lp_timer_heap l) (active_timers l) \<and>
     (\<forall>h \<in> active_timers l. h < MAX_TIMERS \<and> tm_cb (timer l h) \<noteq> None \<and> \<not> uv__is_closing (timer l h) \<and>
        tm_round (timer l h) \<le> lp_round l) \<and>
     distinct (lp_closing_handles l) \<and> (\<forall>h \<in> set (lp_closing_handles l). tm_closing (timer l h)) \<and>
     lp_active_handles l = of_nat (card {h \<in> active_timers l. tm_ref (timer l h)}) \<and>
     lp_timer_counter l = of_nat (lp_starts l) \<and>
     (lp_starts l < 2 ^ 64 \<longrightarrow>
        (\<forall>h \<in> active_timers l. unat (tm_start_id (timer l h)) < lp_starts l \<and>
          (\<forall>h' \<in> active_timers l. tm_round (timer l h) \<noteq> lp_round l \<longrightarrow> tm_round (timer l h') = lp_round l \<longrightarrow>
             tm_start_id (timer l h) < tm_start_id (timer l h'))))"

lemma timer_invD:
  assumes "timer_inv l"
  shows timer_inv_heap: "heap_holds (timer_lt (lp_timers l)) (lp_timer_heap l) (active_timers l)"
    and timer_inv_ok: "h \<in> active_timers l \<Longrightarrow> h < MAX_TIMERS \<and> tm_cb (timer l h) \<noteq> None \<and> \<not> uv__is_closing (timer l h) \<and>
      tm_round (timer l h) \<le> lp_round l"
    and timer_inv_closing: "distinct (lp_closing_handles l)" "h \<in> set (lp_closing_handles l) \<Longrightarrow> tm_closing (timer l h)"
    and timer_inv_count: "lp_active_handles l = of_nat (card {h \<in> active_timers l. tm_ref (timer l h)})"
    and timer_inv_counter: "lp_timer_counter l = of_nat (lp_starts l)"
    and timer_inv_id: "lp_starts l < 2 ^ 64 \<Longrightarrow> h \<in> active_timers l \<Longrightarrow> unat (tm_start_id (timer l h)) < lp_starts l"
    and timer_inv_round: "lp_starts l < 2 ^ 64 \<Longrightarrow> h \<in> active_timers l \<Longrightarrow> h' \<in> active_timers l \<Longrightarrow>
      tm_round (timer l h) \<noteq> lp_round l \<Longrightarrow> tm_round (timer l h') = lp_round l \<Longrightarrow>
      tm_start_id (timer l h) < tm_start_id (timer l h')"
  using assms unfolding timer_inv_def by blast+

lemma finite_active: "timer_inv l \<Longrightarrow> finite (active_timers l)"
  using tl.holds_finite timer_inv_heap by blast

text \<open>What an operation leaves alone: everything but the timers, the heap and the counters.\<close>

definition same_loop :: "uv_loop_t \<Rightarrow> uv_loop_t \<Rightarrow> bool" where
  "same_loop l l' \<longleftrightarrow> lp_time l' = lp_time l \<and> lp_round l' = lp_round l \<and>
     lp_fired l' = lp_fired l \<and> lp_freed l' = lp_freed l \<and> lp_starts l \<le> lp_starts l'"

lemma same_loop_refl [simp]: "same_loop l l"
  by (simp add: same_loop_def)

lemma same_loop_trans: "same_loop l l' \<Longrightarrow> same_loop l' l'' \<Longrightarrow> same_loop l l''"
  by (auto simp: same_loop_def)

text \<open>The count of the active timers that keep the loop alive, when one becomes active or idle.\<close>

lemma count_insert:
  assumes "finite S" "h \<notin> S"
  shows "(of_nat (card {x \<in> insert h S. P x}) :: u32) = of_nat (card {x \<in> S. P x}) + (if P h then 1 else 0)"
proof -
  have "{x \<in> insert h S. P x} = (if P h then insert h {x \<in> S. P x} else {x \<in> S. P x})" by auto
  then show ?thesis using assms by auto
qed

lemma stop_inv:
  assumes "timer_inv l"
  shows "\<exists>l'. uv_timer_stop h l = Done l' \<and> timer_inv l' \<and> same_loop l l' \<and>
    lp_timers l' = (lp_timers l)(h := timer l h\<lparr>tm_active := False\<rparr>) \<and> lp_starts l' = lp_starts l"
proof (cases "tm_active (timer l h)")
  case False
  then have "(lp_timers l)(h := timer l h\<lparr>tm_active := False\<rparr>) = lp_timers l" by (simp add: fun_upd_idem)
  then show ?thesis using assms False by (simp add: uv_timer_stop_def)
next
  case True
  let ?S = "active_timers l"
  have h: "h \<in> ?S" using True by (simp add: active_timers_def)
  obtain hp where hp: "heap_remove (timer_lt (lp_timers l)) h (lp_timer_heap l) = Done hp"
    and holds: "heap_holds (timer_lt (lp_timers l)) hp (?S - {h})"
    using tl.remove_holds [OF timer_inv_heap [OF assms] h] by blast
  define l' where "l' = uv__handle_stop h (l\<lparr>lp_timer_heap := hp\<rparr>)"
  have ts: "lp_timers l' = (lp_timers l)(h := timer l h\<lparr>tm_active := False\<rparr>)"
    and hp': "lp_timer_heap l' = hp" and same: "same_loop l l'" "lp_starts l' = lp_starts l"
      "lp_timer_counter l' = lp_timer_counter l" "lp_round l' = lp_round l" "lp_closing_handles l' = lp_closing_handles l"
    and cnt: "lp_active_handles l' = lp_active_handles l - (if tm_ref (timer l h) then 1 else 0)"
    using True by (simp_all add: l'_def uv__handle_stop_def upd_timer_def same_loop_def Let_def)
  have S': "active_timers l' = ?S - {h}" by (auto simp: active_timers_def ts)
  have "heap_holds (timer_lt (lp_timers l')) (lp_timer_heap l') (active_timers l')"
    unfolding S' hp' by (rule holds_timers_cong [OF holds]) (simp add: ts)
  moreover have "lp_active_handles l' = of_nat (card {x \<in> active_timers l'. tm_ref (timer l' x)})"
  proof -
    have "insert h (?S - {h}) = ?S" using h by auto
    then have "(of_nat (card {x \<in> ?S. tm_ref (timer l x)}) :: u32) =
        of_nat (card {x \<in> ?S - {h}. tm_ref (timer l x)}) + (if tm_ref (timer l h) then 1 else 0)"
      using count_insert [of "?S - {h}" h "\<lambda>x. tm_ref (timer l x)"] finite_active [OF assms] by simp
    moreover have "{x \<in> ?S - {h}. tm_ref (timer l' x)} = {x \<in> ?S - {h}. tm_ref (timer l x)}" by (auto simp: ts)
    ultimately show ?thesis using timer_inv_count [OF assms] cnt by (simp add: S')
  qed
  moreover have "\<forall>x \<in> active_timers l'. x < MAX_TIMERS \<and> tm_cb (timer l' x) \<noteq> None \<and> \<not> uv__is_closing (timer l' x) \<and>
      tm_round (timer l' x) \<le> lp_round l'"
    using timer_inv_ok [OF assms] same(4) by (auto simp: S' ts)
  ultimately have "timer_inv l'"
    using timer_inv_counter [OF assms] timer_inv_id [OF assms] timer_inv_round [OF assms]
      timer_inv_closing [OF assms] same
    by (auto simp: timer_inv_def S' ts)
  then show ?thesis using hp True same ts by (auto simp: uv_timer_stop_def l'_def)
qed

text \<open>The part of a start behind its checks, on a timer that is not active.\<close>

definition timer_link :: "addr \<Rightarrow> nat \<Rightarrow> u64 \<Rightarrow> u64 \<Rightarrow> uv_loop_t \<Rightarrow> uv_loop_t" where
  "timer_link h cb timeout repeat l =
     (upd_timer h (\<lambda>t. t\<lparr>tm_cb := Some cb, tm_timeout := timeout, tm_repeat := repeat,
        tm_start_id := lp_timer_counter l, tm_round := lp_round l\<rparr>) l)
     \<lparr>lp_timer_counter := lp_timer_counter l + 1, lp_starts := lp_starts l + 1\<rparr>"

lemma link_inv:
  fixes repeat timeout :: u64 and l :: uv_loop_t and h cb :: nat
  assumes inv: "timer_inv l" and idle: "\<not> tm_active (timer l h)" and ok: "h < MAX_TIMERS" "\<not> uv__is_closing (timer l h)"
  defines "l1 \<equiv> timer_link h cb timeout repeat l"
  shows "\<exists>hp. heap_insert (timer_lt (lp_timers l1)) h (lp_timer_heap l1) = Done hp \<and>
    timer_inv (uv__handle_start h (l1\<lparr>lp_timer_heap := hp\<rparr>)) \<and>
    same_loop l (uv__handle_start h (l1\<lparr>lp_timer_heap := hp\<rparr>)) \<and>
    lp_starts (uv__handle_start h (l1\<lparr>lp_timer_heap := hp\<rparr>)) = lp_starts l + 1 \<and>
    lp_timers (uv__handle_start h (l1\<lparr>lp_timer_heap := hp\<rparr>)) = (lp_timers l)(h := timer l h
      \<lparr>tm_cb := Some cb, tm_timeout := timeout, tm_repeat := repeat, tm_start_id := lp_timer_counter l,
       tm_round := lp_round l, tm_active := True\<rparr>)"
proof -
  let ?S = "active_timers l"
  have hS: "h \<notin> ?S" using idle by (simp add: active_timers_def)
  have holds: "heap_holds (timer_lt (lp_timers l1)) (lp_timer_heap l1) ?S"
  proof -
    have "lp_timer_heap l1 = lp_timer_heap l" by (simp add: l1_def timer_link_def upd_timer_def)
    then show ?thesis using hS
      by (intro holds_timers_cong [OF timer_inv_heap [OF inv, folded \<open>lp_timer_heap l1 = lp_timer_heap l\<close>]])
        (auto simp: l1_def timer_link_def upd_timer_def)
  qed
  have "?S \<subseteq> {..<MAX_TIMERS} - {h}" using timer_inv_ok [OF inv] hS by auto
  from card_mono [OF _ this] have "card ?S \<le> MAX_TIMERS - 1" using ok(1) by simp
  then have card: "card ?S + 1 < 2 ^ 32" using ok(1) by (simp add: MAX_TIMERS_def)
  obtain hp where hp: "heap_insert (timer_lt (lp_timers l1)) h (lp_timer_heap l1) = Done hp"
    and holds': "heap_holds (timer_lt (lp_timers l1)) hp (insert h ?S)"
    using tl.insert_holds [OF holds hS card] by blast
  define l' where "l' = uv__handle_start h (l1\<lparr>lp_timer_heap := hp\<rparr>)"
  have ts: "lp_timers l' = (lp_timers l)(h := timer l h\<lparr>tm_cb := Some cb, tm_timeout := timeout,
      tm_repeat := repeat, tm_start_id := lp_timer_counter l, tm_round := lp_round l, tm_active := True\<rparr>)"
    and hp': "lp_timer_heap l' = hp" and same: "same_loop l l'" "lp_starts l' = lp_starts l + 1"
      "lp_timer_counter l' = lp_timer_counter l + 1" "lp_round l' = lp_round l" "lp_closing_handles l' = lp_closing_handles l"
    and cnt: "lp_active_handles l' = lp_active_handles l + (if tm_ref (timer l h) then 1 else 0)"
    using idle by (simp_all add: l'_def l1_def timer_link_def uv__handle_start_def upd_timer_def same_loop_def Let_def)
  have S': "active_timers l' = insert h ?S" by (auto simp: active_timers_def ts)
  have "heap_holds (timer_lt (lp_timers l')) (lp_timer_heap l') (active_timers l')"
    unfolding S' hp'
    by (rule holds_timers_cong [OF holds']) (simp add: ts l1_def timer_link_def upd_timer_def)
  moreover have "lp_active_handles l' = of_nat (card {x \<in> active_timers l'. tm_ref (timer l' x)})"
  proof -
    have "{x \<in> insert h ?S. tm_ref (timer l' x)} = {x \<in> insert h ?S. tm_ref (timer l x)}" by (auto simp: ts)
    then show ?thesis
      using count_insert [OF finite_active [OF inv] hS, of "\<lambda>x. tm_ref (timer l x)"] timer_inv_count [OF inv] cnt
      by (simp add: S')
  qed
  moreover have "\<forall>x \<in> active_timers l'. x < MAX_TIMERS \<and> tm_cb (timer l' x) \<noteq> None \<and> \<not> uv__is_closing (timer l' x) \<and>
      tm_round (timer l' x) \<le> lp_round l'"
    using timer_inv_ok [OF inv] ok same(4) by (auto simp: S' ts uv__is_closing_def)
  moreover have "unat (tm_start_id (timer l' x)) < lp_starts l' \<and>
      (\<forall>y \<in> active_timers l'. tm_round (timer l' x) \<noteq> lp_round l' \<longrightarrow> tm_round (timer l' y) = lp_round l' \<longrightarrow>
        tm_start_id (timer l' x) < tm_start_id (timer l' y))"
    if "lp_starts l' < 2 ^ 64" "x \<in> active_timers l'" for x
  proof -
    have st: "lp_starts l < 2 ^ 64" using that(1) same(2) by simp
    then have c: "unat (lp_timer_counter l) = lp_starts l"
      using unat_of_nat_lt [where 'a = 64] by (simp add: timer_inv_counter [OF inv])
    have id: "unat (tm_start_id (timer l y)) < lp_starts l" if "y \<in> ?S" for y using timer_inv_id [OF inv st that] .
    show ?thesis
      using that(2) id timer_inv_round [OF inv st] same c hS
      by (auto simp: S' ts word_less_nat_alt less_Suc_eq)
  qed
  ultimately have "timer_inv l'"
    using timer_inv_counter [OF inv] timer_inv_closing [OF inv] same by (auto simp: timer_inv_def ts)
  then show ?thesis using hp ts same by (auto simp: l'_def)
qed

definition clamped :: "u64 \<Rightarrow> u64 \<Rightarrow> u64" where
  "clamped time timeout = (if time + timeout < timeout then - 1 else time + timeout)"

lemma start_unfold:
  "uv_timer_start h (Some f) timeout repeat l =
     (if uv__is_closing (timer l h) then Done (Inl UV_EINVAL, l)
      else c_bind (uv_timer_stop h l) (\<lambda>l.
        let l1 = timer_link h f (clamped (lp_time l) timeout) repeat l
        in c_bind (heap_insert (timer_lt (lp_timers l1)) h (lp_timer_heap l1)) (\<lambda>hp.
             Done (Inr (), uv__handle_start h (l1\<lparr>lp_timer_heap := hp\<rparr>)))))"
proof -
  have "(if tm_active (timer l h) then uv_timer_stop h l else Done l) = uv_timer_stop h l"
    by (simp add: uv_timer_stop_def)
  then show ?thesis
    by (simp add: uv_timer_start_def timer_link_def clamped_def [symmetric] upd_timer_def Let_def)
qed

lemma start_inv:
  assumes inv: "timer_inv l" and h: "h < MAX_TIMERS"
  shows "\<exists>r l'. uv_timer_start h cb timeout repeat l = Done (r, l') \<and> timer_inv l' \<and> same_loop l l' \<and>
    (if uv__is_closing (timer l h) \<or> cb = None then r = Inl UV_EINVAL \<and> l' = l
     else r = Inr () \<and> lp_starts l' = lp_starts l + 1 \<and>
       lp_timers l' = (lp_timers l)(h := timer l h\<lparr>tm_cb := cb, tm_timeout := clamped (lp_time l) timeout,
         tm_repeat := repeat, tm_start_id := of_nat (lp_starts l), tm_round := lp_round l, tm_active := True\<rparr>))"
proof (cases "uv__is_closing (timer l h) \<or> cb = None")
  case True
  then show ?thesis using inv by (simp add: uv_timer_start_def)
next
  case False
  then obtain f where f: "cb = Some f" "\<not> uv__is_closing (timer l h)" by auto
  obtain l0 where l0: "uv_timer_stop h l = Done l0" "timer_inv l0" "same_loop l l0" "lp_starts l0 = lp_starts l"
    "lp_timers l0 = (lp_timers l)(h := timer l h\<lparr>tm_active := False\<rparr>)"
    using stop_inv [OF inv, of h] by blast
  have time: "lp_time l0 = lp_time l" "lp_round l0 = lp_round l" using l0(3) by (simp_all add: same_loop_def)
  have c0: "lp_timer_counter l0 = of_nat (lp_starts l)" using timer_inv_counter [OF l0(2)] l0(4) by simp
  have "\<not> tm_active (timer l0 h)" "\<not> uv__is_closing (timer l0 h)" using f l0(5) by (simp_all add: uv__is_closing_def)
  note link = link_inv [OF l0(2) this(1) h this(2), of f "clamped (lp_time l0) timeout" repeat]
  define l1 where "l1 = timer_link h f (clamped (lp_time l0) timeout) repeat l0"
  obtain hp where hp: "heap_insert (timer_lt (lp_timers l1)) h (lp_timer_heap l1) = Done hp"
    and l': "timer_inv (uv__handle_start h (l1\<lparr>lp_timer_heap := hp\<rparr>))"
      "same_loop l0 (uv__handle_start h (l1\<lparr>lp_timer_heap := hp\<rparr>))"
      "lp_starts (uv__handle_start h (l1\<lparr>lp_timer_heap := hp\<rparr>)) = lp_starts l0 + 1"
      "lp_timers (uv__handle_start h (l1\<lparr>lp_timer_heap := hp\<rparr>)) = (lp_timers l0)(h := timer l0 h
      \<lparr>tm_cb := Some f, tm_timeout := clamped (lp_time l0) timeout, tm_repeat := repeat, tm_start_id := lp_timer_counter l0,
       tm_round := lp_round l0, tm_active := True\<rparr>)"
    using link unfolding l1_def by blast
  let ?l = "uv__handle_start h (l1\<lparr>lp_timer_heap := hp\<rparr>)"
  have "uv_timer_start h cb timeout repeat l = Done (Inr (), ?l)"
    unfolding f(1) start_unfold l0(1) c_bind.simps Let_def l1_def [symmetric] using f(2) hp by simp
  moreover have "lp_timers ?l = (lp_timers l)(h := timer l h\<lparr>tm_cb := cb, tm_timeout := clamped (lp_time l) timeout,
         tm_repeat := repeat, tm_start_id := of_nat (lp_starts l), tm_round := lp_round l, tm_active := True\<rparr>)"
    using l'(4) by (simp add: l0(5) c0 time f)
  ultimately show ?thesis using f l' l0 same_loop_trans by auto
qed

lemma again_inv:
  assumes inv: "timer_inv l" and h: "h < MAX_TIMERS"
  shows "\<exists>r l'. uv_timer_again h l = Done (r, l') \<and> timer_inv l' \<and> same_loop l l' \<and>
    (\<forall>x. x \<noteq> h \<longrightarrow> timer l' x = timer l x) \<and>
    (tm_active (timer l' h) \<longrightarrow> timer l' h = timer l h \<or>
       tm_round (timer l' h) = lp_round l \<and> tm_timeout (timer l' h) = clamped (lp_time l) (tm_repeat (timer l h)))"
proof (cases "tm_cb (timer l h) = None \<or> tm_repeat (timer l h) = 0")
  case True
  then show ?thesis using inv by (auto simp: uv_timer_again_def)
next
  case False
  obtain l0 where l0: "uv_timer_stop h l = Done l0" "timer_inv l0" "same_loop l l0"
    "lp_timers l0 = (lp_timers l)(h := timer l h\<lparr>tm_active := False\<rparr>)"
    using stop_inv [OF inv, of h] by blast
  obtain r l' where st: "uv_timer_start h (tm_cb (timer l0 h)) (tm_repeat (timer l0 h)) (tm_repeat (timer l0 h)) l0 = Done (r, l')"
    and l': "timer_inv l'" "same_loop l0 l'" and eff:
    "if uv__is_closing (timer l0 h) \<or> tm_cb (timer l0 h) = None then r = Inl UV_EINVAL \<and> l' = l0
     else r = Inr () \<and> lp_starts l' = lp_starts l0 + 1 \<and>
       lp_timers l' = (lp_timers l0)(h := timer l0 h\<lparr>tm_cb := tm_cb (timer l0 h),
         tm_timeout := clamped (lp_time l0) (tm_repeat (timer l0 h)), tm_repeat := tm_repeat (timer l0 h),
         tm_start_id := of_nat (lp_starts l0), tm_round := lp_round l0, tm_active := True\<rparr>)"
    using start_inv [OF l0(2) h] by metis
  have "uv_timer_again h l = Done (Inr (), l')" using False l0(1) st by (simp add: uv_timer_again_def)
  moreover have "same_loop l l'" using l0(3) l'(2) same_loop_trans by blast
  ultimately show ?thesis using l'(1) eff l0 by (auto simp: same_loop_def split: if_splits)
qed

text \<open>Fields that the invariant does not read, and timers that are not active.\<close>

lemma timer_inv_fields [simp]:
  "timer_inv (l\<lparr>lp_fired := f\<rparr>) = timer_inv l"
  "timer_inv (l\<lparr>lp_freed := f\<rparr>) = timer_inv l" "timer_inv (l\<lparr>lp_time := t\<rparr>) = timer_inv l"
  by (simp_all add: timer_inv_def active_timers_def)

lemma upd_keep_inv:
  assumes inv: "timer_inv l" and act: "tm_active (f (timer l h)) = tm_active (timer l h)"
    and keep: "tm_active (timer l h) \<Longrightarrow>
      f (timer l h) = timer l h\<lparr>tm_repeat := tm_repeat (f (timer l h))\<rparr>"
    and closing: "h \<in> set (lp_closing_handles l) \<Longrightarrow> tm_closing (timer l h) \<Longrightarrow> tm_closing (f (timer l h))"
  shows "timer_inv (upd_timer h f l)"
proof -
  let ?l = "upd_timer h f l"
  have S: "active_timers ?l = active_timers l" using act by (auto simp: active_timers_def upd_timer_def)
  have k: "timer ?l x = timer l x\<lparr>tm_repeat := tm_repeat (timer ?l x)\<rparr>" if "x \<in> active_timers l" for x
    using that keep by (auto simp: upd_timer_def active_timers_def)
  have t: "tm_timeout (timer ?l x) = tm_timeout (timer l x)" "tm_start_id (timer ?l x) = tm_start_id (timer l x)"
    "tm_round (timer ?l x) = tm_round (timer l x)" "tm_ref (timer ?l x) = tm_ref (timer l x)"
    "tm_cb (timer ?l x) = tm_cb (timer l x)" "uv__is_closing (timer ?l x) = uv__is_closing (timer l x)"
    if "x \<in> active_timers l" for x
    by (subst k [OF that], simp add: uv__is_closing_def)+
  have o: "lp_timer_heap ?l = lp_timer_heap l" "lp_active_handles ?l = lp_active_handles l"
    "lp_timer_counter ?l = lp_timer_counter l" "lp_starts ?l = lp_starts l" "lp_round ?l = lp_round l"
    "lp_closing_handles ?l = lp_closing_handles l"
    by (simp_all add: upd_timer_def)
  have cl: "\<forall>x \<in> set (lp_closing_handles l). tm_closing (timer ?l x)"
    using timer_inv_closing(2) [OF inv] closing by (simp add: upd_timer_def)
  have "heap_holds (timer_lt (lp_timers ?l)) (lp_timer_heap l) (active_timers l)"
    by (rule holds_timers_cong [OF timer_inv_heap [OF inv]]) (use t in simp)
  moreover have "{x \<in> active_timers l. tm_ref (timer ?l x)} = {x \<in> active_timers l. tm_ref (timer l x)}"
    using t by auto
  ultimately show ?thesis using inv t cl by (simp add: timer_inv_def S o)
qed

lemma uv_close_inv:
  assumes inv: "timer_inv l" and "\<not> uv__is_closing (timer l h)"
  shows "\<exists>l'. uv_close h l = Done l' \<and> timer_inv l' \<and> same_loop l l' \<and>
    lp_timers l' = (lp_timers l)(h := timer l h\<lparr>tm_active := False, tm_closing := True\<rparr>)"
proof -
  let ?c = "\<lambda>t. t\<lparr>tm_closing := True\<rparr> :: uv_timer_t"
  obtain l0 where l0: "uv_timer_stop h l = Done l0" "timer_inv l0" "same_loop l l0"
    "lp_timers l0 = (lp_timers l)(h := timer l h\<lparr>tm_active := False\<rparr>)"
    using stop_inv [OF inv, of h] by blast
  have lt: "timer_lt ((lp_timers l)(h := ?c (timer l h))) = timer_lt (lp_timers l)"
    by (auto simp: fun_eq_iff timer_lt_def Let_def)
  have "uv_timer_stop h (upd_timer h ?c l) = Done (upd_timer h ?c l0)"
  proof (cases "tm_active (timer l h)")
    case True
    have "uv__handle_stop h (upd_timer h ?c l\<lparr>lp_timer_heap := hp\<rparr>) =
        upd_timer h ?c (uv__handle_stop h (l\<lparr>lp_timer_heap := hp\<rparr>))" for hp
      by (rule uv_loop_t.equality)
        (auto simp: uv__handle_stop_def upd_timer_def Let_def intro!: ext uv_timer_t.equality)
    then show ?thesis using True l0(1)
      by (cases "heap_remove (timer_lt (lp_timers l)) h (lp_timer_heap l)")
        (auto simp: uv_timer_stop_def upd_timer_def lt)
  qed (use l0(1) in \<open>simp add: uv_timer_stop_def upd_timer_def\<close>)
  then have "uv_close h l = Done (upd_timer h ?c l0\<lparr>lp_closing_handles := h # lp_closing_handles (upd_timer h ?c l0)\<rparr>)"
    using assms(2) by (simp add: uv_close_def uv__timer_close_def uv__make_close_pending_def)
  moreover have "timer_inv (upd_timer h ?c l0\<lparr>lp_closing_handles := h # lp_closing_handles (upd_timer h ?c l0)\<rparr>)"
  proof -
    have "timer_inv (upd_timer h ?c l0)" using l0(2,4) by (intro upd_keep_inv) auto
    moreover have "h \<notin> set (lp_closing_handles (upd_timer h ?c l0))"
      using timer_inv_closing(2) [OF l0(2), of h] assms(2) l0(4) by (auto simp: upd_timer_def uv__is_closing_def)
    moreover have "tm_closing (timer (upd_timer h ?c l0) h)" by (simp add: upd_timer_def)
    ultimately show ?thesis by (simp add: timer_inv_def active_timers_def)
  qed
  ultimately show ?thesis using l0(3,4) by (auto simp: same_loop_def upd_timer_def)
qed

subsection \<open>Steps\<close>

text \<open>The operations a program may do on the timers of a loop. There are at most \<open>MAX_TIMERS\<close> timers; a
  timer is initialised only while it is idle and not waiting for its close callback, and closed once.\<close>

inductive timer_step :: "uv_loop_t \<Rightarrow> uv_loop_t \<Rightarrow> bool" where
  init: "\<not> tm_active (timer l h) \<Longrightarrow> h \<notin> set (lp_closing_handles l) \<Longrightarrow> timer_step l (uv_timer_init h l)"
| start: "h < MAX_TIMERS \<Longrightarrow> uv_timer_start h cb timeout repeat l = Done (r, l') \<Longrightarrow> timer_step l l'"
| stop: "uv_timer_stop h l = Done l' \<Longrightarrow> timer_step l l'"
| again: "h < MAX_TIMERS \<Longrightarrow> uv_timer_again h l = Done (r, l') \<Longrightarrow> timer_step l l'"
| set_repeat: "timer_step l (uv_timer_set_repeat h repeat l)"
| close: "uv_close h l = Done l' \<Longrightarrow> timer_step l l'"

text \<open>Between two states: a timer that is active afterwards was active before with the same due time, start
  number and round, or it was started in between, in this round, and is not due before the present time.\<close>

definition timers_kept :: "uv_loop_t \<Rightarrow> uv_loop_t \<Rightarrow> bool" where
  "timers_kept l l' \<longleftrightarrow> same_loop l l' \<and>
     (\<forall>h \<in> active_timers l'.
        (h \<in> active_timers l \<and> tm_timeout (timer l' h) = tm_timeout (timer l h) \<and>
           tm_start_id (timer l' h) = tm_start_id (timer l h) \<and> tm_round (timer l' h) = tm_round (timer l h)) \<or>
        (tm_round (timer l' h) = lp_round l \<and> lp_time l \<le> tm_timeout (timer l' h)))"

lemma timers_kept_refl [simp]: "timers_kept l l"
  by (simp add: timers_kept_def)

lemma timers_kept_trans:
  assumes "timers_kept l l'" "timers_kept l' l''"
  shows "timers_kept l l''"
  using assms unfolding timers_kept_def same_loop_def by auto metis+

lemma clamped_ge: "time \<le> clamped time timeout"
proof (cases "time + timeout < timeout")
  case True
  then show ?thesis by (simp add: clamped_def)
next
  case False
  have b: "unat x < 2 ^ 64" for x :: u64 using unsigned_less [where 'a = nat, of x] by simp
  from False have "unat time + unat timeout < 2 ^ 64"
    using unat_plus_if_size [of time timeout] b [of time] b [of timeout]
    by (auto simp: word_less_nat_alt word_size split: if_splits)
  then show ?thesis using False by (simp add: clamped_def word_le_nat_alt unat_add_lt)
qed

lemma timer_step_kept:
  assumes "timer_step l l'" "timer_inv l"
  shows "timer_inv l' \<and> timers_kept l l'"
  using assms
proof cases
  case (init h)
  then show ?thesis using assms(2)
    by (auto simp: uv_timer_init_def timers_kept_def same_loop_def active_timers_def upd_timer_def
        intro!: upd_keep_inv [unfolded upd_timer_def])
next
  case (start h cb timeout repeat r)
  then show ?thesis
    using start_inv [OF assms(2) start(1), of cb timeout repeat] clamped_ge [of "lp_time l" timeout]
    by (auto simp: timers_kept_def active_timers_def split: if_splits)
next
  case (stop h)
  then show ?thesis using stop_inv [OF assms(2), of h] by (auto simp: timers_kept_def active_timers_def)
next
  case (again h r)
  then have l': "timer_inv l'" "same_loop l l'" "\<And>x. x \<noteq> h \<Longrightarrow> timer l' x = timer l x"
    "tm_active (timer l' h) \<Longrightarrow> timer l' h = timer l h \<or>
       tm_round (timer l' h) = lp_round l \<and> tm_timeout (timer l' h) = clamped (lp_time l) (tm_repeat (timer l h))"
    using again_inv [OF assms(2) again(1)] by auto
  have "x \<in> active_timers l \<and> timer l' x = timer l x \<or>
      tm_round (timer l' x) = lp_round l \<and> lp_time l \<le> tm_timeout (timer l' x)" if "x \<in> active_timers l'" for x
    using that l'(3) [of x] l'(4) clamped_ge [of "lp_time l" "tm_repeat (timer l h)"]
    by (cases "x = h") (auto simp: active_timers_def)
  then show ?thesis using l'(1,2) unfolding timers_kept_def by metis
next
  case (set_repeat h repeat)
  then show ?thesis using assms(2)
    by (auto simp: uv_timer_set_repeat_def timers_kept_def same_loop_def active_timers_def upd_timer_def
        intro!: upd_keep_inv [unfolded upd_timer_def])
next
  case (close h)
  then have "\<not> uv__is_closing (timer l h)" by (simp add: uv_close_def c_assert_def split: if_splits)
  then show ?thesis using uv_close_inv [OF assms(2), of h] close by (auto simp: timers_kept_def active_timers_def)
qed

lemma timer_steps_kept: "timer_step\<^sup>*\<^sup>* l l' \<Longrightarrow> timer_inv l \<Longrightarrow> timer_inv l' \<and> timers_kept l l'"
proof (induction rule: rtranclp_induct)
  case (step l' l'')
  then show ?case using timer_step_kept [of l' l''] timers_kept_trans by blast
qed simp

text \<open>What is asked of a callback: it ends, and its effect is a sequence of operations on timers.\<close>

definition timer_callback :: "(addr \<Rightarrow> uv_loop_t \<Rightarrow> uv_loop_t c_run) \<Rightarrow> bool" where
  "timer_callback timer_cb \<longleftrightarrow> (\<forall>h l. timer_inv l \<longrightarrow> (\<exists>l'. timer_cb h l = Done l' \<and> timer_step\<^sup>*\<^sup>* l l'))"

text \<open>Timers of earlier rounds; only these fire, and nothing adds to them during a pass.\<close>

definition older :: "uv_loop_t \<Rightarrow> addr set" where
  "older l = {h \<in> active_timers l. tm_round (timer l h) \<noteq> lp_round l}"

lemma older_kept: "timers_kept l l' \<Longrightarrow> older l' \<subseteq> older l"
  by (auto simp: older_def timers_kept_def same_loop_def)

lemma older_kept_key: "timers_kept l l' \<Longrightarrow> h \<in> older l' \<Longrightarrow>
    tm_timeout (timer l' h) = tm_timeout (timer l h) \<and> tm_start_id (timer l' h) = tm_start_id (timer l h)"
  by (auto simp: older_def timers_kept_def same_loop_def)

text \<open>One turn of the loop: the timer at the top leaves the older timers, then its callback runs.\<close>

lemma run_turn:
  assumes inv: "timer_inv l" and cb: "timer_callback timer_cb" and h: "h \<in> older l"
  shows "\<exists>l'. c_bind (uv_timer_stop h l) (\<lambda>l. c_bind (uv_timer_again h l) (\<lambda>(_, l).
      timer_cb h (l\<lparr>lp_fired := lp_fired l @ [h]\<rparr>))) = Done l' \<and> timer_inv l' \<and>
    timers_kept (l\<lparr>lp_fired := lp_fired l @ [h]\<rparr>) l' \<and> older l' \<subseteq> older l - {h}"
proof -
  have hm: "h < MAX_TIMERS" using timer_inv_ok [OF inv, of h] h by (auto simp: older_def)
  obtain l0 where l0: "uv_timer_stop h l = Done l0" "timer_inv l0" "same_loop l l0"
    "lp_timers l0 = (lp_timers l)(h := timer l h\<lparr>tm_active := False\<rparr>)"
    using stop_inv [OF inv, of h] by blast
  have k0: "timers_kept l l0" using timer_step_kept [OF timer_step.stop [OF l0(1)] inv] by simp
  obtain r l1 where l1: "uv_timer_again h l0 = Done (r, l1)" "timer_inv l1" "same_loop l0 l1"
    using again_inv [OF l0(2) hm] by metis
  have k1: "timers_kept l0 l1" using timer_step_kept [OF timer_step.again [OF hm l1(1)] l0(2)] by simp
  obtain l' where l': "timer_cb h (l1\<lparr>lp_fired := lp_fired l1 @ [h]\<rparr>) = Done l'"
    and s: "timer_step\<^sup>*\<^sup>* (l1\<lparr>lp_fired := lp_fired l1 @ [h]\<rparr>) l'"
    using cb [unfolded timer_callback_def, rule_format, of "l1\<lparr>lp_fired := lp_fired l1 @ [h]\<rparr>" h] l1(2) by auto
  have k2: "timer_inv l' \<and> timers_kept (l1\<lparr>lp_fired := lp_fired l1 @ [h]\<rparr>) l'"
    using timer_steps_kept [OF s] l1(2) by simp
  have "timers_kept (l\<lparr>lp_fired := lp_fired l @ [h]\<rparr>) (l1\<lparr>lp_fired := lp_fired l1 @ [h]\<rparr>)"
    using timers_kept_trans [OF k0 k1] by (auto simp: timers_kept_def same_loop_def active_timers_def)
  then have "timers_kept (l\<lparr>lp_fired := lp_fired l @ [h]\<rparr>) l'" using k2 timers_kept_trans by blast
  moreover have "older l' \<subseteq> older l - {h}"
  proof -
    have "older l0 \<subseteq> older l - {h}"
      using older_kept [OF k0] l0(4) by (auto simp: older_def active_timers_def)
    moreover have "older l1 \<subseteq> older l0" by (rule older_kept [OF k1])
    moreover have "older l' \<subseteq> older (l1\<lparr>lp_fired := lp_fired l1 @ [h]\<rparr>)" using k2 older_kept by blast
    moreover have "older (l1\<lparr>lp_fired := lp_fired l1 @ [h]\<rparr>) = older l1" by (simp add: older_def active_timers_def)
    ultimately show ?thesis by blast
  qed
  ultimately show ?thesis using l0(1) l1(1) l' k2 by simp
qed

lemma older_sub: "older l \<subseteq> active_timers l"
  by (auto simp: older_def)

text \<open>A pass stops at a top that is not there, not due, or of the current round.\<close>

definition pass_over :: "uv_loop_t \<Rightarrow> bool" where
  "pass_over l \<longleftrightarrow> (case heap_min (lp_timer_heap l) of
     None \<Rightarrow> True | Some h \<Rightarrow> lp_time l < tm_timeout (timer l h) \<or> tm_round (timer l h) = lp_round l)"

lemma run_timers_over: "pass_over l \<Longrightarrow> uv__run_timers timer_cb l = Some (Done l)"
  by (subst uv__run_timers.simps) (auto simp: pass_over_def split: option.splits)

lemma run_timers_turn:
  assumes inv: "timer_inv l" and "timer_callback timer_cb" "\<not> pass_over l"
  obtains h l1 where "heap_min (lp_timer_heap l) = Some h" "h \<in> older l" "tm_timeout (timer l h) \<le> lp_time l"
    "uv__run_timers timer_cb l = uv__run_timers timer_cb l1" "timer_inv l1"
    "timers_kept (l\<lparr>lp_fired := lp_fired l @ [h]\<rparr>) l1" "older l1 \<subseteq> older l - {h}"
proof -
  obtain h where h: "heap_min (lp_timer_heap l) = Some h" "tm_timeout (timer l h) \<le> lp_time l"
    "tm_round (timer l h) \<noteq> lp_round l"
    using assms(3) by (auto simp: pass_over_def split: option.splits)
  have old: "h \<in> older l" using tl.min_holds(2) [OF timer_inv_heap [OF inv] h(1)] h(3) by (simp add: older_def)
  from run_turn [OF inv assms(2) old] obtain l1 where l1: "c_bind (uv_timer_stop h l) (\<lambda>l. c_bind (uv_timer_again h l) (\<lambda>(_, l).
      timer_cb h (l\<lparr>lp_fired := lp_fired l @ [h]\<rparr>))) = Done l1" "timer_inv l1"
    "timers_kept (l\<lparr>lp_fired := lp_fired l @ [h]\<rparr>) l1" "older l1 \<subseteq> older l - {h}"
    by blast
  have "uv__run_timers timer_cb l = uv__run_timers timer_cb l1"
    by (subst uv__run_timers.simps) (use h leD [OF h(2)] l1(1) in simp)
  with h old l1(2-) that show thesis by blast
qed

lemma run_timers_spec:
  assumes "timer_callback timer_cb" "timer_inv l"
  shows "\<exists>l' fs. uv__run_timers timer_cb l = Some (Done l') \<and> timer_inv l' \<and> pass_over l' \<and>
    lp_fired l' = lp_fired l @ fs \<and> timers_kept (l\<lparr>lp_fired := lp_fired l'\<rparr>) l' \<and>
    distinct fs \<and> set fs \<subseteq> older l - older l' \<and> (\<forall>h \<in> set fs. tm_timeout (timer l h) \<le> lp_time l) \<and>
    sorted_wrt (\<lambda>a b. \<not> timer_lt (lp_timers l) b a) fs"
  using assms(2)
proof (induction "card (older l)" arbitrary: l rule: less_induct)
  case less
  show ?case
  proof (cases "pass_over l")
    case True
    then show ?thesis using run_timers_over less.prems by (intro exI [of _ l] exI [of _ "[]"]) simp
  next
    case False
    obtain h l1 where h: "heap_min (lp_timer_heap l) = Some h" "h \<in> older l" "tm_timeout (timer l h) \<le> lp_time l"
      and l1: "uv__run_timers timer_cb l = uv__run_timers timer_cb l1" "timer_inv l1"
      "timers_kept (l\<lparr>lp_fired := lp_fired l @ [h]\<rparr>) l1" "older l1 \<subseteq> older l - {h}"
      using run_timers_turn [OF less.prems assms(1) False] by metis
    have "finite (older l)" using finite_active [OF less.prems] older_sub finite_subset by blast
    then have "card (older l1) < card (older l)" using l1(4) h(2) by (intro psubset_card_mono) auto
    from less.hyps [OF this l1(2)] obtain l' fs where l': "uv__run_timers timer_cb l1 = Some (Done l')"
      "timer_inv l'" "pass_over l'" "lp_fired l' = lp_fired l1 @ fs" "timers_kept (l1\<lparr>lp_fired := lp_fired l'\<rparr>) l'"
      "distinct fs" "set fs \<subseteq> older l1 - older l'" "\<forall>x \<in> set fs. tm_timeout (timer l1 x) \<le> lp_time l1"
      "sorted_wrt (\<lambda>a b. \<not> timer_lt (lp_timers l1) b a) fs"
      by blast
    have f1: "lp_fired l1 = lp_fired l @ [h]" "lp_time l1 = lp_time l" using l1(3) by (auto simp: timers_kept_def same_loop_def)
    have "timers_kept (l\<lparr>lp_fired := lp_fired l'\<rparr>) (l1\<lparr>lp_fired := lp_fired l'\<rparr>)"
      using l1(3) by (auto simp: timers_kept_def same_loop_def active_timers_def)
    then have kept: "timers_kept (l\<lparr>lp_fired := lp_fired l'\<rparr>) l'" using l'(5) timers_kept_trans by blast
    have key: "tm_timeout (timer l1 x) = tm_timeout (timer l x) \<and> tm_start_id (timer l1 x) = tm_start_id (timer l x)"
      if "x \<in> set fs" for x
      using older_kept_key [OF l1(3), of x] l'(7) that by auto
    have lt: "timer_lt (lp_timers l1) a b = timer_lt (lp_timers l) a b" if "a \<in> set fs" "b \<in> set fs" for a b
      using key that by (simp add: timer_lt_def Let_def)
    have "sorted_wrt (\<lambda>a b. \<not> timer_lt (lp_timers l) b a) fs"
      using sorted_wrt_mono_rel [OF _ l'(9), of "\<lambda>a b. \<not> timer_lt (lp_timers l) b a"] lt by auto
    moreover have "\<not> timer_lt (lp_timers l) x h" if "x \<in> set fs" for x
      using tl.min_holds(3) [OF timer_inv_heap [OF less.prems] h(1)] that l'(7) l1(4) older_sub by blast
    moreover have "older l' \<subseteq> older l1" using older_kept [OF l'(5)] by (simp add: older_def active_timers_def)
    ultimately show ?thesis
      using l' l1 h f1 kept key by (intro exI [of _ l'] exI [of _ "h # fs"]) auto
  qed
qed

subsection \<open>One round of the loop\<close>

definition uv__update_time :: "u64 \<Rightarrow> uv_loop_t \<Rightarrow> uv_loop_t" where
  "uv__update_time now l = l\<lparr>lp_time := now\<rparr>"

text \<open>A round of \<^verbatim>\<open>uv_crun\<close>. The phases before the closing handles (pending, idle and prepare callbacks, the
  poll, the check callbacks) are a parameter; \<open>now\<close> is what the clock reads behind them.\<close>

definition uv_crun_round ::
  "(uv_loop_t \<Rightarrow> uv_loop_t c_run) \<Rightarrow> (addr \<Rightarrow> uv_loop_t \<Rightarrow> uv_loop_t c_run) \<Rightarrow> u64 \<Rightarrow> uv_loop_t \<Rightarrow> uv_loop_t c_run" where
  "uv_crun_round phases timer_cb now l =
     (let l = l\<lparr>lp_round := lp_round l + 1\<rparr>
      in c_bind (phases l) (\<lambda>l.
           let l = uv__run_closing_handles l;
               l = uv__update_time now l
           in case uv__run_timers timer_cb l of None \<Rightarrow> Diverges | Some r \<Rightarrow> r))"

text \<open>What happens to the timers in those phases: operations, and the clock going forward.\<close>

inductive phase_step :: "uv_loop_t \<Rightarrow> uv_loop_t \<Rightarrow> bool" where
  op: "timer_step l l' \<Longrightarrow> phase_step l l'"
| clock: "lp_time l \<le> now \<Longrightarrow> phase_step l (uv__update_time now l)"

text \<open>The timers of the current round are not due before \<open>t0\<close>, a time that has passed.\<close>

definition started_from :: "u64 \<Rightarrow> uv_loop_t \<Rightarrow> bool" where
  "started_from t0 l \<longleftrightarrow> t0 \<le> lp_time l \<and>
     (\<forall>h \<in> active_timers l. tm_round (timer l h) = lp_round l \<longrightarrow> t0 \<le> tm_timeout (timer l h))"

lemma kept_started_from: "timers_kept l l' \<Longrightarrow> started_from t0 l \<Longrightarrow> started_from t0 l'"
  unfolding timers_kept_def started_from_def same_loop_def by (auto intro: order_trans)

lemma phase_steps:
  "phase_step\<^sup>*\<^sup>* l l' \<Longrightarrow> timer_inv l \<Longrightarrow> started_from t0 l \<Longrightarrow>
   timer_inv l' \<and> started_from t0 l' \<and> lp_time l \<le> lp_time l' \<and> lp_round l' = lp_round l \<and>
   lp_fired l' = lp_fired l \<and> older l' \<subseteq> older l"
proof (induction rule: rtranclp_induct)
  case (step l1 l2)
  then have ih: "timer_inv l1" "started_from t0 l1" "lp_time l \<le> lp_time l1" "lp_round l1 = lp_round l"
    "lp_fired l1 = lp_fired l" "older l1 \<subseteq> older l" by auto
  from step.hyps(2) show ?case
  proof cases
    case op
    then show ?thesis
      using timer_step_kept [OF op ih(1)] kept_started_from [of l1 l2 t0] older_kept [of l1 l2] ih
      by (auto simp: timers_kept_def same_loop_def)
  next
    case (clock now)
    then show ?thesis using ih
      by (auto simp: uv__update_time_def started_from_def active_timers_def older_def)
  qed
qed simp

lemma finish_close_inv:
  "timer_inv l \<Longrightarrow> tm_closing (timer l h) \<Longrightarrow> h \<notin> set (lp_closing_handles l) \<Longrightarrow> timer_inv (uv__finish_close h l)"
  using timer_inv_ok [of l h] unfolding uv__finish_close_def Let_def
  by (subst timer_inv_fields) (intro upd_keep_inv, auto simp: active_timers_def uv__is_closing_def)

lemma finish_close_other:
  "tm_closing (timer (uv__finish_close h l) x) = tm_closing (timer l x)"
  "tm_active (timer (uv__finish_close h l) x) = tm_active (timer l x)"
  "x \<noteq> h \<Longrightarrow> timer (uv__finish_close h l) x = timer l x"
  "lp_closing_handles (uv__finish_close h l) = lp_closing_handles l"
  "lp_freed (uv__finish_close h l) = lp_freed l @ [h]"
  "lp_time (uv__finish_close h l) = lp_time l" "lp_round (uv__finish_close h l) = lp_round l"
  "lp_fired (uv__finish_close h l) = lp_fired l" "lp_starts (uv__finish_close h l) = lp_starts l"
  by (simp_all add: uv__finish_close_def upd_timer_def)

lemma finish_closes:
  "timer_inv l \<Longrightarrow> \<forall>h \<in> set hs. tm_closing (timer l h) \<Longrightarrow> lp_closing_handles l = [] \<Longrightarrow>
   timer_inv (fold uv__finish_close hs l) \<and> lp_freed (fold uv__finish_close hs l) = lp_freed l @ hs \<and>
   lp_closing_handles (fold uv__finish_close hs l) = [] \<and>
   active_timers (fold uv__finish_close hs l) = active_timers l \<and>
   (\<forall>x \<in> active_timers l. timer (fold uv__finish_close hs l) x = timer l x) \<and>
   lp_time (fold uv__finish_close hs l) = lp_time l \<and> lp_round (fold uv__finish_close hs l) = lp_round l \<and>
   lp_fired (fold uv__finish_close hs l) = lp_fired l \<and> lp_starts (fold uv__finish_close hs l) = lp_starts l"
proof (induction hs arbitrary: l)
  case (Cons h hs)
  let ?l = "uv__finish_close h l"
  have inv: "timer_inv ?l" using Cons.prems by (intro finish_close_inv) auto
  have act: "active_timers ?l = active_timers l" by (simp add: active_timers_def finish_close_other)
  have "h \<notin> active_timers l" using timer_inv_ok [OF Cons.prems(1), of h] Cons.prems(2) by (auto simp: uv__is_closing_def)
  then have "\<forall>x \<in> active_timers l. timer ?l x = timer l x" using finish_close_other(3) by metis
  then show ?case using Cons.IH [OF inv] Cons.prems act by (simp add: finish_close_other)
qed simp

text \<open>Closing handles: the close callbacks run once for each handle, last closed first; the active timers
  are left alone.\<close>

lemma run_closing_handles:
  assumes "timer_inv l"
  defines "l' \<equiv> uv__run_closing_handles l"
  shows "timer_inv l'" "lp_freed l' = lp_freed l @ lp_closing_handles l" "lp_closing_handles l' = []"
    "active_timers l' = active_timers l" "x \<in> active_timers l \<Longrightarrow> timer l' x = timer l x"
    "lp_time l' = lp_time l" "lp_round l' = lp_round l" "lp_fired l' = lp_fired l" "lp_starts l' = lp_starts l"
proof -
  have "timer_inv (l\<lparr>lp_closing_handles := []\<rparr>)" using assms(1) by (simp add: timer_inv_def active_timers_def)
  from finish_closes [OF this, of "lp_closing_handles l"] timer_inv_closing(2) [OF assms(1)]
  have "timer_inv l' \<and> lp_freed l' = lp_freed l @ lp_closing_handles l \<and> lp_closing_handles l' = [] \<and>
    active_timers l' = active_timers l \<and> (\<forall>x \<in> active_timers l. timer l' x = timer l x) \<and>
    lp_time l' = lp_time l \<and> lp_round l' = lp_round l \<and> lp_fired l' = lp_fired l \<and> lp_starts l' = lp_starts l"
    by (simp add: l'_def uv__run_closing_handles_def active_timers_def)
  then show "timer_inv l'" "lp_freed l' = lp_freed l @ lp_closing_handles l" "lp_closing_handles l' = []"
    "active_timers l' = active_timers l" "x \<in> active_timers l \<Longrightarrow> timer l' x = timer l x"
    "lp_time l' = lp_time l" "lp_round l' = lp_round l" "lp_fired l' = lp_fired l" "lp_starts l' = lp_starts l"
    by auto
qed

lemma next_round_inv:
  assumes inv: "timer_inv l" and "lp_round l \<noteq> - 1"
  shows "timer_inv (l\<lparr>lp_round := lp_round l + 1\<rparr>)" and "older (l\<lparr>lp_round := lp_round l + 1\<rparr>) = active_timers l"
proof -
  have "lp_round l < lp_round l + 1" using assms(2) unatSuc [of "lp_round l"]
    by (auto simp: word_less_nat_alt add.commute eq_neg_iff_add_eq_0)
  then have lt: "tm_round (timer l h) < lp_round l + 1" if "h \<in> active_timers l" for h
    using timer_inv_ok [OF inv that] by (meson le_less_trans)
  have act: "active_timers (l\<lparr>lp_round := lp_round l + 1\<rparr>) = active_timers l" by (simp add: active_timers_def)
  have ne: "tm_round (timer l h) \<noteq> lp_round l + 1" if "h \<in> active_timers l" for h using lt [OF that] by auto
  show "timer_inv (l\<lparr>lp_round := lp_round l + 1\<rparr>)"
    using inv lt ne by (auto simp: timer_inv_def act less_imp_le)
  show "older (l\<lparr>lp_round := lp_round l + 1\<rparr>) = active_timers l" using lt by (force simp: older_def act)
qed

text \<open>Where a pass stops, the timers of earlier rounds that are left are due later than \<open>t0\<close>.\<close>

lemma pass_over_left:
  assumes inv: "timer_inv l" and "pass_over l" "started_from t0 l" "lp_starts l < 2 ^ 64" "x \<in> older l"
  shows "t0 < tm_timeout (timer l x)"
proof -
  have x: "x \<in> active_timers l" "tm_round (timer l x) \<noteq> lp_round l" using assms(5) by (auto simp: older_def)
  note mn = tl.min_holds [OF timer_inv_heap [OF inv]]
  obtain h where h: "heap_min (lp_timer_heap l) = Some h" using mn(1) x(1) by fastforce
  have hx: "h \<in> active_timers l" "\<not> timer_lt (lp_timers l) x h" using mn(2) [OF h] mn(3) [OF h x(1)] by auto
  have le: "tm_timeout (timer l h) \<le> tm_timeout (timer l x)"
    using hx(2) by (auto simp: timer_lt_def Let_def split: if_splits)
  show ?thesis
  proof (cases "tm_round (timer l h) = lp_round l")
    case True
    then have "tm_start_id (timer l x) < tm_start_id (timer l h)"
      using timer_inv_round [OF inv assms(4) x(1) hx(1) x(2)] by simp
    then have "tm_timeout (timer l h) \<noteq> tm_timeout (timer l x)" using hx(2) by (auto simp: timer_lt_def Let_def)
    moreover have "t0 \<le> tm_timeout (timer l h)" using assms(3) hx(1) True by (auto simp: started_from_def)
    ultimately show ?thesis using le by (meson le_less_trans order.not_eq_order_implies_strict)
  next
    case False
    then have "lp_time l < tm_timeout (timer l h)" using assms(2) h by (simp add: pass_over_def)
    then show ?thesis using assms(3) le by (meson le_less_trans less_le_trans started_from_def)
  qed
qed

subsection \<open>Theorems\<close>

text \<open>C10: A pass over the due timers ends whatever the callbacks do to the timers, restarting themselves at once
  included, because a timer started during the pass belongs to the current round. The timers that fire do
  so once, were started in earlier rounds, are due, and fire in the order of their due times, those with
  the same time in the order they were started.\<close>

theorem run_timers_ends:
  assumes "timer_callback timer_cb" "timer_inv l"
  shows "\<exists>l' fs. uv__run_timers timer_cb l = Some (Done l') \<and> timer_inv l' \<and> lp_fired l' = lp_fired l @ fs \<and>
    distinct fs \<and> set fs \<subseteq> active_timers l \<and>
    (\<forall>h. h \<in> set fs \<longrightarrow> tm_timeout (timer l h) \<le> lp_time l \<and> tm_round (timer l h) \<noteq> lp_round l) \<and>
    sorted_wrt (\<lambda>a b. \<not> timer_lt (lp_timers l) b a) fs"
proof -
  obtain l' fs where "uv__run_timers timer_cb l = Some (Done l')" "timer_inv l'" "lp_fired l' = lp_fired l @ fs"
    "distinct fs" "set fs \<subseteq> older l - older l'" "\<forall>h \<in> set fs. tm_timeout (timer l h) \<le> lp_time l"
    "sorted_wrt (\<lambda>a b. \<not> timer_lt (lp_timers l) b a) fs"
    using run_timers_spec [OF assms] by metis
  then show ?thesis by (intro exI [of _ l'] exI [of _ fs]) (auto simp: older_def)
qed

text \<open>A round of the loop, as the clients of the timers see it.\<close>

lemma crun_round_spec:
  assumes "timer_inv l" "lp_round l \<noteq> - 1" "timer_callback timer_cb"
    and phases: "phases (l\<lparr>lp_round := lp_round l + 1\<rparr>) = Done l1" "phase_step\<^sup>*\<^sup>* (l\<lparr>lp_round := lp_round l + 1\<rparr>) l1"
    and now: "lp_time l1 \<le> now"
  shows "\<exists>l'. uv_crun_round phases timer_cb now l = Done l' \<and> timer_inv l' \<and>
    lp_round l' = lp_round l + 1 \<and> lp_freed l' = lp_freed l1 @ lp_closing_handles l1 \<and>
    (lp_starts l' < 2 ^ 64 \<longrightarrow>
      (\<forall>h \<in> older l'. lp_time l < tm_timeout (timer l' h)))"
proof -
  let ?l = "l\<lparr>lp_round := lp_round l + 1\<rparr>"
  note r = next_round_inv [OF assms(1,2)]
  have "started_from (lp_time l) ?l" using r(2) by (auto simp: started_from_def older_def active_timers_def)
  from phase_steps [OF phases(2) r(1) this] have l1: "timer_inv l1" "started_from (lp_time l) l1" "lp_round l1 = lp_round l + 1" by auto
  define l2 where "l2 = uv__update_time now (uv__run_closing_handles l1)"
  note c = run_closing_handles [OF l1(1)]
  have l2: "timer_inv l2" "lp_freed l2 = lp_freed l1 @ lp_closing_handles l1" using c by (simp_all add: l2_def uv__update_time_def)
  have s2: "started_from (lp_time l) l2"
    using l1(2) now c(4-7) by (auto simp: started_from_def l2_def uv__update_time_def active_timers_def intro: order_trans)
  obtain l' where l': "uv__run_timers timer_cb l2 = Some (Done l')" "timer_inv l'" "pass_over l'"
    "timers_kept (l2\<lparr>lp_fired := lp_fired l'\<rparr>) l'"
    using run_timers_spec [OF assms(3) l2(1)] by metis
  have "started_from (lp_time l) (l2\<lparr>lp_fired := lp_fired l'\<rparr>)" using s2 by (simp add: started_from_def active_timers_def)
  then have "started_from (lp_time l) l'" using kept_started_from [OF l'(4)] by blast
  then have "lp_time l < tm_timeout (timer l' h)" if "lp_starts l' < 2 ^ 64" "h \<in> older l'" for h
    using pass_over_left [OF l'(2,3) _ that] by simp
  moreover have "uv_crun_round phases timer_cb now l = Done l'"
    using phases(1) l'(1) by (simp add: uv_crun_round_def Let_def l2_def)
  moreover have "lp_round l' = lp_round l + 1"
    using l'(4) c(7) l1(3) by (simp add: timers_kept_def same_loop_def l2_def uv__update_time_def)
  moreover have "lp_freed l' = lp_freed l1 @ lp_closing_handles l1"
    using l'(4) l2(2) by (simp add: timers_kept_def same_loop_def)
  ultimately show ?thesis using l'(2) by blast
qed

text \<open>C4: No due timer is missed: a round of the loop ends, and afterwards no timer that was already due when
  the round began is still waiting. Timers that I/O callbacks start in the same round do not hold the
  others up, although the pass stops at the first of them it meets.\<close>

theorem crun_round_fires_due:
  assumes "timer_inv l" "lp_round l \<noteq> - 1" "timer_callback timer_cb"
    and phases: "phases (l\<lparr>lp_round := lp_round l + 1\<rparr>) = Done l1" "phase_step\<^sup>*\<^sup>* (l\<lparr>lp_round := lp_round l + 1\<rparr>) l1"
    and now: "lp_time l1 \<le> now"
  shows "\<exists>l'. uv_crun_round phases timer_cb now l = Done l' \<and> timer_inv l' \<and>
    lp_freed l' = lp_freed l1 @ lp_closing_handles l1 \<and>
    (lp_starts l' < 2 ^ 64 \<longrightarrow>
      (\<forall>h. h \<in> active_timers l' \<longrightarrow> tm_round (timer l' h) \<noteq> lp_round l' \<longrightarrow> lp_time l < tm_timeout (timer l' h)))"
  using crun_round_spec [OF assms(1-3), where phases = phases, OF phases now] by (auto simp: older_def)

text \<open>The states of a loop: from an initialised one by operations on timers, the clock, and whole rounds.\<close>

definition uv_loop_init :: "heap_store \<Rightarrow> uv_timer_t \<Rightarrow> u64 \<Rightarrow> uv_loop_t" where
  "uv_loop_init hp t now = \<lparr>lp_time = now, lp_round = 0, lp_timer_counter = 0, lp_active_handles = 0,
     lp_timer_heap = heap_init hp, lp_closing_handles = [], lp_timers = (\<lambda>_. t\<lparr>tm_active := False\<rparr>),
     lp_starts = 0, lp_fired = [], lp_freed = []\<rparr>"

definition loop_start :: "uv_loop_t \<Rightarrow> bool" where
  "loop_start l \<longleftrightarrow> (\<exists>hp t now. l = uv_loop_init hp t now)"

inductive loop_step :: "uv_loop_t \<Rightarrow> uv_loop_t \<Rightarrow> bool" where
  phase: "phase_step l l' \<Longrightarrow> loop_step l l'"
| round: "lp_round l \<noteq> - 1 \<Longrightarrow> timer_callback timer_cb \<Longrightarrow> phases (l\<lparr>lp_round := lp_round l + 1\<rparr>) = Done l1 \<Longrightarrow>
    phase_step\<^sup>*\<^sup>* (l\<lparr>lp_round := lp_round l + 1\<rparr>) l1 \<Longrightarrow> lp_time l1 \<le> now \<Longrightarrow>
    uv_crun_round phases timer_cb now l = Done l' \<Longrightarrow> loop_step l l'"

lemma uv_loop_init_inv: "timer_inv (uv_loop_init hp t now)"
  using init_holds [of "timer_lt (\<lambda>_. t\<lparr>tm_active := False\<rparr>)" hp]
  by (simp add: timer_inv_def uv_loop_init_def active_timers_def)

lemma phase_step_inv: "phase_step l l' \<Longrightarrow> timer_inv l \<Longrightarrow> timer_inv l'"
  by (erule phase_step.cases) (auto dest: timer_step_kept simp: uv__update_time_def)

lemma phase_steps_inv: "phase_step\<^sup>*\<^sup>* l l' \<Longrightarrow> timer_inv l \<Longrightarrow> timer_inv l'"
  by (induction rule: rtranclp_induct) (auto intro: phase_step_inv)

lemma round_inv:
  assumes inv: "timer_inv l" and "lp_round l \<noteq> - 1" "timer_callback timer_cb"
    "phases (l\<lparr>lp_round := lp_round l + 1\<rparr>) = Done l1" "phase_step\<^sup>*\<^sup>* (l\<lparr>lp_round := lp_round l + 1\<rparr>) l1"
    "uv_crun_round phases timer_cb now l = Done l'"
  shows "timer_inv l'"
proof -
  have "timer_inv l1" using phase_steps_inv [OF assms(5)] next_round_inv(1) [OF assms(1,2)] by blast
  then have "timer_inv (uv__update_time now (uv__run_closing_handles l1))"
    using run_closing_handles(1) by (simp add: uv__update_time_def)
  from run_timers_spec [OF assms(3) this] show ?thesis
    using assms(4,6) by (auto simp: uv_crun_round_def Let_def)
qed

interpretation timers: machine loop_start loop_step timer_inv
proof unfold_locales
  show "timer_inv l" if "loop_start l" for l using that uv_loop_init_inv by (auto simp: loop_start_def)
  show "timer_inv l'" if "loop_step l l'" "timer_inv l" for l l'
    using that by cases (auto intro: phase_step_inv round_inv)
qed

abbreviation loop_reachable :: "uv_loop_t \<Rightarrow> bool" where
  "loop_reachable \<equiv> reach loop_start loop_step"

text \<open>C11: In every reachable state the top of the heap is an active timer than which none is due earlier, there
  is one exactly while a timer is active, no timer that is being closed is active, and the loop counts the
  active timers that keep it alive.\<close>

theorem timers_invariant:
  assumes "loop_reachable l"
  shows "(heap_min (lp_timer_heap l) = None) = (active_timers l = {}) \<and>
    (\<forall>h x. heap_min (lp_timer_heap l) = Some h \<longrightarrow> x \<in> active_timers l \<longrightarrow>
       h \<in> active_timers l \<and> tm_timeout (timer l h) \<le> tm_timeout (timer l x)) \<and>
    (\<forall>h. uv__is_closing (timer l h) \<longrightarrow> h \<notin> active_timers l) \<and>
    lp_active_handles l = of_nat (card {h \<in> active_timers l. tm_ref (timer l h)})"
proof -
  have inv: "timer_inv l" using timers.reach_inv [OF assms] .
  note m = tl.min_holds [OF timer_inv_heap [OF inv]]
  have "tm_timeout (timer l h) \<le> tm_timeout (timer l x)"
    if "heap_min (lp_timer_heap l) = Some h" "x \<in> active_timers l" for h x
    using m(3) [OF that] by (auto simp: timer_lt_def Let_def split: if_splits)
  then show ?thesis using m(1,2) timer_inv_ok [OF inv] timer_inv_count [OF inv] by blast
qed

text \<open>How long the loop may sleep: for ever exactly when no timer is active, and otherwise not beyond the
  due time of any timer; a sleep shorter than the largest \<^verbatim>\<open>int\<close> ends when some timer is due.\<close>

theorem next_timeout_exact:
  assumes "loop_reachable l"
  shows "(uv__next_timeout l = - 1) = (active_timers l = {}) \<and> uv__next_timeout l \<le> uint INT_MAX \<and>
    (\<forall>x. x \<in> active_timers l \<longrightarrow> 0 \<le> uv__next_timeout l \<and>
       uint (lp_time l) + uv__next_timeout l \<le> max (uint (lp_time l)) (uint (tm_timeout (timer l x)))) \<and>
    (active_timers l \<noteq> {} \<longrightarrow> uv__next_timeout l < uint INT_MAX \<longrightarrow>
       (\<exists>x \<in> active_timers l. uint (tm_timeout (timer l x)) \<le> uint (lp_time l) + uv__next_timeout l))"
proof -
  have inv: "timer_inv l" using timers.reach_inv [OF assms] .
  note m = tl.min_holds [OF timer_inv_heap [OF inv]]
  have max: "uint INT_MAX = 2147483647" by (simp add: INT_MAX_def)
  show ?thesis
  proof (cases "heap_min (lp_timer_heap l)")
    case None
    then show ?thesis using m(1) by (simp add: uv__next_timeout_def max)
  next
    case (Some h)
    let ?t = "tm_timeout (timer l h)"
    have le: "uint ?t \<le> uint (tm_timeout (timer l x))" if "x \<in> active_timers l" for x
      using m(3) [OF Some that] by (auto simp: timer_lt_def Let_def word_le_def word_less_def split: if_splits)
    have sub: "uint (?t - lp_time l) = uint ?t - uint (lp_time l)" if "lp_time l < ?t"
      using that by (intro uint_sub_lem [THEN iffD1]) (simp add: word_less_def)
    have n: "uv__next_timeout l = (if uint ?t \<le> uint (lp_time l) then 0
        else min (uint INT_MAX) (uint ?t - uint (lp_time l)))"
      using Some sub by (auto simp: uv__next_timeout_def Let_def word_le_def word_less_def not_le min_def)
    have h: "h \<in> active_timers l" by (rule m(2) [OF Some])
    have "uint (lp_time l) + uv__next_timeout l \<le> max (uint (lp_time l)) (uint (tm_timeout (timer l x)))"
      if "x \<in> active_timers l" for x
      unfolding n using le [OF that] by (simp add: min_def max_def max)
    moreover have "0 \<le> uv__next_timeout l \<and> uv__next_timeout l \<le> uint INT_MAX" by (simp add: n max)
    moreover have "uint ?t \<le> uint (lp_time l) + uv__next_timeout l" if "uv__next_timeout l < uint INT_MAX"
      using that by (simp add: n min_def split: if_splits)
    ultimately show ?thesis using h by (intro conjI impI allI) (auto intro!: bexI [of _ h])
  qed
qed

subsection \<open>A loop with one timer\<close>

text \<open>A timer started for five milliseconds at time 0, in the next round at time 10; its callback starts it
  again for no time at all.\<close>

definition idle_timer :: uv_timer_t where
  "idle_timer = \<lparr>tm_cb = None, tm_timeout = 0, tm_repeat = 0, tm_start_id = 0, tm_round = 0,
     tm_active = False, tm_ref = True, tm_closing = False, tm_closed = False\<rparr>"

definition started_loop :: uv_loop_t where
  "started_loop = (case uv_timer_start 3 (Some 1) 5 0 (uv_loop_init heap_example idle_timer 0) of
     Done (_, l) \<Rightarrow> l | _ \<Rightarrow> uv_loop_init heap_example idle_timer 0)"

definition timers_example :: uv_loop_t where
  "timers_example = uv__update_time 10 (started_loop\<lparr>lp_round := 1\<rparr>)"

definition restart_cb :: "addr \<Rightarrow> uv_loop_t \<Rightarrow> uv_loop_t c_run" where
  "restart_cb h l = (if h < MAX_TIMERS then c_bind (uv_timer_start h (Some 1) 0 0 l) (\<lambda>(_, l). Done l) else Done l)"

lemma restart_callback: "timer_callback restart_cb"
  unfolding timer_callback_def
proof (intro allI impI)
  fix h l assume inv: "timer_inv l"
  show "\<exists>l'. restart_cb h l = Done l' \<and> timer_step\<^sup>*\<^sup>* l l'"
  proof (cases "h < MAX_TIMERS")
    case True
    then obtain r l' where "uv_timer_start h (Some 1) 0 0 l = Done (r, l')" using start_inv [OF inv True] by metis
    moreover from this have "timer_step\<^sup>*\<^sup>* l l'" using timer_step.start [OF True] by blast
    ultimately show ?thesis using True by (simp add: restart_cb_def)
  qed (simp add: restart_cb_def)
qed

lemma started_loop:
  "loop_reachable started_loop" "active_timers started_loop = {3}" "lp_round started_loop = 0" "lp_time started_loop = 0"
  "tm_timeout (timer started_loop 3) = 5" "lp_fired started_loop = []" "lp_freed started_loop = []"
  "\<not> uv__is_closing (timer started_loop x)"
proof -
  let ?l = "uv_loop_init heap_example idle_timer 0"
  have m: "3 < MAX_TIMERS" by (simp add: MAX_TIMERS_def)
  obtain r l' where l': "uv_timer_start 3 (Some 1) 5 0 ?l = Done (r, l')" "same_loop ?l l'" and
    ts: "if uv__is_closing (timer ?l 3) \<or> Some (1 :: nat) = None then r = Inl UV_EINVAL \<and> l' = ?l
     else r = Inr () \<and> lp_starts l' = lp_starts ?l + 1 \<and>
       lp_timers l' = (lp_timers ?l)(3 := timer ?l 3\<lparr>tm_cb := Some 1, tm_timeout := clamped (lp_time ?l) 5,
         tm_repeat := 0, tm_start_id := of_nat (lp_starts ?l), tm_round := lp_round ?l, tm_active := True\<rparr>)"
    using start_inv [OF uv_loop_init_inv m, of "Some 1" 5 0 heap_example idle_timer 0] by metis
  have s: "started_loop = l'" using l' by (simp add: started_loop_def)
  have "loop_step ?l l'" using l'(1) m by (intro loop_step.phase phase_step.op timer_step.start)
  moreover have "loop_reachable ?l" by (rule reach_start) (auto simp: loop_start_def)
  ultimately show "loop_reachable started_loop" unfolding s by (rule reach_step [rotated])
  show "active_timers started_loop = {3}" "lp_round started_loop = 0" "lp_time started_loop = 0"
    "tm_timeout (timer started_loop 3) = 5" "lp_fired started_loop = []" "lp_freed started_loop = []"
    "\<not> uv__is_closing (timer started_loop x)"
    unfolding s using l'(2) ts
    by (auto simp: same_loop_def uv_loop_init_def idle_timer_def uv__is_closing_def clamped_def active_timers_def)
qed

lemma timers_example:
  "timer_inv timers_example" "active_timers timers_example = {3}" "lp_fired timers_example = []"
  "lp_freed timers_example = []"
  using next_round_inv(1) [OF timers.reach_inv [OF started_loop(1)]] started_loop
  by (simp_all add: timers_example_def uv__update_time_def active_timers_def)

theorem run_timers_ends_witness:
  "\<exists>l' fs. uv__run_timers restart_cb timers_example = Some (Done l') \<and> lp_fired l' = fs \<and> distinct fs \<and> set fs \<subseteq> {3}"
  using run_timers_ends [OF restart_callback timers_example(1)] timers_example by auto

theorem crun_round_fires_due_witness:
  "\<exists>l'. uv_crun_round Done restart_cb 10 started_loop = Done l' \<and> timer_inv l'"
proof -
  let ?l = "started_loop\<lparr>lp_round := lp_round started_loop + 1\<rparr>"
  have "lp_round started_loop \<noteq> - 1" "lp_time ?l \<le> 10" by (simp_all add: started_loop)
  then show ?thesis
    using crun_round_fires_due [OF timers.reach_inv [OF started_loop(1)] _ restart_callback, of Done ?l 10] by auto
qed

theorem timers_invariant_witness: "heap_min (lp_timer_heap started_loop) = Some 3"
proof -
  obtain h where h: "heap_min (lp_timer_heap started_loop) = Some h"
    using timers_invariant [OF started_loop(1)] started_loop(2) by fastforce
  then have "h \<in> active_timers started_loop" using timers_invariant [OF started_loop(1)] started_loop(2) by blast
  then show ?thesis using h started_loop(2) by simp
qed

theorem next_timeout_exact_witness: "uv__next_timeout started_loop \<le> 5"
proof -
  have "3 \<in> active_timers started_loop" by (simp add: started_loop)
  then have "uint (lp_time started_loop) + uv__next_timeout started_loop \<le>
      max (uint (lp_time started_loop)) (uint (tm_timeout (timer started_loop 3)))"
    using next_timeout_exact [OF started_loop(1)] by blast
  then show ?thesis by (simp add: started_loop)
qed

end
