(* ===== verification/Cat_Event.thy ===== *)
theory Cat_Event
  imports Cat_Queue Uv_Timer
begin

text \<open>
  The event module, \<^verbatim>\<open>src/cat_event.c\<close>: tasks that run at shutdown, tasks that run after the I/O events of a
  round, and tasks that run in the next round of the loop.

  The first two kinds are nodes of circular queues, so the state holds the links of
  \<^verbatim>\<open>include/cat_queue.h\<close>; the heads have the addresses 0 and 1. The third kind is a timer of no duration and
  lives in the loop of the timer theory, its task having the address of its timer. Callbacks are numbers,
  and what calling one does to the state is a parameter. \<open>ev_calls\<close> records the calls.
\<close>

record event_task =
  et_callback :: nat
  et_data :: nat

record loop_defer_task =
  ld_callback :: nat
  ld_data :: "nat option"

record cat_event =
  ev_loop :: uv_loop_t
  ev_links :: qheap
  ev_tasks :: "addr \<rightharpoonup> event_task"
  ev_defers :: "addr \<rightharpoonup> loop_defer_task"
  ev_calls :: "(addr \<times> nat) list"

type_synonym event_callbacks = "nat \<Rightarrow> addr \<Rightarrow> nat \<Rightarrow> cat_event \<Rightarrow> cat_event c_run"

definition SHUTDOWN_TASKS :: addr where "SHUTDOWN_TASKS = 0"
definition IO_DEFER_TASKS :: addr where "IO_DEFER_TASKS = 1"

definition cat_event_runtime_init :: "cat_event \<Rightarrow> cat_event" where
  "cat_event_runtime_init ev =
     ev\<lparr>ev_links := cat_queue_init IO_DEFER_TASKS (cat_queue_init SHUTDOWN_TASKS (ev_links ev))\<rparr>"

text \<open>Calling the callback of a task, with its data.\<close>

definition call_task :: "event_callbacks \<Rightarrow> addr \<Rightarrow> cat_event \<Rightarrow> cat_event c_run" where
  "call_task cbs task ev =
     (case ev_tasks ev task of
        None \<Rightarrow> Undefined
      | Some t \<Rightarrow> cbs (et_callback t) task (et_data t) (ev\<lparr>ev_calls := ev_calls ev @ [(task, et_data t)]\<rparr>))"

definition cat_free_task :: "addr \<Rightarrow> cat_event \<Rightarrow> cat_event" where
  "cat_free_task task ev = ev\<lparr>ev_tasks := (ev_tasks ev)(task := None)\<rparr>"

definition push_task :: "addr \<Rightarrow> addr \<Rightarrow> nat \<Rightarrow> nat \<Rightarrow> cat_event \<Rightarrow> cat_event" where
  "push_task q task callback data ev =
     ev\<lparr>ev_tasks := (ev_tasks ev)(task \<mapsto> \<lparr>et_callback = callback, et_data = data\<rparr>),
        ev_links := cat_queue_push_back q task (ev_links ev)\<rparr>"

subsection \<open>Shutdown tasks\<close>

definition cat_event_register_runtime_shutdown_task :: "addr \<Rightarrow> nat \<Rightarrow> nat \<Rightarrow> cat_event \<Rightarrow> cat_event" where
  "cat_event_register_runtime_shutdown_task task callback data ev = push_task SHUTDOWN_TASKS task callback data ev"

definition cat_event_unregister_runtime_shutdown_task :: "addr \<Rightarrow> cat_event \<Rightarrow> cat_event" where
  "cat_event_unregister_runtime_shutdown_task task ev =
     cat_free_task task (ev\<lparr>ev_links := cat_queue_remove task (ev_links ev)\<rparr>)"

text \<open>Run the tasks of a queue, from the front until it is empty; shutdown tasks are freed by the loop, I/O
  tasks by their owners.\<close>

partial_function (option) task_loop ::
  "event_callbacks \<Rightarrow> addr \<Rightarrow> bool \<Rightarrow> cat_event \<Rightarrow> cat_event c_run option" where
  "task_loop cbs q frees ev =
     (case cat_queue_front q (ev_links ev) of
        None \<Rightarrow> Some (Done ev)
      | Some task \<Rightarrow>
          (case call_task cbs task (ev\<lparr>ev_links := cat_queue_remove task (ev_links ev)\<rparr>) of
             Done ev \<Rightarrow> task_loop cbs q frees (if frees then cat_free_task task ev else ev)
           | Diverges \<Rightarrow> Some Diverges
           | Undefined \<Rightarrow> Some Undefined))"

definition run_shutdown_tasks :: "event_callbacks \<Rightarrow> cat_event \<Rightarrow> cat_event c_run" where
  "run_shutdown_tasks cbs ev = (case task_loop cbs SHUTDOWN_TASKS True ev of None \<Rightarrow> Diverges | Some r \<Rightarrow> r)"

text \<open>The shutdown of the module; the last runs of the loop are a parameter.\<close>

definition cat_event_runtime_shutdown ::
  "event_callbacks \<Rightarrow> (cat_event \<Rightarrow> cat_event c_run) \<Rightarrow> cat_event \<Rightarrow> cat_event c_run" where
  "cat_event_runtime_shutdown cbs cat_event_schedule ev =
     c_bind (run_shutdown_tasks cbs ev) (\<lambda>ev.
     c_bind (cat_event_schedule ev) (\<lambda>ev.
     c_assert (cat_queue_empty SHUTDOWN_TASKS (ev_links ev))
       (c_assert (cat_queue_empty IO_DEFER_TASKS (ev_links ev)) (Done ev))))"

subsection \<open>I/O defer tasks\<close>

definition cat_event_io_defer_task_create :: "addr \<Rightarrow> nat \<Rightarrow> nat \<Rightarrow> cat_event \<Rightarrow> cat_event" where
  "cat_event_io_defer_task_create task callback data ev = push_task IO_DEFER_TASKS task callback data ev"

definition cat_event_io_defer_task_close :: "addr \<Rightarrow> cat_event \<Rightarrow> bool \<times> cat_event" where
  "cat_event_io_defer_task_close task ev =
     (let called = cat_queue_empty task (ev_links ev);
          ev = (if \<not> called then ev\<lparr>ev_links := cat_queue_remove task (ev_links ev)\<rparr> else ev)
      in (called, cat_free_task task ev))"

definition cat_event_do_io_defer_tasks :: "event_callbacks \<Rightarrow> cat_event \<Rightarrow> cat_event c_run" where
  "cat_event_do_io_defer_tasks cbs ev = (case task_loop cbs IO_DEFER_TASKS False ev of None \<Rightarrow> Diverges | Some r \<Rightarrow> r)"

subsection \<open>Loop defer tasks\<close>

definition LOOP_DEFER_CALLBACK :: nat where "LOOP_DEFER_CALLBACK = 0"

definition cat_event_loop_defer_task_create :: "addr \<Rightarrow> nat \<Rightarrow> nat option \<Rightarrow> cat_event \<Rightarrow> cat_event c_run" where
  "cat_event_loop_defer_task_create task callback data ev =
     (let ev = ev\<lparr>ev_defers := (ev_defers ev)(task \<mapsto> \<lparr>ld_callback = callback, ld_data = data\<rparr>)\<rparr>
      in c_bind (uv_timer_start task (Some LOOP_DEFER_CALLBACK) 0 0 (uv_timer_init task (ev_loop ev))) (\<lambda>(_, l).
           Done (ev\<lparr>ev_loop := l\<rparr>)))"

text \<open>The timer callback; \<open>cbs\<close> is what the task's own callback does with the task and the data.\<close>

definition cat_event_loop_defer_task_callback ::
  "(nat \<Rightarrow> addr \<Rightarrow> nat option \<Rightarrow> cat_event \<Rightarrow> cat_event c_run) \<Rightarrow> addr \<Rightarrow> cat_event \<Rightarrow> cat_event c_run" where
  "cat_event_loop_defer_task_callback cbs task ev =
     (case ev_defers ev task of
        None \<Rightarrow> Undefined
      | Some t \<Rightarrow>
          let data = ld_data t;
              ev = ev\<lparr>ev_defers := (ev_defers ev)(task \<mapsto> t\<lparr>ld_data := None\<rparr>)\<rparr>
          in cbs (ld_callback t) task data ev)"

definition cat_event_loop_defer_task_close :: "addr \<Rightarrow> cat_event \<Rightarrow> (bool \<times> cat_event) c_run" where
  "cat_event_loop_defer_task_close task ev =
     (case ev_defers ev task of
        None \<Rightarrow> Undefined
      | Some t \<Rightarrow>
          let called = ld_data t = None
          in c_bind (uv_close task (ev_loop ev)) (\<lambda>l. Done (called, ev\<lparr>ev_loop := l\<rparr>)))"

definition cat_event_loop_defer_task_free_callback :: "addr \<Rightarrow> cat_event \<Rightarrow> cat_event" where
  "cat_event_loop_defer_task_free_callback task ev = ev\<lparr>ev_defers := (ev_defers ev)(task := None)\<rparr>"

subsection \<open>The queues\<close>

text \<open>The two queues hold the shutdown tasks \<open>ss\<close> and the I/O tasks \<open>ns\<close>, all of them allocated.\<close>

definition event_queues :: "cat_event \<Rightarrow> addr list \<Rightarrow> addr list \<Rightarrow> bool" where
  "event_queues ev ss ns \<longleftrightarrow>
     queue_of (ev_links ev) SHUTDOWN_TASKS ss \<and> queue_of (ev_links ev) IO_DEFER_TASKS ns \<and>
     set (SHUTDOWN_TASKS # ss) \<inter> set (IO_DEFER_TASKS # ns) = {} \<and> set ss \<union> set ns \<subseteq> dom (ev_tasks ev)"

lemma queue_of_other_push:
  assumes "queue_of h p xs" "queue_of h q ns" "set (p # xs) \<inter> set (n # q # ns) = {}"
  shows "queue_of (cat_queue_push_back q n h) p xs"
proof -
  have "x \<notin> set (n # q # ns)" if "x \<in> set (p # xs)" for x using assms(3) that by blast
  then show ?thesis using queue_of_frame [of p xs "cat_queue_push_back q n h" h] push_back_frame [OF assms(2)] assms(1) by blast
qed

lemma queue_of_other_remove:
  assumes "queue_of h p xs" "queue_of h q ns" "n \<in> set ns" "set (p # xs) \<inter> set (q # ns) = {}"
  shows "queue_of (cat_queue_remove n h) p xs"
proof -
  have "x \<notin> set (q # ns)" if "x \<in> set (p # xs)" for x using assms(4) that by blast
  then show ?thesis using queue_of_frame [of p xs "cat_queue_remove n h" h] remove_frame [OF assms(2,3)] assms(1) by blast
qed

lemma runtime_init_queues: "event_queues (cat_event_runtime_init ev) [] []"
proof -
  have "queue_of (cat_queue_init 1 (cat_queue_init 0 h)) 0 []" for h
    by (simp add: queue_of_def queue_op_defs)
  then show ?thesis using queue_of_init
    by (simp add: event_queues_def cat_event_runtime_init_def SHUTDOWN_TASKS_def IO_DEFER_TASKS_def)
qed

lemma event_queuesD:
  assumes "event_queues ev ss ns"
  shows "queue_of (ev_links ev) SHUTDOWN_TASKS ss" "queue_of (ev_links ev) IO_DEFER_TASKS ns"
    "set (SHUTDOWN_TASKS # ss) \<inter> set (IO_DEFER_TASKS # ns) = {}" "set ss \<subseteq> dom (ev_tasks ev)" "set ns \<subseteq> dom (ev_tasks ev)"
  using assms by (auto simp: event_queues_def)

text \<open>A fresh address for a task: not a head and not allocated.\<close>

abbreviation fresh_task :: "cat_event \<Rightarrow> addr \<Rightarrow> bool" where
  "fresh_task ev task \<equiv> task \<notin> {SHUTDOWN_TASKS, IO_DEFER_TASKS} \<and> task \<notin> dom (ev_tasks ev)"

lemma create_queues:
  assumes q: "event_queues ev ss ns" and f: "fresh_task ev task"
  shows "event_queues (cat_event_io_defer_task_create task callback data ev) ss (ns @ [task])"
    and "event_queues (cat_event_register_runtime_shutdown_task task callback data ev) (ss @ [task]) ns"
proof -
  note d = event_queuesD [OF q]
  have n: "task \<notin> set ss" "task \<notin> set ns" using f d by auto
  have "queue_of (cat_queue_push_back IO_DEFER_TASKS task (ev_links ev)) IO_DEFER_TASKS (ns @ [task])"
    using d(2) n f by (intro queue_of_push_back) auto
  moreover have "queue_of (cat_queue_push_back IO_DEFER_TASKS task (ev_links ev)) SHUTDOWN_TASKS ss"
    using queue_of_other_push [OF d(1,2)] d(3) n f by auto
  moreover have "queue_of (cat_queue_push_back SHUTDOWN_TASKS task (ev_links ev)) SHUTDOWN_TASKS (ss @ [task])"
    using d(1) n f by (intro queue_of_push_back) auto
  moreover have "queue_of (cat_queue_push_back SHUTDOWN_TASKS task (ev_links ev)) IO_DEFER_TASKS ns"
    using queue_of_other_push [OF d(2,1)] d(3) n f by auto
  ultimately show "event_queues (cat_event_io_defer_task_create task callback data ev) ss (ns @ [task])"
    "event_queues (cat_event_register_runtime_shutdown_task task callback data ev) (ss @ [task]) ns"
    using d(3-) n f
    by (auto simp: event_queues_def cat_event_io_defer_task_create_def cat_event_register_runtime_shutdown_task_def push_task_def)
qed

text \<open>Taking a task out of either queue.\<close>

lemma remove_queues:
  assumes q: "event_queues ev ss ns"
  shows "ns = xs @ task # ys \<Longrightarrow> event_queues (ev\<lparr>ev_links := cat_queue_remove task (ev_links ev)\<rparr>) ss (xs @ ys)"
    and "ss = xs @ task # ys \<Longrightarrow> event_queues (ev\<lparr>ev_links := cat_queue_remove task (ev_links ev)\<rparr>) (xs @ ys) ns"
proof -
  note d = event_queuesD [OF q]
  show "event_queues (ev\<lparr>ev_links := cat_queue_remove task (ev_links ev)\<rparr>) ss (xs @ ys)" if "ns = xs @ task # ys"
    using queue_of_remove [of "ev_links ev" IO_DEFER_TASKS xs task ys] queue_of_other_remove [OF d(1,2), of task] d that
    by (auto simp: event_queues_def)
  show "event_queues (ev\<lparr>ev_links := cat_queue_remove task (ev_links ev)\<rparr>) (xs @ ys) ns" if "ss = xs @ task # ys"
    using queue_of_remove [of "ev_links ev" SHUTDOWN_TASKS xs task ys] queue_of_other_remove [OF d(2,1), of task] d that
    by (auto simp: event_queues_def)
qed

lemma free_queues: "event_queues ev ss ns \<Longrightarrow> task \<notin> set ss \<union> set ns \<Longrightarrow> event_queues (cat_free_task task ev) ss ns"
  by (auto simp: event_queues_def cat_free_task_def)

subsection \<open>Running the tasks of a queue\<close>

text \<open>Callbacks that end and leave the queues and the tasks of others alone; they may free their own task.\<close>

definition quiet_callbacks :: "event_callbacks \<Rightarrow> bool" where
  "quiet_callbacks cbs \<longleftrightarrow> (\<forall>c t d ev. \<exists>ev'. cbs c t d ev = Done ev' \<and> ev_links ev' = ev_links ev \<and>
     ev_calls ev' = ev_calls ev \<and> (\<forall>x. x \<noteq> t \<longrightarrow> ev_tasks ev' x = ev_tasks ev x))"

abbreviation task_data :: "cat_event \<Rightarrow> addr \<Rightarrow> nat" where
  "task_data ev task \<equiv> et_data (the (ev_tasks ev task))"

lemma task_loop_turn:
  assumes cbs: "quiet_callbacks cbs" and q: "queue_of (ev_links ev) q (n # ns)" and n: "n \<in> dom (ev_tasks ev)"
  obtains ev' where "task_loop cbs q frees ev = task_loop cbs q frees ev'"
    "ev_links ev' = cat_queue_remove n (ev_links ev)" "ev_calls ev' = ev_calls ev @ [(n, task_data ev n)]"
    "\<And>x. x \<noteq> n \<Longrightarrow> ev_tasks ev' x = ev_tasks ev x" "frees \<Longrightarrow> ev_tasks ev' n = None"
proof -
  obtain t where t: "ev_tasks ev n = Some t" using n by auto
  let ?e = "ev\<lparr>ev_links := cat_queue_remove n (ev_links ev)\<rparr>"
  obtain e where e: "cbs (et_callback t) n (et_data t) (?e\<lparr>ev_calls := ev_calls ev @ [(n, et_data t)]\<rparr>) = Done e"
    "ev_links e = cat_queue_remove n (ev_links ev)" "ev_calls e = ev_calls ev @ [(n, et_data t)]"
    "\<forall>x. x \<noteq> n \<longrightarrow> ev_tasks e x = ev_tasks ev x"
    using cbs [unfolded quiet_callbacks_def, rule_format, of "et_callback t" n "et_data t"
        "?e\<lparr>ev_calls := ev_calls ev @ [(n, et_data t)]\<rparr>"] by auto
  have front: "cat_queue_front q (ev_links ev) = Some n" using queue_of_front [OF q] by simp
  have "task_loop cbs q frees ev = task_loop cbs q frees (if frees then cat_free_task n e else e)"
    by (subst task_loop.simps) (simp add: front call_task_def t e(1))
  then show thesis using e(2-) t
    by (intro that [of "if frees then cat_free_task n e else e"]) (auto simp: cat_free_task_def)
qed

lemma task_loop_quiet:
  assumes "quiet_callbacks cbs"
  shows "queue_of (ev_links ev) q ns \<Longrightarrow> set ns \<subseteq> dom (ev_tasks ev) \<Longrightarrow>
    queue_of (ev_links ev) p xs \<Longrightarrow> set (p # xs) \<inter> set (q # ns) = {} \<Longrightarrow>
    \<exists>ev'. task_loop cbs q frees ev = Some (Done ev') \<and> queue_of (ev_links ev') q [] \<and>
      queue_of (ev_links ev') p xs \<and> ev_calls ev' = ev_calls ev @ map (\<lambda>t. (t, task_data ev t)) ns \<and>
      (\<forall>x. x \<notin> set ns \<longrightarrow> ev_tasks ev' x = ev_tasks ev x) \<and>
      (frees \<longrightarrow> (\<forall>x. x \<in> set ns \<longrightarrow> ev_tasks ev' x = None))"
proof (induction ns arbitrary: ev)
  case Nil
  have "cat_queue_front q (ev_links ev) = None" using queue_of_front [OF Nil(1)] by simp
  then show ?case using Nil by (subst task_loop.simps) simp
next
  case (Cons n ns)
  obtain e where e: "task_loop cbs q frees ev = task_loop cbs q frees e"
    "ev_links e = cat_queue_remove n (ev_links ev)" "ev_calls e = ev_calls ev @ [(n, task_data ev n)]"
    "\<And>x. x \<noteq> n \<Longrightarrow> ev_tasks e x = ev_tasks ev x" "frees \<Longrightarrow> ev_tasks e n = None"
    using task_loop_turn [OF assms Cons.prems(1)] Cons.prems(2) by auto
  have dist: "n \<notin> set ns" using cq.repr_distinct [OF Cons.prems(1)] by auto
  have data: "task_data e t = task_data ev t" if "t \<in> set ns" for t
    using e(4) [of t] dist that by (metis (full_types))
  have "queue_of (ev_links e) q ns" unfolding e(2) using cq.pop_front [OF Cons.prems(1)] by simp
  moreover have "set ns \<subseteq> dom (ev_tasks e)"
  proof
    fix x assume "x \<in> set ns"
    then have "x \<noteq> n" "x \<in> dom (ev_tasks ev)" using Cons.prems(2) dist by auto
    then show "x \<in> dom (ev_tasks e)" using e(4) [of x] by (simp add: dom_def)
  qed
  moreover have "queue_of (ev_links e) p xs"
    unfolding e(2) using queue_of_other_remove [OF Cons.prems(3,1), of n] Cons.prems(4) by simp
  ultimately obtain ev' where ev': "task_loop cbs q frees e = Some (Done ev')" "queue_of (ev_links ev') q []"
      "queue_of (ev_links ev') p xs" "ev_calls ev' = ev_calls e @ map (\<lambda>t. (t, task_data e t)) ns"
      "\<forall>x. x \<notin> set ns \<longrightarrow> ev_tasks ev' x = ev_tasks e x"
      "frees \<longrightarrow> (\<forall>x. x \<in> set ns \<longrightarrow> ev_tasks ev' x = None)"
    using Cons.IH [of e] Cons.prems(4) by auto
  have "map (\<lambda>t. (t, task_data e t)) ns = map (\<lambda>t. (t, task_data ev t)) ns" using data by simp
  moreover have "ev_tasks ev' x = ev_tasks ev x" if "x \<notin> set (n # ns)" for x using ev'(5) e(4) [of x] that by simp
  moreover have "ev_tasks ev' x = None" if "frees" "x \<in> set (n # ns)" for x using ev'(5,6) e(5) dist that by auto
  ultimately show ?case using ev' e(1,3) by (intro exI [of _ ev']) simp
qed

subsection \<open>Theorems\<close>

text \<open>C31: If the callbacks end and neither create nor close tasks, the pass behind the I/O events ends, calls every queued task once, in the
  order of creation and with its own data, and leaves the queue empty and the shutdown tasks as they are.\<close>

theorem io_defer_tasks_run:
  assumes "quiet_callbacks cbs" "event_queues ev ss ns"
  shows "\<exists>ev'. cat_event_do_io_defer_tasks cbs ev = Done ev' \<and> event_queues ev' ss [] \<and>
    ev_calls ev' = ev_calls ev @ map (\<lambda>t. (t, task_data ev t)) ns"
proof -
  note d = event_queuesD [OF assms(2)]
  obtain ev' where ev': "task_loop cbs IO_DEFER_TASKS False ev = Some (Done ev')" "queue_of (ev_links ev') IO_DEFER_TASKS []"
      "queue_of (ev_links ev') SHUTDOWN_TASKS ss" "ev_calls ev' = ev_calls ev @ map (\<lambda>t. (t, task_data ev t)) ns"
      "\<forall>x. x \<notin> set ns \<longrightarrow> ev_tasks ev' x = ev_tasks ev x"
    using task_loop_quiet [OF assms(1) d(2,5,1,3), of False] by auto
  have "set ss \<subseteq> dom (ev_tasks ev')"
  proof
    fix x assume x: "x \<in> set ss"
    then have "ev_tasks ev' x = ev_tasks ev x" using ev'(5) d(3) by auto
    then show "x \<in> dom (ev_tasks ev')" using x d(4) by (auto simp: dom_def)
  qed
  then show ?thesis using ev' d(3) by (auto simp: event_queues_def cat_event_do_io_defer_tasks_def)
qed

text \<open>At shutdown the registered tasks that were not unregistered run once each, in the order of their
  registration, and are freed; with nothing left in the loop the module's assertions hold.\<close>

theorem shutdown_tasks_run:
  assumes "quiet_callbacks cbs" "event_queues ev ss []" "cat_event_schedule = Done"
  shows "\<exists>ev'. cat_event_runtime_shutdown cbs cat_event_schedule ev = Done ev' \<and>
    ev_calls ev' = ev_calls ev @ map (\<lambda>t. (t, task_data ev t)) ss \<and> set ss \<inter> dom (ev_tasks ev') = {}"
proof -
  note d = event_queuesD [OF assms(2)]
  obtain ev' where ev': "task_loop cbs SHUTDOWN_TASKS True ev = Some (Done ev')" "queue_of (ev_links ev') SHUTDOWN_TASKS []"
      "queue_of (ev_links ev') IO_DEFER_TASKS []" "ev_calls ev' = ev_calls ev @ map (\<lambda>t. (t, task_data ev t)) ss"
      "\<forall>x. x \<in> set ss \<longrightarrow> ev_tasks ev' x = None"
    using task_loop_quiet [OF assms(1) d(1,4,2), of True] d(3) by auto
  then show ?thesis using queue_of_empty [OF ev'(2)] queue_of_empty [OF ev'(3)]
    by (auto simp: cat_event_runtime_shutdown_def run_shutdown_tasks_def assms(3))
qed

text \<open>Closing an I/O task. A task that waits is canceled: it leaves the queue, the others keep their order,
  and the result is false as documented. A task that has run still has the links it had in the queue, so
  its close returns false as well, where the documentation promises true, and it takes the stale links out
  of the queue once more: when another task was created since, that task is lost and never runs.\<close>

theorem io_defer_task_close_effects:
  shows "event_queues ev ss (xs @ task # ys) \<Longrightarrow>
      (let (called, ev') = cat_event_io_defer_task_close task ev in \<not> called \<and> event_queues ev' ss (xs @ ys)) \<and>
      (xs = [] \<longrightarrow>
        (let run = ev\<lparr>ev_links := cat_queue_remove task (ev_links ev)\<rparr>
         in \<not> fst (cat_event_io_defer_task_close task run) \<and>
            (ys = [] \<longrightarrow> fresh_task ev other \<longrightarrow>
               (let created = cat_event_io_defer_task_create other callback data run
                in cat_queue_front IO_DEFER_TASKS (ev_links created) = Some other \<and>
                   cat_queue_front IO_DEFER_TASKS (ev_links (snd (cat_event_io_defer_task_close task created))) = None))))"
proof -
  assume q: "event_queues ev ss (xs @ task # ys)"
  note d = event_queuesD [OF q]
  define h where "h = ev_links ev"
  have dist: "distinct (IO_DEFER_TASKS # xs @ task # ys)" using cq.repr_distinct [OF d(2)] .
  have seg: "dseg h IO_DEFER_TASKS xs task" "dseg h task ys IO_DEFER_TASKS"
    using d(2) by (auto simp: h_def queue_of_def dseg_append)
  have "qnext h task \<noteq> task" using dseg_first [OF seg(2)] dist by (cases ys) auto
  then have ne: "\<not> cat_queue_empty task h" by (simp add: cat_queue_empty_def)
  have "task \<notin> set ss \<union> set (xs @ ys)" using d(3) dist by auto
  then have a: "event_queues (snd (cat_event_io_defer_task_close task ev)) ss (xs @ ys)"
    using free_queues [OF remove_queues(1) [OF q refl]] ne
    by (simp add: cat_event_io_defer_task_close_def h_def Let_def)
  have a': "\<not> fst (cat_event_io_defer_task_close task ev)"
    using ne by (simp add: cat_event_io_defer_task_close_def h_def Let_def)
  let ?run = "ev\<lparr>ev_links := cat_queue_remove task (ev_links ev)\<rparr>"
  have b: "\<not> fst (cat_event_io_defer_task_close task ?run)" if "xs = []"
  proof -
    have "qprev h task = IO_DEFER_TASKS" using seg(1) that by simp
    then have "qnext (cat_queue_remove task h) task = qnext h task"
      using dist by (auto simp: queue_op_defs)
    then show ?thesis using ne by (simp add: cat_event_io_defer_task_close_def cat_queue_empty_def h_def Let_def)
  qed
  have c: "cat_queue_front IO_DEFER_TASKS (ev_links (cat_event_io_defer_task_create other callback data ?run)) = Some other \<and>
      cat_queue_front IO_DEFER_TASKS (ev_links (snd (cat_event_io_defer_task_close task
        (cat_event_io_defer_task_create other callback data ?run)))) = None"
    if "xs = []" "ys = []" "fresh_task ev other"
  proof -
    have l: "qnext h task = IO_DEFER_TASKS" "qprev h task = IO_DEFER_TASKS"
      using seg that by auto
    have "task \<noteq> IO_DEFER_TASKS" "other \<noteq> IO_DEFER_TASKS" "other \<noteq> task"
      using dist that(3) d(5) by auto
    with l show ?thesis
      by (auto simp: cat_event_io_defer_task_create_def push_task_def cat_event_io_defer_task_close_def
          cat_free_task_def cat_queue_front_def cat_queue_empty_def queue_op_defs h_def)
  qed
  show ?thesis using a a' b c by (auto simp: Let_def split: prod.splits)
qed

lemma defer_create:
  assumes inv: "timer_inv (ev_loop ev)" and ok: "task < MAX_TIMERS" "\<not> tm_active (timer (ev_loop ev) task)"
    "task \<notin> set (lp_closing_handles (ev_loop ev))"
  obtains l where "cat_event_loop_defer_task_create task callback data ev =
      Done (ev\<lparr>ev_defers := (ev_defers ev)(task \<mapsto> \<lparr>ld_callback = callback, ld_data = data\<rparr>), ev_loop := l\<rparr>)"
    "timer_inv l" "same_loop (ev_loop ev) l" "task \<in> active_timers l" "tm_round (timer l task) = lp_round l"
    "tm_timeout (timer l task) = lp_time l"
proof -
  let ?l0 = "uv_timer_init task (ev_loop ev)"
  have i: "timer_inv ?l0" "same_loop (ev_loop ev) ?l0"
    using timer_step_kept [OF timer_step.init [OF ok(2,3)] inv] by (simp_all add: timers_kept_def)
  obtain r l where l: "uv_timer_start task (Some LOOP_DEFER_CALLBACK) 0 0 ?l0 = Done (r, l)" "timer_inv l" "same_loop ?l0 l"
    and ts: "if uv__is_closing (timer ?l0 task) \<or> Some LOOP_DEFER_CALLBACK = None then r = Inl UV_EINVAL \<and> l = ?l0
     else r = Inr () \<and> lp_starts l = lp_starts ?l0 + 1 \<and>
       lp_timers l = (lp_timers ?l0)(task := timer ?l0 task\<lparr>tm_cb := Some LOOP_DEFER_CALLBACK,
         tm_timeout := clamped (lp_time ?l0) 0, tm_repeat := 0, tm_start_id := of_nat (lp_starts ?l0),
         tm_round := lp_round ?l0, tm_active := True\<rparr>)"
    using start_inv [OF i(1) ok(1), of "Some LOOP_DEFER_CALLBACK" 0 0] by metis
  have nc: "\<not> uv__is_closing (timer ?l0 task)" by (simp add: uv_timer_init_def upd_timer_def uv__is_closing_def)
  have "lp_time l = lp_time ?l0" "lp_round l = lp_round ?l0" using l(3) by (simp_all add: same_loop_def)
  then have "task \<in> active_timers l" "tm_round (timer l task) = lp_round l" "tm_timeout (timer l task) = lp_time l"
    using ts nc by (auto simp: active_timers_def clamped_def)
  then show thesis using l i same_loop_trans that
    by (auto simp: cat_event_loop_defer_task_create_def Let_def)
qed

text \<open>A loop defer task runs in the next round: creating it always succeeds, no pass over the timers in the
  round of its creation calls it, and when the next round is over its timer no longer waits.\<close>

theorem defer_task_next_round:
  assumes inv: "timer_inv (ev_loop ev)" and ok: "task < MAX_TIMERS" "\<not> tm_active (timer (ev_loop ev) task)"
    "task \<notin> set (lp_closing_handles (ev_loop ev))" and cb: "timer_callback timer_cb" and r: "lp_round (ev_loop ev) \<noteq> - 1"
    and ph: "\<And>l. timer_inv l \<Longrightarrow> lp_time l = lp_time (ev_loop ev) \<Longrightarrow> \<exists>l1. phases l = Done l1 \<and> phase_step\<^sup>*\<^sup>* l l1 \<and> lp_time l1 \<le> now"
  shows "\<exists>ev1 l2 fs l'. cat_event_loop_defer_task_create task callback data ev = Done ev1 \<and>
    ev_defers ev1 task = Some \<lparr>ld_callback = callback, ld_data = data\<rparr> \<and>
    uv__run_timers timer_cb (ev_loop ev1) = Some (Done l2) \<and> lp_fired l2 = lp_fired (ev_loop ev) @ fs \<and> task \<notin> set fs \<and>
    uv_crun_round phases timer_cb now (ev_loop ev1) = Done l' \<and>
    (lp_starts l' < 2 ^ 64 \<longrightarrow> \<not> (task \<in> active_timers l' \<and> tm_round (timer l' task) = lp_round (ev_loop ev) \<and>
       tm_timeout (timer l' task) = lp_time (ev_loop ev)))"
proof -
  obtain l where l: "cat_event_loop_defer_task_create task callback data ev =
      Done (ev\<lparr>ev_defers := (ev_defers ev)(task \<mapsto> \<lparr>ld_callback = callback, ld_data = data\<rparr>), ev_loop := l\<rparr>)"
    "timer_inv l" "same_loop (ev_loop ev) l" "task \<in> active_timers l" "tm_round (timer l task) = lp_round l"
    "tm_timeout (timer l task) = lp_time l"
    using defer_create [OF inv ok] by metis
  have same: "lp_round l = lp_round (ev_loop ev)" "lp_time l = lp_time (ev_loop ev)" "lp_fired l = lp_fired (ev_loop ev)"
    using l(3) by (simp_all add: same_loop_def)
  obtain l2 fs where l2: "uv__run_timers timer_cb l = Some (Done l2)" "lp_fired l2 = lp_fired l @ fs"
    "set fs \<subseteq> older l - older l2"
    using run_timers_spec [OF cb l(2)] by blast
  have "task \<notin> set fs" using l2(3) l(5) by (auto simp: older_def)
  obtain l1 where l1: "phases (l\<lparr>lp_round := lp_round l + 1\<rparr>) = Done l1" "phase_step\<^sup>*\<^sup>* (l\<lparr>lp_round := lp_round l + 1\<rparr>) l1"
    "lp_time l1 \<le> now"
    using ph [of "l\<lparr>lp_round := lp_round l + 1\<rparr>"] next_round_inv(1) [OF l(2)] r same by auto
  obtain l' where l': "uv_crun_round phases timer_cb now l = Done l'" "timer_inv l'" "lp_round l' = lp_round l + 1"
    "lp_starts l' < 2 ^ 64 \<Longrightarrow> \<forall>h \<in> older l'. lp_time l < tm_timeout (timer l' h)"
    using crun_round_spec [OF l(2) _ cb, where phases = phases, OF _ l1] r same(1) by metis
  have "\<not> (task \<in> active_timers l' \<and> tm_round (timer l' task) = lp_round l \<and> tm_timeout (timer l' task) = lp_time l)"
    if "lp_starts l' < 2 ^ 64"
    using l'(4) [OF that] l'(3) by (auto simp: older_def)
  then show ?thesis
    using l l2 l'(1) \<open>task \<notin> set fs\<close> unfolding same
    by (intro exI [of _ "ev\<lparr>ev_defers := (ev_defers ev)(task \<mapsto> \<lparr>ld_callback = callback, ld_data = data\<rparr>), ev_loop := l\<rparr>"]
        exI [of _ l2] exI [of _ fs] exI [of _ l']) simp
qed

text \<open>A closed loop defer task: its timer never fires again, and the result says whether its callback was
  called, provided the task was created with data; without data the result is true from the start.\<close>

theorem loop_defer_task_close_effects:
  assumes inv: "timer_inv (ev_loop ev)" and t: "ev_defers ev task = Some t" and nc: "\<not> uv__is_closing (timer (ev_loop ev) task)"
  shows "\<exists>ev'. cat_event_loop_defer_task_close task ev = Done (ld_data t = None, ev') \<and> timer_inv (ev_loop ev') \<and>
    task \<notin> active_timers (ev_loop ev') \<and> task \<in> set (lp_closing_handles (ev_loop ev')) \<and>
    (\<forall>cbs. (\<forall>c x d e. cbs c x d e = Done e) \<longrightarrow>
       (\<exists>called. cat_event_loop_defer_task_callback cbs task ev = Done called \<and>
          fst (case cat_event_loop_defer_task_close task called of Done r \<Rightarrow> r | _ \<Rightarrow> (False, ev))))"
proof -
  obtain l where l: "uv_close task (ev_loop ev) = Done l" "timer_inv l"
    "lp_timers l = (lp_timers (ev_loop ev))(task := timer (ev_loop ev) task\<lparr>tm_active := False, tm_closing := True\<rparr>)"
    using uv_close_inv [OF inv nc] by blast
  have "task \<notin> active_timers l" using l(3) by (simp add: active_timers_def)
  moreover have "task \<in> set (lp_closing_handles l)"
    using l(1) by (auto simp: uv_close_def c_run_iffs uv__make_close_pending_def)
  ultimately show ?thesis using l t
    by (auto simp: cat_event_loop_defer_task_close_def cat_event_loop_defer_task_callback_def Let_def)
qed

subsection \<open>Examples\<close>

definition event_example :: cat_event where
  "event_example = cat_event_runtime_init \<lparr>ev_loop = started_loop, ev_links = \<lparr>qnext = \<lambda>_. 0, qprev = \<lambda>_. 0\<rparr>,
     ev_tasks = Map.empty, ev_defers = Map.empty, ev_calls = []\<rparr>"

definition event_tasks_example :: cat_event where
  "event_tasks_example = cat_event_io_defer_task_create 6 1 60 (cat_event_io_defer_task_create 5 1 50 event_example)"

definition event_shutdown_example :: cat_event where
  "event_shutdown_example = cat_event_register_runtime_shutdown_task 8 2 80
     (cat_event_register_runtime_shutdown_task 7 2 70 event_example)"

lemma event_example_queues:
  "event_queues event_tasks_example [] [5, 6]" "event_queues event_shutdown_example [7, 8] []"
proof -
  have e: "event_queues event_example [] []" unfolding event_example_def by (rule runtime_init_queues)
  have dom: "ev_tasks event_example = Map.empty" by (simp add: event_example_def cat_event_runtime_init_def)
  note f = SHUTDOWN_TASKS_def IO_DEFER_TASKS_def dom push_task_def
  have "event_queues (cat_event_io_defer_task_create 5 1 50 event_example) [] ([] @ [5])"
    by (rule create_queues(1) [OF e]) (simp add: f)
  then have "event_queues event_tasks_example [] (([] @ [5]) @ [6])"
    unfolding event_tasks_example_def by (rule create_queues(1)) (simp add: f cat_event_io_defer_task_create_def)
  then show "event_queues event_tasks_example [] [5, 6]" by simp
  have "event_queues (cat_event_register_runtime_shutdown_task 7 2 70 event_example) ([] @ [7]) []"
    by (rule create_queues(2) [OF e]) (simp add: f)
  then have "event_queues event_shutdown_example (([] @ [7]) @ [8]) []"
    unfolding event_shutdown_example_def by (rule create_queues(2)) (simp add: f cat_event_register_runtime_shutdown_task_def)
  then show "event_queues event_shutdown_example [7, 8] []" by simp
qed

lemma event_example_fields:
  "ev_calls event_tasks_example = []" "task_data event_tasks_example 5 = 50" "task_data event_tasks_example 6 = 60"
  "ev_calls event_shutdown_example = []" "task_data event_shutdown_example 7 = 70" "task_data event_shutdown_example 8 = 80"
  "ev_loop event_example = started_loop"
  by (simp_all add: event_tasks_example_def event_shutdown_example_def event_example_def cat_event_runtime_init_def
      push_task_def cat_event_io_defer_task_create_def cat_event_register_runtime_shutdown_task_def)

lemma idle_callbacks_quiet: "quiet_callbacks (\<lambda>_ _ _. Done)"
  by (simp add: quiet_callbacks_def)

theorem io_defer_tasks_run_witness:
  "\<exists>ev'. cat_event_do_io_defer_tasks (\<lambda>_ _ _. Done) event_tasks_example = Done ev' \<and> ev_calls ev' = [(5, 50), (6, 60)]"
  using io_defer_tasks_run [OF idle_callbacks_quiet event_example_queues(1)] by (auto simp: event_example_fields)

theorem shutdown_tasks_run_witness:
  "\<exists>ev'. cat_event_runtime_shutdown (\<lambda>_ _ _. Done) Done event_shutdown_example = Done ev' \<and>
     ev_calls ev' = [(7, 70), (8, 80)]"
  using shutdown_tasks_run [OF idle_callbacks_quiet event_example_queues(2) refl] by (auto simp: event_example_fields)

theorem io_defer_task_close_effects_witness:
  "\<not> fst (cat_event_io_defer_task_close 5 event_tasks_example) \<and>
   event_queues (snd (cat_event_io_defer_task_close 5 event_tasks_example)) [] [6] \<and>
   \<not> fst (cat_event_io_defer_task_close 5 (event_tasks_example\<lparr>ev_links := cat_queue_remove 5 (ev_links event_tasks_example)\<rparr>))"
  using io_defer_task_close_effects [of event_tasks_example "[]" "[]" 5 "[6]"] event_example_queues(1)
  by (auto simp: Let_def split: prod.splits)

theorem defer_task_next_round_witness:
  "\<exists>ev1 l2 fs. cat_event_loop_defer_task_create 9 2 (Some 90) event_example = Done ev1 \<and>
     uv__run_timers restart_cb (ev_loop ev1) = Some (Done l2) \<and> lp_fired l2 = fs \<and> 9 \<notin> set fs"
proof -
  have inv: "timer_inv (ev_loop event_example)"
    using timers.reach_inv [OF started_loop(1)] by (simp add: event_example_fields)
  have "9 \<notin> set (lp_closing_handles started_loop)"
    using timer_inv_closing(2) [OF timers.reach_inv [OF started_loop(1)], of 9] started_loop(8) [of 9]
    by (auto simp: uv__is_closing_def)
  moreover have "9 \<notin> active_timers started_loop" by (simp add: started_loop)
  ultimately have ok: "9 < MAX_TIMERS" "\<not> tm_active (timer (ev_loop event_example) 9)"
    "9 \<notin> set (lp_closing_handles (ev_loop event_example))" "lp_round (ev_loop event_example) \<noteq> - 1"
    by (simp_all add: event_example_fields MAX_TIMERS_def started_loop active_timers_def)
  have ph: "\<exists>l1. Done l = Done l1 \<and> phase_step\<^sup>*\<^sup>* l l1 \<and> lp_time l1 \<le> 0" if "lp_time l = lp_time (ev_loop event_example)" for l
    using that by (simp add: event_example_fields started_loop)
  show ?thesis
    using defer_task_next_round [OF inv ok(1-3) restart_callback ok(4), of Done 0 2 "Some 90"] ph
    by (fastforce simp: event_example_fields started_loop)
qed

theorem loop_defer_task_close_effects_witness:
  "\<exists>ev'. cat_event_loop_defer_task_close 3
     (event_example\<lparr>ev_defers := [3 \<mapsto> \<lparr>ld_callback = 2, ld_data = Some 90\<rparr>]\<rparr>) = Done (False, ev') \<and>
   3 \<notin> active_timers (ev_loop ev')"
  using loop_defer_task_close_effects
      [of "event_example\<lparr>ev_defers := [3 \<mapsto> \<lparr>ld_callback = 2, ld_data = Some 90\<rparr>]\<rparr>" 3 "\<lparr>ld_callback = 2, ld_data = Some 90\<rparr>"]
    timers.reach_inv [OF started_loop(1)] started_loop(8) [of 3]
  by (auto simp: event_example_fields)

end
