(* ===== verification/Cat_Time.thy ===== *)
theory Cat_Time
  imports Cat_Buffer Cat_Event
begin

text \<open>
  Waiting for time, \<^verbatim>\<open>src/cat_time.c\<close>, on the timers and the loop defer tasks of the theories below it. The
  yield of the waiting coroutine is a parameter: a function that says how the suspension ends (an error when
  the yield is refused) and what happened to the state meanwhile. A timer that fires runs
  \<open>cat_timer_callback\<close>, which clears the coroutine of the timer; that is how the waiter tells a timeout from
  being resumed by somebody else.

  \<^verbatim>\<open>cat_time_usleep\<close> and \<^verbatim>\<open>cat_time_nanosleep\<close> convert through floating point and are left out.
\<close>

record time_world =
  tw_event :: cat_event
  tw_coroutine :: "addr \<Rightarrow> nat option"

type_synonym yield_fun = "time_world \<Rightarrow> ((cat_errno + unit) \<times> time_world) c_run"

abbreviation tw_loop :: "time_world \<Rightarrow> uv_loop_t" where
  "tw_loop w \<equiv> ev_loop (tw_event w)"

definition set_loop :: "uv_loop_t \<Rightarrow> time_world \<Rightarrow> time_world" where
  "set_loop l w = w\<lparr>tw_event := tw_event w\<lparr>ev_loop := l\<rparr>\<rparr>"

datatype cat_ret_t = CAT_RET_ERROR cat_errno | CAT_RET_NONE | CAT_RET_OK

definition CAT_TIMER_CALLBACK :: nat where "CAT_TIMER_CALLBACK = 1"

text \<open>The callback of a timer: the coroutine to schedule, and the timer marked as due.\<close>

definition cat_timer_callback :: "addr \<Rightarrow> time_world \<Rightarrow> nat option \<times> time_world" where
  "cat_timer_callback tmr w = (tw_coroutine w tmr, w\<lparr>tw_coroutine := (tw_coroutine w)(tmr := None)\<rparr>)"

definition timer_arm :: "addr \<Rightarrow> nat \<Rightarrow> cat_msec_t \<Rightarrow> time_world \<Rightarrow> time_world c_run" where
  "timer_arm tmr co msec w =
     c_bind (uv_timer_start tmr (Some CAT_TIMER_CALLBACK) msec 0 (uv_timer_init tmr (tw_loop w))) (\<lambda>(_, l).
       let w = set_loop l w
       in Done (w\<lparr>tw_coroutine := (tw_coroutine w)(tmr \<mapsto> co)\<rparr>))"

definition cat_timer_wait ::
  "yield_fun \<Rightarrow> addr \<Rightarrow> nat \<Rightarrow> cat_msec_t \<Rightarrow> time_world \<Rightarrow> ((cat_errno + addr) \<times> time_world) c_run" where
  "cat_timer_wait cat_coroutine_yield tmr co msec w =
     c_bind (timer_arm tmr co msec w) (\<lambda>w.
     c_bind (cat_coroutine_yield w) (\<lambda>(ret, w).
     c_bind (uv_close tmr (tw_loop w)) (\<lambda>l.
       let w = set_loop l w
       in case ret of Inl e \<Rightarrow> Done (Inl e, w) | Inr _ \<Rightarrow> Done (Inr tmr, w))))"

definition cat_time_delay_0 ::
  "yield_fun \<Rightarrow> addr \<Rightarrow> nat \<Rightarrow> time_world \<Rightarrow> (cat_ret_t \<times> time_world) c_run" where
  "cat_time_delay_0 cat_coroutine_yield task co w =
     c_bind (cat_event_loop_defer_task_create task CAT_TIMER_CALLBACK (Some co) (tw_event w)) (\<lambda>ev.
     c_bind (cat_coroutine_yield (w\<lparr>tw_event := ev\<rparr>)) (\<lambda>(ret, w).
     c_bind (cat_event_loop_defer_task_close task (tw_event w)) (\<lambda>(called, ev).
       let w = w\<lparr>tw_event := ev\<rparr>
       in Done (case ret of Inl e \<Rightarrow> CAT_RET_ERROR e | Inr _ \<Rightarrow> if called then CAT_RET_OK else CAT_RET_NONE, w))))"

definition cat_time_wait ::
  "yield_fun \<Rightarrow> addr \<Rightarrow> nat \<Rightarrow> cat_timeout_t \<Rightarrow> time_world \<Rightarrow> ((cat_errno + unit) \<times> time_world) c_run" where
  "cat_time_wait cat_coroutine_yield tmr co timeout w =
     (if timeout < 0 then cat_coroutine_yield w
      else if timeout = 0 then
        c_bind (cat_time_delay_0 cat_coroutine_yield tmr co w) (\<lambda>(ret, w).
          Done (case ret of CAT_RET_ERROR e \<Rightarrow> Inl e | CAT_RET_OK \<Rightarrow> Inl CAT_ETIMEDOUT | CAT_RET_NONE \<Rightarrow> Inr (), w))
      else
        c_bind (cat_timer_wait cat_coroutine_yield tmr co (of_int timeout) w) (\<lambda>(r, w).
          Done (case r of Inl e \<Rightarrow> Inl e
             | Inr tmr \<Rightarrow> if tw_coroutine w tmr = None then Inl CAT_ETIMEDOUT else Inr (), w)))"

definition cat_time_delay ::
  "yield_fun \<Rightarrow> addr \<Rightarrow> nat \<Rightarrow> cat_timeout_t \<Rightarrow> time_world \<Rightarrow> (cat_ret_t \<times> time_world) c_run" where
  "cat_time_delay cat_coroutine_yield tmr co timeout w =
     (if timeout < 0 then c_bind (cat_coroutine_yield w) (\<lambda>(_, w). Done (CAT_RET_NONE, w))
      else if timeout = 0 then cat_time_delay_0 cat_coroutine_yield tmr co w
      else
        c_bind (cat_timer_wait cat_coroutine_yield tmr co (of_int timeout) w) (\<lambda>(r, w).
          Done (case r of Inl e \<Rightarrow> CAT_RET_ERROR e
             | Inr tmr \<Rightarrow> if tw_coroutine w tmr = None then CAT_RET_OK else CAT_RET_NONE, w)))"

text \<open>The milliseconds that are left, and the error the call has set.\<close>

definition cat_time_msleep_impl ::
  "yield_fun \<Rightarrow> addr \<Rightarrow> nat \<Rightarrow> cat_msec_t \<Rightarrow> time_world \<Rightarrow> ((cat_msec_t \<times> cat_errno option) \<times> time_world) c_run" where
  "cat_time_msleep_impl cat_coroutine_yield tmr co msec w =
     (if msec = 0 then
        c_bind (cat_time_delay_0 cat_coroutine_yield tmr co w) (\<lambda>(ret, w).
          Done ((0, case ret of CAT_RET_ERROR e \<Rightarrow> Some e | _ \<Rightarrow> None), w))
      else
        c_bind (cat_timer_wait cat_coroutine_yield tmr co msec w) (\<lambda>(r, w).
          Done (case r of
                  Inl e \<Rightarrow> (msec, Some e)
                | Inr tmr \<Rightarrow>
                    if tw_coroutine w tmr \<noteq> None then
                      (if tm_timeout (lp_timers (tw_loop w) tmr) \<le> lp_time (tw_loop w) then msec
                       else tm_timeout (lp_timers (tw_loop w) tmr) - lp_time (tw_loop w), Some CAT_ECANCELED)
                    else (0, None), w)))"

definition cat_time_msleep ::
  "yield_fun \<Rightarrow> addr \<Rightarrow> nat \<Rightarrow> cat_msec_t \<Rightarrow> time_world \<Rightarrow> (cat_msec_t \<times> time_world) c_run" where
  "cat_time_msleep cat_coroutine_yield tmr co millisecond w =
     c_bind (cat_time_msleep_impl cat_coroutine_yield tmr co millisecond w) (\<lambda>(r, w). Done (fst r, w))"

definition cat_time_sleep ::
  "yield_fun \<Rightarrow> addr \<Rightarrow> nat \<Rightarrow> u32 \<Rightarrow> time_world \<Rightarrow> (u32 \<times> time_world) c_run" where
  "cat_time_sleep cat_coroutine_yield tmr co seconds w =
     c_bind (cat_time_msleep_impl cat_coroutine_yield tmr co (ucast (seconds * 1000)) w) (\<lambda>(r, w).
       Done (ucast (fst r) div 1000, w))"

subsection \<open>Formats\<close>

definition SECOND :: u64 where "SECOND = 1000"
definition MINUTE :: u64 where "MINUTE = 60 * SECOND"
definition HOUR :: u64 where "HOUR = 60 * MINUTE"
definition DAY :: u64 where "DAY = 24 * HOUR"

definition cat_time_format_msec :: "cat_msec_t \<Rightarrow> byte list" where
  "cat_time_format_msec msec =
     (let rmsec = msec;
          day = msec div DAY;
          rmsec = rmsec - day * DAY;
          hour = rmsec div HOUR;
          rmsec = rmsec - hour * HOUR;
          minute = rmsec div MINUTE;
          rmsec = rmsec - minute * MINUTE;
          second = rmsec div SECOND;
          rmsec = rmsec - second * SECOND;
          d = decimal (unat day) @ [100]; h = decimal (unat hour) @ [104]; m = decimal (unat minute) @ [109];
          s = decimal (unat second) @ [115]; ms = decimal (unat rmsec) @ [109, 115]
      in if 0 < day then d @ h @ m @ s @ ms
         else if 0 < hour then h @ m @ s @ ms
         else if 0 < minute then m @ s @ ms
         else if 0 < second then s @ ms
         else ms)"

text \<open>The wall clock is read as seconds and microseconds.\<close>

definition cat_time_nsec2 :: "u64 \<times> u64 \<Rightarrow> u64" where
  "cat_time_nsec2 tv = fst tv * 1000000 + snd tv"

definition cat_time_tv2to :: "(int \<times> int) option \<Rightarrow> cat_timeout_t c_run" where
  "cat_time_tv2to tv =
     (case tv of
        None \<Rightarrow> Done (- 1)
      | Some (tv_sec, tv_usec) \<Rightarrow>
          let timeout = tv_sec * 1000 + sgn tv_usec * (\<bar>tv_usec\<bar> div 1000)
          in c_assert (- (2 ^ 63) \<le> tv_sec * 1000 \<and> tv_sec * 1000 < 2 ^ 63 \<and> - (2 ^ 63) \<le> timeout \<and> timeout < 2 ^ 63)
               (Done (if timeout < 0 then - 1 else timeout)))"

subsection \<open>How a suspension ends\<close>

text \<open>A yield is refused, or the coroutine is suspended, other things happen (\<open>env\<close>), and then the timer or
  the defer task fires and schedules the coroutine, or somebody else resumes it.\<close>

datatype wake = Refused cat_errno | Fired | Resumed

definition fire :: "addr \<Rightarrow> cat_timeout_t \<Rightarrow> time_world \<Rightarrow> time_world" where
  "fire tmr timeout w =
     (if timeout = 0 then
        (case cat_event_loop_defer_task_callback (\<lambda>_ _ _. Done) tmr (tw_event w) of
           Done ev \<Rightarrow> w\<lparr>tw_event := ev\<rparr> | _ \<Rightarrow> w)
      else snd (cat_timer_callback tmr w))"

definition suspend :: "wake \<Rightarrow> (time_world \<Rightarrow> time_world) \<Rightarrow> addr \<Rightarrow> cat_timeout_t \<Rightarrow> yield_fun" where
  "suspend how env tmr timeout w =
     (case how of
        Refused e \<Rightarrow> Done (Inl e, w)
      | Fired \<Rightarrow> Done (Inr (), fire tmr timeout (env w))
      | Resumed \<Rightarrow> Done (Inr (), env w))"

text \<open>What happens meanwhile: the loop stays in order, time goes forward, and nobody touches this timer or
  task.\<close>

definition leaves_timer :: "addr \<Rightarrow> (time_world \<Rightarrow> time_world) \<Rightarrow> bool" where
  "leaves_timer tmr env \<longleftrightarrow> (\<forall>w. timer_inv (tw_loop w) \<longrightarrow>
     timer_inv (tw_loop (env w)) \<and> lp_time (tw_loop w) \<le> lp_time (tw_loop (env w)) \<and>
     uv__is_closing (timer (tw_loop (env w)) tmr) = uv__is_closing (timer (tw_loop w) tmr) \<and>
     tm_timeout (timer (tw_loop (env w)) tmr) = tm_timeout (timer (tw_loop w) tmr) \<and>
     tw_coroutine (env w) tmr = tw_coroutine w tmr \<and> ev_defers (tw_event (env w)) tmr = ev_defers (tw_event w) tmr)"

definition free_timer :: "addr \<Rightarrow> time_world \<Rightarrow> bool" where
  "free_timer tmr w \<longleftrightarrow> timer_inv (tw_loop w) \<and> tmr < MAX_TIMERS \<and> tmr \<notin> active_timers (tw_loop w) \<and>
     tmr \<notin> set (lp_closing_handles (tw_loop w))"

text \<open>A timer given back: not active, and waiting for its close callback, which frees it.\<close>

definition given_back :: "addr \<Rightarrow> time_world \<Rightarrow> bool" where
  "given_back tmr w \<longleftrightarrow> timer_inv (tw_loop w) \<and> tmr \<notin> active_timers (tw_loop w) \<and>
     tmr \<in> set (lp_closing_handles (tw_loop w))"

lemma close_gives_back:
  assumes "timer_inv l" "\<not> uv__is_closing (timer l tmr)"
  obtains l' where "uv_close tmr l = Done l'" "timer_inv l'" "tmr \<notin> active_timers l'" "tmr \<in> set (lp_closing_handles l')"
    "tm_timeout (timer l' tmr) = tm_timeout (timer l tmr)" "lp_time l' = lp_time l"
proof -
  obtain l' where l': "uv_close tmr l = Done l'" "timer_inv l'" "same_loop l l'"
    "lp_timers l' = (lp_timers l)(tmr := timer l tmr\<lparr>tm_active := False, tm_closing := True\<rparr>)"
    using uv_close_inv [OF assms] by blast
  moreover have "tmr \<in> set (lp_closing_handles l')"
    using l'(1) by (auto simp: uv_close_def c_run_iffs uv__make_close_pending_def)
  ultimately show thesis using that by (auto simp: active_timers_def same_loop_def)
qed

lemma timer_arm_ok:
  assumes "free_timer tmr w"
  obtains w1 where "timer_arm tmr co msec w = Done w1" "timer_inv (tw_loop w1)" "tw_coroutine w1 tmr = Some co"
    "\<not> uv__is_closing (timer (tw_loop w1) tmr)" "lp_time (tw_loop w1) = lp_time (tw_loop w)"
    "tm_timeout (timer (tw_loop w1) tmr) = clamped (lp_time (tw_loop w)) msec"
proof -
  let ?l = "tw_loop w" and ?m = "uv_timer_init tmr (tw_loop w)"
  have f: "timer_inv ?l" "tmr < MAX_TIMERS" "\<not> tm_active (timer ?l tmr)" "tmr \<notin> set (lp_closing_handles ?l)"
    using assms by (auto simp: free_timer_def active_timers_def)
  have i: "timer_inv ?m" "same_loop ?l ?m"
    using timer_step_kept [OF timer_step.init [OF f(3,4)] f(1)] by (simp_all add: timers_kept_def)
  have nc: "\<not> uv__is_closing (timer ?m tmr)" by (simp add: uv_timer_init_def upd_timer_def uv__is_closing_def)
  obtain r l where l: "uv_timer_start tmr (Some CAT_TIMER_CALLBACK) msec 0 ?m = Done (r, l)" "timer_inv l" "same_loop ?m l"
    and ts: "if uv__is_closing (timer ?m tmr) \<or> Some CAT_TIMER_CALLBACK = None then r = Inl UV_EINVAL \<and> l = ?m
     else r = Inr () \<and> lp_starts l = lp_starts ?m + 1 \<and>
       lp_timers l = (lp_timers ?m)(tmr := timer ?m tmr\<lparr>tm_cb := Some CAT_TIMER_CALLBACK,
         tm_timeout := clamped (lp_time ?m) msec, tm_repeat := 0, tm_start_id := of_nat (lp_starts ?m),
         tm_round := lp_round ?m, tm_active := True\<rparr>)"
    using start_inv [OF i(1) f(2), of "Some CAT_TIMER_CALLBACK" msec 0] by metis
  show thesis
  proof (rule that)
    show "timer_arm tmr co msec w = Done (set_loop l w\<lparr>tw_coroutine := (tw_coroutine w)(tmr \<mapsto> co)\<rparr>)"
      using l(1) by (simp add: timer_arm_def set_loop_def)
  qed (use l(2,3) i(2) ts nc in \<open>auto simp: set_loop_def same_loop_def uv__is_closing_def\<close>)
qed

lemma leaves_timerD:
  assumes "leaves_timer tmr env" "timer_inv (tw_loop w)"
  shows "timer_inv (tw_loop (env w))" "lp_time (tw_loop w) \<le> lp_time (tw_loop (env w))"
    "uv__is_closing (timer (tw_loop (env w)) tmr) = uv__is_closing (timer (tw_loop w) tmr)"
    "tm_timeout (timer (tw_loop (env w)) tmr) = tm_timeout (timer (tw_loop w) tmr)"
    "tw_coroutine (env w) tmr = tw_coroutine w tmr" "ev_defers (tw_event (env w)) tmr = ev_defers (tw_event w) tmr"
  using assms unfolding leaves_timer_def by blast+

text \<open>A wait on a timer, up to the checks of its caller.\<close>

lemma timer_wait_spec:
  assumes free: "free_timer tmr w" and env: "leaves_timer tmr env" and t: "timeout \<noteq> 0"
  obtains w' where
    "cat_timer_wait (suspend how env tmr timeout) tmr co msec w =
       Done (case how of Refused e \<Rightarrow> Inl e | _ \<Rightarrow> Inr tmr, w')" "given_back tmr w'"
    "how \<noteq> Fired \<Longrightarrow> tw_coroutine w' tmr = Some co" "how = Fired \<Longrightarrow> tw_coroutine w' tmr = None"
    "lp_time (tw_loop w) \<le> lp_time (tw_loop w')"
    "tm_timeout (timer (tw_loop w') tmr) = clamped (lp_time (tw_loop w)) msec"
proof -
  obtain w1 where w1: "timer_arm tmr co msec w = Done w1" "timer_inv (tw_loop w1)" "tw_coroutine w1 tmr = Some co"
    "\<not> uv__is_closing (timer (tw_loop w1) tmr)" "lp_time (tw_loop w1) = lp_time (tw_loop w)"
    "tm_timeout (timer (tw_loop w1) tmr) = clamped (lp_time (tw_loop w)) msec"
    using timer_arm_ok [OF free] by blast
  define w2 where "w2 = (case how of Refused e \<Rightarrow> w1 | Fired \<Rightarrow> fire tmr timeout (env w1) | Resumed \<Rightarrow> env w1)"
  have y: "suspend how env tmr timeout w1 = Done (case how of Refused e \<Rightarrow> Inl e | _ \<Rightarrow> Inr (), w2)"
    by (simp add: suspend_def w2_def split: wake.splits)
  note e = leaves_timerD [OF env w1(2)]
  have w2: "timer_inv (tw_loop w2)" "\<not> uv__is_closing (timer (tw_loop w2) tmr)" "lp_time (tw_loop w) \<le> lp_time (tw_loop w2)"
    "tm_timeout (timer (tw_loop w2) tmr) = clamped (lp_time (tw_loop w)) msec"
    "how \<noteq> Fired \<Longrightarrow> tw_coroutine w2 tmr = Some co" "how = Fired \<Longrightarrow> tw_coroutine w2 tmr = None"
    using e w1 t by (auto simp: w2_def fire_def cat_timer_callback_def split: wake.splits)
  obtain l where l: "uv_close tmr (tw_loop w2) = Done l" "timer_inv l" "tmr \<notin> active_timers l"
    "tmr \<in> set (lp_closing_handles l)" "tm_timeout (timer l tmr) = tm_timeout (timer (tw_loop w2) tmr)"
    "lp_time l = lp_time (tw_loop w2)"
    using close_gives_back [OF w2(1,2)] by blast
  show thesis
  proof (rule that)
    show "cat_timer_wait (suspend how env tmr timeout) tmr co msec w =
       Done (case how of Refused e \<Rightarrow> Inl e | _ \<Rightarrow> Inr tmr, set_loop l w2)"
      using w1(1) y l(1) by (cases how) (simp_all add: cat_timer_wait_def Let_def)
  qed (use w2 l in \<open>simp_all add: given_back_def set_loop_def\<close>)
qed

lemma delay_0_spec:
  assumes free: "free_timer tmr w" and env: "leaves_timer tmr env"
  obtains w' where
    "cat_time_delay_0 (suspend how env tmr 0) tmr co w =
       Done (case how of Refused e \<Rightarrow> CAT_RET_ERROR e | Fired \<Rightarrow> CAT_RET_OK | Resumed \<Rightarrow> CAT_RET_NONE, w')" "given_back tmr w'"
proof -
  have f: "timer_inv (tw_loop w)" "tmr < MAX_TIMERS" "\<not> tm_active (timer (tw_loop w) tmr)" "tmr \<notin> set (lp_closing_handles (tw_loop w))"
    using free by (auto simp: free_timer_def active_timers_def)
  let ?t = "\<lparr>ld_callback = CAT_TIMER_CALLBACK, ld_data = Some co\<rparr>"
  obtain l where l: "cat_event_loop_defer_task_create tmr CAT_TIMER_CALLBACK (Some co) (tw_event w) =
      Done (tw_event w\<lparr>ev_defers := (ev_defers (tw_event w))(tmr \<mapsto> ?t), ev_loop := l\<rparr>)" "timer_inv l" "tmr \<in> active_timers l"
    using defer_create [OF f, where callback = CAT_TIMER_CALLBACK and data = "Some co"] by blast
  define w1 where "w1 = w\<lparr>tw_event := tw_event w\<lparr>ev_defers := (ev_defers (tw_event w))(tmr \<mapsto> ?t), ev_loop := l\<rparr>\<rparr>"
  have w1: "timer_inv (tw_loop w1)" "\<not> uv__is_closing (timer (tw_loop w1) tmr)" "ev_defers (tw_event w1) tmr = Some ?t"
    using l(2) timer_inv_ok [OF l(2,3)] by (simp_all add: w1_def)
  define w2 where "w2 = (case how of Refused e \<Rightarrow> w1 | Fired \<Rightarrow> fire tmr 0 (env w1) | Resumed \<Rightarrow> env w1)"
  have y: "suspend how env tmr 0 w1 = Done (case how of Refused e \<Rightarrow> Inl e | _ \<Rightarrow> Inr (), w2)"
    by (simp add: suspend_def w2_def split: wake.splits)
  note e = leaves_timerD [OF env w1(1)]
  have w2: "timer_inv (tw_loop w2)" "\<not> uv__is_closing (timer (tw_loop w2) tmr)"
    using e w1 by (simp_all add: w2_def fire_def cat_event_loop_defer_task_callback_def Let_def split: wake.splits)
  define t where "t = the (ev_defers (tw_event w2) tmr)"
  have t: "ev_defers (tw_event w2) tmr = Some t" "ld_data t = None \<longleftrightarrow> how = Fired"
    using e(6) w1(3)
    by (simp_all add: t_def w2_def fire_def cat_event_loop_defer_task_callback_def Let_def split: wake.splits)
  obtain l2 where l2: "uv_close tmr (tw_loop w2) = Done l2" "timer_inv l2" "tmr \<notin> active_timers l2"
    "tmr \<in> set (lp_closing_handles l2)"
    using close_gives_back [OF w2(1,2)] by blast
  have close: "cat_event_loop_defer_task_close tmr (tw_event w2) = Done (how = Fired, tw_event w2\<lparr>ev_loop := l2\<rparr>)"
    using l2(1) t by (simp add: cat_event_loop_defer_task_close_def Let_def)
  show thesis
  proof (rule that)
    show "cat_time_delay_0 (suspend how env tmr 0) tmr co w =
       Done (case how of Refused e \<Rightarrow> CAT_RET_ERROR e | Fired \<Rightarrow> CAT_RET_OK | Resumed \<Rightarrow> CAT_RET_NONE, set_loop l2 w2)"
      using l(1) y close unfolding cat_time_delay_0_def
      by (cases how) (simp_all add: w1_def [symmetric] set_loop_def)
  qed (use l2 in \<open>simp add: given_back_def set_loop_def\<close>)
qed

subsection \<open>Theorems\<close>

lemma clamped_exact: "unat time + unat timeout < 2 ^ 64 \<Longrightarrow> unat (clamped time timeout) = unat time + unat timeout"
  using unat_add_lt [of time timeout] by (simp add: clamped_def word_less_nat_alt)

lemma clamped_le: "unat (clamped time timeout) \<le> unat time + unat timeout"
proof (cases "unat time + unat timeout < 2 ^ 64")
  case False
  have "unat (clamped time timeout) < 2 ^ 64" using unsigned_less [where 'a = nat, of "clamped time timeout"] by simp
  with False show ?thesis by simp
qed (simp add: clamped_exact)

lemma time_wait_spec:
  assumes "free_timer tmr w" "leaves_timer tmr env" "0 \<le> timeout"
  shows "\<exists>w1 w2. cat_time_wait (suspend how env tmr timeout) tmr co timeout w =
      Done (case how of Refused e \<Rightarrow> Inl e | Fired \<Rightarrow> Inl CAT_ETIMEDOUT | Resumed \<Rightarrow> Inr (), w1) \<and> given_back tmr w1 \<and>
    cat_time_delay (suspend how env tmr timeout) tmr co timeout w =
      Done (case how of Refused e \<Rightarrow> CAT_RET_ERROR e | Fired \<Rightarrow> CAT_RET_OK | Resumed \<Rightarrow> CAT_RET_NONE, w2) \<and> given_back tmr w2"
proof (cases "timeout = 0")
  case True
  obtain w' where "cat_time_delay_0 (suspend how env tmr 0) tmr co w =
       Done (case how of Refused e \<Rightarrow> CAT_RET_ERROR e | Fired \<Rightarrow> CAT_RET_OK | Resumed \<Rightarrow> CAT_RET_NONE, w')" "given_back tmr w'"
    using delay_0_spec [OF assms(1,2)] by blast
  then show ?thesis using True by (cases how) (simp_all add: cat_time_wait_def cat_time_delay_def)
next
  case False
  obtain w' where "cat_timer_wait (suspend how env tmr timeout) tmr co (of_int timeout) w =
       Done (case how of Refused e \<Rightarrow> Inl e | _ \<Rightarrow> Inr tmr, w')" "given_back tmr w'"
    "how \<noteq> Fired \<Longrightarrow> tw_coroutine w' tmr = Some co" "how = Fired \<Longrightarrow> tw_coroutine w' tmr = None"
    using timer_wait_spec [OF assms(1,2) False] by blast
  then show ?thesis using False assms(3) by (cases how) (simp_all add: cat_time_wait_def cat_time_delay_def)
qed

text \<open>C27: How a wait with a timeout ends, for a timeout of zero and for a longer one: with the error of the yield
  when that is refused, with ETIMEDOUT when the time is over, and with success when somebody resumes the
  coroutine before. A delay reports the same as error, OK and NONE. In every case the timer is given back:
  it is no longer active and its close callback will free it.\<close>

theorem time_wait_outcomes:
  assumes "free_timer tmr w" "leaves_timer tmr env" "0 \<le> timeout"
  shows "\<exists>w1 w2. cat_time_wait (suspend how env tmr timeout) tmr co timeout w =
      Done (case how of Refused e \<Rightarrow> Inl e | Fired \<Rightarrow> Inl CAT_ETIMEDOUT | Resumed \<Rightarrow> Inr (), w1) \<and> given_back tmr w1 \<and>
    cat_time_delay (suspend how env tmr timeout) tmr co timeout w =
      Done (case how of Refused e \<Rightarrow> CAT_RET_ERROR e | Fired \<Rightarrow> CAT_RET_OK | Resumed \<Rightarrow> CAT_RET_NONE, w2) \<and> given_back tmr w2"
  by (rule time_wait_spec [OF assms])

text \<open>What a sleep returns: nothing left when the time is over, all of it when it never began, and when it is
  canceled the part of it that is left: never more than was asked for and, as long as the due time is
  still ahead, exactly the distance to it.\<close>

theorem msleep_remaining:
  assumes "free_timer tmr w" "leaves_timer tmr env" "msec \<noteq> 0" "timeout \<noteq> 0"
  shows "\<exists>left w'. cat_time_msleep (suspend how env tmr timeout) tmr co msec w = Done (left, w') \<and> given_back tmr w' \<and>
    left \<le> msec \<and>
    (case how of Refused e \<Rightarrow> left = msec | Fired \<Rightarrow> left = 0
     | Resumed \<Rightarrow> unat (lp_time (tw_loop w)) + unat msec < 2 ^ 64 \<longrightarrow>
         unat (lp_time (tw_loop w')) < unat (lp_time (tw_loop w)) + unat msec \<longrightarrow>
         unat left = unat (lp_time (tw_loop w)) + unat msec - unat (lp_time (tw_loop w')))"
proof -
  obtain w' where w': "cat_timer_wait (suspend how env tmr timeout) tmr co msec w =
       Done (case how of Refused e \<Rightarrow> Inl e | _ \<Rightarrow> Inr tmr, w')" "given_back tmr w'"
    "how \<noteq> Fired \<Longrightarrow> tw_coroutine w' tmr = Some co" "how = Fired \<Longrightarrow> tw_coroutine w' tmr = None"
    "lp_time (tw_loop w) \<le> lp_time (tw_loop w')"
    "tm_timeout (timer (tw_loop w') tmr) = clamped (lp_time (tw_loop w)) msec"
    using timer_wait_spec [OF assms(1,2,4)] by blast
  let ?t = "lp_time (tw_loop w)" and ?u = "lp_time (tw_loop w')"
  define left where "left = (if clamped ?t msec \<le> ?u then msec else clamped ?t msec - ?u)"
  have sub: "unat left = unat (clamped ?t msec) - unat ?u" if "?u < clamped ?t msec"
    using that by (simp add: left_def unat_sub not_le flip: not_less)
  have left: "left \<le> msec"
  proof (cases "?u < clamped ?t msec")
    case True
    then show ?thesis using sub clamped_le [of ?t msec] w'(5) by (simp add: word_le_nat_alt)
  qed (simp add: left_def not_less)
  have exact: "unat left = unat ?t + unat msec - unat ?u"
    if "unat ?t + unat msec < 2 ^ 64" "unat ?u < unat ?t + unat msec"
    using that sub clamped_exact [of ?t msec] by (simp add: word_less_nat_alt)
  show ?thesis
  proof (cases how)
    case Resumed
    then have "cat_time_msleep (suspend how env tmr timeout) tmr co msec w = Done (left, w')"
      using w'(1,3,6) assms(3) by (simp add: cat_time_msleep_def cat_time_msleep_impl_def left_def)
    then show ?thesis using w'(2) left exact Resumed by auto
  qed (use w'(1-4) assms(3) in \<open>auto simp: cat_time_msleep_def cat_time_msleep_impl_def\<close>)
qed

text \<open>A sleep in seconds asks for the product with 1000 reduced to 32 bits: more than 4294967 seconds wrap, so
  that a sleep of 4294968 seconds, seven weeks, is one of 704 milliseconds.\<close>

theorem sleep_wraps:
  "cat_time_sleep yield tmr co seconds w =
     c_bind (cat_time_msleep yield tmr co (of_nat (unat seconds * 1000 mod 2 ^ 32)) w) (\<lambda>(left, w).
       Done (ucast left div 1000, w)) \<and>
   (4294967 < unat seconds \<longrightarrow> unat seconds * 1000 mod 2 ^ 32 < unat seconds * 1000) \<and>
   cat_time_sleep yield tmr co 4294968 w =
     c_bind (cat_time_msleep yield tmr co 704 w) (\<lambda>(left, w). Done (ucast left div 1000, w))"
proof -
  have *: "cat_time_sleep yield tmr co s w =
     c_bind (cat_time_msleep yield tmr co (of_nat (unat s * 1000 mod 2 ^ 32)) w) (\<lambda>(left, w).
       Done (ucast left div 1000, w))" for s
  proof -
    have "unat (s * 1000) = unat s * 1000 mod 2 ^ 32" by (simp add: unat_word_ariths)
    moreover have "ucast (s * 1000) = (of_nat (unat (s * 1000)) :: u64)" by (rule of_nat_unat [symmetric])
    ultimately have "ucast (s * 1000) = (of_nat (unat s * 1000 mod 2 ^ 32) :: u64)" by (simp only:)
    then show ?thesis
      by (simp add: cat_time_sleep_def cat_time_msleep_def c_bind_assoc case_prod_unfold)
  qed
  have "unat (4294968 :: u32) * 1000 mod 2 ^ 32 = 704" by simp
  moreover have "of_nat 704 = (704 :: u64)" by simp
  ultimately have "cat_time_sleep yield tmr co 4294968 w =
     c_bind (cat_time_msleep yield tmr co 704 w) (\<lambda>(left, w). Done (ucast left div 1000, w))"
    using * [of 4294968] by metis
  moreover have "unat seconds * 1000 mod 2 ^ 32 < unat seconds * 1000" if "4294967 < unat seconds"
    using that mod_less_divisor [of "2 ^ 32" "unat seconds * 1000"] by simp
  ultimately show ?thesis using * by blast
qed

subsection \<open>Durations as text\<close>

text \<open>A reader for the format: numbers, each followed by its unit.\<close>

fun read_msec :: "nat \<Rightarrow> nat \<Rightarrow> byte list \<Rightarrow> nat option" where
  "read_msec n acc [] = Some acc"
| "read_msec n acc (c # cs) =
     (if 48 \<le> c \<and> c \<le> 57 then read_msec (10 * n + (unat c - 48)) acc cs
      else if c = 100 then read_msec 0 (acc + n * 86400000) cs
      else if c = 104 then read_msec 0 (acc + n * 3600000) cs
      else if c = 115 then read_msec 0 (acc + n * 1000) cs
      else if c = 109 then
        (case cs of
           [] \<Rightarrow> Some (acc + n * 60000)
         | c' # cs' \<Rightarrow> if c' = 115 then read_msec 0 (acc + n) cs' else read_msec 0 (acc + n * 60000) cs)
      else None)"

lemma digit_unat: "d < 10 \<Longrightarrow> unat (of_nat (48 + d) :: byte) = 48 + d"
  by (rule unat_of_nat_lt) simp

lemma digit_range: "d < 10 \<Longrightarrow> 48 \<le> (of_nat (48 + d) :: byte) \<and> (of_nat (48 + d) :: byte) \<le> 57"
  using digit_unat [of d] by (simp add: word_le_nat_alt del: of_nat_add)

lemma read_digit: "d < 10 \<Longrightarrow> read_msec n acc (of_nat (48 + d) # cs) = read_msec (10 * n + d) acc cs"
  using digit_range [of d] digit_unat [of d] by (simp del: of_nat_add)

lemma read_decimal: "read_msec 0 acc (decimal k @ cs) = read_msec k acc cs"
proof (induction k arbitrary: cs rule: decimal.induct)
  case (1 k)
  show ?case
  proof (cases "k < 10")
    case True
    then show ?thesis using read_digit [of k 0] by (simp add: decimal.simps [of k] del: of_nat_add)
  next
    case False
    then show ?thesis using 1 read_digit [of "k mod 10" "k div 10"]
      by (simp add: decimal.simps [of k] del: of_nat_add)
  qed
qed

lemma decimal_first: "\<exists>d ds. d < 10 \<and> decimal k = of_nat (48 + d) # ds"
proof (induction k rule: decimal.induct)
  case (1 k)
  show ?case
  proof (cases "k < 10")
    case False
    then obtain d ds where "d < 10" "decimal (k div 10) = of_nat (48 + d) # ds" using 1 by blast
    then show ?thesis using False by (auto simp: decimal.simps [of k] simp del: of_nat_add)
  qed (auto simp: decimal.simps [of k] simp del: of_nat_add)
qed

lemma read_minutes: "read_msec n acc (109 # decimal k @ cs) = read_msec 0 (acc + n * 60000) (decimal k @ cs)"
proof -
  obtain d ds where d: "d < 10" "decimal k = of_nat (48 + d) # ds" using decimal_first by blast
  have "(of_nat (48 + d) :: byte) \<noteq> 115"
  proof
    assume "(of_nat (48 + d) :: byte) = 115"
    then have "unat (of_nat (48 + d) :: byte) = 115" by (simp del: of_nat_add)
    then show False using digit_unat [OF d(1)] d(1) by (simp del: of_nat_add)
  qed
  then show ?thesis by (simp add: d(2) read_msec.simps(2) [of n acc 109] del: of_nat_add read_msec.simps(2))
qed

lemma read_units:
  "read_msec n acc (100 # cs) = read_msec 0 (acc + n * 86400000) cs"
  "read_msec n acc (104 # cs) = read_msec 0 (acc + n * 3600000) cs"
  "read_msec n acc (115 # cs) = read_msec 0 (acc + n * 1000) cs"
  "read_msec n acc [109, 115] = Some (acc + n)"
  by (simp_all add: word_le_nat_alt)

lemma word_rest: "(a :: u64) - a div b * b = a mod b"
  by (simp add: minus_div_mult_eq_mod)

lemma unit_values: "DAY = 86400000" "HOUR = 3600000" "MINUTE = 60000" "SECOND = 1000"
  by (simp_all add: DAY_def HOUR_def MINUTE_def SECOND_def)

lemma nat_units: "(n :: nat) div 86400000 * 86400000 + n mod 86400000 div 3600000 * 3600000 +
    n mod 86400000 mod 3600000 div 60000 * 60000 + n mod 86400000 mod 3600000 mod 60000 div 1000 * 1000 +
    n mod 86400000 mod 3600000 mod 60000 mod 1000 = n"
  by simp

text \<open>A duration printed in days, hours, minutes, seconds and milliseconds reads back as the duration.\<close>

theorem format_msec_round_trip: "read_msec 0 0 (cat_time_format_msec msec) = Some (unat msec)"
proof -
  define d where "d = unat msec div 86400000"
  define h where "h = unat msec mod 86400000 div 3600000"
  define m where "m = unat msec mod 86400000 mod 3600000 div 60000"
  define s where "s = unat msec mod 86400000 mod 3600000 mod 60000 div 1000"
  define ms where "ms = unat msec mod 86400000 mod 3600000 mod 60000 mod 1000"
  have n: "d * 86400000 + h * 3600000 + m * 60000 + s * 1000 + ms = unat msec"
    unfolding d_def h_def m_def s_def ms_def by (rule nat_units)
  have pos: "0 < msec div 86400000 \<longleftrightarrow> d \<noteq> 0" "0 < msec mod 86400000 div 3600000 \<longleftrightarrow> h \<noteq> 0"
    "0 < msec mod 86400000 mod 3600000 div 60000 \<longleftrightarrow> m \<noteq> 0"
    "0 < msec mod 86400000 mod 3600000 mod 60000 div 1000 \<longleftrightarrow> s \<noteq> 0"
    by (simp_all add: d_def h_def m_def s_def word_less_nat_alt unat_div unat_mod)
  have f: "cat_time_format_msec msec =
      (if d \<noteq> 0 then decimal d @ 100 # decimal h @ 104 # decimal m @ 109 # decimal s @ 115 # decimal ms @ [109, 115]
       else if h \<noteq> 0 then decimal h @ 104 # decimal m @ 109 # decimal s @ 115 # decimal ms @ [109, 115]
       else if m \<noteq> 0 then decimal m @ 109 # decimal s @ 115 # decimal ms @ [109, 115]
       else if s \<noteq> 0 then decimal s @ 115 # decimal ms @ [109, 115]
       else decimal ms @ [109, 115])"
    unfolding cat_time_format_msec_def Let_def unit_values word_rest pos
    by (simp add: d_def h_def m_def s_def ms_def unat_div unat_mod)
  show ?thesis
    unfolding f using n by (simp add: read_decimal read_units read_minutes del: read_msec.simps)
qed

subsection \<open>Examples\<close>

definition time_example :: time_world where
  "time_example = \<lparr>tw_event = event_example, tw_coroutine = (\<lambda>_. None)\<rparr>"

lemma time_example_free: "free_timer 9 time_example"
proof -
  have inv: "timer_inv started_loop" using timers.reach_inv [OF started_loop(1)] .
  have "9 \<notin> set (lp_closing_handles started_loop)"
    using timer_inv_closing(2) [OF inv, of 9] started_loop(8) [of 9] by (auto simp: uv__is_closing_def)
  then show ?thesis using inv
    by (simp add: free_timer_def time_example_def event_example_fields started_loop MAX_TIMERS_def)
qed

lemma leaves_timer_id: "leaves_timer tmr id"
  by (simp add: leaves_timer_def)

theorem time_wait_outcomes_witness:
  "\<exists>w1. cat_time_wait (suspend Fired id 9 50) 9 2 50 time_example = Done (Inl CAT_ETIMEDOUT, w1) \<and> given_back 9 w1"
  using time_wait_outcomes [OF time_example_free leaves_timer_id, of 50 Fired 2] by auto

theorem msleep_remaining_witness:
  "\<exists>left w'. cat_time_msleep (suspend Fired id 9 50) 9 2 50 time_example = Done (left, w') \<and> left = 0"
  using msleep_remaining [OF time_example_free leaves_timer_id, of 50 50 Fired 2] by auto

theorem sleep_wraps_witness: "unat (4294968 :: u32) * 1000 mod 2 ^ 32 < unat (4294968 :: u32) * 1000"
  using sleep_wraps [of "suspend Fired id 9 704" 9 2 4294968 time_example] by simp

end
