(* ===== verification/Cat_Multipart.thy ===== *)
theory Cat_Multipart
  imports Cat_Http Cat_Buffer
begin

unbundle bit_operations_syntax

text \<open>
  The parser of multipart bodies, \<^verbatim>\<open>deps/multipart-parser-c/multipart_parser.c\<close>, and the callbacks of
  \<^verbatim>\<open>src/cat_http.c\<close> it reports to.

  One call of \<^verbatim>\<open>multipart_parser_execute\<close> reads a buffer byte by byte through the \<^verbatim>\<open>switch\<close> over the
  state; every state is one definition, a \<^verbatim>\<open>fallthrough\<close> or \<^verbatim>\<open>goto data_rollback\<close> a call of the next.
  The positions \<open>i\<close>, \<^verbatim>\<open>mark\<close> and \<^verbatim>\<open>mark_end\<close> are naturals, the lengths handed to the callbacks are
  computed as \<^verbatim>\<open>size_t\<close>, so that a difference below zero wraps. A read outside the boundary array is
  undefined.
\<close>

subsection \<open>State of the parser\<close>

datatype mp_state =
    s_uninitialized | s_start | s_start_boundary | s_header_field_start | s_header_field
  | s_headers_almost_done | s_header_value_start | s_header_value | s_header_value_almost_done
  | s_part_data_start | s_part_data | s_part_data_almost_boundary | s_part_data_boundary
  | s_part_data_almost_end | s_part_data_end | s_part_data_final_hyphen | s_end

datatype multipart_error =
    MPPE_OK | MPPE_PAUSED | MPPE_UNKNOWN | MPPE_BOUNDARY_END_NO_CRLF | MPPE_BAD_START_BOUNDARY
  | MPPE_INVALID_HEADER_FIELD_CHAR | MPPE_INVALID_HEADER_VALUE_CHAR | MPPE_BAD_PART_END
  | MPPE_END_BOUNDARY_NO_DASH | MPPE_EARLY_EOF

record multipart_parser =
  mp_index :: nat
  mp_error_i :: nat
  mp_boundary_length :: nat
  mp_state :: mp_state
  mp_error_reason :: multipart_error
  mp_boundary :: "byte list" \<comment> \<open>\<^verbatim>\<open>multipart_boundary\<close>\<close>
  mp_error_expected :: byte
  mp_error_unexpected :: byte

abbreviation CR :: byte where "CR \<equiv> 13"
abbreviation LF :: byte where "LF \<equiv> 10"
abbreviation HYPHEN :: byte where "HYPHEN \<equiv> 45"
abbreviation COLON :: byte where "COLON \<equiv> 58"
abbreviation SPACE :: byte where "SPACE \<equiv> 32"
abbreviation BOUNDARY_MAX_LEN :: nat where "BOUNDARY_MAX_LEN \<equiv> 70"

text \<open>\<^verbatim>\<open>multipart_parser_init\<close>: \<open>None\<close> stands for a \<^verbatim>\<open>NULL\<close> boundary, which keeps the one already stored;
  the result is \<open>False\<close> for \<^verbatim>\<open>-1\<close>. The settings are an argument of the execution.\<close>

definition multipart_parser_init :: "byte list option \<Rightarrow> multipart_parser \<Rightarrow> (bool \<times> multipart_parser) c_run" where
  "multipart_parser_init boundary mp =
     (let len = (case boundary of None \<Rightarrow> 0 | Some b \<Rightarrow> length b)
      in if len > BOUNDARY_MAX_LEN then Done (False, mp)
         else
           c_bind (case boundary of
               Some b \<Rightarrow> if b = [] then Done mp
                 else c_bind (mem_write (mp_boundary mp) 0 [HYPHEN, HYPHEN]) (\<lambda>arr.
                   c_bind (mem_write arr 2 b) (\<lambda>arr.
                     Done (mp\<lparr>mp_boundary := arr, mp_boundary_length := len + 2\<rparr>)))
             | None \<Rightarrow> Done mp) (\<lambda>mp.
           c_bind (mem_write (mp_boundary mp) (mp_boundary_length mp)
               (replicate (length (mp_boundary mp) - mp_boundary_length mp) 0)) (\<lambda>arr.
             Done (True, mp\<lparr>mp_boundary := arr, mp_index := 0, mp_state := s_start, mp_error_i := 0,
               mp_error_unexpected := 0, mp_error_expected := 0, mp_error_reason := MPPE_OK\<rparr>))))"

text \<open>\<^verbatim>\<open>multipart_parser_alloc\<close>: \<open>have_memory\<close> says whether \<^verbatim>\<open>calloc\<close> gives a block; a parser that cannot be
  initialised is freed again.\<close>

definition zero_parser :: multipart_parser where
  "zero_parser = \<lparr>mp_index = 0, mp_error_i = 0, mp_boundary_length = 0, mp_state = s_uninitialized, mp_error_reason = MPPE_OK,
     mp_boundary = replicate BOUNDARY_SIZE 0, mp_error_expected = 0, mp_error_unexpected = 0\<rparr>"

definition multipart_parser_alloc :: "bool \<Rightarrow> byte list option \<Rightarrow> multipart_parser option c_run" where
  "multipart_parser_alloc have_memory boundary =
     (if \<not> have_memory then Done None
      else c_bind (multipart_parser_init boundary zero_parser) (\<lambda>(ok, p). Done (if ok then Some p else None)))"

subsection \<open>Callbacks\<close>

text \<open>A call of a callback: data callbacks get a position of the buffer and a length. The settings give
  the callback, if there is one, as a function of its client's state.\<close>

datatype mp_event =
    header_field nat size_t | header_value nat size_t | part_data nat size_t
  | part_data_begin | headers_complete | part_data_end | body_end

type_synonym 'u mp_settings = "mp_event \<Rightarrow> ('u \<Rightarrow> (multipart_error \<times> 'u) c_run) option"

text \<open>What \<^verbatim>\<open>multipart_parser_execute\<close> returns: the parsed length, or \<^verbatim>\<open>MPPE_ERROR\<close>.\<close>

datatype mp_result = Parsed nat | MPPE_ERROR

record 'u mp_run =
  mr_p :: multipart_parser
  mr_mark :: nat
  mr_mark_end :: nat
  mr_user :: 'u

text \<open>How the code of a state ends: \<^verbatim>\<open>break\<close> out of the \<^verbatim>\<open>switch\<close>, \<^verbatim>\<open>return\<close>, or undefined behaviour.\<close>

datatype 'u mp_exit = Break "'u mp_run" | Return mp_result "'u mp_run" | Outside

definition upd_p :: "(multipart_parser \<Rightarrow> multipart_parser) \<Rightarrow> 'u mp_run \<Rightarrow> 'u mp_run" where
  "upd_p f w = w\<lparr>mr_p := f (mr_p w)\<rparr>"

abbreviation goto_state :: "mp_state \<Rightarrow> 'u mp_run \<Rightarrow> 'u mp_run" where
  "goto_state s \<equiv> upd_p (\<lambda>p. p\<lparr>mp_state := s\<rparr>)"

text \<open>\<^verbatim>\<open>NOTIFY_CB\<close> and \<^verbatim>\<open>EMIT_DATA_CB\<close>: \<open>r\<close> is what the parser returns when the callback pauses it.\<close>

definition emit_cb :: "'u mp_settings \<Rightarrow> mp_event \<Rightarrow> nat \<Rightarrow> 'u mp_run \<Rightarrow> ('u mp_run \<Rightarrow> 'u mp_exit) \<Rightarrow> 'u mp_exit" where
  "emit_cb st e r w k =
     (case st e of None \<Rightarrow> k w
      | Some f \<Rightarrow>
          (case f (mr_user w) of
             Done (ret, u) \<Rightarrow>
               if ret = MPPE_PAUSED then Return (Parsed r) (w\<lparr>mr_user := u\<rparr>)
               else if ret \<noteq> MPPE_OK then Return MPPE_ERROR (w\<lparr>mr_user := u\<rparr>)
               else k (w\<lparr>mr_user := u\<rparr>)
           | _ \<Rightarrow> Outside))"

definition error_out :: "byte \<Rightarrow> nat \<Rightarrow> multipart_error \<Rightarrow> 'u mp_run \<Rightarrow> 'u mp_exit" where
  "error_out c i reason w =
     Return MPPE_ERROR (upd_p (\<lambda>p. p\<lparr>mp_error_unexpected := c, mp_error_i := i, mp_error_reason := reason\<rparr>) w)"

definition error_expect :: "byte \<Rightarrow> nat \<Rightarrow> multipart_error \<Rightarrow> byte \<Rightarrow> 'u mp_run \<Rightarrow> 'u mp_exit" where
  "error_expect c i reason ch w = error_out c i reason (upd_p (\<lambda>p. p\<lparr>mp_error_expected := ch\<rparr>) w)"

text \<open>The read \<^verbatim>\<open>p->multipart_boundary[p->index]\<close>, and a difference of positions as \<^verbatim>\<open>size_t\<close>.\<close>

definition boundary_at :: "'u mp_run \<Rightarrow> (byte \<Rightarrow> 'u mp_exit) \<Rightarrow> 'u mp_exit" where
  "boundary_at w k =
     (if mp_index (mr_p w) < length (mp_boundary (mr_p w)) then k (mp_boundary (mr_p w) ! mp_index (mr_p w))
      else Outside)"

definition ptr_dist :: "nat \<Rightarrow> nat \<Rightarrow> size_t" where
  "ptr_dist to from = of_nat to - of_nat from"

subsection \<open>The states\<close>

definition st_start_boundary :: "'u mp_settings \<Rightarrow> byte \<Rightarrow> nat \<Rightarrow> 'u mp_run \<Rightarrow> 'u mp_exit" where
  "st_start_boundary st c i w =
     (let p = mr_p w
      in if mp_index p = mp_boundary_length p then
           (if c \<noteq> CR then error_expect c i MPPE_BOUNDARY_END_NO_CRLF CR w
            else Break (upd_p (\<lambda>p. p\<lparr>mp_index := mp_index p + 1\<rparr>) w))
         else if mp_index p = mp_boundary_length p + 1 then
           (if c \<noteq> LF then error_expect c i MPPE_BOUNDARY_END_NO_CRLF LF w
            else emit_cb st part_data_begin (i + 1)
              (upd_p (\<lambda>p. p\<lparr>mp_index := 0, mp_state := s_header_field_start\<rparr>) w) Break)
         else boundary_at w (\<lambda>b.
           if c \<noteq> b then error_expect c i MPPE_BAD_START_BOUNDARY b w
           else Break (upd_p (\<lambda>p. p\<lparr>mp_index := mp_index p + 1\<rparr>) w)))"

definition st_start :: "'u mp_settings \<Rightarrow> byte \<Rightarrow> nat \<Rightarrow> 'u mp_run \<Rightarrow> 'u mp_exit" where
  "st_start st c i w = st_start_boundary st c i (upd_p (\<lambda>p. p\<lparr>mp_index := 0, mp_state := s_start_boundary\<rparr>) w)"

text \<open>The letters of a field name; \<^verbatim>\<open>char\<close> is signed.\<close>

definition field_letter :: "byte \<Rightarrow> bool" where
  "field_letter c \<longleftrightarrow> \<not> (sint (c OR 32) < 97 \<or> sint (c OR 32) > 122)"

definition st_header_field :: "'u mp_settings \<Rightarrow> byte \<Rightarrow> nat \<Rightarrow> bool \<Rightarrow> 'u mp_run \<Rightarrow> 'u mp_exit" where
  "st_header_field st c i is_last w =
     (let mark = mr_mark w;
          last_cb = (if is_last then emit_cb st (header_field mark (ptr_dist i mark + 1)) (i + 1) w Break else Break w)
      in if c = CR then Break (goto_state s_headers_almost_done w)
         else if c = HYPHEN then last_cb
         else if c = COLON then
           emit_cb st (header_field mark (ptr_dist i mark)) (i + 1) (goto_state s_header_value_start w) Break
         else if \<not> field_letter c then error_out c i MPPE_INVALID_HEADER_FIELD_CHAR w
         else last_cb)"

definition st_header_field_start :: "'u mp_settings \<Rightarrow> byte \<Rightarrow> nat \<Rightarrow> bool \<Rightarrow> 'u mp_run \<Rightarrow> 'u mp_exit" where
  "st_header_field_start st c i is_last w =
     st_header_field st c i is_last (goto_state s_header_field (w\<lparr>mr_mark := i\<rparr>))"

definition st_headers_almost_done :: "byte \<Rightarrow> nat \<Rightarrow> 'u mp_run \<Rightarrow> 'u mp_exit" where
  "st_headers_almost_done c i w =
     (if c \<noteq> LF then error_expect c i MPPE_INVALID_HEADER_VALUE_CHAR LF w
      else Break (goto_state s_part_data_start w))"

definition st_header_value :: "'u mp_settings \<Rightarrow> byte \<Rightarrow> nat \<Rightarrow> bool \<Rightarrow> 'u mp_run \<Rightarrow> 'u mp_exit" where
  "st_header_value st c i is_last w =
     (let mark = mr_mark w;
          rest = (\<lambda>w. if is_last then emit_cb st (header_value mark (ptr_dist i mark + 1)) (i + 1) w Break else Break w)
      in if c = CR
         then emit_cb st (header_value mark (ptr_dist i mark)) (i + 1) (goto_state s_header_value_almost_done w) rest
         else rest w)"

definition st_header_value_start :: "'u mp_settings \<Rightarrow> byte \<Rightarrow> nat \<Rightarrow> bool \<Rightarrow> 'u mp_run \<Rightarrow> 'u mp_exit" where
  "st_header_value_start st c i is_last w =
     (if c = SPACE then Break w
      else st_header_value st c i is_last (goto_state s_header_value (w\<lparr>mr_mark := i\<rparr>)))"

definition st_header_value_almost_done :: "byte \<Rightarrow> nat \<Rightarrow> 'u mp_run \<Rightarrow> 'u mp_exit" where
  "st_header_value_almost_done c i w =
     (if c \<noteq> LF then error_expect c i MPPE_INVALID_HEADER_VALUE_CHAR LF w
      else Break (goto_state s_header_field_start w))"

text \<open>The label \<^verbatim>\<open>data_rollback\<close>.\<close>

definition st_part_data :: "'u mp_settings \<Rightarrow> byte \<Rightarrow> nat \<Rightarrow> bool \<Rightarrow> 'u mp_run \<Rightarrow> 'u mp_exit" where
  "st_part_data st c i is_last w =
     (let mark = mr_mark w
      in if c = CR then
           let w = w\<lparr>mr_mark_end := i\<rparr>;
               found = (\<lambda>w. Break (goto_state s_part_data_almost_boundary w))
           in if is_last then
                (if i > 1 then emit_cb st (part_data mark (ptr_dist i mark)) i w found
                 else Return (Parsed 0) w)
              else found w
         else
           let w = w\<lparr>mr_mark_end := i + 1\<rparr>
           in if is_last then emit_cb st (part_data mark (ptr_dist (i + 1) mark)) (i + 1) w Break else Break w)"

definition st_part_data_start :: "'u mp_settings \<Rightarrow> byte \<Rightarrow> nat \<Rightarrow> bool \<Rightarrow> 'u mp_run \<Rightarrow> 'u mp_exit" where
  "st_part_data_start st c i is_last w =
     emit_cb st headers_complete i (goto_state s_part_data (w\<lparr>mr_mark := i\<rparr>)) (st_part_data st c i is_last)"

definition st_part_data_almost_boundary :: "'u mp_settings \<Rightarrow> byte \<Rightarrow> nat \<Rightarrow> bool \<Rightarrow> 'u mp_run \<Rightarrow> 'u mp_exit" where
  "st_part_data_almost_boundary st c i is_last w =
     (if c = LF then
        let found = (\<lambda>w. Break (upd_p (\<lambda>p. p\<lparr>mp_state := s_part_data_boundary, mp_index := 0\<rparr>) w))
        in if is_last then
             (if i > 2 then
                emit_cb st (part_data (mr_mark w) (ptr_dist (mr_mark_end w) (mr_mark w))) (mr_mark_end w) w found
              else Return (Parsed 0) w)
           else found w
      else st_part_data st c i is_last (goto_state s_part_data w))"

definition st_part_data_boundary :: "'u mp_settings \<Rightarrow> byte \<Rightarrow> nat \<Rightarrow> bool \<Rightarrow> 'u mp_run \<Rightarrow> 'u mp_exit" where
  "st_part_data_boundary st c i is_last w =
     boundary_at w (\<lambda>b.
       if b \<noteq> c then st_part_data st c i is_last (goto_state s_part_data w)
       else
         let k = mp_index (mr_p w);
             found = (\<lambda>w.
               let w = upd_p (\<lambda>p. p\<lparr>mp_index := k + 1\<rparr>) w
               in if k + 1 = mp_boundary_length (mr_p w) then
                    emit_cb st (part_data (mr_mark w)
                        (ptr_dist (i + 1) (mp_boundary_length (mr_p w)) - 2 - of_nat (mr_mark w))) (i + 1)
                      (goto_state s_part_data_almost_end w) Break
                  else Break w)
         in if is_last then
              (if i > k + 2 then
                 emit_cb st (part_data (mr_mark w) (ptr_dist (mr_mark_end w) (mr_mark w))) (i - k - 2) w found
               else Return (Parsed 0) w)
            else found w)"

definition st_part_data_almost_end :: "'u mp_settings \<Rightarrow> byte \<Rightarrow> nat \<Rightarrow> 'u mp_run \<Rightarrow> 'u mp_exit" where
  "st_part_data_almost_end st c i w =
     (if c = HYPHEN then emit_cb st part_data_end (i + 1) (goto_state s_part_data_final_hyphen w) Break
      else if c = CR then emit_cb st part_data_end (i + 1) (goto_state s_part_data_end w) Break
      else error_out c i MPPE_BAD_PART_END w)"

definition st_part_data_final_hyphen :: "'u mp_settings \<Rightarrow> byte \<Rightarrow> nat \<Rightarrow> 'u mp_run \<Rightarrow> 'u mp_exit" where
  "st_part_data_final_hyphen st c i w =
     (if c = HYPHEN then emit_cb st body_end i (goto_state s_end w) Break
      else error_expect c i MPPE_END_BOUNDARY_NO_DASH HYPHEN w)"

definition st_part_data_end :: "'u mp_settings \<Rightarrow> byte \<Rightarrow> nat \<Rightarrow> 'u mp_run \<Rightarrow> 'u mp_exit" where
  "st_part_data_end st c i w =
     (if c = LF then emit_cb st part_data_begin (i + 1) (goto_state s_header_field_start w) Break
      else error_expect c i MPPE_END_BOUNDARY_NO_DASH HYPHEN w)"

subsection \<open>The loop\<close>

definition mp_switch :: "'u mp_settings \<Rightarrow> byte \<Rightarrow> nat \<Rightarrow> bool \<Rightarrow> 'u mp_run \<Rightarrow> 'u mp_exit" where
  "mp_switch st c i is_last w =
     (case mp_state (mr_p w) of
        s_start \<Rightarrow> st_start st c i w
      | s_start_boundary \<Rightarrow> st_start_boundary st c i w
      | s_header_field_start \<Rightarrow> st_header_field_start st c i is_last w
      | s_header_field \<Rightarrow> st_header_field st c i is_last w
      | s_headers_almost_done \<Rightarrow> st_headers_almost_done c i w
      | s_header_value_start \<Rightarrow> st_header_value_start st c i is_last w
      | s_header_value \<Rightarrow> st_header_value st c i is_last w
      | s_header_value_almost_done \<Rightarrow> st_header_value_almost_done c i w
      | s_part_data_start \<Rightarrow> st_part_data_start st c i is_last w
      | s_part_data \<Rightarrow> st_part_data st c i is_last w
      | s_part_data_almost_boundary \<Rightarrow> st_part_data_almost_boundary st c i is_last w
      | s_part_data_boundary \<Rightarrow> st_part_data_boundary st c i is_last w
      | s_part_data_almost_end \<Rightarrow> st_part_data_almost_end st c i w
      | s_part_data_final_hyphen \<Rightarrow> st_part_data_final_hyphen st c i w
      | s_part_data_end \<Rightarrow> st_part_data_end st c i w
      | s_end \<Rightarrow> Break w
      | s_uninitialized \<Rightarrow> error_out c i MPPE_UNKNOWN w)"

function mp_loop :: "'u mp_settings \<Rightarrow> byte list \<Rightarrow> nat \<Rightarrow> 'u mp_run \<Rightarrow> (mp_result \<times> 'u mp_run) c_run" where
  "mp_loop st buf i w =
     (if i < length buf then
        (case mp_switch st (buf ! i) i (i = length buf - 1) w of
           Break w \<Rightarrow> mp_loop st buf (i + 1) w
         | Return r w \<Rightarrow> Done (r, w)
         | Outside \<Rightarrow> Undefined)
      else Done (Parsed i, w))"
  by pat_completeness auto
termination
  by (relation "measure (\<lambda>(st, buf, i, w). length buf - i)") auto

declare mp_loop.simps [simp del]

definition multipart_parser_execute ::
    "'u mp_settings \<Rightarrow> multipart_parser \<Rightarrow> byte list \<Rightarrow> 'u \<Rightarrow> (mp_result \<times> multipart_parser \<times> 'u) c_run" where
  "multipart_parser_execute st p buf u =
     c_bind (mp_loop st buf 0 \<lparr>mr_p = p, mr_mark = 0, mr_mark_end = 0, mr_user = u\<rparr>)
       (\<lambda>(r, w). Done (r, mr_p w, mr_user w))"

subsection \<open>Error messages\<close>

text \<open>\<^verbatim>\<open>snprintf\<close> of a text at the end of what is in a buffer of \<open>len\<close> bytes: the length the text needs
  and the text that is in the buffer.\<close>

definition lit :: "string \<Rightarrow> byte list" where
  "lit s = map of_char s"

definition snprintf_append :: "nat \<Rightarrow> byte list \<Rightarrow> nat \<times> byte list \<Rightarrow> nat \<times> byte list" where
  "snprintf_append len txt b = (fst b + length txt, snd b @ take (len - fst b - 1) txt)"

text \<open>\<^verbatim>\<open>%.2x\<close> of a \<^verbatim>\<open>char\<close>: it is promoted to \<^verbatim>\<open>int\<close>, which keeps the sign.\<close>

definition hex_char :: "byte \<Rightarrow> byte list" where
  "hex_char c =
     (let n = unat (signed c :: u32); t = hex_text n
      in if length t < 2 then 48 # t else t)"

definition isprint :: "byte \<Rightarrow> bool" where
  "isprint c \<longleftrightarrow> 32 \<le> c \<and> c \<le> 126"

definition quoted_char :: "char \<Rightarrow> string" where
  "quoted_char c = [CHR 0x27, c, CHR 0x27]"

definition error_prefix :: "multipart_error \<Rightarrow> string option" where
  "error_prefix r =
     (case r of
        MPPE_BOUNDARY_END_NO_CRLF \<Rightarrow> Some ''no CRLF at first boundary end: ''
      | MPPE_BAD_START_BOUNDARY \<Rightarrow> Some ''first boundary mismatching: ''
      | MPPE_INVALID_HEADER_FIELD_CHAR \<Rightarrow> Some ''invalid char in header field: ''
      | MPPE_INVALID_HEADER_VALUE_CHAR \<Rightarrow> Some ''invalid char in header value: ''
      | MPPE_BAD_PART_END \<Rightarrow> Some (''no next part or final hyphen: expecting CR or '' @ quoted_char CHR 0x2D @ '' '')
      | MPPE_END_BOUNDARY_NO_DASH \<Rightarrow> Some ''bad final hyphen: ''
      | _ \<Rightarrow> None)"

definition error_expecting :: "byte \<Rightarrow> byte list" where
  "error_expecting c =
     (if c = 0 then [] else if c = CR then lit ''expecting CR '' else if c = LF then lit ''expecting LF ''
      else lit ''expecting '' @ [39, c, 39, 32])"

definition error_found :: "nat \<Rightarrow> byte \<Rightarrow> byte list" where
  "error_found i c =
     lit ''at '' @ decimal i @ lit '', but it is '' @
     (if isprint c then [39, c, 39] else [39, 92, 120] @ hex_char c @ [39])"

text \<open>The result is the length of the whole message and the text in the buffer. \<^verbatim>\<open>abort()\<close> is undefined.\<close>

definition multipart_parser_error_msg :: "multipart_parser \<Rightarrow> nat \<Rightarrow> (nat \<times> byte list) c_run" where
  "multipart_parser_error_msg p len =
     (case mp_error_reason p of
        MPPE_OK \<Rightarrow> Done (0, [])
      | MPPE_PAUSED \<Rightarrow> Done (snprintf_append len (lit ''parser paused'') (0, []))
      | r \<Rightarrow>
          (case error_prefix r of None \<Rightarrow> Undefined
           | Some txt \<Rightarrow>
               let b = snprintf_append len (lit txt) (0, [])
               in if len \<le> fst b then Done b
                  else
                    let b = (if mp_error_expected p = 0 then b else snprintf_append len (error_expecting (mp_error_expected p)) b)
                    in if len \<le> fst b then Done b
                       else Done (snprintf_append len (error_found (mp_error_i p) (mp_error_unexpected p)) b)))"

subsection \<open>The callbacks of the HTTP parser\<close>

text \<open>The fields of \<^verbatim>\<open>cat_http_parser_t\<close> the multipart parser is driven with. \<open>hb_data\<close> is the position of
  \<^verbatim>\<open>parser->data\<close> in the buffer of the call; \<^verbatim>\<open>multipart_ptr\<close> is the buffer at \<open>hb_parsed_length\<close>.\<close>

record http_body =
  hb_events :: u32
  hb_event :: u32
  hb_data :: nat
  hb_data_length :: size_t
  hb_parsed_length :: nat
  hb_has_previous_error :: bool
  hb_multipart_state :: u8
  hb_multipart :: multipart_parser

abbreviation FLAG_DATA :: u32 where "FLAG_DATA \<equiv> 4"
abbreviation EVENT_NONE :: u32 where "EVENT_NONE \<equiv> 0"
abbreviation EVENT_MULTIPART_DATA_BEGIN :: u32 where "EVENT_MULTIPART_DATA_BEGIN \<equiv> 0x800010"
abbreviation EVENT_MULTIPART_HEADER_FIELD :: u32 where "EVENT_MULTIPART_HEADER_FIELD \<equiv> 0x1000014"
abbreviation EVENT_MULTIPART_HEADER_VALUE :: u32 where "EVENT_MULTIPART_HEADER_VALUE \<equiv> 0x2000014"
abbreviation EVENT_MULTIPART_HEADERS_COMPLETE :: u32 where "EVENT_MULTIPART_HEADERS_COMPLETE \<equiv> 0x4000018"
abbreviation EVENT_MULTIPART_BODY :: u32 where "EVENT_MULTIPART_BODY \<equiv> 0x8000014"
abbreviation EVENT_MULTIPART_DATA_END :: u32 where "EVENT_MULTIPART_DATA_END \<equiv> 0x10000018"
abbreviation EVENT_MULTIPART_BODY_END :: u32 where "EVENT_MULTIPART_BODY_END \<equiv> 0x18"

text \<open>\<^verbatim>\<open>CAT_HTTP_MULTIPART_ON_EVENT\<close> and \<^verbatim>\<open>CAT_HTTP_MULTIPART_ON_DATA\<close>: pause when the event is subscribed to.\<close>

definition on_multipart_event :: "u32 \<Rightarrow> http_body \<Rightarrow> (multipart_error \<times> http_body) c_run" where
  "on_multipart_event ev h =
     (let h = h\<lparr>hb_event := ev\<rparr>
      in Done (if hb_events h AND hb_event h = hb_event h then MPPE_PAUSED else MPPE_OK, h))"

definition on_multipart_data :: "u32 \<Rightarrow> nat \<Rightarrow> size_t \<Rightarrow> http_body \<Rightarrow> (multipart_error \<times> http_body) c_run" where
  "on_multipart_data ev at len h =
     (let h = h\<lparr>hb_event := ev, hb_data := at, hb_data_length := len\<rparr>
      in Done (if hb_events h AND hb_event h = hb_event h then MPPE_PAUSED else MPPE_OK, h))"

definition cat_http_multipart_parser_on_body_end :: "http_body \<Rightarrow> (multipart_error \<times> http_body) c_run" where
  "cat_http_multipart_parser_on_body_end h =
     c_assert (hb_events h AND FLAG_MULTIPART = 0 \<or> hb_multipart_state h = IN_BODY)
       (Done (MPPE_OK, h\<lparr>hb_event := EVENT_MULTIPART_BODY_END, hb_multipart_state := STATE_NOT_CONTENT_TYPE\<rparr>))"

fun cat_http_multipart_parser_settings :: "http_body mp_settings" where
  "cat_http_multipart_parser_settings (header_field at len) = Some (on_multipart_data EVENT_MULTIPART_HEADER_FIELD at len)"
| "cat_http_multipart_parser_settings (header_value at len) = Some (on_multipart_data EVENT_MULTIPART_HEADER_VALUE at len)"
| "cat_http_multipart_parser_settings (part_data at len) = Some (on_multipart_data EVENT_MULTIPART_BODY at len)"
| "cat_http_multipart_parser_settings part_data_begin = Some (on_multipart_event EVENT_MULTIPART_DATA_BEGIN)"
| "cat_http_multipart_parser_settings headers_complete = Some (on_multipart_event EVENT_MULTIPART_HEADERS_COMPLETE)"
| "cat_http_multipart_parser_settings part_data_end = Some (on_multipart_event EVENT_MULTIPART_DATA_END)"
| "cat_http_multipart_parser_settings body_end = Some cat_http_multipart_parser_on_body_end"

text \<open>The call with its assertions; \<open>Inl\<close> carries the text of the error \<^verbatim>\<open>CAT_HTTP_PARSER_E_MULTIPART\<close>.\<close>

definition cat_http_parser_multipart_parser_execute :: "http_body \<Rightarrow> byte list \<Rightarrow> ((byte list + unit) \<times> http_body) c_run" where
  "cat_http_parser_multipart_parser_execute h data =
     (let h = h\<lparr>hb_event := EVENT_NONE\<rparr>
      in c_bind (multipart_parser_execute cat_http_multipart_parser_settings (hb_multipart h) data h) (\<lambda>(r, p, h).
           let h = h\<lparr>hb_multipart := p\<rparr>
           in case r of
                MPPE_ERROR \<Rightarrow>
                  c_bind (multipart_parser_error_msg p 4096) (\<lambda>(n, txt).
                    c_assert (n \<noteq> 0 \<and> n \<le> 4095) (Done (Inl (take n txt), h\<lparr>hb_has_previous_error := True\<rparr>)))
              | Parsed n \<Rightarrow>
                  c_assert (hb_event h AND FLAG_DATA = 0 \<or> unat (hb_data_length h) \<le> n)
                    (c_assert (hb_event h AND FLAG_MULTIPART \<noteq> 0 \<or> hb_event h = EVENT_NONE)
                      (Done (Inr (), h\<lparr>hb_parsed_length := n\<rparr>)))))"

subsection \<open>Safety\<close>

definition mp_ok :: "multipart_parser \<Rightarrow> bool" where
  "mp_ok p \<longleftrightarrow>
     0 < mp_boundary_length p \<and> mp_boundary_length p < length (mp_boundary p) \<and> mp_state p \<noteq> s_uninitialized \<and>
     (mp_state p = s_start_boundary \<longrightarrow> mp_index p \<le> mp_boundary_length p + 1) \<and>
     (mp_state p = s_part_data_boundary \<longrightarrow> mp_index p < mp_boundary_length p)"

text \<open>Callbacks that return and do not fail, from client states in \<open>I\<close>.\<close>

definition callbacks_return :: "('u \<Rightarrow> bool) \<Rightarrow> 'u mp_settings \<Rightarrow> bool" where
  "callbacks_return I st \<longleftrightarrow>
     (\<forall>e f u. st e = Some f \<and> I u \<longrightarrow> (\<exists>ret u'. f u = Done (ret, u') \<and> ret \<in> {MPPE_OK, MPPE_PAUSED} \<and> I u'))"

fun exit_ok :: "('u \<Rightarrow> bool) \<Rightarrow> byte \<Rightarrow> nat \<Rightarrow> 'u mp_exit \<Rightarrow> bool" where
  "exit_ok I c i (Break w) \<longleftrightarrow> mp_ok (mr_p w) \<and> mr_mark_end w \<le> i + 1 \<and> I (mr_user w)"
| "exit_ok I c i (Return (Parsed n) w) \<longleftrightarrow> mp_ok (mr_p w) \<and> n \<le> i + 1 \<and> I (mr_user w)"
| "exit_ok I c i (Return MPPE_ERROR w) \<longleftrightarrow>
     mp_ok (mr_p w) \<and> error_prefix (mp_error_reason (mr_p w)) \<noteq> None \<and> mp_error_i (mr_p w) = i \<and> mp_error_unexpected (mr_p w) = c \<and> I (mr_user w)"
| "exit_ok I c i Outside \<longleftrightarrow> False"

lemma emit_exit_ok:
  assumes "callbacks_return I st" and "I (mr_user w)" and "mp_ok (mr_p w)" and "r \<le> i + 1"
    and "\<And>u. I u \<Longrightarrow> exit_ok I c i (k (w\<lparr>mr_user := u\<rparr>))"
  shows "exit_ok I c i (emit_cb st e r w k)"
proof (cases "st e")
  case None
  then show ?thesis using assms(5) [OF assms(2)] by (simp add: emit_cb_def)
next
  case (Some f)
  then obtain ret u where "f (mr_user w) = Done (ret, u)" "ret \<in> {MPPE_OK, MPPE_PAUSED}" "I u"
    using assms(1,2) unfolding callbacks_return_def by blast
  then show ?thesis using Some assms by (auto simp: emit_cb_def)
qed

lemma error_exit_ok:
  assumes "mp_ok (mr_p w)" and "I (mr_user w)" and "error_prefix reason \<noteq> None"
  shows "exit_ok I c i (error_out c i reason w)" "exit_ok I c i (error_expect c i reason ch w)"
  using assms by (auto simp: error_out_def error_expect_def upd_p_def mp_ok_def)

lemma mp_ok_read: "mp_ok (mr_p w) \<Longrightarrow> mp_index (mr_p w) < mp_boundary_length (mr_p w) \<Longrightarrow>
    boundary_at w k = k (mp_boundary (mr_p w) ! mp_index (mr_p w))"
  by (simp add: mp_ok_def boundary_at_def)

lemma upd_p_sel [simp]:
  "mr_p (upd_p f w) = f (mr_p w)" "mr_mark (upd_p f w) = mr_mark w" "mr_mark_end (upd_p f w) = mr_mark_end w"
  "mr_user (upd_p f w) = mr_user w"
  by (simp_all add: upd_p_def)

lemma mp_ok_goto [simp]:
  "mp_ok p \<Longrightarrow> s \<notin> {s_uninitialized, s_start_boundary, s_part_data_boundary} \<Longrightarrow> mp_ok (p\<lparr>mp_state := s\<rparr>)"
  by (simp add: mp_ok_def)

lemma part_data_exit_ok:
  assumes "callbacks_return I st" and "mp_ok (mr_p w)" and "I (mr_user w)"
  shows "exit_ok I c i (st_part_data st c i l w)"
  using assms by (auto simp: st_part_data_def Let_def intro!: emit_exit_ok)

lemma start_boundary_exit_ok:
  assumes "callbacks_return I st" and "mp_ok (mr_p w)" and "I (mr_user w)" and "mr_mark_end w \<le> i"
    and "mp_state (mr_p w) = s_start_boundary"
  shows "exit_ok I c i (st_start_boundary st c i w)"
proof (cases "mp_index (mr_p w) < mp_boundary_length (mr_p w)")
  case True
  then show ?thesis using assms
    by (auto simp: st_start_boundary_def Let_def mp_ok_read error_prefix_def intro!: error_exit_ok)
      (auto simp: mp_ok_def)
next
  case False
  then have "mp_index (mr_p w) = mp_boundary_length (mr_p w) \<or> mp_index (mr_p w) = mp_boundary_length (mr_p w) + 1"
    using assms(2,5) by (auto simp: mp_ok_def)
  then show ?thesis using assms
    by (auto simp: st_start_boundary_def Let_def error_prefix_def intro!: error_exit_ok emit_exit_ok)
      (auto simp: mp_ok_def)
qed

lemma boundary_exit_ok:
  assumes "callbacks_return I st" and "mp_ok (mr_p w)" and "I (mr_user w)" and "mr_mark_end w \<le> i"
    and "mp_state (mr_p w) = s_part_data_boundary"
  shows "exit_ok I c i (st_part_data_boundary st c i l w)"
proof -
  have k: "mp_index (mr_p w) < mp_boundary_length (mr_p w)" using assms(2,5) by (simp add: mp_ok_def)
  then have ok: "mp_index (mr_p w) + 1 \<noteq> mp_boundary_length (mr_p w) \<Longrightarrow>
      mp_ok ((mr_p w)\<lparr>mp_index := mp_index (mr_p w) + 1\<rparr>)"
    "mp_ok ((mr_p w)\<lparr>mp_index := mp_index (mr_p w) + 1, mp_state := s_part_data_almost_end\<rparr>)"
    using assms(2) by (auto simp: mp_ok_def)
  show ?thesis using assms(1-4) k ok
    by (auto simp: st_part_data_boundary_def Let_def mp_ok_read intro!: emit_exit_ok part_data_exit_ok)
qed

lemma header_exit_ok:
  assumes "callbacks_return I st" and "mp_ok (mr_p w)" and "I (mr_user w)" and "mr_mark_end w \<le> i"
  shows "exit_ok I c i (st_header_field st c i l w)" "exit_ok I c i (st_header_value st c i l w)"
  using assms by (auto simp: st_header_field_def st_header_value_def Let_def error_prefix_def
    intro!: emit_exit_ok error_exit_ok)

lemma switch_exit_ok:
  assumes "callbacks_return I st" and "mp_ok (mr_p w)" and "I (mr_user w)" and "mr_mark_end w \<le> i"
  shows "exit_ok I c i (mp_switch st c i l w)"
proof (cases "mp_state (mr_p w)")
  case s_start
  then show ?thesis using assms by (auto simp: mp_switch_def st_start_def mp_ok_def intro!: start_boundary_exit_ok)
next
  case s_part_data_almost_boundary
  then show ?thesis using assms
    by (auto simp: mp_switch_def st_part_data_almost_boundary_def Let_def intro!: emit_exit_ok part_data_exit_ok)
      (auto simp: mp_ok_def)
next
  case s_uninitialized
  then show ?thesis using assms by (simp add: mp_ok_def)
qed (use assms in \<open>auto simp: mp_switch_def st_header_field_start_def st_headers_almost_done_def
    st_header_value_start_def st_header_value_almost_done_def st_part_data_start_def st_part_data_almost_end_def
    st_part_data_final_hyphen_def st_part_data_end_def error_prefix_def
    intro!: start_boundary_exit_ok boundary_exit_ok header_exit_ok part_data_exit_ok emit_exit_ok error_exit_ok\<close>)

lemma loop_exit_ok:
  assumes "callbacks_return I st" and "mp_ok (mr_p w)" and "I (mr_user w)" and "mr_mark_end w \<le> i" and "i \<le> length buf"
  shows "\<exists>r w'. mp_loop st buf i w = Done (r, w') \<and> mp_ok (mr_p w') \<and> I (mr_user w') \<and>
    (case r of Parsed n \<Rightarrow> n \<le> length buf
     | MPPE_ERROR \<Rightarrow> error_prefix (mp_error_reason (mr_p w')) \<noteq> None \<and> mp_error_i (mr_p w') < length buf \<and>
         mp_error_unexpected (mr_p w') = buf ! mp_error_i (mr_p w'))"
  using assms(2-5)
proof (induction "length buf - i" arbitrary: i w)
  case 0
  then show ?case by (auto simp: mp_loop.simps)
next
  case (Suc n)
  let ?x = "mp_switch st (buf ! i) i (i = length buf - 1) w"
  have x: "exit_ok I (buf ! i) i ?x" using Suc.prems by (intro switch_exit_ok assms(1)) auto
  have i: "i < length buf" using Suc.hyps(2) by simp
  show ?case
  proof (cases ?x)
    case (Break w')
    then show ?thesis using Suc.hyps(1) [of "i + 1" w'] Suc.hyps(2) x i by (subst mp_loop.simps) auto
  next
    case (Return r w')
    then show ?thesis using x i by (subst mp_loop.simps) (cases r; auto)
  next
    case Outside
    then show ?thesis using x by simp
  qed
qed

lemma execute_exit_ok:
  assumes "callbacks_return I st" and "mp_ok p" and "I u"
  shows "\<exists>r p' u'. multipart_parser_execute st p buf u = Done (r, p', u') \<and> mp_ok p' \<and> I u' \<and>
    (case r of Parsed n \<Rightarrow> n \<le> length buf
     | MPPE_ERROR \<Rightarrow> error_prefix (mp_error_reason p') \<noteq> None \<and> mp_error_i p' < length buf \<and> mp_error_unexpected p' = buf ! mp_error_i p')"
  using loop_exit_ok [OF assms(1), of "\<lparr>mr_p = p, mr_mark = 0, mr_mark_end = 0, mr_user = u\<rparr>" 0 buf] assms(2,3)
  by (auto simp: multipart_parser_execute_def)

lemma init_ok:
  assumes "b \<noteq> []" and "length b \<le> BOUNDARY_MAX_LEN" and "length (mp_boundary p) = BOUNDARY_SIZE"
  shows "multipart_parser_init (Some b) p =
    Done (True, p\<lparr>mp_boundary := (HYPHEN # HYPHEN # b) @ replicate (BOUNDARY_SIZE - 2 - length b) 0,
      mp_boundary_length := length b + 2, mp_index := 0, mp_state := s_start, mp_error_i := 0,
      mp_error_unexpected := 0, mp_error_expected := 0, mp_error_reason := MPPE_OK\<rparr>)"
proof -
  have "drop 2 (mp_boundary p) = drop 2 (HYPHEN # HYPHEN # drop 2 (mp_boundary p))" by simp
  then show ?thesis using assms
    by (simp add: multipart_parser_init_def Let_def take_Cons' drop_Cons' numeral_2_eq_2)
qed

subsection \<open>Messages\<close>





subsection \<open>Properties\<close>

text \<open>A parser in a state, with the boundary \<^verbatim>\<open>b\<close>, and a client that logs and never pauses.\<close>

definition parser_at :: "mp_state \<Rightarrow> nat \<Rightarrow> multipart_parser" where
  "parser_at s k = \<lparr>mp_index = k, mp_error_i = 0, mp_boundary_length = 3, mp_state = s, mp_error_reason = MPPE_OK,
     mp_boundary = [45, 45, 98] @ replicate 150 0, mp_error_expected = 0, mp_error_unexpected = 0\<rparr>"

definition logging :: "mp_event list mp_settings" where
  "logging e = Some (\<lambda>l. Done (MPPE_OK, l @ [e]))"

lemma logging_returns: "callbacks_return (\<lambda>_. True) logging"
  by (simp add: callbacks_return_def logging_def)

text \<open>C36: whatever bytes it is given and whatever its callbacks answer, the multipart parser ends, never
  reads outside its boundary array, stays in a state from which this holds again, and either consumes at
  most the bytes of the buffer or stops with an error that has a reason and the position of a byte of the
  buffer.\<close>

theorem multipart_execute_safe:
  assumes "callbacks_return I st" and "mp_ok p" and "I u"
  shows "\<exists>r p' u'. multipart_parser_execute st p buf u = Done (r, p', u') \<and> mp_ok p' \<and> I u' \<and>
    (case r of Parsed n \<Rightarrow> n \<le> length buf
     | MPPE_ERROR \<Rightarrow> error_prefix (mp_error_reason p') \<noteq> None \<and> mp_error_i p' < length buf)"
proof -
  obtain r p' u' where "multipart_parser_execute st p buf u = Done (r, p', u')" "mp_ok p'" "I u'" "case r of Parsed n \<Rightarrow> n \<le> length buf
     | MPPE_ERROR \<Rightarrow> error_prefix (mp_error_reason p') \<noteq> None \<and> mp_error_i p' < length buf \<and> mp_error_unexpected p' = buf ! mp_error_i p'"
    using execute_exit_ok [OF assms, of buf] by blast
  then show ?thesis by (cases r) auto
qed

theorem multipart_execute_safe_witness:
  "\<exists>r p' u'. multipart_parser_execute logging (parser_at s_start 0) [45, 45, 98, 13, 10] [] = Done (r, p', u') \<and>
    mp_ok p' \<and> r = Parsed 5"
proof -
  have "mp_ok (parser_at s_start 0)" by (simp add: mp_ok_def parser_at_def)
  from multipart_execute_safe [OF logging_returns this TrueI, of "[45, 45, 98, 13, 10]" "[]"]
  obtain r p' u' where 1: "multipart_parser_execute logging (parser_at s_start 0) [45, 45, 98, 13, 10] [] = Done (r, p', u')"
    "mp_ok p'" by blast
  moreover have "multipart_parser_execute logging (parser_at s_start 0) [45, 45, 98, 13, 10] [] =
      Done (Parsed 5, parser_at s_header_field_start 0, [part_data_begin])" by code_simp
  ultimately show ?thesis by auto
qed



text \<open>A client that answers \<^verbatim>\<open>MPPE_OK\<close>, which the header allows, is misinformed at the end of a buffer:
  when the buffer ends inside a delimiter, the next call reports a body of a length below zero, wrapped
  around; a value whose carriage return ends the buffer is reported twice, the second time with the
  carriage return; a body that begins with the last byte of a buffer makes the call claim that nothing was
  consumed, although the line feed before it was; and a header line without a colon ends the headers, its
  name being lost. A byte with the high bit is printed sign-extended in an error message.\<close>

theorem unpaused_client_defects:
  "multipart_parser_execute logging (parser_at s_part_data 0) [120, CR, LF, 45, 45] [] =
     Done (Parsed 5, parser_at s_part_data_boundary 2, [part_data 0 1]) \<and>
   multipart_parser_execute logging (parser_at s_part_data_boundary 2) [98, 45, 45] [] =
     Done (Parsed 3, parser_at s_end 3, [part_data 0 (- 4), part_data_end, body_end]) \<and>
   multipart_parser_execute logging (parser_at s_header_value 0) [118, CR] [] =
     Done (Parsed 2, parser_at s_header_value_almost_done 0, [header_value 0 1, header_value 0 2]) \<and>
   multipart_parser_execute logging (parser_at s_headers_almost_done 0) [LF, CR] [] =
     Done (Parsed 0, parser_at s_part_data 0, [headers_complete]) \<and>
   multipart_parser_execute logging (parser_at s_header_field_start 0) [70, 111, 111, CR, LF, 120] [] =
     Done (Parsed 6, parser_at s_part_data 0, [headers_complete, part_data 5 1]) \<and>
   hex_char 128 = lit ''ffffff80''"
proof (intro conjI)
  show "hex_char 128 = lit ''ffffff80''" by (simp add: hex_char_def hex_text.simps lit_def)
qed (code_simp)+

end
