(* ===== verification/Multipart_Format.thy ===== *)
theory Multipart_Format
  imports Cat_Multipart "HOL-Library.Sublist"
begin

text \<open>
  What a multipart message is, as an automaton over single bytes, independent of buffers and marks:
  the specification of \<^verbatim>\<open>multipart_parser_execute\<close>. A report is what a client learns; the text of a
  field, a value or a body may come in pieces, so report lists are compared up to merging neighbours of
  the same kind.

  The lemmas show that the automaton reads every message that is printed from its parts, and reports
  these parts.
\<close>

subsection \<open>Reports\<close>

datatype mp_report =
    Part_begin | Field_name "byte list" | Field_value "byte list" | Headers_end
  | Part_body "byte list" | Part_end | Message_end

fun join :: "mp_report \<Rightarrow> mp_report list \<Rightarrow> mp_report list" where
  "join (Field_name a) (Field_name b # es) = Field_name (a @ b) # es"
| "join (Field_value a) (Field_value b # es) = Field_value (a @ b) # es"
| "join (Part_body a) (Part_body b # es) = Part_body (a @ b) # es"
| "join e es = e # es"

definition merge_reports :: "mp_report list \<Rightarrow> mp_report list" where
  "merge_reports es = foldr join es []"

abbreviation same_reports :: "mp_report list \<Rightarrow> mp_report list \<Rightarrow> bool" where
  "same_reports es es' \<equiv> merge_reports es = merge_reports es'"

lemma join_join: "join e (foldr join es zs) = foldr join (join e es) zs"
proof (cases "(e, es)" rule: join.cases)
  case (1 a b es') then show ?thesis by (cases "(Field_name b, foldr join es' zs)" rule: join.cases) auto
next
  case (2 a b es') then show ?thesis by (cases "(Field_value b, foldr join es' zs)" rule: join.cases) auto
next
  case (3 a b es') then show ?thesis by (cases "(Part_body b, foldr join es' zs)" rule: join.cases) auto
qed auto

lemma foldr_join_merge: "foldr join (merge_reports es) zs = foldr join es zs"
  by (induction es) (auto simp: merge_reports_def join_join [symmetric])

lemma merge_append: "merge_reports (es @ fs) = foldr join es (merge_reports fs)"
  by (simp add: merge_reports_def)

lemma same_reports_append:
  "same_reports es es' \<Longrightarrow> same_reports fs fs' \<Longrightarrow> same_reports (es @ fs) (es' @ fs')"
  by (metis merge_append foldr_join_merge)

lemma merge_idem [simp]: "merge_reports (merge_reports es) = merge_reports es"
  by (metis append.right_neutral foldr_join_merge merge_append merge_reports_def)

lemma merge_Nil [simp]: "merge_reports [] = []"
  by (simp add: merge_reports_def)

lemma merge_Cons: "merge_reports (e # es) = join e (merge_reports es)"
  by (simp add: merge_reports_def)

lemma merge_pieces [simp]:
  "merge_reports (map Field_name xs @ [Field_name x]) = [Field_name (concat xs @ x)]"
  "merge_reports (map Field_value xs @ [Field_value x]) = [Field_value (concat xs @ x)]"
  "merge_reports (map Part_body xs @ [Part_body x]) = [Part_body (concat xs @ x)]"
  by (induction xs) (auto simp: merge_Cons)

subsection \<open>The automaton\<close>

datatype mf_state =
    In_preamble nat | Line_start | In_field | Headers_closing | Before_value | In_value | Line_closing
  | In_body nat | After_boundary | Last_hyphen | Next_part | In_epilogue

definition field_char :: "byte \<Rightarrow> bool" where
  "field_char c \<longleftrightarrow> c = HYPHEN \<or> field_letter c"

abbreviation delimiter :: "byte list \<Rightarrow> byte list" where "delimiter bd \<equiv> CR # LF # bd"

text \<open>In a body, \<open>k\<close> bytes of the delimiter have been seen and are held back.\<close>

definition body_step :: "byte list \<Rightarrow> nat \<Rightarrow> byte \<Rightarrow> mf_state \<times> mp_report list" where
  "body_step bd k c =
     (if c = delimiter bd ! k then
        (if k + 1 = length (delimiter bd) then (After_boundary, [Part_body []]) else (In_body (k + 1), []))
      else if c = CR then (In_body 1, [Part_body (take k (delimiter bd))])
      else (In_body 0, [Part_body (take k (delimiter bd) @ [c])]))"

fun field_step :: "byte \<Rightarrow> (mf_state \<times> mp_report list) option" where
  "field_step c =
     (if c = COLON then Some (Before_value, [Field_name []])
      else if field_char c then Some (In_field, [Field_name [c]]) else None)"

fun value_step :: "byte \<Rightarrow> (mf_state \<times> mp_report list) option" where
  "value_step c = (if c = CR then Some (Line_closing, [Field_value []]) else Some (In_value, [Field_value [c]]))"

fun mf_step :: "byte list \<Rightarrow> mf_state \<Rightarrow> byte \<Rightarrow> (mf_state \<times> mp_report list) option" where
  "mf_step bd (In_preamble k) c =
     (if k < length bd then (if c = bd ! k then Some (In_preamble (k + 1), []) else None)
      else if k = length bd then (if c = CR then Some (In_preamble (k + 1), []) else None)
      else if c = LF then Some (Line_start, [Part_begin]) else None)"
| "mf_step bd Line_start c = (if c = CR then Some (Headers_closing, []) else field_step c)"
| "mf_step bd In_field c = field_step c"
| "mf_step bd Headers_closing c = (if c = LF then Some (In_body 0, [Headers_end]) else None)"
| "mf_step bd Before_value c = (if c = SPACE then Some (Before_value, []) else value_step c)"
| "mf_step bd In_value c = value_step c"
| "mf_step bd Line_closing c = (if c = LF then Some (Line_start, []) else None)"
| "mf_step bd (In_body k) c = Some (body_step bd k c)"
| "mf_step bd After_boundary c =
     (if c = HYPHEN then Some (Last_hyphen, [Part_end]) else if c = CR then Some (Next_part, [Part_end]) else None)"
| "mf_step bd Last_hyphen c = (if c = HYPHEN then Some (In_epilogue, [Message_end]) else None)"
| "mf_step bd Next_part c = (if c = LF then Some (Line_start, [Part_begin]) else None)"
| "mf_step bd In_epilogue c = Some (In_epilogue, [])"

fun mf_run :: "byte list \<Rightarrow> mf_state \<Rightarrow> byte list \<Rightarrow> (mf_state \<times> mp_report list) option" where
  "mf_run bd s [] = Some (s, [])"
| "mf_run bd s (c # cs) =
     (case mf_step bd s c of None \<Rightarrow> None
      | Some (s', es) \<Rightarrow>
          (case mf_run bd s' cs of None \<Rightarrow> None | Some (s'', es') \<Rightarrow> Some (s'', es @ es')))"

lemma mf_run_append:
  "mf_run bd s (xs @ ys) =
     (case mf_run bd s xs of None \<Rightarrow> None
      | Some (s', es) \<Rightarrow>
          (case mf_run bd s' ys of None \<Rightarrow> None | Some (s'', es') \<Rightarrow> Some (s'', es @ es')))"
  by (induction xs arbitrary: s) (auto split: option.splits)

lemma mf_run_appendI:
  "mf_run bd s xs = Some (s', es) \<Longrightarrow> mf_run bd s' ys = Some (s'', es') \<Longrightarrow>
   mf_run bd s (xs @ ys) = Some (s'', es @ es')"
  by (simp add: mf_run_append)

lemma mf_run_prefix: "mf_run bd s (xs @ ys) = Some r \<Longrightarrow> \<exists>s' es. mf_run bd s xs = Some (s', es)"
  by (auto simp: mf_run_append split: option.splits)

lemma mf_run_epilogue [simp]: "mf_run bd In_epilogue cs = Some (In_epilogue, [])"
  by (induction cs) auto

subsection \<open>Bodies\<close>

text \<open>Nothing of a body is lost: what is reported and what is held back is what was read.\<close>

lemma body_step_conserves:
  assumes "k < length (delimiter bd)" and "take k (delimiter bd) @ [c] \<noteq> delimiter bd"
  obtains k' ys where "body_step bd k c = (In_body k', map Part_body ys)" and "k' < length (delimiter bd)"
    and "concat ys @ take k' (delimiter bd) = take k (delimiter bd) @ [c]"
proof (cases "c = delimiter bd ! k")
  case True
  then have "take (k + 1) (delimiter bd) = take k (delimiter bd) @ [c]"
    using assms(1) by (simp only: True) (simp only: take_Suc_conv_app_nth Suc_eq_plus1 [symmetric])
  moreover from this have "k + 1 \<noteq> length (delimiter bd)" using assms(2) by auto
  ultimately show ?thesis using True assms(1)
    by (intro that [of "k + 1" "[]"]) (auto simp: body_step_def)
next
  case False
  show ?thesis
  proof (cases "c = CR")
    case True
    with False show ?thesis by (intro that [of 1 "[take k (delimiter bd)]"]) (auto simp: body_step_def)
  next
    case other: False
    with False show ?thesis by (intro that [of 0 "[take k (delimiter bd) @ [c]]"]) (auto simp: body_step_def)
  qed
qed

lemma body_run_conserves:
  assumes "k < length (delimiter bd)" and "\<not> sublist (delimiter bd) (take k (delimiter bd) @ xs)"
  shows "\<exists>k' ys. mf_run bd (In_body k) xs = Some (In_body k', map Part_body ys) \<and>
    k' < length (delimiter bd) \<and> concat ys @ take k' (delimiter bd) = take k (delimiter bd) @ xs"
  using assms
proof (induction xs arbitrary: k)
  case Nil
  then show ?case by (intro exI [of _ k] exI [of _ "[]"]) auto
next
  case (Cons c xs)
  let ?d = "delimiter bd"
  have "take k ?d @ [c] \<noteq> ?d"
    using Cons.prems(2) sublist_appendI [of ?d "[]" xs] by (metis append.left_neutral append.assoc append_Cons)
  from body_step_conserves [OF Cons.prems(1) this]
  obtain k1 ys where 1: "body_step bd k c = (In_body k1, map Part_body ys)" "k1 < length ?d"
    "concat ys @ take k1 ?d = take k ?d @ [c]" .
  have read: "take k ?d @ c # xs = concat ys @ take k1 ?d @ xs" using 1(3) by (metis append.assoc append_Cons append_Nil)
  then have "\<not> sublist ?d (take k1 ?d @ xs)"
    using Cons.prems(2) sublist_order.order_trans [of ?d "take k1 ?d @ xs", OF _ sublist_append_leftI] by metis
  from Cons.IH [OF 1(2) this] obtain k2 zs where 2: "mf_run bd (In_body k1) xs = Some (In_body k2, map Part_body zs)"
    "k2 < length ?d" "concat zs @ take k2 ?d = take k1 ?d @ xs" by blast
  have "concat (ys @ zs) @ take k2 ?d = take k ?d @ c # xs"
    unfolding read by (simp only: concat_append append.assoc 2(3))
  then show ?case using 1(1) 2(1,2) by (intro exI [of _ k2] exI [of _ "ys @ zs"]) (simp only: mf_run.simps, simp)
qed

text \<open>The delimiter is found from whatever was held back, because no byte of it but the first is a
  carriage return.\<close>

lemma delimiter_tail_run:
  "0 < k \<Longrightarrow> k < length (delimiter bd) \<Longrightarrow>
   mf_run bd (In_body k) (drop k (delimiter bd)) = Some (After_boundary, [Part_body []])"
proof (induction "length (delimiter bd) - k" arbitrary: k)
  case (Suc n)
  let ?d = "delimiter bd"
  have "drop k ?d = ?d ! k # drop (k + 1) ?d" using Suc.prems by (metis Cons_nth_drop_Suc Suc_eq_plus1)
  moreover have "k + 1 < length ?d \<Longrightarrow> mf_run bd (In_body (k + 1)) (drop (k + 1) ?d) = Some (After_boundary, [Part_body []])"
    using Suc by (intro Suc.hyps(1)) auto
  ultimately show ?case using Suc.prems by (cases "k + 1 < length ?d") (auto simp: body_step_def)
qed simp

lemma delimiter_run:
  assumes "CR \<notin> set bd" and "k < length (delimiter bd)"
  obtains y where "mf_run bd (In_body k) (delimiter bd) = Some (After_boundary, map Part_body y @ [Part_body []])"
    and "concat y = take k (delimiter bd)"
proof -
  have tail: "mf_run bd (In_body 1) (LF # bd) = Some (After_boundary, [Part_body []])"
    using delimiter_tail_run [of 1 bd] by simp
  show ?thesis
  proof (cases "k = 0")
    case True
    then show ?thesis using tail by (intro that [of "[]"]) (auto simp: body_step_def)
  next
    case False
    have "delimiter bd ! k \<in> set (LF # bd)" using False assms(2)
      by (cases k) (auto simp del: set_simps intro!: nth_mem)
    then have "delimiter bd ! k \<noteq> CR" using assms(1) by auto
    then show ?thesis using tail by (intro that [of "[take k (delimiter bd)]"]) (auto simp: body_step_def)
  qed
qed

lemma body_read:
  assumes "CR \<notin> set bd" and "\<not> sublist (delimiter bd) b"
  shows "\<exists>es. mf_run bd (In_body 0) (b @ delimiter bd) = Some (After_boundary, es) \<and> merge_reports es = [Part_body b]"
proof -
  obtain k ys where 1: "mf_run bd (In_body 0) b = Some (In_body k, map Part_body ys)" "k < length (delimiter bd)"
    "concat ys @ take k (delimiter bd) = b"
    using body_run_conserves [of 0 bd b] assms(2) by auto
  obtain zs where 2: "mf_run bd (In_body k) (delimiter bd) = Some (After_boundary, map Part_body zs @ [Part_body []])"
    "concat zs = take k (delimiter bd)"
    using delimiter_run [OF assms(1) 1(2)] .
  have "merge_reports (map Part_body (ys @ zs) @ [Part_body []]) = [Part_body b]"
    using 1(3) 2(2) by (simp only: merge_pieces concat_append append_Nil2)
  then show ?thesis using mf_run_appendI [OF 1(1) 2(1)] by (auto simp: append.assoc)
qed

subsection \<open>Messages\<close>

text \<open>A part is its header lines and its body.\<close>

type_synonym mp_part = "(byte list \<times> byte list) list \<times> byte list"

definition header_line :: "byte list \<times> byte list \<Rightarrow> byte list" where
  "header_line h = fst h @ [COLON, SPACE] @ snd h @ [CR, LF]"

definition part_text :: "mp_part \<Rightarrow> byte list" where
  "part_text p = concat (map header_line (fst p)) @ [CR, LF] @ snd p"

fun parts_text :: "byte list \<Rightarrow> mp_part list \<Rightarrow> byte list" where
  "parts_text bd [] = [HYPHEN, HYPHEN]"
| "parts_text bd (p # ps) = [CR, LF] @ part_text p @ delimiter bd @ parts_text bd ps"

definition multipart_message :: "byte list \<Rightarrow> mp_part list \<Rightarrow> byte list \<Rightarrow> byte list" where
  "multipart_message bd ps epilogue = bd @ parts_text bd ps @ epilogue"

definition part_reports :: "mp_part \<Rightarrow> mp_report list" where
  "part_reports p =
     [Part_begin] @ concat (map (\<lambda>h. [Field_name (fst h), Field_value (snd h)]) (fst p)) @
     [Headers_end, Part_body (snd p), Part_end]"

definition message_reports :: "mp_part list \<Rightarrow> mp_report list" where
  "message_reports ps = concat (map part_reports ps) @ [Message_end]"

definition header_ok :: "byte list \<times> byte list \<Rightarrow> bool" where
  "header_ok h \<longleftrightarrow> (\<forall>c\<in>set (fst h). field_char c) \<and> CR \<notin> set (snd h) \<and> (snd h = [] \<or> hd (snd h) \<noteq> SPACE)"

definition part_ok :: "byte list \<Rightarrow> mp_part \<Rightarrow> bool" where
  "part_ok bd p \<longleftrightarrow> (\<forall>h\<in>set (fst p). header_ok h) \<and> \<not> sublist (delimiter bd) (snd p)"

lemma field_char_special [simp]: "\<not> field_char CR" "\<not> field_char COLON"
  by (simp_all add: field_char_def field_letter_def)

lemma field_run:
  assumes "\<forall>c\<in>set f. field_char c"
  shows "mf_run bd In_field (f @ [COLON]) = Some (Before_value, map (\<lambda>c. Field_name [c]) f @ [Field_name []])"
  using assms
proof (induction f)
  case (Cons c f)
  then have "c \<noteq> COLON" by auto
  with Cons show ?case by simp
qed simp

lemma field_line_run:
  assumes "\<forall>c\<in>set f. field_char c"
  shows "mf_run bd Line_start (f @ [COLON]) = Some (Before_value, map (\<lambda>c. Field_name [c]) f @ [Field_name []])"
proof (cases f)
  case (Cons c f')
  then have "c \<noteq> COLON" "c \<noteq> CR" using assms by auto
  with Cons assms field_run [of f'] show ?thesis by simp
qed simp

lemma value_run:
  "CR \<notin> set v \<Longrightarrow> mf_run bd In_value (v @ [CR]) = Some (Line_closing, map (\<lambda>c. Field_value [c]) v @ [Field_value []])"
  by (induction v) auto

lemma before_value_run:
  "CR \<notin> set v \<Longrightarrow> v = [] \<or> hd v \<noteq> SPACE \<Longrightarrow>
   mf_run bd Before_value (SPACE # v @ [CR]) = Some (Line_closing, map (\<lambda>c. Field_value [c]) v @ [Field_value []])"
  using value_run [of "tl v" bd] by (cases v) auto

lemma merge_bytes:
  "merge_reports (map (\<lambda>c. Field_name [c]) f @ [Field_name []]) = [Field_name f]"
  "merge_reports (map (\<lambda>c. Field_value [c]) f @ [Field_value []]) = [Field_value f]"
  using merge_pieces(1,2) [of "map (\<lambda>c. [c]) f" "[]"] by (simp_all add: comp_def)

lemma header_line_run:
  assumes "header_ok h"
  shows "\<exists>es. mf_run bd Line_start (header_line h) = Some (Line_start, es) \<and>
    same_reports es [Field_name (fst h), Field_value (snd h)]"
proof -
  obtain f v where h: "h = (f, v)" by (cases h)
  let ?fs = "map (\<lambda>c. Field_name [c]) f @ [Field_name []]" and ?vs = "map (\<lambda>c. Field_value [c]) v @ [Field_value []]"
  have 1: "mf_run bd Line_start (f @ [COLON]) = Some (Before_value, ?fs)"
    using assms h by (intro field_line_run) (simp add: header_ok_def)
  have 2: "mf_run bd Before_value (SPACE # v @ [CR]) = Some (Line_closing, ?vs)"
    using assms h by (intro before_value_run) (auto simp: header_ok_def)
  have 3: "mf_run bd Line_closing [LF] = Some (Line_start, [])" by simp
  have "mf_run bd Line_start ((f @ [COLON]) @ (SPACE # v @ [CR]) @ [LF]) = Some (Line_start, ?fs @ ?vs @ [])"
    by (rule mf_run_appendI [OF 1 mf_run_appendI [OF 2 3]])
  moreover have "same_reports (?fs @ ?vs) ([Field_name f] @ [Field_value v])"
    by (rule same_reports_append) (simp_all only: merge_bytes, simp_all add: merge_Cons)
  ultimately show ?thesis using h by (auto simp: header_line_def)
qed

lemma header_lines_run:
  "\<forall>h\<in>set hs. header_ok h \<Longrightarrow>
   \<exists>es. mf_run bd Line_start (concat (map header_line hs)) = Some (Line_start, es) \<and>
     same_reports es (concat (map (\<lambda>h. [Field_name (fst h), Field_value (snd h)]) hs))"
proof (induction hs)
  case (Cons h hs)
  obtain es where 1: "mf_run bd Line_start (header_line h) = Some (Line_start, es)"
    "same_reports es [Field_name (fst h), Field_value (snd h)]"
    using header_line_run Cons.prems by (meson list.set_intros(1))
  obtain fs where 2: "mf_run bd Line_start (concat (map header_line hs)) = Some (Line_start, fs)"
    "same_reports fs (concat (map (\<lambda>h. [Field_name (fst h), Field_value (snd h)]) hs))"
    using Cons by auto
  show ?case using mf_run_appendI [OF 1(1) 2(1)] same_reports_append [OF 1(2) 2(2)] by auto
qed simp

lemma part_run:
  assumes "part_ok bd p" and "CR \<notin> set bd"
  shows "\<exists>es. mf_run bd Line_start (part_text p @ delimiter bd) = Some (After_boundary, es) \<and>
    same_reports ([Part_begin] @ es @ [Part_end]) (part_reports p)"
proof -
  obtain hs b where p: "p = (hs, b)" by (cases p)
  obtain es where 1: "mf_run bd Line_start (concat (map header_line hs)) = Some (Line_start, es)"
    "same_reports es (concat (map (\<lambda>h. [Field_name (fst h), Field_value (snd h)]) hs))"
    using header_lines_run [of hs bd] assms(1) p by (auto simp: part_ok_def)
  have 2: "mf_run bd Line_start [CR, LF] = Some (In_body 0, [Headers_end])" by simp
  obtain fs where 3: "mf_run bd (In_body 0) (b @ delimiter bd) = Some (After_boundary, fs)"
    "same_reports fs [Part_body b]"
    using body_read [of bd b] assms p by (auto simp: part_ok_def merge_Cons)
  have "mf_run bd Line_start (part_text p @ delimiter bd) = Some (After_boundary, es @ [Headers_end] @ fs)"
    using mf_run_appendI [OF 1(1) mf_run_appendI [OF 2 3(1)]] p by (simp add: part_text_def)
  moreover have "same_reports ([Part_begin] @ (es @ [Headers_end] @ fs) @ [Part_end]) (part_reports p)"
    using same_reports_append [OF refl [of "merge_reports [Part_begin]"]
        same_reports_append [OF 1(2) same_reports_append [OF refl [of "merge_reports [Headers_end]"]
            same_reports_append [OF 3(2) refl [of "merge_reports [Part_end]"]]]]] p
    by (simp add: part_reports_def)
  ultimately show ?thesis by blast
qed

lemma parts_run:
  assumes "\<forall>p\<in>set ps. part_ok bd p" and "CR \<notin> set bd"
  shows "\<exists>es. mf_run bd After_boundary (parts_text bd ps @ epilogue) = Some (In_epilogue, es) \<and>
    same_reports es ([Part_end] @ message_reports ps)"
  using assms(1)
proof (induction ps)
  case Nil
  then show ?case by (simp add: message_reports_def)
next
  case (Cons p ps)
  obtain es where 1: "mf_run bd Line_start (part_text p @ delimiter bd) = Some (After_boundary, es)"
    "same_reports ([Part_begin] @ es @ [Part_end]) (part_reports p)"
    using part_run assms(2) Cons.prems by (meson list.set_intros(1))
  obtain fs where 2: "mf_run bd After_boundary (parts_text bd ps @ epilogue) = Some (In_epilogue, fs)"
    "same_reports fs ([Part_end] @ message_reports ps)"
    using Cons by auto
  have 0: "mf_run bd After_boundary [CR, LF] = Some (Line_start, [Part_end, Part_begin])" by simp
  have "mf_run bd After_boundary (parts_text bd (p # ps) @ epilogue) = Some (In_epilogue, [Part_end, Part_begin] @ es @ fs)"
    using mf_run_appendI [OF 0 mf_run_appendI [OF 1(1) 2(1)]] by simp
  moreover have "same_reports ([Part_end, Part_begin] @ es @ fs)
      ([Part_end] @ ([Part_begin] @ es @ [Part_end]) @ message_reports ps)"
    using same_reports_append [OF refl [of "merge_reports ([Part_end, Part_begin] @ es)"] 2(2)] by simp
  moreover have "same_reports ([Part_end] @ ([Part_begin] @ es @ [Part_end]) @ message_reports ps)
      ([Part_end] @ part_reports p @ message_reports ps)"
    by (intro same_reports_append 1(2) refl)
  ultimately show ?case by (auto simp: message_reports_def)
qed

lemma preamble_run:
  "k \<le> length bd \<Longrightarrow> mf_run bd (In_preamble k) (drop k bd) = Some (In_preamble (length bd), [])"
proof (induction "length bd - k" arbitrary: k)
  case (Suc n)
  then have "drop k bd = bd ! k # drop (k + 1) bd" "k < length bd"
    by (metis Cons_nth_drop_Suc Suc_eq_plus1 zero_less_Suc zero_less_diff) (use Suc in simp)
  then show ?case using Suc.hyps(1) [of "k + 1"] Suc.hyps(2) by simp
qed simp

lemma message_run:
  assumes "\<forall>p\<in>set ps. part_ok bd p" and "CR \<notin> set bd" and "ps \<noteq> []"
  shows "\<exists>es. mf_run bd (In_preamble 0) (multipart_message bd ps epilogue) = Some (In_epilogue, es) \<and>
    same_reports es (message_reports ps)"
proof -
  obtain p qs where ps: "ps = p # qs" using assms(3) by (cases ps) auto
  obtain es where 1: "mf_run bd Line_start (part_text p @ delimiter bd) = Some (After_boundary, es)"
    "same_reports ([Part_begin] @ es @ [Part_end]) (part_reports p)"
    using part_run [of bd p] assms(1,2) ps by auto
  obtain fs where 2: "mf_run bd After_boundary (parts_text bd qs @ epilogue) = Some (In_epilogue, fs)"
    "same_reports fs ([Part_end] @ message_reports qs)"
    using parts_run [of qs bd epilogue] assms(1,2) ps by auto
  have 0: "mf_run bd (In_preamble 0) (bd @ [CR, LF]) = Some (Line_start, [Part_begin])"
    using preamble_run [of 0 bd] by (simp add: mf_run_append)
  have "mf_run bd (In_preamble 0) (multipart_message bd ps epilogue) = Some (In_epilogue, [Part_begin] @ es @ fs)"
    using mf_run_appendI [OF 0 mf_run_appendI [OF 1(1) 2(1)]] ps by (simp add: multipart_message_def)
  moreover have "same_reports ([Part_begin] @ es @ fs) (([Part_begin] @ es @ [Part_end]) @ message_reports qs)"
    using same_reports_append [OF refl [of "merge_reports ([Part_begin] @ es)"] 2(2)] by simp
  moreover have "same_reports (([Part_begin] @ es @ [Part_end]) @ message_reports qs) (part_reports p @ message_reports qs)"
    by (intro same_reports_append 1(2) refl)
  ultimately show ?thesis using ps by (auto simp: message_reports_def)
qed

text \<open>The reports of a message are merged already.\<close>

lemma headers_merged:
  "foldr join (concat (map (\<lambda>h. [Field_name (fst h), Field_value (snd h)]) hs)) (Headers_end # zs) =
   concat (map (\<lambda>h. [Field_name (fst h), Field_value (snd h)]) hs) @ Headers_end # zs"
proof (induction hs)
  case (Cons h hs)
  then show ?case by (cases hs) auto
qed simp

lemma message_reports_merged [simp]: "merge_reports (message_reports ps) = message_reports ps"
proof (induction ps)
  case Nil
  then show ?case by (simp add: message_reports_def merge_Cons)
next
  case (Cons p ps)
  have "merge_reports (message_reports (p # ps)) = foldr join (part_reports p) (message_reports ps)"
    using Cons by (simp add: message_reports_def merge_append)
  also have "\<dots> = part_reports p @ message_reports ps"
    by (simp add: part_reports_def headers_merged)
  finally show ?case by (simp add: message_reports_def)
qed

end
