(* ===== verification/Multipart_Refine.thy ===== *)
theory Multipart_Refine
  imports Multipart_Format
begin

unbundle bit_operations_syntax

text \<open>
  \<^verbatim>\<open>multipart_parser_execute\<close> implements the message format. A client whose callbacks pause the parser
  gets at most one report from a call, and the bytes that were consumed together with the new state of the
  parser stand for exactly what the automaton still has to say: whatever bytes follow, the reports of the
  automaton on the old state and the whole buffer are the report of the call and the reports on the new
  state and the rest of the buffer.
\<close>

subsection \<open>Parser states and automaton states\<close>

definition mp_wf :: "byte list \<Rightarrow> multipart_parser \<Rightarrow> bool" where
  "mp_wf bd p \<longleftrightarrow>
     mp_boundary_length p = length bd \<and> length bd < length (mp_boundary p) \<and>
     take (length bd) (mp_boundary p) = bd \<and> bd \<noteq> [] \<and> CR \<notin> set bd"

text \<open>A parser that was paused inside a delimiter is set back to the carriage return the delimiter
  begins with, but keeps its state; the first bytes it reads again repair it.\<close>

definition stale :: "byte list \<Rightarrow> multipart_parser \<Rightarrow> byte list \<Rightarrow> bool" where
  "stale bd p rest \<longleftrightarrow>
     mp_state p = s_part_data_boundary \<and> mp_index p < length bd \<and> (\<exists>cs. rest = CR # cs) \<or>
     mp_state p = s_part_data_almost_boundary \<and> ((\<exists>c cs. rest = c # cs \<and> c \<noteq> LF) \<or> (\<exists>cs. rest = LF # CR # cs))"

fun plain_state :: "byte list \<Rightarrow> multipart_parser \<Rightarrow> mf_state \<Rightarrow> bool" where
  "plain_state bd p (In_preamble k) \<longleftrightarrow>
     mp_state p = s_start \<and> k = 0 \<or> mp_state p = s_start_boundary \<and> mp_index p = k \<and> k \<le> length bd + 1"
| "plain_state bd p Line_start \<longleftrightarrow> mp_state p = s_header_field_start"
| "plain_state bd p In_field \<longleftrightarrow> mp_state p = s_header_field"
| "plain_state bd p Headers_closing \<longleftrightarrow> mp_state p = s_headers_almost_done"
| "plain_state bd p Before_value \<longleftrightarrow> mp_state p = s_header_value_start"
| "plain_state bd p In_value \<longleftrightarrow> mp_state p = s_header_value"
| "plain_state bd p Line_closing \<longleftrightarrow> mp_state p = s_header_value_almost_done"
| "plain_state bd p (In_body k) \<longleftrightarrow> k = 0 \<and> (mp_state p = s_part_data_start \<or> mp_state p = s_part_data)"
| "plain_state bd p After_boundary \<longleftrightarrow> mp_state p = s_part_data_almost_end"
| "plain_state bd p Last_hyphen \<longleftrightarrow> mp_state p = s_part_data_final_hyphen"
| "plain_state bd p Next_part \<longleftrightarrow> mp_state p = s_part_data_end"
| "plain_state bd p In_epilogue \<longleftrightarrow> mp_state p = s_end"

text \<open>Between two calls, with \<open>rest\<close> the bytes that are left.\<close>

definition rests :: "byte list \<Rightarrow> multipart_parser \<Rightarrow> mf_state \<Rightarrow> byte list \<Rightarrow> bool" where
  "rests bd p s rest \<longleftrightarrow> mp_wf bd p \<and> (plain_state bd p s \<or> s = In_body 0 \<and> stale bd p rest)"

text \<open>The end of the headers is reported only when the first byte of the body is there.\<close>

definition pending :: "multipart_parser \<Rightarrow> mp_report list" where
  "pending p = (if mp_state p = s_part_data_start then [Headers_end] else [])"

lemma rests_append: "rests bd p s rest \<Longrightarrow> rests bd p s (rest @ xs)"
  by (auto simp: rests_def stale_def)

subsection \<open>Residuals\<close>

definition residual :: "byte list \<Rightarrow> mp_report list \<Rightarrow> mf_state \<Rightarrow> byte list \<Rightarrow> mp_report list \<Rightarrow> mf_state \<Rightarrow> byte list \<Rightarrow> bool" where
  "residual bd a s xs b s' ys \<longleftrightarrow>
     (\<forall>zs sf es. mf_run bd s (xs @ zs) = Some (sf, es) \<longrightarrow>
        (\<exists>es'. mf_run bd s' (ys @ zs) = Some (sf, es') \<and> same_reports (a @ es) (b @ es')))"

lemma residualE:
  assumes "residual bd a s xs b s' ys" and "mf_run bd s (xs @ zs) = Some (sf, es)"
  obtains es' where "mf_run bd s' (ys @ zs) = Some (sf, es')" and "same_reports (a @ es) (b @ es')"
  using assms unfolding residual_def by blast

lemma residual_accepts:
  assumes "residual bd a s xs b s' ys" and "mf_run bd s xs = Some r"
  shows "\<exists>r'. mf_run bd s' ys = Some r'"
  using residualE [OF assms(1), of "[]"] assms(2) by (metis append_Nil2 surj_pair)

lemma residual_refl: "residual bd a s xs a s xs"
  by (auto simp: residual_def)

lemma residual_step:
  assumes "residual bd a s0 xs h s (c # ys)" and "mf_step bd s c = Some (s', es)" and "same_reports (h @ es) h'"
  shows "residual bd a s0 xs h' s' ys"
  unfolding residual_def
proof (intro allI impI)
  fix zs sf fs assume "mf_run bd s0 (xs @ zs) = Some (sf, fs)"
  from residualE [OF assms(1) this]
  obtain gs where gs: "mf_run bd s (c # ys @ zs) = Some (sf, gs)" "same_reports (a @ fs) (h @ gs)"
    by (metis append_Cons)
  then obtain gs' where gs': "mf_run bd s' (ys @ zs) = Some (sf, gs')" "gs = es @ gs'"
    using assms(2) by (auto split: option.splits)
  moreover have "same_reports ((h @ es) @ gs') (h' @ gs')" by (rule same_reports_append [OF assms(3) refl])
  ultimately show "\<exists>es'. mf_run bd s' (ys @ zs) = Some (sf, es') \<and> same_reports (a @ fs) (h' @ es')"
    using gs(2) by auto
qed

lemma held_back_run:
  "k < length (delimiter bd) \<Longrightarrow> mf_run bd (In_body 0) (take k (delimiter bd)) = Some (In_body k, [])"
proof (induction k)
  case (Suc k)
  then have "take (Suc k) (delimiter bd) = take k (delimiter bd) @ [delimiter bd ! k]"
    by (intro take_Suc_conv_app_nth) simp
  with Suc show ?case by (simp only: mf_run_append) (simp add: body_step_def)
qed simp

lemma residual_hold:
  assumes "residual bd a s0 xs h (In_body k) ys" and "k < length (delimiter bd)"
  shows "residual bd a s0 xs h (In_body 0) (take k (delimiter bd) @ ys)"
  unfolding residual_def
proof (intro allI impI)
  fix zs sf es assume "mf_run bd s0 (xs @ zs) = Some (sf, es)"
  from residualE [OF assms(1) this]
  obtain fs where "mf_run bd (In_body k) (ys @ zs) = Some (sf, fs)" "same_reports (a @ es) (h @ fs)" .
  with mf_run_appendI [OF held_back_run [OF assms(2)] this(1)]
  show "\<exists>es'. mf_run bd (In_body 0) ((take k (delimiter bd) @ ys) @ zs) = Some (sf, es') \<and> same_reports (a @ es) (h @ es')"
    by auto
qed

lemma residual_trans:
  assumes "residual bd a s xs (r @ b) s' ys" and "residual bd b s' ys c s'' us"
  shows "residual bd a s xs (r @ c) s'' us"
  unfolding residual_def
proof (intro allI impI)
  fix zs sf es assume "mf_run bd s (xs @ zs) = Some (sf, es)"
  from residualE [OF assms(1) this]
  obtain fs where fs: "mf_run bd s' (ys @ zs) = Some (sf, fs)" "same_reports (a @ es) ((r @ b) @ fs)" .
  from residualE [OF assms(2) fs(1)]
  obtain gs where gs: "mf_run bd s'' (us @ zs) = Some (sf, gs)" "same_reports (b @ fs) (c @ gs)" .
  show "\<exists>es'. mf_run bd s'' (us @ zs) = Some (sf, es') \<and> same_reports (a @ es) ((r @ c) @ es')"
    using gs(1) fs(2) same_reports_append [OF refl [of "merge_reports r"] gs(2)] by auto
qed

subsection \<open>Inside a call\<close>

definition piece :: "byte list \<Rightarrow> (byte list \<Rightarrow> mp_report) \<Rightarrow> nat \<Rightarrow> nat \<Rightarrow> mp_report list" where
  "piece buf C from to = (if from < to then [C (take (to - from) (drop from buf))] else [])"

text \<open>What the loop has read and not reported.\<close>

fun unreported :: "byte list \<Rightarrow> 'u mp_run \<Rightarrow> nat \<Rightarrow> mf_state \<Rightarrow> mp_report list" where
  "unreported buf w i In_field = piece buf Field_name (mr_mark w) i"
| "unreported buf w i In_value = piece buf Field_value (mr_mark w) i"
| "unreported buf w i (In_body k) =
     (if mp_state (mr_p w) = s_part_data_start then [Headers_end] else piece buf Part_body 0 (i - k))"
| "unreported buf w i _ = []"

definition in_delimiter :: "byte list \<Rightarrow> 'u mp_run \<Rightarrow> nat \<Rightarrow> nat \<Rightarrow> bool" where
  "in_delimiter bd w i k \<longleftrightarrow>
     mr_mark_end w = i - k \<and>
     (mp_state (mr_p w) = s_part_data_almost_boundary \<and> k = 1 \<or>
      mp_state (mr_p w) = s_part_data_boundary \<and> k = mp_index (mr_p w) + 2)"

fun loop_state :: "byte list \<Rightarrow> byte list \<Rightarrow> 'u mp_run \<Rightarrow> nat \<Rightarrow> mf_state \<Rightarrow> bool" where
  "loop_state bd buf w i In_field \<longleftrightarrow> mp_state (mr_p w) = s_header_field \<and> mr_mark w \<le> i"
| "loop_state bd buf w i In_value \<longleftrightarrow> mp_state (mr_p w) = s_header_value \<and> mr_mark w \<le> i"
| "loop_state bd buf w i (In_body k) \<longleftrightarrow>
     k < length (delimiter bd) \<and> k \<le> i \<and> take k (drop (i - k) buf) = take k (delimiter bd) \<and>
     (k = 0 \<and> mp_state (mr_p w) = s_part_data_start \<or>
      mr_mark w = 0 \<and> (k = 0 \<and> mp_state (mr_p w) = s_part_data \<or> in_delimiter bd w i k \<or>
        k = 0 \<and> stale bd (mr_p w) (drop i buf)))"
| "loop_state bd buf w i s \<longleftrightarrow> plain_state bd (mr_p w) s"

fun report :: "byte list \<Rightarrow> mp_event \<Rightarrow> mp_report" where
  "report buf (header_field off len) = Field_name (take (unat len) (drop off buf))"
| "report buf (header_value off len) = Field_value (take (unat len) (drop off buf))"
| "report buf (part_data off len) = Part_body (take (unat len) (drop off buf))"
| "report buf part_data_begin = Part_begin"
| "report buf headers_complete = Headers_end"
| "report buf part_data_end = Part_end"
| "report buf body_end = Message_end"

fun within :: "nat \<Rightarrow> mp_event \<Rightarrow> bool" where
  "within n (header_field off len) \<longleftrightarrow> off + unat len \<le> n"
| "within n (header_value off len) \<longleftrightarrow> off + unat len \<le> n"
| "within n (part_data off len) \<longleftrightarrow> off + unat len \<le> n"
| "within n _ \<longleftrightarrow> True"

lemma unat_ptr_dist: "b \<le> a \<Longrightarrow> a < 2 ^ 64 \<Longrightarrow> unat (ptr_dist a b) = a - b"
proof -
  assume "b \<le> a" "a < 2 ^ 64"
  then have "ptr_dist a b = of_nat (a - b)" by (simp add: ptr_dist_def of_nat_diff)
  then show ?thesis using \<open>a < 2 ^ 64\<close> by (simp add: unat_of_nat_lt)
qed

lemma unat_ptr_dist_Suc: "b \<le> a \<Longrightarrow> Suc a < 2 ^ 64 \<Longrightarrow> unat (ptr_dist a b + 1) = Suc a - b"
proof -
  assume a: "b \<le> a" "Suc a < 2 ^ 64"
  have "ptr_dist a b + 1 = ptr_dist (a + 1) b" by (simp add: ptr_dist_def)
  then show ?thesis using unat_ptr_dist [of b "a + 1"] a by simp
qed

lemma unat_ptr_dist_boundary: "k + 2 \<le> a \<Longrightarrow> a < 2 ^ 64 \<Longrightarrow> unat (ptr_dist a k - 2 - of_nat 0) = a - k - 2"
proof -
  assume a: "k + 2 \<le> a" "a < 2 ^ 64"
  have "ptr_dist a k - 2 - of_nat 0 = ptr_dist a (k + 2)" by (simp add: ptr_dist_def)
  then show ?thesis using unat_ptr_dist [of "k + 2" a] a by simp
qed

subsection \<open>What a call owes\<close>

text \<open>\<open>eo\<close> is the event of the call. A call without an event reads the whole buffer, or leaves it alone
  because it could be the beginning of a delimiter. A call with an event makes progress.\<close>

definition events_of :: "mp_event option \<Rightarrow> mp_event list" where
  "events_of eo = (case eo of None \<Rightarrow> [] | Some e \<Rightarrow> [e])"

definition call_ok ::
    "byte list \<Rightarrow> (mp_event \<Rightarrow> 'u \<Rightarrow> 'u) \<Rightarrow> multipart_parser \<Rightarrow> mf_state \<Rightarrow> byte list \<Rightarrow> 'u \<Rightarrow>
     mp_event option \<Rightarrow> nat \<Rightarrow> multipart_parser \<Rightarrow> 'u \<Rightarrow> mf_state \<Rightarrow> bool" where
  "call_ok bd note_event p s buf u eo n p' u' s' \<longleftrightarrow>
     n \<le> length buf \<and> rests bd p' s' (drop n buf) \<and>
     residual bd (pending p) s buf (map (report buf) (events_of eo) @ pending p') s' (drop n buf) \<and>
     u' = fold note_event (events_of eo) u \<and>
     (case eo of
        None \<Rightarrow> n = length buf \<or> n = 0 \<and> s' = In_body 0 \<and> length buf \<le> length bd + 2
      | Some e \<Rightarrow> within n e \<and> (e = body_end \<longrightarrow> s' = In_epilogue) \<and>
          (0 < n \<or> mp_state p = s_part_data_start \<and> mp_state p' = s_part_data))"

definition loop_inv ::
    "byte list \<Rightarrow> multipart_parser \<Rightarrow> mf_state \<Rightarrow> byte list \<Rightarrow> 'u mp_run \<Rightarrow> nat \<Rightarrow> mf_state \<Rightarrow> bool" where
  "loop_inv bd p0 s0 buf w i s \<longleftrightarrow>
     mp_wf bd (mr_p w) \<and> loop_state bd buf w i s \<and> i \<le> length buf \<and> (0 < i \<or> mr_p w = p0) \<and>
     residual bd (pending p0) s0 buf (unreported buf w i s) s (drop i buf) \<and>
     (i = length buf \<longrightarrow> rests bd (mr_p w) s [] \<and> unreported buf w i s = pending (mr_p w)) \<and>
     (\<forall>k. s = In_body k \<and> mp_state (mr_p w) \<noteq> s_part_data_start \<longrightarrow> s0 = In_body 0 \<and> pending p0 = [])"

text \<open>The three ways a byte can be dealt with: the loop goes on, the call returns, or the message is
  complete and the rest of the buffer is skipped.\<close>

definition step_ok ::
    "byte list \<Rightarrow> (mp_event \<Rightarrow> 'u \<Rightarrow> 'u) \<Rightarrow> multipart_parser \<Rightarrow> mf_state \<Rightarrow> byte list \<Rightarrow> 'u \<Rightarrow> nat \<Rightarrow> 'u mp_exit \<Rightarrow> bool" where
  "step_ok bd note_event p0 s0 buf u i x \<longleftrightarrow>
     (\<exists>w s. x = Break w \<and> mr_user w = u \<and> loop_inv bd p0 s0 buf w (Suc i) s) \<or>
     (\<exists>w n eo s. x = Return (Parsed n) w \<and> call_ok bd note_event p0 s0 buf u eo n (mr_p w) (mr_user w) s) \<or>
     (\<exists>w eo s. x = Break w \<and> mp_state (mr_p w) = s_end \<and>
        call_ok bd note_event p0 s0 buf u eo (length buf) (mr_p w) (mr_user w) s)"

lemma step_breakI:
  assumes "loop_inv bd p0 s0 buf w i s" and "i < length buf" and "mf_step bd s (buf ! i) = Some (s', es)"
    and "mp_wf bd (mr_p w')" and "loop_state bd buf w' (Suc i) s'" and "mr_user w' = u"
    and "same_reports (unreported buf w i s @ es) (unreported buf w' (Suc i) s')"
    and "Suc i = length buf \<Longrightarrow> plain_state bd (mr_p w') s' \<and> unreported buf w' (Suc i) s' = pending (mr_p w')"
    and "\<And>k. s' = In_body k \<Longrightarrow> mp_state (mr_p w') \<noteq> s_part_data_start \<Longrightarrow> s0 = In_body 0 \<and> pending p0 = []"
  shows "step_ok bd note_event p0 s0 buf u i (Break w')"
proof -
  have d: "drop i buf = buf ! i # drop (Suc i) buf" using assms(2) by (metis Cons_nth_drop_Suc)
  have "residual bd (pending p0) s0 buf (unreported buf w' (Suc i) s') s' (drop (Suc i) buf)"
    using assms(1,3,7) d by (auto simp: loop_inv_def intro: residual_step)
  then have "loop_inv bd p0 s0 buf w' (Suc i) s'"
    using assms(2,4-6,8,9) by (auto simp: loop_inv_def rests_def)
  then show ?thesis using assms(6) by (auto simp: step_ok_def)
qed

lemma step_reportI:
  assumes "loop_inv bd p0 s0 buf w i s" and "i < length buf" and "mf_step bd s (buf ! i) = Some (s', es)"
    and "mp_wf bd (mr_p w')" and "plain_state bd (mr_p w') s'" and "pending (mr_p w') = []"
    and "mr_user w' = note_event e u" and "within (Suc i) e"
    and "same_reports (unreported buf w i s @ es) [report buf e]" and "e \<noteq> body_end"
  shows "step_ok bd note_event p0 s0 buf u i (Return (Parsed (Suc i)) w')"
proof -
  have d: "drop i buf = buf ! i # drop (Suc i) buf" using assms(2) by (metis Cons_nth_drop_Suc)
  have "residual bd (pending p0) s0 buf [report buf e] s' (drop (Suc i) buf)"
    using assms(1,3,9) d by (auto simp: loop_inv_def intro: residual_step)
  then have "call_ok bd note_event p0 s0 buf u (Some e) (Suc i) (mr_p w') (mr_user w') s'"
    using assms(2,4-8,10) by (auto simp: call_ok_def rests_def events_of_def)
  then show ?thesis by (auto simp: step_ok_def)
qed

lemma piece_self [simp]: "piece buf C i i = []"
  by (simp add: piece_def)

lemma piece_extend:
  assumes "a \<le> i" and "i < length buf"
  shows "take (Suc i - a) (drop a buf) = take (i - a) (drop a buf) @ [buf ! i]"
proof -
  have "Suc i - a = Suc (i - a)" "i - a < length (drop a buf)" "drop a buf ! (i - a) = buf ! i"
    using assms by auto
  then show ?thesis by (simp only: take_Suc_conv_app_nth)
qed

lemma merge_piece:
  assumes "a \<le> i"
  shows "merge_reports (piece buf Field_name a i @ [Field_name x]) = [Field_name (take (i - a) (drop a buf) @ x)]"
    "merge_reports (piece buf Field_value a i @ [Field_value x]) = [Field_value (take (i - a) (drop a buf) @ x)]"
    "merge_reports (piece buf Part_body a i @ [Part_body x]) = [Part_body (take (i - a) (drop a buf) @ x)]"
  using assms by (auto simp: piece_def merge_Cons)

lemma merge_single [simp]: "merge_reports [e] = [e]"
  by (simp add: merge_Cons)

lemma mp_wf_upd [simp]:
  "mp_wf bd (p\<lparr>mp_state := s\<rparr>) = mp_wf bd p" "mp_wf bd (p\<lparr>mp_index := k\<rparr>) = mp_wf bd p"
  by (simp_all add: mp_wf_def)

lemma boundary_at_wf:
  assumes "mp_wf bd (mr_p w)" and "mp_index (mr_p w) < length bd"
  shows "boundary_at w k = k (bd ! mp_index (mr_p w))"
proof -
  have "bd ! mp_index (mr_p w) = mp_boundary (mr_p w) ! mp_index (mr_p w)"
    using assms by (metis mp_wf_def nth_take)
  then show ?thesis using assms by (simp add: boundary_at_def mp_wf_def)
qed

text \<open>Returning from a body: the bytes in front of the delimiter that may have begun are reported, the rest
  is read again.\<close>

lemma loop_inv_bodyD:
  assumes "loop_inv bd p0 s0 buf w i (In_body k)" and "mp_state (mr_p w) \<noteq> s_part_data_start"
  shows "s0 = In_body 0" "pending p0 = []" "mr_mark w = 0" "k < length (delimiter bd)" "k \<le> i" "mp_wf bd (mr_p w)"
    "take k (drop (i - k) buf) = take k (delimiter bd)" "unreported buf w i (In_body k) = piece buf Part_body 0 (i - k)"
  using assms by (auto simp: loop_inv_def)

lemma step_holdI:
  assumes r: "residual bd (pending p0) s0 buf (piece buf Part_body 0 n) (In_body k) (drop (n + k) buf)"
    and k: "k < length (delimiter bd)" "take k (drop n buf) = take k (delimiter bd)"
    and n: "0 < n" "n + k \<le> length buf" "length buf < 2 ^ 64"
    and w': "rests bd (mr_p w') (In_body 0) (drop n buf)" "pending (mr_p w') = []"
      "mr_user w' = note_event (part_data 0 (ptr_dist n 0)) u"
  shows "step_ok bd note_event p0 s0 buf u i (Return (Parsed n) w')"
proof -
  have "take k (delimiter bd) @ drop (n + k) buf = drop n buf"
    using k(2) append_take_drop_id [of k "drop n buf"] by (simp add: add.commute)
  then have "residual bd (pending p0) s0 buf (piece buf Part_body 0 n) (In_body 0) (drop n buf)"
    using residual_hold [OF r k(1)] by simp
  moreover have "piece buf Part_body 0 n = [Part_body (take n buf)]" using n by (simp add: piece_def)
  moreover have "unat (ptr_dist n 0) = n" using n unat_ptr_dist [of 0 n] by simp
  ultimately have "call_ok bd note_event p0 s0 buf u (Some (part_data 0 (ptr_dist n 0))) n (mr_p w') (mr_user w') (In_body 0)"
    using w' n by (simp add: call_ok_def events_of_def)
  then show ?thesis by (auto simp: step_ok_def)
qed

text \<open>The bytes held back are those of the delimiter seen before this byte.\<close>

lemma step_hold_hereI:
  assumes inv: "loop_inv bd p0 s0 buf w i (In_body k)" and st: "mp_state (mr_p w) \<noteq> s_part_data_start"
    and n: "k < i" "length buf < 2 ^ 64" and w': "rests bd (mr_p w') (In_body 0) (drop (i - k) buf)"
      "pending (mr_p w') = []" "mr_user w' = note_event (part_data 0 (ptr_dist (i - k) 0)) u"
  shows "step_ok bd note_event p0 s0 buf u i (Return (Parsed (i - k)) w')"
proof -
  note D = loop_inv_bodyD [OF inv st]
  show ?thesis using inv D n w' by (intro step_holdI [where k = k]) (auto simp: loop_inv_def)
qed

lemma step_waitI:
  assumes "loop_inv bd p0 s0 buf w i (In_body k)" and "mp_state (mr_p w) \<noteq> s_part_data_start"
    and "length buf \<le> length bd + 2" and "rests bd (mr_p w') (In_body 0) buf" and "pending (mr_p w') = []" and "mr_user w' = u"
  shows "step_ok bd note_event p0 s0 buf u i (Return (Parsed 0) w')"
proof -
  have "call_ok bd note_event p0 s0 buf u None 0 (mr_p w') (mr_user w') (In_body 0)"
    using assms(3-6) loop_inv_bodyD(1,2) [OF assms(1,2)] by (simp add: call_ok_def events_of_def residual_refl)
  then show ?thesis by (auto simp: step_ok_def)
qed

lemma piece_body_extend:
  assumes "k \<le> i" and "take k (drop (i - k) buf) = x"
  shows "same_reports (piece buf Part_body 0 (i - k) @ [Part_body x]) [Part_body (take i buf)]"
proof -
  have "take i buf = take (i - k) buf @ x" using assms by (metis le_add_diff_inverse2 take_add)
  then show ?thesis by (simp add: merge_piece)
qed

lemma stale_short:
  assumes "mp_state p = s_part_data_almost_boundary" and "buf ! (i - 1) = CR" and "1 \<le> i" "i \<le> 2" "i < length buf"
  shows "stale bd p buf"
proof -
  obtain c cs where buf: "buf = c # cs" using assms(5) by (cases buf) auto
  then obtain c' cs' where cs: "cs = c' # cs'" using assms(3,5) by (cases cs) auto
  have "i = 1 \<or> i = 2" using assms(3,4) by auto
  then show ?thesis using assms(1,2) buf cs by (auto simp: stale_def)
qed

lemma residual_epilogue:
  "residual bd a s0 xs h In_epilogue ys \<Longrightarrow> residual bd a s0 xs h In_epilogue []"
  by (fastforce simp: residual_def)

lemma loop_inv_start:
  assumes "rests bd p s buf"
  shows "loop_inv bd p s buf \<lparr>mr_p = p, mr_mark = 0, mr_mark_end = 0, mr_user = u\<rparr> 0 s"
proof (cases s)
  case (In_body k)
  then show ?thesis using assms
    by (auto simp: loop_inv_def rests_def residual_refl pending_def stale_def)
qed (use assms in \<open>auto simp: loop_inv_def rests_def residual_refl pending_def\<close>)

lemma loop_inv_next:
  assumes "loop_inv bd p0 s0 buf w i s" and "i < length buf" and "mf_run bd s0 buf = Some r"
  obtains s' es where "mf_step bd s (buf ! i) = Some (s', es)"
proof -
  have "residual bd (pending p0) s0 buf (unreported buf w i s) s (drop i buf)" using assms(1) by (simp add: loop_inv_def)
  then obtain r' where "mf_run bd s (drop i buf) = Some r'" using residual_accepts assms(3) by blast
  then have "mf_run bd s (buf ! i # drop (Suc i) buf) = Some r'" using assms(2) by (simp add: Cons_nth_drop_Suc)
  then show ?thesis using that by (auto split: option.splits)
qed

locale multipart_client =
  fixes st :: "'u mp_settings" and good :: "'u \<Rightarrow> bool" and note_event :: "mp_event \<Rightarrow> 'u \<Rightarrow> 'u"
  assumes callback: "good u \<Longrightarrow>
    \<exists>f. st e = Some f \<and> f u = Done (if e = body_end then MPPE_OK else MPPE_PAUSED, note_event e u)"
begin

lemma emit_pauses:
  assumes "good (mr_user w)" and "e \<noteq> body_end"
  shows "emit_cb st e r w k = Return (Parsed r) (w\<lparr>mr_user := note_event e (mr_user w)\<rparr>)"
  using callback [OF assms(1), of e] assms(2) by (auto simp: emit_cb_def)

lemma emit_body_end:
  assumes "good (mr_user w)"
  shows "emit_cb st body_end r w k = k (w\<lparr>mr_user := note_event body_end (mr_user w)\<rparr>)"
  using callback [OF assms, of body_end] by (auto simp: emit_cb_def)

lemma start_boundary_ok:
  assumes inv: "loop_inv bd p0 s0 buf w i (In_preamble k)" and i: "i < length buf"
    and step: "mf_step bd (In_preamble k) (buf ! i) = Some (s', es)" and u: "mr_user w = u" "good u"
    and w': "mp_wf bd (mr_p w')" "mp_index (mr_p w') = k" "mp_state (mr_p w') = s_start_boundary" "k \<le> length bd + 1"
      "mr_user w' = u"
  shows "step_ok bd note_event p0 s0 buf u i (st_start_boundary st (buf ! i) i w')"
proof -
  have bl: "mp_boundary_length (mr_p w') = length bd" using w' by (simp add: mp_wf_def)
  consider "k < length bd" "buf ! i = bd ! k" | "k = length bd" "buf ! i = CR" | "k = length bd + 1" "buf ! i = LF"
    using step w'(4) by (auto split: if_splits)
  then show ?thesis
  proof cases
    case 1
    let ?w = "upd_p (\<lambda>p. p\<lparr>mp_index := mp_index p + 1\<rparr>) w'"
    have "st_start_boundary st (buf ! i) i w' = Break ?w"
      using 1 w' bl by (simp add: st_start_boundary_def boundary_at_wf)
    moreover have "step_ok bd note_event p0 s0 buf u i (Break ?w)"
      using 1 w' step by (intro step_breakI [OF inv i step]) (auto simp: pending_def)
    ultimately show ?thesis by simp
  next
    case 2
    let ?w = "upd_p (\<lambda>p. p\<lparr>mp_index := mp_index p + 1\<rparr>) w'"
    have "st_start_boundary st (buf ! i) i w' = Break ?w"
      using 2 w' bl by (simp add: st_start_boundary_def)
    moreover have "step_ok bd note_event p0 s0 buf u i (Break ?w)"
      using 2 w' step by (intro step_breakI [OF inv i step]) (auto simp: pending_def)
    ultimately show ?thesis by simp
  next
    case 3
    then show ?thesis using w' bl step u
      by (auto simp: st_start_boundary_def Let_def emit_pauses pending_def intro!: step_reportI [OF inv i step])
  qed
qed

lemma header_field_ok:
  assumes inv: "loop_inv bd p0 s0 buf w i s" and i: "i < length buf" "length buf < 2 ^ 64" and l: "l \<longleftrightarrow> Suc i = length buf"
    and step: "mf_step bd s (buf ! i) = Some (s', es)" "field_step (buf ! i) = Some (s', es)" and u: "good u"
    and w': "mp_wf bd (mr_p w')" "mp_state (mr_p w') = s_header_field" "mr_user w' = u" "mr_mark w' \<le> i"
      "unreported buf w i s = piece buf Field_name (mr_mark w') i"
  shows "step_ok bd note_event p0 s0 buf u i (st_header_field st (buf ! i) i l w')"
proof (cases "buf ! i = COLON")
  case True
  have "unat (ptr_dist i (mr_mark w')) = i - mr_mark w'" using w'(4) i by (intro unat_ptr_dist) auto
  then show ?thesis using True w' step u
    by (auto simp: st_header_field_def Let_def emit_pauses pending_def merge_piece intro!: step_reportI [OF inv i(1) step(1)])
next
  case False
  then have c: "field_char (buf ! i)" "s' = In_field" "es = [Field_name [buf ! i]]" using step(2) by (auto split: if_splits)
  have field: "st_header_field st (buf ! i) i l w' =
      (if l then emit_cb st (header_field (mr_mark w') (ptr_dist i (mr_mark w') + 1)) (i + 1) w' Break else Break w')"
    using c(1) False by (auto simp: st_header_field_def Let_def field_char_def field_letter_def)
  have held: "same_reports (unreported buf w i s @ es) [Field_name (take (Suc i - mr_mark w') (drop (mr_mark w') buf))]"
    using c(3) w'(4,5) i(1) by (simp add: merge_piece piece_extend)
  show ?thesis
  proof (cases l)
    case True
    have "unat (ptr_dist i (mr_mark w') + 1) = Suc i - mr_mark w'"
      using True l w'(4) i by (intro unat_ptr_dist_Suc) auto
    then show ?thesis using True field w' u c held i
      by (auto simp: Let_def emit_pauses pending_def intro!: step_reportI [OF inv i(1) step(1)])
  next
    case not_last: False
    then show ?thesis using field w' c held i l
      by (auto simp: piece_def intro!: step_breakI [OF inv i(1) step(1)])
  qed
qed

lemma header_value_ok:
  assumes inv: "loop_inv bd p0 s0 buf w i s" and i: "i < length buf" "length buf < 2 ^ 64" and l: "l \<longleftrightarrow> Suc i = length buf"
    and step: "mf_step bd s (buf ! i) = Some (s', es)" "value_step (buf ! i) = Some (s', es)" and u: "good u"
    and w': "mp_wf bd (mr_p w')" "mp_state (mr_p w') = s_header_value" "mr_user w' = u" "mr_mark w' \<le> i"
      "unreported buf w i s = piece buf Field_value (mr_mark w') i"
  shows "step_ok bd note_event p0 s0 buf u i (st_header_value st (buf ! i) i l w')"
proof (cases "buf ! i = CR")
  case True
  have "unat (ptr_dist i (mr_mark w')) = i - mr_mark w'" using w'(4) i by (intro unat_ptr_dist) auto
  then show ?thesis using True w' step u
    by (auto simp: st_header_value_def Let_def emit_pauses pending_def merge_piece intro!: step_reportI [OF inv i(1) step(1)])
next
  case False
  then have c: "s' = In_value" "es = [Field_value [buf ! i]]" using step(2) by (auto split: if_splits)
  have held: "same_reports (unreported buf w i s @ es) [Field_value (take (Suc i - mr_mark w') (drop (mr_mark w') buf))]"
    using c w'(4,5) i(1) by (simp add: merge_piece piece_extend)
  show ?thesis
  proof (cases l)
    case True
    have "unat (ptr_dist i (mr_mark w') + 1) = Suc i - mr_mark w'"
      using True l w'(4) i by (intro unat_ptr_dist_Suc) auto
    then show ?thesis using True False w' u c held i
      by (auto simp: st_header_value_def Let_def emit_pauses pending_def intro!: step_reportI [OF inv i(1) step(1)])
  next
    case not_last: False
    then show ?thesis using False w' c held i l
      by (auto simp: st_header_value_def Let_def piece_def intro!: step_breakI [OF inv i(1) step(1)])
  qed
qed

lemma part_data_ok:
  assumes inv: "loop_inv bd p0 s0 buf w i (In_body k)" and i: "i < length buf" "length buf < 2 ^ 64"
    and l: "l \<longleftrightarrow> Suc i = length buf" and st: "mp_state (mr_p w) \<noteq> s_part_data_start" and u: "good u"
    and c: "k = 0 \<or> buf ! i \<noteq> delimiter bd ! k"
    and w': "mr_p w' = (mr_p w)\<lparr>mp_state := s_part_data\<rparr>" "mr_mark w' = 0" "mr_user w' = u"
  shows "step_ok bd note_event p0 s0 buf u i (st_part_data st (buf ! i) i l w')"
proof (cases "buf ! i = CR")
  case True
  note D = loop_inv_bodyD [OF inv st]
  define es where "es = (if k = 0 then [] else [Part_body (take k (delimiter bd))])"
  have step: "body_step bd k (buf ! i) = (In_body 1, es)" using True c by (auto simp: body_step_def es_def)
  have es: "same_reports (piece buf Part_body 0 (i - k) @ es) (piece buf Part_body 0 (Suc i - 1))"
    using piece_body_extend [OF D(5) D(7)] D(5) by (auto simp: es_def piece_def)
  have one: "take 1 (drop (Suc i - 1) buf) = take 1 (delimiter bd)" using True i(1) by (simp add: take_Suc hd_drop_conv_nth)
  have "residual bd (pending p0) s0 buf (piece buf Part_body 0 (i - k)) (In_body k) (buf ! i # drop (Suc i) buf)"
    using inv i(1) D(8) by (simp add: loop_inv_def Cons_nth_drop_Suc)
  then have after: "residual bd (pending p0) s0 buf (piece buf Part_body 0 i) (In_body 1) (drop (i + 1) buf)"
    using es step by (simp, elim residual_step) simp_all
  show ?thesis
  proof (cases l)
    case False
    have "step_ok bd note_event p0 s0 buf u i (Break (goto_state s_part_data_almost_boundary (w'\<lparr>mr_mark_end := i\<rparr>)))"
      using D w' es one False l i by (intro step_breakI [OF inv i(1)])
        (auto simp: step in_delimiter_def simp del: take_Suc_Cons)
    then show ?thesis using True False by (simp add: st_part_data_def Let_def)
  next
    case last: True
    show ?thesis
    proof (cases "i > 1")
      case True
      have "step_ok bd note_event p0 s0 buf u i (Return (Parsed i)
          (w'\<lparr>mr_mark_end := i, mr_user := note_event (part_data 0 (ptr_dist i 0)) u\<rparr>))"
        using after D w' True one i by (intro step_holdI [where k = 1]) (auto simp: rests_def pending_def)
      then show ?thesis using \<open>buf ! i = CR\<close> True last w' u
        by (simp add: st_part_data_def Let_def emit_pauses)
    next
      case False
      have "step_ok bd note_event p0 s0 buf u i (Return (Parsed 0) (w'\<lparr>mr_mark_end := i\<rparr>))"
        using D w' False last l by (intro step_waitI [OF inv st]) (auto simp: rests_def pending_def)
      then show ?thesis using \<open>buf ! i = CR\<close> False last by (simp add: st_part_data_def Let_def)
    qed
  qed
next
  case False
  note D = loop_inv_bodyD [OF inv st]
  let ?es = "[Part_body (take k (delimiter bd) @ [buf ! i])]"
  have step: "mf_step bd (In_body k) (buf ! i) = Some (In_body 0, ?es)" using False c by (auto simp: body_step_def)
  have "take (Suc k) (drop (i - k) buf) = take k (delimiter bd) @ [buf ! i]"
    using D(5,7) i(1) take_Suc_conv_app_nth [of k "drop (i - k) buf"] by simp
  then have es: "same_reports (piece buf Part_body 0 (i - k) @ ?es) [Part_body (take (Suc i) buf)]"
    using piece_body_extend [of "Suc k" "Suc i" buf] D(5) by simp
  show ?thesis
  proof (cases l)
    case True
    have "unat (ptr_dist (Suc i) 0) = Suc i" using True l i unat_ptr_dist [of 0 "Suc i"] by simp
    then have "step_ok bd note_event p0 s0 buf u i (Return (Parsed (Suc i))
        (w'\<lparr>mr_mark_end := Suc i, mr_user := note_event (part_data 0 (ptr_dist (Suc i) 0)) u\<rparr>))"
      using D w' es by (intro step_reportI [OF inv i(1) step, where e = "part_data 0 (ptr_dist (Suc i) 0)"])
        (auto simp: pending_def)
    then show ?thesis using False True w' u by (simp add: st_part_data_def Let_def emit_pauses)
  next
    case not_last: False
    have "step_ok bd note_event p0 s0 buf u i (Break (w'\<lparr>mr_mark_end := Suc i\<rparr>))"
      using D w' es not_last l i by (intro step_breakI [OF inv i(1) step]) (auto simp: piece_def)
    then show ?thesis using False not_last by (simp add: st_part_data_def Let_def)
  qed
qed

lemma almost_boundary_ok:
  assumes inv: "loop_inv bd p0 s0 buf w i (In_body k)" and i: "i < length buf" "length buf < 2 ^ 64"
    and l: "l \<longleftrightarrow> Suc i = length buf" and st: "mp_state (mr_p w) = s_part_data_almost_boundary"
    and u: "mr_user w = u" "good u" and d: "in_delimiter bd w i k"
  shows "step_ok bd note_event p0 s0 buf u i (st_part_data_almost_boundary st (buf ! i) i l w)"
proof (cases "buf ! i = LF")
  case False
  then have "k = 0 \<or> buf ! i \<noteq> delimiter bd ! k" using d st by (auto simp: in_delimiter_def)
  with inv i l u st loop_inv_bodyD(3) [OF inv] have "step_ok bd note_event p0 s0 buf u i
      (st_part_data st (buf ! i) i l (goto_state s_part_data w))"
    by (intro part_data_ok) auto
  then show ?thesis using False by (simp add: st_part_data_almost_boundary_def)
next
  case True
  have st': "mp_state (mr_p w) \<noteq> s_part_data_start" using st by simp
  note D = loop_inv_bodyD [OF inv st']
  have k: "k = 1" "mr_mark_end w = i - 1" using d st by (auto simp: in_delimiter_def)
  have bd: "bd \<noteq> []" using D(6) by (simp add: mp_wf_def)
  have step: "body_step bd k (buf ! i) = (In_body 2, [])" using True k bd by (simp add: body_step_def)
  have cr: "buf ! (i - 1) = CR" using D(5,7) k(1) i(1) by (auto simp: take_Suc hd_drop_conv_nth)
  then have two: "take 2 (drop (Suc i - 2) buf) = take 2 (delimiter bd)"
    using True i(1) D(5) k(1) by (auto simp: numeral_2_eq_2 take_Suc_conv_app_nth)
  have es: "same_reports (piece buf Part_body 0 (i - k) @ []) (piece buf Part_body 0 (Suc i - 2))"
    using k by simp
  show ?thesis
  proof (cases l)
    case False
    have "step_ok bd note_event p0 s0 buf u i
        (Break (upd_p (\<lambda>p. p\<lparr>mp_state := s_part_data_boundary, mp_index := 0\<rparr>) w))"
      using D st False l i step k bd two u es by (intro step_breakI [OF inv i(1)])
        (auto simp: in_delimiter_def)
    then show ?thesis using True False by (simp add: st_part_data_almost_boundary_def Let_def)
  next
    case last: True
    show ?thesis
    proof (cases "i > 2")
      case long: True
      have "drop (i - 1) buf = CR # drop i buf" using cr i(1) long Cons_nth_drop_Suc [of "i - 1" buf] by simp
      then have "rests bd (mr_p w) (In_body 0) (drop (i - 1) buf)"
        using D(6) st by (auto simp: rests_def stale_def)
      then have "step_ok bd note_event p0 s0 buf u i (Return (Parsed (i - 1))
          (w\<lparr>mr_user := note_event (part_data 0 (ptr_dist (i - 1) 0)) u\<rparr>))"
        using long st k(1) i(2) step_hold_hereI [OF inv st', where w' = "w\<lparr>mr_user := note_event (part_data 0 (ptr_dist (i - 1) 0)) u\<rparr>"]
        by (simp add: pending_def)
      then show ?thesis using True long last u k D(3) by (simp add: st_part_data_almost_boundary_def Let_def emit_pauses)
    next
      case False
      have "stale bd (mr_p w) buf" using cr False D(5) k i(1) by (intro stale_short [OF st, where i = i]) auto
      then have "step_ok bd note_event p0 s0 buf u i (Return (Parsed 0) w)"
        using False last l D(6) st u bd by (intro step_waitI [OF inv st'])
          (auto simp: rests_def pending_def neq_Nil_conv)
      then show ?thesis using True False last by (simp add: st_part_data_almost_boundary_def Let_def)
    qed
  qed
qed

lemma boundary_ok_match:
  assumes inv: "loop_inv bd p0 s0 buf w i (In_body k)" and i: "i < length buf" "length buf < 2 ^ 64"
    and l: "l \<longleftrightarrow> Suc i = length buf" and st: "mp_state (mr_p w) = s_part_data_boundary"
    and u: "mr_user w = u" "good u" and d: "in_delimiter bd w i k" and c: "buf ! i = delimiter bd ! k"
  shows "step_ok bd note_event p0 s0 buf u i (st_part_data_boundary st (buf ! i) i l w)"
proof -
  have st': "mp_state (mr_p w) \<noteq> s_part_data_start" using st by simp
  note D = loop_inv_bodyD [OF inv st']
  have k: "k = mp_index (mr_p w) + 2" "mr_mark_end w = i - k" using d st by (auto simp: in_delimiter_def)
  have idx: "mp_index (mr_p w) < length bd" "buf ! i = bd ! mp_index (mr_p w)" using D(4) k(1) c by auto
  have bl: "mp_boundary_length (mr_p w) = length bd" using D(6) by (simp add: mp_wf_def)
  note sw = st_part_data_boundary_def boundary_at_wf [OF D(6) idx(1)] Let_def emit_pauses
  have ext: "take (Suc k) (drop (i - k) buf) = take (Suc k) (delimiter bd)"
    using D(4,5,7) c i(1) by (simp only: take_Suc_conv_app_nth length_drop less_diff_conv)
      (simp add: take_Suc_conv_app_nth del: take_Suc_Cons)
  show ?thesis
  proof (cases l)
    case True
    have rest: "drop (i - k) buf = CR # tl (drop (i - k) buf)"
      using D(5,7) k(1) i(1) by (cases "drop (i - k) buf") auto
    then have stale: "stale bd (mr_p w) (drop (i - k) buf)" using st idx(1) unfolding stale_def by blast
    show ?thesis
    proof (cases "i > k")
      case long: True
      have "step_ok bd note_event p0 s0 buf u i (Return (Parsed (i - k)) (w\<lparr>mr_user := note_event (part_data 0 (ptr_dist (i - k) 0)) u\<rparr>))"
        using long i(2) D(6) st stale by (intro step_hold_hereI [OF inv st']) (auto simp: rests_def pending_def)
      then show ?thesis using True long idx k u D(3) by (simp add: sw)
    next
      case False
      then have "i - k = 0" "length buf \<le> length bd + 2" using True l D(4) by auto
      then have "step_ok bd note_event p0 s0 buf u i (Return (Parsed 0) w)"
        using D(6) st u stale by (intro step_waitI [OF inv st']) (auto simp: rests_def pending_def)
      then show ?thesis using True False idx k by (simp add: sw)
    qed
  next
    case False
    show ?thesis
    proof (cases "Suc k = length (delimiter bd)")
      case complete: True
      let ?e = "part_data 0 (ptr_dist (Suc i) (length bd) - 2 - of_nat 0)"
      have len: "unat (ptr_dist (Suc i) (length bd) - 2 - of_nat 0) = i - k"
        using unat_ptr_dist_boundary [of "length bd" "Suc i"] complete i D(5) by simp
      have step: "mf_step bd (In_body k) (buf ! i) = Some (After_boundary, [Part_body []])"
        using c complete by (simp add: body_step_def)
      have "step_ok bd note_event p0 s0 buf u i (Return (Parsed (Suc i)) ((goto_state s_part_data_almost_end
          (upd_p (\<lambda>p. p\<lparr>mp_index := mp_index (mr_p w) + 1\<rparr>) w))\<lparr>mr_user := note_event ?e u\<rparr>))"
        using D(6,8) st len by (intro step_reportI [OF inv i(1) step, where e = ?e])
          (auto simp: pending_def merge_piece simp del: unreported.simps)
      then show ?thesis using False complete idx k u D(3) bl by (simp add: sw)
    next
      case more: False
      have step: "mf_step bd (In_body k) (buf ! i) = Some (In_body (Suc k), [])"
        using c more by (simp add: body_step_def)
      have "step_ok bd note_event p0 s0 buf u i (Break (upd_p (\<lambda>p. p\<lparr>mp_index := mp_index (mr_p w) + 1\<rparr>) w))"
        using D st u k ext more False l i by (intro step_breakI [OF inv i(1) step])
          (auto simp: in_delimiter_def simp del: take_Suc_Cons)
      then show ?thesis using False more idx k bl by (simp add: sw)
    qed
  qed
qed

lemma body_switch_ok:
  assumes inv: "loop_inv bd p0 s0 buf w i (In_body k)" and i: "i < length buf" "length buf < 2 ^ 64"
    and l: "l \<longleftrightarrow> Suc i = length buf" and st: "mp_state (mr_p w) \<noteq> s_part_data_start" and u: "mr_user w = u" "good u"
  shows "step_ok bd note_event p0 s0 buf u i (mp_switch st (buf ! i) i l w)"
proof -
  note D = loop_inv_bodyD [OF inv st]
  have rollback: "step_ok bd note_event p0 s0 buf u i (st_part_data st (buf ! i) i l (goto_state s_part_data w))"
    if "k = 0 \<or> buf ! i \<noteq> delimiter bd ! k"
    using D u that by (intro part_data_ok [OF inv i l st]) auto
  consider "k = 0" "mp_state (mr_p w) = s_part_data" | "in_delimiter bd w i k" | "k = 0" "stale bd (mr_p w) (drop i buf)"
    using inv st by (auto simp: loop_inv_def)
  then show ?thesis
  proof cases
    case 1
    have "mr_p w = (mr_p w)\<lparr>mp_state := s_part_data\<rparr>" using 1(2) by (cases "mr_p w") simp
    then have "step_ok bd note_event p0 s0 buf u i (st_part_data st (buf ! i) i l w)"
      using 1(1) D(3) u by (intro part_data_ok [OF inv i l st]) auto
    then show ?thesis using 1(2) by (simp add: mp_switch_def)
  next
    case 2
    then consider "mp_state (mr_p w) = s_part_data_almost_boundary" |
      "mp_state (mr_p w) = s_part_data_boundary" "k = mp_index (mr_p w) + 2" by (auto simp: in_delimiter_def)
    then show ?thesis
    proof cases
      case 1
      then show ?thesis using almost_boundary_ok [OF inv i l _ u 2] by (simp add: mp_switch_def)
    next
      case b: 2
      show ?thesis
      proof (cases "buf ! i = delimiter bd ! k")
        case True
        then show ?thesis using boundary_ok_match [OF inv i l b(1) u 2] b(1) by (simp add: mp_switch_def)
      next
        case False
        then have "mp_index (mr_p w) < length bd" "bd ! mp_index (mr_p w) \<noteq> buf ! i" using D(4) b(2) by auto
        then show ?thesis using b(1) rollback False
          by (simp add: mp_switch_def st_part_data_boundary_def boundary_at_wf [OF D(6)])
      qed
    qed
  next
    case 3
    have here: "drop i buf = buf ! i # drop (Suc i) buf" using i(1) by (simp add: Cons_nth_drop_Suc)
    from 3(2) consider (b) "mp_state (mr_p w) = s_part_data_boundary" "mp_index (mr_p w) < length bd" "buf ! i = CR"
      | (a) "mp_state (mr_p w) = s_part_data_almost_boundary" "buf ! i \<noteq> LF"
      | (lf) cs where "mp_state (mr_p w) = s_part_data_almost_boundary" "buf ! i = LF" "drop (Suc i) buf = CR # cs"
      unfolding stale_def here by blast
    then show ?thesis
    proof cases
      case b
      then have "bd ! mp_index (mr_p w) \<noteq> buf ! i" using D(6) by (metis mp_wf_def nth_mem)
      then show ?thesis using b rollback 3(1)
        by (simp add: mp_switch_def st_part_data_boundary_def boundary_at_wf [OF D(6)])
    next
      case a
      then show ?thesis using rollback 3(1) by (simp add: mp_switch_def st_part_data_almost_boundary_def)
    next
      case lf
      have step: "mf_step bd (In_body k) (buf ! i) = Some (In_body 0, [Part_body [LF]])"
        using lf 3(1) by (simp add: body_step_def)
      have "\<not> l" using l lf(3) by auto
      moreover have "step_ok bd note_event p0 s0 buf u i
          (Break (upd_p (\<lambda>p. p\<lparr>mp_state := s_part_data_boundary, mp_index := 0\<rparr>) w))"
        using D st u lf 3(1) i l \<open>\<not> l\<close> piece_extend [of 0 i buf] merge_piece(3) [of 0 i buf "[LF]"]
        by (intro step_breakI [OF inv i(1) step]) (auto simp: stale_def piece_def mp_wf_def)
      ultimately show ?thesis using lf by (simp add: mp_switch_def st_part_data_almost_boundary_def)
    qed
  qed
qed

lemma end_switch_ok:
  assumes inv: "loop_inv bd p0 s0 buf w i s" and i: "i < length buf" and s: "s = Last_hyphen \<or> s = In_epilogue"
    and step: "mf_step bd s (buf ! i) = Some (s', es)" and u: "mr_user w = u" "good u"
  shows "step_ok bd note_event p0 s0 buf u i (mp_switch st (buf ! i) i l w)"
proof -
  define eo where "eo = (if s = Last_hyphen then Some body_end else None)"
  define w' where "w' = (goto_state s_end w)\<lparr>mr_user := fold note_event (events_of eo) u\<rparr>"
  have es: "s' = In_epilogue" "es = map (report buf) (events_of eo)"
    using s step by (auto simp: eo_def events_of_def split: if_splits)
  have "residual bd (pending p0) s0 buf [] s (buf ! i # drop (Suc i) buf)"
    using inv s i by (auto simp: loop_inv_def Cons_nth_drop_Suc)
  then have "residual bd (pending p0) s0 buf es In_epilogue (drop (Suc i) buf)"
    using step es(1) by (elim residual_step) auto
  then have "residual bd (pending p0) s0 buf es In_epilogue []" by (rule residual_epilogue)
  then have ok: "call_ok bd note_event p0 s0 buf u eo (length buf) (mr_p w') (mr_user w') In_epilogue"
    using inv i es(2) by (auto simp: call_ok_def w'_def rests_def loop_inv_def pending_def eo_def)
  have "mp_switch st (buf ! i) i l w = Break w'"
  proof (cases "s = Last_hyphen")
    case True
    then show ?thesis using inv step u
      by (auto simp: mp_switch_def st_part_data_final_hyphen_def emit_body_end loop_inv_def w'_def eo_def events_of_def
        split: if_splits)
  next
    case False
    then have "mp_state (mr_p w) = s_end" using s inv by (simp add: loop_inv_def)
    moreover from this have "w' = w" using False u by (cases w; cases "mr_p w") (simp add: w'_def eo_def events_of_def upd_p_def)
    ultimately show ?thesis by (simp add: mp_switch_def)
  qed
  then show ?thesis using ok by (auto simp: step_ok_def w'_def)
qed

lemma plain_break_ok:
  assumes inv: "loop_inv bd p0 s0 buf w i s" and i: "i < length buf"
    and step: "mf_step bd s (buf ! i) = Some (s', [])" and s: "unreported buf w i s = []"
    and w': "mp_wf bd (mr_p w')" "mr_user w' = u" "plain_state bd (mr_p w') s'"
    and s': "s' = Headers_closing \<or> s' = Before_value \<or> s' = Line_start"
  shows "step_ok bd note_event p0 s0 buf u i (Break w')"
  using assms by (intro step_breakI [OF inv i step]) (auto simp: pending_def)

lemma switch_ok:
  assumes inv: "loop_inv bd p0 s0 buf w i s" and i: "i < length buf" "length buf < 2 ^ 64"
    and l: "l \<longleftrightarrow> Suc i = length buf" and step: "mf_step bd s (buf ! i) = Some (s', es)" and u: "mr_user w = u" "good u"
  shows "step_ok bd note_event p0 s0 buf u i (mp_switch st (buf ! i) i l w)"
proof -
  have wf: "mp_wf bd (mr_p w)" and ls: "loop_state bd buf w i s" using inv by (auto simp: loop_inv_def)
  show ?thesis
  proof (cases s)
    case (In_preamble k)
    then consider "mp_state (mr_p w) = s_start" "k = 0" |
      "mp_state (mr_p w) = s_start_boundary" "mp_index (mr_p w) = k" "k \<le> length bd + 1" using ls by auto
    then show ?thesis
      by cases (use start_boundary_ok [of bd p0 s0 buf w i k] inv i(1) step u wf In_preamble in
        \<open>auto simp: mp_switch_def st_start_def\<close>)
  next
    case Line_start
    show ?thesis
    proof (cases "buf ! i = CR")
      case True
      then show ?thesis using plain_break_ok [OF inv i(1)] step ls wf u Line_start
        by (auto simp: mp_switch_def st_header_field_start_def st_header_field_def Let_def)
    next
      case False
      then show ?thesis using header_field_ok [OF inv i l step] step ls wf u Line_start
        by (auto simp: mp_switch_def st_header_field_start_def)
    qed
  next
    case In_field
    then show ?thesis using header_field_ok [OF inv i l step] step ls wf u by (auto simp: mp_switch_def)
  next
    case Headers_closing
    then have "buf ! i = LF" "s' = In_body 0" "es = [Headers_end]" using step by (auto split: if_splits)
    then show ?thesis using ls wf u Headers_closing
      by (auto simp: mp_switch_def st_headers_almost_done_def pending_def intro!: step_breakI [OF inv i(1) step])
  next
    case Before_value
    show ?thesis
    proof (cases "buf ! i = SPACE")
      case True
      then show ?thesis using plain_break_ok [OF inv i(1)] step ls wf u Before_value
        by (auto simp: mp_switch_def st_header_value_start_def)
    next
      case False
      then show ?thesis using header_value_ok [OF inv i l step] step ls wf u Before_value
        by (auto simp: mp_switch_def st_header_value_start_def)
    qed
  next
    case In_value
    then show ?thesis using header_value_ok [OF inv i l step] step ls wf u by (auto simp: mp_switch_def)
  next
    case Line_closing
    then show ?thesis using plain_break_ok [OF inv i(1)] step ls wf u
      by (auto simp: mp_switch_def st_header_value_almost_done_def split: if_splits)
  next
    case (In_body k)
    show ?thesis
    proof (cases "mp_state (mr_p w) = s_part_data_start")
      case False
      then show ?thesis using body_switch_ok inv i l u In_body by auto
    next
      case True
      let ?w = "(goto_state s_part_data (w\<lparr>mr_mark := i\<rparr>))\<lparr>mr_user := note_event headers_complete u\<rparr>"
      have "k = 0" using ls In_body True by (auto simp: in_delimiter_def stale_def)
      then have "call_ok bd note_event p0 s0 buf u (Some headers_complete) i (mr_p ?w) (mr_user ?w) (In_body 0)"
        using inv i(1) In_body True by (auto simp: call_ok_def loop_inv_def rests_def events_of_def pending_def)
      then show ?thesis using True u by (auto simp: mp_switch_def st_part_data_start_def emit_pauses step_ok_def)
    qed
  next
    case After_boundary
    then show ?thesis using ls wf u step
      by (auto simp: mp_switch_def st_part_data_almost_end_def emit_pauses pending_def
        intro!: step_reportI [OF inv i(1) step] split: if_splits)
  next
    case Next_part
    then show ?thesis using ls wf u step
      by (auto simp: mp_switch_def st_part_data_end_def emit_pauses pending_def
        intro!: step_reportI [OF inv i(1) step] split: if_splits)
  qed (use end_switch_ok [OF inv i(1) _ step u] in auto)
qed

lemma loop_at_end:
  "mp_state (mr_p w) = s_end \<Longrightarrow> i \<le> length buf \<Longrightarrow> mp_loop st buf i w = Done (Parsed (length buf), w)"
proof (induction "length buf - i" arbitrary: i)
  case 0
  then show ?case by (simp add: mp_loop.simps)
next
  case (Suc n)
  then have "mp_loop st buf (i + 1) w = Done (Parsed (length buf), w)" by (intro Suc.hyps(1)) auto
  then show ?case using Suc.prems Suc.hyps(2) by (subst mp_loop.simps) (simp add: mp_switch_def)
qed

lemma loop_ok:
  assumes "loop_inv bd p0 s0 buf w i s" and "mr_user w = u" and "good u" and "length buf < 2 ^ 64"
    and "mf_run bd s0 buf = Some r"
  shows "\<exists>n w' eo s'. mp_loop st buf i w = Done (Parsed n, w') \<and>
    call_ok bd note_event p0 s0 buf u eo n (mr_p w') (mr_user w') s'"
  using assms(1,2)
proof (induction "length buf - i" arbitrary: i w s)
  case 0
  then have "i = length buf" by (simp add: loop_inv_def)
  then have "call_ok bd note_event p0 s0 buf u None i (mr_p w) (mr_user w) s"
    using 0 by (auto simp: loop_inv_def call_ok_def events_of_def)
  then show ?case using \<open>i = length buf\<close> by (auto simp: mp_loop.simps)
next
  case (Suc n)
  then have i: "i < length buf" by simp
  then have l: "i = length buf - 1 \<longleftrightarrow> Suc i = length buf" by auto
  obtain s' es where "mf_step bd s (buf ! i) = Some (s', es)"
    using loop_inv_next [OF Suc.prems(1) i assms(5)] .
  then have "step_ok bd note_event p0 s0 buf u i (mp_switch st (buf ! i) i (i = length buf - 1) w)"
    by (rule switch_ok [OF Suc.prems(1) i assms(4) l _ Suc.prems(2) assms(3)])
  then consider (go) w' s' where "mp_switch st (buf ! i) i (i = length buf - 1) w = Break w'" "mr_user w' = u"
      "loop_inv bd p0 s0 buf w' (Suc i) s'"
    | (ret) w' n eo s' where "mp_switch st (buf ! i) i (i = length buf - 1) w = Return (Parsed n) w'"
      "call_ok bd note_event p0 s0 buf u eo n (mr_p w') (mr_user w') s'"
    | (fin) w' eo s' where "mp_switch st (buf ! i) i (i = length buf - 1) w = Break w'" "mp_state (mr_p w') = s_end"
      "call_ok bd note_event p0 s0 buf u eo (length buf) (mr_p w') (mr_user w') s'"
    unfolding step_ok_def by blast
  then show ?case
  proof cases
    case go
    then show ?thesis using Suc.hyps(1) [of "Suc i" w' s'] Suc.hyps(2) i by (subst mp_loop.simps) simp
  next
    case ret
    then show ?thesis using i by (subst mp_loop.simps) auto
  next
    case fin
    then show ?thesis using i loop_at_end [of w' "i + 1" buf] by (subst mp_loop.simps) auto
  qed
qed

text \<open>One call.\<close>

lemma execute_ok:
  assumes "rests bd p s buf" and "good u" and "length buf < 2 ^ 64" and "mf_run bd s buf = Some r"
  obtains n p' u' eo s' where "multipart_parser_execute st p buf u = Done (Parsed n, p', u')"
    and "call_ok bd note_event p s buf u eo n p' u' s'"
proof -
  have "loop_inv bd p s buf \<lparr>mr_p = p, mr_mark = 0, mr_mark_end = 0, mr_user = u\<rparr> 0 s"
    by (rule loop_inv_start [OF assms(1)])
  from loop_ok [OF this _ assms(2-4)] show ?thesis using that by (auto simp: multipart_parser_execute_def)
qed

end

end
