(* ===== verification/Multipart_Session.thy ===== *)
theory Multipart_Session
  imports Multipart_Refine
begin

unbundle bit_operations_syntax

text \<open>
  A multipart body that arrives in pieces. The client of the HTTP parser keeps what the parser has not
  consumed, appends what arrives, and calls again as long as there are events. The callbacks of
  \<^verbatim>\<open>src/cat_http.c\<close> are the interpretation of the interface the refinement rests on, for a client that
  subscribed to the multipart events.

  The theorem at the end: however a message is cut into pieces, the client gets its parts.
\<close>

subsection \<open>The callbacks\<close>

definition subscribed :: "http_body \<Rightarrow> bool" where
  "subscribed h \<longleftrightarrow> hb_multipart_state h = IN_BODY \<and>
     (\<forall>ev\<in>{EVENT_MULTIPART_DATA_BEGIN, EVENT_MULTIPART_HEADER_FIELD, EVENT_MULTIPART_HEADER_VALUE,
        EVENT_MULTIPART_HEADERS_COMPLETE, EVENT_MULTIPART_BODY, EVENT_MULTIPART_DATA_END}. hb_events h AND ev = ev)"

fun note_http :: "mp_event \<Rightarrow> http_body \<Rightarrow> http_body" where
  "note_http (header_field at len) h =
     h\<lparr>hb_event := EVENT_MULTIPART_HEADER_FIELD, hb_data := at, hb_data_length := len\<rparr>"
| "note_http (header_value at len) h =
     h\<lparr>hb_event := EVENT_MULTIPART_HEADER_VALUE, hb_data := at, hb_data_length := len\<rparr>"
| "note_http (part_data at len) h = h\<lparr>hb_event := EVENT_MULTIPART_BODY, hb_data := at, hb_data_length := len\<rparr>"
| "note_http part_data_begin h = h\<lparr>hb_event := EVENT_MULTIPART_DATA_BEGIN\<rparr>"
| "note_http headers_complete h = h\<lparr>hb_event := EVENT_MULTIPART_HEADERS_COMPLETE\<rparr>"
| "note_http part_data_end h = h\<lparr>hb_event := EVENT_MULTIPART_DATA_END\<rparr>"
| "note_http body_end h = h\<lparr>hb_event := EVENT_MULTIPART_BODY_END, hb_multipart_state := STATE_NOT_CONTENT_TYPE\<rparr>"

interpretation http: multipart_client cat_http_multipart_parser_settings subscribed note_http
proof unfold_locales
  fix h e assume "subscribed h"
  then show "\<exists>f. cat_http_multipart_parser_settings e = Some f \<and>
      f h = Done (if e = body_end then MPPE_OK else MPPE_PAUSED, note_http e h)"
    by (cases e) (auto simp: subscribed_def on_multipart_event_def on_multipart_data_def
      cat_http_multipart_parser_on_body_end_def Let_def)
qed

text \<open>What the client reads from the parser after a call.\<close>

definition reported :: "http_body \<Rightarrow> byte list \<Rightarrow> mp_report list" where
  "reported h buf =
     (let d = take (unat (hb_data_length h)) (drop (hb_data h) buf); ev = hb_event h
      in if ev = EVENT_MULTIPART_DATA_BEGIN then [Part_begin]
         else if ev = EVENT_MULTIPART_HEADER_FIELD then [Field_name d]
         else if ev = EVENT_MULTIPART_HEADER_VALUE then [Field_value d]
         else if ev = EVENT_MULTIPART_HEADERS_COMPLETE then [Headers_end]
         else if ev = EVENT_MULTIPART_BODY then [Part_body d]
         else if ev = EVENT_MULTIPART_DATA_END then [Part_end]
         else if ev = EVENT_MULTIPART_BODY_END then [Message_end]
         else [])"

lemma reported_note: "reported (note_http e h) buf = [report buf e]"
  by (cases e) (simp_all add: reported_def)

lemma reported_cong:
  "hb_event h = hb_event h' \<Longrightarrow> hb_data h = hb_data h' \<Longrightarrow> hb_data_length h = hb_data_length h' \<Longrightarrow>
   reported h buf = reported h' buf"
  by (simp add: reported_def)

lemma note_http_event [simp]:
  "hb_event (note_http e h) \<noteq> EVENT_NONE" "hb_event (note_http e h) AND FLAG_MULTIPART \<noteq> 0"
  "hb_event (note_http e h) = EVENT_MULTIPART_BODY_END \<longleftrightarrow> e = body_end"
  "hb_events (note_http e h) = hb_events h"
  by (cases e; simp)+

lemma note_http_within:
  "within n e \<Longrightarrow> hb_event (note_http e h) AND FLAG_DATA = 0 \<or> unat (hb_data_length (note_http e h)) \<le> n"
  by (cases e) auto

lemma note_http_subscribed: "subscribed h \<Longrightarrow> e \<noteq> body_end \<Longrightarrow> subscribed (note_http e h)"
  by (cases e) (auto simp: subscribed_def)

lemma subscribed_upd [simp]:
  "subscribed (h\<lparr>hb_event := ev\<rparr>) = subscribed h" "subscribed (h\<lparr>hb_multipart := p\<rparr>) = subscribed h"
  "subscribed (h\<lparr>hb_parsed_length := n\<rparr>) = subscribed h"
  by (simp_all add: subscribed_def)

text \<open>One call, its assertions included: \<open>eo\<close> is the event, \<open>s'\<close> where the format then stands.\<close>

lemma http_call:
  assumes "rests bd (hb_multipart h) s buf" and "subscribed h" and "length buf < 2 ^ 64" and "mf_run bd s buf = Some r"
  obtains h' eo s' where "cat_http_parser_multipart_parser_execute h buf = Done (Inr (), h')"
    and "call_ok bd note_http (hb_multipart h) s buf (h\<lparr>hb_event := EVENT_NONE\<rparr>) eo (hb_parsed_length h') (hb_multipart h')
      (fold note_http (events_of eo) (h\<lparr>hb_event := EVENT_NONE\<rparr>)) s'"
    and "reported h' buf = map (report buf) (events_of eo)" and "hb_event h' = EVENT_NONE \<longleftrightarrow> eo = None"
    and "hb_event h' = EVENT_MULTIPART_BODY_END \<longleftrightarrow> eo = Some body_end" and "eo \<noteq> Some body_end \<longrightarrow> subscribed h'"
proof -
  let ?h = "h\<lparr>hb_event := EVENT_NONE\<rparr>"
  have "rests bd (hb_multipart ?h) s buf" "subscribed ?h" using assms(1,2) by simp_all
  from http.execute_ok [OF this assms(3,4)]
  obtain n p' u' eo s' where run: "multipart_parser_execute cat_http_multipart_parser_settings (hb_multipart ?h) buf ?h =
      Done (Parsed n, p', u')" and ok: "call_ok bd note_http (hb_multipart ?h) s buf ?h eo n p' u' s'" .
  have u': "u' = fold note_http (events_of eo) ?h" using ok by (simp add: call_ok_def)
  let ?h' = "u'\<lparr>hb_multipart := p', hb_parsed_length := n\<rparr>"
  have "hb_event u' AND FLAG_DATA = 0 \<or> unat (hb_data_length u') \<le> n"
    using ok u' note_http_within by (cases eo) (auto simp: call_ok_def events_of_def)
  moreover have "hb_event u' AND FLAG_MULTIPART \<noteq> 0 \<or> hb_event u' = EVENT_NONE"
    using u' by (cases eo) (auto simp: events_of_def)
  ultimately have 1: "cat_http_parser_multipart_parser_execute h buf = Done (Inr (), ?h')"
    using run by (simp add: cat_http_parser_multipart_parser_execute_def Let_def)
  have "reported ?h' buf = reported u' buf" by (rule reported_cong) simp_all
  then have 2: "reported ?h' buf = map (report buf) (events_of eo)"
    using u' by (cases eo) (auto simp: events_of_def reported_note, simp add: reported_def)
  show ?thesis
    using ok u' assms(2) note_http_subscribed [of ?h]
    by (intro that [OF 1 _ 2]) (cases eo; simp add: events_of_def)+
qed

subsection \<open>The client\<close>

text \<open>Call until nothing is reported, or the message is complete. The result is the parser, the bytes
  that are kept and the reports.\<close>

partial_function (option) drain :: "http_body \<Rightarrow> byte list \<Rightarrow> (http_body \<times> byte list \<times> mp_report list) option" where
  "drain h buf =
     (case cat_http_parser_multipart_parser_execute h buf of
        Done (Inr _, h') \<Rightarrow>
          (let rest = drop (hb_parsed_length h') buf
           in if hb_event h' = EVENT_NONE \<or> hb_event h' = EVENT_MULTIPART_BODY_END
              then Some (h', rest, reported h' buf)
              else Option.bind (drain h' rest) (\<lambda>(h'', rest', es). Some (h'', rest', reported h' buf @ es)))
      | _ \<Rightarrow> None)"

fun feed :: "http_body \<Rightarrow> byte list \<Rightarrow> byte list list \<Rightarrow> (http_body \<times> byte list \<times> mp_report list) option" where
  "feed h kept [] = Some (h, kept, [])"
| "feed h kept (chunk # chunks) =
     (case drain h (kept @ chunk) of None \<Rightarrow> None
      | Some (h', rest, es) \<Rightarrow>
          if hb_event h' = EVENT_MULTIPART_BODY_END then Some (h', rest, es)
          else
            (case feed h' rest chunks of None \<Rightarrow> None
             | Some (h'', rest', es') \<Rightarrow> Some (h'', rest', es @ es')))"

text \<open>After a round of calls: the message is complete, or what is kept may be the beginning of a delimiter.\<close>

definition drained :: "byte list \<Rightarrow> http_body \<Rightarrow> mf_state \<Rightarrow> byte list \<Rightarrow> bool" where
  "drained bd h s rest \<longleftrightarrow>
     rests bd (hb_multipart h) s rest \<and>
     (if hb_event h = EVENT_MULTIPART_BODY_END then s = In_epilogue
      else subscribed h \<and> (rest = [] \<or> s = In_body 0 \<and> length rest \<le> length bd + 2))"

lemma residual_append:
  assumes "residual bd a s xs b s' ys"
  shows "residual bd a s (xs @ cs) b s' (ys @ cs)"
  using assms unfolding residual_def by (metis append.assoc)

lemma drain_ok:
  assumes "rests bd (hb_multipart h) s buf" and "subscribed h" and "length buf < 2 ^ 64" and "mf_run bd s buf = Some r"
  shows "\<exists>h' rest es s'. drain h buf = Some (h', rest, es) \<and> drained bd h' s' rest \<and> length rest \<le> length buf \<and>
    residual bd (pending (hb_multipart h)) s buf (es @ pending (hb_multipart h')) s' rest"
  using assms
proof (induction "2 * length buf + (if mp_state (hb_multipart h) = s_part_data_start then 1 else 0)"
    arbitrary: h s buf r rule: less_induct)
  case less
  from http_call [OF less.prems]
  obtain h' eo s' where call: "cat_http_parser_multipart_parser_execute h buf = Done (Inr (), h')"
    and ok: "call_ok bd note_http (hb_multipart h) s buf (h\<lparr>hb_event := EVENT_NONE\<rparr>) eo (hb_parsed_length h') (hb_multipart h')
      (fold note_http (events_of eo) (h\<lparr>hb_event := EVENT_NONE\<rparr>)) s'"
    and rep: "reported h' buf = map (report buf) (events_of eo)" and ev: "hb_event h' = EVENT_NONE \<longleftrightarrow> eo = None"
      "hb_event h' = EVENT_MULTIPART_BODY_END \<longleftrightarrow> eo = Some body_end" "eo \<noteq> Some body_end \<longrightarrow> subscribed h'" .
  let ?rest = "drop (hb_parsed_length h') buf"
  have res: "residual bd (pending (hb_multipart h)) s buf (reported h' buf @ pending (hb_multipart h')) s' ?rest"
    and rests: "rests bd (hb_multipart h') s' ?rest"
    using ok rep by (auto simp: call_ok_def)
  show ?case
  proof (cases "eo = None \<or> eo = Some body_end")
    case True
    then have "drain h buf = Some (h', ?rest, reported h' buf)" using call ev by (subst drain.simps) (simp add: Let_def)
    moreover have "drained bd h' s' ?rest" using True ok ev rests by (auto simp: drained_def call_ok_def)
    ultimately show ?thesis using res by auto
  next
    case False
    then have sub: "subscribed h'" using ev(3) by blast
    obtain r' where run': "mf_run bd s' ?rest = Some r'"
      using residual_accepts [OF res less.prems(4)] by blast
    have "2 * length ?rest + (if mp_state (hb_multipart h') = s_part_data_start then 1 else 0)
        < 2 * length buf + (if mp_state (hb_multipart h) = s_part_data_start then 1 else 0)"
      using ok False by (auto simp: call_ok_def)
    moreover have "length ?rest < 2 ^ 64" using less.prems(3) by simp
    ultimately obtain h'' rest' es s'' where more: "drain h' ?rest = Some (h'', rest', es)" "drained bd h'' s'' rest'"
      "length rest' \<le> length ?rest" "residual bd (pending (hb_multipart h')) s' ?rest (es @ pending (hb_multipart h'')) s'' rest'"
      using less.hyps [OF _ rests sub _ run'] by blast
    have "drain h buf = Some (h'', rest', reported h' buf @ es)"
      using call ev False more(1) by (subst drain.simps) (auto simp: Let_def)
    moreover have "residual bd (pending (hb_multipart h)) s buf ((reported h' buf @ es) @ pending (hb_multipart h'')) s'' rest'"
      using residual_trans [OF res more(4)] by simp
    ultimately show ?thesis using more(2,3) by (intro exI [of _ h''] exI [of _ rest'] exI [of _ "reported h' buf @ es"]) auto
  qed
qed

lemma feed_ok:
  assumes "rests bd (hb_multipart h) s kept" and "subscribed h" and "length (kept @ concat chunks) < 2 ^ 64"
    and "mf_run bd s (kept @ concat chunks) = Some r" and "kept = [] \<or> s = In_body 0 \<and> length kept \<le> length bd + 2"
    and "hb_event h \<noteq> EVENT_MULTIPART_BODY_END"
  shows "\<exists>h' rest es s' cs. feed h kept chunks = Some (h', rest, es) \<and> drained bd h' s' rest \<and>
    residual bd (pending (hb_multipart h)) s (kept @ concat chunks) (es @ pending (hb_multipart h')) s' (rest @ cs) \<and>
    (hb_event h' \<noteq> EVENT_MULTIPART_BODY_END \<longrightarrow> cs = [])"
  using assms
proof (induction chunks arbitrary: h s kept r)
  case Nil
  then show ?case by (auto simp: drained_def residual_refl)
next
  case (Cons c chunks)
  have split: "kept @ concat (c # chunks) = (kept @ c) @ concat chunks" by simp
  obtain s1 es1 where "mf_run bd s (kept @ c) = Some (s1, es1)"
    using Cons.prems(4) mf_run_prefix unfolding split by blast
  from drain_ok [OF rests_append [OF Cons.prems(1)] Cons.prems(2) _ this] Cons.prems(3)
  obtain h' rest es s' where d: "drain h (kept @ c) = Some (h', rest, es)" "drained bd h' s' rest"
    "length rest \<le> length (kept @ c)"
    "residual bd (pending (hb_multipart h)) s (kept @ c) (es @ pending (hb_multipart h')) s' rest" by auto
  have res: "residual bd (pending (hb_multipart h)) s (kept @ concat (c # chunks)) (es @ pending (hb_multipart h')) s'
      (rest @ concat chunks)"
    unfolding split by (rule residual_append [OF d(4)])
  show ?case
  proof (cases "hb_event h' = EVENT_MULTIPART_BODY_END")
    case True
    then show ?thesis using d res by (auto simp: drained_def)
  next
    case False
    obtain r' where run': "mf_run bd s' (rest @ concat chunks) = Some r'"
      using residual_accepts [OF res Cons.prems(4)] by blast
    have "length (rest @ concat chunks) < 2 ^ 64" using d(3) Cons.prems(3) by auto
    moreover have "rests bd (hb_multipart h') s' rest" "subscribed h'"
      "rest = [] \<or> s' = In_body 0 \<and> length rest \<le> length bd + 2" using d(2) False by (auto simp: drained_def)
    ultimately obtain h'' rest' es' s'' cs where f: "feed h' rest chunks = Some (h'', rest', es')" "drained bd h'' s'' rest'"
      "residual bd (pending (hb_multipart h')) s' (rest @ concat chunks) (es' @ pending (hb_multipart h'')) s'' (rest' @ cs)"
      "hb_event h'' \<noteq> EVENT_MULTIPART_BODY_END \<longrightarrow> cs = []"
      using Cons.IH [OF _ _ _ run' _ False] by blast
    then show ?thesis using d(1) False residual_trans [OF res f(3)] by auto
  qed
qed

lemma short_body_run:
  "k < length (delimiter bd) \<Longrightarrow> k + length xs \<le> length (delimiter bd) \<Longrightarrow>
   mf_run bd (In_body k) xs = Some (s, es) \<Longrightarrow> s \<noteq> In_epilogue"
proof (induction xs arbitrary: k es)
  case (Cons c xs)
  obtain s1 es1 where step: "body_step bd k c = (s1, es1)" by (cases "body_step bd k c")
  then obtain es2 where run: "mf_run bd s1 xs = Some (s, es2)" using Cons.prems(3) by (auto split: option.splits)
  show ?case
  proof (cases "s1 = After_boundary")
    case True
    then have "xs = []" using step Cons.prems(2) by (auto simp: body_step_def split: if_splits)
    then show ?thesis using run True by auto
  next
    case False
    then obtain k1 where "s1 = In_body k1" "k1 \<le> k + 1" "k1 < length (delimiter bd)"
      using step Cons.prems(1) by (auto simp: body_step_def split: if_splits)
    then show ?thesis using Cons.IH [of k1 es2] run Cons.prems(2) by auto
  qed
qed auto

lemma session_ok:
  assumes wf: "mp_wf bd (hb_multipart h)" and start: "mp_state (hb_multipart h) = s_start" and h: "subscribed h" "hb_event h = EVENT_NONE"
    and ps: "\<forall>p\<in>set ps. part_ok bd p" "ps \<noteq> []" and chunks: "concat chunks = multipart_message bd ps epilogue"
      "length (concat chunks) < 2 ^ 64"
  shows "\<exists>h' rest es. feed h [] chunks = Some (h', rest, es) \<and> merge_reports es = message_reports ps"
proof -
  have "CR \<notin> set bd" using wf by (simp add: mp_wf_def)
  from message_run [OF ps(1) this ps(2), of epilogue] obtain outs
    where run: "mf_run bd (In_preamble 0) (concat chunks) = Some (In_epilogue, outs)" "same_reports outs (message_reports ps)"
    unfolding chunks(1) by blast
  have "rests bd (hb_multipart h) (In_preamble 0) []" using wf start by (simp add: rests_def)
  from feed_ok [OF this h(1), of chunks "(In_epilogue, outs)"] run(1) chunks(2) h(2)
  have "\<exists>h' rest es s' cs. feed h [] chunks = Some (h', rest, es) \<and> drained bd h' s' rest \<and>
      residual bd (pending (hb_multipart h)) (In_preamble 0) (concat chunks) (es @ pending (hb_multipart h')) s' (rest @ cs) \<and>
      (hb_event h' \<noteq> EVENT_MULTIPART_BODY_END \<longrightarrow> cs = [])" by simp
  then obtain h' rest es s' cs where f: "feed h [] chunks = Some (h', rest, es)" "drained bd h' s' rest"
    "residual bd (pending (hb_multipart h)) (In_preamble 0) (concat chunks) (es @ pending (hb_multipart h')) s' (rest @ cs)"
    "hb_event h' \<noteq> EVENT_MULTIPART_BODY_END \<longrightarrow> cs = []" by blast
  from residualE [OF f(3), of "[]"] run(1) obtain gs where gs: "mf_run bd s' (rest @ cs) = Some (In_epilogue, gs)"
    "same_reports outs ((es @ pending (hb_multipart h')) @ gs)"
    using start by (auto simp: pending_def)
  have "s' = In_epilogue"
  proof (cases "hb_event h' = EVENT_MULTIPART_BODY_END")
    case False
    then have "cs = []" "rest = [] \<or> s' = In_body 0 \<and> length rest \<le> length (delimiter bd)"
      using f(2,4) by (auto simp: drained_def)
    then show ?thesis using gs(1) short_body_run [of 0 bd rest In_epilogue gs] by auto
  qed (use f(2) in \<open>simp add: drained_def\<close>)
  then have "gs = []" "pending (hb_multipart h') = []"
    using gs(1) f(2) by (auto simp: drained_def rests_def pending_def)
  then show ?thesis using f(1) gs(2) run(2) by auto
qed

subsection \<open>Properties\<close>

text \<open>C3: one call of the multipart parser through the HTTP parser refines the message format. If the bytes can
  be those of a message, the call succeeds with all its assertions, consumes a part of the buffer, reports
  at most one event, and the automaton run on the old state and the whole buffer says, whatever follows,
  what the call reported and then what the automaton says on the new state and the bytes not consumed. A
  call without an event has consumed everything, or keeps a buffer no longer than a delimiter.\<close>

theorem multipart_call_refines_format:
  assumes "rests bd (hb_multipart h) s buf" and "subscribed h" and "length buf < 2 ^ 64" and "mf_run bd s buf = Some r"
  shows "\<exists>h' s' n. cat_http_parser_multipart_parser_execute h buf = Done (Inr (), h') \<and> n = hb_parsed_length h' \<and>
    n \<le> length buf \<and> rests bd (hb_multipart h') s' (drop n buf) \<and>
    residual bd (pending (hb_multipart h)) s buf (reported h' buf @ pending (hb_multipart h')) s' (drop n buf) \<and>
    (if hb_event h' = EVENT_NONE then n = length buf \<or> n = 0 \<and> length buf \<le> length bd + 2
     else 0 < n \<or> mp_state (hb_multipart h) = s_part_data_start \<and> mp_state (hb_multipart h') = s_part_data)"
proof -
  from http_call [OF assms]
  obtain h' eo s' where "cat_http_parser_multipart_parser_execute h buf = Done (Inr (), h')"
    "call_ok bd note_http (hb_multipart h) s buf (h\<lparr>hb_event := EVENT_NONE\<rparr>) eo (hb_parsed_length h') (hb_multipart h')
      (fold note_http (events_of eo) (h\<lparr>hb_event := EVENT_NONE\<rparr>)) s'"
    "reported h' buf = map (report buf) (events_of eo)" "hb_event h' = EVENT_NONE \<longleftrightarrow> eo = None"
    by metis
  then show ?thesis by (cases eo) (auto simp: call_ok_def)
qed

definition body_host :: http_body where
  "body_host = \<lparr>hb_events = 0xFFFFFFFF, hb_event = 0, hb_data = 0, hb_data_length = 0, hb_parsed_length = 0,
     hb_has_previous_error = False, hb_multipart_state = IN_BODY, hb_multipart = parser_at s_start 0\<rparr>"

lemma body_host_ok: "subscribed body_host" "hb_event body_host = EVENT_NONE" "hb_multipart body_host = parser_at s_start 0"
  "mp_wf [45, 45, 98] (parser_at s_start 0)"
  by (simp_all add: subscribed_def body_host_def mp_wf_def parser_at_def)

theorem multipart_call_refines_format_witness:
  "\<exists>h' n. cat_http_parser_multipart_parser_execute body_host [45, 45, 98, 13, 10] = Done (Inr (), h') \<and>
     n = hb_parsed_length h' \<and> n \<le> 5 \<and> mf_run [45, 45, 98] (In_preamble 0) [45, 45, 98, 13, 10] = Some (Line_start, [Part_begin])"
proof -
  let ?buf = "[45, 45, 98, 13, 10] :: byte list"
  have run: "mf_run [45, 45, 98] (In_preamble 0) ?buf = Some (Line_start, [Part_begin])" by simp
  have "rests [45, 45, 98] (hb_multipart body_host) (In_preamble 0) ?buf"
    using body_host_ok by (simp add: rests_def parser_at_def)
  from multipart_call_refines_format [OF this body_host_ok(1) _ run] run show ?thesis by auto
qed

text \<open>C2: a multipart body reaches the client whatever pieces it arrives in. For every boundary without a
  carriage return that \<^verbatim>\<open>multipart_parser_init\<close> accepts, all parts whose field names, values and bodies are
  well formed (a body does not contain the delimiter), every epilogue, and every way to cut the printed
  message into pieces, the client that subscribed to the multipart events gets, by finitely many calls, the
  beginning of every part, its field names and values, the end of its headers, its body and its end, in
  order, and the end of the message.\<close>

theorem multipart_round_trip:
  assumes "b \<noteq> []" and "length b \<le> BOUNDARY_MAX_LEN" and "CR \<notin> set b" and "length (mp_boundary p) = BOUNDARY_SIZE"
    and "multipart_parser_init (Some b) p = Done (True, hb_multipart h)" and "subscribed h" and "hb_event h = EVENT_NONE"
    and "ps \<noteq> []" and "\<forall>q\<in>set ps. part_ok (HYPHEN # HYPHEN # b) q"
    and "concat chunks = multipart_message (HYPHEN # HYPHEN # b) ps epilogue" and "length (concat chunks) < 2 ^ 64"
  shows "\<exists>h' rest es. feed h [] chunks = Some (h', rest, es) \<and> merge_reports es = message_reports ps"
proof -
  have "mp_wf (HYPHEN # HYPHEN # b) (hb_multipart h)" "mp_state (hb_multipart h) = s_start"
    using init_ok [OF assms(1,2,4)] assms(2,3,5) by (auto simp: mp_wf_def)
  then show ?thesis using assms(6-11) by (intro session_ok) auto
qed

definition example_parts :: "mp_part list" where
  "example_parts = [([([97], [118])], [120, 13, 10, 121]), ([], [])]"

lemma example_parts_ok: "\<forall>q\<in>set example_parts. part_ok [45, 45, 98] q"
  by (simp add: example_parts_def part_ok_def header_ok_def field_char_def field_letter_def sublist_Cons_right)

theorem multipart_round_trip_witness:
  "\<exists>h' rest es. feed body_host [] (map (\<lambda>c. [c]) (multipart_message [45, 45, 98] example_parts [13, 10])) = Some (h', rest, es) \<and>
     merge_reports es = [Part_begin, Field_name [97], Field_value [118], Headers_end, Part_body [120, 13, 10, 121], Part_end,
       Part_begin, Headers_end, Part_body [], Part_end, Message_end]"
proof -
  let ?p = "(parser_at s_end 0)\<lparr>mp_boundary := replicate 153 0, mp_boundary_length := 0\<rparr>"
  have "multipart_parser_init (Some [98]) ?p = Done (True, hb_multipart body_host)"
    using init_ok [of "[98]" ?p] by (simp add: body_host_def parser_at_def)
  from multipart_round_trip [OF _ _ _ _ this body_host_ok(1,2) _ example_parts_ok,
      of "map (\<lambda>c. [c]) (multipart_message [45, 45, 98] example_parts [13, 10])" "[13, 10]"]
  show ?thesis
    by (simp add: concat_map_singleton example_parts_def multipart_message_def part_text_def header_line_def
      message_reports_def part_reports_def)
qed

end
