(* ===== verification/Uv_Inet.thy ===== *)
theory Uv_Inet
  imports Cat_Buffer
begin

unbundle bit_operations_syntax

text \<open>
  Internet addresses and their text, \<^verbatim>\<open>deps/libuv/src/inet.c\<close>. A C string is the list of its bytes without
  the terminating zero; the error codes of libuv are those of libcat. The buffers of fixed size the code
  writes through a pointer are lists with a length, and leaving one is undefined.

  The lemmas show that an address printed and parsed is the same address, for both families, that the parser
  of IPv4 addresses accepts exactly what the printer prints, and that no buffer is left.
\<close>

abbreviation DOT :: byte where "DOT \<equiv> 46"
abbreviation COL :: byte where "COL \<equiv> 58"
abbreviation PERCENT :: byte where "PERCENT \<equiv> 37"
abbreviation INET_ADDRSTRLEN :: nat where "INET_ADDRSTRLEN \<equiv> 16"
abbreviation INET6_ADDRSTRLEN :: nat where "INET6_ADDRSTRLEN \<equiv> 46"

subsection \<open>Copying a string\<close>

text \<open>\<^verbatim>\<open>uv__strscpy\<close>: the loop over \<^verbatim>\<open>i\<close>, on the bytes of the source with their terminating zero; the result
  is the destination and the length, or \<open>None\<close> for \<^verbatim>\<open>UV_E2BIG\<close>.\<close>

function strscpy_loop :: "byte list \<Rightarrow> byte list \<Rightarrow> nat \<Rightarrow> nat \<Rightarrow> (byte list \<times> nat option) c_run" where
  "strscpy_loop d s i n =
     (if i < n then
        (if i < length s \<and> i < length d then
           (if s ! i = 0 then Done (d[i := s ! i], Some i) else strscpy_loop (d[i := s ! i]) s (i + 1) n)
         else Undefined)
      else Done (d, None))"
  by pat_completeness auto
termination
  by (relation "measure (\<lambda>(d, s, i, n). n - i)") auto

declare strscpy_loop.simps [simp del]

definition uv__strscpy :: "byte list \<Rightarrow> byte list \<Rightarrow> nat \<Rightarrow> (byte list \<times> nat option) c_run" where
  "uv__strscpy d s n =
     c_bind (strscpy_loop d (s @ [0]) 0 n) (\<lambda>(d, r).
       case r of Some i \<Rightarrow> Done (d, Some i)
       | None \<Rightarrow> if n = 0 then Done (d, Some 0) else Done (d[n - 1 := 0], None))"

subsection \<open>Printing\<close>

definition dotted :: "byte list \<Rightarrow> byte list" where
  "dotted src = decimal (unat (src ! 0)) @ [DOT] @ decimal (unat (src ! 1)) @ [DOT] @
     decimal (unat (src ! 2)) @ [DOT] @ decimal (unat (src ! 3))"

text \<open>\<open>cap\<close> is the size the caller passes for the destination.\<close>

definition inet_ntop4 :: "byte list \<Rightarrow> byte list \<Rightarrow> nat \<Rightarrow> (cat_errno option \<times> byte list) c_run" where
  "inet_ntop4 src dst cap =
     (let txt = dotted src; l = length txt; tmp = take (INET_ADDRSTRLEN - 1) txt
      in if l \<le> 0 \<or> cap \<le> l then Done (Some CAT_ENOSPC, dst)
         else c_bind (uv__strscpy dst tmp cap) (\<lambda>(dst, _). Done (None, dst)))"

definition ntop6_words :: "byte list \<Rightarrow> u32 list" where
  "ntop6_words src =
     fold (\<lambda>i ws. ws[i div 2 := ws ! (i div 2) OR push_bit (8 * (1 - i mod 2)) (ucast (src ! i))])
       [0..<16] (replicate 8 0)"

text \<open>The search for the longest run of zero words; a base of \<^verbatim>\<open>-1\<close> is \<open>None\<close>.\<close>

definition longer_run :: "(nat \<times> nat) option \<Rightarrow> (nat \<times> nat) option \<Rightarrow> (nat \<times> nat) option" where
  "longer_run best cur =
     (case cur of None \<Rightarrow> best
      | Some c \<Rightarrow> (case best of None \<Rightarrow> cur | Some b \<Rightarrow> if snd b < snd c then cur else best))"

fun find_run :: "u32 list \<Rightarrow> nat \<Rightarrow> (nat \<times> nat) option \<Rightarrow> (nat \<times> nat) option \<Rightarrow> (nat \<times> nat) option" where
  "find_run [] i best cur = longer_run best cur"
| "find_run (w # ws) i best cur =
     (if w = 0 then find_run ws (i + 1) best (case cur of None \<Rightarrow> Some (i, 1) | Some (b, l) \<Rightarrow> Some (b, l + 1))
      else find_run ws (i + 1) (longer_run best cur) None)"

definition best_run :: "u32 list \<Rightarrow> (nat \<times> nat) option" where
  "best_run ws = (case find_run ws 0 None None of Some (b, l) \<Rightarrow> if l < 2 then None else Some (b, l) | None \<Rightarrow> None)"

text \<open>Writing to \<^verbatim>\<open>tmp\<close> through \<^verbatim>\<open>tp\<close>: one character, or a text that must fit with its zero.\<close>

definition put_tmp :: "byte list \<Rightarrow> byte list \<Rightarrow> byte list c_run" where
  "put_tmp tmp txt = (if length tmp + length txt < INET6_ADDRSTRLEN then Done (tmp @ txt) else Undefined)"

definition in_run :: "(nat \<times> nat) option \<Rightarrow> nat \<Rightarrow> bool" where
  "in_run best i = (case best of None \<Rightarrow> False | Some (b, l) \<Rightarrow> b \<le> i \<and> i < b + l)"

definition encapsulated4 :: "u32 list \<Rightarrow> (nat \<times> nat) option \<Rightarrow> nat \<Rightarrow> bool" where
  "encapsulated4 ws best i =
     (i = 6 \<and> (case best of None \<Rightarrow> False
       | Some (b, l) \<Rightarrow> b = 0 \<and> (l = 6 \<or> l = 7 \<and> ws ! 7 \<noteq> 1 \<or> l = 5 \<and> ws ! 5 = 0xffff)))"

text \<open>The loop that formats the words, over the indices that are left; \<open>Inl\<close> is an error of the inner call.\<close>

fun ntop6_loop :: "byte list \<Rightarrow> u32 list \<Rightarrow> (nat \<times> nat) option \<Rightarrow> nat list \<Rightarrow> byte list \<Rightarrow> (cat_errno + byte list) c_run" where
  "ntop6_loop src ws best [] tmp = Done (Inr tmp)"
| "ntop6_loop src ws best (i # is) tmp =
     (if in_run best i then
        (if map_option fst best = Some i then c_bind (put_tmp tmp [COL]) (ntop6_loop src ws best is)
         else ntop6_loop src ws best is tmp)
      else
        c_bind (if i \<noteq> 0 then put_tmp tmp [COL] else Done tmp) (\<lambda>tmp.
          if encapsulated4 ws best i then
            c_bind (inet_ntop4 (drop 12 src) (replicate (INET6_ADDRSTRLEN - length tmp) 0) (INET6_ADDRSTRLEN - length tmp))
              (\<lambda>(e, d). case e of Some err \<Rightarrow> Done (Inl err) | None \<Rightarrow> Done (Inr (tmp @ takeWhile (\<lambda>c. c \<noteq> 0) d)))
          else c_bind (put_tmp tmp (hex_text (unat (ws ! i)))) (ntop6_loop src ws best is)))"

definition inet_ntop6 :: "byte list \<Rightarrow> byte list \<Rightarrow> nat \<Rightarrow> (cat_errno option \<times> byte list) c_run" where
  "inet_ntop6 src dst cap =
     (let ws = ntop6_words src; best = best_run ws
      in c_bind (ntop6_loop src ws best [0..<8] []) (\<lambda>r.
           case r of Inl e \<Rightarrow> Done (Some e, dst)
           | Inr tmp \<Rightarrow>
               c_bind (case best of Some (b, l) \<Rightarrow> if b + l = 8 then put_tmp tmp [COL] else Done tmp | None \<Rightarrow> Done tmp) (\<lambda>tmp.
               c_assert (length tmp < INET6_ADDRSTRLEN)
                 (if cap < length tmp + 1 then Done (Some CAT_ENOSPC, dst)
                  else c_bind (uv__strscpy dst tmp cap) (\<lambda>(dst, _). Done (None, dst))))))"

subsection \<open>Parsing\<close>

definition digit_value :: "byte \<Rightarrow> nat option" where
  "digit_value c = (if 48 \<le> c \<and> c \<le> 57 then Some (unat c - 48) else None)"

definition xdigit_value :: "byte \<Rightarrow> nat option" where
  "xdigit_value c =
     (if 48 \<le> c \<and> c \<le> 57 then Some (unat c - 48)
      else if 97 \<le> c \<and> c \<le> 102 then Some (unat c - 87)
      else if 65 \<le> c \<and> c \<le> 70 then Some (unat c - 55) else None)"

text \<open>\<open>octs\<close> are the octets in front of \<^verbatim>\<open>tp\<close>, \<open>cur\<close> is \<^verbatim>\<open>*tp\<close>.\<close>

fun pton4_loop :: "byte list \<Rightarrow> bool \<Rightarrow> nat \<Rightarrow> nat list \<Rightarrow> nat \<Rightarrow> (cat_errno + byte list) c_run" where
  "pton4_loop [] saw_digit octets octs cur =
     (if octets < 4 then Done (Inl CAT_EINVAL)
      else c_bind (mem_read (map of_nat (octs @ [cur])) 0 4) (\<lambda>d. Done (Inr d)))"
| "pton4_loop (ch # src) saw_digit octets octs cur =
     (case digit_value ch of
        Some d \<Rightarrow>
          let nw = cur * 10 + d
          in if saw_digit \<and> cur = 0 then Done (Inl CAT_EINVAL)
             else if nw > 255 then Done (Inl CAT_EINVAL)
             else if \<not> saw_digit then
               (if octets + 1 > 4 then Done (Inl CAT_EINVAL) else pton4_loop src True (octets + 1) octs nw)
             else pton4_loop src saw_digit octets octs nw
      | None \<Rightarrow>
          if ch = DOT \<and> saw_digit then
            (if octets = 4 then Done (Inl CAT_EINVAL)
             else if length octs + 1 < 4 then pton4_loop src False octets (octs @ [cur]) 0
             else Undefined)
          else Done (Inl CAT_EINVAL))"

definition inet_pton4 :: "byte list \<Rightarrow> (cat_errno + byte list) c_run" where
  "inet_pton4 src = pton4_loop src False 0 [] 0"

text \<open>The bytes in front of \<^verbatim>\<open>tp\<close>, the position of \<^verbatim>\<open>colonp\<close>, and \<^verbatim>\<open>seen_xdigits\<close> at the end of the loop.\<close>

definition word_bytes :: "nat \<Rightarrow> byte list" where
  "word_bytes val = [of_nat (val div 256 mod 256), of_nat (val mod 256)]"

fun pton6_loop :: "byte list \<Rightarrow> byte list \<Rightarrow> nat option \<Rightarrow> nat \<Rightarrow> nat \<Rightarrow> byte list \<Rightarrow>
    (cat_errno + byte list \<times> nat option \<times> nat \<times> nat) c_run" where
  "pton6_loop [] out colonp val seen curtok = Done (Inr (out, colonp, val, seen))"
| "pton6_loop (ch # src) out colonp val seen curtok =
     (case xdigit_value ch of
        Some d \<Rightarrow>
          if seen + 1 > 4 then Done (Inl CAT_EINVAL)
          else pton6_loop src out colonp (val * 16 + d) (seen + 1) curtok
      | None \<Rightarrow>
          if ch = COL then
            (if seen = 0 then
               (if colonp \<noteq> None then Done (Inl CAT_EINVAL) else pton6_loop src out (Some (length out)) val seen src)
             else if src = [] then Done (Inl CAT_EINVAL)
             else if length out + 2 > 16 then Done (Inl CAT_EINVAL)
             else pton6_loop src (out @ word_bytes val) colonp 0 0 src)
          else if ch = DOT \<and> length out + 4 \<le> 16 then
            c_bind (inet_pton4 curtok) (\<lambda>r.
              case r of Inr d \<Rightarrow> Done (Inr (out @ d, colonp, val, 0)) | Inl _ \<Rightarrow> Done (Inl CAT_EINVAL))
          else Done (Inl CAT_EINVAL))"

text \<open>The shift by hand of the \<open>n\<close> bytes from \<^verbatim>\<open>colonp\<close> on to the end of the array.\<close>

fun shift_loop :: "nat \<Rightarrow> nat \<Rightarrow> nat \<Rightarrow> byte list \<Rightarrow> byte list" where
  "shift_loop 0 colonp n tmp = tmp"
| "shift_loop (Suc k) colonp n tmp =
     (let i = n - k; tmp = tmp[16 - i := tmp ! (colonp + (n - i))]
      in shift_loop k colonp n (tmp[colonp + (n - i) := 0]))"

definition pton6_finish :: "byte list \<Rightarrow> nat option \<Rightarrow> nat \<Rightarrow> nat \<Rightarrow> cat_errno + byte list" where
  "pton6_finish out colonp val seen =
     (if seen \<noteq> 0 \<and> length out + 2 > 16 then Inl CAT_EINVAL
      else
        let out = (if seen \<noteq> 0 then out @ word_bytes val else out);
            tmp = out @ replicate (16 - length out) 0
        in case colonp of
             None \<Rightarrow> if length out \<noteq> 16 then Inl CAT_EINVAL else Inr tmp
           | Some c \<Rightarrow> if length out = 16 then Inl CAT_EINVAL
                       else Inr (shift_loop (length out - c) c (length out - c) tmp))"

definition inet_pton6 :: "byte list \<Rightarrow> (cat_errno + byte list) c_run" where
  "inet_pton6 src =
     (let run = (\<lambda>src. c_bind (pton6_loop src [] None 0 0 src) (\<lambda>r.
            case r of Inl e \<Rightarrow> Done (Inl e)
            | Inr (out, colonp, val, seen) \<Rightarrow> Done (pton6_finish out colonp val seen)))
      in case src of
           ch # rest \<Rightarrow>
             if ch = COL then (case rest of c # _ \<Rightarrow> if c = COL then run rest else Done (Inl CAT_EINVAL)
               | [] \<Rightarrow> Done (Inl CAT_EINVAL))
             else run src
         | [] \<Rightarrow> run src)"

text \<open>The entry points; \<open>zone\<close> stands for the part of the text behind a percent sign.\<close>

datatype inet_family = AF_UNSPEC | AF_INET | AF_INET6 | AF_LOCAL | AF_OTHER

definition uv_inet_ntop :: "inet_family \<Rightarrow> byte list \<Rightarrow> byte list \<Rightarrow> nat \<Rightarrow> (cat_errno option \<times> byte list) c_run" where
  "uv_inet_ntop af src dst cap =
     (case af of AF_INET \<Rightarrow> inet_ntop4 src dst cap | AF_INET6 \<Rightarrow> inet_ntop6 src dst cap
      | _ \<Rightarrow> Done (Some CAT_EAFNOSUPPORT, dst))"

text \<open>\<^verbatim>\<open>len\<close> is an \<^verbatim>\<open>int\<close>; a negative one is a size of \<^verbatim>\<open>memcpy\<close> beyond every object.\<close>

definition uv_inet_pton :: "inet_family \<Rightarrow> byte list \<Rightarrow> (cat_errno + byte list) c_run" where
  "uv_inet_pton af src =
     (case af of
        AF_INET \<Rightarrow> inet_pton4 src
      | AF_INET6 \<Rightarrow>
          (if PERCENT \<in> set src then
             let s = takeWhile (\<lambda>c. c \<noteq> PERCENT) src; len = sint (of_nat (length s) :: u32)
             in if len > int INET6_ADDRSTRLEN - 1 then Done (Inl CAT_EINVAL)
                else if len < 0 then Undefined else inet_pton6 (take (nat len) s)
           else inet_pton6 src)
      | _ \<Rightarrow> Done (Inl CAT_EAFNOSUPPORT))"

subsection \<open>Copying\<close>

lemma strscpy_loop_fits:
  assumes "0 \<notin> set s" and "length s < n" and "n \<le> length d" and "i \<le> length s"
  shows "strscpy_loop d (s @ [0]) i n = Done (take i d @ drop i s @ [0] @ drop (length s + 1) d, Some (length s))"
  using assms
proof (induction "length s - i" arbitrary: i d)
  case 0
  then have "i = length s" by simp
  then show ?case using 0 by (subst strscpy_loop.simps) (simp add: upd_conv_take_nth_drop)
next
  case (Suc k)
  then have i: "i < length s" by simp
  then have "s ! i \<noteq> 0" using Suc.prems(1) by (metis nth_mem)
  moreover have "strscpy_loop (d[i := s ! i]) (s @ [0]) (i + 1) n =
      Done (take (i + 1) (d[i := s ! i]) @ drop (i + 1) s @ [0] @ drop (length s + 1) (d[i := s ! i]), Some (length s))"
    using Suc i by (intro Suc.hyps(1)) auto
  moreover have "take (i + 1) (d[i := s ! i]) @ drop (i + 1) s @ [0] @ drop (length s + 1) (d[i := s ! i]) =
      take i d @ drop i s @ [0] @ drop (length s + 1) d"
    using i Suc.prems(2,3) by (simp add: take_Suc_conv_app_nth Cons_nth_drop_Suc [symmetric])
  ultimately show ?case using i Suc.prems
    by (subst strscpy_loop.simps) (simp only: nth_append if_True, simp)
qed

lemma strscpy_fits:
  assumes "0 \<notin> set s" and "length s < n" and "n \<le> length d"
  shows "uv__strscpy d s n = Done (s @ [0] @ drop (length s + 1) d, Some (length s))"
  using strscpy_loop_fits [OF assms, of 0] by (simp add: uv__strscpy_def)

subsection \<open>Digits\<close>

lemma digit_char:
  assumes "d < 10" shows "digit_value (of_nat (48 + d)) = Some d"
proof -
  have "unat (of_nat (48 + d) :: byte) = 48 + d" using assms by (intro unat_of_nat_lt) simp
  then show ?thesis using assms by (simp add: digit_value_def word_le_nat_alt)
qed

lemma hex_char_value:
  assumes "d < 16" shows "xdigit_value (if d < 10 then of_nat (48 + d) else of_nat (87 + d)) = Some d"
proof -
  have "unat (of_nat (48 + d) :: byte) = 48 + d" "unat (of_nat (87 + d) :: byte) = 87 + d"
    using assms by (intro unat_of_nat_lt; simp)+
  then show ?thesis using assms by (simp add: xdigit_value_def word_le_nat_alt)
qed

lemma digit_is_xdigit: "digit_value c = Some d \<Longrightarrow> xdigit_value c = Some d"
  by (simp add: digit_value_def xdigit_value_def split: if_splits)

lemma separators [simp]:
  "digit_value DOT = None" "xdigit_value DOT = None" "xdigit_value COL = None" "digit_value COL = None"
  by (simp_all add: digit_value_def xdigit_value_def)

lemma decimal_nonempty [simp]: "decimal n \<noteq> []"
  by (subst decimal.simps) simp

lemma hex_text_nonempty [simp]: "hex_text n \<noteq> []"
  by (subst hex_text.simps) simp

lemma decimal_chars: "c \<in> set (decimal n) \<Longrightarrow> \<exists>d<10. c = of_nat (48 + d)"
proof (induction n rule: decimal.induct)
  case (1 n)
  then show ?case
    by (cases "n < 10") (auto simp: decimal.simps [of n] intro: exI [of _ "n mod 10"])
qed

lemma hex_text_chars: "c \<in> set (hex_text n) \<Longrightarrow> \<exists>d<16. c = (if d < 10 then of_nat (48 + d) else of_nat (87 + d))"
proof (induction n rule: hex_text.induct)
  case (1 n)
  show ?case
  proof (cases "n < 16")
    case True
    then show ?thesis using "1.prems" by (intro exI [of _ n]) (simp add: hex_text.simps [of n])
  next
    case False
    then consider "c \<in> set (hex_text (n div 16))" | "c = (if n mod 16 < 10 then of_nat (48 + n mod 16) else of_nat (87 + n mod 16))"
      using "1.prems" by (auto simp: hex_text.simps [of n])
    then show ?thesis
    proof cases
      case 2
      then show ?thesis by (intro exI [of _ "n mod 16"]) simp
    qed (use "1.IH" [OF False] in blast)
  qed
qed

subsection \<open>IPv4\<close>

lemma pton4_decimal:
  "n \<le> 255 \<Longrightarrow> octets < 4 \<Longrightarrow>
   pton4_loop (decimal n @ rest) False octets octs 0 = pton4_loop rest True (octets + 1) octs n"
proof (induction n arbitrary: rest rule: decimal.induct)
  case (1 n)
  show ?case
  proof (cases "n < 10")
    case True
    then show ?thesis using "1.prems" digit_char [of n] by (simp add: decimal.simps [of n])
  next
    case False
    then have "n div 10 \<noteq> 0" "n div 10 * 10 + n mod 10 = n" by auto
    then show ?thesis using False "1.IH" [OF False, of "of_nat (48 + n mod 10) # rest"] "1.prems" digit_char [of "n mod 10"]
      by (simp add: decimal.simps [of n] Let_def)
  qed
qed

lemma byte_le_255: "unat (c :: byte) \<le> 255"
  using unsigned_less [of c, where 'a = nat] by simp

lemma four_bytes: "length src = 4 \<Longrightarrow> src = [src ! 0, src ! 1, src ! 2, src ! 3]"
  by (auto simp: numeral_eq_Suc length_Suc_conv)

lemma pton4_dotted:
  assumes "length src = 4"
  shows "inet_pton4 (dotted src) = Done (Inr src)"
proof -
  have "inet_pton4 (dotted src) = Done (Inr [src ! 0, src ! 1, src ! 2, src ! 3])"
    using pton4_decimal [where rest = "[]"]
    by (simp add: inet_pton4_def dotted_def pton4_decimal byte_le_255 mem_read_def)
  then show ?thesis using four_bytes [OF assms] by simp
qed

text \<open>Conversely, every text the parser accepts is the printed form of its result: what has been read is the
  octets that were finished, each with its dot, and the digits of the current one.\<close>

definition octets_text :: "nat list \<Rightarrow> byte list" where
  "octets_text octs = concat (map (\<lambda>n. decimal n @ [DOT]) octs)"

lemma decimal_extend: "0 < n \<Longrightarrow> d < 10 \<Longrightarrow> decimal (n * 10 + d) = decimal n @ [of_nat (48 + d)]"
  by (subst decimal.simps) auto

lemma digit_value_char: "digit_value c = Some d \<Longrightarrow> c = of_nat (48 + d) \<and> d < 10"
proof -
  assume a: "digit_value c = Some d"
  then have "48 \<le> unat c" "unat c \<le> 57" "d = unat c - 48"
    by (auto simp: digit_value_def word_le_nat_alt split: if_splits)
  then have "of_nat (48 + d) = (of_nat (unat c) :: byte)" "d < 10" by auto
  then show ?thesis by simp
qed

lemma pton4_loop_exact:
  assumes "pton4_loop src saw octets octs cur = Done (Inr x)" and "octets = length octs + (if saw then 1 else 0)"
    and "length octs \<le> 3" and "\<not> saw \<longrightarrow> cur = 0" and "\<forall>n\<in>set octs. n \<le> 255" and "cur \<le> 255"
  shows "\<exists>ns n. x = map of_nat (ns @ [n]) \<and> length ns = 3 \<and> (\<forall>m\<in>set (ns @ [n]). m \<le> 255) \<and>
    octets_text octs @ (if saw then decimal cur else []) @ src = octets_text ns @ decimal n"
  using assms
proof (induction src saw octets octs cur rule: pton4_loop.induct)
  case (1 saw octets octs cur)
  then have "saw" "length octs = 3" by (auto split: if_splits)
  with 1 show ?case by (intro exI [of _ octs] exI [of _ cur]) (auto simp: mem_read_def)
next
  case (2 ch src saw octets octs cur)
  show ?case
  proof (cases "digit_value ch")
    case (Some d)
    note d = digit_value_char [OF Some]
    show ?thesis
    proof (cases saw)
      case True
      then have "cur \<noteq> 0" "cur * 10 + d \<le> 255" "pton4_loop src saw octets octs (cur * 10 + d) = Done (Inr x)"
        using "2.prems"(1) Some by (auto simp: Let_def split: if_splits)
      then show ?thesis using "2.IH"(3) [OF Some refl] "2.prems"(2-5) True d decimal_extend [of cur d] by auto
    next
      case False
      then have "pton4_loop src True (octets + 1) octs d = Done (Inr x)"
        using "2.prems"(1,4) Some by (auto simp: Let_def split: if_splits)
      moreover have "decimal d = [ch]" using d by (subst decimal.simps) auto
      ultimately show ?thesis using "2.IH"(2) [OF Some refl] "2.prems"(2-5) False d by auto
    qed
  next
    case None
    then have "ch = DOT" "saw" "octets \<noteq> 4" "length octs + 1 < 4" "pton4_loop src False octets (octs @ [cur]) 0 = Done (Inr x)"
      using "2.prems"(1) by (auto split: if_splits)
    then show ?thesis using "2.IH"(1) [OF None] "2.prems"(2-6) by (auto simp: octets_text_def)
  qed
qed

lemma dotted_octets:
  assumes "length ns = 3" and "\<forall>m\<in>set (ns @ [n]). m \<le> 255"
  shows "dotted (map of_nat (ns @ [n])) = octets_text ns @ decimal n"
proof -
  have "unat (of_nat m :: byte) = m" if "m \<in> set (ns @ [n])" for m using that assms(2) by (intro unat_of_nat_lt) auto
  moreover obtain a b c where "ns = [a, b, c]" using assms(1) by (auto simp: numeral_eq_Suc length_Suc_conv)
  ultimately show ?thesis by (simp add: dotted_def octets_text_def numeral_eq_Suc)
qed

lemma pton4_exact:
  "inet_pton4 src = Done (Inr x) \<longleftrightarrow> length x = 4 \<and> src = dotted x"
proof
  assume "inet_pton4 src = Done (Inr x)"
  then have "pton4_loop src False 0 [] 0 = Done (Inr x)" by (simp add: inet_pton4_def)
  from pton4_loop_exact [OF this] obtain ns n where "x = map of_nat (ns @ [n])" "length ns = 3"
    "\<forall>m\<in>set (ns @ [n]). m \<le> 255" "src = octets_text ns @ decimal n" by (auto simp: octets_text_def)
  then show "length x = 4 \<and> src = dotted x" using dotted_octets [of ns n] by simp
qed (use pton4_dotted in auto)

lemma pton4_total:
  assumes "length octs \<le> 3" and "octets = length octs + (if saw then 1 else 0)"
  shows "\<exists>r. pton4_loop src saw octets octs cur = Done r"
  using assms
proof (induction src saw octets octs cur rule: pton4_loop.induct)
  case (1 saw octets octs cur)
  then show ?case by (auto simp: mem_read_def)
next
  case (2 ch src saw octets octs cur)
  show ?case
  proof (cases "digit_value ch")
    case (Some d)
    then show ?thesis using 2 by (auto simp: Let_def)
  next
    case None
    then show ?thesis using 2 by auto
  qed
qed

subsection \<open>The words of an IPv6 address\<close>

definition word_value :: "byte \<Rightarrow> byte \<Rightarrow> nat" where
  "word_value a b = 256 * unat a + unat b"

lemma word_value_less: "word_value a b < 65536"
  using byte_le_255 [of a] byte_le_255 [of b] by (simp add: word_value_def)

lemma word_bytes_value: "word_bytes (word_value a b) = [a, b]"
proof -
  have "(256 * unat a + unat b) div 256 = unat a" "(256 * unat a + unat b) mod 256 = unat b" "unat a mod 256 = unat a"
    using byte_le_255 [of a] byte_le_255 [of b] by (auto simp: div_mult_self2)
  then show ?thesis by (simp add: word_bytes_def word_value_def)
qed

lemma word_or_value: "push_bit 8 (ucast a) OR ucast b = (of_nat (word_value a b) :: u32)"
proof -
  have "push_bit 8 (ucast a :: u32) AND ucast b = 0"
    by (rule bit_eqI) (auto simp: bit_and_iff bit_push_bit_iff bit_ucast_iff dest: bit_imp_le_length)
  then have "push_bit 8 (ucast a :: u32) OR ucast b = push_bit 8 (ucast a) + ucast b"
    by (simp add: disjunctive_add_eq_or)
  also have "\<dots> = of_nat (word_value a b)"
    by (simp add: word_value_def push_bit_eq_mult)
  finally show ?thesis .
qed

lemma sixteen_bytes:
  assumes "length src = 16"
  obtains a0 a1 a2 a3 a4 a5 a6 a7 a8 a9 a10 a11 a12 a13 a14 a15
    where "src = [a0, a1, a2, a3, a4, a5, a6, a7, a8, a9, a10, a11, a12, a13, a14, a15]"
  using assms by (auto simp: numeral_eq_Suc length_Suc_conv)

definition src_word :: "byte list \<Rightarrow> nat \<Rightarrow> nat" where
  "src_word src i = word_value (src ! (2 * i)) (src ! (2 * i + 1))"

lemma list_update_numeral [simp]: "(x # xs)[numeral n := y] = x # xs[pred_numeral n := y]"
  by (simp add: numeral_eq_Suc)

lemma ntop6_words_eq:
  assumes "length src = 16"
  shows "ntop6_words src = map (\<lambda>i. of_nat (src_word src i)) [0..<8]"
proof -
  obtain a0 a1 a2 a3 a4 a5 a6 a7 a8 a9 a10 a11 a12 a13 a14 a15
    where src: "src = [a0, a1, a2, a3, a4, a5, a6, a7, a8, a9, a10, a11, a12, a13, a14, a15]"
    using sixteen_bytes [OF assms] .
  have ws: "replicate 8 (0 :: u32) = [0, 0, 0, 0, 0, 0, 0, 0]" by (simp add: numeral_eq_Suc)
  have ix: "[0..<16] = [0, 1, 2, 3, 4, 5, 6, 7, 8, 9, 10, 11, 12, 13, 14, 15 :: nat]" "[0..<8] = [0, 1, 2, 3, 4, 5, 6, 7 :: nat]"
    by (simp_all add: upt_rec)
  show ?thesis unfolding src ntop6_words_def ws ix
    by (simp add: src_word_def word_or_value del: of_nat_add)
qed

lemma ntop6_words_nth:
  assumes "length src = 16" and "i < 8"
  shows "unat (ntop6_words src ! i) = src_word src i"
proof -
  have "src_word src i < 2 ^ 32" using word_value_less [of "src ! (2 * i)" "src ! (2 * i + 1)"] by (simp add: src_word_def)
  then show ?thesis using assms by (simp add: ntop6_words_eq unat_of_nat_lt)
qed

lemma src_words: "length src = 16 \<Longrightarrow> src = concat (map (\<lambda>i. word_bytes (src_word src i)) [0..<8])"
  by (elim sixteen_bytes) (simp add: src_word_def word_bytes_value upt_conv_Cons numeral_eq_Suc)

text \<open>The run that is abbreviated consists of zeros.\<close>

definition zero_run :: "u32 list \<Rightarrow> (nat \<times> nat) option \<Rightarrow> bool" where
  "zero_run ws r = (case r of None \<Rightarrow> True | Some (b, l) \<Rightarrow> b + l \<le> length ws \<and> (\<forall>i. b \<le> i \<and> i < b + l \<longrightarrow> ws ! i = 0))"

lemma find_run_zero:
  assumes "ws = xs @ ys" and "i = length xs" and "zero_run ws best"
    and "case cur of None \<Rightarrow> True | Some (b, l) \<Rightarrow> b + l = i \<and> (\<forall>j. b \<le> j \<and> j < b + l \<longrightarrow> ws ! j = 0)"
  shows "zero_run ws (find_run ys i best cur)"
  using assms
proof (induction ys arbitrary: xs i best cur)
  case Nil
  then show ?case by (auto simp: zero_run_def longer_run_def split: option.splits if_splits)
next
  case (Cons w ys)
  have ws: "ws = (xs @ [w]) @ ys" "i + 1 = length (xs @ [w])" and w: "ws ! i = w" using Cons.prems(1,2) by simp_all
  show ?case
  proof (cases "w = 0")
    case True
    let ?cur = "case cur of None \<Rightarrow> Some (i, 1) | Some (b, l) \<Rightarrow> Some (b, l + 1)"
    have "case ?cur of None \<Rightarrow> True | Some (b, l) \<Rightarrow> b + l = i + 1 \<and> (\<forall>j. b \<le> j \<and> j < b + l \<longrightarrow> ws ! j = 0)"
      using Cons.prems(4) w True by (auto simp: less_Suc_eq split: option.splits)
    then show ?thesis using Cons.IH [OF ws Cons.prems(3)] True by simp
  next
    case False
    have "zero_run ws (longer_run best cur)"
      using Cons.prems by (auto simp: zero_run_def longer_run_def split: option.splits)
    then show ?thesis using Cons.IH [OF ws, of _ None] False by simp
  qed
qed

lemma best_run_zero:
  assumes "best_run ws = Some (b, l)"
  shows "2 \<le> l" "b + l \<le> length ws" "\<And>i. b \<le> i \<Longrightarrow> i < b + l \<Longrightarrow> ws ! i = 0"
proof -
  have "zero_run ws (find_run ws 0 None None)" by (rule find_run_zero [of _ "[]"]) (auto simp: zero_run_def)
  then show "2 \<le> l" "b + l \<le> length ws" "\<And>i. b \<le> i \<Longrightarrow> i < b + l \<Longrightarrow> ws ! i = 0"
    using assms by (auto simp: best_run_def zero_run_def split: option.splits if_splits prod.splits)
qed

subsection \<open>The printed form of an IPv6 address\<close>

definition word_text :: "byte list \<Rightarrow> nat \<Rightarrow> byte list" where
  "word_text src i = (if i \<noteq> 0 then [COL] else []) @ hex_text (src_word src i)"

definition slot_text :: "byte list \<Rightarrow> (nat \<times> nat) option \<Rightarrow> nat \<Rightarrow> byte list" where
  "slot_text src best i =
     (if in_run best i then (if map_option fst best = Some i then [COL] else []) else word_text src i)"

lemma word_hex_length: "length (hex_text (src_word src i)) \<le> 4"
  using word_value_less [of "src ! (2 * i)" "src ! (2 * i + 1)"] by (intro hex_text_length) (auto simp: src_word_def)

lemma slot_text_length: "length (slot_text src best i) \<le> 5"
  using word_hex_length [of src i] by (auto simp: slot_text_def word_text_def)

lemma ntop6_loop_step:
  assumes "length src = 16" and "i < 8" and "length tmp \<le> 5 * i" and "\<not> encapsulated4 (ntop6_words src) best i \<or> in_run best i"
  shows "ntop6_loop src (ntop6_words src) best (i # is) tmp = ntop6_loop src (ntop6_words src) best is (tmp @ slot_text src best i)"
  using assms word_hex_length [of src i]
  by (auto simp: slot_text_def word_text_def put_tmp_def ntop6_words_nth)

lemma ntop6_loop_text:
  assumes "length src = 16" and "\<And>i. n \<le> i \<Longrightarrow> i < m \<Longrightarrow> \<not> encapsulated4 (ntop6_words src) best i \<or> in_run best i"
    and "n \<le> m" "m \<le> 8" "length tmp \<le> 5 * n"
  shows "ntop6_loop src (ntop6_words src) best ([n..<m] @ is) tmp =
    ntop6_loop src (ntop6_words src) best is (tmp @ concat (map (slot_text src best) [n..<m]))"
  using assms(2-5)
proof (induction "m - n" arbitrary: n tmp)
  case (Suc k)
  have n: "[n..<m] = n # [n + 1..<m]" using Suc.hyps(2) by (simp add: upt_conv_Cons)
  have "length (tmp @ slot_text src best n) \<le> 5 * (n + 1)" using Suc.prems(4) slot_text_length [of src best n] by simp
  then have "ntop6_loop src (ntop6_words src) best ([n + 1..<m] @ is) (tmp @ slot_text src best n) =
      ntop6_loop src (ntop6_words src) best is ((tmp @ slot_text src best n) @ concat (map (slot_text src best) [n + 1..<m]))"
    using Suc.hyps(2) Suc.prems by (intro Suc.hyps(1)) auto
  moreover have "ntop6_loop src (ntop6_words src) best (n # [n + 1..<m] @ is) tmp =
      ntop6_loop src (ntop6_words src) best ([n + 1..<m] @ is) (tmp @ slot_text src best n)"
    using Suc.hyps(2) Suc.prems by (intro ntop6_loop_step assms(1)) auto
  ultimately show ?case using n by simp
qed simp

lemma slots_length: "length (concat (map (slot_text src best) [n..<m])) \<le> 5 * (m - n)"
proof (induction m)
  case (Suc m)
  then show ?case using slot_text_length [of src best m] by (cases "n \<le> m") auto
qed simp

lemma dotted_length: "length (dotted src) \<le> 15"
proof -
  have "length (decimal (unat (c :: byte))) \<le> 3" for c using byte_le_255 [of c] by (intro decimal_length) auto
  from this [of "src ! 0"] this [of "src ! 1"] this [of "src ! 2"] this [of "src ! 3"]
  show ?thesis by (simp add: dotted_def)
qed

lemma dotted_no_zero: "0 \<notin> set (dotted src)"
proof
  assume "0 \<in> set (dotted src)"
  then obtain n where "0 \<in> set (decimal n)" by (auto simp: dotted_def)
  then obtain d where "d < 10" "(0 :: byte) = of_nat (48 + d)" using decimal_chars by blast
  moreover from this have "unat (of_nat (48 + d) :: byte) = 48 + d" by (intro unat_of_nat_lt) simp
  ultimately show False by (metis add_is_0 unsigned_0 zero_neq_numeral)
qed

lemma ntop4_text:
  assumes "length (dotted src) < cap" and "cap \<le> length dst"
  shows "inet_ntop4 src dst cap = Done (None, dotted src @ [0] @ drop (length (dotted src) + 1) dst)"
proof -
  have "0 < length (dotted src)" by (simp add: dotted_def)
  moreover have "take 15 (dotted src) = dotted src" using dotted_length [of src] by simp
  ultimately show ?thesis using assms strscpy_fits [OF dotted_no_zero assms]
    by (simp add: inet_ntop4_def Let_def)
qed

text \<open>The whole text, the form with an embedded IPv4 address included.\<close>

definition inet6_text :: "byte list \<Rightarrow> byte list" where
  "inet6_text src =
     (let best = best_run (ntop6_words src)
      in if encapsulated4 (ntop6_words src) best 6 \<and> \<not> in_run best 6
         then concat (map (slot_text src best) [0..<6]) @ [COL] @ dotted (drop 12 src)
         else concat (map (slot_text src best) [0..<8]) @
           (case best of Some (b, l) \<Rightarrow> if b + l = 8 then [COL] else [] | None \<Rightarrow> []))"

lemma encapsulated_slots:
  assumes "encapsulated4 ws best 6" and "\<not> in_run best 6"
  obtains l where "best = Some (0, l)" and "l = 5 \<and> ws ! 5 = 0xffff \<or> l = 6"
    and "concat (map (slot_text src best) [0..<6]) = [COL] @ (if l = 5 then word_text src 5 else [])"
proof -
  have ix: "[0..<6] = [0, 1, 2, 3, 4, 5 :: nat]" by (simp add: upt_rec)
  obtain l where l: "best = Some (0, l)" "l = 5 \<and> ws ! 5 = 0xffff \<or> l = 6"
    using assms by (auto simp: encapsulated4_def in_run_def split: option.splits)
  then show ?thesis by (intro that [of l]) (auto simp: ix slot_text_def in_run_def)
qed

lemma inet6_text_length: "length (inet6_text src) \<le> 46 - 1"
proof (cases "encapsulated4 (ntop6_words src) (best_run (ntop6_words src)) 6 \<and> \<not> in_run (best_run (ntop6_words src)) 6")
  case True
  then show ?thesis using dotted_length [of "drop 12 src"] word_hex_length [of src 5]
    by (auto simp: inet6_text_def Let_def word_text_def elim!: encapsulated_slots [of _ _ src])
next
  case False
  then show ?thesis using slots_length [of src "best_run (ntop6_words src)" 0 8]
    by (auto simp: inet6_text_def Let_def split: option.splits)
qed

lemma inet6_text_no_zero: "0 \<notin> set (inet6_text src)"
proof
  assume a: "0 \<in> set (inet6_text src)"
  have "0 \<notin> set (hex_text n)" for n
  proof
    assume "0 \<in> set (hex_text n)"
    then obtain d where "d < 16" "(0 :: byte) = (if d < 10 then of_nat (48 + d) else of_nat (87 + d))"
      using hex_text_chars by blast
    then have "xdigit_value 0 = Some d" using hex_char_value [of d] by simp
    then show False by (simp add: xdigit_value_def)
  qed
  then have "0 \<notin> set (slot_text src best i)" for best i by (simp add: slot_text_def word_text_def)
  then show False using a dotted_no_zero [of "drop 12 src"]
    by (auto simp: inet6_text_def Let_def split: if_splits option.splits)
qed

lemma ntop6_text:
  assumes "length src = 16" and "length (inet6_text src) < cap" and "cap \<le> length dst"
  shows "inet_ntop6 src dst cap = Done (None, inet6_text src @ [0] @ drop (length (inet6_text src) + 1) dst)"
proof -
  let ?ws = "ntop6_words src"
  let ?best = "best_run ?ws"
  have copy: "uv__strscpy dst (inet6_text src) cap = Done (inet6_text src @ [0] @ drop (length (inet6_text src) + 1) dst,
      Some (length (inet6_text src)))"
    by (rule strscpy_fits [OF inet6_text_no_zero assms(2,3)])
  have other: "\<not> encapsulated4 ?ws ?best i" if "i \<noteq> 6" for i using that by (simp add: encapsulated4_def)
  have len: "length (inet6_text src) \<le> 45" using inet6_text_length [of src] by simp
  show ?thesis
  proof (cases "encapsulated4 ?ws ?best 6 \<and> \<not> in_run ?best 6")
    case True
    then obtain l where l: "?best = Some (0, l)" "l = 5 \<or> l = 6" by (auto elim: encapsulated_slots)
    let ?t = "concat (map (slot_text src ?best) [0..<6])"
    have t: "inet6_text src = (?t @ [COL]) @ dotted (drop 12 src)" using True by (auto simp: inet6_text_def Let_def)
    have ix: "[0..<8] = [0..<6] @ [6, 7]" by (simp add: upt_rec)
    have "ntop6_loop src ?ws ?best [0..<8] [] = ntop6_loop src ?ws ?best [6, 7] ?t"
      unfolding ix using ntop6_loop_text [OF assms(1), of 0 6 ?best "[]" "[6, 7]"] other by auto
    also have "\<dots> = Done (Inr (inet6_text src))"
    proof -
      have put: "put_tmp ?t [COL] = Done (?t @ [COL])" using len t by (simp add: put_tmp_def)
      have cap: "length (dotted (drop 12 src)) < 46 - length (?t @ [COL])" using len t by simp
      have "takeWhile (\<lambda>c. c \<noteq> 0) (dotted (drop 12 src) @ [0] @ ys) = dotted (drop 12 src)" for ys
        using dotted_no_zero [of "drop 12 src"] by (subst takeWhile_append2) auto
      then show ?thesis using True put ntop4_text [OF cap] t by simp
    qed
    finally show ?thesis using l len copy assms(2) by (auto simp: inet_ntop6_def Let_def)
  next
    case False
    let ?t = "concat (map (slot_text src ?best) [0..<8])"
    have "\<not> encapsulated4 ?ws ?best i \<or> in_run ?best i" for i using other False by metis
    then have "ntop6_loop src ?ws ?best [0..<8] [] = Done (Inr ?t)"
      using ntop6_loop_text [OF assms(1), of 0 8 ?best "[]" "[]"] by simp
    moreover have "inet6_text src = ?t @ (case ?best of Some (b, l) \<Rightarrow> if b + l = 8 then [COL] else [] | None \<Rightarrow> [])"
      using False by (auto simp: inet6_text_def Let_def)
    ultimately show ?thesis using len copy assms(2)
      by (auto simp: inet_ntop6_def Let_def put_tmp_def split: option.splits if_splits)
  qed
qed

subsection \<open>Parsing an IPv6 address\<close>

lemma pton6_hex:
  "length (hex_text n) \<le> 4 \<Longrightarrow>
   pton6_loop (hex_text n @ rest) out cp 0 0 ct = pton6_loop rest out cp n (length (hex_text n)) ct"
proof (induction n arbitrary: rest rule: hex_text.induct)
  case (1 n)
  show ?case
  proof (cases "n < 16")
    case True
    then show ?thesis using hex_char_value [of n] by (simp add: hex_text.simps [of n])
  next
    case False
    then show ?thesis
      using "1.IH" [OF False, of "(if n mod 16 < 10 then of_nat (48 + n mod 16) else of_nat (87 + n mod 16)) # rest"]
        "1.prems" hex_char_value [of "n mod 16"]
      by (simp add: hex_text.simps [of n] split: if_splits)
  qed
qed

lemma pton6_decimal:
  "s + length (decimal n) \<le> 4 \<Longrightarrow>
   \<exists>v'. pton6_loop (decimal n @ rest) out cp v s ct = pton6_loop rest out cp v' (s + length (decimal n)) ct"
proof (induction n arbitrary: rest rule: decimal.induct)
  case (1 n)
  show ?case
  proof (cases "n < 10")
    case True
    then show ?thesis using "1.prems" digit_is_xdigit [OF digit_char [of n]] by (auto simp: decimal.simps [of n])
  next
    case False
    then obtain v' where "pton6_loop (decimal (n div 10) @ of_nat (48 + n mod 10) # rest) out cp v s ct =
        pton6_loop (of_nat (48 + n mod 10) # rest) out cp v' (s + length (decimal (n div 10))) ct"
      using "1.IH" [OF False, of "of_nat (48 + n mod 10) # rest"] "1.prems" by (auto simp: decimal.simps [of n])
    then show ?thesis using False "1.prems" digit_is_xdigit [OF digit_char [of "n mod 10"]]
      by (auto simp: decimal.simps [of n])
  qed
qed

lemma pton6_dotted:
  assumes "length d = 4" and "length out \<le> 12"
  shows "\<exists>v. pton6_loop (dotted d) out cp 0 0 (dotted d) = Done (Inr (out @ d, cp, v, 0))"
proof -
  have "length (decimal (unat (d ! 0))) \<le> 3" using byte_le_255 [of "d ! 0"] by (intro decimal_length) auto
  moreover have "dotted d = decimal (unat (d ! 0)) @ DOT # decimal (unat (d ! 1)) @ [DOT] @ decimal (unat (d ! 2)) @ [DOT] @
      decimal (unat (d ! 3))" (is "_ = _ @ DOT # ?rest") by (simp add: dotted_def)
  ultimately obtain v where "pton6_loop (dotted d) out cp 0 0 (dotted d) =
      pton6_loop (DOT # ?rest) out cp v (length (decimal (unat (d ! 0)))) (dotted d)"
    using pton6_decimal [of 0 "unat (d ! 0)" "DOT # ?rest" out cp 0 "dotted d"] by auto
  then show ?thesis using assms pton4_dotted [OF assms(1)] by simp
qed

text \<open>Words behind a first one, each with its colon.\<close>

definition more_words :: "nat list \<Rightarrow> byte list" where
  "more_words ns = concat (map (\<lambda>n. COL # hex_text n) ns)"

lemma pton6_more:
  assumes "0 < k" and "\<forall>n\<in>set ns. length (hex_text n) \<le> 4" and "length out + 2 * length ns \<le> 16"
  shows "\<exists>k' ct'. 0 < k' \<and> pton6_loop (more_words ns @ rest) out cp v k ct =
    pton6_loop rest (out @ concat (map word_bytes (butlast (v # ns)))) cp (last (v # ns)) k' ct'"
  using assms
proof (induction ns arbitrary: v k out ct)
  case Nil
  then show ?case by (auto simp: more_words_def)
next
  case (Cons n ns)
  have b: "length (word_bytes v) = 2" by (simp add: word_bytes_def)
  have ne: "hex_text n @ more_words ns @ rest \<noteq> []" by simp
  have "pton6_loop (more_words (n # ns) @ rest) out cp v k ct =
      pton6_loop (more_words ns @ rest) (out @ word_bytes v) cp n (length (hex_text n)) (hex_text n @ more_words ns @ rest)"
    using Cons.prems pton6_hex [of n] ne by (simp add: more_words_def)
  moreover obtain k' ct' where "0 < k'" "pton6_loop (more_words ns @ rest) (out @ word_bytes v) cp n (length (hex_text n))
      (hex_text n @ more_words ns @ rest) =
      pton6_loop rest ((out @ word_bytes v) @ concat (map word_bytes (butlast (n # ns)))) cp (last (n # ns)) k' ct'"
    using Cons.IH [of "length (hex_text n)" "out @ word_bytes v" n "hex_text n @ more_words ns @ rest"] Cons.prems b
    by (simp only: set_simps list.size length_append) (auto simp del: butlast.simps last.simps)
  ultimately show ?case by (intro exI [of _ k'] exI [of _ ct']) simp
qed

lemma shift_loop_eq:
  assumes "c + n = length out" and "length out < 16" and "k \<le> n"
  shows "shift_loop k c n (take (c + k) out @ replicate (16 - length out) 0 @ drop (c + k) out) =
    take c out @ replicate (16 - length out) 0 @ drop c out"
  using assms(3)
proof (induction k)
  case (Suc k)
  let ?z = "16 - length out"
  let ?t = "take (c + Suc k) out @ replicate ?z 0 @ drop (c + Suc k) out"
  have z: "replicate ?z (0 :: byte) = replicate (?z - 1) 0 @ [0]" "replicate ?z (0 :: byte) = 0 # replicate (?z - 1) 0"
    using assms(2) by (metis Suc_diff_1 replicate_Suc replicate_append_same zero_less_diff)+
  let ?x = "out ! (c + k)"
  let ?l = "(take (c + k) out @ [?x] @ replicate (?z - 1) 0)"
  have "take (c + Suc k) out = take (c + k) out @ [?x]"
    using Suc.prems assms by (simp add: take_Suc_conv_app_nth)
  then have t: "?t = ?l @ 0 # drop (c + Suc k) out" using z(1) by simp
  have pos: "16 - (n - k) = length ?l" and ix: "c + (n - (n - k)) = c + k" "c + k = length (take (c + k) out)"
    using Suc.prems assms by auto
  have "?t ! (c + k) = ?x" unfolding t using ix(2) by (simp add: nth_append)
  moreover have "?t[16 - (n - k) := ?x] = ?l @ ?x # drop (c + Suc k) out" unfolding t pos by (rule list_update_length)
  moreover have "(?l @ ?x # drop (c + Suc k) out)[c + k := 0] = take (c + k) out @ 0 # replicate (?z - 1) 0 @ ?x # drop (c + Suc k) out"
    using list_update_length [of "take (c + k) out" ?x "replicate (?z - 1) 0 @ ?x # drop (c + Suc k) out" 0] ix(2) by simp
  moreover have "?x # drop (c + Suc k) out = drop (c + k) out"
    using Suc.prems assms by (simp add: Cons_nth_drop_Suc)
  ultimately show ?case using Suc.IH Suc.prems ix(1) z(2) by (simp add: Let_def)
qed simp

subsection \<open>Round trip\<close>

abbreviation src_bytes :: "byte list \<Rightarrow> nat \<Rightarrow> nat \<Rightarrow> byte list" where
  "src_bytes src j m \<equiv> concat (map (\<lambda>i. word_bytes (src_word src i)) [j..<m])"

lemma src_bytes_length [simp]: "length (src_bytes src j m) = 2 * (m - j)"
  by (induction m) (auto simp: word_bytes_def Suc_diff_le)

lemma word_bytes_length [simp]: "length (word_bytes v) = 2"
  by (simp add: word_bytes_def)

lemma finish_gap:
  assumes "c \<le> length out" and "length out < 16"
  shows "pton6_finish out (Some c) v 0 = Inr (take c out @ replicate (16 - length out) 0 @ drop c out)"
  using assms shift_loop_eq [of c "length out - c" out "length out - c"] by (simp add: pton6_finish_def Let_def)

lemma finish_word: "length out + 2 \<le> 16 \<Longrightarrow> 0 < k \<Longrightarrow> pton6_finish out cp v k = pton6_finish (out @ word_bytes v) cp 0 0"
  by (simp add: pton6_finish_def Let_def)

definition finish_run :: "(cat_errno + byte list \<times> nat option \<times> nat \<times> nat) c_run \<Rightarrow> (cat_errno + byte list) c_run" where
  "finish_run m = c_bind m (\<lambda>r. case r of Inl e \<Rightarrow> Done (Inl e)
     | Inr (out, colonp, val, seen) \<Rightarrow> Done (pton6_finish out colonp val seen))"

lemma inet_pton6_run:
  "inet_pton6 (COL # COL # t) = finish_run (pton6_loop t [] (Some 0) 0 0 t)"
  "c \<noteq> COL \<Longrightarrow> inet_pton6 (c # t) = finish_run (pton6_loop (c # t) [] None 0 0 (c # t))"
  by (simp_all add: inet_pton6_def finish_run_def)

lemma hex_text_first: "hd (hex_text n) \<noteq> COL"
proof
  assume "hd (hex_text n) = COL"
  then have "COL \<in> set (hex_text n)" by (metis hd_in_set hex_text_nonempty)
  then obtain d where "d < 16" "COL = (if d < 10 then of_nat (48 + d) else of_nat (87 + d) :: byte)"
    using hex_text_chars by blast
  then show False using hex_char_value [of d] by simp
qed

lemma pton6_words_from:
  assumes "j < m" and "m \<le> 8" and "length out + 2 * (m - j) \<le> 16"
  shows "\<exists>k ct'. 0 < k \<and> pton6_loop (hex_text (src_word src j) @ more_words (map (src_word src) [j + 1..<m]) @ rest) out cp 0 0 ct =
    pton6_loop rest (out @ src_bytes src j (m - 1)) cp (src_word src (m - 1)) k ct'"
proof -
  let ?ns = "map (src_word src) [j + 1..<m]"
  have "j # [j + 1..<m] = [j..<m - 1] @ [m - 1]" using assms(1) by (metis Suc_eq_plus1 Suc_pred' upt_Suc_append upt_conv_Cons
      less_Suc_eq_le less_imp_Suc_add zero_less_Suc)
  then have all: "src_word src j # ?ns = map (src_word src) [j..<m - 1] @ [src_word src (m - 1)]"
    by (metis list.simps(9) map_append list.simps(8))
  have "\<exists>k ct'. 0 < k \<and> pton6_loop (more_words ?ns @ rest) out cp (src_word src j) (length (hex_text (src_word src j))) ct =
      pton6_loop rest (out @ concat (map word_bytes (butlast (src_word src j # ?ns)))) cp (last (src_word src j # ?ns)) k ct'"
    using assms word_hex_length by (intro pton6_more) auto
  then show ?thesis using pton6_hex [OF word_hex_length [of src j]] unfolding all by (simp add: comp_def)
qed

lemma finish_words_from:
  assumes "j < m" and "m \<le> 8" and "length out + 2 * (m - j) \<le> 16"
  shows "finish_run (pton6_loop (hex_text (src_word src j) @ more_words (map (src_word src) [j + 1..<m])) out cp 0 0 ct) =
    Done (pton6_finish (out @ src_bytes src j m) cp 0 0)"
proof -
  obtain k ct' where "0 < k" "pton6_loop (hex_text (src_word src j) @ more_words (map (src_word src) [j + 1..<m])) out cp 0 0 ct =
      pton6_loop [] (out @ src_bytes src j (m - 1)) cp (src_word src (m - 1)) k ct'"
    using pton6_words_from [OF assms, of src "[]" cp ct] by auto
  moreover have "src_bytes src j m = src_bytes src j (m - 1) @ word_bytes (src_word src (m - 1))"
    using assms(1) by (cases m) auto
  ultimately show ?thesis using assms finish_word [of "out @ src_bytes src j (m - 1)" k cp "src_word src (m - 1)"]
    by (auto simp: finish_run_def)
qed

text \<open>Before the double colon there are \<open>b\<close> words.\<close>

definition head_text :: "byte list \<Rightarrow> nat \<Rightarrow> byte list" where
  "head_text src b = (if b = 0 then [] else hex_text (src_word src 0) @ more_words (map (src_word src) [1..<b]))"

lemma pton6_head:
  assumes "b \<le> 8"
  shows "inet_pton6 (head_text src b @ COL # COL # t) = finish_run (pton6_loop t (src_bytes src 0 b) (Some (2 * b)) 0 0 t)"
proof (cases "b = 0")
  case True
  then show ?thesis by (simp add: head_text_def inet_pton6_run(1))
next
  case False
  let ?t = "head_text src b @ COL # COL # t"
  obtain c t' where c: "?t = c # t'" "c \<noteq> COL"
    using False hex_text_first [of "src_word src 0"] by (cases "hex_text (src_word src 0)") (auto simp: head_text_def)
  obtain k ct' where "0 < k" "pton6_loop ?t [] None 0 0 ?t =
      pton6_loop (COL # COL # t) (src_bytes src 0 (b - 1)) None (src_word src (b - 1)) k ct'"
    using pton6_words_from [of 0 b "[]" src "COL # COL # t" None ?t] False assms by (auto simp: head_text_def)
  moreover have "src_bytes src 0 (b - 1) @ word_bytes (src_word src (b - 1)) = src_bytes src 0 b"
    using False by (cases b) auto
  moreover have "length (src_bytes src 0 b) = 2 * b" "\<not> 7 < b - Suc 0" "Suc (Suc (2 * (b - Suc 0))) = 2 * b"
    using assms False by simp_all
  ultimately have "pton6_loop ?t [] None 0 0 ?t = pton6_loop t (src_bytes src 0 b) (Some (2 * b)) 0 0 t"
    using False assms by simp
  then show ?thesis using c inet_pton6_run(2) by metis
qed

lemma words_text: "0 < j \<Longrightarrow> concat (map (word_text src) [j..<m]) = more_words (map (src_word src) [j..<m])"
  unfolding more_words_def map_map comp_def
  by (intro arg_cong [where f = concat] map_cong) (auto simp: word_text_def)

lemma head_words: "concat (map (word_text src) [0..<b]) = head_text src b"
proof (cases b)
  case (Suc k)
  then have "[0..<b] = 0 # [1..<b]" by (simp add: upt_conv_Cons)
  then show ?thesis using Suc words_text [of 1 src b] by (simp add: head_text_def word_text_def)
qed (simp add: head_text_def)

lemma upt_split: "j \<le> k \<Longrightarrow> k \<le> m \<Longrightarrow> [j..<m] = [j..<k] @ [k..<m]"
  using upt_add_eq_append [of j k "m - k"] by simp

lemma run_slots:
  assumes "best = Some (b, l)" and "0 < l" and "b + l \<le> 8"
  shows "concat (map (slot_text src best) [0..<8]) = head_text src b @ COL # more_words (map (src_word src) [b + l..<8])"
proof -
  have ix: "[0..<8] = [0..<b] @ b # [b + 1..<b + l] @ [b + l..<8]"
    using assms(2,3) upt_split [of 0 b 8] upt_split [of b "b + l" 8] upt_conv_Cons [of b "b + l"] by simp
  have out: "map (slot_text src best) [0..<b] = map (word_text src) [0..<b]"
    "map (slot_text src best) [b + l..<8] = map (word_text src) [b + l..<8]"
    using assms by (auto simp: slot_text_def in_run_def intro!: map_cong)
  have inner: "concat (map (slot_text src best) [b + 1..<b + l]) = []" "slot_text src best b = [COL]"
    using assms by (auto simp: slot_text_def in_run_def)
  show ?thesis unfolding ix using out inner head_words [of src b] words_text [of "b + l" src 8] assms(2)
    by (simp del: map_eq_conv concat_eq_Nil_conv)
qed

lemma src_split: "length src = 16 \<Longrightarrow> src_bytes src 0 8 = src"
  using src_words by metis

lemma zero_bytes:
  assumes "\<And>i. j \<le> i \<Longrightarrow> i < m \<Longrightarrow> src_word src i = 0"
  shows "src_bytes src j m = replicate (2 * (m - j)) 0"
  using assms
proof (induction m)
  case (Suc m)
  show ?case
  proof (cases "j \<le> m")
    case True
    then have "src_word src m = 0" using Suc.prems by simp
    then have "word_bytes (src_word src m) = replicate 2 0" by (simp add: word_bytes_def numeral_2_eq_2)
    then show ?thesis using True Suc.IH Suc.prems by (simp add: Suc_diff_le replicate_add [symmetric])
  qed simp
qed simp

lemma src_bytes_append: "j \<le> k \<Longrightarrow> k \<le> m \<Longrightarrow> src_bytes src j k @ src_bytes src k m = src_bytes src j m"
  using upt_split [of j k m] by simp

text \<open>The bytes around a run of zeros, put back.\<close>

lemma gap_filled:
  assumes "length src = 16" and "b + l \<le> 8" and "0 < l" and "\<And>i. b \<le> i \<Longrightarrow> i < b + l \<Longrightarrow> src_word src i = 0"
  shows "pton6_finish (src_bytes src 0 b @ src_bytes src (b + l) 8) (Some (2 * b)) v 0 = Inr src"
proof -
  have "replicate (2 * l) 0 = src_bytes src b (b + l)" using zero_bytes [of b "b + l" src] assms(4) by simp
  then have "src_bytes src 0 b @ replicate (2 * l) 0 @ src_bytes src (b + l) 8 = src"
    using src_bytes_append [of b "b + l" 8 src] src_bytes_append [of 0 b 8 src] src_split [OF assms(1)] assms(2) by simp
  moreover have "16 - length (src_bytes src 0 b @ src_bytes src (b + l) 8) = 2 * l" using assms(2) by simp
  ultimately show ?thesis using assms(2,3)
    by (subst finish_gap) auto
qed

lemma embedded_bytes:
  assumes "length src = 16"
  shows "drop 12 src = src_bytes src 6 8"
proof -
  have "drop 12 src = drop 12 (src_bytes src 0 6 @ src_bytes src 6 8)"
    using src_bytes_append [of 0 6 8 src] src_split [OF assms] by simp
  then show ?thesis by simp
qed

lemma embedded_text:
  assumes "length src = 16" and "encapsulated4 (ntop6_words src) best 6" and "\<not> in_run best 6"
  obtains l where "best = Some (0, l)" "l = 5 \<or> l = 6"
    "concat (map (slot_text src best) [0..<6]) = COL # more_words (map (src_word src) [l..<6])"
proof -
  obtain l where l: "best = Some (0, l)" "l = 5 \<or> l = 6"
    using assms(2,3) by (auto simp: encapsulated4_def in_run_def split: option.splits)
  moreover have "[0..<6] = 0 # [1..<l] @ [l..<6]"
    using l(2) upt_split [of 0 l 6] upt_conv_Cons [of 0 l] by auto
  moreover have "map (slot_text src best) [l..<6] = map (word_text src) [l..<6]"
    "concat (map (slot_text src best) [1..<l]) = []" "slot_text src best 0 = [COL]"
    using l by (auto simp: slot_text_def in_run_def intro!: map_cong)
  ultimately have "concat (map (slot_text src best) [0..<6]) = COL # more_words (map (src_word src) [l..<6])"
    using words_text [of l src 6] by auto
  then show thesis using that l by blast
qed

lemma pton6_embedded:
  assumes "length src = 16" and "encapsulated4 (ntop6_words src) (best_run (ntop6_words src)) 6 \<and>
      \<not> in_run (best_run (ntop6_words src)) 6"
    and zero: "\<And>b l i. best_run (ntop6_words src) = Some (b, l) \<Longrightarrow> b \<le> i \<Longrightarrow> i < b + l \<Longrightarrow> src_word src i = 0"
  shows "inet_pton6 (inet6_text src) = Done (Inr src)"
proof -
  let ?d = "drop 12 src"
  obtain l where l: "best_run (ntop6_words src) = Some (0, l)" "l = 5 \<or> l = 6"
    "concat (map (slot_text src (best_run (ntop6_words src))) [0..<6]) = COL # more_words (map (src_word src) [l..<6])"
    using embedded_text [OF assms(1)] assms(2) by blast
  have txt6: "inet6_text src = COL # more_words (map (src_word src) [l..<6]) @ COL # dotted ?d"
    using assms(2) l(3) by (auto simp: inet6_text_def Let_def)
  have d4: "length ?d = 4" using assms(1) by simp
  have tail_run: "finish_run (pton6_loop (dotted ?d) (src_bytes src l 6) (Some 0) 0 0 (dotted ?d)) =
      Done (pton6_finish (src_bytes src l 8) (Some 0) 0 0)"
  proof -
    obtain v where "pton6_loop (dotted ?d) (src_bytes src l 6) (Some 0) 0 0 (dotted ?d) =
        Done (Inr (src_bytes src l 6 @ ?d, Some 0, v, 0))"
      using pton6_dotted [OF d4, of "src_bytes src l 6" "Some 0"] l(2) by auto
    moreover have "src_bytes src l 6 @ ?d = src_bytes src l 8"
      using embedded_bytes [OF assms(1)] src_bytes_append [of l 6 8 src] l(2) by auto
    ultimately show ?thesis by (simp add: finish_run_def pton6_finish_def)
  qed
  have "inet_pton6 (inet6_text src) = finish_run (pton6_loop (dotted ?d) (src_bytes src l 6) (Some 0) 0 0 (dotted ?d))"
    using l(2)
  proof
    assume "l = 6"
    then show ?thesis using txt6 pton6_head [of 0 src "dotted ?d"] by (simp add: head_text_def more_words_def)
  next
    assume l5: "l = 5"
    let ?t = "hex_text (src_word src 5) @ COL # dotted ?d"
    have "inet_pton6 (inet6_text src) = finish_run (pton6_loop ?t [] (Some 0) 0 0 ?t)"
      using txt6 l5 pton6_head [of 0 src ?t] by (simp add: head_text_def more_words_def)
    moreover have "dotted ?d \<noteq> []" by (simp add: dotted_def)
    ultimately show ?thesis using l5 pton6_words_from [of 5 6 "[]" src "COL # dotted ?d" "Some 0" ?t]
      by (auto simp: more_words_def)
  qed
  then show ?thesis using tail_run gap_filled [OF assms(1), of 0 l 0] zero [OF l(1)] l(2) by auto
qed

lemma pton6_text:
  assumes "length src = 16"
  shows "inet_pton6 (inet6_text src) = Done (Inr src)"
proof -
  let ?ws = "ntop6_words src"
  let ?best = "best_run ?ws"
  have len8: "length ?ws = 8" using assms by (simp add: ntop6_words_eq)
  have zero: "src_word src i = 0" if "?best = Some (b, l)" "b \<le> i" "i < b + l" for b l i
    using best_run_zero [OF that(1)] that(2,3) len8 ntop6_words_nth [OF assms, of i] by fastforce
  show ?thesis
  proof (cases "encapsulated4 ?ws ?best 6 \<and> \<not> in_run ?best 6")
    case True
    then show ?thesis using pton6_embedded [OF assms] zero by blast
  next
    case plain: False
    show ?thesis
    proof (cases ?best)
      case None
      have "map (slot_text src None) [0..<8] = map (word_text src) [0..<8]"
        by (intro map_cong) (auto simp: slot_text_def in_run_def)
      then have "concat (map (slot_text src None) [0..<8]) = head_text src 8" using head_words [of src 8] by metis
      then have t: "inet6_text src = head_text src 8" using plain None by (auto simp: inet6_text_def Let_def)
      obtain c t' where c: "head_text src 8 = c # t'" "c \<noteq> COL"
        using hex_text_first [of "src_word src 0"] by (cases "hex_text (src_word src 0)") (auto simp: head_text_def)
      have "finish_run (pton6_loop (head_text src 8) [] None 0 0 (head_text src 8)) = Done (pton6_finish src None 0 0)"
        using finish_words_from [of 0 8 "[]" src None "head_text src 8"] src_split [OF assms] by (simp add: head_text_def)
      then show ?thesis using c t inet_pton6_run(2) [OF c(2), of t'] assms by (simp add: pton6_finish_def)
    next
      case (Some r)
      then obtain b l where best: "?best = Some (b, l)" by (cases r) auto
      note r = best_run_zero(1,2) [OF best] 
      let ?t = "if b + l = 8 then [] else hex_text (src_word src (b + l)) @ more_words (map (src_word src) [b + l + 1..<8])"
      have "b + l < 8 \<Longrightarrow> [b + l..<8] = (b + l) # [b + l + 1..<8]" by (simp add: upt_conv_Cons)
      then have t: "inet6_text src = head_text src b @ COL # COL # ?t"
        using plain best r len8 run_slots [OF best, of src] by (auto simp: inet6_text_def Let_def more_words_def)
      have "finish_run (pton6_loop ?t (src_bytes src 0 b) (Some (2 * b)) 0 0 ?t) =
          Done (pton6_finish (src_bytes src 0 b @ src_bytes src (b + l) 8) (Some (2 * b)) 0 0)"
        using finish_words_from [of "b + l" 8 "src_bytes src 0 b" src "Some (2 * b)" ?t] r len8
        by (auto simp: finish_run_def)
      then show ?thesis using t pton6_head [of b src ?t] gap_filled [OF assms, of b l 0] r len8 zero [OF best] by simp
    qed
  qed
qed

subsection \<open>Every text is answered\<close>

lemma inet_pton4_answers: "\<exists>r. inet_pton4 src = Done r \<and> (\<forall>d. r = Inr d \<longrightarrow> length d = 4)"
proof -
  obtain r where "inet_pton4 src = Done r"
    using pton4_total [of "[]" 0 False src 0] by (auto simp: inet_pton4_def)
  then show ?thesis using pton4_exact [of src] by auto
qed

lemma pton6_loop_answers:
  assumes "length out \<le> 16"
  shows "\<exists>r. pton6_loop src out cp val seen curtok = Done r \<and>
    (\<forall>out' cp' v' k'. r = Inr (out', cp', v', k') \<longrightarrow> length out' \<le> 16)"
  using assms
proof (induction src out cp val seen curtok rule: pton6_loop.induct)
  case (2 ch src out cp val seen curtok)
  show ?case
  proof (cases "xdigit_value ch")
    case (Some d)
    then show ?thesis using 2 by auto
  next
    case None
    obtain r where r: "inet_pton4 curtok = Done r" "\<And>d. r = Inr d \<Longrightarrow> length d = 4"
      using inet_pton4_answers [of curtok] by blast
    show ?thesis
    proof (cases "ch = COL")
      case True
      then show ?thesis using None 2 by auto
    next
      case False
      then show ?thesis using None r by (cases r) auto
    qed
  qed
qed simp

lemma shift_loop_length [simp]: "length (shift_loop k c n tmp) = length tmp"
  by (induction k c n tmp rule: shift_loop.induct) (simp_all add: Let_def)

lemma pton6_finish_length:
  "length out \<le> 16 \<Longrightarrow> pton6_finish out cp v k = Inr d \<Longrightarrow> length d = 16"
  by (auto simp: pton6_finish_def Let_def split: if_splits option.splits)

lemma inet_pton6_answers: "\<exists>r. inet_pton6 src = Done r \<and> (\<forall>d. r = Inr d \<longrightarrow> length d = 16)"
proof -
  have run: "\<exists>r. finish_run (pton6_loop t [] None 0 0 t) = Done r \<and> (\<forall>d. r = Inr d \<longrightarrow> length d = 16)" for t
    using pton6_loop_answers [of "[]" t None 0 0 t] pton6_finish_length
    by (auto simp: finish_run_def split: sum.splits)
  have "inet_pton6 src = finish_run (pton6_loop t [] None 0 0 t)" if "src = t \<and> (t = [] \<or> hd t \<noteq> COL) \<or> src = COL # t \<and> t \<noteq> [] \<and> hd t = COL" for t
    using that by (cases t) (auto simp: inet_pton6_def finish_run_def)
  moreover have "inet_pton6 src = Done (Inl CAT_EINVAL)" if "\<nexists>t. src = t \<and> (t = [] \<or> hd t \<noteq> COL) \<or> src = COL # t \<and> t \<noteq> [] \<and> hd t = COL"
    using that by (auto simp: inet_pton6_def neq_Nil_conv split: list.splits)
  ultimately show ?thesis using run by (metis sum.distinct(1))
qed

text \<open>The size of an address of a family.\<close>

definition address_size :: "inet_family \<Rightarrow> nat" where
  "address_size af = (if af = AF_INET6 then 16 else 4)"

lemma pton_answers:
  assumes "af = AF_INET6 \<and> PERCENT \<in> set src \<longrightarrow> length src < 2 ^ 31"
  shows "\<exists>r. uv_inet_pton af src = Done r \<and> (\<forall>d. r = Inr d \<longrightarrow> length d = address_size af)"
proof (cases af)
  case AF_INET
  then show ?thesis using inet_pton4_answers [of src] by (simp add: uv_inet_pton_def address_size_def)
next
  case AF_INET6
  have "0 \<le> sint (of_nat n :: u32)" if "n < 2 ^ 31" for n
  proof -
    have "unat (of_nat n :: u32) = n" using that by (intro unat_of_nat_lt) simp
    then have "uint (of_nat n :: u32) < 2 ^ 31" using that by (metis of_nat_less_iff of_nat_numeral of_nat_power uint_nat)
    then have "signed_take_bit 31 (uint (of_nat n :: u32)) = uint (of_nat n :: u32)"
      by (intro signed_take_bit_int_eq_self) (auto intro: order_trans [OF _ uint_ge_0])
    then show ?thesis by (simp add: sint_uint)
  qed
  then have "\<not> sint (of_nat (length (takeWhile (\<lambda>c. c \<noteq> PERCENT) src)) :: u32) < 0" if "PERCENT \<in> set src"
    using assms AF_INET6 that length_takeWhile_le [of "\<lambda>c. c \<noteq> PERCENT" src] by (meson le_less_trans not_less)
  then show ?thesis using AF_INET6 inet_pton6_answers by (auto simp: uv_inet_pton_def address_size_def Let_def)
qed (simp_all add: uv_inet_pton_def)

text \<open>Parsing any text of either family returns, with an error or an address of the size of the family: no
  access of the parsers leaves \<^verbatim>\<open>tmp\<close> or \<^verbatim>\<open>s\<close>, and the pointer arithmetic stays inside. A text with a zone is not so long that its
  length overflows an \<^verbatim>\<open>int\<close>.\<close>

theorem inet_pton_answers:
  assumes "PERCENT \<in> set src \<longrightarrow> length src < 2 ^ 31"
  shows "\<exists>r. uv_inet_pton af src = Done r \<and> (\<forall>d. r = Inr d \<longrightarrow> length d = address_size af)"
  using pton_answers assms by blast

text \<open>C39: The IPv4 parser accepts exactly the texts the printer writes: four decimal numbers below 256 without
  superfluous zeros, with dots between them and nothing behind.\<close>

theorem inet_pton4_accepts_exactly:
  "uv_inet_pton AF_INET src = Done (Inr x) \<longleftrightarrow> length x = 4 \<and> src = dotted x"
  using pton4_exact by (simp add: uv_inet_pton_def)

text \<open>What a C string occupies up to its terminating zero.\<close>

definition c_text :: "byte list \<Rightarrow> byte list" where
  "c_text b = takeWhile (\<lambda>c. c \<noteq> 0) b"

lemma c_text_append [simp]: "0 \<notin> set s \<Longrightarrow> c_text (s @ 0 # t) = s"
  by (induction s) (auto simp: c_text_def)

lemma c_text_id: "0 \<notin> set s \<Longrightarrow> c_text s = s"
  by (induction s) (auto simp: c_text_def)

definition address_text :: "inet_family \<Rightarrow> byte list \<Rightarrow> byte list" where
  "address_text af src = (if af = AF_INET6 then inet6_text src else dotted src)"

lemma decimal_no_percent: "PERCENT \<notin> set (decimal n)" "COL \<notin> set (decimal n)"
proof -
  have "digit_value c \<noteq> None" if c: "c \<in> set (decimal n)" for c using decimal_chars [OF c] digit_char by force
  moreover have "digit_value PERCENT = None" by (simp add: digit_value_def)
  ultimately show "PERCENT \<notin> set (decimal n)" "COL \<notin> set (decimal n)" using separators(4) by blast+
qed

lemma dotted_plain: "PERCENT \<notin> set (dotted d)" "COL \<notin> set (dotted d)"
  using decimal_no_percent by (auto simp: dotted_def)

lemma hex_no_percent: "PERCENT \<notin> set (hex_text n)"
proof
  assume "PERCENT \<in> set (hex_text n)"
  then obtain d where "d < 16" "PERCENT = (if d < 10 then of_nat (48 + d) else of_nat (87 + d) :: byte)"
    using hex_text_chars by blast
  then have "xdigit_value PERCENT = Some d" using hex_char_value [of d] by simp
  then show False by (simp add: xdigit_value_def)
qed

lemma inet6_no_percent: "PERCENT \<notin> set (inet6_text src)"
proof -
  have "PERCENT \<notin> set (slot_text src best i)" for best i
    using hex_no_percent by (auto simp: slot_text_def word_text_def)
  then show ?thesis using dotted_plain by (auto simp: inet6_text_def Let_def split: option.splits)
qed

lemma ntop_text:
  assumes "af \<in> {AF_INET, AF_INET6}" and "length src = address_size af" and "INET6_ADDRSTRLEN \<le> cap" and "cap \<le> length dst"
  shows "\<exists>d. uv_inet_ntop af src dst cap = Done (None, address_text af src @ 0 # d) \<and> length (address_text af src @ 0 # d) = length dst"
  using assms ntop4_text [of src cap dst] ntop6_text [of src cap dst] dotted_length [of src] inet6_text_length [of src]
  by (auto simp: uv_inet_ntop_def address_text_def address_size_def)

lemma pton_text:
  assumes "af \<in> {AF_INET, AF_INET6}" and "length src = address_size af"
  shows "uv_inet_pton af (address_text af src) = Done (Inr src)"
  using assms pton4_dotted [of src] pton6_text [of src] inet6_no_percent [of src]
  by (auto simp: uv_inet_pton_def address_text_def address_size_def)

text \<open>C38: An address printed to a buffer of the documented size and read back is the same address, for both
  families: abbreviated runs of zeros and embedded IPv4 addresses included.\<close>

theorem inet_round_trip:
  assumes "af \<in> {AF_INET, AF_INET6}" and "length src = address_size af" and "INET6_ADDRSTRLEN \<le> cap" and "cap \<le> length dst"
  shows "c_bind (uv_inet_ntop af src dst cap) (\<lambda>(e, dst). if e = None then uv_inet_pton af (c_text dst) else Undefined) =
    Done (Inr src)"
proof -
  have "0 \<notin> set (address_text af src)" using dotted_no_zero inet6_text_no_zero by (simp add: address_text_def)
  then show ?thesis using ntop_text [OF assms] pton_text [OF assms(1,2)] by auto
qed

theorem inet_round_trip_witness:
  "c_bind (uv_inet_ntop AF_INET6 (replicate 10 0 @ [255, 255, 192, 0, 2, 33]) (replicate 46 7) 46)
     (\<lambda>(e, dst). if e = None then uv_inet_pton AF_INET6 (c_text dst) else Undefined) =
   Done (Inr (replicate 10 0 @ [255, 255, 192, 0, 2, 33]))"
  by (rule inet_round_trip) (simp_all add: address_size_def)

end
