(* ===== verification/Cat_Sockaddr.thy ===== *)
theory Cat_Sockaddr
  imports Uv_Inet Cat_String
begin

text \<open>
  Socket addresses, the functions \<^verbatim>\<open>cat_sockaddr_*\<close> of \<^verbatim>\<open>src/cat_socket.c\<close> and the functions of
  \<^verbatim>\<open>deps/libuv/src/uv-common.c\<close> they call. An address object is the list of its bytes in the layout of Linux:
  the family in the first two bytes, the low byte first; for the internet families the port behind it with the
  high byte first, then the address at 4 (\<^verbatim>\<open>sockaddr_in\<close>, 16 bytes) or at 8 with the scope at 24
  (\<^verbatim>\<open>sockaddr_in6\<close>, 28 bytes); for local sockets the path at 2, of at most 108 bytes. Reading or writing outside
  the object is undefined. The interface index of a zone is a parameter, the function \<^verbatim>\<open>if_nametoindex\<close> of the
  system.

  The lemmas show that an address written as a name and read back is the same address, also when the family has
  to be guessed, and what happens where an object or a buffer is too small.
\<close>

subsection \<open>Address objects\<close>

abbreviation SOCKADDR_IN_SIZE :: nat where "SOCKADDR_IN_SIZE \<equiv> 16"
abbreviation SOCKADDR_IN6_SIZE :: nat where "SOCKADDR_IN6_SIZE \<equiv> 28"
abbreviation CAT_SOCKADDR_HEADER_LENGTH :: nat where "CAT_SOCKADDR_HEADER_LENGTH \<equiv> 2"
abbreviation CAT_SOCKADDR_MAX_PATH :: nat where "CAT_SOCKADDR_MAX_PATH \<equiv> 108"

definition family_bytes :: "inet_family \<Rightarrow> byte list" where
  "family_bytes af = (case af of AF_UNSPEC \<Rightarrow> [0, 0] | AF_LOCAL \<Rightarrow> [1, 0] | AF_INET \<Rightarrow> [2, 0] | AF_INET6 \<Rightarrow> [10, 0]
     | AF_OTHER \<Rightarrow> [255, 255])"

definition bytes_family :: "byte list \<Rightarrow> inet_family" where
  "bytes_family b = (if b = [0, 0] then AF_UNSPEC else if b = [1, 0] then AF_LOCAL else if b = [2, 0] then AF_INET
     else if b = [10, 0] then AF_INET6 else AF_OTHER)"

definition sa_family :: "byte list \<Rightarrow> inet_family c_run" where
  "sa_family a = c_bind (mem_read a 0 2) (\<lambda>b. Done (bytes_family b))"

text \<open>\<^verbatim>\<open>htons((uint16_t)port)\<close> and \<^verbatim>\<open>ntohs\<close>, through the bytes in memory.\<close>

definition port_bytes :: "int \<Rightarrow> byte list" where
  "port_bytes port = [of_int (port div 256), of_int port]"

definition port_value :: "byte list \<Rightarrow> int" where
  "port_value b = 256 * uint (b ! 0) + uint (b ! 1)"

definition scope_bytes :: "u32 \<Rightarrow> byte list" where
  "scope_bytes w = [ucast w, ucast (drop_bit 8 w), ucast (drop_bit 16 w), ucast (drop_bit 24 w)]"

definition cat_sockaddr_af_get_name :: "inet_family \<Rightarrow> string" where
  "cat_sockaddr_af_get_name af = (case af of AF_UNSPEC \<Rightarrow> ''UNSPEC'' | AF_INET \<Rightarrow> ''INET'' | AF_INET6 \<Rightarrow> ''INET6''
     | AF_LOCAL \<Rightarrow> ''LOCAL'' | AF_OTHER \<Rightarrow> ''UNKNOWN'')"

subsection \<open>The functions of libuv\<close>

text \<open>Clear the object, set family and port, parse the text to the address; the result is the error code and
  the object.\<close>

definition put_address :: "inet_family \<Rightarrow> nat \<Rightarrow> byte list \<Rightarrow> byte list \<Rightarrow> (cat_errno option \<times> byte list) c_run" where
  "put_address af off ip a =
     c_bind (uv_inet_pton af ip) (\<lambda>r.
       case r of Inl e \<Rightarrow> Done (Some e, a) | Inr d \<Rightarrow> c_bind (mem_write a off d) (\<lambda>a. Done (None, a)))"

definition uv_ip4_addr :: "byte list \<Rightarrow> int \<Rightarrow> byte list \<Rightarrow> (cat_errno option \<times> byte list) c_run" where
  "uv_ip4_addr ip port a =
     c_bind (mem_write a 0 (replicate SOCKADDR_IN_SIZE 0)) (\<lambda>a.
     c_bind (mem_write a 0 (family_bytes AF_INET)) (\<lambda>a.
     c_bind (mem_write a 2 (port_bytes port)) (\<lambda>a.
     put_address AF_INET 4 ip a)))"

definition uv_ip6_addr :: "(byte list \<Rightarrow> u32) \<Rightarrow> byte list \<Rightarrow> int \<Rightarrow> byte list \<Rightarrow> (cat_errno option \<times> byte list) c_run" where
  "uv_ip6_addr if_nametoindex ip port a =
     c_bind (mem_write a 0 (replicate SOCKADDR_IN6_SIZE 0)) (\<lambda>a.
     c_bind (mem_write a 0 (family_bytes AF_INET6)) (\<lambda>a.
     c_bind (mem_write a 2 (port_bytes port)) (\<lambda>a.
       if PERCENT \<in> set ip then
         let n = length (takeWhile (\<lambda>c. c \<noteq> PERCENT) ip);
             n' = (if n \<ge> 40 then 40 - 1 else n);
             zone = drop (n + 1) ip
         in c_bind (mem_write a 24 (scope_bytes (if_nametoindex zone))) (\<lambda>a.
            put_address AF_INET6 8 (take n' ip) a)
       else put_address AF_INET6 8 ip a)))"

definition uv_ip4_name :: "byte list \<Rightarrow> byte list \<Rightarrow> nat \<Rightarrow> (cat_errno option \<times> byte list) c_run" where
  "uv_ip4_name a dst cap = c_bind (mem_read a 4 4) (\<lambda>src. uv_inet_ntop AF_INET src dst cap)"

definition uv_ip6_name :: "byte list \<Rightarrow> byte list \<Rightarrow> nat \<Rightarrow> (cat_errno option \<times> byte list) c_run" where
  "uv_ip6_name a dst cap = c_bind (mem_read a 8 16) (\<lambda>src. uv_inet_ntop AF_INET6 src dst cap)"

definition uv_ip_name :: "byte list \<Rightarrow> byte list \<Rightarrow> nat \<Rightarrow> (cat_errno option \<times> byte list) c_run" where
  "uv_ip_name a dst cap = c_bind (sa_family a) (\<lambda>af.
     case af of AF_INET \<Rightarrow> uv_ip4_name a dst cap | AF_INET6 \<Rightarrow> uv_ip6_name a dst cap
     | _ \<Rightarrow> Done (Some CAT_EAFNOSUPPORT, dst))"

subsection \<open>From an address to a name\<close>

text \<open>\<^verbatim>\<open>cat_sockaddr_is_linux_abstract_name\<close>; the first byte is read only when there is one.\<close>

definition is_linux_abstract_name :: "byte list \<Rightarrow> size_t \<Rightarrow> bool c_run" where
  "is_linux_abstract_name path len =
     (if len = 0 then Done False else c_bind (mem_read path 0 1) (\<lambda>b. Done (b = [0])))"

text \<open>The result is the error code, the buffer and the new value of \<^verbatim>\<open>*buffer_size\<close>.\<close>

definition get_inet_name :: "(cat_errno option \<times> byte list) c_run \<Rightarrow> nat \<Rightarrow> (cat_errno option \<times> byte list \<times> size_t) c_run" where
  "get_inet_name call needed =
     c_bind call (\<lambda>(e, buffer).
       case e of Some err \<Rightarrow> Done (e, buffer, if err = CAT_ENOSPC then of_nat needed else 0)
       | None \<Rightarrow> if 0 \<in> set buffer then Done (None, buffer, of_nat (length (c_text buffer))) else Undefined)"

definition get_local_name :: "byte list \<Rightarrow> u32 \<Rightarrow> byte list \<Rightarrow> size_t \<Rightarrow> (cat_errno option \<times> byte list \<times> size_t) c_run" where
  "get_local_name a address_length buffer bsize =
     (let path = drop CAT_SOCKADDR_HEADER_LENGTH a; len = ucast address_length - 2 :: size_t
      in c_bind (is_linux_abstract_name path len) (\<lambda>is_lan.
         c_bind (if is_lan then Done len else c_bind (cat_strnlen path (unat len)) (\<lambda>n. Done (of_nat n))) (\<lambda>len.
           let needed = len + (if is_lan then 0 else 1)
           in if needed > bsize then Done (Some CAT_ENOSPC, buffer, needed)
              else c_bind (mem_read path 0 (unat len)) (\<lambda>b.
                   c_bind (mem_write buffer 0 b) (\<lambda>buffer.
                   c_bind (if is_lan then Done buffer else mem_write buffer (unat len) [0]) (\<lambda>buffer.
                     Done (None, buffer, len)))))))"

definition cat_sockaddr_get_address_silent ::
    "byte list \<Rightarrow> u32 \<Rightarrow> byte list \<Rightarrow> size_t \<Rightarrow> (cat_errno option \<times> byte list \<times> size_t) c_run" where
  "cat_sockaddr_get_address_silent a address_length buffer bsize =
     c_bind (if bsize > 0 then mem_write buffer 0 [0] else Done buffer) (\<lambda>buffer.
     c_bind (sa_family a) (\<lambda>af.
       case af of
         AF_INET \<Rightarrow> get_inet_name (uv_ip4_name a buffer (unat bsize)) 16
       | AF_INET6 \<Rightarrow> get_inet_name (uv_ip6_name a buffer (unat bsize)) 46
       | AF_LOCAL \<Rightarrow> get_local_name a address_length buffer bsize
       | _ \<Rightarrow> Done (Some CAT_EAFNOSUPPORT, buffer, 0)))"

definition cat_sockaddr_get_port_silent :: "byte list \<Rightarrow> (cat_errno + int) c_run" where
  "cat_sockaddr_get_port_silent a =
     c_bind (sa_family a) (\<lambda>af.
       case af of
         AF_INET \<Rightarrow> c_bind (mem_read a 2 2) (\<lambda>b. Done (Inr (port_value b)))
       | AF_INET6 \<Rightarrow> c_bind (mem_read a 2 2) (\<lambda>b. Done (Inr (port_value b)))
       | AF_LOCAL \<Rightarrow> Done (Inr 0)
       | _ \<Rightarrow> Done (Inl CAT_EAFNOSUPPORT))"

text \<open>The variants that set the last error return \<^verbatim>\<open>cat_false\<close> and the error that was set; the port is \<open>-1\<close> then.\<close>

definition cat_sockaddr_get_address ::
    "byte list \<Rightarrow> u32 \<Rightarrow> byte list \<Rightarrow> size_t \<Rightarrow> (bool \<times> cat_errno option \<times> byte list \<times> size_t) c_run" where
  "cat_sockaddr_get_address a address_length buffer bsize =
     c_bind (cat_sockaddr_get_address_silent a address_length buffer bsize) (\<lambda>(e, buffer, n).
       if e \<noteq> None then Done (False, e, buffer, n) else Done (True, None, buffer, n))"

definition cat_sockaddr_get_port :: "byte list \<Rightarrow> (cat_errno option \<times> int) c_run" where
  "cat_sockaddr_get_port a =
     c_bind (cat_sockaddr_get_port_silent a) (\<lambda>r. case r of Inl e \<Rightarrow> Done (Some e, -1) | Inr p \<Rightarrow> Done (None, p))"

definition cat_sockaddr_set_port :: "byte list \<Rightarrow> int \<Rightarrow> (cat_errno option \<times> byte list) c_run" where
  "cat_sockaddr_set_port a port =
     c_bind (sa_family a) (\<lambda>af.
       case af of
         AF_INET \<Rightarrow> c_bind (mem_write a 2 (port_bytes port)) (\<lambda>a. Done (None, a))
       | AF_INET6 \<Rightarrow> c_bind (mem_write a 2 (port_bytes port)) (\<lambda>a. Done (None, a))
       | _ \<Rightarrow> Done (Some CAT_EINVAL, a))"

subsection \<open>From a name to an address\<close>

text \<open>\<open>name\<close> are the bytes at \<^verbatim>\<open>name\<close>; where the code passes it as a C string, it has to be terminated.\<close>

definition c_str :: "byte list \<Rightarrow> byte list c_run" where
  "c_str name = (if 0 \<in> set name then Done (c_text name) else Undefined)"

text \<open>The result is the error code, the object and the new value of \<^verbatim>\<open>*address_length\<close>.\<close>

definition getbyname_local :: "byte list \<Rightarrow> u32 \<Rightarrow> byte list \<Rightarrow> size_t \<Rightarrow> (cat_errno option \<times> byte list \<times> u32) c_run" where
  "getbyname_local a asize name nlen =
     (if unat nlen \<ge> CAT_SOCKADDR_MAX_PATH then Done (Some CAT_ENAMETOOLONG, a, 0)
      else c_bind (is_linux_abstract_name name nlen) (\<lambda>is_lan.
        let real_length = 2 + ucast nlen + (if is_lan then 0 else 1)
        in if real_length > asize then Done (Some CAT_ENOSPC, a, real_length)
           else c_bind (mem_write a 0 (family_bytes AF_LOCAL)) (\<lambda>a.
             if nlen > 0 then
               c_bind (mem_read name 0 (unat nlen)) (\<lambda>b.
               c_bind (mem_write a CAT_SOCKADDR_HEADER_LENGTH b) (\<lambda>a.
               c_bind (if is_lan then Done a else mem_write a (CAT_SOCKADDR_HEADER_LENGTH + unat nlen) [0]) (\<lambda>a.
                 Done (None, a, real_length))))
             else Done (None, a, real_length))))"

text \<open>The loop runs once, or a second time with \<^verbatim>\<open>AF_INET6\<close> when the family is not given and the text is no
  IPv4 address; the last component is the final value of \<^verbatim>\<open>af\<close>.\<close>

definition getbyname_inet6 :: "(byte list \<Rightarrow> u32) \<Rightarrow> byte list \<Rightarrow> u32 \<Rightarrow> byte list \<Rightarrow> int \<Rightarrow>
    (cat_errno option \<times> byte list \<times> u32 \<times> inet_family) c_run" where
  "getbyname_inet6 if_nametoindex a asize name port =
     (if unat asize < SOCKADDR_IN6_SIZE then Done (Some CAT_ENOSPC, a, 28, AF_INET6)
      else c_bind (c_str name) (\<lambda>ip. c_bind (uv_ip6_addr if_nametoindex ip port a) (\<lambda>(e, a). Done (e, a, 28, AF_INET6))))"

definition getbyname_loop :: "(byte list \<Rightarrow> u32) \<Rightarrow> inet_family \<Rightarrow> bool \<Rightarrow> byte list \<Rightarrow> u32 \<Rightarrow> byte list \<Rightarrow> int \<Rightarrow>
    (cat_errno option \<times> byte list \<times> u32 \<times> inet_family) c_run" where
  "getbyname_loop if_nametoindex af unspec a asize name port =
     (case af of
        AF_INET \<Rightarrow>
          if unat asize < SOCKADDR_IN_SIZE then Done (Some CAT_ENOSPC, a, 16, AF_INET)
          else c_bind (c_str name) (\<lambda>ip. c_bind (uv_ip4_addr ip port a) (\<lambda>(e, a).
            if e = Some CAT_EINVAL \<and> unspec then getbyname_inet6 if_nametoindex a asize name port
            else Done (e, a, 16, AF_INET)))
      | AF_INET6 \<Rightarrow> getbyname_inet6 if_nametoindex a asize name port
      | _ \<Rightarrow> Done (Some CAT_EAFNOSUPPORT, a, 0, af))"

definition cat_sockaddr__getbyname :: "(byte list \<Rightarrow> u32) \<Rightarrow> byte list \<Rightarrow> u32 option \<Rightarrow> byte list \<Rightarrow> size_t \<Rightarrow> int \<Rightarrow>
    (cat_errno option \<times> byte list \<times> u32 option) c_run" where
  "cat_sockaddr__getbyname if_nametoindex a address_length name nlen port =
     (let asize = (case address_length of Some n \<Rightarrow> n | None \<Rightarrow> 0)
      in if sint asize < 2 then Done (Some CAT_EINVAL, a, address_length)
         else c_bind (sa_family a) (\<lambda>af.
           if af = AF_LOCAL then c_bind (getbyname_local a asize name nlen) (\<lambda>(e, a, l). Done (e, a, Some l))
           else
             let unspec = (af = AF_UNSPEC); af = (if unspec then AF_INET else af)
             in c_bind (getbyname_loop if_nametoindex af unspec a asize name port) (\<lambda>(e, a, l, af).
                  if e \<noteq> None then Done (e, a, Some l)
                  else c_bind (if unspec then mem_write a 0 (family_bytes af) else Done a) (\<lambda>a.
                    Done (None, a, Some l)))))"

definition cat_sockaddr_getbyname :: "(byte list \<Rightarrow> u32) \<Rightarrow> byte list \<Rightarrow> u32 option \<Rightarrow> byte list \<Rightarrow> size_t \<Rightarrow> int \<Rightarrow>
    (bool \<times> cat_errno option \<times> byte list \<times> u32 option) c_run" where
  "cat_sockaddr_getbyname if_nametoindex a address_length name nlen port =
     c_bind (cat_sockaddr__getbyname if_nametoindex a address_length name nlen port) (\<lambda>(e, a, l).
       if e \<noteq> None then Done (False, e, a, l) else Done (True, None, a, l))"

subsection \<open>Names with ports\<close>

text \<open>\<open>name\<close> is \<open>None\<close> when \<^verbatim>\<open>name\<close> or \<^verbatim>\<open>name_length\<close> is \<^verbatim>\<open>NULL\<close>, else the buffer and \<^verbatim>\<open>*name_length\<close>; \<open>want\<close> says
  that \<^verbatim>\<open>port\<close> is not \<^verbatim>\<open>NULL\<close>, and the port is then part of the result.\<close>

definition cat_sockaddr_zero_name :: "(byte list \<times> size_t) option \<Rightarrow> (byte list \<times> size_t) option c_run" where
  "cat_sockaddr_zero_name name =
     (case name of None \<Rightarrow> Done None
      | Some (b, n) \<Rightarrow> c_bind (if n > 0 then mem_write b 0 [0] else Done b) (\<lambda>b. Done (Some (b, 0))))"

definition cat_sockaddr_to_name_silent :: "byte list \<Rightarrow> u32 \<Rightarrow> (byte list \<times> size_t) option \<Rightarrow> bool \<Rightarrow>
    (cat_errno option \<times> (byte list \<times> size_t) option \<times> (cat_errno + int) option) c_run" where
  "cat_sockaddr_to_name_silent a address_length name want =
     (if address_length > 0 then
        c_bind (case name of None \<Rightarrow> Done (None, None)
            | Some (b, n) \<Rightarrow> c_bind (cat_sockaddr_get_address_silent a address_length b n) (\<lambda>(e, b, n). Done (e, Some (b, n)))) (\<lambda>(e, name).
          if want then c_bind (cat_sockaddr_get_port_silent a) (\<lambda>p. Done (e, name, Some p)) else Done (e, name, None))
      else c_bind (cat_sockaddr_zero_name name) (\<lambda>name. Done (None, name, if want then Some (Inr 0) else None)))"

text \<open>The variant with errors: the value returned, the last error that was set if any, the name and the port.\<close>

definition cat_sockaddr_to_name :: "byte list \<Rightarrow> u32 \<Rightarrow> (byte list \<times> size_t) option \<Rightarrow> bool \<Rightarrow>
    (bool \<times> cat_errno option \<times> (byte list \<times> size_t) option \<times> int option) c_run" where
  "cat_sockaddr_to_name a address_length name want =
     (if address_length > 0 then
        c_bind (case name of None \<Rightarrow> Done (True, None, None)
            | Some (b, n) \<Rightarrow> c_bind (cat_sockaddr_get_address a address_length b n) (\<lambda>(r, e, b, n). Done (r, e, Some (b, n)))) (\<lambda>(r, e, name).
          if want then c_bind (cat_sockaddr_get_port a) (\<lambda>(e', p). Done (r, if e' = None then e else e', name, Some p))
          else Done (r, e, name, None))
      else c_bind (cat_sockaddr_zero_name name) (\<lambda>name. Done (True, None, name, if want then Some 0 else None)))"

subsection \<open>Copying and checking\<close>

definition cat_sockaddr_copy :: "byte list option \<Rightarrow> u32 option \<Rightarrow> byte list \<Rightarrow> u32 \<Rightarrow>
    (cat_errno option \<times> byte list option \<times> u32 option) c_run" where
  "cat_sockaddr_copy to to_length from from_length =
     c_bind (case (to, to_length) of
         (Some t, Some n) \<Rightarrow>
           if n < from_length then
             c_bind (if n \<ge> 2 then c_bind (mem_read from 0 2) (mem_write t 0) else Done t) (\<lambda>t. Done (Some CAT_ENOSPC, Some t))
           else c_bind (mem_read from 0 (unat from_length)) (\<lambda>b. c_bind (mem_write t 0 b) (\<lambda>t. Done (None, Some t)))
       | _ \<Rightarrow> Done (Some CAT_EINVAL, to)) (\<lambda>(e, to).
     Done (e, to, map_option (\<lambda>_. from_length) to_length))"

definition min_length :: "inet_family \<Rightarrow> u32 option" where
  "min_length af = (case af of AF_INET \<Rightarrow> Some 16 | AF_INET6 \<Rightarrow> Some 28 | AF_LOCAL \<Rightarrow> Some 2 | _ \<Rightarrow> None)"

definition cat_sockaddr_check_silent :: "byte list \<Rightarrow> u32 \<Rightarrow> cat_errno option c_run" where
  "cat_sockaddr_check_silent a address_length =
     c_bind (sa_family a) (\<lambda>af.
       case min_length af of None \<Rightarrow> Done (Some CAT_EAFNOSUPPORT)
       | Some m \<Rightarrow> if address_length < m then Done (Some CAT_EINVAL) else Done None)"

definition cat_sockaddr_check :: "byte list \<Rightarrow> u32 \<Rightarrow> (bool \<times> cat_errno option) c_run" where
  "cat_sockaddr_check a address_length =
     c_bind (sa_family a) (\<lambda>af.
       case min_length af of None \<Rightarrow> Done (False, Some CAT_EAFNOSUPPORT)
       | Some m \<Rightarrow> if address_length < m then Done (False, Some CAT_EINVAL) else Done (True, None))"

subsection \<open>Ports and families\<close>

lemma family_bytes_length [simp]: "length (family_bytes af) = 2"
  by (cases af) (simp_all add: family_bytes_def)

lemma family_bytes_inverse [simp]: "bytes_family (family_bytes af) = af"
  by (cases af) (simp_all add: family_bytes_def bytes_family_def)

lemma sa_family_bytes [simp]: "sa_family (family_bytes af @ rest) = Done af"
  by (simp add: sa_family_def)

lemma port_bytes_length [simp]: "length (port_bytes p) = 2"
  by (simp add: port_bytes_def)

lemma scope_bytes_length [simp]: "length (scope_bytes w) = 4"
  by (simp add: scope_bytes_def)

lemma port_round_trip: "0 \<le> p \<Longrightarrow> p < 65536 \<Longrightarrow> port_value (port_bytes p) = p"
  by (simp add: port_value_def port_bytes_def uint_word_of_int take_bit_eq_mod)

subsection \<open>Objects of the internet families\<close>

definition sockaddr_in :: "byte list \<Rightarrow> int \<Rightarrow> byte list" where
  "sockaddr_in ip port = family_bytes AF_INET @ port_bytes port @ ip @ replicate 8 0"

definition sockaddr_in6 :: "byte list \<Rightarrow> int \<Rightarrow> byte list \<Rightarrow> byte list" where
  "sockaddr_in6 ip port scope = family_bytes AF_INET6 @ port_bytes port @ replicate 4 0 @ ip @ scope"

definition sockaddr_of :: "inet_family \<Rightarrow> byte list \<Rightarrow> int \<Rightarrow> byte list" where
  "sockaddr_of af ip port = (if af = AF_INET6 then sockaddr_in6 ip port (replicate 4 0) else sockaddr_in ip port)"

definition sockaddr_size :: "inet_family \<Rightarrow> nat" where
  "sockaddr_size af = (if af = AF_INET6 then SOCKADDR_IN6_SIZE else SOCKADDR_IN_SIZE)"

lemma drop_replicate_append: "n \<le> m \<Longrightarrow> drop n (replicate m x @ ys) = replicate (m - n) x @ ys"
  by simp

text \<open>The object after it was cleared and its family and port were set.\<close>

lemma header_written:
  assumes "n \<le> length a" and "4 \<le> n"
  shows "c_bind (mem_write a 0 (replicate n 0)) (\<lambda>a. c_bind (mem_write a 0 (family_bytes af)) (\<lambda>a. c_bind (mem_write a 2 (port_bytes port)) f)) =
    f (family_bytes af @ port_bytes port @ replicate (n - 4) 0 @ drop n a)"
  using assms by (simp add: diff_diff_left eval_nat_numeral)

lemma put_address_ok:
  assumes "uv_inet_pton af ip = Done (Inr d)"
  shows "put_address af (length pre) ip (pre @ replicate (length d) 0 @ suf) = Done (None, pre @ d @ suf)"
  using assms by (simp add: put_address_def)

lemma ip4_addr_ok:
  assumes "SOCKADDR_IN_SIZE \<le> length a" and "length d = 4"
  shows "uv_ip4_addr (dotted d) port a = Done (None, sockaddr_in d port @ drop SOCKADDR_IN_SIZE a)"
proof -
  have "uv_inet_pton AF_INET (dotted d) = Done (Inr d)" using pton_text [of AF_INET d] assms(2) by (simp add: address_text_def address_size_def)
  from put_address_ok [OF this, of "family_bytes AF_INET @ port_bytes port" "replicate 8 0 @ drop SOCKADDR_IN_SIZE a"]
  have "put_address AF_INET 4 (dotted d) (family_bytes AF_INET @ port_bytes port @ replicate 12 0 @ drop SOCKADDR_IN_SIZE a) =
      Done (None, sockaddr_in d port @ drop SOCKADDR_IN_SIZE a)"
    using assms(2) replicate_add [of 4 8 "0 :: byte"] by (simp add: sockaddr_in_def)
  then show ?thesis unfolding uv_ip4_addr_def by (subst header_written [OF assms(1)]) simp_all
qed

lemma ip4_addr_fails:
  assumes "SOCKADDR_IN_SIZE \<le> length a" and "uv_inet_pton AF_INET ip = Done (Inl e)"
  shows "uv_ip4_addr ip port a = Done (Some e, family_bytes AF_INET @ port_bytes port @ replicate 12 0 @ drop SOCKADDR_IN_SIZE a)"
  unfolding uv_ip4_addr_def using assms(2)
  by (subst header_written [OF assms(1)]) (simp_all add: put_address_def)

lemma ip6_addr_ok:
  assumes "SOCKADDR_IN6_SIZE \<le> length a" and "length d = 16"
  shows "uv_ip6_addr ifx (inet6_text d) port a = Done (None, sockaddr_in6 d port (replicate 4 0) @ drop SOCKADDR_IN6_SIZE a)"
proof -
  have "uv_inet_pton AF_INET6 (inet6_text d) = Done (Inr d)" using pton_text [of AF_INET6 d] assms(2) by (simp add: address_text_def address_size_def)
  from put_address_ok [OF this, of "family_bytes AF_INET6 @ port_bytes port @ replicate 4 0" "replicate 4 0 @ drop SOCKADDR_IN6_SIZE a"]
  have "put_address AF_INET6 8 (inet6_text d) (family_bytes AF_INET6 @ port_bytes port @ replicate 24 0 @ drop SOCKADDR_IN6_SIZE a) =
      Done (None, sockaddr_in6 d port (replicate 4 0) @ drop SOCKADDR_IN6_SIZE a)"
    using assms(2) replicate_add [of 4 "16 + 4" "0 :: byte"] replicate_add [of 16 4 "0 :: byte"] by (simp add: sockaddr_in6_def)
  then show ?thesis unfolding uv_ip6_addr_def using inet6_no_percent [of d]
    by (subst header_written [OF assms(1)]) simp_all
qed

subsection \<open>Guessing the family\<close>

lemma pton4_error: "pton4_loop src saw octets octs cur = Done (Inl e) \<Longrightarrow> e = CAT_EINVAL"
proof (induction src saw octets octs cur rule: pton4_loop.induct)
  case (1 saw octets octs cur)
  then show ?case by (auto simp: mem_read_def split: if_splits)
next
  case (2 ch src saw octets octs cur)
  then show ?case by (auto simp: Let_def split: option.splits if_splits)
qed

lemma pton4_rejects:
  assumes "\<And>d. length d = 4 \<Longrightarrow> src \<noteq> dotted d"
  shows "uv_inet_pton AF_INET src = Done (Inl CAT_EINVAL)"
proof -
  obtain r where r: "inet_pton4 src = Done r" using inet_pton4_answers by blast
  then obtain e where "r = Inl e" using pton4_exact [of src] assms by (cases r) auto
  then show ?thesis using r pton4_error by (simp add: inet_pton4_def uv_inet_pton_def)
qed

lemma ntop6_words_length: "length (ntop6_words src) = 8"
proof -
  have "length (fold (\<lambda>i ws. ws[i div 2 := ws ! (i div 2) OR push_bit (8 * (1 - i mod 2)) (ucast (src ! i))]) is ws) = length (ws :: u32 list)"
    for "is" ws by (induction "is" arbitrary: ws) auto
  then show ?thesis by (simp add: ntop6_words_def)
qed

lemma inet6_has_colon: "COL \<in> set (inet6_text src)"
proof (cases "best_run (ntop6_words src)")
  case None
  then have "COL \<in> set (slot_text src None 1)" by (simp add: slot_text_def word_text_def in_run_def)
  then show ?thesis using None by (auto simp: inet6_text_def Let_def encapsulated4_def intro!: bexI [of _ 1])
next
  case (Some r)
  then obtain b l where best: "best_run (ntop6_words src) = Some (b, l)" by (cases r) auto
  then have "COL \<in> set (slot_text src (Some (b, l)) b)" "b < 8"
    using best_run_zero(1,2) [OF best] by (auto simp: slot_text_def in_run_def ntop6_words_length)
  then show ?thesis using best by (auto simp: inet6_text_def Let_def intro!: bexI [of _ b])
qed

lemma inet6_not_inet4: "uv_inet_pton AF_INET (inet6_text src) = Done (Inl CAT_EINVAL)"
  using inet6_has_colon [of src] dotted_plain(2) by (intro pton4_rejects) metis

lemma sockaddr_of_family: "af \<in> {AF_INET, AF_INET6} \<Longrightarrow> \<exists>r. sockaddr_of af ip port = family_bytes af @ r"
  by (auto simp: sockaddr_of_def sockaddr_in_def sockaddr_in6_def)

lemma family_rewritten [simp]: "mem_write (family_bytes af @ r) 0 (family_bytes af) = Done (family_bytes af @ r)"
  by (simp add: mem_write_def)

lemma sint_size: "unat (n :: u32) < 2 ^ 31 \<Longrightarrow> sint n = int (unat n)"
proof -
  assume "unat n < 2 ^ 31"
  then have "int (unat n) < int (2 ^ 31)" by (simp only: of_nat_less_iff)
  then have "signed_take_bit 31 (uint n) = uint n"
    by (intro signed_take_bit_int_eq_self) (auto intro: order_trans [OF _ uint_ge_0])
  then show ?thesis by (simp add: sint_uint)
qed

lemma size_has_family: "2 \<le> unat (n :: u32) \<Longrightarrow> unat n < 2 ^ 31 \<Longrightarrow> \<not> sint n < 2"
  using sint_size [of n] by (simp only: of_nat_less_iff [of _ 2, where 'a = int, simplified])

lemma c_str_text: "0 \<notin> set s \<Longrightarrow> c_str (s @ 0 # t) = Done s"
  by (simp add: c_str_def)

lemma address_text_no_zero: "0 \<notin> set (address_text af ip)"
  using dotted_no_zero inet6_text_no_zero by (simp add: address_text_def)

lemma getbyname_loop_text:
  assumes "af \<in> {AF_INET, AF_INET6}" and "length ip = address_size af" and "f = af \<or> f = AF_INET \<and> unspec"
    and "SOCKADDR_IN6_SIZE \<le> unat asize" and "unat asize \<le> length a"
  shows "getbyname_loop ifx f unspec a asize (address_text af ip @ 0 # t) port =
    Done (None, sockaddr_of af ip port @ drop (sockaddr_size af) a, of_nat (sockaddr_size af), af)"
proof (cases "af = AF_INET")
  case True
  then show ?thesis using assms address_text_no_zero [of af ip] ip4_addr_ok [of a ip port]
    by (auto simp: getbyname_loop_def c_str_text address_text_def address_size_def sockaddr_of_def sockaddr_size_def)
next
  case False
  then have af: "af = AF_INET6" "length ip = 16" using assms(1,2) by (auto simp: address_size_def)
  have six: "getbyname_inet6 ifx b asize (address_text af ip @ 0 # t) port =
      Done (None, sockaddr_of af ip port @ drop SOCKADDR_IN6_SIZE b, 28, AF_INET6)" if "length b = length a" for b
    using that assms(4,5) af address_text_no_zero [of af ip] ip6_addr_ok [of b ip ifx port]
    by (auto simp: getbyname_inet6_def c_str_text address_text_def sockaddr_of_def)
  show ?thesis
  proof (cases "f = AF_INET")
    case True
    let ?b = "family_bytes AF_INET @ port_bytes port @ replicate 12 0 @ drop SOCKADDR_IN_SIZE a"
    have "uv_ip4_addr (address_text af ip) port a = Done (Some CAT_EINVAL, ?b)"
      using ip4_addr_fails [OF _ inet6_not_inet4 [of ip], of a port] assms(4,5) af by (simp add: address_text_def)
    moreover have "drop SOCKADDR_IN6_SIZE ?b = drop SOCKADDR_IN6_SIZE a" "length ?b = length a" using assms(4,5) by auto
    moreover have "unspec" using True af assms(3) by auto
    ultimately show ?thesis using True assms(4) six [of ?b] address_text_no_zero [of af ip] af
      by (simp add: getbyname_loop_def c_str_text sockaddr_size_def)
  next
    case False
    then have "f = AF_INET6" using assms(3) af by auto
    then show ?thesis using six [of a] af by (simp add: getbyname_loop_def sockaddr_size_def)
  qed
qed

lemma getbyname_text:
  assumes "af \<in> {AF_INET, AF_INET6}" and "length ip = address_size af" and "sa_family a = Done f" and "f \<in> {AF_UNSPEC, af}"
    and "SOCKADDR_IN6_SIZE \<le> unat asize" and "unat asize \<le> length a" and "unat asize < 2 ^ 31"
  shows "cat_sockaddr__getbyname ifx a (Some asize) (address_text af ip @ 0 # t) n port =
    Done (None, sockaddr_of af ip port @ drop (sockaddr_size af) a, Some (of_nat (sockaddr_size af)))"
proof -
  let ?f = "if f = AF_UNSPEC then AF_INET else f"
  have "\<not> sint asize < 2" using size_has_family [OF _ assms(7)] assms(5) by simp
  moreover have "f \<noteq> AF_LOCAL" using assms(1,4) by auto
  moreover have "getbyname_loop ifx ?f (f = AF_UNSPEC) a asize (address_text af ip @ 0 # t) port =
      Done (None, sockaddr_of af ip port @ drop (sockaddr_size af) a, of_nat (sockaddr_size af), af)"
    using assms(1,2,4-6) by (intro getbyname_loop_text) auto
  moreover obtain r where "sockaddr_of af ip port = family_bytes af @ r" using sockaddr_of_family [OF assms(1)] by blast
  ultimately show ?thesis using assms(3) by (simp add: cat_sockaddr__getbyname_def Let_def)
qed

subsection \<open>Writing the name\<close>

lemma sockaddr_of_read:
  assumes "af \<in> {AF_INET, AF_INET6}" and "length ip = address_size af"
  shows "sa_family (sockaddr_of af ip port) = Done af"
    "mem_read (sockaddr_of af ip port) 2 2 = Done (port_bytes port)"
    "mem_read (sockaddr_of af ip port) (if af = AF_INET6 then 8 else 4) (address_size af) = Done ip"
  using assms by (auto simp: sockaddr_of_def sockaddr_in_def sockaddr_in6_def address_size_def)

lemma get_address_text:
  assumes "af \<in> {AF_INET, AF_INET6}" and "length ip = address_size af" and "INET6_ADDRSTRLEN \<le> unat n" and "unat n \<le> length buffer"
  shows "\<exists>t. cat_sockaddr_get_address_silent (sockaddr_of af ip port) al buffer n =
    Done (None, address_text af ip @ 0 # t, of_nat (length (address_text af ip)))"
proof -
  let ?b = "0 # drop 1 buffer"
  have "buffer \<noteq> []" using assms(3,4) by auto
  then have b: "mem_write buffer 0 [0] = Done ?b" "length ?b = length buffer" by (cases buffer; simp)+
  obtain t where t: "uv_inet_ntop af ip ?b (unat n) = Done (None, address_text af ip @ 0 # t)"
    using ntop_text [OF assms(1,2,3), of ?b] assms(4) b(2) by auto
  have "0 < n" using assms(3) by (auto simp: word_gt_0)
  moreover have "get_inet_name (Done (None, address_text af ip @ 0 # t)) k =
      Done (None, address_text af ip @ 0 # t, of_nat (length (address_text af ip)))" for k
    using address_text_no_zero [of af ip] by (simp add: get_inet_name_def)
  ultimately show ?thesis using assms(1) sockaddr_of_read [OF assms(1,2), of port] b t
    by (auto simp: cat_sockaddr_get_address_silent_def uv_ip4_name_def uv_ip6_name_def address_size_def)
qed

text \<open>C12: An internet address written as a name with its port, and the name looked up again: the same object, with
  the family given or to be guessed.\<close>

theorem sockaddr_name_round_trip:
  assumes "af \<in> {AF_INET, AF_INET6}" and "length ip = address_size af" and "0 \<le> port" and "port < 65536"
    and "INET6_ADDRSTRLEN \<le> unat n" and "unat n \<le> length buffer"
    and "sa_family a = Done f" and "f \<in> {AF_UNSPEC, af}"
    and "SOCKADDR_IN6_SIZE \<le> unat asize" and "unat asize \<le> length a" and "unat asize < 2 ^ 31"
  shows "\<exists>name len.
    cat_sockaddr_to_name_silent (sockaddr_of af ip port) (of_nat (sockaddr_size af)) (Some (buffer, n)) True =
      Done (None, Some (name, len), Some (Inr port)) \<and>
    cat_sockaddr__getbyname ifx a (Some asize) name len port =
      Done (None, sockaddr_of af ip port @ drop (sockaddr_size af) a, Some (of_nat (sockaddr_size af)))"
proof -
  obtain t where t: "cat_sockaddr_get_address_silent (sockaddr_of af ip port) (of_nat (sockaddr_size af)) buffer n =
      Done (None, address_text af ip @ 0 # t, of_nat (length (address_text af ip)))"
    using get_address_text [OF assms(1,2,5,6)] by blast
  have "cat_sockaddr_get_port_silent (sockaddr_of af ip port) = Done (Inr port)"
    using sockaddr_of_read [OF assms(1,2), of port] port_round_trip [OF assms(3,4)] assms(1)
    by (auto simp: cat_sockaddr_get_port_silent_def)
  moreover have "(0 :: u32) < of_nat (sockaddr_size af)" by (simp add: sockaddr_size_def)
  ultimately show ?thesis using t getbyname_text [OF assms(1,2,7-11)]
    by (simp add: cat_sockaddr_to_name_silent_def)
qed

theorem sockaddr_name_round_trip_witness:
  "\<exists>name len.
    cat_sockaddr_to_name_silent (sockaddr_of AF_INET6 (1 # replicate 15 0) 8080) (of_nat (sockaddr_size AF_INET6))
      (Some (replicate 46 0, 46)) True = Done (None, Some (name, len), Some (Inr 8080)) \<and>
    cat_sockaddr__getbyname (\<lambda>_. 0) (replicate 28 0) (Some 28) name len 8080 =
      Done (None, sockaddr_of AF_INET6 (1 # replicate 15 0) 8080 @ drop (sockaddr_size AF_INET6) (replicate 28 0),
        Some (of_nat (sockaddr_size AF_INET6)))"
proof (rule sockaddr_name_round_trip [where f = AF_UNSPEC])
  show "sa_family (replicate 28 0) = Done AF_UNSPEC" by (simp add: sa_family_def bytes_family_def numeral_2_eq_2)
qed (simp_all add: address_size_def)

subsection \<open>Local names\<close>

lemma ucast_of_nat: "k < 2 ^ 32 \<Longrightarrow> ucast (of_nat k :: size_t) = (of_nat k :: u32)" "k < 2 ^ 32 \<Longrightarrow> ucast (of_nat k :: u32) = (of_nat k :: size_t)"
  by (simp_all add: unsigned_of_nat take_bit_nat_eq_self)

lemma strnlen_text: "0 \<notin> set s \<Longrightarrow> length s < n \<Longrightarrow> cat_strnlen (s @ 0 # t) n = Done (length s)"
proof (induction s arbitrary: n)
  case Nil
  then show ?case by (cases n) simp_all
next
  case (Cons c s)
  then show ?case by (cases n) auto
qed

text \<open>The object of a local name, with and without the terminating zero.\<close>

definition sockaddr_local :: "byte list \<Rightarrow> byte list" where
  "sockaddr_local name = family_bytes AF_LOCAL @ name @ (if hd name = 0 then [] else [0])"

lemma sockaddr_local_length: "length (sockaddr_local name) = 2 + length name + (if hd name = 0 then 0 else 1)"
  by (simp add: sockaddr_local_def)

lemma getbyname_local_text:
  assumes "name \<noteq> []" and "length name < CAT_SOCKADDR_MAX_PATH" and "length (sockaddr_local name) \<le> unat asize" and "unat asize \<le> length a"
  shows "getbyname_local a asize (name @ t) (of_nat (length name)) =
    Done (None, sockaddr_local name @ drop (length (sockaddr_local name)) a, of_nat (length (sockaddr_local name)))"
proof -
  let ?n = "of_nat (length name) :: size_t" and ?r = "of_nat (length (sockaddr_local name)) :: u32"
  have n: "unat ?n = length name" "?n \<noteq> 0" "0 < ?n"
    using assms(1,2) unat_of_nat_lt [of "length name", where 'a = 64] by (auto simp: word_gt_0 unat_eq_zero)
  have lan: "is_linux_abstract_name (name @ t) ?n = Done (hd name = 0)"
    using assms(1) n by (cases name) (simp_all add: is_linux_abstract_name_def)
  have r: "2 + ucast ?n + (if hd name = 0 then 0 else 1) = ?r" "\<not> ?r > asize"
    using assms(2,3) unat_of_nat_lt [of "length (sockaddr_local name)", where 'a = 32] ucast_of_nat(1) [of "length name"]
    by (auto simp: sockaddr_local_length word_less_nat_alt)
  show ?thesis unfolding getbyname_local_def lan c_bind.simps Let_def r(1)
    using assms n r(2) by (cases "hd name = 0") (simp_all add: sockaddr_local_def)
qed

lemma get_local_name_text:
  assumes "name \<noteq> []" and "length name < CAT_SOCKADDR_MAX_PATH" and "hd name = 0 \<or> 0 \<notin> set name"
    and "CAT_SOCKADDR_MAX_PATH \<le> unat n" and "unat n \<le> length buffer"
  shows "\<exists>t. get_local_name (sockaddr_local name @ rest) (of_nat (length (sockaddr_local name))) buffer n =
    Done (None, name @ t, of_nat (length name))"
proof -
  let ?l = "ucast (of_nat (length (sockaddr_local name)) :: u32) - 2 :: size_t"
  let ?k = "length name + (if hd name = 0 then 0 else 1)"
  have l: "?l = of_nat ?k" using assms(2) ucast_of_nat(2) [of "length (sockaddr_local name)"] by (simp add: sockaddr_local_length)
  have u: "unat (of_nat ?k :: size_t) = ?k" "unat (of_nat (length name) :: size_t) = length name"
    using assms(2) by (intro unat_of_nat_lt; simp)+
  then have nz: "(of_nat ?k :: size_t) \<noteq> 0" using assms(1) by (metis add_is_0 length_0_conv unsigned_0)
  have path: "drop 2 (sockaddr_local name @ rest) = name @ (if hd name = 0 then [] else [0]) @ rest" by (simp add: sockaddr_local_def)
  have lan: "is_linux_abstract_name (drop 2 (sockaddr_local name @ rest)) ?l = Done (hd name = 0)"
    unfolding l path using assms(1) nz by (cases name) (simp_all add: is_linux_abstract_name_def)
  have needed: "\<not> of_nat ?k > n" using assms(2,4) u(1) by (simp add: word_less_nat_alt)
  show ?thesis
  proof (cases "hd name = 0")
    case True
    then show ?thesis using lan needed u l path assms(2,4,5) by (simp add: get_local_name_def Let_def)
  next
    case False
    then have "cat_strnlen (name @ 0 # rest) ?k = Done (length name)" using assms(3) by (intro strnlen_text) auto
    then show ?thesis using False lan needed u l path assms(2,4,5)
      by (simp add: get_local_name_def Let_def add.commute)
  qed
qed

text \<open>A local name, a path or a name of the abstract name space, put into an address and read from it again.\<close>

theorem local_name_round_trip:
  assumes "name \<noteq> []" and "length name < CAT_SOCKADDR_MAX_PATH" and "hd name = 0 \<or> 0 \<notin> set name"
    and "sa_family a = Done AF_LOCAL" and "2 + CAT_SOCKADDR_MAX_PATH \<le> unat asize" and "unat asize \<le> length a" and "unat asize < 2 ^ 31"
    and "CAT_SOCKADDR_MAX_PATH \<le> unat n" and "unat n \<le> length buffer"
  shows "\<exists>a' l t. cat_sockaddr__getbyname ifx a (Some asize) (name @ rest) (of_nat (length name)) port = Done (None, a', Some l) \<and>
    cat_sockaddr_get_address_silent a' l buffer n = Done (None, name @ t, of_nat (length name))"
proof -
  let ?s = "sockaddr_local name"
  have "length ?s \<le> unat asize" using assms(2,5) by (simp add: sockaddr_local_length)
  then have g: "cat_sockaddr__getbyname ifx a (Some asize) (name @ rest) (of_nat (length name)) port =
      Done (None, ?s @ drop (length ?s) a, Some (of_nat (length ?s)))"
    using getbyname_local_text [OF assms(1,2) _ assms(6), of rest] size_has_family [OF _ assms(7)] assms(4,5)
    by (simp add: cat_sockaddr__getbyname_def)
  have "buffer \<noteq> []" "0 < n" using assms(8,9) by (auto simp: word_gt_0)
  then have b: "mem_write buffer 0 [0] = Done (0 # drop 1 buffer)" "length (0 # drop 1 buffer) = length buffer" by (cases buffer; simp)+
  obtain t where "get_local_name (?s @ drop (length ?s) a) (of_nat (length ?s)) (0 # drop 1 buffer) n = Done (None, name @ t, of_nat (length name))"
    using get_local_name_text [OF assms(1-3,8), of "0 # drop 1 buffer"] assms(9) b(2) by auto
  moreover have "sa_family (?s @ drop (length ?s) a) = Done AF_LOCAL" by (simp add: sockaddr_local_def)
  ultimately show ?thesis using g b \<open>0 < n\<close> by (auto simp: cat_sockaddr_get_address_silent_def)
qed

theorem local_name_round_trip_witness:
  "\<exists>a' l t. cat_sockaddr__getbyname (\<lambda>_. 0) (family_bytes AF_LOCAL @ replicate 108 9) (Some 110) ([0, 97, 0, 98] @ []) (of_nat (length [0 :: byte, 97, 0, 98])) 0 =
      Done (None, a', Some l) \<and>
    cat_sockaddr_get_address_silent a' l (replicate 108 1) 108 = Done (None, [0, 97, 0, 98] @ t, of_nat (length [0 :: byte, 97, 0, 98]))"
  by (rule local_name_round_trip) simp_all

subsection \<open>What a lookup may touch\<close>

text \<open>Of the object \<open>a\<close> at most the first \<open>k\<close> bytes have changed, and its family is \<open>af\<close>.\<close>

definition rewritten :: "inet_family \<Rightarrow> nat \<Rightarrow> byte list \<Rightarrow> byte list \<Rightarrow> bool" where
  "rewritten af k a a' \<longleftrightarrow> length a' = length a \<and> take 2 a' = family_bytes af \<and> drop k a' = drop k a"

lemma rewritten_more: "rewritten af k a a' \<Longrightarrow> k \<le> m \<Longrightarrow> rewritten af m a a'"
proof -
  assume a: "rewritten af k a a'" "k \<le> m"
  then have "drop (m - k) (drop k a') = drop (m - k) (drop k a)" by (simp add: rewritten_def)
  then show ?thesis using a by (simp add: rewritten_def)
qed

lemma rewritten_trans: "rewritten af k a b \<Longrightarrow> rewritten af' k b c \<Longrightarrow> rewritten af' k a c"
  by (simp add: rewritten_def)

lemma rewritten_family: "rewritten af k a a' \<Longrightarrow> 2 \<le> length a \<Longrightarrow> sa_family a' = Done af"
  by (simp add: rewritten_def sa_family_def)

lemma family_same: "take 2 a = family_bytes f \<Longrightarrow> 2 \<le> length a \<Longrightarrow> mem_write a 0 (family_bytes f) = Done a"
  using append_take_drop_id [of 2 a] by (simp add: mem_write_def eval_nat_numeral)

lemma write_rewritten:
  assumes "2 \<le> off" and "off + length b \<le> k" and "k \<le> length a" and "rewritten g k a0 a"
  shows "\<exists>a'. mem_write a off b = Done a' \<and> rewritten g k a0 a'"
proof -
  have "take 2 (take off a @ b @ drop (off + length b) a) = take 2 a" using assms(1-3) by (simp add: min_def)
  moreover have "drop k (take off a @ b @ drop (off + length b) a) = drop k a" using assms(2,3) by simp
  ultimately show ?thesis using assms by (simp add: rewritten_def)
qed

lemma put_address_answers:
  assumes "2 \<le> off" and "off + address_size af \<le> k" and "k \<le> length a" and "take 2 a = family_bytes g"
    and "af = AF_INET6 \<longrightarrow> PERCENT \<notin> set ip"
  shows "\<exists>e a'. put_address af off ip a = Done (e, a') \<and> rewritten g k a a'"
proof -
  obtain r where "uv_inet_pton af ip = Done r" "\<And>d. r = Inr d \<Longrightarrow> length d = address_size af"
    using pton_answers [of af ip] assms(5) by blast
  then show ?thesis using assms
    by (cases r) (auto simp: put_address_def rewritten_def min_def simp flip: length_0_conv simp del: length_0_conv)
qed

lemma ip4_addr_answers:
  assumes "SOCKADDR_IN_SIZE \<le> length a"
  shows "\<exists>e a'. uv_ip4_addr ip port a = Done (e, a') \<and> rewritten AF_INET SOCKADDR_IN_SIZE a a'"
proof -
  let ?h = "family_bytes AF_INET @ port_bytes port @ replicate 12 0 @ drop SOCKADDR_IN_SIZE a"
  have h: "rewritten AF_INET SOCKADDR_IN_SIZE a ?h" using assms by (simp add: rewritten_def)
  obtain e a' where "put_address AF_INET 4 ip ?h = Done (e, a')" "rewritten AF_INET SOCKADDR_IN_SIZE ?h a'"
    using put_address_answers [of 4 AF_INET SOCKADDR_IN_SIZE ?h AF_INET ip] h assms by (auto simp: address_size_def rewritten_def)
  then show ?thesis unfolding uv_ip4_addr_def using rewritten_trans [OF h]
    by (subst header_written [OF assms]) auto
qed

lemma ip6_addr_answers:
  assumes "SOCKADDR_IN6_SIZE \<le> length a"
  shows "\<exists>e a'. uv_ip6_addr ifx ip port a = Done (e, a') \<and> rewritten AF_INET6 SOCKADDR_IN6_SIZE a a'"
proof -
  let ?h = "family_bytes AF_INET6 @ port_bytes port @ replicate 24 0 @ drop SOCKADDR_IN6_SIZE a"
  have h: "rewritten AF_INET6 SOCKADDR_IN6_SIZE a ?h" using assms by (simp add: rewritten_def)
  have put: "\<exists>e a'. put_address AF_INET6 8 t b = Done (e, a') \<and> rewritten AF_INET6 SOCKADDR_IN6_SIZE a a'"
    if b: "rewritten AF_INET6 SOCKADDR_IN6_SIZE ?h b" and t: "PERCENT \<notin> set t" for t b
  proof -
    have "SOCKADDR_IN6_SIZE \<le> length b" "take 2 b = family_bytes AF_INET6" using b h assms by (simp_all add: rewritten_def)
    then obtain e a' where "put_address AF_INET6 8 t b = Done (e, a')" "rewritten AF_INET6 SOCKADDR_IN6_SIZE b a'"
      using put_address_answers [of 8 AF_INET6 SOCKADDR_IN6_SIZE b AF_INET6 t] t by (auto simp: address_size_def)
    then show ?thesis using rewritten_trans [OF h rewritten_trans [OF b]] by auto
  qed
  have scope: "\<exists>b. mem_write ?h 24 (scope_bytes w) = Done b \<and> rewritten AF_INET6 SOCKADDR_IN6_SIZE ?h b" for w
    using assms by (auto simp: rewritten_def)
  have "rewritten AF_INET6 SOCKADDR_IN6_SIZE ?h ?h" by (simp add: rewritten_def)
  note here = put [OF this, of ip]
  have zone: "\<exists>e a'. c_bind (mem_write ?h 24 (scope_bytes w)) (put_address AF_INET6 8 t) = Done (e, a') \<and> rewritten AF_INET6 SOCKADDR_IN6_SIZE a a'"
    if "PERCENT \<notin> set t" for w t
    using scope [of w] put that by fastforce
  have part: "PERCENT \<notin> set (take n ip)" if "n \<le> length (takeWhile (\<lambda>c. c \<noteq> PERCENT) ip)" for n
  proof -
    have "take n ip = take n (takeWhile (\<lambda>c. c \<noteq> PERCENT) ip)" using that by (metis append_take_drop_id takeWhile_eq_take take_take min.absorb1)
    then show ?thesis by (auto dest!: in_set_takeD set_takeWhileD)
  qed
  show ?thesis unfolding uv_ip6_addr_def using here zone [OF part]
    by (subst header_written [OF assms]) (auto simp: Let_def)
qed

lemma getbyname_inet6_answers:
  assumes "unat asize \<le> length a" and "0 \<in> set name" and "take 2 a = family_bytes g"
  shows "\<exists>e a' f. getbyname_inet6 ifx a asize name port = Done (e, a', 28, AF_INET6) \<and> rewritten f (unat asize) a a' \<and>
    (e = None \<longrightarrow> SOCKADDR_IN6_SIZE \<le> unat asize \<and> f = AF_INET6)"
proof (cases "unat asize < SOCKADDR_IN6_SIZE")
  case True
  then show ?thesis using assms(3) by (auto simp: getbyname_inet6_def rewritten_def)
next
  case False
  obtain e a' where "uv_ip6_addr ifx (c_text name) port a = Done (e, a')" "rewritten AF_INET6 SOCKADDR_IN6_SIZE a a'"
    using ip6_addr_answers [of a ifx "c_text name" port] False assms(1) by auto
  then show ?thesis using False assms(2) rewritten_more [of AF_INET6 SOCKADDR_IN6_SIZE a a' "unat asize"]
    by (auto simp: getbyname_inet6_def c_str_def)
qed

lemma getbyname_loop_answers:
  assumes "unat asize \<le> length a" and "0 \<in> set name" and "take 2 a = family_bytes g"
  shows "\<exists>e a' l f g. getbyname_loop ifx af unspec a asize name port = Done (e, a', l, f) \<and> rewritten g (unat asize) a a' \<and>
    (e = None \<longrightarrow> f \<in> {AF_INET, AF_INET6} \<and> l = of_nat (sockaddr_size f) \<and> l \<le> asize \<and> g = f)"
proof -
  have six: ?thesis if "getbyname_loop ifx af unspec a asize name port = getbyname_inet6 ifx b asize name port" "rewritten h (unat asize) a b" for b h
  proof -
    have "unat asize \<le> length b" "take 2 b = family_bytes h" using that(2) assms(1) by (auto simp: rewritten_def)
    from getbyname_inet6_answers [OF this(1) assms(2) this(2), of ifx port] obtain e a' f where
      "getbyname_inet6 ifx b asize name port = Done (e, a', 28, AF_INET6)" "rewritten f (unat asize) b a'"
      "e = None \<Longrightarrow> SOCKADDR_IN6_SIZE \<le> unat asize \<and> f = AF_INET6" by blast
    then show ?thesis using that rewritten_trans [OF that(2)]
      by (auto simp: sockaddr_size_def word_le_nat_alt)
  qed
  have same: "rewritten g (unat asize) a a" using assms(3) by (simp add: rewritten_def)
  show ?thesis
  proof (cases "af = AF_INET")
    case True
    show ?thesis
    proof (cases "unat asize < SOCKADDR_IN_SIZE")
      case True
      then show ?thesis using \<open>af = AF_INET\<close> same by (auto simp: getbyname_loop_def)
    next
      case False
      then obtain e b where b: "uv_ip4_addr (c_text name) port a = Done (e, b)" "rewritten AF_INET (unat asize) a b"
        using ip4_addr_answers [of a "c_text name" port] assms(1) rewritten_more by fastforce
      show ?thesis
      proof (cases "e = Some CAT_EINVAL \<and> unspec")
        case True
        then show ?thesis using b(1) False \<open>af = AF_INET\<close> assms(2) by (intro six [OF _ b(2)]) (simp add: getbyname_loop_def c_str_def)
      next
        case plain: False
        then have "getbyname_loop ifx af unspec a asize name port = Done (e, b, 16, AF_INET)"
          using b(1) False \<open>af = AF_INET\<close> assms(2) by (auto simp: getbyname_loop_def c_str_def)
        then show ?thesis using b(2) False by (auto simp: sockaddr_size_def word_le_nat_alt)
      qed
    qed
  next
    case False
    show ?thesis
    proof (cases "af = AF_INET6")
      case True
      then show ?thesis by (intro six [OF _ same]) (simp add: getbyname_loop_def)
    next
      case other: False
      then have "getbyname_loop ifx af unspec a asize name port = Done (Some CAT_EAFNOSUPPORT, a, 0, af)"
        using False by (cases af) (auto simp: getbyname_loop_def)
      then show ?thesis using same by auto
    qed
  qed
qed

lemma getbyname_local_answers:
  assumes "2 \<le> unat asize" and "unat asize \<le> length a" and "unat nlen \<le> length name" and "take 2 a = family_bytes AF_LOCAL"
  shows "\<exists>e a' l. getbyname_local a asize name nlen = Done (e, a', l) \<and> rewritten AF_LOCAL (unat asize) a a' \<and>
    (e = None \<longrightarrow> 2 \<le> l \<and> l \<le> asize)"
proof (cases "unat nlen \<ge> CAT_SOCKADDR_MAX_PATH")
  case True
  then show ?thesis using assms(4) by (simp add: getbyname_local_def rewritten_def)
next
  case False
  have "\<exists>lan. is_linux_abstract_name name nlen = Done lan"
  proof (cases "nlen = 0")
    case False
    then have "0 < unat nlen" by (simp add: unat_gt_0)
    then show ?thesis using assms(3) False by (simp add: is_linux_abstract_name_def mem_read_def)
  qed (auto simp: is_linux_abstract_name_def)
  then obtain lan where lan: "is_linux_abstract_name name nlen = Done lan" by blast
  let ?k = "2 + unat nlen + (if lan then 0 else 1)"
  define real_length where "real_length = (2 + ucast nlen + (if lan then 0 else 1) :: u32)"
  have "real_length = of_nat ?k" by (simp add: real_length_def)
  then have u: "unat real_length = ?k" 
    using False unat_of_nat_lt [of ?k, where 'a = 32] by simp
  note unfolded = getbyname_local_def lan c_bind.simps Let_def real_length_def [symmetric]
  show ?thesis
  proof (cases "real_length > asize")
    case True
    then show ?thesis unfolding unfolded using False assms(4) by (simp add: rewritten_def)
  next
    case fits: False
    then have k: "?k \<le> unat asize" "2 \<le> real_length" "real_length \<le> asize" using u by (auto simp: word_le_nat_alt word_less_nat_alt)
    have a1: "mem_write a 0 (family_bytes AF_LOCAL) = Done a" "rewritten AF_LOCAL (unat asize) a a"
      using family_same [OF assms(4)] assms by (simp_all add: rewritten_def)
    obtain b where b: "mem_read name 0 (unat nlen) = Done b" "length b = unat nlen" using assms(3) by simp
    then obtain a2 where a2: "mem_write a 2 b = Done a2" "rewritten AF_LOCAL (unat asize) a a2"
      using write_rewritten [OF _ _ _ a1(2), of 2 b] b(2) k(1) assms(2) by (auto split: if_splits)
    have "unat asize \<le> length a2" using a2(2) assms(2) by (simp add: rewritten_def)
    then obtain a3 where a3: "(if lan then Done a2 else mem_write a2 (2 + unat nlen) [0]) = Done a3" "rewritten AF_LOCAL (unat asize) a a3"
      using write_rewritten [OF _ _ _ a2(2), of "2 + unat nlen" "[0]"] a2(2) k(1) by (cases lan) auto
    show ?thesis unfolding unfolded a1(1)
      using False fits k(2,3) a1(2) b(1) a2(1) a3 by (auto simp: not_le)
  qed
qed

lemma size_t_two: "\<not> sint (n :: u32) < 2 \<Longrightarrow> 2 \<le> unat n"
proof (rule ccontr)
  assume a: "\<not> sint n < 2" "\<not> 2 \<le> unat n"
  then have "sint n = int (unat n)" by (intro sint_size) simp
  then have "\<not> int (unat n) < int 2" using a(1) by (simp only: of_nat_numeral not_False_eq_True)
  then show False using a(2) by (simp only: of_nat_less_iff not_less)
qed

lemma bytes_family_known: "bytes_family b \<noteq> AF_OTHER \<Longrightarrow> b = family_bytes (bytes_family b)"
  by (auto simp: bytes_family_def family_bytes_def split: if_splits)

lemma check_of_family:
  "af \<in> {AF_INET, AF_INET6, AF_LOCAL} \<Longrightarrow> sa_family a = Done af \<Longrightarrow> the (min_length af) \<le> l \<Longrightarrow> cat_sockaddr_check_silent a l = Done None"
  by (auto simp: cat_sockaddr_check_silent_def min_length_def)

text \<open>C13: A lookup returns whatever the name is, changes nothing of the object behind the \<^verbatim>\<open>*address_length\<close> bytes it
  was given, and when it succeeds the object is one that \<^verbatim>\<open>cat_sockaddr_check\<close> accepts with the length it
  returned, which is within the size.\<close>

theorem getbyname_safe:
  assumes "unat asize \<le> length a" and "0 \<in> set name" and "unat nlen \<le> length name"
  shows "\<exists>e a' l. cat_sockaddr__getbyname ifx a (Some asize) name nlen port = Done (e, a', Some l) \<and>
    length a' = length a \<and> drop (unat asize) a' = drop (unat asize) a \<and>
    (e = None \<longrightarrow> l \<le> asize \<and> cat_sockaddr_check_silent a' l = Done None)"
proof (cases "sint asize < 2")
  case True
  then show ?thesis by (simp add: cat_sockaddr__getbyname_def)
next
  case False
  have two: "2 \<le> unat asize" using False size_t_two [of asize] by simp
  let ?f = "bytes_family (take 2 a)"
  have fam: "sa_family a = Done ?f" using two assms(1) by (simp add: sa_family_def)
  show ?thesis
  proof (cases "?f = AF_LOCAL")
    case True
    then have "take 2 a = family_bytes AF_LOCAL" using bytes_family_known [of "take 2 a"] by simp
    then obtain e a' l where l: "getbyname_local a asize name nlen = Done (e, a', l)" "rewritten AF_LOCAL (unat asize) a a'"
      "e = None \<Longrightarrow> 2 \<le> l \<and> l \<le> asize" using getbyname_local_answers [OF two assms(1,3)] by blast
    have "sa_family a' = Done AF_LOCAL" using rewritten_family [OF l(2)] two assms(1) by simp
    then have "e = None \<Longrightarrow> cat_sockaddr_check_silent a' l = Done None" using l(3) by (intro check_of_family) (auto simp: min_length_def)
    then show ?thesis using l False fam True by (auto simp: cat_sockaddr__getbyname_def rewritten_def)
  next
    case inet: False
    let ?g = "if ?f = AF_UNSPEC then AF_INET else ?f"
    show ?thesis
    proof (cases "?f = AF_OTHER")
      case True
      then show ?thesis using False fam by (simp add: cat_sockaddr__getbyname_def getbyname_loop_def)
    next
      case known: False
      obtain e a' l f g where loop: "getbyname_loop ifx ?g (?f = AF_UNSPEC) a asize name port = Done (e, a', l, f)"
        "rewritten g (unat asize) a a'" "e = None \<Longrightarrow> f \<in> {AF_INET, AF_INET6} \<and> l = of_nat (sockaddr_size f) \<and> l \<le> asize \<and> g = f"
        using getbyname_loop_answers [OF assms(1,2) bytes_family_known [OF known]] by blast
      show ?thesis
      proof (cases e)
        case None
        note f = loop(3) [OF None]
        then have a': "take 2 a' = family_bytes f" "2 \<le> length a'" using loop(2) two assms(1) by (auto simp: rewritten_def)
        note family_same [OF this]
        moreover have "cat_sockaddr_check_silent a' l = Done None"
          using f rewritten_family [OF loop(2)] two assms(1) by (intro check_of_family [of f]) (auto simp: min_length_def sockaddr_size_def)
        ultimately show ?thesis using None f loop False fam inet
          by (auto simp: cat_sockaddr__getbyname_def rewritten_def Let_def)
      next
        case (Some err)
        then show ?thesis using loop(1,2) False fam inet by (simp add: cat_sockaddr__getbyname_def rewritten_def Let_def)
      qed
    qed
  qed
qed

theorem getbyname_safe_witness:
  "\<exists>e a' l. cat_sockaddr__getbyname (\<lambda>_. 0) (replicate 20 0) (Some 16) [58, 58, 49, 0] 3 80 = Done (e, a', Some l) \<and>
    length a' = length (replicate 20 (0 :: byte)) \<and> drop (unat (16 :: u32)) a' = drop (unat (16 :: u32)) (replicate 20 0) \<and>
    (e = None \<longrightarrow> l \<le> 16 \<and> cat_sockaddr_check_silent a' l = Done None)"
  by (rule getbyname_safe) simp_all

subsection \<open>Defects\<close>

text \<open>With the family left open and room for an IPv4 address only, the lookup of an IPv6 text answers \<^verbatim>\<open>CAT_ENOSPC\<close>
  and the size that is needed, but has set the family of the object to \<^verbatim>\<open>AF_INET\<close> by then: repeated with the room
  it asked for, the same lookup fails.\<close>

theorem getbyname_retry_fails:
  assumes "length ip = 16" and "sa_family a = Done AF_UNSPEC" and "length a = SOCKADDR_IN6_SIZE"
    and "SOCKADDR_IN_SIZE \<le> unat asize" and "unat asize < SOCKADDR_IN6_SIZE"
  shows "\<exists>a' a''. cat_sockaddr__getbyname ifx a (Some asize) (inet6_text ip @ [0]) n port = Done (Some CAT_ENOSPC, a', Some 28) \<and>
    cat_sockaddr__getbyname ifx a' (Some 28) (inet6_text ip @ [0]) n port = Done (Some CAT_EINVAL, a'', Some 16)"
proof -
  let ?a' = "family_bytes AF_INET @ port_bytes port @ replicate 12 0 @ drop SOCKADDR_IN_SIZE a"
  have text6: "c_str (inet6_text ip @ [0]) = Done (inet6_text ip)" using c_str_text [OF inet6_text_no_zero, of ip "[]"] by simp
  have four: "uv_ip4_addr (inet6_text ip) port b = Done (Some CAT_EINVAL, family_bytes AF_INET @ port_bytes port @ replicate 12 0 @ drop SOCKADDR_IN_SIZE b)"
    if "length b = SOCKADDR_IN6_SIZE" for b using ip4_addr_fails [OF _ inet6_not_inet4 [of ip], of b port] that by simp
  have "getbyname_inet6 ifx ?a' asize (inet6_text ip @ [0]) port = Done (Some CAT_ENOSPC, ?a', 28, AF_INET6)"
    using assms(5) by (simp add: getbyname_inet6_def)
  then have "cat_sockaddr__getbyname ifx a (Some asize) (inet6_text ip @ [0]) n port = Done (Some CAT_ENOSPC, ?a', Some 28)"
    using assms(2,4,5) size_has_family [of asize] text6 four [OF assms(3)]
    by (simp add: cat_sockaddr__getbyname_def getbyname_loop_def)
  moreover have "length ?a' = SOCKADDR_IN6_SIZE" using assms(3) by simp
  then have "\<exists>a''. cat_sockaddr__getbyname ifx ?a' (Some 28) (inet6_text ip @ [0]) n port = Done (Some CAT_EINVAL, a'', Some 16)"
    using text6 four [of ?a'] size_has_family [of 28] by (simp add: cat_sockaddr__getbyname_def getbyname_loop_def)
  ultimately show ?thesis by blast
qed

theorem getbyname_retry_fails_witness:
  "\<exists>a' a''. cat_sockaddr__getbyname (\<lambda>_. 0) (replicate 28 0) (Some 16) (inet6_text (replicate 16 0) @ [0]) 2 80 = Done (Some CAT_ENOSPC, a', Some 28) \<and>
    cat_sockaddr__getbyname (\<lambda>_. 0) a' (Some 28) (inet6_text (replicate 16 0) @ [0]) 2 80 = Done (Some CAT_EINVAL, a'', Some 16)"
proof (rule getbyname_retry_fails)
  show "sa_family (replicate 28 0) = Done AF_UNSPEC" by (simp add: sa_family_def bytes_family_def numeral_2_eq_2)
qed simp_all

text \<open>In front of a zone the text of the address is cut to 39 bytes, less than the longest text of an IPv6 address:
  \<^verbatim>\<open>0000:0000:0000:0000:0000:ffff:1.22.33.144%e\<close> is accepted as the address that ends in \<^verbatim>\<open>1.22.33.1\<close>, and refused
  nowhere.\<close>

definition long_mapped_text :: "byte list" where
  "long_mapped_text = [48, 48, 48, 48, 58, 48, 48, 48, 48, 58, 48, 48, 48, 48, 58,
     48, 48, 48, 48, 58, 48, 48, 48, 48, 58,
     102, 102, 102, 102, 58, 49, 46, 50, 50, 46, 51, 51, 46, 49, 52, 52]"

lemmas pton_eval = long_mapped_text_def uv_inet_pton_def inet_pton6_def xdigit_value_def inet_pton4_def digit_value_def Let_def
  word_bytes_def pton6_finish_def mem_read_def

theorem zone_cuts_address:
  "uv_inet_pton AF_INET6 long_mapped_text = Done (Inr [0, 0, 0, 0, 0, 0, 0, 0, 0, 0, 255, 255, 1, 22, 33, 144]) \<and>
   uv_ip6_addr (\<lambda>_. 1) (long_mapped_text @ [PERCENT, 101]) 0 (replicate 28 0) =
     Done (None, sockaddr_in6 [0, 0, 0, 0, 0, 0, 0, 0, 0, 0, 255, 255, 1, 22, 33, 1] 0 (scope_bytes 1))"
proof
  show "uv_inet_pton AF_INET6 long_mapped_text = Done (Inr [0, 0, 0, 0, 0, 0, 0, 0, 0, 0, 255, 255, 1, 22, 33, 144])"
    by (simp add: pton_eval)
  have "uv_inet_pton AF_INET6 (take 39 long_mapped_text) = Done (Inr [0, 0, 0, 0, 0, 0, 0, 0, 0, 0, 255, 255, 1, 22, 33, 1])"
    by (simp add: pton_eval)
  moreover have "takeWhile (\<lambda>c. c \<noteq> PERCENT) (long_mapped_text @ [PERCENT, 101]) = long_mapped_text"
    by (simp add: long_mapped_text_def)
  moreover have "length long_mapped_text = 41" by (simp add: long_mapped_text_def)
  ultimately show "uv_ip6_addr (\<lambda>_. 1) (long_mapped_text @ [PERCENT, 101]) 0 (replicate 28 0) =
     Done (None, sockaddr_in6 [0, 0, 0, 0, 0, 0, 0, 0, 0, 0, 255, 255, 1, 22, 33, 1] 0 (scope_bytes 1))"
    by (simp add: uv_ip6_addr_def put_address_def sockaddr_in6_def)
qed

text \<open>The empty local name counts one byte for the terminating zero but does not write it: the name of the address is
  the byte that was in the object before.\<close>

theorem empty_local_name_stale:
  "c \<noteq> 0 \<Longrightarrow>
   cat_sockaddr__getbyname ifx (family_bytes AF_LOCAL @ [c] @ r) (Some 3) [0] 0 port =
     Done (None, family_bytes AF_LOCAL @ [c] @ r, Some 3) \<and>
   cat_sockaddr_get_address_silent (family_bytes AF_LOCAL @ [c] @ r) 3 [0, 0] 2 = Done (None, [c, 0], 1)"
proof
  show "cat_sockaddr__getbyname ifx (family_bytes AF_LOCAL @ [c] @ r) (Some 3) [0] 0 port =
      Done (None, family_bytes AF_LOCAL @ [c] @ r, Some 3)"
    using size_has_family [of 3] by (simp add: cat_sockaddr__getbyname_def getbyname_local_def is_linux_abstract_name_def)
  assume "c \<noteq> 0"
  then show "cat_sockaddr_get_address_silent (family_bytes AF_LOCAL @ [c] @ r) 3 [0, 0] 2 = Done (None, [c, 0], 1)"
    by (simp add: is_linux_abstract_name_def cat_sockaddr_get_address_silent_def get_local_name_def)
qed

text \<open>An address of one byte makes the length of a local name wrap around: the path is searched beyond the object.\<close>

lemma strnlen_beyond: "0 \<notin> set s \<Longrightarrow> length s < n \<Longrightarrow> cat_strnlen s n = Undefined"
proof (induction s arbitrary: n)
  case Nil
  then show ?case by (cases n) simp_all
next
  case (Cons c s)
  then show ?case by (cases n) auto
qed

theorem short_local_address_overread:
  assumes "0 \<notin> set path" and "path \<noteq> []" and "length path \<le> CAT_SOCKADDR_MAX_PATH"
  shows "cat_sockaddr_get_address_silent (family_bytes AF_LOCAL @ path) 1 [0, 0] 2 = Undefined"
proof -
  let ?l = "ucast (1 :: u32) - 2 :: size_t"
  have l: "?l = - 1" by simp
  have "unat ?l = 2 ^ 64 - 1" unfolding l by (simp add: unsigned_minus_1_eq_mask mask_eq_exp_minus_1)
  then have "cat_strnlen path (unat ?l) = Undefined" using assms(1,3) by (intro strnlen_beyond) auto
  moreover have "is_linux_abstract_name path ?l = Done False"
    using assms(1,2) by (cases path) (auto simp: is_linux_abstract_name_def)
  ultimately show ?thesis by (simp add: cat_sockaddr_get_address_silent_def get_local_name_def)
qed

end
