(* ===== verification/Cat_Socket.thy ===== *)
theory Cat_Socket
  imports Cat_Sockaddr
begin

unbundle bit_operations_syntax

text \<open>
  Socket objects, \<^verbatim>\<open>src/cat_socket.c\<close>: the types of sockets and their names, the timeouts and the options, the checks in
  front of an operation, and reading. A \<open>cat_socket_t\<close> refers to an internal socket, which several of them may share;
  the internal sockets are a store. The library is built without TLS.

  What the system does is a parameter: the results of the calls of \<^verbatim>\<open>recv\<close> in their order, the callbacks of
  libuv while a coroutine waits, how the wait ends, and what other coroutines do to the socket meanwhile (\<open>others\<close>).
  The lemmas show that a read delivers the bytes of the stream in order and without a gap, stays inside its
  buffer and leaves the socket ready for the next read, and where bytes or errors get lost.
\<close>

subsection \<open>Types of sockets\<close>

type_synonym cat_socket_type_t = u32

abbreviation FLAG_STREAM :: u32 where "FLAG_STREAM \<equiv> 0x1"
abbreviation FLAG_DGRAM :: u32 where "FLAG_DGRAM \<equiv> 0x2"
abbreviation FLAG_INET :: u32 where "FLAG_INET \<equiv> 0x10"
abbreviation FLAG_IPV4 :: u32 where "FLAG_IPV4 \<equiv> 0x20"
abbreviation FLAG_IPV6 :: u32 where "FLAG_IPV6 \<equiv> 0x40"
abbreviation FLAG_LOCAL :: u32 where "FLAG_LOCAL \<equiv> 0x80"
abbreviation FLAG_IPC :: u32 where "FLAG_IPC \<equiv> 0x400"
abbreviation FLAG_STDIN :: u32 where "FLAG_STDIN \<equiv> 0x400"
abbreviation FLAG_STDOUT :: u32 where "FLAG_STDOUT \<equiv> 0x800"
abbreviation FLAG_STDERR :: u32 where "FLAG_STDERR \<equiv> 0x1000"

definition TYPE_ANY :: u32 where "TYPE_ANY = 0"
definition TYPE_TCP :: u32 where "TYPE_TCP = 0x1000000 OR FLAG_STREAM OR FLAG_INET"
definition TYPE_TCP4 :: u32 where "TYPE_TCP4 = TYPE_TCP OR FLAG_IPV4"
definition TYPE_TCP6 :: u32 where "TYPE_TCP6 = TYPE_TCP OR FLAG_IPV6"
definition TYPE_PIPE :: u32 where "TYPE_PIPE = 0x2000000 OR FLAG_STREAM OR FLAG_LOCAL"
definition TYPE_IPCC :: u32 where "TYPE_IPCC = TYPE_PIPE OR FLAG_IPC"
definition TYPE_TTY :: u32 where "TYPE_TTY = 0x4000000 OR FLAG_STREAM"
definition TYPE_STDIN :: u32 where "TYPE_STDIN = TYPE_TTY OR FLAG_STDIN"
definition TYPE_STDOUT :: u32 where "TYPE_STDOUT = TYPE_TTY OR FLAG_STDOUT"
definition TYPE_STDERR :: u32 where "TYPE_STDERR = TYPE_TTY OR FLAG_STDERR"
definition TYPE_UDP :: u32 where "TYPE_UDP = 0x8000000 OR FLAG_DGRAM OR FLAG_INET"
definition TYPE_UDP4 :: u32 where "TYPE_UDP4 = TYPE_UDP OR FLAG_IPV4"
definition TYPE_UDP6 :: u32 where "TYPE_UDP6 = TYPE_UDP OR FLAG_IPV6"
definition TYPE_UDG :: u32 where "TYPE_UDG = 0x10000000 OR FLAG_DGRAM OR FLAG_LOCAL"

lemmas type_defs = TYPE_ANY_def TYPE_TCP_def TYPE_TCP4_def TYPE_TCP6_def TYPE_PIPE_def TYPE_IPCC_def TYPE_TTY_def TYPE_STDIN_def
  TYPE_STDOUT_def TYPE_STDERR_def TYPE_UDP_def TYPE_UDP4_def TYPE_UDP6_def TYPE_UDG_def

text \<open>\<^verbatim>\<open>x & f\<close> as a condition, and \<^verbatim>\<open>(x & t) == t\<close>.\<close>

definition has :: "'a::len word \<Rightarrow> 'a word \<Rightarrow> bool" where
  "has x f \<longleftrightarrow> x AND f \<noteq> 0"

definition is_type :: "u32 \<Rightarrow> u32 \<Rightarrow> bool" where
  "is_type x t \<longleftrightarrow> x AND t = t"

definition cat_socket_type_simplify :: "cat_socket_type_t \<Rightarrow> cat_socket_type_t" where
  "cat_socket_type_simplify t = t AND NOT (FLAG_IPV4 OR FLAG_IPV6)"

definition cat_socket_type_get_name :: "cat_socket_type_t \<Rightarrow> string" where
  "cat_socket_type_get_name t =
     (if is_type t TYPE_TCP then (if has t FLAG_IPV4 then ''TCP4'' else if has t FLAG_IPV6 then ''TCP6'' else ''TCP'')
      else if is_type t TYPE_UDP then (if has t FLAG_IPV4 then ''UDP4'' else if has t FLAG_IPV6 then ''UDP6'' else ''UDP'')
      else if is_type t TYPE_PIPE then (if has t FLAG_IPC then ''IPCC'' else ''PIPE'')
      else if is_type t TYPE_TTY then
        (if has t FLAG_STDIN then ''STDIN'' else if has t FLAG_STDOUT then ''STDOUT'' else if has t FLAG_STDERR then ''STDERR'' else ''TTY'')
      else if is_type t TYPE_UDG then ''UDG'' else ''UNKNOWN'')"

definition cat_socket_type_to_af :: "cat_socket_type_t \<Rightarrow> inet_family" where
  "cat_socket_type_to_af t =
     (if has t FLAG_IPV4 then AF_INET else if has t FLAG_IPV6 then AF_INET6 else if has t FLAG_LOCAL then AF_LOCAL else AF_UNSPEC)"

subsection \<open>Socket objects\<close>

text \<open>The timeouts, stored in 32 bits.\<close>

abbreviation CAT_TIMEOUT_FOREVER :: int where "CAT_TIMEOUT_FOREVER \<equiv> - 1"
abbreviation CAT_TIMEOUT_INVALID :: int where "CAT_TIMEOUT_INVALID \<equiv> - (2 ^ 63)"
abbreviation TIMEOUT_STORAGE_DEFAULT :: int where "TIMEOUT_STORAGE_DEFAULT \<equiv> - 9764"
abbreviation TIMEOUT_STORAGE_MAX :: int where "TIMEOUT_STORAGE_MAX \<equiv> 2 ^ 31 - 1"

record cat_socket_timeout_options_t =
  to_dns :: int
  to_accept :: int
  to_connect :: int
  to_handshake :: int
  to_read :: int
  to_write :: int

text \<open>The bits of \<^verbatim>\<open>flags\<close>, \<^verbatim>\<open>io_flags\<close> and \<^verbatim>\<open>option_flags\<close>.\<close>

abbreviation SOCKET_ALLOCATED :: u32 where "SOCKET_ALLOCATED \<equiv> 0x1"
abbreviation SOCKET_USER_CLOSED :: u32 where "SOCKET_USER_CLOSED \<equiv> 0x2"
abbreviation SOCKET_CLOSED :: u32 where "SOCKET_CLOSED \<equiv> 0x4"
abbreviation SOCKET_UNRECOVERABLE_ERROR :: u32 where "SOCKET_UNRECOVERABLE_ERROR \<equiv> 0x8"
abbreviation INTERNAL_ESTABLISHED :: u32 where "INTERNAL_ESTABLISHED \<equiv> 0x2"
abbreviation INTERNAL_CLOSED :: u32 where "INTERNAL_CLOSED \<equiv> 0x4"
abbreviation INTERNAL_NOT_SOCK :: u32 where "INTERNAL_NOT_SOCK \<equiv> 0x8"
abbreviation INTERNAL_SERVER :: u32 where "INTERNAL_SERVER \<equiv> 0x100000"
abbreviation INTERNAL_SERVER_CONNECTION :: u32 where "INTERNAL_SERVER_CONNECTION \<equiv> 0x200000"
abbreviation INTERNAL_CLIENT :: u32 where "INTERNAL_CLIENT \<equiv> 0x400000"
abbreviation IO_NONE :: u8 where "IO_NONE \<equiv> 0"
abbreviation IO_READ :: u8 where "IO_READ \<equiv> 1"
abbreviation IO_WRITE :: u8 where "IO_WRITE \<equiv> 2"
abbreviation IO_RDWR :: u8 where "IO_RDWR \<equiv> 3"
abbreviation IO_BIND :: u8 where "IO_BIND \<equiv> 7"
abbreviation IO_ACCEPT :: u8 where "IO_ACCEPT \<equiv> 11"
abbreviation IO_CONNECT :: u8 where "IO_CONNECT \<equiv> 19"
abbreviation OPTION_TCP_DELAY :: u32 where "OPTION_TCP_DELAY \<equiv> 1"
abbreviation OPTION_TCP_KEEPALIVE :: u32 where "OPTION_TCP_KEEPALIVE \<equiv> 2"
abbreviation OPTION_UDP_BROADCAST :: u32 where "OPTION_UDP_BROADCAST \<equiv> 4"

datatype uv_handle_type = UV_TCP | UV_NAMED_PIPE | UV_TTY | UV_UDP

text \<open>The internal socket. The last five fields belong to the handle of libuv: its type, its file descriptor if it
  is open, whether a pipe transfers handles, whether it delivers reads, and the two options it knows to be on.\<close>

record cat_socket_internal_t =
  si_type :: cat_socket_type_t
  si_option_flags :: u32
  si_timeout :: cat_socket_timeout_options_t
  si_tcp_keepalive_delay :: u32
  si_flags :: u32
  si_io_flags :: u8
  si_read_coroutine :: "nat option"
  si_read_context :: bool
  si_cache_fd :: "nat option"
  si_recv_buffer_size :: int
  si_send_buffer_size :: int
  uv_type :: uv_handle_type
  uv_fd :: "nat option"
  uv_ipc :: bool
  uv_reading :: bool
  uv_nodelay :: bool
  uv_keepalive :: bool

record cat_socket_t =
  socket_id :: int
  socket_flags :: u32
  socket_internal :: "addr option"

type_synonym internals = "addr \<Rightarrow> cat_socket_internal_t"

record cat_socket_globals =
  global_timeout :: cat_socket_timeout_options_t
  global_tcp_keepalive_delay :: u32

subsection \<open>Checks in front of an operation\<close>

definition cat_socket_get_error_from_flags :: "u32 \<Rightarrow> cat_errno" where
  "cat_socket_get_error_from_flags flags =
     (if has flags SOCKET_UNRECOVERABLE_ERROR then CAT_EBADF
      else if has flags SOCKET_CLOSED then CAT_EBADF else CAT_EMISUSE)"

text \<open>\<^verbatim>\<open>CAT_SOCKET_INTERNAL_GETTER_SILENT\<close> and \<^verbatim>\<open>CAT_SOCKET_INTERNAL_GETTER\<close>.\<close>

definition internal_getter_silent :: "cat_socket_t \<Rightarrow> cat_errno + addr" where
  "internal_getter_silent s = (case socket_internal s of None \<Rightarrow> Inl CAT_EBADF | Some i \<Rightarrow> Inr i)"

definition internal_getter :: "cat_socket_t \<Rightarrow> cat_errno + addr" where
  "internal_getter s =
     (case internal_getter_silent s of Inl _ \<Rightarrow> Inl (cat_socket_get_error_from_flags (socket_flags s)) | Inr i \<Rightarrow> Inr i)"

text \<open>The names of the I/O states; any other combination of the bits is \<^verbatim>\<open>CAT_NEVER_HERE\<close>.\<close>

definition cat_socket_io_state_name :: "u8 \<Rightarrow> string c_run" where
  "cat_socket_io_state_name io =
     (if io = IO_READ then Done ''read'' else if io = IO_CONNECT then Done ''connect'' else if io = IO_ACCEPT then Done ''accept''
      else if io = IO_WRITE then Done ''write'' else if io = IO_RDWR then Done ''read or write'' else if io = IO_BIND then Done ''bind''
      else if io = IO_NONE then Done ''idle'' else Undefined)"

definition cat_socket_io_state_naming :: "u8 \<Rightarrow> string c_run" where
  "cat_socket_io_state_naming io =
     (if io = IO_READ then Done ''reading'' else if io = IO_CONNECT then Done ''connecting'' else if io = IO_ACCEPT then Done ''accepting''
      else if io = IO_WRITE then Done ''writing'' else if io = IO_RDWR then Done ''reading and writing'' else if io = IO_BIND then Done ''binding''
      else if io = IO_NONE then Done ''idle'' else Undefined)"

text \<open>The check for an operation in progress, silent and with a message that names both operations.\<close>

definition internal_check_io :: "cat_socket_internal_t \<Rightarrow> u8 \<Rightarrow> cat_errno option" where
  "internal_check_io si io = (if has (si_io_flags si) io then Some CAT_ELOCKED else None)"

definition cat_socket_internal_is_established :: "cat_socket_internal_t \<Rightarrow> bool" where
  "cat_socket_internal_is_established si = has (si_flags si) INTERNAL_ESTABLISHED"

definition stream_established_check :: "cat_socket_internal_t \<Rightarrow> cat_errno option" where
  "stream_established_check si =
     (if \<not> has (si_type si) FLAG_DGRAM \<and> \<not> cat_socket_internal_is_established si then Some CAT_ENOTCONN else None)"

text \<open>\<^verbatim>\<open>CAT_SOCKET_IO_CHECK\<close> and \<^verbatim>\<open>CAT_SOCKET_TRY_IO_CHECK\<close>.\<close>

definition io_check :: "internals \<Rightarrow> cat_socket_t \<Rightarrow> u8 \<Rightarrow> (cat_errno + addr) c_run" where
  "io_check h s io =
     (case internal_getter s of Inl e \<Rightarrow> Done (Inl e)
      | Inr i \<Rightarrow>
          case internal_check_io (h i) io of
            Some e \<Rightarrow> c_bind (cat_socket_io_state_naming (si_io_flags (h i))) (\<lambda>_. c_bind (cat_socket_io_state_name io) (\<lambda>_. Done (Inl e)))
          | None \<Rightarrow>
              case stream_established_check (h i) of Some e \<Rightarrow> Done (Inl e)
              | None \<Rightarrow> if is_type (si_type (h i)) TYPE_IPCC then Done (Inl CAT_EMISUSE) else Done (Inr i))"

definition try_io_check :: "internals \<Rightarrow> cat_socket_t \<Rightarrow> u8 \<Rightarrow> cat_errno + addr" where
  "try_io_check h s io =
     (case internal_getter_silent s of Inl e \<Rightarrow> Inl e
      | Inr i \<Rightarrow>
          case internal_check_io (h i) io of Some e \<Rightarrow> Inl e
          | None \<Rightarrow> case stream_established_check (h i) of Some e \<Rightarrow> Inl e | None \<Rightarrow> Inr i)"

text \<open>\<^verbatim>\<open>CAT_SOCKET_INTERNAL_TCP_ONLY\<close>.\<close>

definition tcp_only :: "cat_socket_internal_t \<Rightarrow> cat_errno option" where
  "tcp_only si = (if \<not> has (si_type si) TYPE_TCP then Some CAT_EMISUSE else None)"

subsection \<open>Timeouts\<close>

definition cat_socket_default_global_timeout_options :: cat_socket_timeout_options_t where
  "cat_socket_default_global_timeout_options =
     \<lparr>to_dns = CAT_TIMEOUT_FOREVER, to_accept = CAT_TIMEOUT_FOREVER, to_connect = CAT_TIMEOUT_FOREVER,
      to_handshake = CAT_TIMEOUT_FOREVER, to_read = CAT_TIMEOUT_FOREVER, to_write = CAT_TIMEOUT_FOREVER\<rparr>"

definition cat_socket_default_timeout_options :: cat_socket_timeout_options_t where
  "cat_socket_default_timeout_options =
     \<lparr>to_dns = TIMEOUT_STORAGE_DEFAULT, to_accept = TIMEOUT_STORAGE_DEFAULT, to_connect = TIMEOUT_STORAGE_DEFAULT,
      to_handshake = TIMEOUT_STORAGE_DEFAULT, to_read = TIMEOUT_STORAGE_DEFAULT, to_write = TIMEOUT_STORAGE_DEFAULT\<rparr>"

definition cat_socket_align_global_timeout :: "int \<Rightarrow> int" where
  "cat_socket_align_global_timeout t = (if t < CAT_TIMEOUT_FOREVER \<or> t > TIMEOUT_STORAGE_MAX then - 1 else t)"

definition cat_socket_align_timeout :: "int \<Rightarrow> int" where
  "cat_socket_align_timeout t =
     (if t < CAT_TIMEOUT_FOREVER \<and> t \<noteq> TIMEOUT_STORAGE_DEFAULT \<or> t > TIMEOUT_STORAGE_MAX then - 1 else t)"

definition cat_socket_set_timeout_to_options :: "cat_socket_timeout_options_t \<Rightarrow> int \<Rightarrow> cat_socket_timeout_options_t" where
  "cat_socket_set_timeout_to_options options t =
     (let st = cat_socket_align_timeout t
      in options\<lparr>to_dns := st, to_connect := st, to_handshake := st, to_read := st, to_write := st\<rparr>)"

definition cat_socket_set_global_timeout :: "cat_socket_globals \<Rightarrow> int \<Rightarrow> cat_socket_globals" where
  "cat_socket_set_global_timeout g t = g\<lparr>global_timeout := cat_socket_set_timeout_to_options (global_timeout g) t\<rparr>"

definition cat_socket_set_timeout :: "internals \<Rightarrow> cat_socket_t \<Rightarrow> int \<Rightarrow> cat_errno option \<times> internals" where
  "cat_socket_set_timeout h s t =
     (case internal_getter s of Inl e \<Rightarrow> (Some e, h)
      | Inr i \<Rightarrow> (None, h(i := (h i)\<lparr>si_timeout := cat_socket_set_timeout_to_options (si_timeout (h i)) t\<rparr>)))"

text \<open>The functions the macro \<^verbatim>\<open>CAT_SOCKET_TIMEOUT_API_GEN\<close> generates, with the member as a parameter.\<close>

datatype timeout_kind = DNS | ACCEPT | CONNECT | HANDSHAKE | READ | WRITE

definition timeout_of :: "timeout_kind \<Rightarrow> cat_socket_timeout_options_t \<Rightarrow> int" where
  "timeout_of k = (case k of DNS \<Rightarrow> to_dns | ACCEPT \<Rightarrow> to_accept | CONNECT \<Rightarrow> to_connect | HANDSHAKE \<Rightarrow> to_handshake
     | READ \<Rightarrow> to_read | WRITE \<Rightarrow> to_write)"

definition set_timeout_of :: "timeout_kind \<Rightarrow> int \<Rightarrow> cat_socket_timeout_options_t \<Rightarrow> cat_socket_timeout_options_t" where
  "set_timeout_of k t options = (case k of DNS \<Rightarrow> options\<lparr>to_dns := t\<rparr> | ACCEPT \<Rightarrow> options\<lparr>to_accept := t\<rparr>
     | CONNECT \<Rightarrow> options\<lparr>to_connect := t\<rparr> | HANDSHAKE \<Rightarrow> options\<lparr>to_handshake := t\<rparr> | READ \<Rightarrow> options\<lparr>to_read := t\<rparr>
     | WRITE \<Rightarrow> options\<lparr>to_write := t\<rparr>)"

definition cat_socket_get_global_timeout :: "timeout_kind \<Rightarrow> cat_socket_globals \<Rightarrow> int" where
  "cat_socket_get_global_timeout k g = timeout_of k (global_timeout g)"

definition cat_socket_set_global_timeout_of :: "timeout_kind \<Rightarrow> cat_socket_globals \<Rightarrow> int \<Rightarrow> cat_socket_globals" where
  "cat_socket_set_global_timeout_of k g t =
     g\<lparr>global_timeout := set_timeout_of k (cat_socket_align_global_timeout t) (global_timeout g)\<rparr>"

definition cat_socket_internal_get_timeout :: "timeout_kind \<Rightarrow> cat_socket_globals \<Rightarrow> cat_socket_internal_t \<Rightarrow> int" where
  "cat_socket_internal_get_timeout k g si =
     (if timeout_of k (si_timeout si) = TIMEOUT_STORAGE_DEFAULT then cat_socket_get_global_timeout k g
      else timeout_of k (si_timeout si))"

definition cat_socket_get_timeout_fast :: "timeout_kind \<Rightarrow> cat_socket_globals \<Rightarrow> internals \<Rightarrow> cat_socket_t \<Rightarrow> int" where
  "cat_socket_get_timeout_fast k g h s =
     (case internal_getter_silent s of Inl _ \<Rightarrow> CAT_TIMEOUT_INVALID | Inr i \<Rightarrow> cat_socket_internal_get_timeout k g (h i))"

definition cat_socket_get_timeout :: "timeout_kind \<Rightarrow> cat_socket_globals \<Rightarrow> internals \<Rightarrow> cat_socket_t \<Rightarrow> cat_errno option \<times> int" where
  "cat_socket_get_timeout k g h s =
     (case internal_getter s of Inl e \<Rightarrow> (Some e, CAT_TIMEOUT_INVALID) | Inr i \<Rightarrow> (None, cat_socket_internal_get_timeout k g (h i)))"

definition cat_socket_set_timeout_of :: "timeout_kind \<Rightarrow> internals \<Rightarrow> cat_socket_t \<Rightarrow> int \<Rightarrow> cat_errno option \<times> internals" where
  "cat_socket_set_timeout_of k h s t =
     (case internal_getter s of Inl e \<Rightarrow> (Some e, h)
      | Inr i \<Rightarrow> (None, h(i := (h i)\<lparr>si_timeout := set_timeout_of k (cat_socket_align_timeout t) (si_timeout (h i))\<rparr>)))"

subsection \<open>State of a socket\<close>

definition cat_socket_get_type :: "internals \<Rightarrow> cat_socket_t \<Rightarrow> cat_socket_type_t" where
  "cat_socket_get_type h s = (case internal_getter_silent s of Inl _ \<Rightarrow> TYPE_ANY | Inr i \<Rightarrow> si_type (h i))"

definition cat_socket_get_simple_type :: "internals \<Rightarrow> cat_socket_t \<Rightarrow> cat_socket_type_t" where
  "cat_socket_get_simple_type h s = cat_socket_type_simplify (cat_socket_get_type h s)"

definition cat_socket_get_type_name :: "internals \<Rightarrow> cat_socket_t \<Rightarrow> string" where
  "cat_socket_get_type_name h s = cat_socket_type_get_name (cat_socket_get_type h s)"

definition cat_socket_get_simple_type_name :: "internals \<Rightarrow> cat_socket_t \<Rightarrow> string" where
  "cat_socket_get_simple_type_name h s = cat_socket_type_get_name (cat_socket_get_simple_type h s)"

definition cat_socket_get_af :: "internals \<Rightarrow> cat_socket_t \<Rightarrow> inet_family" where
  "cat_socket_get_af h s = (case internal_getter_silent s of Inl _ \<Rightarrow> AF_UNSPEC | Inr i \<Rightarrow> cat_socket_type_to_af (si_type (h i)))"

text \<open>The file descriptor, from the cache or from the handle; it is kept in the cache.\<close>

definition cat_socket_internal_get_fd_fast :: "cat_socket_internal_t \<Rightarrow> nat option \<times> cat_socket_internal_t" where
  "cat_socket_internal_get_fd_fast si =
     (case si_cache_fd si of Some fd \<Rightarrow> (Some fd, si) | None \<Rightarrow> (uv_fd si, si\<lparr>si_cache_fd := uv_fd si\<rparr>))"

definition cat_socket_get_fd_fast :: "internals \<Rightarrow> cat_socket_t \<Rightarrow> nat option \<times> internals" where
  "cat_socket_get_fd_fast h s =
     (case internal_getter_silent s of Inl _ \<Rightarrow> (None, h)
      | Inr i \<Rightarrow> let (fd, si) = cat_socket_internal_get_fd_fast (h i) in (fd, h(i := si)))"

definition cat_socket_is_available :: "cat_socket_t \<Rightarrow> bool" where
  "cat_socket_is_available s = (socket_internal s \<noteq> None)"

definition cat_socket_is_open :: "internals \<Rightarrow> cat_socket_t \<Rightarrow> bool \<times> internals" where
  "cat_socket_is_open h s = (let (fd, h) = cat_socket_get_fd_fast h s in (fd \<noteq> None, h))"

definition internal_has_flag :: "internals \<Rightarrow> cat_socket_t \<Rightarrow> u32 \<Rightarrow> bool" where
  "internal_has_flag h s f = (case socket_internal s of None \<Rightarrow> False | Some i \<Rightarrow> has (si_flags (h i)) f)"

definition cat_socket_is_established :: "internals \<Rightarrow> cat_socket_t \<Rightarrow> bool" where
  "cat_socket_is_established h s = (case socket_internal s of None \<Rightarrow> False | Some i \<Rightarrow> cat_socket_internal_is_established (h i))"

definition cat_socket_is_server :: "internals \<Rightarrow> cat_socket_t \<Rightarrow> bool" where
  "cat_socket_is_server h s = internal_has_flag h s INTERNAL_SERVER"

definition cat_socket_is_server_connection :: "internals \<Rightarrow> cat_socket_t \<Rightarrow> bool" where
  "cat_socket_is_server_connection h s = internal_has_flag h s INTERNAL_SERVER_CONNECTION"

definition cat_socket_is_client :: "internals \<Rightarrow> cat_socket_t \<Rightarrow> bool" where
  "cat_socket_is_client h s = internal_has_flag h s INTERNAL_CLIENT"

definition cat_socket_get_role_name :: "internals \<Rightarrow> cat_socket_t \<Rightarrow> string" where
  "cat_socket_get_role_name h s =
     (if cat_socket_is_server_connection h s then ''server-connection'' else if cat_socket_is_client h s then ''client''
      else if cat_socket_is_server h s then ''server'' else ''unknown'')"

definition cat_socket_get_io_state :: "internals \<Rightarrow> cat_socket_t \<Rightarrow> cat_errno option \<times> u8" where
  "cat_socket_get_io_state h s = (case internal_getter s of Inl e \<Rightarrow> (Some e, 0) | Inr i \<Rightarrow> (None, si_io_flags (h i)))"

definition cat_socket_is_eof_error :: "cat_errno \<Rightarrow> bool c_run" where
  "cat_socket_is_eof_error e = c_assert (e \<noteq> CAT_EAGAIN) (Done (e \<noteq> CAT_ETIMEDOUT \<and> e \<noteq> CAT_ECANCELED))"

subsection \<open>Options\<close>

text \<open>The calls of libuv return an error or \<open>None\<close>, a parameter.\<close>

definition internal_set_flag :: "u32 \<Rightarrow> bool \<Rightarrow> cat_socket_internal_t \<Rightarrow> cat_socket_internal_t" where
  "internal_set_flag f enable si =
     (if enable then si\<lparr>si_option_flags := si_option_flags si OR f\<rparr> else si\<lparr>si_option_flags := si_option_flags si AND NOT f\<rparr>)"

definition cat_socket_get_tcp_nodelay :: "internals \<Rightarrow> cat_socket_t \<Rightarrow> bool" where
  "cat_socket_get_tcp_nodelay h s =
     (case internal_getter_silent s of Inl _ \<Rightarrow> False | Inr i \<Rightarrow> \<not> has (si_option_flags (h i)) OPTION_TCP_DELAY)"

definition cat_socket_set_tcp_nodelay :: "(bool \<Rightarrow> cat_errno option) \<Rightarrow> internals \<Rightarrow> cat_socket_t \<Rightarrow> bool \<Rightarrow> cat_errno option \<times> internals" where
  "cat_socket_set_tcp_nodelay uv_tcp_nodelay h s enable =
     (case internal_getter s of Inl e \<Rightarrow> (Some e, h)
      | Inr i \<Rightarrow>
          case tcp_only (h i) of Some e \<Rightarrow> (Some e, h)
          | None \<Rightarrow>
              let h = h(i := internal_set_flag OPTION_TCP_DELAY (\<not> enable) (h i)); (open, h) = cat_socket_is_open h s
              in if \<not> open then (None, h)
                 else if uv_nodelay (h i) \<noteq> enable then
                   (case uv_tcp_nodelay enable of Some e \<Rightarrow> (Some e, h) | None \<Rightarrow> (None, h(i := (h i)\<lparr>uv_nodelay := enable\<rparr>)))
                 else (None, h))"

definition cat_socket_get_tcp_keepalive :: "internals \<Rightarrow> cat_socket_t \<Rightarrow> bool" where
  "cat_socket_get_tcp_keepalive h s =
     (case internal_getter_silent s of Inl _ \<Rightarrow> False | Inr i \<Rightarrow> has (si_option_flags (h i)) OPTION_TCP_KEEPALIVE)"

definition cat_socket_get_tcp_keepalive_delay :: "internals \<Rightarrow> cat_socket_t \<Rightarrow> u32" where
  "cat_socket_get_tcp_keepalive_delay h s =
     (case internal_getter_silent s of Inl _ \<Rightarrow> 0 | Inr i \<Rightarrow> si_tcp_keepalive_delay (h i))"

definition cat_socket_set_tcp_keepalive :: "(bool \<Rightarrow> u32 \<Rightarrow> cat_errno option) \<Rightarrow> cat_socket_globals \<Rightarrow> internals \<Rightarrow> cat_socket_t \<Rightarrow> bool \<Rightarrow> u32 \<Rightarrow>
    cat_errno option \<times> internals" where
  "cat_socket_set_tcp_keepalive uv_tcp_keepalive g h s enable delay =
     (case internal_getter s of Inl e \<Rightarrow> (Some e, h)
      | Inr i \<Rightarrow>
          case tcp_only (h i) of Some e \<Rightarrow> (Some e, h)
          | None \<Rightarrow>
              let h = h(i := internal_set_flag OPTION_TCP_KEEPALIVE enable (h i));
                  delay = (if enable then (if delay = 0 then global_tcp_keepalive_delay g else delay) else 0);
                  changed = (delay \<noteq> si_tcp_keepalive_delay (h i));
                  h = h(i := (h i)\<lparr>si_tcp_keepalive_delay := delay\<rparr>);
                  (open, h) = cat_socket_is_open h s
              in if \<not> open then (None, h)
                 else if uv_keepalive (h i) \<noteq> enable \<or> changed then
                   (case uv_tcp_keepalive enable delay of Some e \<Rightarrow> (Some e, h) | None \<Rightarrow> (None, h(i := (h i)\<lparr>uv_keepalive := enable\<rparr>)))
                 else (None, h))"

definition cat_socket_get_udp_broadcast :: "internals \<Rightarrow> cat_socket_t \<Rightarrow> bool" where
  "cat_socket_get_udp_broadcast h s =
     (case internal_getter_silent s of Inl _ \<Rightarrow> False | Inr i \<Rightarrow> has (si_option_flags (h i)) OPTION_UDP_BROADCAST)"

definition cat_socket_set_udp_broadcast :: "(bool \<Rightarrow> cat_errno option) \<Rightarrow> internals \<Rightarrow> cat_socket_t \<Rightarrow> bool \<Rightarrow> cat_errno option \<times> internals" where
  "cat_socket_set_udp_broadcast uv_udp_set_broadcast h s enable =
     (case internal_getter s of Inl e \<Rightarrow> (Some e, h)
      | Inr i \<Rightarrow>
          case tcp_only (h i) of Some e \<Rightarrow> (Some e, h)
          | None \<Rightarrow>
              let h = h(i := internal_set_flag OPTION_UDP_BROADCAST enable (h i)); (open, h) = cat_socket_is_open h s
              in if \<not> open then (None, h) else (uv_udp_set_broadcast enable, h))"

text \<open>The size of a buffer of the system; 0 asks for it. \<open>call\<close> is the call of libuv with the value, which returns an
  error or the value.\<close>

definition cat_socket_align_buffer_size :: "int \<Rightarrow> int \<Rightarrow> int" where
  "cat_socket_align_buffer_size pagesize n = (if n < pagesize then pagesize else n)"

definition cached_buffer_size :: "bool \<Rightarrow> cat_socket_internal_t \<Rightarrow> int" where
  "cached_buffer_size is_send si = (if is_send then si_send_buffer_size si else si_recv_buffer_size si)"

definition cache_buffer_size :: "bool \<Rightarrow> int \<Rightarrow> cat_socket_internal_t \<Rightarrow> cat_socket_internal_t" where
  "cache_buffer_size is_send v si = (if is_send then si\<lparr>si_send_buffer_size := v\<rparr> else si\<lparr>si_recv_buffer_size := v\<rparr>)"

definition cat_socket_buffer_size :: "(int \<Rightarrow> cat_errno + int) \<Rightarrow> int \<Rightarrow> internals \<Rightarrow> cat_socket_t \<Rightarrow> bool \<Rightarrow> size_t \<Rightarrow>
    cat_errno option \<times> int \<times> internals" where
  "cat_socket_buffer_size call pagesize h s is_send n =
     (case internal_getter s of Inl e \<Rightarrow> (Some e, - 1, h)
      | Inr i \<Rightarrow>
          if n = 0 \<and> cached_buffer_size is_send (h i) > 0 then (None, cached_buffer_size is_send (h i), h)
          else
            case call (sint (ucast n :: u32)) of Inl e \<Rightarrow> (Some e, - 1, h)
            | Inr v \<Rightarrow>
                if n = 0 then let v = cat_socket_align_buffer_size pagesize v in (None, v, h(i := cache_buffer_size is_send v (h i)))
                else (None, v, h(i := cache_buffer_size is_send (- 1) (h i))))"

subsection \<open>Reading: what the system does\<close>

text \<open>The result of one call of \<^verbatim>\<open>read\<close>, \<^verbatim>\<open>recv\<close> or \<^verbatim>\<open>recvfrom\<close>: data, none at the end of a stream, with the address of
  the sender of a datagram; or an error. Behind the end of a list of results there is nothing to read.\<close>

datatype sys_errno = EAGAIN | EINTR | ENOTSOCK | SYS_ERROR cat_errno

datatype recv_result = Received "byte list" "byte list" | Recv_error sys_errno

text \<open>What \<^verbatim>\<open>cat_translate_sys_error\<close> makes of an error; the two that the loops handle are never passed on.\<close>

definition translate_sys_error :: "sys_errno \<Rightarrow> cat_errno" where
  "translate_sys_error e = (case e of EAGAIN \<Rightarrow> CAT_EAGAIN | SYS_ERROR c \<Rightarrow> c | _ \<Rightarrow> CAT_EINVAL)"

text \<open>The waits of a local datagram socket: duplicating the descriptor may fail, the poll ends with an event, a timeout
  or an error.\<close>

datatype udg_wait = Dup_error cat_errno | Poll_ok | Poll_timeout | Poll_error cat_errno

text \<open>A callback of libuv during the wait: nothing yet, data, the end of the stream, no room in the buffer, an error;
  a datagram may have a sender.\<close>

datatype read_event = Again | Data "byte list" | Eof | Nobufs | Io_error cat_errno | Datagram "byte list" "byte list option"

text \<open>How a wait ends when no callback ends it: with an error of the wait (a timeout is one), or because the coroutine is
  resumed by someone else, as \<^verbatim>\<open>close\<close> does.\<close>

datatype wait_end = Wait_failed cat_errno | Canceled

record read_context =
  rc_once :: bool
  rc_nread :: nat
  rc_error :: "cat_errno option"
  rc_buffer :: "byte list"
  rc_address :: "byte list option"
  rc_address_length :: "u32 option"

text \<open>The result: the value returned, the last error that was set, the socket, the buffer and the address.\<close>

record read_out =
  ro_return :: int
  ro_error :: "cat_errno option"
  ro_socket :: cat_socket_internal_t
  ro_buffer :: "byte list"
  ro_address :: "byte list option"
  ro_address_length :: "u32 option"

definition recv_address :: "byte list \<Rightarrow> byte list option \<Rightarrow> u32 option \<Rightarrow> (byte list option \<times> u32 option) c_run" where
  "recv_address src address address_length =
     (case (address, address_length) of
        (Some a, Some l) \<Rightarrow> c_bind (mem_write a 0 (take (unat l) src)) (\<lambda>a. Done (Some a, Some (of_nat (length src))))
      | _ \<Rightarrow> Done (address, address_length))"

subsection \<open>Reading: the calls at once\<close>

definition cat_socket_internal_support_inline_read :: "cat_socket_internal_t \<Rightarrow> bool" where
  "cat_socket_internal_support_inline_read si = (uv_type si \<noteq> UV_TTY \<and> \<not> (uv_type si = UV_NAMED_PIPE \<and> uv_ipc si))"

text \<open>Where the inner loop ends: the value is returned, an error is reported with the bytes read so far, the wait
  of a local datagram socket failed, or nothing more can be read now.\<close>

datatype inline_end = Return nat | Error cat_errno | Wait_error cat_errno | Block

text \<open>The state of the loops: \<open>nread\<close>, the socket, the buffer and the address.\<close>

type_synonym inline_state = "nat \<times> cat_socket_internal_t \<times> byte list \<times> byte list option \<times> u32 option"

fun inline_calls :: "bool \<Rightarrow> bool \<Rightarrow> nat \<Rightarrow> recv_result list \<Rightarrow> inline_state \<Rightarrow> (inline_end \<times> recv_result list \<times> inline_state) c_run" where
  "inline_calls once is_dgram n [] st = Done (Block, [], st)"
| "inline_calls once is_dgram n (Recv_error e # cs) (nread, si, b, a, l) =
     (case e of
        EAGAIN \<Rightarrow> Done (Block, cs, (nread, si, b, a, l))
      | EINTR \<Rightarrow> inline_calls once is_dgram n cs (nread, si, b, a, l)
      | ENOTSOCK \<Rightarrow> inline_calls once is_dgram n cs (nread, si\<lparr>si_flags := si_flags si OR INTERNAL_NOT_SOCK\<rparr>, b, a, l)
      | SYS_ERROR c \<Rightarrow> Done (Error c, cs, (nread, si, b, a, l)))"
| "inline_calls once is_dgram n (Received d src # cs) (nread, si, b, a, l) =
     c_bind (mem_write b (if is_dgram then 0 else nread) d) (\<lambda>b.
     c_bind (if is_dgram \<and> \<not> has (si_flags si) INTERNAL_NOT_SOCK then recv_address src a l else Done (a, l)) (\<lambda>(a, l).
       if once then Done (Return (length d), cs, (nread, si, b, a, l))
       else
         let nread = nread + length d
         in if nread = n then Done (Return nread, cs, (nread, si, b, a, l))
            else if d = [] then Done (Error CAT_ECONNRESET, cs, (nread, si, b, a, l))
            else Done (Block, cs, (nread, si, b, a, l))))"

text \<open>\<^verbatim>\<open>cat_socket_internal_udg_wait_readable\<close>: the reading coroutine is noted while it polls. \<open>Inl\<close> is \<^verbatim>\<open>CAT_EPREV\<close>, an error of
  the wait.\<close>

definition cat_socket_internal_udg_wait_readable :: "udg_wait \<Rightarrow> nat \<Rightarrow> cat_socket_internal_t \<Rightarrow> (cat_errno + cat_errno option) \<times> cat_socket_internal_t" where
  "cat_socket_internal_udg_wait_readable w co si =
     (let waited = si\<lparr>si_io_flags := (si_io_flags si OR IO_READ) XOR IO_READ, si_read_coroutine := None\<rparr>
      in case w of
           Dup_error e \<Rightarrow> (Inr (Some e), si)
         | Poll_ok \<Rightarrow> (Inr None, waited)
         | Poll_timeout \<Rightarrow> (Inr (Some CAT_ETIMEDOUT), waited)
         | Poll_error e \<Rightarrow> (Inl e, waited))"

text \<open>The outer loop. A wait without an end is \<open>Diverges\<close>.\<close>

function inline_loop :: "bool \<Rightarrow> bool \<Rightarrow> bool \<Rightarrow> nat \<Rightarrow> nat \<Rightarrow> recv_result list \<Rightarrow> udg_wait list \<Rightarrow> inline_state \<Rightarrow>
    (inline_end \<times> inline_state) c_run" where
  "inline_loop once is_dgram is_udg co n cs ws st =
     c_bind (inline_calls once is_dgram n cs st) (\<lambda>(e, cs', nread, si, b, a, l).
       if e = Block \<and> is_udg then
         (case ws of [] \<Rightarrow> Diverges
          | w # ws \<Rightarrow>
              (case cat_socket_internal_udg_wait_readable w co si of
                 (Inr None, si) \<Rightarrow> inline_loop once is_dgram is_udg co n cs' ws (nread, si, b, a, l)
               | (Inr (Some c), si) \<Rightarrow> Done (Error c, nread, si, b, a, l)
               | (Inl c, si) \<Rightarrow> Done (Wait_error c, nread, si, b, a, l)))
       else Done (e, nread, si, b, a, l))"
  by pat_completeness auto
termination
  by (relation "measure (\<lambda>(once, is_dgram, is_udg, co, n, cs, ws, st). length ws)") auto

declare inline_loop.simps [simp del]

subsection \<open>Reading: the wait\<close>

text \<open>\<^verbatim>\<open>cat_socket_read_callback\<close>, on the context; the second component says that the reading coroutine is resumed.
  \<open>n\<close> is the size of the buffer; the data of a callback are where \<^verbatim>\<open>cat_socket_read_alloc_callback\<close> put the buffer,
  behind the bytes that were read.\<close>

definition cat_socket_read_callback :: "nat \<Rightarrow> read_event \<Rightarrow> read_context \<Rightarrow> (read_context \<times> bool) c_run" where
  "cat_socket_read_callback n ev c =
     (let finish = (\<lambda>c. Done (c, rc_once c \<or> rc_nread c = n \<or> rc_error c \<noteq> None))
      in case ev of
           Again \<Rightarrow> Done (c, False)
         | Data d \<Rightarrow>
             c_bind (mem_write (rc_buffer c) (rc_nread c) d) (\<lambda>b.
               finish (c\<lparr>rc_buffer := b, rc_nread := rc_nread c + length d, rc_error := None\<rparr>))
         | Eof \<Rightarrow> finish (c\<lparr>rc_error := if \<not> rc_once c \<and> rc_nread c \<noteq> n then Some CAT_ECONNRESET else None\<rparr>)
         | Nobufs \<Rightarrow> finish (c\<lparr>rc_error := None\<rparr>)
         | Io_error e \<Rightarrow> finish (c\<lparr>rc_error := Some e\<rparr>)
         | Datagram d src \<Rightarrow> Undefined)"

definition cat_socket_udp_recv_callback :: "read_event \<Rightarrow> read_context \<Rightarrow> (read_context \<times> bool) c_run" where
  "cat_socket_udp_recv_callback ev c =
     (case ev of
        Again \<Rightarrow> Done (c, False)
      | Datagram d src \<Rightarrow>
          if d = [] \<and> src = None then Done (c, False)
          else c_bind (mem_write (rc_buffer c) (rc_nread c) d) (\<lambda>b.
          c_bind (case src of
              None \<Rightarrow> Done (rc_address c, map_option (\<lambda>_. 0) (rc_address_length c))
            | Some s \<Rightarrow>
                c_bind (sa_family s) (\<lambda>af.
                  let sl = (case af of AF_INET \<Rightarrow> 16 | AF_INET6 \<Rightarrow> 28 | AF_LOCAL \<Rightarrow> 110 | _ \<Rightarrow> 0)
                  in c_bind (cat_sockaddr_copy (rc_address c) (rc_address_length c) s sl) (\<lambda>(_, a, l). Done (a, l)))) (\<lambda>(a, l).
            Done (c\<lparr>rc_buffer := b, rc_nread := length d, rc_error := None, rc_address := a, rc_address_length := l\<rparr>, True)))
      | Io_error e \<Rightarrow> Done (c\<lparr>rc_error := Some e, rc_address_length := map_option (\<lambda>_. 0) (rc_address_length c)\<rparr>, True)
      | _ \<Rightarrow> Undefined)"

text \<open>The callbacks until one resumes the coroutine.\<close>

fun run_events :: "(read_event \<Rightarrow> read_context \<Rightarrow> (read_context \<times> bool) c_run) \<Rightarrow> read_event list \<Rightarrow> read_context \<Rightarrow> (read_context \<times> bool) c_run" where
  "run_events cb [] c = Done (c, False)"
| "run_events cb (ev # evs) c = c_bind (cb ev c) (\<lambda>(c, woken). if woken then Done (c, True) else run_events cb evs c)"

text \<open>The end of the function: the labels \<^verbatim>\<open>_error\<close> and \<^verbatim>\<open>_wait_error\<close>.\<close>

definition read_fails :: "bool \<Rightarrow> cat_errno \<Rightarrow> inline_state \<Rightarrow> read_out" where
  "read_fails is_dgram e st =
     (case st of (nread, si, b, a, l) \<Rightarrow>
        \<lparr>ro_return = (if nread \<noteq> 0 then int nread else - 1), ro_error = Some e, ro_socket = si, ro_buffer = b, ro_address = a,
         ro_address_length = (if nread = 0 \<and> is_dgram then map_option (\<lambda>_. 0) l else l)\<rparr>)"

definition read_ends :: "nat \<Rightarrow> inline_state \<Rightarrow> read_out" where
  "read_ends n st =
     (case st of (nread, si, b, a, l) \<Rightarrow>
        \<lparr>ro_return = int n, ro_error = None, ro_socket = si, ro_buffer = b, ro_address = a, ro_address_length = l\<rparr>)"

definition begin_read :: "nat \<Rightarrow> bool \<Rightarrow> cat_socket_internal_t \<Rightarrow> cat_socket_internal_t" where
  "begin_read co reading si =
     si\<lparr>si_read_context := True, si_read_coroutine := Some co, si_io_flags := si_io_flags si OR IO_READ, uv_reading := reading\<rparr>"

definition end_read :: "cat_socket_internal_t \<Rightarrow> cat_socket_internal_t" where
  "end_read si =
     si\<lparr>si_io_flags := si_io_flags si XOR IO_READ, si_read_coroutine := None, si_read_context := False, uv_reading := False\<rparr>"

text \<open>The asynchronous part. \<open>start\<close> is the result of \<^verbatim>\<open>uv_read_start\<close>, \<open>evs\<close> are the callbacks, \<open>how\<close> is how the wait ends
  without one, and \<open>others\<close> what other coroutines do meanwhile.\<close>

definition async_read :: "cat_errno option \<Rightarrow> read_event list \<Rightarrow> wait_end \<Rightarrow> (cat_socket_internal_t \<Rightarrow> cat_socket_internal_t) \<Rightarrow>
    nat \<Rightarrow> bool \<Rightarrow> bool \<Rightarrow> bool \<Rightarrow> nat \<Rightarrow> inline_state \<Rightarrow> read_out c_run" where
  "async_read start evs how others co once is_dgram is_udp n st =
     (case st of (nread, si, b, a, l) \<Rightarrow>
        case start of
          Some e \<Rightarrow> Done (read_fails is_dgram e (nread, end_read (begin_read co False si), b, a, l))
        | None \<Rightarrow>
            let c = \<lparr>rc_once = once, rc_nread = nread, rc_error = Some CAT_ECANCELED, rc_buffer = b, rc_address = a, rc_address_length = l\<rparr>;
                cb = (if is_udp then cat_socket_udp_recv_callback else cat_socket_read_callback n)
            in c_bind (run_events cb evs c) (\<lambda>(c, woken).
                 let si = end_read (others (begin_read co True si)); b = rc_buffer c; a = rc_address c; l = rc_address_length c
                 in case (woken, how) of
                      (False, Wait_failed e) \<Rightarrow> Done (read_fails is_dgram e (nread, si, b, a, l))
                    | _ \<Rightarrow>
                        case rc_error c of
                          Some e \<Rightarrow> Done (read_fails is_dgram e (rc_nread c, si, b, a, l))
                        | None \<Rightarrow> Done (read_ends (rc_nread c) (rc_nread c, si, b, a, l))))"

definition cat_socket_internal_read_raw ::
    "recv_result list \<Rightarrow> udg_wait list \<Rightarrow> cat_errno option \<Rightarrow> read_event list \<Rightarrow> wait_end \<Rightarrow> (cat_socket_internal_t \<Rightarrow> cat_socket_internal_t) \<Rightarrow>
     nat \<Rightarrow> cat_socket_internal_t \<Rightarrow> byte list \<Rightarrow> nat \<Rightarrow> byte list option \<Rightarrow> u32 option \<Rightarrow> bool \<Rightarrow> read_out c_run" where
  "cat_socket_internal_read_raw calls waits start evs how others co si buffer n address address_length once =
     (let is_dgram = has (si_type si) FLAG_DGRAM; is_udp = is_type (si_type si) TYPE_UDP; is_udg = is_type (si_type si) TYPE_UDG
      in if n = 0 then Done (read_fails is_dgram CAT_ENOBUFS (0, si, buffer, address, address_length))
         else
           let address_length = (if is_dgram then address_length else map_option (\<lambda>_. 0) address_length); once = (is_dgram \<or> once)
           in c_bind
                (if cat_socket_internal_support_inline_read si then
                   let (fd, si) = cat_socket_internal_get_fd_fast si
                   in case fd of
                        None \<Rightarrow> c_assert is_dgram (Done (Block, 0, si, buffer, address, address_length))
                      | Some _ \<Rightarrow> inline_loop once is_dgram is_udg co n calls waits (0, si, buffer, address, address_length)
                 else Done (Block, 0, si, buffer, address, address_length)) (\<lambda>(e, st).
              case e of
                Return k \<Rightarrow> Done (read_ends k st)
              | Error c \<Rightarrow> Done (read_fails is_dgram c st)
              | Wait_error c \<Rightarrow> Done (read_fails is_dgram c st)
              | Block \<Rightarrow> async_read start evs how others co once is_dgram is_udp n st))"

text \<open>The entry of \<^verbatim>\<open>cat_socket_read\<close> and \<^verbatim>\<open>cat_socket_recv\<close>, which read without an address; \<open>read\<close> is the call above.\<close>

definition cat_socket_read_impl :: "(cat_socket_internal_t \<Rightarrow> read_out c_run) \<Rightarrow> internals \<Rightarrow> cat_socket_t \<Rightarrow>
    (int \<times> cat_errno option \<times> internals \<times> read_out option) c_run" where
  "cat_socket_read_impl read h s =
     c_bind (io_check h s IO_READ) (\<lambda>r.
       case r of
         Inl e \<Rightarrow> Done (- 1, Some e, h, None)
       | Inr i \<Rightarrow> c_bind (read (h i)) (\<lambda>out. Done (ro_return out, ro_error out, h(i := ro_socket out), Some out)))"

text \<open>Reading what is there, without a wait; a negative value is an error.\<close>

fun try_recv_loop :: "recv_result list \<Rightarrow> byte list \<Rightarrow> byte list option \<Rightarrow> u32 option \<Rightarrow>
    ((cat_errno + nat) \<times> byte list \<times> byte list option \<times> u32 option) c_run" where
  "try_recv_loop [] b a l = Done (Inl CAT_EAGAIN, b, a, l)"
| "try_recv_loop (Recv_error e # cs) b a l =
     (if e = EINTR then try_recv_loop cs b a l else Done (Inl (translate_sys_error e), b, a, l))"
| "try_recv_loop (Received d src # cs) b a l =
     c_bind (mem_write b 0 d) (\<lambda>b. c_bind (recv_address src a l) (\<lambda>(a, l). Done (Inr (length d), b, a, l)))"

definition cat_socket_internal_try_recv_raw :: "recv_result list \<Rightarrow> cat_socket_internal_t \<Rightarrow> byte list \<Rightarrow> byte list option \<Rightarrow> u32 option \<Rightarrow>
    ((cat_errno + nat) \<times> cat_socket_internal_t \<times> byte list \<times> byte list option \<times> u32 option) c_run" where
  "cat_socket_internal_try_recv_raw calls si buffer address address_length =
     (if \<not> cat_socket_internal_support_inline_read si then Done (Inl CAT_EMISUSE, si, buffer, address, address_length)
      else
        let (fd, si) = cat_socket_internal_get_fd_fast si
        in case fd of None \<Rightarrow> Done (Inl CAT_EBADF, si, buffer, address, address_length)
           | Some _ \<Rightarrow> c_bind (try_recv_loop calls buffer address address_length) (\<lambda>(r, b, a, l). Done (r, si, b, a, l)))"

text \<open>The peek that tells whether the other side is alive.\<close>

fun cat_socket_check_liveness_by_fd :: "recv_result list \<Rightarrow> cat_errno option" where
  "cat_socket_check_liveness_by_fd [] = None"
| "cat_socket_check_liveness_by_fd (Received d src # cs) = (if d = [] then Some CAT_ECONNRESET else None)"
| "cat_socket_check_liveness_by_fd (Recv_error e # cs) =
     (if e = EINTR then cat_socket_check_liveness_by_fd cs
      else let c = translate_sys_error e in if c \<noteq> CAT_EAGAIN \<and> c \<noteq> CAT_EMSGSIZE then Some c else None)"

subsection \<open>Names of types\<close>

definition all_types :: "(string \<times> cat_socket_type_t) list" where
  "all_types = [(''TCP'', TYPE_TCP), (''TCP4'', TYPE_TCP4), (''TCP6'', TYPE_TCP6), (''PIPE'', TYPE_PIPE), (''IPCC'', TYPE_IPCC),
     (''TTY'', TYPE_TTY), (''STDIN'', TYPE_STDIN), (''STDOUT'', TYPE_STDOUT), (''STDERR'', TYPE_STDERR), (''UDP'', TYPE_UDP),
     (''UDP4'', TYPE_UDP4), (''UDP6'', TYPE_UDP6), (''UDG'', TYPE_UDG)]"

lemma type_names: "map (\<lambda>(n, t). cat_socket_type_get_name t) all_types = map fst all_types"
  by (simp add: all_types_def cat_socket_type_get_name_def is_type_def has_def type_defs)

text \<open>\<^verbatim>\<open>CAT_SOCKET_INTERNAL_TCP_ONLY\<close> tests for a common bit: it refuses local datagram sockets and no other.\<close>

theorem tcp_only_refuses: "{t \<in> snd ` set all_types. tcp_only (si\<lparr>si_type := t\<rparr>) \<noteq> None} = {TYPE_UDG}"
  by (auto simp: all_types_def tcp_only_def has_def type_defs)

subsection \<open>Timeouts\<close>

text \<open>A timeout that is stored fits 32 bits, and is either one that was asked for or no limit.\<close>

definition storable :: "int \<Rightarrow> bool" where
  "storable t \<longleftrightarrow> t = TIMEOUT_STORAGE_DEFAULT \<or> CAT_TIMEOUT_FOREVER \<le> t \<and> t \<le> TIMEOUT_STORAGE_MAX"

lemma align_storable [simp]: "storable (cat_socket_align_timeout t)"
  by (auto simp: storable_def cat_socket_align_timeout_def)

lemma timeout_of_set [simp]: "timeout_of k (set_timeout_of j t o') = (if k = j then t else timeout_of k o')"
  by (cases k; cases j) (simp_all add: timeout_of_def set_timeout_of_def)

text \<open>A timeout that is set is the one that is in force, and the others stay as they are; asking for the default makes the
  one of the library count, and what cannot be stored becomes no limit.\<close>

theorem timeout_in_force:
  assumes "socket_internal s = Some i"
  shows "cat_socket_get_timeout_fast k g (snd (cat_socket_set_timeout_of j h s t)) s =
    (if k \<noteq> j then cat_socket_get_timeout_fast k g h s
     else if t = TIMEOUT_STORAGE_DEFAULT then cat_socket_get_global_timeout k g
     else if CAT_TIMEOUT_FOREVER \<le> t \<and> t \<le> TIMEOUT_STORAGE_MAX then t else CAT_TIMEOUT_FOREVER)"
  using assms by (auto simp: cat_socket_get_timeout_fast_def cat_socket_set_timeout_of_def internal_getter_def internal_getter_silent_def
      cat_socket_internal_get_timeout_def cat_socket_align_timeout_def)

subsection \<open>Reading a stream\<close>

text \<open>What the system promises: a call returns no more than it was asked for, nor do the callbacks, to which the room that is
  left is given; a callback with data has some.\<close>

definition calls_fit :: "nat \<Rightarrow> recv_result list \<Rightarrow> bool" where
  "calls_fit n cs \<longleftrightarrow> (\<forall>d src. Received d src \<in> set cs \<longrightarrow> length d \<le> n)"

fun events_fit :: "nat \<Rightarrow> read_event list \<Rightarrow> bool" where
  "events_fit room [] = True"
| "events_fit room (Data d # evs) = (d \<noteq> [] \<and> length d \<le> room \<and> events_fit (room - length d) evs)"
| "events_fit room (Datagram d src # evs) = False"
| "events_fit room (ev # evs) = events_fit room evs"

text \<open>The bytes of the calls made at once: those of the first one that is not interrupted. The bytes of a callback.\<close>

fun inline_data :: "recv_result list \<Rightarrow> byte list" where
  "inline_data [] = []"
| "inline_data (Received d src # cs) = d"
| "inline_data (Recv_error e # cs) = (if e = EINTR \<or> e = ENOTSOCK then inline_data cs else [])"

fun event_data :: "read_event \<Rightarrow> byte list" where
  "event_data (Data d) = d"
| "event_data ev = []"

text \<open>A socket nobody reads from.\<close>

definition read_idle :: "cat_socket_internal_t \<Rightarrow> bool" where
  "read_idle si \<longleftrightarrow> \<not> has (si_io_flags si) IO_READ \<and> si_read_coroutine si = None \<and> \<not> si_read_context si \<and> \<not> uv_reading si"

abbreviation filled :: "byte list \<Rightarrow> byte list \<Rightarrow> byte list" where
  "filled d b \<equiv> d @ drop (length d) b"

lemma mem_write_filled:
  "length p + length d \<le> length b \<Longrightarrow> mem_write (filled p b) (length p) d = Done (filled (p @ d) b)"
  by (simp add: add.commute)

lemma inline_calls_stream:
  assumes "calls_fit n cs" and "0 < n" and "n \<le> length b" and "read_idle si"
  shows "\<exists>e cs' k si'. inline_calls once False n cs (0, si, b, a, l) = Done (e, cs', k, si', filled (inline_data cs) b, a, l) \<and>
    read_idle si' \<and> length (inline_data cs) \<le> n \<and>
    (case e of Block \<Rightarrow> k = length (inline_data cs) \<and> k < n \<and> (once \<longrightarrow> k = 0)
     | Return m \<Rightarrow> m = length (inline_data cs) \<and> (once \<or> m = n) \<and> (\<not> once \<longrightarrow> 0 < m)
     | Error c \<Rightarrow> k = 0 \<and> inline_data cs = [] | Wait_error c \<Rightarrow> False)"
  using assms
proof (induction cs arbitrary: si)
  case Nil
  then show ?case by auto
next
  case (Cons c cs)
  show ?case
  proof (cases c)
    case (Received d src)
    then have "length d \<le> n" using Cons.prems(1) by (auto simp: calls_fit_def)
    then show ?thesis using Cons.prems Received by (auto simp: Let_def)
  next
    case (Recv_error e)
    have fit: "calls_fit n cs" using Cons.prems(1) by (auto simp: calls_fit_def)
    have idle: "read_idle (si\<lparr>si_flags := si_flags si OR INTERNAL_NOT_SOCK\<rparr>)" using Cons.prems(4) by (simp add: read_idle_def)
    show ?thesis
    proof (cases e)
      case EINTR
      have "inline_data (c # cs) = inline_data cs" "inline_calls once False n (c # cs) (0, si, b, a, l) = inline_calls once False n cs (0, si, b, a, l)"
        using EINTR Recv_error by simp_all
      then show ?thesis using Cons.IH [OF fit Cons.prems(2-4)] by (simp only:)
    next
      case ENOTSOCK
      let ?si = "si\<lparr>si_flags := si_flags si OR INTERNAL_NOT_SOCK\<rparr>"
      have "inline_data (c # cs) = inline_data cs" "inline_calls once False n (c # cs) (0, si, b, a, l) = inline_calls once False n cs (0, ?si, b, a, l)"
        using ENOTSOCK Recv_error by simp_all
      then show ?thesis using Cons.IH [OF fit Cons.prems(2,3) idle] by (simp only:)
    qed (use Recv_error Cons.prems in auto)
  qed
qed

text \<open>The callbacks append to the bytes that are there.\<close>

definition holds_bytes :: "nat \<Rightarrow> byte list \<Rightarrow> byte list \<Rightarrow> read_context \<Rightarrow> bool" where
  "holds_bytes n b q c \<longleftrightarrow> rc_buffer c = filled q b \<and> rc_nread c = length q \<and> length q \<le> n"

definition same_call :: "read_context \<Rightarrow> read_context \<Rightarrow> bool" where
  "same_call c c' \<longleftrightarrow> rc_once c' = rc_once c \<and> rc_address c' = rc_address c \<and> rc_address_length c' = rc_address_length c"

lemma read_callback_stream:
  assumes "events_fit (n - length p) (ev # evs)" and "n \<le> length b" and "holds_bytes n b p c"
  shows "\<exists>c' w. cat_socket_read_callback n ev c = Done (c', w) \<and> holds_bytes n b (p @ event_data ev) c' \<and> same_call c c' \<and>
    events_fit (n - length (p @ event_data ev)) evs \<and>
    (w \<and> rc_error c' = None \<longrightarrow> rc_once c \<or> rc_nread c' = n) \<and> (\<not> w \<longrightarrow> rc_error c' = None \<or> rc_error c' = rc_error c)"
proof (cases ev)
  case (Data d)
  then have "length p + length d \<le> n" "events_fit (n - length (p @ d)) evs"
    using assms(1,3) by (auto simp: holds_bytes_def diff_diff_left)
  then show ?thesis using Data assms(2,3) mem_write_filled [of p d b]
    by (simp add: cat_socket_read_callback_def holds_bytes_def same_call_def)
qed (use assms in \<open>auto simp: cat_socket_read_callback_def holds_bytes_def same_call_def\<close>)

lemma run_events_stream:
  assumes "events_fit (n - length p) evs" and "n \<le> length b" and "holds_bytes n b p c"
  shows "\<exists>c' w j. run_events (cat_socket_read_callback n) evs c = Done (c', w) \<and>
    holds_bytes n b (p @ concat (map event_data (take j evs))) c' \<and> same_call c c' \<and>
    (w \<and> rc_error c' = None \<longrightarrow> rc_once c \<or> rc_nread c' = n) \<and> (\<not> w \<longrightarrow> rc_error c' = None \<or> rc_error c' = rc_error c)"
  using assms(1,3)
proof (induction evs arbitrary: p c)
  case Nil
  then show ?case by (auto simp: same_call_def)
next
  case (Cons ev evs)
  obtain c1 w where c1: "cat_socket_read_callback n ev c = Done (c1, w)" "holds_bytes n b (p @ event_data ev) c1" "same_call c c1"
    "events_fit (n - length (p @ event_data ev)) evs" "w \<and> rc_error c1 = None \<longrightarrow> rc_once c \<or> rc_nread c1 = n"
    "\<not> w \<longrightarrow> rc_error c1 = None \<or> rc_error c1 = rc_error c"
    using read_callback_stream [OF Cons.prems(1) assms(2) Cons.prems(2)] by blast
  show ?case
  proof (cases w)
    case True
    then show ?thesis using c1 by (intro exI [of _ c1] exI [of _ True] exI [of _ 1]) simp
  next
    case False
    obtain c2 v j where "run_events (cat_socket_read_callback n) evs c1 = Done (c2, v)"
      "holds_bytes n b ((p @ event_data ev) @ concat (map event_data (take j evs))) c2" "same_call c1 c2"
      "v \<and> rc_error c2 = None \<longrightarrow> rc_once c1 \<or> rc_nread c2 = n" "\<not> v \<longrightarrow> rc_error c2 = None \<or> rc_error c2 = rc_error c1"
      using Cons.IH [OF c1(4,2)] by blast
    then show ?thesis using False c1(1,3,6)
      by (intro exI [of _ c2] exI [of _ v] exI [of _ "Suc j"]) (auto simp: same_call_def)
  qed
qed

lemma stream_types:
  assumes "\<not> has t FLAG_DGRAM"
  shows "\<not> is_type t TYPE_UDP" "\<not> is_type t TYPE_UDG"
proof -
  have bit: "has t FLAG_DGRAM" if "t AND x = x" "x AND FLAG_DGRAM = FLAG_DGRAM" for x
  proof -
    have "t AND FLAG_DGRAM = (t AND x) AND FLAG_DGRAM" using that by (metis and.assoc)
    then show ?thesis using that by (simp add: has_def)
  qed
  then show "\<not> is_type t TYPE_UDP" "\<not> is_type t TYPE_UDG"
    using assms bit [of TYPE_UDP] bit [of TYPE_UDG] by (auto simp: is_type_def type_defs)
qed

lemma has_one: "has (x :: 'a::len word) 1 \<longleftrightarrow> odd x"
  by (simp add: has_def and_one_eq odd_iff_mod_2_eq_one)

lemma end_read_idle:
  assumes "\<And>s. has (si_io_flags s) IO_READ \<Longrightarrow> has (si_io_flags (others s)) IO_READ"
  shows "read_idle (end_read (others (begin_read co r si)))"
proof -
  have "has (si_io_flags (others (begin_read co r si))) IO_READ"
    by (rule assms) (simp add: begin_read_def has_one even_or_iff)
  then have "\<not> has (si_io_flags (others (begin_read co r si)) XOR IO_READ) IO_READ"
    by (simp add: has_one even_xor_iff)
  then show ?thesis by (simp add: end_read_def read_idle_def)
qed

text \<open>What other coroutines may do while one waits: the bit of the read stays.\<close>

definition keeps_read :: "(cat_socket_internal_t \<Rightarrow> cat_socket_internal_t) \<Rightarrow> bool" where
  "keeps_read others \<longleftrightarrow> (\<forall>s. has (si_io_flags s) IO_READ \<longrightarrow> has (si_io_flags (others s)) IO_READ)"

text \<open>What a read of a stream returns: \<open>q\<close> are the bytes that arrived, \<open>i\<close> of them before the wait.\<close>

definition read_result :: "nat \<Rightarrow> bool \<Rightarrow> wait_end \<Rightarrow> nat \<Rightarrow> byte list \<Rightarrow> byte list \<Rightarrow> read_out \<Rightarrow> bool" where
  "read_result n once how i q b out \<longleftrightarrow>
     ro_buffer out = filled q b \<and> length q \<le> n \<and> read_idle (ro_socket out) \<and>
     (ro_error out = None \<longrightarrow> ro_return out = int (length q) \<and> (once \<or> how = Canceled \<or> length q = n)) \<and>
     (ro_error out \<noteq> None \<longrightarrow> ro_return out = (if q = [] then - 1 else int (length q)) \<or>
        how \<noteq> Canceled \<and> ro_return out = (if i = 0 then - 1 else int i))"

lemma async_read_stream:
  assumes "length p < n" and "n \<le> length b" and "events_fit (n - length p) evs" and "keeps_read others" and "read_idle si"
  shows "\<exists>out j. async_read start evs how others co once False False n (length p, si, filled p b, a, l) = Done out \<and>
    read_result n once how (length p) (p @ concat (map event_data (take j evs))) b out"
proof (cases start)
  case (Some e)
  have "read_idle (end_read (begin_read co False si))" using end_read_idle [of "\<lambda>s. s"] by simp
  then show ?thesis using Some assms(1)
    by (intro exI [of _ "read_fails False e (length p, end_read (begin_read co False si), filled p b, a, l)"] exI [of _ 0])
      (simp add: async_read_def read_fails_def read_result_def)
next
  case None
  let ?c = "\<lparr>rc_once = once, rc_nread = length p, rc_error = Some CAT_ECANCELED, rc_buffer = filled p b, rc_address = a, rc_address_length = l\<rparr>"
  let ?si = "end_read (others (begin_read co True si))"
  have "holds_bytes n b p ?c" using assms(1) by (simp add: holds_bytes_def)
  then obtain c' w j where c': "run_events (cat_socket_read_callback n) evs ?c = Done (c', w)"
    "holds_bytes n b (p @ concat (map event_data (take j evs))) c'"
    "w \<and> rc_error c' = None \<longrightarrow> once \<or> rc_nread c' = n"
    using run_events_stream [OF assms(3,2), of ?c] by auto
  let ?st = "\<lambda>k. (k, ?si, rc_buffer c', rc_address c', rc_address_length c')"
  have idle: "read_idle ?si" using assms(4) by (intro end_read_idle) (simp add: keeps_read_def)
  show ?thesis
  proof (cases "w \<or> how = Canceled")
    case False
    then obtain e where e: "\<not> w" "how = Wait_failed e" by (cases how) auto
    then have "async_read start evs how others co once False False n (length p, si, filled p b, a, l) = Done (read_fails False e (?st (length p)))"
      using None c'(1) by (simp add: async_read_def Let_def)
    then show ?thesis using c'(2) e idle
      by (intro exI [of _ "read_fails False e (?st (length p))"] exI [of _ j]) (simp add: read_result_def read_fails_def holds_bytes_def)
  next
    case True
    let ?out = "case rc_error c' of Some e \<Rightarrow> read_fails False e (?st (rc_nread c')) | None \<Rightarrow> read_ends (rc_nread c') (?st (rc_nread c'))"
    have "async_read start evs how others co once False False n (length p, si, filled p b, a, l) = Done ?out"
      using True None c'(1) by (cases w; cases how; cases "rc_error c'") (simp_all add: async_read_def Let_def)
    moreover have "read_result n once how (length p) (p @ concat (map event_data (take j evs))) b ?out"
      using True c'(2,3) idle
      by (cases "rc_error c'") (auto simp: read_result_def read_fails_def read_ends_def holds_bytes_def)
    ultimately show ?thesis by blast
  qed
qed

definition at_once :: "cat_socket_internal_t \<Rightarrow> recv_result list \<Rightarrow> byte list" where
  "at_once si calls = (if cat_socket_internal_support_inline_read si then inline_data calls else [])"

text \<open>A stream socket that can be read: its descriptor is known.\<close>

definition readable_stream :: "cat_socket_internal_t \<Rightarrow> bool" where
  "readable_stream si \<longleftrightarrow> \<not> has (si_type si) FLAG_DGRAM \<and> read_idle si \<and> (si_cache_fd si \<noteq> None \<or> uv_fd si \<noteq> None)"

lemma get_fd_stream:
  assumes "readable_stream si"
  obtains fd si' where "cat_socket_internal_get_fd_fast si = (Some fd, si')" "read_idle si'"
  using assms by (cases "si_cache_fd si") (auto simp: readable_stream_def cat_socket_internal_get_fd_fast_def read_idle_def)

lemma read_raw_stream:
  assumes "readable_stream si" and "0 < n" and "n \<le> length b" and "calls_fit n calls"
    and "events_fit (n - length (at_once si calls)) evs" and "keeps_read others"
  shows "\<exists>out j. cat_socket_internal_read_raw calls waits start evs how others co si b n a l once = Done out \<and>
    read_result n once how (length (at_once si calls)) (at_once si calls @ concat (map event_data (take j evs))) b out"
proof -
  let ?l = "map_option (\<lambda>_. 0) l"
  have stream: "\<not> has (si_type si) FLAG_DGRAM" "read_idle si" using assms(1) by (simp_all add: readable_stream_def)
  show ?thesis
  proof (cases "cat_socket_internal_support_inline_read si")
    case False
    then show ?thesis using async_read_stream [of "[]" n b evs others si start how co once a ?l] assms stream
      by (simp add: cat_socket_internal_read_raw_def stream_types Let_def at_once_def)
  next
    case True
    obtain fd si1 where fd: "cat_socket_internal_get_fd_fast si = (Some fd, si1)" "read_idle si1" using get_fd_stream [OF assms(1)] .
    obtain e cs' k si2 where calls: "inline_calls once False n calls (0, si1, b, a, ?l) = Done (e, cs', k, si2, filled (inline_data calls) b, a, ?l)"
      "read_idle si2" "length (inline_data calls) \<le> n"
      and e: "case e of Block \<Rightarrow> k = length (inline_data calls) \<and> k < n \<and> (once \<longrightarrow> k = 0)
         | Return m \<Rightarrow> m = length (inline_data calls) \<and> (once \<or> m = n) \<and> (\<not> once \<longrightarrow> 0 < m)
         | Error c \<Rightarrow> k = 0 \<and> inline_data calls = [] | Wait_error c \<Rightarrow> False"
      using inline_calls_stream [OF assms(4,2,3) fd(2), of once a ?l] by blast
    have p: "at_once si calls = inline_data calls" using True by (simp add: at_once_def)
    have run: "cat_socket_internal_read_raw calls waits start evs how others co si b n a l once =
        (case e of Return k' \<Rightarrow> Done (read_ends k' (k, si2, filled (inline_data calls) b, a, ?l))
         | Error c \<Rightarrow> Done (read_fails False c (k, si2, filled (inline_data calls) b, a, ?l))
         | Wait_error c \<Rightarrow> Done (read_fails False c (k, si2, filled (inline_data calls) b, a, ?l))
         | Block \<Rightarrow> async_read start evs how others co once False False n (k, si2, filled (inline_data calls) b, a, ?l))"
      using True assms(2) stream fd(1) calls(1)
      by (simp add: cat_socket_internal_read_raw_def stream_types Let_def inline_loop.simps cong: inline_end.case_cong)
    show ?thesis
    proof (cases e)
      case Block
      then show ?thesis using run e p async_read_stream [of "inline_data calls" n b evs others si2 start how co once a ?l] assms calls(2) by simp
    next
      case (Return m)
      then show ?thesis using run e p calls by (intro exI [of _ "read_ends m (k, si2, filled (inline_data calls) b, a, ?l)"] exI [of _ 0]) (auto simp: read_result_def read_ends_def)
    next
      case (Error c)
      then show ?thesis using run e p calls by (intro exI [of _ "read_fails False c (k, si2, filled (inline_data calls) b, a, ?l)"] exI [of _ 0]) (auto simp: read_result_def read_fails_def)
    qed (use e in simp)
  qed
qed

text \<open>C14: Reading \<open>n\<close> bytes of a stream, whatever the system and other coroutines do: the buffer holds the bytes that arrived, in
  order and without a gap, first those that were there at once, then those of the callbacks up to some point; nothing behind
  \<open>n\<close> bytes is written and the socket is ready for the next read. When no error is reported, the result is the number of these
  bytes, and unless one piece was asked for or the read was canceled it is \<open>n\<close>. When an error is reported and the read was canceled, the result
  is their number, or \<^verbatim>\<open>-1\<close> if there are none; after any other error, a timeout for example, they are in the buffer but need not be counted.\<close>

theorem read_delivers_stream:
  assumes "readable_stream si" and "0 < n" and "n \<le> length b" and "calls_fit n calls"
    and "events_fit (n - length (at_once si calls)) evs" and "keeps_read others"
  shows "\<exists>out j. let q = at_once si calls @ concat (map event_data (take j evs)) in
    cat_socket_internal_read_raw calls waits start evs how others co si b n a l once = Done out \<and>
    ro_buffer out = q @ drop (length q) b \<and> length q \<le> n \<and> read_idle (ro_socket out) \<and>
    (ro_error out = None \<longrightarrow> ro_return out = int (length q) \<and> (once \<or> how = Canceled \<or> length q = n)) \<and>
    (ro_error out \<noteq> None \<and> how = Canceled \<longrightarrow> ro_return out = (if q = [] then - 1 else int (length q)))"
  using read_raw_stream [OF assms, of waits start how co a l once]
  by (fastforce simp: read_result_def Let_def)

definition example_socket :: cat_socket_internal_t where
  "example_socket = \<lparr>si_type = TYPE_TCP, si_option_flags = 0, si_timeout = cat_socket_default_timeout_options, si_tcp_keepalive_delay = 0,
     si_flags = INTERNAL_ESTABLISHED, si_io_flags = 0, si_read_coroutine = None, si_read_context = False, si_cache_fd = Some 5,
     si_recv_buffer_size = - 1, si_send_buffer_size = - 1, uv_type = UV_TCP, uv_fd = Some 5, uv_ipc = False, uv_reading = False,
     uv_nodelay = True, uv_keepalive = False\<rparr>"

lemma example_readable: "readable_stream example_socket" "cat_socket_internal_support_inline_read example_socket"
  by (simp_all add: example_socket_def readable_stream_def read_idle_def has_def type_defs cat_socket_internal_support_inline_read_def)

theorem read_delivers_stream_witness:
  "\<exists>out j. let q = at_once example_socket [Recv_error EINTR, Received [1, 2] []] @ concat (map event_data (take j [Again, Data [3], Data [4, 5]])) in
    cat_socket_internal_read_raw [Recv_error EINTR, Received [1, 2] []] [] None [Again, Data [3], Data [4, 5]] Canceled (\<lambda>s. s) 1 example_socket
      (replicate 8 0) 5 None None False = Done out \<and>
    ro_buffer out = q @ drop (length q) (replicate 8 0) \<and> length q \<le> 5 \<and> read_idle (ro_socket out) \<and>
    (ro_error out = None \<longrightarrow> ro_return out = int (length q) \<and> (False \<or> Canceled = Canceled \<or> length q = 5)) \<and>
    (ro_error out \<noteq> None \<and> Canceled = Canceled \<longrightarrow> ro_return out = (if q = [] then - 1 else int (length q)))"
  by (rule read_delivers_stream) (simp_all add: example_readable calls_fit_def at_once_def keeps_read_def)

text \<open>Bytes are lost when a wait fails: what the callbacks have put into the buffer is not counted, and a read that got a part of
  its bytes from them and then timed out returns \<^verbatim>\<open>-1\<close>. When the read is canceled instead, it returns that part without an
  error, as if it were complete.\<close>

theorem partial_read_defects:
  assumes "readable_stream si" and "d \<noteq> []" and "length d < n" and "n \<le> length b" and "keeps_read others"
  shows "\<exists>s. cat_socket_internal_read_raw [] waits None [Data d] (Wait_failed e) others co si b n a None False =
      Done \<lparr>ro_return = - 1, ro_error = Some e, ro_socket = s, ro_buffer = d @ drop (length d) b, ro_address = a, ro_address_length = None\<rparr> \<and>
    cat_socket_internal_read_raw [] waits None [Data d] Canceled others co si b n a None False =
      Done \<lparr>ro_return = int (length d), ro_error = None, ro_socket = s, ro_buffer = d @ drop (length d) b, ro_address = a, ro_address_length = None\<rparr>"
proof -
  have stream: "\<not> has (si_type si) FLAG_DGRAM" using assms(1) by (simp add: readable_stream_def)
  obtain fd si1 where fd: "cat_socket_internal_get_fd_fast si = (Some fd, si1)" using get_fd_stream [OF assms(1)] .
  show ?thesis using stream fd assms(2-4)
    by (cases "cat_socket_internal_support_inline_read si")
      (auto simp: cat_socket_internal_read_raw_def stream_types Let_def inline_loop.simps async_read_def cat_socket_read_callback_def
        read_fails_def read_ends_def)
qed

theorem partial_read_defects_witness:
  "\<exists>s. cat_socket_internal_read_raw [] [] None [Data [7]] (Wait_failed CAT_ETIMEDOUT) (\<lambda>s. s) 1 example_socket [0, 0, 0] 3 None None False =
      Done \<lparr>ro_return = - 1, ro_error = Some CAT_ETIMEDOUT, ro_socket = s, ro_buffer = [7] @ drop (length [7 :: byte]) [0, 0, 0],
        ro_address = None, ro_address_length = None\<rparr> \<and>
    cat_socket_internal_read_raw [] [] None [Data [7]] Canceled (\<lambda>s. s) 1 example_socket [0, 0, 0] 3 None None False =
      Done \<lparr>ro_return = int (length [7 :: byte]), ro_error = None, ro_socket = s, ro_buffer = [7] @ drop (length [7 :: byte]) [0, 0, 0],
        ro_address = None, ro_address_length = None\<rparr>"
  by (rule partial_read_defects) (simp_all add: example_readable keeps_read_def)

text \<open>While an operation that reads is in progress, another read is refused and changes nothing.\<close>

theorem second_read_refused:
  assumes "socket_internal s = Some i" and "si_io_flags (h i) \<in> {IO_READ, IO_RDWR, IO_BIND, IO_ACCEPT, IO_CONNECT}"
  shows "cat_socket_read_impl read h s = Done (- 1, Some CAT_ELOCKED, h, None)"
proof -
  have "cat_socket_io_state_naming (si_io_flags (h i)) \<noteq> Undefined" "has (si_io_flags (h i)) IO_READ"
    using assms(2) by (auto simp: cat_socket_io_state_naming_def has_one)
  then obtain x where "cat_socket_io_state_naming (si_io_flags (h i)) = Done x" "has (si_io_flags (h i)) IO_READ"
    using assms(2) by (auto simp: cat_socket_io_state_naming_def split: if_splits)
  then show ?thesis using assms(1)
    by (simp add: cat_socket_read_impl_def io_check_def internal_getter_def internal_getter_silent_def internal_check_io_def
        cat_socket_io_state_name_def)
qed

end
