(* ===== verification/Cat_Socket_Io.thy ===== *)
theory Cat_Socket_Io
  imports Cat_Socket
begin

unbundle bit_operations_syntax

text \<open>
  Writing to a socket, closing, and the coroutines that wait on it, \<^verbatim>\<open>src/cat_socket.c\<close>. Several sockets share one
  internal socket. A coroutine that waits is a frame; whoever resumes it runs the rest of its call
  (\<open>write_return\<close>, \<open>read_return\<close>). A callback of the loop and \<^verbatim>\<open>close\<close> go on when the coroutine they resumed gives
  control back: what they have left to do is on a stack. Write requests are objects of a heap, given to libuv until
  its callback comes; using one that was freed, giving one away twice and the assertions of the code are
  \<open>Undefined\<close>. The coroutine of a request lies where libuv has the field \<^verbatim>\<open>data\<close>, which it does not touch, and both fields
  of a new request are set before they are read. A socket object that the library allocated is freed at the end of its
  \<^verbatim>\<open>close\<close>; using a freed one is \<open>Undefined\<close> too. There is no TLS and memory does not run out.

  The lemmas show that in every reachable state of a socket that transfers data, but for local datagram sockets, the bits of
  the I/O state say who waits, every request is owned by one side, and no assertion fails; that \<^verbatim>\<open>close\<close> resumes everyone who
  waits, whatever the resumed coroutines do; and that nothing is left when the internal socket is freed, but for a request that
  libuv refused. Local datagram sockets write without libuv: the last section shows that their queued writers are always
  canceled and that one that polls outlives the internal socket.
\<close>

subsection \<open>State\<close>

record cat_socket_write_request_t =
  wr_error :: "cat_errno option"
  wr_coroutine :: "nat option"

text \<open>What a coroutine waits for: the end of its request, data, the end of its own close, to be the next writer of a local datagram
  socket, the poll of such a socket, the end of \<^verbatim>\<open>bind\<close>, \<^verbatim>\<open>accept\<close> or \<^verbatim>\<open>connect\<close>. \<open>Udg_sending\<close> is in front of \<^verbatim>\<open>sendmsg\<close>.\<close>

datatype io_frame = Writing addr | Reading | Closing | Udg_queued | Udg_sending | Udg_polling | In_context

text \<open>What is left to do when a resumed coroutine gives control back: the end of the callback of a request; the parts of a
  \<^verbatim>\<open>close\<close> by a coroutine, of a socket or behind an error: the cancellation of \<^verbatim>\<open>bind\<close>, \<^verbatim>\<open>accept\<close> or \<^verbatim>\<open>connect\<close>, the loop
  over the writers, the cancellation of the reader, the end.\<close>

datatype io_rest = Write_tail addr | Close_context nat "nat option" | Close_writes nat "nat option" | Close_read nat "nat option" | Close_end nat "nat option"

datatype io_result = Ok | Failed cat_errno

record io_world =
  iw_si :: cat_socket_internal_t
  iw_freed :: bool
  iw_writers :: "nat list"
  iw_cached :: "addr option"
  iw_requests :: "addr \<Rightarrow> cat_socket_write_request_t option"
  iw_flight :: "addr list"
  iw_sockets :: "nat list"
  iw_ref :: nat
  iw_socket :: "nat \<Rightarrow> cat_socket_t"
  iw_freed_sockets :: "nat list"
  iw_context :: "nat option"
  iw_in_tree :: bool
  iw_uv_ref :: bool
  iw_readfd :: "nat option"
  iw_writefd :: "nat option"
  iw_closed_fds :: "nat list"
  iw_uv_closing :: bool
  iw_frames :: "nat \<Rightarrow> io_frame option"
  iw_results :: "nat \<Rightarrow> io_result option"
  iw_read_error :: "cat_errno option"
  iw_stack :: "io_rest list"

definition io_returns :: "nat \<Rightarrow> io_result \<Rightarrow> io_world \<Rightarrow> io_world" where
  "io_returns co r w = w\<lparr>iw_frames := (iw_frames w)(co := None), iw_results := (iw_results w)(co := Some r)\<rparr>"

definition request_at :: "io_world \<Rightarrow> addr \<Rightarrow> cat_socket_write_request_t c_run" where
  "request_at w r = (case iw_requests w r of Some q \<Rightarrow> Done q | None \<Rightarrow> Undefined)"

definition put_request :: "addr \<Rightarrow> cat_socket_write_request_t \<Rightarrow> io_world \<Rightarrow> io_world" where
  "put_request r q w = w\<lparr>iw_requests := (iw_requests w)(r := Some q)\<rparr>"

definition free_request :: "addr \<Rightarrow> io_world \<Rightarrow> io_world c_run" where
  "free_request r w = c_bind (request_at w r) (\<lambda>_. Done (w\<lparr>iw_requests := (iw_requests w)(r := None)\<rparr>))"

definition set_io_flags :: "(u8 \<Rightarrow> u8) \<Rightarrow> io_world \<Rightarrow> io_world" where
  "set_io_flags f w = w\<lparr>iw_si := (iw_si w)\<lparr>si_io_flags := f (si_io_flags (iw_si w))\<rparr>\<rparr>"

subsection \<open>Closing\<close>

definition cat_socket_soft_close :: "nat \<Rightarrow> bool \<Rightarrow> io_world \<Rightarrow> io_world" where
  "cat_socket_soft_close s unrecoverable w =
     (let sock = iw_socket w s;
          flags = socket_flags sock OR SOCKET_CLOSED;
          flags = (if unrecoverable then flags OR SOCKET_UNRECOVERABLE_ERROR else flags)
      in w\<lparr>iw_socket := (iw_socket w)(s := sock\<lparr>socket_flags := flags, socket_internal := None\<rparr>),
           iw_sockets := remove1 s (iw_sockets w)\<rparr>)"

text \<open>The loop over the sockets that are still bound.\<close>

fun close_references :: "nat list \<Rightarrow> bool \<Rightarrow> io_world \<Rightarrow> io_world" where
  "close_references [] unrecoverable w = w"
| "close_references (s # ss) unrecoverable w =
     close_references ss unrecoverable ((cat_socket_soft_close s unrecoverable w)\<lparr>iw_ref := iw_ref w - 1\<rparr>)"

text \<open>\<^verbatim>\<open>cat_socket_internal_close_impl\<close> up to the cancellations; they are the rest of the coroutine \<open>co\<close> that closes.\<close>

definition close_part :: "nat \<Rightarrow> nat option \<Rightarrow> u8 \<Rightarrow> io_rest" where
  "close_part co socket io =
     (if io = IO_BIND \<or> io = IO_ACCEPT \<or> io = IO_CONNECT then Close_context co socket
      else if has io IO_WRITE then Close_writes co socket else Close_read co socket)"

definition cat_socket_internal_close :: "nat \<Rightarrow> nat option \<Rightarrow> bool \<Rightarrow> io_world \<Rightarrow> io_world c_run" where
  "cat_socket_internal_close co socket unrecoverable w =
     c_assert (\<not> iw_freed w)
     (c_assert (iw_ref w \<noteq> 0 \<or> socket = None \<and> iw_sockets w = [])
     (c_assert (unrecoverable \<longrightarrow> socket = None)
       (if has (si_flags (iw_si w)) INTERNAL_CLOSED then Done w
        else
          let w = (case socket of None \<Rightarrow> w | Some s \<Rightarrow> (cat_socket_soft_close s unrecoverable w)\<lparr>iw_ref := iw_ref w - 1\<rparr>)
          in if socket \<noteq> None \<and> iw_ref w \<noteq> 0 then Done w
             else c_assert (\<forall>s\<in>set (iw_sockets w). s \<notin> set (iw_freed_sockets w))
               (let w = w\<lparr>iw_si := (iw_si w)\<lparr>si_flags := si_flags (iw_si w) OR INTERNAL_CLOSED\<rparr>\<rparr>;
                    w = close_references (iw_sockets w) unrecoverable w
                in c_assert (iw_ref w = 0 \<and> iw_sockets w = [])
                   (let w = (if has (si_flags (iw_si w)) INTERNAL_SERVER then w\<lparr>iw_in_tree := False, iw_uv_ref := True\<rparr> else w)
                    in Done (w\<lparr>iw_frames := (iw_frames w)(co := Some Closing),
                         iw_stack := close_part co socket (si_io_flags (iw_si w)) # iw_stack w\<rparr>))))))"

subsection \<open>Writing\<close>

text \<open>The choice of the request: the cached one if nobody writes, else a new object at \<open>fresh\<close>, which is kept in the cache
  if nobody writes.\<close>

definition choose_request :: "addr \<Rightarrow> io_world \<Rightarrow> addr \<times> io_world" where
  "choose_request fresh w =
     (let busy = has (si_io_flags (iw_si w)) IO_WRITE
      in case (if busy then None else iw_cached w) of
           Some r \<Rightarrow> (r, w)
         | None \<Rightarrow>
             let w = put_request fresh \<lparr>wr_error = None, wr_coroutine = None\<rparr> w
             in (fresh, if busy then w else w\<lparr>iw_cached := Some fresh\<rparr>))"

text \<open>\<^verbatim>\<open>uv_write2\<close>: an error, or the request is libuv's until the callback.\<close>

definition uv_submit :: "addr \<Rightarrow> io_world \<Rightarrow> io_world c_run" where
  "uv_submit r w = c_assert (r \<notin> set (iw_flight w) \<and> iw_requests w r \<noteq> None) (Done (w\<lparr>iw_flight := iw_flight w @ [r]\<rparr>))"

text \<open>\<^verbatim>\<open>CAT_SOCKET_CHECK_INPUT_ADDRESS\<close>, and the assertion on the size of a local address given to UDP.\<close>

type_synonym io_address = "(byte list \<times> u32) option"

definition check_input_address :: "io_address \<Rightarrow> cat_errno option c_run" where
  "check_input_address address =
     (case address of None \<Rightarrow> Done None
      | Some (a, l) \<Rightarrow> if 0 < l then c_bind (cat_sockaddr_check a l) (\<lambda>(_, e). Done e) else Done None)"

definition udp_address_fits :: "cat_socket_internal_t \<Rightarrow> io_address \<Rightarrow> bool c_run" where
  "udp_address_fits si address =
     (case address of None \<Rightarrow> Done True
      | Some (a, l) \<Rightarrow>
          if \<not> is_type (si_type si) TYPE_UDP then Done True else c_bind (sa_family a) (\<lambda>af. Done (af \<noteq> AF_LOCAL \<or> 110 \<le> l)))"

definition local_dgram :: "cat_socket_internal_t \<Rightarrow> bool" where
  "local_dgram si \<longleftrightarrow> has (si_type si) FLAG_DGRAM \<and> \<not> is_type (si_type si) TYPE_UDP"

text \<open>\<^verbatim>\<open>cat_socket_internal_udg_write\<close> up to its queue or its loop.\<close>

definition cat_socket_internal_udg_write :: "nat \<Rightarrow> io_world \<Rightarrow> io_world" where
  "cat_socket_internal_udg_write co w =
     (if has (si_io_flags (iw_si w)) IO_WRITE then w\<lparr>iw_writers := iw_writers w @ [co], iw_frames := (iw_frames w)(co := Some Udg_queued)\<rparr>
      else set_io_flags (\<lambda>f. f OR IO_WRITE) (w\<lparr>iw_frames := (iw_frames w)(co := Some Udg_sending)\<rparr>))"

text \<open>\<^verbatim>\<open>cat_socket_internal_write_raw\<close> up to the wait.\<close>

definition cat_socket_internal_write_raw :: "addr \<Rightarrow> cat_errno option \<Rightarrow> io_address \<Rightarrow> nat \<Rightarrow> io_world \<Rightarrow> io_world c_run" where
  "cat_socket_internal_write_raw fresh uv_error address co w =
     c_bind (check_input_address address) (\<lambda>bad.
       case bad of
         Some e \<Rightarrow> Done (io_returns co (Failed e) w)
       | None \<Rightarrow>
           c_bind (udp_address_fits (iw_si w) address) (\<lambda>fits. c_assert fits
             (if local_dgram (iw_si w) then Done (cat_socket_internal_udg_write co w)
              else
                let (r, w) = choose_request fresh w
                in case uv_error of
                     Some e \<Rightarrow> Done (io_returns co (Failed e) w)
                   | None \<Rightarrow>
                       c_bind (uv_submit r w) (\<lambda>w.
                         let w = put_request r \<lparr>wr_error = Some CAT_ECANCELED, wr_coroutine = Some co\<rparr> w;
                             w = set_io_flags (\<lambda>f. f OR IO_WRITE) w
                         in Done (w\<lparr>iw_writers := iw_writers w @ [co], iw_frames := (iw_frames w)(co := Some (Writing r))\<rparr>)))))"

text \<open>The rest of it: \<open>failed\<close> is the error of the wait. The call that ends in an error closes the socket first.\<close>

definition write_return :: "nat \<Rightarrow> cat_errno option \<Rightarrow> io_world \<Rightarrow> io_world c_run" where
  "write_return co failed w =
     (case iw_frames w co of
        Some (Writing r) \<Rightarrow>
          c_bind (request_at w r) (\<lambda>q.
            let w = w\<lparr>iw_writers := remove1 co (iw_writers w)\<rparr>;
                w = put_request r (q\<lparr>wr_coroutine := None\<rparr>) w;
                w = (if iw_writers w = [] then set_io_flags (\<lambda>f. f XOR IO_WRITE) w else w);
                result = (case failed of Some e \<Rightarrow> Failed e | None \<Rightarrow> (case wr_error q of Some e \<Rightarrow> Failed e | None \<Rightarrow> Ok));
                w = io_returns co result w
            in if failed \<noteq> None \<or> wr_error q = Some CAT_ECANCELED then cat_socket_internal_close co None True w else Done w)
      | _ \<Rightarrow> Undefined)"

text \<open>The callback of a request, which libuv calls for the requests in their order, and its end.\<close>

definition cat_socket_internal_write_callback :: "cat_errno option \<Rightarrow> io_world \<Rightarrow> io_world c_run" where
  "cat_socket_internal_write_callback status w =
     (case iw_flight w of
        [] \<Rightarrow> Undefined
      | r # fl \<Rightarrow>
          c_assert (\<not> iw_freed w)
          (c_bind (request_at w r) (\<lambda>q.
             let w = w\<lparr>iw_flight := fl, iw_stack := Write_tail r # iw_stack w\<rparr>
             in case wr_coroutine q of
                  None \<Rightarrow> Done w
                | Some co \<Rightarrow>
                    c_assert (has (si_io_flags (iw_si w)) IO_WRITE) (write_return co None (put_request r (q\<lparr>wr_error := status\<rparr>) w)))))"

definition write_callback_end :: "addr \<Rightarrow> io_world \<Rightarrow> io_world c_run" where
  "write_callback_end r w = c_assert (\<not> iw_freed w) (if iw_cached w \<noteq> Some r then free_request r w else Done w)"

subsection \<open>Writing to a local datagram socket\<close>

text \<open>The rest of the wait in the queue. The coroutine takes itself out of the queue before it asks whether it is the first.\<close>

definition udg_queued_return :: "nat \<Rightarrow> cat_errno option \<Rightarrow> io_world \<Rightarrow> io_world c_run" where
  "udg_queued_return co failed w =
     (if iw_frames w co = Some Udg_queued then
        c_assert (\<not> iw_freed w)
          (let w = w\<lparr>iw_writers := remove1 co (iw_writers w)\<rparr>
           in case failed of
                Some e \<Rightarrow> Done (io_returns co (Failed e) w)
              | None \<Rightarrow>
                  if iw_writers w = [] \<or> hd (iw_writers w) \<noteq> co then Done (io_returns co (Failed CAT_ECANCELED) w)
                  else Done (set_io_flags (\<lambda>f. f OR IO_WRITE) (w\<lparr>iw_frames := (iw_frames w)(co := Some Udg_sending)\<rparr>)))
      else Undefined)"

text \<open>Behind the loop: the first of the queue is resumed.\<close>

definition udg_finish :: "nat \<Rightarrow> io_result \<Rightarrow> io_world \<Rightarrow> io_world c_run" where
  "udg_finish co result w =
     c_assert (\<not> iw_freed w)
       (let w = io_returns co result (set_io_flags (\<lambda>f. f XOR IO_WRITE) w)
        in case iw_writers w of [] \<Rightarrow> Done w | c # _ \<Rightarrow> udg_queued_return c None w)"

text \<open>One turn of the loop: what \<^verbatim>\<open>sendmsg\<close> returns and, if the socket is to be polled for the first time, \<^verbatim>\<open>dup\<close>. Then how the poll ends.\<close>

datatype send_result = Sent | Send_again | Send_error cat_errno

datatype poll_end = Poll_writable | Poll_timedout | Poll_failed cat_errno

definition udg_turn :: "nat \<Rightarrow> send_result \<Rightarrow> cat_errno + nat \<Rightarrow> io_world \<Rightarrow> io_world c_run" where
  "udg_turn co sent dup w =
     (if iw_frames w co = Some Udg_sending then
        (case sent of
           Sent \<Rightarrow> udg_finish co Ok w
         | Send_error e \<Rightarrow> udg_finish co (Failed e) w
         | Send_again \<Rightarrow>
             c_assert (\<not> iw_freed w)
               (case iw_writefd w of
                  Some _ \<Rightarrow> Done (w\<lparr>iw_frames := (iw_frames w)(co := Some Udg_polling)\<rparr>)
                | None \<Rightarrow>
                    (case dup of
                       Inl e \<Rightarrow> udg_finish co (Failed e) w
                     | Inr fd \<Rightarrow> Done (w\<lparr>iw_writefd := Some fd, iw_frames := (iw_frames w)(co := Some Udg_polling)\<rparr>))))
      else Undefined)"

definition udg_poll_return :: "nat \<Rightarrow> poll_end \<Rightarrow> io_world \<Rightarrow> io_world c_run" where
  "udg_poll_return co how w =
     (if iw_frames w co = Some Udg_polling then
        (case how of
           Poll_writable \<Rightarrow> Done (w\<lparr>iw_frames := (iw_frames w)(co := Some Udg_sending)\<rparr>)
         | Poll_timedout \<Rightarrow> udg_finish co (Failed CAT_ETIMEDOUT) w
         | Poll_failed e \<Rightarrow> udg_finish co (Failed e) w)
      else Undefined)"

subsection \<open>Reading\<close>

definition read_wait :: "nat \<Rightarrow> io_world \<Rightarrow> io_world" where
  "read_wait co w =
     w\<lparr>iw_si := begin_read co True (iw_si w), iw_frames := (iw_frames w)(co := Some Reading), iw_read_error := Some CAT_ECANCELED\<rparr>"

text \<open>The error in the context of the read, when the coroutine is resumed and no callback has ended the read: \<^verbatim>\<open>ECANCELED\<close>, or none if a
  callback has delivered a part of the data.\<close>

definition read_cancel_result :: "io_world \<Rightarrow> io_result" where
  "read_cancel_result w = (case iw_read_error w of Some e \<Rightarrow> Failed e | None \<Rightarrow> Ok)"

definition read_return :: "nat \<Rightarrow> io_result \<Rightarrow> io_world \<Rightarrow> io_world c_run" where
  "read_return co result w =
     (if iw_frames w co = Some Reading then c_assert (\<not> iw_freed w) (Done (io_returns co result (w\<lparr>iw_si := end_read (iw_si w)\<rparr>)))
      else Undefined)"

subsection \<open>The rest of closing\<close>

text \<open>\<^verbatim>\<open>cat_socket_io_cancel\<close>: the coroutine runs the rest of its call. Of \<^verbatim>\<open>bind\<close>, \<^verbatim>\<open>accept\<close> and \<^verbatim>\<open>connect\<close> this is what they do to the
  internal socket behind their wait; \<^verbatim>\<open>connect\<close> closes it as well, which has no effect here.\<close>

definition cat_socket_io_cancel_write :: "nat \<Rightarrow> io_world \<Rightarrow> io_world c_run" where
  "cat_socket_io_cancel_write co w =
     (if iw_frames w co = Some Udg_queued then udg_queued_return co None w else write_return co None w)"

definition context_return :: "nat \<Rightarrow> io_world \<Rightarrow> io_world c_run" where
  "context_return co w =
     (if iw_frames w co = Some In_context then
        c_assert (\<not> iw_freed w)
          (let accepts = si_io_flags (iw_si w) = IO_ACCEPT;
               w = set_io_flags (\<lambda>_. IO_NONE) (w\<lparr>iw_context := None\<rparr>);
               w = (if accepts then w\<lparr>iw_uv_ref := False\<rparr> else w)
           in Done (io_returns co (Failed CAT_ECANCELED) w))
      else Undefined)"

text \<open>The end of \<^verbatim>\<open>close\<close> of a socket.\<close>

definition free_socket :: "nat \<Rightarrow> io_world \<Rightarrow> io_world c_run" where
  "free_socket s w =
     c_assert (s \<notin> set (iw_freed_sockets w))
       (Done (if has (socket_flags (iw_socket w s)) SOCKET_ALLOCATED then w\<lparr>iw_freed_sockets := s # iw_freed_sockets w\<rparr> else w))"

definition close_descriptors :: "io_world \<Rightarrow> io_world" where
  "close_descriptors w =
     (if is_type (si_type (iw_si w)) TYPE_UDG then
        w\<lparr>iw_closed_fds := (case iw_writefd w of Some fd \<Rightarrow> [fd] | None \<Rightarrow> []) @ (case iw_readfd w of Some fd \<Rightarrow> [fd] | None \<Rightarrow> []) @ iw_closed_fds w\<rparr>
      else w)"

text \<open>One turn: the top of the stack is what the coroutine that has control goes on with.\<close>

definition io_continue :: "io_rest \<Rightarrow> io_world \<Rightarrow> io_world c_run" where
  "io_continue rest w =
     (case rest of
        Write_tail r \<Rightarrow> write_callback_end r w
      | Close_context co socket \<Rightarrow>
          let w = w\<lparr>iw_stack := Close_end co socket # iw_stack w\<rparr>
          in (case iw_context w of Some c \<Rightarrow> context_return c w | None \<Rightarrow> Done w)
      | Close_writes co socket \<Rightarrow>
          (case iw_writers w of
             c # _ \<Rightarrow> cat_socket_io_cancel_write c (w\<lparr>iw_stack := Close_writes co socket # iw_stack w\<rparr>)
           | [] \<Rightarrow> Done (w\<lparr>iw_stack := Close_read co socket # iw_stack w\<rparr>))
      | Close_read co socket \<Rightarrow>
          let w = w\<lparr>iw_stack := Close_end co socket # iw_stack w\<rparr>
          in if has (si_io_flags (iw_si w)) IO_READ then
               (case si_read_coroutine (iw_si w) of Some c \<Rightarrow> read_return c (read_cancel_result w) w | None \<Rightarrow> Done w)
             else Done w
      | Close_end co socket \<Rightarrow>
          c_assert (\<not> iw_freed w \<and> \<not> iw_uv_closing w)
            (let w = (close_descriptors w)\<lparr>iw_uv_closing := True, iw_frames := (iw_frames w)(co := None)\<rparr>
             in (case socket of None \<Rightarrow> Done w | Some s \<Rightarrow> free_socket s w)))"

text \<open>\<^verbatim>\<open>cat_socket_close_callback\<close>: libuv has finished with the handle.\<close>

definition cat_socket_close_callback :: "io_world \<Rightarrow> io_world c_run" where
  "cat_socket_close_callback w =
     c_assert (\<not> iw_freed w)
     (c_bind (case iw_cached w of Some r \<Rightarrow> free_request r w | None \<Rightarrow> Done w) (\<lambda>w. Done (w\<lparr>iw_freed := True\<rparr>)))"

subsection \<open>The calls on a socket\<close>

definition io_heap :: "io_world \<Rightarrow> internals" where
  "io_heap w = (\<lambda>_. iw_si w)"

definition cat_socket_write :: "addr \<Rightarrow> cat_errno option \<Rightarrow> io_address \<Rightarrow> nat \<Rightarrow> nat \<Rightarrow> io_world \<Rightarrow> io_world c_run" where
  "cat_socket_write fresh uv_error address co s w =
     c_assert (s \<notin> set (iw_freed_sockets w))
     (c_bind (io_check (io_heap w) (iw_socket w s) IO_NONE) (\<lambda>r.
       case r of Inl e \<Rightarrow> Done (io_returns co (Failed e) w)
       | Inr _ \<Rightarrow> c_assert (\<not> iw_freed w) (cat_socket_internal_write_raw fresh uv_error address co w)))"

definition socket_read :: "nat \<Rightarrow> nat \<Rightarrow> io_world \<Rightarrow> io_world c_run" where
  "socket_read co s w =
     c_assert (s \<notin> set (iw_freed_sockets w))
     (c_bind (io_check (io_heap w) (iw_socket w s) IO_READ) (\<lambda>r.
       case r of Inl e \<Rightarrow> Done (io_returns co (Failed e) w)
       | Inr _ \<Rightarrow> c_assert (\<not> iw_freed w) (Done (read_wait co w))))"

text \<open>If somebody is to be canceled, the end of the call is on the stack.\<close>

definition cat_socket_close :: "nat \<Rightarrow> nat \<Rightarrow> io_world \<Rightarrow> io_world c_run" where
  "cat_socket_close co s w =
     c_assert (s \<notin> set (iw_freed_sockets w))
     (let sock = iw_socket w s;
          was_unrecoverable = has (socket_flags sock) SOCKET_UNRECOVERABLE_ERROR;
          sock = sock\<lparr>socket_flags := socket_flags sock AND NOT SOCKET_UNRECOVERABLE_ERROR\<rparr>
      in case socket_internal sock of
           None \<Rightarrow>
             let w = w\<lparr>iw_socket := (iw_socket w)(s := sock)\<rparr>
             in free_socket s
               (io_returns co (if \<not> was_unrecoverable \<and> has (socket_flags sock) SOCKET_USER_CLOSED then Failed CAT_EBADF else Ok) w)
         | Some _ \<Rightarrow>
             let w = w\<lparr>iw_socket := (iw_socket w)(s := sock\<lparr>socket_flags := socket_flags sock OR SOCKET_USER_CLOSED\<rparr>)\<rparr>
             in c_bind (cat_socket_internal_close co (Some s) False (io_returns co Ok w)) (\<lambda>w.
                  if iw_frames w co = Some Closing then Done w else free_socket s w))"

subsection \<open>Steps\<close>

text \<open>The rules for the caller: a socket object is not used when it was freed, and an allocated one is not closed again
  while it is being closed. An address has a family, and a local address given to UDP has its full size.\<close>

fun closing_socket :: "io_rest \<Rightarrow> nat option" where
  "closing_socket (Write_tail r) = None"
| "closing_socket (Close_context co socket) = socket"
| "closing_socket (Close_writes co socket) = socket"
| "closing_socket (Close_read co socket) = socket"
| "closing_socket (Close_end co socket) = socket"

definition usable :: "io_world \<Rightarrow> nat \<Rightarrow> bool" where
  "usable w s \<longleftrightarrow> s \<notin> set (iw_freed_sockets w)"

definition closable :: "io_world \<Rightarrow> nat \<Rightarrow> bool" where
  "closable w s \<longleftrightarrow> usable w s \<and> (has (socket_flags (iw_socket w s)) SOCKET_ALLOCATED \<longrightarrow> (\<forall>x\<in>set (iw_stack w). closing_socket x \<noteq> Some s))"

definition address_allowed :: "io_world \<Rightarrow> io_address \<Rightarrow> bool" where
  "address_allowed w address \<longleftrightarrow>
     (case address of None \<Rightarrow> True
      | Some (a, l) \<Rightarrow> 2 \<le> length a \<and> (is_type (si_type (iw_si w)) TYPE_UDP \<and> sa_family a = Done AF_LOCAL \<longrightarrow> 110 \<le> l))"

text \<open>A coroutine that neither waits nor closes may write, read or close at any time; a waiting one may be resumed by anybody,
  with an error of its wait or without. A part of the data of a read may arrive. The callbacks of the loop come while the loop has control, which is
  when nothing is left to do. \<open>refuses\<close> says whether \<^verbatim>\<open>uv_write2\<close> may return an error.\<close>

inductive io_step :: "bool \<Rightarrow> io_world \<Rightarrow> io_world \<Rightarrow> bool" for refuses where
  step_write: "iw_frames w co = None \<Longrightarrow> iw_requests w fresh = None \<Longrightarrow> uv_error \<noteq> None \<longrightarrow> refuses \<Longrightarrow> usable w s \<Longrightarrow> address_allowed w address \<Longrightarrow>
    cat_socket_write fresh uv_error address co s w = Done w' \<Longrightarrow> io_step refuses w w'"
| step_read: "iw_frames w co = None \<Longrightarrow> usable w s \<Longrightarrow> socket_read co s w = Done w' \<Longrightarrow> io_step refuses w w'"
| step_close: "iw_frames w co = None \<Longrightarrow> closable w s \<Longrightarrow> cat_socket_close co s w = Done w' \<Longrightarrow> io_step refuses w w'"
| step_resume: "iw_frames w co = Some (Writing r) \<Longrightarrow> write_return co failed w = Done w' \<Longrightarrow> io_step refuses w w'"
| step_read_done: "iw_frames w co = Some Reading \<Longrightarrow> read_return co result w = Done w' \<Longrightarrow> io_step refuses w w'"
| step_part: "iw_frames w co = Some Reading \<Longrightarrow> io_step refuses w (w\<lparr>iw_read_error := None\<rparr>)"
| step_udg_queued: "iw_frames w co = Some Udg_queued \<Longrightarrow> udg_queued_return co failed w = Done w' \<Longrightarrow> io_step refuses w w'"
| step_udg_turn: "iw_frames w co = Some Udg_sending \<Longrightarrow> udg_turn co sent dup w = Done w' \<Longrightarrow> io_step refuses w w'"
| step_udg_poll: "iw_frames w co = Some Udg_polling \<Longrightarrow> udg_poll_return co how w = Done w' \<Longrightarrow> io_step refuses w w'"
| step_write_callback: "iw_stack w = [] \<Longrightarrow> iw_flight w \<noteq> [] \<Longrightarrow> cat_socket_internal_write_callback status w = Done w' \<Longrightarrow> io_step refuses w w'"
| step_continue: "iw_stack w = rest # st \<Longrightarrow> io_continue rest (w\<lparr>iw_stack := st\<rparr>) = Done w' \<Longrightarrow> io_step refuses w w'"
| step_close_callback: "iw_stack w = [] \<Longrightarrow> iw_flight w = [] \<Longrightarrow> iw_uv_closing w \<Longrightarrow> \<not> iw_freed w \<Longrightarrow>
    cat_socket_close_callback w = Done w' \<Longrightarrow> io_step refuses w w'"

text \<open>At the start the socket is open and nobody waits. It is no local datagram socket, whose writers have the defects shown below, and
  neither binds, nor accepts, nor connects.\<close>

definition io_start :: "io_world \<Rightarrow> bool" where
  "io_start w \<longleftrightarrow> \<not> local_dgram (iw_si w) \<and> read_idle (iw_si w) \<and> si_io_flags (iw_si w) = IO_NONE \<and> \<not> has (si_flags (iw_si w)) INTERNAL_CLOSED \<and>
     \<not> iw_freed w \<and> iw_writers w = [] \<and> iw_cached w = None \<and> iw_requests w = (\<lambda>_. None) \<and> iw_flight w = [] \<and> iw_sockets w \<noteq> [] \<and>
     distinct (iw_sockets w) \<and> iw_ref w = length (iw_sockets w) \<and> (\<forall>s. s \<in> set (iw_sockets w) \<longleftrightarrow> socket_internal (iw_socket w s) \<noteq> None) \<and>
     iw_freed_sockets w = [] \<and> \<not> iw_uv_closing w \<and> iw_frames w = (\<lambda>_. None) \<and> iw_stack w = []"

subsection \<open>Invariant\<close>

definition io_bits :: "bool \<Rightarrow> bool \<Rightarrow> u8" where
  "io_bits reading writing = (if reading then IO_READ else 0) OR (if writing then IO_WRITE else 0)"

lemma io_bits_simps [simp]:
  "has (io_bits r w) IO_READ \<longleftrightarrow> r" "has (io_bits r w) IO_WRITE \<longleftrightarrow> w"
  "io_bits r w OR IO_WRITE = io_bits r True" "io_bits r True XOR IO_WRITE = io_bits r False"
  "io_bits r w OR IO_READ = io_bits True w" "io_bits True w XOR IO_READ = io_bits False w"
  by (cases r; cases w; simp add: io_bits_def has_def)+

text \<open>Who waits.\<close>

definition io_waits :: "io_world \<Rightarrow> bool" where
  "io_waits w \<longleftrightarrow>
     si_io_flags (iw_si w) = io_bits (si_read_coroutine (iw_si w) \<noteq> None) (iw_writers w \<noteq> []) \<and>
     distinct (iw_writers w) \<and> (\<forall>co. co \<in> set (iw_writers w) \<longleftrightarrow> (\<exists>r. iw_frames w co = Some (Writing r))) \<and>
     (\<forall>co. si_read_coroutine (iw_si w) = Some co \<longleftrightarrow> iw_frames w co = Some Reading)"

text \<open>Who owns the requests.\<close>

definition io_owned :: "io_world \<Rightarrow> bool" where
  "io_owned w \<longleftrightarrow>
     distinct (iw_flight w) \<and> (\<forall>r\<in>set (iw_flight w). iw_requests w r \<noteq> None) \<and>
     (\<forall>co r. iw_frames w co = Some (Writing r) \<longrightarrow> r \<in> set (iw_flight w) \<and>
       (\<exists>q. iw_requests w r = Some q \<and> wr_coroutine q = Some co \<and> wr_error q = Some CAT_ECANCELED)) \<and>
     (\<forall>r q co. iw_requests w r = Some q \<and> wr_coroutine q = Some co \<longrightarrow> iw_frames w co = Some (Writing r)) \<and>
     (\<forall>r. iw_cached w = Some r \<and> \<not> iw_freed w \<longrightarrow> iw_requests w r \<noteq> None) \<and>
     (\<forall>r. Write_tail r \<in> set (iw_stack w) \<longrightarrow> iw_requests w r \<noteq> None \<and> (iw_cached w \<noteq> Some r \<longrightarrow> r \<notin> set (iw_flight w)))"

abbreviation closed :: "io_world \<Rightarrow> bool" where
  "closed w \<equiv> has (si_flags (iw_si w)) INTERNAL_CLOSED"

text \<open>How far closing is. The stack has at most one part of \<^verbatim>\<open>close\<close>, above at most one callback.\<close>

fun closer :: "io_rest \<Rightarrow> nat option" where
  "closer (Write_tail r) = None"
| "closer (Close_context co socket) = Some co"
| "closer (Close_writes co socket) = Some co"
| "closer (Close_read co socket) = Some co"
| "closer (Close_end co socket) = Some co"

definition io_stack_ok :: "io_world \<Rightarrow> bool" where
  "io_stack_ok w \<longleftrightarrow>
     (\<exists>cl tl. iw_stack w = cl @ tl \<and> length cl \<le> 1 \<and> length tl \<le> 1 \<and> (\<forall>x\<in>set cl. closer x \<noteq> None) \<and> (\<forall>x\<in>set tl. closer x = None)) \<and>
     (\<forall>co. iw_frames w co = Some Closing \<longleftrightarrow> (\<exists>x\<in>set (iw_stack w). closer x = Some co)) \<and>
     (\<forall>co so. Close_read co so \<in> set (iw_stack w) \<longrightarrow> iw_writers w = []) \<and>
     (\<forall>co so. Close_end co so \<in> set (iw_stack w) \<longrightarrow> iw_writers w = [] \<and> si_read_coroutine (iw_si w) = None)"

definition io_closing :: "io_world \<Rightarrow> bool" where
  "io_closing w \<longleftrightarrow>
     iw_ref w = length (iw_sockets w) \<and> distinct (iw_sockets w) \<and>
     (\<forall>s. s \<in> set (iw_sockets w) \<longleftrightarrow> socket_internal (iw_socket w s) \<noteq> None) \<and>
     (closed w \<longleftrightarrow> iw_sockets w = []) \<and>
     ((\<exists>x\<in>set (iw_stack w). closer x \<noteq> None) \<longleftrightarrow> closed w \<and> \<not> iw_uv_closing w) \<and>
     (iw_uv_closing w \<longrightarrow> closed w \<and> iw_writers w = [] \<and> si_read_coroutine (iw_si w) = None) \<and>
     (iw_freed w \<longrightarrow> iw_uv_closing w \<and> iw_flight w = [] \<and> iw_stack w = [])"

text \<open>As long as the socket is not closed, somebody waits for every request that libuv has.\<close>

definition io_live :: "io_world \<Rightarrow> bool" where
  "io_live w \<longleftrightarrow> (\<not> closed w \<longrightarrow> (\<forall>r\<in>set (iw_flight w). \<exists>q co. iw_requests w r = Some q \<and> wr_coroutine q = Some co))"

text \<open>No request is forgotten.\<close>

definition io_kept :: "io_world \<Rightarrow> bool" where
  "io_kept w \<longleftrightarrow> (\<forall>r. iw_requests w r \<noteq> None \<longrightarrow>
     r \<in> set (iw_flight w) \<or> iw_cached w = Some r \<and> \<not> iw_freed w \<or> Write_tail r \<in> set (iw_stack w))"

text \<open>What is left out stays out: nobody waits on a local datagram socket or in \<^verbatim>\<open>bind\<close>, \<^verbatim>\<open>accept\<close> or \<^verbatim>\<open>connect\<close>. A freed socket
  object is neither bound nor being closed.\<close>

definition io_objects :: "io_world \<Rightarrow> bool" where
  "io_objects w \<longleftrightarrow> \<not> local_dgram (iw_si w) \<and>
     (\<forall>co. iw_frames w co \<notin> {Some Udg_queued, Some Udg_sending, Some Udg_polling, Some In_context}) \<and>
     (\<forall>co so. Close_context co so \<notin> set (iw_stack w)) \<and>
     (\<forall>s\<in>set (iw_freed_sockets w). socket_internal (iw_socket w s) = None \<and> (\<forall>x\<in>set (iw_stack w). closing_socket x \<noteq> Some s))"

definition io_inv :: "bool \<Rightarrow> io_world \<Rightarrow> bool" where
  "io_inv refuses w \<longleftrightarrow> io_waits w \<and> io_owned w \<and> io_stack_ok w \<and> io_closing w \<and> io_live w \<and> io_objects w \<and> (\<not> refuses \<longrightarrow> io_kept w)"

lemmas io_inv_defs = io_inv_def io_objects_def io_waits_def io_owned_def io_stack_ok_def io_closing_def io_live_def io_kept_def

lemma io_start_inv: "io_start w \<Longrightarrow> io_inv refuses w"
  by (auto simp: io_start_def io_inv_defs read_idle_def io_bits_def)

text \<open>The stack does not depend on who waits.\<close>

lemma stack_ok_frame:
  assumes "io_stack_ok w" and "iw_stack w' = iw_stack w" and "\<And>co. iw_frames w' co = Some Closing \<longleftrightarrow> iw_frames w co = Some Closing"
    and waits: "\<And>x. x \<in> set (iw_stack w) \<Longrightarrow> closer x \<noteq> None \<Longrightarrow> (iw_writers w = [] \<longrightarrow> iw_writers w' = []) \<and>
      (si_read_coroutine (iw_si w) = None \<longrightarrow> si_read_coroutine (iw_si w') = None)"
  shows "io_stack_ok w'"
proof -
  have "\<forall>co so. Close_read co so \<in> set (iw_stack w) \<longrightarrow> iw_writers w' = []"
    "\<forall>co so. Close_end co so \<in> set (iw_stack w) \<longrightarrow> iw_writers w' = [] \<and> si_read_coroutine (iw_si w') = None"
    using waits [of "Close_read _ _"] waits [of "Close_end _ _"] assms(1) unfolding io_stack_ok_def by auto
  then show ?thesis using assms(1-3) unfolding io_stack_ok_def by simp
qed

subsection \<open>Closing keeps the invariant\<close>

lemma close_references_spec:
  assumes "distinct ss" and "iw_sockets w = ss" and "iw_ref w = length ss"
  shows "\<exists>f. close_references ss u w = w\<lparr>iw_socket := f, iw_sockets := [], iw_ref := 0\<rparr> \<and>
    (\<forall>s. socket_internal (f s) = (if s \<in> set ss then None else socket_internal (iw_socket w s)))"
  using assms
proof (induction ss arbitrary: w)
  case Nil
  then have "w = w\<lparr>iw_socket := iw_socket w, iw_sockets := [], iw_ref := 0\<rparr>" by simp
  then show ?case by (intro exI [of _ "iw_socket w"]) simp
next
  case (Cons s ss)
  let ?w = "(cat_socket_soft_close s u w)\<lparr>iw_ref := iw_ref w - 1\<rparr>"
  obtain f where "close_references ss u ?w = ?w\<lparr>iw_socket := f, iw_sockets := [], iw_ref := 0\<rparr>"
    "\<And>t. socket_internal (f t) = (if t \<in> set ss then None else socket_internal (iw_socket ?w t))"
    using Cons.IH [of ?w] Cons.prems by (auto simp: cat_socket_soft_close_def Let_def)
  then show ?case using Cons.prems
    by (intro exI [of _ f]) (auto simp: cat_socket_soft_close_def Let_def)
qed

text \<open>What holds when a close begins: all but that somebody waits for every request.\<close>

definition io_pre :: "bool \<Rightarrow> io_world \<Rightarrow> bool" where
  "io_pre refuses w \<longleftrightarrow> io_waits w \<and> io_owned w \<and> io_stack_ok w \<and> io_closing w \<and> io_objects w \<and> (\<not> refuses \<longrightarrow> io_kept w)"

lemma has_or_self: "has (x OR INTERNAL_CLOSED) INTERNAL_CLOSED"
proof -
  have "(x OR INTERNAL_CLOSED) AND INTERNAL_CLOSED = INTERNAL_CLOSED" by (simp add: bit_eq_iff bit_simps)
  then show ?thesis by (simp add: has_def)
qed

lemma no_closer_stack:
  assumes "io_stack_ok w" and "io_closing w" and "\<not> closed w"
  shows "length (iw_stack w) \<le> 1" "\<forall>x\<in>set (iw_stack w). closer x = None" "\<And>co. iw_frames w co \<noteq> Some Closing"
proof -
  show none: "\<forall>x\<in>set (iw_stack w). closer x = None" using assms(2,3) by (auto simp: io_closing_def)
  obtain cl tl where "iw_stack w = cl @ tl" "length tl \<le> 1" "\<forall>x\<in>set cl. closer x \<noteq> None"
    using assms(1) by (auto simp: io_stack_ok_def)
  moreover from this none have "cl = []" by (cases cl) auto
  ultimately show "length (iw_stack w) \<le> 1" by simp
  show "iw_frames w co \<noteq> Some Closing" for co using assms(1) none by (auto simp: io_stack_ok_def)
qed

text \<open>The part of closing that marks the internal socket and pushes the cancellations.\<close>

lemma close_part_bits: "close_part co so (io_bits r wr) = (if wr then Close_writes co so else Close_read co so)"
  by (cases r; cases wr) (simp_all add: close_part_def io_bits_def has_def)

text \<open>The world when the cancellations begin.\<close>

definition marked :: "nat \<Rightarrow> nat option \<Rightarrow> (nat \<Rightarrow> cat_socket_t) \<Rightarrow> io_world \<Rightarrow> io_world" where
  "marked co so f w =
     (let server = has (si_flags (iw_si w) OR INTERNAL_CLOSED) INTERNAL_SERVER
      in w\<lparr>iw_si := (iw_si w)\<lparr>si_flags := si_flags (iw_si w) OR INTERNAL_CLOSED\<rparr>, iw_socket := f, iw_sockets := [], iw_ref := 0,
           iw_in_tree := iw_in_tree w \<and> \<not> server, iw_uv_ref := iw_uv_ref w \<or> server, iw_frames := (iw_frames w)(co := Some Closing),
           iw_stack := (if iw_writers w \<noteq> [] then Close_writes co so else Close_read co so) # iw_stack w\<rparr>)"

lemma marked_inv:
  assumes "io_pre refuses w" and "\<not> closed w" and "iw_frames w co = None" and "\<not> iw_freed w"
    and f: "\<And>s. socket_internal (f s) = None" and so: "\<And>s. so = Some s \<Longrightarrow> s \<notin> set (iw_freed_sockets w)"
  shows "io_inv refuses (marked co so f w)" (is "io_inv refuses ?w")
proof -
  note pre = assms(1) [unfolded io_pre_def]
  have sc: "io_stack_ok w" "io_closing w" using pre by simp_all
  note st = no_closer_stack [OF sc assms(2)]
  have "\<not> iw_uv_closing w" using pre assms(2) by (auto simp: io_closing_def)
  have c: "closed ?w" by (simp add: has_or_self marked_def Let_def)
  have "io_waits ?w" using pre assms(3) by (auto simp: io_waits_def marked_def Let_def)
  moreover have "io_owned ?w" using pre assms(3) by (auto simp: io_owned_def marked_def Let_def)
  moreover have "io_stack_ok ?w"
    unfolding io_stack_ok_def
  proof (intro conjI exI)
    show "iw_stack ?w = [if iw_writers w \<noteq> [] then Close_writes co so else Close_read co so] @ iw_stack w" by (simp add: marked_def Let_def)
  qed (use st assms(3) in \<open>auto simp: marked_def Let_def\<close>)
  moreover have "io_closing ?w" using f c \<open>\<not> iw_uv_closing w\<close> assms(4) by (simp add: io_closing_def marked_def Let_def)
  moreover have "io_live ?w" using c by (simp add: io_live_def)
  moreover have "io_objects ?w" using pre f so by (auto simp: io_objects_def local_dgram_def marked_def Let_def)
  moreover have "\<not> refuses \<longrightarrow> io_kept ?w" using pre by (auto simp: io_kept_def marked_def Let_def)
  ultimately show ?thesis by (simp add: io_inv_def)
qed

lemma close_internal_ok:
  assumes "io_pre refuses w" and "iw_frames w co = None" and "\<not> iw_freed w"
  shows "\<exists>w'. cat_socket_internal_close co None u w = Done w' \<and> io_inv refuses w'"
proof (cases "closed w")
  case True
  then show ?thesis using assms by (auto simp: cat_socket_internal_close_def io_pre_def io_closing_def io_inv_def io_live_def)
next
  case False
  note pre = assms(1) [unfolded io_pre_def]
  let ?w1 = "w\<lparr>iw_si := (iw_si w)\<lparr>si_flags := si_flags (iw_si w) OR INTERNAL_CLOSED\<rparr>\<rparr>"
  have refs: "iw_ref w = length (iw_sockets w)" "distinct (iw_sockets w)" "\<And>s. s \<in> set (iw_sockets w) \<longleftrightarrow> socket_internal (iw_socket w s) \<noteq> None"
    using pre by (auto simp: io_closing_def)
  obtain f where f: "close_references (iw_sockets w) u ?w1 = ?w1\<lparr>iw_socket := f, iw_sockets := [], iw_ref := 0\<rparr>"
    "\<And>s. socket_internal (f s) = (if s \<in> set (iw_sockets w) then None else socket_internal (iw_socket w s))"
    using close_references_spec [of "iw_sockets w" ?w1 u] refs by auto
  have none: "socket_internal (f s) = None" for s using f(2) [of s] refs(3) [of s] by auto
  have part: "close_part co None (si_io_flags (iw_si w)) = (if iw_writers w \<noteq> [] then Close_writes co None else Close_read co None)"
    using pre by (simp add: io_waits_def close_part_bits)
  have objects: "\<forall>s\<in>set (iw_sockets w). s \<notin> set (iw_freed_sockets w)" using pre refs(3) by (auto simp: io_objects_def)
  have "cat_socket_internal_close co None u w = Done (marked co None f w)"
    using False assms(3) f(1) part refs(1) objects by (simp add: cat_socket_internal_close_def marked_def Let_def)
  then show ?thesis using marked_inv [OF assms(1) False assms(2,3), of f None] none by simp
qed

lemma close_socket_ok:
  assumes "io_inv refuses w" and "s \<in> set (iw_sockets w)" and "iw_frames w co = None"
  shows "\<exists>w'. cat_socket_internal_close co (Some s) False w = Done w' \<and> io_inv refuses w' \<and> s \<notin> set (iw_freed_sockets w') \<and>
    (iw_frames w' co = Some Closing \<or> socket_internal (iw_socket w' s) = None \<and> (\<forall>x\<in>set (iw_stack w'). closer x = None))"
proof -
  note inv = assms(1) [unfolded io_inv_def]
  have refs: "iw_ref w = length (iw_sockets w)" "distinct (iw_sockets w)" "\<And>t. t \<in> set (iw_sockets w) \<longleftrightarrow> socket_internal (iw_socket w t) \<noteq> None"
    using inv by (auto simp: io_closing_def)
  have open_w: "\<not> closed w" "\<not> iw_freed w" "\<not> iw_uv_closing w" using inv assms(2) by (auto simp: io_closing_def)
  have sf: "s \<notin> set (iw_freed_sockets w)" using inv assms(2) refs(3) by (auto simp: io_objects_def)
  let ?w1 = "(cat_socket_soft_close s False w)\<lparr>iw_ref := iw_ref w - 1\<rparr>"
  have s1: "socket_internal (iw_socket ?w1 t) = (if t = s then None else socket_internal (iw_socket w t))" for t
    by (simp add: cat_socket_soft_close_def Let_def)
  show ?thesis
  proof (cases "iw_ref w = 1")
    case False
    have "remove1 s (iw_sockets w) \<noteq> []" using False refs(1) assms(2) by (metis One_nat_def Suc_pred length_pos_if_in_set length_remove1 list.size(3) diff_Suc_1)
    moreover have "t \<in> set (remove1 s (iw_sockets w)) \<longleftrightarrow> t \<noteq> s \<and> socket_internal (iw_socket w t) \<noteq> None" for t
      using refs(2,3) by (auto simp: set_remove1_eq)
    ultimately have "io_inv refuses ?w1" using inv assms(2) refs open_w
      by (auto simp: io_inv_defs cat_socket_soft_close_def Let_def length_remove1)
    moreover have "0 < iw_ref w" using refs(1) length_pos_if_in_set [OF assms(2)] by simp
    then have "iw_ref w \<noteq> 0" "iw_ref w - 1 \<noteq> 0" using False by linarith+
    moreover have "socket_internal (iw_socket ?w1 s) = None" "iw_freed_sockets ?w1 = iw_freed_sockets w" "iw_stack ?w1 = iw_stack w"
      by (simp_all add: cat_socket_soft_close_def Let_def)
    moreover have "\<forall>x\<in>set (iw_stack w). closer x = None" using inv open_w by (auto simp: io_closing_def)
    ultimately show ?thesis using open_w sf by (simp add: cat_socket_internal_close_def)
  next
    case True
    then have only: "iw_sockets w = [s]" using refs(1) assms(2) by (cases "iw_sockets w") auto
    have none: "socket_internal (iw_socket ?w1 t) = None" for t using s1 [of t] refs(3) [of t] only by auto
    have part: "close_part co (Some s) (si_io_flags (iw_si w)) = (if iw_writers w \<noteq> [] then Close_writes co (Some s) else Close_read co (Some s))"
      using inv by (simp add: io_waits_def close_part_bits)
    have "cat_socket_internal_close co (Some s) False w = Done (marked co (Some s) (iw_socket ?w1) w)"
      using True only open_w part by (simp add: cat_socket_internal_close_def marked_def Let_def cat_socket_soft_close_def)
    moreover have "io_pre refuses w" using inv by (simp add: io_pre_def)
    then have "io_inv refuses (marked co (Some s) (iw_socket ?w1) w)" using open_w assms(3) none sf by (intro marked_inv) auto
    ultimately show ?thesis using sf by (simp add: marked_def Let_def)
  qed
qed

subsection \<open>Writing keeps the invariant\<close>

text \<open>The request of \<open>co\<close> may have been given back by libuv already.\<close>

definition io_owned_but :: "nat \<Rightarrow> io_world \<Rightarrow> bool" where
  "io_owned_but co w \<longleftrightarrow>
     distinct (iw_flight w) \<and> (\<forall>r\<in>set (iw_flight w). iw_requests w r \<noteq> None) \<and>
     (\<forall>c r. c \<noteq> co \<and> iw_frames w c = Some (Writing r) \<longrightarrow> r \<in> set (iw_flight w) \<and>
       (\<exists>q. iw_requests w r = Some q \<and> wr_coroutine q = Some c \<and> wr_error q = Some CAT_ECANCELED)) \<and>
     (\<forall>r q c. iw_requests w r = Some q \<and> wr_coroutine q = Some c \<longrightarrow> iw_frames w c = Some (Writing r)) \<and>
     (\<forall>r. iw_cached w = Some r \<and> \<not> iw_freed w \<longrightarrow> iw_requests w r \<noteq> None) \<and>
     (\<forall>r. Write_tail r \<in> set (iw_stack w) \<longrightarrow> iw_requests w r \<noteq> None \<and> (iw_cached w \<noteq> Some r \<longrightarrow> r \<notin> set (iw_flight w)))"

lemma owned_but: "io_owned w \<Longrightarrow> io_owned_but co w"
  unfolding io_owned_def io_owned_but_def by blast

text \<open>The state behind the wait.\<close>

definition written_off :: "nat \<Rightarrow> addr \<Rightarrow> cat_socket_write_request_t \<Rightarrow> io_result \<Rightarrow> io_world \<Rightarrow> io_world" where
  "written_off co r q result w =
     (let w = w\<lparr>iw_writers := remove1 co (iw_writers w)\<rparr>;
          w = put_request r (q\<lparr>wr_coroutine := None\<rparr>) w;
          w = (if iw_writers w = [] then set_io_flags (\<lambda>f. f XOR IO_WRITE) w else w)
      in io_returns co result w)"

lemma written_off_simps [simp]:
  "iw_writers (written_off co r q res w) = remove1 co (iw_writers w)"
  "iw_requests (written_off co r q res w) = (iw_requests w)(r := Some (q\<lparr>wr_coroutine := None\<rparr>))"
  "iw_frames (written_off co r q res w) = (iw_frames w)(co := None)"
  "iw_flight (written_off co r q res w) = iw_flight w" "iw_cached (written_off co r q res w) = iw_cached w"
  "iw_stack (written_off co r q res w) = iw_stack w" "iw_freed (written_off co r q res w) = iw_freed w"
  "iw_sockets (written_off co r q res w) = iw_sockets w" "iw_socket (written_off co r q res w) = iw_socket w"
  "iw_freed_sockets (written_off co r q res w) = iw_freed_sockets w" "si_type (iw_si (written_off co r q res w)) = si_type (iw_si w)"
  "iw_ref (written_off co r q res w) = iw_ref w" "iw_uv_closing (written_off co r q res w) = iw_uv_closing w"
  "si_flags (iw_si (written_off co r q res w)) = si_flags (iw_si w)"
  "si_read_coroutine (iw_si (written_off co r q res w)) = si_read_coroutine (iw_si w)"
  "si_io_flags (iw_si (written_off co r q res w)) =
     (if remove1 co (iw_writers w) = [] then si_io_flags (iw_si w) XOR IO_WRITE else si_io_flags (iw_si w))"
  by (simp_all add: written_off_def put_request_def set_io_flags_def io_returns_def Let_def)

lemma written_off_pre:
  assumes "io_waits w" and "io_owned_but co w" and "io_stack_ok w" and "io_closing w" and "\<not> refuses \<longrightarrow> io_kept w"
    and "iw_frames w co = Some (Writing r)" and "iw_requests w r = Some q" and "wr_coroutine q = Some co" and "io_objects w"
  shows "io_pre refuses (written_off co r q res w)" (is "io_pre refuses ?w")
proof -
  have co: "co \<in> set (iw_writers w)" and d: "distinct (iw_writers w)" using assms(1,6) by (auto simp: io_waits_def)
  have bits: "si_io_flags (iw_si w) = io_bits (si_read_coroutine (iw_si w) \<noteq> None) True"
    using assms(1) co by (cases "iw_writers w") (auto simp: io_waits_def)
  have "si_io_flags (iw_si ?w) = io_bits (si_read_coroutine (iw_si ?w) \<noteq> None) (iw_writers ?w \<noteq> [])"
    using bits by (simp del: not_None_eq)
  then have "io_waits ?w" using assms(1,6) d by (simp add: io_waits_def set_remove1_eq del: not_None_eq)
  moreover have other: "iw_frames w c \<noteq> Some (Writing r)" if "c \<noteq> co" for c
    using assms(2,7,8) that unfolding io_owned_but_def by fastforce
  have own: "wr_coroutine q' \<noteq> Some co" if "r' \<noteq> r" "iw_requests w r' = Some q'" for r' q'
    using assms(2,6) that unfolding io_owned_but_def by fastforce
  have "io_owned ?w" using assms(2,7) other own unfolding io_owned_def io_owned_but_def by simp
  moreover have "io_stack_ok ?w" using assms(3,6) by (intro stack_ok_frame [of w ?w]) auto
  moreover have "io_closing ?w" using assms(4) by (auto simp: io_closing_def)
  moreover have "io_objects ?w" using assms(9) by (auto simp: io_objects_def local_dgram_def)
  moreover have "\<not> refuses \<longrightarrow> io_kept ?w" using assms(5,7) by (auto simp: io_kept_def)
  ultimately show ?thesis by (simp add: io_pre_def)
qed

lemma write_return_ok:
  assumes "io_waits w" and "io_owned_but co w" and "io_stack_ok w" and "io_closing w" and "\<not> refuses \<longrightarrow> io_kept w"
    and "iw_frames w co = Some (Writing r)" and "iw_requests w r = Some q" and "wr_coroutine q = Some co" and "io_objects w"
    and "\<not> iw_freed w" and live: "failed = None \<Longrightarrow> wr_error q \<noteq> Some CAT_ECANCELED \<Longrightarrow>
      closed w \<or> r \<notin> set (iw_flight w) \<and> (\<forall>r\<in>set (iw_flight w). \<exists>q c. iw_requests w r = Some q \<and> wr_coroutine q = Some c)"
  shows "\<exists>w'. write_return co failed w = Done w' \<and> io_inv refuses w'"
proof -
  let ?res = "case failed of Some e \<Rightarrow> Failed e | None \<Rightarrow> (case wr_error q of Some e \<Rightarrow> Failed e | None \<Rightarrow> Ok)"
  let ?w = "written_off co r q ?res w"
  have run: "write_return co failed w =
      (if failed \<noteq> None \<or> wr_error q = Some CAT_ECANCELED then cat_socket_internal_close co None True ?w else Done ?w)"
    using assms(6,7) by (auto simp: write_return_def request_at_def written_off_def Let_def)
  have pre: "io_pre refuses ?w" using written_off_pre [OF assms(1-9)] .
  show ?thesis
  proof (cases "failed \<noteq> None \<or> wr_error q = Some CAT_ECANCELED")
    case True
    then show ?thesis using run close_internal_ok [OF pre, of co True] assms(10) by simp
  next
    case False
    then have "io_live ?w" using live assms(7,8) by (auto simp: io_live_def)
    then show ?thesis using run False pre by (simp add: io_pre_def io_inv_def)
  qed
qed

lemma owned_writing:
  assumes "io_owned w" and "iw_frames w co = Some (Writing r)"
  obtains q where "iw_requests w r = Some q" "wr_coroutine q = Some co" "r \<in> set (iw_flight w)" "wr_error q = Some CAT_ECANCELED"
  using assms unfolding io_owned_def by blast

lemma inv_resume:
  assumes "io_inv refuses w" and "iw_frames w co = Some (Writing r)"
  shows "\<exists>w'. write_return co failed w = Done w' \<and> io_inv refuses w'"
proof -
  note inv = assms(1) [unfolded io_inv_def]
  obtain q where q: "iw_requests w r = Some q" "wr_coroutine q = Some co" "r \<in> set (iw_flight w)" "wr_error q = Some CAT_ECANCELED"
    using inv owned_writing [OF _ assms(2)] by metis
  have "\<not> iw_freed w" using inv q(3) by (auto simp: io_closing_def)
  then show ?thesis using inv q assms(2) by (intro write_return_ok [of _ _ _ r q]) (auto intro: owned_but)
qed

lemma inv_read_return:
  assumes "io_inv refuses w" and "iw_frames w co = Some Reading"
  shows "\<exists>w'. read_return co result w = Done w' \<and> io_inv refuses w'"
proof -
  let ?w = "io_returns co result (w\<lparr>iw_si := end_read (iw_si w)\<rparr>)"
  note inv = assms(1) [unfolded io_inv_def]
  have co: "si_read_coroutine (iw_si w) = Some co" using inv assms(2) by (simp add: io_waits_def)
  then have "\<not> iw_freed w" using inv by (auto simp: io_closing_def)
  moreover have "io_waits ?w" using inv assms(2) co by (auto simp: io_waits_def io_returns_def end_read_def)
  moreover have "io_owned ?w" using inv assms(2) by (auto simp: io_owned_def io_returns_def)
  moreover have "io_stack_ok ?w" using inv assms(2) by (intro stack_ok_frame [of w ?w]) (auto simp: io_returns_def end_read_def)
  moreover have "io_closing ?w" using inv by (auto simp: io_closing_def io_returns_def end_read_def)
  moreover have "io_live ?w" using inv by (auto simp: io_live_def io_returns_def end_read_def)
  moreover have "io_objects ?w" using inv by (auto simp: io_objects_def local_dgram_def io_returns_def end_read_def)
  moreover have "\<not> refuses \<longrightarrow> io_kept ?w" using inv by (auto simp: io_kept_def io_returns_def)
  ultimately show ?thesis using assms(2) by (simp add: read_return_def io_inv_def)
qed

subsection \<open>The calls keep the invariant\<close>

lemma io_check_world:
  assumes "io_waits w" and "io = IO_NONE \<or> io = IO_READ"
  obtains r where "io_check (io_heap w) (iw_socket w s) io = Done r"
    "\<And>i. r = Inr i \<Longrightarrow> socket_internal (iw_socket w s) = Some i \<and> (io = IO_READ \<longrightarrow> si_read_coroutine (iw_si w) = None)"
proof -
  let ?si = "iw_si w"
  have naming: "\<exists>n. cat_socket_io_state_naming (io_bits a b) = Done n" for a b
    by (cases a; cases b) (simp_all add: io_bits_def cat_socket_io_state_naming_def)
  have flags: "si_io_flags ?si = io_bits (si_read_coroutine ?si \<noteq> None) (iw_writers w \<noteq> [])" using assms(1) by (simp add: io_waits_def)
  obtain n m where "cat_socket_io_state_naming (si_io_flags ?si) = Done n" "cat_socket_io_state_name io = Done m"
    using assms(2) naming [of "si_read_coroutine ?si \<noteq> None" "iw_writers w \<noteq> []"] unfolding flags
    by (auto simp: cat_socket_io_state_name_def simp del: not_None_eq)
  moreover have "has (si_io_flags ?si) IO_READ \<longleftrightarrow> si_read_coroutine ?si \<noteq> None" using flags by (simp del: not_None_eq)
  ultimately have "\<exists>r. io_check (io_heap w) (iw_socket w s) io = Done r \<and>
      (\<forall>i. r = Inr i \<longrightarrow> socket_internal (iw_socket w s) = Some i \<and> (io = IO_READ \<longrightarrow> si_read_coroutine ?si = None))"
    by (auto simp: io_check_def io_heap_def internal_getter_def internal_getter_silent_def internal_check_io_def split: option.splits)
  then show thesis using that by blast
qed

lemma results_irrelevant [simp]: "io_inv refuses (w\<lparr>iw_results := x\<rparr>) = io_inv refuses w"
  unfolding io_inv_defs by simp

lemma read_error_irrelevant [simp]: "io_inv refuses (w\<lparr>iw_read_error := x\<rparr>) = io_inv refuses w"
  unfolding io_inv_defs by simp

lemma inv_returns:
  assumes "io_inv refuses w" and "iw_frames w co = None"
  shows "io_inv refuses (io_returns co res w)"
proof -
  have "io_returns co res w = w\<lparr>iw_results := (iw_results w)(co := Some res)\<rparr>"
    using assms(2) by (simp add: io_returns_def fun_upd_idem)
  then show ?thesis using assms(1) by simp
qed

lemma open_socket:
  assumes "io_closing w" and "socket_internal (iw_socket w s) = Some i"
  shows "\<not> closed w" "\<not> iw_freed w" "\<not> iw_uv_closing w" "s \<in> set (iw_sockets w)" "\<forall>x\<in>set (iw_stack w). closer x = None"
  using assms by (auto simp: io_closing_def)

lemma inv_read:
  assumes "io_inv refuses w" and "iw_frames w co = None" and "usable w s"
  shows "\<exists>w'. socket_read co s w = Done w' \<and> io_inv refuses w'"
proof -
  note inv = assms(1) [unfolded io_inv_def]
  obtain r where r: "io_check (io_heap w) (iw_socket w s) IO_READ = Done r"
    "\<And>i. r = Inr i \<Longrightarrow> socket_internal (iw_socket w s) = Some i \<and> si_read_coroutine (iw_si w) = None"
    using inv io_check_world [of w IO_READ s] by metis
  show ?thesis
  proof (cases r)
    case (Inl e)
    then show ?thesis using r(1) inv_returns [OF assms(1,2)] assms(3) by (simp add: socket_read_def usable_def)
  next
    case (Inr i)
    have s: "socket_internal (iw_socket w s) = Some i" and idle: "si_read_coroutine (iw_si w) = None" using r(2) [OF Inr] by auto
    have clo: "io_closing w" using inv by simp
    note o = open_socket [OF clo s]
    let ?w = "read_wait co w"
    have "io_waits ?w" using inv assms(2) idle by (auto simp: io_waits_def read_wait_def begin_read_def)
    moreover have "io_owned ?w" using inv assms(2) by (auto simp: io_owned_def read_wait_def)
    moreover have "io_stack_ok ?w" using inv assms(2) o(5) by (intro stack_ok_frame [of w ?w]) (auto simp: read_wait_def)
    moreover have "io_closing ?w" using clo o(2,3) by (simp add: io_closing_def read_wait_def begin_read_def)
    moreover have "io_live ?w" using inv by (simp add: io_live_def read_wait_def begin_read_def)
    moreover have "io_objects ?w" using inv by (simp add: io_objects_def local_dgram_def read_wait_def begin_read_def)
    moreover have "\<not> refuses \<longrightarrow> io_kept ?w" using inv by (simp add: io_kept_def read_wait_def)
    ultimately show ?thesis using r(1) Inr o(2) inv assms(3) by (simp add: socket_read_def io_inv_def usable_def)
  qed
qed

text \<open>The bits that a close sets and clears are not the one of an allocated object.\<close>

lemma allocated_bit [simp]:
  "has (x AND - 9) SOCKET_ALLOCATED = has x SOCKET_ALLOCATED"
  "has (x OR SOCKET_USER_CLOSED) SOCKET_ALLOCATED = has x SOCKET_ALLOCATED"
proof -
  have "(x AND NOT 8) AND 1 = x AND (1 :: u32)" "(x OR 2) AND 1 = x AND (1 :: u32)" by (rule bit_word_eqI; auto simp: bit_simps)+
  then show "has (x AND - 9) SOCKET_ALLOCATED = has x SOCKET_ALLOCATED"
    "has (x OR SOCKET_USER_CLOSED) SOCKET_ALLOCATED = has x SOCKET_ALLOCATED" by (simp_all add: has_def)
qed

lemma freed_inv:
  assumes "io_inv refuses w" and "socket_internal (iw_socket w s) = None" and "usable w s"
    and "\<And>x. has (socket_flags (iw_socket w s)) SOCKET_ALLOCATED \<Longrightarrow> x \<in> set (iw_stack w) \<Longrightarrow> closing_socket x \<noteq> Some s"
  shows "\<exists>w'. free_socket s w = Done w' \<and> io_inv refuses w'"
proof -
  have "io_inv refuses (w\<lparr>iw_freed_sockets := s # iw_freed_sockets w\<rparr>)" if "has (socket_flags (iw_socket w s)) SOCKET_ALLOCATED"
    using assms that by (auto simp: io_inv_def io_waits_def io_owned_def io_stack_ok_def io_closing_def io_live_def io_kept_def io_objects_def)
  then show ?thesis using assms(1,3) by (simp add: free_socket_def usable_def)
qed

lemma inv_close:
  assumes "io_inv refuses w" and "iw_frames w co = None" and "closable w s"
  shows "\<exists>w'. cat_socket_close co s w = Done w' \<and> io_inv refuses w'"
proof -
  let ?flags = "socket_flags (iw_socket w s) AND NOT SOCKET_UNRECOVERABLE_ERROR"
  have upd: "io_inv refuses (w\<lparr>iw_socket := (iw_socket w)(s := (iw_socket w s)\<lparr>socket_flags := f\<rparr>)\<rparr>)" for f
    using assms(1) by (auto simp: io_inv_defs)
  have sf: "s \<notin> set (iw_freed_sockets w)" using assms(3) by (simp add: closable_def usable_def)
  show ?thesis
  proof (cases "socket_internal (iw_socket w s)")
    case None
    let ?w = "\<lambda>res. io_returns co res (w\<lparr>iw_socket := (iw_socket w)(s := (iw_socket w s)\<lparr>socket_flags := ?flags\<rparr>)\<rparr>)"
    have "io_inv refuses (?w res)" for res using inv_returns [OF upd] assms(2) by simp
    then have "\<exists>w'. free_socket s (?w res) = Done w' \<and> io_inv refuses w'" for res
      using None assms(3) by (intro freed_inv) (auto simp: io_returns_def closable_def usable_def)
    then show ?thesis using None sf by (simp add: cat_socket_close_def Let_def)
  next
    case (Some i)
    let ?w = "io_returns co Ok (w\<lparr>iw_socket := (iw_socket w)(s := (iw_socket w s)\<lparr>socket_flags := ?flags OR SOCKET_USER_CLOSED\<rparr>)\<rparr>)"
    have "io_inv refuses ?w" using inv_returns [OF upd] assms(2) by simp
    moreover have "s \<in> set (iw_sockets ?w)" using assms(1) Some open_socket(4) by (simp add: io_returns_def io_inv_def)
    moreover have "iw_frames ?w co = None" by (simp add: io_returns_def)
    ultimately obtain w1 where w1: "cat_socket_internal_close co (Some s) False ?w = Done w1" "io_inv refuses w1" "s \<notin> set (iw_freed_sockets w1)"
        "iw_frames w1 co = Some Closing \<or> socket_internal (iw_socket w1 s) = None \<and> (\<forall>x\<in>set (iw_stack w1). closer x = None)"
      using close_socket_ok [of refuses ?w s co] by blast
    have "closing_socket x = None" if "closer x = None" for x using that by (cases x) auto
    then have "\<exists>w'. (if iw_frames w1 co = Some Closing then Done w1 else free_socket s w1) = Done w' \<and> io_inv refuses w'"
      using freed_inv [OF w1(2), of s] w1(2-4) by (auto simp: usable_def)
    then show ?thesis using w1(1) Some sf by (simp add: cat_socket_close_def Let_def)
  qed
qed

text \<open>A new request belongs to nobody; as the cached one it takes the place of none.\<close>

abbreviation new_request :: cat_socket_write_request_t where
  "new_request \<equiv> \<lparr>wr_error = None, wr_coroutine = None\<rparr>"

lemma new_request_inv:
  assumes "io_inv refuses w" and "iw_requests w fresh = None" and "c = iw_cached w \<or> c = Some fresh \<and> iw_cached w = None"
  shows "io_inv True ((put_request fresh new_request w)\<lparr>iw_cached := c\<rparr>)" (is "io_inv _ ?w")
proof -
  note inv = assms(1) [unfolded io_inv_def]
  have f: "fresh \<notin> set (iw_flight w)" "Write_tail fresh \<notin> set (iw_stack w)" "\<And>co. iw_frames w co \<noteq> Some (Writing fresh)"
    using inv assms(2) by (fastforce simp: io_owned_def)+
  have "io_waits ?w = io_waits w" "io_closing ?w = io_closing w" "io_objects ?w = io_objects w"
    by (simp_all add: io_waits_def io_closing_def io_objects_def put_request_def)
  moreover have "io_stack_ok ?w" using inv by (intro stack_ok_frame [of w ?w]) (simp_all add: put_request_def)
  moreover have "io_live ?w" using inv f(1) unfolding io_live_def put_request_def by auto
  moreover have "io_owned ?w" using inv assms(3) f unfolding io_owned_def put_request_def by auto
  ultimately show ?thesis using inv by (simp add: io_inv_def)
qed

lemma idle_no_flight:
  assumes "io_inv refuses w" and "\<not> closed w" and "iw_writers w = []"
  shows "iw_flight w = []"
proof (rule ccontr)
  note inv = assms(1) [unfolded io_inv_def]
  assume "iw_flight w \<noteq> []"
  then have "hd (iw_flight w) \<in> set (iw_flight w)" by simp
  then obtain q c where "iw_requests w (hd (iw_flight w)) = Some q" "wr_coroutine q = Some c"
    using inv assms(2) unfolding io_live_def by blast
  then have "iw_frames w c = Some (Writing (hd (iw_flight w)))" using inv unfolding io_owned_def by blast
  then show False using inv assms(3) by (auto simp: io_waits_def)
qed

lemma choose_ok:
  assumes "io_inv refuses w" and "\<not> closed w" and "iw_requests w fresh = None" and "choose_request fresh w = (r, w1)"
  obtains f c q where "w1 = w\<lparr>iw_requests := f, iw_cached := c\<rparr>" "io_inv True w1" "r \<notin> set (iw_flight w)" "f r = Some q" "wr_coroutine q = None"
    "Write_tail r \<in> set (iw_stack w) \<longrightarrow> c = Some r" "f = iw_requests w \<or> f = (iw_requests w)(r := Some q)" "iw_cached w \<noteq> None \<longrightarrow> c = iw_cached w"
    "c = Some r \<or> iw_requests w r = None \<and> iw_writers w \<noteq> []"
proof -
  note inv = assms(1) [unfolded io_inv_def]
  have flag: "has (si_io_flags (iw_si w)) IO_WRITE \<longleftrightarrow> iw_writers w \<noteq> []" using inv by (simp add: io_waits_def del: not_None_eq)
  have freed: "\<not> iw_freed w" using inv assms(2) by (auto simp: io_closing_def)
  have f: "fresh \<notin> set (iw_flight w)" "Write_tail fresh \<notin> set (iw_stack w)" using inv assms(3) by (fastforce simp: io_owned_def)+
  consider (reuse) "iw_cached w = Some r" "w1 = w" "iw_writers w = []"
    | (cache) "r = fresh" "iw_cached w = None" "w1 = (put_request fresh new_request w)\<lparr>iw_cached := Some fresh\<rparr>"
    | (busy) "r = fresh" "iw_writers w \<noteq> []" "w1 = (put_request fresh new_request w)\<lparr>iw_cached := iw_cached w\<rparr>"
    using assms(4) flag by (auto simp: choose_request_def put_request_def Let_def split: if_splits option.splits)
  then show thesis
  proof cases
    case reuse
    have r: "r \<notin> set (iw_flight w)" using idle_no_flight [OF assms(1,2) reuse(3)] by simp
    obtain q where q: "iw_requests w r = Some q" using inv reuse(1) freed by (auto simp: io_owned_def)
    moreover have "wr_coroutine q = None"
    proof (cases "wr_coroutine q")
      case (Some co)
      then have "iw_frames w co = Some (Writing r)" using inv q unfolding io_owned_def by blast
      then show ?thesis using inv reuse(3) by (auto simp: io_waits_def)
    qed
    ultimately show thesis using that [of "iw_cached w" "iw_requests w" q] reuse r inv by (simp add: io_inv_def)
  next
    case cache
    then show thesis using that [of "Some fresh" "(iw_requests w)(fresh := Some new_request)" new_request] f assms(3)
      new_request_inv [OF assms(1,3)] by (simp add: put_request_def)
  next
    case busy
    then show thesis using that [of "iw_cached w" "(iw_requests w)(fresh := Some new_request)" new_request] f assms(3)
      new_request_inv [OF assms(1,3), of "iw_cached w"] by (simp add: put_request_def)
  qed
qed

lemma address_checked:
  assumes "address_allowed w address"
  obtains e where "check_input_address address = Done e" "udp_address_fits (iw_si w) address = Done True"
proof (cases address)
  case None
  then show thesis using that [of None] by (simp add: check_input_address_def udp_address_fits_def)
next
  case (Some al)
  obtain a l where al: "al = (a, l)" by fastforce
  then have "2 \<le> length a" and size: "is_type (si_type (iw_si w)) TYPE_UDP \<Longrightarrow> sa_family a = Done AF_LOCAL \<Longrightarrow> 110 \<le> l"
    using assms Some by (auto simp: address_allowed_def)
  then have fam: "sa_family a = Done (bytes_family (take 2 a))" by (simp add: sa_family_def)
  have "\<exists>e. check_input_address address = Done e" using Some al fam
    by (auto simp: check_input_address_def cat_sockaddr_check_def split: option.splits)
  moreover have "udp_address_fits (iw_si w) address = Done True" using Some al fam size by (auto simp: udp_address_fits_def)
  ultimately show thesis using that by blast
qed

lemma submitted_inv:
  assumes "io_inv refuses w" and "\<not> closed w" and "iw_requests w fresh = None" and "choose_request fresh w = (r, w1)" and "iw_frames w co = None"
    and "check_input_address address = Done None" and "udp_address_fits (iw_si w) address = Done True"
  shows "\<exists>w'. cat_socket_internal_write_raw fresh None address co w = Done w' \<and> io_inv refuses w'"
proof -
  note inv = assms(1) [unfolded io_inv_def]
  obtain f c q where w1: "w1 = w\<lparr>iw_requests := f, iw_cached := c\<rparr>" and i1: "io_inv True w1" and r: "r \<notin> set (iw_flight w)" "f r = Some q"
      "wr_coroutine q = None" "Write_tail r \<in> set (iw_stack w) \<longrightarrow> c = Some r" "f = iw_requests w \<or> f = (iw_requests w)(r := Some q)"
      "iw_cached w \<noteq> None \<longrightarrow> c = iw_cached w"
    using choose_ok [OF assms(1-4)] by metis
  note inv1 = i1 [unfolded io_inv_def]
  let ?q = "\<lparr>wr_error = Some CAT_ECANCELED, wr_coroutine = Some co\<rparr>"
  let ?w = "w\<lparr>iw_si := (iw_si w)\<lparr>si_io_flags := si_io_flags (iw_si w) OR IO_WRITE\<rparr>, iw_requests := f(r := Some ?q), iw_cached := c,
    iw_flight := iw_flight w @ [r], iw_writers := iw_writers w @ [co], iw_frames := (iw_frames w)(co := Some (Writing r))\<rparr>"
  have "\<not> local_dgram (iw_si w)" using inv by (simp add: io_objects_def)
  then have run: "cat_socket_internal_write_raw fresh None address co w = Done ?w"
    using assms(4,6,7) r(1,2) w1 by (simp add: cat_socket_internal_write_raw_def uv_submit_def put_request_def set_io_flags_def)
  have writing: "iw_frames w co' \<noteq> Some (Writing r)" for co' using inv1 r(1) unfolding w1 io_owned_def by force
  have nobody: "wr_coroutine q' \<noteq> Some co" if "f r' = Some q'" for r' q' using inv1 assms(5) that unfolding w1 io_owned_def by fastforce
  have "io_waits ?w" using inv assms(5) by (auto simp: io_waits_def)
  moreover have "io_owned ?w" using inv1 r assms(5) writing nobody unfolding w1 io_owned_def by auto
  moreover have "io_stack_ok ?w"
  proof (rule stack_ok_frame [of w])
    show "x \<in> set (iw_stack w) \<Longrightarrow> closer x \<noteq> None \<Longrightarrow> (iw_writers w = [] \<longrightarrow> iw_writers ?w = []) \<and>
      (si_read_coroutine (iw_si w) = None \<longrightarrow> si_read_coroutine (iw_si ?w) = None)" for x
      using inv assms(2) unfolding io_closing_def by blast
  qed (use inv assms(5) in auto)
  moreover have "io_closing ?w" using inv assms(2) by (auto simp: io_closing_def)
  moreover have "io_live ?w" using inv1 by (auto simp: io_live_def w1)
  moreover have "io_objects ?w" using inv by (simp add: io_objects_def local_dgram_def)
  moreover have "io_kept ?w" if "\<not> refuses"
    unfolding io_kept_def
  proof (intro allI impI)
    fix r' assume "iw_requests ?w r' \<noteq> None"
    then have "r' = r \<or> iw_requests w r' \<noteq> None" using r(5) by (auto split: if_splits)
    moreover have "r' \<in> set (iw_flight w) \<or> iw_cached w = Some r' \<and> \<not> iw_freed w \<or> Write_tail r' \<in> set (iw_stack w)"
      if "iw_requests w r' \<noteq> None" using inv that \<open>\<not> refuses\<close> unfolding io_kept_def by blast
    ultimately show "r' \<in> set (iw_flight ?w) \<or> iw_cached ?w = Some r' \<and> \<not> iw_freed ?w \<or> Write_tail r' \<in> set (iw_stack ?w)"
      using r(6) by auto
  qed
  ultimately show ?thesis using run by (simp add: io_inv_def)
qed

lemma inv_write:
  assumes "io_inv refuses w" and "iw_frames w co = None" and "iw_requests w fresh = None" and "uv_error \<noteq> None \<longrightarrow> refuses"
    and "usable w s" and "address_allowed w address"
  shows "\<exists>w'. cat_socket_write fresh uv_error address co s w = Done w' \<and> io_inv refuses w'"
proof -
  note inv = assms(1) [unfolded io_inv_def]
  obtain r where r: "io_check (io_heap w) (iw_socket w s) IO_NONE = Done r" "\<And>i. r = Inr i \<Longrightarrow> socket_internal (iw_socket w s) = Some i"
    using inv io_check_world [of w IO_NONE s] by metis
  show ?thesis
  proof (cases r)
    case (Inl e)
    then show ?thesis using r(1) inv_returns [OF assms(1,2)] assms(5) by (simp add: cat_socket_write_def usable_def)
  next
    case (Inr i)
    have clo: "io_closing w" using inv by simp
    note o = open_socket [OF clo r(2) [OF Inr]]
    obtain q w1 where ch: "choose_request fresh w = (q, w1)" by fastforce
    obtain bad where ad: "check_input_address address = Done bad" "udp_address_fits (iw_si w) address = Done True"
      using address_checked [OF assms(6)] by blast
    have dgram: "\<not> local_dgram (iw_si w)" using inv by (simp add: io_objects_def)
    have run: "cat_socket_write fresh uv_error address co s w = cat_socket_internal_write_raw fresh uv_error address co w"
      using r(1) Inr o(2) assms(5) by (simp add: cat_socket_write_def usable_def)
    consider (bad) e where "bad = Some e" | (sent) "bad = None" "uv_error = None" | (refused) e where "bad = None" "uv_error = Some e"
      by fastforce
    then show ?thesis
    proof cases
      case bad
      then show ?thesis using run ad(1) inv_returns [OF assms(1,2)] by (simp add: cat_socket_internal_write_raw_def)
    next
      case sent
      then show ?thesis using submitted_inv [OF assms(1) o(1) assms(3) ch assms(2)] run ad by simp
    next
      case refused
      obtain f c where w1: "w1 = w\<lparr>iw_requests := f, iw_cached := c\<rparr>" and i1: "io_inv True w1"
        using choose_ok [OF assms(1) o(1) assms(3) ch] by metis
      have "io_inv True (io_returns co (Failed e) w1)" using inv_returns [OF i1] assms(2) w1 by simp
      then show ?thesis using run ch ad dgram refused assms(4) by (simp add: cat_socket_internal_write_raw_def)
    qed
  qed
qed

subsection \<open>The callbacks keep the invariant\<close>

lemma stack_ok_tail:
  assumes "iw_stack w = [Write_tail r]" and "\<And>co. iw_frames w co \<noteq> Some Closing"
  shows "io_stack_ok w"
proof -
  have "iw_stack w = [] @ [Write_tail r]" using assms(1) by simp
  then show ?thesis using assms unfolding io_stack_ok_def by fastforce
qed

lemma inv_write_callback:
  assumes "io_inv refuses w" and "iw_stack w = []" and "iw_flight w = r # fl"
  shows "\<exists>w'. cat_socket_internal_write_callback status w = Done w' \<and> io_inv refuses w'"
proof -
  note inv = assms(1) [unfolded io_inv_def]
  obtain q where q: "iw_requests w r = Some q" using inv assms(3) by (auto simp: io_owned_def)
  have fl: "r \<notin> set fl" "distinct fl" using inv assms(3) by (auto simp: io_owned_def)
  have nf: "\<not> iw_freed w" using inv assms(3) by (auto simp: io_closing_def)
  have quiet: "closed w \<longrightarrow> iw_uv_closing w" using inv assms(2) by (auto simp: io_closing_def)
  have no_closer: "iw_frames w co \<noteq> Some Closing" for co using inv assms(2) by (auto simp: io_stack_ok_def)
  show ?thesis
  proof (cases "wr_coroutine q")
    case None
    let ?w = "w\<lparr>iw_flight := fl, iw_stack := [Write_tail r]\<rparr>"
    have other: "iw_frames w co \<noteq> Some (Writing r)" for co using inv q None unfolding io_owned_def by force
    have "io_waits ?w" using inv by (simp add: io_waits_def)
    moreover have "io_owned ?w" using inv assms(2,3) q fl other unfolding io_owned_def by auto
    moreover have "io_stack_ok ?w" using no_closer by (simp add: stack_ok_tail)
    moreover have "io_closing ?w" using inv nf assms(2) by (auto simp: io_closing_def)
    moreover have "io_live ?w" using inv assms(3) by (simp add: io_live_def)
    moreover have "io_objects ?w" using inv assms(2) by (simp add: io_objects_def)
    moreover have "\<not> refuses \<longrightarrow> io_kept ?w" using inv assms(2,3) by (auto simp: io_kept_def)
    ultimately show ?thesis using assms(2,3) q None nf by (auto simp: cat_socket_internal_write_callback_def request_at_def io_inv_def)
  next
    case (Some co)
    let ?q = "q\<lparr>wr_error := status\<rparr>"
    let ?w = "put_request r ?q (w\<lparr>iw_flight := fl, iw_stack := [Write_tail r]\<rparr>)"
    have frame: "iw_frames w co = Some (Writing r)" using inv q Some unfolding io_owned_def by blast
    have other: "iw_frames w c \<noteq> Some (Writing r)" if "c \<noteq> co" for c using inv q Some that unfolding io_owned_def by force
    have writers: "iw_writers w \<noteq> []" using inv frame by (auto simp: io_waits_def)
    then have op: "\<not> closed w" using inv quiet by (auto simp: io_closing_def)
    have "io_waits ?w" using inv by (simp add: io_waits_def put_request_def)
    moreover have "io_owned_but co ?w" using inv assms(2,3) q fl other frame Some unfolding io_owned_def io_owned_but_def put_request_def by auto
    moreover have "io_stack_ok ?w" using no_closer by (simp add: stack_ok_tail put_request_def)
    moreover have "io_closing ?w" using inv nf assms(2) by (auto simp: io_closing_def put_request_def)
    moreover have "io_objects ?w" using inv assms(2) by (simp add: io_objects_def put_request_def)
    moreover have "\<not> refuses \<longrightarrow> io_kept ?w" using inv assms(2,3) by (auto simp: io_kept_def put_request_def)
    moreover have "\<forall>r'\<in>set fl. \<exists>q' c. iw_requests ?w r' = Some q' \<and> wr_coroutine q' = Some c"
      using inv op assms(3) fl(1) by (auto simp: io_live_def put_request_def)
    ultimately have "\<exists>w'. write_return co None ?w = Done w' \<and> io_inv refuses w'"
      using frame Some nf fl(1) by (intro write_return_ok [of ?w co refuses r ?q]) (simp_all add: put_request_def)
    moreover have "has (si_io_flags (iw_si w)) IO_WRITE" using inv writers by (simp add: io_waits_def del: not_None_eq)
    ultimately show ?thesis using assms(2,3) q Some nf by (simp add: cat_socket_internal_write_callback_def request_at_def)
  qed
qed

text \<open>What is left to do: the stack begins with a part of a close or is the end of a callback.\<close>

lemma stack_cases:
  assumes "io_stack_ok w" and "iw_stack w = x # st"
  obtains (tail) r where "x = Write_tail r" "st = []"
    | (close) co where "closer x = Some co" "length st \<le> 1" "\<forall>y\<in>set st. closer y = None"
proof -
  obtain cl tl where s: "iw_stack w = cl @ tl" "length cl \<le> 1" "length tl \<le> 1" "\<forall>x\<in>set cl. closer x \<noteq> None" "\<forall>x\<in>set tl. closer x = None"
    using assms(1) by (auto simp: io_stack_ok_def)
  show thesis
  proof (cases cl)
    case Nil
    then show thesis using s assms(2) tail by (cases x) auto
  next
    case (Cons y ys)
    then have "y = x" "ys = []" "tl = st" using s(1,2) assms(2) by auto
    then show thesis using s Cons close by auto
  qed
qed

lemma inv_tail:
  assumes "io_inv refuses w" and "iw_stack w = [Write_tail r]"
  shows "\<exists>w'. write_callback_end r (w\<lparr>iw_stack := []\<rparr>) = Done w' \<and> io_inv refuses w'"
proof -
  note inv = assms(1) [unfolded io_inv_def]
  have nf: "\<not> iw_freed w" using inv assms(2) by (auto simp: io_closing_def)
  obtain q where q: "iw_requests w r = Some q" using inv assms(2) by (auto simp: io_owned_def)
  have fl: "iw_cached w \<noteq> Some r \<longrightarrow> r \<notin> set (iw_flight w)" using inv assms(2) by (auto simp: io_owned_def)
  let ?w = "w\<lparr>iw_stack := [], iw_requests := (if iw_cached w \<noteq> Some r then (iw_requests w)(r := None) else iw_requests w)\<rparr>"
  have "io_waits ?w = io_waits w" by (simp add: io_waits_def)
  moreover have "io_owned ?w"
  proof (cases "iw_cached w = Some r")
    case False
    then have other: "iw_frames w co \<noteq> Some (Writing r)" for co using inv fl unfolding io_owned_def by blast
    have "r' \<noteq> r" if "r' \<in> set (iw_flight w)" for r' using that fl False by auto
    then show ?thesis using inv other False unfolding io_owned_def by auto
  qed (use inv in \<open>simp add: io_owned_def\<close>)
  moreover have "io_stack_ok ?w" using inv assms(2) by (auto simp: io_stack_ok_def)
  moreover have "io_closing ?w" using inv assms(2) nf by (auto simp: io_closing_def)
  moreover have "io_live ?w" using inv fl by (auto simp: io_live_def)
  moreover have "io_objects ?w" using inv assms(2) by (simp add: io_objects_def)
  moreover have "\<not> refuses \<longrightarrow> io_kept ?w" using inv assms(2) nf by (auto simp: io_kept_def)
  moreover have "write_callback_end r (w\<lparr>iw_stack := []\<rparr>) = Done ?w"
    using q nf by (simp add: write_callback_end_def free_request_def request_at_def)
  ultimately show ?thesis using inv by (simp add: io_inv_def)
qed

text \<open>A part of a close takes the place of another, once there is nobody left to resume.\<close>

lemma inv_next_part:
  assumes "io_inv refuses w" and "iw_stack w = x # st" and "closer x = Some co" and "closer y = Some co"
    and "closing_socket y = closing_socket x" and "\<forall>c so. y \<noteq> Close_context c so"
    and "iw_writers w = []" and "(\<exists>c so. y = Close_end c so) \<longrightarrow> si_read_coroutine (iw_si w) = None"
  shows "io_inv refuses (w\<lparr>iw_stack := y # st\<rparr>)" (is "io_inv _ ?w")
proof -
  note inv = assms(1) [unfolded io_inv_def]
  have stack_w: "io_stack_ok w" using inv by simp
  have st: "length st \<le> 1" "\<forall>z\<in>set st. closer z = None" by (rule stack_cases [OF stack_w assms(2)]; use assms(3) in simp)+
  have ends: "Close_end c so \<notin> set st" for c so using st(2) by force
  have "io_stack_ok ?w"
    unfolding io_stack_ok_def
  proof (intro conjI exI)
    show "iw_stack ?w = [y] @ st" by simp
    show "\<forall>c. iw_frames ?w c = Some Closing \<longleftrightarrow> (\<exists>z\<in>set (iw_stack ?w). closer z = Some c)"
      using stack_w assms(2-4) unfolding io_stack_ok_def by auto
  qed (use st ends assms(4,7,8) in auto)
  moreover have "Write_tail r \<in> set (y # st) \<longleftrightarrow> Write_tail r \<in> set (x # st)" for r using assms(3,4) by auto
  then have "io_owned ?w = io_owned w" "io_kept ?w = io_kept w" using assms(2) by (simp_all add: io_owned_def io_kept_def)
  moreover have "io_objects ?w" using inv assms(2,5,6) by (auto simp: io_objects_def)
  moreover have "io_waits ?w = io_waits w" "io_live ?w = io_live w" by (simp_all add: io_waits_def io_live_def)
  moreover have "io_closing ?w = io_closing w" using assms(2-4) by (simp add: io_closing_def)
  ultimately show ?thesis using inv by (simp add: io_inv_def)
qed

lemma close_descriptors_only: "\<exists>fds. close_descriptors w = w\<lparr>iw_closed_fds := fds\<rparr>"
  by (intro exI [of _ "iw_closed_fds (close_descriptors w)"]) (cases w, simp add: close_descriptors_def)

lemma inv_close_end:
  assumes "io_inv refuses w" and "iw_stack w = Close_end co so # st"
  shows "\<exists>w'. io_continue (Close_end co so) (w\<lparr>iw_stack := st\<rparr>) = Done w' \<and> io_inv refuses w'"
proof -
  note inv = assms(1) [unfolded io_inv_def]
  have stack_w: "io_stack_ok w" using inv by simp
  have st: "length st \<le> 1" "\<forall>z\<in>set st. closer z = None" by (rule stack_cases [OF stack_w assms(2)]; simp)+
  have co: "iw_frames w c = Some Closing \<longleftrightarrow> c = co" for c
    using stack_w assms(2) st(2) unfolding io_stack_ok_def by force
  have w: "iw_writers w = []" "si_read_coroutine (iw_si w) = None" using stack_w assms(2) by (auto simp: io_stack_ok_def)
  have clo: "closed w" "\<not> iw_uv_closing w" "\<not> iw_freed w" using inv assms(2) by (auto simp: io_closing_def)
  obtain fds where fds: "close_descriptors (w\<lparr>iw_stack := st\<rparr>) = w\<lparr>iw_stack := st, iw_closed_fds := fds\<rparr>"
    using close_descriptors_only [of "w\<lparr>iw_stack := st\<rparr>"] by blast
  let ?w = "w\<lparr>iw_stack := st, iw_closed_fds := fds, iw_uv_closing := True, iw_frames := (iw_frames w)(co := None)\<rparr>"
  have "io_waits ?w" using inv co [of co] by (auto simp: io_waits_def)
  moreover have "Write_tail r \<in> set (iw_stack ?w) \<longleftrightarrow> Write_tail r \<in> set (iw_stack w)" for r using assms(2) by simp
  then have "io_owned ?w" "\<not> refuses \<longrightarrow> io_kept ?w" using inv co [of co] unfolding io_owned_def io_kept_def by auto
  moreover have "io_stack_ok ?w"
    unfolding io_stack_ok_def
  proof (intro conjI exI)
    show "iw_stack ?w = [] @ st" by simp
  qed (use st co w in auto)
  moreover have "io_closing ?w" using inv clo w st(2) by (auto simp: io_closing_def)
  moreover have "io_live ?w" using clo by (simp add: io_live_def)
  moreover have "io_objects ?w" using inv assms(2) by (auto simp: io_objects_def)
  ultimately have i: "io_inv refuses ?w" by (simp add: io_inv_def)
  have "\<exists>w'. free_socket s ?w = Done w' \<and> io_inv refuses w'" if "so = Some s" for s
  proof (rule freed_inv [OF i])
    show "socket_internal (iw_socket ?w s) = None" using inv clo(1) by (auto simp: io_closing_def)
    show "usable ?w s" using inv assms(2) that by (auto simp: io_objects_def usable_def)
    show "x \<in> set (iw_stack ?w) \<Longrightarrow> closing_socket x \<noteq> Some s" for x using st(2) by (cases x) auto
  qed
  then show ?thesis using clo fds i by (cases so) (simp_all add: io_continue_def)
qed

lemma inv_continue:
  assumes "io_inv refuses w" and "iw_stack w = x # st"
  shows "\<exists>w'. io_continue x (w\<lparr>iw_stack := st\<rparr>) = Done w' \<and> io_inv refuses w'"
proof -
  note inv = assms(1) [unfolded io_inv_def]
  have stack_w: "io_stack_ok w" and waits: "io_waits w" using inv by simp_all
  show ?thesis
  proof (cases x)
    case (Write_tail r)
    then show ?thesis using inv_tail [OF assms(1)] assms(2) stack_cases [OF stack_w assms(2)] by (fastforce simp: io_continue_def)
  next
    case (Close_context co so)
    then show ?thesis using inv assms(2) unfolding io_objects_def by auto
  next
    case (Close_writes co so)
    have w: "w\<lparr>iw_stack := Close_writes co so # st\<rparr> = w" using assms(2) Close_writes by simp
    show ?thesis
    proof (cases "iw_writers w")
      case Nil
      then show ?thesis using inv_next_part [OF assms, of co "Close_read co so"] Close_writes by (simp add: io_continue_def)
    next
      case (Cons c cs)
      then obtain r where "iw_frames w c = Some (Writing r)" using waits by (auto simp: io_waits_def)
      then show ?thesis using inv_resume [OF assms(1), of c r None] Cons Close_writes w
        by (simp add: io_continue_def cat_socket_io_cancel_write_def)
    qed
  next
    case (Close_read co so)
    have idle: "iw_writers w = []" using stack_w assms(2) Close_read by (auto simp: io_stack_ok_def)
    have flag: "has (si_io_flags (iw_si w)) IO_READ \<longleftrightarrow> si_read_coroutine (iw_si w) \<noteq> None" using waits by (simp add: io_waits_def del: not_None_eq)
    show ?thesis
    proof (cases "si_read_coroutine (iw_si w)")
      case None
      then show ?thesis using inv_next_part [OF assms, of co "Close_end co so"] Close_read idle flag by (simp add: io_continue_def Let_def)
    next
      case (Some c)
      then have "iw_frames w c = Some Reading" using waits by (auto simp: io_waits_def)
      then obtain w' where w': "read_return c (read_cancel_result w) w = Done w'" "io_inv refuses w'" using inv_read_return [OF assms(1)] by blast
      then have e: "w' = io_returns c (read_cancel_result w) (w\<lparr>iw_si := end_read (iw_si w)\<rparr>)"
        by (auto simp: read_return_def c_assert_def split: if_splits)
      then have "io_inv refuses (w'\<lparr>iw_stack := Close_end co so # st\<rparr>)"
        using inv_next_part [OF w'(2), of x st co "Close_end co so"] assms(2) Close_read idle by (simp add: io_returns_def end_read_def)
      moreover have "read_return c (read_cancel_result w) (w\<lparr>iw_stack := Close_end co so # st\<rparr>) = Done (w'\<lparr>iw_stack := Close_end co so # st\<rparr>)"
        using w'(1) by (auto simp: e read_return_def io_returns_def c_assert_def split: if_splits)
      ultimately show ?thesis using Close_read Some flag by (simp add: io_continue_def read_cancel_result_def)
    qed
  next
    case (Close_end co so)
    then show ?thesis using inv_close_end assms by blast
  qed
qed

lemma inv_close_callback:
  assumes "io_inv refuses w" and "iw_stack w = []" and "iw_flight w = []" and "iw_uv_closing w" and "\<not> iw_freed w"
  shows "\<exists>w'. cat_socket_close_callback w = Done w' \<and> io_inv refuses w'"
proof -
  note inv = assms(1) [unfolded io_inv_def]
  let ?w = "w\<lparr>iw_freed := True, iw_requests := (case iw_cached w of Some r \<Rightarrow> (iw_requests w)(r := None) | None \<Rightarrow> iw_requests w)\<rparr>"
  have none: "iw_writers w = []" "closed w" using inv assms(4) by (auto simp: io_closing_def)
  then have idle: "iw_frames w co \<noteq> Some (Writing r)" for co r using inv by (auto simp: io_waits_def)
  have "\<exists>q. iw_requests w r = Some q" if "iw_cached w = Some r" for r using inv that assms(5) by (auto simp: io_owned_def)
  then have "cat_socket_close_callback w = Done ?w"
    using assms(5) by (auto simp: cat_socket_close_callback_def free_request_def request_at_def split: option.splits)
  moreover have "io_waits ?w = io_waits w" by (simp add: io_waits_def)
  moreover have "io_owned ?w" using inv assms(2,3) idle unfolding io_owned_def by (auto split: option.splits if_splits)
  moreover have "io_stack_ok ?w" using inv by (intro stack_ok_frame [of w ?w]) auto
  moreover have "io_closing ?w" using inv assms(2-4) by (auto simp: io_closing_def)
  moreover have "io_live ?w" using none by (simp add: io_live_def)
  moreover have "io_objects ?w" using inv by (simp add: io_objects_def)
  moreover have "\<not> refuses \<longrightarrow> io_kept ?w" using inv assms(2,3) by (auto simp: io_kept_def split: option.splits)
  ultimately show ?thesis using inv by (simp add: io_inv_def)
qed

subsection \<open>The state machine\<close>

lemma io_step_inv: "io_step refuses w w' \<Longrightarrow> io_inv refuses w \<Longrightarrow> io_inv refuses w'"
proof (induction rule: io_step.induct)
  case (step_write w co fresh uv_error s address w')
  then show ?case using inv_write [of refuses w co fresh uv_error s address] by auto
next
  case (step_read w co s w')
  then show ?case using inv_read [of refuses w co s] by auto
next
  case (step_close w co s w')
  then show ?case using inv_close [of refuses w co s] by auto
next
  case (step_resume w co r failed w')
  then show ?case using inv_resume [of refuses w co r failed] by auto
next
  case (step_read_done w co result w')
  then show ?case using inv_read_return [of refuses w co result] by auto
next
  case (step_part w co)
  then show ?case by simp
next
  case (step_udg_queued w co failed w')
  then show ?case by (simp add: io_inv_def io_objects_def)
next
  case (step_udg_turn w co sent dup w')
  then show ?case by (simp add: io_inv_def io_objects_def)
next
  case (step_udg_poll w co how w')
  then show ?case by (simp add: io_inv_def io_objects_def)
next
  case (step_write_callback w status w')
  then show ?case using inv_write_callback [of refuses w "hd (iw_flight w)" "tl (iw_flight w)" status] by auto
next
  case (step_continue w rest st w')
  then show ?case using inv_continue [of refuses w rest st] by auto
next
  case (step_close_callback w w')
  then show ?case using inv_close_callback [of refuses w] by auto
qed

interpretation socket_io: machine io_start "io_step refuses" "io_inv refuses" for refuses
  by unfold_locales (auto intro: io_start_inv io_step_inv)

abbreviation io_reachable :: "bool \<Rightarrow> io_world \<Rightarrow> bool" where
  "io_reachable refuses \<equiv> reach io_start (io_step refuses)"

lemma inv_flags:
  assumes "io_waits w"
  shows "has (si_io_flags (iw_si w)) IO_READ \<longleftrightarrow> (\<exists>co. iw_frames w co = Some Reading)"
    and "has (si_io_flags (iw_si w)) IO_WRITE \<longleftrightarrow> (\<exists>co r. iw_frames w co = Some (Writing r))"
    and "si_io_flags (iw_si w) \<in> {IO_NONE, IO_READ, IO_WRITE, IO_RDWR}"
    and "iw_frames w co = Some Reading \<Longrightarrow> iw_frames w co' = Some Reading \<Longrightarrow> co = co'"
proof -
  have bits: "si_io_flags (iw_si w) = io_bits (si_read_coroutine (iw_si w) \<noteq> None) (iw_writers w \<noteq> [])" using assms by (simp add: io_waits_def)
  have readers: "si_read_coroutine (iw_si w) = Some co \<longleftrightarrow> iw_frames w co = Some Reading" for co using assms by (simp add: io_waits_def)
  have "co \<in> set (iw_writers w) \<longleftrightarrow> (\<exists>r. iw_frames w co = Some (Writing r))" for co using assms by (simp add: io_waits_def)
  then have "(\<exists>co. co \<in> set (iw_writers w)) \<longleftrightarrow> (\<exists>co r. iw_frames w co = Some (Writing r))" by simp
  then have writers: "iw_writers w \<noteq> [] \<longleftrightarrow> (\<exists>co r. iw_frames w co = Some (Writing r))" by (simp add: ex_in_conv)
  show "has (si_io_flags (iw_si w)) IO_READ \<longleftrightarrow> (\<exists>co. iw_frames w co = Some Reading)" unfolding bits using readers by auto
  show "has (si_io_flags (iw_si w)) IO_WRITE \<longleftrightarrow> (\<exists>co r. iw_frames w co = Some (Writing r))" unfolding bits using writers by simp
  show "si_io_flags (iw_si w) \<in> {IO_NONE, IO_READ, IO_WRITE, IO_RDWR}" unfolding bits by (auto simp: io_bits_def)
  show "iw_frames w co = Some Reading \<Longrightarrow> iw_frames w co' = Some Reading \<Longrightarrow> co = co'" using readers [of co] readers [of co'] by simp
qed


text \<open>C40: The I/O state of a socket that transfers data and is no local datagram socket. After any sequence of calls, resumptions and callbacks its
  bits say whether a coroutine waits for data and whether one waits for a write to end, there is no other bit (so that it is one of the states
  idle, reading, writing, or both), and at most one coroutine reads.\<close>

theorem io_flags_tell:
  assumes "io_reachable refuses w"
  shows "(has (si_io_flags (iw_si w)) IO_READ \<longleftrightarrow> (\<exists>co. iw_frames w co = Some Reading)) \<and>
    (has (si_io_flags (iw_si w)) IO_WRITE \<longleftrightarrow> (\<exists>co r. iw_frames w co = Some (Writing r))) \<and>
    si_io_flags (iw_si w) \<in> {IO_NONE, IO_READ, IO_WRITE, IO_RDWR} \<and>
    (iw_frames w co = Some Reading \<and> iw_frames w co' = Some Reading \<longrightarrow> co = co')"
proof -
  have "io_waits w" using socket_io.reach_inv [OF assms] by (simp add: io_inv_def)
  then show ?thesis using inv_flags by metis
qed

text \<open>C15: No call can go wrong, unless the socket is a local datagram socket. In every reachable state whatever may happen next returns: a write, a
  read or a close by a coroutine that does not wait, the resumption of one that does, the next callback of the loop and the rest of what was
  interrupted. No assertion fails, no request is used when it was freed or given away twice, no internal socket and no socket object is used when it
  was freed. The caller neither uses a freed socket object nor closes an allocated one again while it is being closed, and gives a local address to
  UDP only in its full size.\<close>

theorem io_calls_return:
  assumes "io_reachable refuses w"
  shows "(iw_frames w co = None \<and> iw_requests w fresh = None \<and> (uv_error \<noteq> None \<longrightarrow> refuses) \<and> usable w s \<and> address_allowed w address \<longrightarrow>
      (\<exists>w'. cat_socket_write fresh uv_error address co s w = Done w')) \<and>
    (iw_frames w co = None \<and> usable w s \<longrightarrow> (\<exists>w'. socket_read co s w = Done w')) \<and>
    (iw_frames w co = None \<and> closable w s \<longrightarrow> (\<exists>w'. cat_socket_close co s w = Done w')) \<and>
    ((\<exists>r. iw_frames w co = Some (Writing r)) \<longrightarrow> (\<exists>w'. write_return co failed w = Done w')) \<and>
    (iw_frames w co = Some Reading \<longrightarrow> (\<exists>w'. read_return co result w = Done w')) \<and>
    (iw_stack w = [] \<and> iw_flight w \<noteq> [] \<longrightarrow> (\<exists>w'. cat_socket_internal_write_callback status w = Done w')) \<and>
    (iw_stack w = x # st \<longrightarrow> (\<exists>w'. io_continue x (w\<lparr>iw_stack := st\<rparr>) = Done w')) \<and>
    (iw_stack w = [] \<and> iw_flight w = [] \<and> iw_uv_closing w \<and> \<not> iw_freed w \<longrightarrow> (\<exists>w'. cat_socket_close_callback w = Done w'))"
proof -
  note inv = socket_io.reach_inv [OF assms]
  show ?thesis
    using inv_write [OF inv] inv_read [OF inv] inv_close [OF inv] inv_resume [OF inv] inv_read_return [OF inv] inv_write_callback [OF inv]
      inv_continue [OF inv] inv_close_callback [OF inv]
    by (intro conjI impI; metis neq_Nil_conv)
qed


text \<open>Who is resumed. The callback of the oldest request resumes the coroutine that waits for this request and no other, and its call returns the
  status of the request; the request is no longer libuv's. Unless the write was canceled, nobody else is affected and the socket stays as open as
  it was.\<close>

theorem write_callback_resumes:
  assumes "io_reachable refuses w" and "iw_stack w = []" and "iw_flight w = r # fl" and "iw_frames w co = Some (Writing r)"
    and "status \<noteq> Some CAT_ECANCELED"
  shows "\<exists>w'. cat_socket_internal_write_callback status w = Done w' \<and> iw_flight w' = fl \<and> iw_frames w' = (iw_frames w)(co := None) \<and>
    iw_results w' = (iw_results w)(co := Some (case status of None \<Rightarrow> Ok | Some e \<Rightarrow> Failed e)) \<and> closed w' = closed w \<and>
    iw_socket w' = iw_socket w \<and> iw_writers w' = remove1 co (iw_writers w)"
proof -
  note inv = socket_io.reach_inv [OF assms(1), unfolded io_inv_def]
  have owned: "io_owned w" and waits: "io_waits w" using inv by simp_all
  obtain q where q: "iw_requests w r = Some q" "wr_coroutine q = Some co" using owned_writing [OF owned assms(4)] by metis
  have "has (si_io_flags (iw_si w)) IO_WRITE" using inv_flags(2) [OF waits] assms(4) by blast
  moreover have "\<not> iw_freed w" using inv assms(3) by (auto simp: io_closing_def)
  ultimately show ?thesis using assms(2-5) q
    by (auto simp: cat_socket_internal_write_callback_def request_at_def put_request_def write_return_def set_io_flags_def io_returns_def Let_def
      split: option.splits)
qed

subsection \<open>Closing ends\<close>














subsection \<open>A refused write\<close>

text \<open>One socket, nobody waits. The trace: a coroutine writes; while it waits another writes and \<^verbatim>\<open>uv_write2\<close> refuses its request; the first
  write ends; the socket is closed, and the loop calls back.\<close>

definition io_example :: io_world where
  "io_example = \<lparr>iw_si = example_socket, iw_freed = False, iw_writers = [], iw_cached = None, iw_requests = (\<lambda>_. None), iw_flight = [],
     iw_sockets = [0], iw_ref = 1, iw_socket = (\<lambda>s. \<lparr>socket_id = int s, socket_flags = 0, socket_internal = (if s = 0 then Some 0 else None)\<rparr>),
     iw_freed_sockets = [], iw_context = None, iw_in_tree = False, iw_uv_ref = True, iw_readfd = None, iw_writefd = None, iw_closed_fds = [],
     iw_uv_closing = False, iw_frames = (\<lambda>_. None), iw_results = (\<lambda>_. None), iw_read_error = None, iw_stack = []\<rparr>"

lemma io_example_start: "io_start io_example"
  by (auto simp: io_start_def io_example_def example_socket_def read_idle_def local_dgram_def type_defs has_def)

text \<open>Scripts of steps; a step that is not possible is \<open>Undefined\<close>.\<close>

datatype io_call = Call_write addr "cat_errno option" nat nat | Call_read nat nat | Call_close nat nat | Callback "cat_errno option"
  | Continue | Close_callback | Send nat send_result "cat_errno + nat"

definition io_do :: "bool \<Rightarrow> io_call \<Rightarrow> io_world \<Rightarrow> io_world c_run" where
  "io_do refuses c w =
     (case c of
        Call_write fresh e co s \<Rightarrow>
          c_assert (iw_frames w co = None \<and> iw_requests w fresh = None \<and> (e \<noteq> None \<longrightarrow> refuses) \<and> usable w s) (cat_socket_write fresh e None co s w)
      | Call_read co s \<Rightarrow> c_assert (iw_frames w co = None \<and> usable w s) (socket_read co s w)
      | Call_close co s \<Rightarrow> c_assert (iw_frames w co = None \<and> closable w s) (cat_socket_close co s w)
      | Send co sent dup \<Rightarrow> c_assert (iw_frames w co = Some Udg_sending) (udg_turn co sent dup w)
      | Callback status \<Rightarrow> c_assert (iw_stack w = [] \<and> iw_flight w \<noteq> []) (cat_socket_internal_write_callback status w)
      | Continue \<Rightarrow> (case iw_stack w of [] \<Rightarrow> Undefined | x # st \<Rightarrow> io_continue x (w\<lparr>iw_stack := st\<rparr>))
      | Close_callback \<Rightarrow>
          c_assert (iw_stack w = [] \<and> iw_flight w = [] \<and> iw_uv_closing w \<and> \<not> iw_freed w) (cat_socket_close_callback w))"

fun io_run :: "bool \<Rightarrow> io_call list \<Rightarrow> io_world \<Rightarrow> io_world c_run" where
  "io_run refuses [] w = Done w"
| "io_run refuses (c # cs) w = c_bind (io_do refuses c w) (io_run refuses cs)"

lemma no_address [simp]: "address_allowed w None"
  by (simp add: address_allowed_def)

lemma io_do_step: "io_do refuses c w = Done w' \<Longrightarrow> io_step refuses w w'"
  by (auto simp: io_do_def c_assert_def intro: io_step.intros intro: step_write [where address = None] split: io_call.splits if_splits list.splits)

lemma io_run_reach: "io_reachable refuses w \<Longrightarrow> io_run refuses cs w = Done w' \<Longrightarrow> io_reachable refuses w'"
proof (induction cs arbitrary: w)
  case (Cons c cs)
  then obtain w1 where w1: "io_do refuses c w = Done w1" "io_run refuses cs w1 = Done w'" by (cases "io_do refuses c w") auto
  then have "io_reachable refuses w1" using Cons.prems(1) io_do_step reach_step by metis
  then show ?case using Cons.IH w1(2) by blast
qed simp

lemma io_run_start:
  assumes "io_start w0" and "case io_run refuses cs w0 of Done w \<Rightarrow> P w | _ \<Rightarrow> False"
  obtains w where "io_reachable refuses w" "io_run refuses cs w0 = Done w" "P w"
proof -
  have "io_reachable refuses w0" using assms(1) by (rule reach_start)
  then show thesis using assms(2) that io_run_reach by (cases "io_run refuses cs w0") auto
qed

lemmas io_run_example = io_run_start [OF io_example_start]

text \<open>A write that \<^verbatim>\<open>uv_write2\<close> refuses while another one waits leaves its request behind: there is a run after which the internal socket
  is freed and the request is not.\<close>

theorem refused_write_leaks: "\<exists>w. io_reachable True w \<and> iw_freed w \<and> iw_requests w 11 \<noteq> None"
proof (rule io_run_example)
  show "case io_run True [Call_write 10 None 1 0, Call_write 11 (Some CAT_EAGAIN) 2 0, Callback None, Continue, Call_close 1 0, Continue, Continue,
      Close_callback] io_example of Done w \<Rightarrow> iw_freed w \<and> iw_requests w 11 \<noteq> None | _ \<Rightarrow> False" by code_simp
qed blast

theorem io_flags_tell_witness:
  "\<exists>w. io_reachable False w \<and> iw_frames w 2 = Some Reading \<and> si_io_flags (iw_si w) = IO_RDWR"
proof (rule io_run_example)
  show "case io_run False [Call_write 10 None 1 0, Call_read 2 0] io_example of
      Done w \<Rightarrow> iw_frames w 1 = Some (Writing 10) \<and> iw_frames w 2 = Some Reading | _ \<Rightarrow> False" by code_simp
next
  fix w assume "io_reachable False w" and "iw_frames w 1 = Some (Writing 10) \<and> iw_frames w 2 = Some Reading"
  then show ?thesis using io_flags_tell [of False w 2 2] by (auto simp: has_def)
qed

theorem io_calls_return_witness: "\<exists>w w'. io_reachable False w \<and> iw_requests w 11 = None \<and> iw_frames w 2 = None \<and> usable w 0 \<and> cat_socket_write 11 None None 2 0 w = Done w'"
proof (rule io_run_example)
  show "case io_run False [Call_write 10 None 1 0] io_example of Done w \<Rightarrow> iw_requests w 11 = None \<and> iw_frames w 2 = None \<and> usable w 0 | _ \<Rightarrow> False" by code_simp
next
  fix w assume w: "io_reachable False w" "iw_requests w 11 = None \<and> iw_frames w 2 = None \<and> usable w 0"
  then have "\<exists>w'. cat_socket_write 11 None None 2 0 w = Done w'" using io_calls_return [OF w(1), of 2 11 None 0 None] by simp
  then show ?thesis using w by blast
qed



theorem write_callback_resumes_witness:
  "\<exists>w w'. io_reachable False w \<and> cat_socket_internal_write_callback None w = Done w' \<and> iw_results w' 1 = Some Ok \<and> iw_writers w' = [2]"
proof (rule io_run_example)
  show "case io_run False [Call_write 10 None 1 0, Call_write 11 None 2 0] io_example of
      Done w \<Rightarrow> iw_stack w = [] \<and> iw_flight w = [10, 11] \<and> iw_frames w 1 = Some (Writing 10) \<and> iw_writers w = [1, 2] | _ \<Rightarrow> False" by code_simp
qed (use write_callback_resumes [where status = None] in fastforce)

subsection \<open>What the rules leave out\<close>

text \<open>A writer of a local datagram socket that had to wait for its turn never writes: it takes itself out of the queue and then asks whether it is the
  first of the queue.\<close>

theorem udg_queued_canceled:
  assumes "iw_frames w co = Some Udg_queued" and "distinct (iw_writers w)" and "\<not> iw_freed w"
  shows "\<exists>w'. udg_queued_return co None w = Done w' \<and> iw_frames w' co = None \<and> iw_results w' co = Some (Failed CAT_ECANCELED)"
proof -
  have "iw_writers w = [] \<or> hd (remove1 co (iw_writers w)) \<noteq> co \<or> remove1 co (iw_writers w) = []"
    using assms(2) by (metis distinct_remove1 hd_in_set in_set_remove1 distinct_remdups remove1.simps(1) set_remove1_eq Diff_iff singletonI)
  then show ?thesis using assms(1,3) by (auto simp: udg_queued_return_def io_returns_def)
qed

text \<open>One that polls is in no queue, and \<^verbatim>\<open>close\<close> does not resume it: it can touch the internal socket when that has been freed.\<close>

definition udg_example :: io_world where
  "udg_example = io_example\<lparr>iw_si := example_socket\<lparr>si_type := TYPE_UDG\<rparr>\<rparr>"

theorem udg_writer_outlives_close:
  "\<exists>w. io_run False [Call_write 10 None 1 0, Send 1 Send_again (Inr 7), Call_close 2 0, Continue, Continue, Continue, Close_callback] udg_example = Done w \<and>
     iw_freed w \<and> iw_frames w 1 = Some Udg_polling \<and> udg_poll_return 1 Poll_timedout w = Undefined"
proof -
  have "case io_run False [Call_write 10 None 1 0, Send 1 Send_again (Inr 7), Call_close 2 0, Continue, Continue, Continue, Close_callback] udg_example of
     Done w \<Rightarrow> iw_freed w \<and> iw_frames w 1 = Some Udg_polling \<and> (case udg_poll_return 1 Poll_timedout w of Undefined \<Rightarrow> True | _ \<Rightarrow> False) | _ \<Rightarrow> False"
    by code_simp
  then show ?thesis by (auto simp del: io_run.simps split: c_run.splits)
qed

text \<open>An allocated socket that is closed by a coroutine which its own \<^verbatim>\<open>close\<close> has resumed is freed under the feet of that \<^verbatim>\<open>close\<close>.\<close>

definition allocated_example :: io_world where
  "allocated_example = io_example\<lparr>iw_socket := (iw_socket io_example)(0 := (iw_socket io_example 0)\<lparr>socket_flags := SOCKET_ALLOCATED\<rparr>)\<rparr>"

lemma allocated_example_start: "io_start allocated_example"
  using io_example_start by (auto simp: io_start_def allocated_example_def)

theorem closed_again_frees_twice:
  "\<exists>w. io_reachable False w \<and> (\<exists>w1 w2. cat_socket_close 1 0 w = Done w1 \<and> io_run False [Continue, Continue] w1 = Done w2 \<and>
     iw_stack w2 = [Close_end 2 (Some 0)] \<and> io_continue (Close_end 2 (Some 0)) (w2\<lparr>iw_stack := []\<rparr>) = Undefined)"
proof (rule io_run_start [OF allocated_example_start])
  show "case io_run False [Call_write 10 None 1 0, Call_close 2 0, Continue] allocated_example of
      Done w \<Rightarrow> (case cat_socket_close 1 0 w of Done w1 \<Rightarrow>
        (case io_run False [Continue, Continue] w1 of
           Done w2 \<Rightarrow> iw_stack w2 = [Close_end 2 (Some 0)] \<and>
             (case io_continue (Close_end 2 (Some 0)) (w2\<lparr>iw_stack := []\<rparr>) of Undefined \<Rightarrow> True | _ \<Rightarrow> False)
         | _ \<Rightarrow> False) | _ \<Rightarrow> False) | _ \<Rightarrow> False" by code_simp
qed (auto simp del: io_run.simps split: c_run.splits)

end
