(* ===== verification/Uv_Threadpool.thy ===== *)
theory Uv_Threadpool
  imports Cat_Prelude "HOL-Library.Multiset"
begin

text \<open>
  The thread pool of libuv, \<^verbatim>\<open>deps/libuv/src/threadpool.c\<close>. The threads are a list of states; what a thread does between
  taking and releasing the global mutex is a step, so the mutex is free when no thread is at the head of its loop. A
  work item is in one place: queued, among the slow ones, with a thread, or on the queue of finished work of the loop.
  Calling a work function that is \<^verbatim>\<open>NULL\<close> or \<^verbatim>\<open>uv__cancelled\<close> and unlinking a node that is not linked are \<open>Undefined\<close>.

  The lemmas show that in every reachable state each item is in one place, slow work has at most half of the threads,
  no item is forgotten while all threads sleep, every item runs at most once and is reported with what happened to
  it, and that the loop of a worker releases the mutex.
\<close>

subsection \<open>State\<close>

datatype uv__work_kind = UV__WORK_CPU | UV__WORK_FAST_IO | UV__WORK_SLOW_IO

datatype pool_node = Exit_message | Run_slow_work_message | Work addr

text \<open>The field \<^verbatim>\<open>work\<close> of an item: the function, \<^verbatim>\<open>NULL\<close> or \<^verbatim>\<open>uv__cancelled\<close>.\<close>

datatype work_pointer = Function | Null | Uv_cancelled

text \<open>Where a thread is: at the head of its loop with the mutex, in \<^verbatim>\<open>uv_cond_wait\<close>, signalled but without the mutex, running an
  item, in front of \<^verbatim>\<open>uv_mutex_lock\<close> (at its start or behind an item), at its end. The flag says that the item is slow.\<close>

datatype worker_state = Locked | Waiting | Woken | Running addr bool | Entering bool | Exited

record uv_pool =
  tp_wq :: "pool_node list"
  tp_slow_pending :: "addr list"
  tp_slow_running :: nat
  tp_idle :: nat
  tp_threads :: "worker_state list"
  tp_pointer :: "addr \<Rightarrow> work_pointer"
  tp_loop_wq :: "addr list"
  tp_batch :: "addr list"
  tp_runs :: "addr \<Rightarrow> nat"

definition slow_work_thread_threshold :: "uv_pool \<Rightarrow> nat" where
  "slow_work_thread_threshold p = (length (tp_threads p) + 1) div 2"

definition mutex_free :: "uv_pool \<Rightarrow> bool" where
  "mutex_free p \<longleftrightarrow> Locked \<notin> set (tp_threads p)"

definition set_thread :: "nat \<Rightarrow> worker_state \<Rightarrow> uv_pool \<Rightarrow> uv_pool" where
  "set_thread t s p = p\<lparr>tp_threads := (tp_threads p)[t := s]\<rparr>"

text \<open>\<^verbatim>\<open>uv_cond_signal\<close> wakes a thread that waits, if there is one: \<open>s\<close> is the one that the system chooses.\<close>

definition uv_cond_signal :: "nat \<Rightarrow> uv_pool \<Rightarrow> uv_pool" where
  "uv_cond_signal s p = (if s < length (tp_threads p) \<and> tp_threads p ! s = Waiting then set_thread s Woken p else p)"

definition may_choose :: "nat \<Rightarrow> uv_pool \<Rightarrow> bool" where
  "may_choose s p \<longleftrightarrow> (Waiting \<in> set (tp_threads p) \<longrightarrow> s < length (tp_threads p) \<and> tp_threads p ! s = Waiting)"

subsection \<open>The worker\<close>

definition must_wait :: "uv_pool \<Rightarrow> bool" where
  "must_wait p \<longleftrightarrow> tp_wq p = [] \<or> tp_wq p = [Run_slow_work_message] \<and> slow_work_thread_threshold p \<le> tp_slow_running p"

text \<open>One turn of the loop of thread \<open>t\<close>, with the mutex. A turn that ends in \<^verbatim>\<open>continue\<close> leaves the thread at the head of its
  loop.\<close>

definition worker_turn :: "nat \<Rightarrow> nat \<Rightarrow> uv_pool \<Rightarrow> uv_pool" where
  "worker_turn s t p =
     (if must_wait p then set_thread t Waiting (p\<lparr>tp_idle := tp_idle p + 1\<rparr>)
      else case tp_wq p of
        [] \<Rightarrow> p
      | Exit_message # q \<Rightarrow> set_thread t Exited (uv_cond_signal s p)
      | Run_slow_work_message # q \<Rightarrow>
          if slow_work_thread_threshold p \<le> tp_slow_running p then p\<lparr>tp_wq := q @ [Run_slow_work_message]\<rparr>
          else (case tp_slow_pending p of
                  [] \<Rightarrow> p\<lparr>tp_wq := q\<rparr>
                | w # ws \<Rightarrow>
                    let p = p\<lparr>tp_wq := q, tp_slow_running := tp_slow_running p + 1, tp_slow_pending := ws\<rparr>;
                        p = (if ws \<noteq> [] then
                               let p = p\<lparr>tp_wq := tp_wq p @ [Run_slow_work_message]\<rparr>
                               in if 0 < tp_idle p then uv_cond_signal s p else p
                             else p)
                    in set_thread t (Running w True) p)
      | Work w # q \<Rightarrow> set_thread t (Running w False) (p\<lparr>tp_wq := q\<rparr>))"

text \<open>The return from \<^verbatim>\<open>uv_cond_wait\<close>.\<close>

definition worker_wakes :: "nat \<Rightarrow> uv_pool \<Rightarrow> uv_pool" where
  "worker_wakes t p = set_thread t Locked (p\<lparr>tp_idle := tp_idle p - 1\<rparr>)"

text \<open>The end of an item: its function has run, and it goes to the loop.\<close>

definition worker_runs :: "nat \<Rightarrow> uv_pool \<Rightarrow> uv_pool c_run" where
  "worker_runs t p =
     (case tp_threads p ! t of
        Running w slow \<Rightarrow>
          c_assert (tp_pointer p w = Function)
            (Done (set_thread t (Entering slow)
              (p\<lparr>tp_pointer := (tp_pointer p)(w := Null), tp_loop_wq := tp_loop_wq p @ [w], tp_runs := (tp_runs p)(w := tp_runs p w + 1)\<rparr>)))
      | _ \<Rightarrow> Undefined)"

definition worker_locks :: "nat \<Rightarrow> uv_pool \<Rightarrow> uv_pool" where
  "worker_locks t p =
     (case tp_threads p ! t of
        Entering slow \<Rightarrow> set_thread t Locked (if slow then p\<lparr>tp_slow_running := tp_slow_running p - 1\<rparr> else p)
      | _ \<Rightarrow> p)"

subsection \<open>Submitting, cancelling, reporting\<close>

text \<open>\<^verbatim>\<open>post\<close> of a node; for a slow one \<open>q\<close> is the message unless it is queued already.\<close>

definition post_node :: "nat \<Rightarrow> pool_node \<Rightarrow> uv_pool \<Rightarrow> uv_pool" where
  "post_node s q p =
     (let p = p\<lparr>tp_wq := tp_wq p @ [q]\<rparr> in if 0 < tp_idle p then uv_cond_signal s p else p)"

definition post_slow :: "nat \<Rightarrow> addr \<Rightarrow> uv_pool \<Rightarrow> uv_pool" where
  "post_slow s w p =
     (let p = p\<lparr>tp_slow_pending := tp_slow_pending p @ [w]\<rparr>
      in if Run_slow_work_message \<in> set (tp_wq p) then p else post_node s Run_slow_work_message p)"

definition uv__work_submit :: "nat \<Rightarrow> addr \<Rightarrow> uv__work_kind \<Rightarrow> uv_pool \<Rightarrow> uv_pool" where
  "uv__work_submit s w kind p =
     (let p = p\<lparr>tp_pointer := (tp_pointer p)(w := Function), tp_runs := (tp_runs p)(w := 0)\<rparr>
      in if kind = UV__WORK_SLOW_IO then post_slow s w p else post_node s (Work w) p)"

text \<open>\<^verbatim>\<open>uv__threadpool_cleanup\<close> posts the message that ends the threads.\<close>

definition post_exit :: "nat \<Rightarrow> uv_pool \<Rightarrow> uv_pool" where
  "post_exit s p = post_node s Exit_message p"

definition linked :: "uv_pool \<Rightarrow> addr \<Rightarrow> bool" where
  "linked p w \<longleftrightarrow> Work w \<in> set (tp_wq p) \<or> w \<in> set (tp_slow_pending p) \<or> w \<in> set (tp_loop_wq p) \<or> w \<in> set (tp_batch p)"

definition runs_now :: "uv_pool \<Rightarrow> addr \<Rightarrow> bool" where
  "runs_now p w \<longleftrightarrow> Running w True \<in> set (tp_threads p) \<or> Running w False \<in> set (tp_threads p)"

text \<open>The result is \<^verbatim>\<open>0\<close> or \<^verbatim>\<open>UV_EBUSY\<close>. The node of an item that a thread runs is empty; the node of an item that was reported is not, and has
  dangling links.\<close>

definition uv__work_cancel :: "addr \<Rightarrow> uv_pool \<Rightarrow> (bool \<times> uv_pool) c_run" where
  "uv__work_cancel w p =
     (if runs_now p w \<or> tp_pointer p w = Null then Done (False, p)
      else c_assert (linked p w)
        (Done (True, p\<lparr>tp_wq := remove1 (Work w) (tp_wq p), tp_slow_pending := remove1 w (tp_slow_pending p), tp_batch := remove1 w (tp_batch p),
           tp_pointer := (tp_pointer p)(w := Uv_cancelled), tp_loop_wq := remove1 w (tp_loop_wq p) @ [w]\<rparr>)))"

text \<open>\<^verbatim>\<open>uv__work_done\<close>: the finished items become a batch, and the callback of each is called with a status.\<close>

definition work_done_move :: "uv_pool \<Rightarrow> uv_pool" where
  "work_done_move p = p\<lparr>tp_loop_wq := [], tp_batch := tp_loop_wq p\<rparr>"

definition work_done_next :: "uv_pool \<Rightarrow> ((addr \<times> cat_errno option) \<times> uv_pool) option" where
  "work_done_next p =
     (case tp_batch p of [] \<Rightarrow> None
      | w # ws \<Rightarrow> Some ((w, if tp_pointer p w = Uv_cancelled then Some CAT_ECANCELED else None), p\<lparr>tp_batch := ws\<rparr>))"

text \<open>The size of the pool: 4 or the value of \<^verbatim>\<open>CAT_TPS\<close> or \<^verbatim>\<open>UV_THREADPOOL_SIZE\<close> as an \<^verbatim>\<open>unsigned int\<close>, at least 1 and at most 1024.\<close>

definition pool_size :: "int option \<Rightarrow> nat" where
  "pool_size val = (let n = (case val of None \<Rightarrow> 4 | Some n \<Rightarrow> unat (word_of_int n :: u32)) in min (if n = 0 then 1 else n) 1024)"

definition init_threads :: "int option \<Rightarrow> uv_pool" where
  "init_threads val =
     \<lparr>tp_wq = [], tp_slow_pending = [], tp_slow_running = 0, tp_idle = 0, tp_threads = replicate (pool_size val) (Entering False),
      tp_pointer = (\<lambda>_. Null), tp_loop_wq = [], tp_batch = [], tp_runs = (\<lambda>_. 0)\<rparr>"

subsection \<open>Steps\<close>

text \<open>An item is submitted when it is in no place. A thread may return from \<^verbatim>\<open>uv_cond_wait\<close> without a signal.\<close>

definition known :: "uv_pool \<Rightarrow> addr \<Rightarrow> bool" where
  "known p w \<longleftrightarrow> linked p w \<or> runs_now p w"

inductive pool_step :: "uv_pool \<Rightarrow> uv_pool \<Rightarrow> bool" where
  submit: "mutex_free p \<Longrightarrow> \<not> known p w \<Longrightarrow> may_choose s p \<Longrightarrow> pool_step p (uv__work_submit s w kind p)"
| cancel: "mutex_free p \<Longrightarrow> known p w \<Longrightarrow> uv__work_cancel w p = Done (r, p') \<Longrightarrow> pool_step p p'"
| move: "tp_batch p = [] \<Longrightarrow> pool_step p (work_done_move p)"
| report: "work_done_next p = Some (e, p') \<Longrightarrow> pool_step p p'"
| exit: "mutex_free p \<Longrightarrow> Exit_message \<notin> set (tp_wq p) \<Longrightarrow> may_choose s p \<Longrightarrow> pool_step p (post_exit s p)"
| lock: "mutex_free p \<Longrightarrow> t < length (tp_threads p) \<Longrightarrow> tp_threads p ! t = Entering slow \<Longrightarrow> pool_step p (worker_locks t p)"
| turn: "t < length (tp_threads p) \<Longrightarrow> tp_threads p ! t = Locked \<Longrightarrow> may_choose s p \<Longrightarrow> pool_step p (worker_turn s t p)"
| spurious: "t < length (tp_threads p) \<Longrightarrow> tp_threads p ! t = Waiting \<Longrightarrow> pool_step p (set_thread t Woken p)"
| wakes: "mutex_free p \<Longrightarrow> t < length (tp_threads p) \<Longrightarrow> tp_threads p ! t = Woken \<Longrightarrow> pool_step p (worker_wakes t p)"
| runs: "t < length (tp_threads p) \<Longrightarrow> tp_threads p ! t = Running w slow \<Longrightarrow> worker_runs t p = Done p' \<Longrightarrow> pool_step p p'"

subsection \<open>Invariant\<close>

fun run_of :: "worker_state \<Rightarrow> addr list" where
  "run_of (Running w slow) = [w]"
| "run_of s = []"

fun node_work :: "pool_node \<Rightarrow> addr list" where
  "node_work (Work w) = [w]"
| "node_work n = []"

fun slow_thread :: "worker_state \<Rightarrow> bool" where
  "slow_thread (Running w slow) = slow"
| "slow_thread (Entering slow) = slow"
| "slow_thread s = False"

definition idle_thread :: "worker_state \<Rightarrow> bool" where
  "idle_thread s \<longleftrightarrow> s = Waiting \<or> s = Woken"

definition queued :: "uv_pool \<Rightarrow> addr list" where
  "queued p = concat (map node_work (tp_wq p)) @ tp_slow_pending p"

definition running :: "uv_pool \<Rightarrow> addr list" where
  "running p = concat (map run_of (tp_threads p))"

definition finished :: "uv_pool \<Rightarrow> addr list" where
  "finished p = tp_loop_wq p @ tp_batch p"

text \<open>Each item is in one place, and its function pointer and the number of its runs say how far it is.\<close>

definition items_ok :: "uv_pool \<Rightarrow> bool" where
  "items_ok p \<longleftrightarrow> distinct (queued p @ running p @ finished p) \<and>
     (\<forall>w\<in>set (queued p @ running p). tp_pointer p w = Function \<and> tp_runs p w = 0) \<and>
     (\<forall>w\<in>set (finished p). tp_pointer p w = Null \<and> tp_runs p w = 1 \<or> tp_pointer p w = Uv_cancelled \<and> tp_runs p w = 0)"

text \<open>The message stands in the queue as long as there is slow work, and slow work keeps to its share of the threads.\<close>

definition slow_ok :: "uv_pool \<Rightarrow> bool" where
  "slow_ok p \<longleftrightarrow> count_list (tp_wq p) Run_slow_work_message \<le> 1 \<and>
     (tp_slow_pending p \<noteq> [] \<longrightarrow> Run_slow_work_message \<in> set (tp_wq p)) \<and>
     tp_slow_running p = length (filter slow_thread (tp_threads p)) \<and> tp_slow_running p \<le> slow_work_thread_threshold p"

text \<open>The counter of idle threads is right, one thread at most has the mutex, and when there is something to do not all threads that are
  left sleep.\<close>

definition awake :: "worker_state \<Rightarrow> bool" where
  "awake s \<longleftrightarrow> s \<noteq> Waiting \<and> s \<noteq> Exited"

definition threads_ok :: "uv_pool \<Rightarrow> bool" where
  "threads_ok p \<longleftrightarrow> tp_idle p = length (filter idle_thread (tp_threads p)) \<and>
     length (filter (\<lambda>s. s = Locked) (tp_threads p)) \<le> 1 \<and>
     (\<not> must_wait p \<and> Waiting \<in> set (tp_threads p) \<longrightarrow> (\<exists>s\<in>set (tp_threads p). awake s)) \<and>
     (Exit_message \<notin> set (tp_wq p) \<longrightarrow> Exited \<notin> set (tp_threads p)) \<and> tp_threads p \<noteq> []"

definition pool_inv :: "uv_pool \<Rightarrow> bool" where
  "pool_inv p \<longleftrightarrow> items_ok p \<and> slow_ok p \<and> threads_ok p"

lemma set_queued: "w \<in> set (queued p) \<longleftrightarrow> Work w \<in> set (tp_wq p) \<or> w \<in> set (tp_slow_pending p)"
proof -
  have "w \<in> set (node_work n) \<longleftrightarrow> n = Work w" for n by (cases n) auto
  then show ?thesis by (auto simp: queued_def)
qed

lemma set_running: "w \<in> set (running p) \<longleftrightarrow> runs_now p w"
proof -
  have "w \<in> set (run_of s) \<longleftrightarrow> s = Running w True \<or> s = Running w False" for s by (cases s) auto
  then show ?thesis by (auto simp: running_def runs_now_def)
qed

lemma known_places: "known p w \<longleftrightarrow> w \<in> set (queued p @ running p @ finished p)"
  by (auto simp: known_def linked_def set_queued set_running finished_def)

text \<open>Changing one thread.\<close>

lemma running_update:
  assumes "t < length ts" and "ts ! t = old"
  shows "mset (concat (map run_of (ts[t := new]))) + mset (run_of old) = mset (concat (map run_of ts)) + mset (run_of new)"
  using assms
proof (induction ts arbitrary: t)
  case (Cons a ts)
  then show ?case by (cases t) auto
qed simp

lemma running_same:
  assumes "t < length ts" and "ts ! t = old" and "run_of new = run_of old"
  shows "map run_of (ts[t := new]) = map run_of ts"
  using assms by (metis list_update_id map_update)

lemma filter_update:
  assumes "t < length ts" and "ts ! t = old"
  shows "length (filter f (ts[t := new])) + (if f old then 1 else 0) = length (filter f ts) + (if f new then 1 else 0)"
  using assms
proof (induction ts arbitrary: t)
  case (Cons a ts)
  then show ?case by (cases t) auto
qed simp

lemma set_update_other: "x \<in> set (ts[t := new]) \<Longrightarrow> x \<noteq> new \<Longrightarrow> x \<in> set ts"
  using set_update_subset_insert [of ts t new] by auto

lemma pool_init_inv: "pool_inv (init_threads val)"
proof -
  have "0 < pool_size val" by (simp add: pool_size_def Let_def)
  moreover have "filter P (replicate n x) = (if P x then replicate n x else [])" for P n and x :: worker_state by (induction n) auto
  ultimately show ?thesis
    by (auto simp: pool_inv_def items_ok_def slow_ok_def threads_ok_def init_threads_def queued_def running_def finished_def idle_thread_def must_wait_def)
qed

lemma running_upd [simp]:
  "running (p\<lparr>tp_wq := q\<rparr>) = running p" "running (p\<lparr>tp_slow_pending := ws\<rparr>) = running p" "running (p\<lparr>tp_slow_running := n\<rparr>) = running p"
  "running (p\<lparr>tp_idle := n\<rparr>) = running p" "running (p\<lparr>tp_pointer := f\<rparr>) = running p" "running (p\<lparr>tp_loop_wq := ws\<rparr>) = running p"
  "running (p\<lparr>tp_batch := ws\<rparr>) = running p" "running (p\<lparr>tp_runs := g\<rparr>) = running p"
  by (simp_all add: running_def)

lemma finished_upd [simp]:
  "finished (p\<lparr>tp_wq := q\<rparr>) = finished p" "finished (p\<lparr>tp_slow_pending := ws\<rparr>) = finished p" "finished (p\<lparr>tp_slow_running := n\<rparr>) = finished p"
  "finished (p\<lparr>tp_idle := n\<rparr>) = finished p" "finished (p\<lparr>tp_pointer := f\<rparr>) = finished p" "finished (p\<lparr>tp_threads := ts\<rparr>) = finished p"
  "finished (p\<lparr>tp_runs := g\<rparr>) = finished p"
  by (simp_all add: finished_def)

lemma queued_upd [simp]:
  "queued (p\<lparr>tp_slow_running := n\<rparr>) = queued p" "queued (p\<lparr>tp_idle := n\<rparr>) = queued p" "queued (p\<lparr>tp_pointer := f\<rparr>) = queued p"
  "queued (p\<lparr>tp_loop_wq := ws\<rparr>) = queued p" "queued (p\<lparr>tp_batch := ws\<rparr>) = queued p" "queued (p\<lparr>tp_threads := ts\<rparr>) = queued p"
  "queued (p\<lparr>tp_runs := g\<rparr>) = queued p"
  by (simp_all add: queued_def)

lemma threshold_upd [simp]:
  "slow_work_thread_threshold (p\<lparr>tp_wq := q\<rparr>) = slow_work_thread_threshold p"
  "slow_work_thread_threshold (p\<lparr>tp_slow_pending := ws\<rparr>) = slow_work_thread_threshold p"
  "slow_work_thread_threshold (p\<lparr>tp_slow_running := n\<rparr>) = slow_work_thread_threshold p"
  "slow_work_thread_threshold (p\<lparr>tp_idle := n\<rparr>) = slow_work_thread_threshold p"
  "slow_work_thread_threshold (p\<lparr>tp_pointer := f\<rparr>) = slow_work_thread_threshold p"
  "slow_work_thread_threshold (p\<lparr>tp_loop_wq := ws\<rparr>) = slow_work_thread_threshold p"
  "slow_work_thread_threshold (p\<lparr>tp_batch := ws\<rparr>) = slow_work_thread_threshold p"
  "slow_work_thread_threshold (p\<lparr>tp_runs := g\<rparr>) = slow_work_thread_threshold p"
  "slow_work_thread_threshold (p\<lparr>tp_threads := (tp_threads p)[t := x]\<rparr>) = slow_work_thread_threshold p"
  by (simp_all add: slow_work_thread_threshold_def)

lemma set_thread_fields [simp]:
  "tp_wq (set_thread t x p) = tp_wq p" "tp_slow_pending (set_thread t x p) = tp_slow_pending p" "tp_slow_running (set_thread t x p) = tp_slow_running p"
  "tp_idle (set_thread t x p) = tp_idle p" "tp_threads (set_thread t x p) = (tp_threads p)[t := x]" "tp_pointer (set_thread t x p) = tp_pointer p"
  "tp_loop_wq (set_thread t x p) = tp_loop_wq p" "tp_batch (set_thread t x p) = tp_batch p" "tp_runs (set_thread t x p) = tp_runs p"
  "queued (set_thread t x p) = queued p" "finished (set_thread t x p) = finished p"
  "slow_work_thread_threshold (set_thread t x p) = slow_work_thread_threshold p"
  by (simp_all add: set_thread_def slow_work_thread_threshold_def)

lemma signal_fields [simp]:
  "tp_wq (uv_cond_signal s p) = tp_wq p" "tp_slow_pending (uv_cond_signal s p) = tp_slow_pending p" "tp_slow_running (uv_cond_signal s p) = tp_slow_running p"
  "tp_idle (uv_cond_signal s p) = tp_idle p" "tp_pointer (uv_cond_signal s p) = tp_pointer p" "tp_loop_wq (uv_cond_signal s p) = tp_loop_wq p"
  "tp_batch (uv_cond_signal s p) = tp_batch p" "tp_runs (uv_cond_signal s p) = tp_runs p" "length (tp_threads (uv_cond_signal s p)) = length (tp_threads p)"
  by (simp_all add: uv_cond_signal_def set_thread_def)

lemma signal_nonempty [simp]: "tp_threads (uv_cond_signal s p) = [] \<longleftrightarrow> tp_threads p = []"
  by (simp add: uv_cond_signal_def set_thread_def)

lemma signal_running [simp]: "running (uv_cond_signal s p) = running p"
  using running_same [of s "tp_threads p" Waiting Woken] by (auto simp: uv_cond_signal_def set_thread_def running_def)

lemma signal_slow [simp]: "length (filter slow_thread (tp_threads (uv_cond_signal s p))) = length (filter slow_thread (tp_threads p))"
  using filter_update [of s "tp_threads p" Waiting slow_thread Woken] by (auto simp: uv_cond_signal_def set_thread_def)

lemma signal_idle [simp]: "length (filter idle_thread (tp_threads (uv_cond_signal s p))) = length (filter idle_thread (tp_threads p))"
  using filter_update [of s "tp_threads p" Waiting idle_thread Woken] by (auto simp: uv_cond_signal_def set_thread_def idle_thread_def)

lemma signal_locked [simp]: "length (filter (\<lambda>s. s = Locked) (tp_threads (uv_cond_signal s p))) = length (filter (\<lambda>s. s = Locked) (tp_threads p))"
  using filter_update [of s "tp_threads p" Waiting "\<lambda>s. s = Locked" Woken] by (auto simp: uv_cond_signal_def set_thread_def)

lemma signal_places [simp]: "queued (uv_cond_signal s p) = queued p" "finished (uv_cond_signal s p) = finished p"
  by (simp_all add: queued_def finished_def)

lemma signal_threshold [simp]: "slow_work_thread_threshold (uv_cond_signal s p) = slow_work_thread_threshold p"
  by (simp add: slow_work_thread_threshold_def)

lemma signal_other: "x \<noteq> Woken \<Longrightarrow> x \<noteq> Waiting \<Longrightarrow> x \<in> set (tp_threads (uv_cond_signal s p)) \<longleftrightarrow> x \<in> set (tp_threads p)"
proof -
  assume x: "x \<noteq> Woken" "x \<noteq> Waiting"
  have "x \<in> set (ts[s := Woken]) \<longleftrightarrow> x \<in> set ts" if "s < length ts" "ts ! s = Waiting" for ts
    using that x by (metis in_set_conv_nth length_list_update nth_list_update_eq nth_list_update_neq)
  then show ?thesis by (auto simp: uv_cond_signal_def set_thread_def)
qed

lemma signal_wakes:
  assumes "may_choose s p" and "Waiting \<in> set (tp_threads p)"
  shows "Woken \<in> set (tp_threads (uv_cond_signal s p))"
  using assms by (auto simp: may_choose_def uv_cond_signal_def set_thread_def set_update_memI)

lemma idle_waits:
  assumes "threads_ok p" and "Waiting \<in> set (tp_threads p)"
  shows "0 < tp_idle p"
proof -
  have "Waiting \<in> set (filter idle_thread (tp_threads p))" using assms(2) by (simp add: idle_thread_def)
  then have "0 < length (filter idle_thread (tp_threads p))" by (rule length_pos_if_in_set)
  then show ?thesis using assms(1) by (simp add: threads_ok_def)
qed

text \<open>Posting a node that is not queued.\<close>

lemma post_node_threads:
  assumes "threads_ok p" and "may_choose s p"
  shows "threads_ok (post_node s q p)"
proof -
  let ?p = "p\<lparr>tp_wq := tp_wq p @ [q]\<rparr>"
  have t: "tp_threads ?p = tp_threads p" by simp
  have "Woken \<in> set (tp_threads (uv_cond_signal s ?p))" if "Waiting \<in> set (tp_threads p)"
    using signal_wakes [of s ?p] assms(2) that by (simp add: may_choose_def)
  moreover have "awake Woken" by (simp add: awake_def)
  moreover have "Waiting \<in> set (tp_threads (uv_cond_signal s ?p)) \<Longrightarrow> Waiting \<in> set (tp_threads p)"
    by (auto simp: uv_cond_signal_def set_thread_def split: if_splits dest: set_update_subset_insert [THEN subsetD])
  ultimately have "Waiting \<in> set (tp_threads (uv_cond_signal s ?p)) \<longrightarrow> (\<exists>x\<in>set (tp_threads (uv_cond_signal s ?p)). awake x)" by blast
  moreover have "Waiting \<notin> set (tp_threads p)" if "tp_idle p = 0" using idle_waits [OF assms(1)] that by auto
  moreover have "Exited \<in> set (tp_threads (uv_cond_signal s ?p)) \<longleftrightarrow> Exited \<in> set (tp_threads p)" by (simp add: signal_other)
  ultimately show ?thesis using assms(1) unfolding threads_ok_def post_node_def Let_def by auto
qed

lemma post_node_fields [simp]:
  "tp_slow_pending (post_node s q p) = tp_slow_pending p" "tp_slow_running (post_node s q p) = tp_slow_running p" "tp_wq (post_node s q p) = tp_wq p @ [q]"
  "tp_pointer (post_node s q p) = tp_pointer p" "tp_runs (post_node s q p) = tp_runs p" "running (post_node s q p) = running p"
  "finished (post_node s q p) = finished p" "slow_work_thread_threshold (post_node s q p) = slow_work_thread_threshold p"
  "length (filter slow_thread (tp_threads (post_node s q p))) = length (filter slow_thread (tp_threads p))"
  by (simp_all add: post_node_def Let_def)

text \<open>The threads do not depend on the items.\<close>

lemma threads_ok_upd [simp]:
  "threads_ok (p\<lparr>tp_pointer := f\<rparr>) = threads_ok p" "threads_ok (p\<lparr>tp_runs := g\<rparr>) = threads_ok p" "threads_ok (p\<lparr>tp_slow_pending := ws\<rparr>) = threads_ok p"
  "threads_ok (p\<lparr>tp_loop_wq := ws\<rparr>) = threads_ok p" "threads_ok (p\<lparr>tp_batch := ws\<rparr>) = threads_ok p"
  by (simp_all add: threads_ok_def must_wait_def)

lemma may_choose_upd [simp]:
  "may_choose s (p\<lparr>tp_pointer := f\<rparr>) = may_choose s p" "may_choose s (p\<lparr>tp_runs := g\<rparr>) = may_choose s p"
  "may_choose s (p\<lparr>tp_slow_pending := ws\<rparr>) = may_choose s p"
  by (simp_all add: may_choose_def)

text \<open>A new item in the queue.\<close>

lemma items_new:
  assumes "items_ok p" and "w \<notin> set (queued p @ running p @ finished p)"
    and "mset (queued p') = add_mset w (mset (queued p))" and "running p' = running p" and "finished p' = finished p"
    and "tp_pointer p' = (tp_pointer p)(w := Function)" and "tp_runs p' = (tp_runs p)(w := 0)"
  shows "items_ok p'"
proof -
  have "set (queued p') = insert w (set (queued p))" using arg_cong [OF assms(3), of set_mset] by simp
  moreover have "distinct (queued p') \<longleftrightarrow> distinct (w # queued p)" using assms(3) by (metis mset.simps(2) mset_eq_imp_distinct_iff)
  ultimately show ?thesis using assms by (auto simp: items_ok_def)
qed

lemma submit_inv:
  assumes "pool_inv p" and "\<not> known p w" and "may_choose s p"
  shows "pool_inv (uv__work_submit s w kind p)"
proof -
  let ?p = "p\<lparr>tp_pointer := (tp_pointer p)(w := Function), tp_runs := (tp_runs p)(w := 0)\<rparr>"
  let ?s = "?p\<lparr>tp_slow_pending := tp_slow_pending p @ [w]\<rparr>"
  have w: "w \<notin> set (queued p @ running p @ finished p)" using assms(2) known_places by blast
  have i: "items_ok p" "slow_ok p" "threads_ok p" using assms(1) by (simp_all add: pool_inv_def)
  consider (fast) "uv__work_submit s w kind p = post_node s (Work w) ?p"
    | (slow) "uv__work_submit s w kind p = ?s" "Run_slow_work_message \<in> set (tp_wq p)"
    | (first) "uv__work_submit s w kind p = post_node s Run_slow_work_message ?s" "Run_slow_work_message \<notin> set (tp_wq p)"
    by (cases "kind = UV__WORK_SLOW_IO") (auto simp: uv__work_submit_def post_slow_def Let_def)
  then show ?thesis
  proof cases
    case fast
    moreover have "items_ok (post_node s (Work w) ?p)" using i(1) w by (rule items_new) (simp_all add: queued_def)
    moreover have "slow_ok (post_node s (Work w) ?p)" using i(2) by (auto simp: slow_ok_def)
    moreover have "threads_ok (post_node s (Work w) ?p)" using post_node_threads [of ?p s] i(3) assms(3) by simp
    ultimately show ?thesis by (simp add: pool_inv_def)
  next
    case slow
    moreover have "items_ok ?s" using i(1) w by (rule items_new) (simp_all add: queued_def)
    moreover have "slow_ok ?s" using i(2) slow(2) by (auto simp: slow_ok_def)
    ultimately show ?thesis using i(3) by (simp add: pool_inv_def)
  next
    case first
    let ?q = "post_node s Run_slow_work_message ?s"
    have "items_ok ?q" using i(1) w by (rule items_new) (simp_all add: queued_def)
    moreover have "slow_ok ?q" using i(2) first(2) by (auto simp: slow_ok_def count_list_0_iff [THEN iffD2])
    moreover have "threads_ok ?q" using post_node_threads [of ?s s] i(3) assms(3) by simp
    ultimately show ?thesis using first(1) by (simp add: pool_inv_def)
  qed
qed

lemma exit_inv:
  assumes "pool_inv p" and "may_choose s p"
  shows "pool_inv (post_exit s p)"
proof -
  have "queued (post_exit s p) = queued p" by (simp add: queued_def post_exit_def)
  then show ?thesis using assms post_node_threads [of p s Exit_message]
    by (auto simp: pool_inv_def items_ok_def slow_ok_def post_exit_def)
qed

lemma works_remove1: "concat (map node_work (remove1 (Work w) q)) = remove1 w (concat (map node_work q))"
proof (induction q)
  case (Cons n q)
  then show ?case by (cases n) auto
qed simp

lemma count_remove1: "x \<noteq> y \<Longrightarrow> count_list (remove1 y xs) x = count_list xs x"
  by (induction xs) auto

text \<open>A cancelled item goes to the finished ones.\<close>

lemma cancel_inv:
  assumes "pool_inv p" and "known p w"
  shows "\<exists>r p'. uv__work_cancel w p = Done (r, p') \<and> pool_inv p'"
proof (cases "runs_now p w \<or> tp_pointer p w = Null")
  case True
  then have "uv__work_cancel w p = Done (False, p)" by (simp add: uv__work_cancel_def)
  then show ?thesis using assms(1) by blast
next
  case False
  let ?p = "p\<lparr>tp_wq := remove1 (Work w) (tp_wq p), tp_slow_pending := remove1 w (tp_slow_pending p), tp_batch := remove1 w (tp_batch p),
    tp_pointer := (tp_pointer p)(w := Uv_cancelled), tp_loop_wq := remove1 w (tp_loop_wq p) @ [w]\<rparr>"
  let ?q = "concat (map node_work (tp_wq p))"
  have i: "items_ok p" "slow_ok p" "threads_ok p" using assms(1) by (simp_all add: pool_inv_def)
  have run: "uv__work_cancel w p = Done (True, ?p)" using False assms(2) by (simp add: uv__work_cancel_def known_def)
  have w: "w \<in> set (queued p @ finished p)" "w \<notin> set (running p)" using assms(2) False known_places [of p w] set_running by auto
  have runs: "tp_runs p w = 0" using i(1) w False by (auto simp: items_ok_def)
  have places: "queued ?p = remove1 w ?q @ remove1 w (tp_slow_pending p)" "finished ?p = remove1 w (tp_loop_wq p) @ [w] @ remove1 w (tp_batch p)"
    "queued p = ?q @ tp_slow_pending p" "finished p = tp_loop_wq p @ tp_batch p"
    by (simp_all add: queued_def finished_def works_remove1)
  have d: "distinct (?q @ tp_slow_pending p @ running p @ tp_loop_wq p @ tp_batch p)" using i(1) places(3,4) by (simp add: items_ok_def)
  have sets: "set (queued ?p) = set (queued p) - {w}" "set (finished ?p) = insert w (set (finished p))"
    unfolding places using d by (auto simp: set_remove1_eq)
  have "distinct (queued ?p @ running ?p @ finished ?p)" unfolding places using d w(2) by (auto simp: set_remove1_eq)
  then have "items_ok ?p" using i(1) sets w(2) runs by (auto simp: items_ok_def)
  moreover have "slow_ok ?p" using i(2) by (auto simp: slow_ok_def count_remove1)
  moreover have "must_wait ?p" if "must_wait p" using that by (auto simp: must_wait_def)
  then have "threads_ok ?p" using i(3) by (auto simp: threads_ok_def)
  ultimately show ?thesis using run unfolding pool_inv_def by blast
qed

lemma move_inv:
  assumes "pool_inv p" and "tp_batch p = []"
  shows "pool_inv (work_done_move p)"
proof -
  let ?p = "p\<lparr>tp_loop_wq := [], tp_batch := tp_loop_wq p\<rparr>"
  have "finished ?p = finished p" using assms(2) by (simp add: finished_def)
  then show ?thesis using assms(1) by (simp add: work_done_move_def pool_inv_def items_ok_def slow_ok_def)
qed

lemma report_inv:
  assumes "pool_inv p" and "tp_batch p = w # ws"
  shows "pool_inv (p\<lparr>tp_batch := ws\<rparr>)"
  using assms by (auto simp: pool_inv_def items_ok_def slow_ok_def finished_def)

subsection \<open>The worker keeps the invariant\<close>

lemma items_moved:
  assumes "items_ok p" and "mset (queued p') + mset (running p') = mset (queued p) + mset (running p)" and "finished p' = finished p"
    and "tp_pointer p' = tp_pointer p" and "tp_runs p' = tp_runs p"
  shows "items_ok p'"
proof -
  have m: "mset (queued p' @ running p') = mset (queued p @ running p)" using assms(2) by simp
  then have s: "set (queued p' @ running p') = set (queued p @ running p)" by (rule mset_eq_setD)
  have "mset (queued p' @ running p' @ finished p') = mset (queued p @ running p @ finished p)" using assms(2,3) by (simp add: ac_simps)
  then have "distinct (queued p' @ running p' @ finished p') = distinct (queued p @ running p @ finished p)" by (rule mset_eq_imp_distinct_iff)
  then show ?thesis using assms(1,3-5) s unfolding items_ok_def by metis
qed

lemma threads_set:
  assumes "threads_ok p" and "t < length (tp_threads p)" and "tp_threads p ! t = old"
    and "tp_threads p' = (tp_threads p)[t := new]"
    and "tp_idle p' + (if idle_thread old then 1 else 0) = tp_idle p + (if idle_thread new then 1 else 0)"
    and "new = Locked \<Longrightarrow> old = Locked \<or> mutex_free p" and "awake new \<or> must_wait p'" and "new \<noteq> Exited"
    and "Exit_message \<in> set (tp_wq p) \<Longrightarrow> Exit_message \<in> set (tp_wq p')"
  shows "threads_ok p'"
proof -
  note f = filter_update [OF assms(2,3), where new = new]
  have "filter (\<lambda>s. s = Locked) (tp_threads p) = []" if "mutex_free p" using that by (auto simp: mutex_free_def filter_empty_conv)
  then have "length (filter (\<lambda>s. s = Locked) (tp_threads p')) \<le> 1"
    using f [where f = "\<lambda>s. s = Locked"] assms(1,4,6) by (auto simp: threads_ok_def split: if_splits)
  moreover have "tp_idle p' = length (filter idle_thread (tp_threads p'))"
    using f [where f = idle_thread] assms(1,4,5) by (auto simp: threads_ok_def split: if_splits)
  moreover have "\<not> must_wait p' \<longrightarrow> (\<exists>s\<in>set (tp_threads p'). awake s)" using assms(2,4,7) by (auto intro: set_update_memI)
  moreover have "Exited \<in> set (tp_threads p') \<Longrightarrow> Exited \<in> set (tp_threads p)" using assms(4,8) set_update_other by metis
  ultimately show ?thesis using assms(1,4,9) by (auto simp: threads_ok_def)
qed

lemma locks_inv:
  assumes "pool_inv p" and "mutex_free p" and "t < length (tp_threads p)" and "tp_threads p ! t = Entering slow"
  shows "pool_inv (worker_locks t p)"
proof -
  let ?p = "set_thread t Locked (if slow then p\<lparr>tp_slow_running := tp_slow_running p - 1\<rparr> else p)"
  have i: "items_ok p" "slow_ok p" "threads_ok p" using assms(1) by (simp_all add: pool_inv_def)
  have "running ?p = running p" using running_same [OF assms(3,4), of Locked] by (simp add: running_def)
  then have "items_ok ?p" by (intro items_moved [OF i(1)]) simp_all
  moreover have "slow_ok ?p" using i(2) filter_update [OF assms(3,4), of slow_thread Locked] by (auto simp: slow_ok_def)
  moreover have "threads_ok ?p" using i(3) assms(3,4)
    by (rule threads_set [where new = Locked]) (use assms(2) in \<open>simp_all add: idle_thread_def awake_def\<close>)
  ultimately show ?thesis using assms(4) by (simp add: pool_inv_def worker_locks_def)
qed

lemma worker_wakes_inv:
  assumes "pool_inv p" and "mutex_free p" and "t < length (tp_threads p)" and "tp_threads p ! t = Woken"
  shows "pool_inv (worker_wakes t p)"
proof -
  let ?p = "set_thread t Locked (p\<lparr>tp_idle := tp_idle p - 1\<rparr>)"
  have i: "items_ok p" "slow_ok p" "threads_ok p" using assms(1) by (simp_all add: pool_inv_def)
  have "Woken \<in> set (filter idle_thread (tp_threads p))" using assms(3,4) nth_mem [of t "tp_threads p"] by (auto simp: idle_thread_def)
  then have "0 < tp_idle p" using i(3) length_pos_if_in_set by (fastforce simp: threads_ok_def)
  then have "threads_ok ?p" using assms(2)
    by (intro threads_set [OF i(3) assms(3,4), where new = Locked]) (simp_all add: idle_thread_def awake_def)
  moreover have "running ?p = running p" using running_same [OF assms(3,4), of Locked] by (simp add: running_def)
  then have "items_ok ?p" by (intro items_moved [OF i(1)]) simp_all
  moreover have "slow_ok ?p" using i(2) filter_update [OF assms(3,4), of slow_thread Locked] by (auto simp: slow_ok_def)
  ultimately show ?thesis by (simp add: pool_inv_def worker_wakes_def)
qed

lemma spurious_inv:
  assumes "pool_inv p" and "t < length (tp_threads p)" and "tp_threads p ! t = Waiting"
  shows "pool_inv (set_thread t Woken p)"
proof -
  let ?p = "set_thread t Woken p"
  have i: "items_ok p" "slow_ok p" "threads_ok p" using assms(1) by (simp_all add: pool_inv_def)
  have "threads_ok ?p"
    by (intro threads_set [OF i(3) assms(2,3), where new = Woken]) (simp_all add: idle_thread_def awake_def)
  moreover have "running ?p = running p" using running_same [OF assms(2,3), of Woken] by (simp add: running_def)
  then have "items_ok ?p" by (intro items_moved [OF i(1)]) simp_all
  moreover have "slow_ok ?p" using i(2) filter_update [OF assms(2,3), of slow_thread Woken] by (auto simp: slow_ok_def)
  ultimately show ?thesis by (simp add: pool_inv_def)
qed

lemma runs_inv:
  assumes "pool_inv p" and "t < length (tp_threads p)" and "tp_threads p ! t = Running w slow"
  shows "\<exists>p'. worker_runs t p = Done p' \<and> pool_inv p'"
proof -
  let ?p = "set_thread t (Entering slow)
    (p\<lparr>tp_pointer := (tp_pointer p)(w := Null), tp_loop_wq := tp_loop_wq p @ [w], tp_runs := (tp_runs p)(w := tp_runs p w + 1)\<rparr>)"
  have i: "items_ok p" "slow_ok p" "threads_ok p" using assms(1) by (simp_all add: pool_inv_def)
  have "runs_now p w" using assms(2,3) by (cases slow) (auto simp: runs_now_def in_set_conv_nth)
  then have w: "tp_pointer p w = Function" "tp_runs p w = 0" using i(1) by (auto simp: items_ok_def set_running)
  have m: "add_mset w (mset (running ?p)) = mset (running p)"
    using running_update [OF assms(2,3), of "Entering slow"] by (simp add: running_def)
  have "mset (queued ?p @ running ?p @ finished ?p) = mset (queued p @ running p @ finished p)"
    using m by (simp add: finished_def flip: m)
  then have d: "distinct (queued ?p @ running ?p @ finished ?p)" using i(1) mset_eq_imp_distinct_iff unfolding items_ok_def by blast
  moreover have "set (running p) = insert w (set (running ?p))" using arg_cong [OF m, of set_mset] by simp
  moreover have "queued ?p = queued p" "finished ?p = tp_loop_wq p @ [w] @ tp_batch p" by (simp_all add: finished_def)
  ultimately have "items_ok ?p" using i(1) w unfolding items_ok_def by (auto simp: finished_def)
  moreover have "slow_ok ?p" using i(2) filter_update [OF assms(2,3), of slow_thread "Entering slow"] by (auto simp: slow_ok_def)
  moreover have "threads_ok ?p"
    by (intro threads_set [OF i(3) assms(2,3), where new = "Entering slow"]) (simp_all add: idle_thread_def awake_def)
  ultimately show ?thesis using assms(3) w(1) by (simp add: worker_runs_def pool_inv_def)
qed

lemma signal_threads:
  assumes "threads_ok p" and "may_choose s p"
  shows "threads_ok (uv_cond_signal s p)"
proof -
  have "Woken \<in> set (tp_threads (uv_cond_signal s p))" if "Waiting \<in> set (tp_threads (uv_cond_signal s p))"
  proof -
    have "Waiting \<in> set (tp_threads p)" using that by (auto simp: uv_cond_signal_def split: if_splits dest: set_update_other)
    then show ?thesis using signal_wakes [OF assms(2)] by simp
  qed
  moreover have "awake Woken" by (simp add: awake_def)
  moreover have "must_wait (uv_cond_signal s p) = must_wait p" by (simp add: must_wait_def)
  moreover have "Exited \<in> set (tp_threads (uv_cond_signal s p)) \<longleftrightarrow> Exited \<in> set (tp_threads p)" by (simp add: signal_other)
  ultimately show ?thesis using assms(1) unfolding threads_ok_def by auto
qed

text \<open>A thread that holds the mutex changes the queue, and takes an item from it.\<close>

lemma threads_wq:
  assumes "threads_ok p" and "Locked \<in> set (tp_threads p)" and "tp_threads p' = tp_threads p" and "tp_idle p' = tp_idle p"
    and "Exit_message \<in> set (tp_wq p) \<Longrightarrow> Exit_message \<in> set (tp_wq p')"
  shows "threads_ok p'"
proof -
  have "\<exists>s\<in>set (tp_threads p). awake s" using assms(2) by (intro bexI [of _ Locked]) (simp_all add: awake_def)
  then show ?thesis using assms by (auto simp: threads_ok_def)
qed

lemma takes_inv:
  assumes "items_ok p" and "threads_ok p'" and "t < length (tp_threads p')" and "tp_threads p' ! t = Locked"
    and "running p' = running p" and "finished p' = finished p"
    and "mset (queued p) = add_mset w (mset (queued p'))" and "tp_pointer p' = tp_pointer p" and "tp_runs p' = tp_runs p"
    and "count_list (tp_wq p') Run_slow_work_message \<le> 1" and "tp_slow_pending p' \<noteq> [] \<longrightarrow> Run_slow_work_message \<in> set (tp_wq p')"
    and "tp_slow_running p' = length (filter slow_thread (tp_threads p')) + (if slow then 1 else 0)" and "tp_slow_running p' \<le> slow_work_thread_threshold p'"
  shows "pool_inv (set_thread t (Running w slow) p')"
proof -
  let ?p = "set_thread t (Running w slow) p'"
  have "mset (running ?p) = add_mset w (mset (running p'))" using running_update [OF assms(3,4), of "Running w slow"] by (simp add: running_def)
  then have "items_ok ?p" using assms(5-9) by (intro items_moved [OF assms(1)]) simp_all
  moreover have "slow_ok ?p" using assms(10-13) filter_update [OF assms(3,4), of slow_thread "Running w slow"] by (auto simp: slow_ok_def)
  moreover have "threads_ok ?p" by (intro threads_set [OF assms(2-4), where new = "Running w slow"]) (simp_all add: idle_thread_def awake_def)
  ultimately show ?thesis by (simp add: pool_inv_def)
qed

lemma turn_waits_inv:
  assumes "pool_inv p" and "t < length (tp_threads p)" and "tp_threads p ! t = Locked" and "must_wait p"
  shows "pool_inv (set_thread t Waiting (p\<lparr>tp_idle := tp_idle p + 1\<rparr>))" (is "pool_inv ?p")
proof -
  have i: "items_ok p" "slow_ok p" "threads_ok p" using assms(1) by (simp_all add: pool_inv_def)
  have "must_wait ?p" using assms(4) by (simp add: must_wait_def)
  then have "threads_ok ?p" by (intro threads_set [OF i(3) assms(2,3), where new = Waiting]) (simp_all add: idle_thread_def)
  moreover have "running ?p = running p" using running_same [OF assms(2,3), of Waiting] by (simp add: running_def)
  then have "items_ok ?p" by (intro items_moved [OF i(1)]) simp_all
  moreover have "slow_ok ?p" using i(2) filter_update [OF assms(2,3), of slow_thread Waiting] by (auto simp: slow_ok_def)
  ultimately show ?thesis by (simp add: pool_inv_def)
qed

lemma turn_exits_inv:
  assumes "pool_inv p" and "t < length (tp_threads p)" and "tp_threads p ! t = Locked" and "may_choose s p" and "Exit_message \<in> set (tp_wq p)"
  shows "pool_inv (set_thread t Exited (uv_cond_signal s p))" (is "pool_inv ?p")
proof -
  have i: "items_ok p" "slow_ok p" "threads_ok p" using assms(1) by (simp_all add: pool_inv_def)
  let ?s = "uv_cond_signal s p"
  have ts: "t < length (tp_threads ?s)" "tp_threads ?s ! t = Locked" using assms(2,3) by (auto simp: uv_cond_signal_def nth_list_update)
  note f = filter_update [OF ts, where new = Exited]
  have "\<exists>x\<in>set (tp_threads ?p). awake x" if "Waiting \<in> set (tp_threads ?p)"
  proof -
    have "Waiting \<in> set (tp_threads p)" using that by (auto simp: uv_cond_signal_def split: if_splits dest!: set_update_other)
    then have s: "s < length (tp_threads p)" "tp_threads p ! s = Waiting" using assms(4) by (auto simp: may_choose_def)
    then have "s \<noteq> t" using assms(3) by auto
    then have "tp_threads ?p ! s = Woken" "s < length (tp_threads ?p)" using s by (simp_all add: uv_cond_signal_def)
    then show ?thesis by (intro bexI [of _ Woken]) (auto simp: awake_def in_set_conv_nth)
  qed
  then have "threads_ok ?p" using i(3) assms(5) f [where f = idle_thread] f [where f = "\<lambda>s. s = Locked"]
    by (auto simp: threads_ok_def idle_thread_def)
  moreover have "running ?p = running ?s" using running_same [OF ts, of Exited] by (simp add: running_def)
  then have "items_ok ?p" by (intro items_moved [OF i(1)]) simp_all
  moreover have "slow_ok ?p" using i(2) f [where f = slow_thread] by (auto simp: slow_ok_def)
  ultimately show ?thesis by (simp add: pool_inv_def)
qed

lemma turn_slow_inv:
  assumes "pool_inv p" and "t < length (tp_threads p)" and "tp_threads p ! t = Locked" and "may_choose s p"
    and "tp_wq p = Run_slow_work_message # q" and "Run_slow_work_message \<notin> set q"
    and "\<not> slow_work_thread_threshold p \<le> tp_slow_running p" and "tp_slow_pending p = w # ws"
  defines "p1 \<equiv> p\<lparr>tp_wq := (if ws \<noteq> [] then q @ [Run_slow_work_message] else q), tp_slow_running := tp_slow_running p + 1, tp_slow_pending := ws\<rparr>"
  shows "pool_inv (set_thread t (Running w True) (if ws \<noteq> [] \<and> 0 < tp_idle p then uv_cond_signal s p1 else p1))" (is "pool_inv (set_thread t _ ?p2)")
proof -
  have i: "items_ok p" "slow_ok p" "threads_ok p" using assms(1) by (simp_all add: pool_inv_def)
  have l: "Locked \<in> set (tp_threads p)" using assms(2,3) nth_mem by metis
  have "threads_ok p1" using assms(5) by (intro threads_wq [OF i(3) l]) (auto simp: p1_def)
  moreover have "may_choose s p1" using assms(4) by (simp add: p1_def may_choose_def)
  ultimately have t2: "threads_ok ?p2" using signal_threads by simp
  have same: "tp_threads p1 = tp_threads p" "finished p1 = finished p" "running p1 = running p" "tp_pointer p1 = tp_pointer p" "tp_runs p1 = tp_runs p"
    "slow_work_thread_threshold p1 = slow_work_thread_threshold p" "tp_slow_pending p1 = ws" "tp_slow_running p1 = tp_slow_running p + 1"
    "mset (queued p) = add_mset w (mset (queued p1))" "count_list (tp_wq p1) Run_slow_work_message \<le> 1"
    "ws \<noteq> [] \<longrightarrow> Run_slow_work_message \<in> set (tp_wq p1)"
    using assms(5,6,8) by (simp_all add: p1_def queued_def count_list_0_iff [THEN iffD2])
  have ts: "t < length (tp_threads ?p2)" "tp_threads ?p2 ! t = Locked" using assms(2,3) same(1) by (auto simp: uv_cond_signal_def nth_list_update)
  show ?thesis using i(1) t2 ts by (rule takes_inv) (use same i(2) assms(7) in \<open>auto simp: slow_ok_def\<close>)
qed

lemma turn_inv:
  assumes "pool_inv p" and "t < length (tp_threads p)" and "tp_threads p ! t = Locked" and "may_choose s p"
  shows "pool_inv (worker_turn s t p)"
proof (cases "must_wait p")
  case True
  then show ?thesis using turn_waits_inv [OF assms(1-3)] by (simp add: worker_turn_def)
next
  case False
  have i: "items_ok p" "slow_ok p" "threads_ok p" using assms(1) by (simp_all add: pool_inv_def)
  have l: "Locked \<in> set (tp_threads p)" using assms(2,3) nth_mem by metis
  obtain n q where nq: "tp_wq p = n # q" using False by (cases "tp_wq p") (auto simp: must_wait_def)
  show ?thesis
  proof (cases n)
    case Exit_message
    then show ?thesis using turn_exits_inv [OF assms] nq False by (simp add: worker_turn_def)
  next
    case (Work w)
    let ?p = "p\<lparr>tp_wq := q\<rparr>"
    have "threads_ok ?p" using nq Work by (intro threads_wq [OF i(3) l]) auto
    then have "pool_inv (set_thread t (Running w False) ?p)"
      using i(1,2) assms(2,3) nq Work by (intro takes_inv [of p]) (auto simp: queued_def slow_ok_def)
    then show ?thesis using nq Work False by (simp add: worker_turn_def)
  next
    case Run_slow_work_message
    have q: "Run_slow_work_message \<notin> set q" using i(2) nq Run_slow_work_message by (auto simp: slow_ok_def count_list_0_iff)
    have wq: "threads_ok (p\<lparr>tp_wq := q'\<rparr>)" if "set q \<subseteq> set q'" for q'
      using nq Run_slow_work_message that by (intro threads_wq [OF i(3) l]) auto
    show ?thesis
    proof (cases "slow_work_thread_threshold p \<le> tp_slow_running p")
      case True
      then have "worker_turn s t p = p\<lparr>tp_wq := q @ [Run_slow_work_message]\<rparr>" using nq Run_slow_work_message False by (simp add: worker_turn_def)
      moreover have "slow_ok (p\<lparr>tp_wq := q @ [Run_slow_work_message]\<rparr>)" using i(2) q by (auto simp: slow_ok_def count_list_0_iff [THEN iffD2])
      moreover have "items_ok (p\<lparr>tp_wq := q @ [Run_slow_work_message]\<rparr>)"
        using nq Run_slow_work_message by (intro items_moved [OF i(1)]) (simp_all add: queued_def)
      ultimately show ?thesis using wq [of "q @ [Run_slow_work_message]"] by (auto simp: pool_inv_def)
    next
      case below: False
      show ?thesis
      proof (cases "tp_slow_pending p")
        case Nil
        then have "worker_turn s t p = p\<lparr>tp_wq := q\<rparr>" using nq Run_slow_work_message False below by (simp add: worker_turn_def)
        moreover have "slow_ok (p\<lparr>tp_wq := q\<rparr>)" using i(2) q Nil by (auto simp: slow_ok_def count_list_0_iff [THEN iffD2])
        moreover have "items_ok (p\<lparr>tp_wq := q\<rparr>)" using nq Run_slow_work_message by (intro items_moved [OF i(1)]) (simp_all add: queued_def)
        ultimately show ?thesis using wq by (simp add: pool_inv_def)
      next
        case (Cons w ws)
        let ?p = "p\<lparr>tp_wq := (if ws \<noteq> [] then q @ [Run_slow_work_message] else q), tp_slow_running := tp_slow_running p + 1, tp_slow_pending := ws\<rparr>"
        have "worker_turn s t p = set_thread t (Running w True) (if ws \<noteq> [] \<and> 0 < tp_idle p then uv_cond_signal s ?p else ?p)"
          using nq Run_slow_work_message False below Cons by (simp add: worker_turn_def Let_def) (cases p, simp)
        then show ?thesis using turn_slow_inv [OF assms _ q below Cons] nq Run_slow_work_message by simp
      qed
    qed
  qed
qed

subsection \<open>The state machine\<close>

lemma pool_step_inv: "pool_step p p' \<Longrightarrow> pool_inv p \<Longrightarrow> pool_inv p'"
proof (induction rule: pool_step.induct)
  case (cancel p w r p')
  then show ?case using cancel_inv by fastforce
next
  case (report p e p')
  then show ?case using report_inv by (auto simp: work_done_next_def split: list.splits)
next
  case (runs t p w slow p')
  then show ?case using runs_inv by fastforce
qed (simp_all add: submit_inv move_inv exit_inv locks_inv turn_inv spurious_inv worker_wakes_inv)

interpretation pool: machine "\<lambda>p. \<exists>val. p = init_threads val" pool_step pool_inv
  by unfold_locales (auto intro: pool_init_inv pool_step_inv)

abbreviation pool_reachable :: "uv_pool \<Rightarrow> bool" where
  "pool_reachable \<equiv> reach (\<lambda>p. \<exists>val. p = init_threads val) pool_step"

subsection \<open>What a client sees\<close>

text \<open>Steps that move items within the pool change nothing for a client; the others change one item.\<close>

definition same_items :: "uv_pool \<Rightarrow> uv_pool \<Rightarrow> bool" where
  "same_items p p' \<longleftrightarrow> known p' = known p \<and> tp_pointer p' = tp_pointer p \<and> tp_runs p' = tp_runs p"

lemma same_itemsI:
  assumes "mset (queued p') + mset (running p') + mset (finished p') = mset (queued p) + mset (running p) + mset (finished p)"
    and "tp_pointer p' = tp_pointer p" and "tp_runs p' = tp_runs p"
  shows "same_items p p'"
proof -
  have "mset (queued p' @ running p' @ finished p') = mset (queued p @ running p @ finished p)" using assms(1) by (simp add: ac_simps)
  then have "set (queued p' @ running p' @ finished p') = set (queued p @ running p @ finished p)" by (rule mset_eq_setD)
  then show ?thesis using assms(2,3) by (auto simp: same_items_def fun_eq_iff known_places)
qed

lemma running_set_thread:
  assumes "t < length (tp_threads p)" and "tp_threads p ! t = old"
  shows "mset (running (set_thread t x p)) + mset (run_of old) = mset (running p) + mset (run_of x)"
  using running_update [OF assms, of x] by (simp add: running_def)

lemma signal_nth: "tp_threads p ! t \<noteq> Waiting \<Longrightarrow> tp_threads (uv_cond_signal s p) ! t = tp_threads p ! t"
  by (cases "t = s") (auto simp: uv_cond_signal_def)

lemma thread_same:
  assumes "t < length (tp_threads p)" and "tp_threads p ! t = old" and "run_of old = run_of x" and "queued p' = queued p" and "finished p' = finished p"
    and "tp_threads p' = (tp_threads p)[t := x]" and "tp_pointer p' = tp_pointer p" and "tp_runs p' = tp_runs p"
  shows "same_items p p'"
  using assms running_same [OF assms(1,2), of x] by (intro same_itemsI) (simp_all add: running_def)

lemma turn_same:
  assumes "t < length (tp_threads p)" and "tp_threads p ! t = Locked"
  shows "same_items p (worker_turn s t p)"
proof -
  have take: "mset (running (set_thread t (Running w slow) p')) = add_mset w (mset (running p))"
    if "length (tp_threads p') = length (tp_threads p)" "tp_threads p' ! t = Locked" "running p' = running p" for w slow p'
    using running_set_thread [of t p' Locked "Running w slow"] that assms(1) by simp
  have idle: "running (set_thread t x p') = running p"
    if "length (tp_threads p') = length (tp_threads p)" "tp_threads p' ! t = Locked" "running p' = running p" "run_of x = []" for x p'
    using running_same [of t "tp_threads p'" Locked x] that assms(1) by (simp add: running_def)
  show ?thesis
    by (rule same_itemsI)
      (auto simp: worker_turn_def Let_def take idle signal_nth assms(2) queued_def split: list.splits pool_node.splits)
qed

lemma move_same: "tp_batch p = [] \<Longrightarrow> same_items p (work_done_move p)"
  by (rule same_itemsI) (simp_all add: work_done_move_def finished_def)

lemma submit_items:
  "known (uv__work_submit s a kind p) b \<longleftrightarrow> b = a \<or> known p b"
  "tp_pointer (uv__work_submit s a kind p) = (tp_pointer p)(a := Function)" "tp_runs (uv__work_submit s a kind p) = (tp_runs p)(a := 0)"
  by (auto simp: uv__work_submit_def post_slow_def Let_def known_places set_queued)

lemma cancel_items:
  assumes "known p a" and "uv__work_cancel a p = Done (r, p')"
  shows "known p' = known p" "tp_runs p' = tp_runs p" "\<And>b. b \<noteq> a \<Longrightarrow> tp_pointer p' b = tp_pointer p b"
proof -
  have "known p' b = known p b" for b
    using assms by (auto simp: uv__work_cancel_def known_def linked_def runs_now_def split: if_splits)
  then show "known p' = known p" by blast
  show "tp_runs p' = tp_runs p" "\<And>b. b \<noteq> a \<Longrightarrow> tp_pointer p' b = tp_pointer p b" using assms(2) by (auto simp: uv__work_cancel_def c_assert_def split: if_splits)
qed

lemma runs_items:
  assumes "pool_inv p" and "t < length (tp_threads p)" and "tp_threads p ! t = Running a slow" and "worker_runs t p = Done p'"
  shows "known p' = known p" "tp_runs p a = 0" "tp_runs p' = (tp_runs p)(a := 1)" "tp_pointer p' = (tp_pointer p)(a := Null)" "known p a"
proof -
  have "runs_now p a" using assms(2,3) by (cases slow) (auto simp: runs_now_def in_set_conv_nth)
  then show a: "known p a" "tp_runs p a = 0" using assms(1) by (auto simp: known_def pool_inv_def items_ok_def set_running)
  have p': "p' = set_thread t (Entering slow)
      (p\<lparr>tp_pointer := (tp_pointer p)(a := Null), tp_loop_wq := tp_loop_wq p @ [a], tp_runs := (tp_runs p)(a := tp_runs p a + 1)\<rparr>)"
    using assms(3,4) by (auto simp: worker_runs_def c_assert_def split: if_splits)
  have "add_mset a (mset (running p')) = mset (running p)"
    using running_update [OF assms(2,3), of "Entering slow"] by (simp add: running_def p')
  then have "set_mset (add_mset a (mset (running p'))) = set_mset (mset (running p))" by simp
  then have "insert a (set (running p')) = set (running p)" by simp
  then show "known p' = known p" by (auto simp: fun_eq_iff known_places p' finished_def)
  show "tp_runs p' = (tp_runs p)(a := 1)" "tp_pointer p' = (tp_pointer p)(a := Null)" using a by (simp_all add: p')
qed

lemma report_items:
  assumes "pool_inv p" and "work_done_next p = Some ((a, status), p')"
  shows "known p' b \<longleftrightarrow> b \<noteq> a \<and> known p b" "known p a" "tp_pointer p' = tp_pointer p" "tp_runs p' = tp_runs p"
    "status = None \<and> tp_runs p a = 1 \<or> status = Some CAT_ECANCELED \<and> tp_runs p a = 0 \<and> tp_pointer p a = Uv_cancelled"
proof -
  have i: "items_ok p" using assms(1) by (simp add: pool_inv_def)
  obtain ws where b: "tp_batch p = a # ws" "p' = p\<lparr>tp_batch := ws\<rparr>" "status = (if tp_pointer p a = Uv_cancelled then Some CAT_ECANCELED else None)"
    using assms(2) by (auto simp: work_done_next_def split: list.splits)
  have a: "a \<in> set (finished p)" using b(1) by (simp add: finished_def)
  then show "status = None \<and> tp_runs p a = 1 \<or> status = Some CAT_ECANCELED \<and> tp_runs p a = 0 \<and> tp_pointer p a = Uv_cancelled"
    using i b(3) by (auto simp: items_ok_def)
  show "known p a" using a by (simp add: known_places)
  have "a \<notin> set (queued p @ running p @ tp_loop_wq p @ ws)" using i b(1) by (auto simp: items_ok_def finished_def)
  then show "known p' b \<longleftrightarrow> b \<noteq> a \<and> known p b" using b(1,2) by (auto simp: known_places finished_def)
  show "tp_pointer p' = tp_pointer p" "tp_runs p' = tp_runs p" using b(2) by simp_all
qed

subsection \<open>The threads finish the work\<close>

inductive worker_step :: "uv_pool \<Rightarrow> uv_pool \<Rightarrow> bool" where
  work_lock: "mutex_free p \<Longrightarrow> t < length (tp_threads p) \<Longrightarrow> tp_threads p ! t = Entering slow \<Longrightarrow> worker_step p (worker_locks t p)"
| work_turn: "t < length (tp_threads p) \<Longrightarrow> tp_threads p ! t = Locked \<Longrightarrow> may_choose s p \<Longrightarrow> worker_step p (worker_turn s t p)"
| work_wakes: "mutex_free p \<Longrightarrow> t < length (tp_threads p) \<Longrightarrow> tp_threads p ! t = Woken \<Longrightarrow> worker_step p (worker_wakes t p)"
| work_runs: "t < length (tp_threads p) \<Longrightarrow> tp_threads p ! t = Running w slow \<Longrightarrow> worker_runs t p = Done p' \<Longrightarrow> worker_step p p'"

lemma worker_step_pool: "worker_step p p' \<Longrightarrow> pool_step p p'"
  by (induction rule: worker_step.induct) (auto intro: pool_step.intros)

text \<open>How much the threads have left to do. A turn that moves the message to the end of the queue brings an item to its head.\<close>

fun state_load :: "worker_state \<Rightarrow> nat" where
  "state_load (Running w slow) = 6"
| "state_load (Entering slow) = 5"
| "state_load Woken = 5"
| "state_load Locked = 4"
| "state_load Waiting = 0"
| "state_load Exited = 0"

definition head_load :: "pool_node list \<Rightarrow> nat" where
  "head_load q = (case q of Run_slow_work_message # _ \<Rightarrow> 1 | _ \<Rightarrow> 0)"

definition pool_load :: "uv_pool \<Rightarrow> nat" where
  "pool_load p = 10 * length (queued p) + sum_list (map state_load (tp_threads p)) + head_load (tp_wq p)"

lemma load_update:
  assumes "t < length ts" and "ts ! t = old"
  shows "sum_list (map state_load (ts[t := new])) + state_load old = sum_list (map state_load ts) + state_load new"
  using assms
proof (induction ts arbitrary: t)
  case (Cons a ts)
  then show ?case by (cases t) auto
qed simp

lemma signal_load: "sum_list (map state_load (tp_threads (uv_cond_signal s p))) \<le> sum_list (map state_load (tp_threads p)) + 5"
  using load_update [of s "tp_threads p" Waiting Woken] by (auto simp: uv_cond_signal_def)

lemma head_load_le: "head_load q \<le> 1"
  by (auto simp: head_load_def split: list.splits pool_node.splits)

lemma turn_load:
  assumes "pool_inv p" and "t < length (tp_threads p)" and "tp_threads p ! t = Locked" and "Exit_message \<notin> set (tp_wq p)"
  shows "pool_load (worker_turn s t p) < pool_load p"
proof (cases "must_wait p")
  case True
  then show ?thesis using load_update [OF assms(2,3), of Waiting] by (simp add: worker_turn_def pool_load_def)
next
  case False
  obtain n q where nq: "tp_wq p = n # q" using False by (cases "tp_wq p") (auto simp: must_wait_def)
  have q: "Run_slow_work_message \<notin> set q" if "n = Run_slow_work_message"
    using assms(1) nq that by (auto simp: pool_inv_def slow_ok_def count_list_0_iff)
  show ?thesis
  proof (cases n)
    case Exit_message
    then show ?thesis using assms(4) nq by simp
  next
    case (Work w)
    then show ?thesis using nq False load_update [OF assms(2,3), of "Running w False"] head_load_le [of q] by (simp add: worker_turn_def pool_load_def queued_def)
  next
    case Run_slow_work_message
    have head: "head_load (q @ x) = 0" if "q \<noteq> []" for x using q that Run_slow_work_message by (cases q; cases "hd q") (auto simp: head_load_def)
    have one: "head_load (tp_wq p) = 1" using nq Run_slow_work_message by (simp add: head_load_def)
    show ?thesis
    proof (cases "slow_work_thread_threshold p \<le> tp_slow_running p")
      case True
      then have "q \<noteq> []" using False nq Run_slow_work_message by (auto simp: must_wait_def)
      then show ?thesis using nq Run_slow_work_message False True head one by (simp add: worker_turn_def pool_load_def queued_def)
    next
      case below: False
      have "head_load q = 0" using head [of "[]"] by (cases "q = []") (auto simp: head_load_def)
      then show ?thesis
      proof (cases "tp_slow_pending p")
        case Nil
        then show ?thesis using nq Run_slow_work_message False below one \<open>head_load q = 0\<close> by (simp add: worker_turn_def pool_load_def queued_def)
      next
        case (Cons w ws)
        let ?p = "p\<lparr>tp_wq := (if ws \<noteq> [] then q @ [Run_slow_work_message] else q), tp_slow_running := tp_slow_running p + 1, tp_slow_pending := ws\<rparr>"
        let ?q = "if ws \<noteq> [] \<and> 0 < tp_idle p then uv_cond_signal s ?p else ?p"
        have turn: "worker_turn s t p = set_thread t (Running w True) ?q"
          using nq Run_slow_work_message False below Cons by (simp add: worker_turn_def Let_def) (cases p, simp)
        have ts: "t < length (tp_threads ?q)" "tp_threads ?q ! t = Locked" using assms(2,3) by (auto simp: uv_cond_signal_def nth_list_update)
        have "sum_list (map state_load (tp_threads ?q)) \<le> sum_list (map state_load (tp_threads p)) + 5" using signal_load [of s ?p] by (cases "ws = []") auto
        moreover have "length (queued p) = Suc (length (queued ?q))" using nq Run_slow_work_message Cons by (simp add: queued_def)
        ultimately show ?thesis using load_update [OF ts, of "Running w True"] head_load_le [of "tp_wq ?q"]
          unfolding turn pool_load_def by simp
      qed
    qed
  qed
qed

lemma worker_step_load:
  assumes "worker_step p p'" and "pool_inv p" and "Exit_message \<notin> set (tp_wq p)"
  shows "pool_load p' < pool_load p" "Exit_message \<notin> set (tp_wq p')"
  using assms
proof (induction rule: worker_step.induct)
  case (work_lock p t slow)
  {
    case 1
    show ?case using load_update [OF work_lock(2,3), of Locked] work_lock by (simp add: worker_locks_def pool_load_def)
  next
    case 2
    then show ?case using work_lock by (simp add: worker_locks_def)
  }
next
  case (work_turn t p s)
  {
    case 1
    then show ?case using turn_load work_turn by blast
  next
    case 2
    then show ?case
      by (auto simp: worker_turn_def Let_def split: list.splits pool_node.splits if_splits)
  }
next
  case (work_wakes p t)
  {
    case 1
    show ?case using load_update [OF work_wakes(2,3), of Locked] by (simp add: worker_wakes_def pool_load_def)
  next
    case 2
    then show ?case by (simp add: worker_wakes_def)
  }
next
  case (work_runs t p w slow p')
  {
    case 1
    show ?case using load_update [OF work_runs(1,2), of "Entering slow"] work_runs(2,3)
      by (auto simp: worker_runs_def pool_load_def c_assert_def split: if_splits)
  next
    case 2
    then show ?case using work_runs(2,3) by (auto simp: worker_runs_def c_assert_def split: if_splits)
  }
qed

lemma some_awake:
  assumes "pool_inv p" and "Exit_message \<notin> set (tp_wq p)" and "queued p \<noteq> []"
  shows "\<exists>s\<in>set (tp_threads p). awake s"
proof -
  have i: "slow_ok p" "threads_ok p" using assms(1) by (simp_all add: pool_inv_def)
  show ?thesis
  proof (cases "must_wait p")
    case True
    have "tp_wq p \<noteq> []" using assms(3) i(1) by (auto simp: queued_def slow_ok_def)
    then have "slow_work_thread_threshold p \<le> length (filter slow_thread (tp_threads p))" using True i(1) by (auto simp: must_wait_def slow_ok_def)
    moreover have "0 < slow_work_thread_threshold p" using i(2) by (cases "tp_threads p") (auto simp: slow_work_thread_threshold_def threads_ok_def)
    ultimately have "filter slow_thread (tp_threads p) \<noteq> []" by auto
    then obtain x where "x \<in> set (tp_threads p)" "slow_thread x" by (auto simp: filter_empty_conv)
    then show ?thesis by (intro bexI [of _ x]) (auto simp: awake_def)
  next
    case False
    have no_exit: "Exited \<notin> set (tp_threads p)" "tp_threads p \<noteq> []" using i(2) assms(2) by (auto simp: threads_ok_def)
    show ?thesis
    proof (cases "Waiting \<in> set (tp_threads p)")
      case True
      then show ?thesis using i(2) False by (simp add: threads_ok_def)
    next
      case no_wait: False
      then show ?thesis using no_exit by (intro bexI [of _ "hd (tp_threads p)"]) (metis awake_def hd_in_set, simp)
    qed
  qed
qed

lemma awake_moves:
  assumes "pool_inv p" and "x \<in> set (tp_threads p)" and "awake x"
  shows "\<exists>p'. worker_step p p'"
proof (cases "mutex_free p")
  case False
  then obtain t where "t < length (tp_threads p)" "tp_threads p ! t = Locked" by (auto simp: mutex_free_def in_set_conv_nth)
  moreover obtain s where "may_choose s p" unfolding may_choose_def by (metis in_set_conv_nth)
  ultimately show ?thesis using work_turn by blast
next
  case True
  obtain t where t: "t < length (tp_threads p)" "tp_threads p ! t = x" using assms(2) by (auto simp: in_set_conv_nth)
  show ?thesis
  proof (cases x)
    case (Running w slow)
    then show ?thesis using runs_inv [OF assms(1)] t work_runs by metis
  next
    case Locked
    then show ?thesis using True assms(2) by (simp add: mutex_free_def)
  next
    case (Entering slow)
    then show ?thesis using t True work_lock by blast
  next
    case Woken
    then show ?thesis using t True work_wakes by blast
  qed (use assms(3) in \<open>auto simp: awake_def\<close>)
qed

text \<open>The threads neither lose an item nor cancel one.\<close>

lemma worker_step_items:
  assumes "worker_step p p'" and "pool_inv p"
  shows "known p' = known p \<and> (\<forall>w. tp_pointer p' w = Uv_cancelled \<longrightarrow> tp_pointer p w = Uv_cancelled)"
  using assms
proof (induction rule: worker_step.induct)
  case (work_lock p t slow)
  then have "same_items p (worker_locks t p)" by (intro thread_same [of t p "Entering slow" Locked]) (simp_all add: worker_locks_def)
  then show ?case by (simp add: same_items_def)
next
  case (work_turn t p s)
  then show ?case using turn_same [of t p s] by (simp add: same_items_def)
next
  case (work_wakes p t)
  then have "same_items p (worker_wakes t p)" by (intro thread_same [of t p Woken Locked]) (simp_all add: worker_wakes_def)
  then show ?case by (simp add: same_items_def)
next
  case (work_runs t p w slow p')
  then show ?case using runs_items [of p t w slow p'] by auto
qed

text \<open>C18: The threads finish the work. As long as the message that ends the threads has not been posted, whatever the threads do and in whatever
  order, after a number of steps that the load bounds there is nothing left for them; then every item that was queued or running has run exactly
  once and is with the loop, and no item is queued or running. No signal is lost.\<close>

theorem pool_finishes:
  assumes "pool_reachable p" and "Exit_message \<notin> set (tp_wq p)" and "(worker_step ^^ n) p p'"
  shows "n \<le> pool_load p \<and> ((\<nexists>p''. worker_step p' p'') \<longrightarrow> queued p' = [] \<and> running p' = [] \<and>
    (\<forall>w\<in>set (queued p @ running p). w \<in> set (finished p') \<and> tp_pointer p' w = Null \<and> tp_runs p' w = 1))"
proof -
  have "pool_inv p' \<and> Exit_message \<notin> set (tp_wq p') \<and> n + pool_load p' \<le> pool_load p \<and> known p' = known p \<and>
      (\<forall>w. tp_pointer p' w = Uv_cancelled \<longrightarrow> tp_pointer p w = Uv_cancelled)" using assms(3)
  proof (induction n arbitrary: p')
    case 0
    then show ?case using assms(2) pool.reach_inv [OF assms(1)] by simp
  next
    case (Suc n)
    then obtain p1 where p1: "(worker_step ^^ n) p p1" "worker_step p1 p'" by auto
    note IH = Suc.IH [OF p1(1)]
    then show ?case using worker_step_load [OF p1(2)] pool_step_inv [OF worker_step_pool [OF p1(2)]] worker_step_items [OF p1(2)] by fastforce
  qed
  then have inv: "pool_inv p'" "Exit_message \<notin> set (tp_wq p')" "n \<le> pool_load p"
    and items: "known p' = known p" "\<And>w. tp_pointer p' w = Uv_cancelled \<Longrightarrow> tp_pointer p w = Uv_cancelled" by auto
  have "queued p' = [] \<and> running p' = [] \<and> (\<forall>w\<in>set (queued p @ running p). w \<in> set (finished p') \<and> tp_pointer p' w = Null \<and> tp_runs p' w = 1)"
    if stuck: "\<nexists>p''. worker_step p' p''"
  proof -
    have none: "queued p' = []" using some_awake [OF inv(1,2)] awake_moves [OF inv(1)] stuck by blast
    have "w \<notin> set (running p')" for w
    proof
      assume "w \<in> set (running p')"
      then obtain slow where "Running w slow \<in> set (tp_threads p')" by (auto simp: set_running runs_now_def)
      then show False using awake_moves [OF inv(1)] stuck by (auto simp: awake_def)
    qed
    then have idle: "running p' = []" by (cases "running p'") auto
    have "w \<in> set (finished p') \<and> tp_pointer p' w = Null \<and> tp_runs p' w = 1" if w: "w \<in> set (queued p @ running p)" for w
    proof -
      have "tp_pointer p w = Function" using pool.reach_inv [OF assms(1)] w by (auto simp: pool_inv_def items_ok_def)
      then have "tp_pointer p' w \<noteq> Uv_cancelled" using items(2) by fastforce
      moreover have "known p w" using w by (auto simp: known_places)
      then have "known p' w" using items(1) by simp
      then have "w \<in> set (finished p')" using none idle by (simp add: known_places)
      ultimately show ?thesis using inv(1) by (auto simp: pool_inv_def items_ok_def)
    qed
    then show ?thesis using none idle by blast
  qed
  then show ?thesis using inv(3) by blast
qed

text \<open>C20: Slow work leaves threads for the rest. In every reachable state at most half of the threads, rounded up, run slow items, and the counter
  of the pool says how many do or have not yet counted themselves off.\<close>

theorem slow_work_share:
  assumes "pool_reachable p"
  shows "length (filter (\<lambda>x. \<exists>w. x = Running w True) (tp_threads p)) \<le> (length (tp_threads p) + 1) div 2 \<and>
    tp_slow_running p = length (filter slow_thread (tp_threads p)) \<and> tp_idle p = length (filter idle_thread (tp_threads p))"
proof -
  have inv: "slow_ok p" "threads_ok p" using pool.reach_inv [OF assms] by (simp_all add: pool_inv_def)
  have "length (filter (\<lambda>x. \<exists>w. x = Running w True) ts) \<le> length (filter slow_thread ts)" for ts by (induction ts) auto
  from this [of "tp_threads p"] show ?thesis using inv by (simp add: slow_ok_def threads_ok_def slow_work_thread_threshold_def)
qed

text \<open>C19: An item runs once. When the loop calls the callback of an item, with the status \<^verbatim>\<open>0\<close> the function of the item has run exactly once since
  it was submitted, with \<^verbatim>\<open>UV_ECANCELED\<close> it has not run; no thread has the item and it is in no queue any more, so that it can be submitted
  again or freed.\<close>

theorem work_reported_once:
  assumes "pool_reachable p" and "work_done_next p = Some ((w, status), p')"
  shows "\<not> known p' w \<and> (status = None \<and> tp_runs p' w = 1 \<or> status = Some CAT_ECANCELED \<and> tp_runs p' w = 0)"
proof -
  have i: "items_ok p" using pool.reach_inv [OF assms(1)] by (simp add: pool_inv_def)
  obtain ws where b: "tp_batch p = w # ws" "p' = p\<lparr>tp_batch := ws\<rparr>" "status = (if tp_pointer p w = Uv_cancelled then Some CAT_ECANCELED else None)"
    using assms(2) by (auto simp: work_done_next_def split: list.splits)
  have "w \<in> set (finished p)" using b(1) by (simp add: finished_def)
  then have "tp_pointer p w = Null \<and> tp_runs p w = 1 \<or> tp_pointer p w = Uv_cancelled \<and> tp_runs p w = 0" using i by (simp add: items_ok_def)
  moreover have "w \<notin> set (queued p' @ running p' @ finished p')" using i b(1,2) by (auto simp: items_ok_def finished_def)
  ultimately show ?thesis using b(2,3) known_places by auto
qed

text \<open>Cancelling succeeds exactly for an item that no thread has taken, and nothing but the item is affected.\<close>

theorem cancel_queued:
  assumes "pool_reachable p" and "known p w" and "tp_pointer p w \<noteq> Uv_cancelled"
  shows "\<exists>p'. uv__work_cancel w p = Done (w \<in> set (queued p), p') \<and> pool_inv p' \<and>
    set (queued p') = set (queued p) - {w} \<and> running p' = running p \<and> (w \<in> set (queued p) \<longrightarrow> w \<in> set (finished p') \<and> tp_pointer p' w = Uv_cancelled)"
proof -
  have i: "items_ok p" using pool.reach_inv [OF assms(1)] by (simp add: pool_inv_def)
  have places: "w \<in> set (queued p @ running p @ finished p)" using assms(2) known_places by blast
  obtain r p' where p': "uv__work_cancel w p = Done (r, p')" "pool_inv p'" using cancel_inv [OF pool.reach_inv [OF assms(1)] assms(2)] by blast
  show ?thesis
  proof (cases "w \<in> set (queued p)")
    case True
    then have "\<not> (runs_now p w \<or> tp_pointer p w = Null)" using i by (auto simp: items_ok_def set_running [symmetric])
    then have e: "r" "p' = p\<lparr>tp_wq := remove1 (Work w) (tp_wq p), tp_slow_pending := remove1 w (tp_slow_pending p), tp_batch := remove1 w (tp_batch p),
        tp_pointer := (tp_pointer p)(w := Uv_cancelled), tp_loop_wq := remove1 w (tp_loop_wq p) @ [w]\<rparr>"
      using p'(1) assms(2) by (auto simp: uv__work_cancel_def known_def)
    have "queued p' = remove1 w (concat (map node_work (tp_wq p))) @ remove1 w (tp_slow_pending p)"
      by (simp add: e(2) queued_def works_remove1)
    moreover have "distinct (queued p)" using i by (simp add: items_ok_def)
    ultimately have "set (queued p') = set (queued p) - {w}" by (auto simp: queued_def set_remove1_eq)
    then show ?thesis using p' e True by (simp add: finished_def)
  next
    case False
    then have "runs_now p w \<or> tp_pointer p w = Null" using i places assms(3) by (auto simp: items_ok_def set_running)
    then show ?thesis using p' False by (auto simp: uv__work_cancel_def)
  qed
qed

text \<open>The loop of a worker gives the mutex back: it holds it for at most two turns, whatever is in the queue.\<close>

theorem worker_releases_mutex:
  assumes "pool_reachable p" and "t < length (tp_threads p)" and "tp_threads p ! t = Locked" and "tp_threads (worker_turn s t p) ! t = Locked"
  shows "tp_threads (worker_turn s' t (worker_turn s t p)) ! t \<noteq> Locked"
proof -
  have inv: "slow_ok p" using pool.reach_inv [OF assms(1)] by (simp add: pool_inv_def)
  have set: "tp_threads (set_thread t x q) ! t = x" if "length (tp_threads q) = length (tp_threads p)" for x q using that assms(2) by simp
  have nil: "must_wait p" if "tp_wq p = []" using that by (simp add: must_wait_def)
  have rest: "\<not> must_wait p" "\<exists>q. tp_wq p = Run_slow_work_message # q"
    using assms(4) set nil by (auto simp: worker_turn_def Let_def split: if_splits list.splits pool_node.splits)
  then obtain q where q: "tp_wq p = Run_slow_work_message # q" by blast
  then have no: "Run_slow_work_message \<notin> set q" using inv by (auto simp: slow_ok_def count_list_0_iff)
  have two: "worker_turn s t p = p\<lparr>tp_wq := q @ [Run_slow_work_message]\<rparr> \<and> q \<noteq> [] \<or> worker_turn s t p = p\<lparr>tp_wq := q\<rparr>"
    using assms(4) set rest(1) q by (auto simp: worker_turn_def must_wait_def Let_def split: if_splits list.splits)
  have second: "tp_threads (worker_turn s' t p1) ! t \<noteq> Locked"
    if "tp_threads p1 = tp_threads p" "\<not> must_wait p1 \<Longrightarrow> hd (tp_wq p1) \<noteq> Run_slow_work_message" for p1
    using that assms(2) by (auto simp: worker_turn_def must_wait_def split: list.splits pool_node.splits)
  from two show ?thesis
  proof
    assume "worker_turn s t p = p\<lparr>tp_wq := q @ [Run_slow_work_message]\<rparr> \<and> q \<noteq> []"
    then show ?thesis using second [of "p\<lparr>tp_wq := q @ [Run_slow_work_message]\<rparr>"] no by (cases q) auto
  next
    assume "worker_turn s t p = p\<lparr>tp_wq := q\<rparr>"
    then show ?thesis using second [of "p\<lparr>tp_wq := q\<rparr>"] no by (cases q) (auto simp: must_wait_def)
  qed
qed

subsection \<open>Examples\<close>

text \<open>Scripts of steps; \<open>None\<close> if a step is not possible.\<close>

datatype pool_call = P_submit addr uv__work_kind | P_cancel addr | P_lock nat | P_turn nat nat | P_wake nat | P_run nat | P_move | P_report

definition pool_do :: "pool_call \<Rightarrow> uv_pool \<Rightarrow> uv_pool option" where
  "pool_do c p =
     (case c of
        P_submit w kind \<Rightarrow> if mutex_free p \<and> \<not> known p w \<and> Waiting \<notin> set (tp_threads p) then Some (uv__work_submit 0 w kind p) else None
      | P_cancel w \<Rightarrow> if mutex_free p \<and> known p w then (case uv__work_cancel w p of Done (r, p) \<Rightarrow> Some p | _ \<Rightarrow> None) else None
      | P_lock t \<Rightarrow> if mutex_free p \<and> t < length (tp_threads p) \<and> tp_threads p ! t \<in> {Entering True, Entering False} then Some (worker_locks t p) else None
      | P_turn s t \<Rightarrow> if t < length (tp_threads p) \<and> tp_threads p ! t = Locked \<and> may_choose s p then Some (worker_turn s t p) else None
      | P_wake t \<Rightarrow> if mutex_free p \<and> t < length (tp_threads p) \<and> tp_threads p ! t = Woken then Some (worker_wakes t p) else None
      | P_run t \<Rightarrow> if t < length (tp_threads p) \<and> run_of (tp_threads p ! t) \<noteq> []
                  then (case worker_runs t p of Done p \<Rightarrow> Some p | _ \<Rightarrow> None) else None
      | P_move \<Rightarrow> if tp_batch p = [] then Some (work_done_move p) else None
      | P_report \<Rightarrow> map_option snd (work_done_next p))"

fun pool_run :: "pool_call list \<Rightarrow> uv_pool \<Rightarrow> uv_pool option" where
  "pool_run [] p = Some p"
| "pool_run (c # cs) p = (case pool_do c p of None \<Rightarrow> None | Some p \<Rightarrow> pool_run cs p)"

lemma run_of_Running: "run_of x \<noteq> [] \<Longrightarrow> \<exists>w slow. x = Running w slow"
  by (cases x) auto

lemma pool_do_step: "pool_do c p = Some p' \<Longrightarrow> pool_step p p'"
  by (auto simp: pool_do_def may_choose_def intro: pool_step.intros dest!: run_of_Running split: pool_call.splits if_splits c_run.splits)

lemma pool_run_reach: "pool_reachable p \<Longrightarrow> pool_run cs p = Some p' \<Longrightarrow> pool_reachable p'"
proof (induction cs arbitrary: p)
  case (Cons c cs)
  then obtain p1 where p1: "pool_do c p = Some p1" "pool_run cs p1 = Some p'" by (auto split: option.splits)
  then have "pool_reachable p1" using Cons.prems(1) pool_do_step reach_step by metis
  then show ?case using Cons.IH p1(2) by blast
qed simp

lemma pool_run_example:
  assumes "case pool_run cs (init_threads val) of Some p \<Rightarrow> P p | None \<Rightarrow> False"
  obtains p where "pool_reachable p" "P p"
proof -
  have "pool_reachable (init_threads val)" by (rule reach_start) blast
  then show thesis using assms that pool_run_reach by (auto split: option.splits)
qed

theorem pool_finishes_witness:
  "\<exists>p n p'. pool_reachable p \<and> queued p = [7, 8] \<and> (worker_step ^^ n) p p' \<and> (\<nexists>p''. worker_step p' p'') \<and> queued p' = [] \<and>
    {7, 8} \<subseteq> set (finished p') \<and> tp_runs p' 7 = 1 \<and> tp_runs p' 8 = 1"
proof (rule pool_run_example)
  show "case pool_run [P_submit 7 UV__WORK_CPU, P_submit 8 UV__WORK_SLOW_IO] (init_threads (Some 2)) of
      Some p \<Rightarrow> queued p = [7, 8] \<and> Exit_message \<notin> set (tp_wq p) | None \<Rightarrow> False" by code_simp
next
  fix p
  assume p: "pool_reachable p" "queued p = [7, 8] \<and> Exit_message \<notin> set (tp_wq p)"
  let ?N = "{n. \<exists>p'. (worker_step ^^ n) p p'}"
  have "?N \<subseteq> {..pool_load p}" using pool_finishes [of p] p by blast
  then have fin: "finite ?N" using finite_subset by blast
  moreover have "(worker_step ^^ 0) p p" by simp
  then have "?N \<noteq> {}" by blast
  ultimately have "Max ?N \<in> ?N" by (rule Max_in)
  then obtain p' where p': "(worker_step ^^ Max ?N) p p'" by blast
  have "\<nexists>p''. worker_step p' p''"
  proof
    assume "\<exists>p''. worker_step p' p''"
    then have "Suc (Max ?N) \<in> ?N" using p' by auto
    then show False using Max_ge [OF fin] by fastforce
  qed
  then show ?thesis using pool_finishes [OF p(1) _ p'] p p' by fastforce
qed

theorem slow_work_share_witness:
  "\<exists>p. pool_reachable p \<and> tp_threads p = [Running 7 True, Locked] \<and> tp_slow_pending p = [8] \<and> tp_slow_running p = length (filter slow_thread (tp_threads p))"
proof (rule pool_run_example)
  show "case pool_run [P_submit 7 UV__WORK_SLOW_IO, P_submit 8 UV__WORK_SLOW_IO, P_lock 0, P_turn 0 0, P_lock 1] (init_threads (Some 2)) of
      Some p \<Rightarrow> tp_threads p = [Running 7 True, Locked] \<and> tp_slow_pending p = [8] | None \<Rightarrow> False" by code_simp
qed (use slow_work_share in blast)

theorem work_reported_once_witness:
  "\<exists>p p'. pool_reachable p \<and> work_done_next p = Some ((8, Some CAT_ECANCELED), p') \<and> \<not> known p' 8 \<and> tp_runs p' 8 = 0"
proof (rule pool_run_example)
  show "case pool_run [P_submit 8 UV__WORK_SLOW_IO, P_submit 7 UV__WORK_CPU, P_cancel 8, P_lock 0, P_turn 0 0, P_turn 0 0, P_run 0, P_move] (init_threads None) of
      Some p \<Rightarrow> map_option fst (work_done_next p) = Some (8, Some CAT_ECANCELED) | None \<Rightarrow> False" by code_simp
qed (use work_reported_once in fastforce)

theorem worker_releases_mutex_witness:
  "\<exists>p. pool_reachable p \<and> tp_threads (worker_turn 0 0 p) ! 0 = Locked \<and> tp_threads (worker_turn 0 0 (worker_turn 0 0 p)) ! 0 \<noteq> Locked"
proof (rule pool_run_example)
  show "case pool_run [P_submit 8 UV__WORK_SLOW_IO, P_submit 7 UV__WORK_CPU, P_cancel 8, P_lock 0] (init_threads None) of
      Some p \<Rightarrow> 0 < length (tp_threads p) \<and> tp_threads p ! 0 = Locked \<and> tp_threads (worker_turn 0 0 p) ! 0 = Locked | None \<Rightarrow> False" by code_simp
qed (use worker_releases_mutex in blast)

theorem cancel_queued_witness:
  "\<exists>p p'. pool_reachable p \<and> uv__work_cancel 8 p = Done (True, p') \<and> tp_pointer p' 8 = Uv_cancelled"
proof (rule pool_run_example)
  show "case pool_run [P_submit 8 UV__WORK_SLOW_IO] (init_threads None) of
      Some p \<Rightarrow> known p 8 \<and> tp_pointer p 8 \<noteq> Uv_cancelled \<and> 8 \<in> set (queued p) | None \<Rightarrow> False" by code_simp
qed (use cancel_queued [where w = 8] in fastforce)

end
