(* ===== verification/Cat_Work.thy ===== *)
theory Cat_Work
  imports Uv_Threadpool
begin

text \<open>
  Work for the thread pool, \<^verbatim>\<open>src/cat_work.c\<close>, on the pool of \<open>Uv_Threadpool\<close>. The context of a call lies in one block with the
  item it submits, so both have one address. A coroutine that waits is a frame; the callback of the loop resumes it and goes
  on when it gives control back, which is what the stack is for. Using a context that was freed is \<open>Undefined\<close>.

  The lemmas show that no call and no callback goes wrong, that each item lives as it should (its function runs at most once,
  its cleanup is called exactly once and behind the function, and then it is freed), and that a call returns success only
  when its function has run.
\<close>

subsection \<open>State\<close>

record cat_work_context_t =
  wc_cleanup :: bool
  wc_coroutine :: "nat option"
  wc_status :: "cat_errno option"

text \<open>What happens to an item.\<close>

datatype work_event = Submitted bool | Function_runs | Cleanup_called | Context_freed

record work_world =
  ww_pool :: uv_pool
  ww_contexts :: "addr \<Rightarrow> cat_work_context_t option"
  ww_frames :: "nat \<Rightarrow> addr option"
  ww_results :: "nat \<Rightarrow> cat_errno option option"
  ww_stack :: "addr list"
  ww_history :: "addr \<Rightarrow> work_event list"

definition note_event :: "addr \<Rightarrow> work_event \<Rightarrow> work_world \<Rightarrow> work_world" where
  "note_event a e w = w\<lparr>ww_history := (ww_history w)(a := ww_history w a @ [e])\<rparr>"

definition context_at :: "work_world \<Rightarrow> addr \<Rightarrow> cat_work_context_t c_run" where
  "context_at w a = (case ww_contexts w a of Some c \<Rightarrow> Done c | None \<Rightarrow> Undefined)"

definition put_context :: "addr \<Rightarrow> cat_work_context_t \<Rightarrow> work_world \<Rightarrow> work_world" where
  "put_context a c w = w\<lparr>ww_contexts := (ww_contexts w)(a := Some c)\<rparr>"

subsection \<open>The call\<close>

text \<open>\<^verbatim>\<open>cat_work\<close> up to the wait: \<open>fresh\<close> is the block of the context, \<open>s\<close> the thread that a signal wakes.\<close>

definition cat_work :: "nat \<Rightarrow> addr \<Rightarrow> uv__work_kind \<Rightarrow> bool \<Rightarrow> nat \<Rightarrow> work_world \<Rightarrow> work_world" where
  "cat_work s fresh kind cleanup co w =
     (let w = w\<lparr>ww_pool := uv__work_submit s fresh kind (ww_pool w)\<rparr>;
          w = put_context fresh \<lparr>wc_cleanup = cleanup, wc_coroutine = Some co, wc_status = Some CAT_ECANCELED\<rparr> w
      in note_event fresh (Submitted cleanup) (w\<lparr>ww_frames := (ww_frames w)(co := Some fresh)\<rparr>))"

definition work_returns :: "nat \<Rightarrow> cat_errno option \<Rightarrow> work_world \<Rightarrow> work_world" where
  "work_returns co r w = w\<lparr>ww_frames := (ww_frames w)(co := None), ww_results := (ww_results w)(co := Some r)\<rparr>"

text \<open>The rest of it; \<open>failed\<close> is the error of the wait.\<close>

definition work_return :: "nat \<Rightarrow> cat_errno option \<Rightarrow> work_world \<Rightarrow> work_world c_run" where
  "work_return co failed w =
     (case ww_frames w co of
        None \<Rightarrow> Undefined
      | Some a \<Rightarrow>
          c_bind (context_at w a) (\<lambda>c.
            let w = put_context a (c\<lparr>wc_coroutine := None\<rparr>) w
            in case failed of
                 Some e \<Rightarrow> c_bind (uv__work_cancel a (ww_pool w)) (\<lambda>(r, p). Done (work_returns co (Some e) (w\<lparr>ww_pool := p\<rparr>)))
               | None \<Rightarrow> Done (work_returns co (wc_status c) w)))"

subsection \<open>The callbacks\<close>

text \<open>\<^verbatim>\<open>cat_work_callback\<close>, in the thread \<open>t\<close>.\<close>

definition cat_work_callback :: "nat \<Rightarrow> work_world \<Rightarrow> work_world c_run" where
  "cat_work_callback t w =
     (case tp_threads (ww_pool w) ! t of
        Running a slow \<Rightarrow>
          c_bind (context_at w a) (\<lambda>c.
          c_bind (worker_runs t (ww_pool w)) (\<lambda>p. Done (note_event a Function_runs (w\<lparr>ww_pool := p\<rparr>))))
      | _ \<Rightarrow> Undefined)"

definition cat_work_after_done :: "addr \<Rightarrow> cat_errno option \<Rightarrow> work_world \<Rightarrow> work_world c_run" where
  "cat_work_after_done a status w =
     c_bind (context_at w a) (\<lambda>c.
       let w = w\<lparr>ww_stack := a # ww_stack w\<rparr>
       in case wc_coroutine c of
            Some co \<Rightarrow> work_return co None (put_context a (c\<lparr>wc_status := status\<rparr>) w)
          | None \<Rightarrow> Done w)"

definition after_done_end :: "addr \<Rightarrow> work_world \<Rightarrow> work_world c_run" where
  "after_done_end a w =
     c_bind (context_at w a) (\<lambda>c.
       let w = (if wc_cleanup c then note_event a Cleanup_called w else w)
       in Done (note_event a Context_freed (w\<lparr>ww_contexts := (ww_contexts w)(a := None)\<rparr>)))"

subsection \<open>Steps\<close>

text \<open>The loop calls the callback of one item after the other when it has control. A call that submits or cancels waits for the mutex of
  the pool.\<close>

inductive work_step :: "work_world \<Rightarrow> work_world \<Rightarrow> bool" where
  call: "mutex_free (ww_pool w) \<Longrightarrow> may_choose s (ww_pool w) \<Longrightarrow> ww_frames w co = None \<Longrightarrow> ww_contexts w fresh = None \<Longrightarrow>
    work_step w (cat_work s fresh kind cleanup co w)"
| resume: "ww_frames w co = Some a \<Longrightarrow> failed \<noteq> None \<longrightarrow> mutex_free (ww_pool w) \<Longrightarrow> work_return co failed w = Done w' \<Longrightarrow> work_step w w'"
| thread_lock: "mutex_free (ww_pool w) \<Longrightarrow> t < length (tp_threads (ww_pool w)) \<Longrightarrow> tp_threads (ww_pool w) ! t = Entering slow \<Longrightarrow>
    work_step w (w\<lparr>ww_pool := worker_locks t (ww_pool w)\<rparr>)"
| thread_turn: "t < length (tp_threads (ww_pool w)) \<Longrightarrow> tp_threads (ww_pool w) ! t = Locked \<Longrightarrow> may_choose s (ww_pool w) \<Longrightarrow>
    work_step w (w\<lparr>ww_pool := worker_turn s t (ww_pool w)\<rparr>)"
| thread_spurious: "t < length (tp_threads (ww_pool w)) \<Longrightarrow> tp_threads (ww_pool w) ! t = Waiting \<Longrightarrow>
    work_step w (w\<lparr>ww_pool := set_thread t Woken (ww_pool w)\<rparr>)"
| thread_wakes: "mutex_free (ww_pool w) \<Longrightarrow> t < length (tp_threads (ww_pool w)) \<Longrightarrow> tp_threads (ww_pool w) ! t = Woken \<Longrightarrow>
    work_step w (w\<lparr>ww_pool := worker_wakes t (ww_pool w)\<rparr>)"
| thread_runs: "t < length (tp_threads (ww_pool w)) \<Longrightarrow> tp_threads (ww_pool w) ! t = Running a slow \<Longrightarrow> cat_work_callback t w = Done w' \<Longrightarrow>
    work_step w w'"
| done_move: "ww_stack w = [] \<Longrightarrow> tp_batch (ww_pool w) = [] \<Longrightarrow> work_step w (w\<lparr>ww_pool := work_done_move (ww_pool w)\<rparr>)"
| done_next: "ww_stack w = [] \<Longrightarrow> work_done_next (ww_pool w) = Some ((a, status), p) \<Longrightarrow>
    cat_work_after_done a status (w\<lparr>ww_pool := p\<rparr>) = Done w' \<Longrightarrow> work_step w w'"
| done_end: "ww_stack w = a # st \<Longrightarrow> after_done_end a (w\<lparr>ww_stack := st\<rparr>) = Done w' \<Longrightarrow> work_step w w'"

definition work_start :: "work_world \<Rightarrow> bool" where
  "work_start w \<longleftrightarrow> (\<exists>val. ww_pool w = init_threads val) \<and> ww_contexts w = (\<lambda>_. None) \<and> ww_frames w = (\<lambda>_. None) \<and> ww_stack w = [] \<and>
     ww_history w = (\<lambda>_. [])"

subsection \<open>The life of an item\<close>

text \<open>Specification: an item is submitted, its function runs at most once, its cleanup, if it has one, is called once and behind the
  function, and then its context is freed.\<close>

datatype work_life = Dead | Live bool bool | Cleaned

fun life_step :: "work_life \<Rightarrow> work_event \<Rightarrow> work_life option" where
  "life_step Dead (Submitted c) = Some (Live c False)"
| "life_step (Live c False) Function_runs = Some (Live c True)"
| "life_step (Live True r) Cleanup_called = Some Cleaned"
| "life_step (Live False r) Context_freed = Some Dead"
| "life_step Cleaned Context_freed = Some Dead"
| "life_step l e = None"

fun life_run :: "work_life \<Rightarrow> work_event list \<Rightarrow> work_life option" where
  "life_run l [] = Some l"
| "life_run l (e # es) = Option.bind (life_step l e) (\<lambda>l. life_run l es)"

lemma life_run_append: "life_run l (es @ es') = Option.bind (life_run l es) (\<lambda>l. life_run l es')"
  by (induction es arbitrary: l) (auto simp: bind_eq_None_conv split: Option.bind_split)

lemma life_ran: "life_run l es = Some (Live b True) \<Longrightarrow> Function_runs \<in> set es \<or> (\<exists>c. l = Live c True)"
proof (induction es arbitrary: l)
  case (Cons e es)
  then obtain l' where l': "life_step l e = Some l'" "life_run l' es = Some (Live b True)" by (auto simp: bind_eq_Some_conv)
  then show ?case using Cons.IH [OF l'(2)] by (cases "(l, e)" rule: life_step.cases) auto
qed simp

definition life_of :: "work_world \<Rightarrow> addr \<Rightarrow> work_life" where
  "life_of w a = (case ww_contexts w a of None \<Rightarrow> Dead | Some c \<Rightarrow> Live (wc_cleanup c) (tp_runs (ww_pool w) a = 1))"

subsection \<open>Invariant\<close>

definition work_inv :: "work_world \<Rightarrow> bool" where
  "work_inv w \<longleftrightarrow> pool_inv (ww_pool w) \<and>
     (\<forall>a. known (ww_pool w) a \<longleftrightarrow> ww_contexts w a \<noteq> None \<and> a \<notin> set (ww_stack w)) \<and>
     (\<forall>co a. ww_frames w co = Some a \<longleftrightarrow> (\<exists>c. ww_contexts w a = Some c \<and> wc_coroutine c = Some co)) \<and>
     length (ww_stack w) \<le> 1 \<and> (\<forall>a\<in>set (ww_stack w). \<exists>c. ww_contexts w a = Some c \<and> wc_coroutine c = None) \<and>
     (\<forall>a c. ww_contexts w a = Some c \<and> wc_coroutine c \<noteq> None \<longrightarrow> tp_pointer (ww_pool w) a \<noteq> Uv_cancelled \<and> wc_status c = Some CAT_ECANCELED) \<and>
     (\<forall>a. life_run Dead (ww_history w a) = Some (life_of w a))"

lemma work_invD:
  assumes "work_inv w"
  shows "pool_inv (ww_pool w)" "known (ww_pool w) a \<longleftrightarrow> ww_contexts w a \<noteq> None \<and> a \<notin> set (ww_stack w)"
    "ww_frames w co = Some a \<longleftrightarrow> (\<exists>c. ww_contexts w a = Some c \<and> wc_coroutine c = Some co)" "length (ww_stack w) \<le> 1"
    "a \<in> set (ww_stack w) \<Longrightarrow> \<exists>c. ww_contexts w a = Some c \<and> wc_coroutine c = None"
    "ww_contexts w a = Some c \<Longrightarrow> wc_coroutine c \<noteq> None \<Longrightarrow> tp_pointer (ww_pool w) a \<noteq> Uv_cancelled \<and> wc_status c = Some CAT_ECANCELED"
    "life_run Dead (ww_history w a) = Some (life_of w a)"
  using assms unfolding work_inv_def by blast+

lemma work_invI:
  assumes "pool_inv (ww_pool w)" and "\<And>a. known (ww_pool w) a \<longleftrightarrow> ww_contexts w a \<noteq> None \<and> a \<notin> set (ww_stack w)"
    and "\<And>co a. ww_frames w co = Some a \<longleftrightarrow> (\<exists>c. ww_contexts w a = Some c \<and> wc_coroutine c = Some co)"
    and "length (ww_stack w) \<le> 1" and "\<And>a. a \<in> set (ww_stack w) \<Longrightarrow> \<exists>c. ww_contexts w a = Some c \<and> wc_coroutine c = None"
    and "\<And>a c. ww_contexts w a = Some c \<Longrightarrow> wc_coroutine c \<noteq> None \<Longrightarrow> tp_pointer (ww_pool w) a \<noteq> Uv_cancelled \<and> wc_status c = Some CAT_ECANCELED"
    and "\<And>a. life_run Dead (ww_history w a) = Some (life_of w a)"
  shows "work_inv w"
  using assms unfolding work_inv_def by blast

lemma work_start_inv: "work_start w \<Longrightarrow> work_inv w"
proof -
  assume w: "work_start w"
  then obtain val where val: "ww_pool w = init_threads val" by (auto simp: work_start_def)
  have "\<not> known (init_threads val) a" for a by (auto simp: known_def linked_def runs_now_def init_threads_def)
  then show ?thesis using w val pool_init_inv by (auto simp: work_start_def work_inv_def life_of_def)
qed

text \<open>Steps inside the pool.\<close>

lemma inner_inv:
  assumes "work_inv w" and "pool_inv p" and "same_items (ww_pool w) p"
  shows "work_inv (w\<lparr>ww_pool := p\<rparr>)"
proof -
  have "life_of (w\<lparr>ww_pool := p\<rparr>) = life_of w" using assms(3) by (simp add: life_of_def fun_eq_iff same_items_def cong: option.case_cong)
  moreover have "known p = known (ww_pool w)" "tp_pointer p = tp_pointer (ww_pool w)" using assms(3) by (simp_all add: same_items_def)
  ultimately show ?thesis using assms(2) work_invD [OF assms(1)] by (intro work_invI) simp_all
qed

lemma call_inv:
  assumes "work_inv w" and "may_choose s (ww_pool w)" and "ww_frames w co = None" and "ww_contexts w fresh = None"
  shows "work_inv (cat_work s fresh kind cleanup co w)" (is "work_inv ?w")
proof -
  note i = work_invD [OF assms(1)]
  have new: "\<not> known (ww_pool w) fresh" "fresh \<notin> set (ww_stack w)" using i(2) [of fresh] i(5) [of fresh] assms(4) by auto
  have dead: "life_run Dead (ww_history w fresh) = Some Dead" using i(7) [of fresh] assms(4) by (simp add: life_of_def)
  have w: "ww_pool ?w = uv__work_submit s fresh kind (ww_pool w)" "ww_stack ?w = ww_stack w" "ww_frames ?w = (ww_frames w)(co := Some fresh)"
    "ww_contexts ?w = (ww_contexts w)(fresh := Some \<lparr>wc_cleanup = cleanup, wc_coroutine = Some co, wc_status = Some CAT_ECANCELED\<rparr>)"
    "ww_history ?w = (ww_history w)(fresh := ww_history w fresh @ [Submitted cleanup])"
    by (simp_all add: cat_work_def put_context_def note_event_def Let_def)
  have frames: "wc_coroutine c \<noteq> Some co" if "ww_contexts w a = Some c" for a c using i(3) [of co a] that assms(3) by auto
  have "pool_inv (ww_pool ?w)" using submit_inv i(1) new(1) assms(2) w(1) by simp
  moreover have "known (ww_pool ?w) a \<longleftrightarrow> ww_contexts ?w a \<noteq> None \<and> a \<notin> set (ww_stack ?w)" for a
    using i(2) [of a] new(2) by (auto simp: w submit_items)
  moreover have "ww_frames ?w co' = Some a \<longleftrightarrow> (\<exists>c. ww_contexts ?w a = Some c \<and> wc_coroutine c = Some co')" for co' a
    using i(3) [of co' a] assms(4) frames by (auto simp: w)
  moreover have "\<exists>c. ww_contexts ?w a = Some c \<and> wc_coroutine c = None" if "a \<in> set (ww_stack ?w)" for a
    using i(5) [of a] that new(2) by (auto simp: w)
  moreover have "tp_pointer (ww_pool ?w) a \<noteq> Uv_cancelled \<and> wc_status c = Some CAT_ECANCELED" if "ww_contexts ?w a = Some c" "wc_coroutine c \<noteq> None" for a c
    using i(6) [of a c] that by (auto simp: w submit_items split: if_splits)
  moreover have "life_run Dead (ww_history ?w a) = Some (life_of ?w a)" for a
    using i(7) [of a] dead by (simp add: w life_run_append life_of_def submit_items cong: option.case_cong)
  ultimately show ?thesis using i(4) w(2) by (intro work_invI) simp_all
qed

lemma runs_step_inv:
  assumes "work_inv w" and "t < length (tp_threads (ww_pool w))" and "tp_threads (ww_pool w) ! t = Running a slow"
  shows "\<exists>w'. cat_work_callback t w = Done w' \<and> work_inv w'"
proof -
  note i = work_invD [OF assms(1)]
  obtain p where p: "worker_runs t (ww_pool w) = Done p" "pool_inv p" using runs_inv [OF i(1) assms(2,3)] by blast
  note k = runs_items [OF i(1) assms(2,3) p(1)]
  obtain c where c: "ww_contexts w a = Some c" "a \<notin> set (ww_stack w)" using i(2) [of a] k(5) by auto
  let ?w = "note_event a Function_runs (w\<lparr>ww_pool := p\<rparr>)"
  have w: "ww_pool ?w = p" "ww_contexts ?w = ww_contexts w" "ww_frames ?w = ww_frames w" "ww_stack ?w = ww_stack w"
    "ww_history ?w = (ww_history w)(a := ww_history w a @ [Function_runs])" by (simp_all add: note_event_def)
  have "life_run Dead (ww_history ?w b) = Some (life_of ?w b)" for b
    using i(7) [of a] i(7) [of b] c(1) k(2) by (simp add: w life_run_append life_of_def k(3) cong: option.case_cong)
  moreover have "tp_pointer p b \<noteq> Uv_cancelled \<and> wc_status d = Some CAT_ECANCELED" if "ww_contexts w b = Some d" "wc_coroutine d \<noteq> None" for b d
    using i(6) [OF that] by (simp add: k(4))
  ultimately have "work_inv ?w" using p(2) i(2-5) by (intro work_invI) (simp_all add: w k(1))
  then show ?thesis using assms(3) p(1) c(1) by (simp add: cat_work_callback_def context_at_def)
qed

text \<open>The rest of a call. The item is with the loop already when the callback resumes the coroutine, and else still with the pool.\<close>

lemma return_work_inv:
  assumes "pool_inv (ww_pool w)" and "\<And>a. known (ww_pool w) a \<longleftrightarrow> ww_contexts w a \<noteq> None \<and> a \<notin> set (ww_stack w)"
    and "\<And>co a. ww_frames w co = Some a \<longleftrightarrow> (\<exists>c. ww_contexts w a = Some c \<and> wc_coroutine c = Some co)"
    and "length (ww_stack w) \<le> 1" and "\<And>b. b \<in> set (ww_stack w) \<Longrightarrow> b \<noteq> a \<Longrightarrow> \<exists>c. ww_contexts w b = Some c \<and> wc_coroutine c = None"
    and "\<And>b c. ww_contexts w b = Some c \<Longrightarrow> b \<noteq> a \<Longrightarrow> wc_coroutine c \<noteq> None \<Longrightarrow> tp_pointer (ww_pool w) b \<noteq> Uv_cancelled \<and> wc_status c = Some CAT_ECANCELED"
    and "\<And>b. life_run Dead (ww_history w b) = Some (life_of w b)"
    and "ww_frames w co = Some a" and "failed \<noteq> None \<Longrightarrow> a \<notin> set (ww_stack w)"
  shows "\<exists>w'. work_return co failed w = Done w' \<and> work_inv w'"
proof -
  obtain c where c: "ww_contexts w a = Some c" "wc_coroutine c = Some co" using assms(3,8) by blast
  have other: "wc_coroutine d \<noteq> Some co" if "ww_contexts w b = Some d" "b \<noteq> a" for b d using assms(3) [of co b] assms(8) that by auto
  obtain r p where p: "(case failed of Some e \<Rightarrow> uv__work_cancel a (ww_pool w) | None \<Rightarrow> Done (False, ww_pool w)) = Done (r, p)" "pool_inv p"
    "known p = known (ww_pool w)" "tp_runs p = tp_runs (ww_pool w)" "\<And>b. b \<noteq> a \<Longrightarrow> tp_pointer p b = tp_pointer (ww_pool w) b"
  proof (cases failed)
    case None
    then show thesis using that [of False "ww_pool w"] assms(1) by simp
  next
    case (Some e)
    then have k: "known (ww_pool w) a" using assms(2,9) c by auto
    then show thesis using that cancel_inv [OF assms(1) k] cancel_items [OF k] Some by (metis option.simps(5))
  qed
  let ?res = "case failed of Some e \<Rightarrow> Some e | None \<Rightarrow> wc_status c"
  let ?w = "work_returns co ?res ((put_context a (c\<lparr>wc_coroutine := None\<rparr>) w)\<lparr>ww_pool := p\<rparr>)"
  have w: "ww_pool ?w = p" "ww_contexts ?w = (ww_contexts w)(a := Some (c\<lparr>wc_coroutine := None\<rparr>))" "ww_frames ?w = (ww_frames w)(co := None)"
    "ww_stack ?w = ww_stack w" "ww_history ?w = ww_history w" by (simp_all add: work_returns_def put_context_def)
  have "work_return co failed w = Done ?w"
    using assms(8) c p(1) by (auto simp: work_return_def context_at_def put_context_def split: option.splits)
  moreover have "work_inv ?w"
  proof (rule work_invI, unfold w)
    show "known p b \<longleftrightarrow> ((ww_contexts w)(a \<mapsto> c\<lparr>wc_coroutine := None\<rparr>)) b \<noteq> None \<and> b \<notin> set (ww_stack w)" for b
      using assms(2) [of b] c(1) p(3) by auto
    show "((ww_frames w)(co := None)) co' = Some b \<longleftrightarrow> (\<exists>d. ((ww_contexts w)(a \<mapsto> c\<lparr>wc_coroutine := None\<rparr>)) b = Some d \<and> wc_coroutine d = Some co')" for co' b
      using assms(3) [of co' b] c other by auto
    show "\<exists>d. ((ww_contexts w)(a \<mapsto> c\<lparr>wc_coroutine := None\<rparr>)) b = Some d \<and> wc_coroutine d = None" if "b \<in> set (ww_stack w)" for b
      using assms(5) [OF that] by auto
    show "life_run Dead (ww_history w b) = Some (life_of ?w b)" for b
      using assms(7) [of b] c(1) by (simp add: life_of_def w p(4) cong: option.case_cong)
  qed (use assms(4,6) p(2,5) in \<open>auto split: if_splits\<close>)
  ultimately show ?thesis by blast
qed

lemma resume_inv_work:
  assumes "work_inv w" and "ww_frames w co = Some a"
  shows "\<exists>w'. work_return co failed w = Done w' \<and> work_inv w'"
proof -
  note i = work_invD [OF assms(1)]
  obtain c where "ww_contexts w a = Some c" "wc_coroutine c = Some co" using i(3) [of co a] assms(2) by blast
  then have "a \<notin> set (ww_stack w)" using i(5) [of a] by auto
  then show ?thesis using i assms(2) by (intro return_work_inv [of _ a]) blast+
qed

lemma done_next_inv:
  assumes "work_inv w" and "ww_stack w = []" and "work_done_next (ww_pool w) = Some ((a, status), p)"
  shows "\<exists>w'. cat_work_after_done a status (w\<lparr>ww_pool := p\<rparr>) = Done w' \<and> work_inv w'"
proof -
  note i = work_invD [OF assms(1)]
  note k = report_items [OF i(1) assms(3)]
  have "pool_inv p" using report_inv [OF i(1)] assms(3) by (auto simp: work_done_next_def split: list.splits)
  obtain c where c: "ww_contexts w a = Some c" using i(2) [of a] k(2) by auto
  have known: "known p b \<longleftrightarrow> ww_contexts w b \<noteq> None \<and> b \<notin> set [a]" for b using k(1) [of b] i(2) [of b] assms(2) by auto
  show ?thesis
  proof (cases "wc_coroutine c")
    case None
    let ?w = "w\<lparr>ww_pool := p, ww_stack := [a]\<rparr>"
    have "life_of ?w = life_of w" by (simp add: life_of_def fun_eq_iff k(4) cong: option.case_cong)
    then have "work_inv ?w" using i \<open>pool_inv p\<close> known c None k(3) by (intro work_invI) simp_all
    then show ?thesis using c None assms(2) by (simp add: cat_work_after_done_def context_at_def)
  next
    case (Some co)
    let ?w = "put_context a (c\<lparr>wc_status := status\<rparr>) (w\<lparr>ww_pool := p, ww_stack := [a]\<rparr>)"
    have w: "ww_pool ?w = p" "ww_contexts ?w = (ww_contexts w)(a := Some (c\<lparr>wc_status := status\<rparr>))" "ww_frames ?w = ww_frames w" "ww_stack ?w = [a]"
      "ww_history ?w = ww_history w" by (simp_all add: put_context_def)
    have frame: "ww_frames w co = Some a" using i(3) [of co a] c Some by auto
    have "\<exists>w'. work_return co None ?w = Done w' \<and> work_inv w'"
    proof (rule return_work_inv [of ?w a])
      show "known (ww_pool ?w) b \<longleftrightarrow> ww_contexts ?w b \<noteq> None \<and> b \<notin> set (ww_stack ?w)" for b using known [of b] c by (auto simp: w)
      show "ww_frames ?w co' = Some b \<longleftrightarrow> (\<exists>d. ww_contexts ?w b = Some d \<and> wc_coroutine d = Some co')" for co' b
        using i(3) [of co' b] c by (auto simp: w)
      show "life_run Dead (ww_history ?w b) = Some (life_of ?w b)" for b
        using i(7) [of a] i(7) [of b] c by (simp add: life_of_def w k(4) cong: option.case_cong)
      show "ww_contexts ?w b = Some d \<Longrightarrow> b \<noteq> a \<Longrightarrow> wc_coroutine d \<noteq> None \<Longrightarrow>
          tp_pointer (ww_pool ?w) b \<noteq> Uv_cancelled \<and> wc_status d = Some CAT_ECANCELED" for b d
        using i(6) [of b d] by (simp add: w k(3))
    qed (use \<open>pool_inv p\<close> frame in \<open>simp_all add: w\<close>)
    then show ?thesis using c Some assms(2) by (simp add: cat_work_after_done_def context_at_def)
  qed
qed

lemma done_end_inv:
  assumes "work_inv w" and "ww_stack w = a # st"
  shows "\<exists>w'. after_done_end a (w\<lparr>ww_stack := st\<rparr>) = Done w' \<and> work_inv w'"
proof -
  note i = work_invD [OF assms(1)]
  have st: "st = []" using i(4) assms(2) by (cases st) auto
  obtain c where c: "ww_contexts w a = Some c" "wc_coroutine c = None" using i(5) [of a] assms(2) by auto
  let ?es = "(if wc_cleanup c then [Cleanup_called] else []) @ [Context_freed]"
  let ?w = "w\<lparr>ww_stack := [], ww_contexts := (ww_contexts w)(a := None), ww_history := (ww_history w)(a := ww_history w a @ ?es)\<rparr>"
  have "after_done_end a (w\<lparr>ww_stack := st\<rparr>) = Done ?w"
    using c(1) st by (simp add: after_done_end_def context_at_def note_event_def Let_def)
  moreover have "work_inv ?w"
  proof (rule work_invI)
    show "known (ww_pool ?w) b \<longleftrightarrow> ww_contexts ?w b \<noteq> None \<and> b \<notin> set (ww_stack ?w)" for b using i(2) [of b] assms(2) st by auto
    show "ww_frames ?w co = Some b \<longleftrightarrow> (\<exists>d. ww_contexts ?w b = Some d \<and> wc_coroutine d = Some co)" for co b using i(3) [of co b] c by auto
    show "ww_contexts ?w b = Some d \<Longrightarrow> wc_coroutine d \<noteq> None \<Longrightarrow> tp_pointer (ww_pool ?w) b \<noteq> Uv_cancelled \<and> wc_status d = Some CAT_ECANCELED" for b d
      using i(6) [of b d] by (simp split: if_splits)
    show "life_run Dead (ww_history ?w b) = Some (life_of ?w b)" for b
      using i(7) [of a] i(7) [of b] c(1) by (cases "wc_cleanup c") (simp_all add: life_run_append life_of_def cong: option.case_cong)
  qed (use i(1) in simp_all)
  ultimately show ?thesis by blast
qed

lemma work_step_inv: "work_step w w' \<Longrightarrow> work_inv w \<Longrightarrow> work_inv w'"
proof (induction rule: work_step.induct)
  case (call w s co fresh kind cleanup)
  then show ?case using call_inv by blast
next
  case (resume w co a failed w')
  then show ?case using resume_inv_work [of w co a failed] by auto
next
  case (thread_lock w t slow)
  then show ?case using locks_inv work_invD(1) by (intro inner_inv) (auto intro!: thread_same [where x = Locked] simp: worker_locks_def)
next
  case (thread_turn t w s)
  then show ?case using turn_inv turn_same work_invD(1) by (intro inner_inv) auto
next
  case (thread_spurious t w)
  then show ?case using spurious_inv work_invD(1) by (intro inner_inv) (auto intro!: thread_same [where x = Woken])
next
  case (thread_wakes w t)
  then show ?case using worker_wakes_inv work_invD(1) by (intro inner_inv) (auto intro!: thread_same [where x = Locked] simp: worker_wakes_def)
next
  case (thread_runs t w a slow w')
  then show ?case using runs_step_inv by fastforce
next
  case (done_move w)
  then show ?case using move_inv move_same work_invD(1) by (intro inner_inv) auto
next
  case (done_next w a status p w')
  then show ?case using done_next_inv [of w a status p] by auto
next
  case (done_end w a st w')
  then show ?case using done_end_inv [of w a st] by auto
qed

interpretation work: machine work_start work_step work_inv
  by unfold_locales (auto intro: work_start_inv work_step_inv)

abbreviation work_reachable :: "work_world \<Rightarrow> bool" where
  "work_reachable \<equiv> reach work_start work_step"

text \<open>C21: The life of a work item. Whatever coroutines, threads and the loop do, what has happened to an item is what the specification allows:
  its function runs at most once, its cleanup is called exactly once, behind the function, and before the context is freed. A context
  that was freed is in no queue of the pool and with no thread.\<close>

theorem work_item_life:
  assumes "work_reachable w"
  shows "life_run Dead (ww_history w a) = Some (life_of w a) \<and> (ww_contexts w a = None \<longrightarrow> \<not> known (ww_pool w) a)"
  using work_invD(2,7) [OF work.reach_inv [OF assms], of a] by simp

text \<open>No call and no callback goes wrong: whatever may happen next returns, so no context is used that was freed, no function is called that
  was cancelled, and no item is cancelled that is not in a queue.\<close>

theorem work_calls_return:
  assumes "work_reachable w"
  shows "(ww_frames w co \<noteq> None \<longrightarrow> (\<exists>w'. work_return co failed w = Done w')) \<and>
    (t < length (tp_threads (ww_pool w)) \<and> run_of (tp_threads (ww_pool w) ! t) \<noteq> [] \<longrightarrow> (\<exists>w'. cat_work_callback t w = Done w')) \<and>
    (ww_stack w = [] \<and> work_done_next (ww_pool w) = Some ((a, status), p) \<longrightarrow> (\<exists>w'. cat_work_after_done a status (w\<lparr>ww_pool := p\<rparr>) = Done w')) \<and>
    (ww_stack w = b # st \<longrightarrow> (\<exists>w'. after_done_end b (w\<lparr>ww_stack := st\<rparr>) = Done w'))"
proof -
  note inv = work.reach_inv [OF assms]
  show ?thesis
  proof (intro conjI impI)
    assume "t < length (tp_threads (ww_pool w)) \<and> run_of (tp_threads (ww_pool w) ! t) \<noteq> []"
    then show "\<exists>w'. cat_work_callback t w = Done w'" using runs_step_inv [OF inv] run_of_Running by metis
  qed (use resume_inv_work [OF inv] done_next_inv [OF inv] done_end_inv [OF inv] in \<open>(metis not_None_eq)+\<close>)
qed

text \<open>What a call returns. When its item comes back while it waits it returns success, and the function has run; when its wait fails or it is
  resumed by somebody else it returns an error.\<close>

theorem work_result:
  assumes "work_reachable w" and "ww_frames w co = Some a"
  shows "(ww_stack w = [] \<and> work_done_next (ww_pool w) = Some ((a, status), p) \<longrightarrow>
      (\<exists>w'. cat_work_after_done a status (w\<lparr>ww_pool := p\<rparr>) = Done w' \<and> ww_results w' co = Some None \<and> Function_runs \<in> set (ww_history w' a))) \<and>
    (\<exists>w' e. work_return co failed w = Done w' \<and> ww_results w' co = Some (Some e) \<and> (failed \<noteq> None \<longrightarrow> failed = Some e))"
proof -
  note i = work_invD [OF work.reach_inv [OF assms(1)]]
  obtain c where c: "ww_contexts w a = Some c" "wc_coroutine c = Some co" using i(3) [of co a] assms(2) by blast
  have st: "wc_status c = Some CAT_ECANCELED" "tp_pointer (ww_pool w) a \<noteq> Uv_cancelled" using i(6) [OF c(1)] c(2) by auto
  obtain w1 where w1: "work_return co failed w = Done w1" using resume_inv_work [OF work.reach_inv [OF assms(1)] assms(2)] by blast
  then have "\<exists>e. ww_results w1 co = Some (Some e) \<and> (failed \<noteq> None \<longrightarrow> failed = Some e)" using assms(2) c st(1)
    by (cases failed) (auto simp: work_return_def context_at_def c_bind_Done_iff work_returns_def put_context_def Let_def)
  moreover have "\<exists>w'. cat_work_after_done a status (w\<lparr>ww_pool := p\<rparr>) = Done w' \<and> ww_results w' co = Some None \<and> Function_runs \<in> set (ww_history w' a)"
    if d: "ww_stack w = [] \<and> work_done_next (ww_pool w) = Some ((a, status), p)"
  proof -
    have s: "status = None" "tp_runs (ww_pool w) a = 1" using report_items(5) [OF i(1)] d st(2) by auto
    have "Function_runs \<in> set (ww_history w a)"
      using i(7) [of a] c(1) s(2) life_ran [of Dead "ww_history w a" "wc_cleanup c"] by (simp add: life_of_def)
    then show ?thesis using assms(2) c d s(1)
      by (simp add: cat_work_after_done_def context_at_def put_context_def work_return_def work_returns_def Let_def)
  qed
  ultimately show ?thesis using w1 by blast
qed

text \<open>Nothing is left: when the pool has finished its work and the loop has reported it, every context has been freed and nobody waits.\<close>

theorem work_all_freed:
  assumes "work_reachable w" and "queued (ww_pool w) = []" and "running (ww_pool w) = []" and "finished (ww_pool w) = []" and "ww_stack w = []"
  shows "ww_contexts w = (\<lambda>_. None) \<and> ww_frames w = (\<lambda>_. None)"
proof -
  note i = work_invD [OF work.reach_inv [OF assms(1)]]
  have none: "ww_contexts w a = None" for a using i(2) [of a] assms(2-5) by (simp add: known_places)
  have "ww_frames w co = None" for co
  proof (cases "ww_frames w co")
    case (Some a)
    then show ?thesis using i(3) [of co a] none [of a] by simp
  qed
  then show ?thesis using none by auto
qed

subsection \<open>Examples\<close>

datatype work_call = W_call addr uv__work_kind bool nat | W_fail nat cat_errno | W_lock nat | W_turn nat | W_run nat | W_move | W_next | W_end

definition work_do :: "work_call \<Rightarrow> work_world \<Rightarrow> work_world c_run" where
  "work_do c w =
     (let p = ww_pool w; ts = tp_threads p in
      case c of
        W_call a kind cleanup co \<Rightarrow>
          c_assert (mutex_free p \<and> Waiting \<notin> set ts \<and> ww_frames w co = None \<and> ww_contexts w a = None) (Done (cat_work 0 a kind cleanup co w))
      | W_fail co e \<Rightarrow> c_assert (mutex_free p \<and> ww_frames w co \<noteq> None) (work_return co (Some e) w)
      | W_lock t \<Rightarrow> c_assert (mutex_free p \<and> t < length ts \<and> ts ! t \<in> {Entering True, Entering False}) (Done (w\<lparr>ww_pool := worker_locks t p\<rparr>))
      | W_turn t \<Rightarrow> c_assert (t < length ts \<and> ts ! t = Locked \<and> Waiting \<notin> set ts) (Done (w\<lparr>ww_pool := worker_turn 0 t p\<rparr>))
      | W_run t \<Rightarrow> c_assert (t < length ts \<and> run_of (ts ! t) \<noteq> []) (cat_work_callback t w)
      | W_move \<Rightarrow> c_assert (ww_stack w = [] \<and> tp_batch p = []) (Done (w\<lparr>ww_pool := work_done_move p\<rparr>))
      | W_next \<Rightarrow> c_assert (ww_stack w = [])
                  (case work_done_next p of None \<Rightarrow> Undefined | Some ((a, status), p) \<Rightarrow> cat_work_after_done a status (w\<lparr>ww_pool := p\<rparr>))
      | W_end \<Rightarrow> (case ww_stack w of [] \<Rightarrow> Undefined | a # st \<Rightarrow> after_done_end a (w\<lparr>ww_stack := st\<rparr>)))"

fun work_run :: "work_call list \<Rightarrow> work_world \<Rightarrow> work_world c_run" where
  "work_run [] w = Done w"
| "work_run (c # cs) w = c_bind (work_do c w) (work_run cs)"

lemma work_do_step: "work_do c w = Done w' \<Longrightarrow> work_step w w'"
  by (cases c)
    (auto simp: work_do_def Let_def c_assert_def may_choose_def intro: work_step.intros dest!: run_of_Running split: if_splits list.splits option.splits)

lemma work_run_reach: "work_reachable w \<Longrightarrow> work_run cs w = Done w' \<Longrightarrow> work_reachable w'"
proof (induction cs arbitrary: w)
  case (Cons c cs)
  then obtain w1 where w1: "work_do c w = Done w1" "work_run cs w1 = Done w'" by (auto simp: c_bind_Done_iff)
  then have "work_reachable w1" using Cons.prems(1) work_do_step reach_step by metis
  then show ?case using Cons.IH w1(2) by blast
qed simp

definition work_example :: work_world where
  "work_example = \<lparr>ww_pool = init_threads (Some 2), ww_contexts = (\<lambda>_. None), ww_frames = (\<lambda>_. None), ww_results = (\<lambda>_. None), ww_stack = [],
     ww_history = (\<lambda>_. [])\<rparr>"

lemma work_run_example:
  assumes "case work_run cs work_example of Done w \<Rightarrow> P w | _ \<Rightarrow> False"
  obtains w where "work_reachable w" "P w"
proof -
  have "work_start work_example" by (auto simp: work_start_def work_example_def)
  then have "work_reachable work_example" by (rule reach_start)
  then show thesis using assms that work_run_reach by (auto split: c_run.splits)
qed

theorem work_item_life_witness:
  "\<exists>w. work_reachable w \<and> ww_history w 7 = [Submitted True, Function_runs, Cleanup_called, Context_freed] \<and> \<not> known (ww_pool w) 7"
proof (rule work_run_example)
  show "case work_run [W_call 7 UV__WORK_CPU True 1, W_lock 0, W_turn 0, W_fail 1 CAT_ETIMEDOUT, W_run 0, W_move, W_next, W_end] work_example of
      Done w \<Rightarrow> ww_history w 7 = [Submitted True, Function_runs, Cleanup_called, Context_freed] \<and> ww_contexts w 7 = None | _ \<Rightarrow> False" by code_simp
qed (use work_item_life in blast)

theorem work_calls_return_witness: "\<exists>w w'. work_reachable w \<and> ww_frames w 1 = Some 7 \<and> work_return 1 (Some CAT_ETIMEDOUT) w = Done w'"
proof (rule work_run_example)
  show "case work_run [W_call 7 UV__WORK_CPU True 1] work_example of Done w \<Rightarrow> ww_frames w 1 = Some 7 | _ \<Rightarrow> False" by code_simp
qed (use work_calls_return in blast)

theorem work_result_witness:
  "\<exists>w w' status p. work_reachable w \<and> cat_work_after_done 7 status (w\<lparr>ww_pool := p\<rparr>) = Done w' \<and> ww_results w' 1 = Some None"
proof (rule work_run_example)
  show "case work_run [W_call 7 UV__WORK_CPU True 1, W_lock 0, W_turn 0, W_run 0, W_move] work_example of
      Done w \<Rightarrow> ww_frames w 1 = Some 7 \<and> ww_stack w = [] \<and> map_option fst (work_done_next (ww_pool w)) = Some (7, None) | _ \<Rightarrow> False" by code_simp
qed (use work_result [of _ 1 7] in fastforce)

theorem work_all_freed_witness: "\<exists>w. work_reachable w \<and> ww_results w 1 = Some (Some CAT_ETIMEDOUT) \<and> ww_contexts w = (\<lambda>_. None)"
proof (rule work_run_example)
  show "case work_run [W_call 7 UV__WORK_CPU True 1, W_fail 1 CAT_ETIMEDOUT, W_move, W_next, W_end] work_example of
      Done w \<Rightarrow> ww_results w 1 = Some (Some CAT_ETIMEDOUT) \<and> queued (ww_pool w) = [] \<and> running (ww_pool w) = [] \<and> finished (ww_pool w) = [] \<and> ww_stack w = []
    | _ \<Rightarrow> False" by code_simp
qed (use work_all_freed in blast)

end
