(* ===== verification/Cat_Async.thy ===== *)
theory Cat_Async
  imports Cat_Prelude
begin

text \<open>
  Waiting for another thread, \<^verbatim>\<open>src/cat_async.c\<close>. One object and its handle: a coroutine waits for the notification of a thread, gives up, or
  leaves the object to be closed when the notification comes. The handle of libuv is a flag for a pending notification and one for
  closing; using the object behind its close callback, closing the handle twice and the assertions of the code are \<open>Undefined\<close>.

  The rule for the caller: no call behind one that was accepted (a call that is refused changes nothing), one notification, and none behind
  \<^verbatim>\<open>cat_async_close\<close>. The lemmas show that then no call goes wrong, that the object is cleaned up and freed exactly once, and that it is
  freed when the notification has come.
\<close>

subsection \<open>State\<close>

record cat_async_t =
  as_allocated :: bool
  as_cleanup :: bool
  as_done :: bool
  as_closing :: bool
  as_coroutine :: "nat option"

record async_world =
  aw_object :: "cat_async_t option"
  aw_sent :: bool
  aw_uv_closing :: bool
  aw_notified :: bool
  aw_over :: bool
  aw_cleanups :: nat
  aw_frees :: nat
  aw_results :: "nat \<Rightarrow> cat_errno option option"

definition async_at :: "async_world \<Rightarrow> cat_async_t c_run" where
  "async_at w = (case aw_object w of Some o' \<Rightarrow> Done o' | None \<Rightarrow> Undefined)"

definition put_async :: "cat_async_t \<Rightarrow> async_world \<Rightarrow> async_world" where
  "put_async o' w = w\<lparr>aw_object := Some o'\<rparr>"

definition async_returns :: "nat \<Rightarrow> cat_errno option \<Rightarrow> async_world \<Rightarrow> async_world" where
  "async_returns co r w = w\<lparr>aw_results := (aw_results w)(co := Some r)\<rparr>"

text \<open>\<^verbatim>\<open>uv_close\<close>: the handle is taken from the list of the loop, so a pending notification is forgotten.\<close>

definition uv_close_async :: "async_world \<Rightarrow> async_world c_run" where
  "uv_close_async w = c_assert (\<not> aw_uv_closing w) (Done (w\<lparr>aw_uv_closing := True, aw_sent := False, aw_over := True\<rparr>))"

subsection \<open>Operations\<close>

text \<open>\<^verbatim>\<open>cat_async_create\<close>: with \<open>given\<close> the object is one of the caller, \<open>uv_error\<close> is the result of \<^verbatim>\<open>uv_async_init\<close>. The result is the object that is
  returned; the number counts the blocks that were allocated.\<close>

definition cat_async_create :: "bool \<Rightarrow> cat_errno option \<Rightarrow> cat_async_t option \<times> nat" where
  "cat_async_create given uv_error =
     (let async = \<lparr>as_allocated = \<not> given, as_cleanup = False, as_done = False, as_closing = False, as_coroutine = None\<rparr>;
          blocks = (if given then 0 else 1)
      in case uv_error of Some e \<Rightarrow> (None, blocks) | None \<Rightarrow> (Some async, blocks))"

definition check_availability :: "cat_async_t \<Rightarrow> cat_errno option" where
  "check_availability async = (if as_coroutine async \<noteq> None \<or> as_closing async then Some CAT_EINVAL else None)"

definition cat_async_notify :: "async_world \<Rightarrow> async_world c_run" where
  "cat_async_notify w = c_bind (async_at w) (\<lambda>_. Done (w\<lparr>aw_sent := \<not> aw_uv_closing w, aw_notified := True\<rparr>))"

text \<open>\<^verbatim>\<open>cat_async_wait_and_close\<close> up to the wait, and its rest.\<close>

definition cat_async_wait_and_close :: "nat \<Rightarrow> bool \<Rightarrow> async_world \<Rightarrow> async_world c_run" where
  "cat_async_wait_and_close co cleanup w =
     c_bind (async_at w) (\<lambda>async.
       case check_availability async of
         Some e \<Rightarrow> Done (async_returns co (Some e) w)
       | None \<Rightarrow>
           let async = async\<lparr>as_cleanup := cleanup\<rparr>
           in if \<not> as_done async then Done (put_async (async\<lparr>as_coroutine := Some co\<rparr>) w)
              else c_bind (uv_close_async (put_async async w)) (\<lambda>w. Done (async_returns co None w)))"

definition async_wait_return :: "cat_errno option \<Rightarrow> async_world \<Rightarrow> async_world c_run" where
  "async_wait_return failed w =
     c_bind (async_at w) (\<lambda>async.
       case as_coroutine async of
         None \<Rightarrow> Undefined
       | Some co \<Rightarrow>
           let async = async\<lparr>as_coroutine := None, as_closing := True\<rparr>; w = (put_async async w)\<lparr>aw_over := True\<rparr>
           in case failed of
                Some e \<Rightarrow> c_assert (\<not> as_done async) (Done (async_returns co (Some e) w))
              | None \<Rightarrow> if \<not> as_done async then Done (async_returns co (Some CAT_ECANCELED) w)
                        else c_bind (uv_close_async w) (\<lambda>w. Done (async_returns co None w)))"

definition cat_async_callback :: "async_world \<Rightarrow> async_world c_run" where
  "cat_async_callback w =
     c_bind (async_at w) (\<lambda>async.
       c_assert (as_coroutine async \<noteq> None \<and> \<not> as_closing async \<or> as_coroutine async = None)
         (let w = (put_async (async\<lparr>as_done := True\<rparr>) w)\<lparr>aw_sent := False\<rparr>
          in if as_coroutine async \<noteq> None then async_wait_return None w
             else if as_closing async then uv_close_async w else Done w))"

definition cat_async_cleanup :: "nat \<Rightarrow> bool \<Rightarrow> async_world \<Rightarrow> async_world c_run" where
  "cat_async_cleanup co cleanup w =
     c_bind (async_at w) (\<lambda>async.
       case check_availability async of
         Some e \<Rightarrow> Done (async_returns co (Some e) w)
       | None \<Rightarrow>
           let async = async\<lparr>as_cleanup := cleanup\<rparr>
           in if as_done async then c_bind (uv_close_async (put_async async w)) (\<lambda>w. Done (async_returns co None w))
              else Done (async_returns co None ((put_async (async\<lparr>as_closing := True\<rparr>) w)\<lparr>aw_over := True\<rparr>)))"

definition cat_async_close :: "nat \<Rightarrow> bool \<Rightarrow> async_world \<Rightarrow> async_world c_run" where
  "cat_async_close co cleanup w =
     c_bind (async_at w) (\<lambda>async.
       case check_availability async of
         Some e \<Rightarrow> Done (async_returns co (Some e) w)
       | None \<Rightarrow> c_bind (uv_close_async (put_async (async\<lparr>as_cleanup := cleanup\<rparr>) w)) (\<lambda>w. Done (async_returns co None w)))"

definition cat_async_close_callback :: "async_world \<Rightarrow> async_world c_run" where
  "cat_async_close_callback w =
     c_bind (async_at w) (\<lambda>async.
       Done (w\<lparr>aw_object := None, aw_cleanups := aw_cleanups w + (if as_cleanup async then 1 else 0),
               aw_frees := aw_frees w + (if as_allocated async then 1 else 0)\<rparr>))"

subsection \<open>Steps\<close>

inductive async_step :: "async_world \<Rightarrow> async_world \<Rightarrow> bool" where
  notify: "\<not> aw_notified w \<Longrightarrow> \<not> aw_uv_closing w \<Longrightarrow> cat_async_notify w = Done w' \<Longrightarrow> async_step w w'"
| wait: "\<not> aw_over w \<Longrightarrow> cat_async_wait_and_close co cleanup w = Done w' \<Longrightarrow> async_step w w'"
| cleanup: "\<not> aw_over w \<Longrightarrow> cat_async_cleanup co cleanup w = Done w' \<Longrightarrow> async_step w w'"
| close: "\<not> aw_over w \<Longrightarrow> cat_async_close co cleanup w = Done w' \<Longrightarrow> async_step w w'"
| resume: "aw_object w = Some async \<Longrightarrow> as_coroutine async \<noteq> None \<Longrightarrow> async_wait_return failed w = Done w' \<Longrightarrow> async_step w w'"
| callback: "aw_sent w \<Longrightarrow> cat_async_callback w = Done w' \<Longrightarrow> async_step w w'"
| closed: "aw_uv_closing w \<Longrightarrow> aw_object w \<noteq> None \<Longrightarrow> cat_async_close_callback w = Done w' \<Longrightarrow> async_step w w'"

definition async_start :: "bool \<Rightarrow> async_world \<Rightarrow> bool" where
  "async_start given w \<longleftrightarrow> aw_object w = fst (cat_async_create given None) \<and> \<not> aw_sent w \<and> \<not> aw_uv_closing w \<and> \<not> aw_notified w \<and> \<not> aw_over w \<and>
     aw_cleanups w = 0 \<and> aw_frees w = 0"

subsection \<open>Invariant\<close>

definition object_inv :: "bool \<Rightarrow> async_world \<Rightarrow> cat_async_t \<Rightarrow> bool" where
  "object_inv given w async \<longleftrightarrow> as_allocated async = (\<not> given) \<and> aw_cleanups w = 0 \<and> aw_frees w = 0 \<and>
     (as_coroutine async \<noteq> None \<longrightarrow> \<not> as_done async \<and> \<not> aw_over w) \<and>
     (aw_over w \<longleftrightarrow> as_closing async \<or> aw_uv_closing w) \<and> (as_closing async \<and> \<not> aw_uv_closing w \<longrightarrow> \<not> as_done async) \<and>
     (aw_sent w \<longrightarrow> aw_notified w \<and> \<not> as_done async \<and> \<not> aw_uv_closing w) \<and>
     (aw_notified w \<and> \<not> aw_uv_closing w \<longrightarrow> aw_sent w \<or> as_done async) \<and> (as_done async \<longrightarrow> aw_notified w)"

definition async_inv :: "bool \<Rightarrow> async_world \<Rightarrow> bool" where
  "async_inv given w \<longleftrightarrow>
     (case aw_object w of
        Some async \<Rightarrow> object_inv given w async
      | None \<Rightarrow> aw_over w \<and> aw_uv_closing w \<and> \<not> aw_sent w \<and> aw_cleanups w \<le> 1 \<and> aw_frees w = (if given then 0 else 1))"

lemmas async_defs = async_at_def put_async_def async_returns_def uv_close_async_def check_availability_def cat_async_notify_def
  cat_async_wait_and_close_def async_wait_return_def cat_async_callback_def cat_async_cleanup_def cat_async_close_def cat_async_close_callback_def

lemma async_start_inv: "async_start given w \<Longrightarrow> async_inv given w"
  by (auto simp: async_start_def async_inv_def object_inv_def cat_async_create_def)

lemma async_inv_object: "async_inv given w \<Longrightarrow> aw_object w = Some async \<Longrightarrow> object_inv given w async"
  by (simp add: async_inv_def)

lemma async_inv_Some: "aw_object w = Some async \<Longrightarrow> object_inv given w async \<Longrightarrow> async_inv given w"
  by (simp add: async_inv_def)

lemma object_of:
  assumes "async_inv given w" and "\<not> aw_over w \<or> \<not> aw_uv_closing w \<or> aw_sent w \<or> aw_object w \<noteq> None"
  obtains async where "aw_object w = Some async" and "object_inv given w async"
  using assms by (auto simp: async_inv_def split: option.splits)

lemma async_notify_ok:
  assumes "async_inv given w" and "\<not> aw_notified w" and "\<not> aw_uv_closing w"
  shows "\<exists>w'. cat_async_notify w = Done w' \<and> async_inv given w'"
proof -
  obtain async where "aw_object w = Some async" and "object_inv given w async" using object_of assms by blast
  then show ?thesis using assms(2,3) by (auto simp: cat_async_notify_def async_at_def async_inv_def object_inv_def)
qed

lemma availability_over: "object_inv given w async \<Longrightarrow> \<not> aw_over w \<Longrightarrow> check_availability async \<noteq> None \<longleftrightarrow> as_coroutine async \<noteq> None"
  by (auto simp: check_availability_def object_inv_def)

lemma returns_inv [simp]: "async_inv given (async_returns co r w) \<longleftrightarrow> async_inv given w"
  by (simp add: async_inv_def object_inv_def async_returns_def split: option.splits)

lemma async_uv_close_ok:
  assumes "\<not> aw_uv_closing w" and "as_allocated async = (\<not> given)" and "aw_cleanups w = 0" and "aw_frees w = 0" and "as_coroutine async = None"
    and "as_done async \<longrightarrow> aw_notified w"
  shows "\<exists>w'. uv_close_async (put_async async w) = Done w' \<and> async_inv given w'"
  using assms by (simp add: uv_close_async_def put_async_def async_inv_def object_inv_def)

lemma async_wait_ok:
  assumes "async_inv given w" and "\<not> aw_over w"
  shows "\<exists>w'. cat_async_wait_and_close co cleanup w = Done w' \<and> async_inv given w'"
proof -
  obtain async where a: "aw_object w = Some async" and i: "object_inv given w async" using object_of assms by blast
  show ?thesis
  proof (cases "check_availability async")
    case (Some e)
    then show ?thesis using a assms(1) by (simp add: cat_async_wait_and_close_def async_at_def)
  next
    case None
    show ?thesis
    proof (cases "as_done async")
      case True
      obtain w' where "uv_close_async (put_async (async\<lparr>as_cleanup := cleanup\<rparr>) w) = Done w'" and "async_inv given w'"
        using async_uv_close_ok [of w "async\<lparr>as_cleanup := cleanup\<rparr>" given] i None assms(2) by (auto simp: object_inv_def check_availability_def split: if_splits)
      then show ?thesis using a None True by (simp add: cat_async_wait_and_close_def async_at_def)
    next
      case False
      then show ?thesis using a i None assms(2)
        by (auto simp: cat_async_wait_and_close_def async_at_def put_async_def async_inv_def object_inv_def)
    qed
  qed
qed

lemma async_cleanup_ok:
  assumes "async_inv given w" and "\<not> aw_over w"
  shows "\<exists>w'. cat_async_cleanup co cleanup w = Done w' \<and> async_inv given w'"
proof -
  obtain async where a: "aw_object w = Some async" and i: "object_inv given w async" using object_of assms by blast
  show ?thesis
  proof (cases "check_availability async")
    case (Some e)
    then show ?thesis using a assms(1) by (simp add: cat_async_cleanup_def async_at_def)
  next
    case None
    show ?thesis
    proof (cases "as_done async")
      case True
      obtain w' where "uv_close_async (put_async (async\<lparr>as_cleanup := cleanup\<rparr>) w) = Done w'" and "async_inv given w'"
        using async_uv_close_ok [of w "async\<lparr>as_cleanup := cleanup\<rparr>" given] i None assms(2) by (auto simp: object_inv_def check_availability_def split: if_splits)
      then show ?thesis using a None True by (simp add: cat_async_cleanup_def async_at_def)
    next
      case False
      moreover have "as_coroutine async = None" using None by (simp add: check_availability_def split: if_splits)
      ultimately show ?thesis using a i None assms(2)
        by (auto simp: cat_async_cleanup_def async_at_def put_async_def async_returns_def async_inv_def object_inv_def)
    qed
  qed
qed

lemma async_close_ok:
  assumes "async_inv given w" and "\<not> aw_over w"
  shows "\<exists>w'. cat_async_close co cleanup w = Done w' \<and> async_inv given w'"
proof -
  obtain async where a: "aw_object w = Some async" and i: "object_inv given w async" using object_of assms by blast
  show ?thesis
  proof (cases "check_availability async")
    case (Some e)
    then show ?thesis using a assms(1) by (simp add: cat_async_close_def async_at_def)
  next
    case None
    obtain w' where "uv_close_async (put_async (async\<lparr>as_cleanup := cleanup\<rparr>) w) = Done w'" and "async_inv given w'"
      using async_uv_close_ok [of w "async\<lparr>as_cleanup := cleanup\<rparr>" given] i None assms(2) by (auto simp: object_inv_def check_availability_def split: if_splits)
    then show ?thesis using a None by (simp add: cat_async_close_def async_at_def)
  qed
qed

text \<open>The rest of a wait; \<open>object_inv\<close> is kept behind a notification too, when the callback has set \<open>as_done\<close>.\<close>

lemma async_wait_return_ok:
  assumes "aw_object w = Some async" and "as_coroutine async \<noteq> None" and "\<not> aw_uv_closing w" and "as_allocated async = (\<not> given)"
    and "aw_cleanups w = 0" and "aw_frees w = 0" and "\<not> as_done async \<longrightarrow> aw_sent w = aw_notified w" and "failed \<noteq> None \<longrightarrow> \<not> as_done async"
    and "as_done async \<longrightarrow> aw_notified w"
  shows "\<exists>w'. async_wait_return failed w = Done w' \<and> async_inv given w'"
  using assms by (cases failed) (auto simp: async_wait_return_def async_at_def put_async_def uv_close_async_def async_inv_def object_inv_def Let_def
    async_returns_def)

lemma async_resume_ok:
  assumes "async_inv given w" and "aw_object w = Some async" and "as_coroutine async \<noteq> None"
  shows "\<exists>w'. async_wait_return failed w = Done w' \<and> async_inv given w'"
proof -
  have "object_inv given w async" using async_inv_object assms(1,2) .
  then show ?thesis using async_wait_return_ok [OF assms(2,3)] assms(3) by (auto simp: object_inv_def)
qed

lemma async_callback_ok:
  assumes "async_inv given w" and "aw_sent w"
  shows "\<exists>w'. cat_async_callback w = Done w' \<and> async_inv given w'"
proof -
  obtain async where a: "aw_object w = Some async" and i: "object_inv given w async" using object_of assms by blast
  let ?w = "(put_async (async\<lparr>as_done := True\<rparr>) w)\<lparr>aw_sent := False\<rparr>"
  have ok: "as_coroutine async \<noteq> None \<Longrightarrow> \<not> as_closing async" using i by (auto simp: object_inv_def)
  show ?thesis
  proof (cases "as_coroutine async")
    case None
    then show ?thesis using a i assms(2)
      by (auto simp: cat_async_callback_def async_at_def put_async_def uv_close_async_def async_inv_def object_inv_def)
  next
    case (Some co)
    have "\<exists>w'. async_wait_return None ?w = Done w' \<and> async_inv given w'"
      using i Some assms(2) by (intro async_wait_return_ok [of _ "async\<lparr>as_done := True\<rparr>"]) (auto simp: put_async_def object_inv_def)
    then show ?thesis using a ok Some by (simp add: cat_async_callback_def async_at_def)
  qed
qed

lemma async_close_callback_ok:
  assumes "async_inv given w" and "aw_uv_closing w" and "aw_object w \<noteq> None"
  shows "\<exists>w'. cat_async_close_callback w = Done w' \<and> async_inv given w'"
proof -
  obtain async where "aw_object w = Some async" and "object_inv given w async" using object_of assms by blast
  then show ?thesis using assms(2) by (auto simp: cat_async_close_callback_def async_at_def async_inv_def object_inv_def)
qed

lemma async_step_inv:
  assumes "async_inv given w" and "async_step w w'"
  shows "async_inv given w'"
  using assms(2,1)
proof cases
  case notify
  then show ?thesis using run_kept [OF async_notify_ok [OF assms(1)]] by blast
next
  case wait
  then show ?thesis using run_kept [OF async_wait_ok [OF assms(1)]] by blast
next
  case cleanup
  then show ?thesis using run_kept [OF async_cleanup_ok [OF assms(1)]] by blast
next
  case close
  then show ?thesis using run_kept [OF async_close_ok [OF assms(1)]] by blast
next
  case resume
  then show ?thesis using run_kept [OF async_resume_ok [OF assms(1)]] by blast
next
  case callback
  then show ?thesis using run_kept [OF async_callback_ok [OF assms(1)]] by blast
next
  case closed
  then show ?thesis using run_kept [OF async_close_callback_ok [OF assms(1)]] by blast
qed

interpretation async: machine "async_start given" async_step "async_inv given" for given
  by unfold_locales (auto intro: async_start_inv async_step_inv)

subsection \<open>The cleanup of an accepted call\<close>

definition cleanup_kept :: "bool \<Rightarrow> async_world \<Rightarrow> bool" where
  "cleanup_kept c w \<longleftrightarrow>
     (case aw_object w of
        Some async \<Rightarrow> as_cleanup async = c \<and> (as_coroutine async \<noteq> None \<or> aw_over w)
      | None \<Rightarrow> aw_cleanups w = of_bool c)"

lemma cleanup_kept_step:
  assumes i: "async_inv given w" and k: "cleanup_kept c w" and "async_step w w'"
  shows "cleanup_kept c w'"
  using assms(3)
proof cases
  case notify
  then show ?thesis using k by (auto simp: cat_async_notify_def async_at_def cleanup_kept_def split: option.splits)
next
  case (wait co cleanup)
  then obtain async where "aw_object w = Some async" using i by (auto elim: object_of)
  then show ?thesis using k wait by (auto simp: cleanup_kept_def cat_async_wait_and_close_def async_at_def check_availability_def async_returns_def)
next
  case (cleanup co cleanup)
  then obtain async where "aw_object w = Some async" using i by (auto elim: object_of)
  then show ?thesis using k cleanup by (auto simp: cleanup_kept_def cat_async_cleanup_def async_at_def check_availability_def async_returns_def)
next
  case (close co cleanup)
  then obtain async where "aw_object w = Some async" using i by (auto elim: object_of)
  then show ?thesis using k close by (auto simp: cleanup_kept_def cat_async_close_def async_at_def check_availability_def async_returns_def)
next
  case (resume async failed)
  then show ?thesis using k
    by (auto simp: cleanup_kept_def async_wait_return_def async_at_def put_async_def uv_close_async_def async_returns_def c_assert_def Let_def
        split: option.splits if_splits)
next
  case callback
  then obtain async where "aw_object w = Some async" using i by (auto elim: object_of)
  then show ?thesis using k callback
    by (auto simp: cleanup_kept_def cat_async_callback_def async_wait_return_def async_at_def put_async_def uv_close_async_def async_returns_def
        c_assert_def Let_def split: if_splits)
next
  case closed
  then obtain async where "aw_object w = Some async" by auto
  then show ?thesis using k i closed
    by (auto simp: cleanup_kept_def cat_async_close_callback_def async_at_def async_inv_def object_inv_def)
qed

interpretation kept: machine "\<lambda>w. async_inv given w \<and> cleanup_kept c w" async_step "\<lambda>w. async_inv given w \<and> cleanup_kept c w" for given c
  by unfold_locales (auto intro: async_step_inv cleanup_kept_step)

abbreviation async_reachable :: "bool \<Rightarrow> async_world \<Rightarrow> bool" where
  "async_reachable given \<equiv> reach (async_start given) async_step"

subsection \<open>Correctness\<close>

text \<open>With the rule for the caller no call and no callback goes wrong: no handle is closed twice, no assertion fails, nothing is done with an object
  that was freed.\<close>

theorem async_calls_return:
  assumes "async_reachable given w"
  shows "(\<not> aw_notified w \<and> \<not> aw_uv_closing w \<longrightarrow> (\<exists>w'. cat_async_notify w = Done w')) \<and>
    (\<not> aw_over w \<longrightarrow> (\<exists>w'. cat_async_wait_and_close co cleanup w = Done w')) \<and> (\<not> aw_over w \<longrightarrow> (\<exists>w'. cat_async_cleanup co cleanup w = Done w')) \<and>
    (\<not> aw_over w \<longrightarrow> (\<exists>w'. cat_async_close co cleanup w = Done w')) \<and>
    (\<forall>async. aw_object w = Some async \<and> as_coroutine async \<noteq> None \<longrightarrow> (\<exists>w'. async_wait_return failed w = Done w')) \<and>
    (aw_sent w \<longrightarrow> (\<exists>w'. cat_async_callback w = Done w')) \<and>
    (aw_uv_closing w \<and> aw_object w \<noteq> None \<longrightarrow> (\<exists>w'. cat_async_close_callback w = Done w'))"
proof -
  have i: "async_inv given w" using async.reach_inv assms .
  show ?thesis
    using async_notify_ok [OF i] async_wait_ok [OF i] async_cleanup_ok [OF i] async_close_ok [OF i] async_resume_ok [OF i] async_callback_ok [OF i] async_close_callback_ok [OF i] by meson
qed

text \<open>The end of an object. When the caller is done with it, the thread has notified it or it was closed at once, and the loop has nothing left to do
  for its handle, the object is gone, and its block was freed exactly once if it was allocated.\<close>

theorem async_object_freed:
  assumes "async_reachable given w" and "aw_over w" and "aw_notified w \<or> aw_uv_closing w"
    and "\<not> aw_sent w" and "\<not> (aw_uv_closing w \<and> aw_object w \<noteq> None)"
  shows "aw_object w = None \<and> aw_frees w = (if given then 0 else 1)"
  using async.reach_inv [OF assms(1)] assms(2-) by (auto simp: async_inv_def object_inv_def split: option.splits)

lemma accepted_kept:
  assumes "aw_object w = Some async" and "check_availability async = None"
    and "cat_async_wait_and_close co cleanup w = Done w1 \<or> cat_async_cleanup co cleanup w = Done w1 \<or> cat_async_close co cleanup w = Done w1"
  shows "cleanup_kept cleanup w1"
  using assms
  by (auto simp: cleanup_kept_def cat_async_wait_and_close_def cat_async_cleanup_def cat_async_close_def async_at_def put_async_def uv_close_async_def
      async_returns_def c_assert_def Let_def split: if_splits)

lemma accepted_inv:
  assumes "async_inv given w" and "\<not> aw_over w"
    and "cat_async_wait_and_close co cleanup w = Done w1 \<or> cat_async_cleanup co cleanup w = Done w1 \<or> cat_async_close co cleanup w = Done w1"
  shows "async_inv given w1"
  using run_kept [OF async_wait_ok [OF assms(1,2)]] run_kept [OF async_cleanup_ok [OF assms(1,2)]] run_kept [OF async_close_ok [OF assms(1,2)]] assms(3)
  by blast

text \<open>C22: The cleanup of the call that was accepted is the one that counts: whatever happens behind it, when the object is gone that cleanup was called
  exactly once, or never if the call gave none, and the block was freed exactly once if it was allocated.\<close>

theorem async_cleanup_once:
  assumes "async_reachable given w" and "\<not> aw_over w" and "aw_object w = Some async" and "check_availability async = None"
    and "cat_async_wait_and_close co cleanup w = Done w1 \<or> cat_async_cleanup co cleanup w = Done w1 \<or> cat_async_close co cleanup w = Done w1"
    and "async_step\<^sup>*\<^sup>* w1 w'" and "aw_object w' = None"
  shows "aw_cleanups w' = (if cleanup then 1 else 0) \<and> aw_frees w' = (if given then 0 else 1)"
proof -
  have "async_inv given w1 \<and> cleanup_kept cleanup w1"
    using accepted_inv [OF async.reach_inv [OF assms(1)] assms(2,5)] accepted_kept [OF assms(3-5)] by blast
  then have "async_inv given w' \<and> cleanup_kept cleanup w'" by (rule kept.steps_inv [OF assms(6)])
  then show ?thesis using assms(7) by (simp add: cleanup_kept_def async_inv_def)
qed

text \<open>A wait ends with success exactly when the notification resumes it, and then the handle is closed; a wait that fails or is canceled returns its error
  and leaves the handle open for the thread.\<close>

theorem async_wait_result:
  assumes "async_reachable given w" and "aw_object w = Some async" and "as_coroutine async = Some co"
  shows "(async_wait_return failed w = Done w' \<longrightarrow>
       aw_results w' co = Some (Some (case failed of Some e \<Rightarrow> e | None \<Rightarrow> CAT_ECANCELED)) \<and> \<not> aw_uv_closing w') \<and>
    (aw_sent w \<and> cat_async_callback w = Done w' \<longrightarrow> aw_results w' co = Some None \<and> aw_uv_closing w')"
proof -
  have i: "object_inv given w async" using async_inv_object [OF async.reach_inv [OF assms(1)] assms(2)] .
  then show ?thesis using assms(2,3)
    by (auto simp: object_inv_def async_wait_return_def cat_async_callback_def async_at_def put_async_def uv_close_async_def async_returns_def c_assert_def
        Let_def split: option.splits)
qed

text \<open>Without the rule the check of the code is not enough: \<^verbatim>\<open>cat_async_close\<close> does not set \<open>as_closing\<close>, so a second call is not refused but closes
  the handle a second time; and \<^verbatim>\<open>cat_async_create\<close> keeps the block it allocated when the handle cannot be made.\<close>

theorem async_second_close:
  assumes "cat_async_close co cleanup w = Done w'" and "aw_object w = Some async" and "check_availability async = None"
  shows "cat_async_close co' cleanup' w' = Undefined"
  using assms
  by (auto simp: cat_async_close_def async_at_def put_async_def uv_close_async_def async_returns_def c_assert_def check_availability_def split: if_splits)

theorem async_create_leaks: "cat_async_create False (Some e) = (None, 1)"
  by (simp add: cat_async_create_def)

subsection \<open>Witnesses\<close>

definition async_example :: async_world where
  "async_example = \<lparr>aw_object = fst (cat_async_create False None), aw_sent = False, aw_uv_closing = False, aw_notified = False, aw_over = False,
     aw_cleanups = 0, aw_frees = 0, aw_results = (\<lambda>_. None)\<rparr>"

text \<open>The object behind an accepted wait, and the calls that follow a notification.\<close>

definition async_waiting :: async_world where
  "async_waiting = async_example\<lparr>aw_object := Some \<lparr>as_allocated = True, as_cleanup = True, as_done = False, as_closing = False, as_coroutine = Some 4\<rparr>\<rparr>"

definition async_sent :: async_world where
  "async_sent = async_waiting\<lparr>aw_sent := True, aw_notified := True\<rparr>"

definition async_closed :: async_world where
  "async_closed = async_sent\<lparr>aw_object := Some \<lparr>as_allocated = True, as_cleanup = True, as_done = True, as_closing = True, as_coroutine = None\<rparr>,
     aw_sent := False, aw_uv_closing := True, aw_over := True, aw_results := (\<lambda>_. None)(4 := Some None)\<rparr>"

definition async_gone :: async_world where
  "async_gone = async_closed\<lparr>aw_object := None, aw_cleanups := 1, aw_frees := 1\<rparr>"

lemmas async_examples = async_example_def async_waiting_def async_sent_def async_closed_def async_gone_def cat_async_create_def

lemma async_example_steps: "async_step async_example async_waiting" "async_step async_waiting async_sent" "async_step async_sent async_closed"
    "async_step async_closed async_gone"
  by (rule async_step.wait [of _ 4 True], simp_all add: async_examples async_defs)
    (rule async_step.notify async_step.callback async_step.closed, simp_all add: async_examples async_defs c_assert_def Let_def)+

lemma async_example_reach: "async_reachable False async_waiting" "async_reachable False async_sent" "async_reachable False async_gone"
  "async_reachable False async_example"
proof -
  have "async_reachable False async_example" by (rule reach_start) (simp add: async_start_def async_example_def)
  then show "async_reachable False async_example" and "async_reachable False async_waiting" and "async_reachable False async_sent" and "async_reachable False async_gone"
    using async_example_steps by (metis reach_step)+
qed

theorem async_calls_return_witness: "\<exists>w'. cat_async_callback async_sent = Done w'"
  using async_calls_return [OF async_example_reach(2)] by (simp add: async_examples)

theorem async_object_freed_witness: "async_reachable False async_gone \<and> aw_frees async_gone = 1"
  using async_object_freed [OF async_example_reach(3)] async_example_reach(3) by (simp add: async_examples)

theorem async_cleanup_once_witness:
  "cat_async_wait_and_close 4 True async_example = Done async_waiting \<and> async_step\<^sup>*\<^sup>* async_waiting async_gone \<and> aw_cleanups async_gone = 1"
proof -
  have s: "async_step\<^sup>*\<^sup>* async_waiting async_gone" using async_example_steps(2-4) by (meson converse_rtranclp_into_rtranclp rtranclp.rtrancl_refl)
  have c: "cat_async_wait_and_close 4 True async_example = Done async_waiting" by (simp add: async_examples async_defs)
  have o: "aw_object async_example = Some (the (aw_object async_example))" "check_availability (the (aw_object async_example)) = None"
    by (simp_all add: async_examples check_availability_def)
  have "aw_cleanups async_gone = (if True then 1 else 0) \<and> aw_frees async_gone = (if False then 0 else 1)"
    by (rule async_cleanup_once [OF async_example_reach(4) _ o disjI1 [OF c] s]) (simp_all add: async_examples)
  then show ?thesis using s c by simp
qed

theorem async_wait_result_witness: "\<exists>w'. async_wait_return None async_waiting = Done w' \<and> aw_results w' 4 = Some (Some CAT_ECANCELED)"
proof -
  obtain w' where "async_wait_return None async_waiting = Done w'" by (simp add: async_examples async_defs Let_def)
  then show ?thesis
    using async_wait_result [OF async_example_reach(1), of "the (aw_object async_waiting)" 4 None w'] by (simp add: async_examples)
qed

end
