(* ===== verification/Cat_Os_Wait.thy ===== *)
theory Cat_Os_Wait
  imports Cat_Prelude
begin

text \<open>
  Waiting for child processes, \<^verbatim>\<open>src/cat_os_wait.c\<close>. The answers of the kernel to \<^verbatim>\<open>wait4\<close> and \<^verbatim>\<open>kill\<close> are the input of the steps; a status stands
  for the status of a process and its resource usage. The dispatcher resumes waiting coroutines, and a coroutine that was resumed may wait again, so
  dispatchers nest: the stack holds what is left to do of each. The trees of \<^verbatim>\<open>uv/tree.h\<close> are lists of keys and values in the order of the keys.
  Using a task that was freed and violating an assertion are \<open>Undefined\<close>.

  The rules: while the waiters for a process are being resumed none of them is resumed by somebody else, and the kernel does not report this process
  again. The lemmas show that then no call goes wrong, that every status that is returned was reported by the kernel for this process if no waiter is
  canceled, that a report reaches all who wait for the process, or else one who waits for any, and is kept otherwise if there is memory, and that the signal is watched
  exactly as long as somebody waits.
\<close>

subsection \<open>State\<close>

text \<open>\<^verbatim>\<open>RB_FIND\<close>, \<^verbatim>\<open>RB_INSERT\<close> and \<^verbatim>\<open>RB_REMOVE\<close>: inserting a key that is there changes nothing.\<close>

type_synonym 'v rb_tree = "(int \<times> 'v) list"

definition rb_insert :: "int \<Rightarrow> 'v \<Rightarrow> 'v rb_tree \<Rightarrow> 'v rb_tree" where
  "rb_insert k v t = (if map_of t k \<noteq> None then t else insort_key fst (k, v) t)"

definition rb_remove :: "int \<Rightarrow> 'v rb_tree \<Rightarrow> 'v rb_tree" where
  "rb_remove k t = filter (\<lambda>x. fst x \<noteq> k) t"

definition rb_ok :: "'v rb_tree \<Rightarrow> bool" where
  "rb_ok t \<longleftrightarrow> sorted (map fst t) \<and> distinct (map fst t)"

record cat_os_waitpid_task_t =
  wt_pid :: int
  wt_status :: int
  wt_waiter_count :: nat
  wt_waiters :: "nat list"

text \<open>Where a coroutine waits: in the list of those who wait for any process, with its own task, or on the task of a process.\<close>

datatype os_frame = Wait_any | Wait_pid addr int

datatype os_result = Os_failed cat_errno | Os_returned int int

text \<open>What is left of a dispatcher: the loop over the reports, with the count of new statuses and the call that started it, and the loop over the
  waiters for one process.\<close>

datatype os_rest = Dispatch "(nat \<times> int) option" nat | Notify addr int int nat

record os_world =
  ow_watcher_count :: nat
  ow_waiter_list :: "nat list"
  ow_wait_tasks :: "nat \<Rightarrow> int \<times> int"
  ow_tasks :: "addr \<Rightarrow> cat_os_waitpid_task_t option"
  ow_tree :: "addr rb_tree"
  ow_states :: "int rb_tree"
  ow_frames :: "nat \<Rightarrow> os_frame option"
  ow_results :: "nat \<Rightarrow> os_result option"
  ow_stack :: "os_rest list"
  ow_reported :: "(int \<times> int) list"

definition task_at :: "os_world \<Rightarrow> addr \<Rightarrow> cat_os_waitpid_task_t c_run" where
  "task_at w a = (case ow_tasks w a of Some t \<Rightarrow> Done t | None \<Rightarrow> Undefined)"

definition put_task :: "addr \<Rightarrow> cat_os_waitpid_task_t \<Rightarrow> os_world \<Rightarrow> os_world" where
  "put_task a t w = w\<lparr>ow_tasks := (ow_tasks w)(a := Some t)\<rparr>"

definition cat_os_wait_sigchld_watcher_start :: "os_world \<Rightarrow> os_world" where
  "cat_os_wait_sigchld_watcher_start w = w\<lparr>ow_watcher_count := ow_watcher_count w + 1\<rparr>"

definition cat_os_wait_sigchld_watcher_end :: "os_world \<Rightarrow> os_world" where
  "cat_os_wait_sigchld_watcher_end w = w\<lparr>ow_watcher_count := ow_watcher_count w - 1\<rparr>"

text \<open>The end of \<^verbatim>\<open>cat_os__wait_wrapper\<close>.\<close>

definition os_returns :: "nat \<Rightarrow> os_result \<Rightarrow> os_world \<Rightarrow> os_world" where
  "os_returns co r w =
     (let w = cat_os_wait_sigchld_watcher_end w
      in w\<lparr>ow_frames := (ow_frames w)(co := None), ow_results := (ow_results w)(co := Some r)\<rparr>)"

subsection \<open>The call\<close>

text \<open>The search for a status that was kept: for any process it is the first one in the tree.\<close>

definition find_state :: "int \<Rightarrow> os_world \<Rightarrow> (int \<times> int) option" where
  "find_state pid w =
     (if pid < 0 then (case ow_states w of [] \<Rightarrow> None | x # xs \<Rightarrow> Some x) else map_option (Pair pid) (map_of (ow_states w) pid))"

text \<open>The head of the loop of \<^verbatim>\<open>cat_os__wait\<close>; \<open>alive\<close> tells that \<^verbatim>\<open>kill\<close> does not answer ESRCH.\<close>

definition os_wait_turn :: "nat \<Rightarrow> int \<Rightarrow> bool \<Rightarrow> os_world \<Rightarrow> os_world" where
  "os_wait_turn co pid alive w =
     (case find_state pid w of
        Some (p, status) \<Rightarrow> os_returns co (Os_returned p status) (w\<lparr>ow_states := rb_remove p (ow_states w)\<rparr>)
      | None \<Rightarrow>
          if 0 < pid \<and> \<not> alive then os_returns co (Os_failed CAT_ECHILD) w
          else w\<lparr>ow_stack := Dispatch (Some (co, pid)) 0 # ow_stack w\<rparr>)"

text \<open>Behind the loop: the coroutine waits. A new task is put at \<open>fresh\<close>, if there is memory for it.\<close>

definition os_wait_suspend :: "nat \<Rightarrow> int \<Rightarrow> addr option \<Rightarrow> os_world \<Rightarrow> os_world c_run" where
  "os_wait_suspend co pid fresh w =
     (if pid < 0 then
        Done (w\<lparr>ow_wait_tasks := (ow_wait_tasks w)(co := (-1, 0)), ow_waiter_list := ow_waiter_list w @ [co],
                ow_frames := (ow_frames w)(co := Some Wait_any)\<rparr>)
      else
        let found = (case map_of (ow_tree w) pid of
                       Some a \<Rightarrow> Some (a, w)
                     | None \<Rightarrow> map_option (\<lambda>a. (a, (put_task a \<lparr>wt_pid = pid, wt_status = 0, wt_waiter_count = 0, wt_waiters = []\<rparr> w)
                                 \<lparr>ow_tree := rb_insert pid a (ow_tree w)\<rparr>)) fresh)
        in case found of
             None \<Rightarrow> Done (os_returns co (Os_failed CAT_ENOMEM) w)
           | Some (a, w) \<Rightarrow>
               c_bind (task_at w a) (\<lambda>t.
                 Done ((put_task a (t\<lparr>wt_waiter_count := wt_waiter_count t + 1, wt_waiters := wt_waiters t @ [co]\<rparr>) w)
                   \<lparr>ow_frames := (ow_frames w)(co := Some (Wait_pid a pid))\<rparr>)))"

text \<open>Behind the wait; \<open>failed\<close> is its error.\<close>

definition os_wait_return :: "nat \<Rightarrow> cat_errno option \<Rightarrow> os_world \<Rightarrow> os_world c_run" where
  "os_wait_return co failed w =
     (case ow_frames w co of
        None \<Rightarrow> Undefined
      | Some Wait_any \<Rightarrow>
          let (pid, status) = ow_wait_tasks w co; w = w\<lparr>ow_waiter_list := remove1 co (ow_waiter_list w)\<rparr>
          in Done (os_returns co (case failed of Some e \<Rightarrow> Os_failed e | None \<Rightarrow> Os_returned pid status) w)
      | Some (Wait_pid a pid) \<Rightarrow>
          c_bind (task_at w a) (\<lambda>t.
          c_assert (pid = wt_pid t)
            (let status = wt_status t;
                 t = t\<lparr>wt_waiters := remove1 co (wt_waiters t), wt_waiter_count := wt_waiter_count t - 1\<rparr>;
                 w = (if wt_waiter_count t = 0 then w\<lparr>ow_tree := rb_remove (wt_pid t) (ow_tree w), ow_tasks := (ow_tasks w)(a := None)\<rparr>
                      else put_task a t w)
             in Done (os_returns co (case failed of Some e \<Rightarrow> Os_failed e | None \<Rightarrow> Os_returned pid status) w))))"

definition cat_os__wait :: "nat \<Rightarrow> int \<Rightarrow> bool \<Rightarrow> os_world \<Rightarrow> os_world" where
  "cat_os__wait co pid alive w = (if pid = 0 then os_returns co (Os_failed CAT_ENOTSUP) w else os_wait_turn co pid alive w)"

definition cat_os__wait_wrapper :: "nat \<Rightarrow> int \<Rightarrow> bool \<Rightarrow> os_world \<Rightarrow> os_world" where
  "cat_os__wait_wrapper co pid alive w = cat_os__wait co pid alive (cat_os_wait_sigchld_watcher_start w)"

subsection \<open>The dispatcher\<close>

definition cat_os_wait_sigchld_handler :: "os_world \<Rightarrow> os_world" where
  "cat_os_wait_sigchld_handler w = w\<lparr>ow_stack := Dispatch None 0 # ow_stack w\<rparr>"

text \<open>A report of the kernel; \<open>memory\<close> tells whether there is memory to keep its status if nobody waits for it.\<close>

definition dispatch_report :: "bool \<Rightarrow> int \<Rightarrow> int \<Rightarrow> os_world \<Rightarrow> os_world c_run" where
  "dispatch_report memory pid status w =
     (case ow_stack w of
        Dispatch caller n # st \<Rightarrow>
          let w = w\<lparr>ow_reported := (pid, status) # ow_reported w\<rparr>
          in case map_of (ow_tree w) pid of
               Some a \<Rightarrow> c_bind (task_at w a) (\<lambda>t. Done (w\<lparr>ow_stack := Notify a pid status (wt_waiter_count t) # ow_stack w\<rparr>))
             | None \<Rightarrow>
                 (case ow_waiter_list w of
                    co # cos \<Rightarrow>
                      c_assert (fst (ow_wait_tasks w co) = -1)
                        (os_wait_return co None (w\<lparr>ow_wait_tasks := (ow_wait_tasks w)(co := (pid, status))\<rparr>))
                  | [] \<Rightarrow>
                      if \<not> memory then Done w
                      else Done (w\<lparr>ow_states := rb_insert pid status (ow_states w), ow_stack := Dispatch caller (n + 1) # st\<rparr>))
      | _ \<Rightarrow> Undefined)"

text \<open>A turn of the loop over the waiters.\<close>

definition notify_next :: "os_world \<Rightarrow> os_world c_run" where
  "notify_next w =
     (case ow_stack w of
        Notify a pid status k # st \<Rightarrow>
          c_bind (task_at w a) (\<lambda>t.
            case wt_waiters t of
              [] \<Rightarrow> Done (w\<lparr>ow_stack := st\<rparr>)
            | co # cos \<Rightarrow>
                c_assert (pid = wt_pid t)
                  (os_wait_return co None
                    ((put_task a (t\<lparr>wt_status := status\<rparr>) w)\<lparr>ow_stack := (if k - 1 = 0 then st else Notify a pid status (k - 1) # st)\<rparr>)))
      | _ \<Rightarrow> Undefined)"

text \<open>No more reports: the call goes on, with the loop or to its wait.\<close>

definition dispatch_end :: "bool \<Rightarrow> addr option \<Rightarrow> os_world \<Rightarrow> os_world c_run" where
  "dispatch_end alive fresh w =
     (case ow_stack w of
        Dispatch None n # st \<Rightarrow> Done (w\<lparr>ow_stack := st\<rparr>)
      | Dispatch (Some (co, pid)) n # st \<Rightarrow>
          let w = w\<lparr>ow_stack := st\<rparr> in if 0 < n then Done (os_wait_turn co pid alive w) else os_wait_suspend co pid fresh w
      | _ \<Rightarrow> Undefined)"

subsection \<open>Start and end\<close>

definition cat_os_wait_runtime_init :: "os_world \<Rightarrow> os_world" where
  "cat_os_wait_runtime_init w = w\<lparr>ow_watcher_count := 0, ow_waiter_list := [], ow_tree := [], ow_states := []\<rparr>"

definition cat_os_wait_runtime_shutdown :: "os_world \<Rightarrow> os_world c_run" where
  "cat_os_wait_runtime_shutdown w = c_assert (ow_tree w = []) (Done (w\<lparr>ow_states := []\<rparr>))"

subsection \<open>Steps\<close>

definition callers :: "os_rest list \<Rightarrow> nat list" where
  "callers st = concat (map (\<lambda>x. case x of Dispatch (Some (co, pid)) n \<Rightarrow> [co] | _ \<Rightarrow> []) st)"

definition notified :: "os_rest list \<Rightarrow> addr list" where
  "notified st = concat (map (\<lambda>x. case x of Notify a p s k \<Rightarrow> [a] | _ \<Rightarrow> []) st)"

definition fresh_ok :: "os_world \<Rightarrow> addr option \<Rightarrow> bool" where
  "fresh_ok w fresh \<longleftrightarrow> (case fresh of None \<Rightarrow> True | Some a \<Rightarrow> ow_tasks w a = None)"

lemma fresh_ok_stack [simp]: "fresh_ok (w\<lparr>ow_stack := st\<rparr>) fresh = fresh_ok w fresh"
  by (cases fresh) (simp_all add: fresh_ok_def)

text \<open>With \<open>cancels\<close> a waiter for a process may be resumed by somebody else as if its wait were over.\<close>

inductive os_step :: "bool \<Rightarrow> os_world \<Rightarrow> os_world \<Rightarrow> bool" for cancels where
  call: "ow_frames w co = None \<Longrightarrow> co \<notin> set (callers (ow_stack w)) \<Longrightarrow> os_step cancels w (cat_os__wait_wrapper co pid alive w)"
| signal: "0 < ow_watcher_count w \<Longrightarrow> os_step cancels w (cat_os_wait_sigchld_handler w)"
| report: "ow_stack w = Dispatch caller n # st \<Longrightarrow> 0 < pid \<Longrightarrow> \<forall>a \<in> set (notified st). map_of (ow_tree w) pid \<noteq> Some a \<Longrightarrow>
    dispatch_report memory pid status w = Done w' \<Longrightarrow> os_step cancels w w'"
| dispatched: "ow_stack w = Dispatch caller n # st \<Longrightarrow> fresh_ok w fresh \<Longrightarrow> dispatch_end alive fresh w = Done w' \<Longrightarrow> os_step cancels w w'"
| notify: "ow_stack w = Notify a pid status k # st \<Longrightarrow> notify_next w = Done w' \<Longrightarrow> os_step cancels w w'"
| resume: "ow_frames w co = Some f \<Longrightarrow> \<forall>a pid. f = Wait_pid a pid \<longrightarrow> a \<notin> set (notified (ow_stack w)) \<and> (cancels \<or> failed \<noteq> None) \<Longrightarrow>
    os_wait_return co failed w = Done w' \<Longrightarrow> os_step cancels w w'"

definition os_start :: "os_world \<Rightarrow> bool" where
  "os_start w \<longleftrightarrow> (\<exists>w0. w = cat_os_wait_runtime_init w0 \<and> ow_tasks w0 = (\<lambda>_. None) \<and> ow_frames w0 = (\<lambda>_. None) \<and> ow_results w0 = (\<lambda>_. None) \<and>
     ow_stack w0 = [] \<and> ow_reported w0 = [])"

subsection \<open>Invariant\<close>

text \<open>The tree holds exactly the live tasks, and the waiters of a task are the coroutines that wait on it.\<close>

definition task_ok :: "os_world \<Rightarrow> addr \<Rightarrow> cat_os_waitpid_task_t \<Rightarrow> bool" where
  "task_ok w a t \<longleftrightarrow> wt_waiter_count t = length (wt_waiters t) \<and> wt_waiters t \<noteq> [] \<and> distinct (wt_waiters t) \<and> 0 < wt_pid t \<and>
     (\<forall>co. co \<in> set (wt_waiters t) \<longleftrightarrow> ow_frames w co = Some (Wait_pid a (wt_pid t)))"

definition tasks_ok :: "os_world \<Rightarrow> bool" where
  "tasks_ok w \<longleftrightarrow> rb_ok (ow_tree w) \<and> (\<forall>p a. map_of (ow_tree w) p = Some a \<longleftrightarrow> (\<exists>t. ow_tasks w a = Some t \<and> wt_pid t = p)) \<and>
     (\<forall>a t. ow_tasks w a = Some t \<longrightarrow> task_ok w a t) \<and>
     (\<forall>co a p. ow_frames w co = Some (Wait_pid a p) \<longrightarrow> (\<exists>t. ow_tasks w a = Some t \<and> wt_pid t = p))"

definition anys_ok :: "os_world \<Rightarrow> bool" where
  "anys_ok w \<longleftrightarrow> distinct (ow_waiter_list w) \<and> (\<forall>co. co \<in> set (ow_waiter_list w) \<longleftrightarrow> ow_frames w co = Some Wait_any) \<and>
     (\<forall>co \<in> set (ow_waiter_list w). ow_wait_tasks w co = (-1, 0))"

fun rest_ok :: "os_world \<Rightarrow> os_rest \<Rightarrow> bool" where
  "rest_ok w (Dispatch caller n) \<longleftrightarrow> (\<forall>co pid. caller = Some (co, pid) \<longrightarrow> pid \<noteq> 0)"
| "rest_ok w (Notify a p s k) \<longleftrightarrow>
     0 < k \<and> (p, s) \<in> set (ow_reported w) \<and> (\<exists>t. ow_tasks w a = Some t \<and> wt_pid t = p \<and> k \<le> length (wt_waiters t))"

definition stack_ok :: "os_world \<Rightarrow> bool" where
  "stack_ok w \<longleftrightarrow> (\<forall>x \<in> set (ow_stack w). rest_ok w x) \<and> distinct (callers (ow_stack w)) \<and>
     (\<forall>co \<in> set (callers (ow_stack w)). ow_frames w co = None) \<and> distinct (notified (ow_stack w))"

text \<open>The calls in progress are counted, but for \<open>k\<close> of them that a step has in hand.\<close>

definition count_ok :: "nat \<Rightarrow> os_world \<Rightarrow> bool" where
  "count_ok k w \<longleftrightarrow> finite (dom (ow_frames w)) \<and> ow_watcher_count w = k + length (callers (ow_stack w)) + card (dom (ow_frames w))"

fun result_ok :: "bool \<Rightarrow> os_world \<Rightarrow> os_result \<Rightarrow> bool" where
  "result_ok cancels w (Os_failed e) \<longleftrightarrow> True"
| "result_ok cancels w (Os_returned p s) \<longleftrightarrow> cancels \<or> p \<le> 0 \<or> (p, s) \<in> set (ow_reported w)"

definition found_ok :: "bool \<Rightarrow> os_world \<Rightarrow> bool" where
  "found_ok cancels w \<longleftrightarrow> rb_ok (ow_states w) \<and> set (ow_states w) \<subseteq> set (ow_reported w) \<and> (\<forall>x \<in> set (ow_states w). 0 < fst x) \<and>
     (\<forall>co r. ow_results w co = Some r \<longrightarrow> result_ok cancels w r)"

definition os_base :: "bool \<Rightarrow> nat \<Rightarrow> os_world \<Rightarrow> bool" where
  "os_base cancels k w \<longleftrightarrow> tasks_ok w \<and> anys_ok w \<and> stack_ok w \<and> count_ok k w \<and> found_ok cancels w"

abbreviation os_inv :: "bool \<Rightarrow> os_world \<Rightarrow> bool" where
  "os_inv cancels \<equiv> os_base cancels 0"

lemma os_baseD:
  assumes "os_base cancels k w"
  shows "tasks_ok w" "anys_ok w" "stack_ok w" "count_ok k w" "found_ok cancels w"
  using assms by (simp_all add: os_base_def)

lemma os_start_inv: "os_start w \<Longrightarrow> os_inv cancels w"
  by (auto simp: os_start_def os_base_def cat_os_wait_runtime_init_def tasks_ok_def anys_ok_def stack_ok_def count_ok_def found_ok_def rb_ok_def
      callers_def notified_def)

subsection \<open>Trees\<close>

lemma rb_remove_ok [simp]: "rb_ok t \<Longrightarrow> rb_ok (rb_remove k t)"
  by (simp add: rb_ok_def rb_remove_def sorted_filter distinct_map_filter)

lemma rb_find_remove [simp]: "map_of (rb_remove k t) k' = (if k' = k then None else map_of t k')"
  by (induction t) (auto simp: rb_remove_def)

lemma distinct_fst_insort: "distinct (map fst t) \<Longrightarrow> k \<notin> fst ` set t \<Longrightarrow> distinct (map fst (insort_key fst (k, v) t))"
  by (induction t) (auto simp: set_insort_key)

lemma rb_insert_ok [simp]: "rb_ok t \<Longrightarrow> rb_ok (rb_insert k v t)"
  by (auto simp: rb_ok_def rb_insert_def sorted_insort_key distinct_fst_insort map_of_eq_None_iff)

lemma map_of_insort: "map_of t k = None \<Longrightarrow> map_of (insort_key fst (k, v) t) k' = (if k' = k then Some v else map_of t k')"
  by (induction t) (auto split: if_splits)

lemma rb_find_insert [simp]: "map_of (rb_insert k v t) k' = (if k' = k \<and> map_of t k = None then Some v else map_of t k')"
  by (auto simp: rb_insert_def map_of_insort)

lemma set_rb_insert: "set (rb_insert k v t) \<subseteq> insert (k, v) (set t)"
  by (auto simp: rb_insert_def set_insort_key)

lemma set_rb_remove: "set (rb_remove k t) \<subseteq> set t"
  by (auto simp: rb_remove_def)

subsection \<open>The rests\<close>

lemma callers_simps [simp]: "callers [] = []" "callers (Dispatch None n # st) = callers st"
  "callers (Dispatch (Some (co, pid)) n # st) = co # callers st" "callers (Notify a p s k # st) = callers st"
  by (simp_all add: callers_def)

lemma notified_simps [simp]: "notified [] = []" "notified (Dispatch c n # st) = notified st" "notified (Notify a p s k # st) = a # notified st"
  by (simp_all add: notified_def)

lemma notified_iff: "a \<in> set (notified st) \<longleftrightarrow> (\<exists>p s k. Notify a p s k \<in> set st)"
  by (induction st) (auto simp: notified_def split: os_rest.splits)

subsection \<open>Leaving a wait\<close>

lemmas os_returns_simps = os_returns_def cat_os_wait_sigchld_watcher_end_def Let_def

lemma count_leave:
  assumes "count_ok k w" and "ow_frames w co \<noteq> None" and "ow_frames w' = (ow_frames w)(co := None)"
    and "ow_watcher_count w' = ow_watcher_count w - 1" and "callers (ow_stack w') = callers (ow_stack w)"
  shows "count_ok k w'"
proof -
  have m: "co \<in> dom (ow_frames w)" and f: "finite (dom (ow_frames w))" using assms(1,2) by (auto simp: count_ok_def)
  show ?thesis using assms(1,3-5) card_Suc_Diff1 [OF f m] by (simp add: count_ok_def)
qed

lemma count_enter:
  assumes "count_ok (Suc k) w" and "ow_frames w co = None" and "ow_frames w' = (ow_frames w)(co := Some f)"
    and "ow_watcher_count w' = ow_watcher_count w" and "callers (ow_stack w') = callers (ow_stack w)"
  shows "count_ok k w'"
  using assms by (simp add: count_ok_def domIff)

lemma found_returns:
  assumes "found_ok cancels w" and "result_ok cancels w r" and "ow_states w' = ow_states w" and "ow_reported w' = ow_reported w"
    and "ow_results w' = (ow_results w)(co := Some r)"
  shows "found_ok cancels w'"
proof -
  have "result_ok cancels w' x = result_ok cancels w x" for x using assms(4) by (cases x) simp_all
  then show ?thesis using assms by (auto simp: found_ok_def)
qed

lemma rest_ok_cong:
  "ow_tasks w' = ow_tasks w \<Longrightarrow> ow_reported w' = ow_reported w \<Longrightarrow> rest_ok w' x = rest_ok w x"
  by (cases x) simp_all

lemma rest_ok_stack [simp]: "rest_ok (w\<lparr>ow_stack := st\<rparr>) x = rest_ok w x"
  by (rule rest_ok_cong) simp_all

lemma callers_count: "callers (Dispatch caller (n + 1) # st) = callers (Dispatch caller n # st)"
  by (simp add: callers_def)

lemma tasks_ok_frames:
  assumes "\<And>c a p. ow_frames w' c = Some (Wait_pid a p) \<longleftrightarrow> ow_frames w c = Some (Wait_pid a p)" and "ow_tasks w' = ow_tasks w" and "ow_tree w' = ow_tree w"
  shows "tasks_ok w' = tasks_ok w"
  using assms by (simp add: tasks_ok_def task_ok_def)

lemma inv_leave_any:
  assumes inv: "os_base cancels k w" and f: "ow_frames w co = Some Wait_any" and "result_ok cancels w r" and "\<And>c. c \<noteq> co \<Longrightarrow> x c = ow_wait_tasks w c"
  shows "os_base cancels k (os_returns co r (w\<lparr>ow_wait_tasks := x, ow_waiter_list := remove1 co (ow_waiter_list w)\<rparr>))" (is "os_base _ _ ?w")
proof -
  note i = os_baseD [OF inv]
  have w: "ow_frames ?w = (ow_frames w)(co := None)" "ow_tasks ?w = ow_tasks w" "ow_tree ?w = ow_tree w" "ow_stack ?w = ow_stack w"
    "ow_states ?w = ow_states w" "ow_reported ?w = ow_reported w" "ow_results ?w = (ow_results w)(co := Some r)"
    "ow_watcher_count ?w = ow_watcher_count w - 1" "ow_waiter_list ?w = remove1 co (ow_waiter_list w)" "ow_wait_tasks ?w = x"
    by (simp_all add: os_returns_simps)
  have "tasks_ok ?w" using tasks_ok_frames [of ?w w] i(1) f w(1-3) by simp
  moreover have "anys_ok ?w" using i(2) f assms(4) by (auto simp: anys_ok_def w)
  moreover have "stack_ok ?w" using i(3) by (auto simp: stack_ok_def w rest_ok_cong [OF w(2,6)])
  moreover have "count_ok k ?w" using count_leave [OF i(4) _ w(1,8)] f w(4) by simp
  moreover have "found_ok cancels ?w" using found_returns [OF i(5) assms(3) w(5-7)] .
  ultimately show ?thesis by (simp add: os_base_def)
qed

text \<open>A waiter leaves a task whose loop, if there is one, has no need of it.\<close>

lemma inv_leave_pid:
  assumes inv: "os_base cancels k w" and f: "ow_frames w co = Some (Wait_pid a p)" and t: "ow_tasks w a = Some t"
    and slack: "\<forall>p s n. Notify a p s n \<in> set (ow_stack w) \<longrightarrow> n < length (wt_waiters t)"
    and r: "failed = None \<Longrightarrow> result_ok cancels w (Os_returned p (wt_status t))"
  shows "\<exists>w'. os_wait_return co failed w = Done w' \<and> os_base cancels k w' \<and> ow_stack w' = ow_stack w \<and>
    ow_results w' = (ow_results w)(co \<mapsto> (case failed of Some e \<Rightarrow> Os_failed e | None \<Rightarrow> Os_returned p (wt_status t))) \<and>
    ow_tasks w' = (ow_tasks w)(a := if length (wt_waiters t) = 1 then None
      else Some (t\<lparr>wt_waiters := remove1 co (wt_waiters t), wt_waiter_count := wt_waiter_count t - 1\<rparr>))"
proof -
  note i = os_baseD [OF inv]
  have t_ok: "task_ok w a t" and pid: "wt_pid t = p" using i(1) f t by (fastforce simp: tasks_ok_def)+
  define r' where "r' = (case failed of Some e \<Rightarrow> Os_failed e | None \<Rightarrow> Os_returned p (wt_status t))"
  define t' where "t' = t\<lparr>wt_waiters := remove1 co (wt_waiters t), wt_waiter_count := wt_waiter_count t - 1\<rparr>"
  define last where "last \<longleftrightarrow> length (wt_waiters t) = 1"
  define w' where "w' = os_returns co r' (if last then w\<lparr>ow_tree := rb_remove p (ow_tree w), ow_tasks := (ow_tasks w)(a := None)\<rparr> else put_task a t' w)"
  have member: "co \<in> set (wt_waiters t)" using t_ok f pid by (simp add: task_ok_def)
  have len: "wt_waiter_count t - 1 = 0 \<longleftrightarrow> last" using t_ok by (cases "wt_waiters t") (simp_all add: task_ok_def last_def)
  have "os_wait_return co failed w = Done w'"
    using len by (auto simp: os_wait_return_def f task_at_def t pid c_assert_def Let_def w'_def r'_def t'_def)
  moreover have w: "ow_frames w' = (ow_frames w)(co := None)" "ow_tasks w' = (ow_tasks w)(a := if last then None else Some t')"
    "ow_tree w' = (if last then rb_remove p (ow_tree w) else ow_tree w)" "ow_stack w' = ow_stack w"
    "ow_states w' = ow_states w" "ow_reported w' = ow_reported w" "ow_results w' = (ow_results w)(co := Some r')"
    "ow_watcher_count w' = ow_watcher_count w - 1" "ow_waiter_list w' = ow_waiter_list w" "ow_wait_tasks w' = ow_wait_tasks w"
    by (simp_all add: w'_def os_returns_simps put_task_def)
  have "tasks_ok w'"
  proof -
    have "co' \<in> set (wt_waiters t) \<Longrightarrow> last \<Longrightarrow> co' = co" for co'
      using member by (auto simp: last_def length_Suc_conv)
    then have frame: "ow_frames w' co' = Some (Wait_pid a q) \<Longrightarrow> \<not> last" for co' q
      using i(1) t t_ok by (fastforce simp: w(1) tasks_ok_def task_ok_def split: if_splits)
    have more: "\<not> last \<Longrightarrow> remove1 co (wt_waiters t) \<noteq> []"
      using member length_remove1 [of co "wt_waiters t"] by (cases "wt_waiters t") (auto simp: last_def)
    have t': "\<not> last \<Longrightarrow> task_ok w' a t'"
      using t_ok member pid more length_remove1 [of co "wt_waiters t"] by (auto simp: task_ok_def t'_def w(1))
    have tree: "map_of (ow_tree w) q = Some b \<longleftrightarrow> (\<exists>u. ow_tasks w b = Some u \<and> wt_pid u = q)" for q b using i(1) by (simp add: tasks_ok_def)
    have "map_of (ow_tree w') q = Some b \<longleftrightarrow> (\<exists>u. ow_tasks w' b = Some u \<and> wt_pid u = q)" for q b
    proof (cases last)
      case True
      then have "(\<exists>u. ow_tasks w' b = Some u \<and> wt_pid u = q) \<longleftrightarrow> b \<noteq> a \<and> map_of (ow_tree w) q = Some b" by (simp add: w(2) tree)
      moreover have "map_of (ow_tree w) p = Some a" using tree t pid by blast
      moreover have "map_of (ow_tree w) q = Some a \<Longrightarrow> q = p" using tree t pid by force
      moreover have "map_of (ow_tree w') q = (if q = p then None else map_of (ow_tree w) q)" using True by (simp add: w(3))
      ultimately show ?thesis by (metis option.inject option.distinct(1))
    next
      case False
      then show ?thesis using t by (auto simp: w tree t'_def)
    qed
    moreover have "task_ok w' b u" if "ow_tasks w' b = Some u" for b u
    proof (cases "b = a")
      case True
      then show ?thesis using that t' by (auto simp: w(2) split: if_splits)
    next
      case False
      then have "task_ok w b u" using that i(1) by (simp add: w(2) tasks_ok_def)
      then show ?thesis using False f by (auto simp: task_ok_def w(1))
    qed
    moreover have "\<exists>u. ow_tasks w' b = Some u \<and> wt_pid u = q" if "ow_frames w' c = Some (Wait_pid b q)" for c b q
    proof -
      have "ow_frames w c = Some (Wait_pid b q)" using that by (simp add: w(1) split: if_splits)
      then obtain u where "ow_tasks w b = Some u" "wt_pid u = q" using i(1) unfolding tasks_ok_def by blast
      then show ?thesis using frame [of c q] that t by (auto simp: w(2) t'_def)
    qed
    ultimately show ?thesis using i(1) by (auto simp: tasks_ok_def w(3))
  qed
  moreover have "anys_ok w'" using i(2) f by (auto simp: anys_ok_def w)
  moreover have "stack_ok w'"
  proof -
    have "rest_ok w' x" if "x \<in> set (ow_stack w)" for x
    proof -
      have "rest_ok w x" using i(3) that by (simp add: stack_ok_def)
      then show ?thesis using slack that t length_remove1 [of co "wt_waiters t"] member by (cases x) (fastforce simp: w(2,6) t'_def last_def split: if_splits)+
    qed
    then show ?thesis using i(3) by (auto simp: stack_ok_def w(1,4))
  qed
  moreover have "count_ok k w'" using count_leave [OF i(4) _ w(1,8)] f w(4) by simp
  moreover have "found_ok cancels w'" using found_returns [OF i(5) _ w(5-7)] r by (cases failed) (simp_all add: r'_def)
  ultimately show ?thesis using w(2,4,7) by (auto simp: os_base_def r'_def t'_def last_def)
qed

subsection \<open>The head of the loop\<close>

lemma result_ok_cong: "ow_reported w' = ow_reported w \<Longrightarrow> result_ok cancels w' r = result_ok cancels w r"
  by (cases r) simp_all

lemma inv_no_wait:
  assumes "os_base cancels (Suc k) w" and f: "ow_frames w co = None" and "result_ok cancels w r"
  shows "os_base cancels k (os_returns co r w)" (is "os_base _ _ ?w")
proof -
  note i = os_baseD [OF assms(1)]
  have w: "ow_frames ?w = ow_frames w" "ow_tasks ?w = ow_tasks w" "ow_tree ?w = ow_tree w" "ow_stack ?w = ow_stack w"
    "ow_states ?w = ow_states w" "ow_reported ?w = ow_reported w" "ow_results ?w = (ow_results w)(co := Some r)"
    "ow_watcher_count ?w = ow_watcher_count w - 1" "ow_waiter_list ?w = ow_waiter_list w" "ow_wait_tasks ?w = ow_wait_tasks w"
    using f by (auto simp: os_returns_simps)
  have "tasks_ok ?w" using tasks_ok_frames [of ?w w] i(1) w(1-3) by simp
  moreover have "anys_ok ?w" using i(2) by (simp add: anys_ok_def w)
  moreover have "stack_ok ?w" using i(3) by (simp add: stack_ok_def w rest_ok_cong [OF w(2,6)])
  moreover have "count_ok k ?w" using i(4) by (simp add: count_ok_def w)
  moreover have "found_ok cancels ?w" using found_returns [OF i(5) assms(3) w(5-7)] .
  ultimately show ?thesis by (simp add: os_base_def)
qed

text \<open>Changes of one component of the state.\<close>

lemma inv_states:
  assumes "os_base cancels k w" and "rb_ok t" and "set t \<subseteq> set (ow_reported w)" and "\<forall>x \<in> set t. 0 < fst x"
  shows "os_base cancels k (w\<lparr>ow_states := t\<rparr>)" (is "os_base _ _ ?w")
proof -
  note i = os_baseD [OF assms(1)]
  have "tasks_ok ?w" using tasks_ok_frames [of ?w w] i(1) by simp
  moreover have "anys_ok ?w" using i(2) by (simp add: anys_ok_def)
  moreover have "stack_ok ?w" using i(3) by (simp add: stack_ok_def rest_ok_cong [of ?w w])
  moreover have "count_ok k ?w" using i(4) by (simp add: count_ok_def)
  moreover have "found_ok cancels ?w" using i(5) assms(2-4) by (simp add: found_ok_def result_ok_cong [of ?w w])
  ultimately show ?thesis by (simp add: os_base_def)
qed

lemma inv_stack:
  assumes "os_base cancels k w" and "stack_ok (w\<lparr>ow_stack := st\<rparr>)" and "k' + length (callers st) = k + length (callers (ow_stack w))"
  shows "os_base cancels k' (w\<lparr>ow_stack := st\<rparr>)" (is "os_base _ _ ?w")
proof -
  note i = os_baseD [OF assms(1)]
  have "tasks_ok ?w" using tasks_ok_frames [of ?w w] i(1) by simp
  moreover have "anys_ok ?w" using i(2) by (simp add: anys_ok_def)
  moreover have "count_ok k' ?w" using i(4) assms(3) by (simp add: count_ok_def)
  moreover have "found_ok cancels ?w" using i(5) by (simp add: found_ok_def result_ok_cong [of ?w w])
  ultimately show ?thesis using assms(2) by (simp add: os_base_def)
qed

lemma inv_reported:
  assumes "os_base cancels k w"
  shows "os_base cancels k (w\<lparr>ow_reported := x # ow_reported w\<rparr>)" (is "os_base _ _ ?w")
proof -
  note i = os_baseD [OF assms]
  have rest: "rest_ok w y \<Longrightarrow> rest_ok ?w y" for y by (cases y) auto
  have result: "result_ok cancels w r \<Longrightarrow> result_ok cancels ?w r" for r by (cases r) auto
  have "tasks_ok ?w" using tasks_ok_frames [of ?w w] i(1) by simp
  moreover have "anys_ok ?w" using i(2) by (simp add: anys_ok_def)
  moreover have "stack_ok ?w" using i(3) rest by (simp add: stack_ok_def)
  moreover have "count_ok k ?w" using i(4) by (simp add: count_ok_def)
  moreover have "found_ok cancels ?w" using i(5) result by (auto simp: found_ok_def)
  ultimately show ?thesis by (simp add: os_base_def)
qed

lemma find_state_in: "find_state pid w = Some x \<Longrightarrow> x \<in> set (ow_states w)"
  by (auto simp: find_state_def dest: map_of_SomeD split: if_splits list.splits)

lemma stack_push:
  assumes "stack_ok w" and "rest_ok w x" and "distinct (callers (x # ow_stack w))" and "\<forall>co \<in> set (callers [x]). ow_frames w co = None"
    and "distinct (notified (x # ow_stack w))"
  shows "stack_ok (w\<lparr>ow_stack := x # ow_stack w\<rparr>)"
proof -
  have "callers (x # ow_stack w) = callers [x] @ callers (ow_stack w)" by (simp add: callers_def)
  then show ?thesis using assms by (auto simp: stack_ok_def)
qed

lemma stack_pop:
  assumes "stack_ok w" and "ow_stack w = x # st"
  shows "stack_ok (w\<lparr>ow_stack := st\<rparr>)"
proof -
  have "callers (x # st) = callers [x] @ callers st" "notified (x # st) = notified [x] @ notified st" by (simp_all add: callers_def notified_def)
  then show ?thesis using assms by (auto simp: stack_ok_def)
qed

lemma inv_turn:
  assumes inv: "os_base cancels 1 w" and f: "ow_frames w co = None" and c: "co \<notin> set (callers (ow_stack w))" and "pid \<noteq> 0"
  shows "os_inv cancels (os_wait_turn co pid alive w)"
proof -
  note i = os_baseD [OF inv]
  show ?thesis
  proof (cases "find_state pid w")
    case None
    have "os_inv cancels (os_returns co (Os_failed CAT_ECHILD) w)" using inv_no_wait [of cancels 0 w co] inv f by simp
    moreover have "os_inv cancels (w\<lparr>ow_stack := Dispatch (Some (co, pid)) 0 # ow_stack w\<rparr>)"
      by (rule inv_stack [OF inv stack_push]) (use i(3) f c assms(4) in \<open>auto simp: stack_ok_def\<close>)
    ultimately show ?thesis using None by (simp add: os_wait_turn_def)
  next
    case (Some x)
    then have x: "x \<in> set (ow_states w)" by (rule find_state_in)
    have "os_base cancels 1 (w\<lparr>ow_states := rb_remove (fst x) (ow_states w)\<rparr>)"
      by (rule inv_states [OF inv]) (use i(5) set_rb_remove in \<open>fastforce simp: found_ok_def\<close>)+
    then have "os_inv cancels (os_returns co (Os_returned (fst x) (snd x)) (w\<lparr>ow_states := rb_remove (fst x) (ow_states w)\<rparr>))"
      by (intro inv_no_wait) (use x f i(5) in \<open>auto simp: found_ok_def\<close>)
    then show ?thesis using Some by (cases x) (simp add: os_wait_turn_def)
  qed
qed

subsection \<open>Entering a wait\<close>

lemma inv_enter_any:
  assumes inv: "os_base cancels 1 w" and f: "ow_frames w co = None" and c: "co \<notin> set (callers (ow_stack w))" and "pid < 0"
  shows "\<exists>w'. os_wait_suspend co pid fresh w = Done w' \<and> os_inv cancels w'"
proof -
  note i = os_baseD [OF inv]
  let ?w = "w\<lparr>ow_wait_tasks := (ow_wait_tasks w)(co := (-1, 0)), ow_waiter_list := ow_waiter_list w @ [co], ow_frames := (ow_frames w)(co := Some Wait_any)\<rparr>"
  have "tasks_ok ?w" using tasks_ok_frames [of ?w w] i(1) f by simp
  moreover have "anys_ok ?w" using i(2) f by (auto simp: anys_ok_def)
  moreover have "stack_ok ?w" using i(3) c by (auto simp: stack_ok_def rest_ok_cong [of ?w w])
  moreover have "count_ok 0 ?w" using count_enter [of 0 w co ?w Wait_any] i(4) f by simp
  moreover have "found_ok cancels ?w" using i(5) by (simp add: found_ok_def result_ok_cong [of ?w w])
  ultimately show ?thesis using assms(4) by (simp add: os_wait_suspend_def os_base_def)
qed

text \<open>The task at \<open>a\<close> is an old one, or a new one with no waiters.\<close>

lemma tasks_enter:
  assumes ok: "tasks_ok w" and f: "ow_frames w co = None" and "0 < pid"
    and w': "ow_frames w' = (ow_frames w)(co := Some (Wait_pid a pid))" "ow_tasks w' = (ow_tasks w)(a := Some t')" "rb_ok (ow_tree w')"
      "\<And>q. map_of (ow_tree w') q = (if q = pid then Some a else map_of (ow_tree w) q)"
    and t': "wt_pid t' = pid" "wt_waiters t' = ws @ [co]" "wt_waiter_count t' = length ws + 1"
    and old: "case ow_tasks w a of Some t \<Rightarrow> wt_pid t = pid \<and> ws = wt_waiters t | None \<Rightarrow> ws = [] \<and> map_of (ow_tree w) pid = None"
  shows "tasks_ok w'"
proof -
  have tree: "map_of (ow_tree w) q = Some b \<longleftrightarrow> (\<exists>u. ow_tasks w b = Some u \<and> wt_pid u = q)" for q b using ok by (simp add: tasks_ok_def)
  have frames: "ow_frames w c = Some (Wait_pid b q) \<Longrightarrow> \<exists>u. ow_tasks w b = Some u \<and> wt_pid u = q" for c b q using ok unfolding tasks_ok_def by blast
  have "map_of (ow_tree w') q = Some b \<longleftrightarrow> (\<exists>u. ow_tasks w' b = Some u \<and> wt_pid u = q)" for q b
  proof (cases "b = a")
    case True
    have "map_of (ow_tree w) q = Some a \<Longrightarrow> q = pid" using tree old by (auto split: option.splits)
    then show ?thesis using True t'(1) by (auto simp: w')
  next
    case False
    have "map_of (ow_tree w) pid \<noteq> Some b"
    proof
      assume b: "map_of (ow_tree w) pid = Some b"
      then obtain t where "ow_tasks w a = Some t" "wt_pid t = pid" using old by (auto split: option.splits)
      then have "map_of (ow_tree w) pid = Some a" using tree by blast
      then show False using b False by simp
    qed
    then have "map_of (ow_tree w') q = Some b \<longleftrightarrow> map_of (ow_tree w) q = Some b" using False by (simp add: w'(4))
    then show ?thesis using False by (simp add: w'(2) tree)
  qed
  moreover have "task_ok w' b u" if u: "ow_tasks w' b = Some u" for b u
  proof (cases "b = a")
    case True
    have "c \<in> set ws \<longleftrightarrow> ow_frames w c = Some (Wait_pid a pid)" and "distinct ws" for c
    proof -
      show "distinct ws" using ok old by (auto simp: tasks_ok_def task_ok_def split: option.splits)
      show "c \<in> set ws \<longleftrightarrow> ow_frames w c = Some (Wait_pid a pid)"
      proof (cases "ow_tasks w a")
        case None
        then show ?thesis using old frames by fastforce
      next
        case (Some t)
        then have "task_ok w a t" using ok by (simp add: tasks_ok_def)
        then show ?thesis using old Some by (auto simp: task_ok_def)
      qed
    qed
    then show ?thesis using True u t' assms(3) f by (auto simp: task_ok_def w'(1,2))
  next
    case False
    then have "task_ok w b u" using u ok by (simp add: w'(2) tasks_ok_def)
    then show ?thesis using False f by (auto simp: task_ok_def w'(1))
  qed
  moreover have "\<exists>u. ow_tasks w' b = Some u \<and> wt_pid u = q" if "ow_frames w' c = Some (Wait_pid b q)" for c b q
  proof (cases "b = a")
    case True
    have "q = pid"
    proof (cases "c = co")
      case False
      then show ?thesis using that True frames [of c a q] old by (auto simp: w'(1))
    qed (use that in \<open>simp add: w'(1)\<close>)
    then show ?thesis using True t'(1) by (simp add: w'(2))
  next
    case False
    then show ?thesis using that frames [of c b q] by (simp add: w'(1,2) split: if_splits)
  qed
  ultimately show ?thesis using w'(3) by (auto simp: tasks_ok_def)
qed

lemma inv_enter_task:
  assumes inv: "os_base cancels 1 w" and f: "ow_frames w co = None" and c: "co \<notin> set (callers (ow_stack w))" and "0 < pid" and "ow_tasks w new = None"
    and fresh: "map_of (ow_tree w) pid = None \<Longrightarrow> fresh = Some new"
  shows "\<exists>w'. os_wait_suspend co pid fresh w = Done w' \<and> os_inv cancels w'"
proof -
  note i = os_baseD [OF inv]
  define a where "a = (case map_of (ow_tree w) pid of Some a \<Rightarrow> a | None \<Rightarrow> new)"
  define tree where "tree = (case map_of (ow_tree w) pid of Some a \<Rightarrow> ow_tree w | None \<Rightarrow> rb_insert pid new (ow_tree w))"
  define t where "t = (case ow_tasks w a of Some t \<Rightarrow> t | None \<Rightarrow> \<lparr>wt_pid = pid, wt_status = 0, wt_waiter_count = 0, wt_waiters = []\<rparr>)"
  define t' where "t' = t\<lparr>wt_waiter_count := wt_waiter_count t + 1, wt_waiters := wt_waiters t @ [co]\<rparr>"
  define w' where "w' = w\<lparr>ow_tasks := (ow_tasks w)(a := Some t'), ow_tree := tree, ow_frames := (ow_frames w)(co := Some (Wait_pid a pid))\<rparr>"
  have w'_simps: "ow_frames w' = (ow_frames w)(co := Some (Wait_pid a pid))" "ow_tasks w' = (ow_tasks w)(a := Some t')" "ow_tree w' = tree"
    "ow_stack w' = ow_stack w" "ow_reported w' = ow_reported w" "ow_states w' = ow_states w" "ow_results w' = ow_results w"
    "ow_waiter_list w' = ow_waiter_list w" "ow_wait_tasks w' = ow_wait_tasks w" "ow_watcher_count w' = ow_watcher_count w"
    by (simp_all add: w'_def)
  have live: "map_of (ow_tree w) pid = Some b \<Longrightarrow> \<exists>u. ow_tasks w b = Some u \<and> wt_pid u = pid" for b using i(1) by (simp add: tasks_ok_def)
  have run: "os_wait_suspend co pid fresh w = Done w'"
  proof (cases "map_of (ow_tree w) pid")
    case None
    then show ?thesis using assms(4,5) fresh by (cases w) (simp add: os_wait_suspend_def task_at_def put_task_def w'_def t'_def t_def a_def tree_def)
  next
    case (Some b)
    then show ?thesis using assms(4) live [OF Some] by (cases w) (auto simp: os_wait_suspend_def task_at_def put_task_def w'_def t'_def t_def a_def tree_def)
  qed
  moreover have old: "case ow_tasks w a of Some t0 \<Rightarrow> wt_pid t0 = pid \<and> wt_waiters t = wt_waiters t0 | None \<Rightarrow> wt_waiters t = [] \<and> map_of (ow_tree w) pid = None"
    using live assms(5) by (auto simp: a_def t_def split: option.splits)
  moreover have pid: "wt_pid t = pid" and count: "wt_waiter_count t = length (wt_waiters t)"
    using live assms(5) i(1) by (auto simp: a_def t_def tasks_ok_def task_ok_def split: option.splits)
  moreover have "rb_ok tree" using i(1) by (auto simp: tree_def tasks_ok_def split: option.splits)
  moreover have "map_of tree q = (if q = pid then Some a else map_of (ow_tree w) q)" for q by (auto simp: tree_def a_def split: option.splits)
  ultimately have "tasks_ok w'"
    by (intro tasks_enter [OF i(1) f assms(4) w'_simps(1,2) _ _ _ _ _ old]) (simp_all add: w'_simps t'_def)
  moreover have "anys_ok w'" using i(2) f by (auto simp: anys_ok_def w'_simps)
  moreover have "stack_ok w'"
  proof -
    have "rest_ok w' x" if "rest_ok w x" for x using that old by (cases x) (auto simp: w'_simps t'_def t_def split: option.splits)
    then show ?thesis using i(3) c by (auto simp: stack_ok_def w'_simps)
  qed
  moreover have "count_ok 0 w'" using count_enter [of 0 w co w'] i(4) f by (simp add: w'_simps)
  moreover have "found_ok cancels w'" using i(5) by (simp add: found_ok_def w'_simps result_ok_cong [of w' w])
  ultimately show ?thesis using run by (simp add: os_base_def)
qed

lemma inv_enter_pid:
  assumes inv: "os_base cancels 1 w" and f: "ow_frames w co = None" and c: "co \<notin> set (callers (ow_stack w))" and "0 < pid" and "fresh_ok w fresh"
  shows "\<exists>w'. os_wait_suspend co pid fresh w = Done w' \<and> os_inv cancels w'"
proof (cases fresh)
  case (Some new)
  then show ?thesis using inv_enter_task [OF inv f c assms(4), of new fresh] assms(5) by (simp add: fresh_ok_def)
next
  case None
  show ?thesis
  proof (cases "map_of (ow_tree w) pid")
    case None
    have "os_inv cancels (os_returns co (Os_failed CAT_ENOMEM) w)" using inv_no_wait [of cancels 0 w co] inv f by simp
    then show ?thesis using None \<open>fresh = None\<close> assms(4) by (simp add: os_wait_suspend_def)
  next
    case (Some a)
    then obtain t where "ow_tasks w a = Some t" using os_baseD(1) [OF inv] by (auto simp: tasks_ok_def)
    moreover have "finite (dom (ow_tasks w))"
    proof -
      have "b \<in> snd ` set (ow_tree w)" if "ow_tasks w b = Some u" for b u
      proof -
        have "map_of (ow_tree w) (wt_pid u) = Some b" using os_baseD(1) [OF inv] that by (auto simp: tasks_ok_def)
        then show ?thesis using map_of_SomeD by force
      qed
      then have "dom (ow_tasks w) \<subseteq> snd ` set (ow_tree w)" by blast
      then show ?thesis using finite_surj by blast
    qed
    then obtain new where "new \<notin> dom (ow_tasks w)" using ex_new_if_finite infinite_UNIV_nat by blast
    ultimately show ?thesis using inv_enter_task [OF inv f c assms(4), of new fresh] Some by (simp add: domIff)
  qed
qed

subsection \<open>The steps of a dispatcher\<close>

lemma inv_report:
  assumes inv: "os_inv cancels w" and st: "ow_stack w = Dispatch caller n # st" and "0 < pid"
    and rule: "\<forall>a \<in> set (notified st). map_of (ow_tree w) pid \<noteq> Some a"
  shows "\<exists>w'. dispatch_report memory pid status w = Done w' \<and> os_inv cancels w'"
proof -
  let ?w = "w\<lparr>ow_reported := (pid, status) # ow_reported w\<rparr>"
  have inv': "os_inv cancels ?w" by (rule inv_reported [OF inv])
  note i = os_baseD [OF inv']
  show ?thesis
  proof (cases "map_of (ow_tree w) pid")
    case (Some a)
    then obtain t where t: "ow_tasks w a = Some t" "wt_pid t = pid" using i(1) by (auto simp: tasks_ok_def)
    have len: "wt_waiter_count t = length (wt_waiters t)" "wt_waiters t \<noteq> []" using i(1) t(1) by (auto simp: tasks_ok_def task_ok_def)
    have "os_inv cancels (?w\<lparr>ow_stack := Notify a pid status (wt_waiter_count t) # ow_stack ?w\<rparr>)"
      by (rule inv_stack [OF inv' stack_push [OF i(3)]]) (use i(3) st t len rule Some in \<open>auto simp: stack_ok_def\<close>)
    then show ?thesis using st Some t(1) by (simp add: dispatch_report_def task_at_def)
  next
    case None
    show ?thesis
    proof (cases "ow_waiter_list w")
      case (Cons co cos)
      then have f: "ow_frames w co = Some Wait_any" "ow_wait_tasks w co = (-1, 0)" using i(2) by (auto simp: anys_ok_def)
      have "os_inv cancels (os_returns co (Os_returned pid status)
          (?w\<lparr>ow_wait_tasks := (ow_wait_tasks w)(co := (pid, status)), ow_waiter_list := remove1 co (ow_waiter_list ?w)\<rparr>))"
        by (rule inv_leave_any [OF inv']) (use f in simp_all)
      then show ?thesis using st None Cons f by (simp add: dispatch_report_def os_wait_return_def c_assert_def Let_def)
    next
      case Nil
      have "os_inv cancels (?w\<lparr>ow_states := rb_insert pid status (ow_states w)\<rparr>)" (is "os_inv _ ?w1")
        by (rule inv_states [OF inv']) (use i(5) assms(3) set_rb_insert [of pid status "ow_states w"] in \<open>fastforce simp: found_ok_def\<close>)+
      note i1 = this os_baseD [OF this]
      have "stack_ok (?w1\<lparr>ow_stack := Dispatch caller (n + 1) # st\<rparr>)"
        using i1(4) st callers_count [of caller n st] by (simp add: stack_ok_def)
      then have "os_inv cancels (?w1\<lparr>ow_stack := Dispatch caller (n + 1) # st\<rparr>)" by (rule inv_stack [OF i1(1)]) (use st in \<open>simp add: callers_def\<close>)
      then show ?thesis using st None Nil inv' by (cases memory) (simp_all add: dispatch_report_def Let_def)
    qed
  qed
qed

lemma inv_status:
  assumes inv: "os_base cancels k w" and t: "ow_tasks w a = Some t"
  shows "os_base cancels k (put_task a (t\<lparr>wt_status := s\<rparr>) w)" (is "os_base _ _ ?w")
proof -
  note i = os_baseD [OF inv]
  have w: "ow_frames ?w = ow_frames w" "ow_tasks ?w = (ow_tasks w)(a := Some (t\<lparr>wt_status := s\<rparr>))" "ow_tree ?w = ow_tree w" "ow_stack ?w = ow_stack w"
    "ow_reported ?w = ow_reported w" "ow_states ?w = ow_states w" "ow_results ?w = ow_results w"
    "ow_waiter_list ?w = ow_waiter_list w" "ow_wait_tasks ?w = ow_wait_tasks w" "ow_watcher_count ?w = ow_watcher_count w"
    by (simp_all add: put_task_def)
  have pid: "(\<exists>u. ow_tasks ?w b = Some u \<and> wt_pid u = q) \<longleftrightarrow> (\<exists>u. ow_tasks w b = Some u \<and> wt_pid u = q)" for b q using t by (auto simp: w)
  have "task_ok ?w b u" if "ow_tasks ?w b = Some u" for b u
    using i(1) t that by (auto simp: tasks_ok_def task_ok_def w split: if_splits)
  then have "tasks_ok ?w" using i(1) unfolding tasks_ok_def w(1,3) pid by blast
  moreover have "anys_ok ?w" using i(2) by (simp add: anys_ok_def w)
  moreover have "stack_ok ?w"
  proof -
    have "rest_ok ?w x" if "rest_ok w x" for x using that t by (cases x) (auto simp: w)
    then show ?thesis using i(3) by (simp add: stack_ok_def w)
  qed
  moreover have "count_ok k ?w" using i(4) by (simp add: count_ok_def w)
  moreover have "found_ok cancels ?w" using i(5) by (simp add: found_ok_def w result_ok_cong [of ?w w])
  ultimately show ?thesis by (simp add: os_base_def)
qed

text \<open>A turn of the loop resumes the first waiter with the status.\<close>

lemma inv_notify:
  assumes inv: "os_inv cancels w" and st: "ow_stack w = Notify a pid status k # st"
  shows "\<exists>t co cos w'. ow_tasks w a = Some t \<and> wt_waiters t = co # cos \<and> notify_next w = Done w' \<and> os_inv cancels w' \<and>
    ow_stack w' = (if k = 1 then st else Notify a pid status (k - 1) # st) \<and> ow_results w' = (ow_results w)(co \<mapsto> Os_returned pid status) \<and>
    (k \<noteq> 1 \<longrightarrow> (\<exists>t'. ow_tasks w' a = Some t' \<and> wt_waiters t' = cos))"
proof -
  note i = os_baseD [OF inv]
  have rest: "rest_ok w (Notify a pid status k)" using i(3) st by (simp add: stack_ok_def)
  then obtain t where t: "ow_tasks w a = Some t" "wt_pid t = pid" "k \<le> length (wt_waiters t)" and k: "0 < k" and r: "(pid, status) \<in> set (ow_reported w)"
    by auto
  then obtain co cos where ws: "wt_waiters t = co # cos" by (cases "wt_waiters t") auto
  have f: "ow_frames w co = Some (Wait_pid a pid)" using i(1) t ws by (fastforce simp: tasks_ok_def task_ok_def)
  define st' where "st' = (if k - 1 = 0 then st else Notify a pid status (k - 1) # st)"
  define w1 where "w1 = put_task a (t\<lparr>wt_status := status\<rparr>) w"
  have w1: "os_inv cancels w1" unfolding w1_def by (rule inv_status [OF inv t(1)])
  have s1: "stack_ok (w1\<lparr>ow_stack := st'\<rparr>)"
  proof -
    have "\<forall>x \<in> set (ow_stack w1). rest_ok (w1\<lparr>ow_stack := st'\<rparr>) x"
      using os_baseD(3) [OF w1] by (simp add: stack_ok_def)
    moreover have "rest_ok (w1\<lparr>ow_stack := st'\<rparr>) (Notify a pid status (k - 1))" if "k - 1 \<noteq> 0" using that t r by (simp add: w1_def put_task_def)
    ultimately show ?thesis using os_baseD(3) [OF w1] st by (auto simp: stack_ok_def st'_def w1_def put_task_def)
  qed
  have w2: "os_inv cancels (w1\<lparr>ow_stack := st'\<rparr>)" by (rule inv_stack [OF w1 s1]) (simp add: w1_def put_task_def st st'_def)
  have t2: "ow_tasks (w1\<lparr>ow_stack := st'\<rparr>) a = Some (t\<lparr>wt_status := status\<rparr>)" and f2: "ow_frames (w1\<lparr>ow_stack := st'\<rparr>) co = Some (Wait_pid a pid)"
    using f by (simp_all add: w1_def put_task_def)
  have slack: "\<forall>p s n. Notify a p s n \<in> set (ow_stack (w1\<lparr>ow_stack := st'\<rparr>)) \<longrightarrow> n < length (wt_waiters (t\<lparr>wt_status := status\<rparr>))"
  proof (intro allI impI)
    fix p s n assume that: "Notify a p s n \<in> set (ow_stack (w1\<lparr>ow_stack := st'\<rparr>))"
    have "a \<notin> set (notified st)" using i(3) st by (simp add: stack_ok_def)
    then have "Notify a p s n \<notin> set st" by (auto simp: notified_iff)
    then show "n < length (wt_waiters (t\<lparr>wt_status := status\<rparr>))" using that t(3) k by (auto simp: st'_def split: if_splits)
  qed
  have r2: "result_ok cancels (w1\<lparr>ow_stack := st'\<rparr>) (Os_returned pid (wt_status (t\<lparr>wt_status := status\<rparr>)))" using r by (simp add: w1_def put_task_def)
  obtain w' where w': "os_wait_return co None (w1\<lparr>ow_stack := st'\<rparr>) = Done w'" "os_inv cancels w'" "ow_stack w' = st'"
      "ow_results w' = (ow_results w)(co \<mapsto> Os_returned pid status)"
      "ow_tasks w' = (ow_tasks w)(a := if length (wt_waiters t) = 1 then None else Some (t\<lparr>wt_status := status, wt_waiters := cos, wt_waiter_count := wt_waiter_count t - 1\<rparr>))"
    using inv_leave_pid [where failed = None, OF w2 f2 t2 slack r2] ws by (auto simp: w1_def put_task_def)
  have "notify_next w = Done w'" using w'(1) st t ws by (simp add: notify_next_def task_at_def c_assert_def w1_def st'_def)
  moreover have "k \<noteq> 1 \<Longrightarrow> length (wt_waiters t) \<noteq> 1" using t(3) k by linarith
  ultimately show ?thesis using t ws w'(2-5) k by (auto simp: st'_def)
qed

lemma inv_dispatched:
  assumes inv: "os_inv cancels w" and st: "ow_stack w = Dispatch caller n # st" and "fresh_ok w fresh"
  shows "\<exists>w'. dispatch_end alive fresh w = Done w' \<and> os_inv cancels w'"
proof -
  note i = os_baseD [OF inv]
  have pop: "stack_ok (w\<lparr>ow_stack := st\<rparr>)" by (rule stack_pop [OF i(3) st])
  show ?thesis
  proof (cases caller)
    case None
    then have "os_inv cancels (w\<lparr>ow_stack := st\<rparr>)" using inv_stack [OF inv pop, of 0] st by simp
    then show ?thesis using st None by (simp add: dispatch_end_def)
  next
    case (Some c)
    obtain co pid where c: "c = (co, pid)" by fastforce
    then have base: "os_base cancels 1 (w\<lparr>ow_stack := st\<rparr>)" using inv_stack [OF inv pop, of 1] st Some by simp
    have co: "ow_frames (w\<lparr>ow_stack := st\<rparr>) co = None" "co \<notin> set (callers (ow_stack (w\<lparr>ow_stack := st\<rparr>)))" "pid \<noteq> 0"
      using i(3) st Some c by (auto simp: stack_ok_def)
    show ?thesis
    proof (cases "0 < n")
      case True
      then show ?thesis using inv_turn [OF base co] st Some c by (simp add: dispatch_end_def Let_def)
    next
      case False
      have "\<exists>w'. os_wait_suspend co pid fresh (w\<lparr>ow_stack := st\<rparr>) = Done w' \<and> os_inv cancels w'"
        using inv_enter_any [OF base co(1,2)] inv_enter_pid [OF base co(1,2)] co(3) assms(3) by (cases "pid < 0") auto
      then show ?thesis using False st Some c by (simp add: dispatch_end_def Let_def)
    qed
  qed
qed

lemma inv_resume_wait:
  assumes inv: "os_inv cancels w" and f: "ow_frames w co = Some f"
    and rule: "\<forall>a pid. f = Wait_pid a pid \<longrightarrow> a \<notin> set (notified (ow_stack w)) \<and> (cancels \<or> failed \<noteq> None)"
  shows "\<exists>w'. os_wait_return co failed w = Done w' \<and> os_inv cancels w'"
proof (cases f)
  case Wait_any
  let ?r = "case failed of Some e \<Rightarrow> Os_failed e | None \<Rightarrow> Os_returned (-1) 0"
  have t: "ow_wait_tasks w co = (-1, 0)" using os_baseD(2) [OF inv] f Wait_any by (simp add: anys_ok_def)
  have "os_inv cancels (os_returns co ?r (w\<lparr>ow_wait_tasks := ow_wait_tasks w, ow_waiter_list := remove1 co (ow_waiter_list w)\<rparr>))"
    by (rule inv_leave_any [OF inv]) (use f Wait_any in \<open>simp_all split: option.splits\<close>)
  then show ?thesis using f Wait_any t by (cases w) (simp add: os_wait_return_def Let_def)
next
  case (Wait_pid a pid)
  then obtain t where t: "ow_tasks w a = Some t" using os_baseD(1) [OF inv] f unfolding tasks_ok_def by blast
  show ?thesis using inv_leave_pid [of cancels 0 w co a pid t failed] inv f Wait_pid t rule by (auto simp: notified_iff)
qed

lemma inv_call:
  assumes inv: "os_inv cancels w" and "ow_frames w co = None" and "co \<notin> set (callers (ow_stack w))"
  shows "os_inv cancels (cat_os__wait_wrapper co pid alive w)"
proof -
  let ?w = "cat_os_wait_sigchld_watcher_start w"
  note i = os_baseD [OF inv]
  have w: "ow_frames ?w = ow_frames w" "ow_tasks ?w = ow_tasks w" "ow_tree ?w = ow_tree w" "ow_stack ?w = ow_stack w"
    "ow_reported ?w = ow_reported w" "ow_states ?w = ow_states w" "ow_results ?w = ow_results w"
    "ow_waiter_list ?w = ow_waiter_list w" "ow_wait_tasks ?w = ow_wait_tasks w" "ow_watcher_count ?w = ow_watcher_count w + 1"
    by (simp_all add: cat_os_wait_sigchld_watcher_start_def)
  have "tasks_ok ?w" using tasks_ok_frames [of ?w w] i(1) w(1-3) by simp
  moreover have "anys_ok ?w" using i(2) by (simp add: anys_ok_def w)
  moreover have "stack_ok ?w" using i(3) by (simp add: stack_ok_def w rest_ok_cong [OF w(2,5)])
  moreover have "count_ok 1 ?w" using i(4) by (simp add: count_ok_def w)
  moreover have "found_ok cancels ?w" using i(5) by (simp add: found_ok_def w result_ok_cong [of ?w w])
  ultimately have base: "os_base cancels 1 ?w" by (simp add: os_base_def)
  show ?thesis
  proof (cases "pid = 0")
    case True
    then show ?thesis using inv_no_wait [of cancels 0 ?w co] base assms(2) w(1) by (simp add: cat_os__wait_wrapper_def cat_os__wait_def)
  next
    case False
    then show ?thesis using inv_turn [OF base _ _ False] assms(2,3) w(1,4) by (simp add: cat_os__wait_wrapper_def cat_os__wait_def)
  qed
qed

lemma inv_signal: "os_inv cancels w \<Longrightarrow> os_inv cancels (cat_os_wait_sigchld_handler w)"
  unfolding cat_os_wait_sigchld_handler_def by (rule inv_stack, assumption, rule stack_push) (auto dest: os_baseD(3) simp: stack_ok_def)

lemma os_step_inv:
  assumes "os_step cancels w w'" and inv: "os_inv cancels w"
  shows "os_inv cancels w'"
  using assms(1)
proof cases
  case call
  then show ?thesis using inv_call inv by simp
next
  case signal
  then show ?thesis using inv_signal inv by simp
next
  case report
  then show ?thesis using run_kept [OF inv_report [OF inv report(1-3)]] by blast
next
  case dispatched
  then show ?thesis using run_kept [OF inv_dispatched [OF inv dispatched(1,2)]] by blast
next
  case notify
  then show ?thesis using inv_notify [OF inv notify(1)] by force
next
  case resume
  then show ?thesis using run_kept [OF inv_resume_wait [OF inv resume(1,2)]] by blast
qed

interpretation os_wait: machine os_start "os_step cancels" "os_inv cancels" for cancels
  by unfold_locales (auto intro: os_start_inv os_step_inv)

abbreviation os_reachable :: "bool \<Rightarrow> os_world \<Rightarrow> bool" where
  "os_reachable cancels \<equiv> reach os_start (os_step cancels)"

subsection \<open>Correctness\<close>

text \<open>C23: No call, no resumption and no turn of a dispatcher goes wrong: under the rules no task is used that was freed and no assertion fails, however
  dispatchers nest.\<close>

theorem os_wait_calls_return:
  assumes "os_reachable cancels w"
  shows "(\<forall>caller n st pid. ow_stack w = Dispatch caller n # st \<and> 0 < pid \<and> (\<forall>a \<in> set (notified st). map_of (ow_tree w) pid \<noteq> Some a) \<longrightarrow>
      (\<exists>w'. dispatch_report memory pid status w = Done w')) \<and>
    (\<forall>caller n st fresh. ow_stack w = Dispatch caller n # st \<and> fresh_ok w fresh \<longrightarrow> (\<exists>w'. dispatch_end alive fresh w = Done w')) \<and>
    (\<forall>a pid k st. ow_stack w = Notify a pid status k # st \<longrightarrow> (\<exists>w'. notify_next w = Done w')) \<and>
    (\<forall>co f. ow_frames w co = Some f \<and> (\<forall>a pid. f = Wait_pid a pid \<longrightarrow> a \<notin> set (notified (ow_stack w)) \<and> (cancels \<or> failed \<noteq> None)) \<longrightarrow>
      (\<exists>w'. os_wait_return co failed w = Done w'))"
proof -
  have inv: "os_inv cancels w" using os_wait.reach_inv assms .
  show ?thesis
  proof (intro conjI allI impI)
    fix caller n st pid
    assume "ow_stack w = Dispatch caller n # st \<and> 0 < pid \<and> (\<forall>a \<in> set (notified st). map_of (ow_tree w) pid \<noteq> Some a)"
    then show "\<exists>w'. dispatch_report memory pid status w = Done w'" using inv_report [OF inv] by blast
  next
    fix caller n st fresh
    assume "ow_stack w = Dispatch caller n # st \<and> fresh_ok w fresh"
    then show "\<exists>w'. dispatch_end alive fresh w = Done w'" using inv_dispatched [OF inv] by blast
  next
    fix a pid k st
    assume "ow_stack w = Notify a pid status k # st"
    then show "\<exists>w'. notify_next w = Done w'" using inv_notify [OF inv] by blast
  next
    fix co f
    assume "ow_frames w co = Some f \<and> (\<forall>a pid. f = Wait_pid a pid \<longrightarrow> a \<notin> set (notified (ow_stack w)) \<and> (cancels \<or> failed \<noteq> None))"
    then show "\<exists>w'. os_wait_return co failed w = Done w'" using inv_resume_wait [OF inv, of co f failed] by auto
  qed
qed

text \<open>C25: A status is true. If no waiter for a process is canceled, a call that returns a process and a status returns what the kernel has reported for this
  process.\<close>

theorem os_status_reported:
  assumes "os_reachable False w" and "ow_results w co = Some (Os_returned pid status)" and "0 < pid"
  shows "(pid, status) \<in> set (ow_reported w)"
  using os_baseD(5) [OF os_wait.reach_inv [OF assms(1)]] assms(2,3) by (fastforce simp: found_ok_def)

text \<open>The loop over the waiters, run by itself.\<close>

fun notify_run :: "nat \<Rightarrow> os_world \<Rightarrow> os_world c_run" where
  "notify_run 0 w = Done w"
| "notify_run (Suc n) w = c_bind (notify_next w) (notify_run n)"

lemma notify_run_all:
  assumes "os_inv cancels w" and "ow_stack w = Notify a pid status k # st" and "ow_tasks w a = Some t"
  shows "\<exists>w'. notify_run k w = Done w' \<and> ow_stack w' = st \<and>
    (\<forall>co. ow_results w' co = (if co \<in> set (take k (wt_waiters t)) then Some (Os_returned pid status) else ow_results w co))"
  using assms
proof (induction k arbitrary: w t)
  case 0
  then show ?case using os_baseD(3) [OF 0(1)] by (simp add: stack_ok_def)
next
  case (Suc k)
  obtain co cos w1 where n: "wt_waiters t = co # cos" "notify_next w = Done w1" "os_inv cancels w1"
      "ow_stack w1 = (if Suc k = 1 then st else Notify a pid status k # st)" "ow_results w1 = (ow_results w)(co \<mapsto> Os_returned pid status)"
      "Suc k \<noteq> 1 \<Longrightarrow> \<exists>t'. ow_tasks w1 a = Some t' \<and> wt_waiters t' = cos"
    using inv_notify [OF Suc.prems(1,2)] Suc.prems(3) by auto
  show ?case
  proof (cases "k = 0")
    case True
    then show ?thesis using n by simp
  next
    case False
    then obtain t' where t': "ow_tasks w1 a = Some t'" "wt_waiters t' = cos" using n(6) by auto
    then show ?thesis using Suc.IH [OF n(3) _ t'(1)] False n by auto
  qed
qed

text \<open>C24: A report for a process that somebody waits for reaches everybody who waits for it. The loop over the waiters ends when each of them was resumed with
  the status, and nobody else got a result.\<close>

theorem os_report_reaches_waiters:
  assumes "os_reachable cancels w" and "ow_stack w = Dispatch caller n # st" and "0 < pid"
    and "\<forall>a \<in> set (notified st). map_of (ow_tree w) pid \<noteq> Some a" and "map_of (ow_tree w) pid = Some a" and "ow_tasks w a = Some t"
  shows "\<exists>w1 w'. dispatch_report memory pid status w = Done w1 \<and> notify_run (length (wt_waiters t)) w1 = Done w' \<and> ow_stack w' = ow_stack w \<and>
    (\<forall>co. ow_results w' co = (if co \<in> set (wt_waiters t) then Some (Os_returned pid status) else ow_results w co))"
proof -
  have inv: "os_inv cancels w" using os_wait.reach_inv assms(1) .
  obtain w1 where w1: "dispatch_report memory pid status w = Done w1" "os_inv cancels w1" using inv_report [OF inv assms(2-4)] by blast
  have "wt_waiter_count t = length (wt_waiters t)" using os_baseD(1) [OF inv] assms(6) by (simp add: tasks_ok_def task_ok_def)
  then have e: "w1 = w\<lparr>ow_reported := (pid, status) # ow_reported w, ow_stack := Notify a pid status (length (wt_waiters t)) # ow_stack w\<rparr>"
    using w1(1) assms(2,5,6) by (simp add: dispatch_report_def task_at_def)
  show ?thesis using notify_run_all [OF w1(2), of a pid status "length (wt_waiters t)" "ow_stack w" t] w1(1) assms(6) by (auto simp: e)
qed

lemma rb_remove_insert: "map_of t k = None \<Longrightarrow> rb_remove k (rb_insert k v t) = t"
proof -
  assume "map_of t k = None"
  moreover have "k \<notin> fst ` set t \<Longrightarrow> filter (\<lambda>x. fst x \<noteq> k) (insort_key fst (k, v) t) = t" by (induction t) (auto simp: filter_id_conv)
  ultimately show ?thesis by (simp add: rb_remove_def rb_insert_def map_of_eq_None_iff)
qed

text \<open>A report that nobody waits for is not lost as long as there is memory. It is kept, and the next call for this process returns it at once and leaves the other statuses as they
  were.\<close>

theorem os_report_kept:
  assumes "ow_stack w = Dispatch caller n # st" and "map_of (ow_tree w) pid = None" and "ow_waiter_list w = []"
    and "map_of (ow_states w) pid = None" and "0 < pid"
  shows "\<exists>w'. dispatch_report True pid status w = Done w' \<and> (let w2 = cat_os__wait_wrapper co pid alive w' in
    ow_results w2 co = Some (Os_returned pid status) \<and> ow_states w2 = ow_states w \<and> ow_watcher_count w2 = ow_watcher_count w)"
  using assms by (simp add: dispatch_report_def cat_os__wait_wrapper_def cat_os__wait_def os_wait_turn_def find_state_def cat_os_wait_sigchld_watcher_start_def
      os_returns_simps rb_remove_insert)

text \<open>The signal is watched exactly as long as somebody waits or looks for a process, and then the module can be shut down.\<close>

theorem os_watch_count:
  assumes "os_reachable cancels w"
  shows "ow_watcher_count w = length (callers (ow_stack w)) + card (dom (ow_frames w)) \<and> finite (dom (ow_frames w)) \<and>
    (ow_watcher_count w = 0 \<longrightarrow> (\<exists>w'. cat_os_wait_runtime_shutdown w = Done w'))"
proof -
  note i = os_baseD [OF os_wait.reach_inv [OF assms]]
  have "ow_tree w = []" if "dom (ow_frames w) = {}"
  proof (rule ccontr)
    assume "ow_tree w \<noteq> []"
    then obtain x xs where "ow_tree w = x # xs" by (cases "ow_tree w") auto
    then obtain p a where "map_of (ow_tree w) p = Some a" using map_of_Cons_code by (cases x) fastforce
    then obtain t where "ow_tasks w a = Some t" using i(1) unfolding tasks_ok_def by blast
    then have "task_ok w a t" using i(1) by (simp add: tasks_ok_def)
    then obtain c where "ow_frames w c = Some (Wait_pid a (wt_pid t))" by (cases "wt_waiters t") (auto simp: task_ok_def)
    then show False using that by auto
  qed
  then show ?thesis using i(4) by (auto simp: count_ok_def cat_os_wait_runtime_shutdown_def c_assert_def)
qed

subsection \<open>Where the code goes wrong\<close>

text \<open>A waiter for a process that is canceled returns as if the process had ended, with the status zero of a task that was never notified.\<close>

theorem waitpid_cancel_returns:
  assumes "ow_frames w co = Some (Wait_pid a pid)" and "ow_tasks w a = Some t" and "wt_pid t = pid" and "wt_status t = 0"
  shows "\<exists>w'. os_wait_return co None w = Done w' \<and> ow_results w' co = Some (Os_returned pid 0)"
  using assms by (simp add: os_wait_return_def task_at_def c_assert_def os_returns_simps)

text \<open>A second report for a process whose status is kept is lost.\<close>

theorem second_report_lost:
  assumes "ow_stack w = Dispatch caller n # st" and "map_of (ow_tree w) pid = None" and "ow_waiter_list w = []" and "map_of (ow_states w) pid = Some status"
  shows "\<exists>w'. dispatch_report True pid status' w = Done w' \<and> ow_states w' = ow_states w \<and> ow_stack w' = Dispatch caller (n + 1) # st"
  using assms by (simp add: dispatch_report_def rb_insert_def)

text \<open>Without the first rule the loop over the waiters reads a task that was freed: the first of two waiters resumes the second.\<close>

theorem notify_reads_freed_task:
  assumes "os_reachable cancels w" and st: "ow_stack w = Notify a pid status 2 # st" and t: "ow_tasks w a = Some t" and ws: "wt_waiters t = [c1, c2]"
  shows "\<exists>w1 w2. notify_next w = Done w1 \<and> os_wait_return c2 failed w1 = Done w2 \<and> notify_next w2 = Undefined"
proof -
  have inv: "os_inv cancels w" using os_wait.reach_inv assms(1) .
  obtain w1 t' where n: "notify_next w = Done w1" "os_inv cancels w1" "ow_stack w1 = Notify a pid status 1 # st" "ow_tasks w1 a = Some t'" "wt_waiters t' = [c2]"
    using inv_notify [OF inv st] t ws by auto
  then have "task_ok w1 a t'" using os_baseD(1) [OF n(2)] by (simp add: tasks_ok_def)
  then have "ow_frames w1 c2 = Some (Wait_pid a (wt_pid t'))" "wt_waiter_count t' = 1" using n(5) by (auto simp: task_ok_def)
  then obtain w2 where "os_wait_return c2 failed w1 = Done w2" "ow_tasks w2 a = None" "ow_stack w2 = ow_stack w1"
    using n(4) by (simp add: os_wait_return_def task_at_def c_assert_def os_returns_simps)
  then show ?thesis using n(1,3) by (auto simp: notify_next_def task_at_def)
qed

subsection \<open>Witnesses\<close>

datatype os_call = O_call nat int bool | O_signal | O_report int int | O_end bool "addr option" | O_notify | O_resume nat "cat_errno option"

definition os_do :: "os_call \<Rightarrow> os_world \<Rightarrow> os_world c_run" where
  "os_do c w =
     (case c of
        O_call co pid alive \<Rightarrow> c_assert (ow_frames w co = None \<and> co \<notin> set (callers (ow_stack w))) (Done (cat_os__wait_wrapper co pid alive w))
      | O_signal \<Rightarrow> c_assert (0 < ow_watcher_count w) (Done (cat_os_wait_sigchld_handler w))
      | O_report pid status \<Rightarrow> c_assert (0 < pid \<and> (\<forall>a \<in> set (notified (tl (ow_stack w))). map_of (ow_tree w) pid \<noteq> Some a)) (dispatch_report True pid status w)
      | O_end alive fresh \<Rightarrow> c_assert (fresh_ok w fresh) (dispatch_end alive fresh w)
      | O_notify \<Rightarrow> notify_next w
      | O_resume co failed \<Rightarrow> c_assert (ow_frames w co \<noteq> None \<and> notified (ow_stack w) = [] \<and> failed \<noteq> None) (os_wait_return co failed w))"

fun os_run :: "os_call list \<Rightarrow> os_world \<Rightarrow> os_world c_run" where
  "os_run [] w = Done w"
| "os_run (c # cs) w = c_bind (os_do c w) (os_run cs)"

lemma report_stack: "dispatch_report memory pid status w = Done w' \<Longrightarrow> \<exists>caller n. ow_stack w = Dispatch caller n # tl (ow_stack w)"
  by (auto simp: dispatch_report_def split: list.splits os_rest.splits)

lemma end_stack: "dispatch_end alive fresh w = Done w' \<Longrightarrow> \<exists>caller n. ow_stack w = Dispatch caller n # tl (ow_stack w)"
  by (auto simp: dispatch_end_def split: list.splits os_rest.splits)

lemma notify_stack: "notify_next w = Done w' \<Longrightarrow> \<exists>a pid status k. ow_stack w = Notify a pid status k # tl (ow_stack w)"
  by (auto simp: notify_next_def split: list.splits os_rest.splits)

lemma os_do_step: "os_do c w = Done w' \<Longrightarrow> os_step cancels w w'"
proof (cases c)
  case (O_report pid status)
  assume "os_do c w = Done w'"
  then show ?thesis using O_report os_step.report [of w _ _ "tl (ow_stack w)"] report_stack [of True pid status w w']
    by (auto simp: os_do_def c_assert_def split: if_splits)
next
  case (O_end alive fresh)
  assume "os_do c w = Done w'"
  then show ?thesis using O_end os_step.dispatched [of w _ _ "tl (ow_stack w)"] end_stack [of alive fresh w w']
    by (auto simp: os_do_def c_assert_def split: if_splits)
next
  case O_notify
  assume "os_do c w = Done w'"
  then show ?thesis using O_notify os_step.notify [of w _ _ _ _ "tl (ow_stack w)"] notify_stack [of w w'] by (auto simp: os_do_def)
qed (auto simp: os_do_def c_assert_def intro: os_step.intros split: if_splits)

lemma os_run_reach: "os_reachable cancels w \<Longrightarrow> os_run cs w = Done w' \<Longrightarrow> os_reachable cancels w'"
proof (induction cs arbitrary: w)
  case (Cons c cs)
  then obtain w1 where w1: "os_do c w = Done w1" "os_run cs w1 = Done w'" by (auto simp: c_bind_Done_iff)
  then have "os_reachable cancels w1" using Cons.prems(1) os_do_step reach_step by metis
  then show ?case using Cons.IH w1(2) by blast
qed simp

definition os_example :: os_world where
  "os_example = cat_os_wait_runtime_init \<lparr>ow_watcher_count = 0, ow_waiter_list = [], ow_wait_tasks = (\<lambda>_. (-1, 0)), ow_tasks = (\<lambda>_. None), ow_tree = [],
     ow_states = [], ow_frames = (\<lambda>_. None), ow_results = (\<lambda>_. None), ow_stack = [], ow_reported = []\<rparr>"

lemma os_run_example:
  assumes "case os_run cs os_example of Done w \<Rightarrow> P w | _ \<Rightarrow> False"
  obtains w where "os_reachable cancels w" "P w"
proof -
  have "os_start os_example" by (auto simp: os_start_def os_example_def)
  then have r: "os_reachable cancels os_example" by (rule reach_start)
  obtain w where "os_run cs os_example = Done w" "P w" using assms by (cases "os_run cs os_example") auto
  then show thesis using that os_run_reach [OF r] by blast
qed

theorem os_wait_calls_return_witness: "\<exists>w w' a pid k st. os_reachable True w \<and> ow_stack w = Notify a pid 3 k # st \<and> notify_next w = Done w'"
proof (rule os_run_example [where cancels = True])
  show "case os_run [O_call 1 7 True, O_end True (Some 20), O_signal, O_report 7 3] os_example of
      Done w \<Rightarrow> ow_stack w = [Notify 20 7 3 1, Dispatch None 0] | _ \<Rightarrow> False" by code_simp
qed (use os_wait_calls_return [of True _ True 3 True None] in metis)

theorem os_status_reported_witness: "\<exists>w. os_reachable False w \<and> ow_results w 1 = Some (Os_returned 7 3) \<and> (7, 3) \<in> set (ow_reported w)"
proof (rule os_run_example [where cancels = False])
  show "case os_run [O_call 1 7 True, O_end True (Some 20), O_signal, O_report 7 3, O_notify] os_example of
      Done w \<Rightarrow> ow_results w 1 = Some (Os_returned 7 3) | _ \<Rightarrow> False" by code_simp
qed (use os_status_reported [of _ 1 7 3] in auto)

theorem os_report_reaches_waiters_witness:
  "\<exists>w w1 w'. os_reachable True w \<and> dispatch_report True 7 3 w = Done w1 \<and> notify_run 2 w1 = Done w' \<and>
    ow_results w' 1 = Some (Os_returned 7 3) \<and> ow_results w' 2 = Some (Os_returned 7 3)"
proof (rule os_run_example [where cancels = True])
  show "case os_run [O_call 1 7 True, O_end True (Some 20), O_call 2 7 True, O_end True (Some 21), O_signal] os_example of
      Done w \<Rightarrow> ow_stack w = [Dispatch None 0] \<and> map_of (ow_tree w) 7 = Some 20 \<and>
        ow_tasks w 20 = Some \<lparr>wt_pid = 7, wt_status = 0, wt_waiter_count = 2, wt_waiters = [1, 2]\<rparr> | _ \<Rightarrow> False" by code_simp
  fix w
  assume r: "os_reachable True w" and w: "ow_stack w = [Dispatch None 0] \<and> map_of (ow_tree w) 7 = Some 20 \<and>
    ow_tasks w 20 = Some \<lparr>wt_pid = 7, wt_status = 0, wt_waiter_count = 2, wt_waiters = [1, 2]\<rparr>"
  have "\<exists>w1 w'. dispatch_report True 7 3 w = Done w1 \<and> notify_run (length [1, 2 :: nat]) w1 = Done w' \<and> ow_stack w' = ow_stack w \<and>
      (\<forall>co. ow_results w' co = (if co \<in> set [1, 2] then Some (Os_returned 7 3) else ow_results w co))"
    using os_report_reaches_waiters [OF r, of None 0 "[]" 7 20 _ True 3] w by simp
  then show ?thesis using r by (auto simp: numeral_2_eq_2)
qed

definition os_looking :: os_world where
  "os_looking = cat_os__wait_wrapper 1 (-1) True os_example"

theorem os_report_kept_witness:
  "\<exists>w'. dispatch_report True 9 4 os_looking = Done w' \<and> ow_results (cat_os__wait_wrapper 2 9 True w') 2 = Some (Os_returned 9 4)"
proof -
  have "ow_stack os_looking = [Dispatch (Some (1, -1)) 0]" "map_of (ow_tree os_looking) 9 = None" "ow_waiter_list os_looking = []"
      "map_of (ow_states os_looking) 9 = None" by code_simp+
  then show ?thesis using os_report_kept [of os_looking "Some (1, -1)" 0 "[]" 9 4 2 True] by (auto simp: Let_def)
qed

theorem os_watch_count_witness: "\<exists>w w'. os_reachable True w \<and> ow_reported w = [(7, 3)] \<and> cat_os_wait_runtime_shutdown w = Done w'"
proof (rule os_run_example [where cancels = True])
  show "case os_run [O_call 1 7 True, O_end True (Some 20), O_signal, O_report 7 3, O_notify, O_end True (Some 20)] os_example of
      Done w \<Rightarrow> ow_watcher_count w = 0 \<and> ow_reported w = [(7, 3)] | _ \<Rightarrow> False" by code_simp
qed (use os_watch_count in blast)

end
