(* ===== verification/Spec2Isabelle.thy ===== *)
theory Spec2Isabelle
  imports Cat_Queue Cat_Memory Cat_Buffer Cat_String Cat_Websocket Cat_Coroutine Cat_Channel Cat_Http
    Cat_Sync Uv_Heap Uv_Timer Cat_Event Cat_Time Multipart_Session
    Cat_Socket_Io Cat_Work Cat_Async Cat_Os_Wait
begin

text \<open>
  A verification development for libcat, a C library of coroutines, channels and event driven input and
  output. The program's own code is in \<^verbatim>\<open>src/src\<close> and \<^verbatim>\<open>src/include\<close>; \<^verbatim>\<open>src/deps/libuv\<close> is the event loop it
  is built on, in a version changed for it.

  \<^bold>\<open>The program.\<close> A coroutine is a stack of its own; the library keeps the live coroutines of a thread in one
  chain that ends in the running one (\<^verbatim>\<open>cat_coroutine.c\<close>). A coroutine that waits yields to another one, and
  whoever makes its wait come true resumes it: the partner on a channel (\<^verbatim>\<open>cat_channel.c\<close>), the last
  \<^verbatim>\<open>done\<close> of a wait group (\<^verbatim>\<open>cat_sync.c\<close>), or the event loop when a timer is due (\<^verbatim>\<open>cat_time.c\<close> on libuv's
  \<^verbatim>\<open>timer.c\<close> and \<^verbatim>\<open>heap-inl.h\<close>). \<^verbatim>\<open>cat_event.c\<close> runs tasks behind the I/O events of a round, in the next round and
  at shutdown. Waiting coroutines and tasks stand in the intrusive queues of \<^verbatim>\<open>cat_queue.h\<close>. Beside this core
  there are services without a schedule of their own: growing buffers (\<^verbatim>\<open>cat_buffer.c\<close>), strings
  (\<^verbatim>\<open>cat_string.c\<close>), memory helpers (\<^verbatim>\<open>cat_memory.c\<close>), websocket frames (\<^verbatim>\<open>cat_websocket.c\<close>) and the callbacks
  and the media type parser around the HTTP parser (\<^verbatim>\<open>cat_http.c\<close>, \<^verbatim>\<open>cat_http_content_type.c\<close>), which hand a
  multipart body to the parser of \<^verbatim>\<open>deps/multipart-parser-c\<close>. A socket (\<^verbatim>\<open>cat_socket.c\<close>) has addresses, options and
  timeouts; a coroutine that reads from it or writes to it waits until the callbacks of the event loop resume it.
  Work that would block is given to the thread pool of libuv (\<^verbatim>\<open>cat_work.c\<close>, \<^verbatim>\<open>threadpool.c\<close>), and another thread tells a
  coroutine that it is done through an async object (\<^verbatim>\<open>cat_async.c\<close>). The statuses of child processes are handed to the coroutines
  that wait for them (\<^verbatim>\<open>cat_os_wait.c\<close>).

  \<^bold>\<open>The theories.\<close> Each models one part and opens with what it holds.

  \<^item> \<open>Cat_Prelude\<close>: the C integer types as words, the outcome \<open>c_run\<close> of running C code (\<open>Done\<close>, \<open>Diverges\<close>,
    \<open>Undefined\<close>), the error codes, blocks of bytes, the locale \<open>machine\<close> of state machines with an
    invariant.
  \<^item> \<open>Cat_Queue\<close>: the queue macros on a heap of links. They implement list operations under any legal
    sequence of calls; the locale \<open>fifo_queue\<close> is what the clients rely on.
  \<^item> \<open>Cat_Memory\<close>: alignment, pages, bit counts and byte order.
  \<^item> \<open>Cat_Buffer\<close>: every operation of a buffer, over an allocator that may fail (locale
    \<open>buffer_allocator\<close>). Each either does to the contents what it says or reports ENOMEM and changes
    nothing.
  \<^item> \<open>Cat_String\<close>: bounded searches, quoting, the header list search, the comparison macros. What quoting
    prints is a C literal: a reader that refuses bare quotes and control bytes reads the quoted bytes from it and stops at the closing quote.
  \<^item> \<open>Cat_Websocket\<close>: the frame header as bytes and the word-wise masking. The header is byte by byte the one of RFC 6455, with
    lengths in network order, and masking is the byte-wise definition of the protocol.
  \<^item> \<open>Cat_Coroutine\<close>: creation, resume, yield, termination, close, the registration of the scheduler,
    wait-all and notify-all on a heap of coroutine objects. Every reachable state is one chain that ends in
    the running coroutine; the code of a coroutine between two calls is arbitrary.
  \<^item> \<open>Cat_Channel\<close>: push, pop, close, cleanup and select on buffered and unbuffered channels, with the
    operations of waiting coroutines as frames that the waking side runs to their end; the loops of close and cleanup resume one
    waiter per step, and whatever the resumed coroutines do before the loop goes on are steps in between. As long as no
    select has to wait, in every reachable state a channel is a bounded FIFO, no assertion of the code can fail, and a close ends with nobody waiting.
    What a select that waits can do is shown by example.
  \<^item> \<open>Cat_Http\<close>: the labels of the media type parser as functions, run one after the other, and the header
    callbacks that detect multipart bodies. The parser ends on every chunk and stays inside its array.
  \<^item> \<open>Cat_Multipart\<close>: the parser of multipart bodies, one definition per state of its \<^verbatim>\<open>switch\<close>, its error
    messages, and the callbacks through which the HTTP parser is told. It ends and stays inside its array
    whatever its input and its callbacks are.
  \<^item> \<open>Multipart_Format\<close>: what a multipart message is, as an automaton over single bytes, and that it reads what
    is printed from parts. \<open>Multipart_Refine\<close>: a call of the parser refines the automaton for any client that
    pauses it (locale \<open>multipart_client\<close>), by an invariant of the loop with one lemma per state.
    \<open>Multipart_Session\<close>: the callbacks of \<^verbatim>\<open>cat_http.c\<close> are such a client, and a body that arrives in any
    pieces is delivered as its parts.
  \<^item> \<open>Cat_Sync\<close>: wait groups. The counter is what was added and is not yet done, and the call that finishes
    the work wakes the waiter.
  \<^item> \<open>Uv_Heap\<close>: the heap of the timers at the level of its pointers, shown to be a priority queue for any strict
    weak order (locale \<open>heap_order\<close>) by way of the array algorithm on positions.
  \<^item> \<open>Uv_Timer\<close>: timers, their handles and a round of the loop. A pass over the timers ends whatever the
    callbacks do, fires due timers once and in order, and a round misses no timer that was due when it began.
  \<^item> \<open>Cat_Event\<close>: shutdown tasks, I/O tasks and loop defer tasks, on the queues and timers above. Tasks whose callbacks end and
    neither create nor close tasks are all called once and in order; what closing a task does is shown separately.
  \<^item> \<open>Cat_Time\<close>: waits, delays and sleeps, and the text of a duration. However a wait ends, its timer is
    given back.
  \<^item> \<open>Uv_Inet\<close>: the text of IPv4 and IPv6 addresses, printed and parsed (libuv's \<^verbatim>\<open>inet.c\<close>). What is printed reads
    back as the same address, and the IPv4 parser accepts exactly what is printed.
  \<^item> \<open>Cat_Sockaddr\<close>: socket addresses as the bytes of their objects, their names, ports and lookups by name
    (\<^verbatim>\<open>cat_socket.c\<close>, \<^verbatim>\<open>uv-common.c\<close>). A name looked up again is the same address, and a lookup stays inside the
    object it was given.
  \<^item> \<open>Cat_Socket\<close>: the types of sockets, their timeouts, options and states, the checks in front of an operation, and
    reading, with the results of the system calls and the callbacks of the event loop as its input. A read delivers
    the bytes of the stream in their order and leaves the socket ready for the next one; its count is right unless it
    ends in an error other than a cancellation.
  \<^item> \<open>Cat_Socket_Io\<close>: writing, closing and the coroutines that wait on a socket, as a state machine of calls,
    resumptions and callbacks, with socket objects that the library frees. For sockets that transfer data and write through libuv:
    no call goes wrong in a reachable state under the rules for the caller (no use of a freed socket object, no second close of an
    allocated one while it is being closed, local addresses for UDP in full size), closing resumes everybody whatever the resumed coroutines do, and
    nothing is left when the internal socket is freed, but for a request that libuv refused. Local datagram sockets, which write with
    \<^verbatim>\<open>sendmsg\<close> and poll, are modelled and excluded from these theorems: queued writers never write and a polling one outlives the internal socket.
    Of \<^verbatim>\<open>bind\<close>, \<^verbatim>\<open>accept\<close> and \<^verbatim>\<open>connect\<close> only the cancellation by close is modelled.
  \<^item> \<open>Uv_Threadpool\<close>: the threads of the pool as a state machine over its queues, mutex and condition variable, with
    spurious wake-ups. No signal is lost, so as long as the threads are not told to end every item runs exactly once and comes back to the loop; slow work never takes more than half of them;
    an item runs once or is cancelled.
  \<^item> \<open>Cat_Work\<close>: calls that wait for an item of the pool, on the machine of the pool. An item is run at most once, cleaned
    up once and freed, and a call returns success only when its function has run.
  \<^item> \<open>Cat_Async\<close>: an async object with its handle, its waiting coroutine and the thread that notifies it. With the rule
    that its callers follow it is cleaned up and freed exactly once.
  \<^item> \<open>Cat_Os_Wait\<close>: waiting for child processes, with the answers of the kernel as input and dispatchers that nest. A
    report reaches all who wait for the process, or one who waits for any, or is kept for the next call; under two rules
    for the resumed coroutines no task is used that was freed. The allocation of a task or of a saved status may fail.

  This theory adds what spans components: wait groups that wait with a timeout, and multipart requests from the
  content type header to the parts of the body.

  \<^bold>\<open>How the code is rendered.\<close> A struct is a record, an enumeration a datatype, an integer a word of its
  width; pointers are addresses into explicit stores wherever the code changes linked objects. A function
  that can fail returns \<open>Inl\<close> of the error it sets. A loop that may run for ever is a partial function with
  the value \<open>None\<close>, and then it is proved that it ends, or on which inputs it does not. A call that suspends
  the running coroutine is split at the suspension: the state keeps what the rest of the call needs, and
  the rest is a definition of its own, run by whoever resumes the coroutine; in the time component the yield
  itself is a parameter. What callbacks of a user do is a parameter too, with what is asked of it as a named
  hypothesis. Reading or writing outside an object, dereferencing a null pointer and violating a
  \<^verbatim>\<open>CAT_ASSERT\<close> (release builds turn it into an assumption of the compiler) are \<open>Undefined\<close>.

  \<^bold>\<open>Bounds.\<close> The platform has 64-bit pointers and is little-endian. The forward walks over a queue take fuel,
  and the length of the queue is enough. The heap counts its nodes in 32 bits, so it is used with fewer than
  \<open>2 ^ 32\<close> timers; the start numbers of timers and the rounds of the loop are 64-bit counters, and where their
  order matters it is assumed that they have not wrapped. Allocation succeeds where the default configuration
  aborts otherwise; in buffers and in the waits for processes, where the code handles the failure always, it may fail.

  \<^bold>\<open>Not modelled.\<close> Parts that only call the operating system or another library: opening, binding, connecting and accepting of
  sockets, files, DNS, starting processes, signals, polling, TLS, libcurl and libpq glue, logging, environment variables
  and the module life cycle. The stack allocation and the machine context switch of coroutines, the polling
  phase and the other handle kinds of libuv, and llhttp. Functions that compute
  in floating point (\<^verbatim>\<open>cat_time_usleep\<close>, \<^verbatim>\<open>cat_time_nanosleep\<close>, the text of \<^verbatim>\<open>%f\<close>).
\<close>

section \<open>Wait groups on timers\<close>

text \<open>The body of \<^verbatim>\<open>cat_sync_wait_group_wait\<close> with the wait of \<^verbatim>\<open>cat_time_wait\<close> in it: \<open>others\<close> is what other
  coroutines do to the group while this one is suspended.\<close>

definition wait_group_wait_timed ::
  "yield_fun \<Rightarrow> (cat_sync_wait_group_t \<Rightarrow> cat_sync_wait_group_t) \<Rightarrow> addr \<Rightarrow> nat \<Rightarrow> cat_timeout_t \<Rightarrow>
   cat_sync_wait_group_t \<Rightarrow> time_world \<Rightarrow> ((cat_errno + unit) \<times> cat_sync_wait_group_t \<times> time_world) c_run" where
  "wait_group_wait_timed yield others tmr co timeout wg w =
     (case cat_sync_wait_group_wait co wg of
        (Some r, wg) \<Rightarrow> Done (r, wg, w)
      | (None, wg) \<Rightarrow>
          c_bind (cat_time_wait yield tmr co timeout w) (\<lambda>(waited, w).
            let (r, wg) = wait_group_return co waited (others wg)
            in Done (r, wg, w)))"

text \<open>C29: A wait with a timeout on a group that has work left and nobody waiting. When the time is over first, it
  fails with ETIMEDOUT; when it is canceled before the work is done, with ECANCELED; when the work was
  finished first, it succeeds. Each time the group is free for the next wait and the timer is given
  back.\<close>

theorem wait_group_with_timeout:
  assumes "wg_reachable wg" "wg_coroutine wg = None" "0 < wg_added wg - wg_done wg"
    and "free_timer tmr w" "leaves_timer tmr env" "0 \<le> timeout"
    and others: "others (wg\<lparr>wg_coroutine := Some co\<rparr>) = wg'" "wg_count wg' = 0 \<longleftrightarrow> work_over"
  shows "\<exists>r wg2 w2. wait_group_wait_timed (suspend how env tmr timeout) others tmr co timeout wg w = Done (r, wg2, w2) \<and>
    wg_coroutine wg2 = None \<and> wg_count wg2 = wg_count wg' \<and> given_back tmr w2 \<and>
    r = (case how of Refused e \<Rightarrow> Inl e | Fired \<Rightarrow> Inl CAT_ETIMEDOUT
         | Resumed \<Rightarrow> if work_over then Inr () else Inl CAT_ECANCELED)"
proof -
  have "0 < sint (wg_count wg)" using wg.reach_inv [OF assms(1)] assms(3) by (simp add: wg_inv_def)
  then have "wg_count wg \<noteq> 0" by auto
  then have wait: "cat_sync_wait_group_wait co wg = (None, wg\<lparr>wg_coroutine := Some co\<rparr>)"
    using assms(2) by (simp add: cat_sync_wait_group_wait_def word_neq_0_conv)
  obtain w2 where w2: "cat_time_wait (suspend how env tmr timeout) tmr co timeout w =
      Done (case how of Refused e \<Rightarrow> Inl e | Fired \<Rightarrow> Inl CAT_ETIMEDOUT | Resumed \<Rightarrow> Inr (), w2)" "given_back tmr w2"
    using time_wait_spec [OF assms(4-6), of how co] by blast
  show ?thesis using wait w2 others
    by (cases how) (auto simp: wait_group_wait_timed_def wait_group_return_def Let_def)
qed

theorem wait_group_with_timeout_witness:
  "\<exists>wg2 w2. wait_group_wait_timed (suspend Fired id 9 50) id 9 2 50
     (snd (cat_sync_wait_group_add 2 cat_sync_wait_group_create)) time_example = Done (Inl CAT_ETIMEDOUT, wg2, w2) \<and>
   wg_coroutine wg2 = None"
proof -
  let ?wg = "snd (cat_sync_wait_group_add 2 cat_sync_wait_group_create)"
  have "wg_reachable cat_sync_wait_group_create" by (simp add: reach_start)
  moreover have "wg_step cat_sync_wait_group_create ?wg" by (rule wg_step.add) (rule prod.collapse [symmetric])
  ultimately have r: "wg_reachable ?wg" by (rule reach_step)
  have e: "?wg = \<lparr>wg_coroutine = None, wg_count = 2, wg_added = 2, wg_done = 0, wg_results = []\<rparr>" by code_simp
  show ?thesis
    using wait_group_with_timeout [OF r _ _ time_example_free leaves_timer_id, of 50 id 2 _ False Fired] by (auto simp: e)
qed

section \<open>Multipart requests\<close>

text \<open>C9: from the content type header to the parts. When the first header of a message is a content type (in any
  case) of a multipart media type with the boundary \<open>b\<close>, the parser keeps this boundary when the headers are
  complete, pauses at the body, and the multipart parser, initialised with the boundary the headers left in the
  shared array, hands a client that subscribed to the multipart events exactly the parts of the body,
  however the body is cut into pieces.\<close>

theorem multipart_request:
  assumes "media_type_ok m t ws nm quoted b" and "eq_ci field content_type_str"
    and "multipart_enabled h" and "hp_multipart_state h = STATE_START" and "length (hp_multipart_header h) = 12"
    and "length (hp_boundary h) = BOUNDARY_SIZE" and "body \<noteq> []"
    and "subscribed hb" and "hb_event hb = EVENT_NONE"
    and "ps \<noteq> []" and "\<forall>q\<in>set ps. part_ok (HYPHEN # HYPHEN # b) q"
    and "concat chunks = multipart_message (HYPHEN # HYPHEN # b) ps epilogue" and "length (concat chunks) < 2 ^ 64"
  shows "\<exists>h1 e h2 p h' rest es.
    on_header field (media_type m t ws nm quoted b) tail h = Done h1 \<and>
    cat_http_parser_on_headers_complete h1 = Done (e, h2) \<and> fst (cat_http_parser_on_body body h2) \<and>
    multipart_parser_init None (p0\<lparr>mp_boundary := hp_boundary h1, mp_boundary_length := hp_boundary_length h1\<rparr>) = Done (True, p) \<and>
    mp_boundary p = hp_boundary h2 \<and>
    feed (hb\<lparr>hb_multipart := p\<rparr>) [] chunks = Some (h', rest, es) \<and> merge_reports es = message_reports ps"
proof -
  obtain h1 where h1: "on_header field (media_type m t ws nm quoted b) tail h = Done h1"
    "hp_boundary_length h1 = 2 + length b" "take (2 + length b) (hp_boundary h1) = 45 # 45 # b"
    "length (hp_boundary h1) = BOUNDARY_SIZE" "multipart_enabled h1"
    "hp_state h1 \<in> {mt_parameter_ows1_acceptable, mt_boundary_literal_value_acceptable}"
    using content_type_header [OF assms(1-6)] by blast
  have "\<not> quoted_bchar CR" "\<not> literal_bchar CR"
    by (simp_all add: literal_bchar_def quoted_bchar_def digit_case_def alpha_case_def)
  then have b: "b \<noteq> []" "CR \<notin> set b" "length b \<le> BOUNDARY_MAX_LEN"
    using assms(1) by (auto simp: media_type_ok_def list_all_iff split: if_splits)
  let ?arr = "take (2 + length b) (hp_boundary h1) @ replicate (BOUNDARY_SIZE - (2 + length b)) 0"
  obtain e h2 where h2: "cat_http_parser_on_headers_complete h1 = Done (e, h2)" "hp_boundary h2 = ?arr"
    "fst (cat_http_parser_on_body body h2)"
    using h1 b(1) assms(7)
    by (auto simp: cat_http_parser_on_headers_complete_def cat_http_parser_multipart_parse_content_type_def
      on_event_end_def cat_http_parser_on_body_def Let_def)
  obtain p where p: "multipart_parser_init None (p0\<lparr>mp_boundary := hp_boundary h1, mp_boundary_length := hp_boundary_length h1\<rparr>) =
      Done (True, p)" "mp_boundary p = ?arr" "mp_boundary_length p = 2 + length b" "mp_state p = s_start"
    using h1(2,4) b(3) by (simp add: multipart_parser_init_def)
  have "mp_wf (HYPHEN # HYPHEN # b) p" using p h1(3,4) b by (simp add: mp_wf_def)
  then have "\<exists>h' rest es. feed (hb\<lparr>hb_multipart := p\<rparr>) [] chunks = Some (h', rest, es) \<and> merge_reports es = message_reports ps"
    using assms(8-13) p(4) by (intro session_ok) auto
  then show ?thesis using h1(1) h2 p(1,2) by metis
qed

theorem multipart_request_witness:
  "\<exists>h1 e h2 p h' rest es. on_header content_type_str example_type [] fresh_parser = Done h1 \<and>
     cat_http_parser_on_headers_complete h1 = Done (e, h2) \<and>
     feed (body_host\<lparr>hb_multipart := p\<rparr>) [] [multipart_message [45, 45, 88, 58] [([], [120])] []] = Some (h', rest, es) \<and>
     merge_reports es = [Part_begin, Headers_end, Part_body [120], Part_end, Message_end]"
proof -
  have "eq_ci content_type_str content_type_str" by (simp add: eq_ci_def)
  moreover have "\<forall>q\<in>set [([], [120])]. part_ok [45, 45, 88, 58] q"
    by (simp add: part_ok_def sublist_Cons_right)
  ultimately show ?thesis
    using multipart_request [OF example_type_ok, of content_type_str fresh_parser "[1]" body_host "[([], [120])]"
        "[multipart_message [45, 45, 88, 58] [([], [120])] []]" "[]" "[]" zero_parser] body_host_ok
    by (force simp: example_type_def fresh_parser_def multipart_enabled_def multipart_message_def part_text_def
      message_reports_def part_reports_def)
qed

end
